(* ===== verification/Prelude.thy ===== *)
theory Prelude
  imports Main "HOL-Library.Word" "HOL-Library.Monad_Syntax"
begin

text \<open>
  Shared vocabulary of the development: the machine integer types of the Rust sources,
  panicking arithmetic (the arithmetic of a build with overflow checks: an overflow, a failed
  assertion and an index out of range are all the value \<^term>\<open>None\<close>), the number a
  little-endian list of machine words stands for, and the generic lemmas on lists and words
  that the component theories use.
\<close>

unbundle bit_operations_syntax

named_theorems limb_simps \<open>values and lengths of word lists\<close>
named_theorems panic_simps \<open>when a panicking operation returns, and with which value\<close>

type_synonym u8 = "8 word"
type_synonym u16 = "16 word"
type_synonym u32 = "32 word"
type_synonym u64 = "64 word"
type_synonym u128 = "128 word"
type_synonym bytes = "u8 list"

text \<open>The type of code that may panic.\<close>

type_synonym 'a may_panic = "'a option"

abbreviation panic :: "'a may_panic" where
  "panic \<equiv> None"

text \<open>Rust's \<^verbatim>\<open>assert!\<close> and \<^verbatim>\<open>debug_assert!\<close>.\<close>

definition rust_assert :: "bool \<Rightarrow> unit may_panic" where
  "rust_assert P = (if P then Some () else panic)"

lemma rust_assert_simps [simp]:
  "rust_assert True = Some ()" "rust_assert False = None"
  by (simp_all add: rust_assert_def)

lemma rust_assert_bind: "P \<Longrightarrow> rust_assert P \<bind> f = f ()"
  by (simp add: rust_assert_def)


subsection \<open>The radix of a machine word\<close>

text \<open>
  The radix is kept opaque to the simplifier, so that \<open>2 ^ 64\<close> does not turn into
  a twenty-digit numeral in the middle of a proof.
\<close>

definition radix :: "'a::len itself \<Rightarrow> nat" where
  "radix _ = 2 ^ LENGTH('a)"

abbreviation B :: nat where
  "B \<equiv> radix TYPE(64)"

lemma radix_pos [simp]: "0 < radix TYPE('a::len)"
  by (simp add: radix_def)

lemma radix_gt_1 [simp]: "Suc 0 < radix TYPE('a::len)"
  using one_less_power [of "2 :: nat" "LENGTH('a)"] by (simp add: radix_def)

lemma radix_neq_0 [simp]: "radix TYPE('a::len) \<noteq> 0"
  by (simp add: radix_def)

lemma radix_neq_1 [simp]: "radix TYPE('a::len) \<noteq> Suc 0"
  using radix_gt_1 [where 'a = 'a] by linarith

lemma radix_ge_2: "2 \<le> radix TYPE('a::len)"
  using radix_gt_1 [where 'a = 'a] by linarith

lemma unat_lt_radix: "unat (x :: 'a::len word) < radix TYPE('a)"
  by (simp add: radix_def)

lemma unat_le_radix: "unat (x :: 'a::len word) \<le> radix TYPE('a)"
  using unat_lt_radix [of x] by linarith

lemma uint_bounds_radix: "0 \<le> uint (x :: 'a::len word)" "uint x < int (radix TYPE('a))"
proof -
  show "0 \<le> uint x" by simp
  have "int (unat x) < int (radix TYPE('a))" by (simp only: of_nat_less_iff unat_lt_radix)
  then show "uint x < int (radix TYPE('a))" by simp
qed

lemma unat_of_nat_radix: "unat (of_nat n :: 'a::len word) = n mod radix TYPE('a)"
  by (simp add: radix_def unat_of_nat)

lemma unat_of_nat_lt: "n < radix TYPE('a) \<Longrightarrow> unat (of_nat n :: 'a::len word) = n"
  by (simp add: unat_of_nat_radix)

lemma unat_add_radix:
  "unat (a + b :: 'a::len word) = (unat a + unat b) mod radix TYPE('a)"
  by (simp add: radix_def unat_word_ariths)

lemma unat_mult_radix:
  "unat (a * b :: 'a::len word) = (unat a * unat b) mod radix TYPE('a)"
  by (simp add: radix_def unat_word_ariths)

lemma unat_sub_radix:
  "unat (a - b :: 'a::len word) =
     (if unat b \<le> unat a then unat a - unat b else radix TYPE('a) + unat a - unat b)"
  by (simp add: radix_def unat_sub_if' add.commute)

lemma unat_minus_one_radix: "unat (- 1 :: 'a::len word) = radix TYPE('a) - 1"
  by (simp add: radix_def unsigned_minus_1_eq_mask mask_eq_exp_minus_1)

lemma unat_ucast_radix: "unat (ucast (w :: 'a::len word) :: 'b::len word) = unat w mod radix TYPE('b)"
  by (simp add: radix_def unsigned_ucast_eq take_bit_eq_mod)

lemma unat_ucast_up:
  "LENGTH('a) \<le> LENGTH('b) \<Longrightarrow> unat (ucast (w :: 'a::len word) :: 'b::len word) = unat w"
proof -
  assume "LENGTH('a) \<le> LENGTH('b)"
  then have "radix TYPE('a) \<le> radix TYPE('b)" by (simp add: radix_def)
  then show ?thesis using unat_lt_radix [of w] by (simp add: unat_ucast_radix)
qed

lemma B_eq: "B = 2 ^ 64"
  by (simp add: radix_def)

lemma B_power: "B ^ w = 2 ^ (64 * w)"
  by (simp only: B_eq power_mult)

lemma unat_take_bit: "unat (take_bit k (w :: 'a::len word)) = unat w mod 2 ^ k"
  unfolding unsigned_take_bit_eq by (simp add: take_bit_eq_mod)

lemma unat_drop_bit: "unat (drop_bit k (w :: 'a::len word)) = unat w div 2 ^ k"
  unfolding unat_drop_bit_eq by (simp add: drop_bit_eq_div)

lemma unat_push_bit: "unat (push_bit k (w :: 'a::len word)) = unat w * 2 ^ k mod radix TYPE('a)"
proof -
  have "push_bit k w = of_nat (unat w * 2 ^ k)" by (simp add: push_bit_eq_mult)
  then show ?thesis by (simp only: unat_of_nat_radix)
qed

lemma byte_nibbles:
  "drop_bit 4 b < (16 :: 8 word)" "b AND 0xf < (16 :: 8 word)" "16 * unat (drop_bit 4 b) + unat (b AND 0xf) = unat b"
proof -
  have m: "(0xf :: 8 word) = mask 4" by (simp add: mask_eq_exp_minus_1)
  have e: "unat (drop_bit 4 b) = unat b div 16" "unat (b AND 0xf) = unat b mod 16"
    unfolding m by (simp_all add: unat_drop_bit take_bit_eq_mask [symmetric] unat_take_bit)
  then show "drop_bit 4 b < (16 :: 8 word)" "b AND 0xf < (16 :: 8 word)"
    using unat_lt_radix [of b] by (simp_all add: word_less_nat_alt radix_def less_mult_imp_div_less)
  show "16 * unat (drop_bit 4 b) + unat (b AND 0xf) = unat b" by (simp add: e)
qed

lemma nibble_join: "b < 16 \<Longrightarrow> push_bit 4 a OR b = (of_nat (16 * unat a + unat b) :: 8 word)"
proof -
  assume "b < 16"
  then have "take_bit 4 b = b" by (simp add: word_unat_eq_iff unat_take_bit word_less_nat_alt)
  then have "\<not> bit b k" if "4 \<le> k" for k using that by (metis bit_take_bit_iff not_le)
  then have "push_bit 4 a OR b = push_bit 4 a + b"
    by (intro disjunctive_add [symmetric]) (auto simp: bit_push_bit_iff)
  then show ?thesis by (simp add: push_bit_eq_mult mult.commute)
qed

subsection \<open>Panicking and overflowing arithmetic\<close>

text \<open>\<^verbatim>\<open>+\<close>, \<^verbatim>\<open>-\<close>, \<^verbatim>\<open>*\<close> and \<^verbatim>\<open>/\<close> on unsigned machine integers.\<close>

definition padd :: "'a::len word \<Rightarrow> 'a word \<Rightarrow> 'a word may_panic" where
  "padd a b = (if unat a + unat b < 2 ^ LENGTH('a) then Some (a + b) else panic)"

definition psub :: "'a::len word \<Rightarrow> 'a word \<Rightarrow> 'a word may_panic" where
  "psub a b = (if b \<le> a then Some (a - b) else panic)"

definition pmul :: "'a::len word \<Rightarrow> 'a word \<Rightarrow> 'a word may_panic" where
  "pmul a b = (if unat a * unat b < 2 ^ LENGTH('a) then Some (a * b) else panic)"

definition pdiv :: "'a::len word \<Rightarrow> 'a word \<Rightarrow> 'a word may_panic" where
  "pdiv a b = (if b = 0 then panic else Some (a div b))"

text \<open>\<^verbatim>\<open>u64::overflowing_add\<close> and \<^verbatim>\<open>u64::overflowing_sub\<close>.\<close>

definition word_overflowing_add :: "'a::len word \<Rightarrow> 'a word \<Rightarrow> 'a word \<times> bool" where
  "word_overflowing_add a b = (a + b, 2 ^ LENGTH('a) \<le> unat a + unat b)"

definition word_overflowing_sub :: "'a::len word \<Rightarrow> 'a word \<Rightarrow> 'a word \<times> bool" where
  "word_overflowing_sub a b = (a - b, a < b)"

text \<open>
  The result of a panicking operation is stated as the word that carries the exact number,
  so that a chain of them is resolved by arithmetic on \<^typ>\<open>nat\<close> alone.
\<close>

lemma padd_ok [panic_simps]:
  "unat a + unat b < radix TYPE('a) \<Longrightarrow>
     padd a b = Some (of_nat (unat a + unat b) :: 'a::len word)"
  by (simp add: padd_def radix_def)

lemma psub_ok [panic_simps]:
  "unat b \<le> unat a \<Longrightarrow> psub a b = Some (of_nat (unat a - unat b) :: 'a::len word)"
  by (simp add: psub_def word_le_nat_alt of_nat_diff)

lemma pmul_ok [panic_simps]:
  "unat a * unat b < radix TYPE('a) \<Longrightarrow>
     pmul a b = Some (of_nat (unat a * unat b) :: 'a::len word)"
  by (simp add: pmul_def radix_def)

lemma pdiv_ok [panic_simps]:
  "0 < unat b \<Longrightarrow> pdiv a b = Some (of_nat (unat a div unat b) :: 'a::len word)"
  by (auto simp: pdiv_def unat_gt_0 word_arith_nat_div)

lemma word_overflowing_add_eqs:
  "unat (fst (word_overflowing_add a (b :: 'a::len word)))
     + of_bool (snd (word_overflowing_add a b)) * radix TYPE('a) = unat a + unat b"
proof (cases "radix TYPE('a) \<le> unat a + unat b")
  case True
  have "unat a + unat b < 2 * radix TYPE('a)"
    using unat_lt_radix [of a] unat_lt_radix [of b] by linarith
  then have "(unat a + unat b) mod radix TYPE('a) = unat a + unat b - radix TYPE('a)"
    using True by (simp add: le_mod_geq)
  with True show ?thesis
    by (simp add: word_overflowing_add_def unat_add_radix radix_def)
next
  case False
  then show ?thesis
    by (simp add: word_overflowing_add_def unat_add_radix radix_def)
qed

lemma word_overflowing_sub_eqs:
  "unat (fst (word_overflowing_sub a (b :: 'a::len word))) + unat b
     = unat a + of_bool (snd (word_overflowing_sub a b)) * radix TYPE('a)"
  using unat_le_radix [of b]
  by (auto simp: word_overflowing_sub_def unat_sub_radix word_less_nat_alt)


subsection \<open>The length of a number in bits\<close>

fun nat_bits :: "nat \<Rightarrow> nat" where
  "nat_bits n = (if n = 0 then 0 else Suc (nat_bits (n div 2)))"

declare nat_bits.simps [simp del]

lemma nat_bits_0 [simp]: "nat_bits 0 = 0"
  by (simp add: nat_bits.simps)

lemma nat_bits_eq_0 [simp]: "nat_bits n = 0 \<longleftrightarrow> n = 0"
  by (subst nat_bits.simps) simp

lemma nat_bits_upper: "n < 2 ^ nat_bits n"
proof (induction n rule: nat_bits.induct)
  case (1 n)
  then show ?case by (cases "n = 0") (auto simp: nat_bits.simps [of n])
qed

lemma nat_bits_lower: "0 < n \<Longrightarrow> 2 ^ (nat_bits n - 1) \<le> n"
proof (induction n rule: nat_bits.induct)
  case (1 n)
  show ?case
  proof (cases "n div 2 = 0")
    case True
    then show ?thesis using "1.prems" by (simp add: nat_bits.simps [of n])
  next
    case False
    then obtain k where k: "nat_bits (n div 2) = Suc k"
      by (cases "nat_bits (n div 2)") (auto simp del: div_eq_0_iff)
    have "2 ^ k \<le> n div 2" using "1.IH" "1.prems" False k by simp
    then show ?thesis using "1.prems" k by (simp add: nat_bits.simps [of n])
  qed
qed

lemma nat_bits_le_iff: "nat_bits n \<le> k \<longleftrightarrow> n < 2 ^ k"
proof
  assume "nat_bits n \<le> k"
  then have "(2 :: nat) ^ nat_bits n \<le> 2 ^ k" by simp
  then show "n < 2 ^ k" using nat_bits_upper [of n] by linarith
next
  assume n: "n < 2 ^ k"
  show "nat_bits n \<le> k"
  proof (rule ccontr)
    assume "\<not> nat_bits n \<le> k"
    then have "k \<le> nat_bits n - 1" and "0 < n" using n by (auto intro!: gr0I)
    then have "(2 :: nat) ^ k \<le> 2 ^ (nat_bits n - 1)" by simp
    also have "\<dots> \<le> n" using \<open>0 < n\<close> by (rule nat_bits_lower)
    finally show False using n by simp
  qed
qed

lemma nat_bits_eqI: "2 ^ k \<le> n \<Longrightarrow> n < 2 ^ Suc k \<Longrightarrow> nat_bits n = Suc k"
  using nat_bits_le_iff [of n k] nat_bits_le_iff [of n "Suc k"] by linarith

lemma nat_bits_mono: "m \<le> n \<Longrightarrow> nat_bits m \<le> nat_bits n"
  using nat_bits_upper [of n] by (simp add: nat_bits_le_iff)

lemma nat_bits_mult_power: "0 < n \<Longrightarrow> nat_bits (n * 2 ^ k) = nat_bits n + k"
proof -
  assume n: "0 < n"
  then obtain b where b: "nat_bits n = Suc b" by (cases "nat_bits n") auto
  have "2 ^ b \<le> n" and "n < 2 ^ Suc b"
    using nat_bits_lower [OF n] nat_bits_upper [of n] b by simp_all
  then have "2 ^ (b + k) \<le> n * 2 ^ k" and "n * 2 ^ k < 2 ^ Suc (b + k)"
    by (simp_all add: power_add)
  then show ?thesis by (simp only: nat_bits_eqI b add_Suc)
qed

text \<open>\<^verbatim>\<open>leading_zeros\<close> and \<^verbatim>\<open>trailing_zeros\<close> of the unsigned machine integers.\<close>

definition word_leading_zeros :: "'a::len word \<Rightarrow> nat" where
  "word_leading_zeros w = LENGTH('a) - nat_bits (unat w)"

fun nat_trailing_zeros :: "nat \<Rightarrow> nat" where
  "nat_trailing_zeros n = (if n = 0 \<or> odd n then 0 else Suc (nat_trailing_zeros (n div 2)))"

declare nat_trailing_zeros.simps [simp del]

definition word_trailing_zeros :: "'a::len word \<Rightarrow> nat" where
  "word_trailing_zeros w = (if w = 0 then LENGTH('a) else nat_trailing_zeros (unat w))"

lemma nat_bits_unat_le: "nat_bits (unat (w :: 'a::len word)) \<le> LENGTH('a)"
  using unat_lt_radix [of w] by (simp add: nat_bits_le_iff radix_def)

lemma word_leading_zeros_bits:
  "word_leading_zeros (w :: 'a::len word) + nat_bits (unat w) = LENGTH('a)"
  using nat_bits_unat_le [of w] by (simp add: word_leading_zeros_def)


subsection \<open>The number a little-endian list of words stands for\<close>

fun lval :: "'a::len word list \<Rightarrow> nat" where
  "lval [] = 0"
| "lval (x # xs) = unat x + radix TYPE('a) * lval xs"

lemma lval_append [limb_simps]:
  "lval (xs @ ys) = lval xs + radix TYPE('a) ^ length xs * lval (ys :: 'a::len word list)"
  by (induction xs) (simp_all add: algebra_simps)

lemma lval_replicate_0 [simp]: "lval (replicate n 0) = 0"
  by (induction n) simp_all

lemma lval_bound: "lval xs < radix TYPE('a) ^ length (xs :: 'a::len word list)"
proof (induction xs)
  case Nil
  show ?case by simp
next
  case (Cons x xs)
  let ?r = "radix TYPE('a)"
  from Cons have "?r * Suc (lval xs) \<le> ?r * ?r ^ length xs"
    by (intro mult_le_mono) simp_all
  then show ?case using unat_lt_radix [of x] by simp
qed

lemma lval_inject:
  "length xs = length ys \<Longrightarrow> lval xs = lval ys \<Longrightarrow> xs = (ys :: 'a::len word list)"
proof (induction xs ys rule: list_induct2)
  case Nil
  show ?case by simp
next
  case (Cons x xs y ys)
  let ?r = "radix TYPE('a)"
  have "lval (x # xs) mod ?r = lval (y # ys) mod ?r" and "lval (x # xs) div ?r = lval (y # ys) div ?r"
    using Cons.prems by (simp_all only:)
  then have "unat x = unat y" and "lval xs = lval ys"
    by (simp_all add: unat_lt_radix)
  with Cons.IH show ?case by (simp add: word_unat_eq_iff)
qed

lemma lval_take_drop:
  "lval xs = lval (take k xs) + radix TYPE('a) ^ k * lval (drop k (xs :: 'a::len word list))"
proof (cases "k \<le> length xs")
  case True
  then show ?thesis
    using lval_append [of "take k xs" "drop k xs"] by (simp add: min_absorb2)
qed simp

lemma lval_take_bound: "lval (take k xs) < radix TYPE('a) ^ k" for xs :: "'a::len word list"
proof -
  have "radix TYPE('a) ^ length (take k xs) \<le> radix TYPE('a) ^ k"
    by (intro power_increasing) (simp_all add: Suc_leI)
  then show ?thesis using lval_bound [of "take k xs"] by linarith
qed

lemma lval_take: "lval (take k xs) = lval xs mod radix TYPE('a) ^ k" for xs :: "'a::len word list"
  using lval_take_bound [of k xs] lval_take_drop [of xs k]
  by (metis mod_less mod_mult_self2)

lemma lval_drop: "lval (drop k xs) = lval xs div radix TYPE('a) ^ k" for xs :: "'a::len word list"
proof -
  have "lval xs div radix TYPE('a) ^ k
      = (lval (take k xs) + radix TYPE('a) ^ k * lval (drop k xs)) div radix TYPE('a) ^ k"
    by (simp only: lval_take_drop [symmetric])
  then show ?thesis by (simp add: lval_take_bound)
qed

lemma lval_nth:
  "i < length xs \<Longrightarrow> unat (xs ! i) = lval xs div radix TYPE('a) ^ i mod radix TYPE('a)"
  for xs :: "'a::len word list"
  by (simp add: Cons_nth_drop_Suc [symmetric] unat_lt_radix flip: lval_drop)

lemma lval_update:
  "i < length xs \<Longrightarrow>
     lval (xs[i := v]) + radix TYPE('a) ^ i * unat (xs ! i) = lval xs + radix TYPE('a) ^ i * unat v"
  for xs :: "'a::len word list"
proof (induction xs arbitrary: i)
  case (Cons x xs)
  show ?case
  proof (cases i)
    case (Suc j)
    let ?r = "radix TYPE('a)"
    have "?r * (lval (xs[j := v]) + ?r ^ j * unat (xs ! j)) = ?r * (lval xs + ?r ^ j * unat v)"
      using Cons Suc by simp
    then show ?thesis by (simp add: Suc algebra_simps)
  qed simp
qed simp

lemma lval_eq_0_iff: "lval xs = 0 \<longleftrightarrow> (\<forall>x \<in> set xs. x = 0)"
  by (induction xs) (auto simp: unat_eq_zero simp del: neq0_conv)

lemma lval_ge_power: "xs \<noteq> [] \<Longrightarrow> last xs \<noteq> 0 \<Longrightarrow>
    radix TYPE('a) ^ (length xs - 1) \<le> lval xs" for xs :: "'a::len word list"
proof -
  assume ne: "xs \<noteq> []" and l: "last xs \<noteq> 0"
  have "lval xs = lval (butlast xs) + radix TYPE('a) ^ (length xs - 1) * unat (last xs)"
    using lval_append [of "butlast xs" "[last xs]"] ne by simp
  moreover have "1 \<le> unat (last xs)" using l by (simp add: Suc_le_eq unat_gt_0)
  ultimately show ?thesis
    using mult_le_mono2 [of 1 "unat (last xs)" "radix TYPE('a) ^ (length xs - 1)"] by linarith
qed

text \<open>The canonical word list of a number, the inverse of \<^const>\<open>lval\<close> at a fixed length.\<close>

fun limbs :: "nat \<Rightarrow> nat \<Rightarrow> 'a::len word list" where
  "limbs 0 k = []"
| "limbs (Suc n) k = of_nat k # limbs n (k div radix TYPE('a))"

lemma length_limbs [simp]: "length (limbs n k) = n"
  by (induction n arbitrary: k) simp_all

lemma limbs_numeral:
  "limbs (numeral n) k = (of_nat k # limbs (pred_numeral n) (k div radix TYPE('a)) :: 'a::len word list)"
  by (simp only: numeral_eq_Suc limbs.simps)

text \<open>Evaluation of the numbers and the words at literals.\<close>

lemmas literal_simps = limbs_numeral radix_def word_unat_eq_iff

lemma lval_limbs: "lval (limbs n k :: 'a::len word list) = k mod radix TYPE('a) ^ n"
proof (induction n arbitrary: k)
  case 0
  show ?case by simp
next
  case (Suc n)
  let ?r = "radix TYPE('a)"
  have "k mod (?r * ?r ^ n) = ?r * (k div ?r mod ?r ^ n) + k mod ?r" by (rule mod_mult2_eq)
  then show ?case using Suc by (simp add: unat_of_nat_radix)
qed

lemma lval_limbs_lt: "k < radix TYPE('a) ^ n \<Longrightarrow> lval (limbs n k :: 'a::len word list) = k"
  by (simp add: lval_limbs)

lemma limbs_eqI:
  "length xs = n \<Longrightarrow> lval xs = k mod radix TYPE('a) ^ n \<Longrightarrow> xs = (limbs n k :: 'a::len word list)"
  by (rule lval_inject) (simp_all add: lval_limbs)

lemma limbs_lval: "length xs = n \<Longrightarrow> limbs n (lval xs) = (xs :: 'a::len word list)"
  using lval_bound [of xs] by (intro limbs_eqI [symmetric]) simp_all

lemma limbs_mod: "limbs n (k mod radix TYPE('a) ^ n) = (limbs n k :: 'a::len word list)"
  by (rule limbs_eqI) (simp_all add: lval_limbs)

lemma bit_lval:
  "bit (lval xs) k \<longleftrightarrow>
     k < LENGTH('a) * length xs \<and> bit (xs ! (k div LENGTH('a))) (k mod LENGTH('a))"
  for xs :: "'a::len word list"
proof (induction xs arbitrary: k)
  case Nil
  show ?case by simp
next
  case (Cons x xs)
  let ?L = "LENGTH('a)"
  have x: "unat x < 2 ^ ?L" using unat_lt_radix [of x] by (simp add: radix_def)
  have eq: "lval (x # xs) = unat x + 2 ^ ?L * lval xs" by (simp add: radix_def)
  have lo: "take_bit ?L (lval (x # xs)) = unat x" using x by (simp only: eq take_bit_eq_mod) simp
  have hi: "drop_bit ?L (lval (x # xs)) = lval xs" using x by (simp only: eq drop_bit_eq_div) simp
  show ?case
  proof (cases "k < ?L")
    case True
    then have "bit (lval (x # xs)) k \<longleftrightarrow> bit (take_bit ?L (lval (x # xs))) k"
      by (simp only: bit_take_bit_iff simp_thms)
    then show ?thesis using True
      by (simp only: lo) (auto simp: bit_unsigned_iff trans_less_add1)
  next
    case False
    then obtain j where j: "k = ?L + j" by (auto simp: not_less dest: le_Suc_ex)
    have "bit (lval (x # xs)) k \<longleftrightarrow> bit (drop_bit ?L (lval (x # xs))) j"
      by (simp only: bit_drop_bit_eq j comp_def)
    moreover have "(?L + j) div ?L = Suc (j div ?L)" by (simp add: div_add_self1)
    ultimately show ?thesis by (simp only: hi Cons.IH) (simp add: j)
  qed
qed

lemma lval_eqI_bits:
  "(\<And>k. bit (lval xs) k \<longleftrightarrow> bit m k) \<Longrightarrow> lval xs = m"
  by (simp add: bit_eq_iff)


subsection \<open>Loops that write an array by index\<close>

text \<open>
  A Rust loop \<^verbatim>\<open>for i in a..b { ret[i] = f(i, ret[i]) }\<close> is a fold of list updates; the array it
  leaves behind is characterised index by index.
\<close>

lemma length_fold_update [simp]:
  "length (fold (\<lambda>i r. r[g i r := h i r]) is r) = length r"
  by (induction "is" arbitrary: r) simp_all

lemma nth_fold_update:
  "distinct is \<Longrightarrow> k < length r \<Longrightarrow>
     fold (\<lambda>i r. r[i := f i (r ! i)]) is r ! k = (if k \<in> set is then f k (r ! k) else r ! k)"
proof (induction "is" arbitrary: r)
  case (Cons a "is")
  then show ?case by (cases "a = k") auto
qed simp

lemma nth_fold_update_shifted:
  assumes "k < length r" and "m \<le> a" and "b - m \<le> length r"
  shows "fold (\<lambda>i r. r[i - m := f i (r ! (i - m))]) [a..<b] r ! k =
     (if a \<le> k + m \<and> k + m < b then f (k + m) (r ! k) else r ! k)"
proof -
  have "fold (\<lambda>i r. r[i - m := f i (r ! (i - m))]) [a..<b] r
      = fold (\<lambda>j r. r[j := f (j + m) (r ! j)]) (map (\<lambda>i. i - m) [a..<b]) r"
    using assms(2) by (auto simp: fold_map comp_def intro!: fold_cong)
  also have "map (\<lambda>i. i - m) [a..<b] = [a - m..<b - m]"
    using assms(2) by (intro nth_equalityI) (auto simp: nth_upt)
  finally show ?thesis
    using nth_fold_update [of "[a - m..<b - m]" k r "\<lambda>j. f (j + m)"] assms by auto
qed


subsection \<open>Orderings\<close>

text \<open>\<^verbatim>\<open>core::cmp::Ordering\<close>, and \<^verbatim>\<open>Iterator::cmp\<close>: the lexicographic comparison.\<close>

datatype ordering = Less | Equal | Greater

definition cmp_of :: "'a::linorder \<Rightarrow> 'a \<Rightarrow> ordering" where
  "cmp_of a b = (if a < b then Less else if a = b then Equal else Greater)"

fun iter_cmp :: "'a::linorder list \<Rightarrow> 'a list \<Rightarrow> ordering" where
  "iter_cmp [] [] = Equal"
| "iter_cmp [] (y # ys) = Less"
| "iter_cmp (x # xs) [] = Greater"
| "iter_cmp (x # xs) (y # ys) = (case cmp_of x y of Equal \<Rightarrow> iter_cmp xs ys | c \<Rightarrow> c)"

lemma cmp_of_simps [simp]:
  "cmp_of a b = Less \<longleftrightarrow> a < b" "cmp_of a b = Equal \<longleftrightarrow> a = b" "cmp_of a b = Greater \<longleftrightarrow> b < a"
  by (auto simp: cmp_of_def)

lemma cmp_of_mult_add:
  fixes a b :: nat
  assumes "a < r" and "b < r"
  shows "cmp_of (a + r * c) (b + r * d) = (if c = d then cmp_of a b else cmp_of c d)"
proof (cases c d rule: linorder_cases)
  case less
  then have "r * Suc c \<le> r * d" by (intro mult_le_mono) simp_all
  then have "a + r * c < b + r * d" using assms by simp
  with less show ?thesis by (simp add: cmp_of_def)
next
  case equal
  then show ?thesis by (simp add: cmp_of_def)
next
  case greater
  then have "r * Suc d \<le> r * c" by (intro mult_le_mono) simp_all
  then have "b + r * d < a + r * c" using assms by simp
  with greater show ?thesis by (simp add: cmp_of_def)
qed

lemma iter_cmp_append:
  "length xs = length ys \<Longrightarrow>
     iter_cmp (xs @ us) (ys @ vs) = (case iter_cmp xs ys of Equal \<Rightarrow> iter_cmp us vs | c \<Rightarrow> c)"
  by (induction xs ys rule: list_induct2) (auto split: ordering.splits)

lemma iter_cmp_rev_lval:
  "length xs = length ys \<Longrightarrow>
     iter_cmp (rev xs) (rev ys) = cmp_of (lval xs) (lval (ys :: 'a::len word list))"
proof (induction xs ys rule: list_induct2)
  case Nil
  show ?case by (simp add: cmp_of_def)
next
  case (Cons x xs y ys)
  have "cmp_of x y = cmp_of (unat x) (unat y)"
    by (simp add: cmp_of_def word_less_nat_alt word_unat_eq_iff)
  then show ?case using Cons
    by (simp add: iter_cmp_append cmp_of_mult_add unat_lt_radix)
       (simp add: cmp_of_def)
qed


subsection \<open>Indices and slices\<close>

text \<open>A \<^verbatim>\<open>usize\<close> is a natural number below \<^term>\<open>B\<close> (a 64-bit target).\<close>

definition usize_add :: "nat \<Rightarrow> nat \<Rightarrow> nat may_panic" where
  "usize_add a b = (if a + b < B then Some (a + b) else panic)"

definition usize_sub :: "nat \<Rightarrow> nat \<Rightarrow> nat may_panic" where
  "usize_sub a b = (if b \<le> a then Some (a - b) else panic)"

definition usize_mul :: "nat \<Rightarrow> nat \<Rightarrow> nat may_panic" where
  "usize_mul a b = (if a * b < B then Some (a * b) else panic)"

definition index_at :: "'a list \<Rightarrow> nat \<Rightarrow> 'a may_panic" where
  "index_at xs i = (if i < length xs then Some (xs ! i) else panic)"

definition slice_range :: "'a list \<Rightarrow> nat \<Rightarrow> nat \<Rightarrow> 'a list may_panic" where
  "slice_range xs a b = (if a \<le> b \<and> b \<le> length xs then Some (take (b - a) (drop a xs)) else panic)"

text \<open>The \<^verbatim>\<open>?\<close> operator on a result inside code that may panic.\<close>

definition try_bind :: "('e + 'a) may_panic \<Rightarrow> ('a \<Rightarrow> ('e + 'b) may_panic) \<Rightarrow> ('e + 'b) may_panic" where
  "try_bind m f = (case m of None \<Rightarrow> panic | Some (Inl e) \<Rightarrow> Some (Inl e) | Some (Inr a) \<Rightarrow> f a)"

lemma try_bind_simps [simp]:
  "try_bind None f = None" "try_bind (Some (Inl e)) f = Some (Inl e)" "try_bind (Some (Inr a)) f = f a"
  by (simp_all add: try_bind_def)

lemma index_at_ok [panic_simps]: "i < length xs \<Longrightarrow> index_at xs i = Some (xs ! i)"
  by (simp add: index_at_def)

lemma slice_range_ok [panic_simps]:
  "a \<le> b \<Longrightarrow> b \<le> length xs \<Longrightarrow> slice_range xs a b = Some (take (b - a) (drop a xs))"
  by (simp add: slice_range_def)

lemma usize_ok [panic_simps]:
  "a + b < B \<Longrightarrow> usize_add a b = Some (a + b)" "b \<le> a \<Longrightarrow> usize_sub a b = Some (a - b)"
  by (simp_all add: usize_add_def usize_sub_def)

end
