(* ===== verification/Pool_Txs.thy ===== *)
theory Pool_Txs
  imports Prelude "HOL-Library.Multiset"
begin

text \<open>
  The transactions of one sender in the \<^verbatim>\<open>transaction-pool\<close> crate (\<^verbatim>\<open>transactions.rs\<close>), with the
  scoring they are ordered by (\<^verbatim>\<open>scoring.rs\<close>) and the readiness check (\<^verbatim>\<open>ready.rs\<close>). A trait is a
  record of its methods, which the operations take as an argument; what the pool relies on of a
  scoring is the locale \<open>lawful_scoring\<close>. \<^verbatim>\<open>Arc\<close> and \<^verbatim>\<open>clone\<close> of immutable data are the data.
\<close>

subsection \<open>Transactions, scoring and readiness\<close>

record 't transaction =
  insertion_id :: nat
  transaction :: 't

record ('t, 'h, 'k) verified_transaction =
  vt_hash :: "'t \<Rightarrow> 'h"
  vt_mem_usage :: "'t \<Rightarrow> nat"
  vt_sender :: "'t \<Rightarrow> 'k"

datatype choice = RejectNew | ReplaceOld | InsertNew

datatype 'e change = InsertedAt nat | RemovedAt nat | ReplacedAt nat | Culled nat | Event 'e

text \<open>
  The trait \<^verbatim>\<open>Scoring\<close>. \<^verbatim>\<open>update_scores\<close> gets the slice of scores and returns the changed one;
  \<open>default_score\<close> and \<open>score_hex\<close> are \<^verbatim>\<open>Default\<close> and \<^verbatim>\<open>LowerHex\<close> of \<^verbatim>\<open>Score\<close>, its order is that of the type.
\<close>

record ('t, 's, 'e) scoring =
  sc_compare :: "'t \<Rightarrow> 't \<Rightarrow> ordering"
  sc_choose :: "'t \<Rightarrow> 't \<Rightarrow> choice"
  sc_update_scores :: "'t transaction list \<Rightarrow> 's list \<Rightarrow> 'e change \<Rightarrow> 's list"
  sc_should_ignore_sender_limit :: "'t \<Rightarrow> bool"
  default_score :: 's
  score_hex :: "'s \<Rightarrow> string"

datatype readiness = Stale | Ready | Future

text \<open>A \<^verbatim>\<open>Ready\<close> keeps a state between its calls.\<close>

type_synonym ('t, 'r) ready = "'r \<Rightarrow> 't \<Rightarrow> readiness \<times> 'r"

definition ready_pair :: "('t, 'r) ready \<Rightarrow> ('t, 'q) ready \<Rightarrow> ('t, 'r \<times> 'q) ready" where
  "ready_pair f g st tx =
     (case st of (a, b) \<Rightarrow>
        case f a tx of
          (Ready, a) \<Rightarrow> (case g b tx of (r, b) \<Rightarrow> (r, (a, b)))
        | (r, a) \<Rightarrow> (r, (a, b)))"

subsection \<open>Binary search\<close>

text \<open>\<^verbatim>\<open>binary_search_by\<close> of the standard library; the sum is its \<^verbatim>\<open>Result\<close>, \<^verbatim>\<open>Ok\<close> on the right.\<close>

function search_base :: "('a \<Rightarrow> ordering) \<Rightarrow> 'a list \<Rightarrow> nat \<Rightarrow> nat \<Rightarrow> nat" where
  "search_base f s base len =
     (if 1 < len then
        let half = len div 2; mid = base + half in
        search_base f s (if f (s ! mid) = Greater then base else mid) (len - half)
      else base)"
  by pat_completeness auto

termination
  by (relation "measure (\<lambda>(f, s, base, len). len)") auto

declare search_base.simps [simp del]

definition binary_search_by :: "'a list \<Rightarrow> ('a \<Rightarrow> ordering) \<Rightarrow> nat + nat" where
  "binary_search_by s f =
     (if s = [] then Inl 0
      else
        let base = search_base f s 0 (length s) in
        case f (s ! base) of
          Equal \<Rightarrow> Inr base
        | Less \<Rightarrow> Inl (base + 1)
        | Greater \<Rightarrow> Inl base)"

subsection \<open>The transactions of a sender\<close>

datatype ('a, 's) add_result =
    AddOk 'a
  | AddTooCheapToEnter 'a 's
  | AddTooCheap 'a 'a
  | AddReplaced 'a 'a
  | AddPushedOut 'a 'a

record ('t, 's) transactions =
  tx_list :: "'t transaction list"
  tx_scores :: "'s list"

definition txs_default :: "('t, 's) transactions" where
  "txs_default = \<lparr> tx_list = [], tx_scores = [] \<rparr>"

definition txs_is_empty :: "('t, 's) transactions \<Rightarrow> bool" where
  "txs_is_empty ts = (tx_list ts = [])"

definition txs_len :: "('t, 's) transactions \<Rightarrow> nat" where
  "txs_len ts = length (tx_list ts)"

definition txs_iter :: "('t, 's) transactions \<Rightarrow> 't transaction list" where
  "txs_iter ts = tx_list ts"

definition worst_and_best ::
  "('t, 's) transactions \<Rightarrow> (('s \<times> 't transaction) \<times> ('s \<times> 't transaction)) option may_panic" where
  "worst_and_best ts =
     (let len = length (tx_scores ts) in
      case tx_scores ts of
        [] \<Rightarrow> Some None
      | best # _ \<Rightarrow>
          do {
            worst \<leftarrow> index_at (tx_scores ts) (len - 1);
            best_tx \<leftarrow> index_at (tx_list ts) 0;
            worst_tx \<leftarrow> index_at (tx_list ts) (len - 1);
            Some (Some ((worst, worst_tx), (best, best_tx))) })"

definition find_next ::
  "('t, 's) transactions \<Rightarrow> 't \<Rightarrow> ('t, 's, 'e) scoring \<Rightarrow> ('s \<times> 't transaction) option may_panic" where
  "find_next ts tx scoring =
     (case binary_search_by (tx_list ts) (\<lambda>old. sc_compare scoring (transaction old) tx) of
        Inl _ \<Rightarrow> Some None
      | Inr index \<Rightarrow>
          let index = index + 1 in
          if index < length (tx_scores ts) then
            do {
              s \<leftarrow> index_at (tx_scores ts) index;
              t \<leftarrow> index_at (tx_list ts) index;
              Some (Some (s, t)) }
          else Some None)"

definition push_cheapest_transaction ::
  "('t, 's) transactions \<Rightarrow> 't transaction \<Rightarrow> ('t, 's, 'e) scoring \<Rightarrow> nat \<Rightarrow>
   (('t transaction, 's) add_result \<times> ('t, 's) transactions) may_panic" where
  "push_cheapest_transaction ts tx scoring max_count =
     (let index = length (tx_list ts) in
      if index = max_count \<and> \<not> sc_should_ignore_sender_limit scoring (transaction tx) then
        do {
          i \<leftarrow> usize_sub index 1;
          min_score \<leftarrow> index_at (tx_scores ts) i;
          Some (AddTooCheapToEnter tx min_score, ts) }
      else
        let txs = tx_list ts @ [tx];
            scores = sc_update_scores scoring txs (tx_scores ts @ [default_score scoring]) (InsertedAt index) in
        Some (AddOk tx, \<lparr> tx_list = txs, tx_scores = scores \<rparr>))"

definition txs_update_scores ::
  "('t, 's) transactions \<Rightarrow> ('t, 's, 'e) scoring \<Rightarrow> 'e \<Rightarrow> ('t, 's) transactions" where
  "txs_update_scores ts scoring event =
     ts\<lparr> tx_scores := sc_update_scores scoring (tx_list ts) (tx_scores ts) (Event event) \<rparr>"

text \<open>\<^verbatim>\<open>SmallVec::insert\<close> and \<^verbatim>\<open>remove\<close>.\<close>

definition vec_insert :: "nat \<Rightarrow> 'a \<Rightarrow> 'a list \<Rightarrow> 'a list may_panic" where
  "vec_insert i x xs = (if i \<le> length xs then Some (take i xs @ x # drop i xs) else panic)"

definition vec_remove :: "nat \<Rightarrow> 'a list \<Rightarrow> 'a list may_panic" where
  "vec_remove i xs = (if i < length xs then Some (take i xs @ drop (Suc i) xs) else panic)"

definition txs_add ::
  "('t, 's) transactions \<Rightarrow> 't transaction \<Rightarrow> ('t, 's, 'e) scoring \<Rightarrow> nat \<Rightarrow>
   (('t transaction, 's) add_result \<times> ('t, 's) transactions) may_panic" where
  "txs_add ts new scoring max_count =
     (let index = (case binary_search_by (tx_list ts) (\<lambda>old. sc_compare scoring (transaction old) (transaction new)) of
                     Inr index \<Rightarrow> index | Inl index \<Rightarrow> index) in
      if index = length (tx_list ts) then push_cheapest_transaction ts new scoring max_count
      else
        do {
          old \<leftarrow> index_at (tx_list ts) index;
          case sc_choose scoring (transaction old) (transaction new) of
            RejectNew \<Rightarrow> Some (AddTooCheap old new, ts)
          | InsertNew \<Rightarrow>
              do {
                txs \<leftarrow> vec_insert index new (tx_list ts);
                scores \<leftarrow> vec_insert index (default_score scoring) (tx_scores ts);
                let scores = sc_update_scores scoring txs scores (InsertedAt index);
                if max_count < length txs then
                  let old = last txs; txs = butlast txs;
                      scores = sc_update_scores scoring txs (butlast scores) (RemovedAt (length txs)) in
                  Some (AddPushedOut old new, \<lparr> tx_list = txs, tx_scores = scores \<rparr>)
                else Some (AddOk new, \<lparr> tx_list = txs, tx_scores = scores \<rparr>) }
          | ReplaceOld \<Rightarrow>
              let txs = (tx_list ts)[index := new] in
              Some (AddReplaced old new,
                    \<lparr> tx_list = txs, tx_scores = sc_update_scores scoring txs (tx_scores ts) (ReplacedAt index) \<rparr>) })"

definition txs_remove ::
  "('t, 's) transactions \<Rightarrow> 't \<Rightarrow> ('t, 's, 'e) scoring \<Rightarrow> (bool \<times> ('t, 's) transactions) may_panic" where
  "txs_remove ts tx scoring =
     (case binary_search_by (tx_list ts) (\<lambda>old. sc_compare scoring (transaction old) tx) of
        Inl _ \<Rightarrow> Some (False, ts)
      | Inr index \<Rightarrow>
          do {
            txs \<leftarrow> vec_remove index (tx_list ts);
            scores \<leftarrow> vec_remove index (tx_scores ts);
            let scores = sc_update_scores scoring txs scores (RemovedAt index);
            Some (True, \<lparr> tx_list = txs, tx_scores = scores \<rparr>) })"

text \<open>
  The loop of \<^verbatim>\<open>cull\<close> counts the stalled transactions at the front; the transactions are then popped
  from the reversed vectors one by one.
\<close>

fun count_stalled :: "('t, 'r) ready \<Rightarrow> 'r \<Rightarrow> 't transaction list \<Rightarrow> nat \<Rightarrow> nat \<times> 'r" where
  "count_stalled ready st [] n = (n, st)"
| "count_stalled ready st (tx # txs) n =
     (case ready st (transaction tx) of
        (Stale, st) \<Rightarrow> count_stalled ready st txs (n + 1)
      | (_, st) \<Rightarrow> (n, st))"

fun pop_each :: "nat \<Rightarrow> 't transaction list \<Rightarrow> 's list \<Rightarrow> 't transaction list \<Rightarrow>
    ('t transaction list \<times> 't transaction list \<times> 's list) may_panic" where
  "pop_each 0 txs scores result = Some (result, txs, scores)"
| "pop_each (Suc n) txs scores result =
     (if txs = [] then panic
      else pop_each n (butlast txs) (butlast scores) (result @ [last txs]))"

definition txs_cull ::
  "('t, 's) transactions \<Rightarrow> ('t, 'r) ready \<Rightarrow> 'r \<Rightarrow> ('t, 's, 'e) scoring \<Rightarrow>
   ('t transaction list \<times> ('t, 's) transactions \<times> 'r) may_panic" where
  "txs_cull ts ready st scoring =
     (if txs_is_empty ts then Some ([], ts, st)
      else
        let (first_non_stalled, st) = count_stalled ready st (tx_list ts) 0 in
        if first_non_stalled = 0 then Some ([], ts, st)
        else
          do {
            (result, txs, scores) \<leftarrow> pop_each first_non_stalled (rev (tx_list ts)) (rev (tx_scores ts)) [];
            let txs = rev txs;
            let scores = sc_update_scores scoring txs (rev scores) (Culled (length result));
            Some (rev result, \<lparr> tx_list = txs, tx_scores = scores \<rparr>, st) })"


subsection \<open>Binary search finds the slot\<close>

text \<open>A comparison function that is monotone along the slice: first less, then equal, then greater.\<close>

definition partitioned :: "('a \<Rightarrow> ordering) \<Rightarrow> 'a list \<Rightarrow> bool" where
  "partitioned f s \<longleftrightarrow> (\<forall>i j. i < j \<longrightarrow> j < length s \<longrightarrow>
     (f (s ! i) = Greater \<longrightarrow> f (s ! j) = Greater) \<and> (f (s ! j) = Less \<longrightarrow> f (s ! i) = Less))"

lemma search_base_spec:
  assumes "0 < len" "base + len \<le> length s"
    and "base = 0 \<or> f (s ! base) \<noteq> Greater"
    and "partitioned f s" "\<forall>j. base + len \<le> j \<and> j < length s \<longrightarrow> f (s ! j) = Greater"
  shows "let b = search_base f s base len in
    b < length s \<and> (b = 0 \<or> f (s ! b) \<noteq> Greater) \<and> (\<forall>j. b < j \<and> j < length s \<longrightarrow> f (s ! j) = Greater)"
  using assms
proof (induction f s base len rule: search_base.induct)
  case (1 f s base len)
  show ?case
  proof (cases "1 < len")
    case True
    define half where "half = len div 2"
    have h: "0 < half" "half < len" using True by (simp_all add: half_def)
    define b where "b = (if f (s ! (base + half)) = Greater then base else base + half)"
    have "let r = search_base f s b (len - half) in
      r < length s \<and> (r = 0 \<or> f (s ! r) \<noteq> Greater) \<and> (\<forall>j. r < j \<and> j < length s \<longrightarrow> f (s ! j) = Greater)"
      unfolding b_def half_def
    proof (rule "1.IH" [OF True refl refl])
      let ?b = "if f (s ! (base + len div 2)) = Greater then base else base + len div 2"
      show "\<forall>j. ?b + (len - len div 2) \<le> j \<and> j < length s \<longrightarrow> f (s ! j) = Greater"
      proof (intro allI impI)
        fix j
        assume j: "?b + (len - len div 2) \<le> j \<and> j < length s"
        show "f (s ! j) = Greater"
        proof (cases "f (s ! (base + len div 2)) = Greater")
          case g: True
          have "base + (len - len div 2) \<le> j" using j g by simp
          then have "base + len div 2 \<le> j" by linarith
          then consider "base + len div 2 = j" | "base + len div 2 < j" by linarith
          then show ?thesis using g j "1.prems"(4) unfolding partitioned_def by cases blast+
        next
          case False
          then show ?thesis using j "1.prems"(5) h by (simp add: half_def)
        qed
      qed
      show "0 < len - len div 2" using True by simp
      show "?b + (len - len div 2) \<le> length s" using "1.prems"(2) by (simp, linarith)
      show "?b = 0 \<or> f (s ! ?b) \<noteq> Greater" using "1.prems"(3) by simp
    qed (rule "1.prems"(4))
    moreover have "search_base f s base len = search_base f s b (len - half)"
      by (subst search_base.simps) (simp only: True if_True Let_def b_def half_def)
    ultimately show ?thesis by simp
  next
    case False
    then have "len = 1" "search_base f s base len = base"
      using "1.prems"(1) by (simp_all add: search_base.simps [of f s base len])
    then show ?thesis using "1.prems" by (auto simp: Let_def Suc_le_eq)
  qed
qed

lemma binary_search_by_spec:
  assumes "partitioned f s"
  shows "case binary_search_by s f of
      Inr i \<Rightarrow> i < length s \<and> f (s ! i) = Equal
    | Inl i \<Rightarrow> i \<le> length s \<and> (\<forall>j<i. f (s ! j) = Less) \<and> (\<forall>j. i \<le> j \<and> j < length s \<longrightarrow> f (s ! j) = Greater)"
proof (cases "s = []")
  case False
  define b where "b = search_base f s 0 (length s)"
  have b: "b < length s" "b = 0 \<or> f (s ! b) \<noteq> Greater" "\<And>j. b < j \<Longrightarrow> j < length s \<Longrightarrow> f (s ! j) = Greater"
    using search_base_spec [of "length s" 0 s f] assms False unfolding b_def Let_def by fastforce+
  have less: "f (s ! j) = Less" if "j < b" "f (s ! b) = Less" for j
    using assms that b(1) unfolding partitioned_def by blast
  show ?thesis
  proof (cases "f (s ! b)")
    case Less
    have "\<forall>j<b + 1. f (s ! j) = Less" using less Less by (auto simp: less_Suc_eq)
    then show ?thesis using b False Less by (simp add: binary_search_by_def b_def [symmetric] Suc_le_eq)
  next
    case Greater
    then have "b = 0" using b(2) by simp
    then have "\<forall>j<length s. f (s ! j) = Greater" using b(3) Greater by (metis gr0I)
    then show ?thesis using False Greater \<open>b = 0\<close> by (simp add: binary_search_by_def b_def [symmetric])
  qed (use b False in \<open>simp add: binary_search_by_def b_def [symmetric]\<close>)
qed (simp add: binary_search_by_def)

subsection \<open>What the pool relies on of a scoring\<close>

text \<open>
  \<^verbatim>\<open>compare\<close> orders the transactions of a sender, \<^verbatim>\<open>choose\<close> keeps at most one of two transactions in
  the same slot, and \<^verbatim>\<open>update_scores\<close> cannot change the length of the slice it gets.
\<close>

locale lawful_scoring =
  fixes sc :: "('t, 's::linorder, 'e) scoring"
  assumes cmp_refl: "sc_compare sc a a = Equal"
    and cmp_flip: "sc_compare sc a b = Less \<longleftrightarrow> sc_compare sc b a = Greater"
    and cmp_trans: "sc_compare sc a b = Less \<Longrightarrow> sc_compare sc b c = Less \<Longrightarrow> sc_compare sc a c = Less"
    and cmp_eq: "sc_compare sc a b = Equal \<Longrightarrow> sc_compare sc c a = sc_compare sc c b"
    and one_per_slot: "sc_compare sc a b = Equal \<Longrightarrow> sc_choose sc a b \<noteq> InsertNew"
    and update_length: "length ss = length txs \<Longrightarrow> length (sc_update_scores sc txs ss ch) = length ss"

text \<open>A set of transactions is well-formed: a score for each, and strictly ordered.\<close>

definition in_order :: "('t, 's, 'e) scoring \<Rightarrow> 't transaction \<Rightarrow> 't transaction \<Rightarrow> bool" where
  "in_order sc a b = (sc_compare sc (transaction a) (transaction b) = Less)"

definition wf_txs :: "('t, 's, 'e) scoring \<Rightarrow> ('t, 's) transactions \<Rightarrow> bool" where
  "wf_txs sc ts \<longleftrightarrow> length (tx_scores ts) = length (tx_list ts) \<and> sorted_wrt (in_order sc) (tx_list ts)"

lemma wf_txs_default [simp]: "wf_txs sc txs_default"
  by (simp add: wf_txs_def txs_default_def)

lemma worst_and_best_spec:
  "length (tx_scores ts) = length (tx_list ts) \<Longrightarrow> worst_and_best ts =
     Some (if tx_list ts = [] then None
           else Some ((last (tx_scores ts), last (tx_list ts)), (hd (tx_scores ts), hd (tx_list ts))))"
proof (cases "tx_list ts = []")
  case False
  assume l: "length (tx_scores ts) = length (tx_list ts)"
  then have "tx_scores ts \<noteq> []" using False by auto
  then show ?thesis using False l
    by (auto simp: worst_and_best_def index_at_def last_conv_nth hd_conv_nth Let_def split: list.split)
qed (simp add: worst_and_best_def)

context lawful_scoring
begin

lemma cmp_Greater: "sc_compare sc a b = Greater \<longleftrightarrow> sc_compare sc b a = Less"
  using cmp_flip by auto

lemma cmp_irrefl: "\<not> in_order sc a a"
  by (simp add: in_order_def cmp_refl)

lemma order_trans: "in_order sc a b \<Longrightarrow> in_order sc b c \<Longrightarrow> in_order sc a c"
  using cmp_trans by (auto simp: in_order_def)

lemma cmp_eq_left: "sc_compare sc a b = Equal \<Longrightarrow> sc_compare sc a c = sc_compare sc b c"
proof -
  assume "sc_compare sc a b = Equal"
  then have "sc_compare sc c a = sc_compare sc c b" by (rule cmp_eq)
  then show ?thesis using cmp_flip [of a c] cmp_flip [of b c] cmp_Greater [of a c] cmp_Greater [of b c]
    by (cases "sc_compare sc a c"; cases "sc_compare sc b c") auto
qed

lemma sorted_partitioned:
  assumes "sorted_wrt (in_order sc) xs"
  shows "partitioned (\<lambda>old. sc_compare sc (transaction old) t) xs"
  unfolding partitioned_def
proof (intro allI impI)
  fix i j
  assume ij: "i < j" "j < length xs"
  then have lt: "sc_compare sc (transaction (xs ! i)) (transaction (xs ! j)) = Less"
    using assms by (auto simp: sorted_wrt_iff_nth_less in_order_def)
  then show "(sc_compare sc (transaction (xs ! i)) t = Greater \<longrightarrow> sc_compare sc (transaction (xs ! j)) t = Greater) \<and>
      (sc_compare sc (transaction (xs ! j)) t = Less \<longrightarrow> sc_compare sc (transaction (xs ! i)) t = Less)"
    using cmp_trans cmp_Greater by blast
qed

lemma sorted_distinct: "sorted_wrt (in_order sc) xs \<Longrightarrow> distinct xs"
  by (induction xs) (auto simp: cmp_irrefl)

lemma sorted_unique:
  "sorted_wrt (in_order sc) xs \<Longrightarrow> sorted_wrt (in_order sc) ys \<Longrightarrow> set xs = set ys \<Longrightarrow> xs = ys"
proof (induction xs arbitrary: ys)
  case (Cons x xs)
  then obtain y zs where ys: "ys = y # zs" by (cases ys) auto
  have "x = y"
  proof (rule ccontr)
    assume "x \<noteq> y"
    then have "in_order sc x y" "in_order sc y x" using Cons.prems ys by auto
    then show False using order_trans cmp_irrefl by blast
  qed
  moreover have "x \<notin> set xs" "y \<notin> set zs" using Cons.prems ys cmp_irrefl by auto
  ultimately show ?case using Cons ys by (metis insert_ident list.simps(15) sorted_wrt.simps(2))
qed simp

lemma sorted_slot:
  assumes "sorted_wrt (in_order sc) xs" "i < length xs" "j < length xs"
    and "sc_compare sc (transaction (xs ! i)) (transaction (xs ! j)) = Equal"
  shows "i = j"
proof (rule ccontr)
  assume "i \<noteq> j"
  then have "in_order sc (xs ! i) (xs ! j) \<or> in_order sc (xs ! j) (xs ! i)"
    using assms(1-3) by (metis linorder_neqE_nat sorted_wrt_iff_nth_less)
  then show False using assms(4) cmp_flip by (auto simp: in_order_def)
qed

lemma search_member:
  assumes "sorted_wrt (in_order sc) xs" "i < length xs"
  shows "binary_search_by xs (\<lambda>old. sc_compare sc (transaction old) (transaction (xs ! i))) = Inr i"
proof -
  let ?f = "\<lambda>old. sc_compare sc (transaction old) (transaction (xs ! i))"
  have p: "partitioned ?f xs" using assms(1) by (rule sorted_partitioned)
  show ?thesis
  proof (cases "binary_search_by xs ?f")
    case (Inr j)
    then have "j < length xs" "?f (xs ! j) = Equal" using binary_search_by_spec [OF p] by simp_all
    then have "j = i" using sorted_slot [OF assms(1)] assms(2) by blast
    then show ?thesis using Inr by simp
  next
    case (Inl j)
    then have "\<forall>k<j. ?f (xs ! k) = Less" "\<forall>k. j \<le> k \<and> k < length xs \<longrightarrow> ?f (xs ! k) = Greater"
      using binary_search_by_spec [OF p] by simp_all
    then have "?f (xs ! i) \<noteq> Equal" using assms(2) by (cases "i < j") auto
    then show ?thesis by (simp add: cmp_refl)
  qed
qed

lemma find_next_spec:
  assumes "wf_txs sc ts" "i < length (tx_list ts)"
  shows "find_next ts (transaction (tx_list ts ! i)) sc =
    Some (if Suc i < length (tx_list ts) then Some (tx_scores ts ! Suc i, tx_list ts ! Suc i) else None)"
  using assms search_member [of "tx_list ts" i] by (simp add: find_next_def wf_txs_def index_at_def)

end


subsection \<open>The operations on a set\<close>

text \<open>What adding a transaction does to the list, by result.\<close>

fun add_effect :: "('t transaction, 's) add_result \<Rightarrow> 't transaction \<Rightarrow> 't transaction list \<Rightarrow> 't transaction list \<Rightarrow> bool" where
  "add_effect (AddOk a) new xs ys \<longleftrightarrow> a = new \<and> mset ys = add_mset new (mset xs)"
| "add_effect (AddReplaced old a) new xs ys \<longleftrightarrow> a = new \<and> old \<in> set xs \<and> add_mset old (mset ys) = add_mset new (mset xs)"
| "add_effect (AddPushedOut old a) new xs ys \<longleftrightarrow> a = new \<and> old \<in> set xs \<and> add_mset old (mset ys) = add_mset new (mset xs)"
| "add_effect (AddTooCheap old a) new xs ys \<longleftrightarrow> a = new \<and> old \<in> set xs \<and> ys = xs"
| "add_effect (AddTooCheapToEnter a score) new xs ys \<longleftrightarrow> a = new \<and> xs \<noteq> [] \<and> ys = xs"

context lawful_scoring
begin

lemma sorted_insert:
  assumes "sorted_wrt (in_order sc) xs" "i \<le> length xs"
    and "\<And>j. j < i \<Longrightarrow> in_order sc (xs ! j) new" "\<And>j. i \<le> j \<Longrightarrow> j < length xs \<Longrightarrow> in_order sc new (xs ! j)"
  shows "sorted_wrt (in_order sc) (take i xs @ new # drop i xs)"
proof -
  have "\<forall>x\<in>set (take i xs). in_order sc x new" using assms(2,3) by (auto simp: in_set_conv_nth)
  moreover have "\<forall>x\<in>set (drop i xs). in_order sc new x" using assms(2,4) by (auto simp: in_set_conv_nth)
  moreover have "sorted_wrt (in_order sc) (take i xs)" "sorted_wrt (in_order sc) (drop i xs)"
    using assms(1) by (simp_all add: sorted_wrt_take sorted_wrt_drop)
  ultimately show ?thesis using order_trans by (simp add: sorted_wrt_append) blast
qed

lemma sorted_replace:
  assumes "sorted_wrt (in_order sc) xs" "i < length xs"
    and "\<And>j. j < i \<Longrightarrow> in_order sc (xs ! j) new" "\<And>j. i < j \<Longrightarrow> j < length xs \<Longrightarrow> in_order sc new (xs ! j)"
  shows "sorted_wrt (in_order sc) (xs[i := new])"
  using assms by (auto simp: sorted_wrt_iff_nth_less nth_list_update)

text \<open>The slot of a new transaction: what is before it and behind it.\<close>

lemma slot_spec:
  assumes s: "sorted_wrt (in_order sc) xs"
    and i: "i = (case binary_search_by xs (\<lambda>old. sc_compare sc (transaction old) (transaction new)) of Inr i \<Rightarrow> i | Inl i \<Rightarrow> i)"
  shows "i \<le> length xs" "\<And>j. j < i \<Longrightarrow> in_order sc (xs ! j) new" "\<And>j. i < j \<Longrightarrow> j < length xs \<Longrightarrow> in_order sc new (xs ! j)"
    and "i < length xs \<Longrightarrow> in_order sc new (xs ! i) \<or> sc_compare sc (transaction (xs ! i)) (transaction new) = Equal"
proof -
  let ?f = "\<lambda>old. sc_compare sc (transaction old) (transaction new)"
  have "i \<le> length xs \<and> (\<forall>j<i. ?f (xs ! j) = Less) \<and> (\<forall>j. i < j \<and> j < length xs \<longrightarrow> ?f (xs ! j) = Greater) \<and>
    (i < length xs \<longrightarrow> ?f (xs ! i) \<noteq> Less)"
  proof (cases "binary_search_by xs ?f")
    case (Inl k)
    then show ?thesis using binary_search_by_spec [OF sorted_partitioned [OF s, of "transaction new"]] i by auto
  next
    case (Inr k)
    then have k: "k < length xs" "?f (xs ! k) = Equal" "i = k"
      using binary_search_by_spec [OF sorted_partitioned [OF s, of "transaction new"]] i by auto
    have "?f (xs ! j) = Less" if "j < k" for j
    proof -
      have "in_order sc (xs ! j) (xs ! k)" using s that k(1) by (simp add: sorted_wrt_iff_nth_less)
      then show ?thesis using cmp_eq [OF k(2)] by (simp add: in_order_def)
    qed
    moreover have "?f (xs ! j) = Greater" if "k < j" "j < length xs" for j
    proof -
      have "in_order sc (xs ! k) (xs ! j)" using s that by (simp add: sorted_wrt_iff_nth_less)
      then show ?thesis using cmp_eq [OF k(2)] cmp_flip by (simp add: in_order_def)
    qed
    ultimately show ?thesis using k by simp
  qed
  then show "i \<le> length xs" "\<And>j. j < i \<Longrightarrow> in_order sc (xs ! j) new" "\<And>j. i < j \<Longrightarrow> j < length xs \<Longrightarrow> in_order sc new (xs ! j)"
    "i < length xs \<Longrightarrow> in_order sc new (xs ! i) \<or> ?f (xs ! i) = Equal"
    using cmp_Greater by (auto simp: in_order_def) (metis ordering.exhaust)
qed

lemma push_spec:
  assumes wf: "wf_txs sc ts" and "0 < m" and "\<And>j. j < length (tx_list ts) \<Longrightarrow> in_order sc (tx_list ts ! j) new"
  shows "\<exists>res ts'. push_cheapest_transaction ts new sc m = Some (res, ts') \<and> wf_txs sc ts' \<and>
    add_effect res new (tx_list ts) (tx_list ts') \<and>
    (length (tx_list ts) \<le> m \<longrightarrow> length (tx_list ts') \<le> m \<or> sc_should_ignore_sender_limit sc (transaction new))"
proof (cases "length (tx_list ts) = m \<and> \<not> sc_should_ignore_sender_limit sc (transaction new)")
  case True
  then have "length (tx_list ts) - 1 < length (tx_scores ts)" using assms(2) wf by (simp add: wf_txs_def)
  then show ?thesis using True wf assms(2)
    by (auto simp: push_cheapest_transaction_def usize_sub_def index_at_def)
next
  case False
  have "sorted_wrt (in_order sc) (tx_list ts @ [new])"
    using wf assms(3) by (auto simp: wf_txs_def sorted_wrt_append in_set_conv_nth)
  moreover have "length (sc_update_scores sc (tx_list ts @ [new]) (tx_scores ts @ [default_score sc]) ch) = Suc (length (tx_list ts))" for ch
    using wf by (simp add: update_length wf_txs_def)
  ultimately show ?thesis using False by (auto simp: push_cheapest_transaction_def wf_txs_def Let_def)
qed

lemma length_update:
  "length ss = length txs \<Longrightarrow> length (sc_update_scores sc txs ss ch) = length txs"
  by (simp add: update_length)

lemma insert_spec:
  assumes wf: "wf_txs sc ts" and m: "0 < m" and i: "i < length (tx_list ts)"
    and s: "sorted_wrt (in_order sc) (take i (tx_list ts) @ new # drop i (tx_list ts))"
    and ch: "sc_choose sc (transaction (tx_list ts ! i)) (transaction new) = InsertNew"
    and idx: "i = (case binary_search_by (tx_list ts) (\<lambda>old. sc_compare sc (transaction old) (transaction new)) of Inr i \<Rightarrow> i | Inl i \<Rightarrow> i)"
  shows "\<exists>res ts'. txs_add ts new sc m = Some (res, ts') \<and> wf_txs sc ts' \<and>
    add_effect res new (tx_list ts) (tx_list ts') \<and> (length (tx_list ts) \<le> m \<longrightarrow> length (tx_list ts') \<le> m)"
proof -
  let ?xs = "tx_list ts"
  define xs where "xs = take i ?xs @ new # drop i ?xs"
  define ss where "ss = take i (tx_scores ts) @ default_score sc # drop i (tx_scores ts)"
  have l: "length (tx_scores ts) = length ?xs" using wf by (simp add: wf_txs_def)
  have lx: "length xs = Suc (length ?xs)" "length ss = Suc (length ?xs)" using i l by (simp_all add: xs_def ss_def)
  have mx: "mset xs = add_mset new (mset ?xs)"
  proof -
    have "mset ?xs = mset (take i ?xs) + mset (drop i ?xs)" by (simp flip: mset_append)
    then show ?thesis by (simp add: xs_def)
  qed
  have ne: "xs \<noteq> []" by (simp add: xs_def)
  have "?xs \<noteq> []" using i by auto
  then have last: "last xs = last ?xs" "last ?xs \<in> set ?xs" using i by (auto simp: xs_def)
  have so: "sorted_wrt (in_order sc) xs" "sorted_wrt (in_order sc) (butlast xs)"
    using s sorted_wrt_take [of "in_order sc" xs "length xs - 1"] by (simp_all add: xs_def butlast_conv_take)
  have bl: "add_mset (last xs) (mset (butlast xs)) = mset xs"
    using ne by (metis append_butlast_last_id mset_append mset_single_iff add_mset_add_single mset.simps)
  let ?u = "sc_update_scores sc xs ss (InsertedAt i)"
  have lu: "length ?u = length xs" using lx by (simp add: length_update)
  have "txs_add ts new sc m = (if m < length xs
      then Some (AddPushedOut (last xs) new, \<lparr> tx_list = butlast xs, tx_scores = sc_update_scores sc (butlast xs) (butlast ?u) (RemovedAt (length (butlast xs))) \<rparr>)
      else Some (AddOk new, \<lparr> tx_list = xs, tx_scores = ?u \<rparr>))"
    using i ch l idx [symmetric] unfolding txs_add_def
    by (simp add: index_at_def vec_insert_def xs_def ss_def Let_def)
  then show ?thesis using so mx bl last lx lu
    by (cases "m < length xs") (auto simp: wf_txs_def length_update)
qed

lemma add_spec:
  assumes wf: "wf_txs sc ts" and m: "0 < m"
  shows "\<exists>res ts'. txs_add ts new sc m = Some (res, ts') \<and> wf_txs sc ts' \<and>
    add_effect res new (tx_list ts) (tx_list ts') \<and>
    (length (tx_list ts) \<le> m \<longrightarrow> length (tx_list ts') \<le> m \<or> sc_should_ignore_sender_limit sc (transaction new))"
proof -
  let ?xs = "tx_list ts"
  define i where "i = (case binary_search_by ?xs (\<lambda>old. sc_compare sc (transaction old) (transaction new)) of Inr i \<Rightarrow> i | Inl i \<Rightarrow> i)"
  have s: "sorted_wrt (in_order sc) ?xs" using wf by (simp add: wf_txs_def)
  note slot = slot_spec [OF s i_def]
  show ?thesis
  proof (cases "i = length ?xs")
    case True
    then have "txs_add ts new sc m = push_cheapest_transaction ts new sc m"
      unfolding txs_add_def i_def [symmetric] by simp
    then show ?thesis using push_spec [OF wf m] slot(2) True by simp
  next
    case False
    then have i: "i < length ?xs" using slot(1) by simp
    show ?thesis
    proof (cases "sc_choose sc (transaction (?xs ! i)) (transaction new)")
      case RejectNew
      then have "txs_add ts new sc m = Some (AddTooCheap (?xs ! i) new, ts)"
        unfolding txs_add_def i_def [symmetric] using i by (simp add: index_at_def)
      then show ?thesis using wf i by simp
    next
      case ReplaceOld
      let ?ys = "?xs[i := new]"
      have "txs_add ts new sc m = Some (AddReplaced (?xs ! i) new, \<lparr> tx_list = ?ys, tx_scores = sc_update_scores sc ?ys (tx_scores ts) (ReplacedAt i) \<rparr>)"
        unfolding txs_add_def i_def [symmetric] using i ReplaceOld by (simp add: index_at_def Let_def)
      moreover have "sorted_wrt (in_order sc) ?ys" using sorted_replace [OF s i] slot(2,3) by blast
      moreover have "add_mset (?xs ! i) (mset ?ys) = add_mset new (mset ?xs)"
        using i by (simp add: mset_update add_mset_remove_trivial_If add_mset_commute)
      ultimately show ?thesis using i wf by (simp add: wf_txs_def length_update)
    next
      case InsertNew
      then have "in_order sc new (?xs ! i)" using slot(4) [OF i] one_per_slot by blast
      then have "in_order sc new (?xs ! j)" if "i \<le> j" "j < length ?xs" for j
        using that slot(3) by (cases "i = j") auto
      then have "sorted_wrt (in_order sc) (take i ?xs @ new # drop i ?xs)"
        using sorted_insert [OF s] slot(1,2) by blast
      then show ?thesis using insert_spec [OF wf m i _ InsertNew i_def] by blast
    qed
  qed
qed

lemma remove_spec:
  assumes wf: "wf_txs sc ts" and tx: "tx \<in> set (tx_list ts)"
  shows "\<exists>ts'. txs_remove ts (transaction tx) sc = Some (True, ts') \<and> wf_txs sc ts' \<and>
    tx_list ts' = filter (\<lambda>t. t \<noteq> tx) (tx_list ts)"
proof -
  let ?xs = "tx_list ts"
  obtain i where i: "i < length ?xs" "tx = ?xs ! i" using tx by (auto simp: in_set_conv_nth)
  have s: "sorted_wrt (in_order sc) ?xs" using wf by (simp add: wf_txs_def)
  define ys where "ys = take i ?xs @ drop (Suc i) ?xs"
  have xs: "?xs = take i ?xs @ tx # drop (Suc i) ?xs" using i by (simp add: id_take_nth_drop)
  have d: "distinct (take i ?xs @ tx # drop (Suc i) ?xs)" using sorted_distinct [OF s] xs by simp
  have "filter (\<lambda>t. t \<noteq> tx) (take i ?xs @ tx # drop (Suc i) ?xs) = ys"
  proof -
    have "filter (\<lambda>t. t \<noteq> tx) (take i ?xs) = take i ?xs" "filter (\<lambda>t. t \<noteq> tx) (drop (Suc i) ?xs) = drop (Suc i) ?xs"
      unfolding filter_id_conv using d by auto
    then show ?thesis by (simp add: ys_def)
  qed
  then have f: "filter (\<lambda>t. t \<noteq> tx) ?xs = ys" using xs by simp
  have "sorted_wrt (in_order sc) ys"
    unfolding f [symmetric] using s by (rule sorted_wrt_filter)
  moreover have "txs_remove ts (transaction tx) sc =
      Some (True, \<lparr> tx_list = ys, tx_scores = sc_update_scores sc ys (take i (tx_scores ts) @ drop (Suc i) (tx_scores ts)) (RemovedAt i) \<rparr>)"
    using search_member [OF s i(1)] i wf by (simp add: txs_remove_def vec_remove_def ys_def wf_txs_def Let_def)
  moreover have "length (take i (tx_scores ts) @ drop (Suc i) (tx_scores ts)) = length ys"
    using wf by (simp add: ys_def wf_txs_def)
  ultimately show ?thesis using f by (simp add: wf_txs_def length_update)
qed

lemma update_scores_spec:
  "wf_txs sc ts \<Longrightarrow> wf_txs sc (txs_update_scores ts sc e) \<and> tx_list (txs_update_scores ts sc e) = tx_list ts"
  by (simp add: wf_txs_def txs_update_scores_def length_update)

end

text \<open>Culling takes the stalled transactions at the front, the readiness state threaded through them.\<close>

lemma pop_each_spec:
  "n \<le> length xs \<Longrightarrow> length ss = length xs \<Longrightarrow>
     pop_each n (rev xs) (rev ss) acc = Some (acc @ take n xs, rev (drop n xs), rev (drop n ss))"
proof (induction n arbitrary: xs ss acc)
  case (Suc n)
  then obtain x ys s ts where "xs = x # ys" "ss = s # ts" by (cases xs; cases ss) auto
  then show ?case using Suc by simp
qed simp

text \<open>What a readiness check answers about transactions it is asked about one after the other, and its state after that.\<close>

primrec answers :: "('t, 'r) ready \<Rightarrow> 'r \<Rightarrow> 't list \<Rightarrow> readiness list" where
  "answers ready st [] = []"
| "answers ready st (t # ts) = fst (ready st t) # answers ready (snd (ready st t)) ts"

primrec asked :: "('t, 'r) ready \<Rightarrow> 'r \<Rightarrow> 't list \<Rightarrow> 'r" where
  "asked ready st [] = st"
| "asked ready st (t # ts) = asked ready (snd (ready st t)) ts"

definition leading_stale :: "('t, 'r) ready \<Rightarrow> 'r \<Rightarrow> 't list \<Rightarrow> nat" where
  "leading_stale ready st ts = length (takeWhile (\<lambda>a. a = Stale) (answers ready st ts))"

lemma length_answers [simp]: "length (answers ready st ts) = length ts"
  by (induction ts arbitrary: st) simp_all

lemma leading_stale_le: "leading_stale ready st ts \<le> length ts"
  using length_takeWhile_le [of "\<lambda>a. a = Stale" "answers ready st ts"] by (simp add: leading_stale_def)

lemma count_stalled_spec:
  "count_stalled ready st xs n =
     (n + leading_stale ready st (map transaction xs), asked ready st (take (Suc (leading_stale ready st (map transaction xs))) (map transaction xs)))"
proof (induction xs arbitrary: st n)
  case (Cons x xs)
  obtain r st' where "ready st (transaction x) = (r, st')" by fastforce
  then show ?case using Cons [of st' "n + 1"] by (cases r) (simp_all add: leading_stale_def)
qed (simp add: leading_stale_def)

context lawful_scoring
begin

lemma cull_spec:
  assumes wf: "wf_txs sc ts" and c: "count_stalled ready st (tx_list ts) 0 = (n, st')"
  shows "\<exists>ts'. txs_cull ts ready st sc = Some (rev (take n (tx_list ts)), ts', st') \<and> wf_txs sc ts' \<and>
    tx_list ts' = drop n (tx_list ts)"
proof -
  have n: "n \<le> length (tx_list ts)" using c leading_stale_le [of ready st "map transaction (tx_list ts)"] by (auto simp: count_stalled_spec)
  have l: "length (tx_scores ts) = length (tx_list ts)" using wf by (simp add: wf_txs_def)
  show ?thesis
  proof (cases "tx_list ts = [] \<or> n = 0")
    case True
    then show ?thesis using wf c n by (auto simp: txs_cull_def txs_is_empty_def Let_def)
  next
    case False
    have "txs_cull ts ready st sc = Some (rev (take n (tx_list ts)),
        \<lparr> tx_list = drop n (tx_list ts), tx_scores = sc_update_scores sc (drop n (tx_list ts)) (drop n (tx_scores ts)) (Culled n) \<rparr>, st')"
      using False n by (simp add: txs_cull_def txs_is_empty_def c pop_each_spec [OF n l] Let_def min_def)
    moreover have "sorted_wrt (in_order sc) (drop n (tx_list ts))"
      using wf by (simp add: wf_txs_def sorted_wrt_drop)
    ultimately show ?thesis using l by (simp add: wf_txs_def length_update)
  qed
qed

end

end
