(* ===== verification/Pool.thy ===== *)
theory Pool
  imports Pool_Txs "HOL-Library.AList"
begin

text \<open>
  The transaction pool (\<^verbatim>\<open>pool.rs\<close>): the sets of all senders, the index by hash, the ordered sets of
  the best and of the worst transaction of each sender, and the memory they use. A \<^verbatim>\<open>HashMap\<close> is an
  association list with distinct keys, whose order stands for the iteration order of the map. A
  \<^verbatim>\<open>BTreeSet\<close> is the sorted list of its elements. The calls of the listener are recorded in the order
  they are made, so that every \<^verbatim>\<open>Listener\<close> is a fold over the record.
\<close>

subsection \<open>Data\<close>

record options =
  max_count :: nat
  max_per_sender :: nat
  max_mem_usage :: nat

definition options_default :: options where
  "options_default = \<lparr> max_count = 1024, max_per_sender = 16, max_mem_usage = 8 * 1024 * 1024 \<rparr>"

datatype 'h error =
    AlreadyImported 'h
  | TooCheapToEnter 'h string
  | TooCheapToReplace 'h 'h

datatype ('t, 'h) notification =
    Added 't "'t option"
  | Rejected 't "'h error"
  | Dropped 't "'t option"
  | Invalid 't
  | Canceled 't
  | CulledTx 't

text \<open>A listener handles the notifications one by one; a pair of listeners passes each one to both.\<close>

type_synonym ('t, 'h, 'l) listener = "('t, 'h) notification \<Rightarrow> 'l \<Rightarrow> 'l"

definition noop_listener :: "('t, 'h, unit) listener" where
  "noop_listener n l = l"

definition listener_pair :: "('t, 'h, 'a) listener \<Rightarrow> ('t, 'h, 'b) listener \<Rightarrow> ('t, 'h, 'a \<times> 'b) listener" where
  "listener_pair f g n l = (f n (fst l), g n (snd l))"

record ('t, 's) score_with_ref =
  sr_score :: 's
  sr_transaction :: "'t transaction"

record 't replace_transaction =
  rt_transaction :: "'t transaction"
  rt_pooled_by_sender :: "'t transaction list option"

type_synonym 't should_replace = "'t replace_transaction \<Rightarrow> 't replace_transaction \<Rightarrow> choice"

record ('t, 'h, 'k, 's) pool =
  pl_listener :: "('t, 'h) notification list"
  pl_options :: options
  pl_mem_usage :: nat
  pl_transactions :: "('k \<times> ('t, 's) transactions) list"
  pl_by_hash :: "('h \<times> 't transaction) list"
  pl_best :: "('t, 's) score_with_ref list"
  pl_worst :: "('t, 's) score_with_ref list"
  pl_insertion_id :: nat

record light_status =
  ls_mem_usage :: nat
  ls_transaction_count :: nat
  ls_senders :: nat

record status =
  st_stalled :: nat
  st_pending :: nat
  st_future :: nat

text \<open>\<^verbatim>\<open>Ord for ScoreWithRef\<close>, and \<^verbatim>\<open>insert\<close> and \<^verbatim>\<open>remove\<close> of the ordered sets.\<close>

definition score_ref_cmp :: "('t, 's::linorder) score_with_ref \<Rightarrow> ('t, 's) score_with_ref \<Rightarrow> ordering" where
  "score_ref_cmp a b =
     (case cmp_of (sr_score b) (sr_score a) of
        Equal \<Rightarrow> cmp_of (insertion_id (sr_transaction a)) (insertion_id (sr_transaction b))
      | c \<Rightarrow> c)"

fun bt_insert :: "('t, 's::linorder) score_with_ref \<Rightarrow> ('t, 's) score_with_ref list \<Rightarrow> ('t, 's) score_with_ref list" where
  "bt_insert x [] = [x]"
| "bt_insert x (y # ys) =
     (case score_ref_cmp x y of Less \<Rightarrow> x # y # ys | Equal \<Rightarrow> y # ys | Greater \<Rightarrow> y # bt_insert x ys)"

fun bt_remove :: "('t, 's::linorder) score_with_ref \<Rightarrow> ('t, 's) score_with_ref list \<Rightarrow> ('t, 's) score_with_ref list" where
  "bt_remove x [] = []"
| "bt_remove x (y # ys) =
     (case score_ref_cmp x y of Less \<Rightarrow> y # ys | Equal \<Rightarrow> ys | Greater \<Rightarrow> y # bt_remove x ys)"

subsection \<open>Operations\<close>

definition pool_new :: "options \<Rightarrow> ('t, 'h, 'k, 's) pool" where
  "pool_new options =
     \<lparr> pl_listener = [], pl_options = options, pl_mem_usage = 0, pl_transactions = [], pl_by_hash = [],
       pl_best = [], pl_worst = [], pl_insertion_id = 0 \<rparr>"

definition notify :: "('t, 'h) notification \<Rightarrow> ('t, 'h, 'k, 's) pool \<Rightarrow> ('t, 'h, 'k, 's) pool" where
  "notify n p = p\<lparr> pl_listener := pl_listener p @ [n] \<rparr>"

definition finalize_remove ::
  "('t, 'h, 'k) verified_transaction \<Rightarrow> 'h \<Rightarrow> ('t, 'h, 'k, 's) pool \<Rightarrow> ('t option \<times> ('t, 'h, 'k, 's) pool) may_panic" where
  "finalize_remove vt hash p =
     (case map_of (pl_by_hash p) hash of
        None \<Rightarrow> Some (None, p)
      | Some old \<Rightarrow>
          do {
            mem \<leftarrow> usize_sub (pl_mem_usage p) (vt_mem_usage vt (transaction old));
            Some (Some (transaction old), p\<lparr> pl_by_hash := AList.delete hash (pl_by_hash p), pl_mem_usage := mem \<rparr>) })"

definition finalize_insert ::
  "('t, 'h, 'k) verified_transaction \<Rightarrow> 't transaction \<Rightarrow> 't transaction option \<Rightarrow> ('t, 'h, 'k, 's) pool \<Rightarrow>
   ('t, 'h, 'k, 's) pool may_panic" where
  "finalize_insert vt new old p =
     do {
       mem \<leftarrow> usize_add (pl_mem_usage p) (vt_mem_usage vt (transaction new));
       let p = p\<lparr> pl_mem_usage := mem, pl_by_hash := AList.update (vt_hash vt (transaction new)) new (pl_by_hash p) \<rparr>;
       case old of
         None \<Rightarrow> Some p
       | Some old \<Rightarrow> map_option snd (finalize_remove vt (vt_hash vt (transaction old)) p) }"

definition is_same ::
  "('t, 'h, 'k) verified_transaction \<Rightarrow> 's \<times> 't transaction \<Rightarrow> 's \<times> 't transaction \<Rightarrow> bool" where
  "is_same vt a b = (fst a = fst b \<and> vt_hash vt (transaction (snd a)) = vt_hash vt (transaction (snd b)))"

definition update_collection ::
  "('t, 's::linorder) score_with_ref list \<Rightarrow> 's \<times> 't transaction \<Rightarrow> bool \<Rightarrow> ('t, 's) score_with_ref list" where
  "update_collection c st remove =
     (let x = \<lparr> sr_score = fst st, sr_transaction = snd st \<rparr> in
      if remove then bt_remove x c else bt_insert x c)"

definition update_senders_worst_and_best ::
  "('t, 'h, 'k) verified_transaction \<Rightarrow>
   (('s::linorder \<times> 't transaction) \<times> ('s \<times> 't transaction)) option \<Rightarrow>
   (('s \<times> 't transaction) \<times> ('s \<times> 't transaction)) option \<Rightarrow>
   ('t, 'h, 'k, 's) pool \<Rightarrow> ('t, 'h, 'k, 's) pool" where
  "update_senders_worst_and_best vt previous current p =
     (case (previous, current) of
        (None, Some (worst, best)) \<Rightarrow>
          p\<lparr> pl_worst := update_collection (pl_worst p) worst False,
             pl_best := update_collection (pl_best p) best False \<rparr>
      | (Some (worst, best), None) \<Rightarrow>
          p\<lparr> pl_transactions := AList.delete (vt_sender vt (transaction (snd worst))) (pl_transactions p),
             pl_worst := update_collection (pl_worst p) worst True,
             pl_best := update_collection (pl_best p) best True \<rparr>
      | (Some (w1, b1), Some (w2, b2)) \<Rightarrow>
          p\<lparr> pl_worst := (if \<not> is_same vt w1 w2
                          then update_collection (update_collection (pl_worst p) w1 True) w2 False
                          else pl_worst p),
             pl_best := (if \<not> is_same vt b1 b2
                         then update_collection (update_collection (pl_best p) b1 True) b2 False
                         else pl_best p) \<rparr>
      | (None, None) \<Rightarrow> p)"

definition remove_from_set ::
  "('t, 'h, 'k) verified_transaction \<Rightarrow> 'k \<Rightarrow> (('t, 's::linorder) transactions \<Rightarrow> ('r \<times> ('t, 's) transactions) may_panic) \<Rightarrow>
   ('t, 'h, 'k, 's) pool \<Rightarrow> ('r option \<times> ('t, 'h, 'k, 's) pool) may_panic" where
  "remove_from_set vt sender f p =
     (case map_of (pl_transactions p) sender of
        None \<Rightarrow> Some (None, p)
      | Some ts \<Rightarrow>
          do {
            prev \<leftarrow> worst_and_best ts;
            (result, ts) \<leftarrow> f ts;
            next \<leftarrow> worst_and_best ts;
            let p = p\<lparr> pl_transactions := AList.update sender ts (pl_transactions p) \<rparr>;
            Some (Some result, update_senders_worst_and_best vt prev next p) })"

definition remove_worst ::
  "('t, 'h, 'k) verified_transaction \<Rightarrow> ('t, 's::linorder, 'e) scoring \<Rightarrow> 't should_replace \<Rightarrow> 't transaction \<Rightarrow>
   ('t, 'h, 'k, 's) pool \<Rightarrow> (('h error + 't transaction option) \<times> ('t, 'h, 'k, 's) pool) may_panic" where
  "remove_worst vt sc replace tx p =
     (if pl_worst p = []
      then Some (Inl (TooCheapToEnter (vt_hash vt (transaction tx)) ''unknown''), p)
      else
        let old = last (pl_worst p);
            get_replace_tx = (\<lambda>t. \<lparr> rt_transaction = t,
              rt_pooled_by_sender = map_option txs_iter (map_of (pl_transactions p) (vt_sender vt (transaction tx))) \<rparr>)
        in
        case replace (get_replace_tx (sr_transaction old)) (get_replace_tx tx) of
          InsertNew \<Rightarrow> Some (Inr None, p)
        | RejectNew \<Rightarrow> Some (Inl (TooCheapToEnter (vt_hash vt (transaction tx)) (score_hex sc (sr_score old))), p)
        | ReplaceOld \<Rightarrow>
            do {
              (_, p) \<leftarrow> remove_from_set vt (vt_sender vt (transaction (sr_transaction old)))
                          (\<lambda>ts. txs_remove ts (transaction (sr_transaction old)) sc) p;
              Some (Inr (Some (sr_transaction old)), p) })"

text \<open>The closure \<^verbatim>\<open>remove_worst\<close> of \<^verbatim>\<open>import\<close>, and the two loops that call it while a limit is exceeded.\<close>

definition import_remove_worst ::
  "('t, 'h, 'k) verified_transaction \<Rightarrow> ('t, 's::linorder, 'e) scoring \<Rightarrow> 't should_replace \<Rightarrow> 't transaction \<Rightarrow>
   ('t, 'h, 'k, 's) pool \<Rightarrow> (('h error + bool) \<times> ('t, 'h, 'k, 's) pool) may_panic" where
  "import_remove_worst vt sc replace tx p =
     do {
       (res, p) \<leftarrow> remove_worst vt sc replace tx p;
       case res of
         Inl err \<Rightarrow> Some (Inl err, notify (Rejected (transaction tx) err) p)
       | Inr None \<Rightarrow> Some (Inr False, p)
       | Inr (Some removed) \<Rightarrow>
           do {
             let p = notify (Dropped (transaction removed) (Some (transaction tx))) p;
             (_, p) \<leftarrow> finalize_remove vt (vt_hash vt (transaction removed)) p;
             Some (Inr True, p) } }"

partial_function (option) evict_loop ::
  "(('t, 'h, 'k, 's::linorder) pool \<Rightarrow> bool may_panic) \<Rightarrow>
   (('t, 'h, 'k, 's) pool \<Rightarrow> (('h error + bool) \<times> ('t, 'h, 'k, 's) pool) may_panic) \<Rightarrow>
   ('t, 'h, 'k, 's) pool \<Rightarrow> (('h error + unit) \<times> ('t, 'h, 'k, 's) pool) option" where
  "evict_loop exceeded step p =
     do {
       full \<leftarrow> exceeded p;
       if full then
         do {
           (res, p) \<leftarrow> step p;
           case res of
             Inl err \<Rightarrow> Some (Inl err, p)
           | Inr removed \<Rightarrow> if removed then evict_loop exceeded step p else Some (Inr (), p) }
       else Some (Inr (), p) }"

definition count_exceeded :: "('t, 'h, 'k, 's) pool \<Rightarrow> bool may_panic" where
  "count_exceeded p =
     do { n \<leftarrow> usize_add (length (pl_by_hash p)) 1; Some (max_count (pl_options p) < n) }"

definition mem_exceeded :: "nat \<Rightarrow> ('t, 'h, 'k, 's) pool \<Rightarrow> bool may_panic" where
  "mem_exceeded mem p =
     do { n \<leftarrow> usize_add (pl_mem_usage p) mem; Some (max_mem_usage (pl_options p) < n) }"

text \<open>The second half of \<^verbatim>\<open>import\<close>: the transaction enters the set of its sender.\<close>

definition import_add ::
  "('t, 'h, 'k) verified_transaction \<Rightarrow> ('t, 's::linorder, 'e) scoring \<Rightarrow> 't transaction \<Rightarrow>
   ('t, 'h, 'k, 's) pool \<Rightarrow> (('h error + 't) \<times> ('t, 'h, 'k, 's) pool) may_panic" where
  "import_add vt sc tx p =
     do {
       let sender = vt_sender vt (transaction tx);
       let ts = (case map_of (pl_transactions p) sender of None \<Rightarrow> txs_default | Some ts \<Rightarrow> ts);
       prev \<leftarrow> worst_and_best ts;
       (result, ts) \<leftarrow> txs_add ts tx sc (max_per_sender (pl_options p));
       current \<leftarrow> worst_and_best ts;
       let p = update_senders_worst_and_best vt prev current (p\<lparr> pl_transactions := AList.update sender ts (pl_transactions p) \<rparr>);
       case result of
         AddOk tx \<Rightarrow>
           do { p \<leftarrow> finalize_insert vt tx None (notify (Added (transaction tx) None) p); Some (Inr (transaction tx), p) }
       | AddPushedOut old new \<Rightarrow>
           do { p \<leftarrow> finalize_insert vt new (Some old) (notify (Added (transaction new) (Some (transaction old))) p);
                Some (Inr (transaction new), p) }
       | AddReplaced old new \<Rightarrow>
           do { p \<leftarrow> finalize_insert vt new (Some old) (notify (Added (transaction new) (Some (transaction old))) p);
                Some (Inr (transaction new), p) }
       | AddTooCheap old new \<Rightarrow>
           let err = TooCheapToReplace (vt_hash vt (transaction old)) (vt_hash vt (transaction new)) in
           Some (Inl err, notify (Rejected (transaction new) err) p)
       | AddTooCheapToEnter new score \<Rightarrow>
           let err = TooCheapToEnter (vt_hash vt (transaction new)) (score_hex sc score) in
           Some (Inl err, notify (Rejected (transaction new) err) p) }"

definition pool_import ::
  "('t, 'h, 'k) verified_transaction \<Rightarrow> ('t, 's::linorder, 'e) scoring \<Rightarrow> 't should_replace \<Rightarrow> 't \<Rightarrow>
   ('t, 'h, 'k, 's) pool \<Rightarrow> (('h error + 't) \<times> ('t, 'h, 'k, 's) pool) may_panic" where
  "pool_import vt sc replace t p =
     (if map_of (pl_by_hash p) (vt_hash vt t) \<noteq> None then Some (Inl (AlreadyImported (vt_hash vt t)), p)
      else
        do {
          id \<leftarrow> usize_add (pl_insertion_id p) 1;
          let p = p\<lparr> pl_insertion_id := id \<rparr>;
          let tx = \<lparr> insertion_id = id, transaction = t \<rparr>;
          (res, p) \<leftarrow> evict_loop count_exceeded (import_remove_worst vt sc replace tx) p;
          case res of
            Inl err \<Rightarrow> Some (Inl err, p)
          | Inr _ \<Rightarrow>
              do {
                (res, p) \<leftarrow> evict_loop (mem_exceeded (vt_mem_usage vt t)) (import_remove_worst vt sc replace tx) p;
                case res of
                  Inl err \<Rightarrow> Some (Inl err, p)
                | Inr _ \<Rightarrow> import_add vt sc tx p } })"

definition pool_clear :: "('t, 'h, 'k, 's) pool \<Rightarrow> ('t, 'h, 'k, 's) pool" where
  "pool_clear p =
     p\<lparr> pl_mem_usage := 0, pl_transactions := [], pl_best := [], pl_worst := [], pl_by_hash := [],
        pl_listener := pl_listener p @ map (\<lambda>(_, tx). Dropped (transaction tx) None) (pl_by_hash p) \<rparr>"

definition pool_remove ::
  "('t, 'h, 'k) verified_transaction \<Rightarrow> ('t, 's::linorder, 'e) scoring \<Rightarrow> 'h \<Rightarrow> bool \<Rightarrow>
   ('t, 'h, 'k, 's) pool \<Rightarrow> ('t option \<times> ('t, 'h, 'k, 's) pool) may_panic" where
  "pool_remove vt sc hash is_invalid p =
     do {
       (res, p) \<leftarrow> finalize_remove vt hash p;
       case res of
         None \<Rightarrow> Some (None, p)
       | Some tx \<Rightarrow>
           do {
             (_, p) \<leftarrow> remove_from_set vt (vt_sender vt tx) (\<lambda>ts. txs_remove ts tx sc) p;
             Some (Some tx, notify (if is_invalid then Invalid tx else Canceled tx) p) } }"

fun finalize_culled ::
  "('t, 'h, 'k) verified_transaction \<Rightarrow> 't transaction list \<Rightarrow> ('t, 'h, 'k, 's) pool \<Rightarrow> ('t, 'h, 'k, 's) pool may_panic" where
  "finalize_culled vt [] p = Some p"
| "finalize_culled vt (tx # txs) p =
     do {
       (_, p) \<leftarrow> finalize_remove vt (vt_hash vt (transaction tx)) p;
       finalize_culled vt txs (notify (CulledTx (transaction tx)) p) }"

definition remove_stalled ::
  "('t, 'h, 'k) verified_transaction \<Rightarrow> ('t, 's::linorder, 'e) scoring \<Rightarrow> ('t, 'r) ready \<Rightarrow> 'k \<Rightarrow>
   'r \<Rightarrow> ('t, 'h, 'k, 's) pool \<Rightarrow> (nat \<times> 'r \<times> ('t, 'h, 'k, 's) pool) may_panic" where
  "remove_stalled vt sc ready sender st p =
     do {
       (removed_from_set, p) \<leftarrow> remove_from_set vt sender
         (\<lambda>ts. map_option (\<lambda>(result, ts, st). ((result, st), ts)) (txs_cull ts ready st sc)) p;
       case removed_from_set of
         Some (removed, st) \<Rightarrow> do { p \<leftarrow> finalize_culled vt removed p; Some (length removed, st, p) }
       | None \<Rightarrow> Some (0, st, p) }"

fun cull_senders ::
  "('t, 'h, 'k) verified_transaction \<Rightarrow> ('t, 's::linorder, 'e) scoring \<Rightarrow> ('t, 'r) ready \<Rightarrow> 'k list \<Rightarrow>
   nat \<Rightarrow> 'r \<Rightarrow> ('t, 'h, 'k, 's) pool \<Rightarrow> (nat \<times> 'r \<times> ('t, 'h, 'k, 's) pool) may_panic" where
  "cull_senders vt sc ready [] removed st p = Some (removed, st, p)"
| "cull_senders vt sc ready (k # ks) removed st p =
     do {
       (n, st, p) \<leftarrow> remove_stalled vt sc ready k st p;
       removed \<leftarrow> usize_add removed n;
       cull_senders vt sc ready ks removed st p }"

definition pool_cull ::
  "('t, 'h, 'k) verified_transaction \<Rightarrow> ('t, 's::linorder, 'e) scoring \<Rightarrow> ('t, 'r) ready \<Rightarrow> 'k list option \<Rightarrow>
   'r \<Rightarrow> ('t, 'h, 'k, 's) pool \<Rightarrow> (nat \<times> ('t, 'h, 'k, 's) pool) may_panic" where
  "pool_cull vt sc ready senders st p =
     (let ks = (case senders of Some ks \<Rightarrow> ks | None \<Rightarrow> map fst (pl_transactions p)) in
      map_option (\<lambda>(n, st, p). (n, p)) (cull_senders vt sc ready ks 0 st p))"

definition pool_find :: "'h \<Rightarrow> ('t, 'h, 'k, 's) pool \<Rightarrow> 't option" where
  "pool_find hash p = map_option transaction (map_of (pl_by_hash p) hash)"

definition worst_transaction :: "('t, 'h, 'k, 's) pool \<Rightarrow> 't option" where
  "worst_transaction p =
     (if pl_worst p = [] then None else Some (transaction (sr_transaction (last (pl_worst p)))))"

definition is_full :: "('t, 'h, 'k, 's) pool \<Rightarrow> bool" where
  "is_full p = (length (pl_by_hash p) \<ge> max_count (pl_options p) \<or> pl_mem_usage p \<ge> max_mem_usage (pl_options p))"

definition pool_senders :: "('t, 'h, 'k) verified_transaction \<Rightarrow> ('t, 'h, 'k, 's) pool \<Rightarrow> 'k list" where
  "pool_senders vt p = map (\<lambda>x. vt_sender vt (transaction (sr_transaction x))) (pl_best p)"

definition pool_update_scores ::
  "('t, 'h, 'k) verified_transaction \<Rightarrow> ('t, 's::linorder, 'e) scoring \<Rightarrow> 'k \<Rightarrow> 'e \<Rightarrow>
   ('t, 'h, 'k, 's) pool \<Rightarrow> ('t, 'h, 'k, 's) pool may_panic" where
  "pool_update_scores vt sc sender event p =
     (case map_of (pl_transactions p) sender of
        None \<Rightarrow> Some p
      | Some ts \<Rightarrow>
          do {
            prev \<leftarrow> worst_and_best ts;
            let ts = txs_update_scores ts sc event;
            current \<leftarrow> worst_and_best ts;
            Some (update_senders_worst_and_best vt prev current
                    (p\<lparr> pl_transactions := AList.update sender ts (pl_transactions p) \<rparr>)) })"

definition pool_light_status :: "('t, 'h, 'k, 's) pool \<Rightarrow> light_status" where
  "pool_light_status p =
     \<lparr> ls_mem_usage = pl_mem_usage p, ls_transaction_count = length (pl_by_hash p), ls_senders = length (pl_transactions p) \<rparr>"


subsection \<open>Ordered sets\<close>

text \<open>The order of the references: higher scores first, then older transactions.\<close>

definition ref_less :: "('t, 's::linorder) score_with_ref \<Rightarrow> ('t, 's) score_with_ref \<Rightarrow> bool" where
  "ref_less a b \<longleftrightarrow> sr_score b < sr_score a \<or>
     sr_score a = sr_score b \<and> insertion_id (sr_transaction a) < insertion_id (sr_transaction b)"

definition ref_eq :: "('t, 's) score_with_ref \<Rightarrow> ('t, 's) score_with_ref \<Rightarrow> bool" where
  "ref_eq a b \<longleftrightarrow> sr_score a = sr_score b \<and> insertion_id (sr_transaction a) = insertion_id (sr_transaction b)"

lemma score_ref_cmp_simps:
  "score_ref_cmp a b = Less \<longleftrightarrow> ref_less a b" "score_ref_cmp a b = Equal \<longleftrightarrow> ref_eq a b"
  "score_ref_cmp a b = Greater \<longleftrightarrow> ref_less b a"
  by (auto simp: score_ref_cmp_def ref_less_def ref_eq_def cmp_of_def)

lemma ref_less_trans: "ref_less a b \<Longrightarrow> ref_less b c \<Longrightarrow> ref_less a c"
  by (auto simp: ref_less_def)

lemma ref_eq_less: "ref_eq a b \<Longrightarrow> ref_less b c \<Longrightarrow> ref_less a c" "ref_less a a \<longleftrightarrow> False" "ref_eq a a"
  "ref_less a b \<Longrightarrow> \<not> ref_eq a b"
  by (auto simp: ref_less_def ref_eq_def)

lemma bt_insert_set:
  assumes "sorted_wrt ref_less l" "\<And>y. y \<in> set l \<Longrightarrow> ref_eq x y \<Longrightarrow> y = x"
  shows "set (bt_insert x l) = insert x (set l) \<and> sorted_wrt ref_less (bt_insert x l)"
  using assms
proof (induction l)
  case (Cons y ys)
  have IH: "set (bt_insert x ys) = insert x (set ys) \<and> sorted_wrt ref_less (bt_insert x ys)"
    using Cons by simp
  show ?case
  proof (cases "score_ref_cmp x y")
    case Less
    then have "ref_less x y" by (simp add: score_ref_cmp_simps)
    then show ?thesis using Less Cons.prems(1) ref_less_trans by auto
  next
    case Equal
    then have "y = x" using Cons.prems(2) by (simp add: score_ref_cmp_simps)
    then show ?thesis using Equal Cons.prems(1) by auto
  next
    case Greater
    then have "ref_less y x" by (simp add: score_ref_cmp_simps)
    then show ?thesis using Greater IH Cons.prems(1) by auto
  qed
qed simp

lemma bt_remove_set:
  assumes "sorted_wrt ref_less l"
  shows "set (bt_remove x l) = {y \<in> set l. \<not> ref_eq x y} \<and> sorted_wrt ref_less (bt_remove x l)"
  using assms
proof (induction l)
  case (Cons y ys)
  have IH: "set (bt_remove x ys) = {y \<in> set ys. \<not> ref_eq x y} \<and> sorted_wrt ref_less (bt_remove x ys)"
    using Cons by simp
  show ?case
  proof (cases "score_ref_cmp x y")
    case Less
    then have "ref_less x z" if "z \<in> set (y # ys)" for z
      using that Cons.prems ref_less_trans by (auto simp: score_ref_cmp_simps)
    then show ?thesis using Less Cons.prems ref_eq_less(4) by auto
  next
    case Equal
    then have "ref_eq x y" by (simp add: score_ref_cmp_simps)
    then have "ref_less x z" if "z \<in> set ys" for z using that Cons.prems ref_eq_less(1) by auto
    then show ?thesis using Equal \<open>ref_eq x y\<close> Cons.prems ref_eq_less(4) by auto
  next
    case Greater
    then have "ref_less y x" by (simp add: score_ref_cmp_simps)
    then have "\<not> ref_eq x y" by (auto simp: ref_less_def ref_eq_def)
    then show ?thesis using Greater IH Cons.prems by auto
  qed
qed simp

lemma sorted_last_max: "sorted_wrt ref_less l \<Longrightarrow> x \<in> set l \<Longrightarrow> x = last l \<or> ref_less x (last l)"
  by (induction l rule: rev_induct) (auto simp: sorted_wrt_append)

text \<open>What the two collections hold: a reference for each sender.\<close>

definition ref_of :: "'s \<times> 't transaction \<Rightarrow> ('t, 's) score_with_ref" where
  "ref_of x = \<lparr> sr_score = fst x, sr_transaction = snd x \<rparr>"

definition best_of :: "('t, 's) transactions \<Rightarrow> ('t, 's) score_with_ref" where
  "best_of ts = ref_of (hd (tx_scores ts), hd (tx_list ts))"

definition worst_of :: "('t, 's) transactions \<Rightarrow> ('t, 's) score_with_ref" where
  "worst_of ts = ref_of (last (tx_scores ts), last (tx_list ts))"

lemma ref_of_simps [simp]: "sr_score (ref_of x) = fst x" "sr_transaction (ref_of x) = snd x"
  by (simp_all add: ref_of_def)

lemma update_collection_eq: "update_collection c x r = (if r then bt_remove (ref_of x) c else bt_insert (ref_of x) c)"
  by (simp add: update_collection_def ref_of_def Let_def)

subsection \<open>The invariant\<close>

definition all_txs :: "('k \<times> ('t, 's) transactions) list \<Rightarrow> 't transaction set" where
  "all_txs trs = (\<Union>(k, ts) \<in> set trs. set (tx_list ts))"

definition unique_txs :: "('t, 'h, 'k) verified_transaction \<Rightarrow> 't transaction set \<Rightarrow> bool" where
  "unique_txs vt A \<longleftrightarrow> inj_on insertion_id A \<and> inj_on (\<lambda>t. vt_hash vt (transaction t)) A"

definition wf_entry :: "('t, 'h, 'k) verified_transaction \<Rightarrow> ('t, 's, 'e) scoring \<Rightarrow> 'k \<Rightarrow> ('t, 's) transactions \<Rightarrow> bool" where
  "wf_entry vt sc k ts \<longleftrightarrow> wf_txs sc ts \<and> (\<forall>t \<in> set (tx_list ts). vt_sender vt (transaction t) = k)"

text \<open>
  The sets: one non-empty well-formed set per sender, and the collections hold exactly the first and
  the last transaction of each set with its score.
\<close>

definition sets_inv :: "('t, 'h, 'k) verified_transaction \<Rightarrow> ('t, 's::linorder, 'e) scoring \<Rightarrow> ('t, 'h, 'k, 's) pool \<Rightarrow> bool" where
  "sets_inv vt sc p \<longleftrightarrow>
     distinct (map fst (pl_transactions p)) \<and>
     (\<forall>(k, ts) \<in> set (pl_transactions p). wf_entry vt sc k ts \<and> tx_list ts \<noteq> []) \<and>
     unique_txs vt (all_txs (pl_transactions p)) \<and>
     (\<forall>t \<in> all_txs (pl_transactions p). insertion_id t \<le> pl_insertion_id p) \<and>
     sorted_wrt ref_less (pl_best p) \<and> set (pl_best p) = best_of ` snd ` set (pl_transactions p) \<and>
     sorted_wrt ref_less (pl_worst p) \<and> set (pl_worst p) = worst_of ` snd ` set (pl_transactions p)"

text \<open>The index: transactions under their hash, and the memory they use.\<close>

definition hash_inv :: "('t, 'h, 'k) verified_transaction \<Rightarrow> ('t, 'h, 'k, 's) pool \<Rightarrow> bool" where
  "hash_inv vt p \<longleftrightarrow>
     distinct (map fst (pl_by_hash p)) \<and>
     (\<forall>(h, t) \<in> set (pl_by_hash p). vt_hash vt (transaction t) = h) \<and>
     pl_mem_usage p = sum_list (map (\<lambda>(h, t). vt_mem_usage vt (transaction t)) (pl_by_hash p))"

definition pool_inv :: "('t, 'h, 'k) verified_transaction \<Rightarrow> ('t, 's::linorder, 'e) scoring \<Rightarrow> ('t, 'h, 'k, 's) pool \<Rightarrow> bool" where
  "pool_inv vt sc p \<longleftrightarrow> sets_inv vt sc p \<and> hash_inv vt p \<and> snd ` set (pl_by_hash p) = all_txs (pl_transactions p)"


subsection \<open>Changing the set of one sender\<close>

lemma alist_update_set:
  "distinct (map fst al) \<Longrightarrow> set (AList.update k v al) = insert (k, v) {x \<in> set al. fst x \<noteq> k}"
  by (induction al) (auto simp: image_iff)

lemma alist_delete_set: "set (AList.delete k al) = {x \<in> set al. fst x \<noteq> k}"
  by (auto simp: AList.delete_eq)

lemma alist_update_None: "map_of al k = None \<Longrightarrow> {x \<in> set al. fst x \<noteq> k} = set al"
  by (auto simp: map_of_eq_None_iff image_iff)

lemma alist_split:
  "distinct (map fst al) \<Longrightarrow> map_of al k = Some v \<Longrightarrow> set al = insert (k, v) {x \<in> set al. fst x \<noteq> k}"
  by (auto simp: map_of_eq_Some_iff dest: map_of_SomeD) (metis eq_key_imp_eq_value map_of_SomeD)

definition refs_apart :: "('t, 's) score_with_ref \<Rightarrow> ('t, 's) score_with_ref set \<Rightarrow> bool" where
  "refs_apart x R \<longleftrightarrow> (\<forall>y \<in> R. \<not> ref_eq x y)"

lemma collection_insert:
  "sorted_wrt ref_less C \<Longrightarrow> set C = R \<Longrightarrow> refs_apart x R \<Longrightarrow>
     sorted_wrt ref_less (bt_insert x C) \<and> set (bt_insert x C) = insert x R"
  using bt_insert_set [of C x] by (auto simp: refs_apart_def)

lemma collection_remove:
  "sorted_wrt ref_less C \<Longrightarrow> set C = insert x R \<Longrightarrow> refs_apart x R \<Longrightarrow>
     sorted_wrt ref_less (bt_remove x C) \<and> set (bt_remove x C) = R"
proof -
  assume C: "sorted_wrt ref_less C" "set C = insert x R" "refs_apart x R"
  have "{y \<in> insert x R. \<not> ref_eq x y} = R"
    using C(3) ref_eq_less(3) [of x] unfolding refs_apart_def by blast
  then show ?thesis using bt_remove_set [OF C(1), of x] by (simp only: C(2) simp_thms)
qed

lemma collection_replace:
  "sorted_wrt ref_less C \<Longrightarrow> set C = insert x R \<Longrightarrow> refs_apart x R \<Longrightarrow> refs_apart y R \<Longrightarrow>
     sorted_wrt ref_less (bt_insert y (bt_remove x C)) \<and> set (bt_insert y (bt_remove x C)) = insert y R"
  using collection_insert [of "bt_remove x C" R y] collection_remove [of C x R] by simp

text \<open>The four ways a collection changes when a set gets a new end, loses it or replaces it.\<close>

definition changed :: "bool \<Rightarrow> ('t, 's::linorder) score_with_ref option \<Rightarrow> ('t, 's) score_with_ref option \<Rightarrow>
    ('t, 's) score_with_ref list \<Rightarrow> ('t, 's) score_with_ref list" where
  "changed same old new C =
     (case (old, new) of
        (None, None) \<Rightarrow> C
      | (None, Some y) \<Rightarrow> bt_insert y C
      | (Some x, None) \<Rightarrow> bt_remove x C
      | (Some x, Some y) \<Rightarrow> if same then C else bt_insert y (bt_remove x C))"

lemma changed_collection:
  assumes "sorted_wrt ref_less C" "set C = set_option old \<union> R"
    and "\<And>x. old = Some x \<Longrightarrow> refs_apart x R" "\<And>y. new = Some y \<Longrightarrow> refs_apart y R"
    and "old \<noteq> None \<Longrightarrow> new \<noteq> None \<Longrightarrow> same \<Longrightarrow> old = new"
  shows "sorted_wrt ref_less (changed same old new C) \<and> set (changed same old new C) = set_option new \<union> R"
  using assms collection_insert [of C R] collection_remove [of C _ R] collection_replace [of C _ R]
  by (cases old; cases new) (auto simp: changed_def)

text \<open>Both ends of a set, as the collections see them.\<close>

definition ends :: "('t, 's) transactions \<Rightarrow> (('s \<times> 't transaction) \<times> ('s \<times> 't transaction)) option" where
  "ends ts = (if tx_list ts = [] then None
     else Some ((last (tx_scores ts), last (tx_list ts)), (hd (tx_scores ts), hd (tx_list ts))))"

lemma worst_and_best_ends: "wf_txs sc ts \<Longrightarrow> worst_and_best ts = Some (ends ts)"
  by (simp add: worst_and_best_spec wf_txs_def ends_def)

lemma all_txs_parts:
  "distinct (map fst al) \<Longrightarrow> map_of al k = Some ts \<Longrightarrow> all_txs al = set (tx_list ts) \<union> all_txs (AList.delete k al)"
  "map_of al k = None \<Longrightarrow> all_txs (AList.delete k al) = all_txs al"
  "distinct (map fst al) \<Longrightarrow> all_txs (AList.update k ts' al) = set (tx_list ts') \<union> all_txs (AList.delete k al)"
  unfolding all_txs_def using alist_split [of al k ts]
  by (auto simp: alist_delete_set alist_update_set alist_update_None)

lemma ref_eq_tx:
  "unique_txs vt A \<Longrightarrow> ref_eq x y \<Longrightarrow> sr_transaction x \<in> A \<Longrightarrow> sr_transaction y \<in> A \<Longrightarrow> sr_transaction x = sr_transaction y"
  by (auto simp: unique_txs_def ref_eq_def dest: inj_onD)

lemma refs_apart_others:
  assumes u: "unique_txs vt A" and A: "all_txs (AList.delete k trs) \<subseteq> A" "sr_transaction x \<in> A"
    and k: "vt_sender vt (transaction (sr_transaction x)) = k"
    and e: "\<forall>(k', ts) \<in> set (AList.delete k trs). wf_entry vt sc k' ts \<and> tx_list ts \<noteq> []"
    and f: "\<And>ts. tx_list ts \<noteq> [] \<Longrightarrow> sr_transaction (f ts) \<in> set (tx_list ts)"
  shows "refs_apart x (f ` snd ` set (AList.delete k trs))"
  unfolding refs_apart_def
proof
  fix y
  assume "y \<in> f ` snd ` set (AList.delete k trs)"
  then obtain k' ts where ts: "(k', ts) \<in> set (AList.delete k trs)" "y = f ts" by auto
  then have "sr_transaction y \<in> set (tx_list ts)" "wf_entry vt sc k' ts" using e f by auto
  moreover have "k' \<noteq> k" using ts by (auto simp: alist_delete_set)
  ultimately have "vt_sender vt (transaction (sr_transaction y)) \<noteq> k" "sr_transaction y \<in> all_txs (AList.delete k trs)"
    using ts by (auto simp: wf_entry_def all_txs_def)
  then show "\<not> ref_eq x y" using ref_eq_tx [OF u, of x y] A k by auto
qed

lemma best_worst_mem:
  "tx_list ts \<noteq> [] \<Longrightarrow> sr_transaction (best_of ts) \<in> set (tx_list ts)"
  "tx_list ts \<noteq> [] \<Longrightarrow> sr_transaction (worst_of ts) \<in> set (tx_list ts)"
  by (simp_all add: best_of_def worst_of_def)

text \<open>One end of a set, if it has one, and the ends of all sets before and after the set of \<open>k\<close> changes.\<close>

definition end_of :: "(('t, 's) transactions \<Rightarrow> ('t, 's) score_with_ref) \<Rightarrow> ('t, 's) transactions \<Rightarrow> ('t, 's) score_with_ref option" where
  "end_of f ts = (if tx_list ts = [] then None else Some (f ts))"

definition picks :: "(('t, 's) transactions \<Rightarrow> ('t, 's) score_with_ref) \<Rightarrow> bool" where
  "picks f \<longleftrightarrow> (\<forall>ts. tx_list ts \<noteq> [] \<longrightarrow> sr_transaction (f ts) \<in> set (tx_list ts))"

definition same_end :: "('t, 'h, 'k) verified_transaction \<Rightarrow> (('t, 's::linorder) transactions \<Rightarrow> ('t, 's) score_with_ref) \<Rightarrow>
    ('t, 's) transactions \<Rightarrow> ('t, 's) transactions \<Rightarrow> bool" where
  "same_end vt f ts ts' = is_same vt (sr_score (f ts), sr_transaction (f ts)) (sr_score (f ts'), sr_transaction (f ts'))"

lemma picks_ends: "picks best_of" "picks worst_of"
  by (simp_all add: picks_def best_worst_mem)

text \<open>The change of the set of the sender \<open>k\<close> from \<open>ts\<close> to \<open>ts'\<close>.\<close>

definition set_changes :: "('t, 'h, 'k) verified_transaction \<Rightarrow> ('t, 's::linorder, 'e) scoring \<Rightarrow> ('k \<times> ('t, 's) transactions) list \<Rightarrow> 'k \<Rightarrow>
    ('t, 's) transactions \<Rightarrow> ('t, 's) transactions \<Rightarrow> bool" where
  "set_changes vt sc al k ts ts' \<longleftrightarrow>
     distinct (map fst al) \<and> (\<forall>(k, ts) \<in> set al. wf_entry vt sc k ts \<and> tx_list ts \<noteq> []) \<and>
     (map_of al k = Some ts \<or> map_of al k = None \<and> tx_list ts = [] \<and> tx_list ts' \<noteq> []) \<and>
     wf_entry vt sc k ts' \<and> unique_txs vt (all_txs al \<union> set (tx_list ts'))"

definition set_changed :: "'k \<Rightarrow> ('t, 's) transactions \<Rightarrow> ('k \<times> ('t, 's) transactions) list \<Rightarrow> ('k \<times> ('t, 's) transactions) list" where
  "set_changed k ts' al = (if tx_list ts' = [] then AList.delete k al else AList.update k ts' al)"

lemma set_changes_facts:
  assumes "set_changes vt sc al k ts ts'"
  shows "all_txs al = set (tx_list ts) \<union> all_txs (AList.delete k al)"
    and "all_txs (set_changed k ts' al) = set (tx_list ts') \<union> all_txs (AList.delete k al)"
    and "tx_list ts \<noteq> [] \<Longrightarrow> wf_entry vt sc k ts" and "tx_list ts \<noteq> [] \<or> tx_list ts' \<noteq> []"
    and "\<forall>(k', ts) \<in> set (AList.delete k al). wf_entry vt sc k' ts \<and> tx_list ts \<noteq> []"
    and "f ` snd ` set al = set_option (end_of f ts) \<union> f ` snd ` set (AList.delete k al)"
    and "f ` snd ` set (set_changed k ts' al) = set_option (end_of f ts') \<union> f ` snd ` set (AList.delete k al)"
proof -
  have d: "distinct (map fst al)" and e: "\<forall>(k, ts) \<in> set al. wf_entry vt sc k ts \<and> tx_list ts \<noteq> []"
    and ts: "map_of al k = Some ts \<or> map_of al k = None \<and> tx_list ts = [] \<and> tx_list ts' \<noteq> []"
    using assms unfolding set_changes_def by blast+
  show "all_txs al = set (tx_list ts) \<union> all_txs (AList.delete k al)"
    using ts all_txs_parts(1) [OF d, of k ts] all_txs_parts(2) [of al k] by (elim disjE conjE) simp_all
  show "all_txs (set_changed k ts' al) = set (tx_list ts') \<union> all_txs (AList.delete k al)"
    using all_txs_parts(3) [OF d, of k ts'] by (simp add: set_changed_def)
  show "tx_list ts \<noteq> [] \<Longrightarrow> wf_entry vt sc k ts" "tx_list ts \<noteq> [] \<or> tx_list ts' \<noteq> []"
    using ts e map_of_SomeD [of al k ts] by auto
  show "\<forall>(k', ts) \<in> set (AList.delete k al). wf_entry vt sc k' ts \<and> tx_list ts \<noteq> []"
    using e by (auto simp: alist_delete_set)
  show "f ` snd ` set al = set_option (end_of f ts) \<union> f ` snd ` set (AList.delete k al)"
  proof (cases "map_of al k")
    case None
    then show ?thesis using ts by (simp add: alist_delete_set alist_update_None end_of_def)
  next
    case (Some t)
    then have "t = ts" "tx_list ts \<noteq> []" using ts e map_of_SomeD [of al k t] by auto
    moreover define R where "R = set (AList.delete k al)"
    moreover have "set al = insert (k, t) R" unfolding R_def alist_delete_set using d Some by (rule alist_split)
    ultimately show ?thesis by (simp add: end_of_def flip: R_def)
  qed
  show "f ` snd ` set (set_changed k ts' al) = set_option (end_of f ts') \<union> f ` snd ` set (AList.delete k al)"
    using alist_update_set [OF d, of k ts'] by (auto simp: set_changed_def alist_delete_set end_of_def)
qed

text \<open>The collection of one end follows the change.\<close>

lemma ends_changed:
  assumes ch: "set_changes vt sc al k ts ts'" and f: "picks f" and C: "sorted_wrt ref_less C" "set C = f ` snd ` set al"
  defines "C' \<equiv> changed (same_end vt f ts ts') (end_of f ts) (end_of f ts') C"
  shows "sorted_wrt ref_less C' \<and> set C' = f ` snd ` set (set_changed k ts' al)"
  unfolding C'_def set_changes_facts(7) [OF ch]
proof (rule changed_collection [OF C(1)])
  note facts = set_changes_facts [OF ch]
  let ?A = "all_txs al \<union> set (tx_list ts')"
  have u: "unique_txs vt ?A" and wf: "wf_entry vt sc k ts'" using ch by (simp_all add: set_changes_def)
  have A: "all_txs (AList.delete k al) \<subseteq> ?A" "set (tx_list ts) \<subseteq> ?A" using facts(1) by auto
  show "set C = set_option (end_of f ts) \<union> f ` snd ` set (AList.delete k al)" unfolding C(2) by (rule facts(6))
  have apart: "refs_apart (f t) (f ` snd ` set (AList.delete k al))" if "t = ts \<or> t = ts'" "tx_list t \<noteq> []" for t
  proof (rule refs_apart_others [OF u A(1) _ _ facts(5)])
    show "sr_transaction (f t) \<in> ?A" "vt_sender vt (transaction (sr_transaction (f t))) = k"
      using that f A(2) facts(3) wf by (auto simp: wf_entry_def picks_def)
  qed (use f in \<open>simp add: picks_def\<close>)
  show "refs_apart x (f ` snd ` set (AList.delete k al))" if "end_of f ts = Some x" for x
    using that apart [of ts] by (simp add: end_of_def split: if_splits)
  show "refs_apart y (f ` snd ` set (AList.delete k al))" if "end_of f ts' = Some y" for y
    using that apart [of ts'] by (simp add: end_of_def split: if_splits)
  show "end_of f ts = end_of f ts'" if "end_of f ts \<noteq> None" "end_of f ts' \<noteq> None" and s: "same_end vt f ts ts'"
  proof -
    have ne: "tx_list ts \<noteq> []" "tx_list ts' \<noteq> []" using that by (auto simp: end_of_def split: if_splits)
    then have "sr_transaction (f ts) \<in> ?A" "sr_transaction (f ts') \<in> ?A" using f A(2) by (auto simp: picks_def)
    then have "sr_transaction (f ts) = sr_transaction (f ts')"
      using u s by (auto simp: unique_txs_def is_same_def same_end_def dest: inj_onD)
    then show ?thesis using s ne by (cases "f ts"; cases "f ts'") (simp add: is_same_def same_end_def end_of_def)
  qed
qed

lemma update_senders_eval:
  assumes ch: "set_changes vt sc (pl_transactions p) k ts ts'"
  shows "update_senders_worst_and_best vt (ends ts) (ends ts') (p\<lparr> pl_transactions := AList.update k ts' (pl_transactions p) \<rparr>) =
    p\<lparr> pl_transactions := set_changed k ts' (pl_transactions p),
      pl_best := changed (same_end vt best_of ts ts') (end_of best_of ts) (end_of best_of ts') (pl_best p),
      pl_worst := changed (same_end vt worst_of ts ts') (end_of worst_of ts) (end_of worst_of ts') (pl_worst p) \<rparr>"
proof (cases "tx_list ts = []"; cases "tx_list ts' = []")
  assume n: "tx_list ts \<noteq> []" "tx_list ts' = []"
  have "vt_sender vt (transaction (last (tx_list ts))) = k" using set_changes_facts(3) [OF ch n(1)] n(1) by (simp add: wf_entry_def)
  moreover have "AList.delete k (AList.update k ts' (pl_transactions p)) = AList.delete k (pl_transactions p)"
    by (simp add: AList.delete_update_same)
  ultimately show ?thesis using n
    by (cases p) (simp add: update_senders_worst_and_best_def ends_def update_collection_eq changed_def same_end_def
        set_changed_def end_of_def best_of_def worst_of_def)
qed (use set_changes_facts(4) [OF ch] in \<open>cases p, auto simp: update_senders_worst_and_best_def ends_def update_collection_eq changed_def
        same_end_def set_changed_def end_of_def best_of_def worst_of_def\<close>)

text \<open>
  The step all operations share: the set of sender \<open>k\<close> changes from \<open>ts\<close> to \<open>ts'\<close>, and
  \<^verbatim>\<open>update_senders_worst_and_best\<close> brings the collections up to date and drops an empty set.
\<close>

lemma set_change:
  fixes p :: "('t, 'h, 'k, 's::linorder) pool"
  assumes inv: "sets_inv vt sc p"
    and ts: "map_of (pl_transactions p) k = Some ts \<or> map_of (pl_transactions p) k = None \<and> tx_list ts = [] \<and> tx_list ts' \<noteq> []"
    and wf: "wf_entry vt sc k ts'"
    and u: "unique_txs vt (all_txs (pl_transactions p) \<union> set (tx_list ts'))"
    and id: "\<forall>t \<in> set (tx_list ts'). insertion_id t \<le> pl_insertion_id p"
  shows "\<exists>trs b w. update_senders_worst_and_best vt (ends ts) (ends ts') (p\<lparr> pl_transactions := AList.update k ts' (pl_transactions p) \<rparr>)
      = p\<lparr> pl_transactions := trs, pl_best := b, pl_worst := w \<rparr> \<and>
    trs = (if tx_list ts' = [] then AList.delete k (pl_transactions p) else AList.update k ts' (pl_transactions p)) \<and>
    sets_inv vt sc (p\<lparr> pl_transactions := trs, pl_best := b, pl_worst := w \<rparr>) \<and>
    all_txs trs = set (tx_list ts') \<union> all_txs (AList.delete k (pl_transactions p))"
proof -
  let ?al = "pl_transactions p"
  have ch: "set_changes vt sc ?al k ts ts'" using inv ts wf u by (simp add: set_changes_def sets_inv_def)
  note facts = set_changes_facts [OF ch]
  let ?b = "changed (same_end vt best_of ts ts') (end_of best_of ts) (end_of best_of ts') (pl_best p)"
  let ?w = "changed (same_end vt worst_of ts ts') (end_of worst_of ts) (end_of worst_of ts') (pl_worst p)"
  have d: "distinct (map fst ?al)" using inv by (simp add: sets_inv_def)
  have "sorted_wrt ref_less ?b \<and> set ?b = best_of ` snd ` set (set_changed k ts' ?al)"
    "sorted_wrt ref_less ?w \<and> set ?w = worst_of ` snd ` set (set_changed k ts' ?al)"
    using inv by (intro ends_changed [OF ch] picks_ends; simp add: sets_inv_def)+
  moreover have "distinct (map fst (set_changed k ts' ?al))" using d by (simp add: set_changed_def AList.distinct_update AList.distinct_delete)
  moreover have "\<forall>(k, ts) \<in> set (set_changed k ts' ?al). wf_entry vt sc k ts \<and> tx_list ts \<noteq> []"
    using facts(5) wf by (auto simp: set_changed_def alist_delete_set alist_update_set [OF d])
  moreover have "unique_txs vt (all_txs (set_changed k ts' ?al))" unfolding facts(2)
    using u facts(1) by (auto simp: unique_txs_def intro: inj_on_subset)
  moreover have "\<forall>t \<in> all_txs (set_changed k ts' ?al). insertion_id t \<le> pl_insertion_id p" unfolding facts(2)
    using inv id facts(1) by (auto simp: sets_inv_def)
  ultimately have "sets_inv vt sc (p\<lparr> pl_transactions := set_changed k ts' ?al, pl_best := ?b, pl_worst := ?w \<rparr>)"
    by (simp add: sets_inv_def)
  then show ?thesis using update_senders_eval [OF ch] facts(2) unfolding set_changed_def by blast
qed


subsection \<open>Operations keep the invariant\<close>

lemma unique_subset: "unique_txs vt A \<Longrightarrow> C \<subseteq> A \<Longrightarrow> unique_txs vt C"
  by (auto simp: unique_txs_def intro: inj_on_subset)

lemma remove_from_set_spec:
  assumes inv: "sets_inv vt sc p" and ts: "map_of (pl_transactions p) k = Some ts"
    and f: "f ts = Some (r, ts')" and wf: "wf_txs sc ts'" and sub: "set (tx_list ts') \<subseteq> set (tx_list ts)"
  shows "\<exists>trs b w. remove_from_set vt k f p = Some (Some r, p\<lparr> pl_transactions := trs, pl_best := b, pl_worst := w \<rparr>) \<and>
    sets_inv vt sc (p\<lparr> pl_transactions := trs, pl_best := b, pl_worst := w \<rparr>) \<and>
    all_txs trs = set (tx_list ts') \<union> all_txs (AList.delete k (pl_transactions p))"
proof -
  have d: "distinct (map fst (pl_transactions p))" using inv by (simp add: sets_inv_def)
  have e: "wf_entry vt sc k ts" using inv map_of_SomeD [OF ts] by (auto simp: sets_inv_def)
  then have e': "wf_entry vt sc k ts'" using wf sub by (auto simp: wf_entry_def)
  have a: "set (tx_list ts') \<subseteq> all_txs (pl_transactions p)" using sub all_txs_parts(1) [OF d ts] by auto
  then have "unique_txs vt (all_txs (pl_transactions p) \<union> set (tx_list ts'))"
    using inv by (auto simp: sets_inv_def intro: unique_subset)
  moreover have "\<forall>t \<in> set (tx_list ts'). insertion_id t \<le> pl_insertion_id p"
    using inv a by (auto simp: sets_inv_def)
  ultimately obtain trs b w where "update_senders_worst_and_best vt (ends ts) (ends ts')
      (p\<lparr> pl_transactions := AList.update k ts' (pl_transactions p) \<rparr>) = p\<lparr> pl_transactions := trs, pl_best := b, pl_worst := w \<rparr>"
    "sets_inv vt sc (p\<lparr> pl_transactions := trs, pl_best := b, pl_worst := w \<rparr>)"
    "all_txs trs = set (tx_list ts') \<union> all_txs (AList.delete k (pl_transactions p))"
    using set_change [OF inv _ e', of ts] ts by auto
  moreover have "worst_and_best ts = Some (ends ts)" "worst_and_best ts' = Some (ends ts')"
    using e e' by (auto simp: wf_entry_def worst_and_best_ends)
  ultimately show ?thesis using ts f by (auto simp: remove_from_set_def)
qed

lemma by_hash_lookup:
  "hash_inv vt p \<Longrightarrow> t \<in> snd ` set (pl_by_hash p) \<Longrightarrow> map_of (pl_by_hash p) (vt_hash vt (transaction t)) = Some t"
  by (auto simp: hash_inv_def)

lemma by_hash_lookup_conv:
  "hash_inv vt p \<Longrightarrow> map_of (pl_by_hash p) h = Some t \<Longrightarrow> t \<in> snd ` set (pl_by_hash p) \<and> vt_hash vt (transaction t) = h"
  by (auto simp: hash_inv_def dest!: map_of_SomeD intro: rev_image_eqI)

lemma sum_list_delete:
  "distinct (map fst al) \<Longrightarrow> map_of al k = Some v \<Longrightarrow>
     sum_list (map g al) = g (k, v) + sum_list (map g (AList.delete k al))" for g :: "_ \<Rightarrow> nat"
proof (induction al)
  case (Cons x al)
  then show ?case
    by (cases "fst x = k") (auto simp: map_of_eq_None_iff AList.delete_id)
qed simp

lemma finalize_remove_spec:
  assumes inv: "hash_inv vt p" and t: "map_of (pl_by_hash p) h = Some t"
  shows "\<exists>bh m. finalize_remove vt h p = Some (Some (transaction t), p\<lparr> pl_by_hash := bh, pl_mem_usage := m \<rparr>) \<and>
    hash_inv vt (p\<lparr> pl_by_hash := bh, pl_mem_usage := m \<rparr>) \<and> snd ` set bh = snd ` set (pl_by_hash p) - {t} \<and>
    m \<le> pl_mem_usage p \<and> length bh < length (pl_by_hash p)"
proof -
  let ?bh = "AList.delete h (pl_by_hash p)"
  let ?g = "\<lambda>(h :: 'b, t). vt_mem_usage vt (transaction t)"
  have d: "distinct (map fst (pl_by_hash p))" using inv by (simp add: hash_inv_def)
  have m: "pl_mem_usage p = vt_mem_usage vt (transaction t) + sum_list (map ?g ?bh)"
    using sum_list_delete [OF d t, of ?g] inv by (simp add: hash_inv_def)
  have k: "\<forall>(h, t) \<in> set (pl_by_hash p). vt_hash vt (transaction t) = h" using inv by (simp add: hash_inv_def)
  have th: "vt_hash vt (transaction t) = h" using k map_of_SomeD [OF t] by auto
  have "snd ` set ?bh = snd ` set (pl_by_hash p) - {t}"
  proof
    show "snd ` set ?bh \<subseteq> snd ` set (pl_by_hash p) - {t}" using k th by (auto simp: alist_delete_set)
    show "snd ` set (pl_by_hash p) - {t} \<subseteq> snd ` set ?bh"
    proof
      fix u
      assume u: "u \<in> snd ` set (pl_by_hash p) - {t}"
      then obtain h' where h': "(h', u) \<in> set (pl_by_hash p)" by auto
      then have "h' \<noteq> h" using u eq_key_imp_eq_value [OF d _ map_of_SomeD [OF t]] by blast
      then show "u \<in> snd ` set ?bh" using h' by (auto simp: alist_delete_set intro!: image_eqI [of _ _ "(h', u)"])
    qed
  qed
  moreover have "length ?bh < length (pl_by_hash p)"
    using map_of_SomeD [OF t] by (auto simp: AList.delete_eq intro!: length_filter_less)
  moreover have "hash_inv vt (p\<lparr> pl_by_hash := ?bh, pl_mem_usage := sum_list (map ?g ?bh) \<rparr>)"
    using d k by (auto simp: hash_inv_def AList.distinct_delete alist_delete_set)
  moreover have "finalize_remove vt h p = Some (Some (transaction t), p\<lparr> pl_by_hash := ?bh, pl_mem_usage := sum_list (map ?g ?bh) \<rparr>)"
    using t m by (simp add: finalize_remove_def usize_sub_def)
  ultimately show ?thesis using m by (intro exI [of _ ?bh] exI [of _ "sum_list (map ?g ?bh)"]) simp
qed

lemma pool_inv_notify [simp]: "pool_inv vt sc (notify n p) \<longleftrightarrow> pool_inv vt sc p"
  by (simp add: pool_inv_def sets_inv_def hash_inv_def notify_def)

lemma notify_simps [simp]:
  "pl_by_hash (notify n p) = pl_by_hash p" "pl_transactions (notify n p) = pl_transactions p"
  "pl_mem_usage (notify n p) = pl_mem_usage p" "pl_options (notify n p) = pl_options p"
  "pl_insertion_id (notify n p) = pl_insertion_id p" "pl_worst (notify n p) = pl_worst p" "pl_best (notify n p) = pl_best p"
  by (simp_all add: notify_def)

text \<open>A transaction leaves the set of its sender and the index: the invariant holds for the rest.\<close>

definition removes :: "('t, 'h, 'k, 's) pool \<Rightarrow> 't transaction set \<Rightarrow> ('t, 'h, 'k, 's) pool \<Rightarrow> bool" where
  "removes p X p' \<longleftrightarrow> all_txs (pl_transactions p') = all_txs (pl_transactions p) - X \<and>
     pl_options p' = pl_options p \<and> pl_insertion_id p' = pl_insertion_id p \<and>
     pl_mem_usage p' \<le> pl_mem_usage p \<and> length (pl_by_hash p') \<le> length (pl_by_hash p)"

lemma sender_set:
  assumes "sets_inv vt sc p" "t \<in> all_txs (pl_transactions p)"
  shows "\<exists>ts. map_of (pl_transactions p) (vt_sender vt (transaction t)) = Some ts \<and> t \<in> set (tx_list ts) \<and> wf_txs sc ts"
proof -
  obtain k ts where ts: "(k, ts) \<in> set (pl_transactions p)" "t \<in> set (tx_list ts)"
    using assms(2) by (auto simp: all_txs_def)
  then have "wf_entry vt sc k ts" "distinct (map fst (pl_transactions p))"
    using assms(1) by (auto simp: sets_inv_def)
  then show ?thesis using ts by (auto simp: wf_entry_def)
qed

lemma other_sets_apart:
  assumes "sets_inv vt sc p" "map_of (pl_transactions p) k = Some ts"
  shows "set (tx_list ts) \<inter> all_txs (AList.delete k (pl_transactions p)) = {}"
proof -
  have "\<forall>t \<in> set (tx_list ts). vt_sender vt (transaction t) = k"
    using assms map_of_SomeD [OF assms(2)] by (auto simp: sets_inv_def wf_entry_def)
  moreover have "\<forall>t \<in> all_txs (AList.delete k (pl_transactions p)). vt_sender vt (transaction t) \<noteq> k"
    using assms(1) by (auto simp: sets_inv_def wf_entry_def all_txs_def alist_delete_set)
  ultimately show ?thesis by blast
qed


lemma sets_inv_cong:
  "sets_inv vt sc p \<Longrightarrow> sets_inv vt sc (p\<lparr> pl_by_hash := bh, pl_mem_usage := m \<rparr>)"
  "hash_inv vt p \<Longrightarrow> hash_inv vt (p\<lparr> pl_transactions := trs, pl_best := b, pl_worst := w \<rparr>)"
  by (simp_all add: sets_inv_def hash_inv_def)

context lawful_scoring
begin

lemma drop_from_set:
  assumes inv: "sets_inv vt sc p" and t: "t \<in> all_txs (pl_transactions p)"
  shows "\<exists>trs b w. remove_from_set vt (vt_sender vt (transaction t)) (\<lambda>ts. txs_remove ts (transaction t) sc) p =
      Some (Some True, p\<lparr> pl_transactions := trs, pl_best := b, pl_worst := w \<rparr>) \<and>
    sets_inv vt sc (p\<lparr> pl_transactions := trs, pl_best := b, pl_worst := w \<rparr>) \<and>
    all_txs trs = all_txs (pl_transactions p) - {t}"
proof -
  let ?k = "vt_sender vt (transaction t)"
  obtain ts where ts: "map_of (pl_transactions p) ?k = Some ts" "t \<in> set (tx_list ts)" "wf_txs sc ts"
    using sender_set [OF inv t] by blast
  obtain ts' where ts': "txs_remove ts (transaction t) sc = Some (True, ts')" "wf_txs sc ts'"
    "tx_list ts' = filter (\<lambda>u. u \<noteq> t) (tx_list ts)"
    using remove_spec [OF ts(3,2)] by blast
  have d: "distinct (map fst (pl_transactions p))" using inv by (simp add: sets_inv_def)
  have "set (tx_list ts') \<union> all_txs (AList.delete ?k (pl_transactions p)) = all_txs (pl_transactions p) - {t}"
    using other_sets_apart [OF inv ts(1)] all_txs_parts(1) [OF d ts(1)] ts(2) ts'(3) by auto
  moreover have "set (tx_list ts') \<subseteq> set (tx_list ts)" using ts'(3) by auto
  ultimately show ?thesis
    using remove_from_set_spec [OF inv ts(1), of "\<lambda>ts. txs_remove ts (transaction t) sc" True ts'] ts'(1,2) by auto
qed

text \<open>\<^verbatim>\<open>remove\<close>: the index first, then the set.\<close>

lemma pool_remove_spec:
  assumes inv: "pool_inv vt sc p"
  shows "case map_of (pl_by_hash p) h of
      None \<Rightarrow> pool_remove vt sc h i p = Some (None, p)
    | Some t \<Rightarrow> \<exists>p'. pool_remove vt sc h i p = Some (Some (transaction t), notify (if i then Invalid (transaction t) else Canceled (transaction t)) p') \<and>
        pool_inv vt sc p' \<and> removes p {t} p'"
proof (cases "map_of (pl_by_hash p) h")
  case None
  then show ?thesis by (simp add: pool_remove_def finalize_remove_def)
next
  case (Some t)
  have hi: "hash_inv vt p" "sets_inv vt sc p" "snd ` set (pl_by_hash p) = all_txs (pl_transactions p)"
    using inv by (simp_all add: pool_inv_def)
  obtain bh m where f: "finalize_remove vt h p = Some (Some (transaction t), p\<lparr> pl_by_hash := bh, pl_mem_usage := m \<rparr>)"
    "hash_inv vt (p\<lparr> pl_by_hash := bh, pl_mem_usage := m \<rparr>)" "snd ` set bh = snd ` set (pl_by_hash p) - {t}"
    "m \<le> pl_mem_usage p" "length bh < length (pl_by_hash p)"
    using finalize_remove_spec [OF hi(1) Some] by blast
  let ?p = "p\<lparr> pl_by_hash := bh, pl_mem_usage := m \<rparr>"
  have "sets_inv vt sc ?p" "t \<in> all_txs (pl_transactions ?p)"
    using hi by_hash_lookup_conv [OF hi(1) Some] sets_inv_cong(1) by auto
  then obtain trs b w where r: "remove_from_set vt (vt_sender vt (transaction t)) (\<lambda>ts. txs_remove ts (transaction t) sc) ?p =
      Some (Some True, ?p\<lparr> pl_transactions := trs, pl_best := b, pl_worst := w \<rparr>)"
    "sets_inv vt sc (?p\<lparr> pl_transactions := trs, pl_best := b, pl_worst := w \<rparr>)"
    "all_txs trs = all_txs (pl_transactions p) - {t}"
    using drop_from_set [of vt ?p t] by auto
  let ?q = "?p\<lparr> pl_transactions := trs, pl_best := b, pl_worst := w \<rparr>"
  have "pool_inv vt sc ?q" using r(2,3) sets_inv_cong(2) [OF f(2)] f(3) hi(3) by (simp add: pool_inv_def)
  moreover have "removes p {t} ?q" using r(3) f(4,5) by (simp add: removes_def)
  ultimately show ?thesis using Some f(1) r(1) by (auto simp: pool_remove_def)
qed

text \<open>One step of the eviction loops.\<close>

lemma drop_worst:
  assumes inv: "pool_inv vt sc p" and t: "t \<in> all_txs (pl_transactions p)"
  shows "\<exists>q p'. remove_from_set vt (vt_sender vt (transaction t)) (\<lambda>ts. txs_remove ts (transaction t) sc) p = Some (Some True, q) \<and>
    finalize_remove vt (vt_hash vt (transaction t)) (notify n q) = Some (Some (transaction t), p') \<and>
    pool_inv vt sc p' \<and> removes p {t} p' \<and> length (pl_by_hash p') < length (pl_by_hash p)"
proof -
  have hi: "hash_inv vt p" "sets_inv vt sc p" "snd ` set (pl_by_hash p) = all_txs (pl_transactions p)"
    using inv by (simp_all add: pool_inv_def)
  obtain trs b w where r: "remove_from_set vt (vt_sender vt (transaction t)) (\<lambda>ts. txs_remove ts (transaction t) sc) p =
      Some (Some True, p\<lparr> pl_transactions := trs, pl_best := b, pl_worst := w \<rparr>)"
    "sets_inv vt sc (p\<lparr> pl_transactions := trs, pl_best := b, pl_worst := w \<rparr>)"
    "all_txs trs = all_txs (pl_transactions p) - {t}"
    using drop_from_set [OF hi(2) t] by blast
  let ?p = "notify n (p\<lparr> pl_transactions := trs, pl_best := b, pl_worst := w \<rparr>)"
  have h: "hash_inv vt ?p" using hi(1) by (simp add: hash_inv_def)
  have "map_of (pl_by_hash ?p) (vt_hash vt (transaction t)) = Some t"
    using by_hash_lookup [OF hi(1)] t hi(3) by simp
  then obtain bh m where f: "finalize_remove vt (vt_hash vt (transaction t)) ?p = Some (Some (transaction t), ?p\<lparr> pl_by_hash := bh, pl_mem_usage := m \<rparr>)"
    "hash_inv vt (?p\<lparr> pl_by_hash := bh, pl_mem_usage := m \<rparr>)" "snd ` set bh = snd ` set (pl_by_hash ?p) - {t}"
    "m \<le> pl_mem_usage ?p" "length bh < length (pl_by_hash ?p)"
    using finalize_remove_spec [OF h] by blast
  have "sets_inv vt sc ?p" using r(2) by (simp add: sets_inv_def)
  then have "pool_inv vt sc (?p\<lparr> pl_by_hash := bh, pl_mem_usage := m \<rparr>)" using f(2,3) r(3) hi(3) by (simp add: pool_inv_def sets_inv_cong)
  moreover have "removes p {t} (?p\<lparr> pl_by_hash := bh, pl_mem_usage := m \<rparr>)" using r(3) f(4,5) by (simp add: removes_def)
  ultimately show ?thesis using r(1) f(1,5) by simp
qed

lemma evict_step:
  assumes inv: "pool_inv vt sc p"
  shows "\<exists>res p'. import_remove_worst vt sc replace tx p = Some (res, p') \<and> pool_inv vt sc p' \<and>
    (\<exists>X. removes p X p') \<and> (res = Inr True \<longrightarrow> length (pl_by_hash p') < length (pl_by_hash p)) \<and>
    (res = Inr False \<longrightarrow> p' = p \<and> (\<exists>a b. replace a b = InsertNew))"
proof -
  have self: "removes p {} (notify n p)" "removes p {} p" for n by (simp_all add: removes_def)
  show ?thesis
  proof (cases "pl_worst p = []")
    case True
    then show ?thesis using inv self by (auto simp: import_remove_worst_def remove_worst_def intro: exI [of _ "{}"])
  next
    case False
    define old where "old = last (pl_worst p)"
    define pooled where "pooled = map_option txs_iter (map_of (pl_transactions p) (vt_sender vt (transaction tx)))"
    define rt where "rt u = \<lparr> rt_transaction = u, rt_pooled_by_sender = pooled \<rparr>" for u
    define ch where "ch = replace (rt (sr_transaction old)) (rt tx)"
    have rw: "remove_worst vt sc replace tx p = (case ch of
        InsertNew \<Rightarrow> Some (Inr None, p)
      | RejectNew \<Rightarrow> Some (Inl (TooCheapToEnter (vt_hash vt (transaction tx)) (score_hex sc (sr_score old))), p)
      | ReplaceOld \<Rightarrow> do {
          (_, p) \<leftarrow> remove_from_set vt (vt_sender vt (transaction (sr_transaction old))) (\<lambda>ts. txs_remove ts (transaction (sr_transaction old)) sc) p;
          Some (Inr (Some (sr_transaction old)), p) })"
      using False unfolding remove_worst_def ch_def rt_def pooled_def old_def Let_def by simp
    show ?thesis
    proof (cases ch)
      case RejectNew
      then show ?thesis using inv self rw by (auto simp: import_remove_worst_def intro: exI [of _ "{}"])
    next
      case InsertNew
      then show ?thesis using inv self rw unfolding ch_def by (auto simp: import_remove_worst_def intro: exI [of _ "{}"])
    next
      case ReplaceOld
      have "old \<in> set (pl_worst p)" using False by (simp add: old_def)
      then obtain k ts where ts: "(k, ts) \<in> set (pl_transactions p)" "old = worst_of ts" "tx_list ts \<noteq> []"
        using inv by (auto simp: pool_inv_def sets_inv_def)
      then have "sr_transaction old \<in> all_txs (pl_transactions p)" using best_worst_mem(2) by (auto simp: all_txs_def)
      from drop_worst [OF inv this, of "Dropped (transaction (sr_transaction old)) (Some (transaction tx))"]
      show ?thesis using rw ReplaceOld by (auto simp: import_remove_worst_def)
    qed
  qed
qed

end


lemma removes_trans: "removes p X q \<Longrightarrow> removes q Y r \<Longrightarrow> removes p (X \<union> Y) r"
  by (auto simp: removes_def)

lemma add_mset_set: "add_mset a (mset ys) = add_mset b (mset xs) \<Longrightarrow> insert a (set ys) = insert b (set xs)"
  by (metis set_mset_add_mset_insert set_mset_mset)

lemma add_effect_subset: "add_effect res tx xs ys \<Longrightarrow> set ys \<subseteq> insert tx (set xs)"
proof (cases res)
  case (AddOk a)
  assume "add_effect res tx xs ys"
  then have "set_mset (mset ys) = set_mset (add_mset tx (mset xs))" using AddOk by simp
  then show ?thesis by simp
qed (use add_mset_set [of _ ys tx xs] in \<open>auto\<close>)

context lawful_scoring
begin

text \<open>The eviction loops end, because each round takes a transaction out of the index.\<close>

lemma evict_loop_spec:
  assumes "pool_inv vt sc p"
    and ex: "\<And>q X. removes p X q \<Longrightarrow> exceeded q \<noteq> None"
  shows "\<exists>res p' X. evict_loop exceeded (import_remove_worst vt sc replace tx) p = Some (res, p') \<and> pool_inv vt sc p' \<and>
    removes p X p' \<and> (res = Inr () \<longrightarrow> (\<forall>a b. replace a b \<noteq> InsertNew) \<longrightarrow> exceeded p' = Some False)"
  using assms
proof (induction "length (pl_by_hash p)" arbitrary: p rule: less_induct)
  case less
  have self: "removes p {} p" by (simp add: removes_def)
  obtain full where full: "exceeded p = Some full" using less.prems(2) [OF self] by blast
  show ?case
  proof (cases full)
    case False
    then show ?thesis using full less.prems(1) self by (subst evict_loop.simps) auto
  next
    case True
    obtain res p' X where st: "import_remove_worst vt sc replace tx p = Some (res, p')" "pool_inv vt sc p'" "removes p X p'"
      "res = Inr True \<Longrightarrow> length (pl_by_hash p') < length (pl_by_hash p)" "res = Inr False \<Longrightarrow> \<exists>a b. replace a b = InsertNew"
      using evict_step [OF less.prems(1), of replace tx] by blast
    show ?thesis
    proof (cases "res = Inr True")
      case t: True
      have "exceeded q \<noteq> None" if "removes p' Y q" for q Y using less.prems(2) removes_trans [OF st(3) that] by blast
      then obtain r q Y where IH: "evict_loop exceeded (import_remove_worst vt sc replace tx) p' = Some (r, q)" "pool_inv vt sc q"
        "removes p' Y q" "r = Inr () \<longrightarrow> (\<forall>a b. replace a b \<noteq> InsertNew) \<longrightarrow> exceeded q = Some False"
        using less.hyps [OF st(4) [OF t] st(2)] by blast
      have "evict_loop exceeded (import_remove_worst vt sc replace tx) p = Some (r, q)"
        using full True st(1) t IH(1) by (subst evict_loop.simps) simp
      then show ?thesis using IH(2,4) removes_trans [OF st(3) IH(3)] by blast
    next
      case False
      then obtain r where r: "evict_loop exceeded (import_remove_worst vt sc replace tx) p = Some (r, p')"
        "r = Inr () \<Longrightarrow> res = Inr False"
        using full True st(1) evict_loop.simps [of exceeded "import_remove_worst vt sc replace tx" p]
        by (cases res) auto
      then show ?thesis using st(2,3,5) by blast
    qed
  qed
qed

text \<open>A fresh transaction enters the set of its sender.\<close>

lemma add_to_set:
  assumes inv: "sets_inv vt sc p" and m: "0 < max_per_sender (pl_options p)"
    and fresh: "\<forall>t \<in> all_txs (pl_transactions p). insertion_id t < insertion_id tx \<and> vt_hash vt (transaction t) \<noteq> vt_hash vt (transaction tx)"
    and id: "insertion_id tx \<le> pl_insertion_id p"
    and ts: "ts = (case map_of (pl_transactions p) (vt_sender vt (transaction tx)) of None \<Rightarrow> txs_default | Some ts \<Rightarrow> ts)"
  shows "\<exists>res ts' trs b w. txs_add ts tx sc (max_per_sender (pl_options p)) = Some (res, ts') \<and>
    add_effect res tx (tx_list ts) (tx_list ts') \<and> worst_and_best ts = Some (ends ts) \<and> worst_and_best ts' = Some (ends ts') \<and>
    update_senders_worst_and_best vt (ends ts) (ends ts') (p\<lparr> pl_transactions := AList.update (vt_sender vt (transaction tx)) ts' (pl_transactions p) \<rparr>)
      = p\<lparr> pl_transactions := trs, pl_best := b, pl_worst := w \<rparr> \<and>
    sets_inv vt sc (p\<lparr> pl_transactions := trs, pl_best := b, pl_worst := w \<rparr>) \<and>
    all_txs trs = set (tx_list ts') \<union> (all_txs (pl_transactions p) - set (tx_list ts)) \<and> set (tx_list ts) \<subseteq> all_txs (pl_transactions p) \<and>
    distinct (tx_list ts)"
proof -
  let ?k = "vt_sender vt (transaction tx)" and ?al = "pl_transactions p"
  have d: "distinct (map fst ?al)" using inv by (simp add: sets_inv_def)
  have wf: "wf_entry vt sc ?k ts"
    using inv ts by (auto simp: sets_inv_def wf_entry_def txs_default_def split: option.splits dest: map_of_SomeD)
       (auto simp: wf_txs_def)
  obtain res ts' where a: "txs_add ts tx sc (max_per_sender (pl_options p)) = Some (res, ts')" "wf_txs sc ts'"
    "add_effect res tx (tx_list ts) (tx_list ts')"
    using add_spec [OF _ m] wf by (fastforce simp: wf_entry_def)
  have sub: "set (tx_list ts') \<subseteq> insert tx (set (tx_list ts))" using a(3) by (rule add_effect_subset)
  have parts: "set (tx_list ts) \<subseteq> all_txs ?al" "all_txs (AList.delete ?k ?al) = all_txs ?al - set (tx_list ts)"
    using ts all_txs_parts(1) [OF d, of ?k] all_txs_parts(2) [of ?al ?k] other_sets_apart [OF inv, of ?k]
    by (auto simp: txs_default_def split: option.splits)
  have e': "wf_entry vt sc ?k ts'" using wf a(2) sub by (auto simp: wf_entry_def)
  have "unique_txs vt (insert tx (all_txs ?al))"
    using inv fresh by (fastforce simp: sets_inv_def unique_txs_def inj_on_def)
  then have u: "unique_txs vt (all_txs ?al \<union> set (tx_list ts'))" by (rule unique_subset) (use sub parts(1) in auto)
  have i: "\<forall>t \<in> set (tx_list ts'). insertion_id t \<le> pl_insertion_id p"
    using sub id inv parts(1) by (auto simp: sets_inv_def)
  have "map_of ?al ?k = Some ts \<or> map_of ?al ?k = None \<and> tx_list ts = [] \<and> tx_list ts' \<noteq> []"
    using ts a(3) by (cases res) (auto simp: txs_default_def split: option.splits)
  from set_change [OF inv this e' u i] obtain trs b w where
    "update_senders_worst_and_best vt (ends ts) (ends ts') (p\<lparr> pl_transactions := AList.update ?k ts' ?al \<rparr>)
      = p\<lparr> pl_transactions := trs, pl_best := b, pl_worst := w \<rparr>"
    "sets_inv vt sc (p\<lparr> pl_transactions := trs, pl_best := b, pl_worst := w \<rparr>)"
    "all_txs trs = set (tx_list ts') \<union> all_txs (AList.delete ?k ?al)" by blast
  moreover have "worst_and_best ts = Some (ends ts)" "worst_and_best ts' = Some (ends ts')" "distinct (tx_list ts)"
    using wf e' by (auto simp: wf_entry_def worst_and_best_ends wf_txs_def sorted_distinct)
  ultimately show ?thesis using a parts by (auto simp del: parts)
qed

end


lemma alist_update_new: "k \<notin> fst ` set al \<Longrightarrow> AList.update k v al = al @ [(k, v)]"
  by (induction al) auto

lemma swapped_set:
  assumes "distinct xs" "new \<notin> set xs" "add_mset old (mset ys) = add_mset new (mset xs)"
  shows "set ys = insert new (set xs) - {old}"
proof -
  have m: "mset (old # ys) = mset (new # xs)" using assms(3) by simp
  then have "distinct (old # ys)" using assms(1,2) mset_eq_imp_distinct_iff [OF m] by simp
  then show ?thesis using mset_eq_setD [OF m] by auto
qed

lemma finalize_insert_spec:
  assumes inv: "hash_inv vt p" and new: "map_of (pl_by_hash p) (vt_hash vt (transaction new)) = None"
    and m: "pl_mem_usage p + vt_mem_usage vt (transaction new) < B"
    and old: "\<And>t. old = Some t \<Longrightarrow> t \<in> snd ` set (pl_by_hash p)"
  shows "\<exists>bh m'. finalize_insert vt new old p = Some (p\<lparr> pl_by_hash := bh, pl_mem_usage := m' \<rparr>) \<and>
    hash_inv vt (p\<lparr> pl_by_hash := bh, pl_mem_usage := m' \<rparr>) \<and> snd ` set bh = insert new (snd ` set (pl_by_hash p)) - set_option old \<and>
    m' \<le> pl_mem_usage p + vt_mem_usage vt (transaction new) \<and> length bh \<le> Suc (length (pl_by_hash p))"
proof -
  let ?h = "vt_hash vt (transaction new)" and ?bh = "pl_by_hash p"
  let ?q = "p\<lparr> pl_mem_usage := pl_mem_usage p + vt_mem_usage vt (transaction new), pl_by_hash := ?bh @ [(?h, new)] \<rparr>"
  have k: "?h \<notin> fst ` set ?bh" using new by (simp add: map_of_eq_None_iff)
  have up: "AList.update ?h new ?bh = ?bh @ [(?h, new)]"
    using k by (rule alist_update_new)
  have q: "hash_inv vt ?q" using inv k by (auto simp: hash_inv_def)
  have fi: "finalize_insert vt new old p = (case old of None \<Rightarrow> Some ?q | Some old \<Rightarrow> map_option snd (finalize_remove vt (vt_hash vt (transaction old)) ?q))"
    using m up by (simp add: finalize_insert_def usize_add_def Let_def)
  show ?thesis
  proof (cases old)
    case None
    then show ?thesis using fi q
      by (intro exI [of _ "?bh @ [(?h, new)]"] exI [of _ "pl_mem_usage p + vt_mem_usage vt (transaction new)"]) (cases p, simp add: hash_inv_def)
  next
    case (Some t)
    then have "map_of (pl_by_hash ?q) (vt_hash vt (transaction t)) = Some t"
      using by_hash_lookup [OF q, of t] old by simp
    from finalize_remove_spec [OF q this] show ?thesis using fi Some by (cases p) (auto simp: hash_inv_def)
  qed
qed

context lawful_scoring
begin

text \<open>The index after a transaction was added to the set of its sender and possibly replaced another one.\<close>

lemma enter_tx:
  fixes p :: "('t, 'h, 'k, 's) pool"
  assumes inv: "pool_inv vt sc p" and q: "q = p\<lparr> pl_transactions := trs, pl_best := b, pl_worst := w \<rparr>" "sets_inv vt sc q"
    and all: "all_txs trs = insert tx (all_txs (pl_transactions p)) - set_option old"
    and old: "set_option old \<subseteq> all_txs (pl_transactions p)" and nt: "tx \<notin> all_txs (pl_transactions p)"
    and h: "map_of (pl_by_hash p) (vt_hash vt (transaction tx)) = None"
    and mem: "pl_mem_usage p + vt_mem_usage vt (transaction tx) < B"
  shows "\<exists>p'. finalize_insert vt tx old (notify n q) = Some p' \<and> pool_inv vt sc p' \<and> pl_options p' = pl_options p \<and>
    pl_insertion_id p' = pl_insertion_id p \<and> pl_mem_usage p' \<le> pl_mem_usage p + vt_mem_usage vt (transaction tx) \<and>
    length (pl_by_hash p') \<le> Suc (length (pl_by_hash p)) \<and>
    tx \<in> all_txs (pl_transactions p') \<and> all_txs (pl_transactions p') \<subseteq> insert tx (all_txs (pl_transactions p))"
proof -
  have hi: "hash_inv vt p" "snd ` set (pl_by_hash p) = all_txs (pl_transactions p)" using inv by (simp_all add: pool_inv_def)
  have hq: "hash_inv vt (notify n q)" using hi(1) q(1) by (simp add: hash_inv_def)
  have o: "t \<in> snd ` set (pl_by_hash (notify n q))" if "old = Some t" for t using that old hi(2) q(1) by auto
  obtain bh m' where f: "finalize_insert vt tx old (notify n q) = Some ((notify n q)\<lparr> pl_by_hash := bh, pl_mem_usage := m' \<rparr>)"
    "hash_inv vt ((notify n q)\<lparr> pl_by_hash := bh, pl_mem_usage := m' \<rparr>)" "snd ` set bh = insert tx (snd ` set (pl_by_hash p)) - set_option old"
    "m' \<le> pl_mem_usage p + vt_mem_usage vt (transaction tx)" "length bh \<le> Suc (length (pl_by_hash p))"
    using finalize_insert_spec [OF hq, of tx old] h mem o q(1) by auto
  have "sets_inv vt sc (notify n q)" using q(2) by (simp add: sets_inv_def)
  then have "pool_inv vt sc ((notify n q)\<lparr> pl_by_hash := bh, pl_mem_usage := m' \<rparr>)"
    using f(2,3) hi(2) all q(1) by (simp add: pool_inv_def sets_inv_cong)
  then show ?thesis using f all old nt q(1) by auto
qed

lemma import_add_eval:
  assumes "ts = (case map_of (pl_transactions p) (vt_sender vt (transaction tx)) of None \<Rightarrow> txs_default | Some ts \<Rightarrow> ts)"
    and "txs_add ts tx sc (max_per_sender (pl_options p)) = Some (res, ts')" "worst_and_best ts = Some (ends ts)" "worst_and_best ts' = Some (ends ts')"
    and "update_senders_worst_and_best vt (ends ts) (ends ts') (p\<lparr> pl_transactions := AList.update (vt_sender vt (transaction tx)) ts' (pl_transactions p) \<rparr>) = q"
  shows "import_add vt sc tx p = (case res of
       AddOk tx \<Rightarrow> do { p \<leftarrow> finalize_insert vt tx None (notify (Added (transaction tx) None) q); Some (Inr (transaction tx), p) }
     | AddPushedOut old new \<Rightarrow> do { p \<leftarrow> finalize_insert vt new (Some old) (notify (Added (transaction new) (Some (transaction old))) q); Some (Inr (transaction new), p) }
     | AddReplaced old new \<Rightarrow> do { p \<leftarrow> finalize_insert vt new (Some old) (notify (Added (transaction new) (Some (transaction old))) q); Some (Inr (transaction new), p) }
     | AddTooCheap old new \<Rightarrow>
         Some (Inl (TooCheapToReplace (vt_hash vt (transaction old)) (vt_hash vt (transaction new))),
           notify (Rejected (transaction new) (TooCheapToReplace (vt_hash vt (transaction old)) (vt_hash vt (transaction new)))) q)
     | AddTooCheapToEnter new score \<Rightarrow>
         Some (Inl (TooCheapToEnter (vt_hash vt (transaction new)) (score_hex sc score)),
           notify (Rejected (transaction new) (TooCheapToEnter (vt_hash vt (transaction new)) (score_hex sc score))) q))"
  using assms(2-5) unfolding import_add_def by (cases res) (simp_all add: assms(1) [symmetric] Let_def)

lemma import_add_spec:
  assumes inv: "pool_inv vt sc p" and m: "0 < max_per_sender (pl_options p)"
    and id: "insertion_id tx = pl_insertion_id p" "\<forall>t \<in> all_txs (pl_transactions p). insertion_id t < pl_insertion_id p"
    and h: "map_of (pl_by_hash p) (vt_hash vt (transaction tx)) = None"
    and mem: "pl_mem_usage p + vt_mem_usage vt (transaction tx) < B"
  shows "\<exists>res p'. import_add vt sc tx p = Some (res, p') \<and> pool_inv vt sc p' \<and> pl_options p' = pl_options p \<and>
    pl_insertion_id p' = pl_insertion_id p \<and> pl_mem_usage p' \<le> pl_mem_usage p + vt_mem_usage vt (transaction tx) \<and>
    length (pl_by_hash p') \<le> Suc (length (pl_by_hash p)) \<and>
    (case res of
       Inr t \<Rightarrow> t = transaction tx \<and> tx \<in> all_txs (pl_transactions p') \<and> all_txs (pl_transactions p') \<subseteq> insert tx (all_txs (pl_transactions p))
     | Inl e \<Rightarrow> pl_by_hash p' = pl_by_hash p \<and> pl_mem_usage p' = pl_mem_usage p)"
proof -
  have hi: "hash_inv vt p" "sets_inv vt sc p" "snd ` set (pl_by_hash p) = all_txs (pl_transactions p)"
    using inv by (simp_all add: pool_inv_def)
  let ?al = "pl_transactions p"
  have fresh: "\<forall>t \<in> all_txs ?al. insertion_id t < insertion_id tx \<and> vt_hash vt (transaction t) \<noteq> vt_hash vt (transaction tx)"
    using id h by_hash_lookup [OF hi(1)] hi(3) by (metis option.distinct(1))
  define ts where "ts = (case map_of ?al (vt_sender vt (transaction tx)) of None \<Rightarrow> txs_default | Some ts \<Rightarrow> ts)"
  obtain res ts' trs b w where a: "txs_add ts tx sc (max_per_sender (pl_options p)) = Some (res, ts')"
    "add_effect res tx (tx_list ts) (tx_list ts')" "worst_and_best ts = Some (ends ts)" "worst_and_best ts' = Some (ends ts')"
    "update_senders_worst_and_best vt (ends ts) (ends ts') (p\<lparr> pl_transactions := AList.update (vt_sender vt (transaction tx)) ts' ?al \<rparr>)
      = p\<lparr> pl_transactions := trs, pl_best := b, pl_worst := w \<rparr>"
    "sets_inv vt sc (p\<lparr> pl_transactions := trs, pl_best := b, pl_worst := w \<rparr>)"
    "all_txs trs = set (tx_list ts') \<union> (all_txs ?al - set (tx_list ts))" "set (tx_list ts) \<subseteq> all_txs ?al" "distinct (tx_list ts)"
    using add_to_set [OF hi(2) m fresh _ ts_def] id(1) by auto
  let ?p = "p\<lparr> pl_transactions := trs, pl_best := b, pl_worst := w \<rparr>"
  have nt: "tx \<notin> all_txs ?al" using fresh by auto
  have entered: ?thesis
    if im: "import_add vt sc tx p = do { p \<leftarrow> finalize_insert vt tx old (notify n ?p); Some (Inr (transaction tx), p) }"
    and new: "set (tx_list ts') = insert tx (set (tx_list ts)) - set_option old" and old: "set_option old \<subseteq> set (tx_list ts)" for old n
  proof -
    have "all_txs trs = insert tx (all_txs ?al) - set_option old" "set_option old \<subseteq> all_txs ?al" using a(7,8) new old nt by auto
    from enter_tx [OF inv refl a(6) this nt h mem, of n] show ?thesis using im by auto
  qed
  have rejected: "pool_inv vt sc (notify n ?p)" if "tx_list ts' = tx_list ts" for n
  proof -
    have "pool_inv vt sc ?p"
      using a(6,7,8) hi(1,3) that by (simp add: pool_inv_def sets_inv_cong(2) Un_absorb1)
    then show ?thesis by simp
  qed
  note im = import_add_eval [OF ts_def a(1,3,4,5)]
  have swapped: "set (tx_list ts') = insert tx (set (tx_list ts)) - set_option (Some old)" "set_option (Some old) \<subseteq> set (tx_list ts)"
    if "res = AddReplaced old t \<or> res = AddPushedOut old t" for old t
  proof -
    have "tx \<notin> set (tx_list ts)" using nt a(8) by blast
    then show "set (tx_list ts') = insert tx (set (tx_list ts)) - set_option (Some old)" "set_option (Some old) \<subseteq> set (tx_list ts)"
      using that a(2,9) swapped_set [of "tx_list ts" tx old "tx_list ts'"] by auto
  qed
  show ?thesis
  proof (cases res)
    case (AddOk t)
    then have "mset (tx_list ts') = mset (tx # tx_list ts)" "t = tx" using a(2) by simp_all
    moreover have "set (tx_list ts') = set (tx # tx_list ts)" using calculation(1) by (rule mset_eq_setD)
    ultimately have "set (tx_list ts') = insert tx (set (tx_list ts)) - set_option None" "set_option None \<subseteq> set (tx_list ts)" "t = tx"
      by simp_all
    with entered [OF _ this(1,2)] show ?thesis using im AddOk by simp
  next
    case (AddReplaced old t)
    then show ?thesis using entered [OF _ swapped] im a(2) by simp
  next
    case (AddPushedOut old t)
    then show ?thesis using entered [OF _ swapped] im a(2) by simp
  next
    case (AddTooCheap old t)
    then show ?thesis using im a(2) rejected by simp
  next
    case (AddTooCheapToEnter t s)
    then show ?thesis using im a(2) rejected by simp
  qed
qed

lemma removes_fresh: "removes p X q \<Longrightarrow> pool_inv vt sc q \<Longrightarrow> pool_inv vt sc p \<Longrightarrow>
    map_of (pl_by_hash p) h = None \<Longrightarrow> map_of (pl_by_hash q) h = None"
proof (rule ccontr)
  assume r: "removes p X q" "pool_inv vt sc q" "pool_inv vt sc p" "map_of (pl_by_hash p) h = None" "map_of (pl_by_hash q) h \<noteq> None"
  then obtain t where "map_of (pl_by_hash q) h = Some t" by auto
  then have "t \<in> snd ` set (pl_by_hash q)" "vt_hash vt (transaction t) = h"
    using by_hash_lookup_conv [of vt q] r(2) by (auto simp: pool_inv_def)
  then have "t \<in> snd ` set (pl_by_hash p)" using r(1,2,3) by (auto simp: removes_def pool_inv_def)
  then show False using by_hash_lookup [of vt p t] r(3,4) \<open>vt_hash vt (transaction t) = h\<close> by (simp add: pool_inv_def)
qed

text \<open>\<^verbatim>\<open>import\<close> on every branch.\<close>

lemma pool_import_spec:
  assumes inv: "pool_inv vt sc p" and m: "0 < max_per_sender (pl_options p)"
    and bounds: "pl_insertion_id p + 1 < B" "length (pl_by_hash p) + 1 < B" "pl_mem_usage p + vt_mem_usage vt t < B"
  shows "\<exists>res p'. pool_import vt sc replace t p = Some (res, p') \<and> pool_inv vt sc p' \<and> pl_options p' = pl_options p \<and>
    (if pool_find (vt_hash vt t) p \<noteq> None then res = Inl (AlreadyImported (vt_hash vt t)) \<and> p' = p
     else case res of Inr u \<Rightarrow> u = t \<and> pool_find (vt_hash vt t) p' = Some t | Inl e \<Rightarrow> pool_find (vt_hash vt t) p' = None) \<and>
    ((\<forall>a b. replace a b \<noteq> InsertNew) \<longrightarrow> length (pl_by_hash p) \<le> max_count (pl_options p) \<longrightarrow> pl_mem_usage p \<le> max_mem_usage (pl_options p) \<longrightarrow>
       length (pl_by_hash p') \<le> max_count (pl_options p) \<and> pl_mem_usage p' \<le> max_mem_usage (pl_options p))"
proof (cases "map_of (pl_by_hash p) (vt_hash vt t)")
  case (Some u)
  then show ?thesis using inv by (auto simp: pool_import_def pool_find_def)
next
  case None
  let ?id = "pl_insertion_id p + 1"
  let ?p = "p\<lparr> pl_insertion_id := ?id \<rparr>" and ?tx = "\<lparr> insertion_id = pl_insertion_id p + 1, transaction = t \<rparr>"
  let ?E1 = "evict_loop count_exceeded (import_remove_worst vt sc replace ?tx)"
  let ?E2 = "evict_loop (mem_exceeded (vt_mem_usage vt t)) (import_remove_worst vt sc replace ?tx)"
  have i1: "pool_inv vt sc ?p" using inv by (auto simp: pool_inv_def sets_inv_def hash_inv_def)
  have "count_exceeded q \<noteq> None" if "removes ?p X q" for q X
    using that bounds(2) by (simp add: count_exceeded_def removes_def usize_add_def)
  then obtain r1 p1 X1 where e1: "?E1 ?p = Some (r1, p1)" "pool_inv vt sc p1" "removes ?p X1 p1"
    "r1 = Inr () \<longrightarrow> (\<forall>a b. replace a b \<noteq> InsertNew) \<longrightarrow> count_exceeded p1 = Some False"
    using evict_loop_spec [OF i1] by blast
  have "mem_exceeded (vt_mem_usage vt t) q \<noteq> None" if "removes p1 X q" for q X
    using that e1(3) bounds(3) by (simp add: mem_exceeded_def removes_def usize_add_def)
  then obtain r2 p2 X2 where e2: "?E2 p1 = Some (r2, p2)" "pool_inv vt sc p2" "removes p1 X2 p2"
    "r2 = Inr () \<longrightarrow> (\<forall>a b. replace a b \<noteq> InsertNew) \<longrightarrow> mem_exceeded (vt_mem_usage vt t) p2 = Some False"
    using evict_loop_spec [OF e1(2)] by blast
  have im: "pool_import vt sc replace t p = (case r1 of Inl e \<Rightarrow> Some (Inl e, p1) | Inr _ \<Rightarrow>
      (case r2 of Inl e \<Rightarrow> Some (Inl e, p2) | Inr _ \<Rightarrow> import_add vt sc ?tx p2))"
    using None e1(1) e2(1) bounds(1) by (simp add: pool_import_def usize_add_def split: sum.split)
  have n1: "map_of (pl_by_hash p1) (vt_hash vt t) = None" using removes_fresh [OF e1(3,2) i1] None by simp
  have n2: "map_of (pl_by_hash p2) (vt_hash vt t) = None" using removes_fresh [OF e2(3,2) e1(2) n1] .
  consider e where "r1 = Inl e" | e where "r1 = Inr ()" "r2 = Inl e" | "r1 = Inr ()" "r2 = Inr ()"
    by (metis (full_types) old.unit.exhaust sum.exhaust)
  then show ?thesis
  proof cases
    case 1
    then show ?thesis using im e1(2,3) n1 None by (simp add: removes_def pool_find_def)
  next
    case 2
    then show ?thesis using im e1(3) e2(2,3) n2 None by (simp add: removes_def pool_find_def)
  next
    case 3
    have "\<forall>u \<in> all_txs (pl_transactions p2). insertion_id u < pl_insertion_id p2" "pl_insertion_id p2 = ?id"
      using e1(3) e2(3) inv by (auto simp: removes_def pool_inv_def sets_inv_def less_Suc_eq_le)
    moreover have "pl_options p2 = pl_options p" "length (pl_by_hash p2) \<le> length (pl_by_hash p1)"
      "pl_mem_usage p2 + vt_mem_usage vt t < B" using e1(3) e2(3) bounds(3) by (auto simp: removes_def)
    ultimately obtain res p' where a: "import_add vt sc ?tx p2 = Some (res, p')" "pool_inv vt sc p'" "pl_options p' = pl_options p"
      "pl_mem_usage p' \<le> pl_mem_usage p2 + vt_mem_usage vt t" "length (pl_by_hash p') \<le> Suc (length (pl_by_hash p2))"
      "case res of Inr u \<Rightarrow> u = t \<and> ?tx \<in> all_txs (pl_transactions p') | Inl e \<Rightarrow> pl_by_hash p' = pl_by_hash p2 \<and> pl_mem_usage p' = pl_mem_usage p2"
      "length (pl_by_hash p2) \<le> length (pl_by_hash p1)"
      using import_add_spec [OF e2(2), of ?tx] m n2 by (fastforce split: sum.splits)
    have "map_of (pl_by_hash p') (vt_hash vt t) = Some ?tx" if "res = Inr u" for u
      using a(2,6) that by_hash_lookup [of vt p' ?tx] by (simp add: pool_inv_def)
    moreover have "count_exceeded p1 = Some False \<longrightarrow> length (pl_by_hash p1) + 1 \<le> max_count (pl_options p)"
      "mem_exceeded (vt_mem_usage vt t) p2 = Some False \<longrightarrow> pl_mem_usage p2 + vt_mem_usage vt t \<le> max_mem_usage (pl_options p)"
      using e1(3) e2(3) bounds(2,3) by (auto simp: count_exceeded_def mem_exceeded_def usize_add_def removes_def split: if_splits)
    ultimately show ?thesis using 3 im a e1(4) e2(4) n2 None
      by (cases res) (auto simp: pool_find_def)
  qed
qed

end


lemma finalize_culled_spec:
  assumes "hash_inv vt p" "distinct xs" "set xs \<subseteq> snd ` set (pl_by_hash p)"
  shows "\<exists>bh m l. finalize_culled vt xs p = Some (p\<lparr> pl_by_hash := bh, pl_mem_usage := m, pl_listener := l \<rparr>) \<and>
    hash_inv vt (p\<lparr> pl_by_hash := bh, pl_mem_usage := m, pl_listener := l \<rparr>) \<and> snd ` set bh = snd ` set (pl_by_hash p) - set xs \<and>
    m \<le> pl_mem_usage p \<and> length bh + length xs \<le> length (pl_by_hash p) \<and> l = pl_listener p @ map (\<lambda>t. CulledTx (transaction t)) xs"
  using assms
proof (induction xs arbitrary: p)
  case Nil
  then show ?case by (intro exI [of _ "pl_by_hash p"] exI [of _ "pl_mem_usage p"] exI [of _ "pl_listener p"]) (cases p, simp)
next
  case (Cons t xs)
  obtain bh m where f: "finalize_remove vt (vt_hash vt (transaction t)) p = Some (Some (transaction t), p\<lparr> pl_by_hash := bh, pl_mem_usage := m \<rparr>)"
    "hash_inv vt (p\<lparr> pl_by_hash := bh, pl_mem_usage := m \<rparr>)" "snd ` set bh = snd ` set (pl_by_hash p) - {t}"
    "m \<le> pl_mem_usage p" "length bh < length (pl_by_hash p)"
    using finalize_remove_spec [OF Cons.prems(1) by_hash_lookup [OF Cons.prems(1), of t]] Cons.prems(3) by auto
  let ?p = "notify (CulledTx (transaction t)) (p\<lparr> pl_by_hash := bh, pl_mem_usage := m \<rparr>)"
  have "hash_inv vt ?p" using f(2) by (simp add: hash_inv_def)
  moreover have "set xs \<subseteq> snd ` set (pl_by_hash ?p)" using Cons.prems(2,3) f(3) by auto
  ultimately obtain bh' m' l' where IH: "finalize_culled vt xs ?p = Some (?p\<lparr> pl_by_hash := bh', pl_mem_usage := m', pl_listener := l' \<rparr>)"
    "hash_inv vt (?p\<lparr> pl_by_hash := bh', pl_mem_usage := m', pl_listener := l' \<rparr>)" "snd ` set bh' = snd ` set (pl_by_hash ?p) - set xs"
    "m' \<le> pl_mem_usage ?p" "length bh' + length xs \<le> length (pl_by_hash ?p)" "l' = pl_listener ?p @ map (\<lambda>t. CulledTx (transaction t)) xs"
    using Cons.IH [of ?p] Cons.prems(2) by auto
  have e: "?p\<lparr> pl_by_hash := bh', pl_mem_usage := m', pl_listener := l' \<rparr> = p\<lparr> pl_by_hash := bh', pl_mem_usage := m', pl_listener := l' \<rparr>"
    by (cases p) (simp add: notify_def)
  have "pl_listener ?p = pl_listener p @ [CulledTx (transaction t)]" by (simp add: notify_def)
  then show ?case using f IH unfolding e
    by (intro exI [of _ bh'] exI [of _ m'] exI [of _ l']) auto
qed

definition sender_txs :: "'k \<Rightarrow> ('t, 'h, 'k, 's) pool \<Rightarrow> 't transaction list" where
  "sender_txs k p = (case map_of (pl_transactions p) k of None \<Rightarrow> [] | Some ts \<Rightarrow> tx_list ts)"

text \<open>
  Culling as it is meant, on the transactions of each sender: the sender loses the stale transactions at its front, as the readiness check
  reports them; the check is asked in order, up to the first transaction that is not stale, and keeps its state for the next sender.
\<close>

fun culled :: "('t, 'r) ready \<Rightarrow> 'k list \<Rightarrow> 'r \<Rightarrow> ('k \<Rightarrow> 't transaction list) \<Rightarrow> nat \<times> ('k \<Rightarrow> 't transaction list)" where
  "culled ready [] st q = (0, q)"
| "culled ready (k # ks) st q =
     (let txs = map transaction (q k);
          n = leading_stale ready st txs;
          (m, q') = culled ready ks (asked ready st (take (Suc n) txs)) (q(k := drop n (q k)))
      in (n + m, q'))"

context lawful_scoring
begin

lemma sender_txs_sorted: "sets_inv vt sc p \<Longrightarrow> sorted_wrt (in_order sc) (sender_txs k p)"
  by (cases "map_of (pl_transactions p) k") (auto simp: sender_txs_def sets_inv_def wf_entry_def wf_txs_def dest!: map_of_SomeD)

lemma set_sender_txs:
  assumes "sets_inv vt sc p"
  shows "set (sender_txs k p) = {t \<in> all_txs (pl_transactions p). vt_sender vt (transaction t) = k}"
proof
  show "set (sender_txs k p) \<subseteq> {t \<in> all_txs (pl_transactions p). vt_sender vt (transaction t) = k}"
    using assms by (cases "map_of (pl_transactions p) k") (force simp: sender_txs_def all_txs_def sets_inv_def wf_entry_def dest!: map_of_SomeD)+
  show "{t \<in> all_txs (pl_transactions p). vt_sender vt (transaction t) = k} \<subseteq> set (sender_txs k p)"
    using sender_set [OF assms] by (fastforce simp: sender_txs_def)
qed

lemma sender_txs_removes:
  assumes "sets_inv vt sc p" "sets_inv vt sc p'" "removes p X p'"
  shows "sender_txs k p' = filter (\<lambda>t. t \<notin> X) (sender_txs k p)"
proof (rule sorted_unique)
  show "set (sender_txs k p') = set (filter (\<lambda>t. t \<notin> X) (sender_txs k p))"
    using set_sender_txs [OF assms(1)] set_sender_txs [OF assms(2)] assms(3) by (auto simp: removes_def)
  show "sorted_wrt (in_order sc) (sender_txs k p')" by (rule sender_txs_sorted [OF assms(2)])
  show "sorted_wrt (in_order sc) (filter (\<lambda>t. t \<notin> X) (sender_txs k p))"
    by (rule sorted_wrt_filter) (rule sender_txs_sorted [OF assms(1)])
qed

lemma sender_txs_cut:
  assumes "sets_inv vt sc p" "sets_inv vt sc p'" "removes p (set (take n (sender_txs k p))) p'"
  shows "(\<lambda>k. sender_txs k p') = (\<lambda>k. sender_txs k p)(k := drop n (sender_txs k p))"
proof
  fix j
  let ?xs = "sender_txs k p"
  have j: "sender_txs j p' = filter (\<lambda>t. t \<notin> set (take n ?xs)) (sender_txs j p)" by (rule sender_txs_removes [OF assms])
  show "sender_txs j p' = ((\<lambda>k. sender_txs k p)(k := drop n ?xs)) j"
  proof (cases "j = k")
    case True
    have "distinct ?xs" using sender_txs_sorted [OF assms(1)] by (rule sorted_distinct)
    then have d: "set (take n ?xs) \<inter> set (drop n ?xs) = {}" by (simp add: set_take_disj_set_drop_if_distinct)
    have "filter (\<lambda>t. t \<notin> set (take n ?xs)) (take n ?xs @ drop n ?xs) = drop n ?xs"
      unfolding filter_append using d by (auto simp: filter_empty_conv filter_id_conv)
    then show ?thesis using j True by simp
  next
    case False
    then have "set (take n ?xs) \<inter> set (sender_txs j p) = {}"
      using set_sender_txs [OF assms(1), of k] set_sender_txs [OF assms(1), of j] set_take_subset [of n ?xs] by auto
    then show ?thesis using j False by (auto simp: filter_id_conv)
  qed
qed

lemma remove_stalled_spec:
  assumes inv: "pool_inv vt sc p" and n: "count_stalled ready st (sender_txs k p) 0 = (n, st')"
  shows "\<exists>p'. remove_stalled vt sc ready k st p = Some (n, st', p') \<and> pool_inv vt sc p' \<and>
    removes p (set (take n (sender_txs k p))) p' \<and> length (pl_by_hash p') + n \<le> length (pl_by_hash p)"
proof (cases "map_of (pl_transactions p) k")
  case None
  then have "sender_txs k p = []" "n = 0" "st' = st" using n by (simp_all add: sender_txs_def)
  then show ?thesis using inv None by (simp add: remove_stalled_def remove_from_set_def removes_def)
next
  case (Some ts)
  then have l: "sender_txs k p = tx_list ts" by (simp add: sender_txs_def)
  have hi: "hash_inv vt p" "sets_inv vt sc p" "snd ` set (pl_by_hash p) = all_txs (pl_transactions p)" "distinct (map fst (pl_transactions p))"
    using inv by (simp_all add: pool_inv_def sets_inv_def)
  have wf: "wf_txs sc ts" using hi(2) map_of_SomeD [OF Some] by (auto simp: sets_inv_def wf_entry_def)
  obtain ts' where c: "txs_cull ts ready st sc = Some (rev (take n (tx_list ts)), ts', st')" "wf_txs sc ts'" "tx_list ts' = drop n (tx_list ts)"
    using cull_spec [OF wf, of ready st n st'] n l by auto
  have nl: "n \<le> length (tx_list ts)"
    using n l leading_stale_le [of ready st "map transaction (tx_list ts)"] by (auto simp: count_stalled_spec)
  let ?f = "\<lambda>ts. map_option (\<lambda>(result, ts, st). ((result, st), ts)) (txs_cull ts ready st sc)"
  have "set (tx_list ts') \<subseteq> set (tx_list ts)" using c(3) by (simp add: set_drop_subset)
  then obtain trs b w where r: "remove_from_set vt k ?f p = Some (Some (rev (take n (tx_list ts)), st'), p\<lparr> pl_transactions := trs, pl_best := b, pl_worst := w \<rparr>)"
    "sets_inv vt sc (p\<lparr> pl_transactions := trs, pl_best := b, pl_worst := w \<rparr>)"
    "all_txs trs = set (tx_list ts') \<union> all_txs (AList.delete k (pl_transactions p))"
    using remove_from_set_spec [OF hi(2) Some, of ?f "(rev (take n (tx_list ts)), st')" ts'] c by auto
  let ?p = "p\<lparr> pl_transactions := trs, pl_best := b, pl_worst := w \<rparr>"
  have d: "distinct (tx_list ts)" using wf sorted_distinct by (auto simp: wf_txs_def)
  have all: "all_txs trs = all_txs (pl_transactions p) - set (take n (tx_list ts))"
  proof -
    have "set (drop n (tx_list ts)) = set (tx_list ts) - set (take n (tx_list ts))"
      using d set_append [of "take n (tx_list ts)" "drop n (tx_list ts)"] set_take_disj_set_drop_if_distinct [OF d, of n n]
      by auto
    then show ?thesis using r(3) c(3) all_txs_parts(1) [OF hi(4) Some] other_sets_apart [OF hi(2) Some] set_take_subset [of n "tx_list ts"] by auto
  qed
  have hp: "hash_inv vt ?p" using hi(1) by (rule sets_inv_cong(2))
  have tk: "set (take n (tx_list ts)) \<subseteq> all_txs (pl_transactions p)"
    using all_txs_parts(1) [OF hi(4) Some] set_take_subset [of n "tx_list ts"] by auto
  obtain bh m l' where f: "finalize_culled vt (rev (take n (tx_list ts))) ?p = Some (?p\<lparr> pl_by_hash := bh, pl_mem_usage := m, pl_listener := l' \<rparr>)"
    "hash_inv vt (?p\<lparr> pl_by_hash := bh, pl_mem_usage := m, pl_listener := l' \<rparr>)" "snd ` set bh = snd ` set (pl_by_hash ?p) - set (take n (tx_list ts))"
    "m \<le> pl_mem_usage p" "length bh + n \<le> length (pl_by_hash p)"
    using finalize_culled_spec [OF hp, of "rev (take n (tx_list ts))"] d hi(3) tk nl by auto
  let ?q = "?p\<lparr> pl_by_hash := bh, pl_mem_usage := m, pl_listener := l' \<rparr>"
  have "sets_inv vt sc ?q" using r(2) by (simp add: sets_inv_def)
  then have "pool_inv vt sc ?q" using f(2,3) all hi(3) by (simp add: pool_inv_def)
  moreover have "removes p (set (take n (tx_list ts))) ?q" using f(4,5) all by (simp add: removes_def)
  moreover have "remove_stalled vt sc ready k st p = Some (n, st', ?q)"
    using r(1) f(1) nl by (simp add: remove_stalled_def)
  ultimately show ?thesis using f(5) l by auto
qed

lemma cull_senders_spec:
  "pool_inv vt sc p \<Longrightarrow> removed + length (pl_by_hash p) < B \<Longrightarrow>
     \<exists>n st' p' X. cull_senders vt sc ready ks removed st p = Some (removed + n, st', p') \<and> pool_inv vt sc p' \<and> removes p X p' \<and>
       removed + n + length (pl_by_hash p') \<le> removed + length (pl_by_hash p) \<and>
       culled ready ks st (\<lambda>k. sender_txs k p) = (n, \<lambda>k. sender_txs k p')"
proof (induction ks arbitrary: removed st p)
  case Nil
  then show ?case by (auto simp: removes_def intro!: exI [of _ "{}"])
next
  case (Cons k ks)
  let ?txs = "map transaction (sender_txs k p)"
  define n where "n = leading_stale ready st ?txs"
  obtain st1 p1 where st1: "st1 = asked ready st (take (Suc n) ?txs)" and s: "remove_stalled vt sc ready k st p = Some (n, st1, p1)" "pool_inv vt sc p1"
    "removes p (set (take n (sender_txs k p))) p1" "length (pl_by_hash p1) + n \<le> length (pl_by_hash p)"
    using remove_stalled_spec [OF Cons.prems(1), of ready st k n "asked ready st (take (Suc n) ?txs)"] by (auto simp: count_stalled_spec n_def)
  have lt: "(removed + n) + length (pl_by_hash p1) < B" using s(4) Cons.prems(2) by linarith
  obtain n' st' p' X where IH: "cull_senders vt sc ready ks (removed + n) st1 p1 = Some (removed + n + n', st', p')" "pool_inv vt sc p'" "removes p1 X p'"
    "removed + n + n' + length (pl_by_hash p') \<le> removed + n + length (pl_by_hash p1)"
    "culled ready ks st1 (\<lambda>k. sender_txs k p1) = (n', \<lambda>k. sender_txs k p')"
    using Cons.IH [OF s(2) lt, of st1] by blast
  have "cull_senders vt sc ready (k # ks) removed st p = Some (removed + (n + n'), st', p')"
    using s(1,4) Cons.prems(2) IH(1) by (simp add: usize_add_def add.assoc)
  moreover have "removed + (n + n') + length (pl_by_hash p') \<le> removed + length (pl_by_hash p)" using IH(4) s(4) by linarith
  moreover have "(\<lambda>k. sender_txs k p)(k := drop n (sender_txs k p)) = (\<lambda>k. sender_txs k p1)"
    using sender_txs_cut [of vt p p1 n k] Cons.prems(1) s(2,3) by (simp add: pool_inv_def)
  then have "culled ready (k # ks) st (\<lambda>k. sender_txs k p) = (n + n', \<lambda>k. sender_txs k p')"
    using IH(5) by (simp add: n_def [symmetric] st1 Let_def)
  ultimately show ?case using IH(2) removes_trans [OF s(3) IH(3)] by blast
qed

lemma pool_update_scores_spec:
  assumes inv: "pool_inv vt sc p"
  shows "\<exists>p'. pool_update_scores vt sc k e p = Some p' \<and> pool_inv vt sc p' \<and> removes p {} p' \<and> pl_by_hash p' = pl_by_hash p"
proof (cases "map_of (pl_transactions p) k")
  case None
  then show ?thesis using inv by (simp add: pool_update_scores_def removes_def)
next
  case (Some ts)
  have hi: "hash_inv vt p" "sets_inv vt sc p" "snd ` set (pl_by_hash p) = all_txs (pl_transactions p)" "distinct (map fst (pl_transactions p))"
    using inv by (simp_all add: pool_inv_def sets_inv_def)
  let ?ts = "txs_update_scores ts sc e"
  have wf: "wf_entry vt sc k ts" "wf_entry vt sc k ?ts" "tx_list ?ts = tx_list ts"
    using hi(2) map_of_SomeD [OF Some] update_scores_spec [of ts e] by (auto simp: sets_inv_def wf_entry_def)
  have "set (tx_list ?ts) \<subseteq> all_txs (pl_transactions p)" using all_txs_parts(1) [OF hi(4) Some] wf(3) by auto
  then have "unique_txs vt (all_txs (pl_transactions p) \<union> set (tx_list ?ts))" "\<forall>t \<in> set (tx_list ?ts). insertion_id t \<le> pl_insertion_id p"
    using hi(2) by (auto simp: sets_inv_def Un_absorb2)
  from set_change [OF hi(2) disjI1 [OF Some] wf(2) this] obtain trs b w where
    "update_senders_worst_and_best vt (ends ts) (ends ?ts) (p\<lparr> pl_transactions := AList.update k ?ts (pl_transactions p) \<rparr>) = p\<lparr> pl_transactions := trs, pl_best := b, pl_worst := w \<rparr>"
    "sets_inv vt sc (p\<lparr> pl_transactions := trs, pl_best := b, pl_worst := w \<rparr>)"
    "all_txs trs = all_txs (pl_transactions p)" using all_txs_parts(1) [OF hi(4) Some] wf(3) by auto
  then show ?thesis using Some wf hi(1,3) worst_and_best_ends [of sc ts] worst_and_best_ends [of sc ?ts]
    by (auto simp: pool_update_scores_def wf_entry_def Let_def pool_inv_def sets_inv_cong(2) removes_def)
qed

end

lemma pool_new_inv: "pool_inv vt sc (pool_new options)"
  by (simp add: pool_inv_def sets_inv_def hash_inv_def pool_new_def unique_txs_def all_txs_def)

lemma pool_clear_inv: "pool_inv vt sc (pool_clear p)"
  by (simp add: pool_inv_def sets_inv_def hash_inv_def pool_clear_def unique_txs_def all_txs_def)


subsection \<open>The scoring of the crate's tests\<close>

text \<open>
  The crate leaves the scoring to its users; the one implementation it has is that of its tests,
  which orders by nonce and scores by gas price. \<^verbatim>\<open>U256\<close> and hashes are natural numbers here;
  \<open>lower_hex\<close> prints one.
\<close>

record test_tx =
  t_hash :: nat
  t_nonce :: nat
  t_gas_price :: nat
  t_gas :: nat
  t_sender :: nat
  t_mem_usage :: nat

definition test_vt :: "(test_tx, nat, nat) verified_transaction" where
  "test_vt = \<lparr> vt_hash = t_hash, vt_mem_usage = t_mem_usage, vt_sender = t_sender \<rparr>"

definition dummy_compare :: "test_tx \<Rightarrow> test_tx \<Rightarrow> ordering" where
  "dummy_compare old new = cmp_of (t_nonce old) (t_nonce new)"

definition dummy_choose :: "test_tx \<Rightarrow> test_tx \<Rightarrow> choice" where
  "dummy_choose old new =
     (if t_nonce old = t_nonce new then if t_gas_price old < t_gas_price new then ReplaceOld else RejectNew
      else InsertNew)"

definition dummy_update_scores :: "test_tx transaction list \<Rightarrow> nat list \<Rightarrow> unit change \<Rightarrow> nat list" where
  "dummy_update_scores txs scores change =
     (case change of
        Event _ \<Rightarrow> map (\<lambda>_. 0) txs @ drop (length txs) scores
      | _ \<Rightarrow> map (\<lambda>tx. t_gas_price (transaction tx)) txs @ drop (length txs) scores)"

definition dummy_scoring :: "(nat \<Rightarrow> string) \<Rightarrow> bool \<Rightarrow> (test_tx, nat, unit) scoring" where
  "dummy_scoring lower_hex always_insert =
     \<lparr> sc_compare = dummy_compare, sc_choose = dummy_choose, sc_update_scores = dummy_update_scores,
       sc_should_ignore_sender_limit = (\<lambda>_. always_insert), default_score = 0, score_hex = lower_hex \<rparr>"

definition dummy_should_replace :: "bool \<Rightarrow> test_tx should_replace" where
  "dummy_should_replace always_insert old new =
     (if always_insert then InsertNew
      else if t_gas_price (transaction (rt_transaction old)) < t_gas_price (transaction (rt_transaction new))
      then ReplaceOld else RejectNew)"

interpretation dummy: lawful_scoring "dummy_scoring lower_hex always_insert"
  by unfold_locales
     (auto simp: dummy_scoring_def dummy_compare_def dummy_choose_def dummy_update_scores_def split: change.split)

subsection \<open>Runs\<close>

text \<open>
  What a client may do with a pool. A readiness check is a function of the transactions it was asked
  about before, so its state is their list. The accounted memory of a real pool fits a \<^verbatim>\<open>usize\<close>.
\<close>

inductive pool_step ::
  "('t, 'h, 'k) verified_transaction \<Rightarrow> ('t, 's::linorder, 'e) scoring \<Rightarrow> ('t, 'h, 'k, 's) pool \<Rightarrow> ('t, 'h, 'k, 's) pool \<Rightarrow> bool"
  for vt sc where
  step_import: "pool_import vt sc replace t p = Some (res, p') \<Longrightarrow> pl_mem_usage p + vt_mem_usage vt t < B \<Longrightarrow> pool_step vt sc p p'"
| step_remove: "pool_remove vt sc h is_invalid p = Some (res, p') \<Longrightarrow> pool_step vt sc p p'"
| step_cull: "pool_cull vt sc (ready :: ('t, 't list) ready) senders st p = Some (n, p') \<Longrightarrow> length (pl_by_hash p) < B \<Longrightarrow> pool_step vt sc p p'"
| step_scores: "pool_update_scores vt sc k event p = Some p' \<Longrightarrow> pool_step vt sc p p'"
| step_clear: "pool_step vt sc p (pool_clear p)"

inductive pool_reachable ::
  "('t, 'h, 'k) verified_transaction \<Rightarrow> ('t, 's::linorder, 'e) scoring \<Rightarrow> options \<Rightarrow> ('t, 'h, 'k, 's) pool \<Rightarrow> bool"
  for vt sc options where
  reach_new: "pool_reachable vt sc options (pool_new options)"
| reach_step: "pool_reachable vt sc options p \<Longrightarrow> pool_step vt sc p p' \<Longrightarrow> pool_reachable vt sc options p'"

context lawful_scoring
begin

lemma import_bounds:
  assumes "pool_import vt sc replace t p = Some (res, p')" "map_of (pl_by_hash p) (vt_hash vt t) = None"
  shows "pl_insertion_id p + 1 < B" "length (pl_by_hash p) + 1 < B"
proof -
  show "pl_insertion_id p + 1 < B"
    using assms by (cases "pl_insertion_id p + 1 < B") (simp_all add: pool_import_def usize_add_def)
  show "length (pl_by_hash p) + 1 < B"
  proof (rule ccontr)
    assume "\<not> length (pl_by_hash p) + 1 < B"
    then have "count_exceeded (p\<lparr> pl_insertion_id := pl_insertion_id p + 1 \<rparr>) = None" by (simp add: count_exceeded_def usize_add_def)
    then have "evict_loop count_exceeded f (p\<lparr> pl_insertion_id := pl_insertion_id p + 1 \<rparr>) = None" for f
      by (subst evict_loop.simps) simp
    then show False using assms by (auto simp: pool_import_def usize_add_def split: if_splits)
  qed
qed

lemma pool_step_inv:
  assumes "pool_step vt sc p p'" "pool_inv vt sc p" "0 < max_per_sender (pl_options p)"
  shows "pool_inv vt sc p' \<and> pl_options p' = pl_options p"
  using assms(1)
proof (cases rule: pool_step.cases)
  case (step_import replace t res)
  show ?thesis
  proof (cases "map_of (pl_by_hash p) (vt_hash vt t)")
    case None
    then show ?thesis using pool_import_spec [OF assms(2,3) import_bounds [OF step_import(1) None] step_import(2), of replace] step_import(1) by auto
  next
    case (Some u)
    then show ?thesis using step_import(1) assms(2) by (auto simp: pool_import_def)
  qed
next
  case (step_remove h i res)
  show ?thesis
  proof (cases "map_of (pl_by_hash p) h")
    case None
    then show ?thesis using pool_remove_spec [OF assms(2), of h i] assms(2) step_remove by simp
  next
    case (Some t)
    then obtain q n where "p' = notify n q" "pool_inv vt sc q" "removes p {t} q"
      using pool_remove_spec [OF assms(2), of h i] step_remove by auto
    then show ?thesis by (simp add: removes_def)
  qed
next
  case (step_cull ready senders st n)
  let ?ks = "case senders of Some ks \<Rightarrow> ks | None \<Rightarrow> map fst (pl_transactions p)"
  obtain m st' q X where "cull_senders vt sc ready ?ks 0 st p = Some (0 + m, st', q)" "pool_inv vt sc q" "removes p X q"
    using cull_senders_spec [OF assms(2), of 0 ready ?ks st] step_cull(2) by auto
  then show ?thesis using step_cull(1) by (simp add: pool_cull_def removes_def)
next
  case (step_scores k event)
  then show ?thesis using pool_update_scores_spec [OF assms(2), of k event] by (auto simp: removes_def)
next
  case step_clear
  then show ?thesis by (simp add: pool_clear_inv) (simp add: pool_clear_def)
qed

lemma pool_reachable_inv:
  "pool_reachable vt sc options p \<Longrightarrow> 0 < max_per_sender options \<Longrightarrow> pool_inv vt sc p \<and> pl_options p = options"
proof (induction rule: pool_reachable.induct)
  case reach_new
  then show ?case by (simp add: pool_new_inv) (simp add: pool_new_def)
next
  case (reach_step p p')
  then show ?case using pool_step_inv by metis
qed

end


text \<open>Two transactions of a sender, imported into a new pool.\<close>

definition sample_tx :: "nat \<Rightarrow> test_tx" where
  "sample_tx n = \<lparr> t_hash = n, t_nonce = n, t_gas_price = 5, t_gas = 21000, t_sender = 7, t_mem_usage = 10 \<rparr>"

definition sample_pool :: "(test_tx, nat, nat, nat) pool" where
  "sample_pool =
     (let a = \<lparr> insertion_id = 1, transaction = sample_tx 1 \<rparr>; b = \<lparr> insertion_id = 2, transaction = sample_tx 2 \<rparr> in
      \<lparr> pl_listener = [Added (sample_tx 1) None, Added (sample_tx 2) None], pl_options = options_default, pl_mem_usage = 20,
        pl_transactions = [(7, \<lparr> tx_list = [a, b], tx_scores = [5, 5] \<rparr>)], pl_by_hash = [(1, a), (2, b)],
        pl_best = [\<lparr> sr_score = 5, sr_transaction = a \<rparr>], pl_worst = [\<lparr> sr_score = 5, sr_transaction = b \<rparr>], pl_insertion_id = 2 \<rparr>)"

lemmas pool_eval = pool_import_def pool_new_def usize_add_def usize_sub_def B_eq count_exceeded_def mem_exceeded_def import_add_def
  options_default_def test_vt_def dummy_scoring_def dummy_compare_def dummy_choose_def dummy_update_scores_def txs_default_def
  txs_add_def binary_search_by_def push_cheapest_transaction_def worst_and_best_def index_at_def finalize_insert_def notify_def
  update_senders_worst_and_best_def update_collection_def is_same_def score_ref_cmp_def cmp_of_def vec_insert_def Let_def

lemma sample_reachable: "pool_reachable test_vt (dummy_scoring lower_hex False) options_default sample_pool"
proof -
  let ?sc = "dummy_scoring lower_hex False" and ?r = "dummy_should_replace False"
  define p1 :: "(test_tx, nat, nat, nat) pool" where "p1 = snd (the (pool_import test_vt ?sc ?r (sample_tx 1) (pool_new options_default)))"
  have 1: "pool_import test_vt ?sc ?r (sample_tx 1) (pool_new options_default) = Some (Inr (sample_tx 1), p1)"
    unfolding p1_def by (simp add: pool_eval evict_loop.simps sample_tx_def)
  have 2: "pool_import test_vt ?sc ?r (sample_tx 2) p1 = Some (Inr (sample_tx 2), sample_pool)"
    unfolding p1_def by (simp add: pool_eval evict_loop.simps sample_tx_def sample_pool_def search_base.simps)
  have "pl_mem_usage p1 = 10" unfolding p1_def by (simp add: pool_eval evict_loop.simps sample_tx_def)
  then have "pool_step test_vt ?sc p1 sample_pool"
    by (intro step_import [OF 2]) (simp add: test_vt_def sample_tx_def B_eq)
  moreover have "pool_step test_vt ?sc (pool_new options_default) p1"
    by (intro step_import [OF 1]) (simp add: test_vt_def sample_tx_def B_eq pool_new_def)
  ultimately show ?thesis by (meson reach_new reach_step)
qed


subsection \<open>Properties\<close>

text \<open>
  C2. The invariant of the pool, in every state a client can reach by importing, removing, culling,
  rescoring and clearing, for every lawful scoring: each sender has one non-empty set of transactions
  in strict order with a score for each; the index by hash holds exactly the transactions of the sets,
  each under its hash; the accounted memory is their sum; and the ordered sets hold exactly the best
  and the worst transaction of each sender with its score.
\<close>

theorem pool_invariant:
  assumes "lawful_scoring sc" and "pool_reachable vt sc options p" and "0 < max_per_sender options"
  shows "pool_inv vt sc p \<and> pl_options p = options"
  using lawful_scoring.pool_reachable_inv [OF assms] .

theorem pool_invariant_witness: "pool_inv test_vt (dummy_scoring (\<lambda>_. []) False) sample_pool"
  using pool_invariant [OF dummy.lawful_scoring_axioms sample_reachable] by (simp add: options_default_def)

text \<open>
  C8. \<^verbatim>\<open>import\<close> in a reachable state returns (its eviction loops end and no arithmetic overflows as
  long as the counters fit their types) and keeps the invariant. A transaction whose hash is known is
  refused and changes nothing; otherwise the transaction is found by its hash afterwards exactly when
  \<^verbatim>\<open>import\<close> succeeded. If the replacement policy never answers \<^verbatim>\<open>InsertNew\<close>, the limits on the number
  of transactions and on the memory still hold.
\<close>

theorem import_correct:
  assumes "lawful_scoring sc" and "pool_reachable vt sc options p" and "0 < max_per_sender options"
    and "pl_insertion_id p + 1 < B" and "length (pl_by_hash p) + 1 < B" and "pl_mem_usage p + vt_mem_usage vt t < B"
  shows "\<exists>res p'. pool_import vt sc replace t p = Some (res, p') \<and> pool_inv vt sc p' \<and>
    (if pool_find (vt_hash vt t) p \<noteq> None then res = Inl (AlreadyImported (vt_hash vt t)) \<and> p' = p
     else case res of Inr u \<Rightarrow> u = t \<and> pool_find (vt_hash vt t) p' = Some t | Inl e \<Rightarrow> pool_find (vt_hash vt t) p' = None) \<and>
    ((\<forall>a b. replace a b \<noteq> InsertNew) \<longrightarrow> length (pl_by_hash p) \<le> max_count options \<longrightarrow> pl_mem_usage p \<le> max_mem_usage options \<longrightarrow>
       length (pl_by_hash p') \<le> max_count options \<and> pl_mem_usage p' \<le> max_mem_usage options)"
proof -
  have p: "pool_inv vt sc p" "pl_options p = options" using lawful_scoring.pool_reachable_inv [OF assms(1-3)] by auto
  from lawful_scoring.pool_import_spec [OF assms(1) p(1) _ assms(4-6), unfolded p(2), OF assms(3), of replace]
  show ?thesis by blast
qed

theorem import_correct_witness:
  "\<exists>res p'. pool_import test_vt (dummy_scoring (\<lambda>_. []) False) (dummy_should_replace False) (sample_tx 3) sample_pool = Some (res, p') \<and>
    length (pl_by_hash p') \<le> 1024"
proof -
  have "\<forall>a b. dummy_should_replace False a b \<noteq> InsertNew" by (simp add: dummy_should_replace_def)
  then show ?thesis
    using import_correct [OF dummy.lawful_scoring_axioms sample_reachable, of "sample_tx 3" "\<lambda>_. []" "dummy_should_replace False"]
    by (auto simp: options_default_def sample_pool_def test_vt_def sample_tx_def Let_def B_eq)
qed

text \<open>
  C20. \<^verbatim>\<open>remove\<close> in a reachable state: an unknown hash changes nothing; a known one returns its
  transaction, takes exactly that transaction out of the pool (the index and the set of its sender) and
  keeps the invariant.
\<close>

theorem remove_correct:
  assumes "lawful_scoring sc" and "pool_reachable vt sc options p" and "0 < max_per_sender options"
  shows "case map_of (pl_by_hash p) h of
      None \<Rightarrow> pool_remove vt sc h is_invalid p = Some (None, p)
    | Some t \<Rightarrow> \<exists>p'. pool_remove vt sc h is_invalid p = Some (Some (transaction t), p') \<and> pool_inv vt sc p' \<and>
        all_txs (pl_transactions p') = all_txs (pl_transactions p) - {t} \<and> pool_find h p' = None"
proof (cases "map_of (pl_by_hash p) h")
  case None
  then show ?thesis by (simp add: pool_remove_def finalize_remove_def)
next
  case (Some t)
  have p: "pool_inv vt sc p" using lawful_scoring.pool_reachable_inv [OF assms] by auto
  obtain q n where q: "pool_remove vt sc h is_invalid p = Some (Some (transaction t), notify n q)" "pool_inv vt sc q" "removes p {t} q"
    using lawful_scoring.pool_remove_spec [OF assms(1) p, of h is_invalid] Some by auto
  have "map_of (pl_by_hash q) h = None"
  proof (rule ccontr)
    assume "map_of (pl_by_hash q) h \<noteq> None"
    then obtain u where u: "map_of (pl_by_hash q) h = Some u" by auto
    then have "u \<in> all_txs (pl_transactions q)" "vt_hash vt (transaction u) = h"
      using by_hash_lookup_conv [of vt q h u] q(2) by (auto simp: pool_inv_def)
    then have "u \<in> snd ` set (pl_by_hash p)" "u \<noteq> t" using q(3) p by (auto simp: removes_def pool_inv_def)
    then show False using by_hash_lookup [of vt p u] p Some \<open>vt_hash vt (transaction u) = h\<close> by (simp add: pool_inv_def)
  qed
  then show ?thesis using Some q by (auto simp: removes_def pool_find_def)
qed

theorem remove_correct_witness:
  "\<exists>p'. pool_remove test_vt (dummy_scoring (\<lambda>_. []) False) 1 True sample_pool = Some (Some (sample_tx 1), p') \<and> pool_find 1 p' = None"
  using remove_correct [OF dummy.lawful_scoring_axioms sample_reachable [of "\<lambda>_. []"], where h = 1 and is_invalid = True]
  by (auto simp: options_default_def sample_pool_def Let_def)

text \<open>
  C22. \<^verbatim>\<open>cull\<close>, for the given senders or for all of them, does what \<open>culled\<close> says: every sender loses exactly the
  transactions at its front that the readiness check reports as stale, the others keep their order, the check is asked
  in order and its state is kept from sender to sender; the result is the number of transactions that were removed, and the
  invariant is kept. The readiness check may have any state.
\<close>

theorem cull_correct:
  assumes "lawful_scoring sc" and "pool_reachable vt sc options p" and "0 < max_per_sender options" and "length (pl_by_hash p) < B"
  shows "\<exists>n p'. pool_cull vt sc ready senders st p = Some (n, p') \<and> pool_inv vt sc p' \<and>
    culled ready (case senders of Some ks \<Rightarrow> ks | None \<Rightarrow> map fst (pl_transactions p)) st (\<lambda>k. sender_txs k p) =
      (n, \<lambda>k. sender_txs k p')"
proof -
  have p: "pool_inv vt sc p" using lawful_scoring.pool_reachable_inv [OF assms(1-3)] by auto
  show ?thesis
    using lawful_scoring.cull_senders_spec [OF assms(1) p, of 0 ready "case senders of Some ks \<Rightarrow> ks | None \<Rightarrow> map fst (pl_transactions p)" st]
      assms(4) by (auto simp: pool_cull_def)
qed

theorem cull_correct_witness:
  "\<exists>p'. pool_cull test_vt (dummy_scoring (\<lambda>_. []) False) (\<lambda>st t. (if t_nonce t < 2 then Stale else Ready, st)) None () sample_pool = Some (1, p') \<and>
     map transaction (sender_txs 7 p') = [sample_tx 2]"
proof -
  let ?ready = "\<lambda>st t. (if t_nonce t < 2 then Stale else Ready, st :: unit)"
  obtain n p' where p': "pool_cull test_vt (dummy_scoring (\<lambda>_. []) False) ?ready None () sample_pool = Some (n, p')"
    "culled ?ready (map fst (pl_transactions sample_pool)) () (\<lambda>k. sender_txs k sample_pool) = (n, \<lambda>k. sender_txs k p')"
    using cull_correct [OF dummy.lawful_scoring_axioms sample_reachable [of "\<lambda>_. []"], of ?ready None "()"]
    by (auto simp: options_default_def sample_pool_def Let_def B_eq)
  have s: "sender_txs 7 sample_pool = [\<lparr> insertion_id = 1, transaction = sample_tx 1 \<rparr>, \<lparr> insertion_id = 2, transaction = sample_tx 2 \<rparr>]"
    "map fst (pl_transactions sample_pool) = [7]"
    by (simp_all add: sample_pool_def sender_txs_def Let_def)
  have "leading_stale ?ready () (map transaction (sender_txs 7 sample_pool)) = 1" by (simp add: s leading_stale_def sample_tx_def)
  then have "n = 1" "(\<lambda>k. sender_txs k p') = (\<lambda>k. sender_txs k sample_pool)(7 := drop 1 (sender_txs 7 sample_pool))"
    using p'(2) by (simp_all add: s(2) Let_def) auto
  then show ?thesis using p'(1) fun_cong [of "\<lambda>k. sender_txs k p'" _ 7] by (auto simp: s(1))
qed

text \<open>
  The priority order: in a reachable state \<^verbatim>\<open>senders\<close> lists every sender once, ordered by the
  score of its first transaction (highest first, older transaction first among equals), and
  \<^verbatim>\<open>worst_transaction\<close> is the last transaction of a sender whose score is the lowest of all last ones.
\<close>

theorem priority_order:
  assumes "lawful_scoring sc" and "pool_reachable vt sc options p" and "0 < max_per_sender options"
  shows "sorted_wrt ref_less (pl_best p) \<and> set (pool_senders vt p) = fst ` set (pl_transactions p) \<and>
    (worst_transaction p = None \<longleftrightarrow> pl_transactions p = []) \<and>
    (\<forall>t. worst_transaction p = Some t \<longrightarrow> (\<exists>k ts. (k, ts) \<in> set (pl_transactions p) \<and> t = transaction (last (tx_list ts)) \<and>
       (\<forall>k' ts'. (k', ts') \<in> set (pl_transactions p) \<longrightarrow> last (tx_scores ts) \<le> last (tx_scores ts'))))"
proof -
  have p: "sets_inv vt sc p" using lawful_scoring.pool_reachable_inv [OF assms] by (auto simp: pool_inv_def)
  have b: "set (pl_best p) = best_of ` snd ` set (pl_transactions p)" "set (pl_worst p) = worst_of ` snd ` set (pl_transactions p)"
    "sorted_wrt ref_less (pl_worst p)" "sorted_wrt ref_less (pl_best p)" using p by (simp_all add: sets_inv_def)
  have s: "vt_sender vt (transaction (sr_transaction (best_of ts))) = k" if "(k, ts) \<in> set (pl_transactions p)" for k ts
    using p that best_worst_mem(1) [of ts] by (auto simp: sets_inv_def wf_entry_def)
  have "set (pool_senders vt p) = fst ` set (pl_transactions p)"
    unfolding pool_senders_def set_map b(1) image_image using s by (intro image_cong) auto
  moreover have "worst_transaction p = None \<longleftrightarrow> pl_transactions p = []"
    using b(2) by (auto simp: worst_transaction_def)
  moreover have "\<exists>k ts. (k, ts) \<in> set (pl_transactions p) \<and> t = transaction (last (tx_list ts)) \<and>
       (\<forall>k' ts'. (k', ts') \<in> set (pl_transactions p) \<longrightarrow> last (tx_scores ts) \<le> last (tx_scores ts'))"
    if w: "worst_transaction p = Some t" for t
  proof -
    have ne: "pl_worst p \<noteq> []" "t = transaction (sr_transaction (last (pl_worst p)))"
      using w by (auto simp: worst_transaction_def split: if_splits)
    then have "last (pl_worst p) \<in> set (pl_worst p)" by simp
    then obtain k ts where ts: "(k, ts) \<in> set (pl_transactions p)" "last (pl_worst p) = worst_of ts" using b(2) by auto
    have "last (tx_scores ts) \<le> last (tx_scores ts')" if "(k', ts') \<in> set (pl_transactions p)" for k' ts'
    proof -
      have "worst_of ts' \<in> set (pl_worst p)" using that b(2) by force
      then have "sr_score (worst_of ts) \<le> sr_score (worst_of ts')"
        using sorted_last_max [OF b(3), of "worst_of ts'"] ts(2) by (auto simp: ref_less_def)
      then show ?thesis by (simp add: worst_of_def)
    qed
    then show ?thesis using ts ne(2) by (auto simp: worst_of_def)
  qed
  ultimately show ?thesis using b(4) by blast
qed

theorem priority_order_witness: "set (pool_senders test_vt sample_pool) = {7}"
  using priority_order [OF dummy.lawful_scoring_axioms sample_reachable] by (simp add: options_default_def sample_pool_def Let_def)

text \<open>
  The limit per sender and its gap. A set within the limit stays within it, unless the new
  transaction is exempt from the limit. But the check is \<^verbatim>\<open>index == max_count\<close>: a set that exempt
  transactions have brought above the limit accepts every further transaction at its end, exempt or not.
\<close>

theorem sender_limit:
  assumes "lawful_scoring sc" and "wf_txs sc ts" and "0 < m" and "length (tx_list ts) \<le> m"
    and "wf_txs sc us" and "m < length (tx_list us)" and "\<forall>t \<in> set (tx_list us). in_order sc t new"
  shows "(\<exists>res ts'. txs_add ts new sc m = Some (res, ts') \<and> wf_txs sc ts' \<and>
      (length (tx_list ts') \<le> m \<or> sc_should_ignore_sender_limit sc (transaction new))) \<and>
    (\<exists>us'. txs_add us new sc m = Some (AddOk new, us') \<and> tx_list us' = tx_list us @ [new])"
proof
  show "\<exists>res ts'. txs_add ts new sc m = Some (res, ts') \<and> wf_txs sc ts' \<and>
      (length (tx_list ts') \<le> m \<or> sc_should_ignore_sender_limit sc (transaction new))"
    using lawful_scoring.add_spec [OF assms(1-3)] assms(4) by blast
  let ?f = "\<lambda>old. sc_compare sc (transaction old) (transaction new)"
  have p: "partitioned ?f (tx_list us)"
    using lawful_scoring.sorted_partitioned [OF assms(1)] assms(5) by (simp add: wf_txs_def)
  have "binary_search_by (tx_list us) ?f = Inl (length (tx_list us))"
  proof (cases "binary_search_by (tx_list us) ?f")
    case (Inl i)
    then have "i \<le> length (tx_list us)" "\<forall>j. i \<le> j \<and> j < length (tx_list us) \<longrightarrow> ?f (tx_list us ! j) = Greater"
      using binary_search_by_spec [OF p] by simp_all
    moreover have "?f (tx_list us ! i) = Less" if "i < length (tx_list us)" using assms(7) that by (simp add: in_order_def)
    ultimately have "i = length (tx_list us)" by (metis le_neq_implies_less ordering.distinct(3) order.refl)
    then show ?thesis using Inl by simp
  next
    case (Inr i)
    then have "i < length (tx_list us)" "?f (tx_list us ! i) = Equal" using binary_search_by_spec [OF p] by simp_all
    then show ?thesis using assms(7) by (auto simp: in_order_def)
  qed
  then show "\<exists>us'. txs_add us new sc m = Some (AddOk new, us') \<and> tx_list us' = tx_list us @ [new]"
    using assms(6) by (auto simp: txs_add_def push_cheapest_transaction_def Let_def)
qed

theorem sender_limit_witness:
  "\<exists>us'. txs_add \<lparr> tx_list = [\<lparr> insertion_id = 1, transaction = sample_tx 1 \<rparr>, \<lparr> insertion_id = 2, transaction = sample_tx 2 \<rparr>], tx_scores = [5, 5] \<rparr>
      \<lparr> insertion_id = 3, transaction = sample_tx 3 \<rparr> (dummy_scoring (\<lambda>_. []) False) 1 = Some (AddOk \<lparr> insertion_id = 3, transaction = sample_tx 3 \<rparr>, us')"
  using sender_limit [OF dummy.lawful_scoring_axioms, of "\<lambda>_. []" False txs_default 1
      "\<lparr> tx_list = [\<lparr> insertion_id = 1, transaction = sample_tx 1 \<rparr>, \<lparr> insertion_id = 2, transaction = sample_tx 2 \<rparr>], tx_scores = [5, 5] \<rparr>"
      "\<lparr> insertion_id = 3, transaction = sample_tx 3 \<rparr>"]
  by (auto simp: wf_txs_def txs_default_def in_order_def dummy_scoring_def dummy_compare_def sample_tx_def)

end
