(* ===== verification/Pool_Iter.thy ===== *)
theory Pool_Iter
  imports Pool
begin

text \<open>
  The views of the pool: the iterators over ready transactions (\<^verbatim>\<open>pending\<close>, \<^verbatim>\<open>pending_from_sender\<close>,
  \<^verbatim>\<open>unordered_pending\<close>) and the status counters. An iterator is the list of the transactions it yields.
\<close>

subsection \<open>Iterators and status\<close>

partial_function (option) pending_loop ::
  "('t, 'h, 'k) verified_transaction \<Rightarrow> ('t, 's::linorder, 'e) scoring \<Rightarrow> ('t, 'r) ready \<Rightarrow> ('t, 'h, 'k, 's) pool \<Rightarrow>
   'r \<Rightarrow> ('t, 's) score_with_ref list \<Rightarrow> 't list option" where
  "pending_loop vt sc ready p st best_transactions =
     (case best_transactions of
        [] \<Rightarrow> Some []
      | best # rest \<Rightarrow>
          let tx = transaction (sr_transaction best); (tx_state, st) = ready st tx in
          do {
            rest \<leftarrow> (if tx_state = Ready \<or> tx_state = Stale then
                        (case map_of (pl_transactions p) (vt_sender vt tx) of
                           None \<Rightarrow> Some rest
                         | Some ts \<Rightarrow>
                             do {
                               nxt \<leftarrow> find_next ts tx sc;
                               Some (case nxt of
                                       None \<Rightarrow> rest
                                     | Some (score, tx) \<Rightarrow> bt_insert \<lparr> sr_score = score, sr_transaction = tx \<rparr> rest) })
                      else Some rest);
            txs \<leftarrow> pending_loop vt sc ready p st rest;
            Some (if tx_state = Ready then tx # txs else txs) })"

definition pending ::
  "('t, 'h, 'k) verified_transaction \<Rightarrow> ('t, 's::linorder, 'e) scoring \<Rightarrow> ('t, 'r) ready \<Rightarrow> 'r \<Rightarrow> ('t, 'h, 'k, 's) pool \<Rightarrow> 't list may_panic" where
  "pending vt sc ready st p = pending_loop vt sc ready p st (pl_best p)"

definition pending_from_sender ::
  "('t, 'h, 'k) verified_transaction \<Rightarrow> ('t, 's::linorder, 'e) scoring \<Rightarrow> ('t, 'r) ready \<Rightarrow> 'r \<Rightarrow> 'k \<Rightarrow> ('t, 'h, 'k, 's) pool \<Rightarrow> 't list may_panic" where
  "pending_from_sender vt sc ready st sender p =
     do {
       ends \<leftarrow> (case map_of (pl_transactions p) sender of None \<Rightarrow> Some None | Some ts \<Rightarrow> worst_and_best ts);
       pending_loop vt sc ready p st
         (case ends of None \<Rightarrow> [] | Some (_, best) \<Rightarrow> [\<lparr> sr_score = fst best, sr_transaction = snd best \<rparr>]) }"

fun unordered_sender :: "('t, 'r) ready \<Rightarrow> 'r \<Rightarrow> 't transaction list \<Rightarrow> 't list \<times> 'r" where
  "unordered_sender ready st [] = ([], st)"
| "unordered_sender ready st (tx # txs) =
     (case ready st (transaction tx) of
        (Ready, st) \<Rightarrow> (case unordered_sender ready st txs of (xs, st) \<Rightarrow> (transaction tx # xs, st))
      | (_, st) \<Rightarrow> ([], st))"

fun unordered_senders :: "('t, 'r) ready \<Rightarrow> 'r \<Rightarrow> ('k \<times> ('t, 's) transactions) list \<Rightarrow> 't list" where
  "unordered_senders ready st [] = []"
| "unordered_senders ready st ((k, ts) # senders) =
     (case unordered_sender ready st (txs_iter ts) of (xs, st) \<Rightarrow> xs @ unordered_senders ready st senders)"

definition unordered_pending :: "('t, 'r) ready \<Rightarrow> 'r \<Rightarrow> ('t, 'h, 'k, 's) pool \<Rightarrow> 't list" where
  "unordered_pending ready st p = unordered_senders ready st (pl_transactions p)"

fun status_sender :: "('t, 'r) ready \<Rightarrow> nat \<Rightarrow> nat \<Rightarrow> 't transaction list \<Rightarrow> status \<Rightarrow> 'r \<Rightarrow> (status \<times> 'r) may_panic" where
  "status_sender ready len idx [] status st = Some (status, st)"
| "status_sender ready len idx (tx # txs) status st =
     (case ready st (transaction tx) of
        (Stale, st) \<Rightarrow>
          do { n \<leftarrow> usize_add (st_stalled status) 1; status_sender ready len (idx + 1) txs (status\<lparr> st_stalled := n \<rparr>) st }
      | (Ready, st) \<Rightarrow>
          do { n \<leftarrow> usize_add (st_pending status) 1; status_sender ready len (idx + 1) txs (status\<lparr> st_pending := n \<rparr>) st }
      | (Future, st) \<Rightarrow>
          do {
            d \<leftarrow> usize_sub len idx;
            n \<leftarrow> usize_add (st_future status) d;
            Some (status\<lparr> st_future := n \<rparr>, st) })"

fun status_loop :: "('t, 'r) ready \<Rightarrow> ('k \<times> ('t, 's) transactions) list \<Rightarrow> status \<Rightarrow> 'r \<Rightarrow> status may_panic" where
  "status_loop ready [] status st = Some status"
| "status_loop ready ((k, ts) # senders) status st =
     do {
       (status, st) \<leftarrow> status_sender ready (txs_len ts) 0 (txs_iter ts) status st;
       status_loop ready senders status st }"

definition pool_status :: "('t, 'r) ready \<Rightarrow> 'r \<Rightarrow> ('t, 'h, 'k, 's) pool \<Rightarrow> status may_panic" where
  "pool_status ready st p =
     status_loop ready (pl_transactions p) \<lparr> st_stalled = 0, st_pending = 0, st_future = 0 \<rparr> st"

subsection \<open>The pending iterator\<close>

text \<open>
  What the iterator does with a readiness check that may have a state.  It asks the check about transactions of the pool, one after
  the other; \<open>asks\<close> pairs the entries it takes from its set with the answers, and the ready ones are yielded.
\<close>

definition ref_tx :: "('t, 's) score_with_ref \<Rightarrow> 't" where
  "ref_tx q = transaction (sr_transaction q)"

definition asks :: "('t, 'r) ready \<Rightarrow> 'r \<Rightarrow> ('t, 's) score_with_ref list \<Rightarrow> (('t, 's) score_with_ref \<times> readiness) list" where
  "asks ready st qs = zip qs (answers ready st (map ref_tx qs))"

definition yielded :: "(('t, 's) score_with_ref \<times> readiness) list \<Rightarrow> 't list" where
  "yielded qas = map (\<lambda>(q, _). ref_tx q) (filter (\<lambda>(_, a). a = Ready) qas)"

text \<open>The transactions of a sender in their order, with their scores.\<close>

definition sender_refs :: "'k \<Rightarrow> ('t, 'h, 'k, 's) pool \<Rightarrow> ('t, 's) score_with_ref list" where
  "sender_refs k p = (case map_of (pl_transactions p) k of None \<Rightarrow> [] | Some ts \<Rightarrow> map ref_of (zip (tx_scores ts) (tx_list ts)))"

text \<open>The check was asked about these transactions in their order, up to the first future one or to the end.\<close>

fun follows :: "('a \<times> readiness) list \<Rightarrow> 'a list \<Rightarrow> bool" where
  "follows [] xs = (xs = [])"
| "follows ((q, a) # qas) [] = False"
| "follows ((q, a) # qas) (x # xs) = (q = x \<and> (if a = Future then qas = [] else follows qas xs))"

lemma follows_Nil [simp]: "follows qas [] \<longleftrightarrow> qas = []"
  by (cases qas) auto

text \<open>
  The order across senders: when \<open>q\<close> was taken and the next transaction of another sender is \<open>x\<close>, then \<open>q\<close> comes before \<open>x\<close> in
  the order of the pool (a higher score, or the same score and an older transaction).
\<close>

primrec best_first :: "('t, 'h, 'k) verified_transaction \<Rightarrow> ('t, 's::linorder) score_with_ref list \<Rightarrow> bool" where
  "best_first vt [] \<longleftrightarrow> True"
| "best_first vt (q # qs) \<longleftrightarrow>
     (\<forall>vs x ws. qs = vs @ x # ws \<longrightarrow> (\<forall>y\<in>set (q # vs). vt_sender vt (ref_tx y) \<noteq> vt_sender vt (ref_tx x)) \<longrightarrow> ref_less q x) \<and>
     best_first vt qs"

definition wf_entries :: "('t, 'h, 'k, 's) pool \<Rightarrow> bool" where
  "wf_entries p \<longleftrightarrow> (\<forall>k ts. map_of (pl_transactions p) k = Some ts \<longrightarrow> length (tx_scores ts) = length (tx_list ts))"

lemma sets_wf_entries: "sets_inv vt sc p \<Longrightarrow> wf_entries p"
  by (auto simp: wf_entries_def sets_inv_def wf_entry_def wf_txs_def dest!: map_of_SomeD)

lemma asks_Cons: "asks ready st (q # qs) = (q, fst (ready st (ref_tx q))) # asks ready (snd (ready st (ref_tx q))) qs"
  by (simp add: asks_def)

lemma asks_append: "asks ready st (qs @ rs) = asks ready st qs @ asks ready (asked ready st (map ref_tx qs)) rs"
  by (induction qs arbitrary: st) (simp_all add: asks_Cons, simp add: asks_def)

definition ref_at :: "('t, 's) transactions \<Rightarrow> nat \<Rightarrow> ('t, 's) score_with_ref" where
  "ref_at ts i = ref_of (tx_scores ts ! i, tx_list ts ! i)"

text \<open>The iterator stands at an index of the transactions of some senders.\<close>

definition frontier :: "('k \<rightharpoonup> nat) \<Rightarrow> ('t, 'h, 'k, 's::linorder) pool \<Rightarrow> ('t, 's) score_with_ref list \<Rightarrow> bool" where
  "frontier F p best \<longleftrightarrow> sorted_wrt ref_less best \<and>
     (\<forall>k i. F k = Some i \<longrightarrow> i < length (sender_txs k p)) \<and>
     set best = {ref_at ts i | k ts i. map_of (pl_transactions p) k = Some ts \<and> F k = Some i}"

definition left_over :: "('k \<rightharpoonup> nat) \<Rightarrow> ('t, 'h, 'k, 's) pool \<Rightarrow> nat" where
  "left_over F p = (\<Sum>(k, ts) \<leftarrow> pl_transactions p. case F k of None \<Rightarrow> 0 | Some i \<Rightarrow> length (tx_list ts) - i)"


lemma sum_list_decr:
  fixes g h :: "'a \<Rightarrow> nat"
  assumes "\<And>x. x \<in> set xs \<Longrightarrow> g x \<le> h x" "x \<in> set xs" "g x < h x"
  shows "sum_list (map g xs) < sum_list (map h xs)"
  using assms
proof (induction xs)
  case (Cons y ys)
  have "sum_list (map g ys) \<le> sum_list (map h ys)" using Cons.prems(1) by (intro sum_list_mono) simp
  moreover have "g y \<le> h y" using Cons.prems(1) by simp
  moreover have "g y < h y \<or> sum_list (map g ys) < sum_list (map h ys)" using Cons by (cases "x = y") auto
  ultimately show ?case by auto
qed simp

lemma frontier_index:
  "frontier F p best \<Longrightarrow> map_of (pl_transactions p) k = Some ts \<Longrightarrow> F k = Some i \<Longrightarrow> i < length (tx_list ts)"
  unfolding frontier_def sender_txs_def by fastforce

lemma frontier_member:
  "frontier F p best \<Longrightarrow> x \<in> set best \<Longrightarrow> \<exists>k ts i. x = ref_at ts i \<and> map_of (pl_transactions p) k = Some ts \<and> F k = Some i"
  unfolding frontier_def by blast

context lawful_scoring
begin

lemma ref_at_inj:
  assumes inv: "sets_inv vt sc p" and k: "map_of (pl_transactions p) k = Some ts" "map_of (pl_transactions p) k' = Some ts'"
    and i: "i < length (tx_list ts)" "j < length (tx_list ts')" and eq: "ref_eq (ref_at ts i) (ref_at ts' j)"
  shows "k = k' \<and> i = j"
proof -
  have e: "wf_entry vt sc k ts" "wf_entry vt sc k' ts'"
    using inv map_of_SomeD [OF k(1)] map_of_SomeD [OF k(2)] by (auto simp: sets_inv_def)
  have "tx_list ts ! i \<in> all_txs (pl_transactions p)" "tx_list ts' ! j \<in> all_txs (pl_transactions p)"
    using map_of_SomeD [OF k(1)] map_of_SomeD [OF k(2)] i by (force simp: all_txs_def)+
  then have t: "tx_list ts ! i = tx_list ts' ! j"
    using inv eq by (auto simp: sets_inv_def unique_txs_def ref_eq_def ref_at_def dest: inj_onD)
  have "vt_sender vt (transaction (tx_list ts ! i)) = k" "vt_sender vt (transaction (tx_list ts' ! j)) = k'"
    using e i by (simp_all add: wf_entry_def)
  then have "k = k'" using t by simp
  moreover have "distinct (tx_list ts)" using e(1) sorted_distinct by (auto simp: wf_entry_def wf_txs_def)
  ultimately show ?thesis using t k i by (auto simp: nth_eq_iff_index_eq)
qed

lemma frontier_pop:
  assumes inv: "sets_inv vt sc p" and f: "frontier F p (best # rest)"
  shows "\<exists>k ts i. map_of (pl_transactions p) k = Some ts \<and> F k = Some i \<and> i < length (tx_list ts) \<and> best = ref_at ts i \<and>
    frontier (F(k := None)) p rest"
proof -
  obtain k ts i where b: "best = ref_at ts i" "map_of (pl_transactions p) k = Some ts" "F k = Some i"
    using frontier_member [OF f, of best] by auto
  then have i: "i < length (tx_list ts)" using frontier_index [OF f] by blast
  let ?S = "\<lambda>F. {ref_at ts i | k ts i. map_of (pl_transactions p) k = Some ts \<and> F k = Some i}"
  have s: "sorted_wrt ref_less (best # rest)" "set (best # rest) = ?S F" using f by (simp_all add: frontier_def)
  have "best \<notin> set rest" using s(1) ref_eq_less(2) by auto
  then have "set rest = ?S F - {best}" using s(2) by auto
  also have "\<dots> = ?S (F(k := None))"
  proof
    show "?S F - {best} \<subseteq> ?S (F(k := None))"
    proof
      fix y
      assume "y \<in> ?S F - {best}"
      then obtain k' ts' j where y: "y = ref_at ts' j" "map_of (pl_transactions p) k' = Some ts'" "F k' = Some j" "y \<noteq> best" by auto
      then have "k' \<noteq> k" using b by auto
      then show "y \<in> ?S (F(k := None))" using y by (intro CollectI exI [of _ k'] exI [of _ ts'] exI [of _ j]) simp
    qed
    show "?S (F(k := None)) \<subseteq> ?S F - {best}"
    proof
      fix y
      assume "y \<in> ?S (F(k := None))"
      then obtain k' ts' j where y: "y = ref_at ts' j" "map_of (pl_transactions p) k' = Some ts'" "F k' = Some j" "k' \<noteq> k"
        by (auto split: if_splits)
      then have "j < length (tx_list ts')" using frontier_index [OF f] by blast
      then have "y \<noteq> best" using ref_at_inj [OF inv b(2) y(2) i] y(1,4) b(1) ref_eq_less(3) by metis
      then show "y \<in> ?S F - {best}" using y by blast
    qed
  qed
  finally have "frontier (F(k := None)) p rest" using f s(1) by (simp add: frontier_def)
  then show ?thesis using b i by blast
qed

lemma frontier_push:
  assumes inv: "sets_inv vt sc p" and f: "frontier F p rest" "F k = None"
    and k: "map_of (pl_transactions p) k = Some ts" "i < length (tx_list ts)"
  shows "frontier (F(k := Some i)) p (bt_insert (ref_at ts i) rest)"
proof -
  let ?S = "\<lambda>F. {ref_at ts i | k ts i. map_of (pl_transactions p) k = Some ts \<and> F k = Some i}"
  have "refs_apart (ref_at ts i) (?S F)"
    unfolding refs_apart_def
  proof
    fix y
    assume "y \<in> ?S F"
    then obtain k' ts' j where y: "y = ref_at ts' j" "map_of (pl_transactions p) k' = Some ts'" "F k' = Some j" by auto
    then have "j < length (tx_list ts')" "k' \<noteq> k" using frontier_index [OF f(1)] f(2) by auto
    then show "\<not> ref_eq (ref_at ts i) y" using ref_at_inj [OF inv k(1) y(2) k(2)] y(1) by blast
  qed
  then have c: "sorted_wrt ref_less (bt_insert (ref_at ts i) rest) \<and> set (bt_insert (ref_at ts i) rest) = insert (ref_at ts i) (?S F)"
    using f(1) by (intro collection_insert) (simp_all add: frontier_def)
  have "insert (ref_at ts i) (?S F) = ?S (F(k := Some i))"
    using f(2) k(1) by (auto split: if_splits) (metis option.distinct(1))
  then show ?thesis using c f(1) k by (auto simp: frontier_def sender_txs_def)
qed

lemma left_over_less:
  assumes "map_of (pl_transactions p) k = Some ts" "F k = Some i" "i < length (tx_list ts)" "distinct (map fst (pl_transactions p))"
    and "G = None \<or> G = Some (Suc i)"
  shows "left_over (F(k := G)) p < left_over F p"
  unfolding left_over_def
proof (rule sum_list_decr [of _ _ _ "(k, ts)"])
  show "(k, ts) \<in> set (pl_transactions p)" using assms(1) by (rule map_of_SomeD)
  show "(case (k, ts) of (k', ts) \<Rightarrow> case (F(k := G)) k' of None \<Rightarrow> 0 | Some i \<Rightarrow> length (tx_list ts) - i)
      < (case (k, ts) of (k', ts) \<Rightarrow> case F k' of None \<Rightarrow> 0 | Some i \<Rightarrow> length (tx_list ts) - i)"
    using assms by auto
qed (use assms(2,5) in \<open>auto split: option.splits if_splits\<close>)

lemma frontier_Nil:
  assumes "frontier F p []"
  shows "F k = None"
proof (cases "F k")
  case (Some i)
  then have "i < length (sender_txs k p)" using assms by (simp add: frontier_def)
  then obtain ts where "map_of (pl_transactions p) k = Some ts" by (cases "map_of (pl_transactions p) k") (auto simp: sender_txs_def)
  then have "ref_at ts i \<in> set []" using assms Some unfolding frontier_def by blast
  then show ?thesis by simp
qed

lemma pending_step:
  assumes inv: "sets_inv vt sc p" and f: "frontier F p (b # rest)" and a: "ready st (ref_tx b) = (a, st')"
  shows "\<exists>k ts i G rest'. map_of (pl_transactions p) k = Some ts \<and> F k = Some i \<and> i < length (tx_list ts) \<and> b = ref_at ts i \<and>
    vt_sender vt (ref_tx b) = k \<and> G = (if a = Future \<or> length (tx_list ts) \<le> Suc i then None else Some (Suc i)) \<and>
    frontier (F(k := G)) p rest' \<and> left_over (F(k := G)) p < left_over F p \<and>
    pending_loop vt sc ready p st (b # rest) =
      map_option (\<lambda>xs. if a = Ready then ref_tx b # xs else xs) (pending_loop vt sc ready p st' rest')"
proof -
  obtain k ts i where b: "map_of (pl_transactions p) k = Some ts" "F k = Some i" "i < length (tx_list ts)" "b = ref_at ts i"
    "frontier (F(k := None)) p rest"
    using frontier_pop [OF inv f] by blast
  have e: "wf_entry vt sc k ts" using inv map_of_SomeD [OF b(1)] by (auto simp: sets_inv_def)
  have d: "distinct (map fst (pl_transactions p))" using inv by (simp add: sets_inv_def)
  have t: "ref_tx b = transaction (tx_list ts ! i)" "vt_sender vt (ref_tx b) = k"
    using b e by (simp_all add: ref_tx_def ref_at_def wf_entry_def)
  define G where "G = (if a = Future \<or> length (tx_list ts) \<le> Suc i then None else Some (Suc i))"
  define rest' where "rest' = (case G of None \<Rightarrow> rest | Some j \<Rightarrow> bt_insert (ref_at ts j) rest)"
  have fr: "frontier (F(k := G)) p rest'"
    using frontier_push [OF inv b(5) _ b(1), of "Suc i"] b(5) by (auto simp: rest'_def G_def)
  have less: "left_over (F(k := G)) p < left_over F p" using left_over_less [of p k ts F i G] b(1,2,3) d by (simp add: G_def)
  have fn: "find_next ts (ref_tx b) sc = Some (if Suc i < length (tx_list ts) then Some (tx_scores ts ! Suc i, tx_list ts ! Suc i) else None)"
    using find_next_spec [of ts i] e b(3) t(1) by (simp add: wf_entry_def)
  have "pending_loop vt sc ready p st (b # rest) =
      map_option (\<lambda>xs. if a = Ready then ref_tx b # xs else xs) (pending_loop vt sc ready p st' rest')"
    by (subst pending_loop.simps)
       (use a b(1) t(2) fn in \<open>cases a; cases "pending_loop vt sc ready p st' rest'";
          auto simp: Let_def rest'_def G_def ref_at_def ref_of_def not_less ref_tx_def split: if_splits\<close>)
  then show ?thesis using b t(2) fr less G_def by blast
qed

lemma follows_step:
  assumes "wf_entry vt sc k ts" "map_of (pl_transactions p) k = Some ts" "i < length (tx_list ts)"
    and "follows qas (case if a = Future \<or> length (tx_list ts) \<le> Suc i then None else Some (Suc i) of None \<Rightarrow> [] | Some j \<Rightarrow> drop j (sender_refs k p))"
  shows "follows ((ref_at ts i, a) # qas) (drop i (sender_refs k p))"
proof -
  have l: "length (tx_scores ts) = length (tx_list ts)" using assms(1) by (simp add: wf_entry_def wf_txs_def)
  then have i: "i < length (sender_refs k p)" using assms(2,3) by (simp add: sender_refs_def)
  have n: "sender_refs k p ! i = ref_at ts i" using assms(2,3) l by (simp add: sender_refs_def ref_at_def)
  have d: "drop i (sender_refs k p) = ref_at ts i # drop (Suc i) (sender_refs k p)" using Cons_nth_drop_Suc [OF i] n by simp
  have "drop (Suc i) (sender_refs k p) = []" if "length (tx_list ts) \<le> Suc i" using that assms(2) l by (simp add: sender_refs_def)
  then show ?thesis unfolding d using assms(4) by (auto split: if_splits)
qed

text \<open>The next transaction of another sender was in the set the iterator chose the best of.\<close>

lemma first_of_sender:
  assumes "frontier F p (b # rest)" "qs = vs @ x # ws" "\<forall>y\<in>set (b # vs). vt_sender vt (ref_tx y) \<noteq> vt_sender vt (ref_tx x)"
    and "wf_entries p" "vt_sender vt (ref_tx b) = k"
    and f: "follows (filter (\<lambda>(q, _). vt_sender vt (ref_tx q) = vt_sender vt (ref_tx x)) (asks ready st qs))
      (case (F(k := G)) (vt_sender vt (ref_tx x)) of None \<Rightarrow> [] | Some j \<Rightarrow> drop j (sender_refs (vt_sender vt (ref_tx x)) p))"
  shows "ref_less b x"
proof -
  let ?j = "vt_sender vt (ref_tx x)"
  have "asks ready st qs = asks ready st vs @ asks ready (asked ready st (map ref_tx vs)) (x # ws)"
    unfolding assms(2) by (rule asks_append)
  moreover have "filter (\<lambda>(q, _). vt_sender vt (ref_tx q) = ?j) (asks ready st vs) = []"
    using assms(3) by (auto simp: filter_empty_conv asks_def dest!: set_zip_leftD)
  ultimately obtain a us where "filter (\<lambda>(q, _). vt_sender vt (ref_tx q) = ?j) (asks ready st qs) = (x, a) # us"
    by (auto simp: asks_Cons)
  moreover have "?j \<noteq> k" using assms(3,5) by auto
  ultimately obtain i where i: "F ?j = Some i" "\<exists>ys. drop i (sender_refs ?j p) = x # ys"
    using f by (cases "F ?j"; cases "drop (the (F ?j)) (sender_refs ?j p)") auto
  then obtain ys where ys: "drop i (sender_refs ?j p) = x # ys" by blast
  then have l: "i < length (sender_refs ?j p)" "sender_refs ?j p ! i = x"
    by (metis drop_all list.distinct(1) not_le_imp_less) (metis Cons_nth_drop_Suc drop_all list.distinct(1) list.inject not_le_imp_less ys)
  then obtain ts where ts: "map_of (pl_transactions p) ?j = Some ts" by (cases "map_of (pl_transactions p) ?j") (auto simp: sender_refs_def)
  then have "x = ref_at ts i" using l assms(4) by (simp add: sender_refs_def ref_at_def)
  then have "x \<in> set (b # rest)" using assms(1) ts i(1) unfolding frontier_def by blast
  moreover have "x \<noteq> b" using assms(3) by auto
  ultimately show ?thesis using assms(1) by (auto simp: frontier_def)
qed

lemma pending_loop_spec:
  assumes inv: "sets_inv vt sc p" and "frontier F p best"
  shows "\<exists>qs. pending_loop vt sc ready p st best = Some (yielded (asks ready st qs)) \<and>
    (\<forall>k. follows (filter (\<lambda>(q, _). vt_sender vt (ref_tx q) = k) (asks ready st qs))
       (case F k of None \<Rightarrow> [] | Some i \<Rightarrow> drop i (sender_refs k p))) \<and> best_first vt qs"
  using assms(2)
proof (induction "left_over F p" arbitrary: F best st rule: less_induct)
  case less
  show ?case
  proof (cases best)
    case Nil
    have "F k = None" for k by (rule frontier_Nil [OF less.prems [unfolded Nil]])
    then show ?thesis using Nil by (intro exI [of _ "[]"]) (subst pending_loop.simps, simp add: asks_def yielded_def)
  next
    case (Cons b rest)
    obtain a st' where a: "ready st (ref_tx b) = (a, st')" by force
    obtain k ts i G rest' where b: "map_of (pl_transactions p) k = Some ts" "F k = Some i" "i < length (tx_list ts)" "b = ref_at ts i"
      "vt_sender vt (ref_tx b) = k" and G: "G = (if a = Future \<or> length (tx_list ts) \<le> Suc i then None else Some (Suc i))"
      and fr: "frontier (F(k := G)) p rest'" "left_over (F(k := G)) p < left_over F p"
      and l: "pending_loop vt sc ready p st (b # rest) = map_option (\<lambda>xs. if a = Ready then ref_tx b # xs else xs) (pending_loop vt sc ready p st' rest')"
      using pending_step [where ready = ready, OF inv less.prems [unfolded Cons] a] by blast
    obtain qs where qs: "pending_loop vt sc ready p st' rest' = Some (yielded (asks ready st' qs))"
      "\<And>k'. follows (filter (\<lambda>(q, _). vt_sender vt (ref_tx q) = k') (asks ready st' qs))
         (case (F(k := G)) k' of None \<Rightarrow> [] | Some i \<Rightarrow> drop i (sender_refs k' p))" "best_first vt qs"
      using less.hyps [OF fr(2,1)] by blast
    have e: "wf_entry vt sc k ts" using inv map_of_SomeD [OF b(1)] by (auto simp: sets_inv_def)
    have as: "asks ready st (b # qs) = (b, a) # asks ready st' qs" using a by (simp add: asks_Cons)
    have "pending_loop vt sc ready p st best = Some (yielded (asks ready st (b # qs)))"
      using l qs(1) by (simp add: Cons as yielded_def)
    moreover have "follows (filter (\<lambda>(q, _). vt_sender vt (ref_tx q) = k') (asks ready st (b # qs)))
        (case F k' of None \<Rightarrow> [] | Some i \<Rightarrow> drop i (sender_refs k' p))" for k'
    proof (cases "k' = k")
      case True
      then show ?thesis using follows_step [OF e b(1,3), of _ a] qs(2) [of k] b(2,4,5) G unfolding as by simp
    next
      case False
      then show ?thesis using qs(2) [of k'] b(5) unfolding as by simp
    qed
    moreover have "best_first vt (b # qs)"
      unfolding best_first.simps
      using qs(3) first_of_sender [OF less.prems [unfolded Cons] _ _ sets_wf_entries [OF inv] b(5) qs(2)] by blast
    ultimately show ?thesis by blast
  qed
qed

end


lemma frontier_start:
  assumes "sets_inv vt sc p"
  shows "frontier (\<lambda>k. map_option (\<lambda>_. 0) (map_of (pl_transactions p) k)) p (pl_best p)"
proof -
  have d: "distinct (map fst (pl_transactions p))" and e: "\<And>k ts. (k, ts) \<in> set (pl_transactions p) \<Longrightarrow> wf_entry vt sc k ts \<and> tx_list ts \<noteq> []"
    using assms by (auto simp: sets_inv_def)
  have r: "ref_at ts 0 = best_of ts" if "(k, ts) \<in> set (pl_transactions p)" for k ts
  proof -
    have "tx_list ts \<noteq> []" "tx_scores ts \<noteq> []" using e [OF that] by (auto simp: wf_entry_def wf_txs_def)
    then show ?thesis by (simp add: ref_at_def best_of_def hd_conv_nth)
  qed
  have "best_of ` snd ` set (pl_transactions p) = {ref_at ts 0 | k ts. (k, ts) \<in> set (pl_transactions p)}"
    using r by force
  then have "set (pl_best p) = {ref_at ts i | k ts i. map_of (pl_transactions p) k = Some ts \<and> map_option (\<lambda>_. 0) (map_of (pl_transactions p) k) = Some i}"
  proof -
    have "{ref_at ts i | k ts i. map_of (pl_transactions p) k = Some ts \<and> map_option (\<lambda>_. 0) (map_of (pl_transactions p) k) = Some i}
        = {ref_at ts 0 | k ts. map_of (pl_transactions p) k = Some ts}"
      by (rule set_eqI, rule iffI) (fastforce, blast intro: option.map(2))
    then show ?thesis using assms \<open>best_of ` snd ` set (pl_transactions p) = _\<close> by (simp add: sets_inv_def map_of_eq_Some_iff [OF d])
  qed
  moreover have "0 < length (sender_txs k p)" if "map_of (pl_transactions p) k = Some ts" for k ts
    using e map_of_SomeD [OF that] that by (auto simp: sender_txs_def)
  ultimately show ?thesis using assms by (auto simp: frontier_def sets_inv_def)
qed

lemma frontier_single:
  assumes "sets_inv vt sc p" "map_of (pl_transactions p) k = Some ts"
  shows "frontier [k \<mapsto> 0] p [best_of ts]"
proof -
  have "wf_entry vt sc k ts \<and> tx_list ts \<noteq> []" using assms map_of_SomeD [OF assms(2)] by (auto simp: sets_inv_def)
  then have "ref_at ts 0 = best_of ts" "0 < length (tx_list ts)"
    by (auto simp: ref_at_def best_of_def hd_conv_nth wf_entry_def wf_txs_def) (metis hd_conv_nth length_0_conv)
  then show ?thesis using assms(2) by (auto simp: frontier_def sender_txs_def)
qed

subsection \<open>Properties\<close>

text \<open>
  C21. The pending iterators, for any readiness check and any state of it: in a reachable state \<^verbatim>\<open>pending\<close> ends. It asks the check,
  with its state passed on, about the transactions of each sender in their order up to the first future one or the last one, and
  yields exactly those that are ready, so stale ones are skipped and a future one hides those behind it. Across senders it always takes the
  best of their next transactions. \<^verbatim>\<open>pending_from_sender\<close> does the same for one sender.
\<close>

theorem pending_correct:
  assumes "lawful_scoring sc" and "pool_reachable vt sc options p" and "0 < max_per_sender options"
  shows "(\<exists>qs. pending vt sc ready st p = Some (yielded (asks ready st qs)) \<and>
      (\<forall>k. follows (filter (\<lambda>(q, _). vt_sender vt (ref_tx q) = k) (asks ready st qs)) (sender_refs k p)) \<and> best_first vt qs) \<and>
    (\<exists>qs. pending_from_sender vt sc ready st k p = Some (yielded (asks ready st qs)) \<and> follows (asks ready st qs) (sender_refs k p))"
proof
  have p: "sets_inv vt sc p" using lawful_scoring.pool_reachable_inv [OF assms] by (auto simp: pool_inv_def)
  note loop = lawful_scoring.pending_loop_spec [OF assms(1) p, where ready = ready and st = st]
  have "(case map_option (\<lambda>_. 0) (map_of (pl_transactions p) k) of None \<Rightarrow> [] | Some i \<Rightarrow> drop i (sender_refs k p)) = sender_refs k p" for k
    by (cases "map_of (pl_transactions p) k") (simp_all add: sender_refs_def)
  then show "\<exists>qs. pending vt sc ready st p = Some (yielded (asks ready st qs)) \<and>
      (\<forall>k. follows (filter (\<lambda>(q, _). vt_sender vt (ref_tx q) = k) (asks ready st qs)) (sender_refs k p)) \<and> best_first vt qs"
    using loop [OF frontier_start [OF p]] by (simp add: pending_def)
  show "\<exists>qs. pending_from_sender vt sc ready st k p = Some (yielded (asks ready st qs)) \<and> follows (asks ready st qs) (sender_refs k p)"
  proof (cases "map_of (pl_transactions p) k")
    case None
    have "pending_loop vt sc ready p st [] = Some []" by (subst pending_loop.simps) simp
    then show ?thesis using None by (intro exI [of _ "[]"]) (simp add: pending_from_sender_def sender_refs_def asks_def yielded_def)
  next
    case (Some ts)
    have e: "wf_txs sc ts" "tx_list ts \<noteq> []" using p map_of_SomeD [OF Some] by (auto simp: sets_inv_def wf_entry_def)
    obtain qs where qs: "pending_loop vt sc ready p st [best_of ts] = Some (yielded (asks ready st qs))"
      "\<And>k'. follows (filter (\<lambda>(q, _). vt_sender vt (ref_tx q) = k') (asks ready st qs))
         (case [k \<mapsto> 0] k' of None \<Rightarrow> [] | Some i \<Rightarrow> drop i (sender_refs k' p))"
      using loop [OF frontier_single [OF p Some]] by blast
    have "vt_sender vt (ref_tx q) = k" if "(q, a) \<in> set (asks ready st qs)" for q a
    proof (rule ccontr)
      assume "vt_sender vt (ref_tx q) \<noteq> k"
      then have "follows (filter (\<lambda>(q', _). vt_sender vt (ref_tx q') = vt_sender vt (ref_tx q)) (asks ready st qs)) []"
        using qs(2) [of "vt_sender vt (ref_tx q)"] by simp
      then show False using that by (auto simp: filter_empty_conv)
    qed
    then have "filter (\<lambda>(q, _). vt_sender vt (ref_tx q) = k) (asks ready st qs) = asks ready st qs"
      by (auto simp: filter_id_conv)
    moreover have "pending_from_sender vt sc ready st k p = Some (yielded (asks ready st qs))"
      using Some qs(1) e worst_and_best_ends [OF e(1)] by (simp add: pending_from_sender_def ends_def best_of_def ref_of_def)
    ultimately show ?thesis using qs(2) [of k] by auto
  qed
qed

text \<open>The readiness check of the tests, which counts the nonces of each sender up from a minimum.\<close>

definition nonce_ready :: "(test_tx, (nat \<rightharpoonup> nat) \<times> nat) ready" where
  "nonce_ready self tx =
     (let (m, min) = self; nonce = (case m (t_sender tx) of Some n \<Rightarrow> n | None \<Rightarrow> min); m = m(t_sender tx \<mapsto> nonce) in
      if t_nonce tx > nonce then (Future, (m, min))
      else if t_nonce tx = nonce then (Ready, (m(t_sender tx \<mapsto> nonce + 1), min))
      else (Stale, (m, min)))"

theorem pending_correct_witness:
  "pending_from_sender test_vt (dummy_scoring (\<lambda>_. []) False) nonce_ready (Map.empty, 1) 7 sample_pool = Some [sample_tx 1, sample_tx 2] \<and>
   pending_from_sender test_vt (dummy_scoring (\<lambda>_. []) False) nonce_ready (Map.empty, 2) 7 sample_pool = Some [sample_tx 2]"
proof -
  define a :: "(test_tx, nat) score_with_ref" where "a = \<lparr> sr_score = 5, sr_transaction = \<lparr> insertion_id = 1, transaction = sample_tx 1 \<rparr> \<rparr>"
  define b :: "(test_tx, nat) score_with_ref" where "b = \<lparr> sr_score = 5, sr_transaction = \<lparr> insertion_id = 2, transaction = sample_tx 2 \<rparr> \<rparr>"
  have refs: "sender_refs 7 sample_pool = [a, b]" by (simp add: sender_refs_def sample_pool_def Let_def a_def b_def ref_of_def)
  have tx: "ref_tx a = sample_tx 1" "ref_tx b = sample_tx 2" by (simp_all add: a_def b_def ref_tx_def)
  have run: "\<exists>qs. pending_from_sender test_vt (dummy_scoring (\<lambda>_. []) False) nonce_ready st 7 sample_pool = Some (yielded (asks nonce_ready st qs)) \<and>
      follows (asks nonce_ready st qs) [a, b]" for st
    using pending_correct [OF dummy.lawful_scoring_axioms sample_reachable [of "\<lambda>_. []"], of nonce_ready st 7, THEN conjunct2] refs
    by (simp add: options_default_def)
  have n: "fst (nonce_ready (m, k) t) \<noteq> Future" if "t_nonce t \<le> (case m (t_sender t) of Some n \<Rightarrow> n | None \<Rightarrow> k)" for m k t
    using that by (simp add: nonce_ready_def Let_def)
  have two: "qs = [a, b]" if f: "follows (asks nonce_ready st qs) [a, b]" and st: "st = (Map.empty, 1) \<or> st = (Map.empty, 2)" for qs st
  proof -
    obtain q qs' where q: "qs = q # qs'" using f by (cases qs) (auto simp: asks_def)
    obtain q' qs'' where q': "qs' = q' # qs''"
      using f st by (cases qs') (auto simp: q asks_Cons asks_def nonce_ready_def Let_def tx sample_tx_def split: if_splits)
    show ?thesis using f st by (cases qs'') (auto simp: q q' asks_Cons asks_def nonce_ready_def Let_def tx sample_tx_def split: if_splits)
  qed
  have "yielded (asks nonce_ready (Map.empty, 1) [a, b]) = [sample_tx 1, sample_tx 2]" "yielded (asks nonce_ready (Map.empty, 2) [a, b]) = [sample_tx 2]"
    by (simp_all add: yielded_def asks_Cons nonce_ready_def Let_def tx) (simp_all add: asks_def sample_tx_def tx)
  then show ?thesis using run [of "(Map.empty, 1)"] run [of "(Map.empty, 2)"] two by metis
qed

text \<open>
  \<^verbatim>\<open>unordered_pending\<close> yields less than \<^verbatim>\<open>pending\<close>: of each sender it yields the ready transactions
  before the first one that is not ready, so a stale transaction hides the ready ones behind it,
  which \<^verbatim>\<open>pending\<close> yields.
\<close>

theorem unordered_pending_result:
  fixes p :: "('t, 'h, 'k, 's) pool"
  shows "unordered_pending (\<lambda>st t. (r t, st)) st p =
     concat (map (\<lambda>(k, ts). takeWhile (\<lambda>t. r t = Ready) (map transaction (tx_list ts))) (pl_transactions p)) \<and>
   unordered_pending (\<lambda>st t. (if t_nonce t < 2 then Stale else Ready, st)) () sample_pool = [] \<and>
   pending test_vt (dummy_scoring lower_hex False) (\<lambda>st t. (if t_nonce t < 2 then Stale else Ready, st)) () sample_pool = Some [sample_tx 2]"
proof (intro conjI)
  have s: "unordered_sender (\<lambda>st t. (r t, st)) st txs = (takeWhile (\<lambda>t. r t = Ready) (map transaction txs), st)" for txs
    by (induction txs) (auto split: readiness.split)
  have "unordered_senders (\<lambda>st t. (r t, st)) st al =
      concat (map (\<lambda>(k, ts). takeWhile (\<lambda>t. r t = Ready) (map transaction (tx_list ts))) al)" for al :: "('k \<times> ('t, 's) transactions) list"
    by (induction al) (auto simp: s txs_iter_def)
  then show "unordered_pending (\<lambda>st t. (r t, st)) st p =
     concat (map (\<lambda>(k, ts). takeWhile (\<lambda>t. r t = Ready) (map transaction (tx_list ts))) (pl_transactions p))"
    by (simp add: unordered_pending_def)
  show "unordered_pending (\<lambda>st t. (if t_nonce t < 2 then Stale else Ready, st)) () sample_pool = []"
    by (simp add: unordered_pending_def sample_pool_def Let_def txs_iter_def sample_tx_def)
  show "pending test_vt (dummy_scoring lower_hex False) (\<lambda>st t. (if t_nonce t < 2 then Stale else Ready, st)) () sample_pool = Some [sample_tx 2]"
    unfolding pending_def sample_pool_def
    by (simp add: pending_loop.simps Let_def sample_tx_def test_vt_def find_next_def dummy_scoring_def dummy_compare_def
        binary_search_by_def search_base.simps cmp_of_def index_at_def)
qed

end
