(* ===== verification/Uint_Core.thy ===== *)
theory Uint_Core
  imports Prelude
begin

text \<open>
  The integer type that \<^verbatim>\<open>construct_uint!\<close> builds (\<^verbatim>\<open>uint/src/uint.rs\<close>): a little-endian
  array of \<open>n\<close> 64-bit words. The macro argument \<^verbatim>\<open>$n_words\<close> is the length of the
  word list, and an explicit parameter \<open>n\<close> where a function has no \<^verbatim>\<open>self\<close>. This theory holds
  the conversions from and to machine integers, the bit queries, the comparison, the bitwise
  operators and the shifts, each with the number (\<^const>\<open>lval\<close>) it computes.
\<close>

type_synonym uint = "u64 list"

subsection \<open>Construction and conversion\<close>

definition uint_zero :: "nat \<Rightarrow> uint" where
  "uint_zero n = replicate n 0"

definition uint_default :: "nat \<Rightarrow> uint" where
  "uint_default n = uint_zero n"

definition uint_from_u64 :: "nat \<Rightarrow> u64 \<Rightarrow> uint" where
  "uint_from_u64 n value = (replicate n 0)[0 := value]"

definition uint_from_u128 :: "nat \<Rightarrow> u128 \<Rightarrow> uint" where
  "uint_from_u128 n value = (replicate n 0)[0 := ucast value, 1 := ucast (drop_bit 64 value)]"

definition uint_from_i64 :: "nat \<Rightarrow> 64 word \<Rightarrow> uint may_panic" where
  "uint_from_i64 n value = (if 0 \<le> sint value then Some (uint_from_u64 n value) else panic)"

definition uint_from_i128 :: "nat \<Rightarrow> 128 word \<Rightarrow> uint may_panic" where
  "uint_from_i128 n value = (if 0 \<le> sint value then Some (uint_from_u128 n value) else panic)"

definition uint_one :: "nat \<Rightarrow> uint" where
  "uint_one n = uint_from_u64 n 1"

definition uint_MAX :: "nat \<Rightarrow> uint" where
  "uint_MAX n = replicate n (- 1)"

definition uint_max_value :: "nat \<Rightarrow> uint" where
  "uint_max_value n = fold (\<lambda>i result. result[i := - 1]) [0..<n] (replicate n 0)"

definition uint_is_zero :: "uint \<Rightarrow> bool" where
  "uint_is_zero arr = list_all (\<lambda>w. w = 0) arr"

definition uint_fits_word :: "uint \<Rightarrow> bool" where
  "uint_fits_word arr = list_all (\<lambda>w. w = 0) (drop 1 arr)"

definition uint_low_u32 :: "uint \<Rightarrow> u32" where
  "uint_low_u32 arr = ucast (arr ! 0)"

definition uint_low_u64 :: "uint \<Rightarrow> u64" where
  "uint_low_u64 arr = arr ! 0"

definition uint_as_u64 :: "uint \<Rightarrow> u64 may_panic" where
  "uint_as_u64 arr = (if \<not> uint_fits_word arr then panic else Some (arr ! 0))"

definition uint_as_u32 :: "uint \<Rightarrow> u32 may_panic" where
  "uint_as_u32 arr =
     (if \<not> uint_fits_word arr \<or> arr ! 0 > 0xFFFFFFFF then panic
      else do { w \<leftarrow> uint_as_u64 arr; Some (ucast w) })"

text \<open>\<^verbatim>\<open>usize\<close> has 64 bits on the targets considered; it is read as a natural number.\<close>

definition uint_as_usize :: "uint \<Rightarrow> nat may_panic" where
  "uint_as_usize arr =
     (if \<not> uint_fits_word arr \<or> arr ! 0 > - 1 then panic else Some (unat (arr ! 0)))"

definition uint_low_u128 :: "uint \<Rightarrow> u128" where
  "uint_low_u128 arr = push_bit 64 (ucast (arr ! 1)) + ucast (arr ! 0)"

definition uint_as_u128 :: "uint \<Rightarrow> u128 may_panic" where
  "uint_as_u128 arr =
     (if list_ex (\<lambda>i. arr ! i \<noteq> 0) [2..<length arr] then panic else Some (uint_low_u128 arr))"

definition uint_try_into_u128 :: "uint \<Rightarrow> string + u128" where
  "uint_try_into_u128 arr =
     (if list_ex (\<lambda>i. arr ! i \<noteq> 0) [2..<length arr]
      then Inl ''integer overflow when casting to u128''
      else Inr (push_bit 64 (ucast (arr ! 1)) + ucast (arr ! 0)))"

definition uint_try_into_i128 :: "uint \<Rightarrow> string + 128 word" where
  "uint_try_into_i128 u =
     (case uint_try_into_u128 u of
        Inl _ \<Rightarrow> Inl ''integer overflow when casting to i128''
      | Inr i \<Rightarrow>
          if i > 0x7FFFFFFFFFFFFFFFFFFFFFFFFFFFFFFF
          then Inl ''integer overflow when casting to i128'' else Inr i)"

text \<open>
  \<^verbatim>\<open>impl_try_from_for_primitive!\<close>: the target type enters through its largest value
  \<open>mx\<close>; the result is the low word, which the cast to the target type leaves unchanged.
\<close>

definition uint_try_into_prim :: "string \<Rightarrow> u64 \<Rightarrow> uint \<Rightarrow> string + u64" where
  "uint_try_into_prim to mx arr =
     (if \<not> uint_fits_word arr \<or> arr ! 0 > mx
      then Inl (''integer overflow when casting to '' @ to) else Inr (arr ! 0))"

subsection \<open>Bits\<close>

text \<open>The loop of \<^verbatim>\<open>bits\<close> visits the words from the highest down to index 1; word 0 ends it.\<close>

fun uint_bits_from :: "uint \<Rightarrow> nat \<Rightarrow> nat" where
  "uint_bits_from arr 0 = 0x40 - word_leading_zeros (arr ! 0)"
| "uint_bits_from arr (Suc k) =
     (if arr ! Suc k > 0 then 0x40 * (Suc k + 1) - word_leading_zeros (arr ! Suc k)
      else uint_bits_from arr k)"

definition uint_bits :: "uint \<Rightarrow> nat" where
  "uint_bits arr = uint_bits_from arr (length arr - 1)"

definition uint_bit :: "uint \<Rightarrow> nat \<Rightarrow> bool may_panic" where
  "uint_bit arr index =
     (if index div 64 < length arr
      then Some ((arr ! (index div 64)) AND push_bit (index mod 64) 1 \<noteq> 0) else panic)"

definition uint_byte :: "uint \<Rightarrow> nat \<Rightarrow> u8 may_panic" where
  "uint_byte arr index =
     (if index div 8 < length arr
      then Some (ucast (drop_bit ((index mod 8) * 8) (arr ! (index div 8)))) else panic)"

fun leading_zeros_loop :: "u64 list \<Rightarrow> nat \<Rightarrow> nat" where
  "leading_zeros_loop [] r = r"
| "leading_zeros_loop (w # ws) r =
     (if w = 0 then leading_zeros_loop ws (r + 64) else r + word_leading_zeros w)"

definition uint_leading_zeros :: "uint \<Rightarrow> nat" where
  "uint_leading_zeros x = leading_zeros_loop (rev x) 0"

fun trailing_zeros_loop :: "u64 list \<Rightarrow> nat \<Rightarrow> nat" where
  "trailing_zeros_loop [] r = r"
| "trailing_zeros_loop (w # ws) r =
     (if w = 0 then trailing_zeros_loop ws (r + 64) else r + word_trailing_zeros w)"

definition uint_trailing_zeros :: "uint \<Rightarrow> nat" where
  "uint_trailing_zeros x = trailing_zeros_loop x 0"

subsection \<open>Comparison, bitwise operators, shifts\<close>

definition uint_cmp :: "uint \<Rightarrow> uint \<Rightarrow> ordering" where
  "uint_cmp x y = iter_cmp (rev x) (rev y)"

definition uint_bitand :: "uint \<Rightarrow> uint \<Rightarrow> uint" where
  "uint_bitand arr1 arr2 = map2 (\<lambda>a b. a AND b) arr1 arr2"

definition uint_bitor :: "uint \<Rightarrow> uint \<Rightarrow> uint" where
  "uint_bitor arr1 arr2 = map2 (\<lambda>a b. a OR b) arr1 arr2"

definition uint_bitxor :: "uint \<Rightarrow> uint \<Rightarrow> uint" where
  "uint_bitxor arr1 arr2 = map2 (\<lambda>a b. a XOR b) arr1 arr2"

definition uint_not :: "uint \<Rightarrow> uint" where
  "uint_not arr = map (\<lambda>a. NOT a) arr"

text \<open>
  The bodies of \<^verbatim>\<open>shl\<close> and \<^verbatim>\<open>shr\<close>, for a shift already converted to \<^verbatim>\<open>usize\<close>. The two
  summands of a carry have no bit in common (lemma \<open>shift_carry_bits\<close>), so the plain \<^verbatim>\<open>+=\<close>
  of the source cannot overflow.
\<close>

definition uint_shl_usize :: "uint \<Rightarrow> nat \<Rightarrow> uint" where
  "uint_shl_usize original shift =
     (let n = length original;
          word_shift = shift div 64;
          bit_shift = shift mod 64;
          ret = fold (\<lambda>i ret. ret[i := push_bit bit_shift (original ! (i - word_shift))])
                  [word_shift..<n] (replicate n 0)
      in if bit_shift > 0
         then fold (\<lambda>i ret. ret[i := ret ! i
                       + drop_bit (64 - bit_shift) (original ! (i - 1 - word_shift))])
                [word_shift + 1..<n] ret
         else ret)"

definition uint_shr_usize :: "uint \<Rightarrow> nat \<Rightarrow> uint" where
  "uint_shr_usize original shift =
     (let n = length original;
          word_shift = shift div 64;
          bit_shift = shift mod 64;
          ret = fold (\<lambda>i ret. ret[i - word_shift := drop_bit bit_shift (original ! i)])
                  [word_shift..<n] (replicate n 0)
      in if bit_shift > 0
         then fold (\<lambda>i ret. ret[i - word_shift - 1 := ret ! (i - word_shift - 1)
                       + push_bit (64 - bit_shift) (original ! i)])
                [word_shift + 1..<n] ret
         else ret)"

definition uint_shl :: "uint \<Rightarrow> uint \<Rightarrow> uint may_panic" where
  "uint_shl self shift = do { s \<leftarrow> uint_as_usize shift; Some (uint_shl_usize self s) }"

definition uint_shr :: "uint \<Rightarrow> uint \<Rightarrow> uint may_panic" where
  "uint_shr self shift = do { s \<leftarrow> uint_as_usize shift; Some (uint_shr_usize self s) }"

subsection \<open>Lengths and values\<close>

lemmas uint_defs =
  uint_zero_def uint_default_def uint_from_u64_def uint_one_def uint_MAX_def

lemma length_uint_ops [simp]:
  "length (uint_zero n) = n" "length (uint_default n) = n" "length (uint_from_u64 n v) = n"
  "length (uint_from_u128 n w) = n" "length (uint_one n) = n" "length (uint_MAX n) = n"
  "length (uint_not x) = length x"
  "length (uint_bitand x y) = min (length x) (length y)"
  "length (uint_bitor x y) = min (length x) (length y)"
  "length (uint_bitxor x y) = min (length x) (length y)"
  by (simp_all add: uint_defs uint_from_u128_def uint_not_def uint_bitand_def uint_bitor_def
      uint_bitxor_def)

lemma lval_uint_zero [simp]: "lval (uint_zero n) = 0" "lval (uint_default n) = 0"
  by (simp_all add: uint_defs)

lemma lval_from_u64 [simp]: "0 < n \<Longrightarrow> lval (uint_from_u64 n v) = unat v"
  by (cases n) (simp_all add: uint_from_u64_def)

lemma lval_uint_one [simp]: "0 < n \<Longrightarrow> lval (uint_one n) = 1"
  by (simp add: uint_one_def)

lemma lval_MAX: "lval (uint_MAX n) = B ^ n - 1"
proof (induction n)
  case 0
  show ?case by (simp add: uint_MAX_def)
next
  case (Suc n)
  have "1 \<le> B ^ n" by (simp add: Suc_le_eq)
  then have "B * (B ^ n - 1) + B = B * B ^ n" by (simp add: diff_mult_distrib2)
  moreover have "0 < B" by simp
  ultimately have "B - 1 + B * (B ^ n - 1) = B * B ^ n - 1" by linarith
  then show ?case using Suc by (simp add: uint_MAX_def unat_minus_one_radix)
qed

lemma uint_max_value_MAX: "uint_max_value n = uint_MAX n"
proof -
  have "uint_max_value n ! k = uint_MAX n ! k" if "k < n" for k
    using nth_fold_update [of "[0..<n]" k "replicate n 0" "\<lambda>_ _. - 1 :: u64"] that
    by (simp add: uint_max_value_def uint_MAX_def)
  moreover have "length (uint_max_value n) = n"
    by (simp add: uint_max_value_def)
  ultimately show ?thesis by (intro nth_equalityI) simp_all
qed

lemma uint_is_zero_iff: "uint_is_zero x \<longleftrightarrow> lval x = 0"
  by (simp add: uint_is_zero_def lval_eq_0_iff list_all_iff)

lemma uint_fits_word_iff: "x \<noteq> [] \<Longrightarrow> uint_fits_word x \<longleftrightarrow> lval x < B"
proof -
  assume "x \<noteq> []"
  then obtain w ws where x: "x = w # ws" by (cases x) auto
  have "uint_fits_word x \<longleftrightarrow> lval ws = 0"
    by (simp add: x uint_fits_word_def lval_eq_0_iff list_all_iff)
  also have "\<dots> \<longleftrightarrow> lval x < B"
    using unat_lt_radix [of w] by (cases "lval ws") (auto simp: x)
  finally show ?thesis .
qed

lemma uint_fits_word_low:
  "x \<noteq> [] \<Longrightarrow> uint_fits_word x \<Longrightarrow> unat (x ! 0) = lval x"
proof -
  assume "x \<noteq> []" and f: "uint_fits_word x"
  then obtain w ws where x: "x = w # ws" by (cases x) auto
  have "lval ws = 0" using f by (simp add: x uint_fits_word_def lval_eq_0_iff list_all_iff)
  then show ?thesis by (simp add: x)
qed

lemma uint_low_u64_mod: "x \<noteq> [] \<Longrightarrow> unat (uint_low_u64 x) = lval x mod B"
  by (cases x) (simp_all add: uint_low_u64_def unat_lt_radix)

lemma uint_as_u64_spec:
  "x \<noteq> [] \<Longrightarrow> uint_as_u64 x = (if lval x < B then Some (of_nat (lval x)) else panic)"
  using uint_fits_word_iff [of x] uint_fits_word_low [of x, symmetric]
  by (auto simp: uint_as_u64_def)

lemma uint_as_usize_spec:
  "x \<noteq> [] \<Longrightarrow> uint_as_usize x = (if lval x < B then Some (lval x) else panic)"
  using uint_fits_word_low [of x] uint_fits_word_iff [of x]
  by (auto simp: uint_as_usize_def not_less)

lemma uint_cmp_lval:
  "length x = length y \<Longrightarrow> uint_cmp x y = cmp_of (lval x) (lval y)"
  by (simp add: uint_cmp_def iter_cmp_rev_lval)

subsection \<open>Bit queries\<close>

lemma word64_leading_zeros: "64 - word_leading_zeros (w :: u64) = nat_bits (unat w)"
  using word_leading_zeros_bits [of w] by simp

lemma nat_bits_top_word:
  assumes "0 < unat (w :: u64)" and "length xs = k"
  shows "nat_bits (lval (xs @ [w])) = 64 * k + nat_bits (unat w)"
proof -
  obtain b where b: "nat_bits (unat w) = Suc b"
    using assms(1) by (cases "nat_bits (unat w)") auto
  have lo: "2 ^ b \<le> unat w" and hi: "unat w < 2 ^ Suc b"
    using nat_bits_lower [OF assms(1)] nat_bits_upper [of "unat w"] b by simp_all
  have eq: "lval (xs @ [w]) = lval xs + 2 ^ (64 * k) * unat w"
    using assms(2) by (simp add: lval_append B_eq power_mult)
  have xs: "lval xs < 2 ^ (64 * k)"
    using lval_bound [of xs] assms(2) by (simp add: B_eq power_mult)
  have "2 ^ (64 * k + b) \<le> lval (xs @ [w])"
    using mult_le_mono2 [OF lo, of "2 ^ (64 * k)"] by (simp only: eq power_add)
  moreover have "lval (xs @ [w]) < 2 ^ Suc (64 * k + b)"
  proof -
    have "2 ^ (64 * k) * Suc (unat w) \<le> 2 ^ (64 * k) * 2 ^ Suc b"
      using hi by (intro mult_le_mono) simp_all
    then show ?thesis using xs by (simp only: eq power_add power_Suc mult_Suc_right)
  qed
  ultimately show ?thesis by (simp only: b nat_bits_eqI add_Suc_right)
qed

lemma uint_bits_from_spec:
  "k < length x \<Longrightarrow> uint_bits_from x k = nat_bits (lval (take (Suc k) x))"
proof (induction k)
  case 0
  then show ?case by (cases x) (simp_all add: word64_leading_zeros)
next
  case (Suc k)
  have t: "take (Suc (Suc k)) x = take (Suc k) x @ [x ! Suc k]"
    using Suc.prems by (rule take_Suc_conv_app_nth)
  show ?case
  proof (cases "x ! Suc k = 0")
    case True
    then show ?thesis using Suc by (simp add: t lval_append)
  next
    case False
    then have pos: "0 < unat (x ! Suc k)" by (simp add: unat_gt_0)
    have "nat_bits (lval (take (Suc k) x @ [x ! Suc k])) = 64 * Suc k + nat_bits (unat (x ! Suc k))"
      using pos Suc.prems by (intro nat_bits_top_word) simp_all
    then show ?thesis
      using False word_leading_zeros_bits [of "x ! Suc k"] by (simp add: t word_gt_0)
  qed
qed

lemma uint_bits_spec: "x \<noteq> [] \<Longrightarrow> uint_bits x = nat_bits (lval x)"
  by (simp add: uint_bits_def uint_bits_from_spec)

lemma uint_bit_spec:
  "uint_bit x i = (if i < 64 * length x then Some (bit (lval x) i) else panic)"
proof -
  have "i div 64 < length x \<longleftrightarrow> i < 64 * length x" by (simp add: div_less_iff_less_mult mult.commute)
  moreover have "(w AND push_bit j 1 \<noteq> 0) = bit w j" if "j < 64" for w :: u64 and j
    using that by (simp add: bit_iff_and_push_bit_not_eq_0)
  ultimately show ?thesis by (simp add: uint_bit_def bit_lval)
qed

subsection \<open>Bitwise operators and shifts\<close>

lemma lval_bitand:
  "length x = length y \<Longrightarrow> lval (uint_bitand x y) = lval x AND lval y"
  by (rule lval_eqI_bits)
     (auto simp: bit_lval bit_and_iff uint_bitand_def div_less_iff_less_mult mult.commute)

lemma lval_bitor:
  "length x = length y \<Longrightarrow> lval (uint_bitor x y) = lval x OR lval y"
  by (rule lval_eqI_bits)
     (auto simp: bit_lval bit_or_iff uint_bitor_def div_less_iff_less_mult mult.commute)

lemma lval_bitxor:
  "length x = length y \<Longrightarrow> lval (uint_bitxor x y) = lval x XOR lval y"
  by (rule lval_eqI_bits)
     (auto simp: bit_lval bit_xor_iff uint_bitxor_def div_less_iff_less_mult mult.commute)

lemma lval_not: "lval (uint_not x) + lval x = B ^ length x - 1"
proof (induction x)
  case Nil
  show ?case by (simp add: uint_not_def)
next
  case (Cons w x)
  have w: "unat (NOT w) + unat w = B - 1"
  proof -
    have "NOT w = - 1 - w" by (simp add: not_eq_complement)
    moreover have "unat w \<le> unat (- 1 :: u64)" by (simp flip: word_le_nat_alt)
    ultimately show ?thesis by (simp only: unat_sub_radix unat_minus_one_radix) simp
  qed
  have "1 \<le> B ^ length x" by (simp add: Suc_le_eq)
  then have "B * (B ^ length x - 1) + B = B * B ^ length x" by (simp add: diff_mult_distrib2)
  moreover have "B * (lval (uint_not x) + lval x) = B * (B ^ length x - 1)"
    by (simp only: Cons.IH)
  moreover have "0 < B" by simp
  ultimately have "unat (NOT w) + unat w + B * (lval (uint_not x) + lval x) = B * B ^ length x - 1"
    using w by linarith
  then show ?case by (simp add: uint_not_def algebra_simps)
qed

text \<open>The word parts that a shift adds up have no bit in common.\<close>

lemma shift_carry_bits:
  assumes "0 < b" and "b < 64"
  shows "push_bit b (x :: u64) + drop_bit (64 - b) y = push_bit b x OR drop_bit (64 - b) y"
    and "drop_bit b x + push_bit (64 - b) y = drop_bit b x OR push_bit (64 - b) y"
proof -
  show "push_bit b x + drop_bit (64 - b) y = push_bit b x OR drop_bit (64 - b) y"
  proof (rule disjunctive_add)
    fix n
    show "\<not> bit (push_bit b x) n \<or> \<not> bit (drop_bit (64 - b) y) n"
      using assms bit_imp_le_length [of y "64 - b + n"]
      by (auto simp: bit_push_bit_iff bit_drop_bit_eq)
  qed
  show "drop_bit b x + push_bit (64 - b) y = drop_bit b x OR push_bit (64 - b) y"
  proof (rule disjunctive_add)
    fix n
    show "\<not> bit (drop_bit b x) n \<or> \<not> bit (push_bit (64 - b) y) n"
      using assms bit_imp_le_length [of x "b + n"]
      by (auto simp: bit_push_bit_iff bit_drop_bit_eq)
  qed
qed

lemma length_shl [simp]: "length (uint_shl_usize x s) = length x"
  by (simp add: uint_shl_usize_def Let_def)

lemma length_shr [simp]: "length (uint_shr_usize x s) = length x"
  by (simp add: uint_shr_usize_def Let_def)

lemma bit_lval_at: "r < 64 \<Longrightarrow> bit (lval x) (64 * q + r) \<longleftrightarrow> q < length x \<and> bit (x ! q) r"
  for x :: uint
proof -
  assume "r < 64"
  then have "(64 * q + r) div 64 = q" and "(64 * q + r) mod 64 = r"
    and "64 * q + r < 64 * length x \<longleftrightarrow> q < length x"
    by (simp, simp, linarith)
  then show ?thesis using bit_lval [of x "64 * q + r"] by simp
qed

lemma shl_nth:
  assumes "k < length x" and "b < 64"
  shows "uint_shl_usize x (64 * w + b) ! k =
     (if w \<le> k then push_bit b (x ! (k - w)) else 0)
     OR (if w < k \<and> 0 < b then drop_bit (64 - b) (x ! (k - 1 - w)) else 0)"
proof -
  let ?n = "length x"
  have [simp]: "(64 * w + b) div 64 = w" "(64 * w + b) mod 64 = b" using assms(2) by simp_all
  define ret where "ret = fold (\<lambda>i ret. ret[i := push_bit b (x ! (i - w))]) [w..<?n] (replicate ?n 0)"
  have len: "length ret = ?n" by (simp add: ret_def)
  have ret: "ret ! k = (if w \<le> k then push_bit b (x ! (k - w)) else 0)"
    using nth_fold_update [of "[w..<?n]" k "replicate ?n 0" "\<lambda>i _. push_bit b (x ! (i - w))"] assms(1)
    by (simp add: ret_def)
  have shl: "uint_shl_usize x (64 * w + b) =
      (if 0 < b then fold (\<lambda>i ret. ret[i := ret ! i + drop_bit (64 - b) (x ! (i - 1 - w))])
         [w + 1..<?n] ret else ret)"
    unfolding uint_shl_usize_def Let_def ret_def by (simp only: \<open>_ = w\<close> \<open>_ = b\<close>)
  show ?thesis
  proof (cases "0 < b")
    case False
    then have "uint_shl_usize x (64 * w + b) = ret" using shl by (simp only: if_False)
    with False show ?thesis by (simp add: ret)
  next
    case True
    have "uint_shl_usize x (64 * w + b) ! k =
        (if w < k then ret ! k + drop_bit (64 - b) (x ! (k - 1 - w)) else ret ! k)"
      using nth_fold_update [of "[w + 1..<?n]" k ret "\<lambda>i r. r + drop_bit (64 - b) (x ! (i - 1 - w))"]
        assms(1) len True
      by (simp add: shl Suc_le_eq)
    then show ?thesis using True assms(2) by (simp add: ret shift_carry_bits(1))
  qed
qed

lemma bit_shl_at:
  assumes r: "r < 64" and b: "b < 64" and q: "q < length x"
  shows "bit (lval (uint_shl_usize x (64 * w + b))) (64 * q + r) \<longleftrightarrow>
     64 * w + b \<le> 64 * q + r \<and> bit (lval x) (64 * q + r - (64 * w + b))"
proof (cases "b \<le> r")
  case True
  have "\<not> bit (drop_bit (64 - b) (x ! (q - 1 - w))) r" if "0 < b"
    using True that bit_imp_le_length [of "x ! (q - 1 - w)" "64 - b + r"]
    by (auto simp: bit_drop_bit_eq)
  then have "bit (lval (uint_shl_usize x (64 * w + b))) (64 * q + r)
      \<longleftrightarrow> w \<le> q \<and> bit (x ! (q - w)) (r - b)"
    using True r q by (auto simp: bit_lval_at shl_nth [OF q b] bit_or_iff bit_push_bit_iff)
  moreover have "64 * w + b \<le> 64 * q + r \<longleftrightarrow> w \<le> q" using True r b by linarith
  moreover have "64 * q + r - (64 * w + b) = 64 * (q - w) + (r - b)" if "w \<le> q"
    using True that by simp
  moreover have "bit (lval x) (64 * (q - w) + (r - b)) \<longleftrightarrow> bit (x ! (q - w)) (r - b)"
    using bit_lval_at [of "r - b" x "q - w"] r q by (simp add: less_imp_diff_less)
  ultimately show ?thesis by metis
next
  case False
  have "bit (lval (uint_shl_usize x (64 * w + b))) (64 * q + r)
      \<longleftrightarrow> w < q \<and> bit (x ! (q - 1 - w)) (64 - b + r)"
    using False r q
    by (auto simp: bit_lval_at shl_nth [OF q b] bit_or_iff bit_push_bit_iff bit_drop_bit_eq)
  moreover have "64 * w + b \<le> 64 * q + r \<longleftrightarrow> w < q" using False r b by linarith
  moreover have "64 * q + r - (64 * w + b) = 64 * (q - 1 - w) + (64 - b + r)" if "w < q"
    using False that b by linarith
  moreover have "bit (lval x) (64 * (q - 1 - w) + (64 - b + r)) \<longleftrightarrow> bit (x ! (q - 1 - w)) (64 - b + r)"
    using bit_lval_at [of "64 - b + r" x "q - 1 - w"] False b q by (simp add: less_imp_diff_less)
  ultimately show ?thesis by metis
qed

lemma lval_shl:
  "lval (uint_shl_usize x s) = lval x * 2 ^ s mod B ^ length x"
proof -
  have "bit (lval (uint_shl_usize x s)) k
        \<longleftrightarrow> bit (take_bit (64 * length x) (push_bit s (lval x))) k" for k
  proof (cases "k < 64 * length x")
    case True
    then have "k div 64 < length x" by (simp add: div_less_iff_less_mult mult.commute)
    from bit_shl_at [OF _ _ this, of "k mod 64" "s mod 64" "s div 64"] True
    show ?thesis by (simp add: bit_take_bit_iff bit_push_bit_iff')
  qed (simp add: bit_lval bit_take_bit_iff)
  then have "lval (uint_shl_usize x s) = take_bit (64 * length x) (push_bit s (lval x))"
    by (rule lval_eqI_bits)
  then show ?thesis by (simp add: take_bit_eq_mod push_bit_eq_mult B_eq power_mult)
qed

lemma shr_nth:
  assumes "k < length x" and "b < 64"
  shows "uint_shr_usize x (64 * w + b) ! k =
     (if k + w < length x then drop_bit b (x ! (k + w)) else 0)
     OR (if k + w + 1 < length x \<and> 0 < b then push_bit (64 - b) (x ! (k + w + 1)) else 0)"
proof -
  let ?n = "length x"
  have [simp]: "(64 * w + b) div 64 = w" "(64 * w + b) mod 64 = b" using assms(2) by simp_all
  define ret where "ret = fold (\<lambda>i ret. ret[i - w := drop_bit b (x ! i)]) [w..<?n] (replicate ?n 0)"
  have len: "length ret = ?n" by (simp add: ret_def)
  have ret: "ret ! k = (if k + w < ?n then drop_bit b (x ! (k + w)) else 0)"
    using nth_fold_update_shifted [of k "replicate ?n 0" w w ?n "\<lambda>i _. drop_bit b (x ! i)"] assms(1)
    by (simp add: ret_def)
  have shr: "uint_shr_usize x (64 * w + b) =
      (if 0 < b then fold (\<lambda>i ret. ret[i - w - 1 := ret ! (i - w - 1) + push_bit (64 - b) (x ! i)])
         [w + 1..<?n] ret else ret)"
    unfolding uint_shr_usize_def Let_def ret_def by (simp only: \<open>_ = w\<close> \<open>_ = b\<close>)
  show ?thesis
  proof (cases "0 < b")
    case False
    then have "uint_shr_usize x (64 * w + b) = ret" using shr by (simp only: if_False)
    with False show ?thesis by (simp add: ret)
  next
    case True
    have "uint_shr_usize x (64 * w + b) ! k =
        (if k + w + 1 < ?n then ret ! k + push_bit (64 - b) (x ! (k + w + 1)) else ret ! k)"
      using nth_fold_update_shifted [of k ret "w + 1" "w + 1" ?n "\<lambda>i r. r + push_bit (64 - b) (x ! i)"]
        assms(1) len True
      by (simp add: shr)
    then show ?thesis using True assms(2) by (simp add: ret shift_carry_bits(2))
  qed
qed

lemma bit_shr_at:
  assumes r: "r < 64" and b: "b < 64" and q: "q < length x"
  shows "bit (lval (uint_shr_usize x (64 * w + b))) (64 * q + r) \<longleftrightarrow>
     bit (lval x) (64 * w + b + (64 * q + r))"
proof (cases "b + r < 64")
  case True
  have "bit (lval (uint_shr_usize x (64 * w + b))) (64 * q + r)
      \<longleftrightarrow> q + w < length x \<and> bit (x ! (q + w)) (b + r)"
    using True r q
    by (auto simp: bit_lval_at shr_nth [OF q b] bit_or_iff bit_push_bit_iff bit_drop_bit_eq)
  moreover have "64 * w + b + (64 * q + r) = 64 * (q + w) + (b + r)" by simp
  ultimately show ?thesis using bit_lval_at [OF True, of x "q + w"] by metis
next
  case False
  have nb: "\<not> bit (drop_bit b (x ! (q + w))) r"
    using False bit_imp_le_length [of "x ! (q + w)" "b + r"] by (auto simp: bit_drop_bit_eq)
  have lt: "b + r - 64 < 64" and eq: "r - (64 - b) = b + r - 64" using r b False by linarith+
  have "bit (lval (uint_shr_usize x (64 * w + b))) (64 * q + r)
      \<longleftrightarrow> q + w + 1 < length x \<and> bit (x ! (q + w + 1)) (b + r - 64)"
    using False r b q nb
    by (auto simp: bit_lval_at shr_nth [OF q b] bit_or_iff bit_push_bit_iff eq)
  moreover have "64 * w + b + (64 * q + r) = 64 * (q + w + 1) + (b + r - 64)" using False by simp
  ultimately show ?thesis using bit_lval_at [OF lt, of x "q + w + 1"] by metis
qed

lemma lval_shr: "lval (uint_shr_usize x s) = lval x div 2 ^ s"
proof -
  have "bit (lval (uint_shr_usize x s)) k \<longleftrightarrow> bit (drop_bit s (lval x)) k" for k
  proof (cases "k < 64 * length x")
    case True
    then have "k div 64 < length x" by (simp add: div_less_iff_less_mult mult.commute)
    from bit_shr_at [OF _ _ this, of "k mod 64" "s mod 64" "s div 64"]
    show ?thesis by (simp add: bit_drop_bit_eq)
  qed (simp add: bit_lval bit_drop_bit_eq)
  then have "lval (uint_shr_usize x s) = drop_bit s (lval x)"
    by (rule lval_eqI_bits)
  then show ?thesis by (simp add: drop_bit_eq_div)
qed

lemma uint_shl_small:
  "0 < n \<Longrightarrow> length x = n \<Longrightarrow> uint_shl x (uint_from_u64 n s) = Some (uint_shl_usize x (unat s))"
  using uint_as_usize_spec [of "uint_from_u64 n s"]
  by (simp add: uint_shl_def unat_lt_radix flip: length_greater_0_conv)

lemma uint_shr_small:
  "0 < n \<Longrightarrow> length x = n \<Longrightarrow> uint_shr x (uint_from_u64 n s) = Some (uint_shr_usize x (unat s))"
  using uint_as_usize_spec [of "uint_from_u64 n s"]
  by (simp add: uint_shr_def unat_lt_radix flip: length_greater_0_conv)


subsection \<open>Properties\<close>

text \<open>
  The shifts multiply and divide by powers of two (modulo the range of the type), for any
  shift amount, the one that moves whole words included; they panic only when the amount does not
  fit a \<^verbatim>\<open>usize\<close>.
\<close>

theorem shifts_correct:
  assumes "length x = n" and "length s = n" and "0 < n"
  shows "uint_shl x s = (if lval s < B then Some (limbs n (lval x * 2 ^ lval s)) else panic) \<and>
    uint_shr x s = (if lval s < B then Some (limbs n (lval x div 2 ^ lval s)) else panic)"
proof -
  have s: "s \<noteq> []" using assms by auto
  have "lval x div 2 ^ lval s < B ^ n"
    using lval_bound [of x] assms(1) by (simp add: le_less_trans [OF div_le_dividend])
  then have "uint_shr_usize x (lval s) = limbs n (lval x div 2 ^ lval s)"
    using assms by (intro limbs_eqI) (simp_all add: lval_shr)
  moreover have "uint_shl_usize x (lval s) = limbs n (lval x * 2 ^ lval s)"
    using assms by (intro limbs_eqI) (simp_all add: lval_shl)
  ultimately show ?thesis
    by (simp add: uint_shl_def uint_shr_def uint_as_usize_spec [OF s])
qed

theorem shifts_correct_witness:
  "uint_shl [1, 2, 0] [65, 0, 0] = Some [0, 2, 4] \<and> uint_shr [0, 2, 4] [65, 0, 0] = Some [1, 2, 0]"
  using shifts_correct [of "[1, 2, 0]" 3 "[65, 0, 0]"] shifts_correct [of "[0, 2, 4]" 3 "[65, 0, 0]"]
  by (simp add: literal_simps)

text \<open>
  \<^verbatim>\<open>Ord::cmp\<close> compares the numbers, \<^verbatim>\<open>bits\<close> is the length of the number in bits and \<^verbatim>\<open>bit\<close>
  reads its binary digits, panicking outside the words of the type.
\<close>

theorem order_and_bits_correct:
  assumes "length x = n" and "length y = n" and "0 < n"
  shows "uint_cmp x y = cmp_of (lval x) (lval y) \<and> (uint_cmp x y = Equal \<longleftrightarrow> x = y) \<and>
    uint_bits x = nat_bits (lval x) \<and>
    (\<forall>i. uint_bit x i = (if i < 64 * n then Some (bit (lval x) i) else panic))"
proof -
  have "x \<noteq> []" using assms by auto
  moreover have "lval x = lval y \<longleftrightarrow> x = y" using lval_inject [of x y] assms by auto
  ultimately show ?thesis
    using assms uint_cmp_lval [of x y] by (simp add: uint_bits_spec uint_bit_spec)
qed

theorem order_and_bits_correct_witness:
  "uint_cmp [5, 0] [0, 1] = Less \<and> uint_bits [5, 0] = 3 \<and> uint_bit [5, 0] 2 = Some True"
  using order_and_bits_correct [of "[5, 0]" 2 "[0, 1]"]
  by (simp add: radix_def nat_bits.simps bit_iff_odd)

end
