(* ===== verification/Uint_Arith.thy ===== *)
theory Uint_Arith
  imports Uint_Core
begin

text \<open>
  Addition, subtraction and multiplication of \<^verbatim>\<open>construct_uint!\<close> integers: the carry loops
  of the macros \<^verbatim>\<open>uint_overflowing_binop!\<close>, \<^verbatim>\<open>uint_full_mul_reg!\<close> and
  \<^verbatim>\<open>uint_overflowing_mul!\<close>, and the overflowing, checked, saturating and panicking
  operations built on them. The lemmas show that the loops compute the number and the overflow
  flag exactly, for every number of words.
\<close>

subsection \<open>The carry loop of addition and subtraction\<close>

fun binop_loop ::
  "(u64 \<Rightarrow> u64 \<Rightarrow> u64 \<times> bool) \<Rightarrow> u64 list \<Rightarrow> u64 list \<Rightarrow> u64 \<Rightarrow> u64 list \<times> u64" where
  "binop_loop fn (a # me) (b # you) carry =
     (if carry \<noteq> 0 then
        let (res1, overflow1) = fn a b;
            (res2, overflow2) = fn res1 carry;
            (ret, c) = binop_loop fn me you (of_bool overflow1 + of_bool overflow2)
        in (res2 # ret, c)
      else
        let (res, overflow) = fn a b;
            (ret, c) = binop_loop fn me you (of_bool overflow)
        in (res # ret, c))"
| "binop_loop fn me you carry = ([], carry)"

definition uint_overflowing_binop ::
  "(u64 \<Rightarrow> u64 \<Rightarrow> u64 \<times> bool) \<Rightarrow> uint \<Rightarrow> uint \<Rightarrow> uint \<times> bool" where
  "uint_overflowing_binop fn me you =
     (let (ret, carry) = binop_loop fn me you 0 in (ret, carry > 0))"

definition uint_overflowing_add :: "uint \<Rightarrow> uint \<Rightarrow> uint \<times> bool" where
  "uint_overflowing_add self other = uint_overflowing_binop word_overflowing_add self other"

definition uint_overflowing_sub :: "uint \<Rightarrow> uint \<Rightarrow> uint \<times> bool" where
  "uint_overflowing_sub self other = uint_overflowing_binop word_overflowing_sub self other"

subsection \<open>Multiplication\<close>

definition split_u128 :: "u128 \<Rightarrow> u64 \<times> u64" where
  "split_u128 a = (ucast (drop_bit 64 a), ucast (a AND 0xFFFFFFFFFFFFFFFF))"

definition mul_u64 :: "u64 \<Rightarrow> u64 \<Rightarrow> u64 \<Rightarrow> u64 \<times> u64" where
  "mul_u64 a b carry =
     (let (hi, lo) = split_u128 (ucast a * ucast b + ucast carry) in (lo, hi))"

fun mul_u64_loop :: "u64 list \<Rightarrow> u64 \<Rightarrow> u64 \<Rightarrow> u64 list \<times> u64" where
  "mul_u64_loop [] other carry = ([], carry)"
| "mul_u64_loop (d # ds) other carry =
     (let (res, c) = mul_u64 d other carry;
          (rest, carry') = mul_u64_loop ds other c
      in (res # rest, carry'))"

definition uint_overflowing_mul_u64 :: "uint \<Rightarrow> u64 \<Rightarrow> uint \<times> u64" where
  "uint_overflowing_mul_u64 self other = mul_u64_loop self other 0"

text \<open>
  One round of the inner loop of \<^verbatim>\<open>uint_full_mul_reg!\<close>, on the state of the result array and
  the carry. The \<^verbatim>\<open>$check\<close> argument of the macro depends on the number of words. The plain addition
  \<^verbatim>\<open>hi + overflow\<close> cannot overflow, as the high word of a product of two words is below \<open>2\<^sup>6\<^sup>4 - 1\<close>, so it is not written as a panicking one.
\<close>

definition full_mul_step ::
  "(u64 \<Rightarrow> u64 \<Rightarrow> bool) \<Rightarrow> u64 list \<Rightarrow> u64 \<Rightarrow> nat \<Rightarrow> nat \<Rightarrow> u64 list \<times> u64 \<Rightarrow> u64 list \<times> u64" where
  "full_mul_step check me b i j = (\<lambda>(ret, carry).
     if check (me ! j) carry then
       let a = me ! j;
           (hi, low) = split_u128 (ucast a * ucast b);
           (low', overflow) = word_overflowing_add low (ret ! (i + j));
           ret = ret[i + j := low'];
           hi = hi + of_bool overflow;
           (hi, o0) = word_overflowing_add hi carry;
           (hi, o1) = word_overflowing_add hi (ret ! (i + j + 1));
           ret = ret[i + j + 1 := hi]
       in (ret, of_bool (o0 \<or> o1))
     else (ret, carry))"

definition mul_check :: "nat \<Rightarrow> u64 \<Rightarrow> u64 \<Rightarrow> bool" where
  "mul_check n_words a b = (if n_words = 8 then a \<noteq> 0 \<or> b \<noteq> 0 else True)"

definition uint_full_mul_reg :: "uint \<Rightarrow> uint \<Rightarrow> u64 list" where
  "uint_full_mul_reg me you =
     (let n = length me
      in fold (\<lambda>i ret. fst (fold (full_mul_step (mul_check n) me (you ! i) i) [0..<n] (ret, 0)))
           [0..<n] (replicate (n * 2) 0))"

definition uint_overflowing_mul :: "uint \<Rightarrow> uint \<Rightarrow> uint \<times> bool" where
  "uint_overflowing_mul self other =
     (let ret = uint_full_mul_reg self other; n = length self
      in (take n ret, list_ex (\<lambda>w. w \<noteq> 0) (drop n ret)))"

subsection \<open>Checked, saturating and panicking operations\<close>

definition checked_of :: "uint \<times> bool \<Rightarrow> uint option" where
  "checked_of r = (case r of (_, True) \<Rightarrow> None | (val, _) \<Rightarrow> Some val)"

definition panic_on_overflow :: "uint \<times> bool \<Rightarrow> uint may_panic" where
  "panic_on_overflow r = (case r of (result, overflow) \<Rightarrow> if overflow then panic else Some result)"

definition uint_checked_add :: "uint \<Rightarrow> uint \<Rightarrow> uint option" where
  "uint_checked_add self other = checked_of (uint_overflowing_add self other)"

definition uint_checked_sub :: "uint \<Rightarrow> uint \<Rightarrow> uint option" where
  "uint_checked_sub self other = checked_of (uint_overflowing_sub self other)"

definition uint_checked_mul :: "uint \<Rightarrow> uint \<Rightarrow> uint option" where
  "uint_checked_mul self other = checked_of (uint_overflowing_mul self other)"

definition uint_saturating_add :: "uint \<Rightarrow> uint \<Rightarrow> uint" where
  "uint_saturating_add self other =
     (case uint_overflowing_add self other of
        (_, True) \<Rightarrow> uint_max_value (length self) | (val, False) \<Rightarrow> val)"

definition uint_saturating_sub :: "uint \<Rightarrow> uint \<Rightarrow> uint" where
  "uint_saturating_sub self other =
     (case uint_overflowing_sub self other of
        (_, True) \<Rightarrow> uint_zero (length self) | (val, False) \<Rightarrow> val)"

definition uint_saturating_mul :: "uint \<Rightarrow> uint \<Rightarrow> uint" where
  "uint_saturating_mul self other =
     (case uint_overflowing_mul self other of
        (_, True) \<Rightarrow> uint_max_value (length self) | (val, False) \<Rightarrow> val)"

text \<open>The operators \<^verbatim>\<open>+\<close>, \<^verbatim>\<open>-\<close> and \<^verbatim>\<open>*\<close>; the operand is already converted by \<^verbatim>\<open>into()\<close>.\<close>

definition uint_add :: "uint \<Rightarrow> uint \<Rightarrow> uint may_panic" where
  "uint_add self other = panic_on_overflow (uint_overflowing_add self other)"

definition uint_sub :: "uint \<Rightarrow> uint \<Rightarrow> uint may_panic" where
  "uint_sub self other = panic_on_overflow (uint_overflowing_sub self other)"

definition uint_mul :: "uint \<Rightarrow> uint \<Rightarrow> uint may_panic" where
  "uint_mul self other = panic_on_overflow (uint_overflowing_mul self other)"

definition uint_mul_prim :: "uint \<Rightarrow> u64 \<Rightarrow> uint may_panic" where
  "uint_mul_prim self other =
     (let (result, carry) = uint_overflowing_mul_u64 self other
      in if carry > 0 then panic else Some result)"

definition uint_overflowing_neg :: "uint \<Rightarrow> uint \<times> bool" where
  "uint_overflowing_neg self =
     (if uint_is_zero self then (self, False) else (uint_not self, True))"

definition uint_checked_neg :: "uint \<Rightarrow> uint option" where
  "uint_checked_neg self = checked_of (uint_overflowing_neg self)"

subsection \<open>Correctness of the carry loops\<close>

lemma of_bool_word_simps [simp]:
  "unat (of_bool p :: 'a::len word) = of_bool p"
  "(of_bool p :: 'a::len word) = 0 \<longleftrightarrow> \<not> p"
  by (cases p; simp)+

text \<open>
  Addition and subtraction share the loop, so its contract is stated once for any word operation
  that computes \<open>a + s * b\<close> with \<open>s = 1\<close> or \<open>s = - 1\<close> and reports the carry or borrow.
\<close>

locale word_binop =
  fixes fn :: "u64 \<Rightarrow> u64 \<Rightarrow> u64 \<times> bool" and s :: int
  assumes sign: "s = 1 \<or> s = - 1"
    and fn_eq: "fn a b = (r, ov) \<Longrightarrow>
      int (unat r) = int (unat a) + s * int (unat b) - s * of_bool ov * int B"
begin

lemma no_double_overflow:
  assumes "fn a b = (r1, o1)" and "fn r1 c = (r2, o2)" and "unat c \<le> 1"
  shows "\<not> (o1 \<and> o2)"
proof
  assume "o1 \<and> o2"
  then have "uint r2 = uint a + s * (uint b + uint c - 2 * int B)"
    using fn_eq [OF assms(1)] fn_eq [OF assms(2)] by (simp add: algebra_simps)
  moreover have "uint c \<le> 1"
    using assms(3) by (metis int_ops(2) of_nat_le_iff uint_nat)
  ultimately show False
    using sign uint_bounds_radix [of a] uint_bounds_radix [of b] uint_bounds_radix [of r2]
    by (elim disjE) simp_all
qed

lemma binop_loop_eq:
  "length me = length you \<Longrightarrow> unat c \<le> 1 \<Longrightarrow> binop_loop fn me you c = (r, c') \<Longrightarrow>
     length r = length me \<and> unat c' \<le> 1 \<and>
     int (lval r) = int (lval me) + s * (int (lval you) + int (unat c))
       - s * int (unat c') * int B ^ length me"
proof (induction me you arbitrary: c r c' rule: list_induct2)
  case Nil
  then show ?case by simp
next
  case (Cons a me b you)
  obtain res1 o1 where s1: "fn a b = (res1, o1)" by force
  obtain res2 o2 where s2: "fn res1 c = (res2, o2)" by force
  define res where "res = (if c = 0 then res1 else res2)"
  define ov :: u64 where "ov = (if c = 0 then of_bool o1 else of_bool o1 + of_bool o2)"
  have ov: "unat ov \<le> 1"
    and head: "int (unat res) = int (unat a) + s * (int (unat b) + int (unat c)) - s * int (unat ov) * int B"
    using no_double_overflow [OF s1 s2 Cons.prems(1)] fn_eq [OF s1] fn_eq [OF s2]
    by (auto simp: ov_def res_def algebra_simps)
  obtain r' where r': "binop_loop fn me you ov = (r', c')" and r: "r = res # r'"
    using Cons.prems(2) by (auto simp: s1 s2 res_def ov_def split: prod.splits if_splits)
  note IH = Cons.IH [OF ov r']
  then have "int B * int (lval r') = int B * (int (lval me) + s * (int (lval you) + int (unat ov))
      - s * int (unat c') * int B ^ length me)" by simp
  then have "int (lval r) = int (lval (a # me)) + s * (int (lval (b # you)) + int (unat c))
      - s * int (unat c') * int B ^ length (a # me)"
    using head by (simp add: r algebra_simps)
  then show ?case using IH by (simp add: r)
qed

end

interpretation add_op: word_binop word_overflowing_add 1
proof
  fix a b r :: u64 and ov
  assume "word_overflowing_add a b = (r, ov)"
  then have "unat r + of_bool ov * B = unat a + unat b"
    using word_overflowing_add_eqs [of a b] by simp
  then have "int (unat r + of_bool ov * B) = int (unat a + unat b)" by (simp only:)
  then show "int (unat r) = int (unat a) + 1 * int (unat b) - 1 * of_bool ov * int B"
    by simp
qed simp

interpretation sub_op: word_binop word_overflowing_sub "- 1"
proof
  fix a b r :: u64 and ov
  assume "word_overflowing_sub a b = (r, ov)"
  then have "unat r + unat b = unat a + of_bool ov * B"
    using word_overflowing_sub_eqs [of a b] by simp
  then have "int (unat r + unat b) = int (unat a + of_bool ov * B)" by (simp only:)
  then show "int (unat r) = int (unat a) + - 1 * int (unat b) - - 1 * of_bool ov * int B"
    by simp
qed simp

lemma carry_word_cases: "unat (c :: u64) \<le> 1 \<Longrightarrow> unat c = of_bool (0 < c)"
  using unat_gt_0 [of c] by (cases "c = 0") (auto simp: word_gt_0)

lemma overflowing_add_eq:
  assumes "length x = length y" and "uint_overflowing_add x y = (z, f)"
  shows "length z = length x" and "lval z + of_bool f * B ^ length x = lval x + lval y"
proof -
  obtain c where c: "binop_loop word_overflowing_add x y 0 = (z, c)" "f = (0 < c)"
    using assms(2) by (auto simp: uint_overflowing_add_def uint_overflowing_binop_def split: prod.splits)
  have l: "length z = length x \<and> unat c \<le> 1" and
    "int (lval z) = int (lval x) + int (lval y) - int (unat c) * int B ^ length x"
    using add_op.binop_loop_eq [OF assms(1) _ c(1)] by simp_all
  then have "int (lval z + unat c * B ^ length x) = int (lval x + lval y)" by simp
  then have "lval z + unat c * B ^ length x = lval x + lval y" by (simp only: of_nat_eq_iff)
  with l show "length z = length x" and "lval z + of_bool f * B ^ length x = lval x + lval y"
    using carry_word_cases [of c] c(2) by simp_all
qed

lemma overflowing_sub_eq:
  assumes "length x = length y" and "uint_overflowing_sub x y = (z, f)"
  shows "length z = length x" and "lval z + lval y = lval x + of_bool f * B ^ length x"
proof -
  obtain c where c: "binop_loop word_overflowing_sub x y 0 = (z, c)" "f = (0 < c)"
    using assms(2) by (auto simp: uint_overflowing_sub_def uint_overflowing_binop_def split: prod.splits)
  have l: "length z = length x \<and> unat c \<le> 1" and
    "int (lval z) = int (lval x) - int (lval y) + int (unat c) * int B ^ length x"
    using sub_op.binop_loop_eq [OF assms(1) _ c(1)] by simp_all
  then have "int (lval z + lval y) = int (lval x + unat c * B ^ length x)" by simp
  then have "lval z + lval y = lval x + unat c * B ^ length x" by (simp only: of_nat_eq_iff)
  with l show "length z = length x" and "lval z + lval y = lval x + of_bool f * B ^ length x"
    using carry_word_cases [of c] c(2) by simp_all
qed

subsection \<open>Correctness of the multiplication loops\<close>

lemma split_u128_eq:
  assumes "split_u128 p = (hi, lo)"
  shows "unat p = unat hi * B + unat lo"
proof -
  have "unat p < 2 ^ 128" using unat_lt_radix [of p] by (simp add: radix_def)
  then have "unat p div 2 ^ 64 < 2 ^ 64" by (simp add: div_less_iff_less_mult)
  then have "unat hi = unat p div 2 ^ 64"
    using assms by (auto simp: split_u128_def unat_ucast_radix unat_drop_bit B_eq)
  moreover have "p AND 0xFFFFFFFFFFFFFFFF = take_bit 64 p"
    by (simp add: take_bit_eq_mask mask_eq_exp_minus_1)
  then have "unat lo = unat p mod 2 ^ 64"
    using assms by (auto simp: split_u128_def unat_ucast_radix unat_take_bit B_eq)
  ultimately show ?thesis by (simp only: B_eq div_mult_mod_eq)
qed

lemma mul_carry_bound:
  fixes a b c r :: nat
  assumes "a < r" and "b < r" and "c < r"
  shows "a * b + c < r * r"
proof -
  obtain s where r: "r = Suc s" using assms by (cases r) auto
  have "a * b \<le> s * s" using assms r by (intro mult_le_mono) simp_all
  then show ?thesis using assms(3) r by simp
qed

lemma ucast_mul_add:
  "unat (ucast a * ucast b + ucast c :: u128) = unat (a :: u64) * unat (b :: u64) + unat (c :: u64)"
proof -
  have "unat a * unat b + unat c < B * B"
    by (intro mul_carry_bound) (simp_all add: unat_lt_radix)
  then have "unat a * unat b + unat c < 2 ^ 128" by (simp add: B_eq)
  then show ?thesis by (simp add: unat_word_ariths unat_ucast_up)
qed

lemma mul_u64_eq:
  assumes "mul_u64 a b c = (lo, hi)"
  shows "unat lo + B * unat hi = unat a * unat b + unat c"
proof -
  have "split_u128 (ucast a * ucast b + ucast c) = (hi, lo)"
    using assms by (simp add: mul_u64_def split: prod.splits)
  from split_u128_eq [OF this] show ?thesis by (simp add: ucast_mul_add)
qed

lemma mul_u64_loop_eq:
  "mul_u64_loop ds m c = (r, c') \<Longrightarrow>
     length r = length ds \<and> lval r + unat c' * B ^ length ds = lval ds * unat m + unat c"
proof (induction ds arbitrary: c r c')
  case Nil
  then show ?case by simp
next
  case (Cons d ds)
  obtain lo hi where s: "mul_u64 d m c = (lo, hi)" by force
  obtain rest where rest: "mul_u64_loop ds m hi = (rest, c')" and r: "r = lo # rest"
    using Cons.prems by (auto simp: s split: prod.splits)
  have len: "length rest = length ds"
    and IH: "lval rest + unat c' * B ^ length ds = lval ds * unat m + unat hi"
    using Cons.IH [OF rest] by simp_all
  have "B * (lval rest + unat c' * B ^ length ds) = B * (lval ds * unat m + unat hi)"
    by (simp only: IH)
  with mul_u64_eq [OF s] len show ?case by (simp add: r algebra_simps)
qed

lemma split_mul:
  assumes "split_u128 (ucast a * ucast b) = (hi, lo)"
  shows "unat hi * B + unat lo = unat (a :: u64) * unat (b :: u64)" and "unat hi + 2 \<le> B"
proof -
  show eq: "unat hi * B + unat lo = unat a * unat b"
    using split_u128_eq [OF assms] ucast_mul_add [of a b 0] by simp
  obtain s where s: "B = Suc s" by (metis radix_neq_0 not0_implies_Suc)
  have "unat a * unat b \<le> s * s"
    using unat_lt_radix [of a] unat_lt_radix [of b] s by (intro mult_le_mono) simp_all
  then have "unat hi * Suc s < s * Suc s" using eq s radix_gt_1 [where 'a = 64] by (cases s) auto
  then have "unat hi < s" by (simp only: mult_less_cancel2)
  then show "unat hi + 2 \<le> B" using s by simp
qed

text \<open>
  One round of the inner loop adds \<open>a * b * B ^ (i + j)\<close> to the number held by the result array
  and the carry, which counts at \<open>B ^ (i + j + 1)\<close>.
\<close>

lemma full_mul_step_eq:
  assumes "i + j + 1 < length ret" and "unat carry \<le> 1"
    and chk: "check (me ! j) carry \<or> me ! j = 0 \<and> carry = 0"
    and step: "full_mul_step check me b i j (ret, carry) = (ret', carry')"
  shows "length ret' = length ret" and "unat carry' \<le> 1"
    and "lval ret' + unat carry' * B ^ (i + j + 2)
      = lval ret + unat carry * B ^ (i + j + 1) + unat (me ! j) * unat b * B ^ (i + j)"
proof -
  let ?a = "me ! j" and ?k = "i + j"
  show "length ret' = length ret"
    using step by (auto simp: full_mul_step_def Let_def split: prod.splits if_splits)
  have "unat carry' \<le> 1 \<and> lval ret' + unat carry' * B ^ (?k + 2)
      = lval ret + unat carry * B ^ (?k + 1) + unat ?a * unat b * B ^ ?k"
  proof (cases "check ?a carry")
    case False
    then show ?thesis using step chk by (simp add: full_mul_step_def)
  next
    case True
    obtain hi lo where s: "split_u128 (ucast ?a * ucast b) = (hi, lo)" by force
    obtain lo' ov where a1: "word_overflowing_add lo (ret ! ?k) = (lo', ov)" by force
    obtain h1 o0 where a2: "word_overflowing_add (hi + of_bool ov) carry = (h1, o0)" by force
    obtain h2 o1 where a3: "word_overflowing_add h1 (ret ! (?k + 1)) = (h2, o1)" by force
    have ret': "ret' = ret[?k := lo', ?k + 1 := h2]" and c': "carry' = of_bool (o0 \<or> o1)"
      using step True s a1 a2 a3 by (simp_all add: full_mul_step_def Let_def)
    have e0: "unat hi * B + unat lo = unat ?a * unat b" and h: "unat hi + 2 \<le> B"
      using split_mul [OF s] by simp_all
    have e1: "unat lo' + of_bool ov * B = unat lo + unat (ret ! ?k)"
      using word_overflowing_add_eqs [of lo "ret ! ?k"] a1 by simp
    have "unat (hi + of_bool ov) = unat hi + of_bool ov"
      using h by (simp add: unat_add_radix)
    then have e2: "unat h1 + of_bool o0 * B = unat hi + of_bool ov + unat carry"
      using word_overflowing_add_eqs [of "hi + of_bool ov" carry] a2 by simp
    have e3: "unat h2 + of_bool o1 * B = unat h1 + unat (ret ! (?k + 1))"
      using word_overflowing_add_eqs [of h1 "ret ! (?k + 1)"] a3 by simp
    have excl: "\<not> (o0 \<and> o1)"
      using e2 e3 h assms(2) unat_lt_radix [of "ret ! (?k + 1)"] by (auto simp: of_bool_def split: if_splits)
    have u1: "lval (ret[?k := lo']) + B ^ ?k * unat (ret ! ?k) = lval ret + B ^ ?k * unat lo'"
      using assms(1) by (intro lval_update) simp
    have u2: "lval ret' + B ^ (?k + 1) * unat (ret ! (?k + 1))
        = lval (ret[?k := lo']) + B ^ (?k + 1) * unat h2"
      using lval_update [of "?k + 1" "ret[?k := lo']" h2] assms(1) by (simp add: ret')
    let ?P = "B ^ ?k"
    have cs: "unat carry' = of_bool o0 + of_bool o1" using excl by (auto simp: c')
    have "B * (unat h2 + of_bool o1 * B + (unat h1 + of_bool o0 * B))
        = B * (unat h1 + unat (ret ! (?k + 1)) + (unat hi + of_bool ov + unat carry))"
      by (simp only: e2 e3)
    with e0 e1 cs have "unat lo' + B * unat h2 + unat carry' * B * B
        = unat ?a * unat b + unat (ret ! ?k) + B * unat carry + B * unat (ret ! (?k + 1))"
      by (simp add: algebra_simps)
    then have "?P * (unat lo' + B * unat h2 + unat carry' * B * B)
        = ?P * (unat ?a * unat b + unat (ret ! ?k) + B * unat carry + B * unat (ret ! (?k + 1)))"
      by (simp only:)
    then show ?thesis using u1 u2 c' by (simp add: algebra_simps)
  qed
  then show "unat carry' \<le> 1" and "lval ret' + unat carry' * B ^ (?k + 2)
      = lval ret + unat carry * B ^ (?k + 1) + unat ?a * unat b * B ^ ?k" by simp_all
qed

lemma full_mul_inner:
  assumes "m \<le> length me" and "i + length me < length ret"
    and "fold (full_mul_step (mul_check n) me b i) [0..<m] (ret, 0) = (ret', c')"
  shows "length ret' = length ret \<and> unat c' \<le> 1 \<and>
    lval ret' + unat c' * B ^ (i + m + 1) = lval ret + lval (take m me) * unat b * B ^ i"
  using assms(1,3)
proof (induction m arbitrary: ret' c')
  case 0
  then show ?case by simp
next
  case (Suc m)
  obtain ret1 c1 where f: "fold (full_mul_step (mul_check n) me b i) [0..<m] (ret, 0) = (ret1, c1)"
    by force
  have IH: "length ret1 = length ret" "unat c1 \<le> 1"
    "lval ret1 + unat c1 * B ^ (i + m + 1) = lval ret + lval (take m me) * unat b * B ^ i"
    using Suc.IH [OF _ f] Suc.prems(1) by simp_all
  have step: "full_mul_step (mul_check n) me b i m (ret1, c1) = (ret', c')"
    using Suc.prems(2) f by simp
  have len: "i + m + 1 < length ret1" using Suc.prems(1) assms(2) IH(1) by simp
  have chk: "mul_check n (me ! m) c1 \<or> me ! m = 0 \<and> c1 = 0" by (auto simp: mul_check_def)
  note st = full_mul_step_eq [OF len IH(2) chk step]
  have "take (Suc m) me = take m me @ [me ! m]" using Suc.prems(1) by (simp add: take_Suc_conv_app_nth)
  then have t: "lval (take (Suc m) me) = lval (take m me) + B ^ m * unat (me ! m)"
    using Suc.prems(1) by (simp add: lval_append)
  have "lval ret' + unat c' * B ^ (i + Suc m + 1) = lval ret + lval (take (Suc m) me) * unat b * B ^ i"
    using st(3) IH(3) by (simp add: t power_add algebra_simps)
  then show ?case using st(1,2) IH(1) by simp
qed

lemma full_mul_outer:
  assumes "length you = length me" and "m \<le> length me"
  shows "length (fold (\<lambda>i ret. fst (fold (full_mul_step (mul_check n) me (you ! i) i)
             [0..<length me] (ret, 0))) [0..<m] (replicate (length me * 2) 0)) = length me * 2 \<and>
    lval (fold (\<lambda>i ret. fst (fold (full_mul_step (mul_check n) me (you ! i) i)
             [0..<length me] (ret, 0))) [0..<m] (replicate (length me * 2) 0))
    = lval me * lval (take m you)"
  (is "length (?F m) = _ \<and> lval (?F m) = _")
  using assms(2)
proof (induction m)
  case 0
  show ?case by simp
next
  case (Suc m)
  let ?n = "length me"
  have IH: "length (?F m) = ?n * 2" "lval (?F m) = lval me * lval (take m you)"
    using Suc by simp_all
  obtain ret c where f: "fold (full_mul_step (mul_check n) me (you ! m) m) [0..<?n] (?F m, 0) = (ret, c)"
    by force
  have F: "?F (Suc m) = ret" using f by simp
  have "m + ?n < length (?F m)" using IH(1) Suc.prems by simp
  from full_mul_inner [OF order_refl this f]
  have r: "length ret = ?n * 2" and eq: "lval ret + unat c * B ^ (m + ?n + 1)
      = lval me * lval (take m you) + lval me * unat (you ! m) * B ^ m"
    using IH by simp_all
  have "take (Suc m) you = take m you @ [you ! m]"
    using Suc.prems assms(1) by (simp add: take_Suc_conv_app_nth)
  then have t: "lval (take (Suc m) you) = lval (take m you) + B ^ m * unat (you ! m)"
    using Suc.prems assms(1) by (simp add: lval_append)
  have eq': "lval ret + unat c * B ^ (m + ?n + 1) = lval me * lval (take (Suc m) you)"
    using eq by (simp add: t algebra_simps)
  have "lval me * lval (take (Suc m) you) < B ^ ?n * B ^ Suc m"
    by (intro mult_strict_mono lval_bound lval_take_bound) simp_all
  also have "\<dots> = B ^ (m + ?n + 1)" by (simp add: power_add)
  finally have "unat c = 0" using eq' by (cases "unat c") auto
  then show ?case using eq' r by (simp only: F) simp
qed

lemma full_mul_reg_eq:
  assumes "length y = length x"
  shows "length (uint_full_mul_reg x y) = 2 * length x"
    and "lval (uint_full_mul_reg x y) = lval x * lval y"
  using full_mul_outer [of y x "length x" "length x"] assms
  by (simp_all add: uint_full_mul_reg_def Let_def)

lemma overflowing_mul_eq:
  assumes "length y = length x" and "uint_overflowing_mul x y = (z, f)"
  shows "length z = length x" and "lval z = lval x * lval y mod B ^ length x"
    and "f \<longleftrightarrow> B ^ length x \<le> lval x * lval y"
proof -
  let ?r = "uint_full_mul_reg x y" and ?n = "length x"
  have z: "z = take ?n ?r" and f: "f \<longleftrightarrow> list_ex (\<lambda>w. w \<noteq> 0) (drop ?n ?r)"
    using assms(2) by (auto simp: uint_overflowing_mul_def Let_def)
  note r = full_mul_reg_eq [OF assms(1)]
  show "length z = ?n" using r(1) by (simp add: z)
  show "lval z = lval x * lval y mod B ^ ?n" by (simp add: z lval_take r(2))
  have "f \<longleftrightarrow> lval (drop ?n ?r) \<noteq> 0" by (simp add: f lval_eq_0_iff list_ex_iff)
  also have "\<dots> \<longleftrightarrow> B ^ ?n \<le> lval x * lval y"
    by (simp add: lval_drop r(2) div_eq_0_iff not_less del: neq0_conv)
  finally show "f \<longleftrightarrow> B ^ ?n \<le> lval x * lval y" .
qed

lemma overflowing_mul_u64_eq:
  assumes "uint_overflowing_mul_u64 x m = (z, c)"
  shows "length z = length x" and "lval z + unat c * B ^ length x = lval x * unat m"
  using mul_u64_loop_eq [of x m 0 z c] assms by (simp_all add: uint_overflowing_mul_u64_def)

text \<open>The results as a value and a flag, for use by the checked and panicking operations.\<close>

lemma add_value:
  assumes "length x = length y" and "uint_overflowing_add x y = (z, f)"
  shows "lval z = (lval x + lval y) mod B ^ length x" and "f \<longleftrightarrow> B ^ length x \<le> lval x + lval y"
proof -
  note e = overflowing_add_eq [OF assms]
  have "lval z < B ^ length x" using lval_bound [of z] e(1) by simp
  with e(2) show "lval z = (lval x + lval y) mod B ^ length x"
    by (metis mod_less mod_mult_self1 mult.commute)
  show "f \<longleftrightarrow> B ^ length x \<le> lval x + lval y"
    using e(2) \<open>lval z < B ^ length x\<close> by (cases f) auto
qed

lemma sub_value:
  assumes "length x = length y" and "uint_overflowing_sub x y = (z, f)"
  shows "lval z = (if lval y \<le> lval x then lval x - lval y else lval x + B ^ length x - lval y)"
    and "f \<longleftrightarrow> lval x < lval y"
proof -
  note e = overflowing_sub_eq [OF assms]
  have z: "lval z < B ^ length x" using lval_bound [of z] e(1) by simp
  show f: "f \<longleftrightarrow> lval x < lval y"
    using e(2) z lval_bound [of y] assms(1) by (cases f) auto
  show "lval z = (if lval y \<le> lval x then lval x - lval y else lval x + B ^ length x - lval y)"
    using e(2) f by (cases f) auto
qed

subsection \<open>The operations as functions of the numbers\<close>

lemma overflowing_add_spec:
  assumes "length x = n" and "length y = n"
  shows "uint_overflowing_add x y = (limbs n (lval x + lval y), B ^ n \<le> lval x + lval y)"
proof -
  obtain z f where s: "uint_overflowing_add x y = (z, f)" by force
  have len: "length x = length y" using assms by simp
  have "z = limbs n (lval x + lval y)"
    using overflowing_add_eq(1) [OF len s] add_value(1) [OF len s] assms by (intro limbs_eqI) simp_all
  then show ?thesis using s add_value(2) [OF len s] assms by simp
qed

lemma overflowing_sub_spec:
  assumes "length x = n" and "length y = n"
  shows "uint_overflowing_sub x y = (limbs n (lval x + B ^ n - lval y), lval x < lval y)"
proof -
  obtain z f where s: "uint_overflowing_sub x y = (z, f)" by force
  have len: "length x = length y" using assms by simp
  note e = overflowing_sub_eq [OF len s] and v = sub_value [OF len s]
  have "lval y < B ^ n" "lval x < B ^ n" using lval_bound [of y] lval_bound [of x] assms by simp_all
  then have "lval z = (lval x + B ^ n - lval y) mod B ^ n"
    using v assms by (auto simp: le_mod_geq)
  then have "z = limbs n (lval x + B ^ n - lval y)" using e(1) assms by (intro limbs_eqI) simp_all
  then show ?thesis using s v(2) by simp
qed

lemma overflowing_mul_spec:
  assumes "length x = n" and "length y = n"
  shows "uint_overflowing_mul x y = (limbs n (lval x * lval y), B ^ n \<le> lval x * lval y)"
proof -
  obtain z f where s: "uint_overflowing_mul x y = (z, f)" by force
  have len: "length y = length x" using assms by simp
  have "z = limbs n (lval x * lval y)"
    using overflowing_mul_eq(1,2) [OF len s] assms by (intro limbs_eqI) simp_all
  then show ?thesis using s overflowing_mul_eq(3) [OF len s] assms by simp
qed

lemma uint_add_spec:
  "length x = n \<Longrightarrow> length y = n \<Longrightarrow>
     uint_add x y = (if lval x + lval y < B ^ n then Some (limbs n (lval x + lval y)) else panic)"
  by (simp add: uint_add_def overflowing_add_spec panic_on_overflow_def not_le)

lemma uint_sub_spec:
  "length x = n \<Longrightarrow> length y = n \<Longrightarrow>
     uint_sub x y = (if lval y \<le> lval x then Some (limbs n (lval x - lval y)) else panic)"
  using limbs_mod [of n "lval x - lval y + B ^ n", where 'a = 64]
    limbs_mod [of n "lval x - lval y", where 'a = 64]
  by (auto simp: uint_sub_def overflowing_sub_spec panic_on_overflow_def)

lemma uint_mul_spec:
  "length x = n \<Longrightarrow> length y = n \<Longrightarrow>
     uint_mul x y = (if lval x * lval y < B ^ n then Some (limbs n (lval x * lval y)) else panic)"
  by (simp add: uint_mul_def overflowing_mul_spec panic_on_overflow_def not_le)

lemma uint_checked_specs:
  assumes "length x = n" and "length y = n"
  shows "uint_checked_add x y = uint_add x y" "uint_checked_sub x y = uint_sub x y"
    "uint_checked_mul x y = uint_mul x y"
  by (auto simp: uint_checked_add_def uint_add_def uint_checked_sub_def uint_sub_def
      uint_checked_mul_def uint_mul_def checked_of_def panic_on_overflow_def split: prod.splits bool.splits)

lemma uint_saturating_specs:
  assumes "length x = n" and "length y = n"
  shows "lval (uint_saturating_add x y) = min (lval x + lval y) (B ^ n - 1)"
    and "lval (uint_saturating_sub x y) = lval x - lval y"
    and "lval (uint_saturating_mul x y) = min (lval x * lval y) (B ^ n - 1)"
proof -
  show "lval (uint_saturating_add x y) = min (lval x + lval y) (B ^ n - 1)"
    using assms by (cases "B ^ n \<le> lval x + lval y")
      (auto simp: uint_saturating_add_def overflowing_add_spec [OF assms] uint_max_value_MAX
        lval_MAX lval_limbs)
  show "lval (uint_saturating_mul x y) = min (lval x * lval y) (B ^ n - 1)"
    using assms by (cases "B ^ n \<le> lval x * lval y")
      (auto simp: uint_saturating_mul_def overflowing_mul_spec [OF assms] uint_max_value_MAX
        lval_MAX lval_limbs)
  show "lval (uint_saturating_sub x y) = lval x - lval y"
    using assms lval_bound [of x] by (cases "lval x < lval y")
      (auto simp: uint_saturating_sub_def overflowing_sub_spec [OF assms] lval_limbs le_mod_geq)
qed

lemma uint_mul_prim_spec:
  assumes "length x = n"
  shows "uint_mul_prim x m =
     (if lval x * unat m < B ^ n then Some (limbs n (lval x * unat m)) else panic)"
proof -
  obtain z c where s: "uint_overflowing_mul_u64 x m = (z, c)" by force
  note e = overflowing_mul_u64_eq [OF s]
  have z: "lval z < B ^ n" using lval_bound [of z] e(1) assms by simp
  show ?thesis
  proof (cases "c = 0")
    case True
    then have "lval z = lval x * unat m" using e(2) by simp
    then show ?thesis using True s z e(1) assms
      by (auto simp: uint_mul_prim_def intro: limbs_eqI)
  next
    case False
    then have "1 \<le> unat c" by (simp add: Suc_le_eq unat_gt_0)
    then have "1 * B ^ n \<le> unat c * B ^ n" by (intro mult_le_mono) simp_all
    also have "\<dots> \<le> lval z + unat c * B ^ length x" using assms by simp
    finally have "B ^ n \<le> lval x * unat m" by (simp add: e(2))
    then show ?thesis using False s by (simp add: uint_mul_prim_def word_gt_0)
  qed
qed

lemma overflowing_neg_spec:
  "length x = n \<Longrightarrow> uint_overflowing_neg x =
     (if lval x = 0 then (x, False) else (limbs n (B ^ n - 1 - lval x), True))"
proof -
  assume n: "length x = n"
  have "uint_not x = limbs n (B ^ n - 1 - lval x)"
    using lval_not [of x] n by (intro limbs_eqI) (simp_all add: less_imp_diff_less)
  then show ?thesis by (simp add: uint_overflowing_neg_def uint_is_zero_iff)
qed

subsection \<open>Properties\<close>

text \<open>
  C5. The operators \<^verbatim>\<open>+\<close>, \<^verbatim>\<open>-\<close> and \<^verbatim>\<open>*\<close> compute the exact sum, difference and product of
  the two numbers, and panic exactly when it does not fit into the words of the type.
\<close>

theorem arithmetic_operators_exact:
  assumes "length x = n" and "length y = n"
  shows "uint_add x y = (if lval x + lval y < B ^ n then Some (limbs n (lval x + lval y)) else panic) \<and>
    uint_sub x y = (if lval y \<le> lval x then Some (limbs n (lval x - lval y)) else panic) \<and>
    uint_mul x y = (if lval x * lval y < B ^ n then Some (limbs n (lval x * lval y)) else panic)"
  using assms by (simp add: uint_add_spec uint_sub_spec uint_mul_spec)

theorem arithmetic_operators_exact_witness:
  "uint_add [0xFFFFFFFFFFFFFFFF, 2] [1, 5] = Some [0, 8] \<and> uint_sub [0, 8] [1, 5] = Some [0xFFFFFFFFFFFFFFFF, 2]
   \<and> uint_mul [0xFFFFFFFFFFFFFFFF, 0] [2, 0] = Some [0xFFFFFFFFFFFFFFFE, 1] \<and> uint_add [0xFFFFFFFFFFFFFFFF, 0xFFFFFFFFFFFFFFFF] [1, 0] = panic"
  using arithmetic_operators_exact [of "[0xFFFFFFFFFFFFFFFF, 2]" 2 "[1, 5]"]
    arithmetic_operators_exact [of "[0, 8]" 2 "[1, 5]"]
    arithmetic_operators_exact [of "[0xFFFFFFFFFFFFFFFF, 0]" 2 "[2, 0]"]
    arithmetic_operators_exact [of "[0xFFFFFFFFFFFFFFFF, 0xFFFFFFFFFFFFFFFF]" 2 "[1, 0]"]
  by (simp add: literal_simps)

text \<open>
  C11. The overflowing operations return the result modulo \<open>2 ^ (64 * n)\<close>, with the flag set exactly
  when the exact result does not fit.
\<close>

theorem overflowing_operations_wrap:
  assumes "length x = n" and "length y = n"
  shows "uint_overflowing_add x y = (limbs n (lval x + lval y), B ^ n \<le> lval x + lval y) \<and>
    uint_overflowing_sub x y = (limbs n (lval x + B ^ n - lval y), lval x < lval y) \<and>
    uint_overflowing_mul x y = (limbs n (lval x * lval y), B ^ n \<le> lval x * lval y)"
  using assms by (simp add: overflowing_add_spec overflowing_sub_spec overflowing_mul_spec)

theorem overflowing_operations_wrap_witness:
  "uint_overflowing_add [0xFFFFFFFFFFFFFFFF, 0xFFFFFFFFFFFFFFFF] [2, 0] = ([1, 0], True) \<and>
   uint_overflowing_sub [0, 0] [1, 0] = ([0xFFFFFFFFFFFFFFFF, 0xFFFFFFFFFFFFFFFF], True) \<and>
   uint_overflowing_mul [0, 1] [0, 1] = ([0, 0], True)"
  using overflowing_operations_wrap [of "[0xFFFFFFFFFFFFFFFF, 0xFFFFFFFFFFFFFFFF]" 2 "[2, 0]"]
    overflowing_operations_wrap [of "[0, 0]" 2 "[1, 0]"]
    overflowing_operations_wrap [of "[0, 1]" 2 "[0, 1]"]
  by (simp add: literal_simps)

text \<open>
  The saturating operations clamp the exact result to the range of the type.
\<close>

theorem saturating_operations_clamp:
  assumes "length x = n" and "length y = n"
  shows "lval (uint_saturating_add x y) = min (lval x + lval y) (B ^ n - 1) \<and>
    lval (uint_saturating_sub x y) = lval x - lval y \<and>
    lval (uint_saturating_mul x y) = min (lval x * lval y) (B ^ n - 1)"
  using uint_saturating_specs [OF assms] by simp

theorem saturating_operations_clamp_witness:
  "lval (uint_saturating_add [0xFFFFFFFFFFFFFFFF, 0xFFFFFFFFFFFFFFFF] [2, 0]) = B ^ 2 - 1 \<and>
   lval (uint_saturating_sub [1, 0] [2, 0]) = 0 \<and>
   lval (uint_saturating_mul [3, 0] [5, 0]) = 15"
  using saturating_operations_clamp [of "[0xFFFFFFFFFFFFFFFF, 0xFFFFFFFFFFFFFFFF]" 2 "[2, 0]"]
    saturating_operations_clamp [of "[1, 0]" 2 "[2, 0]"]
    saturating_operations_clamp [of "[3, 0]" 2 "[5, 0]"]
  by (simp add: literal_simps)

end
