(* ===== verification/Uint_Div.thy ===== *)
theory Uint_Div
  imports Uint_Arith
begin

text \<open>
  Division of \<^verbatim>\<open>construct_uint!\<close> integers: \<^verbatim>\<open>div_mod_word\<close> (a 128-bit by 64-bit division on
  32-bit digits), \<^verbatim>\<open>div_mod_small\<close>, Knuth's algorithm D in \<^verbatim>\<open>div_mod_knuth\<close>, and
  \<^verbatim>\<open>div_mod\<close>, which selects between them. All of the plain arithmetic of these functions is
  panicking arithmetic here; the theorems show that none of it overflows, that the correction
  loops end, and that the results are the quotient and the remainder.
\<close>

subsection \<open>Division of two words by one\<close>

definition TWO32 :: u64 where
  "TWO32 = push_bit 32 1"

definition split_word :: "u64 \<Rightarrow> u64 \<times> u64" where
  "split_word a = (drop_bit 32 a, a AND 0xFFFFFFFF)"

text \<open>
  The two correction loops of \<^verbatim>\<open>div_mod_word\<close> differ only in the digit \<open>un\<close>; the result is the
  final quotient digit and \<^verbatim>\<open>rhat\<close>.
\<close>

partial_function (option) div_word_loop ::
  "u64 \<Rightarrow> u64 \<Rightarrow> u64 \<Rightarrow> u64 \<Rightarrow> u64 \<Rightarrow> (u64 \<times> u64) option" where
  "div_word_loop yn1 yn0 un q rhat =
     do {
       continue \<leftarrow> (if q \<ge> TWO32 then Some True
                   else do {
                     a \<leftarrow> pmul q yn0;
                     b \<leftarrow> pmul TWO32 rhat;
                     c \<leftarrow> padd b un;
                     Some (a > c) });
       if continue then
         do {
           q \<leftarrow> psub q 1;
           rhat \<leftarrow> padd rhat yn1;
           if rhat \<ge> TWO32 then Some (q, rhat) else div_word_loop yn1 yn0 un q rhat }
       else Some (q, rhat) }"

definition div_mod_word :: "u64 \<Rightarrow> u64 \<Rightarrow> u64 \<Rightarrow> (u64 \<times> u64) may_panic" where
  "div_mod_word hi lo y =
     do {
       rust_assert (hi < y);
       let s = word_leading_zeros y;
       let y = push_bit s y;
       let (yn1, yn0) = split_word y;
       let un32 = push_bit s hi OR (if 64 - s < 64 then drop_bit (64 - s) lo else 0);
       let un10 = push_bit s lo;
       let (un1, un0) = split_word un10;
       q1 \<leftarrow> pdiv un32 yn1;
       t \<leftarrow> pmul q1 yn1;
       rhat \<leftarrow> psub un32 t;
       (q1, rhat) \<leftarrow> div_word_loop yn1 yn0 un1 q1 rhat;
       let un21 = un32 * TWO32 + un1 - q1 * y;
       q0 \<leftarrow> pdiv un21 yn1;
       let rhat = un21 - q0 * yn1;
       (q0, rhat) \<leftarrow> div_word_loop yn1 yn0 un0 q0 rhat;
       let rem = un21 * TWO32 + un0 - y * q0;
       t \<leftarrow> pmul q1 TWO32;
       q \<leftarrow> padd t q0;
       Some (q, drop_bit s rem) }"

fun div_small_loop :: "u64 list \<Rightarrow> u64 \<Rightarrow> u64 \<Rightarrow> (u64 list \<times> u64) may_panic" where
  "div_small_loop [] other rem = Some ([], rem)"
| "div_small_loop (d # ds) other rem =
     do {
       (q, r) \<leftarrow> div_mod_word rem d other;
       (qs, rem) \<leftarrow> div_small_loop ds other r;
       Some (q # qs, rem) }"

definition uint_div_mod_small :: "uint \<Rightarrow> u64 \<Rightarrow> (uint \<times> uint) may_panic" where
  "uint_div_mod_small self other =
     do {
       (qs, rem) \<leftarrow> div_small_loop (rev self) other 0;
       Some (rev qs, uint_from_u64 (length self) rem) }"

subsection \<open>Algorithm D\<close>

definition uint_full_shl :: "uint \<Rightarrow> nat \<Rightarrow> u64 list may_panic" where
  "uint_full_shl self shift =
     do {
       rust_assert (shift < 64);
       let u_lo = push_bit shift (self ! 0);
       u_hi \<leftarrow> uint_shr self (uint_from_u64 (length self) (of_nat (64 - shift)));
       Some (u_lo # u_hi) }"

definition uint_full_shr :: "u64 list \<Rightarrow> nat \<Rightarrow> uint may_panic" where
  "uint_full_shr u shift =
     do {
       rust_assert (shift < 64);
       let n = length u - 1;
       let res = fold (\<lambda>i res. res[i := drop_bit shift (u ! i)]) [0..<n] (uint_zero n);
       Some (if shift > 0
             then fold (\<lambda>i res. res[i - 1 := res ! (i - 1) OR push_bit (64 - shift) (u ! i)])
                    [1..<n + 1] res
             else res) }"

definition uint_full_mul_u64 :: "uint \<Rightarrow> u64 \<Rightarrow> u64 list" where
  "uint_full_mul_u64 self by =
     (let (prod, carry) = uint_overflowing_mul_u64 self by in prod @ [carry])"

definition binop_carry ::
  "u64 \<Rightarrow> u64 \<Rightarrow> bool \<Rightarrow> (u64 \<Rightarrow> u64 \<Rightarrow> u64 \<times> bool) \<Rightarrow> u64 \<times> bool" where
  "binop_carry a b c binop =
     (let (res1, overflow1) = word_overflowing_add b (of_bool c);
          (res2, overflow2) = binop a res1
      in (res2, overflow1 \<or> overflow2))"

fun binop_slice ::
  "(u64 \<Rightarrow> u64 \<Rightarrow> u64 \<times> bool) \<Rightarrow> u64 list \<Rightarrow> u64 list \<Rightarrow> bool \<Rightarrow> u64 list \<times> bool" where
  "binop_slice binop (x # a) (y # b) c =
     (let (res, carry) = binop_carry x y c binop;
          (rest, c) = binop_slice binop a b carry
      in (res # rest, c))"
| "binop_slice binop a b c = (a, c)"

definition add_slice :: "u64 list \<Rightarrow> u64 list \<Rightarrow> u64 list \<times> bool" where
  "add_slice a b = binop_slice word_overflowing_add a b False"

definition sub_slice :: "u64 list \<Rightarrow> u64 list \<Rightarrow> u64 list \<times> bool" where
  "sub_slice a b = binop_slice word_overflowing_sub a b False"

partial_function (option) q_hat_loop ::
  "u64 \<Rightarrow> u64 \<Rightarrow> u64 \<Rightarrow> u64 \<Rightarrow> u64 \<Rightarrow> u64 option" where
  "q_hat_loop v_n_1 v_n_2 u_jn_2 q_hat r_hat =
     (let (hi, lo) = split_u128 (ucast q_hat * ucast v_n_2) in
      if hi < r_hat \<or> hi = r_hat \<and> lo \<le> u_jn_2 then Some q_hat
      else do {
        q_hat \<leftarrow> psub q_hat 1;
        let (new_r_hat, overflow) = word_overflowing_add r_hat v_n_1;
        if overflow then Some q_hat else q_hat_loop v_n_1 v_n_2 u_jn_2 q_hat new_r_hat })"

text \<open>
  The estimate \<^verbatim>\<open>q_hat\<close> of a quotient digit from the leading words of the divisor and of the
  dividend (step D3).
\<close>

definition q_hat_of :: "u64 \<Rightarrow> u64 \<Rightarrow> u64 \<Rightarrow> u64 \<Rightarrow> u64 \<Rightarrow> u64 may_panic" where
  "q_hat_of v_n_1 v_n_2 u_jn u_jn_1 u_jn_2 =
     (if u_jn < v_n_1 then
        do {
          (q_hat, r_hat) \<leftarrow> div_mod_word u_jn u_jn_1 v_n_1;
          q_hat_loop v_n_1 v_n_2 u_jn_2 q_hat r_hat }
      else Some (- 1))"

text \<open>
  One round of the loop over \<open>j\<close>, on the shifted dividend \<open>u\<close> (which becomes the shifted
  remainder) and the quotient \<open>q\<close>. A slice \<^verbatim>\<open>u[j..]\<close> that is written in place is put back
  behind \<open>take j u\<close>.
\<close>

definition knuth_step ::
  "uint \<Rightarrow> nat \<Rightarrow> nat \<Rightarrow> u64 list \<times> uint \<Rightarrow> (u64 list \<times> uint) may_panic" where
  "knuth_step v n j = (\<lambda>(u, q).
     do {
       rust_assert (j + n < length u);
       let v_n_1 = v ! (n - 1);
       let v_n_2 = v ! (n - 2);
       let u_jn = u ! (j + n);
       q_hat \<leftarrow> q_hat_of v_n_1 v_n_2 u_jn (u ! (j + n - 1)) (u ! (j + n - 2));
       let q_hat_v = uint_full_mul_u64 v q_hat;
       let (uj, c) = sub_slice (drop j u) (take (n + 1) q_hat_v);
       let u = take j u @ uj;
       (q_hat, u) \<leftarrow> (if c then
                        do {
                          q_hat \<leftarrow> psub q_hat 1;
                          let (uj, c) = add_slice (drop j u) (take n v);
                          let u = take j u @ uj;
                          Some (q_hat, u[j + n := u ! (j + n) + of_bool c]) }
                      else Some (q_hat, u));
       Some (u, q[j := q_hat]) })"

fun knuth_loop ::
  "uint \<Rightarrow> nat \<Rightarrow> nat \<Rightarrow> u64 list \<times> uint \<Rightarrow> (u64 list \<times> uint) may_panic" where
  "knuth_loop v n 0 st = Some st"
| "knuth_loop v n (Suc j) st = do { st \<leftarrow> knuth_step v n j st; knuth_loop v n j st }"

definition uint_div_mod_knuth :: "uint \<Rightarrow> uint \<Rightarrow> nat \<Rightarrow> nat \<Rightarrow> (uint \<times> uint) may_panic" where
  "uint_div_mod_knuth self v n m =
     do {
       rust_assert (uint_bits self \<ge> uint_bits v \<and> \<not> uint_fits_word v);
       rust_assert (n + m \<le> length self);
       rust_assert (2 \<le> n);
       let shift = word_leading_zeros (v ! (n - 1));
       v \<leftarrow> uint_shl v (uint_from_u64 (length v) (of_nat shift));
       u \<leftarrow> uint_full_shl self shift;
       (u, q) \<leftarrow> knuth_loop v n (Suc m) (u, uint_zero (length self));
       remainder \<leftarrow> uint_full_shr u shift;
       Some (q, remainder) }"

definition uint_words :: "nat \<Rightarrow> nat may_panic" where
  "uint_words bits = do { rust_assert (bits > 0); Some (1 + (bits - 1) div 64) }"

definition uint_div_mod :: "uint \<Rightarrow> uint \<Rightarrow> (uint \<times> uint) may_panic" where
  "uint_div_mod self other =
     do {
       let my_bits = uint_bits self;
       let your_bits = uint_bits other;
       rust_assert (your_bits \<noteq> 0);
       if my_bits < your_bits then Some (uint_zero (length self), self)
       else if your_bits \<le> 64 then uint_div_mod_small self (uint_low_u64 other)
       else do {
         my_words \<leftarrow> uint_words my_bits;
         your_words \<leftarrow> uint_words your_bits;
         let n = your_words;
         let m = my_words - your_words;
         uint_div_mod_knuth self other n m } }"

definition uint_div :: "uint \<Rightarrow> uint \<Rightarrow> uint may_panic" where
  "uint_div self other = map_option fst (uint_div_mod self other)"

definition uint_rem :: "uint \<Rightarrow> uint \<Rightarrow> uint may_panic" where
  "uint_rem self other = map_option snd (uint_div_mod self other)"

text \<open>\<^verbatim>\<open>checked_div\<close> and \<^verbatim>\<open>checked_rem\<close>: the outer option is a panic, the inner one the result.\<close>

definition uint_checked_div :: "uint \<Rightarrow> uint \<Rightarrow> uint option may_panic" where
  "uint_checked_div self other =
     (if uint_is_zero other then Some None else map_option Some (uint_div self other))"

definition uint_checked_rem :: "uint \<Rightarrow> uint \<Rightarrow> uint option may_panic" where
  "uint_checked_rem self other =
     (if uint_is_zero other then Some None else map_option Some (uint_rem self other))"


subsection \<open>Division of two words by one is exact\<close>


text \<open>The radix of the half-word digits.\<close>

abbreviation B32 :: nat where
  "B32 \<equiv> radix TYPE(32)"

lemma B_B32: "B = B32 * B32"
  by (simp add: radix_def)

lemma unat_TWO32 [simp]: "unat TWO32 = B32"
  by (simp add: TWO32_def radix_def)

lemma split_word_eq:
  assumes "split_word a = (hi, lo)"
  shows "unat hi = unat a div B32" and "unat lo = unat a mod B32" and "unat hi < B32" and "unat lo < B32"
proof -
  have "lo = a AND 0xFFFFFFFF" and hi: "hi = drop_bit 32 a" using assms by (auto simp: split_word_def)
  then have "lo = take_bit 32 a" by (simp add: take_bit_eq_mask mask_eq_exp_minus_1)
  with hi show "unat hi = unat a div B32" and lo: "unat lo = unat a mod B32"
    by (simp_all add: unat_drop_bit unat_take_bit radix_def)
  have "unat a < B32 * B32" using unat_lt_radix [of a] by (simp add: B_B32)
  then show "unat hi < B32" using \<open>unat hi = unat a div B32\<close> by (simp add: div_less_iff_less_mult)
  show "unat lo < B32" by (simp add: lo)
qed

text \<open>The test of the correction loops, over the numbers.\<close>

lemma digit_too_big:
  fixes q :: nat
  assumes "q * y1 + r = U" and "h * r + u < q * y0"
  shows "U * h + u < q * (y1 * h + y0)"
  using assms(2) by (simp add: algebra_simps flip: assms(1))

lemma digit_fits:
  fixes q :: nat
  assumes "q * y1 + r = U" and "q * y0 \<le> h * r + u"
  shows "q * (y1 * h + y0) \<le> U * h + u"
  using assms(2) by (simp add: algebra_simps flip: assms(1))

lemma digit_lt_base:
  fixes U :: nat
  assumes "U < Y" and "u < h"
  shows "U * h + u < h * Y" and "(U * h + u) div Y < h"
proof -
  have "h * Suc U \<le> h * Y" using assms(1) by (intro mult_le_mono) simp_all
  then show "U * h + u < h * Y" using assms(2) by (simp add: mult.commute)
  then show "(U * h + u) div Y < h" using assms(1) by (simp add: div_less_iff_less_mult)
qed

lemma quotient_eqI:
  fixes q :: nat
  assumes "0 < Y" "q * Y \<le> X" and "X div Y \<le> q"
  shows "X div Y = q"
  using assms by (simp add: le_antisym less_eq_div_iff_mult_less_eq)

lemma div_word_loop_step:
  fixes yn1 yn0 un q rhat :: u64
  assumes "unat yn1 < B32" "unat yn0 < B32" "unat un < B32" "unat rhat < B32"
  shows "div_word_loop yn1 yn0 un q rhat =
     (if B32 \<le> unat q \<or> B32 * unat rhat + unat un < unat q * unat yn0
      then let q = of_nat (unat q - 1); rhat = of_nat (unat rhat + unat yn1)
           in if TWO32 \<le> rhat then Some (q, rhat) else div_word_loop yn1 yn0 un q rhat
      else Some (q, rhat))"
proof -
  have HB: "B32 * unat rhat + unat un < B" 
    using digit_lt_base(1) [of "unat rhat" B32 "unat un" B32] assms by (simp add: B_B32 mult.commute)
  have "B32 + B32 \<le> B" using mult_le_mono1 [of 2 B32 B32] radix_ge_2 [where 'a = 32] by (simp only: B_B32 mult_2)
  then have r: "unat rhat + unat yn1 < B" using assms by linarith
  show ?thesis
  proof (cases "B32 \<le> unat q")
    case True
    then have "1 \<le> unat q" using radix_pos [where 'a = 32] by linarith
    then show ?thesis using True r
      by (subst div_word_loop.simps) (simp add: word_le_nat_alt panic_simps Let_def)
  next
    case False
    then have "unat q * unat yn0 + 0 < B32 * B32" using assms(2) by (intro mul_carry_bound) simp_all
    then have "unat q * unat yn0 < B" by (simp add: B_B32)
    moreover have "unat TWO32 * unat rhat < B" using HB by simp
    moreover have e: "unat (of_nat B32 * rhat) = B32 * unat rhat"
      using HB unat_of_nat_lt [of "B32 * unat rhat", where 'a = 64] by simp
    moreover from this have "unat (of_nat B32 * rhat + un) = B32 * unat rhat + unat un"
      using HB by (simp add: unat_add_radix)
    moreover have "unat (q * yn0) = unat q * unat yn0"
      using \<open>unat q * unat yn0 < B\<close> by (simp add: unat_mult_radix)
    moreover have "1 \<le> unat q" if "B32 * unat rhat + unat un < unat q * unat yn0"
      using that by (cases "unat q") simp_all
    ultimately show ?thesis using False HB r
      by (subst div_word_loop.simps)
         (simp add: word_le_nat_alt word_less_nat_alt panic_simps Let_def unat_of_nat_lt)
  qed
qed

text \<open>An estimate that the loop lowers is too big, and one it keeps because the remainder left the digits is right.\<close>

lemma estimate_too_big:
  fixes q r y1 y0 u U :: nat
  assumes "U < y1 * B32 + y0" "u < B32" "q * y1 + r = U" "B32 \<le> q \<or> B32 * r + u < q * y0"
  shows "(U * B32 + u) div (y1 * B32 + y0) < q"
proof (cases "B32 \<le> q")
  case True
  then show ?thesis using digit_lt_base(2) [OF assms(1,2)] by linarith
next
  case False
  then have "U * B32 + u < q * (y1 * B32 + y0)"
    using digit_too_big [OF assms(3), of B32 u y0] assms(4) by simp
  then show ?thesis by (rule less_mult_imp_div_less)
qed

lemma estimate_right:
  fixes q r y1 y0 u U :: nat
  assumes "U < y1 * B32 + y0" "y0 < B32" "q * y1 + r = U" "B32 \<le> r" "(U * B32 + u) div (y1 * B32 + y0) \<le> q"
  shows "(U * B32 + u) div (y1 * B32 + y0) = q"
proof -
  have "q < B32"
  proof (rule ccontr)
    assume "\<not> q < B32"
    then have "B32 * y1 \<le> q * y1" by (intro mult_le_mono) simp_all
    moreover have "U < B32 * y1 + y0" using assms(1) by (simp add: mult.commute)
    ultimately show False using assms(2-4) by linarith
  qed
  then have "q * y0 \<le> B32 * r" using assms(2,4) by (intro mult_le_mono) simp_all
  then have "q * (y1 * B32 + y0) \<le> U * B32 + u" using digit_fits [OF assms(3), of y0 B32 u] by simp
  then show ?thesis using quotient_eqI assms(1,5) by (metis not_less_zero zero_less_iff_neq_zero)
qed

lemma div_word_loop_spec:
  fixes yn1 yn0 un q rhat :: u64 and U :: nat
  defines "Y \<equiv> unat yn1 * B32 + unat yn0"
  assumes y: "0 < unat yn1" "unat yn1 < B32" "unat yn0 < B32" and un: "unat un < B32" and U: "U < Y"
    and "unat q * unat yn1 + unat rhat = U" "unat rhat < B32" "(U * B32 + unat un) div Y \<le> unat q"
  shows "\<exists>r. div_word_loop yn1 yn0 un q rhat = Some (of_nat ((U * B32 + unat un) div Y), r)"
  using assms(7-9)
proof (induction "B32 - unat rhat" arbitrary: q rhat rule: less_induct)
  case less
  let ?X = "U * B32 + unat un"
  note step = div_word_loop_step [OF y(2,3) un less.prems(2)]
  show ?case
  proof (cases "B32 \<le> unat q \<or> B32 * unat rhat + unat un < unat q * unat yn0")
    case False
    then have "unat q * Y \<le> ?X"
      using digit_fits [OF less.prems(1), of "unat yn0" B32 "unat un"] by (simp add: Y_def)
    then have "?X div Y = unat q"
      using quotient_eqI less.prems(3) U by (metis not_less_zero zero_less_iff_neq_zero)
    then show ?thesis using False by (simp add: step)
  next
    case True
    have "?X div Y < unat q" unfolding Y_def by (rule estimate_too_big) (use U un less.prems(1) True in \<open>simp_all add: Y_def\<close>)
    define q' where "q' = unat q - 1"
    define r' where "r' = unat rhat + unat yn1"
    have q: "unat q = Suc q'" using \<open>?X div Y < unat q\<close> by (simp add: q'_def)
    have le: "?X div Y \<le> q'" and inv: "q' * unat yn1 + r' = U"
      using \<open>?X div Y < unat q\<close> less.prems(1) by (simp_all add: q r'_def)
    have "B32 + B32 \<le> B" using mult_le_mono1 [of 2 B32 B32] radix_ge_2 [where 'a = 32] by (simp only: B_B32 mult_2)
    then have "r' < B" using less.prems(2) y(2) by (simp add: r'_def)
    then have ur: "unat (of_nat r' :: u64) = r'" by (simp add: unat_of_nat_lt)
    have uq: "unat (of_nat q' :: u64) = q'"
      using unat_lt_radix [of q] q by (simp add: unat_of_nat_lt)
    have st: "div_word_loop yn1 yn0 un q rhat =
       (if B32 \<le> r' then Some (of_nat q', of_nat r') else div_word_loop yn1 yn0 un (of_nat q') (of_nat r'))"
      using True by (simp add: step Let_def word_le_nat_alt ur q r'_def [symmetric])
    show ?thesis
    proof (cases "B32 \<le> r'")
      case True
      have "?X div Y = q'" unfolding Y_def by (rule estimate_right) (use U y(3) inv True le in \<open>simp_all add: Y_def\<close>)
      then show ?thesis using True by (simp add: st)
    next
      case False
      have "B32 - r' < B32 - unat rhat" using False y(1) by (simp add: r'_def)
      then show ?thesis using less.hyps [of "of_nat r'" "of_nat q'"] inv le False
        by (simp add: st ur uq)
    qed
  qed
qed

text \<open>Normalisation: the divisor is shifted until its top bit is set.\<close>

lemma leading_zeros_normalises:
  fixes y :: "'a::len word"
  assumes "y \<noteq> 0"
  shows "word_leading_zeros y < LENGTH('a)"
    and "unat y * 2 ^ word_leading_zeros y < radix TYPE('a)"
    and "radix TYPE('a) \<le> 2 * (unat y * 2 ^ word_leading_zeros y)"
proof -
  let ?s = "word_leading_zeros y"
  have y: "0 < unat y" using assms by (simp add: unat_gt_0)
  define b where "b = nat_bits (unat y) - 1"
  have b: "nat_bits (unat y) = Suc b" using y by (cases "nat_bits (unat y)") (simp_all add: b_def)
  have s: "?s + Suc b = LENGTH('a)" using word_leading_zeros_bits [of y] b by simp
  then show "?s < LENGTH('a)" by simp
  have "2 ^ b \<le> unat y" "unat y < 2 ^ Suc b"
    using nat_bits_lower [OF y] nat_bits_upper [of "unat y"] b by simp_all
  then have "unat y * 2 ^ ?s < 2 ^ Suc b * 2 ^ ?s" "2 ^ Suc b * 2 ^ ?s \<le> 2 * (unat y * 2 ^ ?s)"
    by simp_all
  moreover have "radix TYPE('a) = 2 ^ Suc b * 2 ^ ?s"
    by (simp only: radix_def s [symmetric] power_add mult.commute)
  ultimately show "unat y * 2 ^ ?s < radix TYPE('a)" "radix TYPE('a) \<le> 2 * (unat y * 2 ^ ?s)"
    by (simp_all only:)
qed

lemma shift_pair:
  fixes hi lo :: u64
  assumes "s < 64" and "unat hi * 2 ^ s < B"
  shows "unat (push_bit s hi OR (if 64 - s < 64 then drop_bit (64 - s) lo else 0)) =
      (unat hi * B + unat lo) * 2 ^ s div B"
    and "unat (push_bit s lo) = (unat hi * B + unat lo) * 2 ^ s mod B"
proof -
  have e: "(unat hi * B + unat lo) * 2 ^ s = unat lo * 2 ^ s + unat hi * 2 ^ s * B"
    by (simp add: algebra_simps)
  show "unat (push_bit s lo) = (unat hi * B + unat lo) * 2 ^ s mod B"
    by (simp add: e unat_push_bit)
  have B: "B = 2 ^ (64 - s) * 2 ^ s" using assms(1) by (simp add: B_eq flip: power_add)
  have d: "unat lo * 2 ^ s div B = unat lo div 2 ^ (64 - s)"
    by (simp add: B)
  have dl: "unat lo div 2 ^ (64 - s) < 2 ^ s"
    using unat_lt_radix [of lo] by (simp add: B div_less_iff_less_mult mult.commute)
  have h: "unat (push_bit s hi) = unat hi * 2 ^ s" using assms(2) by (simp add: unat_push_bit)
  have "push_bit s hi OR drop_bit (64 - s) lo = push_bit s hi + drop_bit (64 - s) lo"
  proof (rule disjunctive_add_eq_or [symmetric], rule bit_word_eqI)
    fix n
    assume "n < LENGTH(64)"
    have "\<not> bit (drop_bit (64 - s) lo) n" if "s \<le> n"
      using that by (auto simp: bit_drop_bit_eq dest: bit_imp_le_length)
    then show "bit (push_bit s hi AND drop_bit (64 - s) lo) n = bit 0 n"
      by (auto simp: bit_and_iff bit_push_bit_iff)
  qed
  moreover have "unat (push_bit s hi + drop_bit (64 - s) lo) = unat hi * 2 ^ s + unat lo div 2 ^ (64 - s)"
  proof -
    have "unat hi < 2 ^ (64 - s)" using assms(2) by (simp add: B)
    then have "Suc (unat hi) * 2 ^ s \<le> 2 ^ (64 - s) * 2 ^ s" by (intro mult_le_mono) simp_all
    then have "unat hi * 2 ^ s + unat lo div 2 ^ (64 - s) < B" using dl by (simp only: B) simp
    then show ?thesis by (simp add: unat_add_radix h unat_drop_bit)
  qed
  moreover have "unat lo div B = 0" using unat_lt_radix [of lo] by simp
  ultimately show "unat (push_bit s hi OR (if 64 - s < 64 then drop_bit (64 - s) lo else 0)) =
      (unat hi * B + unat lo) * 2 ^ s div B"
    using assms(1) by (cases "s = 0") (simp_all add: e d h)
qed

lemma div_word_digit:
  fixes yn1 yn0 un :: u64 and U :: nat
  defines "Y \<equiv> unat yn1 * B32 + unat yn0"
  assumes y: "0 < unat yn1" "unat yn1 < B32" "unat yn0 < B32" and un: "unat un < B32" and U: "U < Y"
  shows "\<exists>r. div_word_loop yn1 yn0 un (of_nat (U div unat yn1)) (of_nat (U mod unat yn1))
    = Some (of_nat ((U * B32 + unat un) div Y), r)"
proof -
  have "Y < B32 * B32" using digit_lt_base(1) [OF y(2,3)] by (simp add: Y_def)
  then have "U div unat yn1 < B" "U mod unat yn1 < B"
    using U y(1) B_B32 by (simp_all add: le_less_trans [OF div_le_dividend] le_less_trans [OF mod_less_eq_dividend])
  then have q: "unat (of_nat (U div unat yn1) :: u64) = U div unat yn1"
    and r: "unat (of_nat (U mod unat yn1) :: u64) = U mod unat yn1"
    by (simp_all add: unat_of_nat_lt)
  have "U * B32 + unat un < (U + 1) * B32" using un by (simp add: algebra_simps)
  also have "\<dots> \<le> (U div unat yn1 + 1) * unat yn1 * B32"
    using y(1) dividend_less_div_times [of "unat yn1" U]
    by (intro mult_le_mono order_refl) (simp add: algebra_simps)
  also have "\<dots> \<le> (U div unat yn1 + 1) * Y" by (simp add: Y_def algebra_simps)
  finally have "(U * B32 + unat un) div Y \<le> U div unat yn1"
    using U by (simp add: div_less_iff_less_mult flip: less_Suc_eq_le)
  moreover have "U mod unat yn1 < B32" using mod_less_divisor [OF y(1), of U] y(2) by linarith
  ultimately show ?thesis
    using div_word_loop_spec [OF y un, of U "of_nat (U div unat yn1)" "of_nat (U mod unat yn1)"] U
    by (simp add: q r Y_def)
qed

lemma two_digit_division:
  fixes X u1 u0 h Y :: nat
  assumes "0 < Y" and "u0 < h"
  shows "((X * h + u0)) div Y = X div Y * h + (X mod Y * h + u0) div Y"
    and "((X * h + u0)) mod Y = (X mod Y * h + u0) mod Y"
proof -
  have "X * h + u0 = (X div Y * Y + X mod Y) * h + u0" by simp
  also have "\<dots> = X mod Y * h + u0 + X div Y * h * Y" by (simp only: algebra_simps)
  finally have e: "X * h + u0 = X mod Y * h + u0 + X div Y * h * Y" .
  show "(X * h + u0) div Y = X div Y * h + (X mod Y * h + u0) div Y"
    by (subst e) (use assms(1) in simp)
  show "(X * h + u0) mod Y = (X mod Y * h + u0) mod Y" by (subst e) simp
qed

lemma TWO32_eq: "TWO32 = of_nat B32"
  by (simp add: word_unat_eq_iff unat_of_nat_radix B_B32)

lemma wrapping_mod: "(of_nat X :: 'a::len word) - of_nat (X div Y) * of_nat Y = of_nat (X mod Y)"
proof -
  have "(of_nat X :: 'a word) = of_nat (X div Y * Y + X mod Y)" by simp
  then show ?thesis by (simp only: of_nat_add of_nat_mult add_diff_cancel_left')
qed

lemma checked_div_mod:
  fixes a b :: "'a::len word"
  assumes "0 < unat b"
  shows "pdiv a b = Some (of_nat (unat a div unat b))"
    and "pmul (of_nat (unat a div unat b)) b = Some (of_nat (unat a div unat b) * b)"
    and "psub a (of_nat (unat a div unat b) * b) = Some (of_nat (unat a mod unat b))"
proof -
  let ?q = "of_nat (unat a div unat b) :: 'a word"
  have q: "unat ?q = unat a div unat b"
    using unat_lt_radix [of a] by (intro unat_of_nat_lt le_less_trans [OF div_le_dividend])
  have le: "unat ?q * unat b \<le> unat a" by (simp add: q)
  then have lt: "unat ?q * unat b < radix TYPE('a)" using unat_lt_radix [of a] by linarith
  then have m: "unat (?q * b) = unat ?q * unat b" by (simp add: unat_mult_radix)
  show "pdiv a b = Some ?q" using assms by (simp only: pdiv_ok)
  show "pmul ?q b = Some (?q * b)" using lt by (simp only: pmul_ok) simp
  show "psub a (?q * b) = Some (of_nat (unat a mod unat b))"
    using le by (simp only: psub_ok m) (simp only: q minus_div_mult_eq_mod)
qed

text \<open>The division of the shifted operands, whose divisor has its top bit set.\<close>

lemma div_mod_normalised:
  fixes y un32 yn1 yn0 un1 un0 :: u64
  defines "X \<equiv> unat un32 * B32 + unat un1"
  assumes sy: "split_word y = (yn1, yn0)" and top: "B \<le> 2 * unat y"
    and un32: "unat un32 < unat y" and un: "unat un1 < B32" "unat un0 < B32"
  shows "do {
       q1 \<leftarrow> pdiv un32 yn1;
       t \<leftarrow> pmul q1 yn1;
       rhat \<leftarrow> psub un32 t;
       (q1, rhat) \<leftarrow> div_word_loop yn1 yn0 un1 q1 rhat;
       let un21 = un32 * TWO32 + un1 - q1 * y;
       q0 \<leftarrow> pdiv un21 yn1;
       let rhat = un21 - q0 * yn1;
       (q0, rhat) \<leftarrow> div_word_loop yn1 yn0 un0 q0 rhat;
       let rem = un21 * TWO32 + un0 - y * q0;
       t \<leftarrow> pmul q1 TWO32;
       q \<leftarrow> padd t q0;
       Some (q, drop_bit s rem) } =
    Some (of_nat ((X * B32 + unat un0) div unat y), drop_bit s (of_nat ((X * B32 + unat un0) mod unat y)))"
proof -
  define Y where "Y = unat y"
  note ys = split_word_eq [OF sy]
  have Ysplit: "Y = unat yn1 * B32 + unat yn0" using ys by (simp add: Y_def)
  have Yw: "y = of_nat Y" by (simp add: Y_def)
  have yn1: "0 < unat yn1"
  proof (rule ccontr)
    assume "\<not> 0 < unat yn1"
    then have "unat y < B32" using Ysplit ys(4) by (simp add: Y_def)
    moreover have "2 * B32 \<le> B" unfolding B_B32 by (intro mult_le_mono order_refl radix_ge_2)
    ultimately show False using top by linarith
  qed
  define R where "R = X mod Y"
  have Y0: "0 < Y" using un32 by (simp add: Y_def)
  have R: "R < Y" using Y0 by (simp add: R_def)
  define un21 :: u64 where "un21 = of_nat R"
  have un21: "unat un21 = R"
    using R unat_lt_radix [of y] by (simp add: unat_of_nat_lt un21_def Y_def)
  obtain r1 where l1: "div_word_loop yn1 yn0 un1 (of_nat (unat un32 div unat yn1))
      (of_nat (unat un32 mod unat yn1)) = Some (of_nat (X div Y), r1)"
    using div_word_digit [OF yn1 ys(3,4) un(1), of "unat un32"] un32
    by (auto simp: X_def Ysplit [symmetric] Y_def)
  obtain r0 where l0: "div_word_loop yn1 yn0 un0 (of_nat (unat un21 div unat yn1))
      (of_nat (unat un21 mod unat yn1)) = Some (of_nat ((R * B32 + unat un0) div Y), r0)"
    using div_word_digit [OF yn1 ys(3,4) un(2), of "unat un21"] R
    by (auto simp: Ysplit [symmetric] un21)
  have e1: "un32 * TWO32 + un1 - of_nat (X div Y) * y = un21"
    using wrapping_mod [of X Y, where 'a = 64]
    by (simp add: Yw un21_def R_def) (simp add: X_def TWO32_eq)
  have e2: "un21 - of_nat (unat un21 div unat yn1) * yn1 = of_nat (unat un21 mod unat yn1)"
    using wrapping_mod [of "unat un21" "unat yn1", where 'a = 64] by simp
  have e3: "un21 * TWO32 + un0 - y * of_nat ((R * B32 + unat un0) div Y) = of_nat ((R * B32 + unat un0) mod Y)"
    using wrapping_mod [of "R * B32 + unat un0" Y, where 'a = 64] by (simp add: Yw TWO32_eq un21_def mult.commute)
  have X: "X div Y < B32" using digit_lt_base(2) [of "unat un32" Y "unat un1" B32] un32 un by (simp add: X_def Y_def)
  have q0: "(R * B32 + unat un0) div Y < B32" using digit_lt_base(2) [OF R un(2)] .
  define q1 q0 :: u64 where "q1 = of_nat (X div Y)" and "q0 = of_nat ((R * B32 + unat un0) div Y)"
  have "B32 \<le> B" using mult_le_mono [of 1 B32 B32 B32] by (simp add: B_B32 Suc_leI)
  then have q1u: "unat q1 = X div Y" and q0u: "unat q0 = (R * B32 + unat un0) div Y"
    using X q0 by (simp_all add: unat_of_nat_lt q1_def q0_def)
  have qB: "unat q1 * B32 + unat q0 < B"
    using digit_lt_base(1) [of "unat q1" B32 "unat q0" B32] X q0 by (simp add: q1u q0u B_B32)
  then have t: "pmul q1 TWO32 = Some (q1 * TWO32)" "unat (q1 * TWO32) = unat q1 * B32"
    by (simp_all only: pmul_ok unat_TWO32 unat_mult_radix) (simp_all add: TWO32_eq)
  then have p: "padd (q1 * TWO32) q0 = Some (of_nat ((X * B32 + unat un0) div Y))"
    using qB two_digit_division(1) [OF Y0 un(2), of X] by (simp add: padd_ok q1u q0u R_def)
  have m: "(X * B32 + unat un0) mod Y = (R * B32 + unat un0) mod Y"
    using two_digit_division(2) [OF Y0 un(2), of X] by (simp add: R_def)
  note cd = checked_div_mod [OF yn1]
  show ?thesis
    by (simp only: cd Option.bind.simps l1 [folded q1_def] l0 [folded q0_def] e1 [folded q1_def] e2
        e3 [folded q0_def] Let_def prod.case t p m flip: Y_def)
qed

lemma div_mod_word_spec:
  fixes hi lo y :: u64
  assumes "hi < y"
  shows "div_mod_word hi lo y =
    Some (of_nat ((unat hi * B + unat lo) div unat y), of_nat ((unat hi * B + unat lo) mod unat y))"
proof -
  define s where "s = word_leading_zeros y"
  define y' where "y' = push_bit s y"
  define N where "N = unat hi * B + unat lo"
  define un32 where "un32 = push_bit s hi OR (if 64 - s < 64 then drop_bit (64 - s) lo else 0)"
  have "y \<noteq> 0" using assms by auto
  note norm = leading_zeros_normalises [OF this, folded s_def]
  have y': "unat y' = unat y * 2 ^ s" using norm(2) by (simp add: unat_push_bit y'_def)
  obtain yn1 yn0 where sy: "split_word y' = (yn1, yn0)" by force
  obtain un1 un0 where su: "split_word (push_bit s lo) = (un1, un0)" by force
  note us = split_word_eq [OF su]
  have hiy: "unat hi < unat y" using assms by (simp add: word_less_nat_alt)
  then have "unat hi * 2 ^ s < unat y * 2 ^ s" by simp
  then have "unat hi * 2 ^ s < B" using norm(2) by linarith
  moreover have "s < 64" using norm(1) by simp
  ultimately have un32_eq: "unat un32 = N * 2 ^ s div B" and un10_eq: "unat (push_bit s lo) = N * 2 ^ s mod B"
    using shift_pair [of s hi lo] by (simp_all only: N_def un32_def)
  have "N < B * unat y"
    using digit_lt_base(1) [OF hiy unat_lt_radix [of lo]] by (simp add: N_def)
  then have un32: "unat un32 < unat y'"
    by (simp add: y' un32_eq div_less_iff_less_mult mult.commute)
  have N2: "(unat un32 * B32 + unat un1) * B32 + unat un0 = N * 2 ^ s"
  proof -
    have "N * 2 ^ s = unat un32 * B + unat (push_bit s lo)" by (simp only: un32_eq un10_eq div_mult_mod_eq)
    moreover have "unat (push_bit s lo) = unat un1 * B32 + unat un0" by (simp only: us(1,2) div_mult_mod_eq)
    ultimately show ?thesis by (simp add: B_B32 algebra_simps)
  qed
  have "N * 2 ^ s mod (unat y * 2 ^ s) < B" using norm(2) by (intro le_less_trans [OF mod_le_divisor]) (use hiy in simp_all)
  moreover have "N mod unat y < B"
    using hiy unat_lt_radix [of y] by (intro less_trans [OF mod_less_divisor]) simp_all
  ultimately have "drop_bit s (of_nat (N * 2 ^ s mod (unat y * 2 ^ s)) :: u64) = of_nat (N mod unat y)"
    by (simp only: word_unat_eq_iff unat_drop_bit unat_of_nat_radix mult_mod_left mod_less) simp
  then show ?thesis
    using div_mod_normalised [OF sy _ un32 us(3,4), of s] norm(3) assms
    unfolding div_mod_word_def
    by (simp add: s_def [symmetric] y'_def [symmetric] un32_def [symmetric] N_def [symmetric] sy su N2 y' Let_def)
qed


lemma div_small_loop_spec:
  assumes "rem < other"
  shows "\<exists>qs r. div_small_loop ds other rem = Some (qs, r) \<and> length qs = length ds \<and>
    lval (rev qs) = (unat rem * B ^ length ds + lval (rev ds)) div unat other \<and>
    unat r = (unat rem * B ^ length ds + lval (rev ds)) mod unat other"
  using assms
proof (induction ds arbitrary: rem)
  case Nil
  then show ?case by (simp add: word_less_nat_alt)
next
  case (Cons d ds)
  let ?N = "unat rem * B + unat d" and ?o = "unat other" and ?k = "length ds"
  have rem: "unat rem < ?o" using Cons.prems by (simp add: word_less_nat_alt)
  then have o: "0 < ?o" by simp
  define q r :: u64 where "q = of_nat (?N div ?o)" and "r = of_nat (?N mod ?o)"
  have "?N div ?o < B" using digit_lt_base(2) [OF rem unat_lt_radix] .
  then have q: "unat q = ?N div ?o" by (simp add: q_def unat_of_nat_lt)
  have "?N mod ?o < B" using o unat_lt_radix [of other] by (meson less_trans mod_less_divisor)
  then have r: "unat r = ?N mod ?o" by (simp add: r_def unat_of_nat_lt)
  then have "r < other" using o by (simp add: word_less_nat_alt)
  from Cons.IH [OF this] obtain qs r' where IH: "div_small_loop ds other r = Some (qs, r')"
    "length qs = ?k"
    "lval (rev qs) = (unat r * B ^ ?k + lval (rev ds)) div ?o"
    "unat r' = (unat r * B ^ ?k + lval (rev ds)) mod ?o"
    by blast
  have "lval (rev ds) < B ^ ?k" using lval_bound [of "rev ds"] by simp
  note td = two_digit_division [OF o this, of ?N]
  have e: "unat rem * B ^ length (d # ds) + lval (rev (d # ds)) = ?N * B ^ ?k + lval (rev ds)"
    by (simp add: lval_append algebra_simps)
  have "lval (rev (q # qs)) = (?N * B ^ ?k + lval (rev ds)) div ?o"
    by (simp add: td(1) lval_append IH q r)
  moreover have "unat r' = (?N * B ^ ?k + lval (rev ds)) mod ?o" by (simp add: td(2) IH r)
  moreover have "div_small_loop (d # ds) other rem = Some (q # qs, r')"
    using IH(1) by (simp add: div_mod_word_spec [OF Cons.prems] q_def [symmetric] r_def [symmetric])
  ultimately show ?case using IH(2) by (simp only: e) simp
qed

lemma div_mod_small_spec:
  assumes "other \<noteq> 0" and "x \<noteq> []"
  shows "uint_div_mod_small x other =
    Some (limbs (length x) (lval x div unat other), limbs (length x) (lval x mod unat other))"
proof -
  have "(0 :: u64) < other" using assms(1) by (simp add: word_gt_0)
  from div_small_loop_spec [OF this, of "rev x"] obtain qs r where
    l: "div_small_loop (rev x) other 0 = Some (qs, r)" "length qs = length x"
      "lval (rev qs) = lval x div unat other" "unat r = lval x mod unat other"
    by auto
  have b: "lval x div unat other < B ^ length x" "lval x mod unat other < B ^ length x"
    using lval_bound [of x] by (meson div_le_dividend mod_less_eq_dividend le_less_trans)+
  have "rev qs = limbs (length x) (lval x div unat other)" using l b by (intro limbs_eqI) simp_all
  moreover have "uint_from_u64 (length x) r = limbs (length x) (lval x mod unat other)"
    using l b assms(2) by (intro limbs_eqI) simp_all
  ultimately show ?thesis by (simp add: uint_div_mod_small_def l)
qed


context word_binop
begin

lemma binop_carry_eq:
  assumes "binop_carry a b c fn = (r, ov)"
  shows "int (unat r) = int (unat a) + s * (int (unat b) + of_bool c) - s * of_bool ov * int B"
proof -
  obtain r1 o1 where s1: "word_overflowing_add b (of_bool c) = (r1, o1)" by force
  obtain r2 o2 where s2: "fn a r1 = (r2, o2)" by force
  have r: "r = r2" "ov = (o1 \<or> o2)" using assms s1 s2 by (simp_all add: binop_carry_def)
  have e1: "int (unat r1) = int (unat b) + of_bool c - of_bool o1 * int B"
    using add_op.fn_eq [OF s1] by simp
  have "\<not> (o1 \<and> o2)"
  proof
    assume o: "o1 \<and> o2"
    then have "uint r1 = 0"
      using e1 uint_bounds_radix [of b] uint_bounds_radix [of r1] by (cases c) auto
    then show False
      using fn_eq [OF s2] o sign uint_bounds_radix [of a] uint_bounds_radix [of r2] by auto
  qed
  then show ?thesis
    using fn_eq [OF s2] e1 sign by (elim disjE; cases o1; cases o2) (simp_all add: r)
qed

lemma binop_slice_eq:
  "length b \<le> length a \<Longrightarrow> binop_slice fn a b c = (r, c') \<Longrightarrow>
     \<exists>t. r = t @ drop (length b) a \<and> length t = length b \<and>
       int (lval t) = int (lval (take (length b) a)) + s * (int (lval b) + of_bool c)
         - s * of_bool c' * int B ^ length b"
proof (induction b arbitrary: a c r)
  case Nil
  then show ?case by auto
next
  case (Cons y b)
  obtain x a' where a: "a = x # a'" using Cons.prems(1) by (cases a) auto
  obtain res carry where bc: "binop_carry x y c fn = (res, carry)" by force
  obtain rest where bs: "binop_slice fn a' b carry = (rest, c')" and r: "r = res # rest"
    using Cons.prems(2) bc by (auto simp: a split: prod.splits)
  obtain t where IH: "rest = t @ drop (length b) a'" "length t = length b"
    "int (lval t) = int (lval (take (length b) a')) + s * (int (lval b) + of_bool carry)
         - s * of_bool c' * int B ^ length b"
    using Cons.IH [OF _ bs] Cons.prems(1) a by auto
  from IH(3) have "int B * int (lval t) = int B * (int (lval (take (length b) a'))
      + s * (int (lval b) + of_bool carry) - s * of_bool c' * int B ^ length b)" by (simp only:)
  then have "int (lval (res # t)) = int (lval (take (length (y # b)) a))
      + s * (int (lval (y # b)) + of_bool c) - s * of_bool c' * int B ^ length (y # b)"
    using binop_carry_eq [OF bc] by (simp add: a algebra_simps)
  then show ?case using IH(1,2) by (intro exI [of _ "res # t"]) (simp add: r a)
qed

end

lemma add_slice_spec:
  assumes "length b \<le> length a"
  shows "add_slice a b = (limbs (length b) (lval (take (length b) a) + lval b) @ drop (length b) a,
    B ^ length b \<le> lval (take (length b) a) + lval b)"
proof -
  let ?k = "length b" and ?A = "lval (take (length b) a)"
  obtain r c where s: "binop_slice word_overflowing_add a b False = (r, c)" by force
  obtain t where t: "r = t @ drop ?k a" "length t = ?k"
    and "int (lval t) = int ?A + int (lval b) - of_bool c * int B ^ ?k"
    using add_op.binop_slice_eq [OF assms s] by auto
  then have "int (lval t + of_bool c * B ^ ?k) = int (?A + lval b)" by simp
  then have e: "lval t + of_bool c * B ^ ?k = ?A + lval b" by (simp only: of_nat_eq_iff)
  have lt: "lval t < B ^ ?k" using lval_bound [of t] t(2) by simp
  then have "c \<longleftrightarrow> B ^ ?k \<le> ?A + lval b" using e by (cases c) auto
  moreover have "lval t = (?A + lval b) mod B ^ ?k"
    using lt e by (metis mod_less mod_mult_self1 mult.commute)
  then have "t = limbs ?k (?A + lval b)" using t(2) by (intro limbs_eqI)
  ultimately show ?thesis using s t(1) by (simp add: add_slice_def)
qed

lemma sub_slice_spec:
  assumes "length b \<le> length a"
  shows "sub_slice a b =
    (limbs (length b) (lval (take (length b) a) + B ^ length b - lval b) @ drop (length b) a,
     lval (take (length b) a) < lval b)"
proof -
  let ?k = "length b" and ?A = "lval (take (length b) a)"
  obtain r c where s: "binop_slice word_overflowing_sub a b False = (r, c)" by force
  obtain t where t: "r = t @ drop ?k a" "length t = ?k"
    and "int (lval t) = int ?A - int (lval b) + of_bool c * int B ^ ?k"
    using sub_op.binop_slice_eq [OF assms s] by auto
  then have "int (lval t + lval b) = int (?A + of_bool c * B ^ ?k)" by simp
  then have e: "lval t + lval b = ?A + of_bool c * B ^ ?k" by (simp only: of_nat_eq_iff)
  have lt: "lval t < B ^ ?k" using lval_bound [of t] t(2) by simp
  have c: "c \<longleftrightarrow> ?A < lval b" using e lt lval_bound [of b] by (cases c) auto
  have "lval t = (?A + B ^ ?k - lval b) mod B ^ ?k"
    using lt e lval_take_bound [of ?k a] c by (cases c) (auto simp: le_mod_geq)
  then have "t = limbs ?k (?A + B ^ ?k - lval b)" using t(2) by (intro limbs_eqI)
  with c show ?thesis using s t(1) by (simp add: sub_slice_def)
qed

lemma full_mul_u64_spec: "uint_full_mul_u64 x m = limbs (Suc (length x)) (lval x * unat m)"
proof -
  obtain z c where s: "uint_overflowing_mul_u64 x m = (z, c)" by force
  note e = overflowing_mul_u64_eq [OF s]
  have "lval (z @ [c]) = lval x * unat m" using e by (simp add: lval_append mult.commute)
  moreover have "lval (z @ [c]) < B ^ Suc (length x)" using lval_bound [of "z @ [c]"] e(1) by simp
  ultimately have "z @ [c] = limbs (Suc (length x)) (lval x * unat m)"
    using e(1) by (intro limbs_eqI) simp_all
  then show ?thesis using s by (simp add: uint_full_mul_u64_def)
qed

lemma limbs_append:
  "limbs (a + b) k = (limbs a k @ limbs b (k div radix TYPE('a) ^ a) :: 'a::len word list)"
  by (induction a arbitrary: k) (simp_all add: div_mult2_eq)

lemma take_limbs: "i \<le> n \<Longrightarrow> take i (limbs n k) = (limbs i k :: 'a::len word list)"
  using limbs_append [of i "n - i" k, where 'a = 'a] by simp

subsection \<open>The estimate of a quotient digit\<close>

lemma q_hat_loop_step:
  "q_hat_loop v1 v2 u2 q r =
     (if unat q * unat v2 \<le> B * unat r + unat u2 then Some q
      else if B \<le> unat r + unat v1 then Some (of_nat (unat q - 1))
      else q_hat_loop v1 v2 u2 (of_nat (unat q - 1)) (of_nat (unat r + unat v1)))"
proof -
  obtain hi lo where s: "split_u128 (ucast q * ucast v2) = (hi, lo)" by force
  have e: "unat hi * B + unat lo = unat q * unat v2" using split_mul [OF s] by simp
  have "hi < r \<or> hi = r \<and> lo \<le> u2 \<longleftrightarrow> unat q * unat v2 \<le> B * unat r + unat u2"
  proof (cases hi r rule: linorder_cases)
    case less
    then have "(unat hi + 1) * B \<le> unat r * B" by (intro mult_le_mono) (simp_all add: word_less_nat_alt)
    then show ?thesis using less e unat_lt_radix [of lo] by (simp add: mult.commute)
  next
    case equal
    then show ?thesis using e by (simp add: word_le_nat_alt mult.commute flip: e)
  next
    case greater
    then have "(unat r + 1) * B \<le> unat hi * B" by (intro mult_le_mono) (simp_all add: word_less_nat_alt)
    then show ?thesis using greater e unat_lt_radix [of u2] by (auto simp: mult.commute)
  qed
  moreover have "1 \<le> unat q" if "\<not> unat q * unat v2 \<le> B * unat r + unat u2"
    using that by (cases "unat q") simp_all
  ultimately show ?thesis
    by (subst q_hat_loop.simps)
       (simp add: s psub_ok word_overflowing_add_def B_eq)
qed

lemma q_hat_loop_spec:
  fixes v1 v2 u2 q r :: u64 and U :: nat
  defines "Y \<equiv> unat v1 * B + unat v2"
  assumes v1: "0 < unat v1" and U: "U < unat v1 * B"
    and "unat q * unat v1 + unat r = U" "(U * B + unat u2) div Y \<le> unat q"
  shows "q_hat_loop v1 v2 u2 q r = Some (of_nat ((U * B + unat u2) div Y))"
  using assms(4,5)
proof (induction "B - unat r" arbitrary: q r rule: less_induct)
  case less
  let ?X = "U * B + unat u2"
  have Y: "0 < Y" using v1 by (simp add: Y_def)
  show ?case
  proof (cases "unat q * unat v2 \<le> B * unat r + unat u2")
    case True
    then have "unat q * Y \<le> ?X" using digit_fits [OF less.prems(1)] by (simp add: Y_def)
    then have "?X div Y = unat q" using quotient_eqI [OF Y] less.prems(2) by blast
    then show ?thesis using True by (simp add: q_hat_loop_step [of v1])
  next
    case False
    then have "?X < unat q * Y" using digit_too_big [OF less.prems(1)] by (simp add: Y_def)
    then have lt: "?X div Y < unat q" using Y by (simp add: div_less_iff_less_mult)
    define q' where "q' = unat q - 1"
    define r' where "r' = unat r + unat v1"
    have q: "unat q = Suc q'" using lt by (simp add: q'_def)
    have le: "?X div Y \<le> q'" and inv: "q' * unat v1 + r' = U"
      using lt less.prems(1) by (simp_all add: q r'_def)
    have uq: "unat (of_nat q' :: u64) = q'" using unat_lt_radix [of q] q by (simp add: unat_of_nat_lt)
    have st: "q_hat_loop v1 v2 u2 q r = (if B \<le> r' then Some (of_nat q')
        else q_hat_loop v1 v2 u2 (of_nat q') (of_nat r'))"
      using False by (simp add: q_hat_loop_step [of v1 v2 u2 q] r'_def [symmetric] q)
    show ?thesis
    proof (cases "B \<le> r'")
      case True
      have "q' < B" using unat_lt_radix [of q] q by simp
      then have "q' * unat v2 \<le> B * r'"
        using True unat_le_radix [of v2] by (intro mult_le_mono) simp_all
      then have "q' * Y \<le> ?X" using digit_fits [OF inv] by (simp add: Y_def)
      then have "?X div Y = q'" using quotient_eqI [OF Y] le by blast
      then show ?thesis using True by (simp add: st)
    next
      case False
      then have ur: "unat (of_nat r' :: u64) = r'" by (simp add: unat_of_nat_lt)
      have "B - r' < B - unat r" using False v1 by (simp add: r'_def)
      then show ?thesis using less.hyps [of "of_nat r'" "of_nat q'"] inv le False
        by (simp add: st ur uq)
    qed
  qed
qed

text \<open>
  The quotient digit of the leading three words by the leading two is right or one too large;
  and so is \<open>B - 1\<close> when the leading words agree and the divisor is normalised.
\<close>

lemma estimate_upper:
  fixes M V T Y P :: nat
  assumes "0 < Y" and "M < (T + 1) * P" and "Y * P \<le> V"
  shows "M div V \<le> T div Y"
proof -
  have "M < (T div Y + 1) * Y * P"
    using assms(2) dividend_less_div_times [OF assms(1), of T]
    by (intro less_le_trans [OF assms(2)] mult_le_mono) simp_all
  also have "\<dots> \<le> (T div Y + 1) * V" using assms(3) by (simp only: mult.assoc mult_le_mono2)
  finally have "M < (T div Y + 1) * V" .
  moreover from this have "0 < V" by (cases V) simp_all
  ultimately show ?thesis by (simp add: div_less_iff_less_mult flip: less_Suc_eq_le)
qed

lemma estimate_lower:
  fixes M V T Y P :: nat
  assumes "T * P \<le> M" and "V \<le> (Y + 1) * P" and "T div Y \<le> Y + 1" and "0 < V"
  shows "T div Y \<le> M div V + 1"
proof (cases "T div Y")
  case (Suc q)
  have "q * V \<le> q * (Y + 1) * P" using assms(2) by (simp only: mult.assoc mult_le_mono2)
  also have "q * (Y + 1) \<le> Suc q * Y" using assms(3) Suc by simp
  then have "q * (Y + 1) * P \<le> Suc q * Y * P" by (rule mult_le_mono1)
  also have "\<dots> \<le> T * P" using div_times_less_eq_dividend [of T Y] Suc by (intro mult_le_mono) simp_all
  also note assms(1)
  finally have "q \<le> M div V" using assms(4) by (simp add: less_eq_div_iff_mult_less_eq)
  then show ?thesis using Suc by simp
qed simp

lemma estimate_equal:
  fixes M V v P b :: nat
  assumes "v * b * P \<le> M" and "V \<le> (v + 1) * P" and "b \<le> 2 * v" and "0 < V"
  shows "b - 1 \<le> M div V + 1"
proof -
  have "(b - 2) * (v + 1) \<le> v * b"
    using assms(3) by (cases "2 \<le> b") (auto simp: algebra_simps diff_mult_distrib)
  have "(b - 2) * V \<le> (b - 2) * (v + 1) * P" using assms(2) by (simp only: mult.assoc mult_le_mono2)
  also have "\<dots> \<le> v * b * P" using \<open>(b - 2) * (v + 1) \<le> v * b\<close> by (rule mult_le_mono1)
  also note assms(1)
  finally have "b - 2 \<le> M div V" using assms(4) by (simp add: less_eq_div_iff_mult_less_eq)
  then show ?thesis by simp
qed


lemma lval_leading:
  fixes xs :: "'a::len word list" and k :: nat
  defines "P \<equiv> radix TYPE('a) ^ k" and "T \<equiv> lval (drop k xs)"
  shows "T * P \<le> lval xs" and "lval xs < (T + 1) * P"
proof -
  have "lval xs = lval (take k xs) + P * T" unfolding P_def T_def by (rule lval_take_drop)
  moreover have "lval (take k xs) < P" unfolding P_def by (rule lval_take_bound)
  ultimately show "T * P \<le> lval xs" and "lval xs < (T + 1) * P" by (simp_all add: mult.commute)
qed

lemma lval_drop_cons:
  "k < length xs \<Longrightarrow> lval (drop k xs) = unat (xs ! k) + radix TYPE('a) * lval (drop (Suc k) xs)"
  for xs :: "'a::len word list"
  by (simp flip: Cons_nth_drop_Suc)

lemma q_hat_of_lt:
  fixes v1 v2 u0 u1 u2 :: u64
  assumes "u0 < v1"
  shows "q_hat_of v1 v2 u0 u1 u2 =
    Some (of_nat (((unat u0 * B + unat u1) * B + unat u2) div (unat v1 * B + unat v2)))"
    and "((unat u0 * B + unat u1) * B + unat u2) div (unat v1 * B + unat v2) < B"
proof -
  let ?U = "unat u0 * B + unat u1" and ?Y = "unat v1 * B + unat v2"
  have u0: "unat u0 < unat v1" using assms by (simp add: word_less_nat_alt)
  have U: "?U < unat v1 * B" using digit_lt_base(1) [OF u0 unat_lt_radix [of u1]] by (simp add: mult.commute)
  then have "?U < ?Y" by simp
  from digit_lt_base(2) [OF this unat_lt_radix [of u2]] show "(?U * B + unat u2) div ?Y < B" .
  have "?U div unat v1 < B" using digit_lt_base(2) [OF u0 unat_lt_radix [of u1]] .
  then have q: "unat (of_nat (?U div unat v1) :: u64) = ?U div unat v1" by (rule unat_of_nat_lt)
  have "?U mod unat v1 < B" using u0 unat_lt_radix [of v1] by (intro less_trans [OF mod_less_divisor]) simp_all
  then have r: "unat (of_nat (?U mod unat v1) :: u64) = ?U mod unat v1" by (rule unat_of_nat_lt)
  have "(?U * B + unat u2) div ?Y \<le> ?U div unat v1"
    using u0 by (intro estimate_upper [where P = B]) (simp_all add: unat_lt_radix)
  then have "q_hat_loop v1 v2 u2 (of_nat (?U div unat v1)) (of_nat (?U mod unat v1))
      = Some (of_nat ((?U * B + unat u2) div ?Y))"
    using u0 U q r by (intro q_hat_loop_spec) simp_all
  then show "q_hat_of v1 v2 u0 u1 u2 = Some (of_nat ((?U * B + unat u2) div ?Y))"
    by (simp only: q_hat_of_def assms if_True div_mod_word_spec [OF assms] Option.bind.simps prod.case)
qed

lemma q_hat_of_spec:
  fixes mid v :: "u64 list"
  defines "M \<equiv> lval mid" and "V \<equiv> lval v"
  assumes n: "2 \<le> n" "n = length v" "length mid = Suc n"
    and norm: "B \<le> 2 * unat (v ! (n - 1))" and M: "M < V * B"
  shows "\<exists>q. q_hat_of (v ! (n - 1)) (v ! (n - 2)) (mid ! n) (mid ! (n - 1)) (mid ! (n - 2)) = Some q \<and>
    (unat q = M div V \<or> unat q = M div V + 1)"
proof -
  define k where "k = n - 2"
  have k: "n = Suc (Suc k)" using n(1) by (simp add: k_def)
  define v1 v2 u0 u1 u2 where defs: "v1 = v ! Suc k" "v2 = v ! k" "u0 = mid ! n" "u1 = mid ! Suc k" "u2 = mid ! k"
  define T where "T = (unat u0 * B + unat u1) * B + unat u2"
  define Y where "Y = unat v1 * B + unat v2"
  have T: "lval (drop k mid) = T"
    using n k by (simp add: lval_drop_cons T_def defs algebra_simps)
  have Y: "lval (drop k v) = Y"
    using n k by (simp add: lval_drop_cons Y_def defs algebra_simps)
  have V1: "lval (drop (Suc k) v) = unat v1"
    using n k by (simp add: lval_drop_cons defs)
  have Mn: "lval (drop n mid) = unat u0" using n by (simp add: lval_drop_cons defs)
  have v1: "0 < unat v1" using less_le_trans [OF radix_pos norm] by (simp add: k defs)
  have "0 < V" using M by (cases V) simp_all
  have "M div V < B" using M \<open>0 < V\<close> by (simp add: div_less_iff_less_mult mult.commute)
  show ?thesis
  proof (cases "u0 < v1")
    case True
    note q = q_hat_of_lt [OF True, where ?v2.0 = v2 and ?u1.0 = u1 and ?u2.0 = u2, folded T_def Y_def]
    have "M div V \<le> T div Y"
      using lval_leading [where xs = mid and k = k] lval_leading [where xs = v and k = k] v1 unfolding M_def V_def T Y
      by (intro estimate_upper) (simp_all add: Y_def)
    moreover have "T div Y \<le> M div V + 1"
    proof (intro estimate_lower [where P = "B ^ k"])
      have "1 * B \<le> unat v1 * B" using v1 by (intro mult_le_mono) simp_all
      also have "\<dots> \<le> Y" by (simp add: Y_def)
      finally show "T div Y \<le> Y + 1" using q(2) by simp
    qed (use lval_leading [where xs = mid and k = k] lval_leading [where xs = v and k = k] \<open>0 < V\<close> in \<open>simp_all add: M_def V_def T Y less_imp_le\<close>)
    ultimately have "T div Y = M div V \<or> T div Y = M div V + 1" by linarith
    then show ?thesis using q unat_of_nat_lt [OF q(2)] by (auto simp: k defs)
  next
    case False
    then have "unat v1 \<le> unat u0" by (simp add: word_le_nat_alt not_less)
    then have "unat v1 * B * B ^ Suc k \<le> unat u0 * B * B ^ Suc k" by (intro mult_le_mono) simp_all
    also have "\<dots> \<le> M" using lval_leading(1) [where xs = mid and k = n] unfolding Mn
      by (simp add: M_def k mult.assoc)
    finally have "B - 1 \<le> M div V + 1"
      using lval_leading(2) [where xs = v and k = "Suc k"] norm \<open>0 < V\<close>
      by (intro estimate_equal [where v = "unat v1" and P = "B ^ Suc k"])
         (simp_all add: V_def V1 k defs less_imp_le)
    then have "B - 1 = M div V \<or> B - 1 = M div V + 1" using \<open>M div V < B\<close> by linarith
    then show ?thesis using False by (auto simp: q_hat_of_def unat_minus_one_radix k defs)
  qed
qed

subsection \<open>One round of the division\<close>

text \<open>Step D6 adds the divisor back, with the carry into the word above it.\<close>

lemma add_back_carry:
  fixes lo b :: "u64 list"
  assumes "length lo = n" and "length b = n"
  shows "limbs n (lval lo + lval b) @ [t + of_bool (B ^ n \<le> lval lo + lval b)]
    = limbs (Suc n) (lval (lo @ [t]) + lval b)"
proof -
  let ?c = "B ^ n \<le> lval lo + lval b"
  have "lval lo < B ^ n" "lval b < B ^ n" using lval_bound [of lo] lval_bound [of b] assms by simp_all
  then have "(lval lo + lval b) div B ^ n = of_bool ?c"
    by (cases ?c) (auto simp: le_div_geq)
  moreover have sum: "lval (lo @ [t]) + lval b = lval lo + lval b + unat t * B ^ n"
    using assms(1) by (simp add: lval_append)
  have "(lval (lo @ [t]) + lval b) div B ^ n = (lval lo + lval b) div B ^ n + unat t"
    unfolding sum by simp
  ultimately have "t + of_bool ?c = of_nat ((lval (lo @ [t]) + lval b) div B ^ n)"
    by simp
  moreover have "limbs n (lval (lo @ [t]) + lval b) = (limbs n (lval lo + lval b) :: u64 list)"
    unfolding sum by (intro limbs_eqI) (simp_all add: lval_limbs)
  ultimately show ?thesis using limbs_append [of n 1 "lval (lo @ [t]) + lval b", where 'a = 64] by simp
qed

lemma limbs_add_power: "limbs n (k + radix TYPE('a) ^ n) = (limbs n k :: 'a::len word list)"
  by (rule limbs_eqI [symmetric]) (simp_all add: lval_limbs)

text \<open>Steps D4 to D6 with the digit \<open>qh\<close>, on the words of the dividend it concerns.\<close>

lemma subtract_and_correct:
  fixes mid1 mid hi b :: "u64 list" and qh :: u64
  assumes est: "unat qh = M div V \<or> unat qh = M div V + 1" and V: "0 < V" "V < B ^ n" "M < B ^ Suc n"
    and mid1: "mid1 = limbs (Suc n) (M + B ^ Suc n - V * unat qh)"
    and b: "length b = n" "lval b = V"
  shows "(if M < V * unat qh then
       do {
         q_hat \<leftarrow> psub qh 1;
         let (uj, c) = add_slice (drop (length lo) (lo @ mid1 @ hi)) b;
         let u = take (length lo) (lo @ mid1 @ hi) @ uj;
         Some (q_hat, u[length lo + n := u ! (length lo + n) + of_bool c]) }
     else Some (qh, lo @ mid1 @ hi)) = Some (of_nat (M div V), lo @ limbs (Suc n) (M mod V) @ hi)"
proof (cases "M < V * unat qh")
  case False
  have "unat qh = M div V"
    using est False dividend_less_div_times [OF V(1), of M] by (auto simp: algebra_simps)
  moreover from this have "qh = of_nat (M div V)" by (simp flip: \<open>unat qh = M div V\<close>)
  moreover have "M + B ^ Suc n - V * (M div V) = M mod V + B ^ Suc n"
    using minus_mult_div_eq_mod [of M V] times_div_less_eq_dividend [of V M] by linarith
  ultimately have "M + B ^ Suc n - V * unat qh = M mod V + B ^ Suc n" and "qh = of_nat (M div V)"
    by simp_all
  then show ?thesis using False by (simp add: mid1 limbs_add_power del: limbs.simps power_Suc)
next
  case True
  have qh: "unat qh = M div V + 1"
    using est True by (metis times_div_less_eq_dividend not_less)
  then have p: "psub qh 1 = Some (of_nat (M div V))" by (simp add: psub_ok)
  obtain lo1 t where m: "mid1 = lo1 @ [t]" "length lo1 = n"
  proof (cases mid1 rule: rev_cases)
    case Nil
    then show ?thesis using mid1 by simp
  next
    case (snoc lo1 t)
    then have "length (lo1 @ [t]) = Suc n" using mid1 by (metis length_limbs)
    then show ?thesis using snoc that by simp
  qed
  have "B ^ n \<le> B ^ Suc n" by (simp add: Suc_leI)
  then have "V < B ^ Suc n" using V(2) by linarith
  moreover have "M mod V < V" using V(1) by simp
  moreover have "M + B ^ Suc n - V * unat qh = M mod V + B ^ Suc n - V"
  proof -
    have "V * unat qh = V + V * (M div V)" by (simp add: qh)
    then show ?thesis
      using minus_mult_div_eq_mod [of M V] times_div_less_eq_dividend [of V M] by linarith
  qed
  ultimately have "lval mid1 + V = M mod V + B ^ Suc n"
    by (simp add: mid1 lval_limbs del: limbs.simps power_Suc)
  then have "limbs n (lval lo1 + V) @ [t + of_bool (B ^ n \<le> lval lo1 + V)] = limbs (Suc n) (M mod V)"
    using add_back_carry [OF m(2) b(1), of t] b(2) m(1) by (simp add: limbs_add_power del: limbs.simps power_Suc)
  moreover have "add_slice (mid1 @ hi) b = (limbs n (lval lo1 + V) @ t # hi, B ^ n \<le> lval lo1 + V)"
    using add_slice_spec [of b "mid1 @ hi"] b m by simp
  ultimately show ?thesis
    using True by (simp add: p nth_append list_update_append del: limbs.simps)
qed

lemma knuth_step_spec:
  fixes v lo mid hi :: "u64 list"
  defines "M \<equiv> lval mid" and "V \<equiv> lval v"
  assumes n: "2 \<le> n" "n \<le> length v" "length lo = j" "length mid = Suc n"
    and norm: "B \<le> 2 * unat (v ! (n - 1))" "V < B ^ n" and M: "M < V * B"
  shows "knuth_step v n j (lo @ mid @ hi, q) =
    Some (lo @ limbs (Suc n) (M mod V) @ hi, q[j := of_nat (M div V)])"
proof -
  have V: "lval (take n v) = V" using norm(2) by (simp add: lval_take V_def)
  have V0: "0 < V" using M by (cases V) simp_all
  obtain qh where qh: "q_hat_of (v ! (n - 1)) (v ! (n - 2)) (mid ! n) (mid ! (n - 1)) (mid ! (n - 2)) = Some qh"
    and est: "unat qh = M div V \<or> unat qh = M div V + 1"
    using q_hat_of_spec [of n "take n v" mid] n norm M by (auto simp: V M_def)
  let ?Q = "limbs (Suc n) (V * unat qh) :: u64 list"
  have "V * unat qh < B ^ n * B" using norm(2) unat_lt_radix by (intro mult_strict_mono) simp_all
  then have Q: "lval ?Q = V * unat qh" by (simp add: lval_limbs mult.commute del: limbs.simps)
  have fm: "take (n + 1) (uint_full_mul_u64 v qh) = ?Q"
    using n(2) by (simp add: full_mul_u64_spec take_limbs V_def [symmetric] del: limbs.simps)
  define c where "c \<longleftrightarrow> M < V * unat qh"
  define mid1 :: "u64 list" where "mid1 = limbs (Suc n) (M + B ^ Suc n - V * unat qh)"
  have sub: "sub_slice (mid @ hi) ?Q = (mid1 @ hi, c)"
    using sub_slice_spec [of ?Q "mid @ hi"] n(4)
    by (simp add: Q mid1_def c_def M_def del: limbs.simps)
  have "M < B ^ Suc n"
    using lval_bound [of mid] n(4) by (simp add: M_def)
  note sc = subtract_and_correct [OF est V0 norm(2) this mid1_def, of "take n v" lo hi,
      folded c_def, unfolded n(3)]
  have ix: "(lo @ mid @ hi) ! (j + n) = mid ! n" "(lo @ mid @ hi) ! (j + n - 1) = mid ! (n - 1)"
    "(lo @ mid @ hi) ! (j + n - 2) = mid ! (n - 2)"
    using n nth_append_length_plus [of lo "mid @ hi" n] nth_append_length_plus [of lo "mid @ hi" "n - 1"]
      nth_append_length_plus [of lo "mid @ hi" "n - 2"] by (simp_all add: nth_append_left)
  have dt: "drop j (lo @ mid @ hi) = mid @ hi" "take j (lo @ mid @ hi) = lo" using n(3) by simp_all
  show ?thesis
    using sc n V unfolding knuth_step_def prod.case ix Let_def qh dt Option.bind.simps fm sub
    by (simp add: Let_def split del: if_split del: limbs.simps)
qed

lemma knuth_loop_spec:
  fixes v w :: "u64 list"
  defines "V \<equiv> lval v"
  assumes n: "2 \<le> n" "n \<le> length v" and norm: "B \<le> 2 * unat (v ! (n - 1))" "V < B ^ n"
  shows "length w = j + n \<Longrightarrow> lval w < V * B ^ j \<Longrightarrow> j \<le> length q \<Longrightarrow>
    knuth_loop v n j (w @ replicate k 0, q) =
      Some (limbs n (lval w mod V) @ replicate (j + k) 0, limbs j (lval w div V) @ drop j q)"
proof (induction j arbitrary: w k q)
  case 0
  then show ?case using norm(2) by (simp add: limbs_lval)
next
  case (Suc j)
  define lo mid where "lo = take j w" and "mid = drop j w"
  define Q R where "Q = lval mid div V" and "R = lval mid mod V"
  have w: "w = lo @ mid" "length lo = j" "length mid = Suc n"
    using Suc.prems(1) by (simp_all add: lo_def mid_def)
  have lw: "lval w = lval lo + B ^ j * lval mid" using w by (simp add: lval_append)
  have V0: "0 < V" using Suc.prems(2) by (cases V) simp_all
  have lo: "lval lo < B ^ j" using lval_bound [of lo] w(2) by simp
  have "lval mid = lval w div B ^ j" by (simp add: mid_def lval_drop)
  then have mid: "lval mid < V * B" using Suc.prems(2) by (simp add: div_less_iff_less_mult algebra_simps)
  have QB: "Q < B" using mid V0 by (simp add: Q_def div_less_iff_less_mult mult.commute)
  have R: "R < V" using V0 by (simp add: R_def)
  define w' :: "u64 list" where "w' = lo @ limbs n R"
  have lw': "lval w' = lval lo + B ^ j * R" using R norm(2) w(2) by (simp add: w'_def lval_append lval_limbs)
  have "limbs (Suc n) R = (limbs n R @ [0] :: u64 list)"
    using limbs_append [of n 1 R, where 'a = 64] R norm(2) by (simp del: limbs.simps) simp
  then have step: "knuth_step v n j (w @ replicate k 0, q) = Some (w' @ replicate (Suc k) 0, q[j := of_nat Q])"
    using knuth_step_spec [OF n w(2,3) norm(1), folded V_def, OF norm(2) mid, of "replicate k 0" q]
    by (simp add: w(1) w'_def Q_def R_def del: limbs.simps)
  have "lval w = (lval lo + B ^ j * R) + Q * B ^ j * V"
  proof -
    have "B ^ j * lval mid = B ^ j * (Q * V + R)" by (simp add: Q_def R_def)
    then show ?thesis by (simp add: lw algebra_simps)
  qed
  then have qr: "lval w mod V = lval w' mod V" "lval w div V = lval w' div V + Q * B ^ j"
    using V0 by (simp_all add: lw')
  have bw': "lval w' < V * B ^ j"
    using digit_lt_base(1) [OF R lo] by (simp add: lw' mult.commute add.commute)
  have IH: "knuth_loop v n j (w' @ replicate (Suc k) 0, q[j := of_nat Q]) =
      Some (limbs n (lval w' mod V) @ replicate (j + Suc k) 0,
        limbs j (lval w' div V) @ drop j (q[j := of_nat Q]))"
    using Suc.prems(3) w(2) bw' by (intro Suc.IH) (simp_all add: w'_def)
  have "lval w' div V < B ^ j" using bw' V0 by (simp add: div_less_iff_less_mult mult.commute)
  then have "limbs (Suc j) (lval w div V) = (limbs j (lval w' div V) @ [of_nat Q] :: u64 list)"
    using limbs_append [of j 1 "lval w div V", where 'a = 64]
      limbs_mod [of j "lval w div V", where 'a = 64] by (simp add: qr(2) del: limbs.simps) simp
  moreover have "drop j (q[j := of_nat Q]) = of_nat Q # drop (Suc j) q"
    using Suc.prems(3) by (simp add: Cons_nth_drop_Suc [symmetric])
  ultimately show ?case by (simp add: step IH qr(1) del: limbs.simps replicate.simps)
qed


subsection \<open>Shifting in and out of the extra word\<close>

lemma full_shl_spec:
  assumes "x \<noteq> []" and "s < 64"
  shows "\<exists>u. uint_full_shl x s = Some u \<and> length u = Suc (length x) \<and> lval u = lval x * 2 ^ s"
proof -
  let ?n = "length x"
  have B: "B = 2 ^ (64 - s) * 2 ^ s" using assms(2) by (simp add: B_eq flip: power_add)
  define hi where "hi = uint_shr_usize x (64 - s)"
  have "unat (of_nat (64 - s) :: u64) = 64 - s" by (simp add: unat_of_nat)
  then have r: "uint_full_shl x s = Some (push_bit s (x ! 0) # hi)"
    using assms uint_shr_small [of ?n x "of_nat (64 - s)"]
    by (simp add: uint_full_shl_def hi_def del: of_nat_diff)
  have "lval x * 2 ^ s div B = lval x div 2 ^ (64 - s)" by (simp add: B)
  moreover have "unat (push_bit s (x ! 0)) = lval x * 2 ^ s mod B"
    using assms(1) by (simp add: unat_push_bit lval_nth mod_mult_left_eq)
  ultimately have "lval (push_bit s (x ! 0) # hi) = lval x * 2 ^ s mod B + B * (lval x * 2 ^ s div B)"
    by (simp add: hi_def lval_shr)
  then have "lval (push_bit s (x ! 0) # hi) = lval x * 2 ^ s"
    by (simp only: mod_mult_div_eq)
  then show ?thesis using r by (simp add: hi_def)
qed

lemma full_shr_eq:
  assumes "u \<noteq> []" and "s < 64"
  shows "uint_full_shr u s = Some (take (length u - 1) (uint_shr_usize u s))"
proof -
  define n where "n = length u - 1"
  define low where "low = fold (\<lambda>i res. res[i := drop_bit s (u ! i)]) [0..<n] (uint_zero n)"
  define r where "r = (if s > 0
    then fold (\<lambda>i res. res[i - 1 := res ! (i - 1) OR push_bit (64 - s) (u ! i)]) [1..<n + 1] low
    else low)"
  have len: "length low = n" "length r = n" by (simp_all add: low_def r_def)
  have low: "low ! k = drop_bit s (u ! k)" if "k < n" for k
    using that nth_fold_update [of "[0..<n]" k "uint_zero n" "\<lambda>i _. drop_bit s (u ! i)"]
    by (simp add: low_def)
  have "r ! k = uint_shr_usize u s ! k" if k: "k < n" for k
  proof -
    have "r ! k = drop_bit s (u ! k) OR (if s > 0 then push_bit (64 - s) (u ! (k + 1)) else 0)"
      using k low [OF k] len(1)
        nth_fold_update_shifted [of k low 1 1 "n + 1" "\<lambda>i w. w OR push_bit (64 - s) (u ! i)"]
      by (simp add: r_def del: upt_Suc)
    moreover have "Suc k < length u" using k by (simp add: n_def)
    ultimately show ?thesis using shr_nth [of k u s 0] assms(2) by simp
  qed
  then have "r = take n (uint_shr_usize u s)"
    using len by (intro nth_equalityI) (simp_all add: n_def)
  moreover have "uint_full_shr u s = Some r"
    using assms(2) unfolding r_def low_def n_def by (simp only: uint_full_shr_def Let_def rust_assert_bind)
  ultimately show ?thesis by (simp add: n_def)
qed

lemma full_shr_spec:
  assumes "length u = Suc n" and "s < 64" and "lval u div 2 ^ s < B ^ n"
  shows "uint_full_shr u s = Some (limbs n (lval u div 2 ^ s))"
proof -
  have "take n (uint_shr_usize u s) = limbs n (lval u div 2 ^ s)"
    using assms by (intro limbs_eqI) (simp_all add: length_shr lval_take lval_shr)
  moreover have "u \<noteq> []" using assms(1) by auto
  ultimately show ?thesis using full_shr_eq [of u s] assms by simp
qed

subsection \<open>The division theorem\<close>

text \<open>The number of words of a number, and what its top word says of the number.\<close>

lemma words_of_bits:
  assumes "0 < N"
  shows "\<exists>n. uint_words (nat_bits N) = Some n \<and> 0 < n \<and> B ^ (n - 1) \<le> N \<and> N < B ^ n"
proof -
  define b where "b = nat_bits N - 1"
  have b: "nat_bits N = Suc b" using assms by (cases "nat_bits N") (simp_all add: b_def)
  let ?n = "1 + b div 64"
  have "(2 :: nat) ^ (64 * (b div 64)) \<le> 2 ^ b" by (intro power_increasing) simp_all
  also have "\<dots> \<le> N" using nat_bits_lower [OF assms] by (simp add: b)
  finally have lo: "B ^ (?n - 1) \<le> N" by (simp add: B_eq power_mult)
  have "b < 64 * ?n" by simp
  then have "(2 :: nat) ^ Suc b \<le> 2 ^ (64 * ?n)" by (intro power_increasing) simp_all
  then have "N < 2 ^ (64 * ?n)" using nat_bits_upper [of N] b by simp
  then have hi: "N < B ^ ?n" by (simp only: B_eq power_mult)
  have "uint_words (nat_bits N) = Some ?n" by (simp add: uint_words_def b)
  then show ?thesis using lo hi by (intro exI [of _ ?n]) simp
qed

text \<open>The shift brings the top bit of the divisor to the top of its highest word.\<close>

lemma divisor_normalised:
  fixes y :: uint
  assumes "0 < n" "n \<le> length y" "B ^ (n - 1) \<le> lval y" "lval y < B ^ n"
  defines "s \<equiv> word_leading_zeros (y ! (n - 1))"
  shows "s < 64" and "lval y * 2 ^ s < B ^ n" and "lval (uint_shl_usize y s) = lval y * 2 ^ s"
    and "B \<le> 2 * unat (uint_shl_usize y s ! (n - 1))"
proof -
  obtain k where k: "n = Suc k" using assms(1) by (cases n) auto
  have top: "unat (y ! k) = lval y div B ^ k"
    using assms k by (simp add: lval_nth div_less_iff_less_mult mult.commute)
  have "1 \<le> lval y div B ^ k" using assms(3) by (simp add: k less_eq_div_iff_mult_less_eq)
  then have "y ! k \<noteq> 0" using top by (auto simp: unat_eq_zero)
  note norm = leading_zeros_normalises [OF this]
  show s: "s < 64" using norm(1) by (simp add: s_def k)
  have B: "B = 2 ^ (64 - s) * 2 ^ s" using s by (simp add: B_eq flip: power_add)
  have "unat (y ! k) < 2 ^ (64 - s)" using norm(2) by (simp add: B k s_def)
  then have "(unat (y ! k) + 1) * 2 ^ s \<le> 2 ^ (64 - s) * 2 ^ s" by (intro mult_le_mono) simp_all
  then have t: "(unat (y ! k) + 1) * 2 ^ s \<le> B" by (simp only: B)
  have "lval y < (unat (y ! k) + 1) * B ^ k"
    unfolding top using dividend_less_div_times [of "B ^ k" "lval y"] by (simp add: algebra_simps)
  then have "lval y * 2 ^ s < (unat (y ! k) + 1) * B ^ k * 2 ^ s" by simp
  also have "\<dots> = (unat (y ! k) + 1) * 2 ^ s * B ^ k" by (simp only: mult.commute mult.left_commute)
  also have "\<dots> \<le> B * B ^ k" using t by (rule mult_le_mono1)
  finally show V: "lval y * 2 ^ s < B ^ n" by (simp add: k)
  have "B ^ n \<le> B ^ length y" using assms(2) by (intro power_increasing) (simp_all add: Suc_leI)
  then have "lval y * 2 ^ s < B ^ length y" using V by (rule less_le_trans [rotated])
  then show val: "lval (uint_shl_usize y s) = lval y * 2 ^ s" by (simp add: lval_shl)
  have "unat (y ! k) * 2 ^ s * B ^ k \<le> lval y * 2 ^ s"
    using div_times_less_eq_dividend [of "lval y" "B ^ k"] by (simp add: top mult.commute mult.left_commute)
  then have "unat (y ! k) * 2 ^ s \<le> lval y * 2 ^ s div B ^ k" by (simp add: less_eq_div_iff_mult_less_eq)
  moreover have "unat (uint_shl_usize y s ! k) = lval y * 2 ^ s div B ^ k"
    using assms(2) V by (simp add: k lval_nth val div_less_iff_less_mult mult.commute)
  ultimately show "B \<le> 2 * unat (uint_shl_usize y s ! (n - 1))"
    using norm(3) by (simp add: k s_def)
qed

lemma div_mod_knuth_spec:
  fixes x y :: uint
  assumes len: "length x = N" "length y = N" and n: "2 \<le> n" "n + m \<le> N"
    and y: "B ^ (n - 1) \<le> lval y" "lval y < B ^ n" and x: "lval x < B ^ (n + m)"
    and bits: "nat_bits (lval y) \<le> nat_bits (lval x)" and big: "\<not> uint_fits_word y"
  shows "uint_div_mod_knuth x y n m = Some (limbs N (lval x div lval y), limbs N (lval x mod lval y))"
proof -
  define s where "s = word_leading_zeros (y ! (n - 1))"
  define V where "V = lval y * 2 ^ s"
  have n': "0 < n" "n \<le> length y" and N: "0 < N" "x \<noteq> []" "y \<noteq> []" using n len by auto
  note dn = divisor_normalised [OF n' y, folded s_def, folded V_def]
  have y0: "0 < lval y" using less_le_trans [OF zero_less_power [OF radix_pos] y(1)] .
  have us: "unat (of_nat s :: u64) = s" using dn(1) by (simp add: unat_of_nat)
  obtain u where u: "uint_full_shl x s = Some u" "length u = Suc N" "lval u = lval x * 2 ^ s"
    using full_shl_spec [OF N(2) dn(1)] len by auto
  define w where "w = take (Suc m + n) u"
  have "lval x * 2 ^ s < B ^ (n + m) * B"
    using x dn(1) power_strict_increasing [OF dn(1), of "2 :: nat"] by (intro mult_strict_mono) (simp_all add: B_eq)
  then have lu: "lval u < B ^ (Suc m + n)" by (simp add: u(3) power_add mult.commute mult.left_commute)
  have lw: "lval w = lval x * 2 ^ s" using lu by (simp add: w_def lval_take u(3))
  have "lval (drop (Suc m + n) u) = 0" using lu by (simp add: lval_drop)
  then have "drop (Suc m + n) u = replicate (N - (m + n)) 0"
    using u(2) by (intro lval_inject) simp_all
  then have uw: "u = w @ replicate (N - (m + n)) 0" by (metis append_take_drop_id w_def)
  have "lval x < lval y * B ^ Suc m"
  proof -
    have "B ^ (n - 1) * B ^ Suc m \<le> lval y * B ^ Suc m" using y(1) by (rule mult_le_mono1)
    moreover have "B ^ (n - 1) * B ^ Suc m = B ^ (n + m)" using n(1) by (simp flip: power_add power_Suc)
    ultimately show ?thesis using x by linarith
  qed
  then have "lval w < V * B ^ Suc m" by (simp add: lw V_def)
  then have loop: "knuth_loop (uint_shl_usize y s) n (Suc m) (u, uint_zero N) =
      Some (limbs n (lval w mod V) @ replicate (Suc m + (N - (m + n))) 0,
        limbs (Suc m) (lval w div V) @ drop (Suc m) (uint_zero N))"
    unfolding uw using knuth_loop_spec [of n "uint_shl_usize y s" w "Suc m" "uint_zero N" "N - (m + n)"]
      n n' dn len u(2) by (simp add: w_def del: knuth_loop.simps limbs.simps)
  have wq: "lval w div V = lval x div lval y" and wr: "lval w mod V = lval x mod lval y * 2 ^ s"
    by (simp_all add: lw V_def mult_mod_left)
  have xy: "lval x mod lval y < B ^ N" "lval x div lval y < B ^ N"
    using lval_bound [of x] len(1) by (meson div_le_dividend mod_less_eq_dividend le_less_trans)+
  have "lval w mod V < B ^ n" using dn(2) y0 by (intro less_trans [OF mod_less_divisor]) (simp_all add: V_def)
  then have rem: "uint_full_shr (limbs n (lval w mod V) @ replicate (Suc m + (N - (m + n))) 0) s
      = Some (limbs N (lval x mod lval y))"
    using full_shr_spec [of "limbs n (lval w mod V) @ replicate (Suc m + (N - (m + n))) 0" N s] n(2) dn(1) xy
    by (simp add: lval_append lval_limbs_lt) (simp add: wr)
  have "lval x div lval y < B ^ Suc m"
    using \<open>lval x < lval y * B ^ Suc m\<close> y0 by (simp add: div_less_iff_less_mult mult.commute del: power_Suc)
  then have quo: "limbs (Suc m) (lval w div V) @ drop (Suc m) (uint_zero N) = limbs N (lval x div lval y)"
    unfolding wq using n xy by (intro limbs_eqI)
      (simp_all add: lval_append lval_limbs_lt uint_zero_def del: limbs.simps power_Suc replicate.simps)
  have s': "word_leading_zeros (y ! (n - Suc 0)) = s" by (simp add: s_def)
  show ?thesis
    using bits big n N len us u(1) loop rem quo uint_shl_small [of N y "of_nat s"]
    by (simp add: uint_div_mod_knuth_def uint_bits_spec s' Let_def del: knuth_loop.simps limbs.simps)
qed

theorem uint_div_mod_spec:
  fixes x y :: uint
  assumes len: "length x = n" "length y = n" "0 < n" and y: "lval y \<noteq> 0"
  shows "uint_div_mod x y = Some (limbs n (lval x div lval y), limbs n (lval x mod lval y))"
proof -
  have ne: "x \<noteq> []" "y \<noteq> []" using len by auto
  let ?xb = "nat_bits (lval x)" and ?yb = "nat_bits (lval y)"
  have yb: "0 < ?yb" using y nat_bits_eq_0 [of "lval y"] by linarith
  have bits: "uint_bits x = ?xb" "uint_bits y = ?yb" using ne by (simp_all add: uint_bits_spec)
  consider (lt) "?xb < ?yb" | (small) "?yb \<le> ?xb" "?yb \<le> 64" | (big) "?yb \<le> ?xb" "64 < ?yb" by linarith
  then show ?thesis
  proof cases
    case lt
    then have "lval x < lval y" using nat_bits_mono [of "lval y" "lval x"] by linarith
    moreover have "uint_zero n = limbs n 0" by (rule limbs_eqI) (simp_all add: uint_zero_def)
    ultimately show ?thesis using lt y yb len by (simp add: uint_div_mod_def bits limbs_lval)
  next
    case small
    then have "lval y < B" by (simp add: nat_bits_le_iff B_eq)
    then have low: "unat (uint_low_u64 y) = lval y" using ne by (simp add: uint_low_u64_mod)
    then have "uint_low_u64 y \<noteq> 0" using y by auto
    from div_mod_small_spec [OF this ne(1)] show ?thesis
      using small y yb len by (simp add: uint_div_mod_def bits low)
  next
    case big
    then have x0: "0 < lval x" using y by (metis nat_bits_eq_0 le_zero_eq neq0_conv)
    obtain xw where xw: "uint_words ?xb = Some xw" "0 < xw" "B ^ (xw - 1) \<le> lval x" "lval x < B ^ xw"
      using words_of_bits [OF x0] by auto
    obtain yw where yw: "uint_words ?yb = Some yw" "0 < yw" "B ^ (yw - 1) \<le> lval y" "lval y < B ^ yw"
      using words_of_bits [of "lval y"] y by auto
    have le: "yw \<le> xw" using big(1) xw(1) yw(1)
      by (auto simp: uint_words_def rust_assert_def div_le_mono split: if_splits)
    have yw2: "2 \<le> yw" using big(2) yw(1)
      by (auto simp: uint_words_def rust_assert_def split: if_splits)
    have "xw \<le> n"
    proof (rule ccontr)
      assume "\<not> xw \<le> n"
      then have "B ^ n \<le> B ^ (xw - 1)" by (intro power_increasing) (simp_all add: Suc_leI)
      also note xw(3)
      finally show False using lval_bound [of x] len(1) by simp
    qed
    moreover have "\<not> uint_fits_word y"
      using big(2) ne(2) nat_bits_le_iff [of "lval y" 64] by (simp add: uint_fits_word_iff B_eq)
    ultimately have "uint_div_mod_knuth x y yw (xw - yw) =
        Some (limbs n (lval x div lval y), limbs n (lval x mod lval y))"
      using le yw2 xw yw big(1) len by (intro div_mod_knuth_spec) simp_all
    then show ?thesis using big y yb by (simp add: uint_div_mod_def bits xw(1) yw(1))
  qed
qed

lemma uint_div_mod_zero: "y \<noteq> [] \<Longrightarrow> lval y = 0 \<Longrightarrow> uint_div_mod x y = panic"
  by (simp add: uint_div_mod_def uint_bits_spec rust_assert_def)

lemma uint_div_rem_spec:
  assumes "length x = n" "length y = n" "0 < n"
  shows "uint_div x y = (if lval y = 0 then panic else Some (limbs n (lval x div lval y)))"
    and "uint_rem x y = (if lval y = 0 then panic else Some (limbs n (lval x mod lval y)))"
proof -
  have "y \<noteq> []" using assms by auto
  then show "uint_div x y = (if lval y = 0 then panic else Some (limbs n (lval x div lval y)))"
    and "uint_rem x y = (if lval y = 0 then panic else Some (limbs n (lval x mod lval y)))"
    using uint_div_mod_spec [OF assms] uint_div_mod_zero [of y x] by (auto simp: uint_div_def uint_rem_def)
qed

lemma uint_checked_div_rem_spec:
  assumes "length x = n" "length y = n" "0 < n"
  shows "uint_checked_div x y = Some (if lval y = 0 then None else Some (limbs n (lval x div lval y)))"
    and "uint_checked_rem x y = Some (if lval y = 0 then None else Some (limbs n (lval x mod lval y)))"
  using uint_div_rem_spec [OF assms]
  by (simp_all add: uint_checked_div_def uint_checked_rem_def uint_is_zero_iff)

subsection \<open>Properties\<close>

text \<open>
  C1. \<^verbatim>\<open>div_mod\<close> panics exactly on a zero divisor; otherwise it returns the quotient and the
  remainder, through whichever of its three branches applies: none of the intermediate
  arithmetic overflows and the correction loops of Knuth's algorithm end.
\<close>

theorem div_mod_correct:
  assumes "length x = n" and "length y = n" and "0 < n"
  shows "uint_div_mod x y =
    (if lval y = 0 then panic
     else Some (limbs n (lval x div lval y), limbs n (lval x mod lval y)))"
proof -
  have "y \<noteq> []" using assms by auto
  then show ?thesis using uint_div_mod_spec [OF assms] uint_div_mod_zero [of y x] by simp
qed

theorem div_mod_correct_witness:
  "uint_div_mod [7, 0, 12] [3, 4, 0] = Some ([0xFFFFFFFFFFFFFFFD, 2, 0], [16, 3, 0])"
  using div_mod_correct [of "[7, 0, 12]" 3 "[3, 4, 0]"]
  by (simp add: literal_simps)

text \<open>
  \<^verbatim>\<open>div_mod_word\<close> divides a 128-bit number by a 64-bit one on 32-bit digits: whenever the
  quotient fits into a word (\<open>hi < y\<close>) it returns quotient and remainder.
\<close>

theorem div_mod_word_correct:
  assumes "hi < y"
  shows "\<exists>q r. div_mod_word hi lo y = Some (q, r) \<and>
    unat hi * B + unat lo = unat q * unat y + unat r \<and> r < y"
proof -
  let ?N = "unat hi * B + unat lo"
  have y: "unat hi < unat y" using assms by (simp add: word_less_nat_alt)
  have "?N div unat y < B" using digit_lt_base(2) [OF y unat_lt_radix] .
  then have q: "unat (of_nat (?N div unat y) :: u64) = ?N div unat y" by (rule unat_of_nat_lt)
  have "?N mod unat y < unat y" using y by simp
  moreover from this have r: "unat (of_nat (?N mod unat y) :: u64) = ?N mod unat y"
    using unat_lt_radix [of y] by (intro unat_of_nat_lt) linarith
  ultimately show ?thesis
    by (simp add: div_mod_word_spec [OF assms] q word_less_nat_alt)
qed

theorem div_mod_word_correct_witness:
  "\<exists>q r. div_mod_word 1 5 7 = Some (q, r) \<and> unat (1 :: u64) * B + unat (5 :: u64) = unat q * unat (7 :: u64) + unat r \<and> r < 7"
  by (rule div_mod_word_correct) simp

end
