(* ===== verification/Uint_Pow.thy ===== *)
theory Uint_Pow
  imports Uint_Div
begin

text \<open>
  Powers and roots of \<^verbatim>\<open>construct_uint!\<close> integers: \<^verbatim>\<open>exp10\<close>, \<^verbatim>\<open>pow\<close>, \<^verbatim>\<open>overflowing_pow\<close>,
  \<^verbatim>\<open>checked_pow\<close> and Newton's iteration in \<^verbatim>\<open>integer_sqrt\<close>. The loops are partial functions; the
  lemmas show that they return and what they return.
\<close>

fun uint_exp10 :: "nat \<Rightarrow> nat \<Rightarrow> uint may_panic" where
  "uint_exp10 n_words 0 = Some (uint_from_u64 n_words 1)"
| "uint_exp10 n_words (Suc n) = do { r \<leftarrow> uint_exp10 n_words n; uint_mul_prim r 10 }"

partial_function (option) sqrt_loop :: "uint \<Rightarrow> uint \<Rightarrow> uint option" where
  "sqrt_loop self x_prev =
     do {
       q \<leftarrow> uint_div self x_prev;
       s \<leftarrow> uint_add x_prev q;
       i \<leftarrow> uint_from_i64 (length self) 1;
       x \<leftarrow> uint_shr s i;
       if uint_cmp x x_prev \<noteq> Less then Some x_prev else sqrt_loop self x }"

definition uint_integer_sqrt :: "uint \<Rightarrow> uint may_panic" where
  "uint_integer_sqrt self =
     (let n = length self; one = uint_one n in
      if uint_cmp self one \<noteq> Greater then Some self
      else do {
        b \<leftarrow> padd (of_nat (uint_bits self) :: u32) 1;
        let shift = b div 2;
        x_prev \<leftarrow> uint_shl one (uint_from_u64 n (ucast shift));
        sqrt_loop self x_prev })"

definition is_even :: "uint \<Rightarrow> bool" where
  "is_even x = (uint_low_u64 x AND 1 = 0)"

text \<open>
  The loop of \<^verbatim>\<open>pow\<close>. In the odd branch the source clears the top bit of the highest word
  (not the lowest bit of the lowest word) before it shifts.
\<close>

definition clear_top_bit :: "uint \<Rightarrow> uint" where
  "clear_top_bit n = (let k = length n - 1 in n[k := n ! k AND drop_bit 1 (NOT 0)])"

partial_function (option) pow_loop :: "uint \<Rightarrow> uint \<Rightarrow> uint \<Rightarrow> (uint \<times> uint) option" where
  "pow_loop x y n =
     (let w = length n in
      if uint_cmp n (uint_one w) = Greater then
        if is_even n then
          do {
            x \<leftarrow> uint_mul x x;
            n \<leftarrow> uint_shr n (uint_from_u64 w 1);
            pow_loop x y n }
        else
          do {
            y \<leftarrow> uint_mul x y;
            x \<leftarrow> uint_mul x x;
            n \<leftarrow> uint_shr (clear_top_bit n) (uint_from_u64 w 1);
            pow_loop x y n }
      else Some (x, y))"

definition uint_pow :: "uint \<Rightarrow> uint \<Rightarrow> uint may_panic" where
  "uint_pow self expon =
     (let w = length self in
      if uint_is_zero expon then Some (uint_one w)
      else do {
        (x, y) \<leftarrow> pow_loop self (uint_one w) expon;
        uint_mul x y })"

partial_function (option) overflowing_pow_loop ::
  "uint \<Rightarrow> uint \<Rightarrow> uint \<Rightarrow> bool \<Rightarrow> (uint \<times> uint \<times> bool) option" where
  "overflowing_pow_loop x y n overflow =
     (let w = length n in
      if uint_cmp n (uint_one w) = Greater then
        if is_even n then
          do {
            let (x, o1) = uint_overflowing_mul x x;
            n \<leftarrow> uint_shr n (uint_from_u64 w 1);
            overflowing_pow_loop x y n (overflow \<or> o1) }
        else
          do {
            let (y, o1) = uint_overflowing_mul x y;
            let (x, o2) = uint_overflowing_mul x x;
            n \<leftarrow> uint_sub n (uint_one w);
            n \<leftarrow> uint_shr n (uint_from_u64 w 1);
            overflowing_pow_loop x y n (overflow \<or> o1 \<or> o2) }
      else Some (x, y, overflow))"

definition uint_overflowing_pow :: "uint \<Rightarrow> uint \<Rightarrow> (uint \<times> bool) may_panic" where
  "uint_overflowing_pow self expon =
     (let w = length self in
      if uint_is_zero expon then Some (uint_one w, False)
      else do {
        (x, y, overflow) \<leftarrow> overflowing_pow_loop self (uint_one w) expon False;
        let (res, o1) = uint_overflowing_mul x y;
        Some (res, overflow \<or> o1) })"

definition uint_checked_pow :: "uint \<Rightarrow> uint \<Rightarrow> uint option may_panic" where
  "uint_checked_pow self expon = map_option checked_of (uint_overflowing_pow self expon)"


subsection \<open>Powers of ten\<close>

lemma exp10_spec:
  assumes "0 < w"
  shows "uint_exp10 w n = (if 10 ^ n < B ^ w then Some (limbs w (10 ^ n)) else panic)"
proof (induction n)
  case 0
  have "uint_from_u64 w 1 = limbs w 1" using assms by (intro limbs_eqI) simp_all
  moreover have "1 < B ^ w" using assms by (intro one_less_power) simp_all
  ultimately show ?case by simp
next
  case (Suc n)
  show ?case
  proof (cases "(10 :: nat) ^ n < B ^ w")
    case True
    then show ?thesis using Suc uint_mul_prim_spec [of "limbs w (10 ^ n)" w 10]
      by (simp add: lval_limbs mult.commute)
  next
    case False
    then show ?thesis using Suc by simp
  qed
qed

subsection \<open>The square root\<close>

lemma nat_sqrt_exists: "\<exists>S :: nat. S * S \<le> N \<and> N < (S + 1) * (S + 1)"
proof (induction N)
  case (Suc N)
  then obtain S where S: "S * S \<le> N" "N < (S + 1) * (S + 1)" by blast
  show ?case
  proof (cases "Suc N < (S + 1) * (S + 1)")
    case True
    then show ?thesis using S(1) by (intro exI [of _ S]) simp
  next
    case False
    then show ?thesis using S(2) by (intro exI [of _ "S + 1"]) simp
  qed
qed simp

lemma newton_lower:
  fixes N S p :: nat
  assumes "S * S \<le> N" and "0 < p"
  shows "S \<le> (p + N div p) div 2"
proof (rule ccontr)
  assume "\<not> S \<le> (p + N div p) div 2"
  then have lt: "p + N div p + 1 \<le> 2 * S" by linarith
  have "N < (N div p + 1) * p" using dividend_less_div_times [OF assms(2), of N] by simp
  also have "\<dots> \<le> (2 * S - p) * p" using lt by (intro mult_le_mono) simp_all
  finally have "int N < int ((2 * S - p) * p)" by (simp only: of_nat_less_iff)
  also have "\<dots> = (2 * int S - int p) * int p" using lt by (simp add: of_nat_diff)
  also have "\<dots> = int S * int S - (int S - int p) * (int S - int p)" by (simp add: algebra_simps)
  also have "\<dots> \<le> int S * int S" by simp
  finally show False using assms(1) by (simp flip: of_nat_mult)
qed

lemma newton_fixed:
  fixes N S p :: nat
  assumes "N < (S + 1) * (S + 1)" and "p \<le> (p + N div p) div 2" and "S \<le> p" and "0 < p"
  shows "p = S"
proof (rule ccontr)
  assume "p \<noteq> S"
  then have "(S + 1) * (S + 1) \<le> p * p" using assms(3) by (intro mult_le_mono) simp_all
  moreover have "p \<le> N div p" using assms(2) by linarith
  then have "p * p \<le> N" using assms(4) by (simp add: less_eq_div_iff_mult_less_eq)
  ultimately show False using assms(1) by linarith
qed

lemma newton_bound:
  fixes N S p b :: nat
  assumes "N < (S + 1) * (S + 1)" and "S \<le> p" and "0 < p" and "p \<le> b" and "S < b"
  shows "p + N div p < 2 * b + 2"
proof -
  have "N \<le> S * S + 2 * S" using assms(1) by simp
  also have "\<dots> \<le> p * S + p * 2"
    using mult_le_mono1 [OF assms(2), of S] assms(2) by linarith
  also have "\<dots> < p * (b + 2)" using assms(3,5) by (simp flip: distrib_left)
  finally have "N < p * (b + 2)" .
  then have "N div p < b + 2" using assms(3) by (simp add: div_less_iff_less_mult mult.commute)
  then show ?thesis using assms(4) by linarith
qed

lemma uint_shr_one:
  "0 < w \<Longrightarrow> length n = w \<Longrightarrow> uint_shr n (uint_from_u64 w 1) = Some (limbs w (lval n div 2))"
proof -
  assume w: "0 < w" "length n = w"
  have "lval n div 2 < B ^ w" using lval_bound [of n] w(2) by (simp add: less_imp_diff_less le_less_trans [OF div_le_dividend])
  then have "uint_shr_usize n 1 = limbs w (lval n div 2)"
    using w lval_shr [of n 1] by (intro limbs_eqI) simp_all
  then show ?thesis using uint_shr_small [OF w, of 1] by simp
qed

lemma sqrt_loop_step:
  assumes "length x = w" "length p = w" "0 < w" and "0 < lval p" "lval p + lval x div lval p < B ^ w"
  defines "p' \<equiv> (lval p + lval x div lval p) div 2"
  shows "sqrt_loop x p = (if lval p \<le> p' then Some p else sqrt_loop x (limbs w p'))"
proof -
  let ?q = "lval x div lval p"
  have q: "?q < B ^ w" using assms(5) by linarith
  have p': "p' < B ^ w" using assms(5) by (simp add: p'_def)
  have "uint_div x p = Some (limbs w ?q)" using uint_div_rem_spec(1) [OF assms(1-3)] assms(4) by simp
  moreover have "uint_add p (limbs w ?q) = Some (limbs w (lval p + ?q))"
    using uint_add_spec [OF assms(2), of "limbs w ?q"] q assms(5) by (simp add: lval_limbs)
  moreover have "uint_shr (limbs w (lval p + ?q)) (uint_from_u64 w 1) = Some (limbs w p')"
    using uint_shr_one [OF assms(3), of "limbs w (lval p + ?q)"] assms(5) by (simp add: lval_limbs p'_def)
  moreover have "uint_from_i64 w 1 = Some (uint_from_u64 w 1)" by (simp add: uint_from_i64_def)
  moreover have "uint_cmp (limbs w p') p \<noteq> Less \<longleftrightarrow> lval p \<le> p'"
    using uint_cmp_lval [of "limbs w p'" p] assms(2) p' by (simp add: lval_limbs not_less)
  ultimately show ?thesis using assms(1) by (subst sqrt_loop.simps) simp
qed

lemma sqrt_loop_spec:
  assumes x: "length x = w" "0 < w" and S: "S * S \<le> lval x" "lval x < (S + 1) * (S + 1)" "0 < S" "S < 2 ^ (32 * w)"
  shows "length p = w \<Longrightarrow> S \<le> lval p \<Longrightarrow> lval p \<le> 2 ^ (32 * w) \<Longrightarrow> sqrt_loop x p = Some (limbs w S)"
proof (induction "lval p" arbitrary: p rule: less_induct)
  case less
  let ?p' = "(lval p + lval x div lval p) div 2"
  have p0: "0 < lval p" using less.prems(2) S(3) by linarith
  have "lval p + lval x div lval p < 2 * 2 ^ (32 * w) + 2"
    using newton_bound [OF S(2) less.prems(2) p0 less.prems(3) S(4)] .
  also have "\<dots> \<le> 2 ^ (32 * w) * 2 ^ (32 * w)"
  proof -
    have "(4 :: nat) \<le> 2 ^ (32 * w)" using power_increasing [of 2 "32 * w" "2 :: nat"] x(2) by simp
    then have "4 * 2 ^ (32 * w) \<le> 2 ^ (32 * w) * (2 ^ (32 * w) :: nat)" by (rule mult_le_mono1)
    then show ?thesis using \<open>(4 :: nat) \<le> 2 ^ (32 * w)\<close> by linarith
  qed
  also have "\<dots> = B ^ w" by (simp add: B_power flip: power_add)
  finally have fits: "lval p + lval x div lval p < B ^ w" .
  note step = sqrt_loop_step [OF x(1) less.prems(1) x(2) p0 fits]
  have lower: "S \<le> ?p'" using newton_lower [OF S(1) p0] .
  show ?case
  proof (cases "lval p \<le> ?p'")
    case True
    then have "lval p = S" using newton_fixed [OF S(2) _ less.prems(2) p0] by blast
    then show ?thesis using True step less.prems(1) by (metis limbs_lval)
  next
    case False
    have "?p' < B ^ w" using fits by linarith
    then have "lval (limbs w ?p' :: uint) = ?p'" by (simp add: lval_limbs)
    then have "sqrt_loop x (limbs w ?p') = Some (limbs w S)"
      using less.hyps [of "limbs w ?p'"] False lower less.prems(3) by simp
    then show ?thesis using False step by simp
  qed
qed

lemma integer_sqrt_spec:
  assumes w: "length x = w" "0 < w" "64 * w < 2 ^ 32 - 1"
  shows "\<exists>r. uint_integer_sqrt x = Some r \<and> length r = w \<and>
    lval r * lval r \<le> lval x \<and> lval x < (lval r + 1) * (lval r + 1)"
proof -
  have ne: "x \<noteq> []" using w by auto
  have cmp: "uint_cmp x (uint_one w) = cmp_of (lval x) 1"
    using uint_cmp_lval [of x "uint_one w"] w by simp
  show ?thesis
  proof (cases "lval x \<le> 1")
    case True
    then have "lval x = 0 \<or> lval x = 1" by linarith
    then show ?thesis using w cmp by (auto simp: uint_integer_sqrt_def)
  next
    case False
    obtain S where S: "S * S \<le> lval x" "lval x < (S + 1) * (S + 1)" using nat_sqrt_exists by blast
    define sh where "sh = (nat_bits (lval x) + 1) div 2"
    have "nat_bits (lval x) \<le> 64 * w"
      using lval_bound [of x] w by (simp add: nat_bits_le_iff B_eq power_mult)
    then have sh: "sh \<le> 32 * w" by (simp add: sh_def)
    have "S < 2 ^ sh"
    proof (rule ccontr)
      assume "\<not> S < 2 ^ sh"
      then have "(2 :: nat) ^ sh * 2 ^ sh \<le> S * S" by (intro mult_le_mono) simp_all
      also note S(1)
      also have "lval x < 2 ^ nat_bits (lval x)" by (rule nat_bits_upper)
      also have "(2 :: nat) ^ nat_bits (lval x) \<le> 2 ^ (sh + sh)"
        by (intro power_increasing) (simp_all add: sh_def)
      finally show False by (simp add: power_add)
    qed
    have le: "(2 :: nat) ^ sh \<le> 2 ^ (32 * w)" using sh by (intro power_increasing) simp_all
    have "(2 :: nat) ^ (32 * w) < 2 ^ (64 * w)" using w(2) by (intro power_strict_increasing) simp_all
    then have fits: "2 ^ sh < B ^ w" using le unfolding B_power by linarith
    have bits: "uint_bits x = nat_bits (lval x)" using ne by (rule uint_bits_spec)
    have nb: "nat_bits (lval x) + 1 < radix TYPE(32)"
      using \<open>nat_bits (lval x) \<le> 64 * w\<close> w(3) by (simp add: radix_def)
    define b :: u32 where "b = of_nat (nat_bits (lval x) + 1)"
    have b: "unat b = nat_bits (lval x) + 1" unfolding b_def using nb by (rule unat_of_nat_lt)
    have pb: "padd (of_nat (uint_bits x) :: u32) 1 = Some b"
      using nb by (simp add: padd_ok bits unat_of_nat_lt b_def)
    have shu: "unat (ucast (b div 2) :: u64) = sh"
      by (simp add: unat_ucast_up unat_div b sh_def)
    have "lval (uint_shl_usize (uint_one w) sh) = 2 ^ sh" using w fits by (simp add: lval_shl)
    moreover have "S < 2 ^ (32 * w)" using \<open>S < 2 ^ sh\<close> le by (rule less_le_trans)
    moreover have "0 < S" using S(2) False by (cases S) simp_all
    ultimately have "sqrt_loop x (uint_shl_usize (uint_one w) sh) = Some (limbs w S)"
      using \<open>S < 2 ^ sh\<close> le sqrt_loop_spec [OF w(1,2) S, of "uint_shl_usize (uint_one w) sh"] by simp
    moreover have "uint_shl (uint_one w) (uint_from_u64 w (ucast (b div 2))) = Some (uint_shl_usize (uint_one w) sh)"
      using uint_shl_small [OF w(2), of "uint_one w" "ucast (b div 2)"] shu by simp
    ultimately have "uint_integer_sqrt x = Some (limbs w S)"
      using cmp False w pb by (simp add: uint_integer_sqrt_def)
    moreover have "lval (limbs w S :: uint) = S"
      using \<open>S < 2 ^ sh\<close> fits by (intro lval_limbs_lt) linarith
    ultimately show ?thesis using S by simp
  qed
qed


subsection \<open>Exponentiation by squaring\<close>

lemma is_even_iff: "n \<noteq> [] \<Longrightarrow> is_even n \<longleftrightarrow> even (lval n)"
proof -
  assume ne: "n \<noteq> []"
  have "uint_low_u64 n AND 1 = take_bit 1 (uint_low_u64 n)" by (simp add: take_bit_eq_mask)
  then have "is_even n \<longleftrightarrow> even (unat (uint_low_u64 n))"
    by (simp only: is_even_def word_unat_eq_iff unat_take_bit) (simp add: even_iff_mod_2_eq_zero)
  also have "\<dots> \<longleftrightarrow> even (lval n)"
    using ne uint_low_u64_mod [OF ne] by (simp add: B_eq even_mod_2_iff dvd_mod_iff)
  finally show ?thesis .
qed

lemma clear_top_bit_eq:
  assumes "length n = w" and "0 < w"
  shows "length (clear_top_bit n) = w" and "lval (clear_top_bit n) = lval n mod 2 ^ (64 * w - 1)"
proof -
  define k where "k = w - 1"
  have w: "w = Suc k" using assms(2) by (simp add: k_def)
  show "length (clear_top_bit n) = w" using assms(1) by (simp add: clear_top_bit_def Let_def)
  have "n ! k AND drop_bit 1 (NOT 0) = take_bit 63 (n ! k)"
    by (rule bit_word_eqI) (auto simp: bit_simps)
  then have c: "clear_top_bit n = n[k := take_bit 63 (n ! k)]"
    using assms(1) by (simp add: clear_top_bit_def w Let_def)
  have t: "unat (n ! k) = lval n div B ^ k"
    using assms(1) lval_bound [of n] by (simp add: w lval_nth div_less_iff_less_mult mult.commute)
  have "lval (clear_top_bit n) + B ^ k * unat (n ! k) = lval n + B ^ k * (unat (n ! k) mod 2 ^ 63)"
    unfolding c using lval_update [of k n "take_bit 63 (n ! k)"] assms(1) by (simp only: unat_take_bit w lessI)
  then have "lval (clear_top_bit n) + B ^ k * (lval n div B ^ k)
      = (B ^ k * (lval n div B ^ k) + lval n mod B ^ k) + B ^ k * (lval n div B ^ k mod 2 ^ 63)"
    by (simp only: t mult_div_mod_eq)
  then have "lval (clear_top_bit n) = B ^ k * (lval n div B ^ k mod 2 ^ 63) + lval n mod B ^ k"
    by linarith
  also have "\<dots> = lval n mod (B ^ k * 2 ^ 63)" by (rule mod_mult2_eq [symmetric])
  also have "64 * w - 1 = 64 * k + 63" by (simp add: w)
  then have "B ^ k * 2 ^ 63 = 2 ^ (64 * w - 1)" by (simp only: B_power power_add)
  finally show "lval (clear_top_bit n) = lval n mod 2 ^ (64 * w - 1)" .
qed

lemma uint_cmp_one:
  "length n = w \<Longrightarrow> 0 < w \<Longrightarrow> uint_cmp n (uint_one w) = Greater \<longleftrightarrow> 1 < lval n"
  using uint_cmp_lval [of n "uint_one w"] by simp

lemma uint_mul_limbs:
  "a < B ^ w \<Longrightarrow> b < B ^ w \<Longrightarrow>
     uint_mul (limbs w a) (limbs w b) = (if a * b < B ^ w then Some (limbs w (a * b)) else panic)"
  by (simp add: uint_mul_spec [where n = w] lval_limbs_lt)

lemma pow_loop_step:
  assumes "X < B ^ w" "Y < B ^ w" "e < B ^ w" and w: "0 < w"
  shows "pow_loop (limbs w X) (limbs w Y) (limbs w e) =
    (if 1 < e then
       if even e then
         if X * X < B ^ w then pow_loop (limbs w (X * X)) (limbs w Y) (limbs w (e div 2)) else panic
       else if X * Y < B ^ w \<and> X * X < B ^ w
         then pow_loop (limbs w (X * X)) (limbs w (X * Y)) (limbs w (e mod 2 ^ (64 * w - 1) div 2))
         else panic
     else Some (limbs w X, limbs w Y))"
proof -
  let ?n = "limbs w e :: uint"
  have n: "lval ?n = e" "length ?n = w" "?n \<noteq> []" using assms(3) w by (auto simp: lval_limbs_lt simp flip: length_0_conv)
  note c = clear_top_bit_eq [OF n(2) w]
  have "uint_shr (clear_top_bit ?n) (uint_from_u64 w 1) = Some (limbs w (e mod 2 ^ (64 * w - 1) div 2))"
    using uint_shr_one [OF w c(1)] c(2) n by simp
  then show ?thesis
    using uint_shr_one [OF w n(2)] uint_cmp_one [OF n(2) w] is_even_iff [OF n(3)] n assms
    by (subst pow_loop.simps) (simp add: Let_def uint_mul_limbs)
qed

lemma power_div2: "even e \<Longrightarrow> X ^ e = (X * X) ^ (e div 2)" and
  power_odd_div2: "odd e \<Longrightarrow> X ^ e = X * (X * X) ^ (e div 2)" for X :: nat
proof -
  show "even e \<Longrightarrow> X ^ e = (X * X) ^ (e div 2)"
    by (metis dvd_mult_div_cancel power2_eq_square power_mult)
  show "odd e \<Longrightarrow> X ^ e = X * (X * X) ^ (e div 2)"
    by (metis odd_two_times_div_two_succ power2_eq_square power_Suc power_mult Suc_eq_plus1)
qed

text \<open>Every product the loops form divides the result, so it fits when the result does.\<close>

lemma factor_le_result:
  fixes X Y :: nat
  assumes "X = 0 \<or> 0 < Y" and "1 < e"
  shows "X * X \<le> X ^ e * Y" and "odd e \<Longrightarrow> X * Y \<le> X ^ e * Y"
proof -
  have "X * X \<le> X ^ e \<and> X \<le> X ^ e"
  proof (cases "X = 0")
    case False
    then have "X ^ 2 \<le> X ^ e" "X ^ 1 \<le> X ^ e" using assms(2) by (intro power_increasing; simp)+
    then show ?thesis by (simp add: power2_eq_square)
  qed simp
  moreover have "X ^ e \<le> X ^ e * Y" using assms by (cases "X = 0") auto
  ultimately show "X * X \<le> X ^ e * Y" and "X * Y \<le> X ^ e * Y" by (linarith, simp)
qed

lemma pow_loop_result:
  assumes w: "0 < w"
  shows "X < B ^ w \<Longrightarrow> Y < B ^ w \<Longrightarrow> 0 < e \<Longrightarrow> e < 2 ^ (64 * w - 1) \<Longrightarrow> X = 0 \<or> 0 < Y \<Longrightarrow>
     do { (x, y) \<leftarrow> pow_loop (limbs w X) (limbs w Y) (limbs w e); uint_mul x y } =
       (if X ^ e * Y < B ^ w then Some (limbs w (X ^ e * Y)) else panic)"
proof (induction e arbitrary: X Y rule: less_induct)
  case (less e)
  have "(2 :: nat) ^ (64 * w - 1) \<le> B ^ w" unfolding B_power by (intro power_increasing) simp_all
  then have eB: "e < B ^ w" using less.prems(4) by linarith
  note step = pow_loop_step [OF less.prems(1,2) eB w]
  show ?case
  proof (cases "1 < e")
    case False
    then have "e = 1" using less.prems(3) by linarith
    moreover have "pow_loop (limbs w X) (limbs w Y) (limbs w e) = Some (limbs w X, limbs w Y)"
      using False by (simp add: step)
    ultimately show ?thesis using less.prems(1,2) by (simp add: uint_mul_limbs)
  next
    case True
    then have h: "e div 2 < e" "0 < e div 2" "e div 2 < 2 ^ (64 * w - 1)" using less.prems(4) by auto
    note fac = factor_le_result [OF less.prems(5) True]
    show ?thesis
    proof (cases "even e")
      case even: True
      have st: "pow_loop (limbs w X) (limbs w Y) (limbs w e) = (if X * X < B ^ w
          then pow_loop (limbs w (X * X)) (limbs w Y) (limbs w (e div 2)) else panic)"
        using True even by (simp add: step)
      show ?thesis
      proof (cases "X * X < B ^ w")
        case sq: True
        have "X * X = 0 \<or> 0 < Y" using less.prems(5) by auto
        from less.IH [OF h(1) sq less.prems(2) h(2,3) this] show ?thesis
          using sq by (simp add: st power_div2 [OF even, of X])
      qed (use fac(1) in \<open>simp add: st\<close>)
    next
      case odd: False
      have st: "pow_loop (limbs w X) (limbs w Y) (limbs w e) = (if X * Y < B ^ w \<and> X * X < B ^ w
          then pow_loop (limbs w (X * X)) (limbs w (X * Y)) (limbs w (e div 2)) else panic)"
        using True odd less.prems(4) by (simp add: step)
      show ?thesis
      proof (cases "X * Y < B ^ w \<and> X * X < B ^ w")
        case sq: True
        have "X * X = 0 \<or> 0 < X * Y" using less.prems(5) by auto
        moreover have "X ^ e * Y = (X * X) ^ (e div 2) * (X * Y)"
          by (subst power_odd_div2 [OF odd]) (simp only: ac_simps)
        ultimately show ?thesis
          using sq less.IH [OF h(1) _ _ h(2,3), of "X * X" "X * Y"] by (simp only: st) simp
      next
        case False
        then have "\<not> X ^ e * Y < B ^ w" using fac(1) fac(2) [OF odd] by linarith
        then show ?thesis using False by (simp only: st if_False) simp
      qed
    qed
  qed
qed

lemma uint_one_limbs: "0 < w \<Longrightarrow> uint_one w = limbs w (Suc 0)"
  by (intro limbs_eqI) simp_all

lemma one_less_B_power: "0 < w \<Longrightarrow> Suc 0 < B ^ w"
  using one_less_power [of B w] by simp

lemma uint_pow_unfold:
  assumes "length x = w" "length e = w" "0 < w" and "lval e \<noteq> 0"
  shows "uint_pow x e =
    do { (x, y) \<leftarrow> pow_loop (limbs w (lval x)) (limbs w (Suc 0)) (limbs w (lval e)); uint_mul x y }"
  using assms by (simp add: uint_pow_def uint_is_zero_iff limbs_lval uint_one_limbs)

lemma uint_pow_spec:
  assumes len: "length x = w" "length e = w" and w: "0 < w"
    and e: "lval e < 2 ^ (64 * w - 1) \<or> even (lval e)"
  shows "uint_pow x e = (if lval x ^ lval e < B ^ w then Some (limbs w (lval x ^ lval e)) else panic)"
proof -
  let ?X = "lval x" and ?e = "lval e"
  have X: "?X < B ^ w" and E: "?e < B ^ w" using lval_bound [of x] lval_bound [of e] len by simp_all
  note one = one_less_B_power [OF w]
  consider "?e = 0" | "0 < ?e" "?e < 2 ^ (64 * w - 1)" | "2 ^ (64 * w - 1) \<le> ?e" "even ?e"
    using e by (cases "?e = 0"; cases "?e < 2 ^ (64 * w - 1)") auto
  then show ?thesis
  proof cases
    case 1
    then show ?thesis using len one by (simp add: uint_pow_def uint_is_zero_iff uint_one_limbs [OF w])
  next
    case 2
    then show ?thesis
      using uint_pow_unfold [OF len w] pow_loop_result [OF w X one 2] by simp
  next
    case 3
    have "(2 :: nat) ^ (64 * w) = 2 * 2 ^ (64 * w - 1)" using w by (simp flip: power_Suc)
    then have h: "?e div 2 < 2 ^ (64 * w - 1)" using E by (simp add: B_power)
    have "(2 :: nat) ^ 1 \<le> 2 ^ (64 * w - 1)" using w by (intro power_increasing) simp_all
    then have e1: "1 < ?e" "0 < ?e div 2" using 3(1) by simp_all
    have st: "pow_loop (limbs w ?X) (limbs w (Suc 0)) (limbs w ?e) = (if ?X * ?X < B ^ w
        then pow_loop (limbs w (?X * ?X)) (limbs w (Suc 0)) (limbs w (?e div 2)) else panic)"
      using pow_loop_step [OF X one E w] e1(1) 3(2) by simp
    show ?thesis
    proof (cases "?X * ?X < B ^ w")
      case True
      from pow_loop_result [OF w True one e1(2) h] show ?thesis
        using True e1 by (simp add: uint_pow_unfold [OF len w] st power_div2 [OF 3(2), of ?X])
    next
      case False
      then have "\<not> ?X ^ ?e < B ^ w" using factor_le_result(1) [OF _ e1(1), of ?X 1] by linarith
      then show ?thesis using False e1 by (simp add: uint_pow_unfold [OF len w] st)
    qed
  qed
qed

text \<open>
  An odd exponent with its top bit set: the first round drops that bit, so the loop goes on
  with a different exponent (and with \<open>3\<close> when nothing is left).
\<close>

lemma uint_pow_odd_top:
  assumes len: "length x = w" "length e = w" and w: "0 < w"
    and e: "odd (lval e)" "2 ^ (64 * w - 1) < lval e"
  defines "k \<equiv> 2 * max 1 (lval e mod 2 ^ (64 * w - 1) div 2) + 1"
  shows "uint_pow x e = (if lval x ^ k < B ^ w then Some (limbs w (lval x ^ k)) else panic)"
proof -
  let ?X = "lval x" and ?e = "lval e" and ?t = "2 ^ (64 * w - 1) :: nat"
  define f where "f = ?e mod ?t div 2"
  have X: "?X < B ^ w" and E: "?e < B ^ w" using lval_bound [of x] lval_bound [of e] len by simp_all
  note one = one_less_B_power [OF w]
  have "1 \<le> ?t" by simp
  then have e1: "1 < ?e" "?e \<noteq> 0" using e(2) by linarith+
  have f: "f < ?t" unfolding f_def by (rule le_less_trans [OF div_le_dividend]) simp
  have st: "pow_loop (limbs w ?X) (limbs w (Suc 0)) (limbs w ?e) = (if ?X * ?X < B ^ w
      then pow_loop (limbs w (?X * ?X)) (limbs w ?X) (limbs w f) else panic)"
    using pow_loop_step [OF X one E w] e1(1) e(1) X by (simp add: f_def)
  have pk: "?X ^ k = (?X * ?X) ^ max 1 f * ?X"
    unfolding k_def f_def by (simp add: power_mult power2_eq_square)
  show ?thesis
  proof (cases "?X * ?X < B ^ w")
    case False
    moreover have "1 < k" by (simp add: k_def)
    ultimately have "\<not> ?X ^ k < B ^ w" using factor_le_result(1) [of ?X 1 k] by linarith
    then show ?thesis using False e1 by (simp add: uint_pow_unfold [OF len w] st)
  next
    case sq: True
    have tB: "?t \<le> B ^ w" unfolding B_power by (intro power_increasing) simp_all
    have "do { (x, y) \<leftarrow> pow_loop (limbs w (?X * ?X)) (limbs w ?X) (limbs w f); uint_mul x y }
        = (if ?X ^ k < B ^ w then Some (limbs w (?X ^ k)) else panic)"
    proof (cases "f = 0")
      case True
      then show ?thesis using pow_loop_step [OF sq X _ w, of 0] sq X
        by (simp add: pk uint_mul_limbs)
    next
      case False
      moreover have "?X * ?X = 0 \<or> 0 < ?X" by auto
      ultimately show ?thesis using pow_loop_result [OF w sq X _ f] by (simp add: pk max_def Suc_leI)
    qed
    then show ?thesis using sq e1 by (simp add: uint_pow_unfold [OF len w] st)
  qed
qed

subsection \<open>Exponentiation with an overflow flag\<close>

lemma overflowing_mul_limbs:
  "a < B ^ w \<Longrightarrow> b < B ^ w \<Longrightarrow>
     uint_overflowing_mul (limbs w a) (limbs w b) = (limbs w (a * b mod B ^ w), B ^ w \<le> a * b)"
  by (simp add: overflowing_mul_spec [where n = w] lval_limbs_lt limbs_mod)

lemma overflowing_pow_loop_step:
  assumes "X < B ^ w" "Y < B ^ w" "e < B ^ w" and w: "0 < w"
  shows "overflowing_pow_loop (limbs w X) (limbs w Y) (limbs w e) ov =
    (if 1 < e then
       if even e
       then overflowing_pow_loop (limbs w (X * X mod B ^ w)) (limbs w Y) (limbs w (e div 2))
         (ov \<or> B ^ w \<le> X * X)
       else overflowing_pow_loop (limbs w (X * X mod B ^ w)) (limbs w (X * Y mod B ^ w)) (limbs w (e div 2))
         (ov \<or> B ^ w \<le> X * Y \<or> B ^ w \<le> X * X)
     else Some (limbs w X, limbs w Y, ov))"
proof -
  let ?n = "limbs w e :: uint"
  have n: "lval ?n = e" "length ?n = w" "?n \<noteq> []"
    using assms(3) w by (auto simp: lval_limbs_lt simp flip: length_0_conv)
  have "uint_sub ?n (uint_one w) = Some (limbs w (e - 1))" if "1 < e"
    using uint_sub_spec [OF n(2), of "uint_one w"] n(1) w that by simp
  moreover have "uint_shr (limbs w (e - 1)) (uint_from_u64 w 1) = Some (limbs w (e div 2))" if "odd e"
  proof -
    have "(e - 1) div 2 = e div 2" using that by presburger
    moreover have "e - 1 < B ^ w" using assms(3) by linarith
    ultimately show ?thesis using uint_shr_one [OF w, of "limbs w (e - 1)"] by (simp add: lval_limbs_lt)
  qed
  ultimately show ?thesis
    using uint_shr_one [OF w n(2)] uint_cmp_one [OF n(2) w] is_even_iff [OF n(3)] n assms
    by (subst overflowing_pow_loop.simps) (simp add: Let_def overflowing_mul_limbs)
qed

lemma overflowing_pow_loop_result:
  assumes w: "0 < w"
  shows "X < B ^ w \<Longrightarrow> Y < B ^ w \<Longrightarrow> 0 < e \<Longrightarrow> e < B ^ w \<Longrightarrow> ov \<or> X = 0 \<or> 0 < Y \<Longrightarrow>
     do { (x, y, ov) \<leftarrow> overflowing_pow_loop (limbs w X) (limbs w Y) (limbs w e) ov;
          let (res, o1) = uint_overflowing_mul x y; Some (res, ov \<or> o1) } =
       Some (limbs w (X ^ e * Y), ov \<or> B ^ w \<le> X ^ e * Y)"
proof (induction e arbitrary: X Y ov rule: less_induct)
  case (less e)
  let ?M = "B ^ w"
  note step = overflowing_pow_loop_step [OF less.prems(1,2,4) w]
  show ?case
  proof (cases "1 < e")
    case False
    then have "e = 1" using less.prems(3) by linarith
    moreover have "overflowing_pow_loop (limbs w X) (limbs w Y) (limbs w e) ov = Some (limbs w X, limbs w Y, ov)"
      using False by (simp add: step)
    ultimately show ?thesis using less.prems(1,2) by (simp add: overflowing_mul_limbs limbs_mod)
  next
    case True
    then have h: "e div 2 < e" "0 < e div 2" "e div 2 < B ^ w" using less.prems(4) by auto
    define X' Y' ov' where defs: "X' = X * X mod ?M" "Y' = (if even e then Y else X * Y mod ?M)"
      "ov' = (ov \<or> (odd e \<and> ?M \<le> X * Y) \<or> ?M \<le> X * X)"
    have st: "overflowing_pow_loop (limbs w X) (limbs w Y) (limbs w e) ov
        = overflowing_pow_loop (limbs w X') (limbs w Y') (limbs w (e div 2)) ov'"
      using True by (simp add: step defs)
    have P: "X ^ e * Y = (X * X) ^ (e div 2) * (if even e then Y else X * Y)"
      using power_div2 [of e X] power_odd_div2 [of e X] by simp
    have "(X' ^ (e div 2) * Y') mod ?M = X ^ e * Y mod ?M"
      unfolding P by (rule mod_mult_cong) (simp_all add: defs power_mod)
    then have lim: "limbs w (X' ^ (e div 2) * Y') = (limbs w (X ^ e * Y) :: uint)"
      by (metis limbs_mod)
    have exact: "X' = X * X" "Y' = (if even e then Y else X * Y)" "\<not> ov" if "\<not> ov'"
      using that by (auto simp: defs)
    have inv: "ov' \<or> X' = 0 \<or> 0 < Y'"
      using less.prems(5) exact by (cases ov') auto
    have flag: "ov' \<or> ?M \<le> X' ^ (e div 2) * Y' \<longleftrightarrow> ov \<or> ?M \<le> X ^ e * Y"
    proof (cases ov')
      case True
      have "ov \<or> ?M \<le> X ^ e * Y"
      proof (rule ccontr)
        assume n: "\<not> (ov \<or> ?M \<le> X ^ e * Y)"
        then have "X = 0 \<or> 0 < Y" using less.prems(5) by blast
        note fac = factor_le_result [OF this \<open>1 < e\<close>]
        show False using True n fac(1) order_trans [OF _ fac(2), of ?M] order_trans [OF _ fac(1), of ?M]
          unfolding defs by blast
      qed
      then show ?thesis using True by blast
    next
      case False
      then show ?thesis using exact P by simp
    qed
    have "X' < ?M" "Y' < ?M" using less.prems(2) by (simp_all add: defs)
    from less.IH [OF h(1) this h(2,3) inv] show ?thesis by (simp only: st lim flag)
  qed
qed

lemma overflowing_pow_spec:
  assumes len: "length x = w" "length e = w" and w: "0 < w"
  shows "uint_overflowing_pow x e = Some (limbs w (lval x ^ lval e), B ^ w \<le> lval x ^ lval e)"
proof (cases "lval e = 0")
  case True
  then show ?thesis using len one_less_B_power [OF w]
    by (simp add: uint_overflowing_pow_def uint_is_zero_iff uint_one_limbs [OF w])
next
  case False
  have "lval x < B ^ w" "lval e < B ^ w" using lval_bound [of x] lval_bound [of e] len by simp_all
  with overflowing_pow_loop_result [OF w this(1) one_less_B_power [OF w] _ this(2), of False] False
  show ?thesis
    using len by (simp add: uint_overflowing_pow_def uint_is_zero_iff limbs_lval uint_one_limbs [OF w])
qed

lemma checked_pow_spec:
  assumes "length x = w" "length e = w" "0 < w"
  shows "uint_checked_pow x e =
    Some (if lval x ^ lval e < B ^ w then Some (limbs w (lval x ^ lval e)) else None)"
  by (auto simp: uint_checked_pow_def overflowing_pow_spec [OF assms] checked_of_def)


subsection \<open>Properties\<close>

text \<open>
  C12. \<^verbatim>\<open>integer_sqrt\<close> returns the integer square root: Newton's iteration ends, and none of its
  additions overflows (for every type whose number of bits fits the \<^verbatim>\<open>u32\<close> it is cast to).
\<close>

theorem integer_sqrt_correct:
  assumes "length x = w" and "0 < w" and "64 * w < 2 ^ 32 - 1"
  shows "\<exists>r. uint_integer_sqrt x = Some r \<and> length r = w \<and>
    lval r * lval r \<le> lval x \<and> lval x < (lval r + 1) * (lval r + 1)"
  using assms by (rule integer_sqrt_spec)

theorem integer_sqrt_correct_witness:
  "\<exists>r. uint_integer_sqrt [17, 3, 0, 0] = Some r \<and> length r = 4 \<and>
    lval r * lval r \<le> lval [17, 3, 0, 0 :: u64] \<and> lval [17, 3, 0, 0 :: u64] < (lval r + 1) * (lval r + 1)"
  by (rule integer_sqrt_correct) simp_all

text \<open>
  \<^verbatim>\<open>overflowing_pow\<close> returns the power modulo \<open>2 ^ (64 * w)\<close>, and its flag is set exactly when the
  power does not fit, although the flag is the disjunction of the flags of all intermediate products;
  \<^verbatim>\<open>checked_pow\<close> returns the power exactly when it fits.
\<close>

theorem overflowing_pow_correct:
  assumes "length x = w" and "length e = w" and "0 < w"
  shows "uint_overflowing_pow x e = Some (limbs w (lval x ^ lval e), B ^ w \<le> lval x ^ lval e) \<and>
    uint_checked_pow x e =
      Some (if lval x ^ lval e < B ^ w then Some (limbs w (lval x ^ lval e)) else None)"
  using overflowing_pow_spec [OF assms] checked_pow_spec [OF assms] by simp

theorem overflowing_pow_correct_witness:
  "uint_overflowing_pow [2, 0] [65, 0] = Some ([0, 2], False) \<and> uint_checked_pow [2, 0] [128, 0] = Some None"
  using overflowing_pow_correct [of "[2, 0]" 2 "[65, 0]"] overflowing_pow_correct [of "[2, 0]" 2 "[128, 0]"]
  by (simp add: literal_simps)

text \<open>
  C13. \<^verbatim>\<open>pow\<close> returns the exact power or panics when it does not fit, for every exponent that is
  even or below half of the range of the type.
\<close>

theorem pow_correct:
  assumes "length x = w" and "length e = w" and "0 < w"
    and "lval e < 2 ^ (64 * w - 1) \<or> even (lval e)"
  shows "uint_pow x e = (if lval x ^ lval e < B ^ w then Some (limbs w (lval x ^ lval e)) else panic)"
  using assms by (rule uint_pow_spec)

theorem pow_correct_witness:
  "uint_pow [3, 0] [5, 0] = Some [243, 0] \<and> uint_pow [2, 0] [128, 0] = panic"
  using pow_correct [of "[3, 0]" 2 "[5, 0]"] pow_correct [of "[2, 0]" 2 "[128, 0]"]
  by (simp add: literal_simps)

text \<open>
  An odd exponent in the upper half of the range: \<^verbatim>\<open>pow\<close> clears the top bit of the exponent
  (where its comment says the last bit), so it computes a different power. In particular
  \<open>2 ^ (2 ^ 255 + 1)\<close> is \<open>8\<close> instead of a panic.
\<close>

theorem pow_clears_top_bit:
  assumes "length x = w" and "length e = w" and "0 < w"
    and "odd (lval e)" and "2 ^ (64 * w - 1) < lval e"
  shows "uint_pow x e =
    (let k = 2 * max 1 (lval e mod 2 ^ (64 * w - 1) div 2) + 1
     in if lval x ^ k < B ^ w then Some (limbs w (lval x ^ k)) else panic)"
  unfolding Let_def using assms by (rule uint_pow_odd_top)

theorem pow_clears_top_bit_witness:
  "uint_pow [2, 0, 0, 0] [1, 0, 0, 0x8000000000000000] = Some [8, 0, 0, 0]"
  using pow_clears_top_bit [of "[2, 0, 0, 0]" 4 "[1, 0, 0, 0x8000000000000000]"]
  by (simp add: literal_simps)

end
