(* ===== verification/Uint_Conv.thy ===== *)
theory Uint_Conv
  imports Uint_Pow
begin

text \<open>
  Conversions of \<^verbatim>\<open>construct_uint!\<close> integers from and to bytes and text: big and little endian,
  decimal (\<^verbatim>\<open>from_dec_str\<close>, \<^verbatim>\<open>Display\<close>) and hexadecimal (\<^verbatim>\<open>LowerHex\<close>, \<^verbatim>\<open>FromStr\<close>). The word
  access of the \<^verbatim>\<open>byteorder\<close> crate and the decoder of the \<^verbatim>\<open>hex\<close> crate are parameters; text is the
  list of its UTF-8 bytes.
\<close>

subsection \<open>Big and little endian\<close>

text \<open>
  \<open>write_u64\<close> gives the eight bytes \<^verbatim>\<open>ByteOrder::write_u64\<close> stores at the front of a slice,
  \<open>read_u64\<close> is \<^verbatim>\<open>ByteOrder::read_u64\<close>; a slice \<^verbatim>\<open>&mut bytes[8 * i..]\<close> is written in place.
\<close>

definition uint_to_big_endian :: "(u64 \<Rightarrow> bytes) \<Rightarrow> uint \<Rightarrow> bytes \<Rightarrow> bytes may_panic" where
  "uint_to_big_endian write_u64 self bytes =
     do {
       let n = length self;
       rust_assert (n * 8 = length bytes);
       Some (fold (\<lambda>i bytes. take (8 * i) bytes @ write_u64 (self ! (n - i - 1)) @ drop (8 * i + 8) bytes)
               [0..<n] bytes) }"

definition uint_to_little_endian :: "(u64 \<Rightarrow> bytes) \<Rightarrow> uint \<Rightarrow> bytes \<Rightarrow> bytes may_panic" where
  "uint_to_little_endian write_u64 self bytes =
     do {
       let n = length self;
       rust_assert (n * 8 = length bytes);
       Some (fold (\<lambda>i bytes. take (8 * i) bytes @ write_u64 (self ! i) @ drop (8 * i + 8) bytes)
               [0..<n] bytes) }"

definition uint_from_big_endian :: "(bytes \<Rightarrow> u64) \<Rightarrow> nat \<Rightarrow> bytes \<Rightarrow> uint may_panic" where
  "uint_from_big_endian read_u64 n bs =
     do {
       rust_assert (n * 8 \<ge> length bs);
       let padded = take (n * 8 - length bs) (replicate (n * 8) 0) @ bs;
       Some (fold (\<lambda>i ret. ret[n - i - 1 := read_u64 (drop (8 * i) padded)]) [0..<n] (replicate n 0)) }"

definition uint_from_little_endian :: "(bytes \<Rightarrow> u64) \<Rightarrow> nat \<Rightarrow> bytes \<Rightarrow> uint may_panic" where
  "uint_from_little_endian read_u64 n bs =
     do {
       rust_assert (n * 8 \<ge> length bs);
       let padded = bs @ drop (length bs) (replicate (n * 8) 0);
       Some (fold (\<lambda>i ret. ret[i := read_u64 (drop (8 * i) padded)]) [0..<n] (replicate n 0)) }"

text \<open>\<^verbatim>\<open>From<$name> for [u8; $n_words * 8]\<close>; the conversions back are \<^const>\<open>uint_from_big_endian\<close>.\<close>

definition uint_into_bytes :: "(u64 \<Rightarrow> bytes) \<Rightarrow> uint \<Rightarrow> bytes may_panic" where
  "uint_into_bytes write_u64 number = uint_to_big_endian write_u64 number (replicate (length number * 8) 0)"

subsection \<open>Decimal text\<close>

datatype from_dec_str_err = DecInvalidCharacter | DecInvalidLength

fun dec_str_loop :: "bytes \<Rightarrow> uint \<Rightarrow> from_dec_str_err + uint" where
  "dec_str_loop [] res = Inr res"
| "dec_str_loop (c # cs) res =
     (let b = c - 48 in
      if b > 9 then Inl DecInvalidCharacter
      else
        let (r, overflow) = uint_overflowing_mul_u64 res 10 in
        if overflow > 0 then Inl DecInvalidLength
        else
          let (r, overflow) = uint_overflowing_add r (uint_from_u64 (length res) (ucast b)) in
          if overflow then Inl DecInvalidLength
          else dec_str_loop cs r)"

definition uint_from_dec_str :: "nat \<Rightarrow> bytes \<Rightarrow> from_dec_str_err + uint" where
  "uint_from_dec_str n value = dec_str_loop value (uint_default n)"

fun display_loop :: "uint \<Rightarrow> uint \<Rightarrow> nat \<Rightarrow> bytes \<Rightarrow> bytes may_panic" where
  "display_loop ten current i buf =
     do {
       r \<leftarrow> uint_rem current ten;
       let digit = ucast (uint_low_u64 r);
       d \<leftarrow> padd digit 48;
       let buf = buf[i := d];
       current \<leftarrow> uint_div current ten;
       if uint_is_zero current then Some (drop i buf)
       else (case i of 0 \<Rightarrow> panic | Suc j \<Rightarrow> display_loop ten current j buf) }"

declare display_loop.simps [simp del]

definition uint_display :: "uint \<Rightarrow> bytes may_panic" where
  "uint_display self =
     (let n = length self in
      if uint_is_zero self then Some [48]
      else
        let buf = replicate (n * 20) 0 in
        do {
          ten \<leftarrow> uint_from_i64 n 10;
          display_loop ten self (length buf - 1) buf })"

subsection \<open>Hexadecimal text\<close>

text \<open>The formatting \<^verbatim>\<open>{:x}\<close> of a number below 16.\<close>

definition hex_digit :: "u64 \<Rightarrow> u8" where
  "hex_digit nibble = (if nibble < 10 then 48 + ucast nibble else 87 + ucast nibble)"

definition nibble_at :: "u64 \<Rightarrow> nat \<Rightarrow> u64" where
  "nibble_at ch x = drop_bit ((15 - x) * 4) (ch AND push_bit ((15 - x) * 4) 15)"

definition hex_step :: "u64 \<Rightarrow> nat \<Rightarrow> bool \<times> bytes \<Rightarrow> bool \<times> bytes" where
  "hex_step ch x = (\<lambda>(latch, out).
     let nibble = nibble_at ch x;
         latch = (if \<not> latch then nibble \<noteq> 0 else latch)
     in (latch, if latch then out @ [hex_digit nibble] else out))"

definition uint_lower_hex :: "bool \<Rightarrow> uint \<Rightarrow> bytes" where
  "uint_lower_hex alternate self =
     (if alternate then [48, 120] else []) @
     (if uint_is_zero self then [48]
      else snd (fold (\<lambda>ch st. fold (\<lambda>x. hex_step ch x) [0..<16] st) (rev self) (False, [])))"

text \<open>\<^verbatim>\<open>hex::FromHexError\<close>.\<close>

datatype hex_error = InvalidHexCharacter u8 nat | InvalidStringLength | OddLength

text \<open>
  \<open>decode_to_slice\<close> is \<^verbatim>\<open>hex::decode_to_slice\<close>: the text and the output slice it overwrites. An output
  bs \<^verbatim>\<open>&mut bytes[k..]\<close> is put back behind \<open>take k bytes\<close>.
\<close>

definition strip_0x :: "bytes \<Rightarrow> bytes" where
  "strip_0x value = (if take 2 value = [48, 120] then drop 2 value else value)"

definition uint_from_str ::
  "(bytes \<Rightarrow> bytes \<Rightarrow> hex_error + bytes) \<Rightarrow> (bytes \<Rightarrow> u64) \<Rightarrow> nat \<Rightarrow> bytes \<Rightarrow> (hex_error + uint) may_panic" where
  "uint_from_str decode_to_slice read_u64 n value =
     (let encoded = strip_0x value;
          BYTES_LEN = n * 8;
          MAX_ENCODED_LEN = BYTES_LEN * 2;
          bytes = replicate BYTES_LEN 0
      in if length encoded > MAX_ENCODED_LEN then Some (Inl InvalidStringLength)
         else
           let encoded = (if length encoded mod 2 = 0 then encoded
                          else let s = take (MAX_ENCODED_LEN - length encoded)
                                         (replicate MAX_ENCODED_LEN 48) @ encoded
                               in drop (MAX_ENCODED_LEN - length encoded - 1) s);
               k = BYTES_LEN - length encoded div 2
           in case decode_to_slice encoded (drop k bytes) of
                Inl e \<Rightarrow> Some (Inl e)
              | Inr out \<Rightarrow> map_option Inr (uint_from_big_endian read_u64 n (take k bytes @ out)))"

datatype from_str_radix_err_kind = InvalidCharacter | InvalidLength | UnsupportedRadix
datatype from_str_radix_err_src = HexSrc hex_error | DecSrc from_dec_str_err

record from_str_radix_err =
  err_kind :: from_str_radix_err_kind
  err_source :: "from_str_radix_err_src option"

definition unsupported :: from_str_radix_err where
  "unsupported = \<lparr> err_kind = UnsupportedRadix, err_source = None \<rparr>"

definition from_dec_err :: "from_dec_str_err \<Rightarrow> from_str_radix_err" where
  "from_dec_err e =
     \<lparr> err_kind = (case e of DecInvalidCharacter \<Rightarrow> InvalidCharacter | DecInvalidLength \<Rightarrow> InvalidLength),
       err_source = Some (DecSrc e) \<rparr>"

definition from_hex_err :: "hex_error \<Rightarrow> from_str_radix_err" where
  "from_hex_err e =
     \<lparr> err_kind = (case e of InvalidHexCharacter _ _ \<Rightarrow> InvalidCharacter
         | InvalidStringLength \<Rightarrow> InvalidLength | OddLength \<Rightarrow> InvalidLength),
       err_source = Some (HexSrc e) \<rparr>"

definition uint_from_str_radix ::
  "(bytes \<Rightarrow> bytes \<Rightarrow> hex_error + bytes) \<Rightarrow> (bytes \<Rightarrow> u64) \<Rightarrow> nat \<Rightarrow> bytes \<Rightarrow> u32 \<Rightarrow>
     (from_str_radix_err + uint) may_panic" where
  "uint_from_str_radix decode_to_slice read_u64 n txt rad =
     (if rad = 10 then
        Some (case uint_from_dec_str n txt of Inl e \<Rightarrow> Inl (from_dec_err e) | Inr x \<Rightarrow> Inr x)
      else if rad = 16 then
        map_option (\<lambda>r. case r of Inl e \<Rightarrow> Inl (from_hex_err e) | Inr x \<Rightarrow> Inr x)
          (uint_from_str decode_to_slice read_u64 n txt)
      else Some (Inl unsupported))"


subsection \<open>Endianness\<close>

text \<open>The contract of \<^verbatim>\<open>byteorder\<close>'s word access, for big endian.\<close>

locale big_endian_words =
  fixes write_u64 :: "u64 \<Rightarrow> bytes" and read_u64 :: "bytes \<Rightarrow> u64"
  assumes length_write: "length (write_u64 w) = 8"
    and write_value: "lval (rev (write_u64 w)) = unat w"
    and read_value: "8 \<le> length bs \<Longrightarrow> unat (read_u64 bs) = lval (rev (take 8 bs))"

lemma B_bytes: "B = radix TYPE(8) ^ 8"
  by (simp add: radix_def)

lemma lval_concat_words:
  "(\<And>w. length (f w) = 8) \<Longrightarrow> (\<And>w. lval (f w :: bytes) = unat w) \<Longrightarrow>
     lval (concat (map f xs)) = lval (xs :: u64 list)"
  by (induction xs) (simp_all add: lval_append B_bytes)

text \<open>Loops that write or read eight bytes at a time.\<close>

lemma fold_write_chunks:
  assumes "\<And>i. length (g i) = 8" and "8 * n \<le> length bs"
  shows "fold (\<lambda>i bs. take (8 * i) bs @ g i @ drop (8 * i + 8) bs) [0..<n] bs
    = concat (map g [0..<n]) @ drop (8 * n) bs"
  using assms(2)
proof (induction n)
  case (Suc n)
  have "length (concat (map g [0..<n])) = 8 * n"
    by (induction n) (simp_all add: assms(1))
  then show ?case using Suc by simp
qed simp

lemma lval_words_of_bytes:
  "length ws = n \<Longrightarrow> length (bs :: bytes) = 8 * n \<Longrightarrow>
     (\<And>i. i < n \<Longrightarrow> unat (ws ! i) = lval (take 8 (drop (8 * i) bs))) \<Longrightarrow> lval (ws :: u64 list) = lval bs"
proof (induction n arbitrary: ws bs)
  case (Suc n)
  then obtain w ws' where ws: "ws = w # ws'" by (cases ws) auto
  have "lval ws' = lval (drop 8 bs)"
  proof (rule Suc.IH)
    fix i
    assume "i < n"
    then show "unat (ws' ! i) = lval (take 8 (drop (8 * i) (drop 8 bs)))"
      using Suc.prems(3) [of "Suc i"] by (simp add: ws add.commute)
  qed (use Suc.prems ws in simp_all)
  moreover have "unat w = lval (take 8 bs)" using Suc.prems(3) [of 0] by (simp add: ws)
  ultimately show ?case using lval_take_drop [of bs 8] by (simp add: ws B_bytes)
qed simp

context big_endian_words
begin

lemma to_big_endian_spec:
  assumes "length bs = 8 * length x"
  shows "\<exists>r. uint_to_big_endian write_u64 x bs = Some r \<and> length r = 8 * length x \<and> lval (rev r) = lval x"
proof -
  let ?n = "length x"
  define r where "r = concat (map (\<lambda>i. write_u64 (x ! (?n - i - 1))) [0..<?n])"
  have "map (\<lambda>i. write_u64 (x ! (?n - i - 1))) [0..<?n] = map write_u64 (rev x)"
    by (intro nth_equalityI) (simp_all add: rev_nth)
  then have r: "r = concat (map write_u64 (rev x))" by (simp only: r_def)
  have e: "uint_to_big_endian write_u64 x bs = Some r"
    using assms fold_write_chunks [of "\<lambda>i. write_u64 (x ! (?n - i - 1))" ?n bs]
    by (simp add: uint_to_big_endian_def Let_def r_def length_write mult.commute)
  have "rev r = concat (map (\<lambda>w. rev (write_u64 w)) x)" unfolding r by (induction x) simp_all
  then have "lval (rev r) = lval x"
    by (simp add: lval_concat_words length_write write_value)
  moreover have "length r = 8 * ?n" unfolding r by (induction x) (simp_all add: length_write)
  ultimately show ?thesis using e by blast
qed

lemma from_big_endian_spec:
  assumes "length bs \<le> 8 * n"
  shows "uint_from_big_endian read_u64 n bs = Some (limbs n (lval (rev bs)))"
proof -
  define padded where "padded = replicate (n * 8 - length bs) 0 @ bs"
  have len: "length padded = 8 * n" using assms by (simp add: padded_def)
  define ret where "ret = fold (\<lambda>i ret. ret[n - i - 1 := read_u64 (drop (8 * i) padded)]) [0..<n] (replicate n 0)"
  have l: "length ret = n" by (simp add: ret_def)
  have nth: "ret ! k = read_u64 (drop (8 * (n - k - 1)) padded)" if "k < n" for k
  proof -
    have "fold (\<lambda>i ret. ret[n - i - 1 := read_u64 (drop (8 * i) padded)]) [0..<m] (replicate n 0) ! k
        = (if n - k - 1 < m then read_u64 (drop (8 * (n - k - 1)) padded) else 0)" if "m \<le> n" for m
      using that \<open>k < n\<close>
    proof (induction m)
      case (Suc m)
      then show ?case by (cases "n - m - 1 = k") auto
    qed simp
    then show ?thesis using that by (simp add: ret_def)
  qed
  have "lval ret = lval (rev padded)"
  proof (rule lval_words_of_bytes [of _ n])
    fix i
    assume i: "i < n"
    have "take 8 (drop (8 * i) (rev padded)) = rev (take 8 (drop (8 * (n - i - 1)) padded))"
    proof -
      define m where "m = n - i - 1"
      have n: "n = i + 1 + m" using i by (simp add: m_def)
      have "take 8 (drop (8 * i) (rev padded)) = rev (drop (8 * m) (take (8 * m + 8) padded))"
        using len by (simp add: drop_rev take_rev n min_def add.commute)
      also have "\<dots> = rev (take 8 (drop (8 * m) padded))" by (simp add: take_drop add.commute)
      finally show ?thesis by (simp only: m_def)
    qed
    then show "unat (ret ! i) = lval (take 8 (drop (8 * i) (rev padded)))"
      using i nth [OF i] read_value [of "drop (8 * (n - i - 1)) padded"] len
      by (simp add: diff_mult_distrib2)
  qed (use l len in simp_all)
  also have "lval (rev padded) = lval (rev bs)" by (simp add: padded_def lval_append)
  finally have "ret = limbs n (lval (rev bs))"
    using l lval_bound [of ret] by (intro limbs_eqI) simp_all
  then show ?thesis using assms
    by (simp add: uint_from_big_endian_def ret_def padded_def mult.commute)
qed

lemma big_endian_roundtrip:
  assumes "length bs = 8 * length x"
  shows "do { r \<leftarrow> uint_to_big_endian write_u64 x bs; uint_from_big_endian read_u64 (length x) r } = Some x"
proof -
  obtain r where r: "uint_to_big_endian write_u64 x bs = Some r" "length r = 8 * length x" "lval (rev r) = lval x"
    using to_big_endian_spec [OF assms] by blast
  then show ?thesis by (simp add: from_big_endian_spec limbs_lval)
qed

end

text \<open>The little-endian side, with the contract mirrored.\<close>

locale little_endian_words =
  fixes write_u64 :: "u64 \<Rightarrow> bytes" and read_u64 :: "bytes \<Rightarrow> u64"
  assumes length_write: "length (write_u64 w) = 8"
    and write_value: "lval (write_u64 w) = unat w"
    and read_value: "8 \<le> length bs \<Longrightarrow> unat (read_u64 bs) = lval (take 8 bs)"
begin

lemma to_little_endian_spec:
  assumes "length bs = 8 * length x"
  shows "\<exists>r. uint_to_little_endian write_u64 x bs = Some r \<and> length r = 8 * length x \<and> lval r = lval x"
proof -
  let ?n = "length x"
  define r where "r = concat (map (\<lambda>i. write_u64 (x ! i)) [0..<?n])"
  have "map (\<lambda>i. write_u64 (x ! i)) [0..<?n] = map write_u64 x"
    by (intro nth_equalityI) simp_all
  then have r: "r = concat (map write_u64 x)" by (simp only: r_def)
  have e: "uint_to_little_endian write_u64 x bs = Some r"
    using assms fold_write_chunks [of "\<lambda>i. write_u64 (x ! i)" ?n bs]
    by (simp add: uint_to_little_endian_def Let_def r_def length_write mult.commute)
  have "lval r = lval x" unfolding r by (rule lval_concat_words) (simp_all add: length_write write_value)
  moreover have "length r = 8 * ?n" unfolding r by (induction x) (simp_all add: length_write)
  ultimately show ?thesis using e by blast
qed

lemma from_little_endian_spec:
  assumes "length bs \<le> 8 * n"
  shows "uint_from_little_endian read_u64 n bs = Some (limbs n (lval bs))"
proof -
  define padded where "padded = bs @ replicate (n * 8 - length bs) 0"
  have len: "length padded = 8 * n" using assms by (simp add: padded_def)
  define ret where "ret = fold (\<lambda>i ret. ret[i := read_u64 (drop (8 * i) padded)]) [0..<n] (replicate n 0)"
  have l: "length ret = n" by (simp add: ret_def)
  have nth: "ret ! k = read_u64 (drop (8 * k) padded)" if "k < n" for k
    using that nth_fold_update [of "[0..<n]" k "replicate n 0" "\<lambda>i _. read_u64 (drop (8 * i) padded)"]
    by (simp add: ret_def)
  have "lval ret = lval padded"
  proof (rule lval_words_of_bytes [of _ n])
    fix i
    assume "i < n"
    then show "unat (ret ! i) = lval (take 8 (drop (8 * i) padded))"
      using nth read_value [of "drop (8 * i) padded"] len by simp
  qed (use l len in simp_all)
  also have "lval padded = lval bs" by (simp add: padded_def lval_append)
  finally have "ret = limbs n (lval bs)"
    using l lval_bound [of ret] by (intro limbs_eqI) simp_all
  then show ?thesis using assms
    by (simp add: uint_from_little_endian_def ret_def padded_def mult.commute)
qed

end

text \<open>
  The byte order functions of the standard library meet the contracts: a word is split into
  and assembled from its bytes.
\<close>

definition u64_to_le_bytes :: "u64 \<Rightarrow> bytes" where
  "u64_to_le_bytes w = limbs 8 (unat w)"

definition u64_from_le_bytes :: "bytes \<Rightarrow> u64" where
  "u64_from_le_bytes bs = of_nat (lval (take 8 bs))"

definition u64_to_be_bytes :: "u64 \<Rightarrow> bytes" where
  "u64_to_be_bytes w = rev (u64_to_le_bytes w)"

definition u64_from_be_bytes :: "bytes \<Rightarrow> u64" where
  "u64_from_be_bytes bs = of_nat (lval (rev (take 8 bs)))"

lemma lval_8_bytes_bound: "lval (take 8 bs :: bytes) < B" "lval (rev (take 8 bs) :: bytes) < B"
proof -
  have "radix TYPE(8) ^ length (take 8 bs) \<le> radix TYPE(8) ^ 8"
    by (intro power_increasing) (simp_all add: Suc_leI)
  then show "lval (take 8 bs :: bytes) < B" "lval (rev (take 8 bs) :: bytes) < B"
    using lval_bound [of "take 8 bs"] lval_bound [of "rev (take 8 bs)"] unfolding B_bytes length_rev by linarith+
qed

interpretation std_le: little_endian_words u64_to_le_bytes u64_from_le_bytes
proof
  fix w :: u64 and bs :: bytes
  show "length (u64_to_le_bytes w) = 8" by (simp add: u64_to_le_bytes_def)
  show "lval (u64_to_le_bytes w) = unat w"
    unfolding u64_to_le_bytes_def using unat_lt_radix [of w] by (intro lval_limbs_lt) (simp only: B_bytes)
  show "unat (u64_from_le_bytes bs) = lval (take 8 bs)"
    using lval_8_bytes_bound(1) by (simp add: u64_from_le_bytes_def unat_of_nat_lt)
qed

interpretation std_be: big_endian_words u64_to_be_bytes u64_from_be_bytes
proof
  fix w :: u64 and bs :: bytes
  show "length (u64_to_be_bytes w) = 8" "lval (rev (u64_to_be_bytes w)) = unat w"
    by (simp_all add: u64_to_be_bytes_def std_le.length_write std_le.write_value)
  show "unat (u64_from_be_bytes bs) = lval (rev (take 8 bs))"
    using lval_8_bytes_bound(2) by (simp add: u64_from_be_bytes_def unat_of_nat_lt)
qed


subsection \<open>Decimal text\<close>

definition is_dec_digit :: "u8 \<Rightarrow> bool" where
  "is_dec_digit c \<longleftrightarrow> 48 \<le> unat c \<and> unat c \<le> 57"

definition dec_value :: "nat \<Rightarrow> bytes \<Rightarrow> nat" where
  "dec_value = foldl (\<lambda>a c. 10 * a + (unat c - 48))"

fun dec_digits :: "nat \<Rightarrow> bytes" where
  "dec_digits k = (if k < 10 then [of_nat (48 + k)] else dec_digits (k div 10) @ [of_nat (48 + k mod 10)])"

declare dec_digits.simps [simp del]

lemma dec_value_simps [simp]:
  "dec_value a [] = a" "dec_value a (c # cs) = dec_value (10 * a + (unat c - 48)) cs"
  "dec_value a (cs @ [c]) = 10 * dec_value a cs + (unat c - 48)"
  by (simp_all add: dec_value_def)

lemma dec_value_ge: "a \<le> dec_value a cs"
proof (induction cs arbitrary: a)
  case (Cons c cs)
  have "a \<le> 10 * a + (unat c - 48)" by simp
  also note Cons
  finally show ?case by simp
qed simp

lemma sub_48:
  "(c - 48 :: u8) > 9 \<longleftrightarrow> \<not> is_dec_digit c" "is_dec_digit c \<Longrightarrow> unat (c - 48 :: u8) = unat c - 48"
  using unat_lt_radix [of c]
  by (auto simp: is_dec_digit_def word_less_nat_alt unat_sub_radix radix_def split: if_splits)

lemma dec_str_loop_step:
  assumes "length res = n" "0 < n"
  shows "dec_str_loop (c # cs) res =
    (if \<not> is_dec_digit c then Inl DecInvalidCharacter
     else if 10 * lval res + (unat c - 48) < B ^ n
       then dec_str_loop cs (limbs n (10 * lval res + (unat c - 48)))
     else Inl DecInvalidLength)"
proof (cases "is_dec_digit c")
  case True
  obtain r ov where m: "uint_overflowing_mul_u64 res 10 = (r, ov)" by force
  note e = overflowing_mul_u64_eq [OF m]
  have r: "length r = n" "lval r < B ^ n" using e(1) lval_bound [of r] assms(1) by simp_all
  let ?d = "uint_from_u64 n (ucast (c - 48))"
  have d: "lval ?d = unat c - 48" "length ?d = n"
    using True assms(2) by (simp_all add: sub_48(2) unat_ucast_up)
  show ?thesis
  proof (cases "ov = 0")
    case True: True
    then have lr: "lval r = 10 * lval res" using e(2) by simp
    show ?thesis
      using True m \<open>is_dec_digit c\<close> assms(1) sub_48(1) [of c]
      by (simp add: overflowing_add_spec [OF r(1) d(2)] d(1) lr not_le)
  next
    case False
    then have "1 * B ^ n \<le> unat ov * B ^ n" by (intro mult_le_mono1) (simp add: Suc_le_eq unat_gt_0)
    moreover have "lval r + unat ov * B ^ n = 10 * lval res" using e(2) assms(1) by simp
    ultimately have "B ^ n \<le> 10 * lval res" by linarith
    then show ?thesis using False m True sub_48(1) [of c] by (simp add: word_gt_0)
  qed
qed (simp add: sub_48(1))

lemma dec_str_loop_digits:
  "list_all is_dec_digit cs \<Longrightarrow> length res = n \<Longrightarrow> 0 < n \<Longrightarrow>
     dec_str_loop cs res =
       (if dec_value (lval res) cs < B ^ n then Inr (limbs n (dec_value (lval res) cs)) else Inl DecInvalidLength)"
proof (induction cs arbitrary: res)
  case Nil
  then show ?case using lval_bound [of res] by (simp add: limbs_lval)
next
  case (Cons c cs)
  let ?v = "10 * lval res + (unat c - 48)"
  show ?case
  proof (cases "?v < B ^ n")
    case True
    then show ?thesis using Cons by (simp add: dec_str_loop_step lval_limbs_lt del: dec_str_loop.simps)
  next
    case False
    then show ?thesis using Cons.prems dec_value_ge [of ?v cs]
      by (simp add: dec_str_loop_step del: dec_str_loop.simps)
  qed
qed

text \<open>A text with a wrong character is refused, with the error of the first problem.\<close>

lemma dec_str_loop_invalid:
  "list_all is_dec_digit cs \<Longrightarrow> \<not> is_dec_digit c \<Longrightarrow> length res = n \<Longrightarrow> 0 < n \<Longrightarrow>
     dec_str_loop (cs @ c # ds) res =
       Inl (if dec_value (lval res) cs < B ^ n then DecInvalidCharacter else DecInvalidLength)"
proof (induction cs arbitrary: res)
  case Nil
  then show ?case using lval_bound [of res] by (simp add: dec_str_loop_step del: dec_str_loop.simps)
next
  case (Cons a cs)
  let ?v = "10 * lval res + (unat a - 48)"
  show ?case
  proof (cases "?v < B ^ n")
    case True
    then show ?thesis using Cons by (simp add: dec_str_loop_step lval_limbs_lt del: dec_str_loop.simps)
  next
    case False
    then show ?thesis using Cons.prems dec_value_ge [of ?v cs]
      by (simp add: dec_str_loop_step del: dec_str_loop.simps)
  qed
qed

lemma digit_word:
  assumes "k < 10"
  shows "padd (of_nat k) 48 = Some (of_nat (48 + k) :: u8)"
proof -
  have u: "unat (of_nat k :: u8) = k" using assms by (intro unat_of_nat_lt) (simp add: radix_def)
  have v: "unat (48 :: u8) = 48" by simp
  have "k + 48 < radix TYPE(8)" using assms by (simp add: radix_def)
  then have "padd (of_nat k) 48 = Some (of_nat (k + 48) :: u8)" by (simp only: padd_ok u v)
  then show ?thesis by (simp only: add.commute)
qed

lemma display_loop_step:
  assumes ten: "length ten = n" "lval ten = 10" "0 < n" and cur: "length cur = n" and i: "i < length buf"
  shows "display_loop ten cur i buf =
    (let d = of_nat (48 + lval cur mod 10) in
     if lval cur < 10 then Some (d # drop (Suc i) buf)
     else (case i of 0 \<Rightarrow> panic
           | Suc j \<Rightarrow> display_loop ten (limbs n (lval cur div 10)) j (buf[i := d])))"
proof -
  let ?k = "lval cur"
  have div: "uint_div cur ten = Some (limbs n (?k div 10))" "uint_rem cur ten = Some (limbs n (?k mod 10))"
    using uint_div_rem_spec [OF cur ten(1,3)] ten(2) by simp_all
  have "?k < B ^ n" using lval_bound [of cur] cur by simp
  then have "lval (limbs n (?k div 10) :: uint) = ?k div 10"
    by (simp add: lval_limbs_lt le_less_trans [OF div_le_dividend])
  then have z: "uint_is_zero (limbs n (?k div 10)) \<longleftrightarrow> ?k < 10" by (simp add: uint_is_zero_iff div_eq_0_iff)
  have "uint_low_u64 (limbs n (?k mod 10)) = of_nat (?k mod 10)"
    using ten(3) by (cases n) (simp_all add: uint_low_u64_def)
  moreover have "unat (of_nat (?k mod 10) :: u64) = ?k mod 10"
    by (intro unat_of_nat_lt) (simp add: radix_def less_trans [OF mod_less_divisor])
  ultimately have low: "ucast (uint_low_u64 (limbs n (?k mod 10))) = (of_nat (?k mod 10) :: u8)"
    by (simp add: word_unat_eq_iff unat_ucast_radix unat_of_nat_radix)
  have d: "padd (of_nat (?k mod 10)) 48 = Some (of_nat (48 + ?k mod 10) :: u8)" by (rule digit_word) simp
  have b: "drop i (buf[i := x]) = x # drop (Suc i) buf" for x
    using i by (simp add: Cons_nth_drop_Suc [symmetric])
  show ?thesis
    by (subst display_loop.simps)
       (simp only: div Option.bind.simps low d z b Let_def)
qed

lemma display_loop_spec:
  assumes ten: "length ten = n" "lval ten = 10" "0 < n"
  shows "length cur = n \<Longrightarrow> lval cur < 10 ^ Suc i \<Longrightarrow> i < length buf \<Longrightarrow>
    display_loop ten cur i buf = Some (dec_digits (lval cur) @ drop (Suc i) buf)"
proof (induction i arbitrary: cur buf)
  case 0
  then show ?case
    by (simp add: display_loop_step [OF ten 0(1,3)] dec_digits.simps [of "lval cur"])
next
  case (Suc i)
  let ?k = "lval cur"
  have "?k < B ^ n" using lval_bound [of cur] Suc.prems(1) by simp
  then have l: "lval (limbs n (?k div 10) :: uint) = ?k div 10"
    by (simp add: lval_limbs_lt le_less_trans [OF div_le_dividend])
  have "?k div 10 < 10 ^ Suc i" using Suc.prems(2) by (simp add: div_less_iff_less_mult)
  then have "display_loop ten (limbs n (?k div 10)) i (buf[Suc i := d])
      = Some (dec_digits (?k div 10) @ d # drop (Suc (Suc i)) buf)" for d
    using Suc.IH [of "limbs n (?k div 10)" "buf[Suc i := d]"] Suc.prems(3)
    by (simp add: l Cons_nth_drop_Suc [symmetric])
  then show ?case
    by (simp add: display_loop_step [OF ten Suc.prems(1,3)] dec_digits.simps [of ?k])
qed

lemma uint_display_spec:
  assumes "length x = n" "0 < n"
  shows "uint_display x = Some (dec_digits (lval x))"
proof (cases "lval x = 0")
  case True
  then show ?thesis by (simp add: uint_display_def uint_is_zero_iff dec_digits.simps)
next
  case False
  have t: "lval (uint_from_u64 n 10) = 10" using assms(2) by simp
  have "B ^ n \<le> (10 ^ 20) ^ n" by (intro power_mono) (simp_all add: B_eq)
  also have "((10 :: nat) ^ 20) ^ n = 10 ^ (20 * n)" by (simp only: power_mult)
  also have "20 * n = Suc (n * 20 - 1)" using assms(2) by simp
  finally have "lval x < 10 ^ Suc (n * 20 - 1)" using lval_bound [of x] assms(1) by simp
  then have "display_loop (uint_from_u64 n 10) x (n * 20 - 1) (replicate (n * 20) 0) = Some (dec_digits (lval x))"
    using display_loop_spec [OF _ t assms(2) assms(1), of "n * 20 - 1" "replicate (n * 20) 0"] assms(2)
    by simp
  then show ?thesis using False assms
    by (simp add: uint_display_def uint_is_zero_iff uint_from_i64_def Let_def)
qed

lemma dec_digits_value: "dec_value 0 (dec_digits k) = k \<and> list_all is_dec_digit (dec_digits k)"
proof (induction k rule: dec_digits.induct)
  case (1 k)
  have u: "unat (of_nat (48 + k mod 10) :: u8) = 48 + k mod 10"
    by (intro unat_of_nat_lt) (simp add: radix_def add_less_mono less_trans [OF mod_less_divisor])
  show ?case using 1 u mod_less_divisor [of 10 k]
    by (cases "k < 10") (simp_all add: dec_digits.simps [of k] is_dec_digit_def)
qed

lemma from_dec_str_display:
  assumes "length x = n" "0 < n" "uint_display x = Some s"
  shows "uint_from_dec_str n s = Inr x"
proof -
  have s: "s = dec_digits (lval x)" using uint_display_spec [OF assms(1,2)] assms(3) by simp
  have "uint_from_dec_str n s = (if lval x < B ^ n then Inr (limbs n (lval x)) else Inl DecInvalidLength)"
    using dec_str_loop_digits [of s "uint_default n" n] dec_digits_value [of "lval x"] assms(2)
    by (simp add: uint_from_dec_str_def s uint_default_def)
  then show ?thesis using lval_bound [of x] assms(1) by (simp add: limbs_lval)
qed


subsection \<open>Hexadecimal text\<close>

definition is_hex :: "u8 \<Rightarrow> bool" where
  "is_hex c \<longleftrightarrow> (let k = unat c in 48 \<le> k \<and> k \<le> 57 \<or> 65 \<le> k \<and> k \<le> 70 \<or> 97 \<le> k \<and> k \<le> 102)"

definition hex_val :: "u8 \<Rightarrow> nat" where
  "hex_val c = (let k = unat c in if k \<le> 57 then k - 48 else if k \<le> 70 then k - 55 else k - 87)"

definition hex_value :: "nat \<Rightarrow> bytes \<Rightarrow> nat" where
  "hex_value = foldl (\<lambda>a c. 16 * a + hex_val c)"

definition nibbles_value :: "nat \<Rightarrow> u64 list \<Rightarrow> nat" where
  "nibbles_value = foldl (\<lambda>a d. 16 * a + unat d)"

definition nibbles :: "uint \<Rightarrow> u64 list" where
  "nibbles x = concat (map (\<lambda>ch. map (nibble_at ch) [0..<16]) (rev x))"

lemma nibble_at_eq: "unat (nibble_at ch x) = unat ch div 16 ^ (15 - x) mod 16"
proof -
  let ?s = "(15 - x) * 4"
  have m: "(15 :: u64) = mask 4" by (simp add: mask_eq_exp_minus_1)
  have "nibble_at ch x = take_bit 4 (drop_bit ?s ch)"
    unfolding nibble_at_def m by (rule bit_word_eqI) (auto simp: bit_simps dest: bit_imp_le_length)
  moreover have "(2 :: nat) ^ ?s = 16 ^ (15 - x)"
    using power_mult [of "2 :: nat" 4 "15 - x"] by (simp add: mult.commute)
  ultimately show ?thesis by (simp add: unat_take_bit unat_drop_bit)
qed

lemma nibbles_value_simps [simp]:
  "nibbles_value a [] = a" "nibbles_value a (d # ds) = nibbles_value (16 * a + unat d) ds"
  "nibbles_value a (ds @ es) = nibbles_value (nibbles_value a ds) es"
  by (simp_all add: nibbles_value_def)

lemma digits_base:
  "foldl (\<lambda>a d. 16 * a + d) a (map (\<lambda>x. N div 16 ^ (k - 1 - x) mod 16) [0..<k]) = a * 16 ^ k + N mod 16 ^ k"
  for a N k :: nat
proof (induction k arbitrary: N)
  case (Suc k)
  have "map (\<lambda>x. N div 16 ^ (Suc k - 1 - x) mod 16) [0..<k] = map (\<lambda>x. N div 16 div 16 ^ (k - 1 - x) mod 16) [0..<k]"
  proof (rule map_cong [OF refl])
    fix x
    assume "x \<in> set [0..<k]"
    then have "Suc k - 1 - x = Suc (k - 1 - x)" by simp
    then show "N div 16 ^ (Suc k - 1 - x) mod 16 = N div 16 div 16 ^ (k - 1 - x) mod 16"
      by (simp only: power_Suc div_mult2_eq)
  qed
  note e = this
  have u: "[0..<Suc k] = [0..<k] @ [k]" by simp
  have "foldl (\<lambda>a d. 16 * a + d) a (map (\<lambda>x. N div 16 ^ (Suc k - 1 - x) mod 16) [0..<Suc k])
      = 16 * (a * 16 ^ k + N div 16 mod 16 ^ k) + N mod 16"
    unfolding u map_append foldl_append e Suc.IH by simp
  also have "\<dots> = a * 16 ^ Suc k + N mod 16 ^ Suc k" by (simp add: mod_mult2_eq)
  finally show ?case .
qed simp

lemma nibbles_value_word: "nibbles_value a (map (nibble_at ch) [0..<16]) = a * B + unat ch"
proof -
  have "nibbles_value a (map (nibble_at ch) [0..<16])
      = foldl (\<lambda>a d. 16 * a + d) a (map (\<lambda>x. unat ch div 16 ^ (16 - 1 - x) mod 16) [0..<16])"
    unfolding nibbles_value_def foldl_map nibble_at_eq by simp
  also have "\<dots> = a * 16 ^ 16 + unat ch mod 16 ^ 16" by (rule digits_base)
  also have "(16 :: nat) ^ 16 = B" by (simp add: radix_def)
  finally show ?thesis by (simp add: unat_lt_radix)
qed

lemma nibbles_value_uint: "nibbles_value 0 (nibbles x) = lval x"
  unfolding nibbles_def
proof (induction x)
  case (Cons w x)
  then show ?case by (simp add: nibbles_value_word mult.commute del: upt_Suc upt_rec_numeral)
qed simp

lemma length_nibbles: "length (nibbles x) = 16 * length x"
  unfolding nibbles_def by (induction x) simp_all

lemma nibbles_lt: "d \<in> set (nibbles x) \<Longrightarrow> unat d < 16"
  unfolding nibbles_def by (auto simp: nibble_at_eq)

lemma drop_zeros_value: "nibbles_value 0 (dropWhile (\<lambda>d. d = 0) ds) = nibbles_value 0 ds"
  by (induction ds) auto

definition hex_emit :: "u64 \<Rightarrow> bool \<times> bytes \<Rightarrow> bool \<times> bytes" where
  "hex_emit nibble = (\<lambda>(latch, out).
     let latch = (if \<not> latch then nibble \<noteq> 0 else latch)
     in (latch, if latch then out @ [hex_digit nibble] else out))"

lemma hex_emit_simps:
  "hex_emit d (True, out) = (True, out @ [hex_digit d])"
  "hex_emit d (False, out) = (if d = 0 then (False, out) else (True, out @ [hex_digit d]))"
  by (simp_all add: hex_emit_def)

lemma fold_hex_step:
  "fold (\<lambda>ch st. fold (\<lambda>x. hex_step ch x) [0..<16] st) (rev x) st = fold hex_emit (nibbles x) st"
proof -
  have "fold (\<lambda>ch st. fold (\<lambda>x. hex_step ch x) xs st) ys st
      = fold hex_emit (concat (map (\<lambda>ch. map (nibble_at ch) xs) ys)) st" for xs ys
  proof (induction ys arbitrary: st)
    case (Cons ch ys)
    have "hex_step ch = (\<lambda>x. hex_emit (nibble_at ch x))"
      by (rule ext) (simp add: hex_step_def hex_emit_def Let_def)
    then show ?case by (simp add: Cons.IH fold_map comp_def)
  qed simp
  then show ?thesis by (simp only: nibbles_def)
qed

lemma fold_hex_emit:
  "fold hex_emit ds (True, out) = (True, out @ map hex_digit ds)"
  "snd (fold hex_emit ds (False, [])) = map hex_digit (dropWhile (\<lambda>d. d = 0) ds)"
proof -
  show latched: "fold hex_emit ds (True, out) = (True, out @ map hex_digit ds)" for ds out
    by (induction ds arbitrary: out) (simp_all add: hex_emit_simps)
  show "snd (fold hex_emit ds (False, [])) = map hex_digit (dropWhile (\<lambda>d. d = 0) ds)"
    by (induction ds) (simp_all add: latched hex_emit_simps)
qed

lemma lower_hex_spec:
  "uint_lower_hex alternate x = (if alternate then [48, 120] else []) @
     (if lval x = 0 then [48] else map hex_digit (dropWhile (\<lambda>d. d = 0) (nibbles x)))"
  by (simp add: uint_lower_hex_def uint_is_zero_iff fold_hex_step fold_hex_emit del: upt_Suc upt_rec_numeral)

lemma hex_digit_val: "unat d < 16 \<Longrightarrow> is_hex (hex_digit d) \<and> hex_val (hex_digit d) = unat d"
proof -
  assume d: "unat d < 16"
  then have "unat (ucast d :: u8) = unat d" by (simp add: unat_ucast_radix radix_def)
  then have "unat (48 + ucast d :: u8) = 48 + unat d" "unat (87 + ucast d :: u8) = 87 + unat d"
    using d by (simp_all add: unat_add_radix radix_def)
  then show ?thesis using d
    by (auto simp: hex_digit_def is_hex_def hex_val_def word_less_nat_alt)
qed

text \<open>
  The contract of \<^verbatim>\<open>hex::decode_to_slice\<close>: a text of hexadecimal digits twice as long as the output
  slice is decoded pair by pair.
\<close>

fun hex_pairs :: "bytes \<Rightarrow> nat list" where
  "hex_pairs (a # b # cs) = (16 * hex_val a + hex_val b) # hex_pairs cs"
| "hex_pairs cs = []"

locale hex_decoder =
  fixes decode_to_slice :: "bytes \<Rightarrow> bytes \<Rightarrow> hex_error + bytes"
  assumes decode_ok: "list_all is_hex cs \<Longrightarrow> length cs = 2 * length out \<Longrightarrow>
    \<exists>bs. decode_to_slice cs out = Inr bs \<and> map unat bs = hex_pairs cs"

lemma hex_value_simps [simp]:
  "hex_value a [] = a" "hex_value a (c # cs) = hex_value (16 * a + hex_val c) cs"
  by (simp_all add: hex_value_def)

lemma hex_pairs_value:
  "even (length cs) \<Longrightarrow> map unat (bs :: bytes) = hex_pairs cs \<Longrightarrow>
     hex_value a cs = a * radix TYPE(8) ^ length bs + lval (rev bs)"
proof (induction cs arbitrary: a bs rule: hex_pairs.induct)
  case (1 x y cs)
  then obtain b bs' where bs: "bs = b # bs'" "unat b = 16 * hex_val x + hex_val y" "map unat bs' = hex_pairs cs"
    by (cases bs) auto
  have e: "16 * (16 * a + hex_val x) + hex_val y = a * radix TYPE(8) + unat b"
    by (simp add: bs(2) radix_def)
  have "hex_value a (x # y # cs) = (a * radix TYPE(8) + unat b) * radix TYPE(8) ^ length bs' + lval (rev bs')"
    using 1(1) [OF _ bs(3)] 1(2) unfolding hex_value_simps e by simp
  then show ?case by (simp add: bs(1) lval_append algebra_simps)
qed auto

locale hex_text = hex_decoder decode_to_slice + big_endian_words write_u64 read_u64
  for decode_to_slice write_u64 read_u64
begin

lemma from_str_hex:
  assumes "list_all is_hex (strip_0x s)" and "length (strip_0x s) \<le> 16 * n"
  shows "uint_from_str decode_to_slice read_u64 n s = Some (Inr (limbs n (hex_value 0 (strip_0x s))))"
proof -
  let ?e = "strip_0x s"
  define c where "c = (if even (length ?e) then ?e else 48 # ?e)"
  have c: "list_all is_hex c" "even (length c)" "length c \<le> 16 * n" "hex_value 0 c = hex_value 0 ?e"
  proof -
    show "list_all is_hex c" "even (length c)" "hex_value 0 c = hex_value 0 ?e"
      using assms(1) by (simp_all add: c_def is_hex_def hex_val_def)
    show "length c \<le> 16 * n"
    proof (cases "even (length ?e)")
      case False
      then have "length ?e \<noteq> 16 * n" by auto
      then show ?thesis using False assms(2) by (simp add: c_def)
    qed (use assms(2) in \<open>simp add: c_def\<close>)
  qed
  define m where "m = length c div 2"
  have m: "length c = 2 * m" "m \<le> n * 8" using c(2,3) by (simp_all add: m_def)
  obtain bs where bs: "decode_to_slice c (replicate m 0) = Inr bs" "map unat bs = hex_pairs c"
    using decode_ok [OF c(1), of "replicate m 0"] m(1) by auto
  have lb: "length bs = m"
  proof -
    have "length (hex_pairs c) = length c div 2" by (induction c rule: hex_pairs.induct) auto
    then show ?thesis using bs(2) by (metis length_map m_def)
  qed
  have "lval (rev (replicate (n * 8 - m) 0 @ bs)) = hex_value 0 ?e"
    using hex_pairs_value [OF c(2) bs(2), of 0] c(4) by (simp add: lval_append)
  moreover have "length (replicate (n * 8 - m) 0 @ bs) \<le> 8 * n" using lb m(2) by simp
  ultimately have "uint_from_big_endian read_u64 n (replicate (n * 8 - m) 0 @ bs) = Some (limbs n (hex_value 0 ?e))"
    by (simp only: from_big_endian_spec)
  moreover have "(if length ?e mod 2 = 0 then ?e
       else let s = take (n * 8 * 2 - length ?e) (replicate (n * 8 * 2) 48) @ ?e
            in drop (n * 8 * 2 - length ?e - 1) s) = c"
  proof (cases "even (length ?e)")
    case True
    then show ?thesis by (simp add: c_def even_iff_mod_2_eq_zero)
  next
    case False
    then have "length ?e \<noteq> 16 * n" by auto
    then obtain k where k: "n * 8 * 2 - length ?e = Suc k"
      using assms(2) by (cases "n * 8 * 2 - length ?e") auto
    then have "Suc k \<le> n * 8 * 2" by linarith
    then have tk: "take (Suc k) (replicate (n * 8 * 2) (48 :: u8)) = replicate k 48 @ [48]"
      by (simp only: take_replicate min_absorb1 replicate_append_same replicate_Suc)
    have "drop (Suc k - 1) (take (Suc k) (replicate (n * 8 * 2) (48 :: u8)) @ ?e) = 48 # ?e"
      unfolding tk by simp
    moreover have "length ?e mod 2 \<noteq> 0" using False by presburger
    ultimately show ?thesis using False by (simp only: k Let_def c_def if_False)
  qed
  ultimately show ?thesis
    using assms(2) bs(1) m by (simp add: uint_from_str_def Let_def)
qed

lemma lower_hex_digits:
  "list_all is_hex (drop (if alternate then 2 else 0) (uint_lower_hex alternate x))"
proof -
  have "list_all is_hex (map hex_digit (dropWhile (\<lambda>d. d = 0) (nibbles x)))"
    using nibbles_lt hex_digit_val by (auto simp: list_all_iff dest!: set_dropWhileD)
  then show ?thesis by (simp add: lower_hex_spec is_hex_def)
qed

lemma strip_0x_lower_hex:
  "strip_0x (uint_lower_hex alternate x) = uint_lower_hex False x"
proof -
  have "\<not> is_hex 120" by (simp add: is_hex_def)
  then have "take 2 (uint_lower_hex False x) \<noteq> [48, 120]"
    using lower_hex_digits [of False x] by (cases "uint_lower_hex False x" rule: hex_pairs.cases) auto
  moreover have "uint_lower_hex True x = 48 # 120 # uint_lower_hex False x" by (simp add: lower_hex_spec)
  ultimately show ?thesis by (cases alternate) (simp_all add: strip_0x_def)
qed

lemma hex_value_map: "(\<And>d. d \<in> set ds \<Longrightarrow> unat d < 16) \<Longrightarrow> hex_value a (map hex_digit ds) = nibbles_value a ds"
  by (induction ds arbitrary: a) (simp_all add: hex_digit_val)

lemma hex_roundtrip:
  assumes "length x = n" and "0 < n"
  shows "uint_from_str decode_to_slice read_u64 n (uint_lower_hex alternate x) = Some (Inr x)"
proof -
  let ?h = "uint_lower_hex False x"
  have lt: "unat d < 16" if "d \<in> set (dropWhile (\<lambda>d. d = 0) (nibbles x))" for d
    using that nibbles_lt by (blast dest: set_dropWhileD)
  have v: "hex_value 0 ?h = lval x"
    using hex_value_map [OF lt, of _ 0] by (simp add: lower_hex_spec drop_zeros_value nibbles_value_uint hex_val_def)
  have "length ?h \<le> 16 * n"
    using length_dropWhile_le [of "\<lambda>d. d = 0" "nibbles x"] assms by (simp add: lower_hex_spec length_nibbles)
  then show ?thesis
    using from_str_hex [of "uint_lower_hex alternate x" n] lower_hex_digits [of False x] assms
    by (simp add: strip_0x_lower_hex v limbs_lval)
qed

end

text \<open>A decoder that meets the contract.\<close>

definition decode_hex :: "bytes \<Rightarrow> bytes \<Rightarrow> hex_error + bytes" where
  "decode_hex cs out =
     (if odd (length cs) then Inl OddLength
      else if length cs \<noteq> 2 * length out then Inl InvalidStringLength
      else if \<not> list_all is_hex cs
        then (let i = length (takeWhile is_hex cs) in Inl (InvalidHexCharacter (cs ! i) i))
      else Inr (map of_nat (hex_pairs cs)))"

lemma hex_val_lt: "is_hex c \<Longrightarrow> hex_val c < 16"
  by (auto simp: is_hex_def hex_val_def Let_def)

lemma hex_pairs_lt: "list_all is_hex cs \<Longrightarrow> k \<in> set (hex_pairs cs) \<Longrightarrow> k < radix TYPE(8)"
proof (induction cs rule: hex_pairs.induct)
  case (1 a b cs)
  then show ?case using hex_val_lt [of a] hex_val_lt [of b] by (auto simp: radix_def)
qed auto

interpretation std_hex: hex_text decode_hex u64_to_be_bytes u64_from_be_bytes
proof
  fix cs out :: bytes
  assume "list_all is_hex cs" and "length cs = 2 * length out"
  then show "\<exists>bs. decode_hex cs out = Inr bs \<and> map unat bs = hex_pairs cs"
    by (simp add: decode_hex_def comp_def map_idI unat_of_nat_lt hex_pairs_lt)
qed


subsection \<open>Properties\<close>

text \<open>
  C14. Big-endian bytes: for a word access that meets the contract of \<^verbatim>\<open>byteorder\<close>, \<^verbatim>\<open>to_big_endian\<close>
  fills a buffer of the right size with the digits of the number, \<^verbatim>\<open>from_big_endian\<close> reads any
  buffer that is not too long (and panics on a longer one), and reading back what was written gives
  the number.
\<close>

theorem big_endian_conversion:
  assumes "big_endian_words write_u64 read_u64"
    and "length x = n" and "length buf = 8 * n" and "length bs \<le> 8 * n" and "8 * n < length cs"
  shows "(\<exists>r. uint_to_big_endian write_u64 x buf = Some r \<and> length r = 8 * n \<and> lval (rev r) = lval x \<and>
      uint_from_big_endian read_u64 n r = Some x) \<and>
    uint_from_big_endian read_u64 n bs = Some (limbs n (lval (rev bs))) \<and>
    uint_from_big_endian read_u64 n cs = panic"
proof -
  obtain r where r: "uint_to_big_endian write_u64 x buf = Some r" "length r = 8 * n" "lval (rev r) = lval x"
    using big_endian_words.to_big_endian_spec [OF assms(1), of buf x] assms(2,3) by auto
  note fb = big_endian_words.from_big_endian_spec [OF assms(1)]
  have "uint_from_big_endian read_u64 n r = Some x"
    using fb [of r n] r assms(2) by (simp add: limbs_lval)
  moreover have "uint_from_big_endian read_u64 n cs = panic"
    using assms(5) by (simp add: uint_from_big_endian_def)
  ultimately show ?thesis using r fb [OF assms(4)] by simp
qed

theorem big_endian_conversion_witness:
  "(\<exists>r. uint_to_big_endian u64_to_be_bytes [5, 7] (replicate 16 0) = Some r \<and> length r = 8 * 2 \<and>
      lval (rev r) = lval [5, 7 :: u64] \<and> uint_from_big_endian u64_from_be_bytes 2 r = Some [5, 7]) \<and>
    uint_from_big_endian u64_from_be_bytes 2 [1, 0] = Some (limbs 2 (lval (rev [1, 0 :: u8]))) \<and>
    uint_from_big_endian u64_from_be_bytes 2 (replicate 17 0) = panic"
  by (rule big_endian_conversion) (simp_all add: std_be.big_endian_words_axioms)

text \<open>
  C15. Decimal text: \<^verbatim>\<open>Display\<close> never runs out of its buffer, and \<^verbatim>\<open>from_dec_str\<close> reads back
  what it prints.
\<close>

theorem decimal_roundtrip:
  assumes "length x = n" and "0 < n"
  shows "\<exists>s. uint_display x = Some s \<and> list_all is_dec_digit s \<and> dec_value 0 s = lval x \<and>
    uint_from_dec_str n s = Inr x"
  using uint_display_spec [OF assms] from_dec_str_display [OF assms] dec_digits_value [of "lval x"] by simp

theorem decimal_roundtrip_witness:
  "\<exists>s. uint_display [5, 1] = Some s \<and> list_all is_dec_digit s \<and> dec_value 0 s = lval [5, 1 :: u64] \<and>
    uint_from_dec_str 2 s = Inr [5, 1]"
  by (rule decimal_roundtrip) simp_all

text \<open>
  \<^verbatim>\<open>from_dec_str\<close> accepts exactly the texts of decimal digits whose number fits; it reports a
  number that is too large as \<^verbatim>\<open>InvalidLength\<close>, and a wrong character as \<^verbatim>\<open>InvalidCharacter\<close>
  unless the digits before it are already too large.
\<close>

theorem from_dec_str_result:
  assumes "0 < n" and "list_all is_dec_digit cs" and "\<not> is_dec_digit c"
  shows "uint_from_dec_str n cs =
      (if dec_value 0 cs < B ^ n then Inr (limbs n (dec_value 0 cs)) else Inl DecInvalidLength) \<and>
    uint_from_dec_str n (cs @ c # ds) =
      Inl (if dec_value 0 cs < B ^ n then DecInvalidCharacter else DecInvalidLength)"
  using dec_str_loop_digits [OF assms(2), of "uint_default n" n]
    dec_str_loop_invalid [OF assms(2,3), of "uint_default n" n ds] assms(1)
  by (simp add: uint_from_dec_str_def uint_default_def)

theorem from_dec_str_result_witness:
  "uint_from_dec_str 1 [52, 50] = Inr [42] \<and> uint_from_dec_str 1 [52, 50, 120, 48] = Inl DecInvalidCharacter"
  using from_dec_str_result [of 1 "[52, 50]" 120 "[48]"]
  by (simp add: is_dec_digit_def radix_def)

text \<open>
  Hexadecimal text: \<^verbatim>\<open>FromStr\<close> reads back what \<^verbatim>\<open>LowerHex\<close> prints, with and without the
  \<^verbatim>\<open>0x\<close> prefix, for a decoder that meets the contract of the \<^verbatim>\<open>hex\<close> crate.
\<close>

theorem hex_text_roundtrip:
  assumes "hex_text decode_to_slice write_u64 read_u64" and "length x = n" and "0 < n"
  shows "uint_from_str decode_to_slice read_u64 n (uint_lower_hex alternate x) = Some (Inr x)"
  by (rule hex_text.hex_roundtrip [OF assms])

theorem hex_text_roundtrip_witness:
  "uint_from_str decode_hex u64_from_be_bytes 2 (uint_lower_hex True [255, 3]) = Some (Inr [255, 3])"
  by (rule hex_text_roundtrip [OF std_hex.hex_text_axioms]) simp_all

end
