(* ===== verification/Btree_Map.thy ===== *)
theory Btree_Map
  imports Prelude "HOL-Library.List_Lexorder" "HOL-Library.Sublist"
begin

text \<open>
  \<^verbatim>\<open>std::collections::BTreeMap\<close> as the list of its entries in ascending order of the keys, with the
  operations the sources use, and the facts on the lexicographic order of byte strings that its
  users rely on.
\<close>

subsection \<open>Operations\<close>

type_synonym ('k, 'v) btree = "('k \<times> 'v) list"

definition btree_wf :: "('k::linorder, 'v) btree \<Rightarrow> bool" where
  "btree_wf m \<longleftrightarrow> sorted_wrt (<) (map fst m)"

definition btree_get :: "('k, 'v) btree \<Rightarrow> 'k \<Rightarrow> 'v option" where
  "btree_get m k = map_of m k"

definition btree_insert :: "'k::linorder \<Rightarrow> 'v \<Rightarrow> ('k, 'v) btree \<Rightarrow> ('k, 'v) btree" where
  "btree_insert k v m = filter (\<lambda>(l, _). l < k) m @ (k, v) # filter (\<lambda>(l, _). k < l) m"

definition btree_remove :: "'k \<Rightarrow> ('k, 'v) btree \<Rightarrow> ('k, 'v) btree" where
  "btree_remove k m = filter (\<lambda>(l, _). l \<noteq> k) m"

text \<open>\<^verbatim>\<open>range((Included(a), Excluded(b)))\<close>, and \<^verbatim>\<open>Unbounded\<close> where there is no \<open>b\<close>.\<close>

definition btree_range :: "'k::linorder \<Rightarrow> 'k option \<Rightarrow> ('k, 'v) btree \<Rightarrow> ('k, 'v) btree" where
  "btree_range a b m = filter (\<lambda>(l, _). a \<le> l \<and> (case b of None \<Rightarrow> True | Some e \<Rightarrow> l < e)) m"

definition btree_collect :: "('k::linorder \<times> 'v) list \<Rightarrow> ('k, 'v) btree" where
  "btree_collect ps = fold (\<lambda>(k, v). btree_insert k v) ps []"

subsection \<open>The map an ordered list of entries stands for\<close>

lemma sorted_map_filter: "sorted_wrt P (map f xs) \<Longrightarrow> sorted_wrt P (map f (filter Q xs))"
  by (simp add: sorted_wrt_map sorted_wrt_filter)

lemma btree_wf_distinct: "btree_wf m \<Longrightarrow> distinct (map fst m)"
  using strict_sorted_iff [of "map fst m"] by (simp add: btree_wf_def)

lemma btree_wf_Nil [simp]: "btree_wf []"
  by (simp add: btree_wf_def)

lemma btree_get_Nil [simp]: "btree_get [] = Map.empty"
  by (rule ext) (simp add: btree_get_def)

lemma btree_wf_filter: "btree_wf m \<Longrightarrow> btree_wf (filter P m)"
  by (simp add: btree_wf_def sorted_map_filter)

lemma btree_wf_insert: "btree_wf m \<Longrightarrow> btree_wf (btree_insert k v m)"
  using btree_wf_filter [of m] unfolding btree_wf_def btree_insert_def
  by (fastforce simp: sorted_wrt_append)

lemma btree_get_filter:
  "btree_wf m \<Longrightarrow> btree_get (filter (\<lambda>(l, _). P l) m) k = (if P k then btree_get m k else None)"
  using btree_wf_distinct [of m] unfolding btree_get_def
  by (induction m) (auto simp: btree_wf_def)

lemma btree_get_insert:
  "btree_wf m \<Longrightarrow> btree_get (btree_insert k v m) = (btree_get m)(k \<mapsto> v)"
proof
  fix l
  assume m: "btree_wf m"
  have "btree_get (btree_insert k v m) l = (case btree_get (filter (\<lambda>(l, _). l < k) m) l of
      None \<Rightarrow> if l = k then Some v else btree_get (filter (\<lambda>(l, _). k < l) m) l | Some w \<Rightarrow> Some w)"
    unfolding btree_get_def btree_insert_def by (simp add: map_add_def split: option.splits)
  then show "btree_get (btree_insert k v m) l = ((btree_get m)(k \<mapsto> v)) l"
    using m by (cases l k rule: linorder_cases) (auto simp: btree_get_filter split: option.splits)
qed

lemma btree_get_remove: "btree_wf m \<Longrightarrow> btree_get (btree_remove k m) = (btree_get m)(k := None)"
  unfolding btree_remove_def by (rule ext) (simp add: btree_get_filter)

lemma btree_wf_remove: "btree_wf m \<Longrightarrow> btree_wf (btree_remove k m)"
  unfolding btree_remove_def by (rule btree_wf_filter)

lemma btree_mem: "btree_wf m \<Longrightarrow> (k, v) \<in> set m \<longleftrightarrow> btree_get m k = Some v"
  using btree_wf_distinct [of m] by (simp add: btree_get_def)

lemma btree_eqI:
  assumes "btree_wf m" "btree_wf m'" "btree_get m = btree_get m'"
  shows "m = m'"
proof -
  have s: "set m = set m'" using assms by (auto simp: btree_mem)
  then have "map fst m = map fst m'"
    using assms(1,2) by (intro strict_sorted_equal) (auto simp: btree_wf_def image_iff)
  moreover have "map snd m = map (\<lambda>k. the (btree_get m k)) (map fst m)" if "btree_wf m" for m :: "('a, 'b) btree"
    using that by (auto simp: btree_mem)
  ultimately show ?thesis using assms by (metis zip_map_fst_snd)
qed

lemmas btree_facts = btree_wf_insert btree_wf_remove btree_get_insert btree_get_remove

lemma btree_collect_wf: "btree_wf (btree_collect ps)"
proof -
  have "btree_wf m \<Longrightarrow> btree_wf (fold (\<lambda>(k, v). btree_insert k v) ps m)" for m
    by (induction ps arbitrary: m) (auto simp: btree_facts)
  then show ?thesis by (simp add: btree_collect_def)
qed

lemma btree_collect_get: "btree_get (btree_collect ps) = map_of (rev ps)"
proof -
  have "btree_wf m \<Longrightarrow> btree_get (fold (\<lambda>(k, v). btree_insert k v) ps m) = btree_get m ++ map_of (rev ps)" for m
    by (induction ps arbitrary: m) (auto simp: btree_facts)
  from this [of "[]"] show ?thesis by (simp add: btree_collect_def)
qed

subsection \<open>Prefixes in the lexicographic order\<close>

lemma prefix_le: "prefix p (k :: 'a::linorder list) \<Longrightarrow> p \<le> k"
  by (induction p arbitrary: k) (auto simp: prefix_def)

lemma append_less: "(xs @ ys < xs @ zs) = (ys < (zs :: 'a::linorder list))"
  by (induction xs) auto

lemma iter_cmp_lexorder: "iter_cmp xs ys = cmp_of xs (ys :: 'a::linorder list)"
  by (induction xs ys rule: iter_cmp.induct) (auto simp: cmp_of_def)

end
