(* ===== verification/Fixed_Hash.thy ===== *)
theory Fixed_Hash
  imports Uint_Conv Btree_Map
begin

text \<open>
  The hash types of \<^verbatim>\<open>construct_fixed_hash!\<close> (\<^verbatim>\<open>fixed-hash/src/hash.rs\<close>): an array of \<open>n\<close> bytes in
  big-endian order, with its bitwise operators, comparison, text and conversions, and the trait
  \<^verbatim>\<open>BigEndianHash\<close> of \<^verbatim>\<open>ethereum-types\<close>. The macro argument \<^verbatim>\<open>$n_bytes\<close> is the parameter \<open>n\<close> where a
  function has no \<^verbatim>\<open>self\<close>. The word access of \<^verbatim>\<open>byteorder\<close>, the iterator of \<^verbatim>\<open>rustc-hex\<close> and the
  generator of \<^verbatim>\<open>rand\<close> are parameters.
\<close>

type_synonym fixed_hash = bytes

subsection \<open>Construction and access\<close>

definition hash_from_array :: "bytes \<Rightarrow> fixed_hash" where
  "hash_from_array bytes = bytes"

definition hash_repeat_byte :: "nat \<Rightarrow> u8 \<Rightarrow> fixed_hash" where
  "hash_repeat_byte n byte = replicate n byte"

definition hash_zero :: "nat \<Rightarrow> fixed_hash" where
  "hash_zero n = hash_repeat_byte n 0"

definition hash_as_bytes :: "fixed_hash \<Rightarrow> bytes" where
  "hash_as_bytes self = self"

text \<open>\<^verbatim>\<open>copy_from_slice\<close> of the standard library: what the destination holds afterwards.\<close>

definition copy_from_slice :: "'a list \<Rightarrow> 'a list \<Rightarrow> 'a list may_panic" where
  "copy_from_slice dst src = (if length dst = length src then Some src else panic)"

definition hash_assign_from_slice :: "nat \<Rightarrow> fixed_hash \<Rightarrow> bytes \<Rightarrow> fixed_hash may_panic" where
  "hash_assign_from_slice n self src =
     do { rust_assert (length src = n); copy_from_slice (hash_as_bytes self) src }"

definition hash_from_slice :: "nat \<Rightarrow> bytes \<Rightarrow> fixed_hash may_panic" where
  "hash_from_slice n src =
     do { rust_assert (length src = n); hash_assign_from_slice n (hash_zero n) src }"

definition hash_clone :: "nat \<Rightarrow> fixed_hash \<Rightarrow> fixed_hash may_panic" where
  "hash_clone n self = copy_from_slice (hash_zero n) self"

definition hash_is_zero :: "fixed_hash \<Rightarrow> bool" where
  "hash_is_zero self = list_all (\<lambda>byte. byte = 0) (hash_as_bytes self)"

definition hash_index :: "fixed_hash \<Rightarrow> nat \<Rightarrow> u8 may_panic" where
  "hash_index self i = index_at (hash_as_bytes self) i"

definition hash_default :: "nat \<Rightarrow> fixed_hash" where
  "hash_default n = hash_zero n"

definition hash_eq :: "fixed_hash \<Rightarrow> fixed_hash \<Rightarrow> bool" where
  "hash_eq self other \<longleftrightarrow> hash_as_bytes self = hash_as_bytes other"

definition hash_cmp :: "fixed_hash \<Rightarrow> fixed_hash \<Rightarrow> ordering" where
  "hash_cmp self other = iter_cmp (hash_as_bytes self) (hash_as_bytes other)"

definition hash_partial_cmp :: "fixed_hash \<Rightarrow> fixed_hash \<Rightarrow> ordering option" where
  "hash_partial_cmp self other = Some (hash_cmp self other)"

text \<open>\<open>hasher_write\<close> is \<^verbatim>\<open>Hasher::write\<close>; the result of \<^verbatim>\<open>finish\<close> is dropped.\<close>

definition hash_hash :: "('s \<Rightarrow> bytes \<Rightarrow> 's) \<Rightarrow> fixed_hash \<Rightarrow> 's \<Rightarrow> 's" where
  "hash_hash hasher_write self state = hasher_write state self"

subsection \<open>Bitwise operators\<close>

definition hash_op_assign :: "(u8 \<Rightarrow> u8 \<Rightarrow> u8) \<Rightarrow> fixed_hash \<Rightarrow> fixed_hash \<Rightarrow> fixed_hash" where
  "hash_op_assign f self rhs = map2 f (hash_as_bytes self) (hash_as_bytes rhs) @ drop (length rhs) self"

definition hash_op :: "nat \<Rightarrow> (u8 \<Rightarrow> u8 \<Rightarrow> u8) \<Rightarrow> fixed_hash \<Rightarrow> fixed_hash \<Rightarrow> fixed_hash may_panic" where
  "hash_op n f self rhs = do { ret \<leftarrow> hash_clone n self; Some (hash_op_assign f ret rhs) }"

definition hash_bitor :: "nat \<Rightarrow> fixed_hash \<Rightarrow> fixed_hash \<Rightarrow> fixed_hash may_panic" where
  "hash_bitor n = hash_op n (\<lambda>a b. a OR b)"

definition hash_bitand :: "nat \<Rightarrow> fixed_hash \<Rightarrow> fixed_hash \<Rightarrow> fixed_hash may_panic" where
  "hash_bitand n = hash_op n (\<lambda>a b. a AND b)"

definition hash_bitxor :: "nat \<Rightarrow> fixed_hash \<Rightarrow> fixed_hash \<Rightarrow> fixed_hash may_panic" where
  "hash_bitxor n = hash_op n (\<lambda>a b. a XOR b)"

definition hash_covers :: "nat \<Rightarrow> fixed_hash \<Rightarrow> fixed_hash \<Rightarrow> bool may_panic" where
  "hash_covers n self b = do { c \<leftarrow> hash_bitand n b self; Some (hash_eq c b) }"

subsection \<open>Text\<close>

text \<open>A byte in the format \<^verbatim>\<open>{:02x}\<close>, or \<^verbatim>\<open>{:02X}\<close>; text is the list of its UTF-8 bytes.\<close>

definition hex_char :: "bool \<Rightarrow> u8 \<Rightarrow> u8" where
  "hex_char upper d = (if d < 10 then 48 + d else if upper then 55 + d else 87 + d)"

definition fmt_02x :: "bool \<Rightarrow> u8 \<Rightarrow> bytes" where
  "fmt_02x upper b = [hex_char upper (drop_bit 4 b), hex_char upper (b AND 0xf)]"

definition hash_display :: "fixed_hash \<Rightarrow> bytes may_panic" where
  "hash_display self =
     do {
       let n = length self;
       front \<leftarrow> slice_range self 0 2;
       k \<leftarrow> usize_sub n 2;
       back \<leftarrow> slice_range self k n;
       Some ([48, 120] @ concat (map (fmt_02x False) front) @ [0xe2, 0x80, 0xa6] @
         concat (map (fmt_02x False) back)) }"

definition hash_lower_hex :: "bool \<Rightarrow> fixed_hash \<Rightarrow> bytes" where
  "hash_lower_hex alternate self =
     (if alternate then [48, 120] else []) @ concat (map (fmt_02x False) self)"

definition hash_upper_hex :: "bool \<Rightarrow> fixed_hash \<Rightarrow> bytes" where
  "hash_upper_hex alternate self =
     (if alternate then [48, 88] else []) @ concat (map (fmt_02x True) self)"

definition hash_debug :: "fixed_hash \<Rightarrow> bytes" where
  "hash_debug self = hash_lower_hex True self"

text \<open>
  \<open>iter_new\<close> and \<open>iter_next\<close> are \<^verbatim>\<open>FromHexIter::new\<close> and \<^verbatim>\<open>next\<close> of the \<^verbatim>\<open>rustc-hex\<close> crate, with its error type.
\<close>

datatype from_hex_error = InvalidHexChar u8 nat | InvalidHexLength

fun hash_from_str_loop ::
  "('i \<Rightarrow> (from_hex_error + u8) option \<times> 'i) \<Rightarrow> nat \<Rightarrow> 'i \<Rightarrow> fixed_hash \<Rightarrow> from_hex_error + fixed_hash \<times> 'i" where
  "hash_from_str_loop iter_next 0 it done = Inr (done, it)"
| "hash_from_str_loop iter_next (Suc k) it done =
     (case iter_next it of
        (None, it) \<Rightarrow> Inl InvalidHexLength
      | (Some (Inl e), it) \<Rightarrow> Inl e
      | (Some (Inr byte), it) \<Rightarrow> hash_from_str_loop iter_next k it (done @ [byte]))"

definition hash_from_str ::
  "(bytes \<Rightarrow> 'i) \<Rightarrow> ('i \<Rightarrow> (from_hex_error + u8) option \<times> 'i) \<Rightarrow> nat \<Rightarrow> bytes \<Rightarrow> from_hex_error + fixed_hash" where
  "hash_from_str iter_new iter_next n input =
     (let input = (if take 2 input = [48, 120] then drop 2 input else input) in
      case hash_from_str_loop iter_next n (iter_new input) [] of
        Inl e \<Rightarrow> Inl e
      | Inr (result, it) \<Rightarrow> if fst (iter_next it) \<noteq> None then Inl InvalidHexLength else Inr result)"

subsection \<open>Machine words, random and other hashes, integers\<close>

definition least_significant_bytes :: "fixed_hash \<Rightarrow> nat \<Rightarrow> bytes may_panic" where
  "least_significant_bytes self k =
     do {
       rust_assert (k \<le> length self);
       slice_range (hash_as_bytes self) (length self - k) (length self) }"

definition to_low_u64_with_byteorder :: "(bytes \<Rightarrow> u64) \<Rightarrow> fixed_hash \<Rightarrow> u64 may_panic" where
  "to_low_u64_with_byteorder read_u64 self =
     do {
       let buf = replicate 8 0;
       let capped = min (length self) 8;
       bs \<leftarrow> least_significant_bytes self capped;
       tail \<leftarrow> copy_from_slice (drop (8 - capped) buf) bs;
       Some (read_u64 (take (8 - capped) buf @ tail)) }"

definition from_low_u64_with_byteorder :: "(u64 \<Rightarrow> bytes) \<Rightarrow> nat \<Rightarrow> u64 \<Rightarrow> fixed_hash may_panic" where
  "from_low_u64_with_byteorder write_u64 n val =
     do {
       let buf = write_u64 val;
       let capped = min n 8;
       let bytes = replicate n 0;
       front \<leftarrow> slice_range buf 0 capped;
       tail \<leftarrow> copy_from_slice (drop (n - capped) bytes) front;
       hash_from_slice n (take (n - capped) bytes @ tail) }"

text \<open>\<open>gen\<close> is \<^verbatim>\<open>Rng::gen::<u8>\<close>; the source \<^verbatim>\<open>OsRng\<close> of \<^verbatim>\<open>randomize\<close> and \<^verbatim>\<open>random\<close> is one such generator.\<close>

fun hash_sample :: "('r \<Rightarrow> u8 \<times> 'r) \<Rightarrow> nat \<Rightarrow> 'r \<Rightarrow> fixed_hash \<times> 'r" where
  "hash_sample gen 0 rng = ([], rng)"
| "hash_sample gen (Suc n) rng =
     (let (byte, rng) = gen rng; (rest, rng) = hash_sample gen n rng in (byte # rest, rng))"

definition hash_randomize_using :: "('r \<Rightarrow> u8 \<times> 'r) \<Rightarrow> fixed_hash \<Rightarrow> 'r \<Rightarrow> fixed_hash \<times> 'r" where
  "hash_randomize_using gen self rng = hash_sample gen (length self) rng"

definition hash_random_using :: "('r \<Rightarrow> u8 \<times> 'r) \<Rightarrow> nat \<Rightarrow> 'r \<Rightarrow> fixed_hash \<times> 'r" where
  "hash_random_using gen n rng = hash_randomize_using gen (hash_zero n) rng"

text \<open>The conversions of \<^verbatim>\<open>impl_fixed_hash_conversions!\<close>, to and from a larger hash type.\<close>

definition large_from_small :: "nat \<Rightarrow> nat \<Rightarrow> fixed_hash \<Rightarrow> fixed_hash may_panic" where
  "large_from_small large small val =
     do {
       rust_assert (large > small \<and> large mod 2 = 0 \<and> small mod 2 = 0);
       let ret = hash_zero large;
       mid \<leftarrow> slice_range ret (large - small) large;
       mid \<leftarrow> copy_from_slice mid (hash_as_bytes val);
       Some (take (large - small) ret @ mid) }"

definition small_from_large :: "nat \<Rightarrow> nat \<Rightarrow> fixed_hash \<Rightarrow> fixed_hash may_panic" where
  "small_from_large large small val =
     do {
       rust_assert (large > small \<and> large mod 2 = 0 \<and> small mod 2 = 0);
       src \<leftarrow> slice_range val (large - small) large;
       copy_from_slice (hash_zero small) src }"

definition hash_from_uint :: "(u64 \<Rightarrow> bytes) \<Rightarrow> nat \<Rightarrow> uint \<Rightarrow> fixed_hash may_panic" where
  "hash_from_uint write_u64 n val = uint_to_big_endian write_u64 val (hash_as_bytes (hash_zero n))"

definition hash_into_uint :: "(bytes \<Rightarrow> u64) \<Rightarrow> nat \<Rightarrow> fixed_hash \<Rightarrow> uint may_panic" where
  "hash_into_uint read_u64 n_words self = uint_from_big_endian read_u64 n_words (hash_as_bytes self)"

subsection \<open>Hashes as numbers\<close>

definition hval :: "fixed_hash \<Rightarrow> nat" where
  "hval h = lval (rev h)"

lemma hash_clone_same [simp]: "length a = n \<Longrightarrow> hash_clone n a = Some a"
  by (simp add: hash_clone_def copy_from_slice_def hash_zero_def hash_repeat_byte_def)

lemma hash_op_some: "length a = n \<Longrightarrow> length b = n \<Longrightarrow> hash_op n f a b = Some (map2 f a b)"
  by (simp add: hash_op_def hash_op_assign_def hash_as_bytes_def)

lemma rev_map2: "length a = length b \<Longrightarrow> rev (map2 f a b) = map2 f (rev a) (rev b)"
  by (simp add: rev_map [symmetric] zip_rev)

lemma bit_lval_map2:
  fixes f :: "'a::len word \<Rightarrow> 'a word \<Rightarrow> 'a word"
  assumes "length xs = length ys" and "\<And>a b k. bit (f a b) k \<longleftrightarrow> g (bit a k) (bit b k)" and "\<not> g False False"
  shows "bit (lval (map2 f xs ys)) k \<longleftrightarrow> g (bit (lval xs) k) (bit (lval ys) k)"
  using assms
  by (cases "k < LENGTH('a) * length ys") (simp_all add: bit_lval nth_map less_mult_imp_div_less mult.commute)

lemma hval_bitwise:
  assumes "length a = length b"
  shows "hval (map2 (\<lambda>a b. a OR b) a b) = hval a OR hval b"
    "hval (map2 (\<lambda>a b. a AND b) a b) = hval a AND hval b"
    "hval (map2 (\<lambda>a b. a XOR b) a b) = hval a XOR hval b"
  using assms unfolding hval_def
  by (auto simp: rev_map2 bit_lval_map2 [where g = "(\<or>)"] bit_lval_map2 [where g = "(\<and>)"]
      bit_lval_map2 [where g = "(\<noteq>)"] bit_or_iff bit_and_iff bit_xor_iff intro!: lval_eqI_bits)

lemma hval_inject: "length a = length b \<Longrightarrow> hval a = hval b \<longleftrightarrow> a = b"
  using lval_inject [of "rev a" "rev b"] by (auto simp: hval_def)

lemma hash_cmp_spec: "length a = length b \<Longrightarrow> hash_cmp a b = cmp_of (hval a) (hval b)"
  using iter_cmp_rev_lval [of "rev a" "rev b"] by (simp add: hash_cmp_def hash_as_bytes_def hval_def)

lemma hash_from_slice_same: "length h = n \<Longrightarrow> hash_from_slice n h = Some h"
  by (simp add: hash_from_slice_def hash_assign_from_slice_def copy_from_slice_def hash_as_bytes_def
      hash_zero_def hash_repeat_byte_def)

lemma hval_bound: "hval h < 256 ^ length h"
  using lval_bound [of "rev h"] by (simp add: hval_def radix_def)

lemma hval_append: "hval (a @ b) = hval a * 256 ^ length b + hval b"
  by (simp add: hval_def lval_append radix_def)

lemma hval_replicate_0 [simp]: "hval (replicate n 0) = 0"
  by (simp add: hval_def)

lemma hash_covers_spec:
  assumes "length a = n" "length b = n"
  shows "hash_covers n a b = Some (\<forall>k. bit (hval b) k \<longrightarrow> bit (hval a) k)"
proof -
  let ?c = "map2 (\<lambda>x y. x AND y) b a"
  have "hash_covers n a b = Some (?c = b)"
    using assms by (simp add: hash_covers_def hash_bitand_def hash_op_some hash_eq_def hash_as_bytes_def)
  also have "?c = b \<longleftrightarrow> hval b AND hval a = hval b"
    using assms hval_inject [of ?c b] by (simp add: hval_bitwise)
  also have "\<dots> \<longleftrightarrow> (\<forall>k. bit (hval b) k \<longrightarrow> bit (hval a) k)"
    by (auto simp: bit_eq_iff bit_and_iff)
  finally show ?thesis .
qed

lemma hash_is_zero_spec: "hash_is_zero a \<longleftrightarrow> hval a = 0"
  by (simp add: hash_is_zero_def hash_as_bytes_def hval_def lval_eq_0_iff list_all_iff)

subsection \<open>Machine words, other hashes, integers\<close>

lemma hval_drop: "k \<le> length h \<Longrightarrow> hval (drop (length h - k) h) = hval h mod 256 ^ k"
  using hval_append [of "take (length h - k) h" "drop (length h - k) h"] hval_bound [of "drop (length h - k) h"]
  by simp

lemma hval_take: "k \<le> length h \<Longrightarrow> hval (take k h) = hval h div 256 ^ (length h - k)"
  using hval_append [of "take k h" "drop k h"] hval_bound [of "drop k h"] by simp

lemma take_drop_all: "k \<le> length xs \<Longrightarrow> take (length xs - k) (drop k xs) = drop k xs"
  by simp

lemma to_low_u64_some:
  assumes "c = min (length h) 8"
  shows "to_low_u64_with_byteorder read_u64 h = Some (read_u64 (replicate (8 - c) 0 @ drop (length h - c) h))"
  using assms
  by (simp add: to_low_u64_with_byteorder_def least_significant_bytes_def slice_range_def hash_as_bytes_def
      copy_from_slice_def Let_def)

lemma from_low_u64_some:
  assumes "length (write_u64 v) = 8" "c = min n 8"
  shows "from_low_u64_with_byteorder write_u64 n v = Some (replicate (n - c) 0 @ take c (write_u64 v))"
  using assms
  by (simp add: from_low_u64_with_byteorder_def slice_range_def copy_from_slice_def hash_from_slice_def
      hash_assign_from_slice_def hash_as_bytes_def hash_zero_def hash_repeat_byte_def Let_def)

context big_endian_words
begin

lemma to_low_u64_be_value: "\<exists>w. to_low_u64_with_byteorder read_u64 h = Some w \<and> unat w = hval h mod B"
proof -
  define c where "c = min (length h) 8"
  let ?bs = "replicate (8 - c) 0 @ drop (length h - c) h"
  have l: "length ?bs = 8" by (simp add: c_def)
  then have "unat (read_u64 ?bs) = hval ?bs" using read_value [of ?bs] by (simp add: hval_def)
  also have "\<dots> = hval h mod 256 ^ c"
    using hval_drop [of c h] by (simp add: hval_append c_def)
  also have "\<dots> = hval h mod B"
  proof (cases "8 \<le> length h")
    case False
    then have "hval h < 256 ^ c" using hval_bound [of h] by (simp add: c_def min_def)
    moreover have "c \<le> 8" by (simp add: c_def)
    then have "radix TYPE(8) ^ c \<le> B" unfolding B_bytes by (intro power_increasing) (simp_all add: Suc_leI)
    then have "256 ^ c \<le> B" by (simp add: radix_def [of "TYPE(8)"])
    ultimately show ?thesis by simp
  qed (simp add: c_def B_bytes radix_def)
  finally show ?thesis using to_low_u64_some [OF c_def] by simp
qed

lemma from_low_u64_be_value:
  "\<exists>h. from_low_u64_with_byteorder write_u64 n v = Some h \<and> length h = n \<and>
     hval h = unat v div 256 ^ (8 - min n 8)"
proof -
  define c where "c = min n 8"
  have "hval (write_u64 v) = unat v" using write_value [of v] by (simp add: hval_def)
  then have "hval (take c (write_u64 v)) = unat v div 256 ^ (8 - c)"
    using hval_take [of c "write_u64 v"] by (simp add: c_def length_write)
  then show ?thesis using from_low_u64_some [OF length_write c_def]
    by (simp add: hval_append length_write c_def)
qed

end

lemma large_from_small_value:
  assumes "small < large" "even large" "even small" "length h = small"
  shows "\<exists>r. large_from_small large small h = Some r \<and> length r = large \<and> hval r = hval h"
  using assms
  by (simp add: large_from_small_def slice_range_def copy_from_slice_def hash_as_bytes_def hash_zero_def
      hash_repeat_byte_def hval_append)

lemma small_from_large_value:
  assumes "small < large" "even large" "even small" "length h = large"
  shows "\<exists>r. small_from_large large small h = Some r \<and> length r = small \<and> hval r = hval h mod 256 ^ small"
  using assms hval_drop [of small h]
  by (simp add: small_from_large_def slice_range_def copy_from_slice_def hash_zero_def hash_repeat_byte_def)

subsection \<open>Text\<close>

text \<open>
  The contract of the iterator of \<^verbatim>\<open>rustc-hex\<close>: \<open>rest\<close> is the text that is still to be read. Two
  hexadecimal digits are one byte, one digit alone is an error, and the empty text is the end.
\<close>

locale hex_iter =
  fixes iter_new :: "bytes \<Rightarrow> 'i" and iter_next :: "'i \<Rightarrow> (from_hex_error + u8) option \<times> 'i"
    and rest :: "'i \<Rightarrow> bytes"
  assumes rest_new: "rest (iter_new cs) = cs"
    and next_end: "rest it = [] \<Longrightarrow> fst (iter_next it) = None"
    and next_byte: "rest it = a # b # cs \<Longrightarrow> is_hex a \<Longrightarrow> is_hex b \<Longrightarrow>
      \<exists>it'. iter_next it = (Some (Inr (of_nat (16 * hex_val a + hex_val b))), it') \<and> rest it' = cs"
    and next_odd: "rest it = [a] \<Longrightarrow> is_hex a \<Longrightarrow> fst (iter_next it) = Some (Inl InvalidHexLength)"
begin

lemma loop_spec:
  "list_all is_hex cs \<Longrightarrow> rest it = cs \<Longrightarrow>
     (if 2 * k \<le> length cs then
        \<exists>it'. hash_from_str_loop iter_next k it d = Inr (d @ map of_nat (hex_pairs (take (2 * k) cs)), it') \<and>
          rest it' = drop (2 * k) cs
      else hash_from_str_loop iter_next k it d = Inl InvalidHexLength)"
proof (induction k arbitrary: cs it d)
  case (Suc k)
  consider "cs = []" | a where "cs = [a]" | a b cs' where "cs = a # b # cs'"
    by (metis list.exhaust)
  then show ?case
  proof cases
    case 1
    then show ?thesis using next_end [of it] Suc.prems by (auto split: prod.splits)
  next
    case (2 a)
    then show ?thesis using next_odd [of it a] Suc.prems by (auto split: prod.splits)
  next
    case (3 a b cs')
    obtain it' where it: "iter_next it = (Some (Inr (of_nat (16 * hex_val a + hex_val b))), it')" "rest it' = cs'"
      using next_byte [of it a b cs'] Suc.prems 3 by auto
    show ?thesis
      using Suc.IH [of cs' it' "d @ [of_nat (16 * hex_val a + hex_val b)]"] Suc.prems 3 it by auto
  qed
qed simp

lemma from_str_hex:
  assumes "list_all is_hex cs"
  shows "hash_from_str iter_new iter_next n cs =
      (if length cs = 2 * n then Inr (map of_nat (hex_pairs cs)) else Inl InvalidHexLength)"
    and "hash_from_str iter_new iter_next n ([48, 120] @ cs) =
      (if length cs = 2 * n then Inr (map of_nat (hex_pairs cs)) else Inl InvalidHexLength)"
proof -
  have "\<not> is_hex 120" by (simp add: is_hex_def)
  then have "take 2 cs \<noteq> [48, 120]"
    using assms by (cases cs rule: hex_pairs.cases) auto
  moreover have "fst (iter_next it) \<noteq> None" if "rest it = drop (2 * n) cs" "2 * n < length cs" for it
  proof -
    obtain a r where r: "drop (2 * n) cs = a # r" using \<open>2 * n < length cs\<close> by (cases "drop (2 * n) cs") auto
    have "set (drop (2 * n) cs) \<subseteq> set cs" by (rule set_drop_subset)
    then have "is_hex a" "\<forall>b \<in> set r. is_hex b" using assms by (auto simp: r list_all_iff)
    then show ?thesis using next_byte [of it a] next_odd [of it a] that r by (cases r) fastforce+
  qed
  moreover have "fst (iter_next it) = None" if "rest it = drop (2 * n) cs" "2 * n = length cs" for it
    using next_end [of it] that by simp
  ultimately have *: "(case hash_from_str_loop iter_next n (iter_new cs) [] of
        Inl e \<Rightarrow> Inl e
      | Inr (result, it) \<Rightarrow> if fst (iter_next it) \<noteq> None then Inl InvalidHexLength else Inr result) =
      (if length cs = 2 * n then Inr (map of_nat (hex_pairs cs)) else Inl InvalidHexLength)"
    using loop_spec [OF assms rest_new, of n "[]"] by (cases "2 * n" "length cs" rule: linorder_cases) auto
  show "hash_from_str iter_new iter_next n cs =
      (if length cs = 2 * n then Inr (map of_nat (hex_pairs cs)) else Inl InvalidHexLength)"
    using \<open>take 2 cs \<noteq> [48, 120]\<close> * by (simp add: hash_from_str_def)
  show "hash_from_str iter_new iter_next n ([48, 120] @ cs) =
      (if length cs = 2 * n then Inr (map of_nat (hex_pairs cs)) else Inl InvalidHexLength)"
    using * by (simp add: hash_from_str_def)
qed

end

lemma hex_char_facts: "d < 16 \<Longrightarrow> is_hex (hex_char up d) \<and> hex_val (hex_char up d) = unat d"
  by (auto simp: hex_char_def is_hex_def hex_val_def Let_def word_less_nat_alt unat_add_radix radix_def)

lemma fmt_hex_facts:
  "list_all is_hex (concat (map (fmt_02x up) bs))" "hex_pairs (concat (map (fmt_02x up) bs)) = map unat bs"
  "length (concat (map (fmt_02x up) bs)) = 2 * length bs"
  by (induction bs) (simp_all add: fmt_02x_def hex_char_facts byte_nibbles)

text \<open>An iterator that meets the contract; it counts no positions.\<close>

fun text_next :: "bytes \<Rightarrow> (from_hex_error + u8) option \<times> bytes" where
  "text_next [] = (None, [])"
| "text_next [a] = (Some (Inl (if is_hex a then InvalidHexLength else InvalidHexChar a 0)), [])"
| "text_next (a # b # cs) =
     (Some (if \<not> is_hex a then Inl (InvalidHexChar a 0) else if \<not> is_hex b then Inl (InvalidHexChar b 1)
            else Inr (of_nat (16 * hex_val a + hex_val b))), cs)"

interpretation std_iter: hex_iter "\<lambda>cs. cs" text_next "\<lambda>cs. cs"
  by unfold_locales auto

subsection \<open>Properties\<close>

text \<open>
  C23. Hashes as bit sets and numbers: on hashes of \<open>n\<close> bytes the operators \<^verbatim>\<open>|\<close>, \<^verbatim>\<open>&\<close> and \<^verbatim>\<open>^\<close> return the
  hash of \<open>n\<close> bytes whose big-endian number is the bitwise operation on the numbers, \<^verbatim>\<open>covers\<close> is
  inclusion of the bits, \<^verbatim>\<open>is_zero\<close> and \<^verbatim>\<open>cmp\<close> are those of the numbers, and \<^verbatim>\<open>from_slice\<close> accepts
  exactly the slices of \<open>n\<close> bytes.
\<close>

theorem hash_operators_bitwise:
  assumes "length a = n" and "length b = n"
  shows "(\<exists>r s t. hash_bitor n a b = Some r \<and> hash_bitand n a b = Some s \<and> hash_bitxor n a b = Some t \<and>
      length r = n \<and> length s = n \<and> length t = n \<and>
      hval r = hval a OR hval b \<and> hval s = hval a AND hval b \<and> hval t = hval a XOR hval b) \<and>
    hash_covers n a b = Some (\<forall>k. bit (hval b) k \<longrightarrow> bit (hval a) k) \<and>
    hash_is_zero a = (hval a = 0) \<and> hash_cmp a b = cmp_of (hval a) (hval b) \<and>
    hash_from_slice n src = (if length src = n then Some src else None)"
proof (intro conjI)
  show "hash_from_slice n src = (if length src = n then Some src else None)"
    by (simp add: hash_from_slice_def hash_assign_from_slice_def copy_from_slice_def hash_as_bytes_def
        hash_zero_def hash_repeat_byte_def)
qed (use assms in \<open>simp_all add: hash_bitor_def hash_bitand_def hash_bitxor_def hash_op_some hval_bitwise
       hash_covers_spec hash_is_zero_spec hash_cmp_spec\<close>)

theorem hash_operators_bitwise_witness:
  "(\<exists>r. hash_bitor 2 [0x12, 0x80] [1, 1] = Some r \<and> hval r = hval [0x12, 0x80] OR hval [1, 1]) \<and>
   hash_cmp [0x12, 0x80] [1, 1] = cmp_of (hval [0x12, 0x80]) (hval [1, 1])"
  using hash_operators_bitwise [of "[0x12, 0x80]" 2 "[1, 1]"] by auto

text \<open>
  Conversions of hashes keep the number: for a word access that meets the contract of
  \<^verbatim>\<open>byteorder\<close>, the low word of a hash is its number modulo \<open>2 ^ 64\<close>; a hash of at least eight bytes
  made from a word has that number and gives it back; widening to a larger hash type keeps the
  number and narrowing takes it modulo the smaller size; an integer survives the way through a hash.
\<close>

theorem hash_conversions:
  assumes "big_endian_words write_u64 read_u64" and "8 \<le> n"
    and "small < large" and "even large" and "even small" and "length h = small" and "length g = large"
    and "length x = w"
  shows "(\<exists>v. to_low_u64_with_byteorder read_u64 h = Some v \<and> unat v = hval h mod B) \<and>
    (\<exists>f. from_low_u64_with_byteorder write_u64 n u = Some f \<and> length f = n \<and> hval f = unat u \<and>
      to_low_u64_with_byteorder read_u64 f = Some u) \<and>
    (\<exists>r. large_from_small large small h = Some r \<and> length r = large \<and> hval r = hval h \<and>
      small_from_large large small r = Some h) \<and>
    (\<exists>r. small_from_large large small g = Some r \<and> length r = small \<and> hval r = hval g mod 256 ^ small) \<and>
    (hash_from_uint write_u64 (8 * w) x \<bind> hash_into_uint read_u64 w) = Some x"
proof -
  note be = assms(1)
  obtain f where f: "from_low_u64_with_byteorder write_u64 n u = Some f" "length f = n" "hval f = unat u"
    using big_endian_words.from_low_u64_be_value [OF be, of n u] assms(2) by auto
  have "to_low_u64_with_byteorder read_u64 f = Some u"
    using big_endian_words.to_low_u64_be_value [OF be, of f] f(3) unat_lt_radix [of u]
    by (auto simp: word_unat_eq_iff)
  moreover obtain r where r: "large_from_small large small h = Some r" "length r = large" "hval r = hval h"
    using large_from_small_value [OF assms(3-6)] by blast
  have "small_from_large large small r = Some h"
    using small_from_large_value [OF assms(3-5) r(2)] r(3) hval_bound [of h] assms(6) hval_inject [of _ h] by auto
  moreover have "(hash_from_uint write_u64 (8 * w) x \<bind> hash_into_uint read_u64 w) = Some x"
    using big_endian_words.big_endian_roundtrip [OF be, of "replicate (8 * w) 0" x] assms(8)
    by (simp add: hash_from_uint_def hash_into_uint_def [abs_def] hash_as_bytes_def hash_zero_def hash_repeat_byte_def)
  ultimately show ?thesis
    using f r big_endian_words.to_low_u64_be_value [OF be, of h] small_from_large_value [OF assms(3-5,7)] by simp
qed

theorem hash_conversions_witness:
  "\<exists>f. from_low_u64_with_byteorder u64_to_be_bytes 20 7 = Some f \<and> length f = 20 \<and> hval f = 7 \<and>
     to_low_u64_with_byteorder u64_from_be_bytes f = Some 7"
proof -
  have p: "8 \<le> (20 :: nat)" "2 < (4 :: nat)" "even (4 :: nat)" "even (2 :: nat)" "length [1, 2 :: u8] = 2"
    "length [1, 2, 3, 4 :: u8] = 4" "length [5 :: u64] = 1"
    by simp_all
  show ?thesis
    using hash_conversions [OF std_be.big_endian_words_axioms p, of 7] by simp
qed

text \<open>
  The documentation of \<^verbatim>\<open>from_low_u64_be\<close> says that a hash of less than eight bytes ignores the most
  significant bits of the word; the code drops the least significant ones.
\<close>

theorem from_low_u64_be_drops_low_bytes:
  "\<exists>h. from_low_u64_with_byteorder u64_to_be_bytes 4 v = Some h \<and> hval h = unat v div 2 ^ 32"
  using std_be.from_low_u64_be_value [of 4 v] by (auto simp: min_def)

text \<open>
  The text of a hash: for an iterator that meets the contract of \<^verbatim>\<open>rustc-hex\<close>, parsing returns the
  hash from its lower and upper case text and from the text with the prefix \<^verbatim>\<open>0x\<close> (the \<^verbatim>\<open>Debug\<close> text),
  and hexadecimal text of any other length is an error.
\<close>

theorem hash_text_roundtrip:
  assumes "hex_iter iter_new iter_next rest" and "length h = n" and "list_all is_hex cs"
  shows "hash_from_str iter_new iter_next n (hash_lower_hex False h) = Inr h \<and>
    hash_from_str iter_new iter_next n (hash_upper_hex False h) = Inr h \<and>
    hash_from_str iter_new iter_next n (hash_debug h) = Inr h \<and>
    (length cs \<noteq> 2 * n \<longrightarrow> hash_from_str iter_new iter_next n cs = Inl InvalidHexLength)"
proof -
  note hx = hex_iter.from_str_hex [OF assms(1)]
  have "map of_nat (map unat h) = h" by (simp add: comp_def)
  then have p: "map of_nat (hex_pairs (concat (map (fmt_02x up) h))) = h" for up
    by (simp only: fmt_hex_facts)
  show ?thesis
    using hx [OF fmt_hex_facts(1)] hx(1) [OF assms(3)] fmt_hex_facts(3) [of _ h] assms(2) p
    by (simp add: hash_lower_hex_def hash_upper_hex_def hash_debug_def)
qed

theorem hash_text_roundtrip_witness:
  "hash_from_str (\<lambda>cs. cs) text_next 2 (hash_debug [0xab, 1]) = Inr [0xab, 1] \<and>
   hash_from_str (\<lambda>cs. cs) text_next 2 [48] = Inl InvalidHexLength"
  using hash_text_roundtrip [OF std_iter.hex_iter_axioms, of "[0xab, 1]" 2 "[48]"] by (simp add: is_hex_def)

end
