(* ===== verification/Ethbloom.thy ===== *)
theory Ethbloom
  imports Fixed_Hash
begin

text \<open>
  The bloom filter of the crate \<^verbatim>\<open>ethbloom\<close> (\<^verbatim>\<open>ethbloom/src/lib.rs\<close>): a hash type of 256 bytes in which
  an input sets the three bits that its Keccak hash selects. The hash function of \<^verbatim>\<open>tiny-keccak\<close> is a
  parameter.
\<close>

subsection \<open>Operations\<close>

definition BLOOM_BITS :: nat where
  "BLOOM_BITS = 3"

definition BLOOM_SIZE :: nat where
  "BLOOM_SIZE = 256"

type_synonym bloom = fixed_hash

definition log2 :: "nat \<Rightarrow> nat" where
  "log2 x = (if x \<le> 1 then 0 else 64 - word_leading_zeros (of_nat x :: u64))"

datatype input = Raw bytes | Hash bytes

datatype hash_ref = Ref bytes | Owned bytes

definition hash_of_input :: "(bytes \<Rightarrow> bytes) \<Rightarrow> input \<Rightarrow> hash_ref" where
  "hash_of_input keccak256 inp = (case inp of Raw raw \<Rightarrow> Owned (keccak256 raw) | Hash hash \<Rightarrow> Ref hash)"

definition hash_ref_index :: "hash_ref \<Rightarrow> nat \<Rightarrow> u8 may_panic" where
  "hash_ref_index self i = (case self of Ref r \<Rightarrow> index_at r i | Owned hash \<Rightarrow> index_at hash i)"

definition hash_ref_len :: "hash_ref \<Rightarrow> nat" where
  "hash_ref_len self = (case self of Ref r \<Rightarrow> length r | Owned hash \<Rightarrow> length hash)"

definition bloom_is_empty :: "bloom \<Rightarrow> bool" where
  "bloom_is_empty self = list_all (\<lambda>x. x = 0) self"

text \<open>The two nested loops of \<^verbatim>\<open>accrue\<close>: reading an index from the hash, and setting its bit.\<close>

fun read_index :: "hash_ref \<Rightarrow> nat \<Rightarrow> nat \<Rightarrow> u64 \<Rightarrow> (u64 \<times> nat) may_panic" where
  "read_index hash 0 ptr index = Some (index, ptr)"
| "read_index hash (Suc k) ptr index =
     do {
       b \<leftarrow> hash_ref_index hash ptr;
       read_index hash k (ptr + 1) (push_bit 8 index OR ucast b) }"

fun accrue_rounds :: "hash_ref \<Rightarrow> nat \<Rightarrow> u64 \<Rightarrow> nat \<Rightarrow> nat \<Rightarrow> bloom \<Rightarrow> bloom may_panic" where
  "accrue_rounds hash bloom_bytes bit_mask 0 ptr self = Some self"
| "accrue_rounds hash bloom_bytes bit_mask (Suc k) ptr self =
     do {
       (index, ptr) \<leftarrow> read_index hash bloom_bytes ptr 0;
       let index = unat (index AND bit_mask);
       i \<leftarrow> usize_sub (length self - 1) (index div 8);
       byte \<leftarrow> index_at self i;
       accrue_rounds hash bloom_bytes bit_mask k ptr (self[i := byte OR push_bit (index mod 8) 1]) }"

definition accrue :: "(bytes \<Rightarrow> bytes) \<Rightarrow> bloom \<Rightarrow> input \<Rightarrow> bloom may_panic" where
  "accrue keccak256 self inp =
     do {
       let p = BLOOM_BITS;
       let m = length self;
       let bloom_bits = m * 8;
       bit_mask \<leftarrow> usize_sub bloom_bits 1;
       let bloom_bytes = (log2 bloom_bits + 7) div 8;
       let hash = hash_of_input keccak256 inp;
       rust_assert (m AND (m - 1) = 0);
       rust_assert (p * bloom_bytes \<le> hash_ref_len hash);
       rust_assert (BLOOM_BITS = 3);
       accrue_rounds hash bloom_bytes (of_nat bit_mask) 3 0 self }"

definition bloom_from_input :: "(bytes \<Rightarrow> bytes) \<Rightarrow> input \<Rightarrow> bloom may_panic" where
  "bloom_from_input keccak256 inp = accrue keccak256 (hash_default BLOOM_SIZE) inp"

fun contains_loop :: "bloom \<Rightarrow> bloom \<Rightarrow> nat list \<Rightarrow> bool may_panic" where
  "contains_loop self other [] = Some True"
| "contains_loop self other (i # is) =
     do {
       a \<leftarrow> index_at self i;
       b \<leftarrow> index_at other i;
       if a AND b \<noteq> b then Some False else contains_loop self other is }"

text \<open>\<^verbatim>\<open>BloomRef::contains_bloom\<close>, which \<^verbatim>\<open>Bloom::contains_bloom\<close> calls.\<close>

definition contains_bloom :: "bloom \<Rightarrow> bloom \<Rightarrow> bool may_panic" where
  "contains_bloom self other =
     do {
       rust_assert (length self = BLOOM_SIZE);
       rust_assert (length other = BLOOM_SIZE);
       contains_loop self other [0..<BLOOM_SIZE] }"

definition contains_input :: "(bytes \<Rightarrow> bytes) \<Rightarrow> bloom \<Rightarrow> input \<Rightarrow> bool may_panic" where
  "contains_input keccak256 self inp =
     do { other \<leftarrow> bloom_from_input keccak256 inp; contains_bloom self other }"

fun accrue_bloom_loop :: "bloom \<Rightarrow> nat list \<Rightarrow> bloom \<Rightarrow> bloom may_panic" where
  "accrue_bloom_loop other [] self = Some self"
| "accrue_bloom_loop other (i # is) self =
     do {
       a \<leftarrow> index_at self i;
       b \<leftarrow> index_at other i;
       accrue_bloom_loop other is (self[i := a OR b]) }"

definition accrue_bloom :: "bloom \<Rightarrow> bloom \<Rightarrow> bloom may_panic" where
  "accrue_bloom self other =
     do {
       rust_assert (length self = BLOOM_SIZE);
       rust_assert (length other = BLOOM_SIZE);
       accrue_bloom_loop other [0..<BLOOM_SIZE] self }"

definition bloom_eq_ref :: "bloom \<Rightarrow> bloom \<Rightarrow> bool" where
  "bloom_eq_ref self other \<longleftrightarrow> self = other"

subsection \<open>Bits of a bloom\<close>

text \<open>The set of bits of a bloom, and the bits of the first three pairs of bytes of a hash.\<close>

definition bits_of :: "bloom \<Rightarrow> nat set" where
  "bits_of b = {k. bit (hval b) k}"

definition hash_bytes :: "(bytes \<Rightarrow> bytes) \<Rightarrow> input \<Rightarrow> bytes" where
  "hash_bytes keccak256 inp = (case inp of Raw raw \<Rightarrow> keccak256 raw | Hash hash \<Rightarrow> hash)"

definition pair_bit :: "bytes \<Rightarrow> nat \<Rightarrow> nat" where
  "pair_bit h i = (unat (h ! i) * 256 + unat (h ! (i + 1))) mod 2048"

definition bloom_bits :: "bytes \<Rightarrow> nat set" where
  "bloom_bits h = {pair_bit h 0, pair_bit h 2, pair_bit h 4}"

lemma bits_of_at:
  "length b = n \<Longrightarrow> k \<in> bits_of b \<longleftrightarrow> k < 8 * n \<and> bit (b ! (n - Suc (k div 8))) (k mod 8)"
  by (auto simp: bits_of_def hval_def bit_lval rev_nth)

lemma bit_shifted_one: "q < 8 \<Longrightarrow> bit (2 ^ r :: u8) q \<longleftrightarrow> q = r"
  by (auto simp: bit_exp_iff)

lemma bits_of_set_bit:
  assumes "length b = n" "j < 8 * n" "i = n - 1 - j div 8"
  shows "bits_of (b[i := b ! i OR push_bit (j mod 8) 1]) = insert j (bits_of b)"
proof (rule set_eqI)
  fix k
  show "k \<in> bits_of (b[i := b ! i OR push_bit (j mod 8) 1]) \<longleftrightarrow> k \<in> insert j (bits_of b)"
  proof (cases "k < 8 * n")
    case True
    have i: "i < n" "k div 8 < n" "j div 8 < n" using assms True by (auto simp: less_mult_imp_div_less mult.commute)
    let ?b = "b[i := b ! i OR push_bit (j mod 8) 1]"
    have at: "n - Suc (k div 8) = i \<longleftrightarrow> k div 8 = j div 8" using assms(3) i by linarith
    have eq: "k = j \<longleftrightarrow> k div 8 = j div 8 \<and> k mod 8 = j mod 8"
      by (metis div_mult_mod_eq)
    have "k \<in> bits_of ?b \<longleftrightarrow> bit (?b ! (n - Suc (k div 8))) (k mod 8)"
      using assms(1) True by (simp only: bits_of_at [of ?b n] length_list_update simp_thms)
    also have "\<dots> \<longleftrightarrow> k \<in> bits_of b \<or> k = j"
    proof (cases "k div 8 = j div 8")
      case same: True
      then have "bit (?b ! (n - Suc (k div 8))) (k mod 8) \<longleftrightarrow> bit (b ! i) (k mod 8) \<or> k mod 8 = j mod 8"
        using at i assms(1) by (simp add: bit_or_iff bit_shifted_one)
      then show ?thesis using same at assms(1) True eq by (simp add: bits_of_at [of b n])
    next
      case False
      then show ?thesis using at assms(1) True eq by (simp add: bits_of_at [of b n])
    qed
    finally show ?thesis by blast
  qed (use assms in \<open>simp_all add: bits_of_at [of _ n]\<close>)
qed

lemma shift_in_byte:
  assumes "unat (w :: u64) < 2 ^ 56"
  shows "unat (push_bit 8 w OR ucast (b :: u8)) = unat w * 256 + unat b"
proof -
  have "push_bit 8 w OR ucast b = push_bit 8 w + (ucast b :: u64)"
    by (rule disjunctive_add [symmetric]) (auto simp: bit_push_bit_iff bit_ucast_iff dest: bit_imp_le_length)
  moreover have "unat (push_bit 8 w) = unat w * 256"
    using assms by (simp add: unat_push_bit radix_def)
  moreover have "unat (ucast b :: u64) = unat b" by (rule unat_ucast_up) simp
  ultimately show ?thesis using assms unat_lt_radix [of b] by (simp add: unat_add_radix radix_def)
qed

lemma hash_ref_facts:
  "hash_ref_index (hash_of_input K inp) i = index_at (hash_bytes K inp) i"
  "hash_ref_len (hash_of_input K inp) = length (hash_bytes K inp)"
  by (cases inp; simp add: hash_of_input_def hash_ref_index_def hash_ref_len_def hash_bytes_def)+

lemma read_index_pair:
  assumes "h = hash_bytes K inp" "ptr + 1 < length h"
  shows "\<exists>w. read_index (hash_of_input K inp) 2 ptr 0 = Some (w, ptr + 2) \<and> unat (w AND 2047) = pair_bit h ptr"
proof -
  let ?a = "h ! ptr" and ?b = "h ! (ptr + 1)"
  have m: "(2047 :: u64) = mask 11" by (simp add: mask_eq_exp_minus_1)
  have a: "unat (ucast ?a :: u64) = unat ?a" by (rule unat_ucast_up) simp
  have "unat (push_bit 8 (ucast ?a :: u64) OR ucast ?b) = unat ?a * 256 + unat ?b"
    using unat_lt_radix [of ?a] by (subst shift_in_byte) (simp_all add: a radix_def)
  moreover have "read_index (hash_of_input K inp) 2 ptr 0 = Some (push_bit 8 (ucast ?a) OR ucast ?b, ptr + 2)"
    using assms by (simp add: numeral_2_eq_2 hash_ref_facts index_at_def)
  ultimately show ?thesis by (simp add: m take_bit_eq_mask [symmetric] unat_take_bit pair_bit_def)
qed

lemma accrue_rounds_bits:
  assumes "h = hash_bytes K inp" "ptr + 2 * k \<le> length h" "length b = 256"
  shows "\<exists>b'. accrue_rounds (hash_of_input K inp) 2 2047 k ptr b = Some b' \<and> length b' = 256 \<and>
    bits_of b' = bits_of b \<union> (\<lambda>i. pair_bit h (ptr + 2 * i)) ` {..<k}"
  using assms(2,3)
proof (induction k arbitrary: ptr b)
  case (Suc k)
  let ?j = "pair_bit h ptr"
  define i where "i = 256 - 1 - ?j div 8"
  obtain w where w: "read_index (hash_of_input K inp) 2 ptr 0 = Some (w, ptr + 2)" "unat (w AND 2047) = ?j"
    using read_index_pair [OF assms(1), of ptr] Suc.prems(1) by auto
  have j: "?j < 8 * 256" by (simp add: pair_bit_def)
  then have "?j div 8 < 256" by (simp add: less_mult_imp_div_less)
  moreover have "255 - ?j div 8 < 256" by linarith
  ultimately have step: "accrue_rounds (hash_of_input K inp) 2 2047 (Suc k) ptr b =
      accrue_rounds (hash_of_input K inp) 2 2047 k (ptr + 2) (b[i := b ! i OR push_bit (?j mod 8) 1])"
    using w Suc.prems(2) by (simp add: usize_sub_def index_at_def i_def Let_def)
  obtain b' where b': "accrue_rounds (hash_of_input K inp) 2 2047 (Suc k) ptr b = Some b'" "length b' = 256"
    "bits_of b' = insert ?j (bits_of b) \<union> (\<lambda>i. pair_bit h (ptr + 2 + 2 * i)) ` {..<k}"
    using Suc.IH [of "ptr + 2" "b[i := b ! i OR push_bit (?j mod 8) 1]"] Suc.prems step
      bits_of_set_bit [OF Suc.prems(2) j i_def] by auto
  moreover have "(\<lambda>i. pair_bit h (ptr + 2 * i)) ` {..<Suc k} =
      insert ?j ((\<lambda>i. pair_bit h (ptr + 2 + 2 * i)) ` {..<k})"
    unfolding lessThan_Suc_eq_insert_0 by (simp add: image_image)
  ultimately show ?case by auto
qed simp

lemma log2_2048: "log2 2048 = 12"
proof -
  have "nat_bits 2048 = Suc 11" by (rule nat_bits_eqI) simp_all
  then show ?thesis by (simp add: log2_def word_leading_zeros_def)
qed

lemma accrue_bits:
  assumes "length b = BLOOM_SIZE" "length (hash_bytes K inp) = 32"
  shows "\<exists>b'. accrue K b inp = Some b' \<and> length b' = BLOOM_SIZE \<and>
    bits_of b' = bits_of b \<union> bloom_bits (hash_bytes K inp)"
proof -
  have "{..<3} = {0, 1, 2 :: nat}" by auto
  moreover have "accrue K b inp = accrue_rounds (hash_of_input K inp) 2 2047 3 0 b"
    using assms by (simp add: accrue_def BLOOM_SIZE_def BLOOM_BITS_def usize_sub_def log2_2048 hash_ref_facts)
  ultimately show ?thesis
    using accrue_rounds_bits [of "hash_bytes K inp" K inp 0 3 b] assms by (simp add: BLOOM_SIZE_def bloom_bits_def)
qed

lemma bits_of_default: "bits_of (hash_default n) = {}"
  by (simp add: bits_of_def hash_default_def hash_zero_def hash_repeat_byte_def)

lemma bloom_from_input_bits:
  assumes "length (hash_bytes K inp) = 32"
  shows "\<exists>b. bloom_from_input K inp = Some b \<and> length b = BLOOM_SIZE \<and> bits_of b = bloom_bits (hash_bytes K inp)"
  using accrue_bits [of "hash_default BLOOM_SIZE" K inp] assms
  by (simp add: bloom_from_input_def bits_of_default) (simp add: hash_default_def hash_zero_def hash_repeat_byte_def)

lemma contains_loop_spec:
  "\<forall>i \<in> set is. i < length a \<and> i < length b \<Longrightarrow>
     contains_loop a b is = Some (\<forall>i \<in> set is. a ! i AND b ! i = b ! i)"
  by (induction "is") (simp_all add: index_at_def)

lemma bits_subset_iff:
  assumes "length a = n" "length b = n"
  shows "bits_of b \<subseteq> bits_of a \<longleftrightarrow> (\<forall>i < n. a ! i AND b ! i = b ! i)"
proof
  assume sub: "bits_of b \<subseteq> bits_of a"
  show "\<forall>i < n. a ! i AND b ! i = b ! i"
  proof (intro allI impI)
    fix i
    assume i: "i < n"
    have "bit (a ! i) q" if q: "bit (b ! i) q" for q
    proof -
      have "q < 8" using bit_imp_le_length [OF q] by simp
      then have "8 * (n - Suc i) + q \<in> bits_of a \<longleftrightarrow> bit (a ! i) q" "8 * (n - Suc i) + q \<in> bits_of b \<longleftrightarrow> bit (b ! i) q"
        using i assms by (auto simp: bits_of_at [of _ n])
      then show ?thesis using sub q by blast
    qed
    then show "a ! i AND b ! i = b ! i" by (auto intro!: bit_word_eqI simp: bit_and_iff)
  qed
next
  assume all: "\<forall>i < n. a ! i AND b ! i = b ! i"
  show "bits_of b \<subseteq> bits_of a"
  proof
    fix k
    assume k: "k \<in> bits_of b"
    then have "n - Suc (k div 8) < n" using assms by (auto simp: bits_of_at [of b n])
    then have "b ! (n - Suc (k div 8)) = a ! (n - Suc (k div 8)) AND b ! (n - Suc (k div 8))" using all by simp
    then have "bit (a ! (n - Suc (k div 8))) (k mod 8)"
      using k assms(2) by (metis bit_and_iff bits_of_at)
    then show "k \<in> bits_of a" using k assms by (simp add: bits_of_at [of _ n])
  qed
qed

lemma contains_bloom_bits:
  "length a = BLOOM_SIZE \<Longrightarrow> length b = BLOOM_SIZE \<Longrightarrow> contains_bloom a b = Some (bits_of b \<subseteq> bits_of a)"
  by (simp add: contains_bloom_def contains_loop_spec bits_subset_iff [of _ BLOOM_SIZE] Ball_def)

lemma accrue_bloom_loop_spec:
  "distinct is \<Longrightarrow> \<forall>i \<in> set is. i < length a \<and> i < length b \<Longrightarrow>
     accrue_bloom_loop b is a = Some (fold (\<lambda>i r. r[i := r ! i OR b ! i]) is a)"
  by (induction "is" arbitrary: a) (simp_all add: index_at_def)

lemma accrue_bloom_bits:
  assumes "length a = BLOOM_SIZE" "length b = BLOOM_SIZE"
  shows "\<exists>c. accrue_bloom a b = Some c \<and> length c = BLOOM_SIZE \<and> bits_of c = bits_of a \<union> bits_of b"
proof -
  define c where "c = fold (\<lambda>i r. r[i := r ! i OR b ! i]) [0..<BLOOM_SIZE] a"
  have l: "length c = BLOOM_SIZE" using assms by (simp add: c_def)
  have nth: "c ! i = a ! i OR b ! i" if "i < BLOOM_SIZE" for i
    unfolding c_def using that assms
    by (subst nth_fold_update [where f = "\<lambda>i x. x OR b ! i"]) simp_all
  have "k \<in> bits_of c \<longleftrightarrow> k \<in> bits_of a \<or> k \<in> bits_of b" for k
    using assms nth [of "BLOOM_SIZE - Suc (k div 8)"]
    by (cases "k < 8 * BLOOM_SIZE") (simp_all add: bits_of_at [OF l] bits_of_at [of _ BLOOM_SIZE] bit_or_iff BLOOM_SIZE_def)
  then have "bits_of c = bits_of a \<union> bits_of b" by blast
  moreover have "accrue_bloom a b = Some c"
    using assms by (simp add: accrue_bloom_def accrue_bloom_loop_spec c_def)
  ultimately show ?thesis using l by blast
qed

lemma contains_input_bits:
  assumes "length a = BLOOM_SIZE" "length (hash_bytes K inp) = 32"
  shows "contains_input K a inp = Some (bloom_bits (hash_bytes K inp) \<subseteq> bits_of a)"
  using bloom_from_input_bits [OF assms(2)] contains_bloom_bits [OF assms(1)] by (auto simp: contains_input_def)

subsection \<open>Properties\<close>

text \<open>
  C10. The bloom filter: with 32-byte hashes, \<^verbatim>\<open>accrue\<close> returns and adds exactly the bits that the first
  three pairs of bytes of the hash select (each modulo 2048), \<^verbatim>\<open>accrue_bloom\<close> is the union and
  \<^verbatim>\<open>contains_bloom\<close> the inclusion of the bit sets, \<^verbatim>\<open>contains_input\<close> tells whether the three bits are
  set. So the filter has no false negative: it contains an input after accruing it, and keeps
  containing what it contained.
\<close>

theorem bloom_filter_correct:
  assumes "length a = BLOOM_SIZE" and "length b = BLOOM_SIZE"
    and "length (hash_bytes K inp) = 32" and "length (hash_bytes K inp') = 32"
  shows "(\<exists>c. accrue K a inp = Some c \<and> length c = BLOOM_SIZE \<and>
      bits_of c = bits_of a \<union> bloom_bits (hash_bytes K inp) \<and> contains_input K c inp = Some True \<and>
      (contains_input K a inp' = Some True \<longrightarrow> contains_input K c inp' = Some True)) \<and>
    (\<exists>c. accrue_bloom a b = Some c \<and> length c = BLOOM_SIZE \<and> bits_of c = bits_of a \<union> bits_of b) \<and>
    contains_bloom a b = Some (bits_of b \<subseteq> bits_of a) \<and>
    contains_input K a inp = Some (bloom_bits (hash_bytes K inp) \<subseteq> bits_of a) \<and>
    bloom_is_empty a = (bits_of a = {})"
proof -
  obtain c where c: "accrue K a inp = Some c" "length c = BLOOM_SIZE"
    "bits_of c = bits_of a \<union> bloom_bits (hash_bytes K inp)"
    using accrue_bits [OF assms(1,3)] by blast
  have "bloom_is_empty a \<longleftrightarrow> hval a = 0"
    by (simp add: bloom_is_empty_def hval_def lval_eq_0_iff list_all_iff)
  then have "bloom_is_empty a = (bits_of a = {})" by (simp add: bits_of_def bit_eq_iff)
  moreover have "contains_input K c inp = Some True"
    "contains_input K a inp' = Some True \<longrightarrow> contains_input K c inp' = Some True"
    using contains_input_bits [OF c(2)] contains_input_bits [OF assms(1)] assms(3,4) c(3) by auto
  ultimately show ?thesis
    using c accrue_bloom_bits [OF assms(1,2)] contains_bloom_bits [OF assms(1,2)] contains_input_bits [OF assms(1,3)]
    by blast
qed

theorem bloom_filter_correct_witness:
  "\<exists>c. accrue (\<lambda>_. replicate 32 0) (hash_default BLOOM_SIZE) (Hash (replicate 32 7)) = Some c \<and>
     contains_input (\<lambda>_. replicate 32 0) c (Hash (replicate 32 7)) = Some True"
  using bloom_filter_correct [of "hash_default BLOOM_SIZE" "hash_default BLOOM_SIZE" "\<lambda>_. replicate 32 0"
      "Hash (replicate 32 7)" "Raw []"]
  by (auto simp: hash_default_def hash_zero_def hash_repeat_byte_def hash_bytes_def)

text \<open>
  The function \<^verbatim>\<open>log2\<close> is documented as the logarithm; it is the length in bits, one more. The number of
  bytes of an index that \<^verbatim>\<open>accrue\<close> computes from it is the same for both at the size of the filter.
\<close>

theorem log2_is_bit_length:
  "1 < x \<Longrightarrow> x < 2 ^ 64 \<Longrightarrow> log2 x = nat_bits x"
  by (simp add: log2_def word_leading_zeros_def unat_of_nat_lt radix_def nat_bits_le_iff)

end
