(* ===== verification/Serde_Hex.thy ===== *)
theory Serde_Hex
  imports Fixed_Hash
begin

text \<open>
  The text that integers and hashes are serialised to: the crate \<^verbatim>\<open>impl-serde\<close> (\<^verbatim>\<open>serialize.rs\<close> and the
  macros of \<^verbatim>\<open>lib.rs\<close>). A serializer is the function \<^verbatim>\<open>serialize_str\<close> applied to the text; a
  deserializer hands its text to the visitor, and the visitor is what is modelled. Text is the list of
  its UTF-8 bytes.
\<close>

subsection \<open>Writing\<close>

definition CHARS :: bytes where
  "CHARS = [48, 49, 50, 51, 52, 53, 54, 55, 56, 57, 97, 98, 99, 100, 101, 102]"

text \<open>\<^verbatim>\<open>v[i] = x\<close>\<close>

definition put_at :: "'a list \<Rightarrow> nat \<Rightarrow> 'a \<Rightarrow> 'a list may_panic" where
  "put_at v i x = (if i < length v then Some (v[i := x]) else panic)"

fun to_hex_loop :: "bytes \<Rightarrow> bytes \<Rightarrow> nat \<Rightarrow> (bytes \<times> nat) may_panic" where
  "to_hex_loop [] v idx = Some (v, idx)"
| "to_hex_loop (byte # bytes) v idx =
     do {
       a \<leftarrow> index_at CHARS (unat (drop_bit 4 byte));
       v \<leftarrow> put_at v idx a;
       b \<leftarrow> index_at CHARS (unat (byte AND 0xf));
       v \<leftarrow> put_at v (idx + 1) b;
       to_hex_loop bytes v (idx + 2) }"

definition to_hex_raw :: "bytes \<Rightarrow> bytes \<Rightarrow> bool \<Rightarrow> bytes may_panic" where
  "to_hex_raw v bytes skip_leading_zero =
     do {
       rust_assert (length v > 1 + length bytes * 2);
       v \<leftarrow> put_at v 0 48;
       v \<leftarrow> put_at v 1 120;
       let idx = 2;
       byte \<leftarrow> index_at bytes 0;
       let first_nibble = drop_bit 4 byte;
       (v, idx) \<leftarrow>
         (if first_nibble \<noteq> 0 \<or> \<not> skip_leading_zero then
            do { a \<leftarrow> index_at CHARS (unat first_nibble); v \<leftarrow> put_at v idx a; Some (v, idx + 1) }
          else Some (v, idx));
       b \<leftarrow> index_at CHARS (unat (byte AND 0xf));
       v \<leftarrow> put_at v idx b;
       (v, idx) \<leftarrow> to_hex_loop (drop 1 bytes) v (idx + 1);
       slice_range v 0 idx }"

definition to_hex :: "bytes \<Rightarrow> bool \<Rightarrow> bytes may_panic" where
  "to_hex bytes skip_leading_zero =
     (let text_of = (\<lambda>bytes. to_hex_raw (replicate ((length bytes + 1) * 2) 0) bytes skip_leading_zero) in
      if skip_leading_zero then
        let non_zero = length (takeWhile (\<lambda>b. b = 0) bytes); bytes = drop non_zero bytes in
        if bytes = [] then Some [48, 120, 48] else text_of bytes
      else if bytes = [] then Some [48, 120]
      else text_of bytes)"

definition serialize_raw :: "(bytes \<Rightarrow> 'r) \<Rightarrow> bytes \<Rightarrow> bytes \<Rightarrow> 'r may_panic" where
  "serialize_raw serialize_str slic bytes =
     (if bytes = [] then Some (serialize_str [48, 120])
      else map_option serialize_str (to_hex_raw slic bytes False))"

definition serialize :: "(bytes \<Rightarrow> 'r) \<Rightarrow> bytes \<Rightarrow> 'r may_panic" where
  "serialize serialize_str bytes =
     (let slic = replicate ((length bytes + 1) * 2) 0 in serialize_raw serialize_str slic bytes)"

definition serialize_uint :: "(bytes \<Rightarrow> 'r) \<Rightarrow> bytes \<Rightarrow> bytes \<Rightarrow> 'r may_panic" where
  "serialize_uint serialize_str slic bytes =
     (let non_zero = length (takeWhile (\<lambda>b. b = 0) bytes); bytes = drop non_zero bytes in
      if bytes = [] then Some (serialize_str [48, 120, 48])
      else map_option serialize_str (to_hex_raw slic bytes True))"

subsection \<open>Reading\<close>

datatype serde_hex_error = MissingPrefix | InvalidHex u8 nat

text \<open>The end of a round of the loop of \<^verbatim>\<open>from_hex_raw\<close>, after a digit went into \<open>buf\<close>.\<close>

definition from_hex_store :: "u8 \<Rightarrow> nat \<Rightarrow> nat \<Rightarrow> bytes \<Rightarrow> (nat \<times> nat \<times> bytes) may_panic" where
  "from_hex_store buf modulus pos bytes =
     (let modulus = modulus + 1 in
      if modulus = 2 then do { bytes \<leftarrow> put_at bytes pos buf; Some (0, pos + 1, bytes) }
      else Some (modulus, pos, bytes))"

fun from_hex_loop ::
  "bytes \<Rightarrow> nat \<Rightarrow> nat \<Rightarrow> u8 \<Rightarrow> nat \<Rightarrow> bytes \<Rightarrow> (serde_hex_error + nat \<times> bytes) may_panic" where
  "from_hex_loop [] index modulus buf pos bytes = Some (Inr (pos, bytes))"
| "from_hex_loop (byte # cs) index modulus buf pos bytes =
     (let buf = push_bit 4 buf;
          digit = (\<lambda>buf. do {
            (modulus, pos, bytes) \<leftarrow> from_hex_store buf modulus pos bytes;
            from_hex_loop cs (index + 1) modulus buf pos bytes }) in
      if 65 \<le> byte \<and> byte \<le> 70 then digit (buf OR (byte - 65 + 10))
      else if 97 \<le> byte \<and> byte \<le> 102 then digit (buf OR (byte - 97 + 10))
      else if 48 \<le> byte \<and> byte \<le> 57 then digit (buf OR (byte - 48))
      else if byte = 32 \<or> byte = 13 \<or> byte = 10 \<or> byte = 9 then
        from_hex_loop cs (index + 1) modulus (drop_bit 4 buf) pos bytes
      else Some (Inl (InvalidHex byte index)))"

definition from_hex_raw :: "bytes \<Rightarrow> bytes \<Rightarrow> (serde_hex_error + nat \<times> bytes) may_panic" where
  "from_hex_raw v bytes =
     do {
       bytes_len \<leftarrow> usize_sub (length v) 2;
       from_hex_loop (drop 2 v) 2 (bytes_len mod 2) 0 0 bytes }"

definition from_hex :: "bytes \<Rightarrow> (serde_hex_error + bytes) may_panic" where
  "from_hex v =
     (if take 2 v \<noteq> [48, 120] then Some (Inl MissingPrefix)
      else
        let bytes = replicate ((length v - 1) div 2) 0 in
        try_bind (from_hex_raw v bytes) (\<lambda>(_, bytes). Some (Inr bytes)))"

text \<open>
  What a visitor returns: \<^verbatim>\<open>E::custom\<close> of an error of the text, \<^verbatim>\<open>E::invalid_length\<close> with the length found.
\<close>

datatype de_error = Custom serde_hex_error | InvalidLength nat

datatype expected_len = Exact bytes | Between nat bytes

definition deserialize_visit_str :: "bytes \<Rightarrow> (de_error + bytes) may_panic" where
  "deserialize_visit_str v = map_option (\<lambda>r. case r of Inl e \<Rightarrow> Inl (Custom e) | Inr bs \<Rightarrow> Inr bs) (from_hex v)"

definition check_len_visit_str :: "expected_len \<Rightarrow> bytes \<Rightarrow> (de_error + nat \<times> bytes) may_panic" where
  "check_len_visit_str self_len v =
     (if take 2 v \<noteq> [48, 120] then Some (Inl (Custom MissingPrefix))
      else
        let len = length v;
            is_len_valid = (case self_len of
              Exact slic \<Rightarrow> len = 2 * length slic + 2
            | Between mn slic \<Rightarrow> len \<le> 2 * length slic + 2 \<and> len > 2 * mn + 2) in
        if \<not> is_len_valid then Some (Inl (InvalidLength (length v - 2)))
        else
          let bytes = (case self_len of Exact slic \<Rightarrow> slic | Between _ slic \<Rightarrow> slic) in
          map_option (\<lambda>r. case r of Inl e \<Rightarrow> Inl (Custom e) | Inr p \<Rightarrow> Inr p) (from_hex_raw v bytes))"

text \<open>The macros \<^verbatim>\<open>impl_uint_serde\<close> and \<^verbatim>\<open>impl_fixed_hash_serde\<close>; an integer has \<open>n\<close> words.\<close>

definition uint_serialize :: "(u64 \<Rightarrow> bytes) \<Rightarrow> (bytes \<Rightarrow> 'r) \<Rightarrow> nat \<Rightarrow> uint \<Rightarrow> 'r may_panic" where
  "uint_serialize write_u64 serialize_str n self =
     do {
       let slic = replicate (2 + 2 * n * 8) 0;
       bytes \<leftarrow> uint_to_big_endian write_u64 self (replicate (n * 8) 0);
       serialize_uint serialize_str slic bytes }"

definition uint_deserialize :: "(bytes \<Rightarrow> u64) \<Rightarrow> nat \<Rightarrow> bytes \<Rightarrow> (de_error + uint) may_panic" where
  "uint_deserialize read_u64 n v =
     try_bind (check_len_visit_str (Between 0 (replicate (n * 8) 0)) v)
       (\<lambda>(wrote, bytes). do {
          bs \<leftarrow> slice_range bytes 0 wrote;
          x \<leftarrow> uint_from_big_endian read_u64 n bs;
          Some (Inr x) })"

definition hash_serialize :: "(bytes \<Rightarrow> 'r) \<Rightarrow> fixed_hash \<Rightarrow> 'r may_panic" where
  "hash_serialize serialize_str self = serialize_raw serialize_str (replicate (2 + 2 * length self) 0) self"

definition hash_deserialize :: "nat \<Rightarrow> bytes \<Rightarrow> (de_error + fixed_hash) may_panic" where
  "hash_deserialize n v =
     try_bind (check_len_visit_str (Exact (replicate n 0)) v) (\<lambda>(_, bytes). Some (Inr bytes))"

subsection \<open>The text that is written\<close>

lemma CHARS_at: "d < (16 :: u8) \<Longrightarrow> index_at CHARS (unat d) = Some (hex_char False d)"
proof -
  assume "d < 16"
  then have "unat d \<in> set [0..<16]" by (simp add: word_less_nat_alt)
  moreover have "list_all (\<lambda>k. index_at CHARS k = Some (hex_char False (of_nat k))) [0..<16]"
    by code_simp
  ultimately show ?thesis unfolding list_all_iff by (auto dest!: bspec [of _ _ "unat d"])
qed

lemmas nibble_chars = CHARS_at [OF byte_nibbles(1)] CHARS_at [OF byte_nibbles(2)]

lemma to_hex_loop_spec:
  "idx + 2 * length bs \<le> length v \<Longrightarrow>
     to_hex_loop bs v idx = Some (take idx v @ concat (map (fmt_02x False) bs) @ drop (idx + 2 * length bs) v,
       idx + 2 * length bs)"
proof (induction bs arbitrary: v idx)
  case (Cons b bs)
  let ?v = "v[idx := hex_char False (drop_bit 4 b), idx + 1 := hex_char False (b AND 0xf)]"
  have l: "idx + 1 < length v" using Cons.prems by simp
  have t: "take (idx + 2) ?v = take idx v @ fmt_02x False b"
    using l by (intro nth_equalityI) (auto simp: fmt_02x_def nth_append nth_list_update less_Suc_eq)
  have d: "drop (idx + 2 + k) ?v = drop (idx + 2 + k) v" for k by simp
  have "to_hex_loop (b # bs) v idx = to_hex_loop bs ?v (idx + 2)"
    using l by (simp add: nibble_chars put_at_def)
  also have "\<dots> = Some (take (idx + 2) ?v @ concat (map (fmt_02x False) bs) @ drop (idx + 2 + 2 * length bs) ?v,
      idx + 2 + 2 * length bs)"
    using Cons.prems by (intro Cons.IH) simp
  finally show ?case unfolding t d by simp
qed simp

definition skip_zero :: "bool \<Rightarrow> bytes \<Rightarrow> bytes" where
  "skip_zero skip cs = (if skip \<and> cs \<noteq> [] \<and> hd cs = 48 then tl cs else cs)"

lemma hex_char_48: "d < 16 \<Longrightarrow> hex_char up d = 48 \<longleftrightarrow> d = 0"
  by (auto simp: hex_char_def word_unat_eq_iff word_less_nat_alt unat_add_radix radix_def split: if_splits)

lemma to_hex_raw_spec:
  assumes "bs \<noteq> []" "1 + 2 * length bs < length v"
  shows "to_hex_raw v bs skip = Some ([48, 120] @ skip_zero skip (concat (map (fmt_02x False) bs)))"
proof -
  obtain b bs' where bs: "bs = b # bs'" using assms(1) by (cases bs) auto
  obtain v0 v1 v2 v3 vs where v: "v = v0 # v1 # v2 # v3 # vs" "2 * length bs' \<le> length vs"
    using assms(2) bs by (auto simp: less_eq_Suc_le Suc_le_length_iff)
  have z: "hex_char False (drop_bit 4 b) = 48 \<longleftrightarrow> drop_bit 4 b = 0" by (rule hex_char_48) (rule byte_nibbles)
  have sk: "skip_zero skip (concat (map (fmt_02x False) bs)) =
      (if skip \<and> drop_bit 4 b = 0 then [] else [hex_char False (drop_bit 4 b)]) @
      [hex_char False (b AND 0xf)] @ concat (map (fmt_02x False) bs')"
    using z by (simp add: bs skip_zero_def fmt_02x_def)
  have loop: "to_hex_loop bs' (48 # 120 # w) k = Some (take k (48 # 120 # w) @ concat (map (fmt_02x False) bs') @
      drop (k + 2 * length bs') (48 # 120 # w), k + 2 * length bs')"
    if "k + 2 * length bs' \<le> 2 + length w" for w k
    using that by (intro to_hex_loop_spec) simp
  show ?thesis
    using v(2) unfolding sk
    by (cases "skip \<and> drop_bit 4 b = 0")
       (auto simp: to_hex_raw_def bs v(1) put_at_def index_at_def [of "_ # _"] nibble_chars loop slice_range_def
        fmt_hex_facts Let_def numeral_2_eq_2)
qed

subsection \<open>The text that is read\<close>

definition is_blank :: "u8 \<Rightarrow> bool" where
  "is_blank c \<longleftrightarrow> c = 32 \<or> c = 13 \<or> c = 10 \<or> c = 9"

lemma from_hex_digit:
  assumes "is_hex c"
  shows "from_hex_loop (c # cs) index modulus buf pos bytes =
    do {
      (modulus, pos, bytes) \<leftarrow> from_hex_store (push_bit 4 buf OR of_nat (hex_val c)) modulus pos bytes;
      from_hex_loop cs (index + 1) modulus (push_bit 4 buf OR of_nat (hex_val c)) pos bytes }"
proof -
  have "of_nat (hex_val c) = (if 65 \<le> c \<and> c \<le> 70 then c - 65 + 10
      else if 97 \<le> c \<and> c \<le> 102 then c - 97 + 10 else c - 48)"
    using assms
    by (auto simp: is_hex_def hex_val_def Let_def word_le_nat_alt word_unat_eq_iff unat_add_radix unat_sub_radix
        unat_of_nat_radix radix_def)
  then show ?thesis using assms by (auto simp: is_hex_def Let_def word_le_nat_alt)
qed

lemma from_hex_other:
  assumes "\<not> is_hex c"
  shows "from_hex_loop (c # cs) index modulus buf pos bytes =
    (if is_blank c then from_hex_loop cs (index + 1) modulus (drop_bit 4 (push_bit 4 buf)) pos bytes
     else Some (Inl (InvalidHex c index)))"
  using assms by (auto simp: is_hex_def is_blank_def Let_def word_le_nat_alt)

declare from_hex_loop.simps(2) [simp del]

lemma from_hex_total:
  "m \<le> 1 \<Longrightarrow> (m + length cs) div 2 + pos \<le> length bs \<Longrightarrow>
     (case find (\<lambda>(_, c). \<not> is_hex c \<and> \<not> is_blank c) (enumerate i cs) of
        Some (k, c) \<Rightarrow> from_hex_loop cs i m buf pos bs = Some (Inl (InvalidHex c k))
      | None \<Rightarrow> \<exists>p bs'. from_hex_loop cs i m buf pos bs = Some (Inr (p, bs')) \<and> length bs' = length bs)"
proof (induction cs arbitrary: i m buf pos bs)
  case (Cons c cs)
  show ?case
  proof (cases "is_hex c")
    case True
    let ?buf = "push_bit 4 buf OR of_nat (hex_val c)"
    have "from_hex_loop (c # cs) i m buf pos bs =
        (if m = 1 then from_hex_loop cs (i + 1) 0 ?buf (pos + 1) (bs[pos := ?buf])
         else from_hex_loop cs (i + 1) 1 ?buf pos bs)"
      using Cons.prems True le_Suc_eq [of m 0] by (auto simp: from_hex_digit from_hex_store_def put_at_def)
    then show ?thesis
      using Cons.IH [of 0 "pos + 1" "bs[pos := ?buf]" "i + 1" ?buf] Cons.IH [of 1 pos bs "i + 1" ?buf] Cons.prems True
      by (cases "m = 1") (auto split: option.splits)
  next
    case False
    then show ?thesis
      using Cons.IH [of m pos bs "i + 1" "drop_bit 4 (push_bit 4 buf)"] Cons.prems
      by (cases "is_blank c") (auto simp: from_hex_other split: option.splits)
  qed
qed simp

lemma two_digits:
  assumes "is_hex a" "is_hex b"
  shows "push_bit 4 (of_nat (hex_val a)) OR of_nat (hex_val b) = (of_nat (16 * hex_val a + hex_val b) :: u8)"
proof -
  have h: "hex_val a < 16" "hex_val b < 16" using assms by (auto simp: is_hex_def hex_val_def Let_def)
  then have u: "unat (of_nat (hex_val a) :: u8) = hex_val a" "unat (of_nat (hex_val b) :: u8) = hex_val b"
    by (simp_all add: unat_of_nat_lt radix_def)
  have "of_nat (hex_val b) < (16 :: u8)" using h(2) by (simp add: word_less_nat_alt u(2))
  then show ?thesis by (simp only: nibble_join u)
qed

lemma from_hex_pairs:
  "list_all is_hex cs \<Longrightarrow> even (length cs) \<Longrightarrow> pos + length cs div 2 \<le> length bs \<Longrightarrow>
     from_hex_loop cs i 0 buf pos bs = Some (Inr (pos + length cs div 2,
       take pos bs @ map of_nat (hex_pairs cs) @ drop (pos + length cs div 2) bs))"
proof (induction cs arbitrary: i buf pos bs rule: hex_pairs.induct)
  case (1 a b cs)
  define v :: u8 where "v = of_nat (16 * hex_val a + hex_val b)"
  have h: "is_hex a" "is_hex b" using "1.prems" by simp_all
  have "from_hex_loop (a # b # cs) i 0 buf pos bs = from_hex_loop cs (i + 2) 0 v (pos + 1) (bs[pos := v])"
    using "1.prems"
    by (simp add: from_hex_digit [OF h(1)] from_hex_digit [OF h(2)] from_hex_store_def put_at_def
        two_digits [OF h] v_def del: of_nat_add of_nat_mult)
  moreover have "take (Suc pos) (bs[pos := v]) = take pos bs @ [v]"
    using "1.prems" by (simp add: take_Suc_conv_app_nth)
  ultimately show ?case
    using "1.IH" [of "pos + 1" "bs[pos := v]" "i + 2" v] "1.prems" by (simp add: v_def)
qed auto

lemma from_hex_digits:
  assumes "list_all is_hex cs" "k = (length cs + 1) div 2" "k \<le> length bs"
  shows "from_hex_loop cs 2 (length cs mod 2) 0 0 bs =
    Some (Inr (k, map of_nat (hex_pairs (if even (length cs) then cs else 48 # cs)) @ drop k bs))"
proof (cases "even (length cs)")
  case True
  then show ?thesis using from_hex_pairs [of cs 0 bs 2 0] assms by (auto simp: even_iff_mod_2_eq_zero)
next
  case False
  then obtain c cs' where cs: "cs = c # cs'" "even (length cs')" by (cases cs) auto
  have ne: "bs \<noteq> []" using assms cs(1) by auto
  then have "from_hex_loop cs 2 1 0 0 bs = from_hex_loop cs' 3 0 (of_nat (hex_val c)) 1 (bs[0 := of_nat (hex_val c)])"
    using assms by (simp add: cs(1) from_hex_digit from_hex_store_def put_at_def)
  then show ?thesis
    using from_hex_pairs [of cs' 1 "bs[0 := of_nat (hex_val c)]" 3 "of_nat (hex_val c)"] assms cs ne
    by (cases bs) (auto simp: hex_val_def odd_iff_mod_2_eq_one elim!: evenE)
qed

text \<open>
  Blanks are skipped and the digits that remain are paired; \<open>pend\<close> is the digit that waits for its pair.
\<close>

lemma push_nibble: "push_bit 4 (push_bit 4 b OR x) = push_bit 4 (x :: u8)" "push_bit 4 (drop_bit 4 (push_bit 4 b)) = push_bit 4 (b :: u8)"
  by (rule bit_word_eqI; auto simp: bit_push_bit_iff bit_drop_bit_eq bit_or_iff)+

lemma from_hex_skips:
  "list_all (\<lambda>c. is_hex c \<or> is_blank c) cs \<Longrightarrow>
   (case pend of [] \<Rightarrow> m = 0 | p # ps \<Rightarrow> m = 1 \<and> ps = [] \<and> is_hex p \<and> push_bit 4 buf = push_bit 4 (of_nat (hex_val p))) \<Longrightarrow>
   es = map of_nat (hex_pairs (pend @ filter is_hex cs)) \<Longrightarrow> pos + length es \<le> length bs \<Longrightarrow>
   from_hex_loop cs i m buf pos bs = Some (Inr (pos + length es, take pos bs @ es @ drop (pos + length es) bs))"
proof (induction cs arbitrary: i m buf pos bs pend es)
  case Nil
  then show ?case by (cases pend) auto
next
  case (Cons c cs)
  show ?case
  proof (cases "is_hex c")
    case False
    then show ?thesis
      using Cons.IH [of m "drop_bit 4 (push_bit 4 buf)" pend es pos bs "i + 1"] Cons.prems
      by (simp add: from_hex_other push_nibble cong: list.case_cong)
  next
    case True
    let ?buf = "push_bit 4 buf OR of_nat (hex_val c)"
    show ?thesis
    proof (cases pend)
      case Nil
      then show ?thesis using True Cons.prems Cons.IH [of 1 ?buf "[c]" es pos bs "i + 1"]
        by (simp add: from_hex_digit from_hex_store_def push_nibble)
    next
      case (Cons p ps)
      then have p: "pend = [p]" "m = 1" "is_hex p" "?buf = of_nat (16 * hex_val p + hex_val c)"
        using Cons.prems(2) two_digits [OF _ True, of p] by simp_all
      define v :: u8 where "v = of_nat (16 * hex_val p + hex_val c)"
      define fs :: bytes where "fs = map of_nat (hex_pairs (filter is_hex cs))"
      have es: "es = v # fs" using Cons.prems(3) p(1) True by (simp add: v_def fs_def)
      then have l: "pos < length bs" "Suc pos + length fs \<le> length bs" using Cons.prems(4) by simp_all
      have "from_hex_loop (c # cs) i m buf pos bs = from_hex_loop cs (i + 1) 0 v (Suc pos) (bs[pos := v])"
        using True l(1) p(2,4) by (simp add: from_hex_digit from_hex_store_def put_at_def v_def del: of_nat_add of_nat_mult)
      also have "\<dots> = Some (Inr (Suc pos + length fs, take (Suc pos) (bs[pos := v]) @ fs @ drop (Suc pos + length fs) (bs[pos := v])))"
        using Cons.IH [of 0 v "[]" fs "Suc pos" "bs[pos := v]"] Cons.prems(1) l(2) by (simp add: fs_def)
      also have "take (Suc pos) (bs[pos := v]) = take pos bs @ [v]" using l(1) by (simp add: take_Suc_conv_app_nth)
      finally show ?thesis by (simp add: es)
    qed
  qed
qed

lemma length_hex_pairs: "length (hex_pairs cs) = length cs div 2"
  by (induction cs rule: hex_pairs.induct) auto

lemma from_hex_blanks:
  assumes "list_all (\<lambda>c. is_hex c \<or> is_blank c) cs"
    and es: "es = map of_nat (hex_pairs (if even (length cs) then filter is_hex cs else 48 # filter is_hex cs))"
  shows "from_hex ([48, 120] @ cs) = Some (Inr (es @ replicate ((length cs + 1) div 2 - length es) 0))"
proof -
  have "length (filter is_hex cs) \<le> length cs" by simp
  then have "length es \<le> (length cs + 1) div 2"
    unfolding es length_map length_hex_pairs by (intro div_le_mono) (simp add: le_SucI)
  then have "0 + length es \<le> length (replicate ((length cs + 1) div 2) (0 :: u8))" by (simp only: length_replicate add_0)
  moreover have "es = map of_nat (hex_pairs ((if even (length cs) then [] else [48]) @ filter is_hex cs))" by (simp add: es)
  ultimately have "from_hex_loop cs 2 (length cs mod 2) 0 0 (replicate ((length cs + 1) div 2) 0) =
      Some (Inr (0 + length es, take 0 (replicate ((length cs + 1) div 2) 0) @ es @ drop (0 + length es) (replicate ((length cs + 1) div 2) 0)))"
    by (intro from_hex_skips [OF assms(1)]) (auto simp: even_iff_mod_2_eq_zero odd_iff_mod_2_eq_one is_hex_def hex_val_def)
  then have "from_hex_loop cs 2 (length cs mod 2) 0 0 (replicate ((length cs + 1) div 2) 0) =
      Some (Inr (length es, es @ replicate ((length cs + 1) div 2 - length es) 0))"
    by (simp only: add_0 take_0 append_Nil drop_replicate)
  then show ?thesis by (simp add: from_hex_def from_hex_raw_def usize_sub_def)
qed

lemma find_enumerate_None:
  "find (\<lambda>(_, c). \<not> is_hex c \<and> \<not> is_blank c) (enumerate i cs) = None \<longleftrightarrow> list_all (\<lambda>c. is_hex c \<or> is_blank c) cs"
  by (induction cs arbitrary: i) auto

lemma from_hex_raw_digits:
  assumes "list_all is_hex cs" "k = (length cs + 1) div 2" "k \<le> length bs"
  shows "from_hex_raw ([48, 120] @ cs) bs =
    Some (Inr (k, map of_nat (hex_pairs (if even (length cs) then cs else 48 # cs)) @ drop k bs))"
  using from_hex_digits [OF assms] by (simp add: from_hex_raw_def usize_sub_def)

lemma is_hex_zero [simp]: "is_hex 48" "hex_val 48 = 0"
  by (simp_all add: is_hex_def hex_val_def)

lemma fmt_pairs: "map of_nat (hex_pairs (concat (map (fmt_02x up) bs))) = (bs :: bytes)"
  by (simp add: fmt_hex_facts comp_def)

text \<open>The digits of a number: what is left when leading zero bytes and a leading zero digit are skipped.\<close>

lemma skip_zero_pairs:
  assumes "bs \<noteq> []" "cs = skip_zero skip (concat (map (fmt_02x False) bs))"
  shows "list_all is_hex cs \<and> (length cs + 1) div 2 = length bs \<and>
    map of_nat (hex_pairs (if even (length cs) then cs else 48 # cs)) = bs"
proof -
  let ?t = "concat (map (fmt_02x False) bs)"
  have t: "list_all is_hex ?t" "length ?t = 2 * length bs" "map of_nat (hex_pairs ?t) = bs"
    by (rule fmt_hex_facts(1), rule fmt_hex_facts(3), rule fmt_pairs)
  show ?thesis
  proof (cases "skip \<and> ?t \<noteq> [] \<and> hd ?t = 48")
    case True
    then have "cs = tl ?t" unfolding assms(2) skip_zero_def by (rule if_P)
    moreover have "?t = 48 # tl ?t" using True by (metis list.collapse)
    ultimately have "?t = 48 # cs" by simp
    then show ?thesis using t by (auto simp del: hex_pairs.simps) presburger+
  next
    case False
    then have "cs = ?t" unfolding assms(2) skip_zero_def by (rule if_not_P)
    then show ?thesis using t by simp
  qed
qed

lemma hval_drop_zeros: "hval (dropWhile (\<lambda>b. b = 0) bs) = hval bs"
  by (induction bs) (simp_all add: hval_def lval_append)

lemma drop_takeWhile: "drop (length (takeWhile P xs)) xs = dropWhile P xs"
  by (simp add: dropWhile_eq_drop)

lemma serialize_uint_spec:
  assumes "2 + 2 * length bs \<le> length slic" "ds = dropWhile (\<lambda>b. b = 0) bs"
  shows "serialize_uint f slic bs = Some (f ([48, 120] @
    (if ds = [] then [48] else skip_zero True (concat (map (fmt_02x False) ds)))))"
proof -
  have "length ds \<le> length bs" unfolding assms(2) by (rule length_dropWhile_le)
  moreover have "serialize_uint f slic bs =
      (if ds = [] then Some (f [48, 120, 48]) else map_option f (to_hex_raw slic ds True))"
    unfolding serialize_uint_def Let_def drop_takeWhile assms(2) ..
  ultimately show ?thesis using assms(1) by (simp add: to_hex_raw_spec)
qed

subsection \<open>Properties\<close>

text \<open>
  C24. Hexadecimal text: \<^verbatim>\<open>from_hex\<close> returns the bytes from the text \<^verbatim>\<open>to_hex\<close> writes; with leading zeros
  skipped the text is read back as the bytes without leading zeros. Text without the prefix \<^verbatim>\<open>0x\<close> is refused, and after
  it the first byte that is neither a digit nor blank (space, tab, carriage return, newline) is reported with its position. Any
  other text is accepted, with exactly this result: the digits, with a zero digit before them when the number of characters is odd, are
  read in pairs from the left, a single digit at the end is dropped, and zero bytes fill the result up to half the number of characters. So digits
  alone give their value in bytes; blanks are not refused, although they are no hexadecimal digits and the documentation
  promises an error, and a text with blanks can lose a digit or gain zeros (\<open>from_hex_blank_loses_digit\<close> below).
\<close>

theorem hex_codec_correct:
  "(to_hex bs False \<bind> from_hex) = Some (Inr bs) \<and>
   (to_hex bs True \<bind> from_hex) =
     Some (Inr (case dropWhile (\<lambda>b. b = 0) bs of [] \<Rightarrow> [0] | ds \<Rightarrow> ds)) \<and>
   from_hex ([48, 120] @ cs) = Some
     (case find (\<lambda>(_, c). \<not> is_hex c \<and> \<not> is_blank c) (enumerate 2 cs) of
        Some (k, c) \<Rightarrow> Inl (InvalidHex c k)
      | None \<Rightarrow>
          let digits = (if even (length cs) then filter is_hex cs else 48 # filter is_hex cs);
              es = map of_nat (hex_pairs digits)
          in Inr (es @ replicate ((length cs + 1) div 2 - length es) 0)) \<and>
   (take 2 v \<noteq> [48, 120] \<longrightarrow> from_hex v = Some (Inl MissingPrefix))"
proof (intro conjI)
  have from_hex: "from_hex ([48, 120] @ cs) = try_bind (from_hex_raw ([48, 120] @ cs) (replicate ((length cs + 1) div 2) 0))
      (\<lambda>(_, bytes). Some (Inr bytes))" for cs
    by (simp add: from_hex_def)
  have raw: "from_hex ([48, 120] @ skip_zero skip (concat (map (fmt_02x False) ds))) = Some (Inr ds)"
    if "ds \<noteq> []" for ds skip
    using skip_zero_pairs [OF that refl, of skip]
    unfolding from_hex by (subst from_hex_raw_digits [OF _ refl]) (simp_all del: hex_pairs.simps)
  have empty: "from_hex ([48, 120] @ []) = Some (Inr [])" "from_hex ([48, 120] @ [48]) = Some (Inr [0])"
    unfolding from_hex by (subst from_hex_raw_digits [OF _ refl]; simp)+
  have wr: "to_hex_raw (replicate (Suc (length ds) * 2) 0) ds skip =
      Some ([48, 120] @ skip_zero skip (concat (map (fmt_02x False) ds)))" if "ds \<noteq> []" for ds skip
    using that by (intro to_hex_raw_spec) simp_all
  show "(to_hex bs False \<bind> from_hex) = Some (Inr bs)"
    using raw [of bs False] wr [of bs False] empty(1) by (cases "bs = []") (simp_all add: to_hex_def)
  show "(to_hex bs True \<bind> from_hex) = Some (Inr (case dropWhile (\<lambda>b. b = 0) bs of [] \<Rightarrow> [0] | ds \<Rightarrow> ds))"
  proof -
    define ds where "ds = dropWhile (\<lambda>b. b = 0) bs"
    have "to_hex bs True =
        (if ds = [] then Some [48, 120, 48] else to_hex_raw (replicate ((length ds + 1) * 2) 0) ds True)"
      by (simp only: to_hex_def Let_def drop_takeWhile ds_def [symmetric] if_True)
    then show ?thesis using raw [of ds True] wr [of ds True] empty(2)
      unfolding ds_def [symmetric] by (cases ds) simp_all
  qed
  show "from_hex ([48, 120] @ cs) = Some
     (case find (\<lambda>(_, c). \<not> is_hex c \<and> \<not> is_blank c) (enumerate 2 cs) of
        Some (k, c) \<Rightarrow> Inl (InvalidHex c k)
      | None \<Rightarrow>
          let digits = (if even (length cs) then filter is_hex cs else 48 # filter is_hex cs);
              es = map of_nat (hex_pairs digits)
          in Inr (es @ replicate ((length cs + 1) div 2 - length es) 0))"
  proof (cases "find (\<lambda>(_, c). \<not> is_hex c \<and> \<not> is_blank c) (enumerate 2 cs)")
    case None
    then have "list_all (\<lambda>c. is_hex c \<or> is_blank c) cs" by (simp only: find_enumerate_None)
    then show ?thesis unfolding None option.case Let_def by (rule from_hex_blanks) (rule refl)
  next
    case (Some x)
    have "length cs mod 2 \<le> 1" "(length cs mod 2 + length cs) div 2 + 0 \<le> length (replicate ((length cs + 1) div 2) (0 :: u8))"
      unfolding length_replicate by presburger+
    from from_hex_total [OF this, of 2 0] show ?thesis
      using Some unfolding from_hex by (auto simp: from_hex_raw_def usize_sub_def)
  qed
  show "take 2 v \<noteq> [48, 120] \<longrightarrow> from_hex v = Some (Inl MissingPrefix)" by (simp add: from_hex_def)
qed

theorem hex_codec_correct_witness:
  "(to_hex [0, 0x1f] True \<bind> from_hex) = Some (Inr [0x1f]) \<and> from_hex [49] = Some (Inl MissingPrefix) \<and>
   from_hex [48, 120, 49, 71] = Some (Inl (InvalidHex 71 3)) \<and> from_hex [48, 120, 49, 50, 51] = Some (Inr [1, 0x23])"
  using hex_codec_correct [of "[0, 0x1f]" "[49, 71]" "[49]"] hex_codec_correct [of "[]" "[49, 50, 51]" "[49]"]
  by (simp add: is_hex_def is_blank_def hex_val_def)

lemma serde_digits:
  fixes bs :: bytes
  assumes "0 < n" "length bs = 8 * n" "ds = dropWhile (\<lambda>b. b = 0) bs"
    and "cs = (if ds = [] then [48] else skip_zero True (concat (map (fmt_02x False) ds)))"
    and "k = (length cs + 1) div 2"
    and "es = map (of_nat :: nat \<Rightarrow> u8) (hex_pairs (if even (length cs) then cs else 48 # cs))"
  shows "hval es = hval bs \<and> list_all is_hex cs \<and> cs \<noteq> [] \<and> k \<le> 8 * n \<and> length es = k"
proof (cases "ds = []")
  case True
  then have "hval bs = 0" using hval_drop_zeros [of bs] unfolding assms(3) [symmetric] by (simp add: hval_def)
  then show ?thesis using True assms(1) by (simp add: assms(4-6) hval_def)
next
  case False
  have l: "length ds \<le> 8 * n" using length_dropWhile_le [of "\<lambda>b. b = 0" bs] assms(2) by (simp add: assms(3))
  have p: "list_all is_hex cs" "k = length ds" "es = ds"
    using skip_zero_pairs [OF False, of cs True] False by (simp_all add: assms(4-6))
  moreover have "cs \<noteq> []" using p(2) False by (auto simp: assms(5))
  ultimately show ?thesis using l hval_drop_zeros [of bs] by (simp add: assms(3))
qed

lemma uint_serde_roundtrip:
  assumes "big_endian_words write_u64 read_u64" "0 < n" "length x = n"
  shows "(uint_serialize write_u64 (\<lambda>t. t) n x \<bind> uint_deserialize read_u64 n) = Some (Inr x)"
proof -
  note be = assms(1)
  obtain bs where bs: "uint_to_big_endian write_u64 x (replicate (n * 8) 0) = Some bs" "length bs = 8 * n"
    "hval bs = lval x"
    using big_endian_words.to_big_endian_spec [OF be, of "replicate (n * 8) 0" x] assms(3) by (auto simp: hval_def)
  define ds where "ds = dropWhile (\<lambda>b. b = 0) bs"
  define cs where "cs = (if ds = [] then [48] else skip_zero True (concat (map (fmt_02x False) ds)))"
  define k where "k = (length cs + 1) div 2"
  define es where "es = map (of_nat :: nat \<Rightarrow> u8) (hex_pairs (if even (length cs) then cs else 48 # cs))"
  have ser: "uint_serialize write_u64 (\<lambda>t. t) n x = Some ([48, 120] @ cs)"
    using bs(1,2) serialize_uint_spec [of bs "replicate (2 + 2 * n * 8) 0" ds "\<lambda>t. t"]
    by (simp add: uint_serialize_def ds_def cs_def mult.commute)
  have v: "hval es = lval x \<and> list_all is_hex cs \<and> cs \<noteq> [] \<and> k \<le> 8 * n \<and> length es = k"
    using serde_digits [OF assms(2) bs(2) ds_def cs_def k_def es_def] bs(3) by simp
  have "from_hex_raw ([48, 120] @ cs) (replicate (n * 8) 0) = Some (Inr (k, es @ drop k (replicate (n * 8) 0)))"
    unfolding es_def using v by (intro from_hex_raw_digits) (simp_all add: k_def)
  then have "check_len_visit_str (Between 0 (replicate (n * 8) 0)) ([48, 120] @ cs)
      = Some (Inr (k, es @ drop k (replicate (n * 8) 0)))"
    using v by (auto simp: check_len_visit_str_def k_def)
  then have "uint_deserialize read_u64 n ([48, 120] @ cs) = map_option Inr (uint_from_big_endian read_u64 n es)"
    using v by (cases "uint_from_big_endian read_u64 n es") (simp_all add: uint_deserialize_def slice_range_def)
  then show ?thesis
    using v ser big_endian_words.from_big_endian_spec [OF be, of es n] assms(3) by (simp add: hval_def limbs_lval)
qed

lemma hash_serde_roundtrip:
  assumes "h \<noteq> []" "length h = n"
  shows "(hash_serialize (\<lambda>t. t) h \<bind> hash_deserialize n) = Some (Inr h)"
proof -
  let ?t = "concat (map (fmt_02x False) h)"
  have "hash_serialize (\<lambda>t. t) h = Some ([48, 120] @ ?t)"
    using assms(1) to_hex_raw_spec [of h "replicate (2 + 2 * length h) 0" False]
    by (simp add: hash_serialize_def serialize_raw_def skip_zero_def)
  moreover have "from_hex_raw ([48, 120] @ ?t) (replicate n 0) = Some (Inr (n, h))"
    using fmt_hex_facts [of False h] assms(2) fmt_pairs [of False h]
    by (subst from_hex_raw_digits [where k = n]) (simp_all del: fmt_hex_facts(2))
  ultimately show ?thesis
    using assms(2) fmt_hex_facts(3) [of False h] by (simp add: hash_deserialize_def check_len_visit_str_def)
qed

text \<open>
  C25. Serde of integers and hashes: for a word access that meets the contract of \<^verbatim>\<open>byteorder\<close>, an integer
  of \<open>n\<close> words and a hash of \<open>n\<close> bytes are read back from the text they are serialised to; text of a
  hash with another length is refused, and so is text of an integer with no digit or more digits than
  the type holds.
\<close>

theorem serde_roundtrip:
  assumes "big_endian_words write_u64 read_u64" and "0 < n" and "length x = n" and "length h = n"
    and "take 2 v = [48, 120]"
  shows "(uint_serialize write_u64 (\<lambda>t. t) n x \<bind> uint_deserialize read_u64 n) = Some (Inr x) \<and>
    (hash_serialize (\<lambda>t. t) h \<bind> hash_deserialize n) = Some (Inr h) \<and>
    (length v \<noteq> 2 * n + 2 \<longrightarrow> hash_deserialize n v = Some (Inl (InvalidLength (length v - 2)))) \<and>
    (length v = 2 \<or> 16 * n + 2 < length v \<longrightarrow>
      uint_deserialize read_u64 n v = Some (Inl (InvalidLength (length v - 2))))"
proof (intro conjI)
  show "(uint_serialize write_u64 (\<lambda>t. t) n x \<bind> uint_deserialize read_u64 n) = Some (Inr x)"
    by (rule uint_serde_roundtrip [OF assms(1-3)])
  show "(hash_serialize (\<lambda>t. t) h \<bind> hash_deserialize n) = Some (Inr h)"
    using assms(2,4) by (intro hash_serde_roundtrip) auto
qed (use assms(5) in \<open>auto simp: hash_deserialize_def uint_deserialize_def check_len_visit_str_def\<close>)

theorem serde_roundtrip_witness:
  "(uint_serialize u64_to_be_bytes (\<lambda>t. t) 1 [0x1f] \<bind> uint_deserialize u64_from_be_bytes 1) = Some (Inr [0x1f]) \<and>
   hash_deserialize 1 [48, 120] = Some (Inl (InvalidLength 0))"
  using serde_roundtrip [OF std_be.big_endian_words_axioms, of 1 "[0x1f]" "[7]" "[48, 120]"] by simp

text \<open>
  A blank in the text is skipped but counted in the length, so that the digits after it are paired
  wrongly and the last one is lost.
\<close>

theorem from_hex_blank_loses_digit: "from_hex [48, 120, 32, 49, 50] = Some (Inr [1, 0])"
  by code_simp

end
