(* ===== verification/Rlp_Spec.thy ===== *)
theory Rlp_Spec
  imports Prelude
begin

text \<open>
  What RLP is, independently of the code: an item is a byte string or a list of items, and its
  encoding is a header with the length, followed by the payload. The decoder and the encoder of the
  \<^verbatim>\<open>rlp\<close> crate (\<^verbatim>\<open>Rlp_In\<close>, \<^verbatim>\<open>Rlp_Stream\<close>) are shown to implement this encoding.
\<close>

subsection \<open>Items and their encoding\<close>

datatype item = Str bytes | Items "item list"

text \<open>The shortest big-endian representation of a number.\<close>

fun nat_be :: "nat \<Rightarrow> bytes" where
  "nat_be k = (if k = 0 then [] else nat_be (k div 256) @ [of_nat k])"

declare nat_be.simps [simp del]

definition header :: "nat \<Rightarrow> nat \<Rightarrow> bytes" where
  "header base len =
     (if len \<le> 55 then [of_nat (base + len)]
      else of_nat (base + 55 + length (nat_be len)) # nat_be len)"

fun enc :: "item \<Rightarrow> bytes" where
  "enc (Str bs) = (if length bs = 1 \<and> unat (bs ! 0) < 128 then bs else header 128 (length bs) @ bs)"
| "enc (Items xs) = header 192 (length (concat (map enc xs))) @ concat (map enc xs)"

text \<open>The payload of an item, and the items whose payload length fits into eight bytes.\<close>

definition payload :: "item \<Rightarrow> bytes" where
  "payload x = (case x of Str bs \<Rightarrow> bs | Items xs \<Rightarrow> concat (map enc xs))"

subsection \<open>Lemmas on the encoding\<close>

lemma nat_be_0 [simp]: "nat_be 0 = []"
  by (simp add: nat_be.simps)

lemma lval_nat_be: "lval (rev (nat_be k)) = k"
proof (induction k rule: nat_be.induct)
  case (1 k)
  then show ?case
    by (cases "k = 0") (simp_all add: nat_be.simps [of k] unat_of_nat_radix radix_def)
qed

lemma nat_be_hd: "0 < k \<Longrightarrow> nat_be k \<noteq> [] \<and> hd (nat_be k) \<noteq> 0"
proof (induction k rule: nat_be.induct)
  case (1 k)
  show ?case
  proof (cases "k div 256 = 0")
    case True
    then have "k < 256" by simp
    then have "unat (of_nat k :: u8) = k" by (intro unat_of_nat_lt) (simp add: radix_def)
    then show ?thesis using True 1(2) by (auto simp: nat_be.simps [of k])
  next
    case False
    then show ?thesis using 1 by (simp add: nat_be.simps [of k])
  qed
qed

lemma length_nat_be_le: "length (nat_be k) \<le> n \<longleftrightarrow> k < 256 ^ n"
proof (induction k arbitrary: n rule: nat_be.induct)
  case (1 k)
  show ?case
  proof (cases "k = 0")
    case False
    then show ?thesis
    proof (cases n)
      case (Suc m)
      have "length (nat_be k) \<le> n \<longleftrightarrow> k div 256 < 256 ^ m"
        using 1 False by (simp add: nat_be.simps [of k] Suc)
      then show ?thesis by (simp add: Suc div_less_iff_less_mult mult.commute)
    qed (simp add: nat_be.simps [of k])
  qed simp
qed

lemma nat_be_unique:
  "lval (rev bs) = k \<Longrightarrow> bs = [] \<or> hd bs \<noteq> 0 \<Longrightarrow> bs = nat_be k" for bs :: bytes
proof (induction bs arbitrary: k rule: rev_induct)
  case (snoc b bs)
  have k: "k = unat b + 256 * lval (rev bs)" using snoc.prems(1) by (simp add: radix_def)
  have d: "k div 256 = lval (rev bs)" using unat_lt_radix [of b] by (simp add: k radix_def)
  have "k \<noteq> 0"
  proof (cases bs)
    case Nil
    then show ?thesis using snoc.prems(2) k by (auto simp: unat_eq_zero)
  next
    case (Cons a as)
    then have "lval (rev bs) \<noteq> 0" using snoc.prems(2) by (simp add: lval_eq_0_iff del: neq0_conv)
    then show ?thesis by (simp add: k)
  qed
  moreover have "of_nat k = b"
    unfolding word_unat_eq_iff unat_of_nat_radix using unat_lt_radix [of b] by (simp add: k radix_def)
  moreover have "bs = nat_be (k div 256)" using snoc.IH [OF d [symmetric]] snoc.prems(2) by (cases bs) auto
  ultimately show ?case by (simp add: nat_be.simps [of k])
qed simp

end
