(* ===== verification/Rlp_In.thy ===== *)
theory Rlp_In
  imports Rlp_Spec
begin

text \<open>
  The decoder of the \<^verbatim>\<open>rlp\<close> crate (\<^verbatim>\<open>rlpin.rs\<close>, \<^verbatim>\<open>error.rs\<close> and \<^verbatim>\<open>decode_usize\<close> of
  \<^verbatim>\<open>impls.rs\<close>): headers, the view \<^verbatim>\<open>Rlp\<close> with its two caches, list access by index, the
  iterator and \<^verbatim>\<open>BasicDecoder\<close>. The cells of the view are threaded through the operations. Slicing
  and indexing may panic in the model, so that the absence of panics is something to prove.
\<close>

datatype decoder_error =
    RlpIsTooBig
  | RlpIsTooShort
  | RlpExpectedToBeList
  | RlpExpectedToBeData
  | RlpIncorrectListLen
  | RlpDataLenWithZeroPrefix
  | RlpListLenWithZeroPrefix
  | RlpInvalidIndirection
  | RlpInconsistentLengthAndData
  | RlpInvalidLength
  | Custom string

type_synonym 'a res = "(decoder_error + 'a) may_panic"

abbreviation ok :: "'a \<Rightarrow> 'a res" where
  "ok a \<equiv> Some (Inr a)"

abbreviation err :: "decoder_error \<Rightarrow> 'a res" where
  "err e \<equiv> Some (Inl e)"

subsection \<open>Headers\<close>

text \<open>
  The loop of \<^verbatim>\<open>decode_usize\<close> adds \<^verbatim>\<open>(*byte as usize) << shift\<close>; \<open>l\<close> bytes are left.
\<close>

fun decode_usize_loop :: "bytes \<Rightarrow> nat \<Rightarrow> nat may_panic" where
  "decode_usize_loop [] res = Some res"
| "decode_usize_loop (byte # bs) res =
     do {
       let shift = length bs * 8;
       res \<leftarrow> usize_add res (unat (push_bit shift (ucast byte :: u64)));
       decode_usize_loop bs res }"

definition decode_usize :: "bytes \<Rightarrow> nat res" where
  "decode_usize bs =
     (if length bs \<le> 8 then
        do {
          b \<leftarrow> index_at bs 0;
          if b = 0 then err RlpInvalidIndirection
          else do { r \<leftarrow> decode_usize_loop bs 0; ok r } }
      else err RlpIsTooBig)"

record payload_info =
  header_len :: nat
  value_len :: nat

definition payload_info_new :: "nat \<Rightarrow> nat \<Rightarrow> payload_info" where
  "payload_info_new h v = \<lparr> header_len = h, value_len = v \<rparr>"

definition payload_info_total :: "payload_info \<Rightarrow> nat may_panic" where
  "payload_info_total pi = usize_add (header_len pi) (value_len pi)"

definition calculate_payload_info :: "bytes \<Rightarrow> nat \<Rightarrow> payload_info res" where
  "calculate_payload_info header_bytes len_of_len =
     do {
       header_len \<leftarrow> usize_add 1 len_of_len;
       if length header_bytes \<le> 1 then err RlpIsTooShort
       else if header_bytes ! 1 = 0 then err RlpDataLenWithZeroPrefix
       else if length header_bytes < header_len then err RlpIsTooShort
       else do {
         s \<leftarrow> slice_range header_bytes 1 header_len;
         try_bind (decode_usize s) (\<lambda>value_len.
           if value_len \<le> 55 then err RlpInvalidIndirection
           else ok (payload_info_new header_len value_len)) } }"

definition payload_info_from :: "bytes \<Rightarrow> payload_info res" where
  "payload_info_from header_bytes =
     (case header_bytes of
        [] \<Rightarrow> err RlpIsTooShort
      | b # _ \<Rightarrow>
          let l = unat b in
          if l \<le> 0x7f then ok (payload_info_new 0 1)
          else if l \<le> 0xb7 then do { v \<leftarrow> usize_sub l 0x80; ok (payload_info_new 1 v) }
          else if l \<le> 0xbf then do { n \<leftarrow> usize_sub l 0xb7; calculate_payload_info header_bytes n }
          else if l \<le> 0xf7 then do { v \<leftarrow> usize_sub l 0xc0; ok (payload_info_new 1 v) }
          else do { n \<leftarrow> usize_sub l 0xf7; calculate_payload_info header_bytes n })"

text \<open>\<^verbatim>\<open>BasicDecoder::payload_info\<close>.\<close>

definition basic_payload_info :: "bytes \<Rightarrow> payload_info res" where
  "basic_payload_info bs =
     try_bind (payload_info_from bs) (\<lambda>item.
       case usize_add (header_len item) (value_len item) of
         Some x \<Rightarrow> if x \<le> length bs then ok item else err RlpIsTooShort
       | None \<Rightarrow> err RlpIsTooShort)"

text \<open>\<^verbatim>\<open>BasicDecoder::decode_value\<close>, with the closure it calls on the payload.\<close>

definition decode_value :: "bytes \<Rightarrow> (bytes \<Rightarrow> 'a res) \<Rightarrow> 'a res" where
  "decode_value bs f =
     (case bs of
        [] \<Rightarrow> err RlpIsTooShort
      | b # _ \<Rightarrow>
          let l = unat b in
          if l \<le> 0x7f then f [b]
          else if l \<le> 0xb7 then
            do {
              last_index_of \<leftarrow> usize_sub (1 + l) 0x80;
              if length bs < last_index_of then err RlpInconsistentLengthAndData
              else do {
                d \<leftarrow> slice_range bs 1 last_index_of;
                indirect \<leftarrow> (if l = 0x81 then do { d0 \<leftarrow> index_at d 0; Some (unat d0 < 0x80) } else Some False);
                if indirect then err RlpInvalidIndirection else f d } }
          else if l \<le> 0xbf then
            do {
              len_of_len \<leftarrow> usize_sub l 0xb7;
              let begin_of_value = 1 + len_of_len;
              if length bs < begin_of_value then err RlpInconsistentLengthAndData
              else do {
                s \<leftarrow> slice_range bs 1 begin_of_value;
                try_bind (decode_usize s) (\<lambda>len.
                  case usize_add begin_of_value len of
                    None \<Rightarrow> err RlpInvalidLength
                  | Some last_index_of_value \<Rightarrow>
                      if length bs < last_index_of_value then err RlpInconsistentLengthAndData
                      else do {
                        v \<leftarrow> slice_range bs begin_of_value last_index_of_value;
                        f v }) } }
          else err RlpExpectedToBeData)"

subsection \<open>The view\<close>

record offset_cache =
  cache_index :: nat
  cache_offset :: nat

record rlp =
  rlp_bytes :: bytes
  rlp_offset_cache :: "offset_cache option"
  rlp_count_cache :: "nat option"

text \<open>Results of operations that may change the cells of the view.\<close>

type_synonym 'a rlp_st = "((decoder_error + 'a) \<times> rlp) may_panic"

datatype prototype = Null | Data nat | ListOf nat

definition rlp_new :: "bytes \<Rightarrow> rlp" where
  "rlp_new bs = \<lparr> rlp_bytes = bs, rlp_offset_cache = None, rlp_count_cache = None \<rparr>"

definition rlp_as_raw :: "rlp \<Rightarrow> bytes" where
  "rlp_as_raw r = rlp_bytes r"

definition rlp_payload_info :: "rlp \<Rightarrow> payload_info res" where
  "rlp_payload_info r = basic_payload_info (rlp_bytes r)"

definition rlp_data :: "rlp \<Rightarrow> bytes res" where
  "rlp_data r =
     try_bind (basic_payload_info (rlp_bytes r)) (\<lambda>pi.
       do {
         e \<leftarrow> usize_add (header_len pi) (value_len pi);
         d \<leftarrow> slice_range (rlp_bytes r) (header_len pi) e;
         ok d })"

definition rlp_is_null :: "rlp \<Rightarrow> bool" where
  "rlp_is_null r = (rlp_bytes r = [])"

definition rlp_is_empty :: "rlp \<Rightarrow> bool" where
  "rlp_is_empty r = (\<not> rlp_is_null r \<and> (rlp_bytes r ! 0 = 0xc0 \<or> rlp_bytes r ! 0 = 0x80))"

definition rlp_is_list :: "rlp \<Rightarrow> bool" where
  "rlp_is_list r = (\<not> rlp_is_null r \<and> rlp_bytes r ! 0 \<ge> 0xc0)"

definition rlp_is_data :: "rlp \<Rightarrow> bool" where
  "rlp_is_data r = (\<not> rlp_is_null r \<and> rlp_bytes r ! 0 < 0xc0)"

definition rlp_is_int :: "rlp \<Rightarrow> bool may_panic" where
  "rlp_is_int r =
     (if rlp_is_null r then Some False
      else
        let b = unat (rlp_bytes r ! 0) in
        if b \<le> 0x80 then Some True
        else if b \<le> 0xb7 then do { b1 \<leftarrow> index_at (rlp_bytes r) 1; Some (b1 \<noteq> 0) }
        else if b \<le> 0xbf then
          let payload_idx = 1 + b - 0xb7 in
          if payload_idx < length (rlp_bytes r)
          then do { p \<leftarrow> index_at (rlp_bytes r) payload_idx; Some (p \<noteq> 0) }
          else Some False
        else Some False)"

definition rlp_size :: "rlp \<Rightarrow> nat may_panic" where
  "rlp_size r =
     (if rlp_is_data r then
        do {
          pi \<leftarrow> basic_payload_info (rlp_bytes r);
          Some (case pi of Inr b \<Rightarrow> value_len b | Inl _ \<Rightarrow> 0) }
      else Some 0)"

definition consume :: "bytes \<Rightarrow> nat \<Rightarrow> bytes res" where
  "consume bs len =
     (if length bs \<ge> len then do { s \<leftarrow> slice_range bs len (length bs); ok s }
      else err RlpIsTooShort)"

fun consume_items_loop :: "nat \<Rightarrow> bytes \<Rightarrow> nat \<Rightarrow> (bytes \<times> nat) res" where
  "consume_items_loop 0 result consumed = ok (result, consumed)"
| "consume_items_loop (Suc items) result consumed =
     try_bind (basic_payload_info result) (\<lambda>i.
       do {
         to_consume \<leftarrow> usize_add (header_len i) (value_len i);
         try_bind (consume result to_consume) (\<lambda>result.
           do {
             consumed \<leftarrow> usize_add consumed to_consume;
             consume_items_loop items result consumed }) })"

definition consume_items :: "bytes \<Rightarrow> nat \<Rightarrow> (bytes \<times> nat) res" where
  "consume_items bs items = consume_items_loop items bs 0"

definition consume_list_payload :: "rlp \<Rightarrow> (bytes \<times> nat) res" where
  "consume_list_payload r =
     try_bind (basic_payload_info (rlp_bytes r)) (\<lambda>item.
       do {
         e \<leftarrow> usize_add (header_len item) (value_len item);
         if length (rlp_bytes r) < e then err RlpIsTooShort
         else do {
           s \<leftarrow> slice_range (rlp_bytes r) (header_len item) e;
           ok (s, header_len item) } })"

text \<open>
  \<^verbatim>\<open>at_with_offset\<close> first finds the bytes at the index; the offset cache is set when they are found,
  even if no item starts there.
\<close>

definition locate :: "rlp \<Rightarrow> nat \<Rightarrow> (bytes \<times> nat \<times> nat) res" where
  "locate r index =
     (case rlp_offset_cache r of
        Some c \<Rightarrow>
          if cache_index c \<le> index
          then try_bind (consume (rlp_bytes r) (cache_offset c)) (\<lambda>bs. ok (bs, index - cache_index c, cache_offset c))
          else try_bind (consume_list_payload r) (\<lambda>(bs, consumed). ok (bs, index, consumed))
      | None \<Rightarrow> try_bind (consume_list_payload r) (\<lambda>(bs, consumed). ok (bs, index, consumed)))"

definition rlp_at_with_offset :: "rlp \<Rightarrow> nat \<Rightarrow> (rlp \<times> nat) rlp_st" where
  "rlp_at_with_offset r index =
     (if \<not> rlp_is_list r then Some (Inl RlpExpectedToBeList, r)
      else do {
        located \<leftarrow> try_bind (locate r index) (\<lambda>(bs, indexes_to_skip, bytes_consumed).
          try_bind (consume_items bs indexes_to_skip) (\<lambda>(bs, consumed).
            do { offset \<leftarrow> usize_add bytes_consumed consumed; ok (bs, offset) }));
        case located of
          Inl e \<Rightarrow> Some (Inl e, r)
        | Inr (bs, offset) \<Rightarrow>
            do {
              let r = r\<lparr> rlp_offset_cache := Some \<lparr> cache_index = index, cache_offset = offset \<rparr> \<rparr>;
              found \<leftarrow> basic_payload_info bs;
              case found of
                Inl e \<Rightarrow> Some (Inl e, r)
              | Inr pi \<Rightarrow>
                  do {
                    e \<leftarrow> usize_add (header_len pi) (value_len pi);
                    s \<leftarrow> slice_range bs 0 e;
                    Some (Inr (rlp_new s, offset), r) } } })"

definition rlp_at :: "rlp \<Rightarrow> nat \<Rightarrow> rlp rlp_st" where
  "rlp_at r index =
     map_option (\<lambda>(res, r). (case res of Inl e \<Rightarrow> Inl e | Inr (x, _) \<Rightarrow> Inr x, r)) (rlp_at_with_offset r index)"

text \<open>
  The iterator asks for the items one index after the other and ends at the first error;
  the result is the list of the items it yields.
\<close>

partial_function (option) rlp_iter_from :: "rlp \<Rightarrow> nat \<Rightarrow> (rlp list \<times> rlp) option" where
  "rlp_iter_from r index =
     do {
       (res, r) \<leftarrow> rlp_at r index;
       case res of
         Inl _ \<Rightarrow> Some ([], r)
       | Inr x \<Rightarrow> do { (xs, r) \<leftarrow> rlp_iter_from r (index + 1); Some (x # xs, r) } }"

definition rlp_iter :: "rlp \<Rightarrow> (rlp list \<times> rlp) may_panic" where
  "rlp_iter r = rlp_iter_from r 0"

definition rlp_item_count :: "rlp \<Rightarrow> nat rlp_st" where
  "rlp_item_count r =
     (if rlp_is_list r then
        (case rlp_count_cache r of
           Some c \<Rightarrow> Some (Inr c, r)
         | None \<Rightarrow>
             do {
               (xs, r) \<leftarrow> rlp_iter r;
               let c = length xs;
               Some (Inr c, r\<lparr> rlp_count_cache := Some c \<rparr>) })
      else Some (Inl RlpExpectedToBeList, r))"

definition rlp_prototype :: "rlp \<Rightarrow> prototype rlp_st" where
  "rlp_prototype r =
     (if rlp_is_data r then do { n \<leftarrow> rlp_size r; Some (Inr (Data n), r) }
      else if rlp_is_list r then
        map_option (\<lambda>(c, r). (case c of Inl e \<Rightarrow> Inl e | Inr n \<Rightarrow> Inr (ListOf n), r)) (rlp_item_count r)
      else Some (Inr Null, r))"

definition rlp_iterator_len :: "rlp \<Rightarrow> (nat \<times> rlp) may_panic" where
  "rlp_iterator_len r =
     map_option (\<lambda>(c, r). (case c of Inl _ \<Rightarrow> 0 | Inr n \<Rightarrow> n, r)) (rlp_item_count r)"

text \<open>
  A decoder of a type takes a view and returns the value (and the view, whose caches it may have
  filled); the views of the items of a list are fresh. \<^verbatim>\<open>as_list\<close> collects into a \<^verbatim>\<open>Result\<close>, so it
  stops at the first item that does not decode.
\<close>

type_synonym 'a decoder = "rlp \<Rightarrow> 'a rlp_st"

definition rlp_as_val :: "'a decoder \<Rightarrow> rlp \<Rightarrow> 'a rlp_st" where
  "rlp_as_val dec r = dec r"

fun collect_items :: "'a decoder \<Rightarrow> rlp list \<Rightarrow> 'a list res" where
  "collect_items dec [] = ok []"
| "collect_items dec (x # xs) =
     do {
       (res, x) \<leftarrow> rlp_as_val dec x;
       try_bind (Some res) (\<lambda>a. try_bind (collect_items dec xs) (\<lambda>as. ok (a # as))) }"

text \<open>
  The iterator is lazy in the code, which decodes each item when it is reached; decoding an item does not change the view that is
  iterated, and the iterator ends on every view, so the items are listed first here.
\<close>

definition rlp_as_list :: "'a decoder \<Rightarrow> rlp \<Rightarrow> 'a list rlp_st" where
  "rlp_as_list dec r =
     do {
       (xs, r) \<leftarrow> rlp_iter r;
       res \<leftarrow> collect_items dec xs;
       Some (res, r) }"

definition rlp_val_at :: "'a decoder \<Rightarrow> rlp \<Rightarrow> nat \<Rightarrow> 'a rlp_st" where
  "rlp_val_at dec r index =
     do {
       (res, r) \<leftarrow> rlp_at r index;
       case res of
         Inl e \<Rightarrow> Some (Inl e, r)
       | Inr x \<Rightarrow> do { (res, x) \<leftarrow> rlp_as_val dec x; Some (res, r) } }"

definition rlp_list_at :: "'a decoder \<Rightarrow> rlp \<Rightarrow> nat \<Rightarrow> 'a list rlp_st" where
  "rlp_list_at dec r index =
     do {
       (res, r) \<leftarrow> rlp_at r index;
       case res of
         Inl e \<Rightarrow> Some (Inl e, r)
       | Inr x \<Rightarrow> do { (res, x) \<leftarrow> rlp_as_list dec x; Some (res, r) } }"


subsection \<open>Lengths\<close>

lemma shifted_byte: "k < 8 \<Longrightarrow> unat (push_bit (k * 8) (ucast (b :: u8) :: u64)) = unat b * radix TYPE(8) ^ k"
proof -
  assume k: "k < 8"
  have "unat b * radix TYPE(8) ^ k < radix TYPE(8) * radix TYPE(8) ^ k"
    using unat_lt_radix [of b] by simp
  also have "\<dots> \<le> radix TYPE(8) ^ 8"
    using k power_increasing [of "Suc k" 8 "radix TYPE(8)"] by (simp add: Suc_leI)
  also have "radix TYPE(8) ^ 8 = B" by (simp add: radix_def)
  finally have "unat b * radix TYPE(8) ^ k < B" .
  moreover have "(2 :: nat) ^ (k * 8) = radix TYPE(8) ^ k" using power_mult [of "2 :: nat" 8 k] by (simp add: radix_def mult.commute)
  ultimately show ?thesis by (simp add: unat_push_bit unat_ucast_up)
qed

lemma decode_usize_loop_spec:
  "length bs \<le> 8 \<Longrightarrow> res + lval (rev bs) < B \<Longrightarrow> decode_usize_loop bs res = Some (res + lval (rev bs))"
proof (induction bs arbitrary: res)
  case (Cons b bs)
  have l: "lval (rev (b # bs)) = lval (rev bs) + unat b * radix TYPE(8) ^ length bs"
    by (simp add: lval_append mult.commute)
  then have "usize_add res (unat b * radix TYPE(8) ^ length bs) = Some (res + unat b * radix TYPE(8) ^ length bs)"
    using Cons.prems(2) by (simp add: usize_ok)
  then show ?case
    using Cons l by (simp add: shifted_byte)
qed simp

lemma lval_bytes_lt_B: "length bs \<le> 8 \<Longrightarrow> lval (rev bs) < B" for bs :: bytes
proof -
  assume "length bs \<le> 8"
  then have "radix TYPE(8) ^ length bs \<le> radix TYPE(8) ^ 8" by (intro power_increasing) (simp_all add: Suc_leI)
  moreover have "radix TYPE(8) ^ 8 = B" by (simp add: radix_def)
  ultimately show ?thesis using lval_bound [of "rev bs"] by simp
qed

lemma decode_usize_spec:
  "bs \<noteq> [] \<Longrightarrow> decode_usize bs =
     (if length bs \<le> 8 then if hd bs = 0 then err RlpInvalidIndirection else ok (lval (rev bs))
      else err RlpIsTooBig)"
  using decode_usize_loop_spec [of bs 0] lval_bytes_lt_B [of bs]
  by (auto simp: decode_usize_def index_at_ok hd_conv_nth)

lemma decode_usize_nat_be: "0 < k \<Longrightarrow> k < B \<Longrightarrow> decode_usize (nat_be k) = ok k"
proof -
  assume k: "0 < k" "k < B"
  have "length (nat_be k) \<le> 8" using k(2) by (simp add: length_nat_be_le radix_def)
  then show ?thesis using nat_be_hd [OF k(1)] by (simp add: decode_usize_spec lval_nat_be)
qed

text \<open>Whatever the bytes are, reading a header does not panic, and what it accepts lies inside them.\<close>

lemma calculate_payload_info_spec:
  assumes "0 < n" "n \<le> 8"
  shows "calculate_payload_info bs n =
    (if length bs \<le> 1 then err RlpIsTooShort
     else if bs ! 1 = 0 then err RlpDataLenWithZeroPrefix
     else if length bs < 1 + n then err RlpIsTooShort
     else
       let v = lval (rev (take n (drop 1 bs))) in
       if v \<le> 55 then err RlpInvalidIndirection else ok (payload_info_new (1 + n) v))"
proof -
  have a: "usize_add 1 n = Some (1 + n)" using assms by (simp add: usize_add_def B_eq)
  define s where "s = take n (drop 1 bs)"
  have s: "slice_range bs 1 (1 + n) = Some s" "s \<noteq> []" "length s \<le> 8" "hd s = bs ! 1"
    if "1 + n \<le> length bs"
    using that assms by (auto simp: slice_range_def s_def hd_drop_conv_nth)
  show ?thesis
    unfolding calculate_payload_info_def a Option.bind.simps s_def [symmetric]
    using s by (simp add: decode_usize_spec not_less)
qed

lemma payload_info_from_result:
  "(\<exists>e. payload_info_from bs = err e) \<or>
   (\<exists>pi. payload_info_from bs = ok pi \<and> 0 < header_len pi + value_len pi)"
proof (cases bs)
  case Nil
  then show ?thesis by (simp add: payload_info_from_def)
next
  case (Cons b bs')
  have "unat b < 256" using unat_lt_radix [of b] by (simp add: radix_def)
  then show ?thesis
    using calculate_payload_info_spec [of "unat b - 0xb7" bs] calculate_payload_info_spec [of "unat b - 0xf7" bs]
    by (auto simp: payload_info_from_def Cons usize_ok payload_info_new_def Let_def)
qed

lemma basic_payload_info_result:
  "(\<exists>e. basic_payload_info bs = err e) \<or>
   (\<exists>pi. basic_payload_info bs = ok pi \<and> 0 < header_len pi + value_len pi \<and>
      header_len pi + value_len pi \<le> length bs \<and> header_len pi + value_len pi < B)"
  using payload_info_from_result [of bs]
  by (auto simp: basic_payload_info_def usize_add_def split: if_splits)

subsection \<open>Headers of encoded items\<close>

lemma nat_be_length_bounds: "0 < k \<Longrightarrow> k < B \<Longrightarrow> 0 < length (nat_be k) \<and> length (nat_be k) \<le> 8"
  using nat_be_hd [of k] by (auto simp: length_nat_be_le radix_def)

lemma enc_not_Nil: "enc x \<noteq> []"
  by (cases x) (auto simp: header_def)

lemma payload_info_header:
  assumes base: "base = 128 \<or> base = 192" and len: "length p < B"
  shows "payload_info_from (header base (length p) @ p @ rest)
    = ok (payload_info_new (length (header base (length p))) (length p))"
proof (cases "length p \<le> 55")
  case True
  then have "unat (of_nat (base + length p) :: u8) = base + length p"
    using base by (intro unat_of_nat_lt) (auto simp: radix_def)
  then show ?thesis using True base
    by (auto simp: header_def payload_info_from_def usize_ok)
next
  case False
  let ?n = "length (nat_be (length p))"
  note n = nat_be_length_bounds [of "length p"]
  have n': "0 < ?n" "?n \<le> 8" using n len False by linarith+
  then have u: "unat (of_nat (base + 55 + ?n) :: u8) = base + 55 + ?n"
    using base by (intro unat_of_nat_lt) (auto simp: radix_def)
  have "0 < length p" using False by linarith
  from nat_be_hd [OF this] have "nat_be (length p) ! 0 \<noteq> 0" by (metis hd_conv_nth)
  then have "calculate_payload_info (header base (length p) @ p @ rest) ?n
      = ok (payload_info_new (1 + ?n) (length p))"
    using False n' by (simp add: calculate_payload_info_spec header_def nth_append lval_nat_be Let_def)
  then show ?thesis using False base n' u
    by (auto simp: header_def payload_info_from_def usize_ok)
qed

text \<open>The length of the header of an item, and what the header says about it.\<close>

definition header_size :: "item \<Rightarrow> nat" where
  "header_size x = length (enc x) - length (payload x)"

lemma enc_parts:
  "length (enc x) = header_size x + length (payload x)" "drop (header_size x) (enc x) = payload x"
  by (cases x; auto simp: header_size_def payload_def)+

lemma basic_payload_info_enc:
  assumes "length (enc x) < B"
  shows "basic_payload_info (enc x @ rest) = ok (payload_info_new (header_size x) (length (payload x)))"
proof -
  have "payload_info_from (enc x @ rest) = ok (payload_info_new (header_size x) (length (payload x)))"
  proof (cases x)
    case (Str bs)
    show ?thesis
    proof (cases "length bs = 1 \<and> unat (bs ! 0) < 128")
      case True
      then obtain b where "bs = [b]" by (cases bs) auto
      then show ?thesis using True Str by (simp add: header_size_def payload_def payload_info_from_def)
    next
      case False
      then have e: "enc x = header 128 (length bs) @ bs" by (auto simp: Str)
      then have "length bs < B" using assms by simp
      moreover have p: "payload x = bs" by (simp add: Str payload_def)
      moreover have "header_size x = length (header 128 (length bs))"
        unfolding header_size_def e p by simp
      ultimately show ?thesis using payload_info_header [of 128 bs rest] by (simp add: e)
    qed
  next
    case (Items xs)
    define p where "p = concat (map enc xs)"
    have e: "enc x = header 192 (length p) @ p" by (simp add: Items p_def)
    then have "length p < B" using assms by simp
    from payload_info_header [OF _ this, of 192 rest] show ?thesis
      by (simp add: e Items header_size_def payload_def p_def)
  qed
  then show ?thesis using assms
    by (simp add: basic_payload_info_def usize_add_def enc_parts(1) payload_info_new_def)
qed

lemma header_first_byte:
  assumes "base = 128 \<or> base = 192" and "len < B"
  shows "base \<le> unat (header base len ! 0)" and "unat (header base len ! 0) < base + 64"
proof -
  have n: "length (nat_be len) \<le> 8" if "\<not> len \<le> 55" using nat_be_length_bounds [of len] that assms(2) by simp
  have "unat (of_nat (base + len) :: u8) = base + len" if "len \<le> 55"
    using that assms(1) by (intro unat_of_nat_lt) (auto simp: radix_def)
  moreover have "unat (of_nat (base + 55 + length (nat_be len)) :: u8) = base + 55 + length (nat_be len)" if "\<not> len \<le> 55"
    using n [OF that] assms(1) by (intro unat_of_nat_lt) (auto simp: radix_def)
  ultimately show "base \<le> unat (header base len ! 0)" "unat (header base len ! 0) < base + 64"
    using n by (auto simp: header_def simp del: of_nat_add)
qed

lemma enc_kind:
  assumes "length (enc x) < B"
  shows "rlp_is_list \<lparr> rlp_bytes = enc x, rlp_offset_cache = c, rlp_count_cache = d \<rparr> \<longleftrightarrow> (\<exists>xs. x = Items xs)"
    and "rlp_is_data \<lparr> rlp_bytes = enc x, rlp_offset_cache = c, rlp_count_cache = d \<rparr> \<longleftrightarrow> (\<exists>bs. x = Str bs)"
proof -
  have "192 \<le> unat (enc x ! 0) \<longleftrightarrow> (\<exists>xs. x = Items xs)"
  proof (cases x)
    case (Str bs)
    show ?thesis
    proof (cases "length bs = 1 \<and> unat (bs ! 0) < 128")
      case False
      then have e: "enc x = header 128 (length bs) @ bs" by (auto simp: Str)
      then have "unat (enc x ! 0) < 192"
        using header_first_byte(2) [of 128 "length bs"] assms by (auto simp: nth_append header_def)
      then show ?thesis by (simp add: Str)
    qed (simp add: Str)
  next
    case (Items xs)
    define p where "p = concat (map enc xs)"
    have e: "enc x = header 192 (length p) @ p" by (simp add: Items p_def)
    then have "192 \<le> unat (enc x ! 0)"
      using header_first_byte(1) [of 192 "length p"] assms by (auto simp: nth_append header_def)
    then show ?thesis by (simp add: Items)
  qed
  then show "rlp_is_list \<lparr> rlp_bytes = enc x, rlp_offset_cache = c, rlp_count_cache = d \<rparr> \<longleftrightarrow> (\<exists>xs. x = Items xs)"
    "rlp_is_data \<lparr> rlp_bytes = enc x, rlp_offset_cache = c, rlp_count_cache = d \<rparr> \<longleftrightarrow> (\<exists>bs. x = Str bs)"
    using enc_not_Nil [of x]
    by (cases x; simp add: rlp_is_list_def rlp_is_data_def rlp_is_null_def word_le_nat_alt word_less_nat_alt)+
qed

subsection \<open>List access\<close>

text \<open>The encodings of the items before an index, and a view of an encoded list with sound caches.\<close>

definition prefix_len :: "item list \<Rightarrow> nat \<Rightarrow> nat" where
  "prefix_len xs i = length (concat (map enc (take i xs)))"

definition view_of :: "item list \<Rightarrow> rlp \<Rightarrow> bool" where
  "view_of xs r \<longleftrightarrow> rlp_bytes r = enc (Items xs) \<and> length (enc (Items xs)) < B \<and>
     (case rlp_offset_cache r of None \<Rightarrow> True
      | Some c \<Rightarrow> cache_index c \<le> length xs \<and>
          cache_offset c = header_size (Items xs) + prefix_len xs (cache_index c)) \<and>
     (case rlp_count_cache r of None \<Rightarrow> True | Some n \<Rightarrow> n = length xs)"

lemma view_of_new: "length (enc (Items xs)) < B \<Longrightarrow> view_of xs (rlp_new (enc (Items xs)))"
  by (simp add: view_of_def rlp_new_def)

lemma view_is_list: "view_of xs r \<Longrightarrow> rlp_is_list r"
  using enc_kind(1) [of "Items xs" "rlp_offset_cache r" "rlp_count_cache r"]
  by (simp add: view_of_def rlp_is_list_def rlp_is_null_def)

lemma prefix_len_mono: "i \<le> j \<Longrightarrow> prefix_len xs i \<le> prefix_len xs j"
  by (metis prefix_len_def le_add1 length_append concat_append map_append take_add le_Suc_ex)

lemma prefix_len_Suc: "i < length xs \<Longrightarrow> prefix_len xs (Suc i) = prefix_len xs i + length (enc (xs ! i))"
  by (simp add: prefix_len_def take_Suc_conv_app_nth)

lemma prefix_len_all: "length xs \<le> i \<Longrightarrow> prefix_len xs i = length (concat (map enc xs))"
  by (simp add: prefix_len_def)

lemma drop_prefix_len: "drop (prefix_len xs i) (concat (map enc xs)) = concat (map enc (drop i xs))"
proof -
  have "concat (map enc xs) = concat (map enc (take i xs)) @ concat (map enc (drop i xs))"
    by (simp flip: concat_append map_append)
  then show ?thesis by (simp add: prefix_len_def)
qed

lemma consume_ok: "len \<le> length bs \<Longrightarrow> consume bs len = ok (drop len bs)"
  by (simp add: consume_def slice_range_def)

lemma consume_items_loop_enc:
  "length (concat (map enc xs)) < B \<Longrightarrow> n + prefix_len xs k < B \<Longrightarrow>
   consume_items_loop k (concat (map enc xs)) n =
     (if k \<le> length xs then ok (concat (map enc (drop k xs)), n + prefix_len xs k) else err RlpIsTooShort)"
proof (induction k arbitrary: xs n)
  case 0
  then show ?case by (simp add: prefix_len_def)
next
  case (Suc k)
  show ?case
  proof (cases xs)
    case Nil
    then show ?thesis by (simp add: basic_payload_info_def payload_info_from_def)
  next
    case (Cons x xs')
    let ?rest = "concat (map enc xs')"
    have len: "length (enc x) + length ?rest < B" using Suc.prems(1) by (simp add: Cons)
    have pl: "prefix_len (x # xs') (Suc k) = length (enc x) + prefix_len xs' k" by (simp add: prefix_len_def)
    have "basic_payload_info (enc x @ ?rest) = ok (payload_info_new (header_size x) (length (payload x)))"
      using len by (intro basic_payload_info_enc) simp
    moreover have "usize_add (header_size x) (length (payload x)) = Some (length (enc x))"
      using len by (simp add: enc_parts(1) usize_add_def)
    moreover have "usize_add n (length (enc x)) = Some (n + length (enc x))"
      using Suc.prems(2) by (simp add: Cons pl usize_add_def)
    ultimately have "consume_items_loop (Suc k) (concat (map enc xs)) n = consume_items_loop k ?rest (n + length (enc x))"
      by (simp add: Cons consume_ok payload_info_new_def)
    then show ?thesis using Suc.IH [of xs' "n + length (enc x)"] Suc.prems(2) len
      by (simp add: pl Cons add.assoc del: consume_items_loop.simps)
  qed
qed

lemma prefix_len_le: "prefix_len xs k \<le> length (concat (map enc xs))"
  using prefix_len_mono [of k "max k (length xs)" xs] by (simp add: prefix_len_all)

lemma prefix_len_split: "c \<le> i \<Longrightarrow> prefix_len xs c + prefix_len (drop c xs) (i - c) = prefix_len xs i"
proof -
  assume "c \<le> i"
  then have "take i xs = take c xs @ take (i - c) (drop c xs)" by (metis le_add_diff_inverse take_add)
  then show ?thesis by (simp add: prefix_len_def)
qed

lemma items_bytes:
  "rlp_bytes r = enc (Items xs) \<Longrightarrow> drop (header_size (Items xs) + k) (rlp_bytes r) = drop k (concat (map enc xs))"
  "length (enc (Items xs)) = header_size (Items xs) + length (concat (map enc xs))"
  using enc_parts [of "Items xs"] by (simp_all add: payload_def add.commute flip: drop_drop)

lemma consume_list_payload_view:
  assumes "view_of xs r"
  shows "consume_list_payload r = ok (concat (map enc xs), header_size (Items xs))"
proof -
  let ?h = "header_size (Items xs)" and ?p = "concat (map enc xs)"
  have v: "rlp_bytes r = enc (Items xs)" "length (enc (Items xs)) < B"
    using assms by (simp_all add: view_of_def)
  have l: "length (enc (Items xs)) = ?h + length ?p" by (rule items_bytes(2))
  have "basic_payload_info (rlp_bytes r) = ok (payload_info_new ?h (length ?p))"
    using basic_payload_info_enc [OF v(2), of "[]"] v(1) by (simp add: payload_def)
  moreover have "slice_range (rlp_bytes r) ?h (?h + length ?p) = Some ?p"
    using items_bytes(1) [OF v(1), of 0] v(1) l by (simp add: slice_range_def)
  ultimately show ?thesis using v l by (simp add: consume_list_payload_def usize_add_def payload_info_new_def)
qed

lemma located_view:
  assumes "view_of xs r"
  shows "try_bind (locate r i) (\<lambda>(bs, indexes_to_skip, bytes_consumed).
      try_bind (consume_items bs indexes_to_skip) (\<lambda>(bs, consumed).
        do { offset \<leftarrow> usize_add bytes_consumed consumed; ok (bs, offset) })) =
    (if i \<le> length xs then ok (concat (map enc (drop i xs)), header_size (Items xs) + prefix_len xs i)
     else err RlpIsTooShort)"
proof -
  let ?h = "header_size (Items xs)" and ?p = "concat (map enc xs)"
  have v: "rlp_bytes r = enc (Items xs)" "length (enc (Items xs)) < B"
    using assms by (simp_all add: view_of_def)
  have l: "?h + length ?p < B" using v(2) by (simp only: items_bytes(2))
  have fits: "?h + prefix_len xs k < B" for k using prefix_len_le [of xs k] l by linarith
  show ?thesis
  proof (cases "\<exists>c. rlp_offset_cache r = Some c \<and> cache_index c \<le> i")
    case True
    then obtain c where c: "rlp_offset_cache r = Some c" "cache_index c \<le> i" by blast
    define ci where "ci = cache_index c"
    have ci: "ci \<le> length xs" "cache_offset c = ?h + prefix_len xs ci"
      using assms c(1) by (simp_all add: view_of_def ci_def)
    have "consume (rlp_bytes r) (cache_offset c) = ok (concat (map enc (drop ci xs)))"
      using items_bytes(1) [OF v(1), of "prefix_len xs ci"] prefix_len_le [of xs ci] items_bytes(2) [of xs] v(1)
      by (simp add: consume_ok ci drop_prefix_len)
    then have loc: "locate r i = ok (concat (map enc (drop ci xs)), i - ci, ?h + prefix_len xs ci)"
      using c by (simp add: locate_def ci_def [symmetric] ci)
    have sp: "prefix_len xs ci + prefix_len (drop ci xs) (i - ci) = prefix_len xs i"
      using c(2) by (intro prefix_len_split) (simp add: ci_def)
    have dl: "length (concat (map enc (drop ci xs))) \<le> length ?p"
      by (subst drop_prefix_len [symmetric]) simp
    have "drop (i - ci) (drop ci xs) = drop i xs" using c(2) by (simp add: ci_def)
    then have "consume_items (concat (map enc (drop ci xs))) (i - ci) =
        (if i \<le> length xs then ok (concat (map enc (drop i xs)), prefix_len (drop ci xs) (i - ci)) else err RlpIsTooShort)"
      using consume_items_loop_enc [of "drop ci xs" 0 "i - ci"] dl l fits [of i] sp c(2) ci(1)
      by (auto simp: consume_items_def ci_def simp del: drop_drop)
    then show ?thesis using fits [of i] sp by (auto simp: loc usize_add_def add.assoc)
  next
    case False
    then have loc: "locate r i = ok (?p, i, ?h)"
      using consume_list_payload_view [OF assms] by (auto simp: locate_def split: option.splits)
    show ?thesis
      using consume_items_loop_enc [of xs 0 i] l fits [of i] by (simp add: loc consume_items_def usize_add_def)
  qed
qed

lemma at_with_offset_view:
  assumes "view_of xs r"
  shows "\<exists>r'. rlp_at_with_offset r i = Some
     (if i < length xs then Inr (rlp_new (enc (xs ! i)), header_size (Items xs) + prefix_len xs i)
      else Inl RlpIsTooShort, r') \<and> view_of xs r' \<and> rlp_count_cache r' = rlp_count_cache r"
proof -
  let ?off = "header_size (Items xs) + prefix_len xs i" and ?p = "concat (map enc xs)"
  define r' where "r' = r\<lparr> rlp_offset_cache := Some \<lparr> cache_index = i, cache_offset = ?off \<rparr> \<rparr>"
  note il = view_is_list [OF assms]
  consider "i < length xs" | "i = length xs" | "length xs < i" by linarith
  then show ?thesis
  proof cases
    case 1
    then have d: "concat (map enc (drop i xs)) = enc (xs ! i) @ concat (map enc (drop (Suc i) xs))"
      by (simp flip: Cons_nth_drop_Suc)
    have "length (concat (map enc (drop i xs))) \<le> length ?p" by (subst drop_prefix_len [symmetric]) simp
    moreover have "length ?p < B" using assms items_bytes(2) [of xs] by (simp add: view_of_def)
    ultimately have len: "length (enc (xs ! i)) < B" by (simp add: d)
    note pi = basic_payload_info_enc [OF len, of "concat (map enc (drop (Suc i) xs))"]
    have "view_of xs r'" using assms 1 by (simp add: view_of_def r'_def)
    moreover have "rlp_at_with_offset r i = Some (Inr (rlp_new (enc (xs ! i)), ?off), r')"
      using il 1 pi len enc_parts(1) [of "xs ! i"]
      by (simp add: rlp_at_with_offset_def located_view [OF assms] d r'_def usize_ok slice_range_def payload_info_new_def)
    ultimately show ?thesis using 1 by (simp add: r'_def)
  next
    case 2
    have "view_of xs r'" using assms 2 by (simp add: view_of_def r'_def)
    moreover have "rlp_at_with_offset r i = Some (Inl RlpIsTooShort, r')"
      using il 2 by (simp add: rlp_at_with_offset_def located_view [OF assms] r'_def
          basic_payload_info_def payload_info_from_def)
    ultimately show ?thesis using 2 by (simp add: r'_def)
  next
    case 3
    then show ?thesis using il assms by (simp add: rlp_at_with_offset_def located_view)
  qed
qed

lemma at_view:
  assumes "view_of xs r"
  shows "\<exists>r'. rlp_at r i = Some (if i < length xs then Inr (rlp_new (enc (xs ! i))) else Inl RlpIsTooShort, r') \<and>
    view_of xs r' \<and> rlp_count_cache r' = rlp_count_cache r"
  using at_with_offset_view [OF assms, of i] by (auto simp: rlp_at_def)

lemma iter_from_view:
  "view_of xs r \<Longrightarrow> i \<le> length xs \<Longrightarrow>
     \<exists>r'. rlp_iter_from r i = Some (map (\<lambda>x. rlp_new (enc x)) (drop i xs), r') \<and> view_of xs r' \<and>
       rlp_count_cache r' = rlp_count_cache r"
proof (induction "length xs - i" arbitrary: i r)
  case 0
  then obtain r' where r': "rlp_at r i = Some (Inl RlpIsTooShort, r')" "view_of xs r'"
    "rlp_count_cache r' = rlp_count_cache r"
    using at_view [OF 0(2), of i] by auto
  then show ?case using 0 by (subst rlp_iter_from.simps) simp
next
  case (Suc k)
  then have i: "i < length xs" by simp
  then obtain r' where r': "rlp_at r i = Some (Inr (rlp_new (enc (xs ! i))), r')" "view_of xs r'"
    "rlp_count_cache r' = rlp_count_cache r"
    using at_view [OF Suc.prems(1), of i] by auto
  have "k = length xs - Suc i" using Suc.hyps(2) by simp
  then obtain r'' where r'': "rlp_iter_from r' (Suc i) = Some (map (\<lambda>x. rlp_new (enc x)) (drop (Suc i) xs), r'')"
    "view_of xs r''" "rlp_count_cache r'' = rlp_count_cache r'"
    using Suc.hyps(1) [of "Suc i" r'] i r'(2) by auto
  have "drop i xs = xs ! i # drop (Suc i) xs" using i by (simp add: Cons_nth_drop_Suc)
  then show ?case using r' r'' by (subst rlp_iter_from.simps) simp
qed

lemma iter_view:
  "view_of xs r \<Longrightarrow> \<exists>r'. rlp_iter r = Some (map (\<lambda>x. rlp_new (enc x)) xs, r') \<and> view_of xs r' \<and>
     rlp_count_cache r' = rlp_count_cache r"
  using iter_from_view [of xs r 0] by (simp add: rlp_iter_def)

lemma item_count_view:
  assumes "view_of xs r"
  shows "\<exists>r'. rlp_item_count r = Some (Inr (length xs), r') \<and> view_of xs r'"
proof (cases "rlp_count_cache r")
  case None
  obtain r' where r': "rlp_iter r = Some (map (\<lambda>x. rlp_new (enc x)) xs, r')" "view_of xs r'"
    using iter_view [OF assms] by auto
  then have "view_of xs (r'\<lparr> rlp_count_cache := Some (length xs) \<rparr>)" by (simp add: view_of_def)
  then show ?thesis using r' None view_is_list [OF assms] by (simp add: rlp_item_count_def Let_def)
next
  case (Some n)
  then show ?thesis using assms view_is_list [OF assms] by (auto simp: rlp_item_count_def view_of_def)
qed

lemma data_of_str:
  assumes "length (enc (Str bs)) < B"
  shows "rlp_data (rlp_new (enc (Str bs))) = ok bs"
proof -
  have "basic_payload_info (enc (Str bs)) = ok (payload_info_new (header_size (Str bs)) (length bs))"
    using basic_payload_info_enc [OF assms, of "[]"] by (simp add: payload_def)
  moreover have l: "length (enc (Str bs)) = header_size (Str bs) + length bs"
    and d: "drop (header_size (Str bs)) (enc (Str bs)) = bs"
    using enc_parts [of "Str bs"] by (simp_all add: payload_def del: enc.simps)
  ultimately show ?thesis using assms
    by (simp add: rlp_data_def rlp_new_def usize_ok slice_range_def payload_info_new_def del: enc.simps)
qed

subsection \<open>Arbitrary input\<close>

text \<open>
  On any bytes (of a length that fits a \<^verbatim>\<open>usize\<close>) the operations do not panic, and the iterator ends:
  every item it yields lies further inside the bytes.
\<close>

lemma consume_items_loop_any:
  "n + length bs < B \<Longrightarrow>
     (\<exists>e. consume_items_loop k bs n = err e) \<or>
     (\<exists>m. consume_items_loop k bs n = ok (drop m bs, n + m) \<and> k \<le> m \<and> m \<le> length bs)"
proof (induction k arbitrary: bs n)
  case 0
  then show ?case by auto
next
  case (Suc k)
  show ?case using basic_payload_info_result [of bs]
  proof (elim disjE exE conjE)
    fix pi :: payload_info
    let ?t = "header_len pi + value_len pi"
    assume pi: "basic_payload_info bs = ok pi" "0 < ?t" "?t \<le> length bs" "?t < B"
    have st: "consume_items_loop (Suc k) bs n = consume_items_loop k (drop ?t bs) (n + ?t)"
      using pi Suc.prems by (simp add: usize_ok consume_ok)
    have "(n + ?t) + length (drop ?t bs) < B" using pi(3) Suc.prems by simp
    from Suc.IH [OF this] show ?thesis
    proof (elim disjE exE conjE)
      fix m
      assume m: "consume_items_loop k (drop ?t bs) (n + ?t) = ok (drop m (drop ?t bs), n + ?t + m)" "k \<le> m"
        "m \<le> length (drop ?t bs)"
      have "Suc k \<le> ?t + m" using m(2) pi(2) by linarith
      moreover have "?t + m \<le> length bs" using m(3) pi(3) unfolding length_drop by linarith
      moreover have "consume_items_loop (Suc k) bs n = ok (drop (?t + m) bs, n + (?t + m))"
        using st m(1) by (simp only: drop_drop ac_simps)
      ultimately show ?thesis by blast
    qed (use st in auto)
  qed simp
qed

definition cache_sound :: "rlp \<Rightarrow> bool" where
  "cache_sound r \<longleftrightarrow> length (rlp_bytes r) < B \<and>
     (case rlp_offset_cache r of None \<Rightarrow> True | Some c \<Rightarrow> cache_offset c \<le> length (rlp_bytes r))"

lemma locate_any:
  assumes "cache_sound r"
  shows "(\<exists>e. locate r i = err e) \<or>
    (\<exists>bs k n. locate r i = ok (bs, k, n) \<and> n + length bs \<le> length (rlp_bytes r) \<and>
      (case rlp_offset_cache r of None \<Rightarrow> True
       | Some c \<Rightarrow> cache_index c \<le> i \<longrightarrow> cache_offset c + (i - cache_index c) = n + k))"
proof (cases "\<exists>c. rlp_offset_cache r = Some c \<and> cache_index c \<le> i")
  case True
  then show ?thesis using assms by (auto simp: locate_def cache_sound_def consume_ok)
next
  case False
  show ?thesis using basic_payload_info_result [of "rlp_bytes r"]
  proof (elim disjE exE conjE)
    fix pi :: payload_info
    assume "basic_payload_info (rlp_bytes r) = ok pi" "header_len pi + value_len pi \<le> length (rlp_bytes r)"
      "header_len pi + value_len pi < B"
    then have "consume_list_payload r = ok (take (value_len pi) (drop (header_len pi) (rlp_bytes r)), header_len pi)"
      by (simp add: consume_list_payload_def usize_ok slice_range_ok)
    then show ?thesis using False \<open>header_len pi + value_len pi \<le> length (rlp_bytes r)\<close>
      by (auto simp: locate_def split: option.splits)
  next
    fix e
    assume "basic_payload_info (rlp_bytes r) = err e"
    then show ?thesis using False by (auto simp: locate_def consume_list_payload_def split: option.splits)
  qed
qed

lemma at_with_offset_any:
  assumes "cache_sound r"
  shows "\<exists>res r'. rlp_at_with_offset r i = Some (res, r') \<and> rlp_bytes r' = rlp_bytes r \<and> cache_sound r' \<and>
    (\<forall>x off. res = Inr (x, off) \<longrightarrow> rlp_offset_cache r' = Some \<lparr> cache_index = i, cache_offset = off \<rparr> \<and>
       off < length (rlp_bytes r) \<and>
       (\<forall>c. rlp_offset_cache r = Some c \<longrightarrow> cache_index c < i \<longrightarrow> cache_offset c < off))"
proof (cases "rlp_is_list r")
  case False
  then show ?thesis using assms by (simp add: rlp_at_with_offset_def)
next
  case True
  have lB: "length (rlp_bytes r) < B" using assms by (simp add: cache_sound_def)
  show ?thesis using locate_any [OF assms, of i]
  proof (elim disjE exE conjE)
    fix e
    assume "locate r i = err e"
    then show ?thesis using True assms by (simp add: rlp_at_with_offset_def)
  next
    fix bs k n
    assume loc: "locate r i = ok (bs, k, n)" "n + length bs \<le> length (rlp_bytes r)"
      and adv: "case rlp_offset_cache r of None \<Rightarrow> True
       | Some c \<Rightarrow> cache_index c \<le> i \<longrightarrow> cache_offset c + (i - cache_index c) = n + k"
    have "0 + length bs < B" using loc(2) lB by linarith
    from consume_items_loop_any [OF this, of k] show ?thesis
    proof (elim disjE exE conjE)
      fix e
      assume "consume_items_loop k bs 0 = err e"
      then show ?thesis using True assms loc by (simp add: rlp_at_with_offset_def consume_items_def)
    next
      fix m
      assume m: "consume_items_loop k bs 0 = ok (drop m bs, 0 + m)" "k \<le> m" "m \<le> length bs"
      define r' where "r' = r\<lparr> rlp_offset_cache := Some \<lparr> cache_index = i, cache_offset = n + m \<rparr> \<rparr>"
      have a: "usize_add n m = Some (n + m)" using m(3) loc(2) lB by (simp add: usize_ok)
      have c': "cache_sound r'" using lB m(3) loc(2) by (simp add: cache_sound_def r'_def)
      show ?thesis using basic_payload_info_result [of "drop m bs"]
      proof (elim disjE exE conjE)
        fix e
        assume "basic_payload_info (drop m bs) = err e"
        then show ?thesis using True loc m a c'
          by (simp add: rlp_at_with_offset_def consume_items_def r'_def)
      next
        fix pi :: payload_info
        let ?t = "header_len pi + value_len pi"
        assume pi: "basic_payload_info (drop m bs) = ok pi" "0 < ?t" "?t \<le> length (drop m bs)" "?t < B"
        have "rlp_at_with_offset r i = Some (Inr (rlp_new (take ?t (drop m bs)), n + m), r')"
          using True loc m a pi by (simp add: rlp_at_with_offset_def consume_items_def r'_def usize_ok slice_range_ok)
        moreover have "n + m < length (rlp_bytes r)" using pi(2,3) loc(2) unfolding length_drop by linarith
        moreover have "cache_offset c < n + m" if "rlp_offset_cache r = Some c" "cache_index c < i" for c
          using that adv m(2) by simp
        ultimately show ?thesis using c' by (auto simp: r'_def split: option.splits)
      qed
    qed
  qed
qed

lemma iter_from_terminates:
  "cache_sound r \<Longrightarrow> rlp_offset_cache r = Some c \<Longrightarrow> cache_index c < i \<Longrightarrow>
     \<exists>xs r'. rlp_iter_from r i = Some (xs, r')"
proof (induction "length (rlp_bytes r) - cache_offset c" arbitrary: r c i rule: less_induct)
  case less
  obtain res r' where at: "rlp_at_with_offset r i = Some (res, r')" "rlp_bytes r' = rlp_bytes r" "cache_sound r'"
    "\<forall>x off. res = Inr (x, off) \<longrightarrow> rlp_offset_cache r' = Some \<lparr> cache_index = i, cache_offset = off \<rparr> \<and>
       off < length (rlp_bytes r) \<and> cache_offset c < off"
    using at_with_offset_any [OF less.prems(1), of i] less.prems(2,3) by blast
  show ?case
  proof (cases res)
    case (Inl e)
    then show ?thesis using at(1) by (subst rlp_iter_from.simps) (simp add: rlp_at_def)
  next
    case (Inr p)
    then obtain x off where p: "res = Inr (x, off)" by (cases p) auto
    define c' where "c' = \<lparr> cache_index = i, cache_offset = off \<rparr>"
    have c': "rlp_offset_cache r' = Some c'" "length (rlp_bytes r') - cache_offset c' < length (rlp_bytes r) - cache_offset c"
      "cache_index c' < i + 1"
      using at p by (auto simp: c'_def)
    obtain xs r'' where "rlp_iter_from r' (i + 1) = Some (xs, r'')"
      using less.hyps [OF c'(2) at(3) c'(1,3)] by blast
    then show ?thesis using at(1) p by (subst rlp_iter_from.simps) (simp add: rlp_at_def)
  qed
qed

lemma iter_terminates: "cache_sound r \<Longrightarrow> \<exists>xs r'. rlp_iter r = Some (xs, r')"
proof -
  assume r: "cache_sound r"
  obtain res r' where at: "rlp_at_with_offset r 0 = Some (res, r')" "cache_sound r'"
    "\<forall>x off. res = Inr (x, off) \<longrightarrow> rlp_offset_cache r' = Some \<lparr> cache_index = 0, cache_offset = off \<rparr>"
    using at_with_offset_any [OF r, of 0] by blast
  show ?thesis
  proof (cases res)
    case (Inl e)
    then show ?thesis using at(1) unfolding rlp_iter_def by (subst rlp_iter_from.simps) (simp add: rlp_at_def)
  next
    case (Inr p)
    then obtain x off where p: "res = Inr (x, off)" by (cases p) auto
    then obtain xs r'' where "rlp_iter_from r' 1 = Some (xs, r'')"
      using iter_from_terminates [OF at(2), of "\<lparr> cache_index = 0, cache_offset = off \<rparr>" 1] at(3) by auto
    then show ?thesis using at(1) p unfolding rlp_iter_def by (subst rlp_iter_from.simps) (simp add: rlp_at_def)
  qed
qed


subsection \<open>Decoding values\<close>

lemma decode_value_enc:
  assumes "length (enc (Str bs)) < B"
  shows "decode_value (enc (Str bs) @ rest) f = f bs"
proof (cases "length bs = 1 \<and> unat (bs ! 0) < 128")
  case True
  then obtain b where "bs = [b]" by (cases bs) auto
  then show ?thesis using True by (simp add: decode_value_def)
next
  case False
  then have e: "enc (Str bs) = header 128 (length bs) @ bs" by auto
  then have len: "length bs < B" using assms by simp
  show ?thesis
  proof (cases "length bs \<le> 55")
    case True
    then have u: "unat (of_nat (128 + length bs) :: u8) = 128 + length bs"
      by (intro unat_of_nat_lt) (simp add: radix_def)
    have h: "enc (Str bs) @ rest = of_nat (128 + length bs) # bs @ rest"
      using True unfolding e by (simp add: header_def)
    have "slice_range (of_nat (128 + length bs) # bs @ rest) 1 (1 + length bs) = Some bs"
      by (simp add: slice_range_def)
    moreover have "usize_sub (1 + (128 + length bs)) 128 = Some (1 + length bs)" by (simp add: usize_ok)
    moreover have "\<not> unat (bs ! 0) < 128" if "128 + length bs = 129" using False that by simp
    ultimately show ?thesis
      unfolding h decode_value_def list.case u Let_def
      using True by (auto simp: index_at_def)
  next
    case False
    let ?n = "length (nat_be (length bs))"
    have p: "0 < length bs" using False by linarith
    note n = nat_be_length_bounds [OF p len]
    have u: "unat (of_nat (183 + ?n) :: u8) = 183 + ?n"
      using n by (intro unat_of_nat_lt) (simp add: radix_def)
    have h: "enc (Str bs) @ rest = of_nat (183 + ?n) # nat_be (length bs) @ bs @ rest"
      using False unfolding e by (simp add: header_def)
    have "slice_range (of_nat (183 + ?n) # nat_be (length bs) @ bs @ rest) 1 (1 + ?n) = Some (nat_be (length bs))"
      by (simp add: slice_range_def)
    moreover have "usize_sub (183 + ?n) 183 = Some ?n" by (simp add: usize_ok)
    moreover have "usize_add (1 + ?n) (length bs) = Some (1 + ?n + length bs)"
      using assms unfolding e by (simp add: usize_add_def header_def False)
    moreover have "slice_range (of_nat (183 + ?n) # nat_be (length bs) @ bs @ rest) (1 + ?n) (1 + ?n + length bs) = Some bs"
      by (simp add: slice_range_def)
    moreover have "\<not> 183 + ?n \<le> 127" "\<not> 183 + ?n \<le> 183" "183 + ?n \<le> 191" using n by linarith+
    ultimately show ?thesis
      unfolding h decode_value_def list.case u Let_def
      by (simp add: decode_usize_nat_be [OF p len])
  qed
qed

lemma decode_value_no_panic:
  assumes "length bs < B" and "\<And>d. f d \<noteq> panic"
  shows "decode_value bs f \<noteq> panic"
proof (cases bs)
  case (Cons b bs')
  let ?l = "unat b"
  have l: "?l < 256" using unat_lt_radix [of b] by (simp add: radix_def)
  consider "?l \<le> 127" | "127 < ?l" "?l \<le> 183" | "183 < ?l" "?l \<le> 191" | "191 < ?l" by linarith
  then show ?thesis
  proof cases
    case 2
    then show ?thesis using assms(2)
      by (auto simp: decode_value_def Cons Let_def usize_ok slice_range_def index_at_def)
  next
    case 3
    define n where "n = ?l - 183"
    have n: "usize_sub ?l 183 = Some n" "0 < n" using 3 by (simp_all add: n_def usize_ok)
    define s where "s = take n (drop 1 bs)"
    show ?thesis
    proof (cases "length bs < 1 + n")
      case True
      then show ?thesis using 3 n by (simp add: decode_value_def Cons Let_def)
    next
      case False
      then have s: "slice_range bs 1 (1 + n) = Some s" "s \<noteq> []" using n(2) by (auto simp: slice_range_def s_def)
      then show ?thesis using 3 n False assms(2)
        by (auto simp: decode_value_def Cons Let_def decode_usize_spec slice_range_def usize_add_def)
    qed
  qed (use assms(2) in \<open>auto simp: decode_value_def Cons Let_def\<close>)
qed (simp add: decode_value_def)


subsection \<open>Properties\<close>

text \<open>
  C3. List access through the view of an encoded list, whatever was accessed before (any sound
  offset and count cache): \<^verbatim>\<open>at\<close> returns the view of the encoding of the item and an error outside
  the list, the iterator yields the items in order, \<^verbatim>\<open>item_count\<close> counts them, and all of them keep
  the caches sound. So the caches never change a result.
\<close>

theorem list_access_correct:
  assumes "view_of xs r"
  shows "(\<forall>i. \<exists>r'. rlp_at r i =
       Some (if i < length xs then Inr (rlp_new (enc (xs ! i))) else Inl RlpIsTooShort, r') \<and> view_of xs r') \<and>
    (\<exists>r'. rlp_iter r = Some (map (\<lambda>x. rlp_new (enc x)) xs, r') \<and> view_of xs r') \<and>
    (\<exists>r'. rlp_item_count r = Some (Inr (length xs), r') \<and> view_of xs r')"
  using at_view [OF assms] iter_view [OF assms] item_count_view [OF assms] by blast

theorem list_access_correct_witness:
  "\<exists>r'. rlp_item_count (rlp_new (enc (Items [Str [1], Items []]))) = Some (Inr 2, r')"
proof -
  have "view_of [Str [1], Items []] (rlp_new (enc (Items [Str [1], Items []])))"
    by (rule view_of_new) (simp add: header_def B_eq)
  from list_access_correct [OF this] show ?thesis by auto
qed

text \<open>
  C17. On arbitrary bytes, and whatever was accessed before, the decoder does not panic and its
  iterator ends: headers, list access at any index, iteration and decoding of a value all return a
  result or a decoding error.
\<close>

theorem decoder_total:
  assumes "cache_sound r" and "\<forall>d. f d \<noteq> panic"
  shows "basic_payload_info (rlp_bytes r) \<noteq> panic \<and> decode_value (rlp_bytes r) f \<noteq> panic \<and>
    (\<forall>i. \<exists>res r'. rlp_at_with_offset r i = Some (res, r') \<and> cache_sound r') \<and>
    (\<exists>xs r'. rlp_iter r = Some (xs, r'))"
proof -
  have "length (rlp_bytes r) < B" using assms(1) by (simp add: cache_sound_def)
  then have "decode_value (rlp_bytes r) f \<noteq> panic" using assms(2) by (intro decode_value_no_panic) auto
  moreover have "basic_payload_info (rlp_bytes r) \<noteq> panic" using basic_payload_info_result [of "rlp_bytes r"] by auto
  ultimately show ?thesis using at_with_offset_any [OF assms(1)] iter_terminates [OF assms(1)] by blast
qed

theorem decoder_total_witness:
  "basic_payload_info [0xf8, 0xff, 1] \<noteq> panic \<and> (\<exists>xs r'. rlp_iter (rlp_new [0xf8, 0xff, 1]) = Some (xs, r'))"
  using decoder_total [of "rlp_new [0xf8, 0xff, 1]" "\<lambda>d. ok d"]
  by (auto simp: cache_sound_def rlp_new_def B_eq)

text \<open>
  A single access decodes what was encoded: \<^verbatim>\<open>data\<close> and \<^verbatim>\<open>decode_value\<close> on the encoding of a
  byte string give the string (even with other bytes behind it), and the header of any encoded item
  has its exact lengths.
\<close>

theorem headers_and_data_correct:
  assumes "length (enc x) < B"
  shows "(\<exists>h. basic_payload_info (enc x @ rest) = ok (payload_info_new h (length (payload x))) \<and>
      enc x = take h (enc x) @ payload x \<and> h \<le> length (enc x)) \<and>
    (\<forall>bs. x = Str bs \<longrightarrow> rlp_data (rlp_new (enc x)) = ok bs \<and> decode_value (enc x @ rest) f = f bs)"
proof (intro conjI allI impI)
  have "enc x = take (header_size x) (enc x) @ payload x"
    using enc_parts(2) [of x] by (metis append_take_drop_id)
  then show "\<exists>h. basic_payload_info (enc x @ rest) = ok (payload_info_new h (length (payload x))) \<and>
      enc x = take h (enc x) @ payload x \<and> h \<le> length (enc x)"
    using basic_payload_info_enc [OF assms] enc_parts(1) [of x] by auto
next
  fix bs
  assume x: "x = Str bs"
  show "rlp_data (rlp_new (enc x)) = ok bs" using assms unfolding x by (rule data_of_str)
  show "decode_value (enc x @ rest) f = f bs" using assms unfolding x by (rule decode_value_enc)
qed

theorem headers_and_data_correct_witness:
  "rlp_data (rlp_new (enc (Str [0x80, 7]))) = ok [0x80, 7]"
  using headers_and_data_correct [of "Str [0x80, 7]" "[]" ok] by (simp add: header_def B_eq)

text \<open>
  The offset cache is not neutral on input with bytes behind the list: the cached path of
  \<^verbatim>\<open>at\<close> continues in the whole slice instead of the payload of the list. In \<^verbatim>\<open>[0xc1, 1, 2]\<close> the
  list has one item; asked for item 1 directly the view reports an error, after an access to item 0
  it returns the byte behind the list, and \<^verbatim>\<open>item_count\<close> is 2.
\<close>

theorem trailing_bytes_change_cached_access:
  "map_option fst (rlp_at (rlp_new [0xc1, 1, 2]) 1) = Some (Inl RlpIsTooShort) \<and>
   map_option fst (do { (_, r) \<leftarrow> rlp_at (rlp_new [0xc1, 1, 2]) 0; rlp_at r 1 }) = Some (Inr (rlp_new [2])) \<and>
   map_option fst (rlp_item_count (rlp_new [0xc1, 1, 2])) = Some (Inr 2)"
proof -
  note steps = rlp_at_def rlp_at_with_offset_def locate_def consume_def consume_items_def consume_list_payload_def
    basic_payload_info_def payload_info_from_def payload_info_new_def usize_add_def usize_sub_def slice_range_def
    rlp_is_list_def rlp_is_null_def rlp_new_def Let_def B_eq
  define r where "r i off = (rlp_new [0xc1, 1, 2])\<lparr> rlp_offset_cache := Some \<lparr> cache_index = i, cache_offset = off \<rparr> \<rparr>"
    for i off
  have a0: "rlp_at (rlp_new [0xc1, 1, 2]) 0 = Some (Inr (rlp_new [1]), r 0 1)" by (simp add: steps r_def)
  have a1: "rlp_at (r 0 1) 1 = Some (Inr (rlp_new [2]), r 1 2)" by (simp add: steps r_def)
  have a2: "rlp_at (r 1 2) 2 = Some (Inl RlpIsTooShort, r 2 3)" by (simp add: steps r_def)
  have "map_option fst (rlp_at (rlp_new [0xc1, 1, 2]) 1) = Some (Inl RlpIsTooShort)" by (simp add: steps)
  moreover have "rlp_iter (rlp_new [0xc1, 1, 2]) = Some ([rlp_new [1], rlp_new [2]], r 2 3)"
    unfolding rlp_iter_def
    by (subst rlp_iter_from.simps, simp add: a0, subst rlp_iter_from.simps, simp add: a1 [simplified],
        subst rlp_iter_from.simps, simp add: a2 [unfolded numeral_2_eq_2 One_nat_def] numeral_2_eq_2)
  then have "map_option fst (rlp_item_count (rlp_new [0xc1, 1, 2])) = Some (Inr 2)"
    by (simp add: rlp_item_count_def rlp_is_list_def rlp_is_null_def rlp_new_def Let_def)
  ultimately show ?thesis by (simp add: a0 a1 [simplified])
qed

text \<open>
  \<^verbatim>\<open>decode_value\<close> accepts a length in the long form even when the short form would do, which
  the header check of \<^verbatim>\<open>payload_info\<close> rejects as \<^verbatim>\<open>RlpInvalidIndirection\<close>: the same bytes are a value
  for one and an error for the other.
\<close>

theorem non_canonical_length_accepted:
  "decode_value [0xb8, 1, 0x85] ok = ok [0x85] \<and> rlp_data (rlp_new [0xb8, 1, 0x85]) = err RlpInvalidIndirection \<and>
   enc (Str [0x85]) = [0x81, 0x85]"
  by (simp add: decode_value_def usize_sub_def usize_add_def slice_range_def decode_usize_def index_at_def B_eq
      rlp_data_def rlp_new_def basic_payload_info_def payload_info_from_def calculate_payload_info_def header_def Let_def)

end
