(* ===== verification/Rlp_Stream.thy ===== *)
theory Rlp_Stream
  imports Rlp_In
begin

text \<open>
  The encoder of the \<^verbatim>\<open>rlp\<close> crate (\<^verbatim>\<open>stream.rs\<close>): a buffer, the position where the stream starts in
  it, and the stack of lists that still wait for items. The growable buffer \<^verbatim>\<open>BytesMut\<close> is the list
  of its bytes; the last element of the vector \<^verbatim>\<open>unfinished_lists\<close> is the head of the list here.
\<close>

record list_info =
  li_position :: nat
  li_current :: nat
  li_max :: "nat option"

record rlp_stream =
  unfinished_lists :: "list_info list"
  start_pos :: nat
  buffer :: bytes
  finished_list :: bool

subsection \<open>The basic encoder\<close>

text \<open>\<^verbatim>\<open>BasicEncoder\<close> borrows the buffer and the start position of the stream.\<close>

definition total_written :: "bytes \<Rightarrow> nat \<Rightarrow> nat may_panic" where
  "total_written buf start = usize_sub (length buf) start"

text \<open>\<^verbatim>\<open>to_be_bytes\<close> and \<^verbatim>\<open>rotate_right\<close> of the standard library.\<close>

definition to_be_bytes :: "'a::len word \<Rightarrow> bytes" where
  "to_be_bytes w = rev (limbs (LENGTH('a) div 8) (unat w))"

definition rotate_right :: "'a list \<Rightarrow> nat \<Rightarrow> 'a list may_panic" where
  "rotate_right xs k =
     (if k \<le> length xs then Some (drop (length xs - k) xs @ take (length xs - k) xs) else panic)"

definition set_at :: "'a list \<Rightarrow> nat \<Rightarrow> 'a \<Rightarrow> 'a list may_panic" where
  "set_at xs i v = (if i < length xs then Some (xs[i := v]) else panic)"

definition insert_size :: "bytes \<Rightarrow> nat \<Rightarrow> nat \<Rightarrow> nat \<Rightarrow> (u8 \<times> bytes) may_panic" where
  "insert_size buf start len position =
     do {
       let sz = (of_nat len :: u32);
       let leading_empty_bytes = word_leading_zeros sz div 8;
       size_bytes \<leftarrow> psub 4 (of_nat leading_empty_bytes :: u8);
       let be = to_be_bytes sz;
       t \<leftarrow> total_written buf start;
       rust_assert (position \<le> t);
       ext \<leftarrow> slice_range be leading_empty_bytes (length be);
       let buf = buf @ ext;
       from \<leftarrow> usize_add start position;
       tail \<leftarrow> slice_range buf from (length buf);
       tail \<leftarrow> rotate_right tail (unat size_bytes);
       Some (size_bytes, take from buf @ tail) }"

definition insert_list_payload :: "bytes \<Rightarrow> nat \<Rightarrow> nat \<Rightarrow> nat \<Rightarrow> bytes may_panic" where
  "insert_list_payload buf start len pos =
     (if len \<le> 55 then
        do {
          v \<leftarrow> padd 0xc0 (of_nat len);
          i \<leftarrow> usize_add start pos;
          i \<leftarrow> usize_sub i 1;
          set_at buf i v }
      else
        do {
          (inserted_bytes, buf) \<leftarrow> insert_size buf start len pos;
          v \<leftarrow> padd 0xf7 inserted_bytes;
          i \<leftarrow> usize_add start pos;
          i \<leftarrow> usize_sub i 1;
          set_at buf i v })"

text \<open>
  \<^verbatim>\<open>encode_iter\<close> on an iterator of known length; one of unknown length is collected first.
\<close>

definition encode_iter :: "bytes \<Rightarrow> nat \<Rightarrow> bytes \<Rightarrow> bytes may_panic" where
  "encode_iter buf start value =
     (case value of
        [] \<Rightarrow> Some (buf @ [0x80])
      | first # rest \<Rightarrow>
          let len = length value in
          if len \<le> 55 then
            if len = 1 \<and> first < 0x80 then Some (buf @ [first])
            else do {
              p \<leftarrow> padd 0x80 (of_nat len);
              Some (buf @ [p] @ [first] @ rest) }
          else
            do {
              let buf = buf @ [0];
              position \<leftarrow> total_written buf start;
              (inserted_bytes, buf) \<leftarrow> insert_size buf start len position;
              v \<leftarrow> padd 0xb7 inserted_bytes;
              i \<leftarrow> usize_add start position;
              i \<leftarrow> usize_sub i 1;
              buf \<leftarrow> set_at buf i v;
              Some (buf @ value) })"

definition encode_value :: "bytes \<Rightarrow> rlp_stream \<Rightarrow> rlp_stream may_panic" where
  "encode_value value s =
     do { buf \<leftarrow> encode_iter (buffer s) (start_pos s) value; Some (s\<lparr> buffer := buf \<rparr>) }"

subsection \<open>The stream\<close>

definition new_with_buffer :: "bytes \<Rightarrow> rlp_stream" where
  "new_with_buffer buf =
     \<lparr> unfinished_lists = [], start_pos = length buf, buffer = buf, finished_list = False \<rparr>"

definition stream_new :: rlp_stream where
  "stream_new = new_with_buffer []"

text \<open>
  \<^verbatim>\<open>note_appended\<close> closes the innermost list when its last item was appended, and then counts it as an
  item of the list around it. The loop returns the lists left open, the buffer and the flag.
\<close>

fun note_appended_loop ::
  "list_info list \<Rightarrow> nat \<Rightarrow> bytes \<Rightarrow> bool \<Rightarrow> nat \<Rightarrow> (list_info list \<times> bytes \<times> bool) may_panic" where
  "note_appended_loop [] start buf finished inserted_items = Some ([], buf, finished)"
| "note_appended_loop (x # xs) start buf finished inserted_items =
     do {
       current \<leftarrow> usize_add (li_current x) inserted_items;
       should_finish \<leftarrow> (case li_max x of
                             Some m \<Rightarrow> if current > m then panic else Some (current = m)
                           | None \<Rightarrow> Some False);
       if should_finish then
         do {
           t \<leftarrow> total_written buf start;
           len \<leftarrow> usize_sub t (li_position x);
           buf \<leftarrow> insert_list_payload buf start len (li_position x);
           (xs, buf, _) \<leftarrow> note_appended_loop xs start buf finished 1;
           Some (xs, buf, True) }
       else Some (x\<lparr> li_current := current \<rparr> # xs, buf, False) }"

definition note_appended :: "nat \<Rightarrow> rlp_stream \<Rightarrow> rlp_stream may_panic" where
  "note_appended inserted_items s =
     do {
       (ls, buf, f) \<leftarrow> note_appended_loop (unfinished_lists s) (start_pos s) (buffer s) (finished_list s) inserted_items;
       Some (s\<lparr> unfinished_lists := ls, buffer := buf, finished_list := f \<rparr>) }"

definition append_empty_data :: "rlp_stream \<Rightarrow> rlp_stream may_panic" where
  "append_empty_data s = note_appended 1 (s\<lparr> buffer := buffer s @ [0x80] \<rparr>)"

definition append_raw :: "bytes \<Rightarrow> nat \<Rightarrow> rlp_stream \<Rightarrow> rlp_stream may_panic" where
  "append_raw bs item_count s = note_appended item_count (s\<lparr> buffer := buffer s @ bs \<rparr>)"

text \<open>A type is encodable by its \<^verbatim>\<open>rlp_append\<close>, the argument of the operations below.\<close>

type_synonym 'a encodable = "'a \<Rightarrow> rlp_stream \<Rightarrow> rlp_stream may_panic"

definition stream_append :: "'a encodable \<Rightarrow> 'a \<Rightarrow> rlp_stream \<Rightarrow> rlp_stream may_panic" where
  "stream_append rlp_append value s =
     do {
       let s = s\<lparr> finished_list := False \<rparr>;
       s \<leftarrow> rlp_append value s;
       if \<not> finished_list s then note_appended 1 s else Some s }"

definition append_iter :: "bytes \<Rightarrow> rlp_stream \<Rightarrow> rlp_stream may_panic" where
  "append_iter value s =
     do {
       let s = s\<lparr> finished_list := False \<rparr>;
       s \<leftarrow> encode_value value s;
       if \<not> finished_list s then note_appended 1 s else Some s }"

definition append_internal :: "'a encodable \<Rightarrow> 'a \<Rightarrow> rlp_stream \<Rightarrow> rlp_stream may_panic" where
  "append_internal rlp_append value s = rlp_append value s"

definition begin_list :: "nat \<Rightarrow> rlp_stream \<Rightarrow> rlp_stream may_panic" where
  "begin_list len s =
     (let s = s\<lparr> finished_list := False \<rparr> in
      if len = 0 then
        do {
          s \<leftarrow> note_appended 1 (s\<lparr> buffer := buffer s @ [0xc0] \<rparr>);
          Some (s\<lparr> finished_list := True \<rparr>) }
      else
        do {
          let s = s\<lparr> buffer := buffer s @ [0] \<rparr>;
          position \<leftarrow> total_written (buffer s) (start_pos s);
          let l = \<lparr> li_position = position, li_current = 0, li_max = Some len \<rparr>;
          Some (s\<lparr> unfinished_lists := l # unfinished_lists s \<rparr>) })"

definition begin_unbounded_list :: "rlp_stream \<Rightarrow> rlp_stream may_panic" where
  "begin_unbounded_list s =
     do {
       let s = s\<lparr> finished_list := False, buffer := buffer s @ [0] \<rparr>;
       position \<leftarrow> total_written (buffer s) (start_pos s);
       let l = \<lparr> li_position = position, li_current = 0, li_max = None \<rparr>;
       Some (s\<lparr> unfinished_lists := l # unfinished_lists s \<rparr>) }"

definition finalize_unbounded_list :: "rlp_stream \<Rightarrow> rlp_stream may_panic" where
  "finalize_unbounded_list s =
     (case unfinished_lists s of
        [] \<Rightarrow> panic
      | l # ls \<Rightarrow>
          if li_max l \<noteq> None then panic
          else do {
            t \<leftarrow> total_written (buffer s) (start_pos s);
            len \<leftarrow> usize_sub t (li_position l);
            buf \<leftarrow> insert_list_payload (buffer s) (start_pos s) len (li_position l);
            s \<leftarrow> note_appended 1 (s\<lparr> unfinished_lists := ls, buffer := buf \<rparr>);
            Some (s\<lparr> finished_list := True \<rparr>) })"

fun append_all :: "'a encodable \<Rightarrow> 'a list \<Rightarrow> rlp_stream \<Rightarrow> rlp_stream may_panic" where
  "append_all rlp_append [] s = Some s"
| "append_all rlp_append (v # vs) s = do { s \<leftarrow> stream_append rlp_append v s; append_all rlp_append vs s }"

definition append_list :: "'a encodable \<Rightarrow> 'a list \<Rightarrow> rlp_stream \<Rightarrow> rlp_stream may_panic" where
  "append_list rlp_append values s =
     do { s \<leftarrow> begin_list (length values) s; append_all rlp_append values s }"

definition new_list :: "nat \<Rightarrow> rlp_stream may_panic" where
  "new_list len = begin_list len stream_new"

definition new_list_with_buffer :: "bytes \<Rightarrow> nat \<Rightarrow> rlp_stream may_panic" where
  "new_list_with_buffer buf len = begin_list len (new_with_buffer buf)"

fun estimate_loop :: "list_info list \<Rightarrow> nat \<Rightarrow> nat \<Rightarrow> nat may_panic" where
  "estimate_loop [] total_size base_size = Some base_size"
| "estimate_loop (list # ls) total_size base_size =
     do {
       len \<leftarrow> usize_sub total_size (li_position list);
       if len > 55 then
         do {
           let leading_empty_bytes = word_leading_zeros (of_nat len :: u64) div 8;
           size_bytes \<leftarrow> usize_sub 8 leading_empty_bytes;
           base_size \<leftarrow> usize_add base_size size_bytes;
           estimate_loop ls total_size base_size }
       else estimate_loop ls total_size base_size }"

definition estimate_size :: "nat \<Rightarrow> rlp_stream \<Rightarrow> nat may_panic" where
  "estimate_size add s =
     do {
       t \<leftarrow> total_written (buffer s) (start_pos s);
       total_size \<leftarrow> usize_add t add;
       estimate_loop (rev (unfinished_lists s)) total_size total_size }"

definition append_raw_checked :: "bytes \<Rightarrow> nat \<Rightarrow> nat \<Rightarrow> rlp_stream \<Rightarrow> (bool \<times> rlp_stream) may_panic" where
  "append_raw_checked bs item_count max_size s =
     do {
       n \<leftarrow> estimate_size (length bs) s;
       if n > max_size then Some (False, s)
       else do { s \<leftarrow> append_raw bs item_count s; Some (True, s) } }"

definition stream_len :: "rlp_stream \<Rightarrow> nat may_panic" where
  "stream_len s = estimate_size 0 s"

definition stream_is_empty :: "rlp_stream \<Rightarrow> bool may_panic" where
  "stream_is_empty s = do { n \<leftarrow> stream_len s; Some (n = 0) }"

definition stream_clear :: "rlp_stream \<Rightarrow> rlp_stream" where
  "stream_clear s = s\<lparr> buffer := take (start_pos s) (buffer s), unfinished_lists := [] \<rparr>"

definition is_finished :: "rlp_stream \<Rightarrow> bool" where
  "is_finished s = (unfinished_lists s = [])"

definition stream_as_raw :: "rlp_stream \<Rightarrow> bytes" where
  "stream_as_raw s = buffer s"

definition stream_out :: "rlp_stream \<Rightarrow> bytes may_panic" where
  "stream_out s = (if is_finished s then Some (buffer s) else panic)"

text \<open>\<^verbatim>\<open>Encodable::rlp_bytes\<close>, \<^verbatim>\<open>rlp::encode\<close> and \<^verbatim>\<open>rlp::encode_list\<close>.\<close>

definition rlp_bytes_of :: "'a encodable \<Rightarrow> 'a \<Rightarrow> bytes may_panic" where
  "rlp_bytes_of rlp_append value = do { s \<leftarrow> rlp_append value stream_new; stream_out s }"

definition rlp_encode :: "'a encodable \<Rightarrow> 'a \<Rightarrow> bytes may_panic" where
  "rlp_encode rlp_append object = do { s \<leftarrow> stream_append rlp_append object stream_new; stream_out s }"

definition rlp_encode_list :: "'a encodable \<Rightarrow> 'a list \<Rightarrow> bytes may_panic" where
  "rlp_encode_list rlp_append objects = do { s \<leftarrow> append_list rlp_append objects stream_new; stream_out s }"


subsection \<open>Headers in the buffer\<close>

lemma to_be_bytes_drop:
  assumes "0 < k" "k < 2 ^ 32"
  shows "drop (word_leading_zeros (of_nat k :: u32) div 8) (to_be_bytes (of_nat k :: u32)) = nat_be k"
    and "word_leading_zeros (of_nat k :: u32) div 8 = 4 - length (nat_be k)"
    and "0 < length (nat_be k)" "length (nat_be k) \<le> 4"
proof -
  have u: "unat (of_nat k :: u32) = k" using assms(2) by (intro unat_of_nat_lt) (simp add: radix_def)
  define m where "m = length (nat_be k)"
  have "0 < m" using nat_be_hd [OF assms(1)] by (simp add: m_def)
  have "m \<le> 4" unfolding m_def length_nat_be_le using assms(2) by simp
  then show "0 < length (nat_be k)" "length (nat_be k) \<le> 4" using \<open>0 < m\<close> by (simp_all add: m_def)
  have up: "nat_bits k \<le> 8 * m"
  proof -
    have "k < 256 ^ m" using length_nat_be_le [of k m] by (simp add: m_def)
    then show ?thesis by (simp add: nat_bits_le_iff power_mult)
  qed
  have lo: "\<not> nat_bits k \<le> 8 * (m - 1)"
  proof -
    have "\<not> m \<le> m - 1" using \<open>0 < m\<close> by linarith
    then have "\<not> k < 256 ^ (m - 1)" using length_nat_be_le [of k "m - 1"] by (simp add: m_def)
    then show ?thesis by (simp add: nat_bits_le_iff power_mult)
  qed
  have "word_leading_zeros (of_nat k :: u32) + nat_bits k = 32"
    using word_leading_zeros_bits [of "of_nat k :: u32"] by (simp add: u)
  then show lz: "word_leading_zeros (of_nat k :: u32) div 8 = 4 - length (nat_be k)"
    using up lo \<open>m \<le> 4\<close> \<open>0 < m\<close> unfolding m_def [symmetric] by linarith
  let ?b = "to_be_bytes (of_nat k :: u32)"
  have lb: "length ?b = 4" by (simp add: to_be_bytes_def)
  have v: "lval (rev ?b) = k" using assms(2) by (simp add: to_be_bytes_def u lval_limbs radix_def)
  have dl: "lval (rev (drop (4 - m) ?b)) = k"
  proof -
    have "rev (drop (4 - m) ?b) = take m (rev ?b)" using lb \<open>m \<le> 4\<close> by (simp add: rev_drop)
    then have "lval (rev (drop (4 - m) ?b)) = k mod radix TYPE(8) ^ m" by (simp add: lval_take v)
    then show ?thesis using length_nat_be_le [of k m] by (simp add: m_def radix_def)
  qed
  moreover have "length (drop (4 - m) ?b) = m" using lb \<open>m \<le> 4\<close> by simp
  ultimately have "rev (drop (4 - m) ?b) = rev (nat_be k)"
    by (intro lval_inject) (simp_all add: m_def lval_nat_be)
  then show "drop (word_leading_zeros (of_nat k :: u32) div 8) ?b = nat_be k"
    unfolding lz m_def [symmetric] by simp
qed

lemma insert_size_spec:
  assumes "start \<le> length a" and k: "0 < k" "k < 2 ^ 32" and "length a < B"
  shows "insert_size (a @ p) start k (length a - start) =
    Some (of_nat (length (nat_be k)), a @ nat_be k @ p)"
proof -
  let ?m = "length (nat_be k)"
  note b = to_be_bytes_drop [OF k]
  have m: "psub 4 (of_nat (4 - ?m) :: u8) = Some (of_nat ?m)"
  proof -
    have "unat (of_nat (4 - ?m) :: u8) = 4 - ?m" by (intro unat_of_nat_lt) (simp add: radix_def)
    then show ?thesis using b(4) by (simp add: psub_ok)
  qed
  have um: "unat (of_nat ?m :: u8) = ?m" using b(4) by (intro unat_of_nat_lt) (simp add: radix_def)
  have "slice_range (to_be_bytes (of_nat k :: u32)) (4 - ?m) (length (to_be_bytes (of_nat k :: u32))) = Some (nat_be k)"
    using b(1,4) unfolding b(2) by (simp add: slice_range_def to_be_bytes_def)
  moreover have "total_written (a @ p) start = Some (length a + length p - start)"
    using assms(1) by (simp add: total_written_def usize_ok)
  moreover have "usize_add start (length a - start) = Some (length a)" using assms(1,4) by (simp add: usize_add_def)
  moreover have "rotate_right (p @ nat_be k) ?m = Some (nat_be k @ p)" by (simp add: rotate_right_def)
  moreover have "slice_range ((a @ p) @ nat_be k) (length a) (length ((a @ p) @ nat_be k)) = Some (p @ nat_be k)"
    by (simp add: slice_range_def)
  moreover have "length a - start \<le> length a + length p - start" by simp
  ultimately show ?thesis
    unfolding insert_size_def Let_def b(2) m um by (simp add: um)
qed

lemma insert_list_payload_spec:
  assumes "start \<le> length a" and "length p < 2 ^ 32" and "Suc (length a) < B"
  shows "insert_list_payload (a @ 0 # p) start (length p) (Suc (length a) - start) =
    Some (a @ header 192 (length p) @ p)"
proof -
  have ix: "usize_add start (Suc (length a) - start) = Some (Suc (length a))"
    "usize_sub (Suc (length a)) 1 = Some (length a)"
    using assms by (simp_all add: usize_add_def usize_sub_def)
  show ?thesis
  proof (cases "length p \<le> 55")
    case True
    have "unat (of_nat (length p) :: u8) = length p" using True by (intro unat_of_nat_lt) (simp add: radix_def)
    then have "padd 0xc0 (of_nat (length p) :: u8) = Some (of_nat (192 + length p))"
      using True by (simp add: padd_ok radix_def)
    then show ?thesis using True ix by (simp add: insert_list_payload_def set_at_def header_def list_update_append)
  next
    case False
    let ?m = "length (nat_be (length p))"
    have k: "0 < length p" using False by linarith
    have i: "insert_size ((a @ [0]) @ p) start (length p) (length (a @ [0]) - start)
        = Some (of_nat ?m, (a @ [0]) @ nat_be (length p) @ p)"
      using assms by (intro insert_size_spec k) simp_all
    have "unat (of_nat ?m :: u8) = ?m"
      using to_be_bytes_drop(4) [OF k assms(2)] by (intro unat_of_nat_lt) (simp add: radix_def)
    then have "padd 0xf7 (of_nat ?m :: u8) = Some (of_nat (192 + 55 + ?m))"
      using to_be_bytes_drop(4) [OF k assms(2)] by (simp add: padd_ok radix_def)
    then show ?thesis using False ix i
      by (simp add: insert_list_payload_def set_at_def header_def list_update_append)
  qed
qed

lemma encode_iter_spec:
  assumes "start \<le> length buf" and "length v < 2 ^ 32" and "Suc (length buf) < B"
  shows "encode_iter buf start v = Some (buf @ enc (Str v))"
proof (cases v)
  case Nil
  then show ?thesis by (simp add: encode_iter_def header_def)
next
  case (Cons first rest)
  show ?thesis
  proof (cases "length v \<le> 55")
    case True
    have "unat (of_nat (length v) :: u8) = length v" using True by (intro unat_of_nat_lt) (simp add: radix_def)
    then have "padd 0x80 (of_nat (length v) :: u8) = Some (of_nat (128 + length v))"
      using True by (simp add: padd_ok radix_def)
    then show ?thesis using True by (auto simp: encode_iter_def header_def Cons word_less_nat_alt)
  next
    case False
    let ?m = "length (nat_be (length v))"
    have k: "0 < length v" using False by linarith
    have i: "insert_size ((buf @ [0]) @ []) start (length v) (length (buf @ [0]) - start)
        = Some (of_nat ?m, (buf @ [0]) @ nat_be (length v) @ [])"
      using assms by (intro insert_size_spec k) simp_all
    have "unat (of_nat ?m :: u8) = ?m"
      using to_be_bytes_drop(4) [OF k assms(2)] by (intro unat_of_nat_lt) (simp add: radix_def)
    then have "padd 0xb7 (of_nat ?m :: u8) = Some (of_nat (128 + 55 + ?m))"
      using to_be_bytes_drop(4) [OF k assms(2)] by (simp add: padd_ok radix_def)
    moreover have "usize_add start (Suc (length buf) - start) = Some (Suc (length buf))"
      "usize_sub (Suc (length buf)) 1 = Some (length buf)"
      using assms by (simp_all add: usize_add_def usize_sub_def)
    ultimately show ?thesis using False i assms(1)
      by (auto simp: encode_iter_def Cons Let_def set_at_def header_def list_update_append total_written_def usize_ok)
  qed
qed


subsection \<open>Appending items\<close>

text \<open>
  Two streams are compared up to the flag \<^verbatim>\<open>finished_list\<close>, which \<^verbatim>\<open>append\<close> resets before it looks at
  it. An item is appended when its encoding stands at the end of the buffer and is counted in the
  innermost open list.
\<close>

definition clear_flag :: "rlp_stream \<Rightarrow> rlp_stream" where
  "clear_flag s = s\<lparr> finished_list := False \<rparr>"

definition set_flag :: "rlp_stream \<Rightarrow> rlp_stream" where
  "set_flag s = s\<lparr> finished_list := True \<rparr>"

definition push_item :: "item \<Rightarrow> rlp_stream \<Rightarrow> rlp_stream may_panic" where
  "push_item x s = note_appended 1 (s\<lparr> buffer := buffer s @ enc x \<rparr>)"

definition room :: "rlp_stream \<Rightarrow> nat \<Rightarrow> bool" where
  "room s n \<longleftrightarrow> start_pos s \<le> length (buffer s) \<and> length (buffer s) + n < B"

text \<open>
  What an implementation of \<^verbatim>\<open>rlp_append\<close> may do for an item: put its bytes into the buffer and leave
  the counting to \<^verbatim>\<open>append\<close>, or append it as a complete list.
\<close>

definition writes :: "(rlp_stream \<Rightarrow> rlp_stream may_panic) \<Rightarrow> item \<Rightarrow> bool" where
  "writes w x \<longleftrightarrow> (\<forall>s. room s (length (enc x)) \<longrightarrow>
     w s = Some (s\<lparr> buffer := buffer s @ enc x \<rparr>) \<or> w s = map_option set_flag (push_item x s))"

definition small :: "item \<Rightarrow> bool" where
  "small x \<longleftrightarrow> length (enc x) < 2 ^ 32"

lemma flag_simps [simp]:
  "clear_flag (clear_flag s) = clear_flag s" "clear_flag (set_flag s) = clear_flag s"
  "finished_list (set_flag s)" "\<not> finished_list (clear_flag s)"
  "buffer (clear_flag s) = buffer s" "start_pos (clear_flag s) = start_pos s"
  "unfinished_lists (clear_flag s) = unfinished_lists s"
  "buffer (set_flag s) = buffer s" "unfinished_lists (set_flag s) = unfinished_lists s"
  by (simp_all add: clear_flag_def set_flag_def)

lemma note_appended_loop_flag:
  "map_option (\<lambda>(ls, b, f). (ls, b)) (note_appended_loop ls start buf f k)
     = map_option (\<lambda>(ls, b, f). (ls, b)) (note_appended_loop ls start buf g k)"
proof (induction ls arbitrary: buf k)
  case (Cons x ls)
  show ?case
  proof (cases "usize_add (li_current x) k")
    case (Some c)
    have IH: "map_option (\<lambda>(ls, b, f). (ls, b)) (note_appended_loop ls start buf f 1)
        = map_option (\<lambda>(ls, b, f). (ls, b)) (note_appended_loop ls start buf g 1)" for buf by (rule Cons)
    have "map_option (\<lambda>(ls, b, f). (ls, b)) (note_appended_loop ls start buf f 1 \<bind> (\<lambda>(xs, buf, _). Some (xs, buf, True)))
       = map_option (\<lambda>(ls, b, f). (ls, b)) (note_appended_loop ls start buf g 1 \<bind> (\<lambda>(xs, buf, _). Some (xs, buf, True)))" for buf
      using IH [of buf] by (cases "note_appended_loop ls start buf f 1"; cases "note_appended_loop ls start buf g 1") auto
    then show ?thesis using Some
      by (auto simp: Option.bind_map_option comp_def split: option.splits Option.bind_splits)
  qed simp
qed simp

lemma note_appended_clear:
  "map_option clear_flag (note_appended k (s\<lparr> finished_list := f \<rparr>)) = map_option clear_flag (note_appended k s)"
proof -
  let ?L = "\<lambda>f. note_appended_loop (unfinished_lists s) (start_pos s) (buffer s) f k"
  have "map_option (\<lambda>(ls, b, f). (ls, b)) (?L f) = map_option (\<lambda>(ls, b, f). (ls, b)) (?L (finished_list s))"
    by (rule note_appended_loop_flag)
  then show ?thesis
    by (cases "?L f"; cases "?L (finished_list s)")
       (auto simp: note_appended_def clear_flag_def)
qed

lemma push_item_clear:
  "map_option clear_flag (push_item x (s\<lparr> finished_list := f \<rparr>)) = map_option clear_flag (push_item x s)"
  using note_appended_clear [of 1 f "s\<lparr> buffer := buffer s @ enc x \<rparr>"] by (cases s) (simp add: push_item_def)

lemma push_item_open:
  assumes "unfinished_lists s = l # ls" "li_max l = Some n" "li_current l + 1 < n" "n < B"
  shows "push_item x s = Some (s\<lparr> buffer := buffer s @ enc x,
    unfinished_lists := l\<lparr> li_current := li_current l + 1 \<rparr> # ls, finished_list := False \<rparr>)"
  using assms by (simp add: push_item_def note_appended_def usize_add_def)

text \<open>The list \<open>p\<close> items of which are already in the buffer, behind the byte reserved for its header.\<close>

definition close_list :: "bytes \<Rightarrow> bytes \<Rightarrow> list_info list \<Rightarrow> rlp_stream \<Rightarrow> rlp_stream may_panic" where
  "close_list a p ls s =
     note_appended 1 (s\<lparr> unfinished_lists := ls, buffer := a @ header 192 (length p) @ p \<rparr>)"

lemma push_item_close:
  assumes "unfinished_lists s = l # ls" "li_max l = Some n" "li_current l + 1 = n" "n < B"
    and "buffer s = a @ 0 # p" "li_position l = Suc (length a) - start_pos s" "start_pos s \<le> length a"
    and "length (p @ enc x) < 2 ^ 32" "Suc (length a) < B"
  shows "push_item x s = map_option set_flag (close_list a (p @ enc x) ls s)"
proof -
  let ?q = "p @ enc x"
  have b: "buffer s @ enc x = a @ 0 # ?q" using assms(5) by simp
  have t: "total_written (a @ 0 # ?q) (start_pos s) = Some (Suc (length a) + length ?q - start_pos s)"
    using assms(7) by (simp add: total_written_def usize_ok)
  have "usize_sub (Suc (length a) + length ?q - start_pos s) (Suc (length a) - start_pos s) = Some (length ?q)"
    using assms(7) by (simp add: usize_sub_def)
  moreover have "insert_list_payload (a @ 0 # ?q) (start_pos s) (length ?q) (Suc (length a) - start_pos s)
      = Some (a @ header 192 (length ?q) @ ?q)"
    using assms(7-9) by (rule insert_list_payload_spec)
  moreover have "usize_add (li_current l) 1 = Some n" using assms(3,4) by (simp add: usize_add_def)
  ultimately have "note_appended_loop (l # ls) (start_pos s) (buffer s @ enc x) (finished_list s) 1 =
      note_appended_loop ls (start_pos s) (a @ header 192 (length ?q) @ ?q) (finished_list s) 1
        \<bind> (\<lambda>(xs, buf, _). Some (xs, buf, True))"
    unfolding b using t assms(2,6) by simp
  then show ?thesis using assms(1)
    by (cases "note_appended_loop ls (start_pos s) (a @ header 192 (length ?q) @ ?q) (finished_list s) 1")
       (auto simp: push_item_def note_appended_def close_list_def set_flag_def)
qed

lemma stream_append_cases:
  assumes "writes (ra v) x" and "room s (length (enc x))"
  shows "stream_append ra v s = push_item x (clear_flag s) \<or>
    stream_append ra v s = map_option set_flag (push_item x (clear_flag s))"
proof -
  have r: "room (clear_flag s) (length (enc x))" using assms(2) by (simp add: room_def)
  show ?thesis using assms(1) r
  proof (unfold writes_def, elim allE impE disjE)
    assume "ra v (clear_flag s) = Some ((clear_flag s)\<lparr> buffer := buffer (clear_flag s) @ enc x \<rparr>)"
    then show ?thesis
      by (intro disjI1) (simp add: stream_append_def push_item_def clear_flag_def Let_def)
  next
    assume "ra v (clear_flag s) = map_option set_flag (push_item x (clear_flag s))"
    then have "stream_append ra v s = map_option set_flag (push_item x (clear_flag s))"
      by (cases "push_item x (clear_flag s)") (simp_all add: stream_append_def clear_flag_def Let_def set_flag_def)
    then show ?thesis by blast
  qed
qed

lemma stream_append_clear:
  "writes (ra v) x \<Longrightarrow> room s (length (enc x)) \<Longrightarrow>
     map_option clear_flag (stream_append ra v s) = map_option clear_flag (push_item x s)"
  using stream_append_cases [of ra v x s] push_item_clear [of x False s]
  by (auto simp: clear_flag_def [symmetric] option.map_comp comp_def)

lemma stream_append_reset: "stream_append ra v (s\<lparr> finished_list := f \<rparr>) = stream_append ra v s"
  by (simp add: stream_append_def)

lemma set_flag_of_clear: "map_option set_flag r = map_option set_flag t" if "map_option clear_flag r = map_option clear_flag t"
proof -
  have "set_flag = set_flag \<circ> clear_flag" by (rule ext) (simp add: set_flag_def clear_flag_def)
  then have "map_option set_flag r = map_option set_flag (map_option clear_flag r)" for r
    by (simp add: option.map_comp)
  then show ?thesis using that by metis
qed

lemma set_flag_idem [simp]: "map_option set_flag (map_option set_flag r) = map_option set_flag r"
  by (cases r) (simp_all add: set_flag_def)

lemma close_list_reset:
  "start_pos t = start_pos s \<Longrightarrow> map_option set_flag (close_list a p ls t) = map_option set_flag (close_list a p ls s)"
proof -
  assume st: "start_pos t = start_pos s"
  let ?f = "\<lambda>u::rlp_stream. u\<lparr> unfinished_lists := ls, buffer := a @ header 192 (length p) @ p \<rparr>"
  have "?f t = (?f s)\<lparr> finished_list := finished_list t \<rparr>" using st by (cases s; cases t) simp
  then show ?thesis unfolding close_list_def
    by (metis note_appended_clear set_flag_of_clear)
qed

lemma stream_append_open:
  assumes "writes (ra v) x" "room s (length (enc x))"
    and "unfinished_lists s = l # ls" "li_max l = Some n" "li_current l + 1 < n" "n < B"
  shows "\<exists>f. stream_append ra v s = Some (s\<lparr> buffer := buffer s @ enc x,
    unfinished_lists := l\<lparr> li_current := li_current l + 1 \<rparr> # ls, finished_list := f \<rparr>)"
proof -
  have "push_item x (clear_flag s) = Some ((clear_flag s)\<lparr> buffer := buffer (clear_flag s) @ enc x,
      unfinished_lists := l\<lparr> li_current := li_current l + 1 \<rparr> # ls, finished_list := False \<rparr>)"
    using assms(3-6) by (intro push_item_open) simp_all
  also have "\<dots> = Some (s\<lparr> buffer := buffer s @ enc x,
      unfinished_lists := l\<lparr> li_current := li_current l + 1 \<rparr> # ls, finished_list := False \<rparr>)"
    by (cases s) (simp add: clear_flag_def)
  finally show ?thesis using stream_append_cases [of ra v x s, OF assms(1,2)]
    by (auto simp: set_flag_def)
qed

lemma append_all_close:
  assumes "list_all2 (\<lambda>v x. writes (ra v) x) vs xs" and "vs \<noteq> []"
    and "unfinished_lists s = l # ls" "li_max l = Some n" "li_current l + length xs = n" "n < B"
    and "buffer s = a @ 0 # p" "li_position l = Suc (length a) - start_pos s" "start_pos s \<le> length a"
    and "length (p @ concat (map enc xs)) < 2 ^ 32" "Suc (length a + length (p @ concat (map enc xs))) < B"
  shows "append_all ra vs s = map_option set_flag (close_list a (p @ concat (map enc xs)) ls s)"
  using assms
proof (induction vs arbitrary: xs s l p)
  case (Cons v vs)
  obtain x ys where xs: "xs = x # ys" and w: "writes (ra v) x" and ws: "list_all2 (\<lambda>v x. writes (ra v) x) vs ys"
    using Cons.prems(1) by (auto simp: list_all2_Cons1)
  have room: "room s (length (enc x))" using Cons.prems(7,9,11) by (simp add: room_def xs)
  show ?case
  proof (cases "vs = []")
    case True
    then have ys: "ys = []" using ws by simp
    have "push_item x (clear_flag s) = map_option set_flag (close_list a (p @ enc x) ls (clear_flag s))"
      using Cons.prems(3-11) by (intro push_item_close [of _ l _ n]) (simp_all add: xs ys)
    also have "\<dots> = map_option set_flag (close_list a (p @ enc x) ls s)" by (rule close_list_reset) simp
    finally have pi: "push_item x (clear_flag s) = map_option set_flag (close_list a (p @ enc x) ls s)" .
    have "stream_append ra v s = map_option set_flag (close_list a (p @ enc x) ls s)"
      using stream_append_cases [of ra v x s, OF w room] by (auto simp: pi)
    then show ?thesis
      by (cases "close_list a (p @ enc x) ls s") (simp_all add: True xs ys)
  next
    case False
    then have "ys \<noteq> []" using ws by auto
    then have lt: "li_current l + 1 < n" using Cons.prems(5) by (cases ys) (simp_all add: xs)
    obtain f where a: "stream_append ra v s = Some (s\<lparr> buffer := buffer s @ enc x,
        unfinished_lists := l\<lparr> li_current := li_current l + 1 \<rparr> # ls, finished_list := f \<rparr>)"
      using stream_append_open [of ra v, OF w room Cons.prems(3,4) lt Cons.prems(6)] by auto
    let ?s = "s\<lparr> buffer := buffer s @ enc x,
        unfinished_lists := l\<lparr> li_current := li_current l + 1 \<rparr> # ls, finished_list := f \<rparr>"
    have "append_all ra vs ?s = map_option set_flag (close_list a ((p @ enc x) @ concat (map enc ys)) ls ?s)"
      using Cons.prems(3-11) by (intro Cons.IH [OF ws False, of _ "l\<lparr> li_current := li_current l + 1 \<rparr>"]) (simp_all add: xs)
    also have "\<dots> = map_option set_flag (close_list a (p @ concat (map enc xs)) ls s)"
      by (subst close_list_reset [of _ s]) (simp_all add: xs)
    finally show ?thesis by (simp add: a)
  qed
qed simp

lemma length_enc_pos: "0 < length (enc x)"
  by (cases x) (auto simp: header_def)

lemma length_concat_enc: "length xs \<le> length (concat (map enc xs))"
proof (induction xs)
  case (Cons x xs)
  then show ?case using length_enc_pos [of x] by (simp del: length_greater_0_conv)
qed simp

lemma length_enc_Items: "length (concat (map enc xs)) < length (enc (Items xs))"
  by (simp add: header_def)

lemma append_list_pushes:
  assumes ws: "list_all2 (\<lambda>v x. writes (ra v) x) vs xs" and sm: "small (Items xs)" and r: "room s (length (enc (Items xs)))"
  shows "append_list ra vs s = map_option set_flag (push_item (Items xs) s)"
proof -
  have len: "length vs = length xs" using ws by (rule list_all2_lengthD)
  let ?q = "concat (map enc xs)"
  have q: "length ?q < 2 ^ 32" using sm length_enc_Items [of xs] by (simp add: small_def)
  have b: "start_pos s \<le> length (buffer s)" "Suc (length (buffer s) + length ?q) < B"
    using r length_enc_Items [of xs] unfolding room_def by (simp_all only:) linarith
  have n: "length xs < B" using b(2) length_concat_enc [of xs] by linarith
  show "append_list ra vs s = map_option set_flag (push_item (Items xs) s)"
  proof (cases "vs = []")
    case True
    have "map_option clear_flag (push_item (Items []) s) = map_option clear_flag (push_item (Items []) (s\<lparr> finished_list := False \<rparr>))"
      by (simp add: push_item_clear)
    then have "map_option set_flag (push_item (Items []) s) = map_option set_flag (push_item (Items []) (s\<lparr> finished_list := False \<rparr>))"
      by (rule set_flag_of_clear)
    then show ?thesis using True len
      by (simp add: append_list_def begin_list_def push_item_def header_def map_conv_bind_option comp_def set_flag_def)
  next
    case False
    let ?l = "\<lparr> li_position = Suc (length (buffer s)) - start_pos s, li_current = 0, li_max = Some (length vs) \<rparr>"
    let ?s = "s\<lparr> finished_list := False, buffer := buffer s @ [0], unfinished_lists := ?l # unfinished_lists s \<rparr>"
    have bl: "begin_list (length vs) s = Some ?s"
      using False b(1) by (simp add: begin_list_def total_written_def usize_ok Let_def)
    have "append_all ra vs ?s = map_option set_flag (close_list (buffer s) ([] @ ?q) (unfinished_lists s) ?s)"
      using b q n len by (intro append_all_close [OF ws False, where l = ?l and n = "length vs"]) simp_all
    also have "\<dots> = map_option set_flag (close_list (buffer s) ?q (unfinished_lists s) s)"
      by (subst close_list_reset [of _ s]) simp_all
    also have "\<dots> = map_option set_flag (push_item (Items xs) s)"
      by (simp add: close_list_def push_item_def)
    finally show ?thesis by (simp add: append_list_def bl)
  qed
qed

lemma writes_append_list:
  assumes "list_all2 (\<lambda>v x. writes (ra v) x) vs xs" "small (Items xs)"
  shows "writes (append_list ra vs) (Items xs)"
  unfolding writes_def using append_list_pushes [OF assms] by blast

lemma writes_encode_value:
  assumes "small (Str v)"
  shows "writes (encode_value v) (Str v)"
  unfolding writes_def
proof (intro allI impI disjI1)
  fix s assume r: "room s (length (enc (Str v)))"
  have "length v \<le> length (enc (Str v))" by simp
  then have "length v < 2 ^ 32" using assms by (simp add: small_def)
  moreover have "start_pos s \<le> length (buffer s)" "Suc (length (buffer s)) < B"
    using r length_enc_pos [of "Str v"] unfolding room_def by (simp_all only:) linarith
  ultimately show "encode_value v s = Some (s\<lparr> buffer := buffer s @ enc (Str v) \<rparr>)"
    by (simp add: encode_value_def encode_iter_spec)
qed

lemma writes_append_internal: "writes (ra v) x \<Longrightarrow> writes (append_internal ra v) x"
  by (simp add: append_internal_def [abs_def])

lemma stream_append_unbounded:
  assumes "writes (ra v) x" "room s (length (enc x))"
    and "unfinished_lists s = l # ls" "li_max l = None" "li_current l + 1 < B"
  shows "\<exists>f. stream_append ra v s = Some (s\<lparr> buffer := buffer s @ enc x,
    unfinished_lists := l\<lparr> li_current := li_current l + 1 \<rparr> # ls, finished_list := f \<rparr>)"
proof -
  have "push_item x (clear_flag s) = Some (s\<lparr> buffer := buffer s @ enc x,
      unfinished_lists := l\<lparr> li_current := li_current l + 1 \<rparr> # ls, finished_list := False \<rparr>)"
    using assms(3-5) by (cases s) (simp add: push_item_def note_appended_def usize_add_def clear_flag_def)
  then show ?thesis using stream_append_cases [of ra v x s, OF assms(1,2)]
    by (auto simp: set_flag_def)
qed

lemma append_all_unbounded:
  assumes "list_all2 (\<lambda>v x. writes (ra v) x) vs xs"
    and "unfinished_lists s = l # ls" "li_max l = None" "start_pos s \<le> length (buffer s)"
    and "li_current l + length xs < B" "length (buffer s @ concat (map enc xs)) < B"
  shows "\<exists>f. append_all ra vs s = Some (s\<lparr> buffer := buffer s @ concat (map enc xs),
    unfinished_lists := l\<lparr> li_current := li_current l + length xs \<rparr> # ls, finished_list := f \<rparr>)"
  using assms
proof (induction vs arbitrary: xs s l)
  case Nil
  then show ?case by (intro exI [of _ "finished_list s"]) (cases s, simp)
next
  case (Cons v vs)
  obtain x ys where xs: "xs = x # ys" and w: "writes (ra v) x" and ws: "list_all2 (\<lambda>v x. writes (ra v) x) vs ys"
    using Cons.prems(1) by (auto simp: list_all2_Cons1)
  have room: "room s (length (enc x))" using Cons.prems(4,6) by (simp add: room_def xs)
  have c: "li_current l + 1 < B" using Cons.prems(5) by (simp add: xs)
  obtain f where a: "stream_append ra v s = Some (s\<lparr> buffer := buffer s @ enc x,
      unfinished_lists := l\<lparr> li_current := li_current l + 1 \<rparr> # ls, finished_list := f \<rparr>)"
    using stream_append_unbounded [of ra v, OF w room Cons.prems(2,3) c] by auto
  let ?s = "s\<lparr> buffer := buffer s @ enc x,
      unfinished_lists := l\<lparr> li_current := li_current l + 1 \<rparr> # ls, finished_list := f \<rparr>"
  have "\<exists>f. append_all ra vs ?s = Some (?s\<lparr> buffer := buffer ?s @ concat (map enc ys),
      unfinished_lists := l\<lparr> li_current := li_current l + 1, li_current := li_current (l\<lparr> li_current := li_current l + 1 \<rparr>) + length ys \<rparr> # ls,
      finished_list := f \<rparr>)"
    using Cons.prems(3-6) by (intro Cons.IH [OF ws]) (simp_all add: xs)
  then obtain g where "append_all ra vs ?s = Some (s\<lparr> buffer := buffer s @ concat (map enc xs),
      unfinished_lists := l\<lparr> li_current := li_current l + length xs \<rparr> # ls, finished_list := g \<rparr>)"
    by (auto simp: xs)
  then show ?case by (auto simp: a)
qed

text \<open>The calls by which a client writes a list whose length it does not know in advance.\<close>

definition append_unbounded :: "'a encodable \<Rightarrow> 'a list \<Rightarrow> rlp_stream \<Rightarrow> rlp_stream may_panic" where
  "append_unbounded rlp_append values s =
     do { s \<leftarrow> begin_unbounded_list s; s \<leftarrow> append_all rlp_append values s; finalize_unbounded_list s }"

lemma writes_append_unbounded:
  assumes ws: "list_all2 (\<lambda>v x. writes (ra v) x) vs xs" and sm: "small (Items xs)"
  shows "writes (append_unbounded ra vs) (Items xs)"
  unfolding writes_def
proof (intro allI impI disjI2)
  fix s assume r: "room s (length (enc (Items xs)))"
  let ?q = "concat (map enc xs)"
  have q: "length ?q < 2 ^ 32" using sm length_enc_Items [of xs] by (simp add: small_def)
  have b: "start_pos s \<le> length (buffer s)" "Suc (length (buffer s) + length ?q) < B"
    using r length_enc_Items [of xs] unfolding room_def by (simp_all only:) linarith
  have n: "length xs < B" using b(2) length_concat_enc [of xs] by linarith
  let ?pos = "Suc (length (buffer s)) - start_pos s"
  let ?l = "\<lparr> li_position = ?pos, li_current = 0, li_max = None \<rparr>"
  let ?s = "s\<lparr> finished_list := False, buffer := buffer s @ [0], unfinished_lists := ?l # unfinished_lists s \<rparr>"
  have bl: "begin_unbounded_list s = Some ?s"
    using b(1) by (simp add: begin_unbounded_list_def total_written_def usize_ok Let_def)
  obtain f where a: "append_all ra vs ?s = Some (?s\<lparr> buffer := buffer ?s @ ?q,
      unfinished_lists := ?l\<lparr> li_current := li_current ?l + length xs \<rparr> # unfinished_lists s, finished_list := f \<rparr>)"
    using append_all_unbounded [OF ws, of ?s ?l "unfinished_lists s"] b n by auto
  have t: "total_written (buffer s @ 0 # ?q) (start_pos s) = Some (Suc (length (buffer s)) + length ?q - start_pos s)"
    using b(1) by (simp add: total_written_def usize_ok)
  have u: "usize_sub (Suc (length (buffer s)) + length ?q - start_pos s) ?pos = Some (length ?q)"
    using b(1) by (simp add: usize_sub_def)
  have i: "insert_list_payload (buffer s @ 0 # ?q) (start_pos s) (length ?q) ?pos
      = Some (buffer s @ header 192 (length ?q) @ ?q)"
    using b q by (intro insert_list_payload_spec) simp_all
  have "append_unbounded ra vs s = map_option set_flag
      (note_appended 1 (s\<lparr> finished_list := f, buffer := buffer s @ enc (Items xs), unfinished_lists := unfinished_lists s \<rparr>))"
    using t u i by (simp add: append_unbounded_def bl a finalize_unbounded_list_def map_conv_bind_option comp_def set_flag_def)
  also have "s\<lparr> finished_list := f, buffer := buffer s @ enc (Items xs), unfinished_lists := unfinished_lists s \<rparr>
      = s\<lparr> buffer := buffer s @ enc (Items xs), finished_list := f \<rparr>" by (cases s) simp
  finally have "append_unbounded ra vs s = map_option set_flag
      (note_appended 1 (s\<lparr> buffer := buffer s @ enc (Items xs), finished_list := f \<rparr>))" .
  then show "append_unbounded ra vs s = map_option set_flag (push_item (Items xs) s)"
    using set_flag_of_clear [OF note_appended_clear] by (simp add: push_item_def)
qed


subsection \<open>Complete encodings\<close>

lemma push_item_done:
  "unfinished_lists s = [] \<Longrightarrow> push_item x s = Some (s\<lparr> buffer := buffer s @ enc x \<rparr>)"
  by (cases s) (simp add: push_item_def note_appended_def)

lemma writes_done:
  assumes "writes w x" "room s (length (enc x))" "unfinished_lists s = []"
  shows "\<exists>f. w s = Some (s\<lparr> buffer := buffer s @ enc x, finished_list := f \<rparr>)"
proof -
  consider "w s = Some (s\<lparr> buffer := buffer s @ enc x \<rparr>)" | "w s = map_option set_flag (push_item x s)"
    using assms(1,2) unfolding writes_def by blast
  then show ?thesis
  proof cases
    case 1
    then show ?thesis by (intro exI [of _ "finished_list s"]) (cases s, simp)
  next
    case 2
    then show ?thesis using assms(3) by (auto simp: push_item_done set_flag_def)
  qed
qed

lemma stream_append_done:
  assumes "writes (ra v) x" "room s (length (enc x))" "unfinished_lists s = []"
  shows "\<exists>f. stream_append ra v s = Some (s\<lparr> buffer := buffer s @ enc x, finished_list := f \<rparr>)"
  using stream_append_cases [of ra v x s, OF assms(1,2)] assms(3)
  by (cases s) (auto simp: push_item_done set_flag_def clear_flag_def)

lemma room_new: "small x \<Longrightarrow> room stream_new (length (enc x))"
  by (simp add: room_def small_def stream_new_def new_with_buffer_def radix_def)

lemma rlp_encode_writes: "writes (ra v) x \<Longrightarrow> small x \<Longrightarrow> rlp_encode ra v = Some (enc x)"
  using stream_append_done [of ra v x stream_new] room_new [of x]
  by (auto simp: rlp_encode_def stream_out_def is_finished_def stream_new_def new_with_buffer_def)

lemma rlp_bytes_writes: "writes (ra v) x \<Longrightarrow> small x \<Longrightarrow> rlp_bytes_of ra v = Some (enc x)"
  using writes_done [of "ra v" x stream_new] room_new [of x]
  by (auto simp: rlp_bytes_of_def stream_out_def is_finished_def stream_new_def new_with_buffer_def)

lemma rlp_encode_list_writes:
  "list_all2 (\<lambda>v x. writes (ra v) x) vs xs \<Longrightarrow> small (Items xs) \<Longrightarrow> rlp_encode_list ra vs = Some (enc (Items xs))"
  using writes_done [of "append_list ra vs" "Items xs" stream_new] room_new [of "Items xs"]
  by (auto simp: rlp_encode_list_def stream_out_def is_finished_def stream_new_def new_with_buffer_def writes_append_list)

lemma append_all_cong [fundef_cong]:
  "vs = ws \<Longrightarrow> s = t \<Longrightarrow> (\<And>v. v \<in> set ws \<Longrightarrow> f v = g v) \<Longrightarrow> append_all f vs s = append_all g ws t"
proof (induction vs arbitrary: ws s t)
  case (Cons v vs)
  then have "stream_append f v t = stream_append g v t" by (auto simp: stream_append_def Let_def)
  then show ?case using Cons by (cases "stream_append g v t") auto
qed simp

lemma append_list_cong [fundef_cong]:
  "vs = ws \<Longrightarrow> s = t \<Longrightarrow> (\<And>v. v \<in> set ws \<Longrightarrow> f v = g v) \<Longrightarrow> append_list f vs s = append_list g ws t"
  using append_all_cong [of ws ws _ _ f g] unfolding append_list_def by (metis (no_types, lifting) ext)

text \<open>
  A client of the stream that writes a whole tree: a string by \<^verbatim>\<open>encode_value\<close>, a list by \<^verbatim>\<open>append_list\<close>
  of its items or, where \<open>u\<close> says so, as an unbounded list.
\<close>

lemma append_unbounded_cong [fundef_cong]:
  "vs = ws \<Longrightarrow> s = t \<Longrightarrow> (\<And>v. v \<in> set ws \<Longrightarrow> f v = g v) \<Longrightarrow> append_unbounded f vs s = append_unbounded g ws t"
  using append_all_cong [of ws ws _ _ f g] unfolding append_unbounded_def by (metis (no_types, lifting) ext)

fun tree_append :: "(item list \<Rightarrow> bool) \<Rightarrow> item encodable" where
  "tree_append u (Str v) s = encode_value v s"
| "tree_append u (Items xs) s =
     (if u xs then append_unbounded (tree_append u) xs s else append_list (tree_append u) xs s)"

lemma length_enc_member: "x \<in> set xs \<Longrightarrow> length (enc x) \<le> length (concat (map enc xs))"
  by (induction xs) auto

lemma small_member: "x \<in> set xs \<Longrightarrow> small (Items xs) \<Longrightarrow> small x"
  using length_enc_member [of x xs] length_enc_Items [of xs] by (simp add: small_def del: enc.simps)

lemma writes_tree: "small x \<Longrightarrow> writes (tree_append u x) x"
proof (induction x)
  case (Str v)
  then show ?case using writes_encode_value [of v] by (simp add: writes_def)
next
  case (Items xs)
  have "\<And>x. x \<in> set xs \<Longrightarrow> writes (tree_append u x) x"
    using Items small_member by blast
  then have "list_all2 (\<lambda>v x. writes (tree_append u v) x) xs xs" by (simp add: list.rel_refl_strong)
  then have "writes (append_unbounded (tree_append u) xs) (Items xs)"
    "writes (append_list (tree_append u) xs) (Items xs)"
    using Items.prems by (auto intro: writes_append_unbounded writes_append_list)
  then show ?case by (simp add: writes_def)
qed


subsection \<open>Properties\<close>

text \<open>
  C6. The stream writes the RLP encoding: a tree of byte strings and lists of any shape and depth,
  each list appended with its length or as an unbounded list, appended to a stream that starts behind
  arbitrary bytes, leaves those bytes followed by exactly the encoding of the tree (here for trees of
  less than \<^verbatim>\<open>2^32\<close> bytes, the lengths \<^verbatim>\<open>insert_size\<close> can write).
\<close>

theorem stream_writes_encoding:
  assumes "small x" and "length buf + length (enc x) < B"
  shows "do { s \<leftarrow> stream_append (tree_append u) x (new_with_buffer buf); stream_out s } = Some (buf @ enc x) \<and>
    rlp_encode (tree_append u) x = Some (enc x) \<and> rlp_bytes_of (tree_append u) x = Some (enc x)"
proof (intro conjI)
  let ?s = "new_with_buffer buf"
  have "room ?s (length (enc x))" "unfinished_lists ?s = []"
    using assms(2) by (simp_all add: room_def new_with_buffer_def)
  then obtain f where "stream_append (tree_append u) x ?s = Some (?s\<lparr> buffer := buffer ?s @ enc x, finished_list := f \<rparr>)"
    using stream_append_done [of "tree_append u" x x ?s] writes_tree [OF assms(1)] by blast
  then show "do { s \<leftarrow> stream_append (tree_append u) x ?s; stream_out s } = Some (buf @ enc x)"
    by (simp add: stream_out_def is_finished_def new_with_buffer_def)
  show "rlp_encode (tree_append u) x = Some (enc x)" by (intro rlp_encode_writes writes_tree assms(1))
  show "rlp_bytes_of (tree_append u) x = Some (enc x)" by (intro rlp_bytes_writes writes_tree assms(1))
qed

theorem stream_writes_encoding_witness:
  "rlp_encode (tree_append (\<lambda>xs. xs \<noteq> [])) (Items [Str [1], Items [], Str [0x80, 2]]) =
     Some [0xc5, 1, 0xc0, 0x82, 0x80, 2]"
  using stream_writes_encoding [of "Items [Str [1], Items [], Str [0x80, 2]]" "[]" "\<lambda>xs. xs \<noteq> []"]
  by (simp add: small_def header_def B_eq)

text \<open>
  Appending one value to a stream with open lists, whatever the value is made of: the item is
  counted once in the innermost list; when it was the last one of its list the list gets its header
  and is itself counted in the list around it. Up to the flag \<^verbatim>\<open>finished_list\<close>, which the next
  \<^verbatim>\<open>append\<close> resets, nothing else of the stream depends on how the value was written.
\<close>

theorem append_counts_item_once:
  assumes "small x" and "room s (length (enc x))"
  shows "map_option (\<lambda>s. s\<lparr> finished_list := False \<rparr>) (stream_append (tree_append u) x s) =
    map_option (\<lambda>s. s\<lparr> finished_list := False \<rparr>) (note_appended 1 (s\<lparr> buffer := buffer s @ enc x \<rparr>))"
  using stream_append_clear [of "tree_append u" x, OF writes_tree [OF assms(1)] assms(2)]
  by (simp add: push_item_def clear_flag_def [abs_def])

theorem append_counts_item_once_witness:
  "map_option (\<lambda>s. s\<lparr> finished_list := False \<rparr>) (stream_append (tree_append (\<lambda>_. False)) (Items [Str [1]])
     \<lparr> unfinished_lists = [\<lparr> li_position = 1, li_current = 0, li_max = Some 2 \<rparr>], start_pos = 0, buffer = [0], finished_list = True \<rparr>) =
   Some \<lparr> unfinished_lists = [\<lparr> li_position = 1, li_current = 1, li_max = Some 2 \<rparr>], start_pos = 0, buffer = [0, 0xc1, 1], finished_list = False \<rparr>"
  using append_counts_item_once [of "Items [Str [1]]"
      "\<lparr> unfinished_lists = [\<lparr> li_position = 1, li_current = 0, li_max = Some 2 \<rparr>], start_pos = 0, buffer = [0], finished_list = True \<rparr>"
      "\<lambda>_. False"]
  by (simp add: small_def room_def header_def B_eq note_appended_def usize_add_def)

text \<open>
  \<^verbatim>\<open>estimate_size\<close> is not an upper bound of the encoding: it counts the length bytes of the inner
  lists but computes the lengths of the outer lists without them. An item of 254 bytes in two nested
  lists is estimated at 258 bytes and accepted by \<^verbatim>\<open>append_raw_checked\<close> with that limit; the finished
  stream has 259 bytes.
\<close>

theorem estimate_size_underestimates:
  "do { s \<leftarrow> new_list 1; s \<leftarrow> begin_list 1 s;
        (accepted, s) \<leftarrow> append_raw_checked (enc (Str (replicate 252 0))) 1 258 s;
        out \<leftarrow> stream_out s; Some (accepted, length out) } = Some (True, 259)"
proof -
  define raw where "raw = enc (Str (replicate 252 0))"
  have l: "length raw = 254" by (simp add: raw_def header_def nat_be.simps)
  let ?l = "\<lambda>p. \<lparr> li_position = p, li_current = 0, li_max = Some 1 \<rparr>"
  let ?s = "\<lparr> unfinished_lists = [?l 2, ?l 1], start_pos = 0, buffer = [0, 0], finished_list = False \<rparr>"
  have b: "do { s \<leftarrow> new_list 1; begin_list 1 s } = Some ?s"
    by (simp add: new_list_def stream_new_def new_with_buffer_def begin_list_def total_written_def usize_sub_def Let_def)
  have z: "word_leading_zeros (254 :: u64) div 8 = 7" "word_leading_zeros (255 :: u64) div 8 = 7"
    by (simp_all add: word_leading_zeros_def nat_bits.simps)
  have e: "estimate_size 254 ?s = Some 258"
    by (simp add: estimate_size_def total_written_def usize_sub_def usize_add_def B_eq z)
  have "insert_list_payload ([0] @ 0 # raw) 0 (length raw) (Suc (length [0 :: u8]) - 0) = Some ([0] @ header 192 (length raw) @ raw)"
    by (rule insert_list_payload_spec) (simp_all add: l B_eq)
  then have i: "insert_list_payload (0 # 0 # raw) 0 254 2 = Some (0 # header 192 254 @ raw)"
    by (simp add: l numeral_2_eq_2)
  let ?q = "header 192 (length raw) @ raw"
  have q: "length ?q = 256" by (simp add: l header_def nat_be.simps)
  have j: "insert_list_payload ([] @ 0 # ?q) 0 (length ?q) (Suc (length ([] :: bytes)) - 0) = Some ([] @ header 192 (length ?q) @ ?q)"
    by (rule insert_list_payload_spec) (use q B_eq in simp_all)
  have "note_appended 1 (?s\<lparr> buffer := [0, 0] @ raw \<rparr>) =
      Some \<lparr> unfinished_lists = [], start_pos = 0, buffer = header 192 (length ?q) @ ?q, finished_list = True \<rparr>"
    using i j q l
    by (simp add: note_appended_def usize_add_def B_eq total_written_def usize_sub_def)
  moreover have "length (header 192 (length ?q) @ ?q) = 259" unfolding q by (simp add: header_def nat_be.simps l)
  ultimately show ?thesis
    unfolding raw_def [symmetric] bind_assoc [symmetric] b
    using e l by (simp add: append_raw_checked_def append_raw_def stream_out_def is_finished_def)
qed

end
