(* ===== verification/Rlp_Codec.thy ===== *)
theory Rlp_Codec
  imports Rlp_Stream
begin

text \<open>
  The implementations of \<^verbatim>\<open>Encodable\<close> and \<^verbatim>\<open>Decodable\<close> in \<^verbatim>\<open>impls.rs\<close> and the entry points
  \<^verbatim>\<open>encode\<close>, \<^verbatim>\<open>decode\<close>, \<^verbatim>\<open>encode_list\<close> and \<^verbatim>\<open>decode_list\<close> of \<^verbatim>\<open>lib.rs\<close>. The two traits are one
  interface, the locale \<open>rlp_codec\<close>: a type has an item for each value, \<^verbatim>\<open>rlp_append\<close> writes the
  encoding of that item and \<^verbatim>\<open>decode\<close> reads it back. What clients rely on is proved once in the locale
  and holds for every type by its interpretation.
\<close>

subsection \<open>Entry points\<close>

definition rlp_decode :: "'a decoder \<Rightarrow> bytes \<Rightarrow> 'a res" where
  "rlp_decode dec bs = map_option fst (rlp_as_val dec (rlp_new bs))"

definition rlp_decode_list :: "'a decoder \<Rightarrow> bytes \<Rightarrow> 'a list may_panic" where
  "rlp_decode_list dec bs =
     do {
       (res, r) \<leftarrow> rlp_as_list dec (rlp_new bs);
       case res of Inl _ \<Rightarrow> panic | Inr xs \<Rightarrow> Some xs }"

subsection \<open>Implementations for the basic types\<close>

text \<open>\<^verbatim>\<open>rlp.decoder().decode_value(f)\<close>; it does not touch the caches of the view.\<close>

definition with_value :: "(bytes \<Rightarrow> 'a res) \<Rightarrow> 'a decoder" where
  "with_value f r = do { res \<leftarrow> decode_value (rlp_bytes r) f; Some (res, r) }"

definition bool_append :: "bool encodable" where
  "bool_append b s = encode_value [if b then 1 else 0] s"

definition bool_decode :: "bool decoder" where
  "bool_decode = with_value (\<lambda>bs.
     if length bs = 0 then ok False
     else if length bs = 1 then do { b \<leftarrow> index_at bs 0; ok (b \<noteq> 0) }
     else err RlpIsTooBig)"

text \<open>\<^verbatim>\<open>&[u8]\<close>, \<^verbatim>\<open>Vec<u8>\<close>, \<^verbatim>\<open>Bytes\<close> and \<^verbatim>\<open>BytesMut\<close>.\<close>

definition bytes_append :: "bytes encodable" where
  "bytes_append bs s = encode_value bs s"

definition bytes_decode :: "bytes decoder" where
  "bytes_decode = with_value (\<lambda>bs. ok bs)"

definition option_append :: "'a encodable \<Rightarrow> 'a option encodable" where
  "option_append rlp_append v s =
     (case v of
        None \<Rightarrow> begin_list 0 s
      | Some value \<Rightarrow> do { s \<leftarrow> begin_list 1 s; stream_append rlp_append value s })"

definition option_decode :: "'a decoder \<Rightarrow> 'a option decoder" where
  "option_decode dec r =
     do {
       (items, r) \<leftarrow> rlp_item_count r;
       case items of
         Inl e \<Rightarrow> Some (Inl e, r)
       | Inr items \<Rightarrow>
           if items = 1 then
             do { (res, r) \<leftarrow> rlp_val_at dec r 0; Some (map_sum id Some res, r) }
           else if items = 0 then Some (Inr None, r)
           else Some (Inl RlpIncorrectListLen, r) }"

definition u8_append :: "u8 encodable" where
  "u8_append v s = (if v \<noteq> 0 then encode_value [v] s else encode_value [] s)"

definition u8_decode :: "u8 decoder" where
  "u8_decode = with_value (\<lambda>bs.
     do {
       nonzero \<leftarrow> (if length bs = 1 then do { b \<leftarrow> index_at bs 0; Some (b \<noteq> 0) } else Some False);
       if nonzero then do { b \<leftarrow> index_at bs 0; ok b }
       else if length bs = 0 then ok 0
       else if length bs = 1 then err RlpInvalidIndirection
       else err RlpIsTooBig })"

text \<open>
  The macros \<^verbatim>\<open>impl_encodable_for_u\<close> and \<^verbatim>\<open>impl_decodable_for_u\<close>, used at 16, 32, 64 and 128 bits.
\<close>

definition u_append :: "'a::len word encodable" where
  "u_append v s =
     do {
       let leading_empty_bytes = word_leading_zeros v div 8;
       let buf = to_be_bytes v;
       d \<leftarrow> slice_range buf leading_empty_bytes (length buf);
       encode_value d s }"

fun u_decode_loop :: "bytes \<Rightarrow> 'a::len word \<Rightarrow> 'a word may_panic" where
  "u_decode_loop [] res = Some res"
| "u_decode_loop (byte # bs) res =
     do {
       let shift = length bs * 8;
       res \<leftarrow> padd res (push_bit shift (ucast byte));
       u_decode_loop bs res }"

definition u_decode :: "'a::len word decoder" where
  "u_decode r = with_value (\<lambda>bs.
     if length bs \<le> 1 then
       do { (res, _) \<leftarrow> u8_decode r; Some (map_sum id ucast res) }
     else if length bs \<le> LENGTH('a) div 8 then
       do {
         b \<leftarrow> index_at bs 0;
         if b = 0 then err RlpInvalidIndirection
         else do { res \<leftarrow> u_decode_loop bs 0; ok res } }
     else err RlpIsTooBig) r"

definition usize_append :: "nat encodable" where
  "usize_append n s = u_append (of_nat n :: u64) s"

definition usize_decode :: "nat decoder" where
  "usize_decode r =
     do { (res, r) \<leftarrow> (u_decode r :: u64 rlp_st); Some (map_sum id unat res, r) }"

text \<open>
  A \<^verbatim>\<open>String\<close> is its bytes, which are always valid UTF-8; \<^verbatim>\<open>from_utf8\<close> accepts the well-formed
  sequences of the Unicode standard.
\<close>

definition cont_byte :: "u8 \<Rightarrow> bool" where
  "cont_byte b = (0x80 \<le> b \<and> b \<le> 0xbf)"

fun utf8_valid :: "bytes \<Rightarrow> bool" where
  "utf8_valid [] = True"
| "utf8_valid (a # bs) =
     (if a \<le> 0x7f then utf8_valid bs
      else case bs of
        [] \<Rightarrow> False
      | b # cs \<Rightarrow>
          if 0xc2 \<le> a \<and> a \<le> 0xdf then cont_byte b \<and> utf8_valid cs
          else case cs of
            [] \<Rightarrow> False
          | c # ds \<Rightarrow>
              if a = 0xe0 then 0xa0 \<le> b \<and> b \<le> 0xbf \<and> cont_byte c \<and> utf8_valid ds
              else if a = 0xed then 0x80 \<le> b \<and> b \<le> 0x9f \<and> cont_byte c \<and> utf8_valid ds
              else if 0xe1 \<le> a \<and> a \<le> 0xef then cont_byte b \<and> cont_byte c \<and> utf8_valid ds
              else case ds of
                [] \<Rightarrow> False
              | d # es \<Rightarrow>
                  (if a = 0xf0 then 0x90 \<le> b \<and> b \<le> 0xbf
                   else if a = 0xf4 then 0x80 \<le> b \<and> b \<le> 0x8f
                   else 0xf1 \<le> a \<and> a \<le> 0xf3 \<and> cont_byte b) \<and>
                  cont_byte c \<and> cont_byte d \<and> utf8_valid es)"

definition string_append :: "bytes encodable" where
  "string_append s st = encode_value s st"

definition string_decode :: "bytes decoder" where
  "string_decode = with_value (\<lambda>bs. if utf8_valid bs then ok bs else err RlpExpectedToBeData)"

text \<open>\<^verbatim>\<open>Box<T>\<close>.\<close>

datatype 'a boxed = Box (unbox: 'a)

definition box_append :: "'a encodable \<Rightarrow> 'a boxed encodable" where
  "box_append rlp_append self s = rlp_append (unbox self) s"

definition box_decode :: "'a decoder \<Rightarrow> 'a boxed decoder" where
  "box_decode dec r = do { (res, r) \<leftarrow> dec r; Some (map_sum id Box res, r) }"

text \<open>The item of a value.\<close>

definition bool_item :: "bool \<Rightarrow> item" where
  "bool_item b = Str [if b then 1 else 0]"

definition num_item :: "'a::len word \<Rightarrow> item" where
  "num_item w = Str (nat_be (unat w))"

definition option_item :: "('a \<Rightarrow> item) \<Rightarrow> 'a option \<Rightarrow> item" where
  "option_item f v = Items (map f (case v of None \<Rightarrow> [] | Some a \<Rightarrow> [a]))"


subsection \<open>The interface of the two traits\<close>

definition decode_map :: "('a \<Rightarrow> 'b) \<Rightarrow> 'a decoder \<Rightarrow> 'b decoder" where
  "decode_map f dec r = do { (res, r) \<leftarrow> dec r; Some (map_sum id f res, r) }"

locale rlp_codec =
  fixes rlp_append :: "'a encodable" and decode :: "'a decoder"
    and item_of :: "'a \<Rightarrow> item" and valid :: "'a \<Rightarrow> bool"
  assumes append_writes: "valid v \<Longrightarrow> small (item_of v) \<Longrightarrow> writes (rlp_append v) (item_of v)"
    and decode_item: "valid v \<Longrightarrow> small (item_of v) \<Longrightarrow>
      \<exists>r. decode (rlp_new (enc (item_of v))) = Some (Inr v, r)"
begin

lemma encode_spec: "valid v \<Longrightarrow> small (item_of v) \<Longrightarrow> rlp_encode rlp_append v = Some (enc (item_of v))"
  by (simp add: rlp_encode_writes append_writes)

lemma decode_spec: "valid v \<Longrightarrow> small (item_of v) \<Longrightarrow> rlp_decode decode (enc (item_of v)) = ok v"
  using decode_item [of v] by (auto simp: rlp_decode_def rlp_as_val_def)

lemma roundtrip:
  "valid v \<Longrightarrow> small (item_of v) \<Longrightarrow> (rlp_encode rlp_append v \<bind> rlp_decode decode) = ok v"
  by (simp add: encode_spec decode_spec)

lemma item_of_inject:
  "valid v \<Longrightarrow> valid w \<Longrightarrow> small (item_of v) \<Longrightarrow> enc (item_of v) = enc (item_of w) \<Longrightarrow> v = w"
  by (metis decode_spec small_def option.inject sum.inject(2))

lemma append_each:
  "list_all valid vs \<Longrightarrow> small (Items (map item_of vs)) \<Longrightarrow>
     list_all2 (\<lambda>v x. writes (rlp_append v) x) vs (map item_of vs)"
  using small_member [of _ "map item_of vs"]
  by (auto simp: list_all2_conv_all_nth list_all_length intro!: append_writes)

lemma collect_spec:
  "list_all valid vs \<Longrightarrow> list_all (\<lambda>v. small (item_of v)) vs \<Longrightarrow>
     collect_items decode (map (\<lambda>v. rlp_new (enc (item_of v))) vs) = ok vs"
proof (induction vs)
  case (Cons v vs)
  then show ?case using decode_item [of v] by (auto simp: rlp_as_val_def)
qed simp

lemma small_members: "small (Items (map item_of vs)) \<Longrightarrow> list_all (\<lambda>v. small (item_of v)) vs"
  using small_member [of _ "map item_of vs"] by (auto simp: list_all_iff)

lemma encode_list_spec:
  "list_all valid vs \<Longrightarrow> small (Items (map item_of vs)) \<Longrightarrow>
     rlp_encode_list rlp_append vs = Some (enc (Items (map item_of vs)))"
  by (intro rlp_encode_list_writes append_each)

lemma decode_list_spec:
  assumes "list_all valid vs" "small (Items (map item_of vs))"
  shows "rlp_decode_list decode (enc (Items (map item_of vs))) = Some vs"
proof -
  have "view_of (map item_of vs) (rlp_new (enc (Items (map item_of vs))))"
    using assms(2) by (intro view_of_new) (simp add: small_def radix_def)
  then obtain r where "rlp_iter (rlp_new (enc (Items (map item_of vs)))) = Some (map (\<lambda>v. rlp_new (enc (item_of v))) vs, r)"
    using iter_view by (fastforce simp: comp_def)
  then show ?thesis
    using collect_spec [OF assms(1) small_members [OF assms(2)]]
    by (simp add: rlp_decode_list_def rlp_as_list_def)
qed

lemma list_roundtrip:
  "list_all valid vs \<Longrightarrow> small (Items (map item_of vs)) \<Longrightarrow>
     (rlp_encode_list rlp_append vs \<bind> rlp_decode_list decode) = Some vs"
  by (simp add: encode_list_spec decode_list_spec del: enc.simps)

lemma val_at_spec:
  assumes "view_of (map item_of vs) r" "list_all valid vs" "small (Items (map item_of vs))" "i < length vs"
  shows "\<exists>r'. rlp_val_at decode r i = Some (Inr (vs ! i), r') \<and> view_of (map item_of vs) r'"
proof -
  obtain r' where "rlp_at r i = Some (Inr (rlp_new (enc (item_of (vs ! i)))), r')" "view_of (map item_of vs) r'"
    using at_view [OF assms(1), of i] assms(4) by auto
  moreover obtain r'' where "decode (rlp_new (enc (item_of (vs ! i)))) = Some (Inr (vs ! i), r'')"
    using decode_item [of "vs ! i"] small_members [OF assms(3)] assms(2,4) by (auto simp: list_all_length)
  ultimately show ?thesis by (simp add: rlp_val_at_def rlp_as_val_def)
qed

text \<open>\<^verbatim>\<open>Option<T>\<close> is a codec when \<^verbatim>\<open>T\<close> is.\<close>

lemma option_append_list: "option_append rlp_append v = append_list rlp_append (case v of None \<Rightarrow> [] | Some a \<Rightarrow> [a])"
proof -
  have "append_all rlp_append [] = Some" by (rule ext) simp
  then show ?thesis by (intro ext) (auto simp: option_append_def append_list_def split: option.split)
qed

lemma option_codec:
  "rlp_codec (option_append rlp_append) (option_decode decode) (option_item item_of) (pred_option valid)"
proof
  fix v :: "'a option"
  let ?vs = "case v of None \<Rightarrow> [] | Some a \<Rightarrow> [a]"
  assume "pred_option valid v" and sm: "small (option_item item_of v)"
  then have va: "list_all valid ?vs" by (cases v) auto
  have sm': "small (Items (map item_of ?vs))" using sm by (simp add: option_item_def)
  show "writes (option_append rlp_append v) (option_item item_of v)"
    unfolding option_append_list option_item_def by (intro writes_append_list append_each va sm')
  let ?r = "rlp_new (enc (Items (map item_of ?vs)))"
  have "view_of (map item_of ?vs) ?r" using sm' by (intro view_of_new) (simp add: small_def radix_def)
  then obtain r where r: "rlp_item_count ?r = Some (Inr (length ?vs), r)" "view_of (map item_of ?vs) r"
    using item_count_view by fastforce
  show "\<exists>r. option_decode decode (rlp_new (enc (option_item item_of v))) = Some (Inr v, r)"
  proof (cases v)
    case (Some a)
    then obtain r' where "rlp_val_at decode r 0 = Some (Inr a, r')"
      using val_at_spec [OF r(2) va sm', of 0] by auto
    then show ?thesis using r(1) Some by (simp add: option_decode_def option_item_def del: enc.simps)
  qed (use r(1) in \<open>simp add: option_decode_def option_item_def del: enc.simps\<close>)
qed

lemma box_codec: "rlp_codec (box_append rlp_append) (box_decode decode) (\<lambda>v. item_of (unbox v)) (\<lambda>v. valid (unbox v))"
proof
  fix v :: "'a boxed"
  assume v: "valid (unbox v)" "small (item_of (unbox v))"
  show "writes (box_append rlp_append v) (item_of (unbox v))"
    unfolding box_append_def [abs_def] using append_writes [OF v] by simp
  show "\<exists>r. box_decode decode (rlp_new (enc (item_of (unbox v)))) = Some (Inr v, r)"
    using decode_item [OF v] by (auto simp: box_decode_def)
qed

text \<open>The values of a type behind a constructor.\<close>

lemma tagged_codec:
  assumes "\<And>v. is_C v \<Longrightarrow> C (un_C v) = v"
  shows "rlp_codec (\<lambda>v. rlp_append (un_C v)) (decode_map C decode) (\<lambda>v. item_of (un_C v)) (\<lambda>v. is_C v \<and> valid (un_C v))"
proof
  fix v
  assume "is_C v \<and> valid (un_C v)" and sm: "small (item_of (un_C v))"
  then have v: "C (un_C v) = v" "valid (un_C v)" using assms by auto
  show "writes (rlp_append (un_C v)) (item_of (un_C v))" by (rule append_writes [OF v(2) sm])
  show "\<exists>r. decode_map C decode (rlp_new (enc (item_of (un_C v)))) = Some (Inr v, r)"
    using decode_item [OF v(2) sm] v(1) by (auto simp: decode_map_def)
qed

end


subsection \<open>Numbers\<close>

lemma length_nat_be: "length (nat_be k) = (nat_bits k + 7) div 8"
proof -
  have "length (nat_be k) \<le> n \<longleftrightarrow> (nat_bits k + 7) div 8 \<le> n" for n
  proof -
    have "length (nat_be k) \<le> n \<longleftrightarrow> nat_bits k \<le> 8 * n"
      by (simp add: length_nat_be_le nat_bits_le_iff power_mult)
    then show ?thesis by linarith
  qed
  then show ?thesis by (meson order.antisym order.refl)
qed

text \<open>Without its leading zero bytes a big-endian representation is the shortest one.\<close>

lemma strip_zeros:
  fixes bs :: bytes
  assumes "lval (rev bs) = k"
  shows "drop (length bs - (nat_bits k + 7) div 8) bs = nat_be k"
proof -
  let ?m = "length (nat_be k)"
  have "k < 256 ^ length bs" using assms lval_bound [of "rev bs"] by (simp add: radix_def)
  then have m: "?m \<le> length bs" by (simp add: length_nat_be_le)
  have "rev (drop (length bs - ?m) bs) = take ?m (rev bs)" using m by (simp add: rev_drop)
  then have "lval (rev (drop (length bs - ?m) bs)) = k mod radix TYPE(8) ^ ?m" by (simp add: lval_take assms)
  then have "lval (rev (drop (length bs - ?m) bs)) = lval (rev (nat_be k))"
    using length_nat_be_le [of k ?m] by (simp add: radix_def lval_nat_be)
  moreover have "length (drop (length bs - ?m) bs) = ?m" using m by simp
  ultimately have "rev (drop (length bs - ?m) bs) = rev (nat_be k)" by (intro lval_inject) simp_all
  then show ?thesis by (simp add: length_nat_be [symmetric])
qed

lemma u_append_spec:
  assumes "8 dvd LENGTH('a::len)"
  shows "u_append (w :: 'a word) = encode_value (nat_be (unat w))"
proof -
  obtain n where n: "LENGTH('a) = 8 * n" using assms by (auto elim: dvdE)
  have lz: "word_leading_zeros w div 8 = n - (nat_bits (unat w) + 7) div 8"
  proof -
    have "word_leading_zeros w + nat_bits (unat w) = 8 * n" using word_leading_zeros_bits [of w] n by simp
    then show ?thesis by linarith
  qed
  have len: "length (to_be_bytes w) = n" by (simp add: to_be_bytes_def n)
  have "unat w < radix TYPE(8) ^ n" using unat_lt_radix [of w] n by (simp add: radix_def power_mult)
  then have "lval (rev (to_be_bytes w)) = unat w" by (simp add: to_be_bytes_def n lval_limbs)
  from strip_zeros [OF this] show ?thesis
    by (intro ext) (simp add: u_append_def slice_range_def len lz)
qed

lemma unat_shifted_byte:
  assumes "8 * Suc k \<le> LENGTH('a::len)"
  shows "unat (push_bit (k * 8) (ucast (b :: u8) :: 'a word)) = unat b * radix TYPE(8) ^ k"
proof -
  have p: "(2 :: nat) ^ (k * 8) = radix TYPE(8) ^ k" using power_mult [of "2 :: nat" 8 k] by (simp add: radix_def mult.commute)
  have "unat b * radix TYPE(8) ^ k < radix TYPE(8) * radix TYPE(8) ^ k"
    using unat_lt_radix [of b] by simp
  also have "\<dots> = 2 ^ (8 * Suc k)" by (simp add: radix_def power_add power_mult)
  also have "\<dots> \<le> radix TYPE('a)" using assms by (simp add: radix_def)
  finally have "unat b * radix TYPE(8) ^ k < radix TYPE('a)" .
  moreover have "unat (ucast b :: 'a word) = unat b" using assms by (intro unat_ucast_up) simp
  ultimately show ?thesis by (simp add: unat_push_bit p)
qed

lemma u_decode_loop_spec:
  fixes res :: "'a::len word"
  shows "8 * length bs \<le> LENGTH('a) \<Longrightarrow> unat res + lval (rev bs) < radix TYPE('a) \<Longrightarrow>
    u_decode_loop bs res = Some (of_nat (unat res + lval (rev bs)))"
proof (induction bs arbitrary: res)
  case (Cons b bs)
  let ?t = "push_bit (length bs * 8) (ucast b) :: 'a word"
  have t: "unat ?t = unat b * radix TYPE(8) ^ length bs" using Cons.prems(1) by (intro unat_shifted_byte) simp
  have l: "lval (rev (b # bs)) = lval (rev bs) + unat b * radix TYPE(8) ^ length bs"
    by (simp add: lval_append mult.commute)
  then have lt: "unat res + unat ?t < radix TYPE('a)" using Cons.prems(2) t by linarith
  have a: "padd res ?t = Some (res + ?t)" using lt by (simp add: padd_def radix_def)
  have u: "unat (res + ?t) = unat res + unat ?t" using lt by (simp only: unat_add_radix mod_less)
  have "u_decode_loop bs (res + ?t) = Some (of_nat (unat (res + ?t) + lval (rev bs)))"
    using Cons.prems l t by (intro Cons.IH) (simp_all add: u del: unat_plus_simple)
  also have "unat (res + ?t) + lval (rev bs) = unat res + lval (rev (b # bs))" using l t u by linarith
  finally show ?case by (simp only: u_decode_loop.simps Let_def a Option.bind.simps)
qed simp


lemma with_value_enc:
  "small (Str bs) \<Longrightarrow> with_value f (rlp_new (enc (Str bs))) = do { res \<leftarrow> f bs; Some (res, rlp_new (enc (Str bs))) }"
  using decode_value_enc [of bs "[]" f]
  by (simp add: with_value_def rlp_new_def small_def radix_def del: enc.simps)

lemma nat_be_unat_bits:
  assumes "8 dvd LENGTH('a::len)"
  shows "8 * length (nat_be (unat (w :: 'a word))) \<le> LENGTH('a)"
proof -
  obtain n where n: "LENGTH('a) = 8 * n" using assms by (auto elim: dvdE)
  have "unat w < 256 ^ n" using unat_lt_radix [of w] n by (simp add: radix_def power_mult)
  then have "length (nat_be (unat w)) \<le> n" by (simp add: length_nat_be_le)
  then show ?thesis by (simp add: n)
qed

lemma u8_decode_item:
  assumes "small (num_item w)" and "length (nat_be (unat w)) \<le> 1"
  shows "u8_decode (rlp_new (enc (num_item w))) = Some (Inr (of_nat (unat w)), rlp_new (enc (num_item w)))"
proof (cases "unat w = 0")
  case True
  then show ?thesis using assms(1)
    by (simp add: num_item_def u8_decode_def with_value_enc del: enc.simps)
next
  case False
  then obtain b where b: "nat_be (unat w) = [b]" "b \<noteq> 0"
    using nat_be_hd [of "unat w"] assms(2) by (cases "nat_be (unat w)") auto
  have "unat b = unat w" using lval_nat_be [of "unat w"] b by simp
  then have "of_nat (unat w) = b" by (simp flip: \<open>unat b = unat w\<close>)
  then show ?thesis using assms(1) b
    by (simp add: num_item_def u8_decode_def with_value_enc index_at_def del: enc.simps)
qed

lemma u_decode_item:
  assumes "8 dvd LENGTH('a::len)" and sm: "small (num_item (w :: 'a word))"
  shows "u_decode (rlp_new (enc (num_item w))) = Some (Inr w, rlp_new (enc (num_item w)))"
proof (cases "length (nat_be (unat w)) \<le> 1")
  case True
  have "unat w < 256" using True length_nat_be_le [of "unat w" 1] by simp
  then have "unat (of_nat (unat w) :: u8) = unat w" by (intro unat_of_nat_lt) (simp add: radix_def)
  moreover have "unat (ucast (of_nat (unat w) :: u8) :: 'a word) = unat (of_nat (unat w) :: u8)"
    using assms(1) by (intro unat_ucast_up) (auto dest: dvd_imp_le)
  ultimately have "ucast (of_nat (unat w) :: u8) = w" by (simp add: word_unat_eq_iff)
  then show ?thesis using True u8_decode_item [OF sm True] sm
    by (simp add: u_decode_def num_item_def with_value_enc del: enc.simps)
next
  case False
  let ?bs = "nat_be (unat w)"
  have "8 * length ?bs \<le> LENGTH('a)" using assms(1) by (rule nat_be_unat_bits)
  moreover have "u_decode_loop ?bs (0 :: 'a word) = Some w"
    using u_decode_loop_spec [of ?bs "0 :: 'a word"] calculation unat_lt_radix [of w] by (simp add: lval_nat_be)
  moreover have "?bs ! 0 \<noteq> 0" using False nat_be_hd [of "unat w"] by (cases "unat w = 0") (auto simp: hd_conv_nth)
  moreover have "0 < length ?bs" using False by linarith
  ultimately show ?thesis using False sm
    by (simp add: u_decode_def num_item_def with_value_enc index_at_def del: enc.simps)
qed

lemma num_codec:
  assumes "8 dvd LENGTH('a::len)"
  shows "rlp_codec (u_append :: 'a word encodable) u_decode num_item (\<lambda>_. True)"
proof
  fix v :: "'a word"
  assume sm: "small (num_item v)"
  show "writes (u_append v) (num_item v)"
    using sm unfolding u_append_spec [OF assms] num_item_def by (rule writes_encode_value)
  show "\<exists>r. u_decode (rlp_new (enc (num_item v))) = Some (Inr v, r)"
    using u_decode_item [OF assms sm] by blast
qed

lemma small_short: "length bs < 256 ^ 3 \<Longrightarrow> small (Str bs)"
proof -
  assume l: "length bs < 256 ^ 3"
  then have "length (nat_be (length bs)) \<le> 3" by (simp only: length_nat_be_le)
  then have "length (header 128 (length bs)) \<le> 4" by (simp add: header_def)
  then have "length (enc (Str bs)) \<le> 4 + length bs" by simp
  moreover have "(256 :: nat) ^ 3 + 4 < 2 ^ 32" by simp
  ultimately show ?thesis using l unfolding small_def by linarith
qed

lemma small_num:
  assumes "8 dvd LENGTH('a::len)" and "LENGTH('a) \<le> 1024"
  shows "small (num_item (w :: 'a word))"
proof -
  have "8 * length (nat_be (unat w)) \<le> 1024" using nat_be_unat_bits [OF assms(1), of w] assms(2) by linarith
  then show ?thesis unfolding num_item_def by (intro small_short) simp
qed


text \<open>What a number decodes to on the encoding of any byte string, errors included.\<close>

lemma u8_decode_str:
  assumes "small (Str bs)"
  shows "u8_decode (rlp_new (enc (Str bs))) = Some
    (if 1 < length bs then Inl RlpIsTooBig
     else if bs \<noteq> [] \<and> hd bs = 0 then Inl RlpInvalidIndirection else Inr (of_nat (lval (rev bs))),
     rlp_new (enc (Str bs)))"
proof -
  consider "bs = []" | b where "bs = [b]" | a b cs where "bs = a # b # cs"
    by (metis neq_Nil_conv)
  then show ?thesis
    by cases (use assms in \<open>simp_all add: u8_decode_def with_value_enc index_at_def del: enc.simps\<close>)
qed

lemma u_decode_str:
  assumes "8 dvd LENGTH('a::len)" and sm: "small (Str bs)"
  shows "(u_decode (rlp_new (enc (Str bs))) :: 'a word rlp_st) = Some
    (if LENGTH('a) div 8 < length bs then Inl RlpIsTooBig
     else if bs \<noteq> [] \<and> hd bs = 0 then Inl RlpInvalidIndirection else Inr (of_nat (lval (rev bs))),
     rlp_new (enc (Str bs)))"
proof -
  have d: "1 \<le> LENGTH('a) div 8" 
  proof -
    have "8 \<le> LENGTH('a)" using assms(1) by (auto dest: dvd_imp_le)
    then show ?thesis by linarith
  qed
  show ?thesis
  proof (cases "length bs \<le> 1")
    case True
    have "lval (rev bs) < radix TYPE(8) ^ length (rev bs)" by (rule lval_bound)
    also have "\<dots> \<le> radix TYPE(8) ^ 1" using True by (intro power_increasing) (simp_all add: Suc_leI)
    finally have v: "lval (rev bs) < radix TYPE(8)" by simp
    then have "unat (of_nat (lval (rev bs)) :: u8) = lval (rev bs)" by (rule unat_of_nat_lt)
    then have "ucast (of_nat (lval (rev bs)) :: u8) = (of_nat (lval (rev bs)) :: 'a word)"
      by (metis of_nat_unat)
    then show ?thesis using True d sm
      by (simp add: u_decode_def with_value_enc u8_decode_str del: enc.simps)
  next
    case False
    then have ne: "bs \<noteq> []" "\<not> length bs \<le> 1" by auto
    show ?thesis
    proof (cases "length bs \<le> LENGTH('a) div 8")
      case True
      then have l: "8 * length bs \<le> LENGTH('a)" by linarith
      have "lval (rev bs) < radix TYPE(8) ^ length (rev bs)" by (rule lval_bound)
      also have "\<dots> = 2 ^ (8 * length bs)" by (simp add: radix_def power_mult)
      also have "\<dots> \<le> radix TYPE('a)" using l by (simp add: radix_def)
      finally have "u_decode_loop bs (0 :: 'a word) = Some (of_nat (lval (rev bs)))"
        using u_decode_loop_spec [OF l, of 0] by simp
      then show ?thesis using True ne sm
        by (simp add: u_decode_def with_value_enc index_at_def hd_conv_nth del: enc.simps)
    next
      case False
      then show ?thesis using ne sm by (simp add: u_decode_def with_value_enc del: enc.simps)
    qed
  qed
qed

lemma with_value_list:
  assumes "length (enc (Items xs)) < B"
  shows "with_value f (rlp_new (enc (Items xs))) = Some (Inl RlpExpectedToBeData, rlp_new (enc (Items xs)))"
proof -
  have "rlp_is_list (rlp_new (enc (Items xs)))" using view_is_list [OF view_of_new [OF assms]] .
  then have "192 \<le> unat (enc (Items xs) ! 0)" by (simp add: rlp_is_list_def rlp_new_def word_le_nat_alt)
  then show ?thesis
    using enc_not_Nil [of "Items xs"] by (cases "enc (Items xs)") (simp_all add: with_value_def rlp_new_def decode_value_def)
qed

subsection \<open>The types of the crate\<close>

interpretation bool_codec: rlp_codec bool_append bool_decode bool_item "\<lambda>_. True"
proof
  fix v
  assume sm: "small (bool_item v)"
  show "writes (bool_append v) (bool_item v)"
    using sm unfolding bool_append_def [abs_def] bool_item_def by (rule writes_encode_value)
  show "\<exists>r. bool_decode (rlp_new (enc (bool_item v))) = Some (Inr v, r)"
    using sm by (simp add: bool_decode_def bool_item_def with_value_enc index_at_def del: enc.simps)
qed

interpretation bytes_codec: rlp_codec bytes_append bytes_decode Str "\<lambda>_. True"
proof
  fix v
  assume sm: "small (Str v)"
  show "writes (bytes_append v) (Str v)"
    using sm unfolding bytes_append_def [abs_def] by (rule writes_encode_value)
  show "\<exists>r. bytes_decode (rlp_new (enc (Str v))) = Some (Inr v, r)"
    using sm by (simp add: bytes_decode_def with_value_enc del: enc.simps)
qed

interpretation string_codec: rlp_codec string_append string_decode Str utf8_valid
proof
  fix v
  assume "utf8_valid v" and sm: "small (Str v)"
  then show "writes (string_append v) (Str v)"
    unfolding string_append_def [abs_def] by (intro writes_encode_value)
  show "\<exists>r. string_decode (rlp_new (enc (Str v))) = Some (Inr v, r)"
    using sm \<open>utf8_valid v\<close> by (simp add: string_decode_def with_value_enc del: enc.simps)
qed

interpretation u8_codec: rlp_codec u8_append u8_decode num_item "\<lambda>_. True"
proof
  fix v :: u8
  assume sm: "small (num_item v)"
  have "length (nat_be (unat v)) \<le> 1" using nat_be_unat_bits [of v] by simp
  then have d: "u8_decode (rlp_new (enc (num_item v))) = Some (Inr v, rlp_new (enc (num_item v)))"
    using u8_decode_item [OF sm] by simp
  then show "\<exists>r. u8_decode (rlp_new (enc (num_item v))) = Some (Inr v, r)" by blast
  have "nat_be (unat v) = (if v = 0 then [] else [v])"
    by (rule nat_be_unique [symmetric]) auto
  then have "u8_append v = encode_value (nat_be (unat v))" by (intro ext) (simp add: u8_append_def)
  then show "writes (u8_append v) (num_item v)"
    using sm unfolding num_item_def by (simp only:) (rule writes_encode_value)
qed

interpretation u16_codec: rlp_codec u_append u_decode "num_item :: 16 word \<Rightarrow> item" "\<lambda>_. True"
  by (rule num_codec) simp

interpretation u32_codec: rlp_codec u_append u_decode "num_item :: u32 \<Rightarrow> item" "\<lambda>_. True"
  by (rule num_codec) simp

interpretation u64_codec: rlp_codec u_append u_decode "num_item :: u64 \<Rightarrow> item" "\<lambda>_. True"
  by (rule num_codec) simp

interpretation u128_codec: rlp_codec u_append u_decode "num_item :: 128 word \<Rightarrow> item" "\<lambda>_. True"
  by (rule num_codec) simp

interpretation usize_codec: rlp_codec usize_append usize_decode "\<lambda>n. Str (nat_be n)" "\<lambda>n. n < B"
proof
  fix n :: nat
  assume n: "n < B" and sm: "small (Str (nat_be n))"
  have u: "unat (of_nat n :: u64) = n" using n by (rule unat_of_nat_lt)
  have sm': "small (num_item (of_nat n :: u64))" using sm by (simp add: num_item_def u)
  have "writes (u_append (of_nat n :: u64)) (num_item (of_nat n :: u64))"
    using u64_codec.append_writes sm' by simp
  then show "writes (usize_append n) (Str (nat_be n))"
    by (simp add: usize_append_def [abs_def] num_item_def u)
  have "u_decode (rlp_new (enc (num_item (of_nat n :: u64)))) = Some (Inr (of_nat n :: u64), rlp_new (enc (num_item (of_nat n :: u64))))"
    using sm' by (intro u_decode_item) simp_all
  then show "\<exists>r. usize_decode (rlp_new (enc (Str (nat_be n)))) = Some (Inr n, r)"
    by (simp add: usize_decode_def num_item_def u)
qed

interpretation opt_bytes: rlp_codec "option_append bytes_append" "option_decode bytes_decode" "option_item Str" "pred_option (\<lambda>_. True)"
  by (rule bytes_codec.option_codec)


subsection \<open>All types together\<close>

text \<open>
  The types that \<^verbatim>\<open>impls.rs\<close> implements both traits for, nested as \<^verbatim>\<open>Option\<close> and \<^verbatim>\<open>Box\<close> nest, and their values. \<^verbatim>\<open>Vec<u8>\<close>,
  \<^verbatim>\<open>Bytes\<close> and \<^verbatim>\<open>BytesMut\<close> are \<open>TBytes\<close>. For each type its codec is the definition above.
\<close>

datatype rlp_type =
    TBool | TU8 | TU16 | TU32 | TU64 | TU128 | TUsize | TBytes | TString | TOption rlp_type | TBox rlp_type

datatype rlp_value =
    is_VBool: VBool (un_bool: bool) | is_VU8: VU8 (un_u8: u8) | is_VU16: VU16 (un_u16: "16 word") | is_VU32: VU32 (un_u32: u32)
  | is_VU64: VU64 (un_u64: u64) | is_VU128: VU128 (un_u128: "128 word") | is_VUsize: VUsize (un_usize: nat)
  | is_VBytes: VBytes (un_bytes: bytes) | is_VString: VString (un_string: bytes)
  | is_VOption: VOption (un_option: "rlp_value option") | is_VBox: VBox (un_box: "rlp_value boxed")

text \<open>The values of a type: a \<^verbatim>\<open>usize\<close> has 64 bits and a \<^verbatim>\<open>String\<close> is valid UTF-8.\<close>

primrec has_type :: "rlp_type \<Rightarrow> rlp_value \<Rightarrow> bool" where
  "has_type TBool = is_VBool"
| "has_type TU8 = is_VU8"
| "has_type TU16 = is_VU16"
| "has_type TU32 = is_VU32"
| "has_type TU64 = is_VU64"
| "has_type TU128 = is_VU128"
| "has_type TUsize = (\<lambda>v. is_VUsize v \<and> un_usize v < B)"
| "has_type TBytes = is_VBytes"
| "has_type TString = (\<lambda>v. is_VString v \<and> utf8_valid (un_string v))"
| "has_type (TOption t) = (\<lambda>v. is_VOption v \<and> pred_option (has_type t) (un_option v))"
| "has_type (TBox t) = (\<lambda>v. is_VBox v \<and> has_type t (unbox (un_box v)))"

primrec value_append :: "rlp_type \<Rightarrow> rlp_value encodable" where
  "value_append TBool = (\<lambda>v. bool_append (un_bool v))"
| "value_append TU8 = (\<lambda>v. u8_append (un_u8 v))"
| "value_append TU16 = (\<lambda>v. u_append (un_u16 v))"
| "value_append TU32 = (\<lambda>v. u_append (un_u32 v))"
| "value_append TU64 = (\<lambda>v. u_append (un_u64 v))"
| "value_append TU128 = (\<lambda>v. u_append (un_u128 v))"
| "value_append TUsize = (\<lambda>v. usize_append (un_usize v))"
| "value_append TBytes = (\<lambda>v. bytes_append (un_bytes v))"
| "value_append TString = (\<lambda>v. string_append (un_string v))"
| "value_append (TOption t) = (\<lambda>v. option_append (value_append t) (un_option v))"
| "value_append (TBox t) = (\<lambda>v. box_append (value_append t) (un_box v))"

primrec value_decode :: "rlp_type \<Rightarrow> rlp_value decoder" where
  "value_decode TBool = decode_map VBool bool_decode"
| "value_decode TU8 = decode_map VU8 u8_decode"
| "value_decode TU16 = decode_map VU16 u_decode"
| "value_decode TU32 = decode_map VU32 u_decode"
| "value_decode TU64 = decode_map VU64 u_decode"
| "value_decode TU128 = decode_map VU128 u_decode"
| "value_decode TUsize = decode_map VUsize usize_decode"
| "value_decode TBytes = decode_map VBytes bytes_decode"
| "value_decode TString = decode_map VString string_decode"
| "value_decode (TOption t) = decode_map VOption (option_decode (value_decode t))"
| "value_decode (TBox t) = decode_map VBox (box_decode (value_decode t))"

text \<open>The item a value is encoded as: a number as its shortest big-endian bytes, an optional value as a list of at most one item.\<close>

primrec value_item :: "rlp_type \<Rightarrow> rlp_value \<Rightarrow> item" where
  "value_item TBool = (\<lambda>v. bool_item (un_bool v))"
| "value_item TU8 = (\<lambda>v. num_item (un_u8 v))"
| "value_item TU16 = (\<lambda>v. num_item (un_u16 v))"
| "value_item TU32 = (\<lambda>v. num_item (un_u32 v))"
| "value_item TU64 = (\<lambda>v. num_item (un_u64 v))"
| "value_item TU128 = (\<lambda>v. num_item (un_u128 v))"
| "value_item TUsize = (\<lambda>v. Str (nat_be (un_usize v)))"
| "value_item TBytes = (\<lambda>v. Str (un_bytes v))"
| "value_item TString = (\<lambda>v. Str (un_string v))"
| "value_item (TOption t) = (\<lambda>v. option_item (value_item t) (un_option v))"
| "value_item (TBox t) = (\<lambda>v. value_item t (unbox (un_box v)))"

lemma value_codec: "rlp_codec (value_append t) (value_decode t) (value_item t) (has_type t)"
proof (induction t)
  case (TOption t)
  show ?case unfolding value_append.simps value_decode.simps value_item.simps has_type.simps
    by (rule rlp_codec.tagged_codec [OF rlp_codec.option_codec [OF TOption]]) simp
next
  case (TBox t)
  show ?case unfolding value_append.simps value_decode.simps value_item.simps has_type.simps
    by (rule rlp_codec.tagged_codec [OF rlp_codec.box_codec [OF TBox]]) simp
qed (use bool_codec.tagged_codec [of is_VBool VBool un_bool] u8_codec.tagged_codec [of is_VU8 VU8 un_u8]
    u16_codec.tagged_codec [of is_VU16 VU16 un_u16] u32_codec.tagged_codec [of is_VU32 VU32 un_u32]
    u64_codec.tagged_codec [of is_VU64 VU64 un_u64] u128_codec.tagged_codec [of is_VU128 VU128 un_u128]
    usize_codec.tagged_codec [of is_VUsize VUsize un_usize] bytes_codec.tagged_codec [of is_VBytes VBytes un_bytes]
    string_codec.tagged_codec [of is_VString VString un_string] in simp_all)

interpretation all_types: rlp_codec "value_append t" "value_decode t" "value_item t" "has_type t"
  by (rule value_codec)

subsection \<open>Properties\<close>

text \<open>
  C9. Round trips of the codec, for every type that implements both traits (\<^verbatim>\<open>bool\<close>, the unsigned integers, \<^verbatim>\<open>usize\<close>, byte strings,
  \<^verbatim>\<open>String\<close>, and \<^verbatim>\<open>Option\<close> and \<^verbatim>\<open>Box\<close> of such types at any depth) and every value of it whose encoding is shorter than
  \<open>2\<^sup>3\<^sup>2\<close> bytes, the limit of the stream: it is encoded as its item and decoded to itself, and a list of such values goes through
  \<^verbatim>\<open>encode_list\<close> and \<^verbatim>\<open>decode_list\<close> unchanged.
\<close>

theorem codec_roundtrips:
  assumes "has_type t v" and "length (enc (value_item t v)) < 2 ^ 32"
    and "list_all (has_type t) vs" and "length (enc (Items (map (value_item t) vs))) < 2 ^ 32"
  shows "rlp_encode (value_append t) v = Some (enc (value_item t v)) \<and>
    (rlp_encode (value_append t) v \<bind> rlp_decode (value_decode t)) = ok v \<and>
    rlp_encode_list (value_append t) vs = Some (enc (Items (map (value_item t) vs))) \<and>
    (rlp_encode_list (value_append t) vs \<bind> rlp_decode_list (value_decode t)) = Some vs"
proof -
  have "small (value_item t v)" "small (Items (map (value_item t) vs))" using assms(2,4) by (simp_all only: small_def)
  then show ?thesis using assms(1,3) all_types.encode_spec all_types.roundtrip all_types.encode_list_spec all_types.list_roundtrip by blast
qed

theorem codec_roundtrips_witness:
  "(rlp_encode (value_append (TOption (TBox TString))) (VOption (Some (VBox (Box (VString [0xc3, 0xa9])))))
      \<bind> rlp_decode (value_decode (TOption (TBox TString)))) = ok (VOption (Some (VBox (Box (VString [0xc3, 0xa9]))))) \<and>
   (rlp_encode_list (value_append TU64) [VU64 5, VU64 0] \<bind> rlp_decode_list (value_decode TU64)) = Some [VU64 5, VU64 0]"
proof
  show "(rlp_encode (value_append (TOption (TBox TString))) (VOption (Some (VBox (Box (VString [0xc3, 0xa9])))))
      \<bind> rlp_decode (value_decode (TOption (TBox TString)))) = ok (VOption (Some (VBox (Box (VString [0xc3, 0xa9])))))"
    by (rule codec_roundtrips [of _ _ "[]", THEN conjunct2, THEN conjunct1]) (simp_all add: option_item_def header_def cont_byte_def)
  show "(rlp_encode_list (value_append TU64) [VU64 5, VU64 0] \<bind> rlp_decode_list (value_decode TU64)) = Some [VU64 5, VU64 0]"
    by (rule codec_roundtrips [of _ "VU64 0", THEN conjunct2, THEN conjunct2, THEN conjunct2])
       (simp_all add: num_item_def header_def nat_be.simps)
qed

text \<open>
  Decoding a number from the encoding of any byte string, on every branch: too many bytes for
  the type and a leading zero byte are rejected with their error (so only the shortest
  representation is accepted), otherwise the result is the big-endian value; a list is rejected.
\<close>

theorem number_decoding:
  assumes "8 dvd LENGTH('a::len)" and "small (Str bs)" and "length (enc (Items xs)) < B"
  shows "rlp_decode (u_decode :: 'a word decoder) (enc (Str bs)) =
      (if LENGTH('a) div 8 < length bs then err RlpIsTooBig
       else if bs \<noteq> [] \<and> hd bs = 0 then err RlpInvalidIndirection else ok (of_nat (lval (rev bs)))) \<and>
    rlp_decode (u_decode :: 'a word decoder) (enc (Items xs)) = err RlpExpectedToBeData"
proof -
  have "(u_decode (rlp_new (enc (Items xs))) :: 'a word rlp_st) = Some (Inl RlpExpectedToBeData, rlp_new (enc (Items xs)))"
    unfolding u_decode_def by (rule with_value_list [OF assms(3)])
  then show ?thesis using u_decode_str [OF assms(1,2)]
    by (simp add: rlp_decode_def rlp_as_val_def del: enc.simps)
qed

theorem number_decoding_witness:
  "rlp_decode (u_decode :: 16 word decoder) (enc (Str [0, 7])) = err RlpInvalidIndirection"
  using number_decoding [where 'a = 16 and bs = "[0, 7]" and xs = "[]"] small_short [of "[0, 7]"]
  by (simp add: header_def B_eq)

end
