(* ===== verification/Triehash.thy ===== *)
theory Triehash
  imports Rlp_Codec Btree_Map
begin

text \<open>
  The root hash of a Merkle Patricia trie (\<^verbatim>\<open>triehash/src/lib.rs\<close>), computed from the entries without
  building the trie. The hash function is a parameter; the bounded recursion of \<^verbatim>\<open>hash256rlp\<close> and
  \<^verbatim>\<open>hash256aux\<close> carries a fuel, and \<open>trie_root\<close> starts with more than the longest key has nibbles.
\<close>

subsection \<open>Keys and nibbles\<close>

text \<open>\<^verbatim>\<open>Iterator::position\<close>\<close>

fun iter_position :: "('a \<Rightarrow> bool) \<Rightarrow> 'a list \<Rightarrow> nat option" where
  "iter_position P [] = None"
| "iter_position P (x # xs) = (if P x then Some 0 else map_option Suc (iter_position P xs))"

definition shared_prefix_len :: "'a list \<Rightarrow> 'a list \<Rightarrow> nat" where
  "shared_prefix_len first second =
     (case iter_position (\<lambda>(f, s). f \<noteq> s) (zip first second) of
        Some i \<Rightarrow> i
      | None \<Rightarrow> min (length first) (length second))"

text \<open>The bytes of the pairs that \<^verbatim>\<open>chunks(2)\<close> yields; a single nibble at the end is out of range.\<close>

fun pack_chunks :: "bytes \<Rightarrow> bytes may_panic" where
  "pack_chunks [] = Some []"
| "pack_chunks [a] = panic"
| "pack_chunks (a # b # ns) = do { bs \<leftarrow> pack_chunks ns; Some ((push_bit 4 a OR b) # bs) }"

definition hex_prefix_encode :: "bytes \<Rightarrow> bool \<Rightarrow> bytes may_panic" where
  "hex_prefix_encode nibbles leaf =
     do {
       let inlen = length nibbles;
       let oddness_factor = inlen mod 2;
       let bits = push_bit 4 ((of_nat inlen AND 1) + 2 * of_bool leaf);
       first_byte \<leftarrow> (if oddness_factor = 1 then do { n \<leftarrow> index_at nibbles 0; padd bits n } else Some bits);
       rest \<leftarrow> slice_range nibbles oddness_factor (length nibbles);
       bs \<leftarrow> pack_chunks rest;
       Some (first_byte # bs) }"

subsection \<open>The encoding of a node\<close>

definition hash256aux ::
  "((bytes \<times> bytes) list \<Rightarrow> nat \<Rightarrow> rlp_stream \<Rightarrow> rlp_stream may_panic) \<Rightarrow> (bytes \<Rightarrow> bytes) \<Rightarrow>
   (bytes \<times> bytes) list \<Rightarrow> nat \<Rightarrow> rlp_stream \<Rightarrow> rlp_stream may_panic" where
  "hash256aux rlp H entries pre_len stream =
     do {
       s \<leftarrow> rlp entries pre_len stream_new;
       out \<leftarrow> stream_out s;
       if length out \<le> 31 then append_raw out 1 stream
       else stream_append bytes_append (H out) stream }"

text \<open>\<^verbatim>\<open>take_while(|pair| pair.0.as_ref()[pre_len] == i).count()\<close>\<close>

fun count_nibble :: "nat \<Rightarrow> u8 \<Rightarrow> (bytes \<times> bytes) list \<Rightarrow> nat may_panic" where
  "count_nibble pre_len i [] = Some 0"
| "count_nibble pre_len i ((k, v) # entries) =
     do {
       n \<leftarrow> index_at k pre_len;
       if n = i then map_option Suc (count_nibble pre_len i entries) else Some 0 }"

fun branch_loop ::
  "((bytes \<times> bytes) list \<Rightarrow> nat \<Rightarrow> rlp_stream \<Rightarrow> rlp_stream may_panic) \<Rightarrow> (bytes \<times> bytes) list \<Rightarrow> nat \<Rightarrow>
   nat list \<Rightarrow> nat \<Rightarrow> rlp_stream \<Rightarrow> rlp_stream may_panic" where
  "branch_loop aux entries pre_len [] begin stream = Some stream"
| "branch_loop aux entries pre_len (i # is) begin stream =
     do {
       len \<leftarrow> count_nibble pre_len (of_nat i) (drop begin entries);
       stream \<leftarrow>
         (if len = 0 then append_empty_data stream
          else do { part \<leftarrow> slice_range entries begin (begin + len); aux part (pre_len + 1) stream });
       branch_loop aux entries pre_len is (begin + len) stream }"

fun hash256rlp ::
  "(bytes \<Rightarrow> bytes) \<Rightarrow> nat \<Rightarrow> (bytes \<times> bytes) list \<Rightarrow> nat \<Rightarrow> rlp_stream \<Rightarrow> rlp_stream may_panic" where
  "hash256rlp H 0 entries pre_len stream = panic"
| "hash256rlp H (Suc fuel) entries pre_len stream =
     (case entries of
        [] \<Rightarrow> append_empty_data stream
      | (key, val) # others \<Rightarrow>
          if others = [] then
            do {
              stream \<leftarrow> begin_list 2 stream;
              suffix \<leftarrow> slice_range key pre_len (length key);
              path \<leftarrow> hex_prefix_encode suffix True;
              stream \<leftarrow> append_iter path stream;
              stream_append bytes_append val stream }
          else
            let shared_prefix = fold (\<lambda>(k, _) acc. min (shared_prefix_len key k) acc) others (length key) in
            if shared_prefix > pre_len then
              do {
                stream \<leftarrow> begin_list 2 stream;
                part \<leftarrow> slice_range key pre_len shared_prefix;
                path \<leftarrow> hex_prefix_encode part False;
                stream \<leftarrow> append_iter path stream;
                hash256aux (hash256rlp H fuel) H entries shared_prefix stream }
            else
              do {
                stream \<leftarrow> begin_list 17 stream;
                let begin = (if pre_len = length key then 1 else 0);
                stream \<leftarrow> branch_loop (hash256aux (hash256rlp H fuel) H) entries pre_len [0..<16] begin stream;
                if pre_len = length key then stream_append bytes_append val stream
                else append_empty_data stream })"

subsection \<open>Roots\<close>

definition key_nibbles :: "bytes \<Rightarrow> bytes" where
  "key_nibbles k = concat (map (\<lambda>b. [drop_bit 4 b, b AND 0xf]) k)"

definition collect_nibbles :: "bytes list \<Rightarrow> bytes \<times> nat list" where
  "collect_nibbles keys =
     fold (\<lambda>k (nibbles, lens). let nibbles = nibbles @ key_nibbles k in (nibbles, lens @ [length nibbles]))
       keys ([], [0])"

fun slice_keys :: "bytes \<Rightarrow> (bytes \<times> bytes) list \<Rightarrow> (nat \<times> nat) list \<Rightarrow> (bytes \<times> bytes) list may_panic" where
  "slice_keys nibbles ((k, v) # entries) ((a, b) # windows) =
     do { ns \<leftarrow> slice_range nibbles a b; rest \<leftarrow> slice_keys nibbles entries windows; Some ((ns, v) # rest) }"
| "slice_keys nibbles entries windows = Some []"

text \<open>The fuel: one more than the number of all nibbles.\<close>

definition trie_root :: "(bytes \<Rightarrow> bytes) \<Rightarrow> (bytes \<times> bytes) list \<Rightarrow> bytes may_panic" where
  "trie_root H input =
     do {
       let input = btree_collect input;
       let (nibbles, lens) = collect_nibbles (map fst input);
       input \<leftarrow> slice_keys nibbles input (zip lens (drop 1 lens));
       stream \<leftarrow> hash256rlp H (Suc (length nibbles)) input 0 stream_new;
       out \<leftarrow> stream_out stream;
       Some (H out) }"

definition sec_trie_root :: "(bytes \<Rightarrow> bytes) \<Rightarrow> (bytes \<times> bytes) list \<Rightarrow> bytes may_panic" where
  "sec_trie_root H input = trie_root H (map (\<lambda>(k, v). (H k, v)) input)"

fun encode_indices :: "nat \<Rightarrow> bytes list \<Rightarrow> (bytes \<times> bytes) list may_panic" where
  "encode_indices i [] = Some []"
| "encode_indices i (v # vs) =
     do { k \<leftarrow> rlp_encode usize_append i; rest \<leftarrow> encode_indices (i + 1) vs; Some ((k, v) # rest) }"

definition ordered_trie_root :: "(bytes \<Rightarrow> bytes) \<Rightarrow> bytes list \<Rightarrow> bytes may_panic" where
  "ordered_trie_root H input = do { entries \<leftarrow> encode_indices 0 input; trie_root H entries }"

subsection \<open>The trie\<close>

text \<open>
  What the root stands for: a trie over nibbles in which a path with a single entry is a leaf, a
  shared path an extension, and a node with a choice a branch.
\<close>

datatype trie = Empty | Leaf bytes bytes | Ext bytes trie | Branch "trie list" "bytes option"

fun lookup :: "trie \<Rightarrow> bytes \<Rightarrow> bytes option" where
  "lookup Empty k = None"
| "lookup (Leaf ns v) k = (if k = ns then Some v else None)"
| "lookup (Ext ns t) k = (if prefix ns k then lookup t (drop (length ns) k) else None)"
| "lookup (Branch ts v) [] = v"
| "lookup (Branch ts v) (n # k) = (if unat n < length ts then lookup (ts ! unat n) k else None)"

definition nibble_list :: "bytes \<Rightarrow> bool" where
  "nibble_list ns = list_all (\<lambda>n. n < 16) ns"

fun is_branch :: "trie \<Rightarrow> bool" where
  "is_branch (Branch ts v) = True"
| "is_branch t = False"

text \<open>A trie is compact when no node could be merged with another.\<close>

fun compact :: "trie \<Rightarrow> bool" where
  "compact Empty = True"
| "compact (Leaf ns v) = nibble_list ns"
| "compact (Ext ns t) = (nibble_list ns \<and> ns \<noteq> [] \<and> is_branch t \<and> compact t)"
| "compact (Branch ts v) =
     (length ts = 16 \<and> list_all compact ts \<and>
      2 \<le> length (filter (\<lambda>t. t \<noteq> Empty) ts) + (if v = None then 0 else 1))"

fun pack :: "bytes \<Rightarrow> bytes" where
  "pack (a # b # ns) = of_nat (16 * unat a + unat b) # pack ns"
| "pack ns = []"

text \<open>The hex-prefix notation of a path.\<close>

definition hex_prefix :: "bytes \<Rightarrow> bool \<Rightarrow> bytes" where
  "hex_prefix ns leaf =
     (let flag = (if leaf then 32 else 0) in
      if even (length ns) then flag # pack ns else (flag + 16 + hd ns) # pack (tl ns))"

text \<open>A node is an RLP list; a node of 32 bytes or more is replaced in its parent by its hash.\<close>

definition node_ref :: "(bytes \<Rightarrow> bytes) \<Rightarrow> item \<Rightarrow> item" where
  "node_ref H x = (if length (enc x) < 32 then x else Str (H (enc x)))"

fun node_item :: "(bytes \<Rightarrow> bytes) \<Rightarrow> trie \<Rightarrow> item" where
  "node_item H Empty = Str []"
| "node_item H (Leaf ns v) = Items [Str (hex_prefix ns True), Str v]"
| "node_item H (Ext ns t) = Items [Str (hex_prefix ns False), node_ref H (node_item H t)]"
| "node_item H (Branch ts v) =
     Items (map (\<lambda>t. node_ref H (node_item H t)) ts @ [Str (case v of None \<Rightarrow> [] | Some w \<Rightarrow> w)])"

subsection \<open>Paths\<close>

lemma shared_prefix_len_simps [simp]:
  "shared_prefix_len [] ys = 0" "shared_prefix_len xs [] = 0"
  "shared_prefix_len (x # xs) (y # ys) = (if x = y then Suc (shared_prefix_len xs ys) else 0)"
  by (simp_all add: shared_prefix_len_def split: option.splits)

lemma le_shared_prefix_len:
  "m \<le> shared_prefix_len xs ys \<longleftrightarrow> m \<le> length xs \<and> m \<le> length ys \<and> take m xs = take m ys"
proof (induction xs arbitrary: ys m)
  case (Cons x xs)
  then show ?case by (cases ys; cases m) auto
qed auto

lemma le_shared_fold:
  "m \<le> fold (\<lambda>(k, _) acc. min (shared_prefix_len key k) acc) E a \<longleftrightarrow>
     m \<le> a \<and> (\<forall>(k, _) \<in> set E. m \<le> shared_prefix_len key k)"
  by (induction E arbitrary: a) (auto simp: split_def)

lemma pack_chunks_pack: "even (length ns) \<Longrightarrow> nibble_list ns \<Longrightarrow> pack_chunks ns = Some (pack ns)"
  by (induction ns rule: pack_chunks.induct) (simp_all add: nibble_list_def nibble_join)

lemma hex_prefix_encode_spec:
  assumes "nibble_list ns"
  shows "hex_prefix_encode ns leaf = Some (hex_prefix ns leaf)"
proof (cases "even (length ns)")
  case True
  then have "even (of_nat (length ns) :: u8)" by (auto elim!: evenE)
  then have "of_nat (length ns) AND (1 :: u8) = 0" by (simp add: and_one_eq mod_2_eq_odd)
  then show ?thesis using True pack_chunks_pack [OF True assms]
    by (auto simp: hex_prefix_encode_def hex_prefix_def slice_range_def Let_def even_iff_mod_2_eq_zero)
next
  case False
  then obtain n ms where ns: "ns = n # ms" "even (length ms)" by (cases ns) auto
  have n: "unat n < 16" "nibble_list ms" using assms by (simp_all add: ns(1) nibble_list_def word_less_nat_alt)
  have "odd (of_nat (length ns) :: u8)" using False by (auto elim!: oddE)
  then have "of_nat (length ns) AND (1 :: u8) = 1" by (simp add: and_one_eq mod_2_eq_odd)
  moreover have "padd 16 n = Some (16 + n)" "padd 48 n = Some (32 + 16 + n)"
    using n(1) by (simp_all add: padd_def)
  ultimately show ?thesis using False pack_chunks_pack [OF ns(2) n(2)]
    by (auto simp: hex_prefix_encode_def hex_prefix_def slice_range_def index_at_def ns(1) odd_iff_mod_2_eq_one)
qed

lemma length_pack: "length (pack ns) = length ns div 2"
  by (induction ns rule: pack.induct) auto

lemma length_hex_prefix: "length (hex_prefix ns leaf) \<le> Suc (length ns)"
  by (auto simp: hex_prefix_def Let_def length_pack)

subsection \<open>Writing a list item by item\<close>

text \<open>
  The appending operations differ only in whether they look at the flag \<^verbatim>\<open>finished_list\<close>, so they are
  compared up to that flag with \<^verbatim>\<open>append\<close>, for which the encoder's lemmas are proved.
\<close>

definition put_raw :: "bytes \<Rightarrow> rlp_stream \<Rightarrow> rlp_stream may_panic" where
  "put_raw bs s = Some (s\<lparr> buffer := buffer s @ bs \<rparr>)"

definition same :: "(rlp_stream \<Rightarrow> rlp_stream may_panic) \<Rightarrow> (rlp_stream \<Rightarrow> rlp_stream may_panic) \<Rightarrow> bool" where
  "same f g \<longleftrightarrow> (\<forall>s t. clear_flag s = clear_flag t \<longrightarrow>
     map_option clear_flag (f s) = map_option clear_flag (g t))"

abbreviation append_with :: "(rlp_stream \<Rightarrow> rlp_stream may_panic) \<Rightarrow> rlp_stream \<Rightarrow> rlp_stream may_panic" where
  "append_with w \<equiv> stream_append (\<lambda>w. w) w"

lemma sameD: "same f g \<Longrightarrow> clear_flag s = clear_flag t \<Longrightarrow> map_option clear_flag (f s) = map_option clear_flag (g t)"
  by (simp add: same_def)

lemma same_bind:
  assumes "same f g" "same f' g'"
  shows "same (\<lambda>s. f s \<bind> f') (\<lambda>s. g s \<bind> g')"
  unfolding same_def
proof (intro allI impI)
  fix s t
  assume "clear_flag s = clear_flag t"
  then have "map_option clear_flag (f s) = map_option clear_flag (g t)" by (rule sameD [OF assms(1)])
  then show "map_option clear_flag (f s \<bind> f') = map_option clear_flag (g t \<bind> g')"
    using assms(2) by (cases "f s"; cases "g t") (auto simp: same_def)
qed

lemma stream_append_flag: "clear_flag s = clear_flag t \<Longrightarrow> stream_append ra v s = append_with (ra v) t"
  by (simp add: stream_append_def clear_flag_def)

lemma same_stream_append: "same (stream_append ra v) (append_with (ra v))"
  unfolding same_def by (intro allI impI arg_cong [where f = "map_option clear_flag"] stream_append_flag)

lemma same_append_iter: "same (append_iter bs) (append_with (encode_value bs))"
proof -
  have "append_iter bs = append_with (encode_value bs)" by (rule ext) (simp add: append_iter_def stream_append_def)
  then show ?thesis using same_stream_append [of "\<lambda>w. w" "encode_value bs"] by simp
qed

lemma same_append_raw: "same (append_raw bs 1) (append_with (put_raw bs))"
  unfolding same_def
proof (intro allI impI)
  fix s t
  assume st: "clear_flag s = clear_flag t"
  have "append_with (put_raw bs) t = note_appended 1 ((clear_flag t)\<lparr> buffer := buffer (clear_flag t) @ bs \<rparr>)"
    by (simp add: stream_append_def put_raw_def clear_flag_def)
  also have "\<dots> = note_appended 1 ((s\<lparr> buffer := buffer s @ bs \<rparr>)\<lparr> finished_list := False \<rparr>)"
    unfolding st [symmetric] by (cases s) (simp add: clear_flag_def)
  finally show "map_option clear_flag (append_raw bs 1 s) = map_option clear_flag (append_with (put_raw bs) t)"
    by (simp only: append_raw_def note_appended_clear)
qed

lemma writes_put_raw: "writes (put_raw (enc x)) x"
  by (simp add: writes_def put_raw_def)

text \<open>\<open>f\<close> appends the items \<open>xs\<close>.\<close>

definition builds :: "(rlp_stream \<Rightarrow> rlp_stream may_panic) \<Rightarrow> item list \<Rightarrow> bool" where
  "builds f xs \<longleftrightarrow> (\<exists>ws. list_all2 writes ws xs \<and> same f (append_all (\<lambda>w. w) ws))"

lemma append_all_append: "append_all ra (vs @ ws) s = append_all ra vs s \<bind> append_all ra ws"
proof (induction vs arbitrary: s)
  case (Cons v vs)
  then show ?case by (cases "stream_append ra v s") simp_all
qed simp

lemma append_all_one: "append_all ra [v] s = stream_append ra v s"
  by (cases "stream_append ra v s") simp_all

lemma builds_Nil: "builds Some []"
  by (auto simp: builds_def same_def intro!: exI [of _ "[]"])

lemma builds_one: "writes w x \<Longrightarrow> same f (append_with w) \<Longrightarrow> builds f [x]"
  unfolding builds_def by (intro exI [of _ "[w]"]) (simp add: same_def append_all_one del: append_all.simps)

lemma builds_bind: "builds f xs \<Longrightarrow> builds g ys \<Longrightarrow> builds (\<lambda>s. f s \<bind> g) (xs @ ys)"
  unfolding builds_def
proof (elim exE conjE)
  fix ws vs
  assume "list_all2 writes ws xs" "same f (append_all (\<lambda>w. w) ws)" "list_all2 writes vs ys" "same g (append_all (\<lambda>w. w) vs)"
  then show "\<exists>us. list_all2 writes us (xs @ ys) \<and> same (\<lambda>s. f s \<bind> g) (append_all (\<lambda>w. w) us)"
    using same_bind [of f "append_all (\<lambda>w. w) ws" g "append_all (\<lambda>w. w) vs"]
    by (intro exI [of _ "ws @ vs"]) (simp add: append_all_append [abs_def] list_all2_appendI)
qed

lemma builds_Cons: "builds f [x] \<Longrightarrow> builds g ys \<Longrightarrow> builds (\<lambda>s. f s \<bind> g) (x # ys)"
  using builds_bind [of f "[x]" g ys] by simp

lemma builds_bytes: "small (Str v) \<Longrightarrow> builds (stream_append bytes_append v) [Str v]"
  using same_stream_append [of bytes_append v] writes_encode_value [of v]
  by (intro builds_one [of "encode_value v"]) (simp_all add: bytes_append_def [abs_def])

lemma builds_append_iter: "small (Str v) \<Longrightarrow> builds (append_iter v) [Str v]"
  by (intro builds_one [OF writes_encode_value same_append_iter])

lemma builds_append_raw: "builds (append_raw (enc x) 1) [x]"
  by (intro builds_one [OF writes_put_raw same_append_raw])

lemma append_empty_data_raw: "append_empty_data = append_raw (enc (Str [])) 1"
  by (rule ext) (simp add: append_empty_data_def append_raw_def header_def)

lemma builds_empty_data: "builds append_empty_data [Str []]"
  unfolding append_empty_data_raw by (rule builds_append_raw)

lemma stream_out_clear: "stream_out (clear_flag s) = stream_out s"
  by (simp add: stream_out_def is_finished_def)

lemma out_of_clear: "map_option clear_flag r = map_option clear_flag r' \<Longrightarrow> r \<bind> stream_out = r' \<bind> stream_out"
  by (cases r; cases r') (simp_all, metis stream_out_clear)

lemma builds_list:
  assumes "builds f xs" "length xs = n" "small (Items xs)"
  shows "(begin_list n stream_new \<bind> f) \<bind> stream_out = Some (enc (Items xs))"
proof -
  obtain ws where ws: "list_all2 writes ws xs" "same f (append_all (\<lambda>w. w) ws)" using assms(1) by (auto simp: builds_def)
  then have n: "length ws = n" using assms(2) list_all2_lengthD by blast
  have w: "writes (append_list (\<lambda>w. w) ws) (Items xs)" using ws(1) assms(3) by (intro writes_append_list) simp_all
  obtain g where "append_list (\<lambda>w. w) ws stream_new = Some (stream_new\<lparr> buffer := buffer stream_new @ enc (Items xs), finished_list := g \<rparr>)"
    using writes_done [OF w room_new [OF assms(3)]] by (auto simp: stream_new_def new_with_buffer_def)
  then have "(begin_list n stream_new \<bind> append_all (\<lambda>w. w) ws) \<bind> stream_out = Some (enc (Items xs))"
    by (simp add: append_list_def n stream_out_def is_finished_def stream_new_def new_with_buffer_def)
  moreover have "same (\<lambda>_. begin_list n stream_new \<bind> f) (\<lambda>_. begin_list n stream_new \<bind> append_all (\<lambda>w. w) ws)"
    by (rule same_bind [OF _ ws(2)]) (simp add: same_def)
  then have "(begin_list n stream_new \<bind> f) \<bind> stream_out
      = (begin_list n stream_new \<bind> append_all (\<lambda>w. w) ws) \<bind> stream_out"
    by (intro out_of_clear sameD [OF _ refl])
  ultimately show ?thesis by simp
qed

lemma builds_aux:
  assumes "(rlp E k stream_new \<bind> stream_out) = Some (enc x)" "small (Str (H (enc x)))"
  shows "builds (hash256aux rlp H E k) [node_ref H x]"
proof -
  have "hash256aux rlp H E k = (if length (enc x) < 32 then append_raw (enc x) 1 else stream_append bytes_append (H (enc x)))"
    using assms(1) by (intro ext) (cases "rlp E k stream_new"; auto simp: hash256aux_def)
  then show ?thesis using assms(2) builds_append_raw [of x] builds_bytes by (simp add: node_ref_def)
qed

subsection \<open>Sizes\<close>

lemma length_header: "n < 2 ^ 32 \<Longrightarrow> length (header b n) \<le> 5"
  using length_nat_be_le [of n 4] by (simp add: header_def)

lemma length_enc_Str: "length bs < 2 ^ 32 \<Longrightarrow> length (enc (Str bs)) \<le> length bs + 5"
  using length_header [of "length bs" 128] by simp

lemma small_Items: "length (concat (map enc xs)) < 2 ^ 31 \<Longrightarrow> small (Items xs)"
  using length_header [of "length (concat (map enc xs))" 192] by (simp add: small_def)

lemma small_Str: "length bs < 2 ^ 31 \<Longrightarrow> small (Str bs)"
  using length_enc_Str [of bs] by (simp add: small_def del: enc.simps)

lemma length_node_ref:
  assumes "\<And>bs. length (H bs) < 2 ^ 16"
  shows "length (enc (node_ref H x)) \<le> 2 ^ 16 + 5"
  using length_enc_Str [of "H (enc x)"] assms [of "enc x"] by (auto simp: node_ref_def simp del: enc.simps)

lemma small_pair:
  assumes "length a \<le> 2 ^ 29" "length (enc x) \<le> 2 ^ 30"
  shows "small (Items [Str a, x])"
  using length_enc_Str [of a] assms by (intro small_Items) (simp del: enc.simps)

lemma small_node:
  assumes "\<And>x. x \<in> set xs \<Longrightarrow> length (enc x) \<le> 2 ^ 16 + 5" "length xs = 16" "length v < 2 ^ 30"
  shows "small (Items (xs @ [Str v]))"
proof -
  have "length (concat (map enc xs)) \<le> length xs * (2 ^ 16 + 5)"
    using assms(1)
  proof (induction xs)
    case (Cons x xs)
    then have "length (enc x) \<le> 2 ^ 16 + 5" "length (concat (map enc xs)) \<le> length xs * (2 ^ 16 + 5)" by simp_all
    then show ?case by (simp del: enc.simps)
  qed simp
  then show ?thesis using length_enc_Str [of v] assms(2,3) by (intro small_Items) (simp del: enc.simps)
qed

subsection \<open>The children of a branch\<close>

lemma filter_split_nibble:
  fixes f :: "'a \<Rightarrow> nat"
  assumes "sorted_wrt (\<lambda>x y. f x \<le> f y) xs"
  shows "filter (\<lambda>x. i \<le> f x) xs = filter (\<lambda>x. f x = i) xs @ filter (\<lambda>x. Suc i \<le> f x) xs"
  using assms
proof (induction xs)
  case (Cons x xs)
  have "filter (\<lambda>x. f x = i) xs = []" if "i < f x"
    using that Cons.prems by (auto simp: filter_empty_conv)
  then show ?case using Cons by (cases "f x" i rule: linorder_cases) auto
qed simp

lemma count_nibble_append:
  assumes "\<forall>(k, _) \<in> set xs. n < length k \<and> k ! n = i" "\<forall>(k, _) \<in> set ys. n < length k \<and> k ! n \<noteq> i"
  shows "count_nibble n i (xs @ ys) = Some (length xs)"
  using assms(1)
proof (induction xs)
  case Nil
  then show ?case using assms(2) by (cases ys) (auto simp: index_at_def)
qed (auto simp: index_at_def)

definition nibble_at_key :: "nat \<Rightarrow> bytes \<times> bytes \<Rightarrow> nat" where
  "nibble_at_key n e = unat (fst e ! n)"

lemma branch_loop_builds:
  assumes D: "sorted_wrt (\<lambda>x y. nibble_at_key n x \<le> nibble_at_key n y) D" "\<forall>e \<in> set D. n < length (fst e)"
    and T: "\<And>j. j < 16 \<Longrightarrow> filter (\<lambda>e. nibble_at_key n e = j) D \<noteq> [] \<Longrightarrow>
      builds (aux (filter (\<lambda>e. nibble_at_key n e = j) D) (n + 1)) [x j]"
    and X: "\<And>j. j < 16 \<Longrightarrow> filter (\<lambda>e. nibble_at_key n e = j) D = [] \<Longrightarrow> x j = Str []"
    and i: "i \<le> 16"
  shows "E = A @ filter (\<lambda>e. i \<le> nibble_at_key n e) D \<Longrightarrow>
    builds (branch_loop aux E n [i..<16] (length A)) (map x [i..<16])"
  using i
proof (induction i arbitrary: A rule: inc_induct)
  case base
  have "branch_loop aux E n [16..<16] (length A) = Some" by (rule ext) simp
  then show ?case by (simp add: builds_Nil)
next
  case (step i)
  define G where "G = filter (\<lambda>e. nibble_at_key n e = i) D"
  define R where "R = filter (\<lambda>e. Suc i \<le> nibble_at_key n e) D"
  have E: "E = A @ G @ R"
    using step.prems filter_split_nibble [OF D(1), of i] by (simp add: G_def R_def)
  have i16: "i < 16" using step.hyps by simp
  have "k ! n = of_nat i \<longleftrightarrow> unat (k ! n) = i" for k :: bytes
    using i16 by (auto simp: word_unat_eq_iff unat_of_nat_lt radix_def)
  then have c: "count_nibble n (of_nat i) (G @ R) = Some (length G)"
    using D(2) by (intro count_nibble_append) (auto simp: G_def R_def nibble_at_key_def)
  have rest: "builds (branch_loop aux E n [Suc i..<16] (length A + length G)) (map x [Suc i..<16])"
    using step.IH [of "A @ G"] E by (simp add: R_def)
  have "builds (if length G = 0 then append_empty_data else aux G (n + 1)) [x i]"
    using T [OF i16] X [OF i16] builds_empty_data by (simp add: G_def)
  then have "builds (\<lambda>s. (if length G = 0 then append_empty_data else aux G (n + 1)) s \<bind>
      branch_loop aux E n [Suc i..<16] (length A + length G)) (x i # map x [Suc i..<16])"
    using rest by (rule builds_Cons)
  moreover have "branch_loop aux E n [i..<16] (length A) s =
      (if length G = 0 then append_empty_data else aux G (n + 1)) s \<bind>
        branch_loop aux E n [Suc i..<16] (length A + length G)" for s
    using i16 c by (simp add: E upt_rec [of i 16] slice_range_def)
  ultimately show ?case using i16 by (simp add: upt_rec [of i 16] fun_eq_iff [symmetric])
qed

subsection \<open>The trie of the entries\<close>

text \<open>Entries in order whose keys have the path \<open>p\<close> in common.\<close>

definition entries_at :: "bytes \<Rightarrow> nat \<Rightarrow> (bytes \<times> bytes) list \<Rightarrow> bool" where
  "entries_at p N E \<longleftrightarrow> btree_wf E \<and>
     (\<forall>e \<in> set E. prefix p (fst e) \<and> nibble_list (fst e) \<and> length (fst e) \<le> N \<and> length (snd e) < 2 ^ 29)"

text \<open>The trie \<open>t\<close> stands for the entries below \<open>p\<close>.\<close>

definition represents :: "trie \<Rightarrow> bytes \<Rightarrow> (bytes \<times> bytes) list \<Rightarrow> bool" where
  "represents t p E \<longleftrightarrow> compact t \<and> (t = Empty \<longleftrightarrow> E = []) \<and> (\<forall>k. lookup t k = map_of E (p @ k))"

lemma representsD:
  "represents t p E \<Longrightarrow> compact t" "represents t p E \<Longrightarrow> t = Empty \<longleftrightarrow> E = []"
  "represents t p E \<Longrightarrow> lookup t k = map_of E (p @ k)"
  by (simp_all add: represents_def)

lemma entries_at_filter: "entries_at p N E \<Longrightarrow> entries_at p N (filter P E)"
  by (auto simp: entries_at_def btree_wf_filter)

lemma entries_at_path:
  "entries_at p N E \<Longrightarrow> (\<And>e. e \<in> set E \<Longrightarrow> prefix q (fst e)) \<Longrightarrow> entries_at q N E"
  by (auto simp: entries_at_def)

lemma represents_leaf:
  assumes "entries_at p N [(key, v)]"
  shows "represents (Leaf (drop (length p) key) v) p [(key, v)]"
proof -
  obtain s where "key = p @ s" using assms by (auto simp: entries_at_def prefix_def)
  then show ?thesis using assms by (auto simp: represents_def entries_at_def nibble_list_def)
qed

lemma represents_ext:
  assumes "represents t (p @ ns) E" "is_branch t" "ns \<noteq> []" "nibble_list ns" "entries_at (p @ ns) N E"
  shows "represents (Ext ns t) p E"
proof -
  have "map_of E (p @ k) = None" if "\<not> prefix ns k" for k
    using that assms(5) unfolding entries_at_def map_of_eq_None_iff by fastforce
  moreover have "lookup t (drop (length ns) k) = map_of E (p @ k)" if "prefix ns k" for k
    using that representsD(3) [OF assms(1)] by (auto simp: prefix_def)
  moreover have "E \<noteq> []" using representsD(2) [OF assms(1)] assms(2) by (cases t) auto
  ultimately show ?thesis using assms(1-4) by (auto simp: represents_def)
qed

text \<open>The entries that continue below \<open>p\<close>, in a branch.\<close>

lemma branch_entries:
  assumes "entries_at p N ((key, v) # others)"
    and "D = (if length p = length key then others else (key, v) # others)"
  shows "\<forall>e \<in> set D. length p < length (fst e)"
    and "sorted_wrt (\<lambda>x y. nibble_at_key (length p) x \<le> nibble_at_key (length p) y) D"
    and "map_of ((key, v) # others) (p @ n # k) = map_of D (p @ n # k)"
    and "map_of ((key, v) # others) p = (if length p = length key then Some v else None)"
    and "entries_at p N D"
proof -
  have px: "prefix p key" "\<forall>e \<in> set others. prefix p (fst e) \<and> key < fst e"
    using assms(1) by (auto simp: entries_at_def btree_wf_def)
  have eq: "length p = length key \<longleftrightarrow> key = p" using px(1) by (auto simp: prefix_def)
  have other: "length p < length (fst e)" if "e \<in> set others" for e
  proof -
    have "p < fst e" using px that prefix_le [of p key] by (metis order_le_less_trans)
    then have "fst e \<noteq> p" by auto
    then show ?thesis using px(2) that by (metis not_equal_is_parallel parallelD1 prefix_length_less strict_prefixI)
  qed
  have "length p < length key" if "length p \<noteq> length key" using px(1) that by (auto simp: prefix_def)
  then show lt: "\<forall>e \<in> set D. length p < length (fst e)" using other by (auto simp: assms(2))
  show ent: "entries_at p N D" using assms by (auto simp: entries_at_def btree_wf_def)
  have mono: "nibble_at_key (length p) x \<le> nibble_at_key (length p) y"
    if xy: "fst x < fst y" and x: "x \<in> set D" and y: "y \<in> set D" for x y
  proof -
    obtain a s where a: "fst x = p @ a # s"
      using x ent lt by (auto simp: entries_at_def prefix_def) (metis append_Nil2 length_append less_irrefl list.exhaust)
    obtain b r where b: "fst y = p @ b # r"
      using y ent lt by (auto simp: entries_at_def prefix_def) (metis append_Nil2 length_append less_irrefl list.exhaust)
    have "a # s < b # r" using xy append_less [of p "a # s" "b # r"] by (simp add: a b)
    then show ?thesis by (auto simp: nibble_at_key_def a b word_le_nat_alt word_less_nat_alt)
  qed
  have srt: "sorted_wrt (\<lambda>x y. fst x < fst y) D" using ent by (simp add: entries_at_def btree_wf_def sorted_wrt_map)
  show "sorted_wrt (\<lambda>x y. nibble_at_key (length p) x \<le> nibble_at_key (length p) y) D"
    by (rule sorted_wrt_mono_rel [OF _ srt]) (rule mono)
  show "map_of ((key, v) # others) (p @ n # k) = map_of D (p @ n # k)" by (auto simp: assms(2) eq)
  have "p \<notin> fst ` set others" using other by fastforce
  then show "map_of ((key, v) # others) p = (if length p = length key then Some v else None)"
    using eq by (auto simp: map_of_eq_None_iff)
qed

lemma two_children:
  assumes "a < length ts" "b < length ts" "a \<noteq> b" "ts ! a \<noteq> Empty" "ts ! b \<noteq> Empty"
  shows "2 \<le> length (filter (\<lambda>t. t \<noteq> Empty) ts)"
proof -
  have "card {a, b} \<le> card {i. i < length ts \<and> ts ! i \<noteq> Empty}"
    using assms by (intro card_mono) auto
  then show ?thesis using assms(3) by (simp add: length_filter_conv_card)
qed

lemma represents_branch:
  assumes E: "entries_at p N ((key, v) # others)" "others \<noteq> []"
    and D: "D = (if length p = length key then others else (key, v) # others)"
    and T: "\<And>j. j < 16 \<Longrightarrow> represents (T j) (p @ [of_nat j]) (filter (\<lambda>e. nibble_at_key (length p) e = j) D)"
    and split: "length p \<noteq> length key \<Longrightarrow> \<exists>e \<in> set others. fst e ! length p \<noteq> key ! length p"
  shows "represents (Branch (map T [0..<16]) (if length p = length key then Some v else None)) p ((key, v) # others)"
proof -
  let ?n = "length p" and ?ts = "map T [0..<16]"
  note b = branch_entries [OF E(1) D]
  have nib: "nibble_at_key ?n e < 16" if "e \<in> set D" for e
  proof -
    have "nibble_list (fst e)" "?n < length (fst e)" using that b(1,5) by (auto simp: entries_at_def)
    then have "fst e ! ?n < 16" by (simp add: nibble_list_def list_all_length)
    then show ?thesis by (simp add: nibble_at_key_def word_less_nat_alt)
  qed
  have child: "T (nibble_at_key ?n e) \<noteq> Empty" if "e \<in> set D" for e
    using representsD(2) [OF T [OF nib [OF that]]] that by (auto simp: filter_empty_conv)
  have "map_of ((key, v) # others) (p @ n # k) = (if unat n < 16 then lookup (T (unat n)) k else None)" for n k
  proof (cases "unat n < 16")
    case True
    have "map_of (filter (\<lambda>e. nibble_at_key ?n e = unat n) D) (p @ n # k) = map_of D (p @ n # k)"
      by (induction D) (auto simp: nibble_at_key_def)
    then show ?thesis using representsD(3) [OF T [OF True], of k] True b(3) [of n k] by simp
  next
    case False
    have "p @ n # k \<notin> fst ` set D" using nib False by (fastforce simp: nibble_at_key_def)
    then have "map_of D (p @ n # k) = None" by (simp add: map_of_eq_None_iff)
    then show ?thesis unfolding b(3) using False by simp
  qed
  moreover have "list_all compact ?ts" using representsD(1) [OF T] by (auto simp: list_all_iff)
  moreover have "2 \<le> length (filter (\<lambda>t. t \<noteq> Empty) ?ts) + (if ?n = length key then 1 else 0)"
  proof (cases "?n = length key")
    case True
    have "T (nibble_at_key ?n (hd others)) \<in> set (filter (\<lambda>t. t \<noteq> Empty) ?ts)"
      using E(2) True child [of "hd others"] nib [of "hd others"] by (auto simp: D)
    then have "filter (\<lambda>t. t \<noteq> Empty) ?ts \<noteq> []" by (metis empty_iff empty_set)
    then show ?thesis using True by (cases "filter (\<lambda>t. t \<noteq> Empty) ?ts") auto
  next
    case False
    obtain e where e: "e \<in> set others" "fst e ! ?n \<noteq> key ! ?n" using split [OF False] by blast
    then have d: "(key, v) \<in> set D" "e \<in> set D" "nibble_at_key ?n (key, v) \<noteq> nibble_at_key ?n e"
      using False by (auto simp: D nibble_at_key_def word_unat_eq_iff)
    show ?thesis
      using two_children [of "nibble_at_key ?n (key, v)" ?ts "nibble_at_key ?n e"] nib [OF d(1)] nib [OF d(2)]
        child [OF d(1)] child [OF d(2)] d(3) by simp
  qed
  moreover have "lookup (Branch ?ts (if ?n = length key then Some v else None)) k = map_of ((key, v) # others) (p @ k)" for k
    using b(4) calculation(1) by (cases k) simp_all
  ultimately show ?thesis by (cases "?n = length key") (simp_all add: represents_def del: lookup.simps)
qed

lemma leaf_case:
  assumes "entries_at p N [(key, v)]" "N < 2 ^ 29"
  shows "(hash256rlp H (Suc fuel) [(key, v)] (length p) stream_new \<bind> stream_out) =
    Some (enc (node_item H (Leaf (drop (length p) key) v)))"
proof -
  let ?ns = "drop (length p) key"
  have k: "prefix p key" "nibble_list ?ns" "length key \<le> N" "length v < 2 ^ 29"
    using assms(1) by (auto simp: entries_at_def nibble_list_def list_all_iff dest: in_set_dropD)
  have l: "length (hex_prefix ?ns True) \<le> 2 ^ 29" using length_hex_prefix [of ?ns True] k(3) assms(2) by simp
  have "builds (\<lambda>s. append_iter (hex_prefix ?ns True) s \<bind> stream_append bytes_append v)
      [Str (hex_prefix ?ns True), Str v]"
    using l k(4) by (intro builds_Cons builds_append_iter builds_bytes small_Str) simp_all
  moreover have "small (Items [Str (hex_prefix ?ns True), Str v])"
    using l k(4) length_enc_Str [of v] by (intro small_pair) (simp_all del: enc.simps)
  moreover have "slice_range key (length p) (length key) = Some ?ns"
    using prefix_length_le [OF k(1)] by (simp add: slice_range_def)
  ultimately show ?thesis
    using builds_list [of "\<lambda>s. append_iter (hex_prefix ?ns True) s \<bind> stream_append bytes_append v" _ 2]
      hex_prefix_encode_spec [OF k(2), of True]
    by (simp del: enc.simps)
qed

lemma ext_case:
  assumes "entries_at p N ((key, v) # others)" "others \<noteq> []" "N < 2 ^ 29" "\<And>bs. length (H bs) < 2 ^ 16"
    and "sp = fold (\<lambda>(k, _) acc. min (shared_prefix_len key k) acc) others (length key)" "length p < sp"
    and "builds (hash256aux (hash256rlp H fuel) H ((key, v) # others) sp) [node_ref H (node_item H t)]"
  shows "(hash256rlp H (Suc fuel) ((key, v) # others) (length p) stream_new \<bind> stream_out) =
    Some (enc (node_item H (Ext (drop (length p) (take sp key)) t)))"
proof -
  let ?ns = "drop (length p) (take sp key)" and ?aux = "hash256aux (hash256rlp H fuel) H ((key, v) # others) sp"
  have k: "nibble_list ?ns" "length key \<le> N"
    using assms(1) by (auto simp: entries_at_def nibble_list_def list_all_iff dest: in_set_dropD in_set_takeD)
  have sp: "sp \<le> length key" using le_shared_fold [of sp key others "length key"] assms(5) by simp
  have l: "length (hex_prefix ?ns False) \<le> 2 ^ 29" using length_hex_prefix [of ?ns False] k(2) assms(3) by simp
  have "builds (\<lambda>s. append_iter (hex_prefix ?ns False) s \<bind> ?aux) [Str (hex_prefix ?ns False), node_ref H (node_item H t)]"
    using l assms(7) by (intro builds_Cons builds_append_iter small_Str) simp_all
  moreover have "small (Items [Str (hex_prefix ?ns False), node_ref H (node_item H t)])"
    using l length_node_ref [of H "node_item H t", OF assms(4)] by (intro small_pair) simp_all
  ultimately have "(begin_list 2 stream_new \<bind> (\<lambda>s. append_iter (hex_prefix ?ns False) s \<bind> ?aux)) \<bind> stream_out =
      Some (enc (Items [Str (hex_prefix ?ns False), node_ref H (node_item H t)]))"
    by (intro builds_list) simp_all
  moreover have "slice_range key (length p) sp = Some ?ns"
    using sp assms(6) by (simp add: slice_range_def drop_take)
  then have "hash256rlp H (Suc fuel) ((key, v) # others) (length p) stream_new =
      begin_list 2 stream_new \<bind> (\<lambda>s. append_iter (hex_prefix ?ns False) s \<bind> ?aux)"
    using hex_prefix_encode_spec [OF k(1), of False] assms(2,6) by (simp add: Let_def assms(5) [symmetric])
  ultimately show ?thesis by (simp only: node_item.simps)
qed

lemma branch_case:
  assumes "entries_at p N ((key, v) # others)" "others \<noteq> []" "\<And>bs. length (H bs) < 2 ^ 16"
    and "\<not> length p < fold (\<lambda>(k, _) acc. min (shared_prefix_len key k) acc) others (length key)"
    and "D = (if length p = length key then others else (key, v) # others)"
    and "\<And>j. j < 16 \<Longrightarrow> filter (\<lambda>e. nibble_at_key (length p) e = j) D \<noteq> [] \<Longrightarrow>
      builds (hash256aux (hash256rlp H fuel) H (filter (\<lambda>e. nibble_at_key (length p) e = j) D) (length p + 1))
        [node_ref H (node_item H (T j))]"
    and "\<And>j. j < 16 \<Longrightarrow> filter (\<lambda>e. nibble_at_key (length p) e = j) D = [] \<Longrightarrow> T j = Empty"
  shows "(hash256rlp H (Suc fuel) ((key, v) # others) (length p) stream_new \<bind> stream_out) =
    Some (enc (node_item H (Branch (map T [0..<16]) (if length p = length key then Some v else None))))"
proof -
  let ?E = "(key, v) # others" and ?aux = "hash256aux (hash256rlp H fuel) H"
  let ?x = "\<lambda>j. node_ref H (node_item H (T j))"
  define A where "A = (if length p = length key then [(key, v)] else [])"
  define w where "w = (if length p = length key then v else [])"
  define tail where "tail = (if length p = length key then stream_append bytes_append v else append_empty_data)"
  note b = branch_entries [OF assms(1,5)]
  have v: "length v < 2 ^ 29" using assms(1) by (simp add: entries_at_def)
  have "?E = A @ D" by (simp add: A_def assms(5))
  moreover have "?x j = Str []" if "j < 16" "filter (\<lambda>e. nibble_at_key (length p) e = j) D = []" for j
    using assms(7) [OF that] by (simp add: node_ref_def header_def)
  ultimately have "builds (branch_loop ?aux ?E (length p) [0..<16] (length A)) (map ?x [0..<16])"
    using branch_loop_builds [OF b(2,1), of ?aux ?x 0 ?E A] assms(6) by simp
  moreover have "builds tail [Str w]"
    using v builds_empty_data builds_bytes [OF small_Str, of v] by (simp add: tail_def w_def)
  ultimately have "builds (\<lambda>s. branch_loop ?aux ?E (length p) [0..<16] (length A) s \<bind> tail) (map ?x [0..<16] @ [Str w])"
    by (rule builds_bind)
  moreover have "small (Items (map ?x [0..<16] @ [Str w]))"
    using v length_node_ref [of H, OF assms(3)] by (intro small_node) (auto simp: w_def)
  ultimately have "(begin_list 17 stream_new \<bind> (\<lambda>s. branch_loop ?aux ?E (length p) [0..<16] (length A) s \<bind> tail)) \<bind> stream_out
      = Some (enc (Items (map ?x [0..<16] @ [Str w])))"
    by (intro builds_list) simp_all
  moreover have "hash256rlp H (Suc fuel) ?E (length p) stream_new =
      begin_list 17 stream_new \<bind> (\<lambda>s. branch_loop ?aux ?E (length p) [0..<16] (length A) s \<bind> tail)"
    using assms(2,4) by (simp add: A_def tail_def Let_def del: upt_rec_numeral)
  moreover have "node_item H (Branch (map T [0..<16]) (if length p = length key then Some v else None)) =
      Items (map ?x [0..<16] @ [Str w])"
    by (simp add: w_def comp_def)
  ultimately show ?thesis by (simp only:)
qed

lemma entries_group:
  assumes "entries_at p N D" "\<forall>e \<in> set D. length p < length (fst e)"
    and "G = filter (\<lambda>e. nibble_at_key (length p) e = j) D" "j < 16" "G \<noteq> []"
  shows "entries_at (p @ [of_nat j]) N G" "length (p @ [of_nat j :: u8]) \<le> N"
proof -
  have px: "prefix (p @ [of_nat j]) (fst e)" if "e \<in> set G" for e
  proof -
    have e: "prefix p (fst e)" "length p < length (fst e)" "unat (fst e ! length p) = j"
      using that assms(1-3) by (auto simp: entries_at_def nibble_at_key_def)
    then obtain n s where n: "fst e = p @ n # s" by (auto simp: prefix_def) (metis append_Nil2 less_irrefl list.exhaust)
    then have "n = of_nat j" using e(3) by (simp add: word_unat_eq_iff) (metis unat_of_nat_radix unat_lt_radix mod_less)
    then show ?thesis by (simp add: n)
  qed
  have "entries_at p N G" unfolding assms(3) by (rule entries_at_filter [OF assms(1)])
  then show "entries_at (p @ [of_nat j]) N G" using px by (rule entries_at_path)
  obtain e where e: "e \<in> set G" using assms(5) by (cases G) auto
  then have "length (fst e) \<le> N" using assms(1,3) by (simp add: entries_at_def)
  then show "length (p @ [of_nat j :: u8]) \<le> N" using prefix_length_le [OF px [OF e]] by simp
qed

lemma shared_is_common:
  fixes v :: bytes
  assumes "sp = fold (\<lambda>(k, _) acc. min (shared_prefix_len key k) acc) others (length key)"
  shows "\<And>r. (\<forall>e \<in> set ((key, v) # others). prefix r (fst e)) \<Longrightarrow> length r \<le> sp"
    and "\<And>e. e \<in> set ((key, v) # others) \<Longrightarrow> prefix (take sp key) (fst e)" and "sp \<le> length key"
proof -
  have common: "m \<le> sp \<longleftrightarrow> m \<le> length key \<and> (\<forall>e \<in> set others. m \<le> length (fst e) \<and> take m key = take m (fst e))" for m
    unfolding assms le_shared_fold by (auto simp: le_shared_prefix_len)
  show "length r \<le> sp" if "\<forall>e \<in> set ((key, v) # others). prefix r (fst e)" for r
  proof -
    have "prefix r k \<Longrightarrow> length r \<le> length k \<and> take (length r) k = r" for k by (auto simp: prefix_def)
    then show ?thesis using that by (auto simp: common)
  qed
  have "sp \<le> length key \<and> (\<forall>e \<in> set others. sp \<le> length (fst e) \<and> take sp key = take sp (fst e))"
    by (rule iffD1 [OF common order_refl])
  then show "sp \<le> length key" "\<And>e. e \<in> set ((key, v) # others) \<Longrightarrow> prefix (take sp key) (fst e)"
    by (auto simp: take_is_prefix)
qed

lemma branch_splits:
  assumes "entries_at p N ((key, v) # others)" "length p \<noteq> length key"
    and "\<And>r. (\<forall>e \<in> set ((key, v) # others). prefix r (fst e)) \<Longrightarrow> length r \<le> length p"
  shows "\<exists>e \<in> set others. fst e ! length p \<noteq> key ! length p"
proof (rule ccontr)
  assume no: "\<not> (\<exists>e \<in> set others. fst e ! length p \<noteq> key ! length p)"
  have len: "\<forall>e \<in> set ((key, v) # others). length p < length (fst e)"
    using branch_entries(1) [OF assms(1) refl] assms(2) by simp
  have "prefix (p @ [key ! length p]) (fst e)" if "e \<in> set ((key, v) # others)" for e
  proof -
    have e: "prefix p (fst e)" "length p < length (fst e)" "fst e ! length p = key ! length p"
      using assms(1) len no that by (auto simp: entries_at_def)
    then obtain n s where "fst e = p @ n # s" by (auto simp: prefix_def) (metis append_Nil2 less_irrefl list.exhaust)
    then show ?thesis using e(3) by simp
  qed
  then have "length (p @ [key ! length p]) \<le> length p" by (intro assms(3)) blast
  then show False by simp
qed

text \<open>The recursive calls are right on every longer path: they build the reference of the subtrie, a branch where no extension is needed.\<close>

definition deeper :: "(bytes \<Rightarrow> bytes) \<Rightarrow> nat \<Rightarrow> nat \<Rightarrow> bytes \<Rightarrow> bool" where
  "deeper H fuel N p \<longleftrightarrow> (\<forall>q G. entries_at q N G \<longrightarrow> G \<noteq> [] \<longrightarrow> length p < length q \<longrightarrow> length q \<le> N \<longrightarrow>
     (\<exists>t. represents t q G \<and> builds (hash256aux (hash256rlp H fuel) H G (length q)) [node_ref H (node_item H t)] \<and>
       (2 \<le> length G \<and> (\<nexists>r. length q < length r \<and> (\<forall>e \<in> set G. prefix r (fst e))) \<longrightarrow> is_branch t)))"

lemma ext_step:
  assumes sub: "deeper H fuel N p" and ent: "entries_at p N ((key, v) # others)" and H: "\<And>bs. length (H bs) < 2 ^ 16"
    and o: "others \<noteq> []" and N: "N < 2 ^ 29"
    and sp: "sp = fold (\<lambda>(k, _) acc. min (shared_prefix_len key k) acc) others (length key)" "length p < sp"
  shows "\<exists>t. represents t p ((key, v) # others) \<and>
    (hash256rlp H (Suc fuel) ((key, v) # others) (length p) stream_new \<bind> stream_out) = Some (enc (node_item H t))"
proof -
  let ?E = "(key, v) # others" and ?q = "take sp key"
  note common = shared_is_common(1,2) [OF sp(1), where v = v] shared_is_common(3) [OF sp(1)]
  have q: "?q = p @ drop (length p) ?q" "drop (length p) ?q \<noteq> []" "length ?q = sp" "sp \<le> N"
    using ent sp(2) common(3) by (auto simp: entries_at_def prefix_def)
  have eq: "entries_at ?q N ?E" using ent common(2) by (rule entries_at_path)
  obtain t where t: "represents t ?q ?E" "builds (hash256aux (hash256rlp H fuel) H ?E sp) [node_ref H (node_item H t)]" "is_branch t"
    using sub eq q(3,4) sp(2) o common(1) unfolding deeper_def by (force simp: not_less Suc_le_eq)
  have "nibble_list (drop (length p) ?q)"
    using ent by (auto simp: entries_at_def nibble_list_def list_all_iff dest: in_set_dropD in_set_takeD)
  then have "represents (Ext (drop (length p) ?q) t) p ?E"
    using represents_ext [of t p "drop (length p) ?q" ?E N] t(1,3) q eq by simp
  then show ?thesis using ext_case [where H = H and fuel = fuel and t = t, OF ent o N H sp] t(2) by blast
qed

lemma branch_children:
  assumes sub: "deeper H fuel N p" and D: "entries_at p N D" "\<forall>e \<in> set D. length p < length (fst e)"
  shows "\<exists>T. \<forall>j < 16. represents (T j) (p @ [of_nat j]) (filter (\<lambda>e. nibble_at_key (length p) e = j) D) \<and>
    (filter (\<lambda>e. nibble_at_key (length p) e = j) D \<noteq> [] \<longrightarrow>
      builds (hash256aux (hash256rlp H fuel) H (filter (\<lambda>e. nibble_at_key (length p) e = j) D) (length p + 1)) [node_ref H (node_item H (T j))])"
proof -
  have "\<exists>t. represents t (p @ [of_nat j]) G \<and>
      (G \<noteq> [] \<longrightarrow> builds (hash256aux (hash256rlp H fuel) H G (length p + 1)) [node_ref H (node_item H t)])"
    if j: "j < 16" and G: "G = filter (\<lambda>e. nibble_at_key (length p) e = j) D" for j G
  proof (cases "G = []")
    case True
    then show ?thesis by (intro exI [of _ Empty]) (simp add: represents_def)
  next
    case False
    note g = entries_group [OF D G j False]
    show ?thesis using sub [unfolded deeper_def, rule_format, OF g(1) False _ g(2)] by auto
  qed
  then show ?thesis by metis
qed

lemma branch_step:
  assumes sub: "deeper H fuel N p" and ent: "entries_at p N ((key, v) # others)" and H: "\<And>bs. length (H bs) < 2 ^ 16" and o: "others \<noteq> []"
    and sp: "\<not> length p < fold (\<lambda>(k, _) acc. min (shared_prefix_len key k) acc) others (length key)"
  shows "\<exists>t. represents t p ((key, v) # others) \<and> is_branch t \<and>
    (hash256rlp H (Suc fuel) ((key, v) # others) (length p) stream_new \<bind> stream_out) = Some (enc (node_item H t))"
proof -
  let ?E = "(key, v) # others"
  define D where "D = (if length p = length key then others else ?E)"
  note b = branch_entries [OF ent D_def]
  obtain T where T: "\<And>j. j < 16 \<Longrightarrow> represents (T j) (p @ [of_nat j]) (filter (\<lambda>e. nibble_at_key (length p) e = j) D) \<and>
      (filter (\<lambda>e. nibble_at_key (length p) e = j) D \<noteq> [] \<longrightarrow>
        builds (hash256aux (hash256rlp H fuel) H (filter (\<lambda>e. nibble_at_key (length p) e = j) D) (length p + 1)) [node_ref H (node_item H (T j))])"
    using branch_children [OF sub b(5,1)] by blast
  let ?t = "Branch (map T [0..<16]) (if length p = length key then Some v else None)"
  have "(hash256rlp H (Suc fuel) ?E (length p) stream_new \<bind> stream_out) = Some (enc (node_item H ?t))"
    using T representsD(2) by (intro branch_case [where H = H, OF ent o H sp D_def]) auto
  moreover have "represents ?t p ?E"
    using T sp shared_is_common(1) [OF refl, where v = v]
    by (intro represents_branch [OF ent o D_def] branch_splits [OF ent]) force+
  ultimately show ?thesis by (intro exI [of _ ?t]) simp
qed

lemma hash256rlp_trie:
  assumes H: "\<And>bs. length (H bs) < 2 ^ 16"
  shows "entries_at p N E \<Longrightarrow> E \<noteq> [] \<Longrightarrow> length p \<le> N \<Longrightarrow> N < 2 ^ 29 \<Longrightarrow> N - length p < fuel \<Longrightarrow>
    \<exists>t. represents t p E \<and> (hash256rlp H fuel E (length p) stream_new \<bind> stream_out) = Some (enc (node_item H t)) \<and>
      (2 \<le> length E \<and> (\<nexists>q. length p < length q \<and> (\<forall>e \<in> set E. prefix q (fst e))) \<longrightarrow> is_branch t)"
proof (induction fuel arbitrary: p E)
  case (Suc fuel)
  note [simp del] = hash256rlp.simps enc.simps node_item.simps
  obtain key v others where E: "E = (key, v) # others" using Suc.prems(2) by (cases E) auto
  note ent = Suc.prems(1) [unfolded E]
  define sp where "sp = fold (\<lambda>(k, _) acc. min (shared_prefix_len key k) acc) others (length key)"
  have smH: "small (Str (H x))" for x using H [of x] by (intro small_Str) simp
  have sub: "deeper H fuel N p" unfolding deeper_def
  proof (intro allI impI)
    fix q G
    assume q: "entries_at q N G" "G \<noteq> []" "length p < length q" "length q \<le> N"
    have "N - length q < fuel" using q(3,4) Suc.prems(5) by linarith
    from Suc.IH [OF q(1,2,4) Suc.prems(4) this] builds_aux [where H = H and rlp = "hash256rlp H fuel", OF _ smH]
    show "\<exists>t. represents t q G \<and> builds (hash256aux (hash256rlp H fuel) H G (length q)) [node_ref H (node_item H t)] \<and>
        (2 \<le> length G \<and> (\<nexists>r. length q < length r \<and> (\<forall>e \<in> set G. prefix r (fst e))) \<longrightarrow> is_branch t)"
      by blast
  qed
  consider (leaf) "others = []" | (ext) "others \<noteq> []" "length p < sp" | (branch) "others \<noteq> []" "\<not> length p < sp"
    by blast
  then show ?case
  proof cases
    case leaf
    show ?thesis
      using represents_leaf [of p N key v] leaf_case [of p N key v H fuel] ent Suc.prems(4) leaf E
      by (intro exI [of _ "Leaf (drop (length p) key) v"]) simp
  next
    case ext
    have "length (take sp key) = sp" "\<forall>e\<in>set E. prefix (take sp key) (fst e)"
      using shared_is_common(2) [OF sp_def, where v = v] shared_is_common(3) [OF sp_def] by (simp_all add: E)
    then have "\<exists>q. length p < length q \<and> (\<forall>e \<in> set E. prefix q (fst e))" using ext(2) by metis
    then show ?thesis using ext_step [OF sub ent H ext(1) Suc.prems(4) sp_def ext(2)] unfolding E by blast
  next
    case branch
    then show ?thesis using branch_step [OF sub ent H branch(1)] unfolding E sp_def by blast
  qed
qed simp

subsection \<open>Roots\<close>

lemma key_nibbles_simps [simp]:
  "key_nibbles [] = []" "key_nibbles (b # k) = drop_bit 4 b # (b AND 0xf) # key_nibbles k"
  by (simp_all add: key_nibbles_def)

lemma length_key_nibbles [simp]: "length (key_nibbles k) = 2 * length k"
  by (induction k) simp_all

lemma nibble_list_key: "nibble_list (key_nibbles k)"
  by (induction k) (simp_all add: nibble_list_def byte_nibbles)

lemma key_nibbles_less: "k < l \<Longrightarrow> key_nibbles k < key_nibbles l"
proof (induction k arbitrary: l)
  case Nil
  then show ?case by (cases l) simp_all
next
  case (Cons b k)
  then obtain c l' where l: "l = c # l'" "b < c \<or> b = c \<and> k < l'" by (cases l) auto
  have "drop_bit 4 b < drop_bit 4 c \<or> drop_bit 4 b = drop_bit 4 c \<and> b AND 0xf < c AND 0xf" if "b < c"
    using that byte_nibbles [of b] byte_nibbles [of c] by (simp add: word_less_nat_alt word_unat_eq_iff) linarith
  then show ?case using l Cons.IH by auto
qed

lemma key_nibbles_inject: "key_nibbles k = key_nibbles l \<longleftrightarrow> k = l"
  using key_nibbles_less [of k l] key_nibbles_less [of l k] by (cases k l rule: linorder_cases) auto

abbreviation nibble_entries :: "(bytes \<times> bytes) list \<Rightarrow> (bytes \<times> bytes) list" where
  "nibble_entries m \<equiv> map (\<lambda>(k, v). (key_nibbles k, v)) m"

fun sums :: "nat \<Rightarrow> bytes list \<Rightarrow> nat list" where
  "sums a [] = [a]"
| "sums a (k # ks) = a # sums (a + length (key_nibbles k)) ks"

lemma sums_hd: "sums a ks = a # tl (sums a ks)"
  by (cases ks) simp_all

lemma collect_nibbles_spec: "collect_nibbles keys = (concat (map key_nibbles keys), sums 0 keys)"
proof -
  have "fold (\<lambda>k (nibbles, lens). let nibbles = nibbles @ key_nibbles k in (nibbles, lens @ [length nibbles]))
      keys (ns, ls @ [length ns]) = (ns @ concat (map key_nibbles keys), ls @ sums (length ns) keys)" for ns ls
  proof (induction keys arbitrary: ns ls)
    case (Cons k keys)
    show ?case using Cons [of "ns @ key_nibbles k" "ls @ [length ns]"] by (simp add: Let_def)
  qed simp
  from this [of "[]" "[]"] show ?thesis by (simp add: collect_nibbles_def)
qed

lemma slice_keys_spec:
  "slice_keys (A @ concat (map key_nibbles (map fst m))) m
     (zip (sums (length A) (map fst m)) (drop 1 (sums (length A) (map fst m)))) = Some (nibble_entries m)"
proof (induction m arbitrary: A)
  case (Cons e m)
  obtain k v where e: "e = (k, v)" by (cases e)
  let ?s = "sums (length A + length (key_nibbles k)) (map fst m)"
  obtain r where r: "?s = (length A + length (key_nibbles k)) # r" using sums_hd by blast
  have "zip (length A # ?s) ?s = (length A, length A + length (key_nibbles k)) # zip ?s (drop 1 ?s)"
    unfolding r by simp
  then show ?case using Cons [of "A @ key_nibbles k"] by (simp add: e slice_range_def)
qed simp

lemma entries_at_nibbles:
  assumes "btree_wf m" "\<forall>e \<in> set m. length (snd e) < 2 ^ 29"
  shows "entries_at [] (length (concat (map key_nibbles (map fst m)))) (nibble_entries m)"
proof -
  have "sorted_wrt (\<lambda>x y. fst x < fst y) m" using assms(1) by (simp add: btree_wf_def sorted_wrt_map)
  then have "sorted_wrt (\<lambda>x y. key_nibbles (fst x) < key_nibbles (fst y)) m"
    by (rule sorted_wrt_mono_rel [rotated]) (rule key_nibbles_less)
  then have "btree_wf (nibble_entries m)" by (simp add: btree_wf_def sorted_wrt_map split_def)
  moreover have "length (key_nibbles (fst e)) \<le> length (concat (map key_nibbles (map fst m)))" if "e \<in> set m" for e
    using that by (induction m) auto
  ultimately show ?thesis using assms(2) nibble_list_key by (force simp: entries_at_def)
qed

lemma map_of_nibble_entries: "map_of (nibble_entries m) (key_nibbles k) = map_of m k"
  by (induction m) (auto simp: key_nibbles_inject)

lemma btree_collect_size:
  "sum_list (map (length \<circ> fst) (btree_collect ps)) \<le> sum_list (map (length \<circ> fst) (ps :: (bytes \<times> bytes) list))"
proof -
  have ins: "sum_list (map (length \<circ> fst) (btree_insert k v m)) \<le> length k + sum_list (map (length \<circ> fst) m)"
    for k v and m :: "(bytes, bytes) btree"
    by (induction m) (auto simp: btree_insert_def)
  have "sum_list (map (length \<circ> fst) (fold (\<lambda>(k, v). btree_insert k v) ps m)) \<le>
      sum_list (map (length \<circ> fst) m) + sum_list (map (length \<circ> fst) ps)" for m
  proof (induction ps arbitrary: m)
    case (Cons e ps)
    obtain k v where e: "e = (k, v)" by (cases e)
    show ?case using Cons [of "btree_insert k v m"] ins [of k v m] by (simp add: e comp_def)
  qed simp
  from this [of "[]"] show ?thesis by (simp add: btree_collect_def)
qed

lemma trie_root_trie:
  assumes H: "\<And>bs. length (H bs) < 2 ^ 16" and m: "m = btree_collect input"
    and "\<forall>e \<in> set input. length (snd e) < 2 ^ 29" "sum_list (map (length \<circ> fst) input) < 2 ^ 28"
  shows "\<exists>t. represents t [] (nibble_entries m) \<and> trie_root H input = Some (H (enc (node_item H t)))"
proof -
  note [simp del] = enc.simps
  let ?ns = "concat (map key_nibbles (map fst m))"
  have "length ?ns = 2 * sum_list (map (length \<circ> fst) m)" by (induction m) simp_all
  then have N: "length ?ns < 2 ^ 29" using btree_collect_size [of input] assms(4) m by simp
  have wf: "btree_wf m" unfolding m by (rule btree_collect_wf)
  have "\<forall>e \<in> set m. length (snd e) < 2 ^ 29"
  proof
    fix e
    assume "e \<in> set m"
    then have "btree_get m (fst e) = Some (snd e)" using btree_mem [OF wf, of "fst e" "snd e"] by simp
    then have "(fst e, snd e) \<in> set input"
      unfolding m btree_collect_get by (metis map_of_SomeD set_rev)
    then show "length (snd e) < 2 ^ 29" using assms(3) by auto
  qed
  then have ent: "entries_at [] (length ?ns) (nibble_entries m)" by (rule entries_at_nibbles [OF wf])
  have root: "trie_root H input = (hash256rlp H (Suc (length ?ns)) (nibble_entries m) 0 stream_new \<bind> stream_out) \<bind> (\<lambda>out. Some (H out))"
    using slice_keys_spec [of "[]" m]
    by (simp add: trie_root_def Let_def m [symmetric] collect_nibbles_spec del: hash256rlp.simps)
  show ?thesis
  proof (cases "m = []")
    case True
    then have "represents Empty [] (nibble_entries m)" by (simp add: represents_def)
    moreover have "(append_empty_data stream_new \<bind> stream_out) = Some (enc (Str []))"
      by (simp add: append_empty_data_def note_appended_def stream_new_def new_with_buffer_def stream_out_def
          is_finished_def enc.simps header_def)
    ultimately show ?thesis using root True by (intro exI [of _ Empty]) simp
  next
    case False
    then obtain t where "represents t [] (nibble_entries m)"
      "(hash256rlp H (Suc (length ?ns)) (nibble_entries m) 0 stream_new \<bind> stream_out) = Some (enc (node_item H t))"
      using hash256rlp_trie [where H = H and fuel = "Suc (length ?ns)", OF H ent] N
      by (auto simp del: hash256rlp.simps)
    then show ?thesis unfolding root by (intro exI [of _ t]) simp
  qed
qed

lemma encode_indices_spec:
  "i + length vs \<le> B \<Longrightarrow>
     encode_indices i vs = Some (zip (map (\<lambda>j. enc (Str (nat_be j))) [i..<i + length vs]) vs)"
proof (induction vs arbitrary: i)
  case (Cons v vs)
  have i: "i < B" using Cons.prems by simp
  then have "length (nat_be i) \<le> 8" by (simp add: length_nat_be_le B_eq)
  then have "small (Str (nat_be i))" by (intro small_Str) simp
  then have "rlp_encode usize_append i = Some (enc (Str (nat_be i)))" using i by (intro usize_codec.encode_spec)
  then show ?case using Cons.IH [of "i + 1"] Cons.prems
    by (simp add: upt_conv_Cons del: enc.simps upt_Suc)
qed simp

subsection \<open>Properties\<close>

text \<open>
  C4. The root of a trie: with a hash of less than 64 kB, values of less than 512 MB and keys of less
  than 256 MB together, \<^verbatim>\<open>trie_root\<close> returns the hash of the node encoding of a compact trie that maps
  exactly the nibbles of the given keys to their values (the last one for a key given twice), nodes
  of 32 bytes and more being replaced by their hashes. The root depends only on the map from keys
  to values; \<^verbatim>\<open>ordered_trie_root\<close> is the root for the encoded positions as keys.
\<close>

theorem trie_root_correct:
  assumes "\<forall>bs. length (H bs) < 2 ^ 16" and "\<forall>e \<in> set input. length (snd e) < 2 ^ 29"
    and "sum_list (map (length \<circ> fst) input) < 2 ^ 28" and "length vals \<le> B"
  shows "(\<exists>t. compact t \<and> (\<forall>k. lookup t (key_nibbles k) = map_of (rev input) k) \<and>
      (\<forall>ns. ns \<notin> range key_nibbles \<longrightarrow> lookup t ns = None) \<and>
      trie_root H input = Some (H (enc (node_item H t)))) \<and>
    (map_of (rev input) = map_of (rev input') \<longrightarrow> trie_root H input = trie_root H input') \<and>
    ordered_trie_root H vals = trie_root H (zip (map (\<lambda>i. enc (Str (nat_be i))) [0..<length vals]) vals)"
proof (intro conjI impI)
  let ?m = "btree_collect input"
  obtain t where t: "represents t [] (nibble_entries ?m)" "trie_root H input = Some (H (enc (node_item H t)))"
    using trie_root_trie [where H = H, OF _ refl] assms by blast
  have "lookup t (key_nibbles k) = map_of (rev input) k" for k
    using representsD(3) [OF t(1)] fun_cong [OF btree_collect_get, of input k]
    by (simp add: map_of_nibble_entries btree_get_def)
  moreover have "lookup t ns = None" if "ns \<notin> range key_nibbles" for ns
    using representsD(3) [OF t(1), of ns] that by (auto simp: map_of_eq_None_iff)
  ultimately show "\<exists>t. compact t \<and> (\<forall>k. lookup t (key_nibbles k) = map_of (rev input) k) \<and>
      (\<forall>ns. ns \<notin> range key_nibbles \<longrightarrow> lookup t ns = None) \<and> trie_root H input = Some (H (enc (node_item H t)))"
    using representsD(1) [OF t(1)] t(2) by blast
  show "trie_root H input = trie_root H input'" if "map_of (rev input) = map_of (rev input')"
  proof -
    have "?m = btree_collect input'"
      using that by (intro btree_eqI btree_collect_wf) (simp add: btree_collect_get)
    then show ?thesis by (simp add: trie_root_def)
  qed
  show "ordered_trie_root H vals = trie_root H (zip (map (\<lambda>i. enc (Str (nat_be i))) [0..<length vals]) vals)"
    using encode_indices_spec [of 0 vals] assms(4) by (simp add: ordered_trie_root_def)
qed

theorem trie_root_correct_witness:
  "trie_root (\<lambda>bs. take 32 bs) [([1], [5]), ([0x12], [6])] = trie_root (\<lambda>bs. take 32 bs) [([0x12], [6]), ([1], [5])] \<and>
   (\<exists>t. lookup t (key_nibbles [0x12]) = Some [6] \<and>
     trie_root (\<lambda>bs. take 32 bs) [([1], [5]), ([0x12], [6])] = Some (take 32 (enc (node_item (\<lambda>bs. take 32 bs) t))))"
proof -
  have p: "\<forall>bs. length (take 32 bs) < 2 ^ 16" "\<forall>e \<in> set [([1], [5]), ([0x12], [6 :: u8])]. length (snd e) < 2 ^ 29"
    "sum_list (map (length \<circ> fst) [([1], [5 :: u8]), ([0x12 :: u8], [6])]) < 2 ^ 28" "length ([] :: bytes list) \<le> B"
    by (simp_all add: min_def)
  have eq: "map_of (rev [([1], [5]), ([0x12], [6])]) = map_of (rev [([0x12], [6]), ([1 :: u8], [5 :: u8])])"
    by (rule ext) simp
  have v: "map_of (rev [([1], [5]), ([0x12 :: u8], [6 :: u8])]) [0x12] = Some [6]" by simp
  show ?thesis
    using trie_root_correct [OF p, of "[([0x12], [6]), ([1], [5])]"] eq unfolding v [symmetric] by blast
qed

end
