(* ===== verification/Secp_Keys.thy ===== *)
theory Secp_Keys
  imports Fixed_Hash
begin

text \<open>
  Secret and public keys of \<^verbatim>\<open>parity-crypto\<close>: the arithmetic of secrets (\<^verbatim>\<open>publickey/secret_key.rs\<close>) and of
  public keys (\<^verbatim>\<open>publickey/ec_math_utils.rs\<close>), key pairs and addresses (\<^verbatim>\<open>publickey/keypair.rs\<close>), and key
  agreement (\<^verbatim>\<open>publickey/ecdh.rs\<close>). The crate \<^verbatim>\<open>secp256k1\<close> is the record \<open>secp256k1\<close> of the functions the
  sources call; the locales \<open>secp_scalars\<close> and \<open>secp_group\<close> state what its documentation promises. A
  \<^verbatim>\<open>SecretKey\<close> is its 32 bytes. Zeroing memory has no observable effect and is left out.
\<close>

subsection \<open>Errors\<close>

datatype secp_error =
    SecpIncorrectSignature | SecpInvalidMessage | SecpInvalidPublicKey | SecpInvalidSecretKey | SecpOther

datatype symm_error = SymmBlockMode | SymmKeyStream | SymmInvalidKeyLength

datatype crypto_error =
    Secp secp_error
  | InvalidSecretKey
  | InvalidPublicKey
  | InvalidAddress
  | InvalidSignature
  | InvalidMessage
  | Io string
  | Symm symm_error
  | Custom string

fun error_from_secp :: "secp_error \<Rightarrow> crypto_error" where
  "error_from_secp SecpInvalidMessage = InvalidMessage"
| "error_from_secp SecpInvalidPublicKey = InvalidPublicKey"
| "error_from_secp SecpInvalidSecretKey = InvalidSecretKey"
| "error_from_secp _ = InvalidSignature"

text \<open>The \<^verbatim>\<open>?\<close> operator on a result of the crate: the error is converted.\<close>

abbreviation secp_try :: "secp_error + 'a \<Rightarrow> (crypto_error + 'a) may_panic" where
  "secp_try r \<equiv> Some (map_sum error_from_secp id r)"

subsection \<open>The crate \<^verbatim>\<open>secp256k1\<close>\<close>

record 'p secp256k1 =
  sk_from_slice :: "bytes \<Rightarrow> secp_error + bytes"
  sk_add_assign :: "bytes \<Rightarrow> bytes \<Rightarrow> secp_error + bytes"
  sk_mul_assign :: "bytes \<Rightarrow> bytes \<Rightarrow> secp_error + bytes"
  ONE_KEY :: bytes
  SECP256K1_CURVE_ORDER :: bytes
  pk_from_secret_key :: "bytes \<Rightarrow> 'p"
  pk_from_slice :: "bytes \<Rightarrow> secp_error + 'p"
  pk_serialize :: "'p \<Rightarrow> bytes"
  pk_serialize_uncompressed :: "'p \<Rightarrow> bytes"
  pk_mul_assign :: "'p \<Rightarrow> bytes \<Rightarrow> secp_error + 'p"
  pk_combine :: "'p \<Rightarrow> 'p \<Rightarrow> secp_error + 'p"
  shared_secret_x :: "'p \<Rightarrow> bytes \<Rightarrow> bytes"

subsection \<open>Secrets\<close>

type_synonym secret = fixed_hash

definition MINUS_ONE_KEY :: bytes where
  "MINUS_ONE_KEY =
     [0xff, 0xff, 0xff, 0xff, 0xff, 0xff, 0xff, 0xff, 0xff, 0xff, 0xff, 0xff, 0xff, 0xff, 0xff, 0xfe, 0xba, 0xae, 0xdc,
      0xe6, 0xaf, 0x48, 0xa0, 0x3b, 0xbf, 0xd2, 0x5e, 0x8c, 0xd0, 0x36, 0x41, 0x40]"

definition secret_copy_from_slice :: "bytes \<Rightarrow> secret option may_panic" where
  "secret_copy_from_slice key =
     (if length key \<noteq> 32 then Some None
      else do {
        let h = hash_zero 32;
        part \<leftarrow> slice_range key 0 32;
        h \<leftarrow> copy_from_slice h part;
        Some (Some h) })"

text \<open>\<open>debug\<close> is the \<^verbatim>\<open>Debug\<close> text of the error of the hexadecimal parser.\<close>

definition secret_copy_from_str ::
  "(bytes \<Rightarrow> 'i) \<Rightarrow> ('i \<Rightarrow> (from_hex_error + u8) option \<times> 'i) \<Rightarrow> (from_hex_error \<Rightarrow> string) \<Rightarrow> bytes \<Rightarrow> crypto_error + secret" where
  "secret_copy_from_str iter_new iter_next debug s =
     (case hash_from_str iter_new iter_next 32 s of Inl e \<Rightarrow> Inl (Custom (debug e)) | Inr h \<Rightarrow> Inr h)"

definition secret_zero :: secret where
  "secret_zero = hash_zero 32"

definition secret_from_key :: "bytes \<Rightarrow> secret may_panic" where
  "secret_from_key key = do { part \<leftarrow> slice_range key 0 32; copy_from_slice (replicate 32 0) part }"

definition import_key :: "'p secp256k1 \<Rightarrow> bytes \<Rightarrow> (crypto_error + secret) may_panic" where
  "import_key S key =
     try_bind (secp_try (sk_from_slice S key)) (\<lambda>secret. map_option Inr (secret_from_key secret))"

definition to_secp256k1_secret :: "'p secp256k1 \<Rightarrow> secret \<Rightarrow> (crypto_error + bytes) may_panic" where
  "to_secp256k1_secret S self = secp_try (sk_from_slice S self)"

definition check_validity :: "'p secp256k1 \<Rightarrow> secret \<Rightarrow> (crypto_error + unit) may_panic" where
  "check_validity S self = map_option (map_sum id (\<lambda>_. ())) (to_secp256k1_secret S self)"

definition secret_to_hex :: "secret \<Rightarrow> bytes" where
  "secret_to_hex self = hash_lower_hex False self"

text \<open>
  The operations that change a secret in place return their result and the new secret; the error
  of an inner step leaves the secret as it is at that point.
\<close>

definition store_secret :: "secret \<Rightarrow> (crypto_error + bytes) may_panic \<Rightarrow> ((crypto_error + unit) \<times> secret) may_panic" where
  "store_secret self m =
     do {
       r \<leftarrow> m;
       case r of
         Inl e \<Rightarrow> Some (Inl e, self)
       | Inr key \<Rightarrow> do { self \<leftarrow> secret_from_key key; Some (Inr (), self) } }"

definition secret_add :: "'p secp256k1 \<Rightarrow> secret \<Rightarrow> secret \<Rightarrow> ((crypto_error + unit) \<times> secret) may_panic" where
  "secret_add S self other =
     (case (hash_is_zero self, hash_is_zero other) of
        (True, True) \<Rightarrow> Some (Inr (), self)
      | (False, True) \<Rightarrow> Some (Inr (), self)
      | (True, False) \<Rightarrow> Some (Inr (), other)
      | (False, False) \<Rightarrow>
          store_secret self
            (try_bind (to_secp256k1_secret S self) (\<lambda>key_secret.
             try_bind (to_secp256k1_secret S other) (\<lambda>other_secret.
             secp_try (sk_add_assign S key_secret other_secret)))))"

definition secret_neg :: "'p secp256k1 \<Rightarrow> secret \<Rightarrow> ((crypto_error + unit) \<times> secret) may_panic" where
  "secret_neg S self =
     (if hash_is_zero self then Some (Inr (), self)
      else store_secret self
        (try_bind (to_secp256k1_secret S self) (\<lambda>key_secret. secp_try (sk_mul_assign S key_secret MINUS_ONE_KEY))))"

definition secret_sub :: "'p secp256k1 \<Rightarrow> secret \<Rightarrow> secret \<Rightarrow> ((crypto_error + unit) \<times> secret) may_panic" where
  "secret_sub S self other =
     (case (hash_is_zero self, hash_is_zero other) of
        (True, True) \<Rightarrow> Some (Inr (), self)
      | (False, True) \<Rightarrow> Some (Inr (), self)
      | (True, False) \<Rightarrow> secret_neg S other
      | (False, False) \<Rightarrow>
          store_secret self
            (try_bind (to_secp256k1_secret S self) (\<lambda>key_secret.
             try_bind (to_secp256k1_secret S other) (\<lambda>other_secret.
             try_bind (secp_try (sk_mul_assign S other_secret MINUS_ONE_KEY)) (\<lambda>other_secret.
             secp_try (sk_add_assign S key_secret other_secret))))))"

definition secret_dec :: "'p secp256k1 \<Rightarrow> secret \<Rightarrow> ((crypto_error + unit) \<times> secret) may_panic" where
  "secret_dec S self =
     (if hash_is_zero self then
        do { r \<leftarrow> secret_copy_from_slice MINUS_ONE_KEY; case r of None \<Rightarrow> panic | Some self \<Rightarrow> Some (Inr (), self) }
      else store_secret self
        (try_bind (to_secp256k1_secret S self) (\<lambda>key_secret. secp_try (sk_add_assign S key_secret MINUS_ONE_KEY))))"

definition secret_mul :: "'p secp256k1 \<Rightarrow> secret \<Rightarrow> secret \<Rightarrow> ((crypto_error + unit) \<times> secret) may_panic" where
  "secret_mul S self other =
     (case (hash_is_zero self, hash_is_zero other) of
        (True, True) \<Rightarrow> Some (Inr (), self)
      | (True, False) \<Rightarrow> Some (Inr (), self)
      | (False, True) \<Rightarrow> Some (Inr (), secret_zero)
      | (False, False) \<Rightarrow>
          store_secret self
            (try_bind (to_secp256k1_secret S self) (\<lambda>key_secret.
             try_bind (to_secp256k1_secret S other) (\<lambda>other_secret.
             secp_try (sk_mul_assign S key_secret other_secret)))))"

fun secret_pow_loop :: "'p secp256k1 \<Rightarrow> secret \<Rightarrow> nat \<Rightarrow> secret \<Rightarrow> ((crypto_error + unit) \<times> secret) may_panic" where
  "secret_pow_loop S c 0 self = Some (Inr (), self)"
| "secret_pow_loop S c (Suc k) self =
     do {
       (r, self) \<leftarrow> secret_mul S self c;
       case r of Inl e \<Rightarrow> Some (Inl e, self) | Inr _ \<Rightarrow> secret_pow_loop S c k self }"

definition secret_pow :: "'p secp256k1 \<Rightarrow> secret \<Rightarrow> nat \<Rightarrow> ((crypto_error + unit) \<times> secret) may_panic" where
  "secret_pow S self pow =
     (if hash_is_zero self then Some (Inr (), self)
      else if pow = 0 then do { self \<leftarrow> secret_from_key (ONE_KEY S); Some (Inr (), self) }
      else if pow = 1 then Some (Inr (), self)
      else let c = self in secret_pow_loop S c (pow - 1) self)"

subsection \<open>Public keys\<close>

type_synonym public = fixed_hash

definition to_secp256k1_public :: "'p secp256k1 \<Rightarrow> public \<Rightarrow> (crypto_error + 'p) may_panic" where
  "to_secp256k1_public S public =
     do {
       let temp = replicate 65 4;
       part \<leftarrow> slice_range public 0 64;
       tail \<leftarrow> copy_from_slice (drop 1 temp) part;
       secp_try (pk_from_slice S (take 1 temp @ tail)) }"

definition set_public :: "'p secp256k1 \<Rightarrow> public \<Rightarrow> 'p \<Rightarrow> public may_panic" where
  "set_public S public key_public =
     do {
       part \<leftarrow> slice_range (pk_serialize_uncompressed S key_public) 1 65;
       copy_from_slice public part }"

definition store_public :: "'p secp256k1 \<Rightarrow> public \<Rightarrow> (crypto_error + 'p) may_panic \<Rightarrow> ((crypto_error + unit) \<times> public) may_panic" where
  "store_public S public m =
     do {
       r \<leftarrow> m;
       case r of
         Inl e \<Rightarrow> Some (Inl e, public)
       | Inr key \<Rightarrow> do { public \<leftarrow> set_public S public key; Some (Inr (), public) } }"

definition public_mul_secret :: "'p secp256k1 \<Rightarrow> public \<Rightarrow> secret \<Rightarrow> ((crypto_error + unit) \<times> public) may_panic" where
  "public_mul_secret S public secret =
     store_public S public
       (try_bind (to_secp256k1_secret S secret) (\<lambda>key_secret.
        try_bind (to_secp256k1_public S public) (\<lambda>key_public.
        secp_try (pk_mul_assign S key_public key_secret))))"

definition public_add :: "'p secp256k1 \<Rightarrow> public \<Rightarrow> public \<Rightarrow> ((crypto_error + unit) \<times> public) may_panic" where
  "public_add S public other =
     store_public S public
       (try_bind (to_secp256k1_public S public) (\<lambda>key_public.
        try_bind (to_secp256k1_public S other) (\<lambda>other_public.
        secp_try (pk_combine S key_public other_public))))"

definition public_sub :: "'p secp256k1 \<Rightarrow> public \<Rightarrow> public \<Rightarrow> ((crypto_error + unit) \<times> public) may_panic" where
  "public_sub S public other =
     store_public S public
       (try_bind (to_secp256k1_public S other) (\<lambda>key_neg_other.
        try_bind (secp_try (pk_mul_assign S key_neg_other MINUS_ONE_KEY)) (\<lambda>key_neg_other.
        try_bind (to_secp256k1_public S public) (\<lambda>key_public.
        secp_try (pk_combine S key_public key_neg_other)))))"

definition public_negate :: "'p secp256k1 \<Rightarrow> public \<Rightarrow> ((crypto_error + unit) \<times> public) may_panic" where
  "public_negate S public =
     store_public S public
       (try_bind (to_secp256k1_public S public) (\<lambda>key_public. secp_try (pk_mul_assign S key_public MINUS_ONE_KEY)))"

definition BASE_POINT_BYTES :: bytes where
  "BASE_POINT_BYTES =
     [0x4,
      0x79, 0xbe, 0x66, 0x7e, 0xf9, 0xdc, 0xbb, 0xac, 0x55, 0xa0, 0x62, 0x95, 0xce, 0x87, 0x0b, 0x07, 0x02, 0x9b, 0xfc,
      0xdb, 0x2d, 0xce, 0x28, 0xd9, 0x59, 0xf2, 0x81, 0x5b, 0x16, 0xf8, 0x17, 0x98,
      0x48, 0x3a, 0xda, 0x77, 0x26, 0xa3, 0xc4, 0x65, 0x5d, 0xa4, 0xfb, 0xfc, 0x0e, 0x11, 0x08, 0xa8, 0xfd, 0x17, 0xb4,
      0x48, 0xa6, 0x85, 0x54, 0x19, 0x9c, 0x47, 0xd0, 0x8f, 0xfb, 0x10, 0xd4, 0xb8]"

definition generation_point :: "'p secp256k1 \<Rightarrow> public may_panic" where
  "generation_point S =
     (case pk_from_slice S BASE_POINT_BYTES of Inl e \<Rightarrow> panic | Inr public_key \<Rightarrow> set_public S (hash_default 64) public_key)"

subsection \<open>Key pairs, addresses and key agreement\<close>

record key_pair =
  kp_secret :: secret
  kp_public :: public

text \<open>\<open>keccak256\<close> is the trait method of \<^verbatim>\<open>parity-crypto\<close>, the hash function of \<^verbatim>\<open>tiny-keccak\<close>.\<close>

definition public_to_address :: "(bytes \<Rightarrow> bytes) \<Rightarrow> public \<Rightarrow> fixed_hash may_panic" where
  "public_to_address keccak256 public =
     do {
       let hash = keccak256 public;
       part \<leftarrow> slice_range hash 12 (length hash);
       copy_from_slice (hash_zero 20) part }"

definition public_of_key :: "'p secp256k1 \<Rightarrow> 'p \<Rightarrow> public may_panic" where
  "public_of_key S pub_key =
     do {
       part \<leftarrow> slice_range (pk_serialize_uncompressed S pub_key) 1 65;
       copy_from_slice (hash_default 64) part }"

definition key_pair_from_secret :: "'p secp256k1 \<Rightarrow> secret \<Rightarrow> (crypto_error + key_pair) may_panic" where
  "key_pair_from_secret S secret =
     try_bind (secp_try (sk_from_slice S secret)) (\<lambda>s.
       do {
         public \<leftarrow> public_of_key S (pk_from_secret_key S s);
         Some (Inr \<lparr> kp_secret = secret, kp_public = public \<rparr>) })"

definition key_pair_from_secret_slice :: "'p secp256k1 \<Rightarrow> bytes \<Rightarrow> (crypto_error + key_pair) may_panic" where
  "key_pair_from_secret_slice S slc = try_bind (import_key S slc) (key_pair_from_secret S)"

definition from_keypair :: "'p secp256k1 \<Rightarrow> bytes \<Rightarrow> 'p \<Rightarrow> key_pair may_panic" where
  "from_keypair S sec publ =
     do {
       secret \<leftarrow> secret_from_key sec;
       public \<leftarrow> public_of_key S publ;
       Some \<lparr> kp_secret = secret, kp_public = public \<rparr> }"

definition key_pair_address :: "(bytes \<Rightarrow> bytes) \<Rightarrow> key_pair \<Rightarrow> fixed_hash may_panic" where
  "key_pair_address keccak256 self = public_to_address keccak256 (kp_public self)"

text \<open>\<open>generate_keypair\<close> is the method of the crate, with the random generator as its state.\<close>

definition random_generate :: "'p secp256k1 \<Rightarrow> ('r \<Rightarrow> (bytes \<times> 'p) \<times> 'r) \<Rightarrow> 'r \<Rightarrow> (key_pair \<times> 'r) may_panic" where
  "random_generate S generate_keypair rng =
     (let ((sec, publ), rng) = generate_keypair rng
      in do { kp \<leftarrow> from_keypair S sec publ; Some (kp, rng) })"

definition agree :: "'p secp256k1 \<Rightarrow> secret \<Rightarrow> public \<Rightarrow> (crypto_error + secret) may_panic" where
  "agree S secret public =
     do {
       let temp = replicate 65 4;
       part \<leftarrow> slice_range public 0 64;
       tail \<leftarrow> copy_from_slice (drop 1 temp) part;
       let pdata = take 1 temp @ tail;
       try_bind (secp_try (pk_from_slice S pdata)) (\<lambda>publ.
         try_bind (secp_try (sk_from_slice S (hash_as_bytes secret))) (\<lambda>sec.
           do {
             let shared = shared_secret_x S publ sec;
             part \<leftarrow> slice_range shared 0 32;
             r \<leftarrow> import_key S part;
             Some (case r of Inl e \<Rightarrow> Inl (Secp SecpInvalidSecretKey) | Inr s \<Rightarrow> Inr s) })) }"

subsection \<open>Scalars\<close>

text \<open>The order of the group of the curve; the base of all arithmetic on secrets.\<close>

definition curve_order :: nat where
  "curve_order = 0xfffffffffffffffffffffffffffffffebaaedce6af48a03bbfd25e8cd0364141"

definition be_bytes :: "nat \<Rightarrow> nat \<Rightarrow> bytes" where
  "be_bytes n v = rev (limbs n v)"

lemma length_be_bytes [simp]: "length (be_bytes n v) = n"
  by (simp add: be_bytes_def)

lemma hval_be_bytes: "v < 256 ^ n \<Longrightarrow> hval (be_bytes n v) = v"
  by (simp add: be_bytes_def hval_def lval_limbs radix_def)

lemma be_bytes_hval: "length h = n \<Longrightarrow> be_bytes n (hval h) = h"
  using limbs_lval [of "rev h" n] by (simp add: be_bytes_def hval_def)

lemma curve_order_bounds: "1 < curve_order" "curve_order < 256 ^ 32" "0 < curve_order"
  by (simp_all add: curve_order_def)

lemma minus_one_key: "hval MINUS_ONE_KEY = curve_order - 1" "length MINUS_ONE_KEY = 32"
  by (simp_all add: MINUS_ONE_KEY_def hval_def radix_def curve_order_def)

definition scalar :: "secret \<Rightarrow> bool" where
  "scalar s \<longleftrightarrow> length s = 32 \<and> hval s < curve_order"

abbreviation residue :: "nat \<Rightarrow> secret" where
  "residue v \<equiv> be_bytes 32 (v mod curve_order)"

lemma hval_residue [simp]: "hval (residue v) = v mod curve_order"
proof -
  have "v mod curve_order < curve_order" using curve_order_bounds(3) by simp
  also have "\<dots> < 256 ^ 32" by (rule curve_order_bounds(2))
  finally show ?thesis by (rule hval_be_bytes)
qed

lemma scalar_residue [simp]: "scalar (residue v)"
  using curve_order_bounds(3) by (simp add: scalar_def)

lemma residue_scalar: "scalar a \<Longrightarrow> residue (hval a) = a"
  by (simp add: scalar_def be_bytes_hval)

lemma scalar_bound: "scalar a \<Longrightarrow> hval a < curve_order" and scalar_length: "scalar a \<Longrightarrow> length a = 32"
  by (simp_all add: scalar_def)

lemma scalar_zero [simp]: "scalar secret_zero" "hval secret_zero = 0"
  using curve_order_bounds(3) by (simp_all add: scalar_def secret_zero_def hash_zero_def hash_repeat_byte_def)

lemma residue_0: "residue 0 = secret_zero"
  using residue_scalar [OF scalar_zero(1)] by simp

lemma be_bytes_scalar [simp]: "scalar a \<Longrightarrow> be_bytes 32 (hval a) = a" "be_bytes 32 0 = secret_zero"
  using residue_0 by (simp_all add: scalar_def be_bytes_hval)

lemma secret_from_key_same [simp]: "length k = 32 \<Longrightarrow> secret_from_key k = Some k"
  by (simp add: secret_from_key_def slice_range_def copy_from_slice_def)

lemma store_secret_simps [simp]:
  "store_secret s (Some (Inl e)) = Some (Inl e, s)"
  "length k = 32 \<Longrightarrow> store_secret s (Some (Inr k)) = Some (Inr (), k)"
  by (simp_all add: store_secret_def)

text \<open>What the documentation of the crate says about secret keys.\<close>

locale secp_scalars =
  fixes S :: "'p secp256k1"
  assumes from_slice: "sk_from_slice S bs =
      (if length bs = 32 \<and> 0 < hval bs \<and> hval bs < curve_order then Inr bs else Inl SecpInvalidSecretKey)"
    and add_assign: "scalar k \<Longrightarrow> 0 < hval k \<Longrightarrow> length t = 32 \<Longrightarrow> sk_add_assign S k t =
      (if hval t < curve_order \<and> (hval k + hval t) mod curve_order \<noteq> 0 then Inr (residue (hval k + hval t)) else Inl SecpOther)"
    and mul_assign: "scalar k \<Longrightarrow> 0 < hval k \<Longrightarrow> length t = 32 \<Longrightarrow> sk_mul_assign S k t =
      (if 0 < hval t \<and> hval t < curve_order then Inr (residue (hval k * hval t)) else Inl SecpOther)"
    and one_key: "ONE_KEY S = residue 1"
    and order_bytes: "SECP256K1_CURVE_ORDER S = be_bytes 32 curve_order"
begin

lemma to_secret: "scalar a \<Longrightarrow> hval a \<noteq> 0 \<Longrightarrow> to_secp256k1_secret S a = Some (Inr a)"
  by (simp add: to_secp256k1_secret_def from_slice scalar_def)

lemma add_spec:
  assumes "scalar a" and "scalar b"
  shows "secret_add S a b =
    (if hval a \<noteq> 0 \<and> hval b \<noteq> 0 \<and> (hval a + hval b) mod curve_order = 0 then Some (Inl InvalidSignature, a)
     else Some (Inr (), residue (hval a + hval b)))"
  using assms scalar_length be_bytes_scalar(1) [OF assms(1)] be_bytes_scalar(1) [OF assms(2)]
  by (cases "hval a = 0"; cases "hval b = 0")
     (simp_all add: secret_add_def hash_is_zero_spec to_secret add_assign residue_scalar scalar_bound)

lemma neg_product: "0 < a \<Longrightarrow> a < curve_order \<Longrightarrow> a * (curve_order - 1) mod curve_order = curve_order - a"
proof -
  assume a: "0 < a" "a < curve_order"
  obtain c d where c: "a = Suc c" and d: "curve_order = Suc c + d" "0 < d"
    using a by (metis gr0_implies_Suc less_imp_add_positive)
  have "a * (curve_order - 1) = c * curve_order + d" unfolding c d(1) by (simp add: algebra_simps)
  then show ?thesis using d by (simp add: c)
qed

lemma neg_spec:
  assumes "scalar a"
  shows "secret_neg S a = Some (Inr (), residue (curve_order - hval a))"
proof (cases "hval a = 0")
  case True
  then show ?thesis using residue_scalar [OF assms] residue_0
    by (simp add: secret_neg_def hash_is_zero_spec)
next
  case False
  then have "residue (hval a * (curve_order - 1)) = residue (curve_order - hval a)"
    using neg_product [of "hval a"] assms by (simp add: scalar_def)
  then show ?thesis
    using False assms minus_one_key curve_order_bounds
    by (simp add: secret_neg_def hash_is_zero_spec to_secret mul_assign)
qed

lemma sub_spec:
  assumes "scalar a" and "scalar b"
  shows "secret_sub S a b =
    (if hval a \<noteq> 0 \<and> hval a = hval b then Some (Inl InvalidSignature, a)
     else Some (Inr (), residue (hval a + (curve_order - hval b))))"
proof (cases "hval a = 0 \<or> hval b = 0")
  case True
  then show ?thesis using neg_spec [OF assms(2)] residue_scalar [OF assms(1)]
    by (cases "hval a = 0"; cases "hval b = 0") (simp_all add: secret_sub_def hash_is_zero_spec)
next
  case False
  let ?m = "residue (curve_order - hval b)"
  have lt: "hval a < curve_order" "hval b < curve_order" using assms by (simp_all add: scalar_def)
  have m: "hval ?m = curve_order - hval b" "length ?m = 32" by (subst hval_residue) (use False lt in simp_all)
  have z: "(hval a + (curve_order - hval b)) mod curve_order = 0 \<longleftrightarrow> hval a = hval b"
    using False lt by (cases "hval a" "hval b" rule: linorder_cases) (auto simp: mod_if)
  have "sk_mul_assign S b MINUS_ONE_KEY = Inr ?m"
    using False assms minus_one_key curve_order_bounds neg_product [of "hval b"] lt by (simp add: mul_assign)
  then show ?thesis
    using False assms m z lt by (simp add: secret_sub_def hash_is_zero_spec to_secret add_assign)
qed

lemma dec_spec:
  assumes "scalar a"
  shows "secret_dec S a =
    (if hval a = 1 then Some (Inl InvalidSignature, a) else Some (Inr (), residue (hval a + (curve_order - 1))))"
proof (cases "hval a = 0")
  case True
  then show ?thesis
    using minus_one_key be_bytes_hval [of MINUS_ONE_KEY 32] curve_order_bounds
    by (simp add: secret_dec_def hash_is_zero_spec secret_copy_from_slice_def slice_range_def copy_from_slice_def
        hash_zero_def hash_repeat_byte_def)
next
  case False
  have lt: "hval a < curve_order" using assms by (simp add: scalar_def)
  have "(hval a + (curve_order - 1)) mod curve_order = 0 \<longleftrightarrow> hval a = 1"
    using False lt by (auto simp: mod_if)
  then show ?thesis
    using False assms minus_one_key curve_order_bounds
    by (simp add: secret_dec_def hash_is_zero_spec to_secret add_assign)
qed

lemma mul_spec:
  assumes "scalar a" and "scalar b"
  shows "secret_mul S a b = Some (Inr (), residue (hval a * hval b))"
  using assms scalar_length residue_scalar [OF assms(1)]
  by (cases "hval a = 0"; cases "hval b = 0")
     (simp_all add: secret_mul_def hash_is_zero_spec to_secret mul_assign residue_0 scalar_bound)

lemma pow_loop_spec:
  "scalar a \<Longrightarrow> scalar c \<Longrightarrow> secret_pow_loop S c k a = Some (Inr (), residue (hval a * hval c ^ k))"
proof (induction k arbitrary: a)
  case 0
  then show ?case by (simp add: residue_scalar)
next
  case (Suc k)
  have "residue (hval a * hval c mod curve_order * hval c ^ k) = residue (hval a * hval c ^ Suc k)"
    by (simp add: mod_mult_left_eq mult.assoc)
  then show ?case using Suc by (simp add: mul_spec)
qed

lemma pow_spec:
  assumes "scalar a"
  shows "secret_pow S a k = Some (Inr (), if hval a = 0 then a else residue (hval a ^ k))"
proof -
  have "hval a * hval a ^ (k - 1) = hval a ^ k" if "k \<noteq> 0" using that by (cases k) simp_all
  then show ?thesis
    using assms residue_scalar [OF assms] curve_order_bounds
    by (auto simp: secret_pow_def hash_is_zero_spec one_key pow_loop_spec Let_def)
qed

end

subsection \<open>Points\<close>

text \<open>The 64 bytes of a point: its uncompressed form without the tag.\<close>

definition point_bytes :: "'p secp256k1 \<Rightarrow> 'p \<Rightarrow> public" where
  "point_bytes S P = drop 1 (pk_serialize_uncompressed S P)"

text \<open>
  What the documentation of the crate says about public keys: they are the multiples \<open>gen i\<close> of the
  base point but the point at infinity, which is no public key; they are written and parsed in the
  format of SEC1; the shared secret is the first coordinate of the product.
\<close>

locale secp_group = secp_scalars S for S :: "'p secp256k1" +
  fixes gen :: "nat \<Rightarrow> 'p"
  assumes gen_mod: "gen (i mod curve_order) = gen i"
    and of_secret: "scalar k \<Longrightarrow> 0 < hval k \<Longrightarrow> pk_from_secret_key S k = gen (hval k)"
    and length_serialized: "length (pk_serialize_uncompressed S P) = 65" "length (pk_serialize S P) = 33"
    and tag: "pk_serialize_uncompressed S P ! 0 = 4"
    and parse_serialized: "i mod curve_order \<noteq> 0 \<Longrightarrow> pk_from_slice S (pk_serialize_uncompressed S (gen i)) = Inr (gen i)"
    and mul_point: "i mod curve_order \<noteq> 0 \<Longrightarrow> length t = 32 \<Longrightarrow> pk_mul_assign S (gen i) t =
      (if 0 < hval t \<and> hval t < curve_order then Inr (gen (i * hval t)) else Inl SecpOther)"
    and combine_points: "i mod curve_order \<noteq> 0 \<Longrightarrow> j mod curve_order \<noteq> 0 \<Longrightarrow> pk_combine S (gen i) (gen j) =
      (if (i + j) mod curve_order = 0 then Inl SecpInvalidPublicKey else Inr (gen (i + j)))"
    and base_point: "pk_from_slice S BASE_POINT_BYTES = Inr (gen 1)"
    and shared_x: "shared_secret_x S (gen i) k = take 32 (point_bytes S (gen (i * hval k)))"
begin

lemma gen_cong: "i mod curve_order = j mod curve_order \<Longrightarrow> gen i = gen j"
  by (metis gen_mod)

lemma length_point [simp]: "length (point_bytes S P) = 64"
  by (simp add: point_bytes_def length_serialized)

lemma serialized_point: "4 # point_bytes S P = pk_serialize_uncompressed S P"
  unfolding point_bytes_def
  using length_serialized(1) [of P] tag [of P] by (cases "pk_serialize_uncompressed S P") auto

lemma tagged_key: "take 1 (replicate 65 4) @ point_bytes S P = pk_serialize_uncompressed S P"
  by (simp add: serialized_point)

lemma to_public: "i mod curve_order \<noteq> 0 \<Longrightarrow> to_secp256k1_public S (point_bytes S (gen i)) = Some (Inr (gen i))"
  using tagged_key [of "gen i"]
  by (simp add: to_secp256k1_public_def slice_range_def copy_from_slice_def parse_serialized)

lemma set_public_point: "length p = 64 \<Longrightarrow> set_public S p P = Some (point_bytes S P)"
  using length_serialized(1) [of P]
  by (simp add: set_public_def slice_range_def copy_from_slice_def point_bytes_def)

lemma store_public_simps:
  "store_public S p (Some (Inl e)) = Some (Inl e, p)"
  "length p = 64 \<Longrightarrow> store_public S p (Some (Inr P)) = Some (Inr (), point_bytes S P)"
  by (simp_all add: store_public_def set_public_point)

lemma public_of_key_point: "public_of_key S P = Some (point_bytes S P)"
  using length_serialized(1) [of P]
  by (simp add: public_of_key_def slice_range_def copy_from_slice_def point_bytes_def hash_default_def hash_zero_def
      hash_repeat_byte_def)

lemma public_add_spec:
  assumes "i mod curve_order \<noteq> 0" and "j mod curve_order \<noteq> 0"
  shows "public_add S (point_bytes S (gen i)) (point_bytes S (gen j)) =
    (if (i + j) mod curve_order = 0 then Some (Inl InvalidPublicKey, point_bytes S (gen i))
     else Some (Inr (), point_bytes S (gen (i + j))))"
  using assms by (simp add: public_add_def to_public combine_points store_public_simps)

lemma public_negate_spec:
  assumes "i mod curve_order \<noteq> 0"
  shows "public_negate S (point_bytes S (gen i)) = Some (Inr (), point_bytes S (gen (i * (curve_order - 1))))"
  using assms minus_one_key curve_order_bounds
  by (simp add: public_negate_def to_public mul_point store_public_simps)

lemma negated_residue:
  assumes "i mod curve_order \<noteq> 0"
  shows "i * (curve_order - 1) mod curve_order = curve_order - i mod curve_order" (is ?neg)
    and "i * (curve_order - 1) mod curve_order \<noteq> 0"
proof -
  have lt: "i mod curve_order < curve_order" using curve_order_bounds(3) by simp
  have "i * (curve_order - 1) mod curve_order = i mod curve_order * (curve_order - 1) mod curve_order"
    by (rule mod_mult_left_eq [symmetric])
  then show ?neg using neg_product [of "i mod curve_order"] assms lt by simp
  then show "i * (curve_order - 1) mod curve_order \<noteq> 0" using lt by simp
qed

lemma public_sub_spec:
  assumes i: "i mod curve_order \<noteq> 0" and j: "j mod curve_order \<noteq> 0"
  shows "public_sub S (point_bytes S (gen i)) (point_bytes S (gen j)) =
    (if (i + j * (curve_order - 1)) mod curve_order = 0 then Some (Inl InvalidPublicKey, point_bytes S (gen i))
     else Some (Inr (), point_bytes S (gen (i + j * (curve_order - 1)))))"
  using i j minus_one_key curve_order_bounds negated_residue(2) [OF j]
  by (simp add: public_sub_def to_public mul_point combine_points store_public_simps)

lemma public_mul_spec:
  assumes "i mod curve_order \<noteq> 0" and "scalar s" and "0 < hval s"
  shows "public_mul_secret S (point_bytes S (gen i)) s = Some (Inr (), point_bytes S (gen (i * hval s)))"
  using assms scalar_length [OF assms(2)] scalar_bound [OF assms(2)]
  by (simp add: public_mul_secret_def to_public to_secret mul_point store_public_simps)

lemma generation_point_spec: "generation_point S = Some (point_bytes S (gen 1))"
  by (simp add: generation_point_def base_point set_public_point hash_default_def hash_zero_def hash_repeat_byte_def)

lemma key_pair_spec:
  assumes "scalar s" and "0 < hval s"
  shows "key_pair_from_secret S s = Some (Inr \<lparr> kp_secret = s, kp_public = point_bytes S (gen (hval s)) \<rparr>)"
  using assms scalar_length [OF assms(1)] scalar_bound [OF assms(1)]
  by (simp add: key_pair_from_secret_def from_slice of_secret public_of_key_point)

lemma double_negation: "gen (i * (curve_order - 1) * (curve_order - 1)) = gen i"
proof (rule gen_cong)
  obtain m where "curve_order = Suc (1 + m)" using less_imp_Suc_add [OF curve_order_bounds(1)] by blast
  moreover have "i * (n - 1) * (n - 1) = i + i * m * n" if "n = Suc (1 + m)" for n
    unfolding that by (simp add: algebra_simps)
  ultimately have "i * (curve_order - 1) * (curve_order - 1) = i + i * m * curve_order" by blast
  then show "i * (curve_order - 1) * (curve_order - 1) mod curve_order = i mod curve_order"
    by (simp only: mod_mult_self1)
qed

lemma sum_minus: "(i + j + j * (curve_order - 1)) mod curve_order = i mod curve_order"
proof -
  have "j + j * (n - 1) = j * n" if "0 < n" for n :: nat using that by (cases n) simp_all
  then have "i + j + j * (curve_order - 1) = i + j * curve_order" using curve_order_bounds(3) by (simp add: add.assoc)
  then show ?thesis by (simp only: mod_mult_self1)
qed

lemma public_inverses:
  assumes "i mod curve_order \<noteq> 0" and "j mod curve_order \<noteq> 0"
  shows "public_negate S (point_bytes S (gen (i * (curve_order - 1)))) = Some (Inr (), point_bytes S (gen i))"
    and "(i + j) mod curve_order \<noteq> 0 \<Longrightarrow>
      public_sub S (point_bytes S (gen (i + j))) (point_bytes S (gen j)) = Some (Inr (), point_bytes S (gen i))"
  using assms public_negate_spec [OF negated_residue(2) [OF assms(1)]] public_sub_spec [of "i + j" j] sum_minus [of i j]
    gen_cong [OF sum_minus, of i j] double_negation [of i]
  by simp_all

lemma agree_spec:
  assumes "scalar s" and "0 < hval s" and "i mod curve_order \<noteq> 0"
  shows "agree S s (point_bytes S (gen i)) =
    (let x = take 32 (point_bytes S (gen (i * hval s)))
     in Some (if 0 < hval x \<and> hval x < curve_order then Inr x else Inl (Secp SecpInvalidSecretKey)))"
  using assms scalar_length [OF assms(1)] scalar_bound [OF assms(1)] tagged_key [of "gen i"]
  by (auto simp: agree_def slice_range_def copy_from_slice_def parse_serialized from_slice hash_as_bytes_def shared_x
      import_key_def Let_def)

lemma agree_symmetric:
  assumes "scalar a" "0 < hval a" "scalar b" "0 < hval b"
  shows "agree S a (point_bytes S (gen (hval b))) = agree S b (point_bytes S (gen (hval a)))"
  using assms scalar_bound [OF assms(1)] scalar_bound [OF assms(3)] by (simp add: agree_spec mult.commute)

end

subsection \<open>The group by its exponents\<close>

text \<open>
  The group of the curve up to isomorphism: a point is the multiple of the base point it is. Scalars
  are computed as the crate computes them; a point other than the base point is written as its
  multiple.
\<close>

definition exponent_key :: "nat \<Rightarrow> bytes" where
  "exponent_key e = (if e = 1 then BASE_POINT_BYTES else 4 # be_bytes 32 e @ replicate 32 0)"

definition exponent_parse :: "bytes \<Rightarrow> secp_error + nat" where
  "exponent_parse bs =
     (if bs = BASE_POINT_BYTES then Inr 1
      else if length bs = 65 \<and> bs ! 0 = 4 \<and> drop 33 bs = replicate 32 0 \<and> hval (take 32 (drop 1 bs)) < curve_order
      then Inr (hval (take 32 (drop 1 bs)))
      else Inl SecpInvalidPublicKey)"

definition exponent_secp :: "nat secp256k1" where
  "exponent_secp =
     \<lparr> sk_from_slice = \<lambda>bs. if length bs = 32 \<and> 0 < hval bs \<and> hval bs < curve_order then Inr bs else Inl SecpInvalidSecretKey,
       sk_add_assign = \<lambda>k t. if hval t < curve_order \<and> (hval k + hval t) mod curve_order \<noteq> 0
         then Inr (residue (hval k + hval t)) else Inl SecpOther,
       sk_mul_assign = \<lambda>k t. if 0 < hval t \<and> hval t < curve_order then Inr (residue (hval k * hval t)) else Inl SecpOther,
       ONE_KEY = residue 1,
       SECP256K1_CURVE_ORDER = be_bytes 32 curve_order,
       pk_from_secret_key = \<lambda>k. hval k mod curve_order,
       pk_from_slice = exponent_parse,
       pk_serialize = \<lambda>e. 2 # be_bytes 32 e,
       pk_serialize_uncompressed = exponent_key,
       pk_mul_assign = \<lambda>e t. if 0 < hval t \<and> hval t < curve_order then Inr (e * hval t mod curve_order) else Inl SecpOther,
       pk_combine = \<lambda>e f. if (e + f) mod curve_order = 0 then Inl SecpInvalidPublicKey else Inr ((e + f) mod curve_order),
       shared_secret_x = \<lambda>e k. take 32 (drop 1 (exponent_key (e * hval k mod curve_order))) \<rparr>"

lemma replicate_numeral_byte: "replicate (numeral k) x = x # replicate (pred_numeral k) x"
  by (simp add: numeral_eq_Suc)

lemma exponent_parse_key: "e < curve_order \<Longrightarrow> exponent_parse (exponent_key e) = Inr e"
proof -
  assume e: "e < curve_order"
  have "drop 33 BASE_POINT_BYTES \<noteq> replicate 32 0"
    by (simp add: BASE_POINT_BYTES_def replicate_numeral_byte)
  moreover have "drop 33 (4 # be_bytes 32 e @ replicate 32 0) = replicate 32 0" by simp
  ultimately have "4 # be_bytes 32 e @ replicate 32 0 \<noteq> BASE_POINT_BYTES" by metis
  moreover have "e < 256 ^ 32" using e curve_order_bounds(2) by (rule less_trans)
  then have "hval (be_bytes 32 e) = e" by (rule hval_be_bytes)
  ultimately show ?thesis using e by (simp add: exponent_parse_def exponent_key_def)
qed

lemma length_exponent_key: "length (exponent_key e) = 65" "exponent_key e ! 0 = 4"
  by (simp_all add: exponent_key_def BASE_POINT_BYTES_def)

interpretation exponents: secp_group exponent_secp "\<lambda>i. i mod curve_order"
proof
  show "pk_from_slice exponent_secp (pk_serialize_uncompressed exponent_secp (i mod curve_order)) = Inr (i mod curve_order)" for i
    using curve_order_bounds(3) by (simp add: exponent_secp_def exponent_parse_key)
  show "pk_from_slice exponent_secp BASE_POINT_BYTES = Inr (1 mod curve_order)"
    using curve_order_bounds(1) by (simp add: exponent_secp_def exponent_parse_def)
qed (simp_all add: exponent_secp_def length_exponent_key mod_mult_left_eq mod_add_eq point_bytes_def)

subsection \<open>Properties\<close>

text \<open>
  C34. Secrets are the integers modulo the order \<open>n\<close> of the curve: for secrets below \<open>n\<close>, \<^verbatim>\<open>mul\<close>, \<^verbatim>\<open>neg\<close>
  and \<^verbatim>\<open>pow\<close> return the product, the negation and the power modulo \<open>n\<close> (the power of zero is zero);
  \<^verbatim>\<open>add\<close>, \<^verbatim>\<open>sub\<close> and \<^verbatim>\<open>dec\<close> return the sum and the differences, unless both operands are
  nonzero and the result is zero: then they return an error and leave the secret as it was.
\<close>

theorem secret_arithmetic:
  assumes "secp_scalars S" and "scalar a" and "scalar b"
  shows "secret_mul S a b = Some (Inr (), residue (hval a * hval b)) \<and>
    secret_neg S a = Some (Inr (), residue (curve_order - hval a)) \<and>
    secret_pow S a k = Some (Inr (), if hval a = 0 then a else residue (hval a ^ k)) \<and>
    secret_add S a b = Some (if hval a \<noteq> 0 \<and> hval b \<noteq> 0 \<and> (hval a + hval b) mod curve_order = 0
      then (Inl InvalidSignature, a) else (Inr (), residue (hval a + hval b))) \<and>
    secret_sub S a b = Some (if hval a \<noteq> 0 \<and> hval a = hval b
      then (Inl InvalidSignature, a) else (Inr (), residue (hval a + (curve_order - hval b)))) \<and>
    secret_dec S a = Some (if hval a = 1
      then (Inl InvalidSignature, a) else (Inr (), residue (hval a + (curve_order - 1))))"
  using secp_scalars.mul_spec [OF assms] secp_scalars.neg_spec [OF assms(1,2)] secp_scalars.pow_spec [OF assms(1,2)]
    secp_scalars.add_spec [OF assms] secp_scalars.sub_spec [OF assms] secp_scalars.dec_spec [OF assms(1,2)]
  by simp

lemma small_scalars:
  "scalar (be_bytes 32 6)" "scalar (be_bytes 32 7)" "hval (be_bytes 32 6) = 6" "hval (be_bytes 32 7) = 7"
  by (simp_all add: scalar_def hval_be_bytes curve_order_def)

theorem secret_arithmetic_witness:
  "secret_mul exponent_secp (be_bytes 32 6) (be_bytes 32 7) = Some (Inr (), be_bytes 32 42) \<and>
   secret_sub exponent_secp (be_bytes 32 6) (be_bytes 32 6) = Some (Inl InvalidSignature, be_bytes 32 6)"
proof -
  have "42 mod curve_order = 42" by (simp add: curve_order_def)
  then show ?thesis
    using secret_arithmetic [OF exponents.secp_scalars_axioms small_scalars(1,2)]
      secret_arithmetic [OF exponents.secp_scalars_axioms small_scalars(1,1)]
    by (simp add: small_scalars)
qed

text \<open>
  C35. Public keys are the multiples of the base point: \<^verbatim>\<open>generation_point\<close> is the base point; \<^verbatim>\<open>public_add\<close>,
  \<^verbatim>\<open>public_sub\<close>, \<^verbatim>\<open>public_negate\<close> and \<^verbatim>\<open>public_mul_secret\<close> add, subtract, negate and multiply the
  multiples modulo the order, the sum of a key and its negation is an error that leaves the key unchanged; negating twice
  gives the key back, and so does subtracting what was added.
\<close>

theorem public_arithmetic:
  assumes "secp_group S gen" and "i mod curve_order \<noteq> 0" and "j mod curve_order \<noteq> 0" and "scalar s" and "0 < hval s"
    and P: "P = (\<lambda>i. point_bytes S (gen i))"
  shows "generation_point S = Some (P 1) \<and>
    public_add S (P i) (P j) = Some (if (i + j) mod curve_order = 0 then (Inl InvalidPublicKey, P i) else (Inr (), P (i + j))) \<and>
    public_negate S (P i) = Some (Inr (), P (i * (curve_order - 1))) \<and>
    public_negate S (P (i * (curve_order - 1))) = Some (Inr (), P i) \<and>
    public_mul_secret S (P i) s = Some (Inr (), P (i * hval s)) \<and>
    ((i + j) mod curve_order \<noteq> 0 \<longrightarrow> public_sub S (P (i + j)) (P j) = Some (Inr (), P i))"
  using secp_group.generation_point_spec [OF assms(1)] secp_group.public_add_spec [OF assms(1-3)]
    secp_group.public_negate_spec [OF assms(1,2)] secp_group.public_inverses [OF assms(1-3)]
    secp_group.public_mul_spec [OF assms(1,2,4,5)]
  unfolding P by (intro conjI impI) (simp_all only: if_distrib [of Some] simp_thms)

theorem public_arithmetic_witness:
  "generation_point exponent_secp = Some (point_bytes exponent_secp (1 mod curve_order)) \<and>
   public_add exponent_secp (point_bytes exponent_secp (2 mod curve_order)) (point_bytes exponent_secp (3 mod curve_order)) =
     Some (Inr (), point_bytes exponent_secp (5 mod curve_order))"
proof -
  have m: "2 mod curve_order \<noteq> 0" "3 mod curve_order \<noteq> 0" "(2 + 3) mod curve_order \<noteq> 0" by (simp_all add: curve_order_def)
  have "0 < hval (be_bytes 32 6)" by (simp add: small_scalars)
  from public_arithmetic [OF exponents.secp_group_axioms m(1,2) small_scalars(1) this refl] m(3)
  show ?thesis by simp
qed

text \<open>
  Key agreement is symmetric: for two key pairs made from secrets, the secret of the first with the
  public key of the second gives the same result as the secret of the second with the public key
  of the first.
\<close>

theorem key_agreement_symmetric:
  assumes "secp_group S gen" and "scalar a" and "0 < hval a" and "scalar b" and "0 < hval b"
  shows "\<exists>ka kb. key_pair_from_secret S a = Some (Inr ka) \<and> key_pair_from_secret S b = Some (Inr kb) \<and>
    agree S (kp_secret ka) (kp_public kb) = agree S (kp_secret kb) (kp_public ka)"
  using secp_group.key_pair_spec [OF assms(1-3)] secp_group.key_pair_spec [OF assms(1,4,5)]
    secp_group.agree_symmetric [OF assms]
  by auto

theorem key_agreement_symmetric_witness:
  "\<exists>ka kb. key_pair_from_secret exponent_secp (be_bytes 32 6) = Some (Inr ka) \<and>
     key_pair_from_secret exponent_secp (be_bytes 32 7) = Some (Inr kb) \<and>
     agree exponent_secp (kp_secret ka) (kp_public kb) = agree exponent_secp (kp_secret kb) (kp_public ka)"
  by (rule key_agreement_symmetric [OF exponents.secp_group_axioms small_scalars(1) _ small_scalars(2)])
     (simp_all add: small_scalars)

text \<open>
  The zero secret is documented as valid for arithmetic, yet no operation on nonzero secrets returns
  it: the difference of equal secrets, and one less than the secret one, are errors.
\<close>

theorem zero_difference_is_error:
  assumes "secp_scalars S" and "scalar a" and "hval a \<noteq> 0"
  shows "secret_sub S a a = Some (Inl InvalidSignature, a) \<and> (hval a = 1 \<longrightarrow> secret_dec S a = Some (Inl InvalidSignature, a))"
  using secp_scalars.sub_spec [OF assms(1,2,2)] secp_scalars.dec_spec [OF assms(1,2)] assms(3) by simp

end
