(* ===== verification/Crypto_Prims.thy ===== *)
theory Crypto_Prims
  imports Secp_Keys
begin

text \<open>
  The symmetric side of \<^verbatim>\<open>parity-crypto\<close>: digests (\<^verbatim>\<open>digest.rs\<close>), message authentication (\<^verbatim>\<open>hmac/mod.rs\<close>),
  AES (\<^verbatim>\<open>aes.rs\<close>), key derivation (\<^verbatim>\<open>lib.rs\<close>, \<^verbatim>\<open>pbkdf2/mod.rs\<close>, \<^verbatim>\<open>scrypt.rs\<close>). The algorithms of the crates \<^verbatim>\<open>sha2\<close>,
  \<^verbatim>\<open>ripemd160\<close>, \<^verbatim>\<open>hmac\<close>, \<^verbatim>\<open>aes\<close>, \<^verbatim>\<open>pbkdf2\<close>, \<^verbatim>\<open>scrypt\<close> and \<^verbatim>\<open>subtle\<close> are parameters.
\<close>

subsection \<open>Digests\<close>

text \<open>A hash function of a crate: \<^verbatim>\<open>default\<close>, \<^verbatim>\<open>update\<close> and \<^verbatim>\<open>finalize\<close>.\<close>

record 'c hash_alg =
  alg_default :: 'c
  alg_update :: "'c \<Rightarrow> bytes \<Rightarrow> 'c"
  alg_finalize :: "'c \<Rightarrow> bytes"

datatype inner_digest = DigestSha256 bytes | DigestSha512 bytes | DigestRipemd160 bytes

fun digest_deref :: "inner_digest \<Rightarrow> bytes" where
  "digest_deref (DigestSha256 d) = d"
| "digest_deref (DigestSha512 d) = d"
| "digest_deref (DigestRipemd160 d) = d"

datatype ('a, 'b, 'c) hasher = HasherSha256 'a | HasherSha512 'b | HasherRipemd160 'c

text \<open>The three algorithms together.\<close>

type_synonym ('a, 'b, 'c) hash_algs = "'a hash_alg \<times> 'b hash_alg \<times> 'c hash_alg"

definition hasher_sha256 :: "('a, 'b, 'c) hash_algs \<Rightarrow> ('a, 'b, 'c) hasher" where
  "hasher_sha256 A = HasherSha256 (alg_default (fst A))"

definition hasher_sha512 :: "('a, 'b, 'c) hash_algs \<Rightarrow> ('a, 'b, 'c) hasher" where
  "hasher_sha512 A = HasherSha512 (alg_default (fst (snd A)))"

definition hasher_ripemd160 :: "('a, 'b, 'c) hash_algs \<Rightarrow> ('a, 'b, 'c) hasher" where
  "hasher_ripemd160 A = HasherRipemd160 (alg_default (snd (snd A)))"

fun hasher_update :: "('a, 'b, 'c) hash_algs \<Rightarrow> ('a, 'b, 'c) hasher \<Rightarrow> bytes \<Rightarrow> ('a, 'b, 'c) hasher" where
  "hasher_update A (HasherSha256 ctx) data = HasherSha256 (alg_update (fst A) ctx data)"
| "hasher_update A (HasherSha512 ctx) data = HasherSha512 (alg_update (fst (snd A)) ctx data)"
| "hasher_update A (HasherRipemd160 ctx) data = HasherRipemd160 (alg_update (snd (snd A)) ctx data)"

fun hasher_finish :: "('a, 'b, 'c) hash_algs \<Rightarrow> ('a, 'b, 'c) hasher \<Rightarrow> inner_digest" where
  "hasher_finish A (HasherSha256 ctx) = DigestSha256 (alg_finalize (fst A) ctx)"
| "hasher_finish A (HasherSha512 ctx) = DigestSha512 (alg_finalize (fst (snd A)) ctx)"
| "hasher_finish A (HasherRipemd160 ctx) = DigestRipemd160 (alg_finalize (snd (snd A)) ctx)"

definition digest_sha256 :: "('a, 'b, 'c) hash_algs \<Rightarrow> bytes \<Rightarrow> inner_digest" where
  "digest_sha256 A data = hasher_finish A (hasher_update A (hasher_sha256 A) data)"

definition digest_sha512 :: "('a, 'b, 'c) hash_algs \<Rightarrow> bytes \<Rightarrow> inner_digest" where
  "digest_sha512 A data = hasher_finish A (hasher_update A (hasher_sha512 A) data)"

definition digest_ripemd160 :: "('a, 'b, 'c) hash_algs \<Rightarrow> bytes \<Rightarrow> inner_digest" where
  "digest_ripemd160 A data = hasher_finish A (hasher_update A (hasher_ripemd160 A) data)"

subsection \<open>Message authentication\<close>

text \<open>An \<^verbatim>\<open>Hmac\<close> of the crate: \<^verbatim>\<open>new_varkey\<close>, which may fail, \<^verbatim>\<open>update\<close>, \<^verbatim>\<open>finalize\<close> and \<^verbatim>\<open>verify\<close>.\<close>

record 'm mac_alg =
  mac_new_varkey :: "bytes \<Rightarrow> 'm option"
  mac_update :: "'m \<Rightarrow> bytes \<Rightarrow> 'm"
  mac_finalize :: "'m \<Rightarrow> bytes"
  mac_verify :: "'m \<Rightarrow> bytes \<Rightarrow> bool"

type_synonym ('a, 'b) mac_algs = "'a mac_alg \<times> 'b mac_alg"

datatype key_inner = KeySha256 bytes | KeySha512 bytes
datatype ('a, 'b) signer_inner = SignerSha256 'a | SignerSha512 'b
datatype hash_inner = HashSha256 bytes | HashSha512 bytes

fun hmac_deref :: "hash_inner \<Rightarrow> bytes" where
  "hmac_deref (HashSha256 a) = a"
| "hmac_deref (HashSha512 a) = a"

definition sig_key_sha256 :: "bytes \<Rightarrow> key_inner" where
  "sig_key_sha256 key = KeySha256 key"

definition sig_key_sha512 :: "bytes \<Rightarrow> key_inner" where
  "sig_key_sha512 key = KeySha512 key"

fun signer_with :: "('a, 'b) mac_algs \<Rightarrow> key_inner \<Rightarrow> ('a, 'b) signer_inner may_panic" where
  "signer_with M (KeySha256 key_bytes) = map_option SignerSha256 (mac_new_varkey (fst M) key_bytes)"
| "signer_with M (KeySha512 key_bytes) = map_option SignerSha512 (mac_new_varkey (snd M) key_bytes)"

fun signer_update :: "('a, 'b) mac_algs \<Rightarrow> ('a, 'b) signer_inner \<Rightarrow> bytes \<Rightarrow> ('a, 'b) signer_inner" where
  "signer_update M (SignerSha256 hmac) data = SignerSha256 (mac_update (fst M) hmac data)"
| "signer_update M (SignerSha512 hmac) data = SignerSha512 (mac_update (snd M) hmac data)"

fun signer_sign :: "('a, 'b) mac_algs \<Rightarrow> ('a, 'b) signer_inner \<Rightarrow> hash_inner" where
  "signer_sign M (SignerSha256 hmac) = HashSha256 (mac_finalize (fst M) hmac)"
| "signer_sign M (SignerSha512 hmac) = HashSha512 (mac_finalize (snd M) hmac)"

definition hmac_sign :: "('a, 'b) mac_algs \<Rightarrow> key_inner \<Rightarrow> bytes \<Rightarrow> hash_inner may_panic" where
  "hmac_sign M k data =
     do { signer \<leftarrow> signer_with M k; Some (signer_sign M (signer_update M signer data)) }"

definition verify_key_sha256 :: "bytes \<Rightarrow> key_inner" where
  "verify_key_sha256 key = KeySha256 key"

definition verify_key_sha512 :: "bytes \<Rightarrow> key_inner" where
  "verify_key_sha512 key = KeySha512 key"

fun hmac_verify :: "('a, 'b) mac_algs \<Rightarrow> key_inner \<Rightarrow> bytes \<Rightarrow> bytes \<Rightarrow> bool may_panic" where
  "hmac_verify M (KeySha256 key_bytes) data sig =
     do { ctx \<leftarrow> mac_new_varkey (fst M) key_bytes; Some (mac_verify (fst M) (mac_update (fst M) ctx data) sig) }"
| "hmac_verify M (KeySha512 key_bytes) data sig =
     do { ctx \<leftarrow> mac_new_varkey (snd M) key_bytes; Some (mac_verify (snd M) (mac_update (snd M) ctx data) sig) }"

subsection \<open>AES\<close>

text \<open>
  The ciphers of the crates. \<open>apply128\<close> is \<^verbatim>\<open>Aes128Ctr::new\<close> followed by \<^verbatim>\<open>try_apply_keystream\<close> on a key
  and an initial value of sixteen bytes; the stream cipher of 256 bits keeps its position; the
  block modes return the buffer, and the length without padding.
\<close>

record 'c aes_crates =
  apply128 :: "bytes \<Rightarrow> bytes \<Rightarrow> bytes \<Rightarrow> symm_error + bytes"
  ctr256_new :: "bytes \<Rightarrow> bytes \<Rightarrow> 'c"
  ctr256_apply :: "'c \<Rightarrow> bytes \<Rightarrow> (symm_error + bytes) \<times> 'c"
  ecb256_new :: "bytes \<Rightarrow> symm_error + bytes"
  ecb256_encrypt :: "bytes \<Rightarrow> bytes \<Rightarrow> symm_error + bytes"
  ecb256_decrypt :: "bytes \<Rightarrow> bytes \<Rightarrow> symm_error + bytes"
  cbc128_new :: "bytes \<Rightarrow> bytes \<Rightarrow> symm_error + (bytes \<times> bytes)"
  cbc128_decrypt :: "bytes \<times> bytes \<Rightarrow> bytes \<Rightarrow> symm_error + (bytes \<times> nat)"

text \<open>\<^verbatim>\<open>GenericArray::from_slice\<close> panics on a slice of another length.\<close>

definition generic_array :: "nat \<Rightarrow> bytes \<Rightarrow> bytes may_panic" where
  "generic_array n bs = do { rust_assert (length bs = n); Some bs }"

definition aes_ecb256_new :: "'c aes_crates \<Rightarrow> bytes \<Rightarrow> symm_error + bytes" where
  "aes_ecb256_new X key = ecb256_new X key"

definition aes_ecb256_encrypt :: "'c aes_crates \<Rightarrow> bytes \<Rightarrow> bytes \<Rightarrow> symm_error + bytes" where
  "aes_ecb256_encrypt X self content = ecb256_encrypt X self content"

definition aes_ecb256_decrypt :: "'c aes_crates \<Rightarrow> bytes \<Rightarrow> bytes \<Rightarrow> symm_error + bytes" where
  "aes_ecb256_decrypt X self content = ecb256_decrypt X self content"

definition aes_ctr256_new :: "'c aes_crates \<Rightarrow> bytes \<Rightarrow> bytes \<Rightarrow> 'c may_panic" where
  "aes_ctr256_new X key iv =
     do { key \<leftarrow> generic_array 32 key; iv \<leftarrow> generic_array 16 iv; Some (ctr256_new X key iv) }"

definition aes_ctr256_encrypt :: "'c aes_crates \<Rightarrow> 'c \<Rightarrow> bytes \<Rightarrow> (symm_error + bytes) \<times> 'c" where
  "aes_ctr256_encrypt X self content = ctr256_apply X self content"

definition aes_ctr256_decrypt :: "'c aes_crates \<Rightarrow> 'c \<Rightarrow> bytes \<Rightarrow> (symm_error + bytes) \<times> 'c" where
  "aes_ctr256_decrypt X self content = ctr256_apply X self content"

definition inplace_encrypt_128_ctr :: "'c aes_crates \<Rightarrow> bytes \<Rightarrow> bytes \<Rightarrow> bytes \<Rightarrow> (symm_error + bytes) may_panic" where
  "inplace_encrypt_128_ctr X k iv data =
     do { k \<leftarrow> generic_array 16 k; iv \<leftarrow> generic_array 16 iv; Some (apply128 X k iv data) }"

definition inplace_decrypt_128_ctr :: "'c aes_crates \<Rightarrow> bytes \<Rightarrow> bytes \<Rightarrow> bytes \<Rightarrow> (symm_error + bytes) may_panic" where
  "inplace_decrypt_128_ctr X k iv data =
     do { k \<leftarrow> generic_array 16 k; iv \<leftarrow> generic_array 16 iv; Some (apply128 X k iv data) }"

text \<open>\<^verbatim>\<open>dest[a..b].copy_from_slice(src)\<close>.\<close>

definition write_range :: "bytes \<Rightarrow> nat \<Rightarrow> nat \<Rightarrow> bytes \<Rightarrow> bytes may_panic" where
  "write_range dest a b src =
     do { part \<leftarrow> slice_range dest a b; part \<leftarrow> copy_from_slice part src; Some (take a dest @ part @ drop b dest) }"

lemma write_range_ok:
  "a \<le> b \<Longrightarrow> b \<le> length dest \<Longrightarrow> length src = b - a \<Longrightarrow> write_range dest a b src = Some (take a dest @ src @ drop b dest)"
  by (simp add: write_range_def slice_range_def copy_from_slice_def)

definition encrypt_128_ctr :: "'c aes_crates \<Rightarrow> bytes \<Rightarrow> bytes \<Rightarrow> bytes \<Rightarrow> bytes \<Rightarrow> (symm_error + bytes) may_panic" where
  "encrypt_128_ctr X k iv plain dest =
     do {
       k \<leftarrow> generic_array 16 k;
       iv \<leftarrow> generic_array 16 iv;
       dest \<leftarrow> write_range dest 0 (length plain) plain;
       Some (apply128 X k iv dest) }"

definition decrypt_128_ctr :: "'c aes_crates \<Rightarrow> bytes \<Rightarrow> bytes \<Rightarrow> bytes \<Rightarrow> bytes \<Rightarrow> (symm_error + bytes) may_panic" where
  "decrypt_128_ctr X k iv encrypted dest =
     do {
       k \<leftarrow> generic_array 16 k;
       iv \<leftarrow> generic_array 16 iv;
       dest \<leftarrow> write_range dest 0 (length encrypted) encrypted;
       Some (apply128 X k iv dest) }"

definition decrypt_128_cbc ::
  "'c aes_crates \<Rightarrow> bytes \<Rightarrow> bytes \<Rightarrow> bytes \<Rightarrow> bytes \<Rightarrow> (symm_error + nat \<times> bytes) may_panic" where
  "decrypt_128_cbc X k iv encrypted dest =
     try_bind (Some (cbc128_new X k iv)) (\<lambda>encryptor.
       do {
         dest \<leftarrow> write_range dest 0 (length encrypted) encrypted;
         part \<leftarrow> slice_range dest 0 (length encrypted);
         Some (case cbc128_decrypt X encryptor part of
             Inl e \<Rightarrow> Inl e
           | Inr (buf, unpad_length) \<Rightarrow> Inr (unpad_length, buf @ drop (length encrypted) dest)) })"

subsection \<open>Key derivation\<close>

definition KEY_LENGTH :: nat where
  "KEY_LENGTH = 32"

definition KEY_LENGTH_AES :: nat where
  "KEY_LENGTH_AES = KEY_LENGTH div 2"

text \<open>\<open>pbkdf2\<close> is the function of the crate with the given \<^verbatim>\<open>Hmac\<close>, for an output of the given length.\<close>

definition pbkdf2_sha256 :: "(bytes \<Rightarrow> bytes \<Rightarrow> u32 \<Rightarrow> nat \<Rightarrow> bytes) \<Rightarrow> u32 \<Rightarrow> bytes \<Rightarrow> bytes \<Rightarrow> bytes" where
  "pbkdf2_sha256 pbkdf2 iter salt sec = pbkdf2 sec salt iter 32"

definition pbkdf2_sha512 :: "(bytes \<Rightarrow> bytes \<Rightarrow> u32 \<Rightarrow> nat \<Rightarrow> bytes) \<Rightarrow> u32 \<Rightarrow> bytes \<Rightarrow> bytes \<Rightarrow> bytes" where
  "pbkdf2_sha512 pbkdf2 iter salt sec = pbkdf2 sec salt iter 64"

definition split_key :: "bytes \<Rightarrow> (bytes \<times> bytes) may_panic" where
  "split_key derived_key =
     do {
       derived_right_bits \<leftarrow> slice_range derived_key 0 KEY_LENGTH_AES;
       derived_left_bits \<leftarrow> slice_range derived_key KEY_LENGTH_AES KEY_LENGTH;
       Some (derived_right_bits, derived_left_bits) }"

definition derive_key_iterations ::
  "(bytes \<Rightarrow> bytes \<Rightarrow> u32 \<Rightarrow> nat \<Rightarrow> bytes) \<Rightarrow> bytes \<Rightarrow> bytes \<Rightarrow> u32 \<Rightarrow> (bytes \<times> bytes) may_panic" where
  "derive_key_iterations pbkdf2 password salt c = split_key (pbkdf2_sha256 pbkdf2 c salt password)"

definition derive_mac :: "bytes \<Rightarrow> bytes \<Rightarrow> bytes may_panic" where
  "derive_mac derived_left_bits cipher_text =
     do {
       let mac = replicate (KEY_LENGTH_AES + length cipher_text) 0;
       mac \<leftarrow> write_range mac 0 KEY_LENGTH_AES derived_left_bits;
       write_range mac KEY_LENGTH_AES (length cipher_text + KEY_LENGTH_AES) cipher_text }"

text \<open>\<open>ct_eq\<close> is the comparison of the crate \<^verbatim>\<open>subtle\<close>.\<close>

definition is_equal :: "(bytes \<Rightarrow> bytes \<Rightarrow> bool) \<Rightarrow> bytes \<Rightarrow> bytes \<Rightarrow> bool" where
  "is_equal ct_eq a b = ct_eq a b"

datatype scrypt_error = InvalidN | InvalidP | ScryptParam | ScryptLength

text \<open>
  \<open>scrypt_params\<close> is \<^verbatim>\<open>ScryptParams::new\<close> and \<open>scrypt\<close> the function of the crate, for an output of
  \<^verbatim>\<open>KEY_LENGTH\<close> bytes.
\<close>

definition scrypt_derive_key ::
  "(u8 \<Rightarrow> u32 \<Rightarrow> u32 \<Rightarrow> scrypt_error + 'q) \<Rightarrow> (bytes \<Rightarrow> bytes \<Rightarrow> 'q \<Rightarrow> scrypt_error + bytes) \<Rightarrow>
   bytes \<Rightarrow> bytes \<Rightarrow> u32 \<Rightarrow> u32 \<Rightarrow> u32 \<Rightarrow> (scrypt_error + bytes \<times> bytes) may_panic" where
  "scrypt_derive_key scrypt_params scrypt pass salt n p r =
     do {
       k \<leftarrow> psub (32 :: u32) (of_nat (word_leading_zeros n));
       k \<leftarrow> psub k 1;
       let log_n = (ucast k :: u8);
       r16 \<leftarrow> pmul r 16;
       if (ucast log_n :: u32) \<ge> r16 then Some (Inl InvalidN)
       else do {
         num \<leftarrow> pmul (ucast (- 1 :: u32) - 1 :: u64) 32;
         den \<leftarrow> pmul 128 (ucast r :: u64);
         bound \<leftarrow> pdiv num den;
         if (ucast p :: u64) > bound then Some (Inl InvalidP)
         else try_bind (Some (scrypt_params log_n r p)) (\<lambda>params.
           try_bind (Some (scrypt pass salt params)) (\<lambda>derived_key. map_option Inr (split_key derived_key))) } }"

subsection \<open>Facts\<close>

lemma derive_mac_spec:
  "derive_mac left cipher = (if length left = 16 then Some (left @ cipher) else panic)"
  by (simp add: derive_mac_def write_range_def slice_range_def copy_from_slice_def KEY_LENGTH_AES_def KEY_LENGTH_def)

lemma split_key_spec: "length key = 32 \<Longrightarrow> split_key key = Some (take 16 key, drop 16 key)"
  by (simp add: split_key_def slice_range_def KEY_LENGTH_AES_def KEY_LENGTH_def)

text \<open>
  The parameter \<open>n = 0\<close> of \<^verbatim>\<open>scrypt\<close> is not reported as \<^verbatim>\<open>InvalidN\<close>: the subtraction of the leading zeros
  underflows.
\<close>

theorem scrypt_zero_n_panics: "scrypt_derive_key scrypt_params scrypt pass salt 0 p r = panic"
  by (simp add: scrypt_derive_key_def word_leading_zeros_def psub_def)

lemma psub_val: "unat b \<le> unat a \<Longrightarrow> \<exists>c. psub a b = Some c \<and> unat c = unat a - unat b"
  using unat_lt_radix [of a] by (auto simp: psub_ok unat_of_nat_lt less_imp_diff_less simp del: of_nat_diff)

lemma pmul_val: "unat a * unat b < radix TYPE('a) \<Longrightarrow> \<exists>c. pmul a b = Some c \<and> unat c = unat a * unat (b :: 'a::len word)"
  by (auto simp: pmul_ok unat_of_nat_lt simp del: of_nat_mult)

lemma pdiv_val: "0 < unat b \<Longrightarrow> \<exists>c. pdiv a b = Some c \<and> unat c = unat a div unat b"
  using unat_lt_radix [of a] by (auto simp: pdiv_ok unat_of_nat_lt le_less_trans [OF div_le_dividend])

lemma word_leading_zeros_pos: "0 < unat (n :: u32) \<Longrightarrow> word_leading_zeros n \<le> 31"
  using word_leading_zeros_bits [of n] nat_bits_eq_0 [of "unat n"] by (cases "nat_bits (unat n)") auto

theorem scrypt_checks:
  assumes "0 < unat n" and "unat r < 2 ^ 28"
  shows "(16 * unat r \<le> nat_bits (unat n) - 1 \<longrightarrow>
      scrypt_derive_key scrypt_params scrypt pass salt n p r = Some (Inl InvalidN)) \<and>
    (nat_bits (unat n) - 1 < 16 * unat r \<and> (2 ^ 32 - 2) * 32 div (128 * unat r) < unat p \<longrightarrow>
      scrypt_derive_key scrypt_params scrypt pass salt n p r = Some (Inl InvalidP))"
proof -
  define l where "l = nat_bits (unat n) - 1"
  have z: "word_leading_zeros n \<le> 31" "word_leading_zeros n + nat_bits (unat n) = 32"
    using word_leading_zeros_pos [OF assms(1)] word_leading_zeros_bits [of n] by simp_all
  then have l: "l = 31 - word_leading_zeros n" "l \<le> 31" by (simp_all add: l_def)
  obtain k1 :: u32 where k1: "psub 32 (of_nat (word_leading_zeros n)) = Some k1" "unat k1 = 32 - word_leading_zeros n"
    using psub_val [of "of_nat (word_leading_zeros n)" "32 :: u32"] z(1) by (auto simp: unat_of_nat_lt radix_def)
  obtain k2 where k2: "psub k1 1 = Some k2" "unat k2 = l"
    using psub_val [of 1 k1] k1(2) l z(1) by (auto simp: Suc_le_eq)
  have u: "unat (ucast (ucast k2 :: u8) :: u32) = l"
    using k2(2) l(2) by (simp add: unat_ucast_radix radix_def)
  obtain r16 where r16: "pmul r 16 = Some r16" "unat r16 = 16 * unat r"
    using pmul_val [of r 16] assms(2) by (auto simp: radix_def)
  have c: "(ucast (- 1 :: u32) - 1 :: u64) = 4294967294"
    by (simp add: word_unat_eq_iff unat_sub_radix unat_ucast_up unat_minus_one_radix radix_def)
  obtain num :: u64 where num: "pmul 4294967294 32 = Some num" "unat num = (2 ^ 32 - 2) * 32"
    using pmul_val [of "4294967294 :: u64" 32] by (auto simp: radix_def)
  have ur: "unat (ucast r :: u64) = unat r" "unat (ucast p :: u64) = unat p" by (simp_all add: unat_ucast_up)
  obtain den :: u64 where den: "pmul 128 (ucast r) = Some den" "unat den = 128 * unat r"
    using pmul_val [of 128 "ucast r :: u64"] assms(2) ur by (auto simp: radix_def)
  have "\<exists>b. pdiv num den = Some b \<and> unat b = (2 ^ 32 - 2) * 32 div (128 * unat r)" if "0 < unat r"
    using pdiv_val [of den num] num den that by simp
  moreover have "nat_bits (unat n) - Suc 0 = l" by (simp add: l_def)
  ultimately show ?thesis
    using k1 k2 u r16 num den ur
    by (auto simp: scrypt_derive_key_def Let_def c word_le_nat_alt word_less_nat_alt)
qed

end
