(* ===== verification/Ecies.thy ===== *)
theory Ecies
  imports Crypto_Prims
begin

text \<open>
  The integrated encryption scheme of \<^verbatim>\<open>publickey/ecies.rs\<close>: a fresh key pair agrees on a secret with the
  public key, a key derivation splits it into the keys of the cipher and of the authentication. The
  fresh key pair and the initial value that the source takes from the random generator are
  arguments.
\<close>

subsection \<open>The scheme\<close>

definition ENC_VERSION :: u8 where
  "ENC_VERSION = 4"

text \<open>
  The loop of \<^verbatim>\<open>kdf\<close>; \<open>dest\<close> is the part of the buffer from \<^verbatim>\<open>written\<close> on.
\<close>

function kdf_loop :: "('a, 'b, 'c) hash_algs \<Rightarrow> secret \<Rightarrow> bytes \<Rightarrow> u32 \<Rightarrow> bytes \<Rightarrow> bytes may_panic" where
  "kdf_loop A secret s1 ctr dest =
     (if dest = [] then Some []
      else do {
        let hasher = hasher_sha256 A;
        let ctrs = [ucast (drop_bit 24 ctr), ucast (drop_bit 16 ctr), ucast (drop_bit 8 ctr), ucast ctr];
        let hasher = hasher_update A hasher ctrs;
        let hasher = hasher_update A hasher (hash_as_bytes secret);
        let hasher = hasher_update A hasher s1;
        let d = digest_deref (hasher_finish A hasher);
        chunk \<leftarrow> slice_range dest 0 32;
        chunk \<leftarrow> copy_from_slice chunk d;
        ctr \<leftarrow> padd ctr 1;
        rest \<leftarrow> kdf_loop A secret s1 ctr (drop 32 dest);
        Some (chunk @ rest) })"
  by pat_completeness auto

termination
  by (relation "measure (\<lambda>(A, secret, s1, ctr, dest). length dest)") auto

declare kdf_loop.simps [simp del]

definition kdf :: "('a, 'b, 'c) hash_algs \<Rightarrow> secret \<Rightarrow> bytes \<Rightarrow> bytes \<Rightarrow> bytes may_panic" where
  "kdf A secret s1 dest = kdf_loop A secret s1 1 dest"

text \<open>The keys of the cipher and of the authentication.\<close>

definition ecies_keys :: "('a, 'b, 'c) hash_algs \<Rightarrow> secret \<Rightarrow> (bytes \<times> key_inner) may_panic" where
  "ecies_keys A z =
     do {
       key \<leftarrow> kdf A z [] (replicate 32 0);
       ekey \<leftarrow> slice_range key 0 16;
       half \<leftarrow> slice_range key 16 32;
       Some (ekey, sig_key_sha256 (digest_deref (digest_sha256 A half))) }"

definition ecies_encrypt ::
  "'p secp256k1 \<Rightarrow> ('a, 'b, 'c) hash_algs \<Rightarrow> ('m, 'n) mac_algs \<Rightarrow> 'x aes_crates \<Rightarrow> key_pair \<Rightarrow> bytes \<Rightarrow>
   public \<Rightarrow> bytes \<Rightarrow> bytes \<Rightarrow> (crypto_error + bytes) may_panic" where
  "ecies_encrypt S A M X r iv public auth_data plain =
     try_bind (agree S (kp_secret r) public) (\<lambda>z.
       do {
         (ekey, mkey) \<leftarrow> ecies_keys A z;
         let result_msg = drop 1 (replicate (1 + 64 + 16 + length plain + 32) 0);
         result_msg \<leftarrow> write_range result_msg 0 64 (hash_as_bytes (kp_public r));
         result_msg \<leftarrow> write_range result_msg 64 80 (hash_as_bytes iv);
         cipher \<leftarrow> slice_range result_msg (64 + 16) (64 + 16 + length plain);
         enc \<leftarrow> encrypt_128_ctr X ekey (hash_as_bytes iv) plain cipher;
         try_bind (Some (map_sum Symm id enc)) (\<lambda>cipher.
           do {
             result_msg \<leftarrow> write_range result_msg (64 + 16) (64 + 16 + length plain) cipher;
             hmac \<leftarrow> signer_with M mkey;
             cipher_iv \<leftarrow> slice_range result_msg 64 (64 + 16 + length plain);
             let hmac = signer_update M hmac cipher_iv;
             let hmac = signer_update M hmac auth_data;
             let sig = hmac_deref (signer_sign M hmac);
             result_msg \<leftarrow> write_range result_msg (64 + 16 + length plain) (length result_msg) sig;
             Some (Inr (ENC_VERSION # result_msg)) }) })"

definition META_LEN :: nat where
  "META_LEN = 1 + 64 + 16 + 32"

definition ecies_decrypt ::
  "'p secp256k1 \<Rightarrow> ('a, 'b, 'c) hash_algs \<Rightarrow> ('m, 'n) mac_algs \<Rightarrow> 'x aes_crates \<Rightarrow> (bytes \<Rightarrow> bytes \<Rightarrow> bool) \<Rightarrow>
   secret \<Rightarrow> bytes \<Rightarrow> bytes \<Rightarrow> (crypto_error + bytes) may_panic" where
  "ecies_decrypt S A M X ct_eq secret auth_data encrypted =
     do {
       enc_version \<leftarrow> index_at encrypted 0;
       if length encrypted < META_LEN \<or> enc_version < 2 \<or> enc_version > 4 then Some (Inl InvalidMessage)
       else do {
         e \<leftarrow> slice_range encrypted 1 (length encrypted);
         front \<leftarrow> slice_range e 0 64;
         p \<leftarrow> hash_from_slice 64 front;
         try_bind (agree S secret p) (\<lambda>z.
           do {
             (ekey, mkey) \<leftarrow> ecies_keys A z;
             cipher_text_len \<leftarrow> usize_sub (length encrypted) META_LEN;
             cipher_with_iv \<leftarrow> slice_range e 64 (64 + 16 + cipher_text_len);
             cipher_iv \<leftarrow> slice_range cipher_with_iv 0 16;
             cipher_no_iv \<leftarrow> slice_range cipher_with_iv 16 (length cipher_with_iv);
             msg_mac \<leftarrow> slice_range e (64 + 16 + cipher_text_len) (length e);
             hmac \<leftarrow> signer_with M mkey;
             let hmac = signer_update M hmac cipher_with_iv;
             let hmac = signer_update M hmac auth_data;
             let mac = hmac_deref (signer_sign M hmac);
             if \<not> is_equal ct_eq mac msg_mac then Some (Inl InvalidMessage)
             else do {
               msg \<leftarrow> decrypt_128_ctr X ekey cipher_iv cipher_no_iv (replicate cipher_text_len 0);
               Some (map_sum Symm id msg) } }) } }"

subsection \<open>What the crates promise\<close>

text \<open>
  Digests and tags have 32 bytes, every key starts an authentication, the key stream of a cipher
  never ends, keeps the length and cancels itself, and the comparison is equality.
\<close>

definition symmetric_crates ::
  "('a, 'b, 'c) hash_algs \<Rightarrow> ('m, 'n) mac_algs \<Rightarrow> 'x aes_crates \<Rightarrow> (bytes \<Rightarrow> bytes \<Rightarrow> bool) \<Rightarrow> bool" where
  "symmetric_crates A M X ct_eq \<longleftrightarrow>
     (\<forall>c. length (alg_finalize (fst A) c) = 32) \<and>
     (\<forall>k. mac_new_varkey (fst M) k \<noteq> None) \<and> (\<forall>m. length (mac_finalize (fst M) m) = 32) \<and>
     (\<forall>k iv d. length k = 16 \<and> length iv = 16 \<longrightarrow>
       (\<exists>d'. apply128 X k iv d = Inr d' \<and> length d' = length d \<and> apply128 X k iv d' = Inr d)) \<and>
     (\<forall>a b. ct_eq a b = (a = b))"

lemma kdf_length:
  assumes "symmetric_crates A M X ct_eq"
  shows "\<exists>d. kdf A z [] (replicate 32 0) = Some d \<and> length d = 32"
  using assms
  by (simp add: kdf_def kdf_loop.simps [of _ _ _ _ "replicate 32 0"] kdf_loop.simps [of _ _ _ _ "[]"] hasher_sha256_def
      slice_range_def copy_from_slice_def padd_def symmetric_crates_def Let_def)

lemma ecies_keys_some:
  assumes "symmetric_crates A M X ct_eq"
  shows "\<exists>ekey mk. ecies_keys A z = Some (ekey, KeySha256 mk) \<and> length ekey = 16"
  using kdf_length [OF assms, of z]
  by (auto simp: ecies_keys_def slice_range_def sig_key_sha256_def)

text \<open>The tag of a cipher text.\<close>

definition ecies_tag :: "('m, 'n) mac_algs \<Rightarrow> bytes \<Rightarrow> bytes \<Rightarrow> bytes \<Rightarrow> bytes" where
  "ecies_tag M mk cipher_iv auth_data =
     (case mac_new_varkey (fst M) mk of
        None \<Rightarrow> []
      | Some m \<Rightarrow> mac_finalize (fst M) (mac_update (fst M) (mac_update (fst M) m cipher_iv) auth_data))"

lemma encrypt_spec:
  assumes laws: "symmetric_crates A M X ct_eq" and z: "agree S (kp_secret r) public = Some (Inr z)"
    and "length (kp_public r) = 64" and "length iv = 16"
    and keys: "ecies_keys A z = Some (ekey, KeySha256 mk)" "length ekey = 16"
    and c: "apply128 X ekey iv plain = Inr c" "length c = length plain"
  shows "ecies_encrypt S A M X r iv public auth_data plain =
    Some (Inr ([4] @ kp_public r @ iv @ c @ ecies_tag M mk (iv @ c) auth_data))"
proof -
  obtain m where m: "mac_new_varkey (fst M) mk = Some m" using laws unfolding symmetric_crates_def by blast
  have t: "length (mac_finalize (fst M) x) = 32" for x using laws by (simp add: symmetric_crates_def)
  have enc: "encrypt_128_ctr X ekey iv plain (replicate (length plain) 0) = Some (Inr c)"
    using assms by (simp add: encrypt_128_ctr_def generic_array_def write_range_ok)
  show ?thesis
    using assms m t enc
    by (simp add: ecies_encrypt_def write_range_ok slice_range_ok hash_as_bytes_def Let_def ecies_tag_def
        ENC_VERSION_def)
qed

lemma decrypt_spec:
  assumes laws: "symmetric_crates A M X ct_eq" and z: "agree S secret p = Some (Inr z)"
    and len: "length p = 64" "length iv = 16" "length tag = 32"
    and keys: "ecies_keys A z = Some (ekey, KeySha256 mk)" "length ekey = 16"
    and c: "apply128 X ekey iv c = Inr plain"
  shows "ecies_decrypt S A M X ct_eq secret auth_data ([4] @ p @ iv @ c @ tag) =
    Some (if tag = ecies_tag M mk (iv @ c) auth_data then Inr plain else Inl InvalidMessage)"
proof -
  obtain m where m: "mac_new_varkey (fst M) mk = Some m" using laws unfolding symmetric_crates_def by blast
  have eq: "is_equal ct_eq a b = (a = b)" for a b using laws by (simp add: symmetric_crates_def is_equal_def)
  have fs: "hash_from_slice 64 p = Some p"
    using len by (simp add: hash_from_slice_def hash_assign_from_slice_def copy_from_slice_def hash_as_bytes_def
        hash_zero_def hash_repeat_byte_def)
  have dec: "decrypt_128_ctr X ekey iv c (replicate (length c) 0) = Some (Inr plain)"
    using len keys c by (simp add: decrypt_128_ctr_def generic_array_def write_range_ok)
  define ok where "ok = (tag = ecies_tag M mk (iv @ c) auth_data)"
  have ok: "is_equal ct_eq (mac_finalize (fst M) (mac_update (fst M) (mac_update (fst M) m (iv @ c)) auth_data)) tag = ok"
    by (auto simp: eq ok_def ecies_tag_def m)
  let ?e = "p @ iv @ c @ tag"
  have sl: "slice_range ([4] @ ?e) 1 (length ([4] @ ?e)) = Some ?e" "slice_range ?e 0 64 = Some p"
    "slice_range ?e 64 (64 + 16 + length c) = Some (iv @ c)" "slice_range (iv @ c) 0 16 = Some iv"
    "slice_range (iv @ c) 16 (length (iv @ c)) = Some c" "slice_range ?e (64 + 16 + length c) (length ?e) = Some tag"
    using len by (simp_all add: slice_range_def)
  have n: "usize_sub (length ([4] @ ?e)) META_LEN = Some (length c)" "META_LEN \<le> length ([4] @ ?e)" "index_at ([4] @ ?e) 0 = Some 4"
    using len by (simp_all add: META_LEN_def usize_sub_def index_at_def)
  show ?thesis
    unfolding ok_def [symmetric] using z keys m dec ok fs sl n by (simp add: ecies_decrypt_def Let_def)
qed

subsection \<open>Properties\<close>

text \<open>
  C32. Decryption inverts encryption: when the fresh key pair and the pair of the receiver agree on a
  secret, \<^verbatim>\<open>encrypt\<close> returns a message that is 113 bytes longer than the plain text, \<^verbatim>\<open>decrypt\<close> with the secret of the
  receiver and the same authenticated data returns the plain text, and the same message with any
  other tag is rejected as \<^verbatim>\<open>InvalidMessage\<close>.
\<close>

theorem ecies_roundtrip:
  assumes laws: "symmetric_crates A M X ct_eq" "secp_group S gen"
    and a: "scalar a" "0 < hval a" and b: "scalar b" "0 < hval b"
    and r: "key_pair_from_secret S a = Some (Inr r)" and k: "key_pair_from_secret S b = Some (Inr k)"
    and z: "agree S (kp_secret r) (kp_public k) = Some (Inr z)" and iv: "length iv = 16"
  shows "\<exists>msg. ecies_encrypt S A M X r iv (kp_public k) auth_data plain = Some (Inr msg) \<and>
    length msg = META_LEN + length plain \<and>
    ecies_decrypt S A M X ct_eq (kp_secret k) auth_data msg = Some (Inr plain) \<and>
    (\<forall>tag. length tag = 32 \<and> tag \<noteq> drop (length msg - 32) msg \<longrightarrow>
      ecies_decrypt S A M X ct_eq (kp_secret k) auth_data (take (length msg - 32) msg @ tag) = Some (Inl InvalidMessage))"
proof -
  have pub: "kp_public r = point_bytes S (gen (hval a))" "kp_secret r = a"
    "kp_public k = point_bytes S (gen (hval b))" "kp_secret k = b"
    using secp_group.key_pair_spec [OF laws(2) a] secp_group.key_pair_spec [OF laws(2) b] r k by auto
  have l: "length (kp_public r) = 64" using secp_group.length_point [OF laws(2)] pub by simp
  have z': "agree S b (kp_public r) = Some (Inr z)"
    using secp_group.agree_symmetric [OF laws(2) a b] z pub by simp
  obtain ekey mk where keys: "ecies_keys A z = Some (ekey, KeySha256 mk)" "length ekey = 16"
    using ecies_keys_some [OF laws(1)] by blast
  obtain c where c: "apply128 X ekey iv plain = Inr c" "length c = length plain" "apply128 X ekey iv c = Inr plain"
    using laws(1) keys(2) iv unfolding symmetric_crates_def by blast
  define tag where "tag = ecies_tag M mk (iv @ c) auth_data"
  define front where "front = [4] @ kp_public r @ iv @ c"
  have t: "length tag = 32"
    using laws(1) unfolding tag_def ecies_tag_def symmetric_crates_def by (auto split: option.splits)
  have "ecies_encrypt S A M X r iv (kp_public k) auth_data plain = Some (Inr (front @ tag))"
    using encrypt_spec [OF laws(1) z l iv keys c(1,2)] by (simp add: front_def tag_def)
  moreover have "ecies_decrypt S A M X ct_eq (kp_secret k) auth_data (front @ t) =
      Some (if t = tag then Inr plain else Inl InvalidMessage)" if "length t = 32" for t
    using decrypt_spec [OF laws(1) z' l iv that keys c(3)] pub by (simp add: front_def tag_def)
  moreover have "length front + 32 = META_LEN + length plain" using l iv c(2) by (simp add: front_def META_LEN_def)
  ultimately show ?thesis using t by (intro exI [of _ "front @ tag"]) simp
qed

text \<open>Crates that keep the promises.\<close>

definition sample_hash :: "bytes hash_alg" where
  "sample_hash = \<lparr> alg_default = [], alg_update = (@), alg_finalize = \<lambda>c. be_bytes 32 (hval c) \<rparr>"

definition sample_mac :: "bytes mac_alg" where
  "sample_mac =
     \<lparr> mac_new_varkey = Some, mac_update = (@), mac_finalize = \<lambda>c. be_bytes 32 (hval c),
       mac_verify = \<lambda>c sig. sig = be_bytes 32 (hval c) \<rparr>"

definition sample_aes :: "unit aes_crates" where
  "sample_aes =
     \<lparr> apply128 = \<lambda>k iv d. Inr (map (\<lambda>x. x XOR 0x5c) d), ctr256_new = \<lambda>k iv. (), ctr256_apply = \<lambda>c d. (Inr d, c),
       ecb256_new = Inr, ecb256_encrypt = \<lambda>k d. Inr d, ecb256_decrypt = \<lambda>k d. Inr d,
       cbc128_new = \<lambda>k iv. Inr (k, iv), cbc128_decrypt = \<lambda>c d. Inr (d, length d) \<rparr>"

lemma sample_crates:
  "symmetric_crates (sample_hash, sample_hash, sample_hash) (sample_mac, sample_mac) sample_aes (=)"
  by (simp add: symmetric_crates_def sample_hash_def sample_mac_def sample_aes_def comp_def xor.assoc)

theorem ecies_roundtrip_witness:
  "\<exists>r k msg. key_pair_from_secret exponent_secp (be_bytes 32 6) = Some (Inr r) \<and>
     key_pair_from_secret exponent_secp (be_bytes 32 7) = Some (Inr k) \<and>
     ecies_encrypt exponent_secp (sample_hash, sample_hash, sample_hash) (sample_mac, sample_mac) sample_aes r
       (replicate 16 9) (kp_public k) [1] [2, 3] = Some (Inr msg) \<and>
     ecies_decrypt exponent_secp (sample_hash, sample_hash, sample_hash) (sample_mac, sample_mac) sample_aes (=)
       (kp_secret k) [1] msg = Some (Inr [2, 3])"
proof -
  note a = small_scalars(1) and b = small_scalars(2)
  have pos: "0 < hval (be_bytes 32 6)" "0 < hval (be_bytes 32 7)" by (simp_all add: small_scalars)
  note ka = exponents.key_pair_spec [OF a pos(1)] and kb = exponents.key_pair_spec [OF b pos(2)]
  have m: "7 mod curve_order \<noteq> 0" "42 mod curve_order = 42" "42 < curve_order" by (simp_all add: curve_order_def)
  have "take 32 (point_bytes exponent_secp 42) = be_bytes 32 42"
    by (simp add: point_bytes_def exponent_secp_def exponent_key_def)
  then have "agree exponent_secp (be_bytes 32 6) (point_bytes exponent_secp (7 mod curve_order)) = Some (Inr (be_bytes 32 42))"
    using exponents.agree_spec [OF a pos(1) m(1)] m(2,3) by (simp add: small_scalars hval_be_bytes)
  then show ?thesis
    using ecies_roundtrip [OF sample_crates exponents.secp_group_axioms a pos(1) b pos(2) ka kb, of _ "replicate 16 9" "[1]" "[2, 3]"] ka kb
    by (auto simp: small_scalars)
qed

text \<open>
  \<^verbatim>\<open>decrypt\<close> reads the version byte before it checks the length: it panics on an empty message.
\<close>

theorem decrypt_empty_panics: "ecies_decrypt S A M X ct_eq secret auth_data [] = panic"
  by (simp add: ecies_decrypt_def index_at_def)

end
