(* ===== verification/Prim_Types.thy ===== *)
theory Prim_Types
  imports Fixed_Hash
begin

text \<open>
  The crate \<^verbatim>\<open>primitive-types\<close>: full multiplication and the conversions between the integers \<^verbatim>\<open>U128\<close>,
  \<^verbatim>\<open>U256\<close> and \<^verbatim>\<open>U512\<close> (word lists of length 2, 4 and 8), the conversion of a floating point number,
  and the trait implementations of \<^verbatim>\<open>impl-num-traits\<close> and \<^verbatim>\<open>impl-codec\<close>. An \<^verbatim>\<open>f64\<close> is the word of its
  bits; the codec of byte arrays of the \<^verbatim>\<open>parity-scale-codec\<close> crate is a parameter.
\<close>

subsection \<open>Integers of different widths\<close>

datatype prim_error = PrimOverflow

definition u128_full_mul :: "uint \<Rightarrow> uint \<Rightarrow> uint" where
  "u128_full_mul self other = uint_full_mul_reg self other"

definition u256_full_mul :: "uint \<Rightarrow> uint \<Rightarrow> uint" where
  "u256_full_mul self other = uint_full_mul_reg self other"

definition u512_from_u256 :: "uint \<Rightarrow> uint" where
  "u512_from_u256 arr = (replicate 8 0)[0 := arr ! 0, 1 := arr ! 1, 2 := arr ! 2, 3 := arr ! 3]"

definition u128_try_from_u256 :: "uint \<Rightarrow> prim_error + uint" where
  "u128_try_from_u256 arr =
     (if (arr ! 2 OR arr ! 3) \<noteq> 0 then Inl PrimOverflow
      else Inr ((replicate 2 0)[0 := arr ! 0, 1 := arr ! 1]))"

definition u256_try_from_u512 :: "uint \<Rightarrow> prim_error + uint" where
  "u256_try_from_u512 arr =
     (if (arr ! 4 OR arr ! 5 OR arr ! 6 OR arr ! 7) \<noteq> 0 then Inl PrimOverflow
      else Inr ((replicate 4 0)[0 := arr ! 0, 1 := arr ! 1, 2 := arr ! 2, 3 := arr ! 3]))"

definition u128_try_from_u512 :: "uint \<Rightarrow> prim_error + uint" where
  "u128_try_from_u512 arr =
     (if (arr ! 2 OR arr ! 3 OR arr ! 4 OR arr ! 5 OR arr ! 6 OR arr ! 7) \<noteq> 0 then Inl PrimOverflow
      else Inr ((replicate 2 0)[0 := arr ! 0, 1 := arr ! 1]))"

definition u512_from_u128 :: "uint \<Rightarrow> uint" where
  "u512_from_u128 arr = (replicate 8 0)[0 := arr ! 0, 1 := arr ! 1]"

definition u256_from_u128 :: "uint \<Rightarrow> uint" where
  "u256_from_u128 arr = (replicate 4 0)[0 := arr ! 0, 1 := arr ! 1]"

definition u512_from_ref_u256 :: "uint \<Rightarrow> uint" where
  "u512_from_ref_u256 arr = (replicate 8 0)[0 := arr ! 0, 1 := arr ! 1, 2 := arr ! 2, 3 := arr ! 3]"

definition u256_try_from_ref_u512 :: "uint \<Rightarrow> prim_error + uint" where
  "u256_try_from_ref_u512 arr =
     (if (arr ! 4 OR arr ! 5 OR arr ! 6 OR arr ! 7) \<noteq> 0 then Inl PrimOverflow
      else Inr ((replicate 4 0)[0 := arr ! 0, 1 := arr ! 1, 2 := arr ! 2, 3 := arr ! 3]))"

subsection \<open>Floating point numbers\<close>

text \<open>
  The comparison \<^verbatim>\<open>value >= 1.0\<close> of the IEEE 754 format with 64 bits: the sign is clear, the biased
  exponent is at least that of one, and the number is not a \<^verbatim>\<open>NaN\<close> (the largest exponent with a
  fraction).
\<close>

definition f64_exponent :: "u64 \<Rightarrow> nat" where
  "f64_exponent bs = unat bs div 2 ^ 52 mod 2 ^ 11"

definition f64_fraction :: "u64 \<Rightarrow> nat" where
  "f64_fraction bs = unat bs mod 2 ^ 52"

definition f64_ge_one :: "u64 \<Rightarrow> bool" where
  "f64_ge_one bs \<longleftrightarrow>
     \<not> bit bs 63 \<and> 1023 \<le> f64_exponent bs \<and> \<not> (f64_exponent bs = 2047 \<and> f64_fraction bs \<noteq> 0)"

definition from_f64_lossy :: "u64 \<Rightarrow> uint may_panic" where
  "from_f64_lossy bs =
     (if f64_ge_one bs then
        do {
          exponent \<leftarrow> psub (drop_bit 52 bs AND 0x7ff) 1023;
          let mantissa = (bs AND 0xfffffffffffff) OR 0x10000000000000;
          if exponent \<le> 52 then do { s \<leftarrow> psub 52 exponent; Some (uint_from_u64 4 (drop_bit (unat s) mantissa)) }
          else if exponent \<ge> 256 then Some (uint_MAX 4)
          else do { s \<leftarrow> psub exponent 52; uint_shl (uint_from_u64 4 mantissa) (uint_from_u64 4 s) } }
      else Some (uint_from_u64 4 0))"

subsection \<open>Trait implementations\<close>

definition num_zero :: "nat \<Rightarrow> uint" where
  "num_zero n = uint_zero n"

definition num_is_zero :: "uint \<Rightarrow> bool" where
  "num_is_zero self = uint_is_zero self"

definition num_one :: "nat \<Rightarrow> uint" where
  "num_one n = uint_one n"

definition num_from_str_radix ::
  "(bytes \<Rightarrow> bytes \<Rightarrow> hex_error + bytes) \<Rightarrow> (bytes \<Rightarrow> u64) \<Rightarrow> nat \<Rightarrow> bytes \<Rightarrow> u32 \<Rightarrow>
     (from_str_radix_err + uint) may_panic" where
  "num_from_str_radix decode_to_slice read_u64 n txt rad = uint_from_str_radix decode_to_slice read_u64 n txt rad"

text \<open>The outer option is a panic or a loop that does not end, the inner one the result of the trait method.\<close>

definition integer_sqrt_checked :: "uint \<Rightarrow> uint option may_panic" where
  "integer_sqrt_checked self = do { r \<leftarrow> uint_integer_sqrt self; Some (Some r) }"

text \<open>
  \<open>encode_array\<close> and \<open>decode_array\<close> are the codec of \<^verbatim>\<open>[u8; N]\<close>; an input is the list of its bytes.
\<close>

definition uint_codec_encode :: "(u64 \<Rightarrow> bytes) \<Rightarrow> (bytes \<Rightarrow> bytes) \<Rightarrow> uint \<Rightarrow> bytes may_panic" where
  "uint_codec_encode write_u64 encode_array self =
     do {
       bs \<leftarrow> uint_to_little_endian write_u64 self (replicate (length self * 8) 0);
       Some (encode_array bs) }"

definition uint_codec_decode ::
  "(bytes \<Rightarrow> u64) \<Rightarrow> (nat \<Rightarrow> bytes \<Rightarrow> ('e + bytes) \<times> bytes) \<Rightarrow> nat \<Rightarrow> bytes \<Rightarrow> (('e + uint) \<times> bytes) may_panic" where
  "uint_codec_decode read_u64 decode_array n input =
     (case decode_array (n * 8) input of
        (Inl e, input) \<Rightarrow> Some (Inl e, input)
      | (Inr b, input) \<Rightarrow> do { x \<leftarrow> uint_from_little_endian read_u64 n b; Some (Inr x, input) })"

definition hash_codec_encode :: "(bytes \<Rightarrow> bytes) \<Rightarrow> fixed_hash \<Rightarrow> bytes" where
  "hash_codec_encode encode_array self = encode_array self"

definition hash_codec_decode ::
  "(nat \<Rightarrow> bytes \<Rightarrow> ('e + bytes) \<times> bytes) \<Rightarrow> nat \<Rightarrow> bytes \<Rightarrow> ('e + fixed_hash) \<times> bytes" where
  "hash_codec_decode decode_array n input =
     (case decode_array n input of
        (Inl e, input) \<Rightarrow> (Inl e, input)
      | (Inr b, input) \<Rightarrow> (Inr (hash_from_array b), input))"

subsection \<open>Widening and narrowing\<close>

lemma words_of_2: "length xs = 2 \<Longrightarrow> \<exists>a b. xs = [a, b]"
  by (auto simp: numeral_eq_Suc length_Suc_conv)

lemma words_of_4: "length xs = 4 \<Longrightarrow> \<exists>a b c d. xs = [a, b, c, d]"
  by (auto simp: numeral_eq_Suc length_Suc_conv)

lemma words_of_8: "length xs = 8 \<Longrightarrow> \<exists>a b c d e f g h. xs = [a, b, c, d, e, f, g, h]"
  by (auto simp: numeral_eq_Suc length_Suc_conv)

lemma limbs_widen: "length xs = k \<Longrightarrow> limbs (k + m) (lval xs) = (xs @ replicate m 0 :: u64 list)"
proof -
  assume k: "length xs = k"
  have "lval xs < B ^ k * B ^ m"
    using lval_bound [of xs] k mult_le_mono2 [of 1 "B ^ m" "B ^ k"] by (simp add: Suc_le_eq less_le_trans)
  then show ?thesis by (intro limbs_eqI [symmetric]) (simp_all add: k lval_append power_add)
qed

lemma limbs_narrow:
  "k \<le> length xs \<Longrightarrow> (lval xs < B ^ k \<longleftrightarrow> (\<forall>w \<in> set (drop k xs). w = 0)) \<and>
     (lval xs < B ^ k \<longrightarrow> limbs k (lval xs) = (take k xs :: u64 list))"
proof -
  assume k: "k \<le> length xs"
  have "lval (drop k xs) = lval xs div B ^ k" by (rule lval_drop)
  then have "lval xs < B ^ k \<longleftrightarrow> lval (drop k xs) = 0" by (simp add: div_eq_0_iff)
  moreover have "limbs k (lval xs) = take k xs"
    using k by (intro limbs_eqI [symmetric]) (simp_all add: lval_take)
  ultimately show ?thesis by (simp add: lval_eq_0_iff)
qed

lemma fixed_arrays:
  "replicate 2 (0 :: u64) = [0, 0]" "replicate 4 (0 :: u64) = [0, 0, 0, 0]" "replicate 6 (0 :: u64) = [0, 0, 0, 0, 0, 0]"
  "(replicate 2 0)[0 := a, Suc 0 := b] = [a, b :: u64]"
  "(replicate 4 0)[0 := a, Suc 0 := b] = [a, b, 0, 0]" "(replicate 8 0)[0 := a, Suc 0 := b] = [a, b, 0, 0, 0, 0, 0, 0]"
  "(replicate 4 0)[0 := a, Suc 0 := b, 2 := c, 3 := d] = [a, b, c, d]"
  "(replicate 8 0)[0 := a, Suc 0 := b, 2 := c, 3 := d] = [a, b, c, d, 0, 0, 0, 0]"
  by (simp_all add: numeral_eq_Suc)

lemma widening_u128:
  assumes "length x = 2"
  shows "u256_from_u128 x = limbs 4 (lval x)" "u512_from_u128 x = limbs 8 (lval x)"
proof -
  obtain a b where x: "x = [a, b]" using words_of_2 [OF assms] by blast
  show "u256_from_u128 x = limbs 4 (lval x)"
    using limbs_widen [OF assms, of 2] by (simp add: u256_from_u128_def fixed_arrays x del: lval.simps)
  show "u512_from_u128 x = limbs 8 (lval x)"
    using limbs_widen [OF assms, of 6] by (simp add: u512_from_u128_def fixed_arrays x del: lval.simps)
qed

lemma widening_u256:
  assumes "length y = 4"
  shows "u512_from_u256 y = limbs 8 (lval y)" "u512_from_ref_u256 y = limbs 8 (lval y)"
proof -
  obtain a b c d where y: "y = [a, b, c, d]" using words_of_4 [OF assms] by blast
  show "u512_from_u256 y = limbs 8 (lval y)" "u512_from_ref_u256 y = limbs 8 (lval y)"
    using limbs_widen [OF assms, of 4]
    by (simp_all add: u512_from_u256_def u512_from_ref_u256_def fixed_arrays y del: lval.simps)
qed

lemma narrowing_u256:
  assumes "length y = 4"
  shows "u128_try_from_u256 y = (if lval y < B ^ 2 then Inr (limbs 2 (lval y)) else Inl PrimOverflow)"
proof -
  obtain a b c d where y: "y = [a, b, c, d]" using words_of_4 [OF assms] by blast
  show ?thesis
    using limbs_narrow [of 2 y] by (auto simp: u128_try_from_u256_def fixed_arrays y or_eq_0_iff simp del: lval.simps)
qed

lemma narrowing_u512:
  assumes "length z = 8"
  shows "u256_try_from_u512 z = (if lval z < B ^ 4 then Inr (limbs 4 (lval z)) else Inl PrimOverflow)"
    "u256_try_from_ref_u512 z = (if lval z < B ^ 4 then Inr (limbs 4 (lval z)) else Inl PrimOverflow)"
    "u128_try_from_u512 z = (if lval z < B ^ 2 then Inr (limbs 2 (lval z)) else Inl PrimOverflow)"
proof -
  obtain a b c d e f g h where z: "z = [a, b, c, d, e, f, g, h]" using words_of_8 [OF assms] by blast
  show "u256_try_from_u512 z = (if lval z < B ^ 4 then Inr (limbs 4 (lval z)) else Inl PrimOverflow)"
    "u256_try_from_ref_u512 z = (if lval z < B ^ 4 then Inr (limbs 4 (lval z)) else Inl PrimOverflow)"
    using limbs_narrow [of 4 z]
    by (auto simp: u256_try_from_u512_def u256_try_from_ref_u512_def fixed_arrays z or_eq_0_iff simp del: lval.simps)
  show "u128_try_from_u512 z = (if lval z < B ^ 2 then Inr (limbs 2 (lval z)) else Inl PrimOverflow)"
    using limbs_narrow [of 2 z] by (auto simp: u128_try_from_u512_def fixed_arrays z or_eq_0_iff simp del: lval.simps)
qed

subsection \<open>The integer part of a floating point number\<close>

lemma f64_mantissa: "unat ((bs AND 0xfffffffffffff) OR 0x10000000000000 :: u64) = 2 ^ 52 + f64_fraction bs"
proof -
  have m: "(0xfffffffffffff :: u64) = mask 52" "(0x10000000000000 :: u64) = 2 ^ 52" by (simp_all add: mask_eq_exp_minus_1)
  have "unat (bs AND 0xfffffffffffff) = f64_fraction bs"
    unfolding m(1) f64_fraction_def by (simp only: take_bit_eq_mask [symmetric] unat_take_bit)
  moreover have "(bs AND 0xfffffffffffff) OR 0x10000000000000 = (bs AND 0xfffffffffffff) + 2 ^ 52"
    unfolding m take_bit_eq_mask [symmetric]
    by (subst disjunctive_add) (auto simp: bit_take_bit_iff bit_exp_iff simp del: power_numeral)
  moreover have "f64_fraction bs < 2 ^ 52" by (simp add: f64_fraction_def)
  ultimately show ?thesis by (simp add: unat_add_radix radix_def)
qed

lemma f64_exponent_bits: "unat (drop_bit 52 bs AND 0x7ff :: u64) = f64_exponent bs"
proof -
  have m: "(0x7ff :: u64) = mask 11" by (simp add: mask_eq_exp_minus_1)
  show ?thesis
    unfolding m f64_exponent_def by (simp only: take_bit_eq_mask [symmetric] unat_take_bit unat_drop_bit)
qed

lemma shift_mantissa:
  fixes x m :: u64
  assumes "unat x < 2048"
  shows "(if x \<le> 52 then do { s \<leftarrow> psub 52 x; Some (uint_from_u64 4 (drop_bit (unat s) m)) }
      else if x \<ge> 256 then Some (uint_MAX 4)
      else do { s \<leftarrow> psub x 52; uint_shl (uint_from_u64 4 m) (uint_from_u64 4 s) }) =
    Some (limbs 4 (if unat x < 256 then unat m * 2 ^ unat x div 2 ^ 52 else 2 ^ 256 - 1))" (is "?l = _")
proof -
  define e M where "e = unat x" and "M = unat m"
  consider "e \<le> 52" | "52 < e" "e < 256" | "256 \<le> e" by linarith
  then show ?thesis
  proof cases
    case 1
    obtain k where k: "52 = k + e" using 1 le_Suc_ex by (metis add.commute)
    have "M * 2 ^ e div 2 ^ 52 = M div 2 ^ k" unfolding k by (simp add: power_add)
    then have "uint_from_u64 4 (drop_bit k m) = limbs 4 (M * 2 ^ e div 2 ^ 52)"
      using limbs_lval [of "uint_from_u64 4 (drop_bit k m)" 4] by (simp add: unat_drop_bit M_def)
    moreover have "unat (52 :: u64) - unat x = k" using k by (simp add: e_def)
    then have "psub 52 x = Some (of_nat k)" using psub_ok [of x 52] 1 by (simp only: e_def) simp
    moreover have "unat (of_nat k :: u64) = k" using k by (simp add: unat_of_nat_lt radix_def)
    ultimately show ?thesis using 1 by (simp add: word_le_nat_alt e_def [symmetric] M_def [symmetric])
  next
    case 2
    obtain k where k: "e = 52 + k" using 2 less_imp_add_positive by blast
    have s: "psub x 52 = Some (of_nat k)" using 2 k by (simp add: psub_ok e_def)
    have u: "unat (of_nat k :: u64) = k" using 2 k by (simp add: unat_of_nat_lt radix_def)
    have ne: "uint_from_u64 4 v \<noteq> []" for v using length_uint_ops(3) [of 4 v] by (metis list.size(3) zero_neq_numeral)
    have "M * 2 ^ e div 2 ^ 52 = M * 2 ^ k" unfolding k by (simp add: power_add)
    moreover have "k < B" using 2 k by (simp add: radix_def)
    ultimately have "uint_shl (uint_from_u64 4 m) (uint_from_u64 4 (of_nat k)) = Some (limbs 4 (M * 2 ^ e div 2 ^ 52))"
      using u ne by (auto simp: uint_shl_def uint_as_usize_spec M_def lval_shl intro!: limbs_eqI)
    then show ?thesis using 2 s by (simp add: word_le_nat_alt e_def [symmetric] M_def [symmetric])
  next
    case 3
    have "uint_MAX 4 = limbs 4 (2 ^ 256 - 1)" by (rule limbs_eqI) (simp_all add: lval_MAX radix_def)
    then show ?thesis using 3 by (simp add: word_le_nat_alt e_def [symmetric])
  qed
qed

subsection \<open>Properties\<close>

text \<open>
  C36. Integers of different widths: \<^verbatim>\<open>full_mul\<close> is the exact product, in twice the words; widening keeps the
  number; narrowing returns the number when it fits the smaller type and \<^verbatim>\<open>Overflow\<close> exactly
  when it does not.
\<close>

theorem width_conversions_exact:
  assumes "length x = 2" "length x' = 2" "length y = 4" "length y' = 4" "length z = 8"
  shows "u128_full_mul x x' = limbs 4 (lval x * lval x') \<and> u256_full_mul y y' = limbs 8 (lval y * lval y') \<and>
    lval (u128_full_mul x x') = lval x * lval x' \<and> lval (u256_full_mul y y') = lval y * lval y' \<and>
    u256_from_u128 x = limbs 4 (lval x) \<and> u512_from_u128 x = limbs 8 (lval x) \<and> u512_from_u256 y = limbs 8 (lval y) \<and>
    u128_try_from_u256 y = (if lval y < B ^ 2 then Inr (limbs 2 (lval y)) else Inl PrimOverflow) \<and>
    u256_try_from_u512 z = (if lval z < B ^ 4 then Inr (limbs 4 (lval z)) else Inl PrimOverflow) \<and>
    u128_try_from_u512 z = (if lval z < B ^ 2 then Inr (limbs 2 (lval z)) else Inl PrimOverflow) \<and>
    u256_try_from_u512 (u512_from_u256 y) = Inr y \<and> u128_try_from_u256 (u256_from_u128 x) = Inr x"
proof -
  have m: "lval (u128_full_mul x x') = lval x * lval x'" "length (u128_full_mul x x') = 4"
    "lval (u256_full_mul y y') = lval y * lval y'" "length (u256_full_mul y y') = 8"
    using full_mul_reg_eq [of x' x] full_mul_reg_eq [of y' y] assms
    by (simp_all add: u128_full_mul_def u256_full_mul_def)
  have y: "lval y < B ^ 4" "lval (u512_from_u256 y) = lval y"
    using lval_bound [of y] assms(3) limbs_widen [OF assms(3), of 4] by (simp_all add: widening_u256 lval_append)
  have x: "lval x < B ^ 2" "lval (u256_from_u128 x) = lval x"
    using lval_bound [of x] assms(1) limbs_widen [OF assms(1), of 2] by (simp_all add: widening_u128 lval_append)
  have "u256_try_from_u512 (u512_from_u256 y) = Inr y"
    using y assms(3) narrowing_u512(1) [of "u512_from_u256 y"] by (simp add: widening_u256 limbs_lval)
  moreover have "u128_try_from_u256 (u256_from_u128 x) = Inr x"
    using x assms(1) narrowing_u256 [of "u256_from_u128 x"] by (simp add: widening_u128 limbs_lval)
  ultimately show ?thesis
    using assms m limbs_lval [OF m(2)] limbs_lval [OF m(4)]
    by (simp add: widening_u128 widening_u256 narrowing_u256 narrowing_u512)
qed

theorem width_conversions_exact_witness:
  "lval (u128_full_mul [3, 1] [0, 2]) = lval [3, 1 :: u64] * lval [0, 2 :: u64] \<and>
   u256_try_from_u512 (u512_from_u256 [1, 2, 3, 4]) = Inr [1, 2, 3, 4]"
proof -
  have "length [3, 1 :: u64] = 2" "length [0, 2 :: u64] = 2" "length [1, 2, 3, 4 :: u64] = 4"
    "length [0, 0, 0, 1 :: u64] = 4" "length (replicate 8 0 :: u64 list) = 8"
    by simp_all
  from width_conversions_exact [OF this] show ?thesis by blast
qed

text \<open>
  The \<^verbatim>\<open>codec\<close> of integers and hashes: for a codec of byte arrays that decodes what it encodes and leaves the
  rest of the input, an integer of \<open>n\<close> words is encoded as its \<open>8 n\<close> little-endian bytes, and
  integers and hashes decode to themselves with the rest of the input untouched.
\<close>

theorem codec_roundtrip:
  assumes le: "little_endian_words write_u64 read_u64"
    and arrays: "\<And>b rest. decode_array (length b) (encode_array b @ rest) = (Inr b, rest)"
    and x: "length x = n" and h: "length h = k"
  shows "\<exists>bs. length bs = 8 * n \<and> lval bs = lval x \<and> uint_codec_encode write_u64 encode_array x = Some (encode_array bs) \<and>
      uint_codec_decode read_u64 decode_array n (encode_array bs @ rest) = Some (Inr x, rest)"
    and "hash_codec_decode decode_array k (hash_codec_encode encode_array h @ rest) = (Inr h, rest)"
proof -
  obtain bs where bs: "uint_to_little_endian write_u64 x (replicate (n * 8) 0) = Some bs" "length bs = 8 * n" "lval bs = lval x"
    using little_endian_words.to_little_endian_spec [OF le, of "replicate (n * 8) 0" x] x by (auto simp: mult.commute)
  have "decode_array (n * 8) (encode_array bs @ rest) = (Inr bs, rest)"
    using arrays [of bs rest] bs(2) by (simp add: mult.commute)
  moreover have "uint_from_little_endian read_u64 n bs = Some x"
    using little_endian_words.from_little_endian_spec [OF le, of bs n] bs x by (simp add: limbs_lval)
  ultimately show "\<exists>bs. length bs = 8 * n \<and> lval bs = lval x \<and> uint_codec_encode write_u64 encode_array x = Some (encode_array bs) \<and>
      uint_codec_decode read_u64 decode_array n (encode_array bs @ rest) = Some (Inr x, rest)"
    using bs x by (auto simp: uint_codec_encode_def uint_codec_decode_def)
  show "hash_codec_decode decode_array k (hash_codec_encode encode_array h @ rest) = (Inr h, rest)"
    using arrays [of h rest] h by (simp add: hash_codec_encode_def hash_codec_decode_def hash_from_array_def)
qed

text \<open>
  The conversion of a floating point number to \<^verbatim>\<open>U256\<close> never panics: a number \<open>v \<ge> 1\<close>, that is
  \<open>(2 ^ 52 + fraction) * 2 ^ (e - 52)\<close> with the unbiased exponent \<open>e\<close>, gives its integer part, from \<open>2 ^ 256\<close> on and at
  infinity the largest integer; every other number, \<^verbatim>\<open>NaN\<close> included, gives zero.
\<close>

theorem from_f64_lossy_truncates:
  "from_f64_lossy bs = Some (limbs 4
     (if \<not> f64_ge_one bs then 0
      else if f64_exponent bs - 1023 < 256 then (2 ^ 52 + f64_fraction bs) * 2 ^ (f64_exponent bs - 1023) div 2 ^ 52
      else 2 ^ 256 - 1))"
proof (cases "f64_ge_one bs")
  case False
  have "uint_from_u64 4 0 = limbs 4 0" by (rule limbs_eqI) simp_all
  then show ?thesis using False by (simp add: from_f64_lossy_def)
next
  case True
  define x :: u64 where "x = of_nat (f64_exponent bs - 1023)"
  have "f64_exponent bs - 1023 < 2048" by (simp add: f64_exponent_def less_imp_diff_less)
  then have x: "unat x = f64_exponent bs - 1023" "unat x < 2048" by (simp_all add: x_def unat_of_nat_lt radix_def)
  have "psub (drop_bit 52 bs AND 0x7ff) 1023 = Some x"
    using True f64_exponent_bits [of bs] by (simp add: psub_ok f64_ge_one_def x_def)
  then show ?thesis
    using True shift_mantissa [OF x(2), of "(bs AND 0xfffffffffffff) OR 0x10000000000000"]
    by (simp only: from_f64_lossy_def if_True if_False f64_mantissa x(1) Let_def bind.bind_lunit simp_thms)
qed

end
