(* ===== verification/Extended_Keys.thy ===== *)
theory Extended_Keys
  imports Crypto_Prims Prim_Types
begin

text \<open>
  Hierarchical key derivation (\<^verbatim>\<open>publickey/extended_keys.rs\<close>): secret and public keys extended with a
  chain code, and the derivation of child keys after BIP 32. The crates are the fields of a
  record; the byte order access is the one of the theories of integers and hashes.
\<close>

subsection \<open>Labels and derivations\<close>

text \<open>The trait \<^verbatim>\<open>Label\<close>: its length and the bytes \<^verbatim>\<open>store\<close> leaves in the target.\<close>

record 'l label =
  label_len :: nat
  label_store :: "'l \<Rightarrow> bytes \<Rightarrow> bytes may_panic"

definition u32_label :: "u32 label" where
  "u32_label = \<lparr> label_len = 4, label_store = \<lambda>self target. write_range target 0 4 (be_bytes 4 (unat self)) \<rparr>"

definition h256_label :: "fixed_hash label" where
  "h256_label = \<lparr> label_len = 32, label_store = \<lambda>self target. write_range target 0 32 (hash_as_bytes self) \<rparr>"

datatype 'l derivation = Soft 'l | Hard 'l

definition derivation_from_u32 :: "u32 \<Rightarrow> u32 derivation" where
  "derivation_from_u32 index = (if index < push_bit 30 2 then Soft index else Hard index)"

datatype derivation_error = InvalidHardenedUse | InvalidPoint | MissingIndex | InvalidSeed

subsection \<open>Derivation functions\<close>

record ('p, 'm, 'n) key_env =
  env_secp :: "'p secp256k1"
  env_macs :: "('m, 'n) mac_algs"
  env_write_u64 :: "u64 \<Rightarrow> bytes"
  env_read_u64 :: "bytes \<Rightarrow> u64"
  env_keccak256 :: "bytes \<Rightarrow> bytes"

definition CURVE_ORDER :: "('p, 'm, 'n) key_env \<Rightarrow> uint may_panic" where
  "CURVE_ORDER E =
     do { h \<leftarrow> hash_from_slice 32 (SECP256K1_CURVE_ORDER (env_secp E)); hash_into_uint (env_read_u64 E) 4 h }"

definition modulo :: "uint \<Rightarrow> uint \<Rightarrow> uint may_panic" where
  "modulo u1 u2 =
     do {
       m \<leftarrow> uint_rem u1 (u512_from_u256 u2);
       case u256_try_from_u512 m of Inl e \<Rightarrow> panic | Inr r \<Rightarrow> Some r }"

definition private_add :: "('p, 'm, 'n) key_env \<Rightarrow> uint \<Rightarrow> uint \<Rightarrow> uint may_panic" where
  "private_add E k1 k2 =
     do {
       sum \<leftarrow> uint_add (u512_from_u256 k1) (u512_from_u256 k2);
       order \<leftarrow> CURVE_ORDER E;
       modulo sum order }"

text \<open>The two halves of an authentication code.\<close>

definition hmac_halves :: "('p, 'm, 'n) key_env \<Rightarrow> bytes \<Rightarrow> bytes \<Rightarrow> (fixed_hash \<times> fixed_hash) may_panic" where
  "hmac_halves E key data =
     do {
       i_512 \<leftarrow> hmac_sign (env_macs E) (sig_key_sha512 key) data;
       left \<leftarrow> slice_range (hmac_deref i_512) 0 32;
       left \<leftarrow> hash_from_slice 32 left;
       right \<leftarrow> slice_range (hmac_deref i_512) 32 64;
       right \<leftarrow> hash_from_slice 32 right;
       Some (left, right) }"

definition hmac_pair ::
  "('p, 'm, 'n) key_env \<Rightarrow> bytes \<Rightarrow> fixed_hash \<Rightarrow> fixed_hash \<Rightarrow> (fixed_hash \<times> fixed_hash) may_panic" where
  "hmac_pair E data private_key chain_code =
     do {
       private \<leftarrow> hash_into_uint (env_read_u64 E) 4 private_key;
       (left, next_chain_code) \<leftarrow> hmac_halves E (hash_as_bytes chain_code) data;
       hmac_key \<leftarrow> hash_into_uint (env_read_u64 E) 4 left;
       sum \<leftarrow> private_add E hmac_key private;
       child_key \<leftarrow> hash_from_uint (env_write_u64 E) 32 sum;
       Some (child_key, next_chain_code) }"

text \<open>\<^verbatim>\<open>index.store(&mut data[33..])\<close>.\<close>

definition store_index :: "'l label \<Rightarrow> 'l \<Rightarrow> bytes \<Rightarrow> bytes may_panic" where
  "store_index L index data =
     do {
       part \<leftarrow> slice_range data 33 (33 + label_len L);
       part \<leftarrow> label_store L index part;
       Some (take 33 data @ part @ drop (33 + label_len L) data) }"

definition private_soft ::
  "('p, 'm, 'n) key_env \<Rightarrow> 'l label \<Rightarrow> fixed_hash \<Rightarrow> fixed_hash \<Rightarrow> 'l \<Rightarrow> (fixed_hash \<times> fixed_hash) may_panic" where
  "private_soft E L private_key chain_code index =
     (case sk_from_slice (env_secp E) (hash_as_bytes private_key) of
        Inl e \<Rightarrow> panic
      | Inr sec_private \<Rightarrow>
          do {
            let data = replicate (33 + label_len L) 0;
            let sec_public = pk_from_secret_key (env_secp E) sec_private;
            data \<leftarrow> write_range data 0 33 (pk_serialize (env_secp E) sec_public);
            data \<leftarrow> store_index L index data;
            hmac_pair E data private_key chain_code })"

definition private_hard ::
  "('p, 'm, 'n) key_env \<Rightarrow> 'l label \<Rightarrow> fixed_hash \<Rightarrow> fixed_hash \<Rightarrow> 'l \<Rightarrow> (fixed_hash \<times> fixed_hash) may_panic" where
  "private_hard E L private_key chain_code index =
     do {
       let data = replicate (33 + label_len L) 0;
       private \<leftarrow> hash_into_uint (env_read_u64 E) 4 private_key;
       part \<leftarrow> slice_range data 1 33;
       part \<leftarrow> uint_to_big_endian (env_write_u64 E) private part;
       data \<leftarrow> write_range data 1 33 part;
       data \<leftarrow> store_index L index data;
       hmac_pair E data private_key chain_code }"

definition derivation_private ::
  "('p, 'm, 'n) key_env \<Rightarrow> 'l label \<Rightarrow> fixed_hash \<Rightarrow> fixed_hash \<Rightarrow> 'l derivation \<Rightarrow> (fixed_hash \<times> fixed_hash) may_panic" where
  "derivation_private E L private_key chain_code index =
     (case index of
        Soft index \<Rightarrow> private_soft E L private_key chain_code index
      | Hard index \<Rightarrow> private_hard E L private_key chain_code index)"

definition derivation_public ::
  "('p, 'm, 'n) key_env \<Rightarrow> 'l label \<Rightarrow> public \<Rightarrow> fixed_hash \<Rightarrow> 'l derivation \<Rightarrow>
   (derivation_error + public \<times> fixed_hash) may_panic" where
  "derivation_public E L public_key chain_code deriv =
     (case deriv of
        Hard index \<Rightarrow> Some (Inl InvalidHardenedUse)
      | Soft index \<Rightarrow>
          do {
            let public_sec_raw = (replicate 65 0)[0 := 4];
            public_sec_raw \<leftarrow> write_range public_sec_raw 1 65 (hash_as_bytes public_key);
            try_bind (Some (map_sum (\<lambda>_. InvalidPoint) id (pk_from_slice (env_secp E) public_sec_raw))) (\<lambda>public_sec.
              do {
                let data = replicate (33 + label_len L) 0;
                data \<leftarrow> write_range data 0 33 (pk_serialize (env_secp E) public_sec);
                data \<leftarrow> store_index L index data;
                (new_private, new_chain_code) \<leftarrow> hmac_halves E (hash_as_bytes chain_code) data;
                order \<leftarrow> CURVE_ORDER E;
                scalar \<leftarrow> hash_into_uint (env_read_u64 E) 4 new_private;
                if uint_cmp order scalar \<noteq> Greater then Some (Inl MissingIndex)
                else
                  case sk_from_slice (env_secp E) (hash_as_bytes new_private) of
                    Inl e \<Rightarrow> panic
                  | Inr new_private_sec \<Rightarrow>
                      (case pk_combine (env_secp E) (pk_from_secret_key (env_secp E) new_private_sec) public_sec of
                         Inl e \<Rightarrow> panic
                       | Inr new_public \<Rightarrow>
                           do {
                             part \<leftarrow> slice_range (pk_serialize_uncompressed (env_secp E) new_public) 1 65;
                             h \<leftarrow> hash_from_slice 64 part;
                             Some (Inr (h, new_chain_code)) }) }) })"

definition derivation_chain_code :: "('p, 'm, 'n) key_env \<Rightarrow> fixed_hash \<Rightarrow> fixed_hash" where
  "derivation_chain_code E secret =
     ((\<lambda>running_sha3. env_keccak256 E running_sha3) ^^ 99999) (env_keccak256 E (hash_as_bytes secret))"

definition derivation_point :: "('p, 'm, 'n) key_env \<Rightarrow> fixed_hash \<Rightarrow> (derivation_error + public) may_panic" where
  "derivation_point E secret =
     try_bind (Some (map_sum (\<lambda>_. InvalidPoint) id (sk_from_slice (env_secp E) (hash_as_bytes secret)))) (\<lambda>sec.
       do {
         part \<leftarrow> slice_range (pk_serialize_uncompressed (env_secp E) (pk_from_secret_key (env_secp E) sec)) 1 65;
         h \<leftarrow> hash_from_slice 64 part;
         Some (Inr h) })"

text \<open>The key is the text \<^verbatim>\<open>Bitcoin seed\<close>.\<close>

definition seed_pair :: "('p, 'm, 'n) key_env \<Rightarrow> bytes \<Rightarrow> (fixed_hash \<times> fixed_hash) may_panic" where
  "seed_pair E seed = hmac_halves E [66, 105, 116, 99, 111, 105, 110, 32, 115, 101, 101, 100] seed"

subsection \<open>Extended keys\<close>

record extended_secret =
  es_secret :: secret
  es_chain_code :: fixed_hash

definition extended_secret_new :: "('p, 'm, 'n) key_env \<Rightarrow> secret \<Rightarrow> extended_secret" where
  "extended_secret_new E secret = \<lparr> es_secret = secret, es_chain_code = derivation_chain_code E secret \<rparr>"

definition extended_secret_derive ::
  "('p, 'm, 'n) key_env \<Rightarrow> 'l label \<Rightarrow> extended_secret \<Rightarrow> 'l derivation \<Rightarrow> extended_secret may_panic" where
  "extended_secret_derive E L self index =
     do {
       (derived_key, next_chain_code) \<leftarrow> derivation_private E L (es_secret self) (es_chain_code self) index;
       Some \<lparr> es_secret = derived_key, es_chain_code = next_chain_code \<rparr> }"

record extended_public =
  ep_public :: public
  ep_chain_code :: fixed_hash

definition extended_public_from_secret ::
  "('p, 'm, 'n) key_env \<Rightarrow> extended_secret \<Rightarrow> (derivation_error + extended_public) may_panic" where
  "extended_public_from_secret E secret =
     try_bind (derivation_point E (es_secret secret)) (\<lambda>p.
       Some (Inr \<lparr> ep_public = p, ep_chain_code = es_chain_code secret \<rparr>))"

definition extended_public_derive ::
  "('p, 'm, 'n) key_env \<Rightarrow> 'l label \<Rightarrow> extended_public \<Rightarrow> 'l derivation \<Rightarrow> (derivation_error + extended_public) may_panic" where
  "extended_public_derive E L self index =
     try_bind (derivation_public E L (ep_public self) (ep_chain_code self) index) (\<lambda>(derived_key, next_chain_code).
       Some (Inr \<lparr> ep_public = derived_key, ep_chain_code = next_chain_code \<rparr>))"

record extended_key_pair =
  ek_secret :: extended_secret
  ek_public :: extended_public

definition extended_key_pair_of :: "('p, 'm, 'n) key_env \<Rightarrow> extended_secret \<Rightarrow> extended_key_pair may_panic" where
  "extended_key_pair_of E secret =
     do {
       r \<leftarrow> extended_public_from_secret E secret;
       case r of Inl e \<Rightarrow> panic | Inr public \<Rightarrow> Some \<lparr> ek_secret = secret, ek_public = public \<rparr> }"

definition extended_key_pair_new :: "('p, 'm, 'n) key_env \<Rightarrow> secret \<Rightarrow> extended_key_pair may_panic" where
  "extended_key_pair_new E secret = extended_key_pair_of E (extended_secret_new E secret)"

definition extended_key_pair_with_code :: "secret \<Rightarrow> public \<Rightarrow> fixed_hash \<Rightarrow> extended_key_pair" where
  "extended_key_pair_with_code secret public chain_code =
     \<lparr> ek_secret = \<lparr> es_secret = secret, es_chain_code = chain_code \<rparr>,
       ek_public = \<lparr> ep_public = public, ep_chain_code = chain_code \<rparr> \<rparr>"

definition extended_key_pair_with_secret :: "('p, 'm, 'n) key_env \<Rightarrow> secret \<Rightarrow> fixed_hash \<Rightarrow> extended_key_pair may_panic" where
  "extended_key_pair_with_secret E secret chain_code =
     extended_key_pair_of E \<lparr> es_secret = secret, es_chain_code = chain_code \<rparr>"

definition extended_key_pair_with_seed ::
  "('p, 'm, 'n) key_env \<Rightarrow> bytes \<Rightarrow> (derivation_error + extended_key_pair) may_panic" where
  "extended_key_pair_with_seed E seed =
     do {
       (master_key, chain_code) \<leftarrow> seed_pair E seed;
       r \<leftarrow> import_key (env_secp E) (hash_as_bytes master_key);
       case r of
         Inl e \<Rightarrow> Some (Inl InvalidSeed)
       | Inr secret \<Rightarrow> map_option Inr (extended_key_pair_with_secret E secret chain_code) }"

definition extended_key_pair_derive ::
  "('p, 'm, 'n) key_env \<Rightarrow> 'l label \<Rightarrow> extended_key_pair \<Rightarrow> 'l derivation \<Rightarrow> (derivation_error + extended_key_pair) may_panic" where
  "extended_key_pair_derive E L self index =
     do {
       derived \<leftarrow> extended_secret_derive E L (ek_secret self) index;
       try_bind (extended_public_from_secret E derived) (\<lambda>public.
         Some (Inr \<lparr> ek_secret = derived, ek_public = public \<rparr>)) }"

subsection \<open>Modular arithmetic on integers of 256 bits\<close>

lemma curve_order_words: "curve_order < B ^ 4"
  by (simp add: curve_order_def B_eq)

lemma sum_fits: "a < B ^ 4 \<Longrightarrow> b < B ^ 4 \<Longrightarrow> a + b < B ^ 8"
proof -
  assume a: "a < B ^ 4" "b < B ^ 4"
  have "(2 :: nat) * B ^ 4 \<le> B ^ 8" by (simp add: B_eq)
  then show ?thesis using a by linarith
qed

lemma modulo_spec:
  assumes "length x = 8" and "length y = 4" and "lval y \<noteq> 0"
  shows "modulo x y = Some (limbs 4 (lval x mod lval y))"
proof -
  have y: "lval y < B ^ 4" using lval_bound [of y] assms(2) by simp
  then have "lval y < B ^ 8" using sum_fits [of "lval y" 0] by simp
  then have w: "lval (u512_from_u256 y) = lval y" using assms(2) by (simp add: widening_u256 lval_limbs_lt)
  have r: "lval x mod lval y < lval y" using assms(3) by simp
  then have "lval x mod lval y < B ^ 8" using \<open>lval y < B ^ 8\<close> by (rule less_trans)
  then have l: "lval (limbs 8 (lval x mod lval y) :: uint) = lval x mod lval y" by (rule lval_limbs_lt)
  have "uint_rem x (u512_from_u256 y) = Some (limbs 8 (lval x mod lval y))"
    using uint_div_rem_spec(2) [OF assms(1), of "u512_from_u256 y"] assms(2,3) w by (simp add: widening_u256(1))
  moreover have "u256_try_from_u512 (limbs 8 (lval x mod lval y)) = Inr (limbs 4 (lval x mod lval y))"
    using narrowing_u512(1) [of "limbs 8 (lval x mod lval y)"] l less_trans [OF r y] by simp
  ultimately show ?thesis by (simp add: modulo_def)
qed

lemma hval_words: "length h = 32 \<Longrightarrow> hval h < B ^ 4"
  using hval_bound [of h] by (simp add: B_eq)

subsection \<open>Derivation over the contracts of the crates\<close>

text \<open>
  What the derivations rely on: the group of the curve, the byte order access of integers, and an
  authentication code of 64 bytes that takes keys of any length.
\<close>

locale key_derivation = secp_group "env_secp E" gen + be: big_endian_words "env_write_u64 E" "env_read_u64 E"
  for E :: "('p, 'm, 'n) key_env" and gen :: "nat \<Rightarrow> 'p" +
  assumes mac_key: "\<exists>m. mac_new_varkey (snd (env_macs E)) key = Some m"
    and mac_length: "length (mac_finalize (snd (env_macs E)) m) = 64"
begin

lemma into_uint: "length h = 32 \<Longrightarrow> hash_into_uint (env_read_u64 E) 4 h = Some (limbs 4 (hval h))"
  using be.from_big_endian_spec [of h 4] by (simp add: hash_into_uint_def hash_as_bytes_def hval_def)

lemma from_uint: "length x = 4 \<Longrightarrow> hash_from_uint (env_write_u64 E) 32 x = Some (be_bytes 32 (lval x))"
proof -
  assume "length x = 4"
  then obtain r where "uint_to_big_endian (env_write_u64 E) x (replicate 32 0) = Some r" "length r = 32" "lval (rev r) = lval x"
    using be.to_big_endian_spec [of "replicate 32 0" x] by auto
  then show ?thesis
    using be_bytes_hval [of r 32] by (simp add: hash_from_uint_def hash_as_bytes_def hash_zero_def hash_repeat_byte_def hval_def)
qed

lemma curve_order_uint: "CURVE_ORDER E = Some (limbs 4 curve_order)"
  by (simp add: CURVE_ORDER_def order_bytes hash_from_slice_same into_uint hval_be_bytes [OF curve_order_bounds(2)])

lemma private_add_spec:
  assumes "a < B ^ 4" and "b < B ^ 4"
  shows "private_add E (limbs 4 a) (limbs 4 b) = Some (limbs 4 ((a + b) mod curve_order))"
proof -
  have lt: "a < B ^ 8" "b < B ^ 8" "a + b < B ^ 8" using sum_fits [of a 0] sum_fits [of b 0] sum_fits [OF assms] assms by simp_all
  have u: "u512_from_u256 (limbs 4 v) = limbs 8 v" if "v < B ^ 4" for v
    using that by (simp add: widening_u256 lval_limbs_lt)
  have "uint_add (limbs 8 a) (limbs 8 b) = Some (limbs 8 (a + b))"
    using uint_add_spec [of "limbs 8 a" 8 "limbs 8 b"] lt by (simp add: lval_limbs_lt)
  moreover have "modulo (limbs 8 (a + b)) (limbs 4 curve_order) = Some (limbs 4 ((a + b) mod curve_order))"
    using modulo_spec [of "limbs 8 (a + b)" "limbs 4 curve_order"] lt(3) curve_order_bounds(3)
    by (simp add: lval_limbs_lt [OF curve_order_words] lval_limbs_lt)
  ultimately show ?thesis using assms by (simp add: private_add_def u curve_order_uint)
qed

lemma hmac_halves_some: "\<exists>l r. hmac_halves E key data = Some (l, r) \<and> length l = 32 \<and> length r = 32"
proof -
  obtain m where "mac_new_varkey (snd (env_macs E)) key = Some m" using mac_key by blast
  then show ?thesis
    by (simp add: hmac_halves_def hmac_sign_def sig_key_sha512_def slice_range_def mac_length hash_from_slice_same)
qed

lemma hmac_pair_spec:
  assumes "length k = 32" and "hmac_halves E c data = Some (l, r)"
  shows "hmac_pair E data k c = Some (residue (hval l + hval k), r)"
proof -
  have l: "length l = 32" using hmac_halves_some [of c data] assms(2) by auto
  have "lval (limbs 4 ((hval l + hval k) mod curve_order) :: uint) = (hval l + hval k) mod curve_order"
    using mod_less_divisor [OF curve_order_bounds(3)] curve_order_words by (intro lval_limbs_lt) (rule less_trans)
  then show ?thesis
    using assms l by (simp add: hmac_pair_def into_uint hash_as_bytes_def private_add_spec hval_words from_uint)
qed

lemma store_index_spec:
  assumes "length p = 33" and "label_store L index (replicate (label_len L) 0) = Some ix"
  shows "store_index L index (p @ replicate (label_len L) 0) = Some (p @ ix)"
  using assms by (simp add: store_index_def slice_range_def)

lemma soft_data:
  assumes "label_store L index (replicate (label_len L) 0) = Some ix"
  shows "do { data \<leftarrow> write_range (replicate (33 + label_len L) 0) 0 33 (pk_serialize (env_secp E) P); store_index L index data } =
    Some (pk_serialize (env_secp E) P @ ix)"
  using store_index_spec [OF length_serialized(2) assms] length_serialized(2) [of P] by (simp add: write_range_ok)

lemma private_soft_spec:
  assumes "scalar k" and "0 < hval k" and "label_store L index (replicate (label_len L) 0) = Some ix"
    and "hmac_halves E c (pk_serialize (env_secp E) (gen (hval k)) @ ix) = Some (l, r)"
  shows "private_soft E L k c index = Some (residue (hval l + hval k), r)"
proof -
  have "private_soft E L k c index =
      (do { data \<leftarrow> write_range (replicate (33 + label_len L) 0) 0 33 (pk_serialize (env_secp E) (gen (hval k)));
            store_index L index data }) \<bind> (\<lambda>data. hmac_pair E data k c)"
    using assms(1,2) scalar_length [OF assms(1)] scalar_bound [OF assms(1)]
    by (simp add: private_soft_def from_slice hash_as_bytes_def of_secret Let_def bind_assoc)
  then show ?thesis
    using soft_data [OF assms(3)] hmac_pair_spec [OF scalar_length [OF assms(1)] assms(4)] by simp
qed

lemma point_spec:
  assumes "scalar k"
  shows "derivation_point E k = Some (if hval k = 0 then Inl InvalidPoint else Inr (point_bytes (env_secp E) (gen (hval k))))"
  using assms scalar_length [OF assms] scalar_bound [OF assms] length_serialized(1) [of "gen (hval k)"]
  by (simp add: derivation_point_def from_slice hash_as_bytes_def of_secret slice_range_def point_bytes_def hash_from_slice_same)

lemma parse_raw:
  assumes "i mod curve_order \<noteq> 0"
  shows "\<exists>raw. write_range ((replicate 65 0)[0 := 4]) 1 65 (point_bytes (env_secp E) (gen i)) = Some raw \<and>
    pk_from_slice (env_secp E) raw = Inr (gen i)"
  using parse_serialized [OF assms] serialized_point [of "gen i"]
  by (simp add: write_range_ok replicate_numeral_byte)

lemma public_spec:
  assumes i: "i mod curve_order \<noteq> 0" and "label_store L index (replicate (label_len L) 0) = Some ix"
    and h: "hmac_halves E c (pk_serialize (env_secp E) (gen i) @ ix) = Some (l, r)"
  shows "derivation_public E L (point_bytes (env_secp E) (gen i)) c (Soft index) =
    (if curve_order \<le> hval l then Some (Inl MissingIndex)
     else if hval l = 0 \<or> (hval l + i) mod curve_order = 0 then panic
     else Some (Inr (point_bytes (env_secp E) (gen (hval l + i)), r)))"
proof -
  have l: "length l = 32" using hmac_halves_some [of c "pk_serialize (env_secp E) (gen i) @ ix"] h by auto
  obtain raw where raw: "write_range ((replicate 65 0)[0 := 4]) 1 65 (point_bytes (env_secp E) (gen i)) = Some raw"
    "pk_from_slice (env_secp E) raw = Inr (gen i)"
    using parse_raw [OF i] by blast
  have cmp: "uint_cmp (limbs 4 curve_order) (limbs 4 (hval l)) = cmp_of curve_order (hval l)"
    using curve_order_words hval_words [OF l] by (simp add: uint_cmp_lval lval_limbs_lt)
  obtain data where data: "write_range (replicate (33 + label_len L) 0) 0 33 (pk_serialize (env_secp E) (gen i)) = Some data"
    "store_index L index data = Some (pk_serialize (env_secp E) (gen i) @ ix)"
    using soft_data [OF assms(2), of "gen i"] by (auto simp: bind_eq_Some_conv)
  have "scalar l \<and> hval l mod curve_order \<noteq> 0 \<and> pk_from_secret_key (env_secp E) l = gen (hval l)"
    if "0 < hval l" "hval l < curve_order"
    using that l of_secret [of l] by (simp add: scalar_def)
  then show ?thesis
    using i l raw data h cmp length_serialized(1)
    by (auto simp: derivation_public_def hash_as_bytes_def curve_order_uint into_uint from_slice combine_points cmp_of_def
        slice_range_def point_bytes_def hash_from_slice_same not_le)
qed

end

text \<open>Crates that keep the promises: the group by its exponents, and a code that is five and its data.\<close>

definition sample_mac64 :: "bytes mac_alg" where
  "sample_mac64 =
     \<lparr> mac_new_varkey = Some, mac_update = (@), mac_finalize = \<lambda>c. be_bytes 32 5 @ be_bytes 32 (hval c),
       mac_verify = \<lambda>c sig. sig = be_bytes 32 5 @ be_bytes 32 (hval c) \<rparr>"

definition exponent_env :: "(nat, bytes, bytes) key_env" where
  "exponent_env =
     \<lparr> env_secp = exponent_secp, env_macs = (sample_mac64, sample_mac64), env_write_u64 = u64_to_be_bytes,
       env_read_u64 = u64_from_be_bytes, env_keccak256 = \<lambda>bs. be_bytes 32 (hval bs) \<rparr>"

lemma exponent_env_simps:
  "env_secp exponent_env = exponent_secp" "env_macs exponent_env = (sample_mac64, sample_mac64)"
  "env_write_u64 exponent_env = u64_to_be_bytes" "env_read_u64 exponent_env = u64_from_be_bytes"
  by (simp_all add: exponent_env_def)

interpretation derived: key_derivation exponent_env "\<lambda>i. i mod curve_order"
  unfolding key_derivation_def key_derivation_axioms_def exponent_env_simps
  using exponents.secp_group_axioms std_be.big_endian_words_axioms by (simp add: sample_mac64_def)

subsection \<open>Properties\<close>

text \<open>The contracts of the labels of the crate.\<close>

lemma u32_label_stored: "label_store u32_label index (replicate (label_len u32_label) 0) = Some (be_bytes 4 (unat index))"
  by (simp add: u32_label_def write_range_ok)

lemma h256_label_stored: "length h = 32 \<Longrightarrow> label_store h256_label h (replicate (label_len h256_label) 0) = Some h"
  by (simp add: h256_label_def write_range_ok hash_as_bytes_def)

lemma public_from_secret_spec:
  assumes "key_derivation E gen" and "scalar k"
  shows "extended_public_from_secret E \<lparr> es_secret = k, es_chain_code = c \<rparr> =
    Some (if hval k = 0 then Inl InvalidPoint
      else Inr \<lparr> ep_public = point_bytes (env_secp E) (gen (hval k)), ep_chain_code = c \<rparr>)"
  using key_derivation.point_spec [OF assms] by (simp add: extended_public_from_secret_def)

text \<open>
  C33. Child keys agree: for a secret \<open>k\<close> with chain code \<open>c\<close> and a soft index, where \<open>l\<close> and \<open>r\<close> are the halves of the
  authentication code of the compressed public key and the index, the secret derives the secret \<open>l + k\<close> modulo the order with
  chain code \<open>r\<close>, and its public key derives the public key of exactly that secret, without knowing
  any secret. The derivation from the public key is refused for a hard index, and with
  \<^verbatim>\<open>MissingIndex\<close> when \<open>l\<close> is not below the order, where the derivation from the secret reduces it;
  it panics when \<open>l\<close> is zero or the child is the zero secret, where the derived key pair is the error \<^verbatim>\<open>InvalidPoint\<close>.
\<close>

theorem child_keys_agree:
  assumes laws: "key_derivation E gen" and k: "scalar k" "0 < hval k"
    and ix: "label_store L index (replicate (label_len L) 0) = Some ix"
    and h: "hmac_halves E c (pk_serialize (env_secp E) (gen (hval k)) @ ix) = Some (l, r)"
    and s: "s = \<lparr> es_secret = k, es_chain_code = c \<rparr>" and child: "child = \<lparr> es_secret = residue (hval l + hval k), es_chain_code = r \<rparr>"
  shows "\<exists>p. extended_public_from_secret E s = Some (Inr p) \<and>
    extended_secret_derive E L s (Soft index) = Some child \<and>
    extended_public_derive E L p (Hard index) = Some (Inl InvalidHardenedUse) \<and>
    extended_public_derive E L p (Soft index) =
      (if curve_order \<le> hval l then Some (Inl MissingIndex)
       else if hval l = 0 \<or> (hval l + hval k) mod curve_order = 0 then panic
       else extended_public_from_secret E child) \<and>
    ((hval l + hval k) mod curve_order = 0 \<longrightarrow> extended_public_from_secret E child = Some (Inl InvalidPoint))"
proof -
  have g: "gen ((hval l + hval k) mod curve_order) = gen (hval l + hval k)"
    using laws by (simp add: key_derivation_def secp_group_def secp_group_axioms_def)
  have "hval k mod curve_order \<noteq> 0" using k scalar_bound by simp
  note pub = key_derivation.public_spec [OF laws this ix h]
  have sec: "extended_secret_derive E L s (Soft index) = Some child"
    using key_derivation.private_soft_spec [OF laws k ix h]
    by (simp add: s child extended_secret_derive_def derivation_private_def)
  note ps = public_from_secret_spec [OF laws k(1), of c] and pc = public_from_secret_spec [OF laws scalar_residue, of _ r]
  show ?thesis
    unfolding s child using ps pc [of "hval l + hval k"] k(2) sec pub g
    by (auto simp: s child extended_public_derive_def derivation_public_def)
qed

lemma sample_halves: "\<exists>r. hmac_halves exponent_env c data = Some (be_bytes 32 5, r)"
  by (simp add: hmac_halves_def hmac_sign_def sig_key_sha512_def exponent_env_simps sample_mac64_def slice_range_def
      hash_from_slice_same)

theorem child_keys_agree_witness:
  "\<exists>s child p q. s = \<lparr> es_secret = be_bytes 32 6, es_chain_code = replicate 32 1 \<rparr> \<and>
     extended_secret_derive exponent_env u32_label s (Soft 3) = Some child \<and> es_secret child = be_bytes 32 11 \<and>
     extended_public_from_secret exponent_env s = Some (Inr p) \<and> extended_public_from_secret exponent_env child = Some (Inr q) \<and>
     extended_public_derive exponent_env u32_label p (Soft 3) = Some (Inr q)"
proof -
  define data where "data = pk_serialize (env_secp exponent_env) (hval (be_bytes 32 6) mod curve_order) @ be_bytes 4 (unat (3 :: u32))"
  obtain r where h: "hmac_halves exponent_env (replicate 32 1) data = Some (be_bytes 32 5, r)" using sample_halves by blast
  have v: "hval (be_bytes 32 5) = 5" "hval (be_bytes 32 11) = 11" by (rule hval_be_bytes, simp)+
  have n: "\<not> curve_order \<le> 5" "11 mod curve_order = 11" by (simp_all add: curve_order_def)
  have pos: "0 < hval (be_bytes 32 6)" by (simp add: small_scalars)
  note agree = child_keys_agree [OF derived.key_derivation_axioms small_scalars(1) pos u32_label_stored
    h [unfolded data_def] refl refl]
  show ?thesis
    using agree public_from_secret_spec [OF derived.key_derivation_axioms scalar_residue, of 11 r] n
    by (auto simp: v small_scalars)
qed

end
