(* ===== verification/Signatures.thy ===== *)
theory Signatures
  imports Crypto_Prims
begin

text \<open>
  Recoverable signatures (\<^verbatim>\<open>publickey/ecdsa_signature.rs\<close>): the 65 bytes of a signature, their checks and
  notations, signing, verification and recovery of the public key. The recoverable signatures of the
  crate \<^verbatim>\<open>secp256k1\<close> are the record \<open>ecdsa\<close> and the hexadecimal text is the one of \<^verbatim>\<open>rustc-hex\<close>.
\<close>

subsection \<open>Signatures as bytes\<close>

type_synonym signature = bytes

definition sig_r :: "signature \<Rightarrow> bytes may_panic" where
  "sig_r self = slice_range self 0 32"

definition sig_s :: "signature \<Rightarrow> bytes may_panic" where
  "sig_s self = slice_range self 32 64"

definition sig_v :: "signature \<Rightarrow> u8 may_panic" where
  "sig_v self = index_at self 64"

definition sig_default :: signature where
  "sig_default = replicate 65 0"

definition into_electrum :: "signature \<Rightarrow> bytes may_panic" where
  "into_electrum self = do { v \<leftarrow> index_at self 64; v \<leftarrow> padd v 27; Some (self[64 := v]) }"

definition from_electrum :: "bytes \<Rightarrow> signature may_panic" where
  "from_electrum data =
     do {
       bad \<leftarrow> (if length data \<noteq> 65 then Some True else do { v \<leftarrow> index_at data 64; Some (v < 27) });
       if bad then Some sig_default
       else do {
         sig \<leftarrow> copy_from_slice (replicate 65 0) data;
         v \<leftarrow> psub (sig ! 64) 27;
         Some (sig[64 := v]) } }"

definition from_rsv :: "fixed_hash \<Rightarrow> fixed_hash \<Rightarrow> u8 \<Rightarrow> signature may_panic" where
  "from_rsv r s v =
     do {
       let sig = replicate 65 0;
       sig \<leftarrow> write_range sig 0 32 (hash_as_bytes r);
       sig \<leftarrow> write_range sig 32 64 (hash_as_bytes s);
       Some (sig[64 := v]) }"

definition LOW_SIG_THRESHOLD :: fixed_hash where
  "LOW_SIG_THRESHOLD =
     [0x7F, 0xFF, 0xFF, 0xFF, 0xFF, 0xFF, 0xFF, 0xFF, 0xFF, 0xFF, 0xFF, 0xFF, 0xFF, 0xFF, 0xFF, 0xFF, 0x5D, 0x57,
      0x6E, 0x73, 0x57, 0xA4, 0x50, 0x1D, 0xDF, 0xE9, 0x2F, 0x46, 0x68, 0x1B, 0x20, 0xA0]"

definition is_low_s :: "signature \<Rightarrow> bool may_panic" where
  "is_low_s self =
     do { s \<leftarrow> sig_s self; s \<leftarrow> hash_from_slice 32 s; Some (hash_cmp s LOW_SIG_THRESHOLD \<noteq> Greater) }"

definition UPPER_BOUND :: fixed_hash where
  "UPPER_BOUND =
     [0xff, 0xff, 0xff, 0xff, 0xff, 0xff, 0xff, 0xff, 0xff, 0xff, 0xff, 0xff, 0xff, 0xff, 0xff, 0xfe, 0xba, 0xae,
      0xdc, 0xe6, 0xaf, 0x48, 0xa0, 0x3b, 0xbf, 0xd2, 0x5e, 0x8c, 0xd0, 0x36, 0x41, 0x41]"

definition ONE :: fixed_hash where
  "ONE =
     [0x00, 0x00, 0x00, 0x00, 0x00, 0x00, 0x00, 0x00, 0x00, 0x00, 0x00, 0x00, 0x00, 0x00, 0x00, 0x00, 0x00, 0x00,
      0x00, 0x00, 0x00, 0x00, 0x00, 0x00, 0x00, 0x00, 0x00, 0x00, 0x00, 0x00, 0x00, 0x01]"

definition sig_is_valid :: "signature \<Rightarrow> bool may_panic" where
  "sig_is_valid self =
     do {
       r \<leftarrow> sig_r self;
       r \<leftarrow> hash_from_slice 32 r;
       s \<leftarrow> sig_s self;
       s \<leftarrow> hash_from_slice 32 s;
       v \<leftarrow> sig_v self;
       Some (v \<le> 1 \<and> hash_cmp r UPPER_BOUND = Less \<and> hash_cmp r ONE \<noteq> Less \<and>
         hash_cmp s UPPER_BOUND = Less \<and> hash_cmp s ONE \<noteq> Less) }"

definition sig_eq :: "signature \<Rightarrow> signature \<Rightarrow> bool" where
  "sig_eq self other \<longleftrightarrow> self = other"

definition sig_display :: "(bytes \<Rightarrow> bytes) \<Rightarrow> signature \<Rightarrow> bytes" where
  "sig_display to_hex self = to_hex self"

text \<open>The three fields of the \<^verbatim>\<open>Debug\<close> text.\<close>

definition sig_debug :: "(bytes \<Rightarrow> bytes) \<Rightarrow> signature \<Rightarrow> (bytes \<times> bytes \<times> bytes) may_panic" where
  "sig_debug to_hex self =
     do {
       r \<leftarrow> slice_range self 0 32;
       s \<leftarrow> slice_range self 32 64;
       v \<leftarrow> slice_range self 64 65;
       Some (to_hex r, to_hex s, to_hex v) }"

definition sig_from_str :: "(bytes \<Rightarrow> 'e + bytes) \<Rightarrow> bytes \<Rightarrow> (crypto_error + signature) may_panic" where
  "sig_from_str from_hex s =
     (case from_hex s of
        Inr hex \<Rightarrow>
          (if length hex = 65 then
             do { part \<leftarrow> slice_range hex 0 65; data \<leftarrow> copy_from_slice (replicate 65 0) part; Some (Inr data) }
           else Some (Inl InvalidSignature))
      | Inl e \<Rightarrow> Some (Inl InvalidSignature))"

subsection \<open>Signing, verification and recovery\<close>

text \<open>
  The recoverable signatures of the crate: \<^verbatim>\<open>Message::from_slice\<close>, \<^verbatim>\<open>sign_recoverable\<close>, \<^verbatim>\<open>serialize_compact\<close> with
  \<^verbatim>\<open>RecoveryId::to_i32\<close>, \<^verbatim>\<open>RecoveryId::from_i32\<close>, \<^verbatim>\<open>from_compact\<close>, \<^verbatim>\<open>to_standard\<close> followed by \<^verbatim>\<open>verify\<close>, and
  \<^verbatim>\<open>recover\<close>.
\<close>

record ('p, 'r, 'i) ecdsa =
  message_from_slice :: "bytes \<Rightarrow> secp_error + bytes"
  sign_recoverable :: "bytes \<Rightarrow> bytes \<Rightarrow> 'r"
  serialize_compact :: "'r \<Rightarrow> 'i \<times> bytes"
  rec_to_i32 :: "'i \<Rightarrow> int"
  rec_from_i32 :: "int \<Rightarrow> secp_error + 'i"
  from_compact :: "bytes \<Rightarrow> 'i \<Rightarrow> secp_error + 'r"
  verify_standard :: "bytes \<Rightarrow> 'r \<Rightarrow> 'p \<Rightarrow> secp_error + unit"
  recover_key :: "bytes \<Rightarrow> 'r \<Rightarrow> secp_error + 'p"

definition sign :: "'p secp256k1 \<Rightarrow> ('p, 'r, 'i) ecdsa \<Rightarrow> secret \<Rightarrow> fixed_hash \<Rightarrow> (crypto_error + signature) may_panic" where
  "sign S C secret message =
     try_bind (secp_try (sk_from_slice S (hash_as_bytes secret))) (\<lambda>sec.
     try_bind (secp_try (message_from_slice C message)) (\<lambda>msg.
       do {
         let s = sign_recoverable C msg sec;
         let (rec_id, data) = serialize_compact C s;
         let data_arr = replicate 65 0;
         part \<leftarrow> slice_range data 0 64;
         data_arr \<leftarrow> write_range data_arr 0 64 part;
         Some (Inr (data_arr[64 := word_of_int (rec_to_i32 C rec_id)])) }))"

definition parse_signature :: "('p, 'r, 'i) ecdsa \<Rightarrow> signature \<Rightarrow> (crypto_error + 'r) may_panic" where
  "parse_signature C signature =
     do {
       part \<leftarrow> slice_range signature 0 64;
       v \<leftarrow> index_at signature 64;
       try_bind (secp_try (rec_from_i32 C (uint v))) (\<lambda>rec_id. secp_try (from_compact C part rec_id)) }"

definition verify_public ::
  "'p secp256k1 \<Rightarrow> ('p, 'r, 'i) ecdsa \<Rightarrow> public \<Rightarrow> signature \<Rightarrow> fixed_hash \<Rightarrow> (crypto_error + bool) may_panic" where
  "verify_public S C public signature message =
     try_bind (parse_signature C signature) (\<lambda>rsig.
       do {
         let temp = replicate 65 4;
         pdata \<leftarrow> write_range temp 1 65 (hash_as_bytes public);
         try_bind (secp_try (pk_from_slice S pdata)) (\<lambda>publ.
         try_bind (secp_try (message_from_slice C message)) (\<lambda>msg.
           Some (case verify_standard C msg rsig publ of
             Inr _ \<Rightarrow> Inr True
           | Inl SecpIncorrectSignature \<Rightarrow> Inr False
           | Inl x \<Rightarrow> Inl (error_from_secp x)))) })"

definition recover :: "'p secp256k1 \<Rightarrow> ('p, 'r, 'i) ecdsa \<Rightarrow> signature \<Rightarrow> fixed_hash \<Rightarrow> (crypto_error + public) may_panic" where
  "recover S C signature message =
     try_bind (parse_signature C signature) (\<lambda>rsig.
     try_bind (secp_try (message_from_slice C message)) (\<lambda>msg.
     try_bind (secp_try (recover_key C msg rsig)) (\<lambda>pubkey.
       do {
         let serialized = pk_serialize_uncompressed S pubkey;
         part \<leftarrow> slice_range serialized 1 65;
         public \<leftarrow> copy_from_slice (hash_default 64) part;
         Some (Inr public) })))"

definition verify_address ::
  "'p secp256k1 \<Rightarrow> ('p, 'r, 'i) ecdsa \<Rightarrow> (bytes \<Rightarrow> bytes) \<Rightarrow> fixed_hash \<Rightarrow> signature \<Rightarrow> fixed_hash \<Rightarrow> (crypto_error + bool) may_panic" where
  "verify_address S C keccak256 address signature message =
     try_bind (recover S C signature message) (\<lambda>public.
       do { recovered_address \<leftarrow> public_to_address keccak256 public; Some (Inr (address = recovered_address)) })"

subsection \<open>The parts of a signature\<close>

lemma sig_parts:
  assumes "length x = 65"
  shows "sig_r x = Some (take 32 x)" "sig_s x = Some (take 32 (drop 32 x))" "sig_v x = Some (x ! 64)"
  using assms by (simp_all add: sig_r_def sig_s_def sig_v_def panic_simps)

lemma bounds_values:
  "hval LOW_SIG_THRESHOLD = (curve_order - 1) div 2" "hval UPPER_BOUND = curve_order" "hval ONE = 1"
  "length LOW_SIG_THRESHOLD = 32" "length UPPER_BOUND = 32" "length ONE = 32"
  by (simp_all add: LOW_SIG_THRESHOLD_def UPPER_BOUND_def ONE_def hval_def radix_def curve_order_def)

lemma is_low_s_spec: "length x = 65 \<Longrightarrow> is_low_s x = Some (hval (take 32 (drop 32 x)) \<le> (curve_order - 1) div 2)"
  using hash_cmp_spec [of "take 32 (drop 32 x)" LOW_SIG_THRESHOLD]
  by (auto simp: is_low_s_def sig_parts hash_from_slice_same bounds_values cmp_of_def)

lemma is_valid_spec:
  assumes "length x = 65"
  shows "sig_is_valid x = Some (unat (x ! 64) \<le> 1 \<and> 0 < hval (take 32 x) \<and> hval (take 32 x) < curve_order \<and>
    0 < hval (take 32 (drop 32 x)) \<and> hval (take 32 (drop 32 x)) < curve_order)"
  using assms hash_cmp_spec [of "take 32 x"] hash_cmp_spec [of "take 32 (drop 32 x)"]
  by (auto simp: sig_is_valid_def sig_parts hash_from_slice_same bounds_values cmp_of_def word_le_nat_alt)

lemma electrum_spec:
  assumes "length x = 65"
  shows "into_electrum x = (if unat (x ! 64) \<le> 228 then Some (x[64 := of_nat (unat (x ! 64) + 27)]) else panic)"
  using assms by (simp add: into_electrum_def panic_simps padd_def)

lemma from_electrum_spec:
  "from_electrum data = Some (if length data = 65 \<and> 27 \<le> unat (data ! 64) then data[64 := of_nat (unat (data ! 64) - 27)] else sig_default)"
proof (cases "length data = 65 \<and> 27 \<le> unat (data ! 64)")
  case True
  then have "psub (data ! 64) 27 = Some (of_nat (unat (data ! 64) - 27))" by (intro psub_ok [THEN trans]) simp_all
  with True show ?thesis by (simp add: from_electrum_def panic_simps copy_from_slice_def word_less_nat_alt del: of_nat_diff)
qed (auto simp: from_electrum_def panic_simps word_less_nat_alt)

lemma from_rsv_spec: "length r = 32 \<Longrightarrow> length s = 32 \<Longrightarrow> from_rsv r s v = Some (r @ s @ [v])"
  by (simp add: from_rsv_def write_range_ok hash_as_bytes_def list_update_append)

subsection \<open>Signatures over the contract of the crate\<close>

text \<open>
  What the documentation of the crate says: a message is 32 bytes, a recovery id is a number from zero
  to three, the compact form of a signature is 64 bytes and is parsed back, a signature verifies
  under the public key of its secret, which is recovered from it, and its two numbers are in range with
  the second in the lower half.
\<close>

locale recoverable_signatures = secp_group S gen for S :: "'p secp256k1" and gen :: "nat \<Rightarrow> 'p" +
  fixes C :: "('p, 'r, 'i) ecdsa"
  assumes message: "message_from_slice C m = (if length m = 32 then Inr m else Inl SecpInvalidMessage)"
    and rec_id: "rec_from_i32 C (rec_to_i32 C d) = Inr d"
    and rec_range: "0 \<le> rec_to_i32 C d \<and> rec_to_i32 C d \<le> 3" "3 < i \<Longrightarrow> rec_from_i32 C i = Inl SecpOther"
    and compact: "serialize_compact C x = (d, bs) \<Longrightarrow> length bs = 64 \<and> from_compact C bs d = Inr x"
    and numbers: "scalar k \<Longrightarrow> 0 < hval k \<Longrightarrow> serialize_compact C (sign_recoverable C m k) = (d, bs) \<Longrightarrow> 0 < hval (take 32 bs) \<and> hval (take 32 bs) < curve_order \<and>
      0 < hval (drop 32 bs) \<and> hval (drop 32 bs) \<le> (curve_order - 1) div 2"
    and verify_signed: "scalar k \<Longrightarrow> 0 < hval k \<Longrightarrow> length m = 32 \<Longrightarrow> verify_standard C m (sign_recoverable C m k) (gen (hval k)) = Inr ()"
    and recover_signed: "scalar k \<Longrightarrow> 0 < hval k \<Longrightarrow> length m = 32 \<Longrightarrow> recover_key C m (sign_recoverable C m k) = Inr (gen (hval k))"
begin

lemma sign_spec:
  assumes "length k = 32" and "length m = 32" and "serialize_compact C (sign_recoverable C m k) = (d, bs)"
  shows "sign S C k m = Some (if scalar k \<and> 0 < hval k then Inr (bs @ [word_of_int (rec_to_i32 C d)]) else Inl InvalidSecretKey)"
  using assms compact [OF assms(3)]
  by (simp add: sign_def from_slice hash_as_bytes_def message slice_range_def write_range_ok scalar_def list_update_append)

lemma parse_signed:
  assumes "serialize_compact C x = (d, bs)"
  shows "parse_signature C (bs @ [word_of_int (rec_to_i32 C d)]) = Some (Inr x)"
proof -
  have l: "length bs = 64" "from_compact C bs d = Inr x" using compact [OF assms] by simp_all
  have "uint (word_of_int (rec_to_i32 C d) :: u8) = rec_to_i32 C d"
    using rec_range(1) [of d] by (simp add: uint_word_of_int)
  then show ?thesis using l by (simp add: parse_signature_def slice_range_def index_at_def nth_append rec_id)
qed

lemma parse_bad_id: "length x = 65 \<Longrightarrow> 3 < unat (x ! 64) \<Longrightarrow> parse_signature C x = Some (Inl InvalidSignature)"
proof -
  assume x: "length x = 65" "3 < unat (x ! 64)"
  then have "3 < uint (x ! 64)" by (metis uint_nat of_nat_less_iff of_nat_numeral)
  then show ?thesis using x(1) rec_range(2) by (simp add: parse_signature_def slice_range_def index_at_def)
qed

lemma verify_public_signed:
  assumes "scalar k" "0 < hval k" "length m = 32" and "parse_signature C x = Some (Inr (sign_recoverable C m k))"
  shows "verify_public S C (point_bytes S (gen (hval k))) x m = Some (Inr True)"
proof -
  have "hval k mod curve_order \<noteq> 0" using assms(2) scalar_bound [OF assms(1)] by simp
  then have "pk_from_slice S (take 1 (replicate 65 4) @ point_bytes S (gen (hval k))) = Inr (gen (hval k))"
    unfolding tagged_key by (rule parse_serialized)
  then show ?thesis
    using assms verify_signed [OF assms(1-3)] by (simp add: verify_public_def write_range_ok hash_as_bytes_def message)
qed

lemma recover_signed_key:
  assumes "scalar k" "0 < hval k" "length m = 32" and "parse_signature C x = Some (Inr (sign_recoverable C m k))"
  shows "recover S C x m = Some (Inr (point_bytes S (gen (hval k))))"
  using assms recover_signed [OF assms(1-3)] length_serialized(1) [of "gen (hval k)"]
  by (simp add: recover_def message slice_range_def copy_from_slice_def point_bytes_def hash_default_def hash_zero_def
      hash_repeat_byte_def)

end

text \<open>Signatures that keep the promises over the group by its exponents: two numbers and a recovery id.\<close>

definition exponent_ecdsa :: "(nat, 2 word \<times> 256 word \<times> 256 word, 2 word) ecdsa" where
  "exponent_ecdsa =
     \<lparr> message_from_slice = \<lambda>m. if length m = 32 then Inr m else Inl SecpInvalidMessage,
       sign_recoverable = \<lambda>m k. (0, of_nat (hval k), 1),
       serialize_compact = \<lambda>(d, r, s). (d, be_bytes 32 (unat r) @ be_bytes 32 (unat s)),
       rec_to_i32 = uint,
       rec_from_i32 = \<lambda>i. if 0 \<le> i \<and> i \<le> 3 then Inr (word_of_int i) else Inl SecpOther,
       from_compact = \<lambda>bs d. Inr (d, of_nat (hval (take 32 bs)), of_nat (hval (drop 32 bs))),
       verify_standard = \<lambda>m (d, r, s) P. if unat r mod curve_order = P then Inr () else Inl SecpIncorrectSignature,
       recover_key = \<lambda>m (d, r, s). Inr (unat r mod curve_order) \<rparr>"

lemma hval_word256: "hval (be_bytes 32 (unat (w :: 256 word))) = unat w"
  using unat_lt_radix [of w] by (intro hval_be_bytes) (simp add: radix_def)

lemma scalar_word256: "scalar k \<Longrightarrow> unat (of_nat (hval k) :: 256 word) = hval k"
  using scalar_bound [of k] curve_order_bounds(2) by (intro unat_of_nat_lt) (simp add: radix_def)

lemma recovery_id_range: "0 \<le> uint (d :: 2 word) \<and> uint d \<le> 3"
  using uint_lt2p [of d] by simp

interpretation signatures: recoverable_signatures exponent_secp "\<lambda>i. i mod curve_order" exponent_ecdsa
proof
  fix k m d bs
  assume "scalar k" "0 < hval k" "serialize_compact exponent_ecdsa (sign_recoverable exponent_ecdsa m k) = (d, bs)"
  moreover have "1 \<le> (curve_order - 1) div 2" by (simp add: curve_order_def)
  moreover have "hval (be_bytes 32 (Suc 0)) = 1" using hval_be_bytes [of 1 32] by simp
  ultimately show "0 < hval (take 32 bs) \<and> hval (take 32 bs) < curve_order \<and> 0 < hval (drop 32 bs) \<and> hval (drop 32 bs) \<le> (curve_order - 1) div 2"
    using scalar_bound [of k] scalar_length [of k] by (auto simp: exponent_ecdsa_def scalar_word256 residue_scalar)
qed (auto simp: exponent_ecdsa_def hval_word256 scalar_word256 recovery_id_range)

subsection \<open>Properties\<close>

text \<open>
  C31. What is signed verifies and its key is recovered: for the key pair of a secret and a message of 32
  bytes, \<^verbatim>\<open>sign\<close> returns a signature of 65 bytes with numbers in range and a low \<^verbatim>\<open>s\<close>, \<^verbatim>\<open>recover\<close>
  returns the public key of the pair, \<^verbatim>\<open>verify_public\<close> accepts it and \<^verbatim>\<open>verify_address\<close> accepts exactly
  the address of the pair; a recovery byte above three is an error everywhere, and a secret that is zero or not below
  the order is not used for signing.
\<close>

theorem sign_verify_recover:
  assumes laws: "recoverable_signatures S gen C" and m: "length m = 32" and k: "length k = 32"
    and x: "length x = 65" "3 < unat (x ! 64)" and addr: "public_to_address keccak256 (point_bytes S (gen (hval k))) = Some a"
  shows "(if scalar k \<and> 0 < hval k
      then \<exists>kp sig. key_pair_from_secret S k = Some (Inr kp) \<and> sign S C k m = Some (Inr sig) \<and> length sig = 65 \<and>
        is_low_s sig = Some True \<and> (unat (sig ! 64) \<le> 1 \<longrightarrow> sig_is_valid sig = Some True) \<and>
        recover S C sig m = Some (Inr (kp_public kp)) \<and> verify_public S C (kp_public kp) sig m = Some (Inr True) \<and>
        key_pair_address keccak256 kp = Some a \<and> verify_address S C keccak256 b sig m = Some (Inr (b = a))
      else sign S C k m = Some (Inl InvalidSecretKey)) \<and>
    recover S C x m = Some (Inl InvalidSignature) \<and> verify_public S C p x m = Some (Inl InvalidSignature)"
proof -
  have group: "secp_group S gen" using laws by (rule recoverable_signatures.axioms)
  obtain d bs where c: "serialize_compact C (sign_recoverable C m k) = (d, bs)" by force
  define sig where "sig = bs @ [word_of_int (rec_to_i32 C d)]"
  have l: "length bs = 64" using recoverable_signatures.compact [OF laws c] by simp
  note signed = recoverable_signatures.sign_spec [OF laws k m c, folded sig_def]
    and parsed = recoverable_signatures.parse_signed [OF laws c, folded sig_def]
  have "?thesis" if ok: "scalar k" "0 < hval k"
  proof -
    have n: "take 32 sig = take 32 bs" "take 32 (drop 32 sig) = drop 32 bs" "length sig = 65" using l by (simp_all add: sig_def)
    have half: "(curve_order - 1) div 2 < curve_order" using curve_order_bounds(3) by simp
    note nums = recoverable_signatures.numbers [OF laws ok c]
    then have "is_low_s sig = Some True" "unat (sig ! 64) \<le> 1 \<longrightarrow> sig_is_valid sig = Some True"
      using half by (auto simp: is_low_s_spec is_valid_spec n)
    then show ?thesis
      using ok n signed secp_group.key_pair_spec [OF group ok] addr recoverable_signatures.recover_signed_key [OF laws ok m parsed]
        recoverable_signatures.verify_public_signed [OF laws ok m parsed] recoverable_signatures.parse_bad_id [OF laws x]
      by (auto simp: key_pair_address_def verify_address_def recover_def verify_public_def)
  qed
  then show ?thesis
    using signed recoverable_signatures.parse_bad_id [OF laws x] by (auto simp: recover_def verify_public_def)
qed

theorem sign_verify_recover_witness:
  "\<exists>kp sig a. key_pair_from_secret exponent_secp (be_bytes 32 6) = Some (Inr kp) \<and>
     sign exponent_secp exponent_ecdsa (be_bytes 32 6) (replicate 32 0) = Some (Inr sig) \<and>
     recover exponent_secp exponent_ecdsa sig (replicate 32 0) = Some (Inr (kp_public kp)) \<and>
     verify_public exponent_secp exponent_ecdsa (kp_public kp) sig (replicate 32 0) = Some (Inr True) \<and>
     verify_address exponent_secp exponent_ecdsa (take 32) a sig (replicate 32 0) = Some (Inr True)"
proof -
  have "\<exists>a. public_to_address (take 32) (point_bytes exponent_secp (hval (be_bytes 32 6) mod curve_order)) = Some a"
    by (simp add: public_to_address_def slice_range_def copy_from_slice_def hash_zero_def hash_repeat_byte_def)
  then obtain a where a: "public_to_address (take 32) (point_bytes exponent_secp (hval (be_bytes 32 6) mod curve_order)) = Some a" ..
  have pre: "length (replicate 32 (0 :: u8)) = 32" "length (be_bytes 32 6) = 32" "length (replicate 65 (9 :: u8)) = 65"
    "3 < unat (replicate 65 (9 :: u8) ! 64)"
    by simp_all
  note w = sign_verify_recover [OF signatures.recoverable_signatures_axioms pre a, of a "[]"]
  have "scalar (be_bytes 32 6) \<and> 0 < hval (be_bytes 32 6)" by (simp add: small_scalars)
  then show ?thesis using w by auto
qed

text \<open>
  The notations of a signature: the Electrum form of a signature with recovery byte up to 228 is parsed back to the
  signature (above, adding 27 overflows); data of another length or with a byte below 27 there is the
  default signature, which is not valid; the triple of a signature rebuilds it; for
  texts as \<^verbatim>\<open>rustc-hex\<close> writes and reads them, the displayed text is parsed back and any text of another number of bytes is an error; \<^verbatim>\<open>is_valid\<close>
  is that both numbers are positive and below the order of the curve and the recovery byte is zero or one, and
  \<^verbatim>\<open>is_low_s\<close> that the second is at most half the order.
\<close>

theorem signature_notations:
  assumes x: "length x = 65" and hex: "\<And>bs. from_hex (to_hex bs) = Inr bs"
  shows "(if unat (x ! 64) \<le> 228 then \<exists>e. into_electrum x = Some e \<and> length e = 65 \<and> from_electrum e = Some x
      else into_electrum x = panic) \<and>
    (length data \<noteq> 65 \<or> unat (data ! 64) < 27 \<longrightarrow> from_electrum data = Some sig_default) \<and>
    (\<exists>r s v. sig_r x = Some r \<and> sig_s x = Some s \<and> sig_v x = Some v \<and> from_rsv r s v = Some x \<and>
      sig_is_valid x = Some (unat v \<le> 1 \<and> 0 < hval r \<and> hval r < curve_order \<and> 0 < hval s \<and> hval s < curve_order) \<and>
      is_low_s x = Some (hval s \<le> (curve_order - 1) div 2)) \<and>
    sig_from_str from_hex (sig_display to_hex x) = Some (Inr x) \<and>
    (length bs \<noteq> 65 \<longrightarrow> sig_from_str from_hex (to_hex bs) = Some (Inl InvalidSignature)) \<and>
    sig_is_valid sig_default = Some False"
proof -
  have "x = take 32 x @ take 32 (drop 32 x) @ [x ! 64]"
    using x id_take_nth_drop [of 64 x] take_add [of 32 32 x] by simp
  then have "from_rsv (take 32 x) (take 32 (drop 32 x)) (x ! 64) = Some x"
    using x by (simp add: from_rsv_spec)
  moreover have "unat (of_nat (unat (x ! 64) + 27) :: u8) = unat (x ! 64) + 27" if "unat (x ! 64) \<le> 228"
    using that by (intro unat_of_nat_lt) (simp add: radix_def)
  then have "from_electrum (x[64 := of_nat (unat (x ! 64) + 27)]) = Some x" if "unat (x ! 64) \<le> 228"
    using that x by (simp add: from_electrum_spec del: of_nat_add)
  moreover have "sig_from_str from_hex (sig_display to_hex x) = Some (Inr x)"
    "length bs \<noteq> 65 \<Longrightarrow> sig_from_str from_hex (to_hex bs) = Some (Inl InvalidSignature)"
    using x by (simp_all add: sig_from_str_def sig_display_def hex slice_range_def copy_from_slice_def)
  moreover have "sig_is_valid sig_default = Some False"
    by (simp add: is_valid_spec sig_default_def hval_def)
  ultimately show ?thesis
    using x by (simp add: electrum_spec sig_parts is_valid_spec is_low_s_spec from_electrum_spec del: of_nat_add)
qed

theorem signature_notations_witness:
  "\<exists>e. into_electrum (replicate 65 1) = Some e \<and> from_electrum e = Some (replicate 65 1)"
  using signature_notations [of "replicate 65 1" Inr id] by auto

text \<open>
  Two comments say more than the code checks: \<^verbatim>\<open>is_low_s\<close> holds of a zero \<^verbatim>\<open>s\<close>, which is below the documented range,
  and \<^verbatim>\<open>is_valid\<close> rejects the order itself, which the documented range includes.
\<close>

theorem documented_ranges_differ:
  "is_low_s (replicate 65 0) = Some True" "sig_is_valid (UPPER_BOUND @ ONE @ [0]) = Some False"
  by (simp add: is_low_s_spec hval_def) (simp add: is_valid_spec bounds_values)

end
