(* ===== verification/Kvdb.thy ===== *)
theory Kvdb
  imports Btree_Map
begin

text \<open>
  The key-value stores: the crate \<^verbatim>\<open>kvdb\<close> (write transactions, the trait \<^verbatim>\<open>KeyValueDB\<close>, \<^verbatim>\<open>end_prefix\<close>)
  and the in-memory database of \<^verbatim>\<open>kvdb-memorydb\<close>. The trait is the locale \<open>key_value_db\<close>; the lock of
  \<^verbatim>\<open>InMemory\<close> is held for the whole of every operation, so an operation is one step on the columns.
\<close>

subsection \<open>Write transactions\<close>

type_synonym db_value = bytes
type_synonym db_key = bytes

datatype db_op =
    Insert u32 db_key db_value
  | Delete u32 db_key
  | DeletePrefix u32 db_key

record db_transaction =
  ops :: "db_op list"

fun db_op_key :: "db_op \<Rightarrow> bytes" where
  "db_op_key (Insert col key val) = key"
| "db_op_key (Delete col key) = key"
| "db_op_key (DeletePrefix col p) = p"

fun db_op_col :: "db_op \<Rightarrow> u32" where
  "db_op_col (Insert col key val) = col"
| "db_op_col (Delete col key) = col"
| "db_op_col (DeletePrefix col p) = col"

definition with_capacity :: "nat \<Rightarrow> db_transaction" where
  "with_capacity cap = \<lparr> ops = [] \<rparr>"

definition db_transaction_new :: db_transaction where
  "db_transaction_new = with_capacity 256"

definition put :: "u32 \<Rightarrow> bytes \<Rightarrow> bytes \<Rightarrow> db_transaction \<Rightarrow> db_transaction" where
  "put col key val tr = tr\<lparr> ops := ops tr @ [Insert col key val] \<rparr>"

definition put_vec :: "u32 \<Rightarrow> bytes \<Rightarrow> bytes \<Rightarrow> db_transaction \<Rightarrow> db_transaction" where
  "put_vec col key val tr = tr\<lparr> ops := ops tr @ [Insert col key val] \<rparr>"

definition delete :: "u32 \<Rightarrow> bytes \<Rightarrow> db_transaction \<Rightarrow> db_transaction" where
  "delete col key tr = tr\<lparr> ops := ops tr @ [Delete col key] \<rparr>"

definition delete_prefix :: "u32 \<Rightarrow> bytes \<Rightarrow> db_transaction \<Rightarrow> db_transaction" where
  "delete_prefix col p tr = tr\<lparr> ops := ops tr @ [DeletePrefix col p] \<rparr>"

subsection \<open>The end of the keys with a prefix\<close>

function pop_max :: "bytes \<Rightarrow> bytes" where
  "pop_max end_range =
     (if end_range \<noteq> [] \<and> last end_range = 0xff then pop_max (butlast end_range) else end_range)"
  by pat_completeness auto

termination
  by (relation "measure length") auto

declare pop_max.simps [simp del]

definition end_prefix :: "bytes \<Rightarrow> bytes option may_panic" where
  "end_prefix p =
     (let end_range = pop_max p in
      if end_range \<noteq> [] then
        do { byte \<leftarrow> padd (last end_range) 1; Some (Some (butlast end_range @ [byte])) }
      else Some None)"

subsection \<open>The trait and its default methods\<close>

text \<open>The errors are \<^verbatim>\<open>io::Error\<close>s of the kind \<^verbatim>\<open>Other\<close>; the constructor stands for the message.\<close>

datatype io_error = NoSuchColumnFamily u32 | RestoreInMemory

definition has_key :: "('db \<Rightarrow> u32 \<Rightarrow> bytes \<Rightarrow> 'e + db_value option) \<Rightarrow> 'db \<Rightarrow> u32 \<Rightarrow> bytes \<Rightarrow> 'e + bool" where
  "has_key get db col key = (case get db col key of Inl e \<Rightarrow> Inl e | Inr opt \<Rightarrow> Inr (opt \<noteq> None))"

definition has_prefix :: "('db \<Rightarrow> u32 \<Rightarrow> bytes \<Rightarrow> bytes option) \<Rightarrow> 'db \<Rightarrow> u32 \<Rightarrow> bytes \<Rightarrow> bool" where
  "has_prefix get_by_prefix db col p \<longleftrightarrow> get_by_prefix db col p \<noteq> None"

subsection \<open>The in-memory database\<close>

record in_memory =
  columns :: "u32 \<rightharpoonup> (bytes, db_value) btree"

definition create :: "u32 \<Rightarrow> in_memory" where
  "create num_cols =
     \<lparr> columns = fold (\<lambda>idx cols. cols(of_nat idx \<mapsto> [])) [0..<unat num_cols] Map.empty \<rparr>"

definition get :: "in_memory \<Rightarrow> u32 \<Rightarrow> bytes \<Rightarrow> io_error + db_value option" where
  "get db col key =
     (case columns db col of None \<Rightarrow> Inl (NoSuchColumnFamily col) | Some m \<Rightarrow> Inr (btree_get m key))"

definition get_by_prefix :: "in_memory \<Rightarrow> u32 \<Rightarrow> bytes \<Rightarrow> bytes option" where
  "get_by_prefix db col p =
     (case columns db col of
        None \<Rightarrow> None
      | Some m \<Rightarrow> map_option snd (find (\<lambda>(k, _). prefix p k) m))"

definition delete_prefix_keys :: "bytes \<Rightarrow> (bytes, db_value) btree \<Rightarrow> (bytes, db_value) btree may_panic" where
  "delete_prefix_keys p col =
     (if p = [] then Some []
      else do {
        end_range \<leftarrow> end_prefix p;
        let keys = map fst (btree_range p end_range col);
        Some (fold btree_remove keys col) })"

definition write_op :: "db_op \<Rightarrow> in_memory \<Rightarrow> in_memory may_panic" where
  "write_op oper db =
     (case oper of
        Insert col key val \<Rightarrow>
          (case columns db col of
             None \<Rightarrow> Some db
           | Some m \<Rightarrow> Some (db\<lparr> columns := (columns db)(col \<mapsto> btree_insert key val m) \<rparr>))
      | Delete col key \<Rightarrow>
          (case columns db col of
             None \<Rightarrow> Some db
           | Some m \<Rightarrow> Some (db\<lparr> columns := (columns db)(col \<mapsto> btree_remove key m) \<rparr>))
      | DeletePrefix col p \<Rightarrow>
          (case columns db col of
             None \<Rightarrow> Some db
           | Some m \<Rightarrow>
               do { m' \<leftarrow> delete_prefix_keys p m; Some (db\<lparr> columns := (columns db)(col \<mapsto> m') \<rparr>) }))"

fun write_ops :: "db_op list \<Rightarrow> in_memory \<Rightarrow> in_memory may_panic" where
  "write_ops [] db = Some db"
| "write_ops (oper # opers) db = do { db' \<leftarrow> write_op oper db; write_ops opers db' }"

definition write_db :: "in_memory \<Rightarrow> db_transaction \<Rightarrow> ((io_error + unit) \<times> in_memory) may_panic" where
  "write_db db tr = do { db' \<leftarrow> write_ops (ops tr) db; Some (Inr (), db') }"

definition iter :: "in_memory \<Rightarrow> u32 \<Rightarrow> (bytes \<times> bytes) list" where
  "iter db col = (case columns db col of Some m \<Rightarrow> m | None \<Rightarrow> [])"

definition iter_with_prefix :: "in_memory \<Rightarrow> u32 \<Rightarrow> bytes \<Rightarrow> (bytes \<times> bytes) list" where
  "iter_with_prefix db col p =
     (case columns db col of Some m \<Rightarrow> filter (\<lambda>(k, _). prefix p k) m | None \<Rightarrow> [])"

definition restore :: "in_memory \<Rightarrow> string \<Rightarrow> io_error + unit" where
  "restore db new_db = Inl RestoreInMemory"

subsection \<open>The keys with a prefix are a range\<close>

lemma byte_le_max: "(b :: u8) \<le> 0xff"
  using unat_lt_radix [of b] by (simp add: word_le_nat_alt radix_def)

lemma byte_less_max: "(b :: u8) < 0xff \<longleftrightarrow> b \<noteq> 0xff"
  using byte_le_max [of b] by auto

lemma pop_max_snoc: "pop_max (p @ [b]) = (if b = 0xff then pop_max p else p @ [b])"
  by (simp add: pop_max.simps [of "p @ [b]"])

lemma prefix_append_max:
  "prefix (p @ [0xff]) k \<longleftrightarrow> prefix p k \<and> p @ [0xff] \<le> (k :: bytes)"
proof
  assume "prefix (p @ [0xff]) k"
  then show "prefix p k \<and> p @ [0xff] \<le> k"
    by (simp only: prefix_le append_prefixD [of p] simp_thms)
next
  assume k: "prefix p k \<and> p @ [0xff] \<le> k"
  then obtain s where s: "k = p @ s" by (auto simp: prefix_def)
  have "\<not> s < [0xff]" using k s append_less [of p s "[0xff]"] by auto
  then show "prefix (p @ [0xff]) k" using s byte_less_max by (cases s) auto
qed

lemma prefix_range_snoc:
  assumes "b \<noteq> 0xff"
  shows "prefix (p @ [b]) k \<longleftrightarrow> p @ [b] \<le> k \<and> k < p @ [b + (1 :: u8)]"
proof -
  have "unat b < 255" using assms byte_less_max [of b] by (simp add: word_less_nat_alt)
  then have next_byte: "c < b + 1 \<longleftrightarrow> c \<le> b" for c :: u8
    by (simp add: word_less_nat_alt word_le_nat_alt unat_add_radix radix_def less_Suc_eq_le)
  have "p @ [b] \<le> k \<and> k < p @ [b + 1] \<Longrightarrow> prefix p k"
  proof (induction p arbitrary: k)
    case (Cons a p)
    then show ?case by (cases k) auto
  qed simp
  moreover have "prefix (p @ [b]) k \<Longrightarrow> prefix p k" by (rule append_prefixD)
  moreover have ?thesis if "k = p @ s" for s
  proof -
    have "p @ [b] \<le> k \<longleftrightarrow> [b] \<le> s" "k < p @ [b + 1] \<longleftrightarrow> s < [b + 1]"
      using append_less [of p] that by (simp_all only: not_less [symmetric])
    moreover have "prefix (p @ [b]) k \<longleftrightarrow> prefix [b] s" using that by simp
    ultimately show ?thesis by (cases s) (auto simp: next_byte)
  qed
  ultimately show ?thesis unfolding prefix_def by blast
qed

lemma end_prefix_range:
  "\<exists>e. end_prefix p = Some e \<and>
     (\<forall>k. prefix p k \<longleftrightarrow> p \<le> k \<and> (case e of None \<Rightarrow> True | Some b \<Rightarrow> k < b))"
proof (induction p rule: rev_induct)
  case Nil
  show ?case by (simp add: end_prefix_def pop_max.simps)
next
  case (snoc b p)
  show ?case
  proof (cases "b = 0xff")
    case True
    then have "end_prefix (p @ [b]) = end_prefix p" by (simp add: end_prefix_def pop_max_snoc)
    moreover have "p \<le> k" if "p @ [b] \<le> k" for k
      using that by (rule order_trans [OF prefix_le [OF prefixI [OF refl]]])
    ultimately show ?thesis using snoc.IH prefix_append_max [of p] True by (auto split: option.splits)
  next
    case False
    have "unat b + 1 < 256" using False byte_less_max [of b] by (simp add: word_less_nat_alt)
    then have "end_prefix (p @ [b]) = Some (Some (p @ [b + 1]))"
      using False by (simp add: end_prefix_def pop_max_snoc padd_def)
    then show ?thesis using prefix_range_snoc [OF False] by simp
  qed
qed

lemma fold_btree_remove: "fold btree_remove ks m = filter (\<lambda>(l, _). l \<notin> set ks) m"
  by (induction ks arbitrary: m) (auto simp: btree_remove_def split_def intro: filter_cong)

lemma delete_prefix_keys_spec: "delete_prefix_keys p m = Some (filter (\<lambda>(l, _). \<not> prefix p l) m)"
proof (cases "p = []")
  case False
  obtain e where e: "end_prefix p = Some e"
    "\<And>k. prefix p k \<longleftrightarrow> p \<le> k \<and> (case e of None \<Rightarrow> True | Some b \<Rightarrow> k < b)"
    using end_prefix_range [of p] by blast
  have "btree_range p e m = filter (\<lambda>(l, _). prefix p l) m"
    unfolding btree_range_def e(2) ..
  then show ?thesis using False e(1)
    by (force simp: delete_prefix_keys_def fold_btree_remove image_iff intro!: filter_cong)
qed (simp add: delete_prefix_keys_def)

subsection \<open>What a store promises\<close>

text \<open>
  A store is one map per column. A write applies the operations of a transaction in order; an
  operation on a column that does not exist does nothing.
\<close>

type_synonym store = "u32 \<rightharpoonup> (bytes \<rightharpoonup> bytes)"

fun col_op :: "db_op \<Rightarrow> (bytes \<rightharpoonup> bytes) \<Rightarrow> (bytes \<rightharpoonup> bytes)" where
  "col_op (Insert col key val) m = m(key \<mapsto> val)"
| "col_op (Delete col key) m = m(key := None)"
| "col_op (DeletePrefix col p) m = (\<lambda>k. if prefix p k then None else m k)"

definition store_op :: "db_op \<Rightarrow> store \<Rightarrow> store" where
  "store_op oper s = s(db_op_col oper := map_option (col_op oper) (s (db_op_col oper)))"

definition store_write :: "db_op list \<Rightarrow> store \<Rightarrow> store" where
  "store_write opers = fold store_op opers"

text \<open>What an operation, and a sequence of them, does to one key: \<^term>\<open>None\<close> is "nothing".\<close>

fun op_effect :: "u32 \<Rightarrow> bytes \<Rightarrow> db_op \<Rightarrow> bytes option option" where
  "op_effect c k (Insert col key val) = (if col = c \<and> key = k then Some (Some val) else None)"
| "op_effect c k (Delete col key) = (if col = c \<and> key = k then Some None else None)"
| "op_effect c k (DeletePrefix col p) = (if col = c \<and> prefix p k then Some None else None)"

definition last_effect :: "u32 \<Rightarrow> bytes \<Rightarrow> db_op list \<Rightarrow> bytes option option" where
  "last_effect c k opers = fold (\<lambda>oper e. case op_effect c k oper of None \<Rightarrow> e | Some v \<Rightarrow> Some v) opers None"

lemma last_effect_snoc:
  "last_effect c k (opers @ [oper]) =
     (case op_effect c k oper of None \<Rightarrow> last_effect c k opers | Some v \<Rightarrow> Some v)"
  unfolding last_effect_def by simp

lemma store_write_snoc: "store_write (opers @ [oper]) s = store_op oper (store_write opers s)"
  by (simp add: store_write_def)

lemma store_op_at:
  "store_op oper s c = map_option (\<lambda>m k. case op_effect c k oper of None \<Rightarrow> m k | Some v \<Rightarrow> v) (s c)"
  by (cases oper; cases "s c") (auto simp: store_op_def fun_eq_iff)

lemma store_write_at:
  "store_write opers s c = map_option (\<lambda>m k. case last_effect c k opers of None \<Rightarrow> m k | Some v \<Rightarrow> v) (s c)"
proof (induction opers rule: rev_induct)
  case Nil
  show ?case by (simp add: store_write_def last_effect_def option.map_ident)
next
  case (snoc oper opers)
  then show ?case
    by (cases "s c") (auto simp: store_write_snoc last_effect_snoc store_op_at fun_eq_iff split: option.splits)
qed

lemma store_write_append: "store_write (xs @ ys) s = store_write ys (store_write xs s)"
  by (simp add: store_write_def)

locale key_value_db =
  fixes get :: "'db \<Rightarrow> u32 \<Rightarrow> bytes \<Rightarrow> 'e + bytes option"
    and get_by_prefix :: "'db \<Rightarrow> u32 \<Rightarrow> bytes \<Rightarrow> bytes option"
    and write_tr :: "'db \<Rightarrow> db_transaction \<Rightarrow> (('e + unit) \<times> 'db) may_panic"
    and iter :: "'db \<Rightarrow> u32 \<Rightarrow> (bytes \<times> bytes) list"
    and iter_with_prefix :: "'db \<Rightarrow> u32 \<Rightarrow> bytes \<Rightarrow> (bytes \<times> bytes) list"
    and contents :: "'db \<Rightarrow> store"
    and invar :: "'db \<Rightarrow> bool"
  assumes get_some: "invar db \<Longrightarrow> contents db c = Some m \<Longrightarrow> get db c k = Inr (m k)"
    and get_none: "invar db \<Longrightarrow> contents db c = None \<Longrightarrow> \<exists>e. get db c k = Inl e"
    and write_law: "invar db \<Longrightarrow> \<exists>db'. write_tr db tr = Some (Inr (), db') \<and> invar db' \<and>
      contents db' = store_write (ops tr) (contents db)"
    and iter_law: "invar db \<Longrightarrow> contents db c = Some m \<Longrightarrow> distinct (map fst (iter db c)) \<and> map_of (iter db c) = m"
    and iter_prefix_law: "invar db \<Longrightarrow> contents db c = Some m \<Longrightarrow>
      iter_with_prefix db c p = filter (\<lambda>(k, _). prefix p k) (iter db c)"
    and get_by_prefix_law: "invar db \<Longrightarrow> contents db c = Some m \<Longrightarrow>
      get_by_prefix db c p = (case iter_with_prefix db c p of [] \<Rightarrow> None | (k, v) # _ \<Rightarrow> Some v)"
begin

lemma read_after_write:
  assumes "invar db" "contents db c = Some m" "write_tr db tr = Some (r, db')"
  shows "get db' c k = Inr (case last_effect c k (ops tr) of None \<Rightarrow> m k | Some v \<Rightarrow> v)"
proof -
  have "invar db'" "contents db' = store_write (ops tr) (contents db)"
    using write_law [OF assms(1), of tr] assms(3) by auto
  then show ?thesis using assms(2) by (intro get_some) (simp_all add: store_write_at)
qed

lemma has_key_spec:
  "invar db \<Longrightarrow> contents db c = Some m \<Longrightarrow> has_key get db c k = Inr (k \<in> dom m)"
  by (auto simp: has_key_def get_some)

lemma has_prefix_spec:
  assumes "invar db" "contents db c = Some m"
  shows "has_prefix get_by_prefix db c p \<longleftrightarrow> (\<exists>k \<in> dom m. prefix p k)"
proof -
  have "has_prefix get_by_prefix db c p \<longleftrightarrow> filter (\<lambda>(k, _). prefix p k) (iter db c) \<noteq> []"
    unfolding has_prefix_def get_by_prefix_law [OF assms] iter_prefix_law [OF assms] by (auto split: list.splits)
  also have "\<dots> \<longleftrightarrow> (\<exists>k \<in> dom m. prefix p k)"
    using iter_law [OF assms] by (auto simp: filter_empty_conv dom_map_of_conv_image_fst)
  finally show ?thesis .
qed

lemma write_batch:
  assumes "invar db" "write_tr db \<lparr> ops = xs \<rparr> = Some (r, db1)" "write_tr db1 \<lparr> ops = ys \<rparr> = Some (r', db2)"
  shows "\<exists>db3. write_tr db \<lparr> ops = xs @ ys \<rparr> = Some (Inr (), db3) \<and> contents db3 = contents db2"
proof -
  have 1: "invar db1" "contents db1 = store_write xs (contents db)"
    using write_law [OF assms(1), of "\<lparr> ops = xs \<rparr>"] assms(2) by auto
  then have "contents db2 = store_write ys (contents db1)"
    using write_law [OF 1(1), of "\<lparr> ops = ys \<rparr>"] assms(3) by auto
  then show ?thesis
    using write_law [OF assms(1), of "\<lparr> ops = xs @ ys \<rparr>"] 1(2) by (auto simp: store_write_append)
qed

end

subsection \<open>The in-memory database is a store\<close>

definition db_contents :: "in_memory \<Rightarrow> store" where
  "db_contents db c = map_option btree_get (columns db c)"

definition db_wf :: "in_memory \<Rightarrow> bool" where
  "db_wf db \<longleftrightarrow> (\<forall>c m. columns db c = Some m \<longrightarrow> btree_wf m)"

lemma db_wf_col: "db_wf db \<Longrightarrow> columns db c = Some m \<Longrightarrow> btree_wf m"
  by (simp add: db_wf_def)

lemma db_wf_upd: "db_wf db \<Longrightarrow> btree_wf m \<Longrightarrow> db_wf (db\<lparr> columns := (columns db)(c \<mapsto> m) \<rparr>)"
  by (simp add: db_wf_def)

lemma db_contents_upd:
  "db_contents (db\<lparr> columns := (columns db)(c \<mapsto> m) \<rparr>) = (db_contents db)(c \<mapsto> btree_get m)"
  by (rule ext) (simp add: db_contents_def)

lemma write_op_none:
  "columns db (db_op_col oper) = None \<Longrightarrow> write_op oper db = Some db \<and> store_op oper (db_contents db) = db_contents db"
  by (cases oper) (auto simp: write_op_def store_op_def db_contents_def)

lemma write_op_some:
  assumes "db_wf db" "columns db (db_op_col oper) = Some m"
  shows "\<exists>m'. write_op oper db = Some (db\<lparr> columns := (columns db)(db_op_col oper \<mapsto> m') \<rparr>) \<and>
    btree_wf m' \<and> btree_get m' = col_op oper (btree_get m)"
  using db_wf_col [OF assms] assms(2)
  by (cases oper)
     (auto simp: write_op_def btree_facts delete_prefix_keys_spec btree_wf_filter btree_get_filter fun_eq_iff)

lemma write_op_spec:
  assumes "db_wf db"
  shows "\<exists>db'. write_op oper db = Some db' \<and> db_wf db' \<and> db_contents db' = store_op oper (db_contents db)"
proof (cases "columns db (db_op_col oper)")
  case None
  then show ?thesis using assms write_op_none by simp
next
  case (Some m)
  obtain m' where "write_op oper db = Some (db\<lparr> columns := (columns db)(db_op_col oper \<mapsto> m') \<rparr>)"
    "btree_wf m'" "btree_get m' = col_op oper (btree_get m)"
    using write_op_some [OF assms Some] by blast
  moreover have "db_contents db (db_op_col oper) = Some (btree_get m)" using Some by (simp add: db_contents_def)
  ultimately show ?thesis by (simp add: db_wf_upd [OF assms] db_contents_upd store_op_def)
qed

lemma write_ops_spec:
  "db_wf db \<Longrightarrow>
     \<exists>db'. write_ops opers db = Some db' \<and> db_wf db' \<and> db_contents db' = store_write opers (db_contents db)"
proof (induction opers arbitrary: db)
  case Nil
  then show ?case by (simp add: store_write_def)
next
  case (Cons oper opers)
  obtain db1 where 1: "write_op oper db = Some db1" "db_wf db1" "db_contents db1 = store_op oper (db_contents db)"
    using write_op_spec [OF Cons.prems] by blast
  show ?case using Cons.IH [OF 1(2)] 1 by (simp add: store_write_def)
qed

lemma columns_create: "columns (create n) c = (if c < n then Some [] else None)"
proof -
  have "fold (\<lambda>idx cols. cols(of_nat idx \<mapsto> [])) [0..<k] Map.empty c =
      (if unat c < k then Some ([] :: (bytes, db_value) btree) else None)"
    if "k < 2 ^ 32" for k and c :: u32
    using that
  proof (induction k)
    case (Suc k)
    then have "c = of_nat k \<longleftrightarrow> unat c = k" by (auto simp: word_unat_eq_iff unat_of_nat_lt radix_def)
    then show ?case using Suc by (auto simp: less_Suc_eq)
  qed simp
  from this [of "unat n" c] show ?thesis using unat_lt_radix [of n]
    by (simp add: create_def word_less_nat_alt radix_def)
qed

lemma create_facts:
  "db_contents (create n) c = (if c < n then Some Map.empty else None)" "db_wf (create n)"
  by (simp_all add: db_contents_def db_wf_def columns_create)

interpretation mem: key_value_db get get_by_prefix write_db iter iter_with_prefix db_contents db_wf
proof
  fix db c m k p tr
  assume wf: "db_wf db"
  show "\<exists>db'. write_db db tr = Some (Inr (), db') \<and> db_wf db' \<and>
      db_contents db' = store_write (ops tr) (db_contents db)"
    using write_ops_spec [OF wf, of "ops tr"] by (auto simp: write_db_def)
  show "\<exists>e. get db c k = Inl e" if "db_contents db c = None"
    using that by (simp add: get_def db_contents_def)
  assume "db_contents db c = Some m"
  then obtain t where t: "columns db c = Some t" "m = btree_get t" by (auto simp: db_contents_def)
  show "get db c k = Inr (m k)" using t by (simp add: get_def)
  show "distinct (map fst (iter db c)) \<and> map_of (iter db c) = m"
    using t btree_wf_distinct [OF db_wf_col [OF wf t(1)]] by (simp add: iter_def btree_get_def fun_eq_iff)
  show "iter_with_prefix db c p = filter (\<lambda>(k, _). prefix p k) (iter db c)"
    using t by (simp add: iter_with_prefix_def iter_def)
  have "map_option snd (find (\<lambda>(k, _). prefix p k) t) =
      (case filter (\<lambda>(k, _). prefix p k) t of [] \<Rightarrow> None | (k, v) # _ \<Rightarrow> Some v)" for t :: "(bytes \<times> bytes) list"
    by (induction t) auto
  then show "get_by_prefix db c p = (case iter_with_prefix db c p of [] \<Rightarrow> None | (k, v) # _ \<Rightarrow> Some v)"
    using t by (simp add: get_by_prefix_def iter_with_prefix_def)
qed

subsection \<open>Properties\<close>

text \<open>
  The range of a prefix: \<^verbatim>\<open>end_prefix\<close> returns for every byte string, the addition in it never
  overflows, and the keys between the prefix (inclusive) and the result (exclusive, none when
  there is no bound) in lexicographic order are exactly the keys that start with the prefix.
\<close>

theorem end_prefix_bounds_prefix:
  "\<exists>e. end_prefix p = Some e \<and>
     {k. prefix p k} = {k. p \<le> k \<and> (case e of None \<Rightarrow> True | Some b \<Rightarrow> k < b)} \<and>
     (e = None \<longleftrightarrow> list_all (\<lambda>b. b = 0xff) p)"
proof -
  obtain e where e: "end_prefix p = Some e"
    "\<forall>k. prefix p k \<longleftrightarrow> p \<le> k \<and> (case e of None \<Rightarrow> True | Some b \<Rightarrow> k < b)"
    using end_prefix_range [of p] by blast
  have "pop_max p = [] \<longleftrightarrow> list_all (\<lambda>b. b = 0xff) p"
    by (induction p rule: rev_induct) (simp_all add: pop_max_snoc pop_max.simps [of "[]"])
  moreover have "e = None \<longleftrightarrow> pop_max p = []"
    using e(1) unfolding end_prefix_def by (cases "padd (last (pop_max p)) 1"; cases "pop_max p = []") auto
  ultimately have "e = None \<longleftrightarrow> list_all (\<lambda>b. b = 0xff) p" by (simp only:)
  moreover have "{k. prefix p k} = {k. p \<le> k \<and> (case e of None \<Rightarrow> True | Some b \<Rightarrow> k < b)}"
    by (rule Collect_cong) (rule e(2) [rule_format])
  ultimately show ?thesis using e(1) by blast
qed

text \<open>
  C7. The in-memory database implements a store: a new database has exactly the columns below the
  given number, all empty. On a well-formed database a write returns \<^verbatim>\<open>Ok\<close> and applies the
  operations of the transaction in order, deletions by prefix included; \<^verbatim>\<open>get\<close> looks the key up or
  reports the missing column; \<^verbatim>\<open>iter\<close> lists the column in ascending order of the keys and
  \<^verbatim>\<open>iter_with_prefix\<close> its entries with the prefix; \<^verbatim>\<open>has_prefix\<close> tells whether there is one.
\<close>

theorem memory_db_refines_store:
  assumes "db_wf db" and "db_contents db c = Some m"
  shows "db_wf (create n) \<and> db_contents (create n) = (\<lambda>c. if c < n then Some Map.empty else None) \<and>
    (\<exists>db'. write_db db tr = Some (Inr (), db') \<and> db_wf db' \<and> db_contents db' = store_write (ops tr) (db_contents db)) \<and>
    get db c k = Inr (m k) \<and>
    (db_contents db c' = None \<longrightarrow> get db c' k = Inl (NoSuchColumnFamily c') \<and> iter db c' = []) \<and>
    map_of (iter db c) = m \<and> sorted_wrt (<) (map fst (iter db c)) \<and>
    iter_with_prefix db c p = filter (\<lambda>(k, _). prefix p k) (iter db c) \<and>
    has_prefix get_by_prefix db c p = (\<exists>k \<in> dom m. prefix p k)"
proof -
  obtain t where t: "columns db c = Some t" using assms(2) by (auto simp: db_contents_def)
  have "sorted_wrt (<) (map fst (iter db c))"
    using db_wf_col [OF assms(1) t] t by (simp add: iter_def btree_wf_def)
  moreover have "db_contents db c' = None \<Longrightarrow> get db c' k = Inl (NoSuchColumnFamily c') \<and> iter db c' = []"
    by (simp add: get_def iter_def db_contents_def)
  moreover have "db_contents (create n) = (\<lambda>c. if c < n then Some Map.empty else None)"
    by (rule ext) (rule create_facts(1))
  ultimately show ?thesis
    using mem.write_law [OF assms(1)] mem.get_some [OF assms] mem.iter_law [OF assms]
      mem.iter_prefix_law [OF assms] mem.has_prefix_spec [OF assms] create_facts(2)
    by (intro conjI impI) (simp_all del: map_of_eq_None_iff)
qed

theorem memory_db_refines_store_witness:
  "get (create 2) 1 [7] = Inr None \<and> get (create 2) 5 [7] = Inl (NoSuchColumnFamily 5)"
proof -
  have m: "db_contents (create 2) 1 = Some Map.empty" "db_contents (create 2) 5 = None"
    by (simp_all add: create_facts(1) word_less_nat_alt)
  show ?thesis
    using memory_db_refines_store [OF create_facts(2) m(1), of 0 db_transaction_new "[7]" 5 "[]"] m(2)
    by simp
qed

text \<open>
  Reading after a write: after a transaction, a key has the value that the last operation of the
  transaction that touches it gives it (an insertion its value, a deletion of the key or of a
  prefix of it nothing), and its old value when no operation touches it.
\<close>

theorem get_after_write:
  assumes "db_wf db" and "db_contents db c = Some m" and "write_db db tr = Some (r, db')"
  shows "get db' c k = Inr (case last_effect c k (ops tr) of None \<Rightarrow> m k | Some v \<Rightarrow> v)"
  by (rule mem.read_after_write [OF assms])

definition sample_transaction :: db_transaction where
  "sample_transaction = put 0 [1, 3] [9] (delete_prefix 0 [1] (put 0 [1, 2] [8] db_transaction_new))"

theorem get_after_write_witness:
  "\<exists>db'. write_db (create 1) sample_transaction = Some (Inr (), db') \<and>
     get db' 0 [1, 2] = Inr None \<and> get db' 0 [1, 3] = Inr (Some [9])"
proof -
  have m: "db_contents (create 1) 0 = Some Map.empty" by (simp add: create_facts(1))
  obtain db' where db: "write_db (create 1) sample_transaction = Some (Inr (), db')"
    using mem.write_law [OF create_facts(2)] by blast
  have "last_effect 0 [1, 2] (ops sample_transaction) = Some None"
    "last_effect 0 [1, 3] (ops sample_transaction) = Some (Some [9])"
    by (simp_all add: sample_transaction_def put_def delete_prefix_def db_transaction_new_def
        with_capacity_def last_effect_def)
  then show ?thesis
    using get_after_write [OF create_facts(2) m db, of "[1, 2]"] get_after_write [OF create_facts(2) m db, of "[1, 3]"] db
    by auto
qed

end
