(* ===== verification/Rocks_Stats.thy ===== *)
theory Rocks_Stats
  imports Complex_Main Btree_Map
begin

text \<open>
  Statistics of the databases: the counters of \<^verbatim>\<open>kvdb-rocksdb/src/stats.rs\<close>, the report of
  \<^verbatim>\<open>kvdb/src/io_stats.rs\<close>, and the parser of the statistics text of RocksDB. A text is the list of its
  code points; the time of \<^verbatim>\<open>Instant::now\<close> is an argument.
\<close>

subsection \<open>Text\<close>

type_synonym str = "nat list"

definition lit :: "string \<Rightarrow> str" where
  "lit s = map of_char s"

text \<open>The decimal \<^verbatim>\<open>Display\<close> text of an unsigned integer, and \<^verbatim>\<open>u64::from_str\<close>.\<close>

fun dec_text :: "nat \<Rightarrow> str" where
  "dec_text n = (if n < 10 then [48 + n] else dec_text (n div 10) @ [48 + n mod 10])"

declare dec_text.simps [simp del]

definition is_digit :: "nat \<Rightarrow> bool" where
  "is_digit c \<longleftrightarrow> 48 \<le> c \<and> c \<le> 57"

definition dec_value :: "str \<Rightarrow> nat" where
  "dec_value ds = foldl (\<lambda>a d. a * 10 + (d - 48)) 0 ds"

definition u64_from_str :: "str \<Rightarrow> u64 option" where
  "u64_from_str s =
     (let ds = (case s of c # r \<Rightarrow> if c = 43 then r else s | [] \<Rightarrow> s) in
      if ds \<noteq> [] \<and> list_all is_digit ds \<and> dec_value ds < B then Some (of_nat (dec_value ds)) else None)"

lemma length_dropWhile_le: "length (dropWhile P xs) \<le> length xs"
  by (induction xs) auto

text \<open>\<^verbatim>\<open>lines\<close>, \<^verbatim>\<open>splitn(2, ' ')\<close>, \<^verbatim>\<open>rsplit\<close> (its first item), \<^verbatim>\<open>split_whitespace\<close> and \<^verbatim>\<open>trim_start_matches\<close>.\<close>

function split_lines :: "str \<Rightarrow> str list" where
  "split_lines s =
     (if s = [] then []
      else
        let l = takeWhile (\<lambda>c. c \<noteq> 10) s; r = dropWhile (\<lambda>c. c \<noteq> 10) s;
            l' = (if r \<noteq> [] \<and> l \<noteq> [] \<and> last l = 13 then butlast l else l)
        in l' # split_lines (tl r))"
  by pat_completeness auto

termination
proof (relation "measure length", simp)
  fix s :: str and l r l'
  assume "s \<noteq> []" "r = dropWhile (\<lambda>c. c \<noteq> 10) s"
  moreover have "length r \<le> length s" using \<open>r = _\<close> length_dropWhile_le by simp
  moreover have "0 < length s" using \<open>s \<noteq> []\<close> by simp
  ultimately have "length r - 1 < length s" by linarith
  then show "(tl r, s) \<in> measure length" by simp
qed

declare split_lines.simps [simp del]

definition splitn_2 :: "nat \<Rightarrow> str \<Rightarrow> str list" where
  "splitn_2 c s = (case dropWhile (\<lambda>x. x \<noteq> c) s of [] \<Rightarrow> [s] | _ # r \<Rightarrow> [takeWhile (\<lambda>x. x \<noteq> c) s, r])"

fun after_last :: "str \<Rightarrow> str \<Rightarrow> str option" where
  "after_last sep [] = None"
| "after_last sep (c # s) =
     (case after_last sep s of
        Some r \<Rightarrow> Some r
      | None \<Rightarrow> if prefix sep (c # s) then Some (drop (length sep) (c # s)) else None)"

definition rsplit_first :: "str \<Rightarrow> str \<Rightarrow> str" where
  "rsplit_first sep s = (case after_last sep s of Some r \<Rightarrow> r | None \<Rightarrow> s)"

definition is_whitespace :: "nat \<Rightarrow> bool" where
  "is_whitespace c \<longleftrightarrow> 9 \<le> c \<and> c \<le> 13 \<or> 0x2000 \<le> c \<and> c \<le> 0x200A \<or>
     c \<in> {32, 0x85, 0xA0, 0x1680, 0x2028, 0x2029, 0x202F, 0x205F, 0x3000}"

fun split_words :: "str \<Rightarrow> str \<Rightarrow> str list" where
  "split_words word [] = (if word = [] then [] else [word])"
| "split_words word (c # s) =
     (if is_whitespace c then (if word = [] then [] else [word]) @ split_words [] s
      else split_words (word @ [c]) s)"

definition split_whitespace :: "str \<Rightarrow> str list" where
  "split_whitespace s = split_words [] s"

function trim_rocksdb :: "str \<Rightarrow> str" where
  "trim_rocksdb s = (if prefix (lit ''rocksdb.'') s then trim_rocksdb (drop 8 s) else s)"
  by pat_completeness auto

termination
  by (relation "measure length") (auto simp: prefix_def lit_def)

declare trim_rocksdb.simps [simp del]

subsection \<open>The statistics text of RocksDB\<close>

text \<open>A floating point number is of the type \<open>'f\<close>, parsed by \<open>f64_from_str\<close>.\<close>

record 'f time_value =
  p50 :: 'f
  p95 :: 'f
  p99 :: 'f
  p100 :: 'f
  time_sum :: u64

record 'f stats_value =
  count :: u64
  times :: "'f time_value option"

definition parse_rocksdb_stats_row :: "(str \<Rightarrow> 'f option) \<Rightarrow> str list \<Rightarrow> (str \<times> 'f stats_value) may_panic" where
  "parse_rocksdb_stats_row f64_from_str it =
     do {
       key \<leftarrow> index_at it 0;
       let key = trim_rocksdb key;
       vals \<leftarrow> index_at it 1;
       (if prefix (lit ''COUNT'') vals then
          do {
            n \<leftarrow> u64_from_str (rsplit_first (lit '' : '') vals);
            Some (key, \<lparr> count = n, times = None \<rparr>) }
        else
          do {
            let vals = filter (\<lambda>s. s \<noteq> lit '':'') (split_whitespace vals);
            v1 \<leftarrow> index_at vals 1; v1 \<leftarrow> f64_from_str v1;
            v3 \<leftarrow> index_at vals 3; v3 \<leftarrow> f64_from_str v3;
            v5 \<leftarrow> index_at vals 5; v5 \<leftarrow> f64_from_str v5;
            v7 \<leftarrow> index_at vals 7; v7 \<leftarrow> f64_from_str v7;
            v11 \<leftarrow> index_at vals 11; v11 \<leftarrow> u64_from_str v11;
            v9 \<leftarrow> index_at vals 9; v9 \<leftarrow> u64_from_str v9;
            Some (key, \<lparr> count = v9,
              times = Some \<lparr> p50 = v1, p95 = v3, p99 = v5, p100 = v7, time_sum = v11 \<rparr> \<rparr>) }) }"

fun parse_rows :: "(str \<Rightarrow> 'f option) \<Rightarrow> str list \<Rightarrow> (str \<times> 'f stats_value) list may_panic" where
  "parse_rows f64_from_str [] = Some []"
| "parse_rows f64_from_str (line # ls) =
     do {
       row \<leftarrow> parse_rocksdb_stats_row f64_from_str (splitn_2 32 line);
       rows \<leftarrow> parse_rows f64_from_str ls;
       Some (row # rows) }"

definition parse_rocksdb_stats :: "(str \<Rightarrow> 'f option) \<Rightarrow> str \<Rightarrow> (str \<rightharpoonup> 'f stats_value) may_panic" where
  "parse_rocksdb_stats f64_from_str stats =
     do { rows \<leftarrow> parse_rows f64_from_str (split_lines stats); Some (map_of (rev rows)) }"

subsection \<open>Counters\<close>

record raw_db_stats =
  reads :: u64
  writes :: u64
  bytes_written :: u64
  bytes_read :: u64
  transactions :: u64
  cache_hit_count :: u64

definition raw_default :: raw_db_stats where
  "raw_default = \<lparr> reads = 0, writes = 0, bytes_written = 0, bytes_read = 0, transactions = 0, cache_hit_count = 0 \<rparr>"

definition combine :: "raw_db_stats \<Rightarrow> raw_db_stats \<Rightarrow> raw_db_stats may_panic" where
  "combine self other =
     do {
       r \<leftarrow> padd (reads self) (reads other);
       w \<leftarrow> padd (writes self) (writes other);
       bw \<leftarrow> padd (bytes_written self) (bytes_written other);
       br \<leftarrow> padd (bytes_read self) (bytes_written other);
       t \<leftarrow> padd (transactions self) (transactions other);
       c \<leftarrow> padd (cache_hit_count self) (cache_hit_count other);
       Some \<lparr> reads = r, writes = w, bytes_written = bw, bytes_read = br, transactions = t, cache_hit_count = c \<rparr> }"

record overall_db_stats =
  ostats :: raw_db_stats
  last_taken :: nat
  ostarted :: nat

definition overall_new :: "nat \<Rightarrow> nat \<Rightarrow> overall_db_stats" where
  "overall_new now1 now2 = \<lparr> ostats = raw_default, last_taken = now1, ostarted = now2 \<rparr>"

text \<open>The atomic counters are the fields of \<open>current\<close>.\<close>

record running_db_stats =
  current :: raw_db_stats
  overall_lock :: overall_db_stats

record taken_db_stats =
  raw :: raw_db_stats
  started :: nat

definition running_new :: "nat \<Rightarrow> nat \<Rightarrow> running_db_stats" where
  "running_new now1 now2 = \<lparr> current = raw_default, overall_lock = overall_new now1 now2 \<rparr>"

text \<open>\<^verbatim>\<open>fetch_add\<close> wraps around.\<close>

definition tally_reads :: "u64 \<Rightarrow> running_db_stats \<Rightarrow> running_db_stats" where
  "tally_reads n self = self\<lparr> current := (current self)\<lparr> reads := reads (current self) + n \<rparr> \<rparr>"

definition tally_bytes_read :: "u64 \<Rightarrow> running_db_stats \<Rightarrow> running_db_stats" where
  "tally_bytes_read n self = self\<lparr> current := (current self)\<lparr> bytes_read := bytes_read (current self) + n \<rparr> \<rparr>"

definition tally_writes :: "u64 \<Rightarrow> running_db_stats \<Rightarrow> running_db_stats" where
  "tally_writes n self = self\<lparr> current := (current self)\<lparr> writes := writes (current self) + n \<rparr> \<rparr>"

definition tally_bytes_written :: "u64 \<Rightarrow> running_db_stats \<Rightarrow> running_db_stats" where
  "tally_bytes_written n self = self\<lparr> current := (current self)\<lparr> bytes_written := bytes_written (current self) + n \<rparr> \<rparr>"

definition tally_transactions :: "u64 \<Rightarrow> running_db_stats \<Rightarrow> running_db_stats" where
  "tally_transactions n self = self\<lparr> current := (current self)\<lparr> transactions := transactions (current self) + n \<rparr> \<rparr>"

definition tally_cache_hit_count :: "u64 \<Rightarrow> running_db_stats \<Rightarrow> running_db_stats" where
  "tally_cache_hit_count n self =
     self\<lparr> current := (current self)\<lparr> cache_hit_count := cache_hit_count (current self) + n \<rparr> \<rparr>"

definition take_current :: "running_db_stats \<Rightarrow> raw_db_stats \<times> running_db_stats" where
  "take_current self = (current self, self\<lparr> current := raw_default \<rparr>)"

definition peek_current :: "running_db_stats \<Rightarrow> raw_db_stats" where
  "peek_current self = current self"

definition since_previous :: "nat \<Rightarrow> running_db_stats \<Rightarrow> (taken_db_stats \<times> running_db_stats) may_panic" where
  "since_previous now self =
     (let (cur, self) = take_current self in
      do {
        total \<leftarrow> combine (ostats (overall_lock self)) cur;
        let stats = \<lparr> raw = cur, started = last_taken (overall_lock self) \<rparr>;
        Some (stats, self\<lparr> overall_lock := (overall_lock self)\<lparr> ostats := total, last_taken := now \<rparr> \<rparr>) })"

definition overall :: "running_db_stats \<Rightarrow> taken_db_stats may_panic" where
  "overall self =
     do {
       total \<leftarrow> combine (ostats (overall_lock self)) (peek_current self);
       Some \<lparr> raw = total, started = ostarted (overall_lock self) \<rparr> }"

subsection \<open>The report\<close>

datatype stats_kind = Overall | SincePrevious

record io_stats =
  io_transactions :: u64
  io_reads :: u64
  io_cache_reads :: u64
  io_writes :: u64
  io_bytes_read :: u64
  io_cache_read_bytes :: u64
  io_bytes_written :: u64
  io_started :: nat
  io_span :: nat

definition io_stats_empty :: "nat \<Rightarrow> io_stats" where
  "io_stats_empty now =
     \<lparr> io_transactions = 0, io_reads = 0, io_cache_reads = 0, io_writes = 0, io_bytes_read = 0,
       io_cache_read_bytes = 0, io_bytes_written = 0, io_started = now, io_span = 0 \<rparr>"

text \<open>
  The averages and rates are \<^verbatim>\<open>f64\<close> numbers: rational numbers, each operation followed by the rounding
  \<open>rnd\<close> to the nearest one. \<open>secs\<close> is \<^verbatim>\<open>span.as_secs_f64()\<close>. None of them overflows.
\<close>

definition f64_of :: "(rat \<Rightarrow> rat) \<Rightarrow> u64 \<Rightarrow> rat" where
  "f64_of rnd n = rnd (of_nat (unat n))"

definition ratio :: "(rat \<Rightarrow> rat) \<Rightarrow> rat \<Rightarrow> rat \<Rightarrow> rat" where
  "ratio rnd a b = (if b = 0 then 0 else rnd (a / b))"

definition avg_batch_size :: "(rat \<Rightarrow> rat) \<Rightarrow> io_stats \<Rightarrow> rat" where
  "avg_batch_size rnd self =
     (if io_writes self = 0 then 0 else rnd (f64_of rnd (io_transactions self) / f64_of rnd (io_writes self)))"

definition reads_per_sec :: "(rat \<Rightarrow> rat) \<Rightarrow> rat \<Rightarrow> io_stats \<Rightarrow> rat" where
  "reads_per_sec rnd secs self = ratio rnd (f64_of rnd (io_reads self)) secs"

definition byte_reads_per_sec :: "(rat \<Rightarrow> rat) \<Rightarrow> rat \<Rightarrow> io_stats \<Rightarrow> rat" where
  "byte_reads_per_sec rnd secs self = ratio rnd (f64_of rnd (io_bytes_read self)) secs"

definition writes_per_sec :: "(rat \<Rightarrow> rat) \<Rightarrow> rat \<Rightarrow> io_stats \<Rightarrow> rat" where
  "writes_per_sec rnd secs self = ratio rnd (f64_of rnd (io_writes self)) secs"

definition byte_writes_per_sec :: "(rat \<Rightarrow> rat) \<Rightarrow> rat \<Rightarrow> io_stats \<Rightarrow> rat" where
  "byte_writes_per_sec rnd secs self = ratio rnd (f64_of rnd (io_bytes_written self)) secs"

definition ops_per_sec :: "(rat \<Rightarrow> rat) \<Rightarrow> rat \<Rightarrow> io_stats \<Rightarrow> rat" where
  "ops_per_sec rnd secs self = ratio rnd (rnd (f64_of rnd (io_writes self) + f64_of rnd (io_reads self))) secs"

definition transactions_per_sec :: "(rat \<Rightarrow> rat) \<Rightarrow> rat \<Rightarrow> io_stats \<Rightarrow> rat" where
  "transactions_per_sec rnd secs self = ratio rnd (f64_of rnd (io_transactions self)) secs"

definition avg_transaction_size :: "(rat \<Rightarrow> rat) \<Rightarrow> io_stats \<Rightarrow> rat" where
  "avg_transaction_size rnd self =
     (if io_transactions self = 0 then 0
      else rnd (f64_of rnd (io_bytes_written self) / f64_of rnd (io_transactions self)))"

definition cache_hit_ratio :: "(rat \<Rightarrow> rat) \<Rightarrow> io_stats \<Rightarrow> rat" where
  "cache_hit_ratio rnd self =
     (if io_reads self = 0 then 0 else rnd (f64_of rnd (io_cache_reads self) / f64_of rnd (io_reads self)))"

subsection \<open>Numbers as text\<close>

lemma dec_text_digits: "list_all is_digit (dec_text n) \<and> dec_text n \<noteq> []"
  by (induction n rule: dec_text.induct) (subst (1 2) dec_text.simps, auto simp: list_all_iff is_digit_def)

lemma dec_value_dec_text: "dec_value (dec_text n) = n"
proof (induction n rule: dec_text.induct)
  case (1 n)
  then show ?case by (subst dec_text.simps) (auto simp: dec_value_def)
qed

lemma dec_text_inject: "dec_text m = dec_text n \<longleftrightarrow> m = n"
  by (metis dec_value_dec_text)

lemma u64_from_str_dec_text: "u64_from_str (dec_text (unat n)) = Some n"
proof -
  have d: "list_all is_digit (dec_text (unat n))" "dec_text (unat n) \<noteq> []" using dec_text_digits by auto
  then obtain c r where c: "dec_text (unat n) = c # r" "is_digit c" by (cases "dec_text (unat n)") auto
  then have "c \<noteq> 43" by (auto simp: is_digit_def)
  then show ?thesis using d c(1) dec_value_dec_text [of "unat n"] unat_lt_radix [of n]
    by (simp add: u64_from_str_def Let_def radix_def B_eq)
qed

lemma after_last_none: "list_all (\<lambda>c. c \<noteq> hd sep) s \<Longrightarrow> sep \<noteq> [] \<Longrightarrow> after_last sep s = None"
  by (induction s) (auto simp: prefix_def Cons_eq_append_conv)

lemma after_last_tail:
  "sep \<noteq> [] \<Longrightarrow> list_all (\<lambda>c. c \<noteq> hd sep) s \<Longrightarrow> after_last sep (sep @ s) = Some s \<Longrightarrow> after_last sep (p @ sep @ s) = Some s"
  by (induction p) simp_all

lemma digits_no_space: "list_all is_digit s \<Longrightarrow> list_all (\<lambda>c. c \<noteq> 32) s"
  by (induction s) (auto simp: is_digit_def)

lemma count_value: "rsplit_first (lit '' : '') (lit ''COUNT : '' @ dec_text n) = dec_text n"
proof -
  have d: "list_all (\<lambda>c. c \<noteq> 32) (dec_text n)" using dec_text_digits digits_no_space by blast
  have n: "after_last (lit '' : '') (dec_text n) = None" using d by (intro after_last_none) (simp_all add: lit_def)
  obtain c r where c: "dec_text n = c # r" "c \<noteq> 32" "c \<noteq> 58"
    using dec_text_digits [of n] by (cases "dec_text n") (auto simp: is_digit_def)
  have "after_last (lit '' : '') (lit ''COUNT : '' @ dec_text n) = Some (dec_text n)"
    using n c by (simp add: lit_def prefix_def)
  then show ?thesis by (simp add: rsplit_first_def)
qed

lemma lit_prefix: "prefix (lit ''COUNT'') (lit ''COUNT : '' @ s)"
  by (simp add: lit_def prefix_def)

lemma trim_key: "\<not> prefix (lit ''rocksdb.'') k \<Longrightarrow> trim_rocksdb (lit ''rocksdb.'' @ k) = k"
proof -
  assume k: "\<not> prefix (lit ''rocksdb.'') k"
  have "length (lit ''rocksdb.'') = 8" by (simp add: lit_def)
  then have "drop 8 (lit ''rocksdb.'' @ k) = k" by (metis append_eq_conv_conj)
  then have "trim_rocksdb (lit ''rocksdb.'' @ k) = trim_rocksdb k" by (subst trim_rocksdb.simps) simp
  also have "\<dots> = k" using k by (subst trim_rocksdb.simps) simp
  finally show ?thesis .
qed

lemma while_to:
  "c \<notin> set a \<Longrightarrow> takeWhile (\<lambda>x. x \<noteq> c) (a @ c # b) = a" "c \<notin> set a \<Longrightarrow> dropWhile (\<lambda>x. x \<noteq> c) (a @ c # b) = c # b"
  by (induction a) auto

lemma splitn_2_spec: "c \<notin> set a \<Longrightarrow> splitn_2 c (a @ c # b) = [a, b]"
  by (simp add: splitn_2_def while_to)

lemma split_lines_Cons:
  "10 \<notin> set l \<Longrightarrow> l = [] \<or> last l \<noteq> 13 \<Longrightarrow> split_lines (l @ 10 # s) = l # split_lines s"
  by (subst split_lines.simps) (auto simp: Let_def while_to)

text \<open>A row of a counter as RocksDB writes it, and the name it is filed under.\<close>

definition count_row :: "str \<times> u64 \<Rightarrow> str" where
  "count_row = (\<lambda>(k, n). lit ''rocksdb.'' @ k @ 32 # lit ''COUNT : '' @ dec_text (unat n))"

definition row_name :: "str \<Rightarrow> bool" where
  "row_name k \<longleftrightarrow> 32 \<notin> set k \<and> 10 \<notin> set k \<and> \<not> prefix (lit ''rocksdb.'') k"

lemma parse_count_row:
  assumes "row_name k"
  shows "parse_rocksdb_stats_row f (splitn_2 32 (count_row (k, n))) = Some (k, \<lparr> count = n, times = None \<rparr>)"
proof -
  have "32 \<notin> set (lit ''rocksdb.'' @ k)" using assms by (simp add: row_name_def lit_def)
  from splitn_2_spec [OF this] have "splitn_2 32 (count_row (k, n)) = [lit ''rocksdb.'' @ k, lit ''COUNT : '' @ dec_text (unat n)]"
    by (simp add: count_row_def)
  then show ?thesis
    using assms by (simp add: parse_rocksdb_stats_row_def index_at_def trim_key row_name_def lit_prefix count_value
        u64_from_str_dec_text)
qed

lemma parse_rows_count:
  "list_all (row_name \<circ> fst) rows \<Longrightarrow>
     parse_rows f (map count_row rows) = Some (map (\<lambda>(k, n). (k, \<lparr> count = n, times = None \<rparr>)) rows)"
  by (induction rows) (auto simp: parse_count_row)

lemma count_row_line:
  assumes "row_name k"
  shows "10 \<notin> set (count_row (k, n))" "count_row (k, n) \<noteq> [] \<and> last (count_row (k, n)) \<noteq> 13"
proof -
  have d: "list_all is_digit (dec_text (unat n))" "dec_text (unat n) \<noteq> []" using dec_text_digits by auto
  then have "10 \<notin> set (dec_text (unat n))" "is_digit (last (dec_text (unat n)))"
    by (auto simp: list_all_iff is_digit_def)
  then show "10 \<notin> set (count_row (k, n))" "count_row (k, n) \<noteq> [] \<and> last (count_row (k, n)) \<noteq> 13"
    using assms d(2) by (auto simp: count_row_def row_name_def lit_def is_digit_def)
qed

lemma split_count_rows:
  "list_all (row_name \<circ> fst) rows \<Longrightarrow>
     split_lines (concat (map (\<lambda>r. count_row r @ [10]) rows)) = map count_row rows"
proof (induction rows)
  case Nil
  show ?case by (simp add: split_lines.simps)
next
  case (Cons r rows)
  then show ?case using count_row_line [of "fst r" "snd r"] by (simp add: split_lines_Cons)
qed

subsection \<open>Properties\<close>

text \<open>
  The statistics text of RocksDB: for any sequence of counters, written one per line in the format of RocksDB,
  the parser returns the map from each name without its prefix to its (last) value, and does not panic.
\<close>

theorem rocksdb_stats_parsed:
  fixes f :: "str \<Rightarrow> 'f option"
  assumes "list_all (row_name \<circ> fst) rows"
  shows "parse_rocksdb_stats f (concat (map (\<lambda>r. count_row r @ [10]) rows)) =
    Some (\<lambda>k. map_option (\<lambda>n. \<lparr> count = n, times = None \<rparr>) (map_of (rev rows) k))"
proof -
  have "map_of (rev (map (\<lambda>(k, n). (k, \<lparr> count = n, times = None \<rparr> :: 'f stats_value)) rows)) k =
      map_option (\<lambda>n. \<lparr> count = n, times = None \<rparr>) (map_of (rev rows) k)" for k
    unfolding rev_map by (simp add: map_of_map)
  then show ?thesis
    using split_count_rows [OF assms] parse_rows_count [OF assms, of f] by (simp add: parse_rocksdb_stats_def fun_eq_iff)
qed

theorem rocksdb_stats_parsed_witness:
  "\<exists>s. parse_rocksdb_stats (\<lambda>_. None :: nat option) (concat (map (\<lambda>r. count_row r @ [10]) [(lit ''row.cache.hit'', 17)])) = Some s \<and>
     map_option count (s (lit ''row.cache.hit'')) = Some 17"
  using rocksdb_stats_parsed [of "[(lit ''row.cache.hit'', 17)]" "\<lambda>_. None :: nat option"]
  by (simp add: row_name_def lit_def prefix_def)

lemma combine_spec:
  assumes "\<And>f. f \<in> {reads, writes, bytes_written, transactions, cache_hit_count} \<Longrightarrow> unat (f a) + unat (f b) < B"
    and "unat (bytes_read a) + unat (bytes_written b) < B"
  shows "combine a b = Some \<lparr> reads = reads a + reads b, writes = writes a + writes b, bytes_written = bytes_written a + bytes_written b,
    bytes_read = bytes_read a + bytes_written b, transactions = transactions a + transactions b,
    cache_hit_count = cache_hit_count a + cache_hit_count b \<rparr>"
  using assms by (simp add: combine_def padd_def B_eq)

text \<open>
  The counters: \<^verbatim>\<open>since_previous\<close> returns what was counted since the last call, starts a new period and resets the counters; \<^verbatim>\<open>overall\<close>
  adds the totals up to the last call and what was counted since, so it does not change by a call of
  \<^verbatim>\<open>since_previous\<close>, as long as no total overflows. The total of the bytes read is the exception: it is increased by the bytes written.
\<close>

theorem counters_accumulate:
  assumes t: "t = ostats (overall_lock s)" and c: "c = current s"
    and fits: "\<And>f. f \<in> {reads, writes, bytes_written, transactions, cache_hit_count} \<Longrightarrow> unat (f t) + unat (f c) < B"
      "unat (bytes_read t) + unat (bytes_written c) < B"
  shows "\<exists>taken s' total. since_previous now s = Some (taken, s') \<and> raw taken = c \<and> started taken = last_taken (overall_lock s) \<and>
    current s' = raw_default \<and> last_taken (overall_lock s') = now \<and>
    overall s = Some total \<and> overall s' = Some total \<and> started total = ostarted (overall_lock s) \<and>
    (\<forall>f \<in> {reads, writes, bytes_written, transactions, cache_hit_count}. f (raw total) = f t + f c) \<and>
    bytes_read (raw total) = bytes_read t + bytes_written c"
proof -
  define r where "r = \<lparr> reads = reads t + reads c, writes = writes t + writes c, bytes_written = bytes_written t + bytes_written c,
    bytes_read = bytes_read t + bytes_written c, transactions = transactions t + transactions c,
    cache_hit_count = cache_hit_count t + cache_hit_count c \<rparr>"
  have "combine t c = Some r" unfolding r_def by (rule combine_spec) (use fits in auto)
  moreover have "combine r raw_default = Some r"
    using unat_lt_radix [where 'a = 64] by (simp add: combine_def raw_default_def padd_def B_eq)
  ultimately show ?thesis
    by (simp add: since_previous_def overall_def take_current_def peek_current_def t c r_def)
qed

definition sample_counters :: running_db_stats where
  "sample_counters = tally_bytes_written 5 (tally_bytes_read 7 (tally_reads 1 (running_new 0 0)))"

theorem counters_accumulate_witness:
  "\<exists>taken s'. since_previous 9 sample_counters = Some (taken, s') \<and> bytes_read (raw taken) = 7 \<and> current s' = raw_default"
proof -
  note defs = sample_counters_def running_new_def overall_new_def raw_default_def tally_bytes_written_def
    tally_bytes_read_def tally_reads_def B_eq
  have "unat (f (ostats (overall_lock sample_counters))) + unat (f (current sample_counters)) < B"
    if "f \<in> {reads, writes, bytes_written, transactions, cache_hit_count}" for f
    using that by (auto simp: defs)
  moreover have "unat (bytes_read (ostats (overall_lock sample_counters))) + unat (bytes_written (current sample_counters)) < B"
    by (simp add: defs)
  moreover have "bytes_read (current sample_counters) = 7" by (simp add: defs)
  ultimately show ?thesis using counters_accumulate [OF refl refl, of sample_counters 9] by auto
qed

text \<open>The total of the bytes read after seven bytes read and five bytes written is five.\<close>

theorem bytes_read_total_wrong: "map_option (\<lambda>tot. bytes_read (raw tot)) (overall sample_counters) = Some 5"
  by (simp add: sample_counters_def running_new_def overall_new_def raw_default_def tally_bytes_written_def
      tally_bytes_read_def tally_reads_def overall_def peek_current_def combine_def padd_def)

text \<open>\<^verbatim>\<open>avg_batch_size\<close> is documented as writes per transaction; one transaction of ten writes gives a tenth.\<close>

theorem avg_batch_size_inverted:
  "avg_batch_size id ((io_stats_empty 0)\<lparr> io_transactions := 1, io_writes := 10 \<rparr>) = 1 / 10"
  by (simp add: avg_batch_size_def f64_of_def io_stats_empty_def)

end
