(* ===== verification/Kvdb_Rocks.thy ===== *)
theory Kvdb_Rocks
  imports Kvdb Rocks_Stats "HOL-Library.Finite_Map"
begin

text \<open>
  The database on disk: \<^verbatim>\<open>kvdb-rocksdb/src/lib.rs\<close> and \<^verbatim>\<open>iter.rs\<close>. The crate \<^verbatim>\<open>rocksdb\<close> and the file system are
  the record \<open>rocks\<close> of the functions the sources call, which act on a state \<open>'w\<close> of everything outside the
  program; \<open>'d\<close> is an open database and \<open>'c\<close> a column family. A write batch and the options are
  the lists of the calls that build them. The lock is held for the whole of every operation, so an
  operation is one step; an iterator holds it while it is used, so it is the list of its items.
\<close>

subsection \<open>Configuration\<close>

definition KB :: nat where
  "KB = 1024"

definition MB :: nat where
  "MB = 1024 * KB"

definition DB_DEFAULT_COLUMN_MEMORY_BUDGET_MB :: nat where
  "DB_DEFAULT_COLUMN_MEMORY_BUDGET_MB = 128"

record compaction_profile =
  initial_file_size :: u64
  block_size :: nat

definition profile_ssd :: compaction_profile where
  "profile_ssd = \<lparr> initial_file_size = 64 * of_nat MB, block_size = 16 * KB \<rparr>"

definition profile_hdd :: compaction_profile where
  "profile_hdd = \<lparr> initial_file_size = 256 * of_nat MB, block_size = 64 * KB \<rparr>"

definition profile_default :: compaction_profile where
  "profile_default = profile_ssd"

record database_config =
  max_open_files :: int
  budgets :: "u32 \<rightharpoonup> nat"
  compaction :: compaction_profile
  num_cols :: u32
  keep_log_file_num :: int
  enable_statistics :: bool
  secondary :: "str option"
  max_total_wal_size :: "u64 option"

definition config_default :: database_config where
  "config_default =
     \<lparr> max_open_files = 512, budgets = Map.empty, compaction = profile_default, num_cols = 1,
       keep_log_file_num = 1, enable_statistics = False, secondary = None, max_total_wal_size = None \<rparr>"

definition with_columns :: "u32 \<Rightarrow> database_config may_panic" where
  "with_columns cols = do { rust_assert (cols > 0); Some (config_default\<lparr> num_cols := cols \<rparr>) }"

definition memory_budget_for_col :: "database_config \<Rightarrow> u32 \<Rightarrow> nat may_panic" where
  "memory_budget_for_col self col =
     usize_mul (case budgets self col of Some b \<Rightarrow> b | None \<Rightarrow> DB_DEFAULT_COLUMN_MEMORY_BUDGET_MB) MB"

fun sum_budgets :: "database_config \<Rightarrow> nat list \<Rightarrow> nat \<Rightarrow> nat may_panic" where
  "sum_budgets self [] acc = Some acc"
| "sum_budgets self (i # is) acc =
     do { b \<leftarrow> memory_budget_for_col self (of_nat i); acc \<leftarrow> usize_add acc b; sum_budgets self is acc }"

definition memory_budget :: "database_config \<Rightarrow> nat may_panic" where
  "memory_budget self = sum_budgets self [0..<unat (num_cols self)] 0"

subsection \<open>Options\<close>

datatype db_setting =
    SetReportBgIoStats bool
  | EnableStatistics
  | SetUseFsync bool
  | CreateIfMissing bool
  | SetMaxOpenFiles int
  | SetBytesPerSync u64
  | SetKeepLogFileNum nat
  | IncreaseParallelism int
  | SetMaxTotalWalSize u64

datatype block_setting =
    SetBlockSize nat
  | SetFormatVersion nat
  | SetBlockRestartInterval nat
  | DisableCache
  | SetBlockCache nat
  | SetCacheIndexAndFilterBlocks bool
  | SetPinL0FilterAndIndexBlocksInCache bool
  | SetBloomFilter nat bool

datatype col_setting =
    SetLevelCompactionDynamicLevelBytes bool
  | SetBlockBasedTableFactory "block_setting list"
  | OptimizeLevelStyleCompaction nat
  | SetTargetFileSizeBase u64
  | SetCompressionPerLevel "nat list"

definition column_config :: "database_config \<Rightarrow> block_setting list \<Rightarrow> u32 \<Rightarrow> col_setting list may_panic" where
  "column_config self block_opts col =
     do {
       column_mem_budget \<leftarrow> memory_budget_for_col self col;
       Some [SetLevelCompactionDynamicLevelBytes True, SetBlockBasedTableFactory block_opts,
         OptimizeLevelStyleCompaction column_mem_budget, SetTargetFileSizeBase (initial_file_size (compaction self)),
         SetCompressionPerLevel []] }"

text \<open>\<open>num_cpus\<close> is \<^verbatim>\<open>num_cpus::get() as i32\<close>.\<close>

definition generate_options :: "int \<Rightarrow> database_config \<Rightarrow> db_setting list" where
  "generate_options num_cpus config =
     [SetReportBgIoStats True] @
     (if enable_statistics config then [EnableStatistics] else []) @
     [SetUseFsync False, CreateIfMissing True] @
     (if secondary config \<noteq> None then [SetMaxOpenFiles (- 1)] else [SetMaxOpenFiles (max_open_files config)]) @
     [SetBytesPerSync (1 * of_nat MB), SetKeepLogFileNum 1, IncreaseParallelism (max 1 (num_cpus div 2))] @
     (case max_total_wal_size config of Some m \<Rightarrow> [SetMaxTotalWalSize m] | None \<Rightarrow> [])"

subsection \<open>The crate and the file system\<close>

datatype io_err = OtherErr str | FsErr str

definition other_io_err :: "str \<Rightarrow> io_err" where
  "other_io_err e = OtherErr e"

datatype 'c batch_op = PutCf 'c bytes bytes | DeleteCf 'c bytes | DeleteRangeCf 'c bytes bytes

record ('w, 'd, 'c) rocks =
  new_lru_cache :: "nat \<Rightarrow> str + nat"
  open_cf_descriptors :: "db_setting list \<Rightarrow> str \<Rightarrow> (str \<times> col_setting list) list \<Rightarrow> 'w \<Rightarrow> (str + 'd) \<times> 'w"
  open_cf :: "db_setting list \<Rightarrow> str \<Rightarrow> str list \<Rightarrow> 'w \<Rightarrow> (str + 'd) \<times> 'w"
  open_cf_as_secondary :: "db_setting list \<Rightarrow> str \<Rightarrow> str \<Rightarrow> str list \<Rightarrow> 'w \<Rightarrow> (str + 'd) \<times> 'w"
  repair :: "db_setting list \<Rightarrow> str \<Rightarrow> 'w \<Rightarrow> (str + unit) \<times> 'w"
  create_cf :: "'d \<Rightarrow> str \<Rightarrow> col_setting list \<Rightarrow> 'w \<Rightarrow> (str + unit) \<times> 'w"
  drop_cf :: "'d \<Rightarrow> str \<Rightarrow> 'w \<Rightarrow> (str + unit) \<times> 'w"
  cf_handle :: "'w \<Rightarrow> 'd \<Rightarrow> str \<Rightarrow> 'c option"
  write_opt :: "'d \<Rightarrow> 'c batch_op list \<Rightarrow> 'w \<Rightarrow> (str + unit) \<times> 'w"
  get_pinned_cf_opt :: "'w \<Rightarrow> 'd \<Rightarrow> 'c \<Rightarrow> bytes \<Rightarrow> str + bytes option"
  iterator_cf_opt :: "'w \<Rightarrow> 'd \<Rightarrow> 'c \<Rightarrow> bytes option \<Rightarrow> bytes option \<Rightarrow> (bytes \<times> bytes) list"
  property_int_value_cf :: "'w \<Rightarrow> 'd \<Rightarrow> 'c \<Rightarrow> str \<Rightarrow> str + u64 option"
  catch_up_with_primary :: "'d \<Rightarrow> 'w \<Rightarrow> (str + unit) \<times> 'w"
  options_statistics :: "'w \<Rightarrow> db_setting list \<Rightarrow> str option"
  path_exists :: "'w \<Rightarrow> str \<Rightarrow> bool"
  create_file :: "str \<Rightarrow> 'w \<Rightarrow> (io_err + unit) \<times> 'w"
  remove_file :: "str \<Rightarrow> 'w \<Rightarrow> (io_err + unit) \<times> 'w"
  remove_dir_all :: "str \<Rightarrow> 'w \<Rightarrow> (io_err + unit) \<times> 'w"
  fs_swap :: "str \<Rightarrow> str \<Rightarrow> 'w \<Rightarrow> (io_err + unit) \<times> 'w"
  fs_swap_nonatomic :: "str \<Rightarrow> str \<Rightarrow> 'w \<Rightarrow> (io_err + unit) \<times> 'w"

text \<open>Code that acts on the outside state, returns a result and may panic.\<close>

type_synonym ('w, 'a) io = "'w \<Rightarrow> ((io_err + 'a) \<times> 'w) may_panic"

definition io_try :: "('w, 'a) io \<Rightarrow> ('a \<Rightarrow> ('w, 'b) io) \<Rightarrow> ('w, 'b) io" where
  "io_try m f w =
     do { (r, w) \<leftarrow> m w; case r of Inl e \<Rightarrow> Some (Inl e, w) | Inr a \<Rightarrow> f a w }"

text \<open>A call of the crate, with its error converted by \<^verbatim>\<open>map_err(other_io_err)\<close>.\<close>

definition rocks_call :: "('w \<Rightarrow> (str + 'a) \<times> 'w) \<Rightarrow> ('w, 'a) io" where
  "rocks_call m w = (let (r, w) = m w in Some (map_sum other_io_err id r, w))"

definition io_ok :: "'a \<Rightarrow> ('w, 'a) io" where
  "io_ok a w = Some (Inr a, w)"

definition generate_block_based_options ::
  "('w, 'd, 'c) rocks \<Rightarrow> database_config \<Rightarrow> (io_err + block_setting list) may_panic" where
  "generate_block_based_options R config =
     do {
       let block_opts = [SetBlockSize (block_size (compaction config)), SetFormatVersion 5, SetBlockRestartInterval 16];
       total \<leftarrow> memory_budget config;
       let cache_size = total div 3;
       if cache_size = 0 then Some (Inr (block_opts @ [DisableCache, SetBloomFilter 10 True]))
       else
         case new_lru_cache R cache_size of
           Inl e \<Rightarrow> Some (Inl (other_io_err e))
         | Inr cache \<Rightarrow> Some (Inr (block_opts @ [SetBlockCache cache, SetCacheIndexAndFilterBlocks True,
             SetPinL0FilterAndIndexBlocksInCache True, SetBloomFilter 10 True])) }"

subsection \<open>The database\<close>

record 'd db_and_columns =
  db :: 'd
  column_names :: "str list"

record 'd database =
  lock :: "'d db_and_columns option"
  config :: database_config
  db_path :: str
  opts :: "db_setting list"
  block_opts :: "block_setting list"
  stats :: running_db_stats

definition cf :: "('w, 'd, 'c) rocks \<Rightarrow> 'w \<Rightarrow> 'd db_and_columns \<Rightarrow> nat \<Rightarrow> 'c may_panic" where
  "cf R w self i = do { name \<leftarrow> index_at (column_names self) i; cf_handle R w (db self) name }"

definition static_property_or_warn :: "('w, 'd, 'c) rocks \<Rightarrow> 'w \<Rightarrow> 'd db_and_columns \<Rightarrow> nat \<Rightarrow> str \<Rightarrow> nat may_panic" where
  "static_property_or_warn R w self col prop =
     do {
       h \<leftarrow> cf R w self col;
       Some (case property_int_value_cf R w (db self) h prop of Inr (Some v) \<Rightarrow> unat v | _ \<Rightarrow> 0) }"

fun sum_properties :: "('w, 'd, 'c) rocks \<Rightarrow> 'w \<Rightarrow> 'd db_and_columns \<Rightarrow> nat list \<Rightarrow> nat \<Rightarrow> nat may_panic" where
  "sum_properties R w self [] acc = Some acc"
| "sum_properties R w self (v # vs) acc =
     do {
       a \<leftarrow> static_property_or_warn R w self v (lit ''rocksdb.estimate-table-readers-mem'');
       acc \<leftarrow> usize_add acc a;
       b \<leftarrow> static_property_or_warn R w self v (lit ''rocksdb.cur-size-all-mem-tables'');
       acc \<leftarrow> usize_add acc b;
       sum_properties R w self vs acc }"

text \<open>\<open>names_size\<close> is the size that \<^verbatim>\<open>parity-util-mem\<close> reports for the names.\<close>

definition columns_size_of :: "('w, 'd, 'c) rocks \<Rightarrow> 'w \<Rightarrow> nat \<Rightarrow> 'd db_and_columns \<Rightarrow> nat may_panic" where
  "columns_size_of R w names_size self =
     do {
       h \<leftarrow> cf R w self 0;
       let usage = (case property_int_value_cf R w (db self) h (lit ''rocksdb.block-cache-usage'') of
         Inr (Some x) \<Rightarrow> unat x | _ \<Rightarrow> 0);
       total \<leftarrow> usize_add names_size usage;
       sum_properties R w self [0..<length (column_names self)] total }"

definition is_corrupted :: "str \<Rightarrow> bool" where
  "is_corrupted err \<longleftrightarrow> prefix (lit ''Corruption:'') err \<or>
     prefix (lit ''Invalid argument: You have to open all column families'') err"

definition CORRUPTION_FILE_NAME :: str where
  "CORRUPTION_FILE_NAME = lit ''CORRUPTED''"

text \<open>\<^verbatim>\<open>Path::join\<close> with a relative name.\<close>

definition path_join :: "str \<Rightarrow> str \<Rightarrow> str" where
  "path_join path name = (if path = [] \<or> last path = 47 then path @ name else path @ [47] @ name)"

definition check_for_corruption :: "('w, 'd, 'c) rocks \<Rightarrow> str \<Rightarrow> str + 'a \<Rightarrow> ('w, 'a) io" where
  "check_for_corruption R path res w =
     (let w' = (case res of
          Inl s \<Rightarrow> if is_corrupted s then snd (create_file R (path_join path CORRUPTION_FILE_NAME) w) else w
        | Inr _ \<Rightarrow> w)
      in Some (map_sum other_io_err id res, w'))"

definition col_name :: "nat \<Rightarrow> str" where
  "col_name c = lit ''col'' @ dec_text c"

text \<open>The configurations of the columns with their indices.\<close>

fun cf_configs :: "database_config \<Rightarrow> block_setting list \<Rightarrow> (nat \<times> str) list \<Rightarrow> (str \<times> col_setting list) list may_panic" where
  "cf_configs cfg bopts [] = Some []"
| "cf_configs cfg bopts ((i, name) # names) =
     do {
       c \<leftarrow> column_config cfg bopts (of_nat i);
       rest \<leftarrow> cf_configs cfg bopts names;
       Some ((name, c) # rest) }"

definition cf_descriptors :: "database_config \<Rightarrow> block_setting list \<Rightarrow> str list \<Rightarrow> (str \<times> col_setting list) list may_panic" where
  "cf_descriptors cfg bopts names = cf_configs cfg bopts (zip [0..<unat (num_cols cfg)] names)"

fun create_columns :: "('w, 'd, 'c) rocks \<Rightarrow> 'd \<Rightarrow> database_config \<Rightarrow> block_setting list \<Rightarrow> (nat \<times> str) list \<Rightarrow> ('w, unit) io" where
  "create_columns R d cfg bopts [] w = Some (Inr (), w)"
| "create_columns R d cfg bopts ((i, name) # names) w =
     do {
       c \<leftarrow> column_config cfg bopts (of_nat i);
       io_try (rocks_call (create_cf R d name c)) (\<lambda>_. create_columns R d cfg bopts names) w }"

definition open_primary ::
  "('w, 'd, 'c) rocks \<Rightarrow> db_setting list \<Rightarrow> str \<Rightarrow> database_config \<Rightarrow> str list \<Rightarrow> block_setting list \<Rightarrow> ('w, 'd) io" where
  "open_primary R os path cfg names bopts w =
     do {
       descriptors \<leftarrow> cf_descriptors cfg bopts names;
       let (r, w) = open_cf_descriptors R os path descriptors w;
       case r of
         Inr d \<Rightarrow> Some (Inr d, w)
       | Inl _ \<Rightarrow>
           (let (r, w) = open_cf R os path [] w in
            case r of
              Inr d \<Rightarrow> io_try (create_columns R d cfg bopts (enumerate 0 names)) (\<lambda>_. io_ok d) w
            | Inl s \<Rightarrow>
                if is_corrupted s then
                  io_try (rocks_call (repair R os path)) (\<lambda>_ w.
                    do {
                      descriptors \<leftarrow> cf_descriptors cfg bopts names;
                      rocks_call (open_cf_descriptors R os path descriptors) w }) w
                else Some (Inl (other_io_err s), w)) }"

definition open_secondary :: "('w, 'd, 'c) rocks \<Rightarrow> db_setting list \<Rightarrow> str \<Rightarrow> str \<Rightarrow> str list \<Rightarrow> ('w, 'd) io" where
  "open_secondary R os path secondary_path names w =
     (let (r, w) = open_cf_as_secondary R os path secondary_path names w in
      case r of
        Inr d \<Rightarrow> Some (Inr d, w)
      | Inl s \<Rightarrow>
          if is_corrupted s then
            io_try (rocks_call (repair R os path)) (\<lambda>_.
              rocks_call (open_cf_as_secondary R os path secondary_path names)) w
          else Some (Inl (other_io_err s), w))"

definition repair_marked :: "('w, 'd, 'c) rocks \<Rightarrow> db_setting list \<Rightarrow> str \<Rightarrow> ('w, unit) io" where
  "repair_marked R os path w =
     (let db_corrupted = path_join path CORRUPTION_FILE_NAME in
      if path_exists R w db_corrupted then
        io_try (rocks_call (repair R os path)) (\<lambda>_ w. Some (remove_file R db_corrupted w)) w
      else Some (Inr (), w))"

definition open_db :: "('w, 'd, 'c) rocks \<Rightarrow> int \<Rightarrow> nat \<Rightarrow> nat \<Rightarrow> database_config \<Rightarrow> str \<Rightarrow> ('w, 'd database) io" where
  "open_db R num_cpus now1 now2 cfg path w =
     do {
       rust_assert (num_cols cfg > 0);
       let os = generate_options num_cpus cfg;
       b \<leftarrow> generate_block_based_options R cfg;
       case b of
         Inl e \<Rightarrow> Some (Inl e, w)
       | Inr bopts \<Rightarrow>
           io_try (repair_marked R os path) (\<lambda>_.
             let names = map col_name [0..<unat (num_cols cfg)] in
             io_try (case secondary cfg of
                 Some secondary_path \<Rightarrow> open_secondary R os path secondary_path names
               | None \<Rightarrow> open_primary R os path cfg names bopts) (\<lambda>d.
               io_ok \<lparr> lock = Some \<lparr> db = d, column_names = names \<rparr>, config = cfg, db_path = path, opts = os,
                 block_opts = bopts, stats = running_new now1 now2 \<rparr>)) w }"

subsection \<open>Reading and writing\<close>

definition handler_iter :: "('w, 'd, 'c) rocks \<Rightarrow> 'w \<Rightarrow> 'd db_and_columns \<Rightarrow> u32 \<Rightarrow> bytes option \<Rightarrow> (bytes \<times> bytes) list may_panic" where
  "handler_iter R w self col upper = do { h \<leftarrow> cf R w self (unat col); Some (iterator_cf_opt R w (db self) h upper None) }"

definition handler_iter_with_prefix ::
  "('w, 'd, 'c) rocks \<Rightarrow> 'w \<Rightarrow> 'd db_and_columns \<Rightarrow> u32 \<Rightarrow> bytes \<Rightarrow> bytes option \<Rightarrow> (bytes \<times> bytes) list may_panic" where
  "handler_iter_with_prefix R w self col p upper =
     do { h \<leftarrow> cf R w self (unat col); Some (iterator_cf_opt R w (db self) h upper (Some p)) }"

definition batch_one ::
  "('w, 'd, 'c) rocks \<Rightarrow> 'w \<Rightarrow> 'd db_and_columns \<Rightarrow> db_op \<Rightarrow> 'c batch_op list \<times> nat \<Rightarrow> ('c batch_op list \<times> nat) may_panic" where
  "batch_one R w cfs oper = (\<lambda>(batch, total_bytes).
     do {
       h \<leftarrow> cf R w cfs (unat (db_op_col oper));
       case oper of
         Insert col key val \<Rightarrow>
           do {
             n \<leftarrow> usize_add (length key) (length val);
             total_bytes \<leftarrow> usize_add total_bytes n;
             Some (batch @ [PutCf h key val], total_bytes) }
       | Delete col key \<Rightarrow>
           do { total_bytes \<leftarrow> usize_add total_bytes (length key); Some (batch @ [DeleteCf h key], total_bytes) }
       | DeletePrefix col p \<Rightarrow>
           do {
             e \<leftarrow> end_prefix p;
             let no_end = (e = None);
             let end_range = (case e of Some b \<Rightarrow> b | None \<Rightarrow> replicate 16 0xff);
             let batch = batch @ [DeleteRangeCf h p end_range];
             if no_end then
               do {
                 let q = (if length p > length end_range then p else end_range);
                 entries \<leftarrow> handler_iter_with_prefix R w cfs col q None;
                 Some (batch @ map (\<lambda>(key, _). DeleteCf h key) entries, total_bytes) }
             else Some (batch, total_bytes) } })"

fun batch_all ::
  "('w, 'd, 'c) rocks \<Rightarrow> 'w \<Rightarrow> 'd db_and_columns \<Rightarrow> db_op list \<Rightarrow> 'c batch_op list \<times> nat \<Rightarrow> ('c batch_op list \<times> nat) may_panic" where
  "batch_all R w cfs [] acc = Some acc"
| "batch_all R w cfs (oper # opers) acc = do { acc \<leftarrow> batch_one R w cfs oper acc; batch_all R w cfs opers acc }"

text \<open>The operations return their result, the database with its counters, and the outside state.\<close>

definition rocks_write ::
  "('w, 'd, 'c) rocks \<Rightarrow> 'd database \<Rightarrow> db_transaction \<Rightarrow> 'w \<Rightarrow> ((io_err + unit) \<times> 'd database \<times> 'w) may_panic" where
  "rocks_write R self tr w =
     (case lock self of
        Some cfs \<Rightarrow>
          do {
            let st = tally_transactions 1 (tally_writes (of_nat (length (ops tr))) (stats self));
            (batch, total_bytes) \<leftarrow> batch_all R w cfs (ops tr) ([], 0);
            let st = tally_bytes_written (of_nat total_bytes) st;
            let (res, w) = write_opt R (db cfs) batch w;
            (r, w) \<leftarrow> check_for_corruption R (db_path self) res w;
            Some (r, self\<lparr> stats := st \<rparr>, w) }
      | None \<Rightarrow> Some (Inl (other_io_err (lit ''Database is closed'')), self, w))"

definition rocks_get ::
  "('w, 'd, 'c) rocks \<Rightarrow> 'w \<Rightarrow> 'd database \<Rightarrow> u32 \<Rightarrow> bytes \<Rightarrow> ((io_err + bytes option) \<times> 'd database) may_panic" where
  "rocks_get R w self col key =
     (case lock self of
        Some cfs \<Rightarrow>
          if length (column_names cfs) \<le> unat col
          then Some (Inl (other_io_err (lit ''column index is out of bounds'')), self)
          else
            do {
              let st = tally_reads 1 (stats self);
              h \<leftarrow> cf R w cfs (unat col);
              case get_pinned_cf_opt R w (db cfs) h key of
                Inr (Some v) \<Rightarrow>
                  do {
                    n \<leftarrow> usize_add (length key) (length v);
                    Some (Inr (Some v), self\<lparr> stats := tally_bytes_read (of_nat n) st \<rparr>) }
              | Inr None \<Rightarrow> Some (Inr None, self\<lparr> stats := tally_bytes_read (of_nat (length key)) st \<rparr>)
              | Inl e \<Rightarrow> Some (Inl (other_io_err e), self\<lparr> stats := st \<rparr>) }
      | None \<Rightarrow> Some (Inr None, self))"

definition rocks_iter :: "('w, 'd, 'c) rocks \<Rightarrow> 'w \<Rightarrow> 'd database \<Rightarrow> u32 \<Rightarrow> (bytes \<times> bytes) list may_panic" where
  "rocks_iter R w self col = (case lock self of Some cfs \<Rightarrow> handler_iter R w cfs col None | None \<Rightarrow> Some [])"

definition rocks_iter_with_prefix :: "('w, 'd, 'c) rocks \<Rightarrow> 'w \<Rightarrow> 'd database \<Rightarrow> u32 \<Rightarrow> bytes \<Rightarrow> (bytes \<times> bytes) list may_panic" where
  "rocks_iter_with_prefix R w self col p =
     (case lock self of
        Some cfs \<Rightarrow> do { e \<leftarrow> end_prefix p; handler_iter_with_prefix R w cfs col p e }
      | None \<Rightarrow> Some [])"

definition rocks_get_by_prefix :: "('w, 'd, 'c) rocks \<Rightarrow> 'w \<Rightarrow> 'd database \<Rightarrow> u32 \<Rightarrow> bytes \<Rightarrow> bytes option may_panic" where
  "rocks_get_by_prefix R w self col p =
     do { l \<leftarrow> rocks_iter_with_prefix R w self col p; Some (case l of [] \<Rightarrow> None | (_, v) # _ \<Rightarrow> Some v) }"

subsection \<open>Columns, restoring and statistics\<close>

definition close_db :: "'d database \<Rightarrow> 'd database" where
  "close_db self = self\<lparr> lock := None \<rparr>"

definition swap_in :: "('w, 'd, 'c) rocks \<Rightarrow> str \<Rightarrow> str \<Rightarrow> 'w \<Rightarrow> (io_err + unit) \<times> 'w" where
  "swap_in R new_db path w =
     (let (r, w) = fs_swap R new_db path w in
      case r of
        Inr _ \<Rightarrow> (Inr (), snd (remove_dir_all R new_db w))
      | Inl _ \<Rightarrow>
          (let (r, w) = fs_swap_nonatomic R new_db path w in
           case r of
             Inr _ \<Rightarrow> (Inr (), snd (remove_dir_all R new_db w))
           | Inl _ \<Rightarrow> (Inl (OtherErr (lit ''DB restoration failed: could not swap DB directories'')), w)))"

definition rocks_restore ::
  "('w, 'd, 'c) rocks \<Rightarrow> int \<Rightarrow> nat \<Rightarrow> nat \<Rightarrow> 'd database \<Rightarrow> str \<Rightarrow> 'w \<Rightarrow> ((io_err + unit) \<times> 'd database \<times> 'w) may_panic" where
  "rocks_restore R num_cpus now1 now2 self new_db w =
     (let self = close_db self; (r, w) = swap_in R new_db (db_path self) w in
      case r of
        Inl e \<Rightarrow> Some (Inl e, self, w)
      | Inr _ \<Rightarrow>
          do {
            (r, w) \<leftarrow> open_db R num_cpus now1 now2 (config self) (db_path self) w;
            case r of
              Inl e \<Rightarrow> Some (Inl e, self, w)
            | Inr d \<Rightarrow> Some (Inr (), self\<lparr> lock := lock d \<rparr>, w) })"

definition num_columns :: "'d database \<Rightarrow> u32" where
  "num_columns self =
     (case lock self of
        Some cfs \<Rightarrow> if column_names cfs = [] then 0 else of_nat (length (column_names cfs))
      | None \<Rightarrow> 0)"

definition num_keys :: "('w, 'd, 'c) rocks \<Rightarrow> 'w \<Rightarrow> 'd database \<Rightarrow> u32 \<Rightarrow> (io_err + u64) may_panic" where
  "num_keys R w self col =
     (case lock self of
        Some cfs \<Rightarrow>
          do {
            h \<leftarrow> cf R w cfs (unat col);
            Some (case property_int_value_cf R w (db cfs) h (lit ''rocksdb.estimate-num-keys'') of
              Inr estimate \<Rightarrow> Inr (case estimate of Some n \<Rightarrow> n | None \<Rightarrow> 0)
            | Inl e \<Rightarrow> Inl (other_io_err e)) }
      | None \<Rightarrow> Some (Inr 0))"

definition remove_last_column :: "('w, 'd, 'c) rocks \<Rightarrow> 'd database \<Rightarrow> 'w \<Rightarrow> (io_err + unit) \<times> 'd database \<times> 'w" where
  "remove_last_column R self w =
     (case lock self of
        Some cfs \<Rightarrow>
          if column_names cfs = [] then (Inr (), self, w)
          else
            let name = last (column_names cfs);
                self = self\<lparr> lock := Some (cfs\<lparr> column_names := butlast (column_names cfs) \<rparr>) \<rparr>;
                (r, w) = drop_cf R (db cfs) name w
            in (map_sum other_io_err id r, self, w)
      | None \<Rightarrow> (Inr (), self, w))"

definition add_column :: "('w, 'd, 'c) rocks \<Rightarrow> 'd database \<Rightarrow> 'w \<Rightarrow> ((io_err + unit) \<times> 'd database \<times> 'w) may_panic" where
  "add_column R self w =
     (case lock self of
        Some cfs \<Rightarrow>
          do {
            let col = (of_nat (length (column_names cfs)) :: u32);
            let name = col_name (unat col);
            col_config \<leftarrow> column_config (config self) (block_opts self) col;
            let (r, w) = create_cf R (db cfs) name col_config w;
            Some (case r of
              Inl e \<Rightarrow> (Inl (other_io_err e), self, w)
            | Inr _ \<Rightarrow> (Inr (), self\<lparr> lock := Some (cfs\<lparr> column_names := column_names cfs @ [name] \<rparr>) \<rparr>, w)) }
      | None \<Rightarrow> Some (Inr (), self, w))"

definition get_statistics :: "('w, 'd, 'c) rocks \<Rightarrow> (str \<Rightarrow> 'f option) \<Rightarrow> 'w \<Rightarrow> 'd database \<Rightarrow> (str \<rightharpoonup> 'f stats_value) may_panic" where
  "get_statistics R f64_from_str w self =
     (case options_statistics R w (opts self) of
        Some s \<Rightarrow> parse_rocksdb_stats f64_from_str s
      | None \<Rightarrow> Some Map.empty)"

definition try_catch_up_with_primary :: "('w, 'd, 'c) rocks \<Rightarrow> 'd database \<Rightarrow> ('w, unit) io" where
  "try_catch_up_with_primary R self w =
     (case lock self of Some cfs \<Rightarrow> rocks_call (catch_up_with_primary R (db cfs)) w | None \<Rightarrow> Some (Inr (), w))"

definition rocks_io_stats ::
  "('w, 'd, 'c) rocks \<Rightarrow> (str \<Rightarrow> 'f option) \<Rightarrow> nat \<Rightarrow> 'w \<Rightarrow> 'd database \<Rightarrow> stats_kind \<Rightarrow> (io_stats \<times> 'd database) may_panic" where
  "rocks_io_stats R f64_from_str now w self kind =
     do {
       rocksdb_stats \<leftarrow> get_statistics R f64_from_str w self;
       let hits = (case rocksdb_stats (lit ''block.cache.hit'') of Some s \<Rightarrow> count s | None \<Rightarrow> 0);
       overall_stats \<leftarrow> overall (stats self);
       diff \<leftarrow> psub hits (cache_hit_count (raw overall_stats));
       let st = tally_cache_hit_count diff (stats self);
       (taken, st) \<leftarrow> (case kind of
          Overall \<Rightarrow> do { t \<leftarrow> overall st; Some (t, st) }
        | SincePrevious \<Rightarrow> since_previous now st);
       Some ((io_stats_empty now)\<lparr>
           io_reads := reads (raw taken), io_writes := writes (raw taken), io_transactions := transactions (raw taken),
           io_bytes_written := bytes_written (raw taken), io_bytes_read := bytes_read (raw taken),
           io_cache_reads := cache_hit_count (raw taken), io_started := started taken, io_span := now - started taken \<rparr>,
         self\<lparr> stats := st \<rparr>) }"

subsection \<open>Memory budgets\<close>

lemma memory_budget_for_col_spec:
  "memory_budget_for_col c i = (let b = (case budgets c i of Some b \<Rightarrow> b | None \<Rightarrow> 128) * 2 ^ 20 in if b < B then Some b else panic)"
  by (cases "budgets c i")
     (simp_all add: memory_budget_for_col_def usize_mul_def DB_DEFAULT_COLUMN_MEMORY_BUDGET_MB_def MB_def KB_def)

definition budget_bytes :: "database_config \<Rightarrow> nat \<Rightarrow> nat" where
  "budget_bytes c i = (case budgets c (of_nat i) of Some b \<Rightarrow> b | None \<Rightarrow> 128) * 2 ^ 20"

lemma sum_budgets_spec:
  "acc + sum_list (map (budget_bytes c) is) < B \<Longrightarrow> sum_budgets c is acc = Some (acc + sum_list (map (budget_bytes c) is))"
proof (induction "is" arbitrary: acc)
  case (Cons i "is")
  then have "budget_bytes c i < B" "acc + budget_bytes c i < B" by simp_all
  then show ?case using Cons.IH [of "acc + budget_bytes c i"] Cons.prems
    by (simp add: memory_budget_for_col_spec budget_bytes_def usize_add_def Let_def add.assoc)
qed simp

subsection \<open>The contract of the crate\<close>

text \<open>What a batch does to the columns: its operations in order, a range without its end.\<close>

fun batch_apply :: "'c batch_op \<Rightarrow> ('c \<Rightarrow> bytes \<rightharpoonup> bytes) \<Rightarrow> ('c \<Rightarrow> bytes \<rightharpoonup> bytes)" where
  "batch_apply (PutCf h k v) s = s(h := (s h)(k \<mapsto> v))"
| "batch_apply (DeleteCf h k) s = s(h := (s h)(k := None))"
| "batch_apply (DeleteRangeCf h a b) s = s(h := (\<lambda>k. if a \<le> k \<and> k < b then None else s h k))"

definition apply_batch :: "'c batch_op list \<Rightarrow> ('c \<Rightarrow> bytes \<rightharpoonup> bytes) \<Rightarrow> ('c \<Rightarrow> bytes \<rightharpoonup> bytes)" where
  "apply_batch b = fold batch_apply b"

text \<open>
  The documented behaviour of the crate, with \<open>contents\<close> the entries of a column family: column families
  are named, a batch is written as a whole or not at all, a read returns the entry, an iterator
  lists the entries between its bounds in ascending order, and opening a database with column
  families gives their handles. The file that marks corruption is no part of the database.
\<close>

locale rocks_contract =
  fixes R :: "('w, 'd, 'c) rocks" and contents :: "'w \<Rightarrow> 'd \<Rightarrow> 'c \<Rightarrow> bytes \<rightharpoonup> bytes"
  assumes handle_inject: "cf_handle R w d a = Some h \<Longrightarrow> cf_handle R w d b = Some h \<Longrightarrow> a = b"
    and write_ok: "write_opt R d batch w = (Inr (), w') \<Longrightarrow>
      cf_handle R w' d = cf_handle R w d \<and> contents w' d = apply_batch batch (contents w d)"
    and write_fails: "write_opt R d batch w = (Inl e, w') \<Longrightarrow> cf_handle R w' d = cf_handle R w d \<and> contents w' d = contents w d"
    and mark: "create_file R p w = (r, w') \<Longrightarrow> cf_handle R w' d = cf_handle R w d \<and> contents w' d = contents w d"
    and read: "get_pinned_cf_opt R w d h k = Inr v \<Longrightarrow> v = contents w d h k"
    and iterate: "sorted_wrt (<) (map fst (iterator_cf_opt R w d h upper from))"
      "map_of (iterator_cf_opt R w d h upper from) k =
        (if (case from of None \<Rightarrow> True | Some a \<Rightarrow> a \<le> k) \<and> (case upper of None \<Rightarrow> True | Some b \<Rightarrow> k < b)
         then contents w d h k else None)"
    and create: "create_cf R d name co w = (Inr (), w') \<Longrightarrow>
      (\<exists>h. cf_handle R w' d name = Some h \<and> contents w' d h = Map.empty) \<and>
      (\<forall>n h. n \<noteq> name \<longrightarrow> cf_handle R w d n = Some h \<longrightarrow> cf_handle R w' d n = Some h \<and> contents w' d h = contents w d h)"
    and drop: "drop_cf R d name w = (Inr (), w') \<Longrightarrow>
      (\<forall>n h. n \<noteq> name \<longrightarrow> cf_handle R w d n = Some h \<longrightarrow> cf_handle R w' d n = Some h \<and> contents w' d h = contents w d h)"
    and open_named: "open_cf_descriptors R os p cfs w = (Inr d, w') \<Longrightarrow> n \<in> fst ` set cfs \<Longrightarrow> \<exists>h. cf_handle R w' d n = Some h"
    and open_named_secondary: "open_cf_as_secondary R os p sp names w = (Inr d, w') \<Longrightarrow> n \<in> set names \<Longrightarrow> \<exists>h. cf_handle R w' d n = Some h"
begin

end

lemma col_name_inject: "col_name i = col_name j \<longleftrightarrow> i = j"
  by (simp add: col_name_def dec_text_inject)

text \<open>A database whose columns are the first numbers, each with a handle.\<close>

definition columns_ok :: "('w, 'd, 'c) rocks \<Rightarrow> 'w \<Rightarrow> 'd db_and_columns \<Rightarrow> bool" where
  "columns_ok R w cfs \<longleftrightarrow> (\<exists>n \<le> 2 ^ 32. column_names cfs = map col_name [0..<n]) \<and>
     (\<forall>name \<in> set (column_names cfs). cf_handle R w (db cfs) name \<noteq> None)"

definition rocks_wf :: "('w, 'd, 'c) rocks \<Rightarrow> 'w \<Rightarrow> 'd database \<Rightarrow> bool" where
  "rocks_wf R w self \<longleftrightarrow> (case lock self of None \<Rightarrow> True | Some cfs \<Rightarrow> columns_ok R w cfs)"

definition rocks_contents :: "('w, 'd, 'c) rocks \<Rightarrow> ('w \<Rightarrow> 'd \<Rightarrow> 'c \<Rightarrow> bytes \<rightharpoonup> bytes) \<Rightarrow> 'w \<Rightarrow> 'd database \<Rightarrow> store" where
  "rocks_contents R contents w self c =
     (case lock self of
        None \<Rightarrow> None
      | Some cfs \<Rightarrow> map_option (contents w (db cfs)) (cf R w cfs (unat c)))"

lemma columns_ok_cf:
  assumes "columns_ok R w cfs"
  shows "(\<exists>h. cf R w cfs i = Some h \<and> cf_handle R w (db cfs) (col_name i) = Some h) \<longleftrightarrow> i < length (column_names cfs)"
    and "cf R w cfs i = None \<longleftrightarrow> length (column_names cfs) \<le> i"
proof -
  obtain n where n: "column_names cfs = map col_name [0..<n]" using assms by (auto simp: columns_ok_def)
  have "cf_handle R w (db cfs) (col_name i) \<noteq> None" if "i < n" using assms that by (simp add: columns_ok_def n)
  then show "(\<exists>h. cf R w cfs i = Some h \<and> cf_handle R w (db cfs) (col_name i) = Some h) \<longleftrightarrow> i < length (column_names cfs)"
    "cf R w cfs i = None \<longleftrightarrow> length (column_names cfs) \<le> i"
    by (auto simp: cf_def index_at_def n not_le)
qed

subsection \<open>Deletion by prefix\<close>

definition max_keys :: bytes where
  "max_keys = replicate 16 0xff"

definition delete_bound :: "bytes \<Rightarrow> bytes" where
  "delete_bound p = (if length p > 16 then p else max_keys)"

lemma all_max_replicate: "list_all (\<lambda>b. b = 0xff) p \<Longrightarrow> p = replicate (length p) (0xff :: u8)"
  by (induction p) simp_all

lemma delete_bound_le: "list_all (\<lambda>b. b = 0xff) p \<Longrightarrow> p \<le> delete_bound p"
proof -
  assume "list_all (\<lambda>b. b = 0xff) p"
  then have p: "p = replicate (length p) 0xff" by (rule all_max_replicate)
  have "prefix p max_keys" if "length p \<le> 16"
    using that unfolding max_keys_def
    by (subst p) (metis le_add_diff_inverse prefixI replicate_add)
  then show ?thesis by (simp add: delete_bound_def prefix_le)
qed

lemma delete_bound_range: "k < max_keys \<or> delete_bound p \<le> k \<or> k < p"
  by (auto simp: delete_bound_def)

lemma end_prefix_all_max: "end_prefix p = Some None \<Longrightarrow> list_all (\<lambda>b. b = 0xff) p"
proof -
  assume e: "end_prefix p = Some None"
  have "pop_max p = [] \<Longrightarrow> list_all (\<lambda>b. b = 0xff) p"
    by (induction p rule: rev_induct) (simp_all add: pop_max_snoc pop_max.simps [of "[]"] split: if_splits)
  moreover have "pop_max p = []"
    using e unfolding end_prefix_def by (cases "padd (last (pop_max p)) 1"; cases "pop_max p = []") auto
  ultimately show ?thesis by simp
qed

text \<open>
  The transactions whose deletions by a prefix without an end see every key: no earlier insertion into the
  column from the bound on.
\<close>

definition prefix_safe :: "db_op list \<Rightarrow> db_op \<Rightarrow> bool" where
  "prefix_safe before oper \<longleftrightarrow>
     (case oper of
        DeletePrefix c p \<Rightarrow> list_all (\<lambda>b. b = 0xff) p \<longrightarrow>
          list_all (\<lambda>oper. case oper of Insert c' k v \<Rightarrow> c' = c \<longrightarrow> k < delete_bound p | _ \<Rightarrow> True) before
      | _ \<Rightarrow> True)"

definition safe_ops :: "db_op list \<Rightarrow> bool" where
  "safe_ops opers \<longleftrightarrow> list_all (\<lambda>i. prefix_safe (take i opers) (opers ! i)) [0..<length opers]"

lemma safe_ops_snoc: "safe_ops (opers @ [oper]) \<longleftrightarrow> safe_ops opers \<and> prefix_safe opers oper"
  by (auto simp: safe_ops_def list_all_iff nth_append)

lemma last_effect_insert: "last_effect c k opers = Some (Some v) \<Longrightarrow> Insert c k v \<in> set opers"
proof (induction opers rule: rev_induct)
  case Nil
  then show ?case by (simp add: last_effect_def)
next
  case (snoc oper opers)
  then show ?case by (cases oper) (auto simp: last_effect_snoc split: if_splits option.splits)
qed

lemma apply_batch_append: "apply_batch (a @ b) s = apply_batch b (apply_batch a s)"
  by (simp add: apply_batch_def)

lemma apply_deletes:
  "apply_batch (map (\<lambda>(k, _). DeleteCf h k) es) s =
     s(h := (\<lambda>k. if k \<in> fst ` set es then None else s h k))"
  by (induction es arbitrary: s) (auto simp: apply_batch_def fun_eq_iff)

subsection \<open>A write applies its transaction\<close>

definition op_bytes :: "db_op \<Rightarrow> nat" where
  "op_bytes oper = (case oper of Insert c k v \<Rightarrow> length k + length v | Delete c k \<Rightarrow> length k | DeletePrefix c p \<Rightarrow> 0)"

text \<open>The batch built so far does to every column what the operations so far do.\<close>

definition batch_agrees ::
  "('w, 'd, 'c) rocks \<Rightarrow> ('w \<Rightarrow> 'd \<Rightarrow> 'c \<Rightarrow> bytes \<rightharpoonup> bytes) \<Rightarrow> 'w \<Rightarrow> 'd db_and_columns \<Rightarrow> db_op list \<Rightarrow> 'c batch_op list \<Rightarrow> bool" where
  "batch_agrees R contents w cfs opers batch \<longleftrightarrow>
     (\<forall>c h k. cf R w cfs (unat c) = Some h \<longrightarrow>
       apply_batch batch (contents w (db cfs)) h k =
         (case last_effect c k opers of None \<Rightarrow> contents w (db cfs) h k | Some v \<Rightarrow> v))"

lemma batch_agreesD:
  "batch_agrees R contents w cfs opers batch \<Longrightarrow> cf R w cfs (unat c) = Some h \<Longrightarrow>
     apply_batch batch (contents w (db cfs)) h k = (case last_effect c k opers of None \<Rightarrow> contents w (db cfs) h k | Some v \<Rightarrow> v)"
  by (simp add: batch_agrees_def)

context rocks_contract
begin

lemma cf_inject:
  assumes "columns_ok R w cfs" "cf R w cfs i = Some h" "cf R w cfs j = Some h"
  shows "i = j"
proof -
  have "cf_handle R w (db cfs) (col_name i) = Some h" "cf_handle R w (db cfs) (col_name j) = Some h"
    using columns_ok_cf [OF assms(1), of i] columns_ok_cf [OF assms(1), of j] assms(2,3) by (auto simp: not_le)
  then show ?thesis using handle_inject col_name_inject by blast
qed

lemma iterate_keys:
  "fst ` set (iterator_cf_opt R w d h None (Some a)) = {k. a \<le> k \<and> contents w d h k \<noteq> None}"
proof -
  have "fst ` set (iterator_cf_opt R w d h None (Some a)) = dom (map_of (iterator_cf_opt R w d h None (Some a)))"
    by (simp add: dom_map_of_conv_image_fst)
  then show ?thesis by (auto simp: dom_def iterate(2))
qed

lemma agrees_step:
  assumes ok: "columns_ok R w cfs" and ag: "batch_agrees R contents w cfs opers batch"
    and h: "cf R w cfs (unat (db_op_col oper)) = Some h"
    and new: "apply_batch new s = s(h := m (s h))"
    and eff: "\<And>k. m (apply_batch batch (contents w (db cfs)) h) k =
      (case op_effect (db_op_col oper) k oper of None \<Rightarrow> apply_batch batch (contents w (db cfs)) h k | Some v \<Rightarrow> v)"
    and s: "s = apply_batch batch (contents w (db cfs))"
  shows "batch_agrees R contents w cfs (opers @ [oper]) (batch @ new)"
  unfolding batch_agrees_def
proof (intro allI impI)
  fix c :: u32 and h' k
  assume c: "cf R w cfs (unat c) = Some h'"
  have same: "h' = h \<longleftrightarrow> c = db_op_col oper" using cf_inject [OF ok c, of "unat (db_op_col oper)"] c h by (auto simp: word_unat_eq_iff)
  have "op_effect c k oper = None" if "c \<noteq> db_op_col oper" using that by (cases oper) auto
  then show "apply_batch (batch @ new) (contents w (db cfs)) h' k =
      (case last_effect c k (opers @ [oper]) of None \<Rightarrow> contents w (db cfs) h' k | Some v \<Rightarrow> v)"
    using batch_agreesD [OF ag c, of k] eff [of k] same new
    by (cases "c = db_op_col oper") (auto simp: s apply_batch_append last_effect_snoc split: option.splits)
qed

lemma batch_put: "apply_batch [PutCf h k v] s = s(h := (s h)(k \<mapsto> v))" "apply_batch [DeleteCf h k] s = s(h := (s h)(k := None))"
  "apply_batch [DeleteRangeCf h a b] s = s(h := (\<lambda>k. if a \<le> k \<and> k < b then None else s h k))"
  by (simp_all add: apply_batch_def)

lemma agrees_prefix_end:
  assumes "columns_ok R w cfs" "batch_agrees R contents w cfs opers batch" "cf R w cfs (unat c) = Some h"
    and "end_prefix p = Some (Some e)"
  shows "batch_agrees R contents w cfs (opers @ [DeletePrefix c p]) (batch @ [DeleteRangeCf h p e])"
proof (rule agrees_step [OF assms(1,2), where h = h and s = "apply_batch batch (contents w (db cfs))"
      and m = "\<lambda>f k. if p \<le> k \<and> k < e then None else f k"])
  show "cf R w cfs (unat (db_op_col (DeletePrefix c p))) = Some h" using assms(3) by simp
  have "prefix p k \<longleftrightarrow> p \<le> k \<and> k < e" for k using end_prefix_range [of p] assms(4) by auto
  then show "(if p \<le> k \<and> k < e then None else apply_batch batch (contents w (db cfs)) h k) =
      (case op_effect (db_op_col (DeletePrefix c p)) k (DeletePrefix c p) of
         None \<Rightarrow> apply_batch batch (contents w (db cfs)) h k | Some v \<Rightarrow> v)" for k
    by simp
qed (simp_all add: batch_put)

lemma agrees_prefix_no_end:
  assumes ok: "columns_ok R w cfs" and ag: "batch_agrees R contents w cfs opers batch" and h: "cf R w cfs (unat c) = Some h"
    and e: "end_prefix p = Some None" and safe: "prefix_safe opers (DeletePrefix c p)" and p: "list_all (\<lambda>b. b = 0xff) p"
    and es: "es = iterator_cf_opt R w (db cfs) h None (Some (delete_bound p))"
  shows "batch_agrees R contents w cfs (opers @ [DeletePrefix c p])
    (batch @ [DeleteRangeCf h p max_keys] @ map (\<lambda>(k, _). DeleteCf h k) es)"
proof (rule agrees_step [OF ok ag, where s = "apply_batch batch (contents w (db cfs))" and h = h
      and m = "\<lambda>f k. if k \<in> fst ` set es \<or> p \<le> k \<and> k < max_keys then None else f k"])
  let ?s = "apply_batch batch (contents w (db cfs))"
  show "apply_batch ([DeleteRangeCf h p max_keys] @ map (\<lambda>(k, _). DeleteCf h k) es) ?s =
      ?s(h := (\<lambda>k. if k \<in> fst ` set es \<or> p \<le> k \<and> k < max_keys then None else ?s h k))"
    unfolding apply_batch_append batch_put apply_deletes by (auto simp: fun_eq_iff)
  fix k
  have pk: "prefix p k \<longleftrightarrow> p \<le> k" using end_prefix_range [of p] e by auto
  have mem: "k \<in> fst ` set es \<longleftrightarrow> delete_bound p \<le> k \<and> contents w (db cfs) h k \<noteq> None"
    unfolding es iterate_keys by simp
  have gone: "?s h k = None" if "delete_bound p \<le> k" "contents w (db cfs) h k = None"
  proof -
    have "last_effect c k opers \<noteq> Some (Some v)" for v
      using last_effect_insert [of c k opers v] safe p that(1) by (fastforce simp: prefix_safe_def list_all_iff)
    then show ?thesis using batch_agreesD [OF ag h, of k] that(2) by (auto split: option.splits)
  qed
  show "(if k \<in> fst ` set es \<or> p \<le> k \<and> k < max_keys then None else ?s h k) =
      (case op_effect (db_op_col (DeletePrefix c p)) k (DeletePrefix c p) of None \<Rightarrow> ?s h k | Some v \<Rightarrow> v)"
    using gone mem pk delete_bound_le [OF p] delete_bound_range [of k p] by auto
qed (use h in simp_all)

lemma batch_one_spec:
  assumes ok: "columns_ok R w cfs" and ag: "batch_agrees R contents w cfs opers batch" and safe: "prefix_safe opers oper"
    and col: "unat (db_op_col oper) < length (column_names cfs)" and t: "t + op_bytes oper < B"
  shows "\<exists>batch'. batch_one R w cfs oper (batch, t) = Some (batch', t + op_bytes oper) \<and>
    batch_agrees R contents w cfs (opers @ [oper]) batch'"
proof -
  obtain h where h: "cf R w cfs (unat (db_op_col oper)) = Some h"
    using columns_ok_cf(2) [OF ok] col by (metis not_le option.exhaust)
  note step = agrees_step [OF ok ag h, where s = "apply_batch batch (contents w (db cfs))"]
  show ?thesis
  proof (cases oper)
    case (Insert c k v)
    have "batch_agrees R contents w cfs (opers @ [oper]) (batch @ [PutCf h k v])"
      by (rule step [where m = "\<lambda>f. f(k \<mapsto> v)"]) (simp_all add: Insert batch_put)
    then show ?thesis using h t by (simp add: Insert batch_one_def usize_add_def op_bytes_def)
  next
    case (Delete c k)
    have "batch_agrees R contents w cfs (opers @ [oper]) (batch @ [DeleteCf h k])"
      by (rule step [where m = "\<lambda>f. f(k := None)"]) (simp_all add: Delete batch_put)
    then show ?thesis using h t by (simp add: Delete batch_one_def usize_add_def op_bytes_def)
  next
    case (DeletePrefix c p)
    obtain e where e: "end_prefix p = Some e" using end_prefix_range by blast
    show ?thesis
    proof (cases e)
      case None
      have p: "list_all (\<lambda>b. b = 0xff) p" using end_prefix_all_max e None by blast
      show ?thesis
        using agrees_prefix_no_end [OF ok ag _ _ _ p refl, of c h] h e None safe
        by (cases "16 < length p") (simp_all add: DeletePrefix batch_one_def op_bytes_def handler_iter_with_prefix_def Let_def max_keys_def delete_bound_def)
    next
      case (Some b)
      then show ?thesis using agrees_prefix_end [OF ok ag, of c] h e
        by (simp add: DeletePrefix batch_one_def op_bytes_def)
    qed
  qed
qed

lemma batch_all_spec:
  assumes "columns_ok R w cfs" "list_all (\<lambda>oper. unat (db_op_col oper) < length (column_names cfs)) opers"
    and "safe_ops opers" "sum_list (map op_bytes opers) < B"
  shows "\<exists>batch. batch_all R w cfs opers ([], 0) = Some (batch, sum_list (map op_bytes opers)) \<and>
    batch_agrees R contents w cfs opers batch"
  using assms(2-)
proof (induction opers rule: rev_induct)
  case Nil
  show ?case by (simp add: batch_agrees_def last_effect_def apply_batch_def)
next
  case (snoc oper opers)
  then obtain batch where b: "batch_all R w cfs opers ([], 0) = Some (batch, sum_list (map op_bytes opers))"
    "batch_agrees R contents w cfs opers batch"
    by (auto simp: safe_ops_snoc)
  have "batch_all R w cfs (opers @ [oper]) acc = do { acc \<leftarrow> batch_all R w cfs opers acc; batch_one R w cfs oper acc }" for acc
    by (induction opers arbitrary: acc) (auto split: bind_splits)
  then show ?case
    using batch_one_spec [OF assms(1) b(2), of oper] snoc.prems b(1) by (auto simp: safe_ops_snoc)
qed

lemma batch_missing_column:
  assumes "columns_ok R w cfs" "\<not> list_all (\<lambda>oper. unat (db_op_col oper) < length (column_names cfs)) opers"
  shows "batch_all R w cfs opers acc = panic"
  using assms(2)
proof (induction opers arbitrary: acc)
  case (Cons oper opers)
  show ?case
  proof (cases "unat (db_op_col oper) < length (column_names cfs)")
    case True
    then show ?thesis using Cons by (cases "batch_one R w cfs oper acc") simp_all
  next
    case False
    then have "cf R w cfs (unat (db_op_col oper)) = None" using columns_ok_cf(2) [OF assms(1)] by simp
    then show ?thesis by (cases acc) (simp add: batch_one_def)
  qed
qed simp

lemma columns_ok_cong: "cf_handle R w' d = cf_handle R w d \<Longrightarrow> d = db cfs \<Longrightarrow> columns_ok R w' cfs = columns_ok R w cfs"
  by (simp add: columns_ok_def)

lemma cf_cong: "cf_handle R w' d = cf_handle R w d \<Longrightarrow> d = db cfs \<Longrightarrow> cf R w' cfs i = cf R w cfs i"
  by (simp add: cf_def)

lemma check_keeps:
  assumes "check_for_corruption R path res w = Some (r, w')"
  shows "cf_handle R w' d = cf_handle R w d \<and> contents w' d = contents w d" "r = map_sum other_io_err id res"
proof -
  show "r = map_sum other_io_err id res" using assms by (simp add: check_for_corruption_def)
  have "w' = w \<or> (\<exists>p r. create_file R p w = (r, w'))"
    using assms by (auto simp: check_for_corruption_def Let_def split: sum.splits if_splits) (metis surj_pair snd_conv)+
  then show "cf_handle R w' d = cf_handle R w d \<and> contents w' d = contents w d" using mark by blast
qed

lemma write_spec:
  assumes "lock self = Some cfs" "columns_ok R w cfs"
    and "list_all (\<lambda>oper. unat (db_op_col oper) < length (column_names cfs)) (ops tr)"
    and "safe_ops (ops tr)" "sum_list (map op_bytes (ops tr)) < B"
    and st: "st = tally_bytes_written (of_nat (sum_list (map op_bytes (ops tr))))
      (tally_transactions 1 (tally_writes (of_nat (length (ops tr))) (stats self)))"
  shows "\<exists>r w'. rocks_write R self tr w = Some (r, self\<lparr> stats := st \<rparr>, w') \<and> rocks_wf R w' (self\<lparr> stats := st \<rparr>) \<and>
    rocks_contents R contents w' (self\<lparr> stats := st \<rparr>) =
      (case r of Inr _ \<Rightarrow> store_write (ops tr) (rocks_contents R contents w self) | Inl _ \<Rightarrow> rocks_contents R contents w self)"
proof -
  obtain batch where b: "batch_all R w cfs (ops tr) ([], 0) = Some (batch, sum_list (map op_bytes (ops tr)))"
    "batch_agrees R contents w cfs (ops tr) batch"
    using batch_all_spec [OF assms(2-5)] by blast
  obtain res w1 where w1: "write_opt R (db cfs) batch w = (res, w1)" by force
  obtain r w' where w': "check_for_corruption R (db_path self) res w1 = Some (r, w')"
    by (simp add: check_for_corruption_def)
  note keep = check_keeps [OF w']
  have h: "cf_handle R w' (db cfs) = cf_handle R w (db cfs)"
    using keep(1) write_ok [of "db cfs" batch w w1] write_fails [of "db cfs" batch w _ w1] w1 by (cases res) auto
  have ag: "rocks_contents R contents w' s =
      (case r of Inr _ \<Rightarrow> store_write (ops tr) (rocks_contents R contents w self) | Inl _ \<Rightarrow> rocks_contents R contents w self)"
    if "lock s = Some cfs" for s :: "'d database"
  proof (rule ext)
    fix c
    show "rocks_contents R contents w' s c =
      (case r of Inr _ \<Rightarrow> store_write (ops tr) (rocks_contents R contents w self) | Inl _ \<Rightarrow> rocks_contents R contents w self) c"
    proof (cases res)
      case (Inl e)
      then show ?thesis using that assms(1) keep write_fails [of "db cfs" batch w e w1] w1 cf_cong [OF h refl]
        by (simp add: rocks_contents_def)
    next
      case (Inr u)
      then have "contents w' (db cfs) = apply_batch batch (contents w (db cfs))"
        using keep(1) [of "db cfs"] write_ok [of "db cfs" batch w w1] w1 by simp
      then show ?thesis using that assms(1) keep(2) cf_cong [OF h refl] Inr batch_agreesD [OF b(2)]
        by (cases "cf R w cfs (unat c)") (simp_all add: rocks_contents_def store_write_at fun_eq_iff)
    qed
  qed
  have "columns_ok R w' cfs" using columns_ok_cong [OF h refl] assms(2) by simp
  then show ?thesis using ag b(1) w1 w' assms(1) by (simp add: rocks_write_def rocks_wf_def Let_def st)
qed

lemma get_spec:
  assumes "rocks_wf R w self" "lock self = Some cfs" "rocks_get R w self c k = Some (r, self')"
  shows "case rocks_contents R contents w self c of
      None \<Rightarrow> r = Inl (other_io_err (lit ''column index is out of bounds''))
    | Some m \<Rightarrow> (\<exists>e. r = Inl e) \<or> r = Inr (m k)"
proof -
  have ok: "columns_ok R w cfs" using assms(1,2) by (simp add: rocks_wf_def)
  show ?thesis
    using assms(2,3) columns_ok_cf(2) [OF ok, of "unat c"] read [of w "db cfs" _ k]
    by (cases "cf R w cfs (unat c)") (force simp: rocks_get_def rocks_contents_def Let_def
      split: if_splits sum.splits option.splits bind_splits)+
qed

lemma iter_spec:
  assumes "rocks_contents R contents w self c = Some m"
  shows "\<exists>l. rocks_iter R w self c = Some l \<and> sorted_wrt (<) (map fst l) \<and> map_of l = m"
proof -
  obtain cfs h where h: "lock self = Some cfs" "cf R w cfs (unat c) = Some h" "m = contents w (db cfs) h"
    using assms by (auto simp: rocks_contents_def split: option.splits)
  then show ?thesis using iterate [of w "db cfs" h None None]
    by (simp add: rocks_iter_def handler_iter_def fun_eq_iff)
qed

lemma iter_prefix_spec:
  assumes "rocks_contents R contents w self c = Some m"
  shows "\<exists>l. rocks_iter_with_prefix R w self c p = Some l \<and> sorted_wrt (<) (map fst l) \<and>
    map_of l = (\<lambda>k. if prefix p k then m k else None)"
proof -
  obtain cfs h where h: "lock self = Some cfs" "cf R w cfs (unat c) = Some h" "m = contents w (db cfs) h"
    using assms by (auto simp: rocks_contents_def split: option.splits)
  obtain e where e: "end_prefix p = Some e" "\<And>k. prefix p k \<longleftrightarrow> p \<le> k \<and> (case e of None \<Rightarrow> True | Some b \<Rightarrow> k < b)"
    using end_prefix_range [of p] by blast
  then show ?thesis using h iterate [of w "db cfs" h e "Some p"]
    by (simp add: rocks_iter_with_prefix_def handler_iter_with_prefix_def fun_eq_iff)
qed

end

subsection \<open>Opening, restoring and changing the columns\<close>

lemma io_try_ok: "io_try m f w = Some (Inr b, w') \<longleftrightarrow> (\<exists>a w1. m w = Some (Inr a, w1) \<and> f a w1 = Some (Inr b, w'))"
proof (cases "m w")
  case (Some p)
  then show ?thesis by (cases p; cases "fst p") (auto simp: io_try_def)
qed (simp add: io_try_def)

lemma rocks_call_ok: "rocks_call m w = Some (Inr a, w') \<longleftrightarrow> m w = (Inr a, w')"
proof -
  obtain r w1 where "m w = (r, w1)" by force
  then show ?thesis by (cases r) (auto simp: rocks_call_def)
qed

lemma map_sum_Inr: "map_sum f id x = Inr a \<longleftrightarrow> x = Inr a"
  by (cases x) auto

lemma cf_configs_names: "cf_configs cfg bopts ins = Some cfs \<Longrightarrow> map fst cfs = map snd ins"
  by (induction cfg bopts ins arbitrary: cfs rule: cf_configs.induct) (auto simp: bind_eq_Some_conv)

lemma cf_descriptors_names:
  "cf_descriptors cfg bopts names = Some cfs \<Longrightarrow> length names = unat (num_cols cfg) \<Longrightarrow> fst ` set cfs = set names"
  using cf_configs_names [of cfg bopts "zip [0..<unat (num_cols cfg)] names" cfs]
  by (simp add: cf_descriptors_def flip: set_map)

context rocks_contract
begin

lemma create_columns_named:
  "create_columns R d cfg bopts ins w = Some (Inr (), w') \<Longrightarrow>
     (\<forall>n. cf_handle R w d n \<noteq> None \<longrightarrow> cf_handle R w' d n \<noteq> None) \<and> (\<forall>n \<in> snd ` set ins. cf_handle R w' d n \<noteq> None)"
proof (induction ins arbitrary: w)
  case (Cons i ins)
  obtain j name where i: "i = (j, name)" by force
  obtain c w1 where c: "create_cf R d name c w = (Inr (), w1)" "create_columns R d cfg bopts ins w1 = Some (Inr (), w')"
    using Cons.prems by (auto simp: i bind_eq_Some_conv io_try_ok rocks_call_ok)
  have w1: "cf_handle R w1 d n \<noteq> None" if "cf_handle R w d n \<noteq> None \<or> n = name" for n
    using create [OF c(1)] that by (cases "n = name") auto
  then show ?case using Cons.IH [OF c(2)] by (auto simp: i)
qed simp

lemma open_primary_named:
  assumes "open_primary R os path cfg names bopts w = Some (Inr d, w')" "length names = unat (num_cols cfg)" "n \<in> set names"
  shows "\<exists>h. cf_handle R w' d n = Some h"
proof -
  obtain cfs where cfs: "cf_descriptors cfg bopts names = Some cfs"
    using assms(1) by (auto simp: open_primary_def bind_eq_Some_conv)
  have n: "n \<in> fst ` set cfs" using cf_descriptors_names [OF cfs assms(2)] assms(3) by simp
  obtain r w1 where r: "open_cf_descriptors R os path cfs w = (r, w1)" by force
  obtain q w2 where q: "open_cf R os path [] w1 = (q, w2)" by force
  note opened = open_named [OF _ n]
  show ?thesis
  proof (cases r)
    case (Inr a)
    then show ?thesis using assms(1) cfs r opened by (auto simp: open_primary_def)
  next
    case (Inl e)
    show ?thesis
    proof (cases q)
      case Inl': (Inl s)
      then obtain w3 where "open_cf_descriptors R os path cfs w3 = (Inr d, w')"
        using assms(1) cfs r q Inl by (auto simp: open_primary_def io_try_ok rocks_call_ok split: if_splits)
      then show ?thesis by (rule opened)
    next
      case (Inr d')
      then have "create_columns R d cfg bopts (enumerate 0 names) w2 = Some (Inr (), w')"
        using assms(1) cfs r q Inl by (auto simp: open_primary_def io_try_ok io_ok_def)
      then show ?thesis using create_columns_named assms(3) by (metis enumerate_eq_zip map_snd_enumerate option.exhaust set_map)
    qed
  qed
qed

lemma open_secondary_named:
  assumes "open_secondary R os path sp names w = Some (Inr d, w')" "n \<in> set names"
  shows "\<exists>h. cf_handle R w' d n = Some h"
proof -
  obtain r w1 where r: "open_cf_as_secondary R os path sp names w = (r, w1)" by force
  then have "\<exists>w0. open_cf_as_secondary R os path sp names w0 = (Inr d, w')"
    using assms(1) by (cases r) (auto simp: open_secondary_def io_try_ok rocks_call_ok split: if_splits)
  then show ?thesis using open_named_secondary assms(2) by blast
qed

lemma open_db_ok:
  assumes "open_db R num_cpus now1 now2 cfg path w = Some (Inr self, w')"
  shows "rocks_wf R w' self \<and> (\<exists>cfs. lock self = Some cfs \<and> length (column_names cfs) = unat (num_cols cfg)) \<and>
    config self = cfg \<and> db_path self = path \<and> 0 < num_cols cfg"
proof -
  let ?names = "map col_name [0..<unat (num_cols cfg)]"
  obtain b where b: "generate_block_based_options R cfg = Some b"
    using assms by (cases "generate_block_based_options R cfg") (auto simp: open_db_def rust_assert_def Let_def split: if_splits)
  have pos: "0 < num_cols cfg" using assms by (simp add: open_db_def rust_assert_def split: if_splits)
  obtain bopts where bopts: "b = Inr bopts" using assms b pos by (cases b) (simp_all add: open_db_def rust_assert_def)
  have "\<exists>d w1. (case secondary cfg of Some sp \<Rightarrow> open_secondary R (generate_options num_cpus cfg) path sp ?names
      | None \<Rightarrow> open_primary R (generate_options num_cpus cfg) path cfg ?names bopts) w1 = Some (Inr d, w') \<and>
      lock self = Some \<lparr> db = d, column_names = ?names \<rparr> \<and> config self = cfg \<and> db_path self = path"
    using assms b bopts pos by (auto simp: open_db_def rust_assert_def io_try_ok io_ok_def Let_def)
  then obtain d w1 where self: "lock self = Some \<lparr> db = d, column_names = ?names \<rparr>" "config self = cfg" "db_path self = path"
    and o: "(case secondary cfg of Some sp \<Rightarrow> open_secondary R (generate_options num_cpus cfg) path sp ?names
      | None \<Rightarrow> open_primary R (generate_options num_cpus cfg) path cfg ?names bopts) w1 = Some (Inr d, w')"
    by blast
  have "\<exists>h. cf_handle R w' d n = Some h" if "n \<in> set ?names" for n
    using o that by (auto split: option.splits intro: open_primary_named open_secondary_named)
  then have "columns_ok R w' \<lparr> db = d, column_names = ?names \<rparr>"
    using unat_lt_radix [of "num_cols cfg"] unfolding columns_ok_def
    by (intro conjI exI [of _ "unat (num_cols cfg)"]) (simp_all add: radix_def)
  then show ?thesis using self pos by (simp add: rocks_wf_def)
qed

lemma columns_names: "columns_ok R w cfs \<Longrightarrow> length (column_names cfs) = n \<Longrightarrow> column_names cfs = map col_name [0..<n]"
  by (auto simp: columns_ok_def)

lemma columns_handle:
  assumes "columns_ok R w cfs" "i < length (column_names cfs)"
  shows "\<exists>h. cf_handle R w (db cfs) (col_name i) = Some h"
  using columns_ok_cf(1) [OF assms(1), of i] assms(2) by blast

lemma columns_okI:
  assumes "n \<le> 2 ^ 32" "\<And>i. i < n \<Longrightarrow> \<exists>h. cf_handle R w (db cfs) (col_name i) = Some h"
  shows "columns_ok R w (cfs\<lparr> column_names := map col_name [0..<n] \<rparr>)"
  using assms by (auto simp: columns_ok_def)

lemma contents_columns:
  assumes "lock self = Some (cfs\<lparr> column_names := map col_name [0..<n] \<rparr>)"
  shows "rocks_contents R contents w self i =
    (if unat i < n then map_option (contents w (db cfs)) (cf_handle R w (db cfs) (col_name (unat i))) else None)"
  using assms by (simp add: rocks_contents_def cf_def index_at_def)

lemma contents_names:
  assumes "lock self = Some cfs" "column_names cfs = map col_name [0..<n]"
  shows "rocks_contents R contents w self i =
    (if unat i < n then map_option (contents w (db cfs)) (cf_handle R w (db cfs) (col_name (unat i))) else None)"
  using assms by (simp add: rocks_contents_def cf_def index_at_def)

lemma keep_columns:
  assumes "\<forall>m h. m \<noteq> col_name n \<longrightarrow> cf_handle R w d m = Some h \<longrightarrow> cf_handle R w' d m = Some h \<and> contents w' d h = contents w d h"
    and "cf_handle R w d (col_name j) = Some h" "j \<noteq> n"
  shows "cf_handle R w' d (col_name j) = Some h" "contents w' d h = contents w d h"
  using assms col_name_inject by blast+

lemma add_column_ok:
  assumes "lock self = Some cfs" "columns_ok R w cfs" "length (column_names cfs) = n" "n < 2 ^ 32"
    and "add_column R self w = Some (Inr (), self', w')"
  shows "rocks_wf R w' self'" "num_columns self' = of_nat (Suc n)"
    "rocks_contents R contents w' self' = (rocks_contents R contents w self)(of_nat n \<mapsto> Map.empty)"
    "\<exists>cfs'. lock self' = Some cfs' \<and> length (column_names cfs') = Suc n"
proof -
  have names: "column_names cfs = map col_name [0..<n]" using columns_names [OF assms(2,3)] .
  have u: "unat (of_nat n :: u32) = n" using assms(4) by (simp add: unat_of_nat_lt radix_def)
  obtain co where cc: "column_config (config self) (block_opts self) (of_nat n) = Some co"
    using assms(1,3,5) by (cases "column_config (config self) (block_opts self) (of_nat n)") (simp_all add: add_column_def Let_def)
  obtain r w1 where r: "create_cf R (db cfs) (col_name n) co w = (r, w1)" by force
  then have co: "create_cf R (db cfs) (col_name n) co w = (Inr (), w')"
    and self': "lock self' = Some (cfs\<lparr> column_names := map col_name [0..<Suc n] \<rparr>)"
    using assms(1,3,5) u names cc by (cases r; auto simp add: add_column_def)+
  note c = create [OF co] and old = columns_handle [OF assms(2), unfolded assms(3)]
  note keep = keep_columns [OF conjunct2 [OF c]]
  have "\<exists>h. cf_handle R w' (db cfs) (col_name i) = Some h" if "i < Suc n" for i
    using conjunct1 [OF c] old [of i] keep(1) [of i] that by (cases "i = n") auto
  then have "columns_ok R w' (cfs\<lparr> column_names := map col_name [0..<Suc n] \<rparr>)" using assms(4) by (intro columns_okI) auto
  then show "rocks_wf R w' self'" using self' by (simp add: rocks_wf_def del: upt_Suc)
  show "num_columns self' = of_nat (Suc n)" using self' by (simp add: num_columns_def)
  show "\<exists>cfs'. lock self' = Some cfs' \<and> length (column_names cfs') = Suc n" using self' by (simp del: upt_Suc)
  show "rocks_contents R contents w' self' = (rocks_contents R contents w self)(of_nat n \<mapsto> Map.empty)"
  proof (rule ext)
    fix i :: u32
    have "i = of_nat n \<longleftrightarrow> unat i = n" using u by (auto simp: word_unat_eq_iff)
    then show "rocks_contents R contents w' self' i = ((rocks_contents R contents w self)(of_nat n \<mapsto> Map.empty)) i"
      unfolding contents_columns [OF self'] fun_upd_apply contents_names [OF assms(1) names]
      using conjunct1 [OF c] old [of "unat i"] keep [of "unat i"] by auto
  qed
qed

lemma remove_column_ok:
  assumes "lock self = Some cfs" "columns_ok R w cfs" "length (column_names cfs) = Suc n"
    and "remove_last_column R self w = (Inr (), self', w')"
  shows "rocks_wf R w' self'" "rocks_contents R contents w' self' = (rocks_contents R contents w self)(of_nat n := None)"
proof -
  have names: "column_names cfs = map col_name [0..<Suc n]" using columns_names [OF assms(2,3)] .
  have lt: "n < 2 ^ 32" using assms(2,3) by (auto simp: columns_ok_def)
  then have u: "unat (of_nat n :: u32) = n" by (simp add: unat_of_nat_lt radix_def)
  obtain r w1 where r: "drop_cf R (db cfs) (col_name n) w = (r, w1)" by force
  then have dr: "drop_cf R (db cfs) (col_name n) w = (Inr (), w')"
    and self': "lock self' = Some (cfs\<lparr> column_names := map col_name [0..<n] \<rparr>)"
    using assms(1,4) names by (auto simp add: remove_last_column_def map_sum_Inr)
  note old = columns_handle [OF assms(2), unfolded assms(3)] and keep = keep_columns [OF drop [OF dr]]
  have "\<exists>h. cf_handle R w' (db cfs) (col_name i) = Some h" if "i < n" for i
    using old [of i] keep(1) [of i] that by auto
  then have "columns_ok R w' (cfs\<lparr> column_names := map col_name [0..<n] \<rparr>)" using lt by (intro columns_okI) auto
  then show "rocks_wf R w' self'" using self' by (simp add: rocks_wf_def)
  show "rocks_contents R contents w' self' = (rocks_contents R contents w self)(of_nat n := None)"
  proof (rule ext)
    fix i :: u32
    have "i = of_nat n \<longleftrightarrow> unat i = n" using u by (auto simp: word_unat_eq_iff)
    then show "rocks_contents R contents w' self' i = ((rocks_contents R contents w self)(of_nat n := None)) i"
      unfolding contents_columns [OF self'] fun_upd_apply contents_names [OF assms(1) names]
      using old [of "unat i"] keep [of "unat i"] by auto
  qed
qed

end

subsection \<open>A disk that keeps the contract\<close>

text \<open>A disk with one database: the names of its column families and their entries.\<close>

record disk =
  disk_names :: "str list"
  disk_cols :: "str \<Rightarrow> (bytes, bytes) fmap"

fun disk_op :: "str batch_op \<Rightarrow> disk \<Rightarrow> disk" where
  "disk_op (PutCf h k v) w = w\<lparr> disk_cols := (disk_cols w)(h := fmupd k v (disk_cols w h)) \<rparr>"
| "disk_op (DeleteCf h k) w = w\<lparr> disk_cols := (disk_cols w)(h := fmdrop k (disk_cols w h)) \<rparr>"
| "disk_op (DeleteRangeCf h a b) w = w\<lparr> disk_cols := (disk_cols w)(h := fmfilter (\<lambda>k. \<not> (a \<le> k \<and> k < b)) (disk_cols w h)) \<rparr>"

definition disk_contents :: "disk \<Rightarrow> unit \<Rightarrow> str \<Rightarrow> bytes \<rightharpoonup> bytes" where
  "disk_contents w d h = fmlookup (disk_cols w h)"

definition disk_keys :: "disk \<Rightarrow> str \<Rightarrow> bytes option \<Rightarrow> bytes option \<Rightarrow> bytes list" where
  "disk_keys w h upper from =
     sorted_list_of_fset (ffilter (\<lambda>k. (case from of None \<Rightarrow> True | Some a \<Rightarrow> a \<le> k) \<and>
       (case upper of None \<Rightarrow> True | Some b \<Rightarrow> k < b)) (fmdom (disk_cols w h)))"

definition disk_rocks :: "(disk, unit, str) rocks" where
  "disk_rocks =
     \<lparr> new_lru_cache = Inr,
       open_cf_descriptors = \<lambda>os p cfs w. (Inr (), w\<lparr> disk_names := disk_names w @ map fst cfs \<rparr>),
       open_cf = \<lambda>os p names w. (Inr (), w),
       open_cf_as_secondary = \<lambda>os p sp names w. (Inr (), w\<lparr> disk_names := disk_names w @ names \<rparr>),
       repair = \<lambda>os p w. (Inr (), w),
       create_cf = \<lambda>d name co w. (Inr (), w\<lparr> disk_names := disk_names w @ [name], disk_cols := (disk_cols w)(name := fmempty) \<rparr>),
       drop_cf = \<lambda>d name w. (Inr (), w\<lparr> disk_names := filter (\<lambda>n. n \<noteq> name) (disk_names w) \<rparr>),
       cf_handle = \<lambda>w d n. if n \<in> set (disk_names w) then Some n else None,
       write_opt = \<lambda>d batch w. (Inr (), fold disk_op batch w),
       get_pinned_cf_opt = \<lambda>w d h k. Inr (fmlookup (disk_cols w h) k),
       iterator_cf_opt = \<lambda>w d h upper from. map (\<lambda>k. (k, the (fmlookup (disk_cols w h) k))) (disk_keys w h upper from),
       property_int_value_cf = \<lambda>w d h prop. Inr (Some 0),
       catch_up_with_primary = \<lambda>d w. (Inr (), w),
       options_statistics = \<lambda>w os. None,
       path_exists = \<lambda>w p. False,
       create_file = \<lambda>p w. (Inr (), w),
       remove_file = \<lambda>p w. (Inr (), w),
       remove_dir_all = \<lambda>p w. (Inr (), w),
       fs_swap = \<lambda>a b w. (Inr (), w),
       fs_swap_nonatomic = \<lambda>a b w. (Inr (), w) \<rparr>"

lemma disk_op_contents: "disk_contents (disk_op b w) d = batch_apply b (disk_contents w d)" "disk_names (disk_op b w) = disk_names w"
  by (cases b; auto simp: disk_contents_def fun_eq_iff)+

lemma disk_batch:
  "disk_contents (fold disk_op batch w) d = apply_batch batch (disk_contents w d)" "disk_names (fold disk_op batch w) = disk_names w"
  by (induction batch arbitrary: w) (simp_all add: apply_batch_def disk_op_contents)

lemma sorted_disk_keys: "sorted_wrt (<) (disk_keys w h upper from)"
  by (simp add: disk_keys_def sorted_list_of_fset.rep_eq)

lemma set_disk_keys:
  "set (disk_keys w h upper from) = {k. (case from of None \<Rightarrow> True | Some a \<Rightarrow> a \<le> k) \<and>
     (case upper of None \<Rightarrow> True | Some b \<Rightarrow> k < b) \<and> fmlookup (disk_cols w h) k \<noteq> None}"
  unfolding disk_keys_def by (auto simp: fmdom'_alt_def [symmetric] fmlookup_dom'_iff)

interpretation on_disk: rocks_contract disk_rocks disk_contents
proof
  show "sorted_wrt (<) (map fst (iterator_cf_opt disk_rocks w d h upper from))" for w d h upper "from"
    by (simp add: disk_rocks_def comp_def sorted_disk_keys)
  show "map_of (iterator_cf_opt disk_rocks w d h upper from) k =
      (if (case from of None \<Rightarrow> True | Some a \<Rightarrow> a \<le> k) \<and> (case upper of None \<Rightarrow> True | Some b \<Rightarrow> k < b)
       then disk_contents w d h k else None)" for w d h upper "from" k
    using set_disk_keys [of w h upper "from"]
    by (auto simp: disk_rocks_def map_of_map_restrict disk_contents_def restrict_map_def)
  show "\<exists>h. cf_handle disk_rocks w' d n = Some h"
    if "open_cf_descriptors disk_rocks os p cfs w = (Inr d, w')" "n \<in> fst ` set cfs" for os p cfs w d w' n
  proof -
    have "disk_names w' = disk_names w @ map fst cfs" using that(1) by (auto simp: disk_rocks_def)
    then have "n \<in> set (disk_names w')" using that(2) by simp
    then show ?thesis by (simp add: disk_rocks_def)
  qed
qed (auto simp: disk_rocks_def disk_batch disk_contents_def split: if_splits)

subsection \<open>Properties\<close>

text \<open>
  C26. A write to the database on disk applies its transaction: on an open database with its columns, for a transaction
  on existing columns in which no key from sixteen \<^verbatim>\<open>0xff\<close> bytes on is inserted before a deletion by a prefix without an end,
  \<^verbatim>\<open>write\<close> does not panic; when it returns \<^verbatim>\<open>Ok\<close> the contents are the old ones with the operations
  applied in order, deletions by prefix included, and when it returns an error they are
  unchanged; the columns stay and the operations and bytes are counted. A transaction that names a missing column panics.
\<close>

theorem rocks_write_refines:
  assumes laws: "rocks_contract R contents" and wf: "rocks_wf R w self" and self: "lock self = Some cfs"
    and cols: "list_all (\<lambda>oper. unat (db_op_col oper) < length (column_names cfs)) (ops tr)"
    and safe: "safe_ops (ops tr)" "sum_list (map op_bytes (ops tr)) < B"
    and bad: "\<not> list_all (\<lambda>oper. unat (db_op_col oper) < length (column_names cfs)) (ops tr')"
  shows "(\<exists>r self' w'. rocks_write R self tr w = Some (r, self', w') \<and> rocks_wf R w' self' \<and> lock self' = Some cfs \<and>
      rocks_contents R contents w' self' =
        (case r of Inr _ \<Rightarrow> store_write (ops tr) (rocks_contents R contents w self) | Inl _ \<Rightarrow> rocks_contents R contents w self) \<and>
      writes (current (stats self')) = writes (current (stats self)) + of_nat (length (ops tr)) \<and>
      bytes_written (current (stats self')) = bytes_written (current (stats self)) + of_nat (sum_list (map op_bytes (ops tr)))) \<and>
    rocks_write R self tr' w = panic"
proof -
  have ok: "columns_ok R w cfs" using wf self by (simp add: rocks_wf_def)
  have "rocks_write R self tr' w = panic"
    using rocks_contract.batch_missing_column [OF laws ok bad] self by (simp add: rocks_write_def Let_def)
  then show ?thesis
    using rocks_contract.write_spec [OF laws self ok cols safe refl] self
    by (auto simp: tally_bytes_written_def tally_transactions_def tally_writes_def)
qed

text \<open>A new database with one column on an empty disk.\<close>

definition empty_disk :: disk where
  "empty_disk = \<lparr> disk_names = [col_name 0], disk_cols = \<lambda>_. fmempty \<rparr>"

definition sample_columns :: "unit db_and_columns" where
  "sample_columns = \<lparr> db = (), column_names = [col_name 0] \<rparr>"

definition sample_db :: "unit database" where
  "sample_db = \<lparr> lock = Some sample_columns, config = config_default, db_path = [], opts = [], block_opts = [],
     stats = running_new 0 0 \<rparr>"

lemma sample_db_wf: "rocks_wf disk_rocks empty_disk sample_db"
proof -
  have "column_names sample_columns = map col_name [0..<1]" by (simp add: sample_columns_def)
  then show ?thesis
    unfolding rocks_wf_def columns_ok_def
    by (auto simp: sample_db_def sample_columns_def disk_rocks_def empty_disk_def intro!: exI [of _ 1])
qed

theorem rocks_write_refines_witness:
  "\<exists>self' w'. rocks_write disk_rocks sample_db \<lparr> ops = [DeletePrefix 0 [], Insert 0 [1] [2]] \<rparr> empty_disk = Some (Inr (), self', w') \<and>
     rocks_contents disk_rocks disk_contents w' self' 0 = Some [[1] \<mapsto> [2]]"
proof -
  let ?tr = "\<lparr> ops = [DeletePrefix 0 [], Insert 0 [1] [2]] \<rparr>" and ?bad = "\<lparr> ops = [Delete 1 []] \<rparr>"
  have l: "lock sample_db = Some sample_columns" by (simp add: sample_db_def)
  have c: "list_all (\<lambda>oper. unat (db_op_col oper) < length (column_names sample_columns)) (ops ?tr)"
    "safe_ops (ops ?tr)" "sum_list (map op_bytes (ops ?tr)) < B"
    "\<not> list_all (\<lambda>oper. unat (db_op_col oper) < length (column_names sample_columns)) (ops ?bad)"
    by (simp_all add: sample_columns_def safe_ops_def prefix_safe_def op_bytes_def B_eq)
  have "rocks_contents disk_rocks disk_contents empty_disk sample_db 0 = Some Map.empty"
    by (simp add: rocks_contents_def sample_db_def sample_columns_def cf_def index_at_def disk_rocks_def empty_disk_def
        disk_contents_def fun_eq_iff)
  moreover obtain r self' w' where "rocks_write disk_rocks sample_db ?tr empty_disk = Some (r, self', w')"
    "rocks_contents disk_rocks disk_contents w' self' =
      (case r of Inr _ \<Rightarrow> store_write (ops ?tr) (rocks_contents disk_rocks disk_contents empty_disk sample_db)
       | Inl _ \<Rightarrow> rocks_contents disk_rocks disk_contents empty_disk sample_db)"
    using rocks_write_refines [OF on_disk.rocks_contract_axioms sample_db_wf l c] by blast
  moreover have "\<exists>u. r = Inr u" if "rocks_write disk_rocks sample_db ?tr empty_disk = Some (r, self', w')" for r self' w'
    using that by (auto simp: rocks_write_def sample_db_def disk_rocks_def check_for_corruption_def Let_def bind_eq_Some_conv)
  ultimately show ?thesis
    by (force simp: store_write_def store_op_def split: sum.splits)
qed

text \<open>
  The restriction on the transactions is needed: a key of sixteen \<^verbatim>\<open>0xff\<close> bytes that is inserted before the deletion of
  everything in the same transaction is still there afterwards, as the keys from that bound on are looked up in the
  database and not in the transaction. The database in memory deletes it.
\<close>

theorem delete_prefix_misses_key:
  assumes tr: "tr = \<lparr> ops = [Insert 0 max_keys [7], DeletePrefix 0 []] \<rparr>"
  shows "\<exists>self' w'. rocks_write disk_rocks sample_db tr empty_disk = Some (Inr (), self', w') \<and>
    map_option (\<lambda>m. m max_keys) (rocks_contents disk_rocks disk_contents w' self' 0) = Some (Some [7])"
    and "\<exists>db'. write_db (create 1) tr = Some (Inr (), db') \<and> get db' 0 max_keys = Inr None"
proof -
  have e: "end_prefix [] = Some None" by (simp add: end_prefix_def pop_max.simps)
  have k: "disk_keys empty_disk h None (Some q) = []" for h q
    using set_disk_keys [of empty_disk h None "Some q"] by (simp add: empty_disk_def)
  show "\<exists>self' w'. rocks_write disk_rocks sample_db tr empty_disk = Some (Inr (), self', w') \<and>
      map_option (\<lambda>m. m max_keys) (rocks_contents disk_rocks disk_contents w' self' 0) = Some (Some [7])"
    using k e by (simp add: tr rocks_write_def sample_db_def sample_columns_def batch_one_def cf_def index_at_def disk_rocks_def
        empty_disk_def check_for_corruption_def handler_iter_with_prefix_def usize_add_def B_eq rocks_contents_def disk_contents_def
        max_keys_def Let_def)
  have m: "db_contents (create 1) 0 = Some Map.empty" by (simp add: create_facts(1))
  obtain db' where db: "write_db (create 1) tr = Some (Inr (), db')" using mem.write_law [OF create_facts(2)] by blast
  have "last_effect 0 max_keys (ops tr) = Some None" by (simp add: tr last_effect_def)
  then show "\<exists>db'. write_db (create 1) tr = Some (Inr (), db') \<and> get db' 0 max_keys = Inr None"
    using mem.read_after_write [OF create_facts(2) m db, of max_keys] db by simp
qed

lemma least_key:
  fixes l :: "(bytes \<times> bytes) list"
  assumes "sorted_wrt (<) (map fst l)" "map_of l = (\<lambda>k. if prefix p k then m k else None)"
  shows "(case l of [] \<Rightarrow> None | (_, v) # _ \<Rightarrow> Some v) =
    (if {k \<in> dom m. prefix p k} = {} then None else m (Min {k \<in> dom m. prefix p k}))"
proof -
  have d: "{k \<in> dom m. prefix p k} = fst ` set l"
    using arg_cong [OF assms(2), of dom] by (auto simp: dom_map_of_conv_image_fst split: if_splits)
  show ?thesis
  proof (cases l)
    case (Cons x xs)
    obtain k v where x: "x = (k, v)" by (cases x)
    have "Min (fst ` set l) = k" using assms(1) by (intro Min_eqI) (auto simp: Cons x less_imp_le)
    moreover have "m k = Some v" using fun_cong [OF assms(2), of k] by (auto simp: Cons x split: if_splits)
    ultimately show ?thesis unfolding d by (simp add: Cons x)
  qed (simp add: d)
qed

lemma rocks_get_exact:
  assumes laws: "rocks_contract R contents" and wf: "rocks_wf R w self" and self: "lock self = Some cfs"
    and m: "rocks_contents R contents w self c = Some m" and h: "cf_handle R w (db cfs) (col_name (unat c)) = Some h"
    and len: "length k + (case m k of None \<Rightarrow> 0 | Some v \<Rightarrow> length v) < B"
  shows "rocks_get R w self c k =
      Some (case get_pinned_cf_opt R w (db cfs) h k of
          Inl e \<Rightarrow> (Inl (other_io_err e), self\<lparr> stats := tally_reads 1 (stats self) \<rparr>)
        | Inr _ \<Rightarrow> (Inr (m k), self\<lparr> stats := tally_bytes_read (of_nat (length k + (case m k of None \<Rightarrow> 0 | Some v \<Rightarrow> length v)))
            (tally_reads 1 (stats self)) \<rparr>))"
proof -
  have ok: "columns_ok R w cfs" using wf self by (simp add: rocks_wf_def)
  have "cf R w cfs (unat c) = Some h" "contents w (db cfs) h = m" "\<not> length (column_names cfs) \<le> unat c"
    using m self h columns_ok_cf [OF ok, of "unat c"] by (auto simp: rocks_contents_def)
  then show ?thesis
    using self len rocks_contract.read [OF laws, of w "db cfs" h k]
    by (cases "get_pinned_cf_opt R w (db cfs) h k") (auto simp: rocks_get_def Let_def usize_add_def split: option.splits)
qed

text \<open>
  C27. Reading the database on disk, on an open database with its columns. \<^verbatim>\<open>get\<close> of a column asks the crate for the key in the column
  family of that number: when the crate reads, the result is the entry of the column, and one read with the bytes of key and value is counted;
  an error of the crate is returned and the read is counted; a missing column is an error of its own. \<^verbatim>\<open>iter\<close> lists the entries
  of the column in ascending order of the keys, \<^verbatim>\<open>iter_with_prefix\<close> exactly those with the prefix, and \<^verbatim>\<open>get_by_prefix\<close> returns
  the value of the least key with the prefix, if there is one. A closed database answers reads with nothing and refuses writes.
\<close>

theorem rocks_reads_contents:
  assumes laws: "rocks_contract R contents" and wf: "rocks_wf R w self" and self: "lock self = Some cfs"
    and m: "rocks_contents R contents w self c = Some m" and missing: "rocks_contents R contents w self c' = None"
    and h: "cf_handle R w (db cfs) (col_name (unat c)) = Some h" and len: "length k + (case m k of None \<Rightarrow> 0 | Some v \<Rightarrow> length v) < B"
  shows "rocks_get R w self c k =
      Some (case get_pinned_cf_opt R w (db cfs) h k of
          Inl e \<Rightarrow> (Inl (other_io_err e), self\<lparr> stats := tally_reads 1 (stats self) \<rparr>)
        | Inr _ \<Rightarrow> (Inr (m k), self\<lparr> stats := tally_bytes_read (of_nat (length k + (case m k of None \<Rightarrow> 0 | Some v \<Rightarrow> length v)))
            (tally_reads 1 (stats self)) \<rparr>)) \<and>
    rocks_get R w self c' k = Some (Inl (other_io_err (lit ''column index is out of bounds'')), self) \<and>
    (\<exists>l lp. rocks_iter R w self c = Some l \<and> sorted_wrt (<) (map fst l) \<and> map_of l = m \<and>
      rocks_iter_with_prefix R w self c p = Some lp \<and> sorted_wrt (<) (map fst lp) \<and>
      map_of lp = (\<lambda>k. if prefix p k then m k else None)) \<and>
    rocks_get_by_prefix R w self c p = Some
      (if {k \<in> dom m. prefix p k} = {} then None else m (Min {k \<in> dom m. prefix p k})) \<and>
    rocks_get R w (close_db self) c k = Some (Inr None, close_db self) \<and> rocks_iter R w (close_db self) c = Some [] \<and>
    rocks_write R (close_db self) tr w = Some (Inl (other_io_err (lit ''Database is closed'')), close_db self, w)"
proof -
  have ok: "columns_ok R w cfs" using wf self by (simp add: rocks_wf_def)
  have "rocks_get R w self c' k = Some (Inl (other_io_err (lit ''column index is out of bounds'')), self)"
    using missing self columns_ok_cf(2) [OF ok, of "unat c'"] by (simp add: rocks_contents_def rocks_get_def)
  moreover note rocks_get_exact [OF laws wf self m h len]
  moreover obtain l lp where l: "rocks_iter R w self c = Some l" "sorted_wrt (<) (map fst l)" "map_of l = m"
    and lp: "rocks_iter_with_prefix R w self c p = Some lp" "sorted_wrt (<) (map fst lp)"
      "map_of lp = (\<lambda>k. if prefix p k then m k else None)"
    using rocks_contract.iter_spec [OF laws m] rocks_contract.iter_prefix_spec [OF laws m, of p] by blast
  moreover have "rocks_get_by_prefix R w self c p = Some
      (if {k \<in> dom m. prefix p k} = {} then None else m (Min {k \<in> dom m. prefix p k}))"
    unfolding rocks_get_by_prefix_def lp(1) least_key [OF lp(2,3), symmetric] by simp
  moreover have "rocks_get R w (close_db self) c k = Some (Inr None, close_db self)" "rocks_iter R w (close_db self) c = Some []"
    "rocks_write R (close_db self) tr w = Some (Inl (other_io_err (lit ''Database is closed'')), close_db self, w)"
    by (simp_all add: close_db_def rocks_get_def rocks_iter_def rocks_write_def)
  ultimately show ?thesis by blast
qed

theorem rocks_reads_contents_witness:
  "rocks_get disk_rocks empty_disk sample_db 0 [3] = Some (Inr None, sample_db\<lparr> stats := tally_bytes_read 1 (tally_reads 1 (stats sample_db)) \<rparr>) \<and>
   rocks_get disk_rocks empty_disk sample_db 1 [3] =
     Some (Inl (other_io_err (lit ''column index is out of bounds'')), sample_db) \<and>
   rocks_get_by_prefix disk_rocks empty_disk sample_db 0 [5] = Some None"
proof -
  note defs = sample_db_def sample_columns_def cf_def index_at_def disk_rocks_def empty_disk_def disk_contents_def
  have m: "rocks_contents disk_rocks disk_contents empty_disk sample_db 0 = Some Map.empty"
    "rocks_contents disk_rocks disk_contents empty_disk sample_db 1 = None" "lock sample_db = Some sample_columns"
    "cf_handle disk_rocks empty_disk (db sample_columns) (col_name (unat (0 :: u32))) = Some (col_name 0)"
    by (simp_all add: rocks_contents_def defs fun_eq_iff)
  have "get_pinned_cf_opt disk_rocks empty_disk (db sample_columns) (col_name 0) [3] = Inr None" by (simp add: defs)
  then show ?thesis
    using rocks_reads_contents [OF on_disk.rocks_contract_axioms sample_db_wf m(3,1,2,4), of "[3]" "[5]"] by (simp add: B_eq)
qed

lemma opened_columns:
  assumes "rocks_contract R contents" and "open_db R num_cpus now1 now2 cfg path w = Some (Inr self, w')"
  shows "\<exists>cfs. lock self = Some cfs \<and> columns_ok R w' cfs \<and> length (column_names cfs) = unat (num_cols cfg) \<and>
    num_columns self = num_cols cfg"
proof -
  obtain cfs where "lock self = Some cfs" "length (column_names cfs) = unat (num_cols cfg)" "rocks_wf R w' self"
    using rocks_contract.open_db_ok [OF assms] by blast
  then show ?thesis by (auto simp: rocks_wf_def num_columns_def word_unat_eq_iff)
qed

lemma restore_result:
  assumes "rocks_contract R contents" and "rocks_restore R num_cpus now1 now2 self new_db w = Some (r, self', w')"
  shows "case r of Inl _ \<Rightarrow> lock self' = None | Inr _ \<Rightarrow> rocks_wf R w' self' \<and> num_columns self' = num_cols (config self)"
proof -
  obtain q w1 where q: "swap_in R new_db (db_path self) w = (q, w1)" by force
  show ?thesis
  proof (cases q)
    case (Inl e)
    then show ?thesis using assms(2) q by (auto simp: rocks_restore_def close_db_def)
  next
    case (Inr u)
    then obtain r1 where r1: "open_db R num_cpus now1 now2 (config self) (db_path self) w1 = Some (r1, w')"
      using assms(2) q
      by (cases "open_db R num_cpus now1 now2 (config self) (db_path self) w1")
         (auto simp: rocks_restore_def close_db_def Let_def split: sum.split_asm)
    show ?thesis
    proof (cases r1)
      case Inl': (Inl e)
      then show ?thesis using assms(2) q Inr r1 by (auto simp: rocks_restore_def close_db_def)
    next
      case Inr': (Inr d)
      then have "r = Inr ()" "lock self' = lock d"
        using assms(2) q Inr r1 by (auto simp: rocks_restore_def close_db_def)
      then show ?thesis
        using opened_columns [OF assms(1) r1 [unfolded Inr']] by (auto simp: rocks_wf_def num_columns_def)
    qed
  qed
qed

text \<open>
  C28. The columns of the database on disk: \<^verbatim>\<open>open\<close> refuses a configuration without columns; a database it returns,
  by whichever of its ways, has exactly the configured columns, all accessible; \<^verbatim>\<open>add_column\<close> adds one empty column after them and
  keeps the others, \<^verbatim>\<open>remove_last_column\<close> then takes it away again; \<^verbatim>\<open>restore\<close> either returns \<^verbatim>\<open>Ok\<close> and the
  database has the configured columns again, or returns an error and leaves the database closed.
\<close>

theorem columns_lifecycle:
  assumes laws: "rocks_contract R contents"
    and o: "open_db R num_cpus now1 now2 cfg path w = Some (Inr self, w1)" and n: "Suc (unat (num_cols cfg)) < 2 ^ 32"
    and add: "add_column R self w1 = Some (Inr (), self2, w2)"
    and rem: "remove_last_column R self2 w2 = (Inr (), self3, w3)"
    and res: "rocks_restore R num_cpus now1 now2 self new_db w1 = Some (r, self4, w4)"
  shows "open_db R num_cpus now1 now2 (cfg\<lparr> num_cols := 0 \<rparr>) path w = panic \<and>
    rocks_wf R w1 self \<and> num_columns self = num_cols cfg \<and>
    rocks_wf R w2 self2 \<and> num_columns self2 = num_cols cfg + 1 \<and>
    rocks_contents R contents w2 self2 = (rocks_contents R contents w1 self)(num_cols cfg \<mapsto> Map.empty) \<and>
    rocks_wf R w3 self3 \<and> rocks_contents R contents w3 self3 = rocks_contents R contents w1 self \<and>
    (case r of Inl _ \<Rightarrow> lock self4 = None | Inr _ \<Rightarrow> rocks_wf R w4 self4 \<and> num_columns self4 = num_cols cfg)"
proof -
  obtain cfs where cfs: "lock self = Some cfs" "columns_ok R w1 cfs" "length (column_names cfs) = unat (num_cols cfg)"
    "num_columns self = num_cols cfg"
    using opened_columns [OF laws o] by blast
  have lt: "unat (num_cols cfg) < 2 ^ 32" using n by simp
  note a = rocks_contract.add_column_ok [OF laws cfs(1-3) lt add]
  obtain cfs2 where l2: "lock self2 = Some cfs2" "length (column_names cfs2) = Suc (unat (num_cols cfg))" using a(4) by blast
  have "columns_ok R w2 cfs2" using a(1) l2 by (simp add: rocks_wf_def)
  then have r3: "rocks_wf R w3 self3"
    "rocks_contents R contents w3 self3 = (rocks_contents R contents w2 self2)(of_nat (unat (num_cols cfg)) := None)"
    using rocks_contract.remove_column_ok [OF laws l2(1) _ l2(2) rem] by blast+
  have "rocks_contents R contents w1 self (num_cols cfg) = None"
    using cfs(1) columns_ok_cf(2) [OF cfs(2), of "unat (num_cols cfg)"] cfs(3) by (simp add: rocks_contents_def)
  then have "rocks_contents R contents w3 self3 = rocks_contents R contents w1 self" using r3(2) a(3) by (simp add: fun_upd_idem)
  moreover have c: "config self = cfg" using rocks_contract.open_db_ok [OF laws o] by blast
  ultimately show ?thesis
    using cfs a r3(1) restore_result [OF laws res, unfolded c] by (simp add: rocks_wf_def open_db_def rust_assert_def add.commute)
qed

lemma disk_opens: "\<exists>self w1. open_db disk_rocks 4 0 0 config_default [] w = Some (Inr self, w1)"
  by (simp add: open_db_def rust_assert_def generate_block_based_options_def memory_budget_def memory_budget_for_col_spec config_default_def
      usize_add_def B_eq disk_rocks_def io_try_def repair_marked_def open_primary_def cf_descriptors_def column_config_def io_ok_def Let_def)

theorem columns_lifecycle_witness:
  "\<exists>self w1 self2 w2. open_db disk_rocks 4 0 0 config_default [] empty_disk = Some (Inr self, w1) \<and> num_columns self = 1 \<and>
     add_column disk_rocks self w1 = Some (Inr (), self2, w2) \<and> num_columns self2 = 2"
proof -
  obtain self w1 where o: "open_db disk_rocks 4 0 0 config_default [] empty_disk = Some (Inr self, w1)" using disk_opens by blast
  have n: "Suc (unat (num_cols config_default)) < 2 ^ 32" "num_cols config_default = 1" by (simp_all add: config_default_def)
  have c: "config self = config_default" "db_path self = []" using on_disk.open_db_ok [OF o] by auto
  obtain cfs where cfs: "lock self = Some cfs" "length (column_names cfs) = 1"
    using opened_columns [OF on_disk.rocks_contract_axioms o] n(2) by auto
  have "\<exists>self2 w2. add_column disk_rocks self w1 = Some (Inr (), self2, w2)"
    using cfs c by (simp add: add_column_def column_config_def memory_budget_for_col_spec config_default_def B_eq disk_rocks_def Let_def)
  then obtain self2 w2 where add: "add_column disk_rocks self w1 = Some (Inr (), self2, w2)" by blast
  obtain r self3 w3 where "remove_last_column disk_rocks self2 w2 = (r, self3, w3)" by (metis surj_pair)
  moreover have "fst (remove_last_column disk_rocks s w) = Inr ()" for s w
    by (simp add: remove_last_column_def disk_rocks_def split: option.split)
  ultimately have rem: "remove_last_column disk_rocks self2 w2 = (Inr (), self3, w3)" by (metis fst_conv)
  obtain self4 w4 where res: "rocks_restore disk_rocks 4 0 0 self [] w1 = Some (Inr (), self4, w4)"
    using disk_opens [of w1] c by (auto simp: rocks_restore_def close_db_def swap_in_def disk_rocks_def Let_def)
  show ?thesis
    using columns_lifecycle [OF on_disk.rocks_contract_axioms o n(1) add rem res] o add n(2) by auto
qed

text \<open>
  \<^verbatim>\<open>size_of\<close> relies on at least one column, which \<^verbatim>\<open>remove_last_column\<close> does not keep: without columns it panics.
\<close>

theorem size_of_without_columns: "column_names cfs = [] \<Longrightarrow> columns_size_of R w names_size cfs = panic"
  by (simp add: columns_size_of_def cf_def index_at_def)

text \<open>The configured number of log files to keep has no effect on the options.\<close>

theorem keep_log_file_num_ignored: "generate_options n (cfg\<lparr> keep_log_file_num := k \<rparr>) = generate_options n cfg"
  by (simp add: generate_options_def)

text \<open>The total memory budget is the sum of the budgets of the columns, 128 MiB where none is given.\<close>

theorem memory_budget_total:
  assumes "sum_list (map (budget_bytes cfg) [0..<unat (num_cols cfg)]) < B"
  shows "memory_budget cfg = Some (sum_list (map (budget_bytes cfg) [0..<unat (num_cols cfg)]))"
  using sum_budgets_spec [of 0 cfg] assms by (simp add: memory_budget_def)

end
