(* ===== verification/Kvdb_Suite.thy ===== *)
theory Kvdb_Suite
  imports Kvdb_Rocks
begin

text \<open>
  The tests that every implementation of \<^verbatim>\<open>KeyValueDB\<close> runs (\<^verbatim>\<open>kvdb-shared-tests/src/lib.rs\<close>), as programs
  over the trait.  A method of the trait may change the state behind the reference (counters, caches), so it takes and returns the state;
  a failed assertion panics and an I/O error ends the test with that error.  The locale \<open>conforming_db\<close> states what the tests rely on;
  both databases of the repository are instances of it.
\<close>

subsection \<open>The trait and the tests as programs\<close>

record ('s, 'e) kv_trait =
  kv_get :: "u32 \<Rightarrow> bytes \<Rightarrow> 's \<Rightarrow> (('e + bytes option) \<times> 's) may_panic"
  kv_get_by_prefix :: "u32 \<Rightarrow> bytes \<Rightarrow> 's \<Rightarrow> (bytes option \<times> 's) may_panic"
  kv_write :: "db_transaction \<Rightarrow> 's \<Rightarrow> (('e + unit) \<times> 's) may_panic"
  kv_iter :: "u32 \<Rightarrow> 's \<Rightarrow> ((bytes \<times> bytes) list \<times> 's) may_panic"
  kv_iter_with_prefix :: "u32 \<Rightarrow> bytes \<Rightarrow> 's \<Rightarrow> ((bytes \<times> bytes) list \<times> 's) may_panic"
  kv_io_stats :: "stats_kind \<Rightarrow> 's \<Rightarrow> (io_stats \<times> 's) may_panic"

type_synonym ('s, 'e) test = "'s \<Rightarrow> (('e + unit) \<times> 's) may_panic"

text \<open>The operator \<^verbatim>\<open>?\<close>, a call without a result type, \<^verbatim>\<open>assert!\<close>, \<^verbatim>\<open>unwrap\<close> and \<^verbatim>\<open>Ok(())\<close>.\<close>

definition attempt :: "('s \<Rightarrow> (('e + 'a) \<times> 's) may_panic) \<Rightarrow> ('a \<Rightarrow> ('s, 'e) test) \<Rightarrow> ('s, 'e) test" where
  "attempt m f s = do { (r, s) \<leftarrow> m s; case r of Inl e \<Rightarrow> Some (Inl e, s) | Inr a \<Rightarrow> f a s }"

definition call :: "('s \<Rightarrow> ('a \<times> 's) may_panic) \<Rightarrow> ('a \<Rightarrow> ('s, 'e) test) \<Rightarrow> ('s, 'e) test" where
  "call m f s = do { (a, s) \<leftarrow> m s; f a s }"

definition check :: "bool \<Rightarrow> ('s, 'e) test \<Rightarrow> ('s, 'e) test" where
  "check b t s = (if b then t s else panic)"

definition unwrap :: "'a option \<Rightarrow> ('a \<Rightarrow> ('s, 'e) test) \<Rightarrow> ('s, 'e) test" where
  "unwrap v f s = (case v of Some a \<Rightarrow> f a s | None \<Rightarrow> panic)"

definition ok_unit :: "('s, 'e) test" where
  "ok_unit s = Some (Inr (), s)"

text \<open>A byte string literal.\<close>

definition bstr :: "string \<Rightarrow> bytes" where
  "bstr cs = map of_char cs"

definition test_put_and_get :: "('s, 'e) kv_trait \<Rightarrow> ('s, 'e) test" where
  "test_put_and_get D =
     (let key1 = bstr ''key1'';
          transaction = put 0 key1 (bstr ''horse'') db_transaction_new in
      attempt (kv_write D transaction) (\<lambda>_.
      attempt (kv_get D 0 key1) (\<lambda>v.
      unwrap v (\<lambda>v. check (v = bstr ''horse'') ok_unit))))"

definition test_delete_and_get :: "('s, 'e) kv_trait \<Rightarrow> ('s, 'e) test" where
  "test_delete_and_get D =
     (let key1 = bstr ''key1'';
          transaction = put 0 key1 (bstr ''horse'') db_transaction_new in
      attempt (kv_write D transaction) (\<lambda>_.
      attempt (kv_get D 0 key1) (\<lambda>v.
      unwrap v (\<lambda>v. check (v = bstr ''horse'')
     (let transaction = delete 0 key1 db_transaction_new in
      attempt (kv_write D transaction) (\<lambda>_.
      attempt (kv_get D 0 key1) (\<lambda>v.
      check (v = None) ok_unit)))))))"

definition test_get_fails_with_non_existing_column :: "('s, 'e) kv_trait \<Rightarrow> ('s, 'e) test" where
  "test_get_fails_with_non_existing_column D =
     call (kv_get D 1 []) (\<lambda>r. check (isl r) ok_unit)"

definition test_write_clears_buffered_ops :: "('s, 'e) kv_trait \<Rightarrow> ('s, 'e) test" where
  "test_write_clears_buffered_ops D =
     (let batch = put 0 (bstr ''foo'') (bstr ''bar'') db_transaction_new in
      attempt (kv_write D batch) (\<lambda>_.
      attempt (kv_get D 0 (bstr ''foo'')) (\<lambda>v.
      unwrap v (\<lambda>v. check (v = bstr ''bar'')
     (let batch = put 0 (bstr ''foo'') (bstr ''baz'') db_transaction_new in
      attempt (kv_write D batch) (\<lambda>_.
      attempt (kv_get D 0 (bstr ''foo'')) (\<lambda>v.
      unwrap v (\<lambda>v. check (v = bstr ''baz'') ok_unit))))))))"

definition test_iter :: "('s, 'e) kv_trait \<Rightarrow> ('s, 'e) test" where
  "test_iter D =
     (let key1 = bstr ''key1''; key2 = bstr ''key2'';
          transaction = put 0 key2 key2 (put 0 key1 key1 db_transaction_new) in
      attempt (kv_write D transaction) (\<lambda>_.
      call (kv_iter D 0) (\<lambda>contents.
      check (length contents = 2)
     (check (fst (contents ! 0) = key1)
     (check (snd (contents ! 0) = key1)
     (check (fst (contents ! 1) = key2)
     (check (snd (contents ! 1) = key2) ok_unit)))))))"

text \<open>The number of entries and their keys; the length is checked first, so no index is out of range.\<close>

definition check_keys :: "bytes list \<Rightarrow> (bytes \<times> bytes) list \<Rightarrow> ('s, 'e) test \<Rightarrow> ('s, 'e) test" where
  "check_keys ks contents t = check (length contents = length ks) (check (map fst contents = ks) t)"

definition test_iter_with_prefix :: "('s, 'e) kv_trait \<Rightarrow> ('s, 'e) test" where
  "test_iter_with_prefix D =
     (let key1 = bstr ''0''; key2 = bstr ''ab''; key3 = bstr ''abc''; key4 = bstr ''abcd'';
          batch = put 0 key4 key4 (put 0 key3 key3 (put 0 key2 key2 (put 0 key1 key1 db_transaction_new))) in
      attempt (kv_write D batch) (\<lambda>_.
      call (kv_iter_with_prefix D 0 (bstr '''')) (\<lambda>contents. check_keys [key1, key2, key3, key4] contents
     (call (kv_iter_with_prefix D 0 (bstr ''a'')) (\<lambda>contents. check_keys [key2, key3, key4] contents
     (call (kv_iter_with_prefix D 0 (bstr ''abc'')) (\<lambda>contents. check_keys [key3, key4] contents
     (call (kv_iter_with_prefix D 0 (bstr ''abcde'')) (\<lambda>contents. check (length contents = 0)
     (call (kv_iter_with_prefix D 0 (bstr ''0'')) (\<lambda>contents. check_keys [key1] contents ok_unit)))))))))))"

definition IO_STATS_NUM_COLUMNS :: u32 where
  "IO_STATS_NUM_COLUMNS = 3"

fun get_times :: "nat \<Rightarrow> ('s, 'e) kv_trait \<Rightarrow> bytes \<Rightarrow> ('s, 'e) test \<Rightarrow> ('s, 'e) test" where
  "get_times 0 D key t = t"
| "get_times (Suc n) D key t = attempt (kv_get D 0 key) (\<lambda>_. get_times n D key t)"

definition test_io_stats :: "('s, 'e) kv_trait \<Rightarrow> ('s, 'e) test" where
  "test_io_stats D =
     (let key1 = bstr ''kkk'';
          batch = put 2 key1 key1 (put 1 key1 key1 (put 0 key1 key1 db_transaction_new)) in
      get_times 10 D key1
     (attempt (kv_write D batch) (\<lambda>_.
      call (kv_io_stats D SincePrevious) (\<lambda>io_stats.
      check (io_transactions io_stats = 1)
     (check (io_writes io_stats = 3)
     (check (io_bytes_written io_stats = 18)
     (check (io_reads io_stats = 10)
     (check (io_bytes_read io_stats = 30)
     (call (kv_io_stats D SincePrevious) (\<lambda>new_io_stats.
      check (io_transactions new_io_stats = 0)
     (call (kv_io_stats D Overall) (\<lambda>new_io_stats.
      check (io_bytes_written new_io_stats = 18)
     (let batch = delete 2 key1 (delete 1 key1 (delete 0 key1 db_transaction_new)) in
      call (kv_io_stats D SincePrevious) (\<lambda>s.
      check (io_writes s = 0)
     (attempt (kv_write D batch) (\<lambda>_.
      call (kv_io_stats D SincePrevious) (\<lambda>s.
      check (io_writes s = 3) ok_unit)))))))))))))))))"

definition DELETE_PREFIX_NUM_COLUMNS :: u32 where
  "DELETE_PREFIX_NUM_COLUMNS = 7"

definition prefix_test_keys :: "bytes list" where
  "prefix_test_keys =
     [[], [0], [0, 1], [1], [1, 0], [1, 255], [1, 255, 255], [2], [2, 0], [2, 255], replicate 16 255]"

definition init_db :: "('s, 'e) kv_trait \<Rightarrow> u32 \<Rightarrow> ('s, 'e) test \<Rightarrow> ('s, 'e) test" where
  "init_db D ix t =
     (let batch = fold (\<lambda>(i, key) batch. put ix key [of_nat i] batch) (enumerate 0 prefix_test_keys) db_transaction_new in
      attempt (kv_write D batch) (\<lambda>_. t))"

fun read_state :: "('s, 'e) kv_trait \<Rightarrow> u32 \<Rightarrow> bytes list \<Rightarrow> bool list \<Rightarrow> (bool list \<Rightarrow> ('s, 'e) test) \<Rightarrow> ('s, 'e) test" where
  "read_state D ix [] state f = f state"
| "read_state D ix (key # keys) state f = attempt (kv_get D ix key) (\<lambda>v. read_state D ix keys (state @ [v \<noteq> None]) f)"

definition check_db :: "('s, 'e) kv_trait \<Rightarrow> u32 \<Rightarrow> bool list \<Rightarrow> ('s, 'e) test \<Rightarrow> ('s, 'e) test" where
  "check_db D ix content t = read_state D ix prefix_test_keys [] (\<lambda>state. check (state = content) t)"

definition prefix_tests :: "(bytes \<times> bool list) list" where
  "prefix_tests =
     [([1], [True, True, True, False, False, False, False, True, True, True, True]),
      ([1, 255, 255], [True, True, True, True, True, True, False, True, True, True, True]),
      ([1, 2], [True, True, True, True, True, True, True, True, True, True, True]),
      ([8], [True, True, True, True, True, True, True, True, True, True, True]),
      ([255, 255], [True, True, True, True, True, True, True, True, True, True, False]),
      ([255], [True, True, True, True, True, True, True, True, True, True, False]),
      ([], [False, False, False, False, False, False, False, False, False, False, False])]"

fun run_prefix_tests :: "('s, 'e) kv_trait \<Rightarrow> (nat \<times> bytes \<times> bool list) list \<Rightarrow> ('s, 'e) test" where
  "run_prefix_tests D [] = ok_unit"
| "run_prefix_tests D ((ix, p, content) # tests) =
     (let ix = of_nat ix in
      init_db D ix
     (let batch = delete_prefix ix p db_transaction_new in
      attempt (kv_write D batch) (\<lambda>_.
      check_db D ix content (run_prefix_tests D tests))))"

definition test_delete_prefix :: "('s, 'e) kv_trait \<Rightarrow> ('s, 'e) test" where
  "test_delete_prefix D = run_prefix_tests D (enumerate 0 prefix_tests)"

definition complex_steps :: "('s, 'e) kv_trait \<Rightarrow> bytes \<Rightarrow> bytes \<Rightarrow> bytes \<Rightarrow> bytes \<Rightarrow> bytes \<Rightarrow> ('s, 'e) test" where
  "complex_steps D key1 key2 key3 key4 key5 =
     (let batch = put 0 key5 (bstr ''fish'') (put 0 key4 (bstr ''beef'') (put 0 key3 (bstr ''caterpillar'')
            (put 0 key2 (bstr ''dog'') (put 0 key1 (bstr ''cat'') db_transaction_new)))) in
      attempt (kv_write D batch) (\<lambda>_.
      attempt (kv_get D 0 key1) (\<lambda>v. unwrap v (\<lambda>v. check (v = bstr ''cat'')
     (call (kv_iter D 0) (\<lambda>contents.
      check (length contents = 5)
     (check (fst (contents ! 0) = key1)
     (check (snd (contents ! 0) = bstr ''cat'')
     (check (fst (contents ! 1) = key2)
     (check (snd (contents ! 1) = bstr ''dog'')
     (call (kv_iter_with_prefix D 0 (bstr ''04c0'')) (\<lambda>prefix_iter.
      check (length prefix_iter > 0 \<and> snd (prefix_iter ! 0) = bstr ''caterpillar'')
     (check (length prefix_iter > 1 \<and> snd (prefix_iter ! 1) = bstr ''beef'')
     (check (length prefix_iter > 2 \<and> snd (prefix_iter ! 2) = bstr ''fish'')
     (let batch = delete 0 key1 db_transaction_new in
      attempt (kv_write D batch) (\<lambda>_.
      attempt (kv_get D 0 key1) (\<lambda>v. check (v = None)
     (let batch = put 0 key1 (bstr ''cat'') db_transaction_new in
      attempt (kv_write D batch) (\<lambda>_.
      let transaction = delete 0 key1 (put 0 key3 (bstr ''elephant'') db_transaction_new) in
      attempt (kv_write D transaction) (\<lambda>_.
      attempt (kv_get D 0 key1) (\<lambda>v. check (v = None)
     (attempt (kv_get D 0 key3) (\<lambda>v. unwrap v (\<lambda>v. check (v = bstr ''elephant'')
     (call (kv_get_by_prefix D 0 key3) (\<lambda>v. unwrap v (\<lambda>v. check (v = bstr ''elephant'')
     (call (kv_get_by_prefix D 0 key2) (\<lambda>v. unwrap v (\<lambda>v. check (v = bstr ''dog'')
     (let transaction = delete 0 key3 (put 0 key1 (bstr ''horse'') db_transaction_new) in
      attempt (kv_write D transaction) (\<lambda>_.
      attempt (kv_get D 0 key3) (\<lambda>v. check (v = None)
     (attempt (kv_get D 0 key1) (\<lambda>v. unwrap v (\<lambda>v. check (v = bstr ''horse'')
     (attempt (kv_get D 0 key3) (\<lambda>v. check (v = None)
     (attempt (kv_get D 0 key1) (\<lambda>v. unwrap v (\<lambda>v. check (v = bstr ''horse'')
      ok_unit)))))))))))))))))))))))))))))))))))))))))"

definition test_complex :: "('s, 'e) kv_trait \<Rightarrow> ('s, 'e) test" where
  "test_complex D =
     (let key1 = bstr ''02c69be41d0b7e40352fc85be1cd65eb03d40ef8427a0ca4596b1ead9a00e9fc'';
          key2 = bstr ''03c69be41d0b7e40352fc85be1cd65eb03d40ef8427a0ca4596b1ead9a00e9fc'';
          key3 = bstr ''04c00000000b7e40352fc85be1cd65eb03d40ef8427a0ca4596b1ead9a00e9fc'';
          key4 = bstr ''04c01111110b7e40352fc85be1cd65eb03d40ef8427a0ca4596b1ead9a00e9fc'';
          key5 = bstr ''04c02222220b7e40352fc85be1cd65eb03d40ef8427a0ca4596b1ead9a00e9fc''
      in complex_steps D key1 key2 key3 key4 key5)"

subsection \<open>What the tests rely on\<close>

text \<open>
  A conforming database refines a store of one map per column.  A faulty one may answer with an I/O error; a failed write
  leaves the contents alone.  The bounds on lengths are those of the byte counters.
\<close>

definition fits :: "(bytes \<rightharpoonup> bytes) \<Rightarrow> bytes \<Rightarrow> bool" where
  "fits m k \<longleftrightarrow> (case m k of None \<Rightarrow> True | Some v \<Rightarrow> length k + length v < B)"

definition acceptable :: "store \<Rightarrow> db_transaction \<Rightarrow> bool" where
  "acceptable C tr \<longleftrightarrow> list_all (\<lambda>oper. C (db_op_col oper) \<noteq> None) (ops tr) \<and> safe_ops (ops tr) \<and> sum_list (map op_bytes (ops tr)) < B"

text \<open>The listings are determined by the contents.\<close>

lemma listing_unique:
  fixes l l' :: "(bytes \<times> bytes) list"
  assumes "sorted_wrt (<) (map fst l)" "sorted_wrt (<) (map fst l')" "map_of l = map_of l'"
  shows "l = l'"
proof (rule btree_eqI)
  show "btree_wf l" "btree_wf l'" using assms(1,2) by (simp_all add: btree_wf_def)
  show "btree_get l = btree_get l'" using assms(3) by (simp add: btree_get_def fun_eq_iff)
qed

lemma replicate_16: "replicate 16 x = [x, x, x, x, x, x, x, x, x, x, x, x, x, x, x, x]"
  by (simp add: numeral_eq_Suc)

lemma length_bstr: "length (bstr cs) = length cs"
  by (simp add: bstr_def)

lemma unat_of_char: "unat (of_char c :: u8) = of_char c"
proof -
  have "(of_char c :: u8) = of_nat (of_char c)" by (rule of_nat_of_char [symmetric])
  moreover have "(of_char c :: nat) < radix TYPE(8)" using nat_of_char_less_256 [of c] by (simp add: radix_def)
  ultimately show ?thesis by (metis unat_of_nat_lt)
qed

lemma of_char_inject: "(of_char c :: u8) = of_char d \<longleftrightarrow> c = d"
  by (metis unat_of_char of_char_eq_iff)

lemma bstr_inject: "bstr a = bstr b \<longleftrightarrow> a = b"
  unfolding bstr_def by (rule inj_map_eq_map) (simp add: inj_def of_char_inject)

lemma bstr_prefix: "prefix (bstr a) (bstr b) \<longleftrightarrow> prefix a b"
proof (induction a arbitrary: b)
  case (Cons c a)
  then show ?case by (cases b) (simp_all add: bstr_def of_char_inject)
qed (simp add: bstr_def)

text \<open>A test run on a database with the given contents does not panic, and only a faulty database lets it end with an error.\<close>

definition runs :: "bool \<Rightarrow> ('s \<Rightarrow> store) \<Rightarrow> ('s \<Rightarrow> bool) \<Rightarrow> store \<Rightarrow> ('s, 'e) test \<Rightarrow> bool" where
  "runs faulty contents invar C t \<longleftrightarrow> (\<forall>s. invar s \<longrightarrow> contents s = C \<longrightarrow> (\<exists>r s'. t s = Some (r, s') \<and> invar s' \<and> (r = Inr () \<or> faulty \<and> isl r)))"

definition runs_0 :: "bool \<Rightarrow> ('s \<Rightarrow> store) \<Rightarrow> ('s \<Rightarrow> bool) \<Rightarrow> (bytes \<rightharpoonup> bytes) \<Rightarrow> ('s, 'e) test \<Rightarrow> bool" where
  "runs_0 faulty contents invar m t \<longleftrightarrow> (\<forall>C. C 0 = Some m \<longrightarrow> runs faulty contents invar C t)"

locale conforming_db =
  fixes faulty :: bool and D :: "('s, 'e) kv_trait" and contents :: "'s \<Rightarrow> store" and invar :: "'s \<Rightarrow> bool"
  assumes get_law: "invar s \<Longrightarrow> contents s c = Some m \<Longrightarrow> fits m k \<Longrightarrow>
      \<exists>r s'. kv_get D c k s = Some (r, s') \<and> invar s' \<and> contents s' = contents s \<and> (r = Inr (m k) \<or> faulty \<and> isl r)"
    and get_missing: "invar s \<Longrightarrow> contents s c = None \<Longrightarrow>
      \<exists>r s'. kv_get D c k s = Some (r, s') \<and> invar s' \<and> contents s' = contents s \<and> isl r"
    and write_law: "invar s \<Longrightarrow> acceptable (contents s) tr \<Longrightarrow>
      \<exists>r s'. kv_write D tr s = Some (r, s') \<and> invar s' \<and>
        (r = Inr () \<and> contents s' = store_write (ops tr) (contents s) \<or> faulty \<and> isl r \<and> contents s' = contents s)"
    and iter_law: "invar s \<Longrightarrow> contents s c = Some m \<Longrightarrow>
      \<exists>l s'. kv_iter D c s = Some (l, s') \<and> invar s' \<and> contents s' = contents s \<and> sorted_wrt (<) (map fst l) \<and> map_of l = m"
    and iter_prefix_law: "invar s \<Longrightarrow> contents s c = Some m \<Longrightarrow>
      \<exists>l s'. kv_iter_with_prefix D c p s = Some (l, s') \<and> invar s' \<and> contents s' = contents s \<and> sorted_wrt (<) (map fst l) \<and>
        map_of l = (\<lambda>k. if prefix p k then m k else None)"
    and get_by_prefix_law: "invar s \<Longrightarrow> contents s c = Some m \<Longrightarrow>
      \<exists>l s'. kv_get_by_prefix D c p s = Some (case l of [] \<Rightarrow> None | (_, v) # _ \<Rightarrow> Some v, s') \<and> invar s' \<and> contents s' = contents s \<and>
        sorted_wrt (<) (map fst l) \<and> map_of l = (\<lambda>k. if prefix p k then m k else None)"
begin

lemma runs_ok: "runs faulty contents invar C ok_unit"
  by (simp add: runs_def ok_unit_def)

lemma runs_check: "b \<Longrightarrow> runs faulty contents invar C t \<Longrightarrow> runs faulty contents invar C (check b t)"
  by (simp add: runs_def check_def)

lemma runs_unwrap: "runs faulty contents invar C (f a) \<Longrightarrow> runs faulty contents invar C (unwrap (Some a) f)"
  by (simp add: runs_def unwrap_def)

lemma runs_write:
  assumes "acceptable C tr" "runs faulty contents invar (store_write (ops tr) C) (f ())"
  shows "runs faulty contents invar C (attempt (kv_write D tr) f)"
  unfolding runs_def
proof (intro allI impI)
  fix s assume s: "invar s" "contents s = C"
  obtain r s' where w: "kv_write D tr s = Some (r, s')" "invar s'"
    "r = Inr () \<and> contents s' = store_write (ops tr) (contents s) \<or> faulty \<and> isl r \<and> contents s' = contents s"
    using write_law [OF s(1)] assms(1) s(2) by blast
  then show "\<exists>r s'. attempt (kv_write D tr) f s = Some (r, s') \<and> invar s' \<and> (r = Inr () \<or> faulty \<and> isl r)"
    using assms(2) s(2) by (cases r) (auto simp: attempt_def runs_def)
qed

lemma runs_get:
  assumes "C c = Some m" "fits m k" "runs faulty contents invar C (f (m k))"
  shows "runs faulty contents invar C (attempt (kv_get D c k) f)"
  unfolding runs_def
proof (intro allI impI)
  fix s assume s: "invar s" "contents s = C"
  obtain r s' where w: "kv_get D c k s = Some (r, s')" "invar s'" "contents s' = C" "r = Inr (m k) \<or> faulty \<and> isl r"
    using get_law [OF s(1), of c m k] assms(1,2) s(2) by blast
  then show "\<exists>r s'. attempt (kv_get D c k) f s = Some (r, s') \<and> invar s' \<and> (r = Inr () \<or> faulty \<and> isl r)"
    using assms(3) by (cases r) (auto simp: attempt_def runs_def)
qed

lemma runs_get_missing:
  assumes "C c = None" "\<And>r. isl r \<Longrightarrow> runs faulty contents invar C (f r)"
  shows "runs faulty contents invar C (call (kv_get D c k) f)"
  unfolding runs_def call_def
proof (intro allI impI)
  fix s assume s: "invar s" "contents s = C"
  obtain r s' where "kv_get D c k s = Some (r, s')" "invar s'" "contents s' = C" "isl r"
    using get_missing [OF s(1)] assms(1) s(2) by blast
  then show "\<exists>r s'. (kv_get D c k s \<bind> (\<lambda>(a, s). f a s)) = Some (r, s') \<and> invar s' \<and> (r = Inr () \<or> faulty \<and> isl r)"
    using assms(2) by (simp add: runs_def)
qed

lemma runs_iter:
  assumes "C c = Some m" "sorted_wrt (<) (map fst l)" "map_of l = m" "runs faulty contents invar C (f l)"
  shows "runs faulty contents invar C (call (kv_iter D c) f)"
  unfolding runs_def call_def
proof (intro allI impI)
  fix s assume s: "invar s" "contents s = C"
  obtain l' s' where i: "kv_iter D c s = Some (l', s')" "invar s'" "contents s' = C" "sorted_wrt (<) (map fst l')" "map_of l' = m"
    using iter_law [OF s(1)] assms(1) s(2) by blast
  then have "l' = l" using listing_unique assms(2,3) by simp
  then show "\<exists>r s'. (kv_iter D c s \<bind> (\<lambda>(a, s). f a s)) = Some (r, s') \<and> invar s' \<and> (r = Inr () \<or> faulty \<and> isl r)" using i assms(4) by (simp add: runs_def)
qed

lemma runs_iter_prefix:
  assumes "C c = Some m" "sorted_wrt (<) (map fst l)" "map_of l = (\<lambda>k. if prefix p k then m k else None)" "runs faulty contents invar C (f l)"
  shows "runs faulty contents invar C (call (kv_iter_with_prefix D c p) f)"
  unfolding runs_def call_def
proof (intro allI impI)
  fix s assume s: "invar s" "contents s = C"
  obtain l' s' where i: "kv_iter_with_prefix D c p s = Some (l', s')" "invar s'" "contents s' = C" "sorted_wrt (<) (map fst l')"
    "map_of l' = (\<lambda>k. if prefix p k then m k else None)"
    using iter_prefix_law [OF s(1)] assms(1) s(2) by blast
  then have "l' = l" using listing_unique assms(2,3) by simp
  then show "\<exists>r s'. (kv_iter_with_prefix D c p s \<bind> (\<lambda>(a, s). f a s)) = Some (r, s') \<and> invar s' \<and> (r = Inr () \<or> faulty \<and> isl r)"
    using i assms(4) by (simp add: runs_def)
qed

lemma runs_get_by_prefix:
  assumes "C c = Some m" "sorted_wrt (<) (map fst l)" "map_of l = (\<lambda>k. if prefix p k then m k else None)"
    and "runs faulty contents invar C (f (case l of [] \<Rightarrow> None | (_, v) # _ \<Rightarrow> Some v))"
  shows "runs faulty contents invar C (call (kv_get_by_prefix D c p) f)"
  unfolding runs_def call_def
proof (intro allI impI)
  fix s assume s: "invar s" "contents s = C"
  obtain l' s' where i: "kv_get_by_prefix D c p s = Some (case l' of [] \<Rightarrow> None | (_, v) # _ \<Rightarrow> Some v, s')" "invar s'" "contents s' = C"
    "sorted_wrt (<) (map fst l')" "map_of l' = (\<lambda>k. if prefix p k then m k else None)"
    using get_by_prefix_law [OF s(1)] assms(1) s(2) by blast
  then have "l' = l" using listing_unique assms(2,3) by simp
  then show "\<exists>r s'. (kv_get_by_prefix D c p s \<bind> (\<lambda>(a, s). f a s)) = Some (r, s') \<and> invar s' \<and> (r = Inr () \<or> faulty \<and> isl r)"
    using i assms(4) by (simp add: runs_def)
qed

lemma runs_check_iff: "b \<Longrightarrow> runs faulty contents invar C (check b t) \<longleftrightarrow> runs faulty contents invar C t"
  by (simp add: runs_def check_def)

lemma runs_unwrap_iff: "runs faulty contents invar C (unwrap (Some a) f) \<longleftrightarrow> runs faulty contents invar C (f a)"
  by (simp add: runs_def unwrap_def)

lemma runs_get_the:
  assumes "C c \<noteq> None" "fits (the (C c)) k" "runs faulty contents invar C (f (the (C c) k))"
  shows "runs faulty contents invar C (attempt (kv_get D c k) f)"
  using runs_get assms by fastforce

lemmas wp = runs_write runs_get_the

lemmas eval = Let_def runs_check_iff runs_unwrap_iff runs_ok acceptable_def fits_def store_write_def store_op_def put_def delete_def
  db_transaction_new_def with_capacity_def op_bytes_def safe_ops_def prefix_safe_def length_bstr bstr_inject B_eq

lemma put_and_get_runs: "C 0 = Some m \<Longrightarrow> runs faulty contents invar C (test_put_and_get D)"
  unfolding test_put_and_get_def by (simp add: eval, (rule wp; simp add: eval)+)

lemma delete_and_get_runs: "C 0 = Some m \<Longrightarrow> runs faulty contents invar C (test_delete_and_get D)"
  unfolding test_delete_and_get_def by (simp add: eval, (rule wp; simp add: eval)+)

lemma non_existing_column_runs: "C 1 = None \<Longrightarrow> runs faulty contents invar C (test_get_fails_with_non_existing_column D)"
  unfolding test_get_fails_with_non_existing_column_def by (rule runs_get_missing) (simp_all add: eval)

lemma write_clears_runs: "C 0 = Some m \<Longrightarrow> runs faulty contents invar C (test_write_clears_buffered_ops D)"
  unfolding test_write_clears_buffered_ops_def by (simp add: eval, (rule wp; simp add: eval)+)

lemma iter_runs:
  assumes "C 0 = Some Map.empty"
  shows "runs faulty contents invar C (test_iter D)"
proof -
  let ?k1 = "bstr ''key1''" and ?k2 = "bstr ''key2''"
  have less: "?k1 < ?k2" by (simp add: bstr_def)
  then have m: "map_of [(?k1, ?k1), (?k2, ?k2)] = [?k1 \<mapsto> ?k1, ?k2 \<mapsto> ?k2]" by (auto simp: fun_eq_iff bstr_inject)
  let ?tr = "put 0 ?k2 ?k2 (put 0 ?k1 ?k1 db_transaction_new)"
  have "acceptable C ?tr" "store_write (ops ?tr) C 0 = Some [?k1 \<mapsto> ?k1, ?k2 \<mapsto> ?k2]" by (simp_all add: eval assms)
  then show ?thesis
    unfolding test_iter_def Let_def
    by (intro runs_write runs_iter [OF _ _ m]) (simp_all add: less runs_check_iff runs_ok)
qed

lemma iter_with_prefix_runs:
  assumes "C 0 = Some Map.empty"
  shows "runs faulty contents invar C (test_iter_with_prefix D)"
proof -
  let ?a = "bstr ''0''" and ?b = "bstr ''ab''" and ?c = "bstr ''abc''" and ?d = "bstr ''abcd''"
  let ?m = "[?a \<mapsto> ?a, ?b \<mapsto> ?b, ?c \<mapsto> ?c, ?d \<mapsto> ?d]"
  have less: "?a < ?b" "?a < ?c" "?a < ?d" "?b < ?c" "?b < ?d" "?c < ?d" by (simp_all add: bstr_def)
  have sel: "map_of l = (\<lambda>k. if prefix (bstr q) k then ?m k else None)"
    if "l = map (\<lambda>s. (bstr s, bstr s)) (filter (prefix q) [''0'', ''ab'', ''abc'', ''abcd''])" for l q
    using that by (auto simp: fun_eq_iff bstr_inject bstr_prefix)
  let ?tr = "put 0 ?d ?d (put 0 ?c ?c (put 0 ?b ?b (put 0 ?a ?a db_transaction_new)))"
  have w: "acceptable C ?tr" "store_write (ops ?tr) C 0 = Some ?m" by (simp_all add: eval assms)
  show ?thesis
    unfolding test_iter_with_prefix_def Let_def check_keys_def
    by (intro runs_write [OF w(1)] runs_check runs_ok runs_iter_prefix [of "store_write (ops ?tr) C" 0 ?m, OF w(2) _ sel [OF refl]]) (simp_all add: less)
qed

lemma read_state_runs:
  assumes "C ix = Some m" "\<forall>k\<in>set ks. fits m k" "runs faulty contents invar C (f (state @ map (\<lambda>k. m k \<noteq> None) ks))"
  shows "runs faulty contents invar C (read_state D ix ks state f)"
  using assms
proof (induction ks arbitrary: state)
  case (Cons k ks)
  then show ?case by (simp add: runs_get [of C ix m])
qed simp

lemma prefix_tests_run:
  assumes "\<forall>(ix, p, content)\<in>set tests. C (of_nat ix) \<noteq> None \<and> content = map (\<lambda>k. \<not> prefix p k) prefix_test_keys"
  shows "runs faulty contents invar C (run_prefix_tests D tests)"
  using assms
proof (induction tests arbitrary: C)
  case Nil
  then show ?case by (simp add: runs_ok)
next
  case (Cons t tests)
  obtain ix p content where t: "t = (ix, p, content)" by (cases t)
  let ?ix = "of_nat ix :: u32"
  let ?b1 = "fold (\<lambda>(i, key) batch. put ?ix key [of_nat i] batch) (enumerate 0 prefix_test_keys) db_transaction_new"
  let ?b2 = "delete_prefix ?ix p db_transaction_new"
  define C1 where "C1 = store_write (ops ?b1) C"
  let ?C2 = "store_write (ops ?b2) C1"
  obtain m where m: "C ?ix = Some m" using Cons.prems t by auto
  note keys = prefix_test_keys_def enumerate_eq_zip upt_rec replicate_16
  have a1: "acceptable C ?b1" by (simp add: eval keys m)
  obtain m1 where m1: "C1 ?ix = Some m1" "\<forall>k\<in>set prefix_test_keys. \<exists>i. m1 k = Some [i]"
    by (simp add: eval keys m C1_def)
  have a2: "acceptable C1 ?b2" by (simp add: acceptable_def delete_prefix_def db_transaction_new_def with_capacity_def m1 op_bytes_def
        safe_ops_def prefix_safe_def B_eq)
  have C2: "?C2 ?ix = Some (\<lambda>k. if prefix p k then None else m1 k)"
    by (simp add: delete_prefix_def db_transaction_new_def with_capacity_def store_write_def [of "[_]"] store_op_def m1)
  have len: "\<forall>k\<in>set prefix_test_keys. length k \<le> 16" by (simp add: prefix_test_keys_def)
  have fit: "\<forall>k\<in>set prefix_test_keys. fits (\<lambda>k. if prefix p k then None else m1 k) k"
    using m1(2) len by (fastforce simp: fits_def B_eq)
  have "map (\<lambda>k. (if prefix p k then None else m1 k) \<noteq> None) prefix_test_keys = content"
    using Cons.prems t m1(2) by (auto intro!: map_cong)
  moreover have "runs faulty contents invar ?C2 (run_prefix_tests D tests)"
    using Cons.prems by (auto intro!: Cons.IH simp: store_write_at C1_def)
  ultimately show ?case
    unfolding t run_prefix_tests.simps Let_def init_db_def check_db_def
    by (intro runs_write [OF a1, folded C1_def] runs_write [OF a2] read_state_runs [of ?C2 ?ix "\<lambda>k. if prefix p k then None else m1 k", OF C2 fit] runs_check) simp_all
qed

lemma delete_prefix_runs:
  assumes "list_all (\<lambda>ix. C ix \<noteq> None) [0, 1, 2, 3, 4, 5, 6]"
  shows "runs faulty contents invar C (test_delete_prefix D)"
  unfolding test_delete_prefix_def
  by (rule prefix_tests_run) (use assms in \<open>simp add: prefix_tests_def prefix_test_keys_def enumerate_eq_zip upt_rec replicate_16\<close>)

text \<open>Tests that only use the first column.\<close>

lemma runs_0_write:
  assumes "list_all (\<lambda>oper. db_op_col oper = 0) (ops tr)" "safe_ops (ops tr)" "sum_list (map op_bytes (ops tr)) < B"
    and "runs_0 faulty contents invar (fold col_op (ops tr) m) (f ())"
  shows "runs_0 faulty contents invar m (attempt (kv_write D tr) f)"
  unfolding runs_0_def
proof (intro allI impI runs_write)
  fix C :: store assume C: "C 0 = Some m"
  show "acceptable C tr" using assms(1-3) C by (auto simp: acceptable_def list_all_iff)
  have "store_write opers C 0 = Some (fold col_op opers m)" if "list_all (\<lambda>oper. db_op_col oper = 0) opers" for opers
    using that C by (induction opers arbitrary: C m) (auto simp: store_write_def store_op_def)
  then show "runs faulty contents invar (store_write (ops tr) C) (f ())" using assms(1,4) by (auto simp: runs_0_def)
qed

lemma runs_0_get: "fits m k \<Longrightarrow> runs_0 faulty contents invar m (f (m k)) \<Longrightarrow> runs_0 faulty contents invar m (attempt (kv_get D 0 k) f)"
  unfolding runs_0_def using runs_get by blast

lemma runs_0_iter:
  "sorted_wrt (<) (map fst l) \<Longrightarrow> map_of l = m \<Longrightarrow> runs_0 faulty contents invar m (f l) \<Longrightarrow> runs_0 faulty contents invar m (call (kv_iter D 0) f)"
  unfolding runs_0_def using runs_iter by blast

lemma runs_0_iter_prefix:
  "sorted_wrt (<) (map fst l) \<Longrightarrow> map_of l = (\<lambda>k. if prefix p k then m k else None) \<Longrightarrow> runs_0 faulty contents invar m (f l) \<Longrightarrow>
   runs_0 faulty contents invar m (call (kv_iter_with_prefix D 0 p) f)"
  unfolding runs_0_def using runs_iter_prefix by blast

lemma runs_0_get_by_prefix:
  assumes "map_of [(k, v)] = (\<lambda>k. if prefix p k then m k else None)" "runs_0 faulty contents invar m (f (Some v))"
  shows "runs_0 faulty contents invar m (call (kv_get_by_prefix D 0 p) f)"
  unfolding runs_0_def
proof (intro allI impI)
  fix C :: store assume "C 0 = Some m"
  then show "runs faulty contents invar C (call (kv_get_by_prefix D 0 p) f)"
    using runs_get_by_prefix [of C 0 m "[(k, v)]" p f] assms by (simp add: runs_0_def)
qed

lemma runs_0_steps:
  "b \<Longrightarrow> runs_0 faulty contents invar m (check b t) \<longleftrightarrow> runs_0 faulty contents invar m t"
  "runs_0 faulty contents invar m (unwrap (Some a) f) \<longleftrightarrow> runs_0 faulty contents invar m (f a)"
  "runs_0 faulty contents invar m ok_unit"
  by (simp_all add: runs_0_def runs_check_iff runs_unwrap_iff runs_ok)

lemma complex_runs_keys:
  assumes less: "k1 < k2" "k2 < k3" "k3 < k4" "k4 < k5" and len: "length k1 = 64" "length k2 = 64" "length k3 = 64" "length k4 = 64" "length k5 = 64"
    and pre: "\<not> prefix (bstr ''04c0'') k1" "\<not> prefix (bstr ''04c0'') k2" "prefix (bstr ''04c0'') k3" "prefix (bstr ''04c0'') k4"
      "prefix (bstr ''04c0'') k5"
  shows "runs_0 faulty contents invar Map.empty (complex_steps D k1 k2 k3 k4 k5)"
proof -
  have ord: "k1 < k3" "k1 < k4" "k1 < k5" "k2 < k4" "k2 < k5" "k3 < k5" using less by auto
  note ne = less [THEN less_imp_neq] ord [THEN less_imp_neq] less [THEN less_imp_neq, symmetric] ord [THEN less_imp_neq, symmetric]
  have eq: "prefix a b \<longleftrightarrow> a = b" if "length a = length b" for a b :: bytes
    using that by (auto simp: prefix_def)
  note ev = put_def delete_def db_transaction_new_def with_capacity_def op_bytes_def safe_ops_def prefix_safe_def length_bstr bstr_inject B_eq
    fits_def len ne runs_0_steps
  let ?cat = "bstr ''cat''" and ?dog = "bstr ''dog''" and ?cp = "bstr ''caterpillar''" and ?beef = "bstr ''beef''" and ?fish = "bstr ''fish''"
  note all = runs_0_iter [of "[(k1, ?cat), (k2, ?dog), (k3, ?cp), (k4, ?beef), (k5, ?fish)]"]
  note some = runs_0_iter_prefix [of "[(k3, ?cp), (k4, ?beef), (k5, ?fish)]"]
  note three = runs_0_get_by_prefix [of k3 "bstr ''elephant''"] and two = runs_0_get_by_prefix [of k2 ?dog]
  show ?thesis
    unfolding complex_steps_def Let_def
    by ((rule all some three two runs_0_get runs_0_write; (simp add: less ord ev fun_eq_iff pre eq)?)+)
qed

lemma complex_runs: "C 0 = Some Map.empty \<Longrightarrow> runs faulty contents invar C (test_complex D)"
proof -
  have "runs_0 faulty contents invar Map.empty (test_complex D)"
    unfolding test_complex_def Let_def
    by (rule complex_runs_keys) (simp_all add: bstr_prefix length_bstr, simp_all add: bstr_def)
  then show "C 0 = Some Map.empty \<Longrightarrow> runs faulty contents invar C (test_complex D)" by (simp add: runs_0_def)
qed

end

subsection \<open>The databases conform\<close>

text \<open>\<^verbatim>\<open>io_stats\<close> of the in-memory database is the default method of the trait.\<close>

definition default_io_stats :: "nat \<Rightarrow> stats_kind \<Rightarrow> io_stats" where
  "default_io_stats now kind = io_stats_empty now"

definition memory_kv :: "nat \<Rightarrow> (in_memory, io_error) kv_trait" where
  "memory_kv now =
     \<lparr> kv_get = \<lambda>c k s. Some (get s c k, s),
       kv_get_by_prefix = \<lambda>c p s. Some (get_by_prefix s c p, s),
       kv_write = \<lambda>tr s. write_db s tr,
       kv_iter = \<lambda>c s. Some (iter s c, s),
       kv_iter_with_prefix = \<lambda>c p s. Some (iter_with_prefix s c p, s),
       kv_io_stats = \<lambda>kind s. Some (default_io_stats now kind, s) \<rparr>"

definition rocks_kv :: "('w, 'd, 'c) rocks \<Rightarrow> (str \<Rightarrow> 'f option) \<Rightarrow> nat \<Rightarrow> ('d database \<times> 'w, io_err) kv_trait" where
  "rocks_kv R f64_from_str now =
     \<lparr> kv_get = \<lambda>c k (self, w). do { (r, self) \<leftarrow> rocks_get R w self c k; Some (r, self, w) },
       kv_get_by_prefix = \<lambda>c p (self, w). do { v \<leftarrow> rocks_get_by_prefix R w self c p; Some (v, self, w) },
       kv_write = \<lambda>tr (self, w). rocks_write R self tr w,
       kv_iter = \<lambda>c (self, w). do { l \<leftarrow> rocks_iter R w self c; Some (l, self, w) },
       kv_iter_with_prefix = \<lambda>c p (self, w). do { l \<leftarrow> rocks_iter_with_prefix R w self c p; Some (l, self, w) },
       kv_io_stats = \<lambda>kind (self, w). do { (s, self) \<leftarrow> rocks_io_stats R f64_from_str now w self kind; Some (s, self, w) } \<rparr>"

lemma memory_listing:
  assumes "db_wf s" "db_contents s c = Some m"
  shows "sorted_wrt (<) (map fst (iter s c))" "map_of (iter s c) = m"
    "sorted_wrt (<) (map fst (iter_with_prefix s c p))" "map_of (iter_with_prefix s c p) = (\<lambda>k. if prefix p k then m k else None)"
proof -
  obtain b where b: "columns s c = Some b" "m = map_of b"
    using assms(2) by (auto simp: db_contents_def btree_get_def [abs_def])
  then have wf: "btree_wf b" using db_wf_col [OF assms(1)] by simp
  then show "sorted_wrt (<) (map fst (iter s c))" "map_of (iter s c) = m" using b by (simp_all add: iter_def btree_wf_def)
  have "btree_wf (filter (\<lambda>(k, _). prefix p k) b)" using wf by (rule btree_wf_filter)
  then show "sorted_wrt (<) (map fst (iter_with_prefix s c p))" using b by (simp add: iter_with_prefix_def btree_wf_def)
  show "map_of (iter_with_prefix s c p) = (\<lambda>k. if prefix p k then m k else None)"
    using btree_get_filter [OF wf] b by (simp add: iter_with_prefix_def btree_get_def fun_eq_iff)
qed

interpretation memory_suite: conforming_db False "memory_kv now" db_contents db_wf
proof
  fix s c m k tr p
  assume wf: "db_wf s"
  show "\<exists>r s'. kv_get (memory_kv now) c k s = Some (r, s') \<and> db_wf s' \<and> db_contents s' = db_contents s \<and> (r = Inr (m k) \<or> False \<and> isl r)"
    if "db_contents s c = Some m" using mem.get_some [OF wf that] wf by (simp add: memory_kv_def)
  show "\<exists>r s'. kv_get (memory_kv now) c k s = Some (r, s') \<and> db_wf s' \<and> db_contents s' = db_contents s \<and> isl r"
    if "db_contents s c = None" using mem.get_none [OF wf that, of k] wf by (auto simp: memory_kv_def)
  show "\<exists>r s'. kv_write (memory_kv now) tr s = Some (r, s') \<and> db_wf s' \<and>
      (r = Inr () \<and> db_contents s' = store_write (ops tr) (db_contents s) \<or> False \<and> isl r \<and> db_contents s' = db_contents s)"
    using mem.write_law [OF wf, of tr] by (auto simp: memory_kv_def)
  assume m: "db_contents s c = Some m"
  note l = memory_listing [OF wf m]
  show "\<exists>l s'. kv_iter (memory_kv now) c s = Some (l, s') \<and> db_wf s' \<and> db_contents s' = db_contents s \<and>
      sorted_wrt (<) (map fst l) \<and> map_of l = m"
    using l(1,2) wf by (simp add: memory_kv_def)
  show "\<exists>l s'. kv_iter_with_prefix (memory_kv now) c p s = Some (l, s') \<and> db_wf s' \<and> db_contents s' = db_contents s \<and>
      sorted_wrt (<) (map fst l) \<and> map_of l = (\<lambda>k. if prefix p k then m k else None)"
    using l(3,4) [of p] wf by (simp add: memory_kv_def)
  show "\<exists>l s'. kv_get_by_prefix (memory_kv now) c p s = Some (case l of [] \<Rightarrow> None | (_, v) # _ \<Rightarrow> Some v, s') \<and> db_wf s' \<and>
      db_contents s' = db_contents s \<and> sorted_wrt (<) (map fst l) \<and> map_of l = (\<lambda>k. if prefix p k then m k else None)"
    using l(3,4) [of p] wf mem.get_by_prefix_law [OF wf m, of p] by (auto simp: memory_kv_def)
qed

definition rocks_open :: "('w, 'd, 'c) rocks \<Rightarrow> 'd database \<times> 'w \<Rightarrow> bool" where
  "rocks_open R = (\<lambda>(self, w). rocks_wf R w self \<and> lock self \<noteq> None)"

text \<open>No read and no write of the crate fails.\<close>

definition healthy :: "('w, 'd, 'c) rocks \<Rightarrow> bool" where
  "healthy R \<longleftrightarrow> (\<forall>w d h k. \<not> isl (get_pinned_cf_opt R w d h k)) \<and> (\<forall>d batch w. \<not> isl (fst (write_opt R d batch w)))"

lemma rocks_get_result:
  assumes "rocks_contract R contents" "rocks_wf R w self" "lock self = Some cfs"
    and "\<And>m. rocks_contents R contents w self c = Some m \<Longrightarrow> fits m k"
  shows "\<exists>r st. rocks_get R w self c k = Some (r, self\<lparr> stats := st \<rparr>) \<and>
    (healthy R \<longrightarrow> rocks_contents R contents w self c \<noteq> None \<longrightarrow> \<not> isl r)"
proof -
  have ok: "columns_ok R w cfs" using assms(2,3) by (simp add: rocks_wf_def)
  show ?thesis
  proof (cases "cf R w cfs (unat c)")
    case None
    then have "rocks_get R w self c k = Some (Inl (other_io_err (lit ''column index is out of bounds'')), self\<lparr> stats := stats self \<rparr>)"
      using columns_ok_cf(2) [OF ok, of "unat c"] assms(3) by (simp add: rocks_get_def)
    then show ?thesis using None assms(3)
      by (intro exI [of _ "Inl (other_io_err (lit ''column index is out of bounds''))"] exI [of _ "stats self"]) (simp add: rocks_contents_def)
  next
    case (Some h)
    then have "fits (contents w (db cfs) h) k" using assms(3,4) by (simp add: rocks_contents_def)
    moreover have "healthy R \<Longrightarrow> \<not> isl (get_pinned_cf_opt R w (db cfs) h k)" by (simp add: healthy_def)
    ultimately show ?thesis
      using Some assms(3) columns_ok_cf(2) [OF ok, of "unat c"] rocks_contract.read [OF assms(1), of w "db cfs" h k]
      by (cases "get_pinned_cf_opt R w (db cfs) h k")
        (auto simp: rocks_get_def Let_def fits_def usize_add_def split: option.splits)
  qed
qed

lemma rocks_write_result:
  assumes "healthy R" "lock self \<noteq> None" "rocks_write R self tr w = Some (r, self', w')"
  shows "r = Inr ()"
proof -
  obtain cfs where cfs: "lock self = Some cfs" using assms(2) by blast
  then obtain batch n where b: "batch_all R w cfs (ops tr) ([], 0) = Some (batch, n)"
    using assms(3) by (cases "batch_all R w cfs (ops tr) ([], 0)") (auto simp: rocks_write_def)
  obtain res w1 where w1: "write_opt R (db cfs) batch w = (res, w1)" by force
  then have "\<not> isl res" using assms(1) unfolding healthy_def by (metis fst_conv)
  then have "res = Inr ()" by (cases res) auto
  then show ?thesis using assms(3) cfs b w1 by (simp add: rocks_write_def check_for_corruption_def Let_def)
qed

lemma rocks_stats_only:
  "rocks_wf R w (self\<lparr> stats := st \<rparr>) = rocks_wf R w self" "rocks_contents R contents w (self\<lparr> stats := st \<rparr>) = rocks_contents R contents w self"
  by (simp_all add: rocks_wf_def rocks_contents_def fun_eq_iff)

lemma rocks_conforms:
  assumes laws: "rocks_contract R contents"
  shows "conforming_db (\<not> healthy R) (rocks_kv R f now) (\<lambda>(self, w). rocks_contents R contents w self) (rocks_open R)"
proof
  fix s :: "'b database \<times> 'a" and c m k tr p
  assume "rocks_open R s"
  then obtain self w cfs where s: "s = (self, w)" "rocks_wf R w self" "lock self = Some cfs"
    by (cases s) (auto simp: rocks_open_def)
  let ?C = "\<lambda>(self, w). rocks_contents R contents w self"
  have ok: "columns_ok R w cfs" using s(2,3) by (simp add: rocks_wf_def)
  have g: "\<exists>r s'. kv_get (rocks_kv R f now) c k s = Some (r, s') \<and> rocks_open R s' \<and> ?C s' = ?C s \<and>
      (case ?C s c of None \<Rightarrow> isl r | Some m \<Rightarrow> r = Inr (m k) \<or> \<not> healthy R \<and> isl r)" if fit: "\<And>m. ?C s c = Some m \<Longrightarrow> fits m k"
  proof -
    have "\<And>m. rocks_contents R contents w self c = Some m \<Longrightarrow> fits m k" using fit s(1) by simp
    then obtain r st where r: "rocks_get R w self c k = Some (r, self\<lparr> stats := st \<rparr>)"
      "healthy R \<longrightarrow> rocks_contents R contents w self c \<noteq> None \<longrightarrow> \<not> isl r"
      using rocks_get_result [OF laws s(2,3)] by blast
    then show ?thesis using rocks_contract.get_spec [OF laws s(2,3) r(1)] s
      by (auto simp: rocks_kv_def rocks_open_def rocks_stats_only split: option.split_asm option.split)
  qed
  show "\<exists>r s'. kv_get (rocks_kv R f now) c k s = Some (r, s') \<and> rocks_open R s' \<and> ?C s' = ?C s \<and> (r = Inr (m k) \<or> \<not> healthy R \<and> isl r)"
    if "?C s c = Some m" "fits m k" using g that by auto
  show "\<exists>r s'. kv_get (rocks_kv R f now) c k s = Some (r, s') \<and> rocks_open R s' \<and> ?C s' = ?C s \<and> isl r"
    if "?C s c = None" using g that by auto
  show "\<exists>r s'. kv_write (rocks_kv R f now) tr s = Some (r, s') \<and> rocks_open R s' \<and>
      (r = Inr () \<and> ?C s' = store_write (ops tr) (?C s) \<or> \<not> healthy R \<and> isl r \<and> ?C s' = ?C s)" if "acceptable (?C s) tr"
  proof -
    have "list_all (\<lambda>oper. unat (db_op_col oper) < length (column_names cfs)) (ops tr)" "safe_ops (ops tr)"
      "sum_list (map op_bytes (ops tr)) < B"
      using that s columns_ok_cf(2) [OF ok] by (auto simp: acceptable_def list_all_iff rocks_contents_def not_less)
    from rocks_contract.write_spec [OF laws s(3) ok this refl] show ?thesis
      using s rocks_write_result [of R self tr w] by (force simp: rocks_kv_def rocks_open_def split: sum.splits)
  qed
  assume m: "?C s c = Some m"
  then have m': "rocks_contents R contents w self c = Some m" using s by simp
  show "\<exists>l s'. kv_iter (rocks_kv R f now) c s = Some (l, s') \<and> rocks_open R s' \<and> ?C s' = ?C s \<and> sorted_wrt (<) (map fst l) \<and> map_of l = m"
    using rocks_contract.iter_spec [OF laws m'] s by (auto simp: rocks_kv_def rocks_open_def)
  obtain l where l: "rocks_iter_with_prefix R w self c p = Some l" "sorted_wrt (<) (map fst l)" "map_of l = (\<lambda>k. if prefix p k then m k else None)"
    using rocks_contract.iter_prefix_spec [OF laws m'] by blast
  then show "\<exists>l s'. kv_iter_with_prefix (rocks_kv R f now) c p s = Some (l, s') \<and> rocks_open R s' \<and> ?C s' = ?C s \<and>
      sorted_wrt (<) (map fst l) \<and> map_of l = (\<lambda>k. if prefix p k then m k else None)"
    using s by (auto simp: rocks_kv_def rocks_open_def)
  show "\<exists>l s'. kv_get_by_prefix (rocks_kv R f now) c p s = Some (case l of [] \<Rightarrow> None | (_, v) # _ \<Rightarrow> Some v, s') \<and> rocks_open R s' \<and>
      ?C s' = ?C s \<and> sorted_wrt (<) (map fst l) \<and> map_of l = (\<lambda>k. if prefix p k then m k else None)"
    using l s by (auto simp: rocks_kv_def rocks_open_def rocks_get_by_prefix_def intro!: exI [of _ l])
qed

lemma disk_healthy: "healthy disk_rocks"
  by (simp add: healthy_def disk_rocks_def)

interpretation disk_suite: conforming_db False "rocks_kv disk_rocks f now" "\<lambda>(self, w). rocks_contents disk_rocks disk_contents w self" "rocks_open disk_rocks"
  using rocks_conforms [OF on_disk.rocks_contract_axioms, of f now] by (simp add: disk_healthy)

subsection \<open>Properties\<close>

definition suite :: "('s, 'e) kv_trait \<Rightarrow> ('s, 'e) test list" where
  "suite D = [test_put_and_get D, test_delete_and_get D, test_get_fails_with_non_existing_column D, test_write_clears_buffered_ops D,
     test_iter D, test_iter_with_prefix D, test_complex D]"

lemma suite_runs:
  assumes "conforming_db faulty D contents invar" "C 0 = Some Map.empty" "C 1 = None"
  shows "\<forall>t\<in>set (suite D). runs faulty contents invar C t"
  using assms(2,3)
  by (auto simp: suite_def intro: conforming_db.put_and_get_runs [OF assms(1), of C] conforming_db.delete_and_get_runs [OF assms(1), of C]
      conforming_db.non_existing_column_runs [OF assms(1), of C] conforming_db.write_clears_runs [OF assms(1), of C]
      conforming_db.iter_runs [OF assms(1), of C] conforming_db.iter_with_prefix_runs [OF assms(1), of C] conforming_db.complex_runs [OF assms(1), of C])

text \<open>
  The test of the statistics.  On a fresh RocksDB database whose statistics are switched off, the ten reads of a missing key, the three writes and the
  three deletions are counted with their bytes, and the counts start again after they were taken.
\<close>

lemma rocks_write_all:
  assumes laws: "rocks_contract R contents" and "healthy R" "lock self = Some cfs" "columns_ok R w cfs"
    and "list_all (\<lambda>oper. unat (db_op_col oper) < length (column_names cfs)) opers" "safe_ops opers" "sum_list (map op_bytes opers) < B"
  shows "\<exists>w'. columns_ok R w' cfs \<and> (\<forall>st. rocks_write R (self\<lparr> stats := st \<rparr>) \<lparr> ops = opers \<rparr> w =
    Some (Inr (), self\<lparr> stats := tally_bytes_written (of_nat (sum_list (map op_bytes opers)))
      (tally_transactions 1 (tally_writes (of_nat (length opers)) st)) \<rparr>, w'))"
proof -
  obtain batch where b: "batch_all R w cfs opers ([], 0) = Some (batch, sum_list (map op_bytes opers))"
    using rocks_contract.batch_all_spec [OF laws assms(4-7)] by blast
  obtain res w' where w': "write_opt R (db cfs) batch w = (res, w')" by force
  then have "\<not> isl res" using assms(2) unfolding healthy_def by (metis fst_conv)
  then have res: "res = Inr ()" by (cases res) auto
  then have "columns_ok R w' cfs" using rocks_contract.write_ok [OF laws, of "db cfs" batch w w'] w' assms(4) by (simp add: columns_ok_def)
  then show ?thesis using assms(3) b w' res by (auto simp: rocks_write_def check_for_corruption_def Let_def)
qed

lemma rocks_get_times:
  assumes laws: "rocks_contract R contents" and "healthy R" "rocks_wf R w self" "lock self = Some cfs"
    and m: "rocks_contents R contents w self 0 = Some Map.empty" and k: "length k < B"
  shows "get_times n (rocks_kv R f now) k t (self\<lparr> stats := st \<rparr>, w) =
     t (self\<lparr> stats := tally_bytes_read (of_nat n * of_nat (length k)) (tally_reads (of_nat n) st) \<rparr>, w)"
proof (induction n arbitrary: st)
  case 0
  then show ?case by (simp add: tally_bytes_read_def tally_reads_def)
next
  case (Suc n)
  obtain h where h: "cf_handle R w (db cfs) (col_name (unat (0 :: u32))) = Some h"
    using m assms(3,4) columns_ok_cf [of R w cfs 0] by (auto simp: rocks_contents_def rocks_wf_def)
  have "\<not> isl (get_pinned_cf_opt R w (db cfs) h k)" using assms(2) by (simp add: healthy_def)
  then have "rocks_get R w (self\<lparr> stats := st \<rparr>) 0 k =
      Some (Inr None, self\<lparr> stats := tally_bytes_read (of_nat (length k)) (tally_reads 1 st) \<rparr>)"
    using rocks_get_exact [OF laws, of w "self\<lparr> stats := st \<rparr>" cfs 0 Map.empty h k] assms(3,4) m h k
    by (cases "get_pinned_cf_opt R w (db cfs) h k") (simp_all add: rocks_stats_only)
  then show ?case using Suc [of "tally_bytes_read (of_nat (length k)) (tally_reads 1 st)"]
    by (simp add: attempt_def rocks_kv_def tally_bytes_read_def tally_reads_def algebra_simps)
qed

lemma io_stats_rocks:
  assumes laws: "rocks_contract R contents" and h: "healthy R" and wf: "rocks_wf R w self" and self: "lock self = Some cfs"
    and m: "list_all (\<lambda>ix. rocks_contents R contents w self ix = Some Map.empty) [0, 1, 2]"
    and fresh: "stats self = running_new now1 now2" and off: "\<And>w. options_statistics R w (opts self) = None"
  shows "\<exists>s. test_io_stats (rocks_kv R f now) (self, w) = Some (Inr (), s)"
proof -
  let ?k = "bstr ''kkk''"
  have ok: "columns_ok R w cfs" using wf self by (simp add: rocks_wf_def)
  have c: "2 < length (column_names cfs)"
    using m self columns_ok_cf(2) [OF ok, of 2] by (auto simp: rocks_contents_def not_le [symmetric])
  then have ne: "column_names cfs \<noteq> []" by auto
  obtain w1 where w1: "columns_ok R w1 cfs" "\<And>st. rocks_write R (self\<lparr> stats := st \<rparr>) \<lparr> ops = [Insert 0 ?k ?k, Insert 1 ?k ?k, Insert 2 ?k ?k] \<rparr> w =
      Some (Inr (), self\<lparr> stats := tally_bytes_written 18 (tally_transactions 1 (tally_writes 3 st)) \<rparr>, w1)"
    using rocks_write_all [OF laws h self ok, of "[Insert 0 ?k ?k, Insert 1 ?k ?k, Insert 2 ?k ?k]"] c ne
    by (auto simp: safe_ops_def prefix_safe_def op_bytes_def length_bstr B_eq)
  obtain w2 where w2: "\<And>st. rocks_write R (self\<lparr> stats := st \<rparr>) \<lparr> ops = [Delete 0 ?k, Delete 1 ?k, Delete 2 ?k] \<rparr> w1 =
      Some (Inr (), self\<lparr> stats := tally_bytes_written 9 (tally_transactions 1 (tally_writes 3 st)) \<rparr>, w2)"
    using rocks_write_all [OF laws h self w1(1), of "[Delete 0 ?k, Delete 1 ?k, Delete 2 ?k]"] c ne
    by (auto simp: safe_ops_def prefix_safe_def op_bytes_def length_bstr B_eq)
  have start: "self = self\<lparr> stats := running_new now1 now2 \<rparr>" using fresh by simp
  note gets = rocks_get_times [OF laws h wf self, of ?k] and tallies = tally_reads_def tally_bytes_read_def tally_writes_def tally_bytes_written_def
    tally_transactions_def tally_cache_hit_count_def running_new_def overall_def since_previous_def take_current_def peek_current_def combine_def
    overall_new_def raw_default_def io_stats_empty_def padd_def psub_def radix_def
  have "get_times 10 (rocks_kv R f now) ?k t (self\<lparr> stats := running_new now1 now2 \<rparr>, w) =
     t (self\<lparr> stats := tally_bytes_read 30 (tally_reads 10 (running_new now1 now2)) \<rparr>, w)" for t
    using gets [of 10] m by (simp add: length_bstr B_eq)
  then show ?thesis
    unfolding test_io_stats_def Let_def
    by (subst start) (simp add: attempt_def call_def check_def ok_unit_def put_def delete_def db_transaction_new_def with_capacity_def
        rocks_kv_def w1(2) w2 rocks_io_stats_def get_statistics_def off tallies)
qed

text \<open>The in-memory database keeps no counters, so the first assertion of this test fails on it.\<close>

lemma io_stats_memory: "test_io_stats (memory_kv now) (create IO_STATS_NUM_COLUMNS) = panic"
proof -
  have c: "db_contents (create 3) 0 = Some Map.empty" by (simp add: create_facts)
  have g: "kv_get (memory_kv now) 0 k (create 3) = Some (Inr None, create 3)" for k
    using mem.get_some [OF create_facts(2) c] by (simp add: memory_kv_def)
  have t: "get_times n (memory_kv now) k f (create 3) = f (create 3)" for n k f
    by (induction n) (simp_all add: attempt_def g)
  let ?k = "bstr ''kkk''"
  obtain db where w: "kv_write (memory_kv now) (put 2 ?k ?k (put 1 ?k ?k (put 0 ?k ?k db_transaction_new))) (create 3) = Some (Inr (), db)"
    using mem.write_law [OF create_facts(2), of 3] by (force simp: memory_kv_def)
  have "kv_io_stats (memory_kv now) kind db = Some (io_stats_empty now, db)" for kind
    by (simp add: memory_kv_def default_io_stats_def)
  then show ?thesis
    unfolding test_io_stats_def IO_STATS_NUM_COLUMNS_def Let_def t by (simp add: attempt_def w call_def check_def io_stats_empty_def)
qed

text \<open>
  C30. The shared tests.  On the in-memory database and on a RocksDB database with the documented behaviour of the crate \<^verbatim>\<open>rocksdb\<close>
  whose reads and writes succeed, all tests of reads, writes, iteration and deletion by prefix end with \<^verbatim>\<open>Ok\<close>, on fresh databases with one
  column and with seven columns for the test of deletions; when the crate reports errors, the tests on RocksDB still fail no assertion.  The test of the
  statistics ends with \<^verbatim>\<open>Ok\<close> on a fresh RocksDB database with three columns that collects no statistics of the crate; on the in-memory database, which keeps no
  counters, its first assertion fails.
\<close>

theorem shared_tests_pass:
  assumes laws: "rocks_contract R contents"
    and one: "rocks_open R (self, w)" "rocks_contents R contents w self = [0 \<mapsto> Map.empty]"
    and seven: "rocks_open R (self', w')" "list_all (\<lambda>ix. rocks_contents R contents w' self' ix \<noteq> None) [0, 1, 2, 3, 4, 5, 6]"
    and three: "rocks_open R (self'', w'')" "list_all (\<lambda>ix. rocks_contents R contents w'' self'' ix = Some Map.empty) [0, 1, 2]"
      "stats self'' = running_new now1 now2" "\<And>w. options_statistics R w (opts self'') = None"
  shows "(\<forall>t\<in>set (suite (memory_kv now)). \<exists>db. t (create 1) = Some (Inr (), db)) \<and>
    (\<exists>db. test_delete_prefix (memory_kv now) (create DELETE_PREFIX_NUM_COLUMNS) = Some (Inr (), db)) \<and>
    test_io_stats (memory_kv now) (create IO_STATS_NUM_COLUMNS) = panic \<and>
    (\<forall>t\<in>set (suite (rocks_kv R f now)). \<exists>r s. t (self, w) = Some (r, s) \<and> (healthy R \<longrightarrow> r = Inr ())) \<and>
    (\<exists>r s. test_delete_prefix (rocks_kv R f now) (self', w') = Some (r, s) \<and> (healthy R \<longrightarrow> r = Inr ())) \<and>
    (healthy R \<longrightarrow> (\<exists>s. test_io_stats (rocks_kv R f now) (self'', w'') = Some (Inr (), s)))"
proof -
  let ?C = "\<lambda>(self, w). rocks_contents R contents w self"
  note rocks = rocks_conforms [OF laws, of f now]
  have "\<forall>t\<in>set (suite (rocks_kv R f now)). runs (\<not> healthy R) ?C (rocks_open R) (?C (self, w)) t"
    by (rule suite_runs [OF rocks]) (simp_all add: one(2))
  moreover have "runs (\<not> healthy R) ?C (rocks_open R) (?C (self', w')) (test_delete_prefix (rocks_kv R f now))"
    by (rule conforming_db.delete_prefix_runs [OF rocks]) (use seven(2) in simp)
  moreover have "\<forall>t\<in>set (suite (memory_kv now)). runs False db_contents db_wf (db_contents (create 1)) t"
    by (rule suite_runs [OF memory_suite.conforming_db_axioms]) (simp_all add: create_facts)
  moreover have "runs False db_contents db_wf (db_contents (create 7)) (test_delete_prefix (memory_kv now))"
    by (rule memory_suite.delete_prefix_runs) (simp add: create_facts)
  moreover have "\<exists>r s. t x = Some (r, s) \<and> (healthy R \<longrightarrow> r = Inr ())" if "runs (\<not> healthy R) ?C (rocks_open R) (?C x) t" "rocks_open R x" for t x
    using that unfolding runs_def by blast
  moreover have "\<exists>db. t (create n) = Some (Inr (), db)" if "runs False db_contents db_wf (db_contents (create n)) t" for t n
    using that create_facts(2) by (auto simp: runs_def)
  moreover obtain cfs where "lock self'' = Some cfs" "rocks_wf R w'' self''" using three(1) by (auto simp: rocks_open_def)
  then have "\<exists>s. test_io_stats (rocks_kv R f now) (self'', w'') = Some (Inr (), s)" if "healthy R"
    using io_stats_rocks [OF laws that _ _ three(2-4)] by blast
  ultimately show ?thesis using one(1) seven(1) io_stats_memory unfolding DELETE_PREFIX_NUM_COLUMNS_def by blast
qed

text \<open>New databases with the given number of columns on the disk of the model.\<close>

definition disk_with :: "nat \<Rightarrow> unit database \<times> disk" where
  "disk_with n =
     (sample_db\<lparr> lock := Some \<lparr> db = (), column_names = map col_name [0..<n] \<rparr> \<rparr>,
      \<lparr> disk_names = map col_name [0..<n], disk_cols = \<lambda>_. fmempty \<rparr>)"

lemma disk_with_open: "n \<le> 2 ^ 32 \<Longrightarrow> rocks_open disk_rocks (disk_with n)"
  by (auto simp: rocks_open_def rocks_wf_def columns_ok_def disk_with_def disk_rocks_def)

lemma disk_with_contents:
  "rocks_contents disk_rocks disk_contents (snd (disk_with n)) (fst (disk_with n)) c = (if unat c < n then Some Map.empty else None)"
  by (simp add: rocks_contents_def disk_with_def cf_def index_at_def disk_rocks_def disk_contents_def fun_eq_iff)

theorem shared_tests_pass_witness:
  "(\<exists>s. test_complex (rocks_kv disk_rocks (\<lambda>_. None :: unit option) 0) (disk_with 1) = Some (Inr (), s)) \<and>
   (\<exists>s. test_delete_prefix (rocks_kv disk_rocks (\<lambda>_. None :: unit option) 0) (disk_with 7) = Some (Inr (), s)) \<and>
   (\<exists>s. test_io_stats (rocks_kv disk_rocks (\<lambda>_. None :: unit option) 0) (disk_with 3) = Some (Inr (), s))"
proof -
  let ?s = "disk_with 1" and ?t = "disk_with 7" and ?u = "disk_with 3"
  have o: "rocks_open disk_rocks (fst ?s, snd ?s)" "rocks_open disk_rocks (fst ?t, snd ?t)" "rocks_open disk_rocks (fst ?u, snd ?u)"
    by (simp_all add: disk_with_open)
  have "rocks_contents disk_rocks disk_contents (snd ?s) (fst ?s) = [0 \<mapsto> Map.empty]"
    by (auto simp: fun_eq_iff disk_with_contents unat_eq_0)
  moreover have "list_all (\<lambda>ix. rocks_contents disk_rocks disk_contents (snd ?t) (fst ?t) ix \<noteq> None) [0, 1, 2, 3, 4, 5, 6]"
    "list_all (\<lambda>ix. rocks_contents disk_rocks disk_contents (snd ?u) (fst ?u) ix = Some Map.empty) [0, 1, 2]"
    "stats (fst ?u) = running_new 0 0" "\<And>w. options_statistics disk_rocks w (opts (fst ?u)) = None"
    by (simp_all add: disk_with_contents) (simp_all add: disk_with_def sample_db_def disk_rocks_def)
  ultimately show ?thesis
    using shared_tests_pass [OF on_disk.rocks_contract_axioms o(1) _ o(2) _ o(3), of 0 0 0 "\<lambda>_. None :: unit option"] disk_healthy
    by (auto simp: suite_def)
qed

end
