(* ===== verification/Kvdb_Web.thy ===== *)
theory Kvdb_Web
  imports Kvdb Rocks_Stats "HOL-Library.Finite_Map"
begin

text \<open>
  The database for browsers, \<^verbatim>\<open>kvdb-web\<close>: an in-memory database that is filled from an IndexedDB when it is opened, and whose
  writes also go to the IndexedDB.  The browser is the record \<open>browser\<close> of the functions the sources call, which act on a state
  \<open>'w\<close> of everything outside the program; a transaction of the IndexedDB is of type \<open>'t\<close>.  A connection is known by the name of its
  database.  A transaction is finished as a whole, complete or aborted, before the next one on the same stores starts, so that is one step; a
  future that waits for an event is \<open>Pending\<close> when the event does not come.
\<close>

subsection \<open>Errors\<close>

datatype web_error = WindowNotAvailable | NotSupported str | Nonexhaustive

fun web_error_description :: "web_error \<Rightarrow> str may_panic" where
  "web_error_description WindowNotAvailable = Some (lit ''Accessing a Window has failed'')"
| "web_error_description (NotSupported _) = Some (lit ''IndexedDB is not supported by your browser'')"
| "web_error_description Nonexhaustive = panic"

fun web_error_display :: "web_error \<Rightarrow> str may_panic" where
  "web_error_display WindowNotAvailable = Some (lit ''Accessing a Window has failed'')"
| "web_error_display (NotSupported err) = Some (lit ''IndexedDB is not supported by your browser: '' @ err)"
| "web_error_display Nonexhaustive = panic"

subsection \<open>The browser\<close>

text \<open>
  \<open>window\<close> tells whether there is a window, \<open>indexed_db_factory\<close> is the result of \<^verbatim>\<open>window.indexed_db()\<close>.  \<open>idb_open\<close> gets the
  handler of the event \<^verbatim>\<open>upgradeneeded\<close> and returns the state at the event \<^verbatim>\<open>success\<close>, if it comes.  The requests of a transaction
  are made on it, and may throw; \<open>finish\<close> tells whether the transaction completed.  \<open>open_cursor\<close> is the sequence of the results of the cursor, if it
  comes to the end.  Failures of requests are texts.
\<close>

record ('w, 't) browser =
  window :: bool
  indexed_db_factory :: "str + unit option"
  idb_open :: "str \<Rightarrow> u32 option \<Rightarrow> ('w \<Rightarrow> 'w) \<Rightarrow> 'w \<Rightarrow> 'w option"
  idb_close :: "str \<Rightarrow> 'w \<Rightarrow> 'w"
  db_version :: "'w \<Rightarrow> str \<Rightarrow> nat"
  object_store_count :: "'w \<Rightarrow> str \<Rightarrow> u32"
  create_object_store :: "str \<Rightarrow> str \<Rightarrow> 'w \<Rightarrow> str + 'w"
  idb_transaction :: "'w \<Rightarrow> str \<Rightarrow> str list \<Rightarrow> 't option"
  object_store :: "'t \<Rightarrow> str \<Rightarrow> bool"
  put_with_key :: "str \<Rightarrow> bytes \<Rightarrow> bytes \<Rightarrow> 't \<Rightarrow> str + 't"
  delete_key :: "str \<Rightarrow> bytes \<Rightarrow> 't \<Rightarrow> str + 't"
  key_range_bound :: "bytes \<Rightarrow> bytes \<Rightarrow> bool"
  delete_range :: "str \<Rightarrow> bytes \<Rightarrow> bytes \<Rightarrow> 't \<Rightarrow> str + 't"
  finish :: "str \<Rightarrow> 't \<Rightarrow> 'w \<Rightarrow> bool \<times> 'w"
  open_cursor :: "'w \<Rightarrow> str \<Rightarrow> str \<Rightarrow> (bytes \<times> bytes) list option"

datatype 'a future = Pending | Ready 'a

subsection \<open>Access to the IndexedDB\<close>

record indexed_db =
  idb_version :: u32
  idb_columns :: u32

definition store_name :: "u32 \<Rightarrow> str" where
  "store_name num = lit ''col'' @ dec_text (unat num)"

definition store_names_js :: "u32 \<Rightarrow> str list" where
  "store_names_js cols = map (\<lambda>i. store_name (of_nat i)) [0..<unat cols]"

text \<open>A request that throws is logged and leaves the state as it is.\<close>

definition logged :: "('w \<Rightarrow> str + 'w) \<Rightarrow> 'w \<Rightarrow> 'w" where
  "logged request w = (case request w of Inl _ \<Rightarrow> w | Inr w' \<Rightarrow> w')"

fun create_stores :: "('w, 't) browser \<Rightarrow> str \<Rightarrow> str list \<Rightarrow> 'w \<Rightarrow> 'w" where
  "create_stores br name [] w = w"
| "create_stores br name (s # ss) w = create_stores br name ss (logged (create_object_store br name s) w)"

definition try_create_missing_stores :: "('w, 't) browser \<Rightarrow> str \<Rightarrow> u32 \<Rightarrow> 'w \<Rightarrow> 'w" where
  "try_create_missing_stores br name cols w =
     (let previous_columns = object_store_count br w name in
      create_stores br name (map (\<lambda>i. store_name (of_nat i)) [unat previous_columns..<Suc (unat cols)]) w)"

text \<open>\<^verbatim>\<open>db.version().round() as u32\<close>: the version is a whole number, and the conversion saturates.\<close>

definition version_u32 :: "nat \<Rightarrow> u32" where
  "version_u32 v = of_nat (min v (2 ^ 32 - 1))"

definition indexed_db_open ::
  "('w, 't) browser \<Rightarrow> str \<Rightarrow> u32 option \<Rightarrow> u32 \<Rightarrow> 'w \<Rightarrow> ((web_error + indexed_db) \<times> 'w) future may_panic" where
  "indexed_db_open br name version cols w =
     (if \<not> window br then Some (Ready (Inl WindowNotAvailable, w))
      else case indexed_db_factory br of
        Inl err \<Rightarrow> Some (Ready (Inl (NotSupported err), w))
      | Inr None \<Rightarrow> panic
      | Inr (Some _) \<Rightarrow>
          (case idb_open br name version (try_create_missing_stores br name cols) w of
             None \<Rightarrow> Some Pending
           | Some w \<Rightarrow>
               Some (Ready (Inr \<lparr> idb_version = version_u32 (db_version br w name), idb_columns = object_store_count br w name \<rparr>, w))))"

fun idb_op :: "('w, 't) browser \<Rightarrow> u32 \<Rightarrow> db_op \<Rightarrow> 't \<Rightarrow> 't may_panic" where
  "idb_op br cols (Insert col key val) t =
     (if unat col < unat cols then Some (logged (put_with_key br (store_name col) val key) t) else panic)"
| "idb_op br cols (Delete col key) t =
     (if unat col < unat cols then Some (logged (delete_key br (store_name col) key) t) else panic)"
| "idb_op br cols (DeletePrefix col p) t =
     do {
       rust_assert (key_range_bound br p p);
       if unat col < unat cols then Some (logged (delete_range br (store_name col) p p) t) else panic }"

fun idb_ops :: "('w, 't) browser \<Rightarrow> u32 \<Rightarrow> db_op list \<Rightarrow> 't \<Rightarrow> 't may_panic" where
  "idb_ops br cols [] t = Some t"
| "idb_ops br cols (oper # opers) t = do { t \<leftarrow> idb_op br cols oper t; idb_ops br cols opers t }"

text \<open>The result tells whether the returned future becomes ready, at the event \<^verbatim>\<open>complete\<close>.\<close>

definition idb_commit_transaction :: "('w, 't) browser \<Rightarrow> str \<Rightarrow> db_transaction \<Rightarrow> u32 \<Rightarrow> 'w \<Rightarrow> (bool \<times> 'w) may_panic" where
  "idb_commit_transaction br name txn cols w =
     do {
       idb_txn \<leftarrow> idb_transaction br w name (store_names_js cols);
       rust_assert (list_all (object_store br idb_txn) (store_names_js cols));
       idb_txn \<leftarrow> idb_ops br cols (ops txn) idb_txn;
       Some (finish br name idb_txn w) }"

definition idb_cursor :: "('w, 't) browser \<Rightarrow> str \<Rightarrow> u32 \<Rightarrow> 'w \<Rightarrow> (bytes \<times> bytes) list option may_panic" where
  "idb_cursor br name col w =
     do {
       txn \<leftarrow> idb_transaction br w name [store_name col];
       rust_assert (object_store br txn (store_name col));
       Some (open_cursor br w name (store_name col)) }"

subsection \<open>The database\<close>

record web_database =
  web_name :: str
  web_version :: u32
  web_columns :: u32
  web_memory :: in_memory

fun populate :: "('w, 't) browser \<Rightarrow> str \<Rightarrow> u32 list \<Rightarrow> 'w \<Rightarrow> in_memory \<Rightarrow> in_memory future may_panic" where
  "populate br name [] w mem = Some (Ready mem)"
| "populate br name (column # cols) w mem =
     do {
       stream \<leftarrow> idb_cursor br name column w;
       case stream of
         None \<Rightarrow> Some Pending
       | Some entries \<Rightarrow>
           do {
             let txn = fold (\<lambda>(key, val) txn. put_vec column key val txn) entries db_transaction_new;
             (r, mem) \<leftarrow> write_db mem txn;
             rust_assert (r = Inr ());
             populate br name cols w mem } }"

definition future_bind :: "((web_error + 'a) \<times> 'w) future may_panic \<Rightarrow> ('a \<Rightarrow> 'w \<Rightarrow> ((web_error + 'b) \<times> 'w) future may_panic) \<Rightarrow>
    ((web_error + 'b) \<times> 'w) future may_panic" where
  "future_bind m f =
     (case m of
        None \<Rightarrow> None
      | Some Pending \<Rightarrow> Some Pending
      | Some (Ready (Inl e, w)) \<Rightarrow> Some (Ready (Inl e, w))
      | Some (Ready (Inr a, w)) \<Rightarrow> f a w)"

text \<open>A database with too few columns is opened again with the next version.\<close>

definition ensure_columns :: "('w, 't) browser \<Rightarrow> str \<Rightarrow> u32 \<Rightarrow> indexed_db \<Rightarrow> 'w \<Rightarrow> ((web_error + indexed_db) \<times> 'w) future may_panic" where
  "ensure_columns br name cols idb w =
     do {
       needed \<leftarrow> padd cols 1;
       if needed > idb_columns idb then
         do {
           next_version \<leftarrow> padd (idb_version idb) 1;
           indexed_db_open br name (Some next_version) cols w }
       else Some (Ready (Inr idb, w)) }"

definition web_open :: "('w, 't) browser \<Rightarrow> str \<Rightarrow> u32 \<Rightarrow> 'w \<Rightarrow> ((web_error + web_database) \<times> 'w) future may_panic" where
  "web_open br name cols w =
     future_bind (indexed_db_open br name None cols w) (\<lambda>idb w.
       future_bind (ensure_columns br name cols idb w) (\<lambda>idb w.
         do {
           filled \<leftarrow> populate br name (map of_nat [0..<unat cols]) w (create cols);
           Some (case filled of
               Pending \<Rightarrow> Pending
             | Ready mem \<Rightarrow>
                 Ready (Inr \<lparr> web_name = name, web_version = idb_version idb, web_columns = cols, web_memory = mem \<rparr>, w)) }))"

definition web_drop :: "('w, 't) browser \<Rightarrow> web_database \<Rightarrow> 'w \<Rightarrow> 'w" where
  "web_drop br self w = idb_close br (web_name self) w"

definition web_get :: "web_database \<Rightarrow> u32 \<Rightarrow> bytes \<Rightarrow> io_error + db_value option" where
  "web_get self col key = get (web_memory self) col key"

definition web_get_by_prefix :: "web_database \<Rightarrow> u32 \<Rightarrow> bytes \<Rightarrow> bytes option" where
  "web_get_by_prefix self col p = get_by_prefix (web_memory self) col p"

definition web_write ::
  "('w, 't) browser \<Rightarrow> web_database \<Rightarrow> db_transaction \<Rightarrow> 'w \<Rightarrow> ((io_error + unit) \<times> web_database \<times> 'w) may_panic" where
  "web_write br self tr w =
     do {
       (_, w) \<leftarrow> idb_commit_transaction br (web_name self) tr (web_columns self) w;
       (r, mem) \<leftarrow> write_db (web_memory self) tr;
       Some (r, self\<lparr> web_memory := mem \<rparr>, w) }"

definition web_iter :: "web_database \<Rightarrow> u32 \<Rightarrow> (bytes \<times> bytes) list" where
  "web_iter self col = iter (web_memory self) col"

definition web_iter_with_prefix :: "web_database \<Rightarrow> u32 \<Rightarrow> bytes \<Rightarrow> (bytes \<times> bytes) list" where
  "web_iter_with_prefix self col p = iter_with_prefix (web_memory self) col p"

definition web_restore :: "web_database \<Rightarrow> str \<Rightarrow> str + unit" where
  "web_restore self new_db = Inl (lit ''Not supported yet'')"

subsection \<open>What the browser promises\<close>

text \<open>The databases of the browser by their names: a version, and the object stores, each a map from keys to values.\<close>

record idb_view =
  idb_ver :: nat
  stores :: "str \<rightharpoonup> (bytes \<rightharpoonup> bytes)"

definition store_upd :: "str \<Rightarrow> str \<Rightarrow> (bytes \<rightharpoonup> bytes) \<Rightarrow> (str \<rightharpoonup> idb_view) \<Rightarrow> str \<rightharpoonup> idb_view" where
  "store_upd name s m v = (case v name of None \<Rightarrow> v | Some d \<Rightarrow> v(name \<mapsto> d\<lparr> stores := (stores d)(s \<mapsto> m) \<rparr>))"

text \<open>The requests of a transaction and what they do to the object stores when it completes.\<close>

datatype idb_request = PutReq str bytes bytes | DeleteReq str bytes | DeleteRangeReq str bytes bytes

fun apply_request :: "idb_request \<Rightarrow> (str \<rightharpoonup> (bytes \<rightharpoonup> bytes)) \<Rightarrow> str \<rightharpoonup> (bytes \<rightharpoonup> bytes)" where
  "apply_request (PutReq s k v) ss = ss(s := map_option (\<lambda>m. m(k \<mapsto> v)) (ss s))"
| "apply_request (DeleteReq s k) ss = ss(s := map_option (\<lambda>m. m(k := None)) (ss s))"
| "apply_request (DeleteRangeReq s lo hi) ss = ss(s := map_option (\<lambda>m k. if lo \<le> k \<and> k \<le> hi then None else m k) (ss s))"

text \<open>
  The standard of IndexedDB, with \<open>view\<close> the databases and \<open>reqs\<close> the requests made on a transaction.  Opening a database that does not exist creates it
  with version 1, opening it with a greater version upgrades it, and both call the handler; the event \<^verbatim>\<open>success\<close> need not come: the
  request may fail, and an upgrade waits until all other connections are closed.  A request may throw, and then it is not part of the transaction.  A
  transaction that completes carries out its requests in order, one that is aborted changes nothing.  Keys that are byte arrays are ordered as
  byte strings; a range includes its bounds.  The browser has a window and supports IndexedDB, it does not
  close a connection by itself, and no other program changes the databases meanwhile.
\<close>

locale idb_contract =
  fixes br :: "('w, 't) browser" and view :: "'w \<Rightarrow> str \<rightharpoonup> idb_view" and reqs :: "'t \<Rightarrow> idb_request list"
  assumes supported: "window br" "indexed_db_factory br = Inr (Some ())"
    and open_new: "view w name = None \<Longrightarrow> idb_open br name None up w = Some u \<Longrightarrow>
      \<exists>w'. u = up w' \<and> view w' = (view w)(name \<mapsto> \<lparr> idb_ver = 1, stores = Map.empty \<rparr>)"
    and open_same: "view w name = Some d \<Longrightarrow> idb_open br name None up w = Some u \<Longrightarrow> view u = view w"
    and open_upgrade: "view w name = Some d \<Longrightarrow> idb_ver d < unat n \<Longrightarrow> idb_open br name (Some n) up w = Some u \<Longrightarrow>
      \<exists>w'. u = up w' \<and> view w' = (view w)(name \<mapsto> d\<lparr> idb_ver := unat n \<rparr>)"
    and closing: "view (idb_close br name w) = view w"
    and version_of: "view w name = Some d \<Longrightarrow> db_version br w name = idb_ver d"
    and count_of: "view w name = Some d \<Longrightarrow> object_store_count br w name = of_nat (card (dom (stores d)))"
    and create_ok: "view w name = Some d \<Longrightarrow> stores d s = None \<Longrightarrow>
      \<exists>w'. create_object_store br name s w = Inr w' \<and> view w' = store_upd name s Map.empty (view w)"
    and transaction_ok: "view w name = Some d \<Longrightarrow> ss \<noteq> [] \<Longrightarrow> set ss \<subseteq> dom (stores d) \<Longrightarrow>
      \<exists>t. idb_transaction br w name ss = Some t \<and> reqs t = [] \<and> list_all (object_store br t) ss"
    and transaction_empty: "idb_transaction br w name [] = None"
    and put_ok: "put_with_key br s v k t = Inr t' \<Longrightarrow> reqs t' = reqs t @ [PutReq s k v]"
    and delete_ok: "delete_key br s k t = Inr t' \<Longrightarrow> reqs t' = reqs t @ [DeleteReq s k]"
    and bound_ok: "key_range_bound br lo hi \<longleftrightarrow> lo \<le> hi"
    and delete_range_ok: "delete_range br s lo hi t = Inr t' \<Longrightarrow> reqs t' = reqs t @ [DeleteRangeReq s lo hi]"
    and completed: "view w name = Some d \<Longrightarrow> finish br name t w = (True, w') \<Longrightarrow>
      view w' = (view w)(name \<mapsto> d\<lparr> stores := fold apply_request (reqs t) (stores d) \<rparr>)"
    and aborted: "finish br name t w = (False, w') \<Longrightarrow> view w' = view w"
    and cursor_ok: "view w name = Some d \<Longrightarrow> stores d s = Some m \<Longrightarrow> open_cursor br w name s = Some l \<Longrightarrow>
      distinct (map fst l) \<and> map_of l = m"

text \<open>
  A browser in which nothing goes wrong: no request throws, transactions complete, cursors come to their end, and a database is opened when no
  upgrade is asked for.
\<close>

definition reliable :: "('w, 't) browser \<Rightarrow> bool" where
  "reliable br \<longleftrightarrow> (\<forall>name up w. idb_open br name None up w \<noteq> None) \<and> (\<forall>s v k t. \<not> isl (put_with_key br s v k t)) \<and>
     (\<forall>s k t. \<not> isl (delete_key br s k t)) \<and> (\<forall>s lo hi t. \<not> isl (delete_range br s lo hi t)) \<and>
     (\<forall>name t w. fst (finish br name t w)) \<and> (\<forall>w name s. open_cursor br w name s \<noteq> None)"

subsection \<open>The stores of the columns\<close>

definition store_names :: "nat \<Rightarrow> str set" where
  "store_names n = (\<lambda>i. store_name (of_nat i)) ` {..<n}"

definition cols_ok :: "idb_view \<Rightarrow> nat \<Rightarrow> bool" where
  "cols_ok d n \<longleftrightarrow> dom (stores d) = store_names n \<and> n < 2 ^ 32"

text \<open>A database with the stores of one more than the given number of columns, those that were missing empty.\<close>

definition grown :: "u32 \<Rightarrow> idb_view \<Rightarrow> idb_view" where
  "grown cols d = d\<lparr> stores := \<lambda>s. if s \<in> store_names (Suc (unat cols)) \<and> stores d s = None then Some Map.empty else stores d s \<rparr>"

lemma store_name_inject [simp]: "store_name a = store_name b \<longleftrightarrow> a = b"
  by (simp add: store_name_def dec_text_inject word_unat_eq_iff)

lemma of_nat_u32_inj: "i < 2 ^ 32 \<Longrightarrow> j < 2 ^ 32 \<Longrightarrow> (of_nat i :: u32) = of_nat j \<longleftrightarrow> i = j"
  by (auto simp: word_unat_eq_iff unat_of_nat_lt radix_def)

lemma names_inj: "n \<le> 2 ^ 32 \<Longrightarrow> inj_on (\<lambda>i. store_name (of_nat i)) {..<n}"
  by (rule inj_onI) (simp add: of_nat_u32_inj)

lemma card_names: "n \<le> 2 ^ 32 \<Longrightarrow> card (store_names n) = n"
  unfolding store_names_def by (subst card_image [OF names_inj]) auto

lemma in_names: "n \<le> 2 ^ 32 \<Longrightarrow> store_name c \<in> store_names n \<longleftrightarrow> unat c < n"
proof -
  assume n: "n \<le> 2 ^ 32"
  have "c = of_nat i \<longleftrightarrow> unat c = i" if "i < n" for i
    using that n by (auto simp: unat_of_nat_lt radix_def)
  then show ?thesis by (auto simp: store_names_def image_iff)
qed

lemma names_mono: "m \<le> n \<Longrightarrow> store_names m \<subseteq> store_names n"
  by (auto simp: store_names_def)

lemma names_max: "store_names m \<union> store_names n = store_names (max m n)"
  using names_mono [of m n] names_mono [of n m] by (cases "m \<le> n") (auto simp: max_def)

lemma grown_cols: "cols_ok d p \<Longrightarrow> Suc (unat cols) < 2 ^ 32 \<Longrightarrow> cols_ok (grown cols d) (max p (Suc (unat cols)))"
proof -
  assume "cols_ok d p" "Suc (unat cols) < 2 ^ 32"
  moreover have "dom (stores (grown cols d)) = store_names (Suc (unat cols)) \<union> dom (stores d)"
    by (auto simp: grown_def)
  ultimately show ?thesis by (simp add: cols_ok_def names_max max.commute)
qed

lemma grown_same: "cols_ok d p \<Longrightarrow> Suc (unat cols) \<le> p \<Longrightarrow> grown cols d = d"
proof -
  assume "cols_ok d p" "Suc (unat cols) \<le> p"
  then have "\<And>s. s \<in> store_names (Suc (unat cols)) \<Longrightarrow> stores d s \<noteq> None"
    using names_mono [of "Suc (unat cols)" p] by (auto simp: cols_ok_def)
  then have "(\<lambda>s. if s \<in> store_names (Suc (unat cols)) \<and> stores d s = None then Some Map.empty else stores d s) = stores d"
    by (intro ext) simp
  then show ?thesis by (simp add: grown_def)
qed

lemma cols_ok_card: "cols_ok d p \<Longrightarrow> unat (of_nat (card (dom (stores d))) :: u32) = p"
  by (simp add: cols_ok_def card_names unat_of_nat_lt radix_def)

lemma cols_ok_store: "cols_ok d p \<Longrightarrow> stores d (store_name c) \<noteq> None \<longleftrightarrow> unat c < p"
proof -
  assume d: "cols_ok d p"
  have "stores d (store_name c) \<noteq> None \<longleftrightarrow> store_name c \<in> dom (stores d)" by (simp only: domIff)
  also have "\<dots> \<longleftrightarrow> unat c < p" using d in_names [of p c] by (simp add: cols_ok_def)
  finally show ?thesis .
qed

subsection \<open>Opening\<close>

text \<open>The database after it was opened, from what it was before.\<close>

definition opened :: "u32 \<Rightarrow> idb_view option \<Rightarrow> idb_view" where
  "opened cols v =
     (case v of
        None \<Rightarrow> grown cols \<lparr> idb_ver = 1, stores = Map.empty \<rparr>
      | Some d \<Rightarrow> if card (dom (stores d)) \<le> unat cols then grown cols (d\<lparr> idb_ver := idb_ver d + 1 \<rparr>) else d)"

text \<open>Too few stores, so that the database is opened a second time for an upgrade.\<close>

definition needs_upgrade :: "u32 \<Rightarrow> idb_view option \<Rightarrow> bool" where
  "needs_upgrade cols v \<longleftrightarrow> (case v of None \<Rightarrow> False | Some d \<Rightarrow> card (dom (stores d)) \<le> unat cols)"

definition openable :: "idb_view option \<Rightarrow> bool" where
  "openable v \<longleftrightarrow> (case v of None \<Rightarrow> True | Some d \<Rightarrow> (\<exists>p. cols_ok d p) \<and> idb_ver d + 1 < 2 ^ 32)"

text \<open>The memory holds the columns of the IndexedDB.\<close>

definition in_sync :: "('w \<Rightarrow> str \<rightharpoonup> idb_view) \<Rightarrow> 'w \<Rightarrow> web_database \<Rightarrow> bool" where
  "in_sync view w self \<longleftrightarrow> db_wf (web_memory self) \<and> (\<exists>d p. view w (web_name self) = Some d \<and> cols_ok d p \<and> unat (web_columns self) < p \<and>
     db_contents (web_memory self) = (\<lambda>c. if c < web_columns self then stores d (store_name c) else None))"

lemma ops_put_vecs: "ops (fold (\<lambda>(key, val) txn. put_vec c key val txn) es txn) = ops txn @ map (\<lambda>(k, v). Insert c k v) es"
  by (induction es arbitrary: txn) (auto simp: put_vec_def)

lemma write_entries:
  assumes "s c = Some Map.empty" "distinct (map fst es)"
  shows "store_write (map (\<lambda>(k, v). Insert c k v) es) s = s(c \<mapsto> map_of es)"
proof -
  have "store_write (map (\<lambda>(k, v). Insert c k v) es) t = t(c \<mapsto> m ++ map_of (rev es))" if "t c = Some m" for t m
    using that
  proof (induction es arbitrary: t m)
    case (Cons e es)
    obtain k v where e: "e = (k, v)" by (cases e)
    have "store_write (map (\<lambda>(k, v). Insert c k v) es) (t(c \<mapsto> m(k \<mapsto> v))) = (t(c \<mapsto> m(k \<mapsto> v)))(c \<mapsto> m(k \<mapsto> v) ++ map_of (rev es))"
      by (intro Cons.IH fun_upd_same)
    then show ?case using Cons.prems by (simp add: e store_write_def store_op_def)
  qed (simp add: store_write_def fun_upd_idem)
  moreover have "map_of (rev es) = map_of es" using assms(2) by (simp add: map_of_inject_set rev_map [symmetric])
  ultimately show ?thesis using assms(1) by simp
qed

context idb_contract
begin

lemma create_stores_spec:
  "view w name = Some d \<Longrightarrow> distinct ss \<Longrightarrow> set ss \<inter> dom (stores d) = {} \<Longrightarrow>
   view (create_stores br name ss w) = (view w)(name \<mapsto> d\<lparr> stores := \<lambda>s. if s \<in> set ss then Some Map.empty else stores d s \<rparr>)"
proof (induction ss arbitrary: w d)
  case Nil
  then show ?case by (simp add: fun_upd_idem)
next
  case (Cons s ss)
  let ?d = "d\<lparr> stores := (stores d)(s \<mapsto> Map.empty) \<rparr>"
  obtain w' where w': "create_object_store br name s w = Inr w'" "view w' = (view w)(name \<mapsto> ?d)"
    using create_ok [OF Cons.prems(1), of s] Cons.prems(1,3) by (auto simp: store_upd_def)
  have "view (create_stores br name ss w') = (view w')(name \<mapsto> ?d\<lparr> stores := \<lambda>t. if t \<in> set ss then Some Map.empty else stores ?d t \<rparr>)"
    using Cons.prems w'(2) by (intro Cons.IH) (auto split: if_splits)
  moreover have "(\<lambda>t. if t \<in> set ss then Some Map.empty else stores ?d t) = (\<lambda>t. if t \<in> set (s # ss) then Some Map.empty else stores d t)"
    by (simp add: fun_eq_iff)
  ultimately show ?case using w' by (simp add: logged_def)
qed

lemma try_create_spec:
  assumes v: "view w name = Some d" and d: "cols_ok d p" and c: "Suc (unat cols) < 2 ^ 32"
  shows "view (try_create_missing_stores br name cols w) = (view w)(name \<mapsto> grown cols d)"
proof -
  let ?ss = "map (\<lambda>i. store_name (of_nat i)) [p..<Suc (unat cols)]"
  have inj: "inj_on (\<lambda>i. store_name (of_nat i)) (set [p..<Suc (unat cols)])"
    using names_inj [of "Suc (unat cols)"] c by (auto intro: inj_on_subset)
  then have dist: "distinct ?ss" by (simp add: distinct_map del: upt_Suc)
  have set: "s \<in> set ?ss \<longleftrightarrow> s \<in> store_names (Suc (unat cols)) \<and> s \<notin> dom (stores d)" for s
  proof -
    have "s = store_name (of_nat i) \<and> i \<in> {p..<Suc (unat cols)} \<longleftrightarrow> s = store_name (of_nat i) \<and> i < Suc (unat cols) \<and> s \<notin> store_names p" for i
      using in_names [of p "of_nat i"] d c by (auto simp: cols_ok_def unat_of_nat_lt radix_def)
    then show ?thesis using d by (simp add: cols_ok_def store_names_def [of "Suc (unat cols)"] image_iff Bex_def del: upt_Suc) blast
  qed
  then have "set ?ss \<inter> dom (stores d) = {}" by blast
  moreover have "unat (object_store_count br w name) = p" using count_of [OF v] cols_ok_card [OF d] by simp
  moreover have "(\<lambda>s. if s \<in> set ?ss then Some Map.empty else stores d s) =
      (\<lambda>s. if s \<in> store_names (Suc (unat cols)) \<and> stores d s = None then Some Map.empty else stores d s)"
    unfolding set by (simp add: fun_eq_iff domIff)
  ultimately show ?thesis
    using create_stores_spec [OF v dist] by (simp add: try_create_missing_stores_def grown_def del: upt_Suc set_map)
qed

lemma populate_spec:
  assumes v: "view w name = Some d" and dist: "distinct cs"
    and "db_wf mem" "\<forall>c\<in>set cs. db_contents mem c = Some Map.empty \<and> stores d (store_name c) \<noteq> None"
  shows "populate br name cs w mem = Some Pending \<and> \<not> reliable br \<or> (\<exists>mem'. populate br name cs w mem = Some (Ready mem') \<and> db_wf mem' \<and>
    db_contents mem' = (\<lambda>c. if c \<in> set cs then stores d (store_name c) else db_contents mem c))"
  using assms(2-)
proof (induction cs arbitrary: mem)
  case (Cons c cs)
  obtain m where m: "stores d (store_name c) = Some m" using Cons.prems(3) by auto
  have cur: "idb_cursor br name c w = Some (open_cursor br w name (store_name c))"
    using transaction_ok [OF v, of "[store_name c]"] m by (auto simp: idb_cursor_def domI)
  show ?case
  proof (cases "open_cursor br w name (store_name c)")
    case None
    then have "\<not> reliable br" unfolding reliable_def by blast
    then show ?thesis using cur None by simp
  next
    case (Some es)
    let ?tr = "fold (\<lambda>(key, val) txn. put_vec c key val txn) es db_transaction_new"
    have es: "distinct (map fst es)" "map_of es = m" using cursor_ok [OF v m Some] by auto
    have "ops ?tr = map (\<lambda>(k, v). Insert c k v) es" by (simp add: ops_put_vecs db_transaction_new_def with_capacity_def)
    moreover obtain mem1 where w1: "write_db mem ?tr = Some (Inr (), mem1)" "db_wf mem1" "db_contents mem1 = store_write (ops ?tr) (db_contents mem)"
      using mem.write_law [OF Cons.prems(2)] by blast
    ultimately have c1: "db_contents mem1 = (db_contents mem)(c \<mapsto> m)" using write_entries [OF _ es(1)] Cons.prems(3) es(2) by simp
    have "\<forall>c'\<in>set cs. db_contents mem1 c' = Some Map.empty \<and> stores d (store_name c') \<noteq> None"
      using Cons.prems(1,3) c1 by auto
    then have "populate br name cs w mem1 = Some Pending \<and> \<not> reliable br \<or> (\<exists>mem'. populate br name cs w mem1 = Some (Ready mem') \<and> db_wf mem' \<and>
        db_contents mem' = (\<lambda>c. if c \<in> set cs then stores d (store_name c) else db_contents mem1 c))"
      using Cons.IH [OF _ w1(2)] Cons.prems(1) by simp
    moreover have "populate br name (c # cs) w mem = populate br name cs w mem1" using cur Some w1(1) by simp
    moreover have "(\<lambda>c. if c \<in> set cs then stores d (store_name c) else db_contents mem1 c) =
        (\<lambda>c'. if c' \<in> set (c # cs) then stores d (store_name c') else db_contents mem c')"
      using c1 m by (auto simp: fun_eq_iff)
    ultimately show ?thesis by simp
  qed
qed simp

lemma open_pending:
  "idb_open br name v (try_create_missing_stores br name cols) w = None \<Longrightarrow> indexed_db_open br name v cols w = Some Pending"
  using supported by (simp add: indexed_db_open_def)

lemma open_new_spec:
  assumes v: "view w name = None" and c: "Suc (unat cols) < 2 ^ 32" and o: "idb_open br name None (try_create_missing_stores br name cols) w = Some u"
  shows "indexed_db_open br name None cols w = Some (Ready (Inr \<lparr> idb_version = 1, idb_columns = cols + 1 \<rparr>, u)) \<and>
    view u = (view w)(name \<mapsto> grown cols \<lparr> idb_ver = 1, stores = Map.empty \<rparr>)"
proof -
  let ?d = "\<lparr> idb_ver = 1, stores = Map.empty \<rparr>"
  obtain w' where w': "u = try_create_missing_stores br name cols w'" "view w' = (view w)(name \<mapsto> ?d)"
    using open_new [OF v o] by blast
  have d: "cols_ok ?d 0" by (simp add: cols_ok_def store_names_def)
  have g: "view u = (view w)(name \<mapsto> grown cols ?d)" using try_create_spec [OF _ d c, of w' name] w' by simp
  have "card (dom (stores (grown cols ?d))) = Suc (unat cols)"
    using grown_cols [OF d c] by (simp add: cols_ok_def card_names)
  then show ?thesis using o g supported version_of [of u name "grown cols ?d"] count_of [of u name "grown cols ?d"]
    by (simp add: indexed_db_open_def version_u32_def grown_def add.commute)
qed

lemma open_same_spec:
  assumes v: "view w name = Some d" and d: "cols_ok d p" "idb_ver d < 2 ^ 32"
    and o: "idb_open br name None (try_create_missing_stores br name cols) w = Some u"
  shows "indexed_db_open br name None cols w = Some (Ready (Inr \<lparr> idb_version = of_nat (idb_ver d), idb_columns = of_nat p \<rparr>, u)) \<and> view u = view w"
  using supported open_same [OF v o] version_of [of u name d] count_of [of u name d] v d o
  by (simp add: indexed_db_open_def version_u32_def cols_ok_def card_names)

lemma open_upgrade_spec:
  assumes v: "view w name = Some d" and d: "cols_ok d p" "idb_ver d + 1 < 2 ^ 32" and c: "Suc (unat cols) < 2 ^ 32"
    and o: "idb_open br name (Some (of_nat (idb_ver d + 1))) (try_create_missing_stores br name cols) w = Some u"
  shows "\<exists>n. indexed_db_open br name (Some (of_nat (idb_ver d + 1))) cols w =
      Some (Ready (Inr \<lparr> idb_version = of_nat (idb_ver d + 1), idb_columns = n \<rparr>, u)) \<and>
    view u = (view w)(name \<mapsto> grown cols (d\<lparr> idb_ver := idb_ver d + 1 \<rparr>))"
proof -
  let ?n = "of_nat (idb_ver d + 1) :: u32" and ?d = "d\<lparr> idb_ver := idb_ver d + 1 \<rparr>"
  have n: "unat ?n = idb_ver d + 1" using d(2) by (intro unat_of_nat_lt) (simp add: radix_def)
  then have "idb_ver d < unat ?n" by simp
  then obtain w' where w': "u = try_create_missing_stores br name cols w'" "view w' = (view w)(name \<mapsto> ?d)"
    using open_upgrade [OF v _ o] unfolding n by blast
  have "cols_ok ?d p" using d(1) by (simp add: cols_ok_def)
  then have g: "view u = (view w)(name \<mapsto> grown cols ?d)" using try_create_spec [OF _ _ c, of w' name ?d p] w' by simp
  then have "db_version br u name = idb_ver d + 1" using version_of [of u name "grown cols ?d"] by (simp add: grown_def)
  moreover have "min (idb_ver d + 1) (2 ^ 32 - 1) = idb_ver d + 1" using d(2) by simp
  ultimately show ?thesis using o g supported by (simp add: indexed_db_open_def version_u32_def)
qed

lemma fill:
  assumes v: "view w name = Some d" and d: "cols_ok d p" "unat cols < p"
  shows "populate br name (map of_nat [0..<unat cols]) w (create cols) = Some Pending \<and> \<not> reliable br \<or>
    (\<exists>mem. populate br name (map of_nat [0..<unat cols]) w (create cols) = Some (Ready mem) \<and> db_wf mem \<and>
      db_contents mem = (\<lambda>c. if c < cols then stores d (store_name c) else None))"
proof -
  let ?cs = "map of_nat [0..<unat cols] :: u32 list"
  have b: "unat cols < 2 ^ 32" using unat_lt_radix [of cols] by (simp add: radix_def)
  then have "inj_on (of_nat :: nat \<Rightarrow> u32) {0..<unat cols}" by (intro inj_onI) (simp add: of_nat_u32_inj)
  then have dist: "distinct ?cs" by (simp add: distinct_map)
  have set: "c \<in> set ?cs \<longleftrightarrow> c < cols" for c
  proof -
    have "c = of_nat i \<longleftrightarrow> unat c = i" if "i < unat cols" for i using that b by (auto simp: unat_of_nat_lt radix_def)
    then show ?thesis by (auto simp: image_iff word_less_nat_alt)
  qed
  have "\<forall>c\<in>set ?cs. db_contents (create cols) c = Some Map.empty \<and> stores d (store_name c) \<noteq> None"
    unfolding set Ball_def using cols_ok_store [OF d(1)] d(2) by (auto simp: create_facts word_less_nat_alt)
  moreover have "(\<lambda>c. if c \<in> set ?cs then stores d (store_name c) else db_contents (create cols) c) = (\<lambda>c. if c < cols then stores d (store_name c) else None)"
    unfolding set by (rule ext) (simp only: create_facts if_False split: if_split, simp)
  ultimately show ?thesis using populate_spec [OF v dist create_facts(2) [of cols]] by presburger
qed

lemma ensure_enough:
  "unat cols < unat (idb_columns idb) \<Longrightarrow> ensure_columns br name cols idb w = Some (Ready (Inr idb, w))"
proof -
  assume c: "unat cols < unat (idb_columns idb)"
  then have "Suc (unat cols) < radix TYPE(32)" using unat_lt_radix [of "idb_columns idb"] by linarith
  then have "padd cols 1 = Some (cols + 1)" "unat (cols + 1) = Suc (unat cols)"
    by (simp_all add: padd_def unat_add_radix) (simp add: radix_def)
  then show ?thesis using c by (simp add: ensure_columns_def word_less_nat_alt)
qed

lemma ensure_more:
  assumes v: "view w name = Some d" and p: "cols_ok d p" "idb_ver d + 1 < 2 ^ 32" and c: "p \<le> unat cols" "Suc (unat cols) < 2 ^ 32"
  shows "ensure_columns br name cols \<lparr> idb_version = of_nat (idb_ver d), idb_columns = of_nat p \<rparr> w = Some Pending \<or>
    (\<exists>idb w'. ensure_columns br name cols \<lparr> idb_version = of_nat (idb_ver d), idb_columns = of_nat p \<rparr> w = Some (Ready (Inr idb, w')) \<and>
    idb_version idb = of_nat (idb_ver d + 1) \<and> view w' = (view w)(name \<mapsto> grown cols (d\<lparr> idb_ver := idb_ver d + 1 \<rparr>)))"
proof -
  have n: "padd cols 1 = Some (cols + 1)" "unat (cols + 1) = Suc (unat cols)"
    using c(2) by (simp_all add: padd_def unat_add_radix radix_def)
  have "unat (of_nat p :: u32) = p" using p(1) by (intro unat_of_nat_lt) (simp add: cols_ok_def radix_def)
  then have gt: "cols + 1 > of_nat p" using c(1) n(2) by (simp add: word_less_nat_alt)
  have "unat (of_nat (idb_ver d) :: u32) = idb_ver d" using p(2) by (intro unat_of_nat_lt) (simp add: radix_def)
  then have "padd (of_nat (idb_ver d) :: u32) 1 = Some (of_nat (idb_ver d + 1))"
    using p(2) padd_ok [of "of_nat (idb_ver d) :: u32" 1] by (simp add: radix_def)
  then have e: "ensure_columns br name cols \<lparr> idb_version = of_nat (idb_ver d), idb_columns = of_nat p \<rparr> w =
      indexed_db_open br name (Some (of_nat (idb_ver d + 1))) cols w"
    using n(1) gt by (simp add: ensure_columns_def)
  show ?thesis
    using open_upgrade_spec [OF v p c(2)] open_pending [of name "Some (of_nat (idb_ver d + 1))" cols w] unfolding e
    by (cases "idb_open br name (Some (of_nat (idb_ver d + 1))) (try_create_missing_stores br name cols) w") force+
qed

lemma opens:
  assumes start: "openable (view w name)" and c: "Suc (unat cols) < 2 ^ 32"
  shows "future_bind (indexed_db_open br name None cols w) (ensure_columns br name cols) = Some Pending \<and>
      (reliable br \<longrightarrow> needs_upgrade cols (view w name)) \<or>
    (\<exists>idb w'. future_bind (indexed_db_open br name None cols w) (ensure_columns br name cols) = Some (Ready (Inr idb, w')) \<and>
    idb_version idb = of_nat (idb_ver (opened cols (view w name))) \<and> view w' = (view w)(name \<mapsto> opened cols (view w name)) \<and>
    (\<exists>p. cols_ok (opened cols (view w name)) p \<and> unat cols < p))"
proof (cases "idb_open br name None (try_create_missing_stores br name cols) w")
  case None
  then have "\<not> reliable br" unfolding reliable_def by blast
  then show ?thesis using open_pending [OF None] by (simp add: future_bind_def)
next
  case o: (Some u)
  show ?thesis
  proof (cases "view w name")
    case None
    let ?d = "\<lparr> idb_ver = 1, stores = Map.empty \<rparr>"
    have "cols_ok ?d 0" by (simp add: cols_ok_def store_names_def)
    from grown_cols [OF this c] have g: "cols_ok (grown cols ?d) (Suc (unat cols))" by simp
    have "unat cols < unat (cols + 1)" using c by (simp add: unat_add_radix radix_def)
    then show ?thesis
      using g None open_new_spec [OF None c o] ensure_enough [of cols "\<lparr> idb_version = 1, idb_columns = cols + 1 \<rparr>"]
      by (auto simp: future_bind_def opened_def grown_def)
  next
    case (Some d)
    obtain p where p: "cols_ok d p" "idb_ver d + 1 < 2 ^ 32" using start Some by (auto simp: openable_def)
    have card: "card (dom (stores d)) = p" using p(1) by (simp add: cols_ok_def card_names)
    let ?idb = "\<lparr> idb_version = of_nat (idb_ver d), idb_columns = of_nat p \<rparr>"
    have w1: "indexed_db_open br name None cols w = Some (Ready (Inr ?idb, u))" "view u = view w"
      using open_same_spec [OF Some p(1) _ o] p(2) by simp_all
    show ?thesis
    proof (cases "p \<le> unat cols")
      case True
      have "cols_ok (grown cols (d\<lparr> idb_ver := idb_ver d + 1 \<rparr>)) (max p (Suc (unat cols)))"
        using p(1) by (intro grown_cols [OF _ c]) (simp add: cols_ok_def)
      then show ?thesis using ensure_more [of u name d p cols] Some w1 p c card True
        by (auto simp: future_bind_def opened_def grown_def needs_upgrade_def)
    next
      case False
      moreover have "unat (of_nat p :: u32) = p" using p(1) by (intro unat_of_nat_lt) (simp add: cols_ok_def radix_def)
      ultimately show ?thesis using w1 Some card p ensure_enough [of cols ?idb name u]
        by (auto simp: future_bind_def opened_def fun_upd_idem)
    qed
  qed
qed

lemma web_open_spec:
  assumes "openable (view w name)" "Suc (unat cols) < 2 ^ 32"
  shows "web_open br name cols w = Some Pending \<and> (reliable br \<longrightarrow> needs_upgrade cols (view w name)) \<or>
    (\<exists>self w'. web_open br name cols w = Some (Ready (Inr self, w')) \<and> view w' = (view w)(name \<mapsto> opened cols (view w name)) \<and>
    web_name self = name \<and> web_columns self = cols \<and> web_version self = of_nat (idb_ver (opened cols (view w name))) \<and> in_sync view w' self)"
proof -
  let ?rest = "\<lambda>idb w. do {
      filled \<leftarrow> populate br name (map of_nat [0..<unat cols]) w (create cols);
      Some (case filled of Pending \<Rightarrow> Pending
        | Ready mem \<Rightarrow> Ready (Inr \<lparr> web_name = name, web_version = idb_version idb, web_columns = cols, web_memory = mem \<rparr> :: web_error + web_database, w)) }"
  define d' where "d' = opened cols (view w name)"
  have "future_bind (future_bind a f) g = future_bind a (\<lambda>x w. future_bind (f x w) g)" for a :: "((web_error + indexed_db) \<times> 'w) future may_panic"
      and f :: "indexed_db \<Rightarrow> 'w \<Rightarrow> ((web_error + indexed_db) \<times> 'w) future may_panic" and g :: "indexed_db \<Rightarrow> 'w \<Rightarrow> ((web_error + web_database) \<times> 'w) future may_panic"
    by (simp add: future_bind_def split: option.split future.split prod.split sum.split)
  then have e: "web_open br name cols w = future_bind (future_bind (indexed_db_open br name None cols w) (ensure_columns br name cols)) ?rest"
    by (simp add: web_open_def)
  consider "future_bind (indexed_db_open br name None cols w) (ensure_columns br name cols) = Some Pending" "reliable br \<longrightarrow> needs_upgrade cols (view w name)"
    | idb w' p where "future_bind (indexed_db_open br name None cols w) (ensure_columns br name cols) = Some (Ready (Inr idb, w'))"
    "idb_version idb = of_nat (idb_ver d')" "view w' = (view w)(name \<mapsto> d')" "cols_ok d' p" "unat cols < p"
    using opens [OF assms] unfolding d'_def by blast
  then show ?thesis
  proof cases
    case 1
    then show ?thesis unfolding e by (simp add: future_bind_def)
  next
    case o: (2 idb w' p)
    have v: "view w' name = Some d'" using o(3) by simp
    show ?thesis
      using fill [OF v o(4,5)] o v unfolding e o(1) d'_def [symmetric] by (auto simp: in_sync_def future_bind_def)
  qed
qed

end

subsection \<open>Writing\<close>

text \<open>
  What reaches the IndexedDB: the range for a deletion by prefix starts and ends at the prefix, so it holds this one key.
\<close>

fun persisted :: "db_op \<Rightarrow> db_op" where
  "persisted (DeletePrefix col p) = Delete col p"
| "persisted (Insert col key val) = Insert col key val"
| "persisted (Delete col key) = Delete col key"

definition by_column :: "u32 \<Rightarrow> idb_view \<Rightarrow> store" where
  "by_column cols d = (\<lambda>c. if c < cols then stores d (store_name c) else None)"

lemma by_column_upd:
  "c < cols \<Longrightarrow> by_column cols (d\<lparr> stores := (stores d)(store_name c \<mapsto> m) \<rparr>) = (by_column cols d)(c \<mapsto> m)"
  by (rule ext) (simp add: by_column_def)

text \<open>The request for an operation, and what a list of them does to the columns.\<close>

fun request_of :: "db_op \<Rightarrow> idb_request" where
  "request_of (Insert col key val) = PutReq (store_name col) key val"
| "request_of (Delete col key) = DeleteReq (store_name col) key"
| "request_of (DeletePrefix col p) = DeleteRangeReq (store_name col) p p"

lemma col_op_delete: "col_op (Delete col k) = (\<lambda>m. m(k := None))" and col_op_insert: "col_op (Insert col k v) = (\<lambda>m. m(k \<mapsto> v))"
  by (simp_all add: fun_eq_iff)

lemma apply_request_of:
  "apply_request (request_of oper) ss = ss(store_name (db_op_col oper) := map_option (col_op (persisted oper)) (ss (store_name (db_op_col oper))))"
proof (cases oper)
  case (DeletePrefix col p)
  have "(\<lambda>m k. if p \<le> k \<and> k \<le> p then None else m k) = (\<lambda>m. m(p := None :: bytes option))" by (intro ext) auto
  then show ?thesis unfolding DeletePrefix by (simp only: request_of.simps apply_request.simps persisted.simps db_op_col.simps col_op_delete)
qed (simp_all add: col_op_delete col_op_insert)

lemma persisted_col [simp]: "db_op_col (persisted oper) = db_op_col oper"
  by (cases oper) simp_all

lemma fold_requests:
  assumes "cols_ok d p" "unat cols < p" "\<forall>oper\<in>set acc. db_op_col oper < cols"
  shows "cols_ok (d\<lparr> stores := fold apply_request (map request_of acc) (stores d) \<rparr>) p \<and>
    by_column cols (d\<lparr> stores := fold apply_request (map request_of acc) (stores d) \<rparr>) = store_write (map persisted acc) (by_column cols d)"
  using assms
proof (induction acc arbitrary: d)
  case (Cons oper acc)
  let ?c = "db_op_col oper"
  have c: "?c < cols" "unat ?c < p" using Cons.prems by (auto simp: word_less_nat_alt)
  then obtain m where m: "stores d (store_name ?c) = Some m" using cols_ok_store [OF Cons.prems(1)] by blast
  define e where "e = d\<lparr> stores := (stores d)(store_name ?c \<mapsto> col_op (persisted oper) m) \<rparr>"
  have "apply_request (request_of oper) (stores d) = stores e" using m by (simp add: apply_request_of e_def)
  then have f: "fold apply_request (map request_of (oper # acc)) (stores d) = fold apply_request (map request_of acc) (stores e)" by simp
  have ok: "cols_ok e p" using Cons.prems(1) m by (auto simp: cols_ok_def e_def)
  have "by_column cols e = store_op (persisted oper) (by_column cols d)"
    using by_column_upd [OF c(1), of d] m c(1) by (simp add: store_op_def by_column_def e_def)
  then have "store_write (map persisted (oper # acc)) (by_column cols d) = store_write (map persisted acc) (by_column cols e)"
    by (simp add: store_write_def)
  moreover have "e\<lparr> stores := x \<rparr> = d\<lparr> stores := x \<rparr>" for x by (simp add: e_def)
  ultimately show ?case using Cons.IH [OF ok Cons.prems(2)] Cons.prems(3) unfolding f by (simp del: list.map)
qed (simp add: store_write_def)

context idb_contract
begin

lemma idb_op_spec:
  assumes "db_op_col oper < cols"
  shows "\<exists>t'. idb_op br cols oper t = Some t' \<and> (reqs t' = reqs t @ [request_of oper] \<or> t' = t \<and> \<not> reliable br)"
proof (cases oper)
  case (Insert col key val)
  then show ?thesis using assms put_ok [of "store_name col" val key t]
    by (cases "put_with_key br (store_name col) val key t") (auto simp: logged_def word_less_nat_alt reliable_def isl_def)
next
  case (Delete col key)
  then show ?thesis using assms delete_ok [of "store_name col" key t]
    by (cases "delete_key br (store_name col) key t") (auto simp: logged_def word_less_nat_alt reliable_def isl_def)
next
  case (DeletePrefix col p)
  then show ?thesis using assms delete_range_ok [of "store_name col" p p t] bound_ok [of p p]
    by (cases "delete_range br (store_name col) p p t") (auto simp: logged_def word_less_nat_alt reliable_def isl_def)
qed

lemma idb_ops_spec:
  "\<forall>oper\<in>set opers. db_op_col oper < cols \<Longrightarrow> \<exists>t' acc. idb_ops br cols opers t = Some t' \<and> reqs t' = reqs t @ map request_of acc \<and>
     subseq acc opers \<and> (reliable br \<longrightarrow> acc = opers)"
proof (induction opers arbitrary: t)
  case (Cons oper opers)
  obtain t1 where t1: "idb_op br cols oper t = Some t1" "reqs t1 = reqs t @ [request_of oper] \<or> t1 = t \<and> \<not> reliable br"
    using idb_op_spec [of oper cols t] Cons.prems by auto
  obtain t' acc where t': "idb_ops br cols opers t1 = Some t'" "reqs t' = reqs t1 @ map request_of acc" "subseq acc opers" "reliable br \<longrightarrow> acc = opers"
    using Cons.IH [of t1] Cons.prems by auto
  show ?case
  proof (cases "reqs t1 = reqs t @ [request_of oper]")
    case True
    then show ?thesis using t1(1) t' by (intro exI [of _ t'] exI [of _ "oper # acc"]) simp
  next
    case False
    then show ?thesis using t1 t' by (intro exI [of _ t'] exI [of _ acc]) auto
  qed
qed simp

lemma commit_spec:
  assumes v: "view w name = Some d" "cols_ok d p" "unat cols < p" and c: "cols \<noteq> 0" "\<forall>oper\<in>set (ops tr). db_op_col oper < cols"
  shows "\<exists>b w' d' acc. idb_commit_transaction br name tr cols w = Some (b, w') \<and> view w' = (view w)(name \<mapsto> d') \<and> cols_ok d' p \<and> idb_ver d' = idb_ver d \<and>
    by_column cols d' = store_write (map persisted acc) (by_column cols d) \<and> subseq acc (ops tr) \<and> (reliable br \<longrightarrow> acc = ops tr)"
proof -
  have "set (store_names_js cols) = store_names (unat cols)" by (auto simp: store_names_js_def store_names_def)
  also have "\<dots> \<subseteq> dom (stores d)" using v(2,3) names_mono [of "unat cols" p] by (simp add: cols_ok_def)
  finally have s: "set (store_names_js cols) \<subseteq> dom (stores d)" .
  have "store_names_js cols \<noteq> []" using c(1) by (simp add: store_names_js_def unat_eq_0)
  then obtain t where t: "idb_transaction br w name (store_names_js cols) = Some t" "reqs t = []" "list_all (object_store br t) (store_names_js cols)"
    using transaction_ok [OF v(1) _ s] by blast
  obtain t' acc where t': "idb_ops br cols (ops tr) t = Some t'" "reqs t' = map request_of acc" "subseq acc (ops tr)" "reliable br \<longrightarrow> acc = ops tr"
    using idb_ops_spec [OF c(2), of t] t(2) by auto
  obtain b w' where f: "finish br name t' w = (b, w')" by force
  have cm: "idb_commit_transaction br name tr cols w = Some (b, w')" using t(1,3) t'(1) f by (simp add: idb_commit_transaction_def)
  show ?thesis
  proof (cases b)
    case True
    have "\<forall>oper\<in>set acc. db_op_col oper < cols" using c(2) t'(3) by (auto dest: list_emb_set)
    from fold_requests [OF v(2,3) this] completed [OF v(1), of t' w'] f True t'
    show ?thesis unfolding cm by (intro exI [of _ b] exI [of _ w'] exI [of _ "d\<lparr> stores := fold apply_request (reqs t') (stores d) \<rparr>"] exI [of _ acc]) auto
  next
    case False
    then have "\<not> reliable br" using f by (auto simp: reliable_def) (metis fst_conv)
    then show ?thesis unfolding cm using aborted [of name t' w w'] f False v
      by (intro exI [of _ b] exI [of _ w'] exI [of _ d] exI [of _ "[]"]) (auto simp: store_write_def fun_upd_idem)
  qed
qed

lemma web_write_spec:
  assumes sync: "in_sync view w self" and c: "web_columns self \<noteq> 0" "\<forall>oper\<in>set (ops tr). db_op_col oper < web_columns self"
  shows "\<exists>mem w' d d' p acc. web_write br self tr w = Some (Inr (), self\<lparr> web_memory := mem \<rparr>, w') \<and> db_wf mem \<and>
    db_contents mem = store_write (ops tr) (db_contents (web_memory self)) \<and>
    view w (web_name self) = Some d \<and> view w' = (view w)(web_name self \<mapsto> d') \<and> idb_ver d' = idb_ver d \<and> cols_ok d' p \<and> unat (web_columns self) < p \<and>
    by_column (web_columns self) d' = store_write (map persisted acc) (db_contents (web_memory self)) \<and> subseq acc (ops tr) \<and>
    (reliable br \<longrightarrow> acc = ops tr)"
proof -
  obtain d p where s: "db_wf (web_memory self)" "view w (web_name self) = Some d" "cols_ok d p" "unat (web_columns self) < p"
    "db_contents (web_memory self) = by_column (web_columns self) d"
    using sync by (auto simp: in_sync_def by_column_def)
  obtain mem where "write_db (web_memory self) tr = Some (Inr (), mem)" "db_wf mem" "db_contents mem = store_write (ops tr) (db_contents (web_memory self))"
    using mem.write_law [OF s(1)] by blast
  then show ?thesis using commit_spec [OF s(2-4) c] s by (fastforce simp: web_write_def)
qed

lemma reopen_spec:
  assumes sync: "in_sync view w self" "openable (view w (web_name self))"
    and c: "web_columns self \<noteq> 0" "Suc (unat (web_columns self)) < 2 ^ 32" "\<forall>oper\<in>set (ops tr). db_op_col oper < web_columns self"
    and wr: "web_write br self tr w = Some (r, self', w')"
  shows "\<exists>acc. subseq acc (ops tr) \<and> (reliable br \<longrightarrow> acc = ops tr) \<and>
    (web_open br (web_name self) (web_columns self) (web_drop br self' w') = Some Pending \<and> \<not> reliable br \<or>
     (\<exists>again w''. web_open br (web_name self) (web_columns self) (web_drop br self' w') = Some (Ready (Inr again, w'')) \<and>
      in_sync view w'' again \<and> db_contents (web_memory again) = store_write (map persisted acc) (db_contents (web_memory self))))"
proof -
  obtain d d' p acc where d: "view w (web_name self) = Some d" "view w' = (view w)(web_name self \<mapsto> d')" "idb_ver d' = idb_ver d" "cols_ok d' p"
    "unat (web_columns self) < p" "by_column (web_columns self) d' = store_write (map persisted acc) (db_contents (web_memory self))"
    "web_name self' = web_name self" and acc: "subseq acc (ops tr)" "reliable br \<longrightarrow> acc = ops tr"
    using web_write_spec [OF sync(1) c(1,3)] wr by auto
  let ?w = "web_drop br self' w'"
  have v: "view ?w (web_name self) = Some d'" using d(2,7) closing by (simp add: web_drop_def)
  have op: "openable (Some d')" using d sync(2) by (auto simp: openable_def)
  have "opened (web_columns self) (Some d') = d'" "\<not> needs_upgrade (web_columns self) (Some d')"
    using d(4,5) by (simp_all add: opened_def needs_upgrade_def cols_ok_def card_names)
  moreover have "db_contents (web_memory again) = by_column (web_columns again) e" if "in_sync view u again" "view u (web_name again) = Some e" for again u e
    using that by (auto simp: in_sync_def by_column_def)
  moreover note web_open_spec [of ?w "web_name self", unfolded v, OF op c(2)]
  ultimately show ?thesis using d(6) acc by (intro exI [of _ acc]) auto
qed

end

subsection \<open>A browser\<close>

text \<open>
  The databases as finite maps, with the answers of the standard when nothing goes wrong; the requests of a transaction are collected, and carried
  out when it is finished.
\<close>

type_synonym fstore = "(bytes, bytes) fmap"
type_synonym fbase = "nat \<times> (str, fstore) fmap"

definition change_store :: "str \<Rightarrow> (fstore \<Rightarrow> fstore) \<Rightarrow> (str, fstore) fmap \<Rightarrow> (str, fstore) fmap" where
  "change_store s f ss = (case fmlookup ss s of None \<Rightarrow> ss | Some m \<Rightarrow> fmupd s (f m) ss)"

fun run_request :: "idb_request \<Rightarrow> (str, fstore) fmap \<Rightarrow> (str, fstore) fmap" where
  "run_request (PutReq s k v) = change_store s (fmupd k v)"
| "run_request (DeleteReq s k) = change_store s (fmdrop k)"
| "run_request (DeleteRangeReq s lo hi) = change_store s (fmfilter (\<lambda>k. \<not> (lo \<le> k \<and> k \<le> hi)))"

definition fbrowser :: "(str \<rightharpoonup> fbase, idb_request list) browser" where
  "fbrowser =
     \<lparr> window = True,
       indexed_db_factory = Inr (Some ()),
       idb_open = \<lambda>name version up w.
         (case w name of
            None \<Rightarrow> Some (up (w(name \<mapsto> (case version of None \<Rightarrow> 1 | Some v \<Rightarrow> unat v, fmempty))))
          | Some (n, ss) \<Rightarrow>
              (case version of
                 None \<Rightarrow> Some w
               | Some v \<Rightarrow> if n < unat v then Some (up (w(name \<mapsto> (unat v, ss)))) else if n = unat v then Some w else None)),
       idb_close = \<lambda>_ w. w,
       db_version = \<lambda>w name. case w name of None \<Rightarrow> 0 | Some (n, _) \<Rightarrow> n,
       object_store_count = \<lambda>w name. case w name of None \<Rightarrow> 0 | Some (_, ss) \<Rightarrow> of_nat (fcard (fmdom ss)),
       create_object_store = \<lambda>name s w.
         (case w name of None \<Rightarrow> Inl [] | Some (n, ss) \<Rightarrow> if s |\<in>| fmdom ss then Inl [] else Inr (w(name \<mapsto> (n, fmupd s fmempty ss)))),
       idb_transaction = \<lambda>w name ss.
         (case w name of None \<Rightarrow> None | Some (_, m) \<Rightarrow> if ss \<noteq> [] \<and> list_all (\<lambda>s. s |\<in>| fmdom m) ss then Some [] else None),
       object_store = \<lambda>_ _. True,
       put_with_key = \<lambda>s val key t. Inr (t @ [PutReq s key val]),
       delete_key = \<lambda>s key t. Inr (t @ [DeleteReq s key]),
       key_range_bound = (\<le>),
       delete_range = \<lambda>s lo hi t. Inr (t @ [DeleteRangeReq s lo hi]),
       finish = \<lambda>name t w. (True, case w name of None \<Rightarrow> w | Some (n, ss) \<Rightarrow> w(name \<mapsto> (n, fold run_request t ss))),
       open_cursor = \<lambda>w name s.
         Some (case w name of
            None \<Rightarrow> []
          | Some (_, ss) \<Rightarrow>
              (case fmlookup ss s of None \<Rightarrow> [] | Some m \<Rightarrow> map (\<lambda>k. (k, the (fmlookup m k))) (sorted_list_of_fset (fmdom m)))) \<rparr>"

definition fstores :: "(str, fstore) fmap \<Rightarrow> str \<rightharpoonup> (bytes \<rightharpoonup> bytes)" where
  "fstores ss s = map_option fmlookup (fmlookup ss s)"

definition fview :: "(str \<rightharpoonup> fbase) \<Rightarrow> str \<rightharpoonup> idb_view" where
  "fview w name = map_option (\<lambda>(n, ss). \<lparr> idb_ver = n, stores = fstores ss \<rparr>) (w name)"

lemma fview_upd: "fview (w(name \<mapsto> (n, ss))) = (fview w)(name \<mapsto> \<lparr> idb_ver = n, stores = fstores ss \<rparr>)"
  by (simp add: fview_def fun_eq_iff)

lemma fstores_upd: "fstores (fmupd s m ss) = (fstores ss)(s \<mapsto> fmlookup m)"
  by (simp add: fstores_def fun_eq_iff)

lemma dom_fstores: "dom (fstores ss) = fset (fmdom ss)"
  by (auto simp: fstores_def fmlookup_dom_iff)

lemma run_request_stores: "fstores (run_request r ss) = apply_request r (fstores ss)"
proof -
  have "fstores (change_store s f ss) = (fstores ss)(s := map_option g (fstores ss s))" if "\<And>m. fmlookup (f m) = g (fmlookup m)" for s f g
    using that by (simp add: change_store_def fstores_upd fstores_def fun_eq_iff split: option.split)
  then show ?thesis by (cases r) (simp_all add: fun_eq_iff)
qed

lemma run_requests_stores: "fstores (fold run_request t ss) = fold apply_request t (fstores ss)"
  by (induction t arbitrary: ss) (simp_all add: run_request_stores)

lemma fbrowser_reliable: "reliable fbrowser"
  by (simp add: reliable_def fbrowser_def split: option.split)

interpretation fb: idb_contract fbrowser fview "\<lambda>t. t"
proof
  fix w w' u name d s m l t and t' :: "idb_request list" and k v lo hi :: bytes and ss up n
  show "window fbrowser" "indexed_db_factory fbrowser = Inr (Some ())" "fview (idb_close fbrowser name w) = fview w"
    "key_range_bound fbrowser lo hi \<longleftrightarrow> lo \<le> hi"
    by (simp_all add: fbrowser_def)
  show "idb_transaction fbrowser w name [] = None" by (simp add: fbrowser_def split: option.split)
  show "t' = t @ [PutReq s k v]" if "put_with_key fbrowser s v k t = Inr t'" using that by (simp add: fbrowser_def)
  show "t' = t @ [DeleteReq s k]" if "delete_key fbrowser s k t = Inr t'" using that by (simp add: fbrowser_def)
  show "t' = t @ [DeleteRangeReq s lo hi]" if "delete_range fbrowser s lo hi t = Inr t'" using that by (simp add: fbrowser_def)
  show "fview w' = fview w" if "finish fbrowser name t w = (False, w')" using that by (simp add: fbrowser_def)
  show "\<exists>w'. u = up w' \<and> fview w' = (fview w)(name \<mapsto> \<lparr> idb_ver = 1, stores = Map.empty \<rparr>)"
    if "fview w name = None" "idb_open fbrowser name None up w = Some u"
    using that by (intro exI [of _ "w(name \<mapsto> (1, fmempty))"]) (auto simp: fview_def fbrowser_def fstores_def fun_eq_iff)
  assume v: "fview w name = Some d"
  obtain i ts where w: "w name = Some (i, ts)" "d = \<lparr> idb_ver = i, stores = fstores ts \<rparr>"
    using v by (auto simp: fview_def)
  show "fview u = fview w" if "idb_open fbrowser name None up w = Some u" using that w(1) by (simp add: fbrowser_def)
  show "\<exists>w'. u = up w' \<and> fview w' = (fview w)(name \<mapsto> d\<lparr> idb_ver := unat n \<rparr>)"
    if "idb_ver d < unat n" "idb_open fbrowser name (Some n) up w = Some u"
    using that w by (intro exI [of _ "w(name \<mapsto> (unat n, ts))"]) (simp add: fview_upd fbrowser_def)
  show "db_version fbrowser w name = idb_ver d" using w by (simp add: fbrowser_def)
  show "object_store_count fbrowser w name = of_nat (card (dom (stores d)))"
    using w by (simp add: fbrowser_def fcard.rep_eq dom_fstores)
  show "\<exists>t. idb_transaction fbrowser w name ss = Some t \<and> t = [] \<and> list_all (object_store fbrowser t) ss"
    if "ss \<noteq> []" "set ss \<subseteq> dom (stores d)"
    using that w by (auto simp: fbrowser_def list_all_iff dom_fstores)
  show "\<exists>w'. create_object_store fbrowser name s w = Inr w' \<and> fview w' = store_upd name s Map.empty (fview w)" if "stores d s = None"
  proof -
    have "s |\<notin>| fmdom ts" using that w(2) by (simp add: fstores_def fmdom_notI)
    then show ?thesis using w v by (simp add: fbrowser_def fview_upd fstores_upd store_upd_def fmempty_lookup [abs_def])
  qed
  show "fview w' = (fview w)(name \<mapsto> d\<lparr> stores := fold apply_request t (stores d) \<rparr>)" if "finish fbrowser name t w = (True, w')"
    using that w by (auto simp: fbrowser_def fview_upd run_requests_stores)
  assume m: "stores d s = Some m" and l: "open_cursor fbrowser w name s = Some l"
  obtain t where t: "fmlookup ts s = Some t" "fmlookup t = m" using m w(2) by (auto simp: fstores_def)
  let ?ks = "sorted_list_of_fset (fmdom t)"
  have "l = map (\<lambda>k. (k, the (m k))) ?ks" using w(1) t l by (simp add: fbrowser_def)
  moreover have "distinct ?ks" by (simp add: sorted_list_of_fset.rep_eq)
  moreover have "map_of (map (\<lambda>k. (k, the (m k))) ?ks) x = m x" for x
    using t(2) by (auto simp: map_of_map_restrict restrict_map_def fmlookup_dom_iff)
  ultimately show "distinct (map fst l) \<and> map_of l = m" by (simp add: comp_def fun_eq_iff)
qed

subsection \<open>Properties\<close>

text \<open>
  Opening a database either waits for ever or gives the database.  It was created, or the missing stores were added under the next version, or it
  is left as it was; no data is lost, and the columns in memory are the columns of the IndexedDB.  It can only wait for ever when the browser
  failed or when the database was opened a second time to add stores: the first connection is not closed before, so the upgrade may never start.
\<close>

theorem web_open_correct:
  assumes laws: "idb_contract br view reqs" and start: "openable (view w name)" and c: "Suc (unat cols) < 2 ^ 32"
  shows "web_open br name cols w = Some Pending \<and> (reliable br \<longrightarrow> needs_upgrade cols (view w name)) \<or>
    (\<exists>self w'. web_open br name cols w = Some (Ready (Inr self, w')) \<and> in_sync view w' self \<and>
    view w' = (view w)(name \<mapsto> opened cols (view w name)) \<and> web_version self = of_nat (idb_ver (opened cols (view w name))) \<and>
    (\<forall>d s m. view w name = Some d \<longrightarrow> stores d s = Some m \<longrightarrow> stores (opened cols (view w name)) s = Some m))"
proof -
  have "\<forall>d s m. view w name = Some d \<longrightarrow> stores d s = Some m \<longrightarrow> stores (opened cols (view w name)) s = Some m"
    by (auto simp: opened_def grown_def)
  then show ?thesis using idb_contract.web_open_spec [OF laws start c] by blast
qed

text \<open>
  C29. Persistence.  A transaction on the columns of an open database succeeds, whatever the IndexedDB makes of it, and does in memory what a
  store promises.  The operations that reached the IndexedDB are among those of the transaction, in their order, and are all of them when no request
  throws and the transaction completes; a deletion by prefix reaches it as the deletion of the key that equals the prefix.  When
  the database is closed and opened again, its columns are those before the transaction changed by the operations that reached the
  IndexedDB, so in a browser in which nothing fails, and without deletions by prefix, it is read back as it was; or the browser fails
  and the opening waits for ever.
\<close>

theorem web_write_persists:
  assumes laws: "idb_contract br view reqs" and sync: "in_sync view w self" "openable (view w (web_name self))"
    and c: "web_columns self \<noteq> 0" "Suc (unat (web_columns self)) < 2 ^ 32" "list_all (\<lambda>oper. db_op_col oper < web_columns self) (ops tr)"
  shows "\<exists>self' w' acc. web_write br self tr w = Some (Inr (), self', w') \<and> db_wf (web_memory self') \<and>
    db_contents (web_memory self') = store_write (ops tr) (db_contents (web_memory self)) \<and>
    subseq acc (ops tr) \<and> (reliable br \<longrightarrow> acc = ops tr) \<and>
    (web_open br (web_name self) (web_columns self) (web_drop br self' w') = Some Pending \<and> \<not> reliable br \<or>
     (\<exists>again w''. web_open br (web_name self) (web_columns self) (web_drop br self' w') = Some (Ready (Inr again, w'')) \<and> in_sync view w'' again \<and>
      db_contents (web_memory again) = store_write (map persisted acc) (db_contents (web_memory self)) \<and>
      (reliable br \<longrightarrow> list_all (\<lambda>oper. persisted oper = oper) (ops tr) \<longrightarrow>
         db_contents (web_memory again) = db_contents (web_memory self'))))"
proof -
  have c': "\<forall>oper\<in>set (ops tr). db_op_col oper < web_columns self" using c(3) by (simp add: list_all_iff)
  obtain mem w' where w: "web_write br self tr w = Some (Inr (), self\<lparr> web_memory := mem \<rparr>, w')" "db_wf mem"
    "db_contents mem = store_write (ops tr) (db_contents (web_memory self))"
    using idb_contract.web_write_spec [OF laws sync(1) c(1) c'] by blast
  obtain acc where acc: "subseq acc (ops tr)" "reliable br \<longrightarrow> acc = ops tr"
    "web_open br (web_name self) (web_columns self) (web_drop br (self\<lparr> web_memory := mem \<rparr>) w') = Some Pending \<and> \<not> reliable br \<or>
     (\<exists>again w''. web_open br (web_name self) (web_columns self) (web_drop br (self\<lparr> web_memory := mem \<rparr>) w') = Some (Ready (Inr again, w'')) \<and>
      in_sync view w'' again \<and> db_contents (web_memory again) = store_write (map persisted acc) (db_contents (web_memory self)))"
    using idb_contract.reopen_spec [OF laws sync c(1,2) c' w(1)] by blast
  have id: "map persisted (ops tr) = ops tr" if "list_all (\<lambda>oper. persisted oper = oper) (ops tr)"
    using that by (intro map_idI) (simp add: list_all_iff)
  show ?thesis
    by (rule exI [of _ "self\<lparr> web_memory := mem \<rparr>"], rule exI [of _ w'], rule exI [of _ acc]) (use w acc id in force)
qed

theorem web_write_persists_witness:
  "\<exists>self w self' w' again w''. web_open fbrowser (lit ''db'') 1 Map.empty = Some (Ready (Inr self, w)) \<and>
     web_write fbrowser self (put 0 [1] [2] db_transaction_new) w = Some (Inr (), self', w') \<and>
     web_open fbrowser (lit ''db'') 1 (web_drop fbrowser self' w') = Some (Ready (Inr again, w'')) \<and> web_get again 0 [1] = Inr (Some [2])"
proof -
  let ?tr = "put 0 [1] [2] db_transaction_new"
  have none: "fview Map.empty (lit ''db'') = None" by (simp add: fview_def)
  obtain self w where o: "web_open fbrowser (lit ''db'') 1 Map.empty = Some (Ready (Inr self, w))" "web_name self = lit ''db''" "web_columns self = 1"
    "in_sync fview w self" "fview w (lit ''db'') = Some (opened 1 None)"
    using fb.web_open_spec [of Map.empty "lit ''db''" 1] none fbrowser_reliable by (auto simp: openable_def needs_upgrade_def)
  have "cols_ok \<lparr> idb_ver = 1, stores = Map.empty \<rparr> 0" by (simp add: cols_ok_def store_names_def)
  from grown_cols [OF this, of 1] have g: "openable (Some (opened 1 None))" by (auto simp: openable_def opened_def grown_def)
  have ops: "ops ?tr = [Insert 0 [1] [2]]" by (simp add: put_def db_transaction_new_def with_capacity_def)
  obtain self' w' again w'' where p: "web_write fbrowser self ?tr w = Some (Inr (), self', w')"
    "web_open fbrowser (lit ''db'') 1 (web_drop fbrowser self' w') = Some (Ready (Inr again, w''))" "in_sync fview w'' again"
    "db_contents (web_memory again) = store_write [Insert 0 [1] [2]] (db_contents (web_memory self))"
    using web_write_persists [OF fb.idb_contract_axioms o(4), of ?tr] o(2,3,5) g fbrowser_reliable by (auto simp: ops)
  obtain m where "db_contents (web_memory self) 0 = Some m"
    using o(2-5) cols_ok_store by (fastforce simp: in_sync_def)
  then have "db_contents (web_memory again) 0 = Some (m([1] \<mapsto> [2]))" using p(4) by (simp add: store_write_def store_op_def)
  then have "web_get again 0 [1] = Inr (Some [2])" using mem.get_some [of "web_memory again" 0 _ "[1]"] p(3) by (auto simp: web_get_def in_sync_def)
  then show ?thesis using o(1) p(1,2) by blast
qed

text \<open>
  A key that is deleted by a proper prefix of it is gone from memory and returns when the database is opened again, although nothing failed.
\<close>

theorem deleted_prefix_returns:
  assumes laws: "idb_contract br view reqs" "reliable br" and sync: "in_sync view w self" "openable (view w (web_name self))"
    and c: "Suc (unat (web_columns self)) < 2 ^ 32" "col < web_columns self"
    and k: "web_get self col k = Inr (Some v)" "strict_prefix p k"
  shows "\<exists>self' w' again w''. web_write br self \<lparr> ops = [DeletePrefix col p] \<rparr> w = Some (Inr (), self', w') \<and> web_get self' col k = Inr None \<and>
    web_open br (web_name self) (web_columns self) (web_drop br self' w') = Some (Ready (Inr again, w'')) \<and> web_get again col k = Inr (Some v)"
proof -
  let ?tr = "\<lparr> ops = [DeletePrefix col p] \<rparr>"
  have c0: "web_columns self \<noteq> 0" using c(2) by auto
  have ok: "\<forall>oper\<in>set (ops ?tr). db_op_col oper < web_columns self" using c(2) by simp
  obtain mem w' where w: "web_write br self ?tr w = Some (Inr (), self\<lparr> web_memory := mem \<rparr>, w')" "db_wf mem"
    "db_contents mem = store_write (ops ?tr) (db_contents (web_memory self))"
    using idb_contract.web_write_spec [OF laws(1) sync(1) c0 ok] by blast
  obtain again w'' where a: "web_open br (web_name self) (web_columns self) (web_drop br (self\<lparr> web_memory := mem \<rparr>) w') = Some (Ready (Inr again, w''))"
    "in_sync view w'' again" "db_contents (web_memory again) = store_write (map persisted (ops ?tr)) (db_contents (web_memory self))"
    using idb_contract.reopen_spec [OF laws(1) sync c0 c(1) ok w(1)] laws(2) by blast
  obtain t where t: "columns (web_memory self) col = Some t" "btree_get t k = Some v"
    using k(1) by (auto simp: web_get_def get_def split: option.splits)
  have "db_contents (web_memory self) col = Some (btree_get t)" using t(1) by (simp add: db_contents_def)
  then have "db_contents mem col = Some (\<lambda>k. if prefix p k then None else btree_get t k)"
      "db_contents (web_memory again) col = Some ((btree_get t)(p := None))"
    using w(3) a(3) by (simp_all add: store_write_def store_op_def)
  then have "get mem col k = Inr None" "get (web_memory again) col k = Inr (Some v)"
    using mem.get_some [OF w(2), of col _ k] mem.get_some [of "web_memory again" col _ k] a(2) t(2) k(2)
    by (auto simp: in_sync_def strict_prefix_def)
  then show ?thesis using w(1) a(1) by (auto simp: web_get_def)
qed

text \<open>An operation on another column stops the program before the memory changes; a database without columns cannot be written to.\<close>

theorem web_write_panics:
  assumes laws: "idb_contract br view reqs"
    and c: "web_columns self = 0 \<or> list_ex (\<lambda>oper. web_columns self \<le> db_op_col oper) (ops tr)"
  shows "web_write br self tr w = None"
proof -
  have "idb_ops br cols opers t = None" if "list_ex (\<lambda>oper. cols \<le> db_op_col oper) opers" for cols opers t
    using that
  proof (induction opers arbitrary: t)
    case (Cons oper opers)
    have "idb_op br cols oper t = None" if "cols \<le> db_op_col oper"
      using that by (cases oper; cases "rust_assert (key_range_bound br (db_op_key oper) (db_op_key oper))") (auto simp: word_le_nat_alt)
    then show ?case using Cons by (auto simp: bind_eq_None_conv)
  qed simp
  moreover have "idb_transaction br w (web_name self) (store_names_js 0) = None"
    using idb_contract.transaction_empty [OF laws] by (simp add: store_names_js_def)
  ultimately show ?thesis using c
    by (auto simp: web_write_def idb_commit_transaction_def bind_eq_None_conv rust_assert_def)
qed

end
