(* ===== verification/Prim_Rlp.thy ===== *)
theory Prim_Rlp
  imports Rlp_Codec Uint_Conv
begin

text \<open>
  RLP of the integers of \<^verbatim>\<open>construct_uint!\<close> and the hashes of \<^verbatim>\<open>construct_fixed_hash!\<close>: the macros
  \<^verbatim>\<open>impl_uint_rlp\<close> and \<^verbatim>\<open>impl_fixed_hash_rlp\<close> of the crate \<^verbatim>\<open>impl-rlp\<close>. Both are instances of the
  interface \<open>rlp_codec\<close>.
\<close>

subsection \<open>Operations\<close>

text \<open>The integer type has \<open>n\<close> words; \<^verbatim>\<open>$size\<close> is \<open>n\<close>.\<close>

definition uint_rlp_append :: "(u64 \<Rightarrow> bytes) \<Rightarrow> nat \<Rightarrow> uint encodable" where
  "uint_rlp_append write_u64 n self s =
     do {
       leading_empty_bytes \<leftarrow> usize_sub (n * 8) ((uint_bits self + 7) div 8);
       buf \<leftarrow> uint_to_big_endian write_u64 self (replicate (n * 8) 0);
       d \<leftarrow> slice_range buf leading_empty_bytes (length buf);
       encode_value d s }"

definition uint_rlp_decode :: "(bytes \<Rightarrow> u64) \<Rightarrow> nat \<Rightarrow> uint decoder" where
  "uint_rlp_decode read_u64 n = with_value (\<lambda>bs.
     if bs \<noteq> [] \<and> bs ! 0 = 0 then err RlpInvalidIndirection
     else if length bs \<le> n * 8 then do { x \<leftarrow> uint_from_big_endian read_u64 n bs; ok x }
     else err RlpIsTooBig)"

definition hash_rlp_append :: "bytes encodable" where
  "hash_rlp_append self s = encode_value self s"

definition hash_rlp_decode :: "nat \<Rightarrow> bytes decoder" where
  "hash_rlp_decode n = with_value (\<lambda>bs.
     if length bs < n then err RlpIsTooShort
     else if n < length bs then err RlpIsTooBig
     else ok bs)"

subsection \<open>Codecs\<close>

definition uint_item :: "uint \<Rightarrow> item" where
  "uint_item x = Str (nat_be (lval x))"

context big_endian_words
begin

lemma uint_rlp_append_spec:
  assumes "length x = n" "0 < n"
  shows "uint_rlp_append write_u64 n x = encode_value (nat_be (lval x))"
proof -
  obtain r where r: "uint_to_big_endian write_u64 x (replicate (n * 8) 0) = Some r"
    "length r = 8 * n" "lval (rev r) = lval x"
    using to_big_endian_spec [of "replicate (n * 8) 0" x] assms by auto
  have b: "uint_bits x = nat_bits (lval x)" using assms by (intro uint_bits_spec) auto
  have "lval x < radix TYPE(8) ^ length (rev r)" using r(3) lval_bound [of "rev r"] by simp
  then have "length (nat_be (lval x)) \<le> 8 * n" using r(2) by (simp add: length_nat_be_le radix_def)
  then have le: "(nat_bits (lval x) + 7) div 8 \<le> n * 8" by (simp add: length_nat_be)
  have "drop (n * 8 - (nat_bits (lval x) + 7) div 8) r = nat_be (lval x)"
    using strip_zeros [OF r(3)] r(2) by (simp add: mult.commute)
  then show ?thesis using r(1,2) le
    by (intro ext) (simp add: uint_rlp_append_def b usize_ok slice_range_def length_nat_be [symmetric] mult.commute)
qed

lemma uint_decode_str:
  assumes "small (Str bs)"
  shows "uint_rlp_decode read_u64 n (rlp_new (enc (Str bs))) = Some
    (if bs \<noteq> [] \<and> hd bs = 0 then Inl RlpInvalidIndirection
     else if length bs \<le> 8 * n then Inr (limbs n (lval (rev bs))) else Inl RlpIsTooBig, rlp_new (enc (Str bs)))"
proof -
  have "uint_from_big_endian read_u64 n bs = Some (limbs n (lval (rev bs)))" if "length bs \<le> 8 * n"
    using that by (rule from_big_endian_spec)
  then show ?thesis using assms
    by (cases bs) (simp_all add: uint_rlp_decode_def with_value_enc mult.commute del: enc.simps)
qed

lemma uint_codec:
  assumes "0 < n"
  shows "rlp_codec (uint_rlp_append write_u64 n) (uint_rlp_decode read_u64 n) uint_item (\<lambda>x. length x = n)"
proof
  fix x :: uint
  assume x: "length x = n" and sm: "small (uint_item x)"
  show "writes (uint_rlp_append write_u64 n x) (uint_item x)"
    using sm unfolding uint_rlp_append_spec [OF x assms] uint_item_def by (rule writes_encode_value)
  have "lval x < 256 ^ (8 * n)" using lval_bound [of x] x by (simp add: radix_def power_mult)
  then have "length (nat_be (lval x)) \<le> 8 * n" by (simp only: length_nat_be_le)
  moreover have "\<not> (nat_be (lval x) \<noteq> [] \<and> hd (nat_be (lval x)) = 0)"
    using nat_be_hd [of "lval x"] by (cases "lval x = 0") auto
  ultimately show "\<exists>r. uint_rlp_decode read_u64 n (rlp_new (enc (uint_item x))) = Some (Inr x, r)"
    using uint_decode_str [of "nat_be (lval x)" n] sm x by (simp add: uint_item_def lval_nat_be limbs_lval)
qed

end

interpretation uint256_codec: rlp_codec "uint_rlp_append u64_to_be_bytes 4" "uint_rlp_decode u64_from_be_bytes 4"
    uint_item "\<lambda>x. length x = 4"
  by (rule std_be.uint_codec) simp

lemma hash_codec: "rlp_codec hash_rlp_append (hash_rlp_decode n) Str (\<lambda>h. length h = n)"
proof
  fix h :: bytes
  assume h: "length h = n" and sm: "small (Str h)"
  show "writes (hash_rlp_append h) (Str h)"
    using sm unfolding hash_rlp_append_def [abs_def] by (rule writes_encode_value)
  show "\<exists>r. hash_rlp_decode n (rlp_new (enc (Str h))) = Some (Inr h, r)"
    using h sm by (simp add: hash_rlp_decode_def with_value_enc del: enc.simps)
qed

interpretation h256_codec: rlp_codec hash_rlp_append "hash_rlp_decode 32" Str "\<lambda>h. length h = 32"
  by (rule hash_codec)

subsection \<open>Properties\<close>

text \<open>
  C18. RLP of integers and hashes: for a word access that meets the contract of \<^verbatim>\<open>byteorder\<close>, an
  integer of \<open>n\<close> words is encoded as its shortest big-endian bytes and decoded back; so is a hash of
  \<open>n\<close> bytes. On the encoding of any other string the integer decoder rejects a leading zero and too
  many bytes, the hash decoder every other length.
\<close>

theorem primitive_rlp_correct:
  assumes "big_endian_words write_u64 read_u64" and "0 < n" and "n < 2 ^ 20"
    and "length x = n" and "length h = n" and "small (Str bs)"
  shows "rlp_encode (uint_rlp_append write_u64 n) x = Some (enc (Str (nat_be (lval x)))) \<and>
    (rlp_encode (uint_rlp_append write_u64 n) x \<bind> rlp_decode (uint_rlp_decode read_u64 n)) = ok x \<and>
    rlp_decode (uint_rlp_decode read_u64 n) (enc (Str bs)) =
      (if bs \<noteq> [] \<and> hd bs = 0 then err RlpInvalidIndirection
       else if length bs \<le> 8 * n then ok (limbs n (lval (rev bs))) else err RlpIsTooBig) \<and>
    (rlp_encode hash_rlp_append h \<bind> rlp_decode (hash_rlp_decode n)) = ok h \<and>
    rlp_decode (hash_rlp_decode n) (enc (Str bs)) =
      (if length bs < n then err RlpIsTooShort else if n < length bs then err RlpIsTooBig else ok bs)"
proof -
  have "lval x < 256 ^ (8 * n)" using lval_bound [of x] assms(4) by (simp add: radix_def power_mult)
  then have "length (nat_be (lval x)) \<le> 8 * n" by (simp only: length_nat_be_le)
  moreover have "8 * n < 256 ^ 3" using assms(3) by simp
  ultimately have sx: "small (uint_item x)" unfolding uint_item_def by (intro small_short) linarith
  have sh: "small (Str h)" using assms(3,5) by (intro small_short) simp
  note u = big_endian_words.uint_codec [OF assms(1,2)]
  show ?thesis
  proof (intro conjI)
    show "rlp_encode (uint_rlp_append write_u64 n) x = Some (enc (Str (nat_be (lval x))))"
      using rlp_codec.encode_spec [OF u assms(4) sx] by (simp only: uint_item_def)
    show "(rlp_encode (uint_rlp_append write_u64 n) x \<bind> rlp_decode (uint_rlp_decode read_u64 n)) = ok x"
      by (rule rlp_codec.roundtrip [OF u assms(4) sx])
    show "(rlp_encode hash_rlp_append h \<bind> rlp_decode (hash_rlp_decode n)) = ok h"
      by (rule rlp_codec.roundtrip [OF hash_codec assms(5) sh])
    show "rlp_decode (uint_rlp_decode read_u64 n) (enc (Str bs)) =
      (if bs \<noteq> [] \<and> hd bs = 0 then err RlpInvalidIndirection
       else if length bs \<le> 8 * n then ok (limbs n (lval (rev bs))) else err RlpIsTooBig)"
      using big_endian_words.uint_decode_str [OF assms(1,6)]
      by (simp add: rlp_decode_def rlp_as_val_def del: enc.simps)
    show "rlp_decode (hash_rlp_decode n) (enc (Str bs)) =
      (if length bs < n then err RlpIsTooShort else if n < length bs then err RlpIsTooBig else ok bs)"
      using assms(6) by (simp add: rlp_decode_def rlp_as_val_def hash_rlp_decode_def with_value_enc del: enc.simps)
  qed
qed

theorem primitive_rlp_correct_witness:
  "(rlp_encode (uint_rlp_append u64_to_be_bytes 4) [5, 0, 0, 1] \<bind> rlp_decode (uint_rlp_decode u64_from_be_bytes 4)) = ok [5, 0, 0, 1] \<and>
   rlp_decode (hash_rlp_decode 4) (enc (Str [1, 2])) = err RlpIsTooShort"
proof -
  have p: "0 < (4 :: nat)" "(4 :: nat) < 2 ^ 20" "length [5, 0, 0, 1 :: u64] = 4" "length [1, 2, 3, 4 :: u8] = 4" by simp_all
  have "small (Str [1, 2])" by (intro small_short) simp
  from primitive_rlp_correct [OF std_be.big_endian_words_axioms p this] show ?thesis
    by (elim conjE, intro conjI) (assumption, simp del: enc.simps)
qed

end
