(* ===== verification/Keccak_Bytes.thy ===== *)
theory Keccak_Bytes
  imports Fixed_Hash
begin

text \<open>
  Crates on bytes: \<^verbatim>\<open>keccak-hash\<close> (hashing slices, in place, and streams), \<^verbatim>\<open>parity-bytes\<close> (text of bytes and
  \<^verbatim>\<open>BytesRef\<close>) and \<^verbatim>\<open>plain_hasher\<close>. The hash functions of \<^verbatim>\<open>tiny-keccak\<close> are a parameter.
\<close>

subsection \<open>keccak-hash\<close>

text \<open>A hash function of \<^verbatim>\<open>tiny-keccak\<close>; \<^verbatim>\<open>finalize\<close> fills a slice of any length.\<close>

record 'k keccak_alg =
  k_new :: 'k
  k_update :: "'k \<Rightarrow> bytes \<Rightarrow> 'k"
  k_finalize :: "'k \<Rightarrow> nat \<Rightarrow> bytes"

definition KECCAK_EMPTY :: fixed_hash where
  "KECCAK_EMPTY =
     [0xc5, 0xd2, 0x46, 0x01, 0x86, 0xf7, 0x23, 0x3c, 0x92, 0x7e, 0x7d, 0xb2, 0xdc, 0xc7, 0x03, 0xc0, 0xe5, 0x00, 0xb6,
      0x53, 0xca, 0x82, 0x27, 0x3b, 0x7b, 0xfa, 0xd8, 0x04, 0x5d, 0x85, 0xa4, 0x70]"

definition KECCAK_NULL_RLP :: fixed_hash where
  "KECCAK_NULL_RLP =
     [0x56, 0xe8, 0x1f, 0x17, 0x1b, 0xcc, 0x55, 0xa6, 0xff, 0x83, 0x45, 0xe6, 0x92, 0xc0, 0xf8, 0x6e, 0x5b, 0x48, 0xe0,
      0x1b, 0x99, 0x6c, 0xad, 0xc0, 0x01, 0x62, 0x2f, 0xb5, 0xe3, 0x63, 0xb4, 0x21]"

definition KECCAK_EMPTY_LIST_RLP :: fixed_hash where
  "KECCAK_EMPTY_LIST_RLP =
     [0x1d, 0xcc, 0x4d, 0xe8, 0xde, 0xc7, 0x5d, 0x7a, 0xab, 0x85, 0xb5, 0x67, 0xb6, 0xcc, 0xd4, 0x1a, 0xd3, 0x12, 0x45,
      0x1b, 0x94, 0x8a, 0x74, 0x13, 0xf0, 0xa1, 0x42, 0xfd, 0x40, 0xd4, 0x93, 0x47]"

definition write_keccak :: "'k keccak_alg \<Rightarrow> bytes \<Rightarrow> bytes \<Rightarrow> bytes" where
  "write_keccak K s dest = k_finalize K (k_update K (k_new K) s) (length dest)"

definition keccak :: "'k keccak_alg \<Rightarrow> bytes \<Rightarrow> fixed_hash" where
  "keccak K s = write_keccak K s (replicate 32 0)"

definition keccak256 :: "'k keccak_alg \<Rightarrow> bytes \<Rightarrow> bytes" where
  "keccak256 K data = k_finalize K (k_update K (k_new K) data) (length data)"

definition keccak256_range :: "'k keccak_alg \<Rightarrow> bytes \<Rightarrow> nat \<Rightarrow> nat \<Rightarrow> bytes may_panic" where
  "keccak256_range K data a b =
     do { part \<leftarrow> slice_range data a b; Some (k_finalize K (k_update K (k_new K) part) (length data)) }"

text \<open>The functions of 512 bits, with the other hash function.\<close>

definition keccak512 :: "'k keccak_alg \<Rightarrow> bytes \<Rightarrow> bytes" where
  "keccak512 K512 data = k_finalize K512 (k_update K512 (k_new K512) data) (length data)"

definition keccak512_range :: "'k keccak_alg \<Rightarrow> bytes \<Rightarrow> nat \<Rightarrow> nat \<Rightarrow> bytes may_panic" where
  "keccak512_range K512 data a b =
     do { part \<leftarrow> slice_range data a b; Some (k_finalize K512 (k_update K512 (k_new K512) part) (length data)) }"

definition keccak_256 :: "'k keccak_alg \<Rightarrow> bytes \<Rightarrow> bytes \<Rightarrow> bytes" where
  "keccak_256 K input output = write_keccak K input output"

definition keccak_512 :: "'k keccak_alg \<Rightarrow> bytes \<Rightarrow> bytes \<Rightarrow> bytes" where
  "keccak_512 K512 input output = k_finalize K512 (k_update K512 (k_new K512) input) (length output)"

text \<open>
  A stream: \<open>read\<close> is \<^verbatim>\<open>Read::read\<close> into a buffer of 1024 bytes, which returns the bytes it put there, and \<open>write_all\<close>
  is \<^verbatim>\<open>Write::write_all\<close>. The loop ends at the end of the stream or with an error; it may not
  end, so its value is an option, and \<^term>\<open>None\<close> is no return: the loop goes on for ever, or it panics at a read of more than the buffer.
\<close>

partial_function (option) pipe_loop ::
  "'k keccak_alg \<Rightarrow> ('r \<Rightarrow> ('e + bytes) \<times> 'r) \<Rightarrow> ('w \<Rightarrow> bytes \<Rightarrow> ('e + unit) \<times> 'w) \<Rightarrow> 'k \<Rightarrow> 'r \<Rightarrow> 'w \<Rightarrow> (('e + 'k) \<times> 'r \<times> 'w) option" where
  "pipe_loop K read write_all k r w =
     (case read r of
        (Inl e, r) \<Rightarrow> Some (Inl e, r, w)
      | (Inr some, r) \<Rightarrow>
          (if some = [] then Some (Inr k, r, w)
           else if length some > 1024 then None
           else
             case write_all w some of
               (Inl e, w) \<Rightarrow> Some (Inl e, r, w)
             | (Inr _, w) \<Rightarrow> pipe_loop K read write_all (k_update K k some) r w))"

definition keccak_pipe ::
  "'k keccak_alg \<Rightarrow> ('r \<Rightarrow> ('e + bytes) \<times> 'r) \<Rightarrow> ('w \<Rightarrow> bytes \<Rightarrow> ('e + unit) \<times> 'w) \<Rightarrow> 'r \<Rightarrow> 'w \<Rightarrow> (('e + fixed_hash) \<times> 'r \<times> 'w) option" where
  "keccak_pipe K read write_all r w =
     do {
       (res, r, w) \<leftarrow> pipe_loop K read write_all (k_new K) r w;
       Some (case res of Inl e \<Rightarrow> Inl e | Inr k \<Rightarrow> Inr (k_finalize K k 32), r, w) }"

text \<open>\<^verbatim>\<open>io::sink()\<close> takes everything.\<close>

definition keccak_buffer :: "'k keccak_alg \<Rightarrow> ('r \<Rightarrow> ('e + bytes) \<times> 'r) \<Rightarrow> 'r \<Rightarrow> (('e + fixed_hash) \<times> 'r) option" where
  "keccak_buffer K read r =
     do { (res, r, _) \<leftarrow> keccak_pipe K read (\<lambda>_ _. (Inr (), ())) r (); Some (res, r) }"

subsection \<open>parity-bytes\<close>

text \<open>The texts are UTF-8; the middle dot has two bytes.\<close>

definition pretty_debug :: "bytes \<Rightarrow> bytes" where
  "pretty_debug bs =
     concat (map (\<lambda>i. if i > 0 then [0xc2, 0xb7] @ fmt_02x False (bs ! i) else fmt_02x False (bs ! i)) [0..<length bs])"

definition pretty_display :: "bytes \<Rightarrow> bytes" where
  "pretty_display bs = concat (map (\<lambda>i. fmt_02x False (bs ! i)) [0..<length bs])"

definition pretty_to_hex :: "bytes \<Rightarrow> bytes" where
  "pretty_to_hex bs = pretty_display bs"

datatype bytes_ref = Flexible bytes | Fixed bytes

definition resize :: "bytes \<Rightarrow> nat \<Rightarrow> bytes" where
  "resize data n = take n data @ replicate (n - length data) 0"

fun bytes_ref_write :: "bytes_ref \<Rightarrow> nat \<Rightarrow> bytes \<Rightarrow> (nat \<times> bytes_ref) may_panic" where
  "bytes_ref_write (Flexible data) offset input =
     do {
       let data_len = length data;
       wrote \<leftarrow> usize_add (length input) (if data_len > offset then 0 else offset - data_len);
       Some (wrote, Flexible (resize data offset @ input)) }"
| "bytes_ref_write (Fixed data) offset input =
     (if offset < length data then
        do {
          let m = min (length data - offset) (length input);
          mid \<leftarrow> slice_range data offset (m + offset);
          src \<leftarrow> slice_range input 0 m;
          mid \<leftarrow> copy_from_slice mid src;
          Some (m, Fixed (take offset data @ mid @ drop (m + offset) data)) }
      else Some (0, Fixed data))"

fun bytes_ref_deref :: "bytes_ref \<Rightarrow> bytes" where
  "bytes_ref_deref (Flexible bs) = bs"
| "bytes_ref_deref (Fixed bs) = bs"

subsection \<open>plain-hasher\<close>

record plain_hasher =
  ph_prefix :: u64

definition plain_default :: plain_hasher where
  "plain_default = \<lparr> ph_prefix = 0 \<rparr>"

definition plain_finish :: "plain_hasher \<Rightarrow> u64" where
  "plain_finish self = ph_prefix self"

text \<open>\<^verbatim>\<open>to_le_bytes\<close> and \<^verbatim>\<open>from_le_bytes\<close> are the digits of a word and their value.\<close>

definition plain_write :: "plain_hasher \<Rightarrow> bytes \<Rightarrow> plain_hasher may_panic" where
  "plain_write self bs =
     do {
       rust_assert (length bs = 32);
       let prefix_bytes = (limbs 8 (unat (ph_prefix self)) :: bytes);
       let prefix_bytes = fold (\<lambda>i pb. pb[i := pb ! i XOR ((bs ! i XOR bs ! (i + 8)) XOR (bs ! (i + 16) XOR bs ! (i + 24)))])
         [0..<8] prefix_bytes;
       Some (self\<lparr> ph_prefix := of_nat (lval prefix_bytes) \<rparr>) }"

subsection \<open>Hashing a stream\<close>

text \<open>
  A run of the loop: pieces of at most 1024 bytes that the stream delivers one after the other, each of which the sink accepts.
\<close>

inductive pumps ::
  "('r \<Rightarrow> ('e + bytes) \<times> 'r) \<Rightarrow> ('w \<Rightarrow> bytes \<Rightarrow> ('e + unit) \<times> 'w) \<Rightarrow> 'r \<Rightarrow> 'w \<Rightarrow> bytes list \<Rightarrow> 'r \<Rightarrow> 'w \<Rightarrow> bool"
  for read :: "'r \<Rightarrow> ('e + bytes) \<times> 'r" and write_all :: "'w \<Rightarrow> bytes \<Rightarrow> ('e + unit) \<times> 'w" where
  none: "pumps read write_all r w [] r w"
| piece: "read r = (Inr c, r1) \<Longrightarrow> c \<noteq> [] \<Longrightarrow> length c \<le> 1024 \<Longrightarrow> write_all w c = (Inr (), w1) \<Longrightarrow>
    pumps read write_all r1 w1 cs r' w' \<Longrightarrow> pumps read write_all r w (c # cs) r' w'"

lemma pumps_into_sink: "pumps read write_all r w cs r' w' \<Longrightarrow> pumps read (\<lambda>_ _. (Inr (), ())) r () cs r' ()"
  by (induction rule: pumps.induct) (auto intro: pumps.intros)

locale keccak_contract =
  fixes K :: "'k keccak_alg"
  assumes update_append: "k_update K (k_update K k a) b = k_update K k (a @ b)" and update_Nil: "k_update K k [] = k"
    and finalize_length: "length (k_finalize K k n) = n"
begin

lemma pipe_loop_run:
  "pumps read write_all r w cs r' w' \<Longrightarrow> pipe_loop K read write_all k r w = pipe_loop K read write_all (k_update K k (concat cs)) r' w'"
proof (induction arbitrary: k rule: pumps.induct)
  case (none r w)
  then show ?case by (simp add: update_Nil)
next
  case (piece r c r1 w w1 cs r' w')
  have "pipe_loop K read write_all k r w = pipe_loop K read write_all (k_update K k c) r1 w1"
    using piece(1-4) by (subst pipe_loop.simps) simp
  then show ?case using piece.IH [of "k_update K k c"] by (simp add: update_append)
qed

lemma pipe_run:
  assumes "pumps read write_all r w cs r1 w1"
  shows "read r1 = (Inr [], r2) \<Longrightarrow> keccak_pipe K read write_all r w = Some (Inr (keccak K (concat cs)), r2, w1)"
    and "read r1 = (Inl e, r2) \<Longrightarrow> keccak_pipe K read write_all r w = Some (Inl e, r2, w1)"
    and "read r1 = (Inr c, r2) \<Longrightarrow> c \<noteq> [] \<Longrightarrow> length c \<le> 1024 \<Longrightarrow> write_all w1 c = (Inl e, w2) \<Longrightarrow>
      keccak_pipe K read write_all r w = Some (Inl e, r2, w2)"
  unfolding keccak_pipe_def pipe_loop_run [OF assms]
  by (subst pipe_loop.simps, simp add: keccak_def write_keccak_def)+

lemma keccak_length: "length (keccak K bs) = 32"
  by (simp add: keccak_def write_keccak_def finalize_length)

end

text \<open>A hash function that keeps the contract: it remembers what it was given.\<close>

definition sample_keccak :: "bytes keccak_alg" where
  "sample_keccak = \<lparr> k_new = [], k_update = (@), k_finalize = \<lambda>k n. take n (k @ replicate n 0) \<rparr>"

interpretation sample: keccak_contract sample_keccak
  by unfold_locales (simp_all add: sample_keccak_def)

subsection \<open>Properties\<close>

text \<open>
  C37. Hashing a stream: after any run in which the stream delivered pieces of at most 1024 bytes and the sink accepted each of them in
  order, the loop of \<^verbatim>\<open>keccak_pipe\<close> returns at the next event. At the end of the stream the result is the hash \<^verbatim>\<open>keccak\<close> of
  the pieces as a whole, of 32 bytes; an error of the stream is returned, and so is an error of the sink on the next piece, without
  another read or write. \<^verbatim>\<open>keccak_buffer\<close> returns the same hash and the same error of the stream.
\<close>

theorem keccak_pipe_correct:
  fixes read :: "'r \<Rightarrow> ('e + bytes) \<times> 'r"
  assumes K: "keccak_contract K" and run: "pumps read write_all r w cs r1 w1"
  shows "(read r1 = (Inr [], r2) \<longrightarrow>
      keccak_pipe K read write_all r w = Some (Inr (keccak K (concat cs)), r2, w1) \<and> length (keccak K (concat cs)) = 32 \<and>
      keccak_buffer K read r = Some (Inr (keccak K (concat cs)), r2)) \<and>
    (read r1 = (Inl e, r2) \<longrightarrow>
      keccak_pipe K read write_all r w = Some (Inl e, r2, w1) \<and> keccak_buffer K read r = Some (Inl e, r2)) \<and>
    (read r1 = (Inr c, r2) \<and> c \<noteq> [] \<and> length c \<le> 1024 \<and> write_all w1 c = (Inl e, w2) \<longrightarrow>
      keccak_pipe K read write_all r w = Some (Inl e, r2, w2))"
  using keccak_contract.pipe_run [OF K run] keccak_contract.pipe_run [OF K pumps_into_sink [OF run]] keccak_contract.keccak_length [OF K]
  by (simp add: keccak_buffer_def)

text \<open>A stream of the pieces of a list, and a sink for at most three bytes.\<close>

definition list_read :: "bytes list \<Rightarrow> (nat + bytes) \<times> bytes list" where
  "list_read cs = (case cs of [] \<Rightarrow> (Inr [], []) | c # cs \<Rightarrow> (Inr c, cs))"

definition small_sink :: "bytes \<Rightarrow> bytes \<Rightarrow> (nat + unit) \<times> bytes" where
  "small_sink w c = (if length (w @ c) \<le> 3 then (Inr (), w @ c) else (Inl (length (w @ c)), w))"

theorem keccak_pipe_correct_witness:
  "keccak_pipe sample_keccak list_read small_sink [[1, 2], [3]] [] = Some (Inr (keccak sample_keccak [1, 2, 3]), [], [1, 2, 3]) \<and>
   keccak_pipe sample_keccak list_read small_sink [[1, 2], [3, 4], [5]] [] = Some (Inl 4, [[5]], [1, 2])"
proof
  have "pumps list_read small_sink [[1, 2], [3]] [] [[1, 2], [3]] [] [1, 2, 3]"
    by (rule pumps.piece pumps.none | simp add: list_read_def small_sink_def)+
  from keccak_pipe_correct [OF sample.keccak_contract_axioms this, of "[]" 0 "[]" "[]"]
  show "keccak_pipe sample_keccak list_read small_sink [[1, 2], [3]] [] = Some (Inr (keccak sample_keccak [1, 2, 3]), [], [1, 2, 3])"
    by (simp add: list_read_def)
  have "pumps list_read small_sink [[1, 2], [3, 4], [5]] [] [[1, 2]] [[3, 4], [5]] [1, 2]"
    by (rule pumps.piece pumps.none | simp add: list_read_def small_sink_def)+
  from keccak_pipe_correct [OF sample.keccak_contract_axioms this, of "[[5]]" 4 "[3, 4]" "[1, 2]"]
  show "keccak_pipe sample_keccak list_read small_sink [[1, 2], [3, 4], [5]] [] = Some (Inl 4, [[5]], [1, 2])"
    by (simp add: list_read_def small_sink_def)
qed

text \<open>
  Writing to a \<^verbatim>\<open>BytesRef\<close>: a vector holds its first \<open>offset\<close> bytes (filled up with zeros), then the input and nothing after it, and
  the result counts the zeros too; a slice keeps its length and its other bytes, and the input that does
  not fit is dropped.
\<close>

theorem bytes_ref_write_correct:
  assumes "length input + offset < B"
  shows "bytes_ref_write (Flexible data) offset input =
      Some (length input + (offset - length data), Flexible (take offset data @ replicate (offset - length data) 0 @ input))"
    and "\<exists>n data'. bytes_ref_write (Fixed data) offset input = Some (n, Fixed data') \<and> n = min (length data - offset) (length input) \<and>
      length data' = length data \<and> (\<forall>i < length data. data' ! i = (if offset \<le> i \<and> i < offset + n then input ! (i - offset) else data ! i))"
proof -
  show "bytes_ref_write (Flexible data) offset input =
      Some (length input + (offset - length data), Flexible (take offset data @ replicate (offset - length data) 0 @ input))"
    using assms by (auto simp: usize_add_def resize_def Let_def)
  show "\<exists>n data'. bytes_ref_write (Fixed data) offset input = Some (n, Fixed data') \<and> n = min (length data - offset) (length input) \<and>
      length data' = length data \<and> (\<forall>i < length data. data' ! i = (if offset \<le> i \<and> i < offset + n then input ! (i - offset) else data ! i))"
  proof (cases "offset < length data")
    case True
    define n where "n = min (length data - offset) (length input)"
    have n: "n + offset \<le> length data" "n \<le> length input" using True by (simp_all add: n_def)
    then have "bytes_ref_write (Fixed data) offset input = Some (n, Fixed (take offset data @ take n input @ drop (n + offset) data))"
      using True by (simp add: slice_range_def copy_from_slice_def Let_def n_def [symmetric])
    then show ?thesis using n True by (auto simp: n_def [symmetric] nth_append)
  qed simp
qed

text \<open>The texts of bytes: two digits each, and with a dot between them in the \<^verbatim>\<open>Debug\<close> text.\<close>

theorem pretty_text:
  "pretty_to_hex bs = concat (map (fmt_02x False) bs)"
  "pretty_debug (b # bs) = fmt_02x False b @ concat (map (\<lambda>b. [0xc2, 0xb7] @ fmt_02x False b) bs)"
proof -
  have "map (\<lambda>i. fmt_02x False (bs ! i)) [0..<length bs] = map (fmt_02x False) bs" by (rule nth_equalityI) simp_all
  then show "pretty_to_hex bs = concat (map (fmt_02x False) bs)" by (simp add: pretty_to_hex_def pretty_display_def)
  have "map (\<lambda>i. if i > 0 then [0xc2, 0xb7] @ fmt_02x False ((b # bs) ! i) else fmt_02x False ((b # bs) ! i)) [0..<length (b # bs)] =
      fmt_02x False b # map (\<lambda>b. [0xc2, 0xb7] @ fmt_02x False b) bs"
    by (rule nth_equalityI) (auto simp: nth_Cons' simp del: upt_Suc)
  then show "pretty_debug (b # bs) = fmt_02x False b @ concat (map (\<lambda>b. [0xc2, 0xb7] @ fmt_02x False b) bs)"
    unfolding pretty_debug_def by (simp only: concat.simps)
qed

text \<open>
  \<^verbatim>\<open>PlainHasher\<close>: on 32 bytes, the state is combined by exclusive or with the four little-endian words of the bytes,
  so writing the same bytes twice changes nothing; other lengths fail the debug assertion.
\<close>

lemma fold_update: "n \<le> length xs \<Longrightarrow> fold (\<lambda>i ys. ys[i := f i (ys ! i)]) [0..<n] xs = map (\<lambda>i. f i (xs ! i)) [0..<n] @ drop n xs"
proof (induction n)
  case (Suc n)
  then have "drop n xs = xs ! n # drop (Suc n) xs" by (simp add: Cons_nth_drop_Suc)
  then show ?case using Suc by (simp add: list_update_append nth_append)
qed simp

lemma lval_xor: "length a = length b \<Longrightarrow> lval (map2 (\<lambda>x y. x XOR y) a b) = lval a XOR lval (b :: bytes)"
  using hval_bitwise(3) [of "rev a" "rev b"] by (simp add: hval_def rev_map2)

definition le_word :: "bytes \<Rightarrow> u64" where
  "le_word bs = of_nat (lval bs)"

lemma le_word_xor: "length a = length b \<Longrightarrow> le_word (map2 (\<lambda>x y. x XOR y) a b) = le_word a XOR le_word b"
  by (simp add: le_word_def lval_xor of_nat_xor_eq)

lemma le_word_limbs: "le_word (limbs 8 (unat w)) = w"
  using unat_lt_radix [of w] by (simp add: le_word_def lval_limbs radix_def)

theorem plain_write_correct:
  "plain_write self bs = (if length bs = 32 then Some (self\<lparr> ph_prefix := ph_prefix self XOR
     le_word (take 8 bs) XOR le_word (take 8 (drop 8 bs)) XOR le_word (take 8 (drop 16 bs)) XOR le_word (drop 24 bs) \<rparr>) else panic)"
proof (cases "length bs = 32")
  case True
  let ?p = "limbs 8 (unat (ph_prefix self)) :: bytes" and ?x = "map2 (\<lambda>x y :: u8. x XOR y)"
  have "fold (\<lambda>i pb. pb[i := pb ! i XOR ((bs ! i XOR bs ! (i + 8)) XOR (bs ! (i + 16) XOR bs ! (i + 24)))]) [0..<8] ?p =
      ?x ?p (?x (?x (take 8 bs) (take 8 (drop 8 bs))) (?x (take 8 (drop 16 bs)) (drop 24 bs)))"
    unfolding fold_update [of 8 ?p "\<lambda>i p. p XOR ((bs ! i XOR bs ! (i + 8)) XOR (bs ! (i + 16) XOR bs ! (i + 24)))", simplified]
    using True by (intro nth_equalityI) (simp_all add: add.commute del: upt_rec_numeral)
  then show ?thesis using True
    by (simp add: plain_write_def le_word_def [symmetric] le_word_xor le_word_limbs xor.assoc Let_def del: upt_rec_numeral)
qed (simp add: plain_write_def)

end
