(* ===== verification/Contract_Address.thy ===== *)
theory Contract_Address
  imports Prim_Rlp Keccak_Bytes
begin

text \<open>
  The addresses of contracts (\<^verbatim>\<open>contract-address/src/lib.rs\<close>), which put the RLP stream, the hashes and the hash function
  together.
\<close>

definition address_of :: "fixed_hash \<Rightarrow> fixed_hash may_panic" where
  "address_of h = small_from_large 32 20 h"

definition from_sender_and_nonce :: "'k keccak_alg \<Rightarrow> (u64 \<Rightarrow> bytes) \<Rightarrow> fixed_hash \<Rightarrow> uint \<Rightarrow> fixed_hash may_panic" where
  "from_sender_and_nonce K write_u64 sender nonce =
     do {
       stream \<leftarrow> new_list 2;
       stream \<leftarrow> stream_append hash_rlp_append sender stream;
       stream \<leftarrow> stream_append (uint_rlp_append write_u64 4) nonce stream;
       address_of (keccak K (stream_as_raw stream)) }"

definition from_sender_salt_and_code :: "'k keccak_alg \<Rightarrow> fixed_hash \<Rightarrow> fixed_hash \<Rightarrow> fixed_hash \<Rightarrow> fixed_hash may_panic" where
  "from_sender_salt_and_code K sender salt code_hash =
     do {
       let buffer = (replicate (1 + 20 + 32 + 32) 0)[0 := 0xff];
       part \<leftarrow> slice_range buffer 1 (1 + 20);
       part \<leftarrow> copy_from_slice part sender;
       let buffer = take 1 buffer @ part @ drop (1 + 20) buffer;
       part \<leftarrow> slice_range buffer (1 + 20) (1 + 20 + 32);
       part \<leftarrow> copy_from_slice part salt;
       let buffer = take (1 + 20) buffer @ part @ drop (1 + 20 + 32) buffer;
       part \<leftarrow> slice_range buffer (1 + 20 + 32) (length buffer);
       part \<leftarrow> copy_from_slice part code_hash;
       let buffer = take (1 + 20 + 32) buffer @ part;
       address_of (keccak K buffer) }"

definition from_sender_and_code :: "'k keccak_alg \<Rightarrow> fixed_hash \<Rightarrow> fixed_hash \<Rightarrow> fixed_hash may_panic" where
  "from_sender_and_code K sender code_hash =
     do {
       let buffer = replicate (20 + 32) 0;
       part \<leftarrow> slice_range buffer 0 20;
       part \<leftarrow> copy_from_slice part sender;
       let buffer = part @ drop 20 buffer;
       part \<leftarrow> slice_range buffer 20 (length buffer);
       part \<leftarrow> copy_from_slice part code_hash;
       let buffer = take 20 buffer @ part;
       address_of (keccak K buffer) }"

subsection \<open>What is hashed\<close>

lemma address_of_spec: "length h = 32 \<Longrightarrow> address_of h = Some (drop 12 h)"
  by (simp add: address_of_def small_from_large_def slice_range_def copy_from_slice_def hash_zero_def hash_repeat_byte_def)

text \<open>The preimages of the three schemes.\<close>

definition nonce_preimage :: "fixed_hash \<Rightarrow> uint \<Rightarrow> bytes" where
  "nonce_preimage sender nonce = enc (Items [Str sender, Str (nat_be (lval nonce))])"

definition salt_preimage :: "fixed_hash \<Rightarrow> fixed_hash \<Rightarrow> fixed_hash \<Rightarrow> bytes" where
  "salt_preimage sender salt code_hash = 0xff # sender @ salt @ code_hash"

text \<open>The two values in the list as one type, so that the lists of the stream apply.\<close>

definition part_append :: "(u64 \<Rightarrow> bytes) \<Rightarrow> (fixed_hash + uint) encodable" where
  "part_append write_u64 v = (case v of Inl h \<Rightarrow> hash_rlp_append h | Inr x \<Rightarrow> uint_rlp_append write_u64 4 x)"

lemma small_preimage:
  assumes "length sender = 20" "length nonce = 4"
  shows "small (Items [Str sender, Str (nat_be (lval nonce))])" "length (nonce_preimage sender nonce) \<le> 55"
    "length (nat_be (lval nonce)) \<le> 32" "small (Str sender)" "small (Str (nat_be (lval nonce)))"
proof -
  have "lval nonce < 256 ^ 32" using lval_bound [of nonce] assms(2) by (simp add: B_eq)
  then show n: "length (nat_be (lval nonce)) \<le> 32" by (simp only: length_nat_be_le)
  then have l: "length (enc (Str (nat_be (lval nonce)))) \<le> 33" "length (enc (Str sender)) = 21"
    using assms by (simp_all add: header_def)
  then show len: "length (nonce_preimage sender nonce) \<le> 55"
    unfolding nonce_preimage_def enc.simps(2) by (simp add: header_def del: enc.simps)
  then show "small (Items [Str sender, Str (nat_be (lval nonce))])" by (simp add: small_def nonce_preimage_def del: enc.simps)
  show "small (Str sender)" "small (Str (nat_be (lval nonce)))" using l by (simp_all add: small_def del: enc.simps)
qed

context big_endian_words
begin

lemma nonce_stream:
  assumes "length sender = 20" "length nonce = 4"
  shows "\<exists>s. do { s \<leftarrow> new_list 2; s \<leftarrow> stream_append hash_rlp_append sender s; stream_append (uint_rlp_append write_u64 4) nonce s } = Some s \<and>
    stream_as_raw s = nonce_preimage sender nonce"
proof -
  note sm = small_preimage [OF assms]
  have "writes (hash_rlp_append sender) (Str sender)"
    using rlp_codec.append_writes [OF hash_codec, of sender 20] assms(1) sm(4) by simp
  moreover have "writes (uint_rlp_append write_u64 4 nonce) (Str (nat_be (lval nonce)))"
    using rlp_codec.append_writes [OF uint_codec, of 4 nonce] assms(2) sm(5) by (simp add: uint_item_def)
  ultimately have "list_all2 (\<lambda>v x. writes (part_append write_u64 v) x) [Inl sender, Inr nonce] [Str sender, Str (nat_be (lval nonce))]"
    by (simp add: part_append_def)
  from rlp_encode_list_writes [OF this sm(1)]
  have e: "rlp_encode_list (part_append write_u64) [Inl sender, Inr nonce] = Some (nonce_preimage sender nonce)"
    by (simp add: nonce_preimage_def del: enc.simps)
  have p: "stream_append (part_append write_u64) (Inl sender) = stream_append hash_rlp_append sender"
    "stream_append (part_append write_u64) (Inr nonce) = stream_append (uint_rlp_append write_u64 4) nonce"
    by (simp_all add: stream_append_def [abs_def] part_append_def)
  show ?thesis
    using e by (auto simp: rlp_encode_list_def append_list_def new_list_def p stream_out_def stream_as_raw_def numeral_2_eq_2
        bind_eq_Some_conv split: if_splits)
qed

lemma nonce_address:
  assumes "keccak_contract K" "length sender = 20" "length nonce = 4"
  shows "from_sender_and_nonce K write_u64 sender nonce = Some (drop 12 (keccak K (nonce_preimage sender nonce)))"
proof -
  obtain s where s: "do { s \<leftarrow> new_list 2; s \<leftarrow> stream_append hash_rlp_append sender s; stream_append (uint_rlp_append write_u64 4) nonce s } = Some s"
    "stream_as_raw s = nonce_preimage sender nonce"
    using nonce_stream [OF assms(2,3)] by blast
  then show ?thesis
    using address_of_spec [OF keccak_contract.keccak_length [OF assms(1)]]
    by (auto simp: from_sender_and_nonce_def bind_eq_Some_conv)
qed

end

lemma salt_address:
  assumes "keccak_contract K" "length sender = 20" "length salt = 32" "length code_hash = 32"
  shows "from_sender_salt_and_code K sender salt code_hash = Some (drop 12 (keccak K (salt_preimage sender salt code_hash)))"
    "from_sender_and_code K sender code_hash = Some (drop 12 (keccak K (sender @ code_hash)))"
  using assms address_of_spec [OF keccak_contract.keccak_length [OF assms(1)]]
  by (simp_all add: from_sender_salt_and_code_def from_sender_and_code_def slice_range_def copy_from_slice_def salt_preimage_def
      Let_def numeral_eq_Suc)

lemma nonce_preimage_parts:
  assumes "length sender = 20" "length nonce = 4"
  shows "\<exists>h. nonce_preimage sender nonce = h # 0x94 # sender @ enc (uint_item nonce) \<and> unat h < 248"
proof -
  let ?q = "enc (Str sender) @ enc (uint_item nonce)"
  have len: "length (nonce_preimage sender nonce) \<le> 55" using small_preimage(2) [OF assms] .
  have q: "nonce_preimage sender nonce = header 192 (length ?q) @ ?q"
    unfolding nonce_preimage_def enc.simps(2) uint_item_def by (simp del: enc.simps)
  then have "length ?q \<le> 55" using len by (simp del: enc.simps)
  then have "header 192 (length ?q) = [of_nat (192 + length ?q)]" "unat (of_nat (192 + length ?q) :: u8) < 248"
    by (simp_all only: header_def if_True) (subst unat_of_nat_lt; simp add: radix_def del: enc.simps)
  moreover have "enc (Str sender) = 0x94 # sender" using assms(1) by (simp add: header_def)
  ultimately show ?thesis unfolding q by (metis append_Cons append_Nil)
qed

lemma nonce_preimage_inject:
  assumes "length s = 20" "length n = 4" "length s' = 20" "length n' = 4" "nonce_preimage s n = nonce_preimage s' n'"
  shows "s = s' \<and> n = n'"
proof -
  have e: "s @ enc (uint_item n) = s' @ enc (uint_item n')"
    using nonce_preimage_parts [OF assms(1,2)] nonce_preimage_parts [OF assms(3,4)] assms(5) by auto
  then have "s = s'" "enc (uint_item n) = enc (uint_item n')" using assms(1,3) by (simp_all del: enc.simps)
  moreover have "small (uint_item n)" using small_preimage(5) [OF assms(1,2)] by (simp add: uint_item_def)
  ultimately show ?thesis using uint256_codec.item_of_inject [of n n'] assms(2,4) by simp
qed

lemma preimages_differ:
  assumes "length s = 20" "length n = 4"
  shows "nonce_preimage s n \<noteq> salt_preimage s' salt code_hash"
  using nonce_preimage_parts [OF assms] by (auto simp: salt_preimage_def)

text \<open>
  The preimage of a sender and a code hash has 52 bytes. The preimage of a nonce has so many bytes only when the nonce takes 29
  bytes, which no nonce below \<open>2\<^sup>2\<^sup>2\<^sup>4\<close> does.
\<close>

lemma nonce_preimage_short:
  assumes "length s = 20" "length n = 4" "lval n < 2 ^ 224"
  shows "length (nonce_preimage s n) < 52"
proof -
  have "lval n < 256 ^ 28" using assms(3) by simp
  then have "length (nat_be (lval n)) \<le> 28" by (simp only: length_nat_be_le)
  then have "length (enc (uint_item n)) \<le> 29" by (simp add: uint_item_def header_def)
  then show ?thesis using nonce_preimage_parts [OF assms(1,2)] assms(1) by (auto simp del: enc.simps)
qed

lemma code_preimage_inject:
  fixes s s' :: bytes
  shows "length s = 20 \<Longrightarrow> length s' = 20 \<Longrightarrow> s @ c = s' @ c' \<longleftrightarrow> s = s' \<and> c = c'"
  by simp

lemma salt_preimage_inject:
  assumes "length s = 20" "length s' = 20" "length salt = 32" "length salt' = 32"
  shows "salt_preimage s salt c = salt_preimage s' salt' c' \<longleftrightarrow> s = s' \<and> salt = salt' \<and> c = c'"
  using assms by (auto simp: salt_preimage_def)

subsection \<open>Properties\<close>

text \<open>
  C38. The addresses of contracts: for a hash function and a word access that meet their contracts, no function panics, and the address
  is the last twenty bytes of the hash of the preimage of its scheme: the RLP list of the sender and the nonce; the byte \<^verbatim>\<open>0xff\<close>, the
  sender, the salt and the code hash; the sender and the code hash. Within each of the three schemes equal preimages come from equal
  arguments. The preimages of the salt scheme are those of no other scheme; those of the nonce scheme and of the code scheme are
  different for nonces below \<open>2\<^sup>2\<^sup>2\<^sup>4\<close> (for greater ones they can be equal, \<open>nonce_meets_code\<close> below). So, within these
  limits, two addresses agree for different arguments only where the last twenty bytes of the hash do.
\<close>

theorem contract_addresses:
  assumes laws: "keccak_contract K" "big_endian_words write_u64 read_u64"
    and len: "length sender = 20" "length nonce = 4" "length sender' = 20" "length nonce' = 4"
      "length salt = 32" "length code_hash = 32" "length salt' = 32" "length code_hash' = 32"
  shows "from_sender_and_nonce K write_u64 sender nonce = Some (drop 12 (keccak K (nonce_preimage sender nonce))) \<and>
    from_sender_salt_and_code K sender salt code_hash = Some (drop 12 (keccak K (salt_preimage sender salt code_hash))) \<and>
    from_sender_and_code K sender code_hash = Some (drop 12 (keccak K (sender @ code_hash))) \<and>
    length (drop 12 (keccak K (nonce_preimage sender nonce))) = 20 \<and>
    (nonce_preimage sender nonce = nonce_preimage sender' nonce' \<longleftrightarrow> sender = sender' \<and> nonce = nonce') \<and>
    (salt_preimage sender salt code_hash = salt_preimage sender' salt' code_hash' \<longleftrightarrow>
       sender = sender' \<and> salt = salt' \<and> code_hash = code_hash') \<and>
    (sender @ code_hash = sender' @ code_hash' \<longleftrightarrow> sender = sender' \<and> code_hash = code_hash') \<and>
    nonce_preimage sender nonce \<noteq> salt_preimage sender' salt' code_hash' \<and>
    sender @ code_hash \<noteq> salt_preimage sender' salt' code_hash' \<and>
    (lval nonce < 2 ^ 224 \<longrightarrow> nonce_preimage sender nonce \<noteq> sender' @ code_hash')"
proof -
  have l: "length (sender @ code_hash) = 52" "length (sender' @ code_hash') = 52" "length (salt_preimage sender' salt' code_hash') = 85"
    using len by (simp_all add: salt_preimage_def)
  then have "nonce_preimage sender nonce \<noteq> sender' @ code_hash'" if "lval nonce < 2 ^ 224"
    using nonce_preimage_short [OF len(1,2) that] l(2) by (metis less_irrefl)
  moreover have "sender @ code_hash \<noteq> salt_preimage sender' salt' code_hash'" using l(1,3) by (auto simp del: length_append)
  ultimately show ?thesis
    using big_endian_words.nonce_address [OF laws(2,1) len(1,2)] salt_address [OF laws(1) len(1,5,6)]
      keccak_contract.keccak_length [OF laws(1)] nonce_preimage_inject [OF len(1-4)] preimages_differ [OF len(1,2)]
      code_preimage_inject [OF len(1,3)] salt_preimage_inject [OF len(1,3,5,7)]
    by auto
qed

theorem contract_addresses_witness:
  "from_sender_and_nonce sample_keccak u64_to_be_bytes (replicate 20 1) [5, 0, 0, 0] =
     Some (drop 12 (keccak sample_keccak (nonce_preimage (replicate 20 1) [5, 0, 0, 0]))) \<and>
   nonce_preimage (replicate 20 1) [5, 0, 0, 0] \<noteq> nonce_preimage (replicate 20 1) [6, 0, 0, 0] \<and>
   nonce_preimage (replicate 20 1) [5, 0, 0, 0] \<noteq> replicate 20 1 @ replicate 32 0"
  using contract_addresses [OF sample.keccak_contract_axioms std_be.big_endian_words_axioms, of "replicate 20 1" "[5, 0, 0, 0]"
      "replicate 20 1" "[6, 0, 0, 0]" "replicate 32 0" "replicate 32 0" "replicate 32 0" "replicate 32 0"]
  by simp

text \<open>
  The bound on the nonce is needed: every preimage of a nonce of 29 bytes is also the preimage of a sender and a code hash, namely its first
  twenty and its last 32 bytes.
\<close>

theorem nonce_meets_code:
  assumes "length sender = 20" "length nonce = 4" "2 ^ 224 \<le> lval nonce" "lval nonce < 2 ^ 232"
  shows "\<exists>sender' code_hash'. length sender' = 20 \<and> length code_hash' = 32 \<and> nonce_preimage sender nonce = sender' @ code_hash'"
proof -
  have "\<not> length (nat_be (lval nonce)) \<le> 28" "length (nat_be (lval nonce)) \<le> 29" using assms(3,4) by (simp_all only: length_nat_be_le) simp_all
  then have l: "length (nat_be (lval nonce)) = 29" by linarith
  then have "nat_be (lval nonce) \<noteq> [b]" for b by auto
  then have "length (enc (uint_item nonce)) = 30" using l by (auto simp: uint_item_def header_def)
  then have "length (nonce_preimage sender nonce) = 52"
    using nonce_preimage_parts [OF assms(1,2)] assms(1) by (auto simp del: enc.simps)
  then show ?thesis
    by (intro exI [of _ "take 20 (nonce_preimage sender nonce)"] exI [of _ "drop 20 (nonce_preimage sender nonce)"]) simp
qed

end
