(* ===== verification/Mem_Size.thy ===== *)
theory Mem_Size
  imports Prelude
begin

text \<open>
  The measurement of heap memory: \<^verbatim>\<open>parity-util-mem/src/malloc_size.rs\<close> with the choice of the allocator
  (\<^verbatim>\<open>allocators.rs\<close>, \<^verbatim>\<open>lib.rs\<close>), the estimates that replace it (\<^verbatim>\<open>sizeof.rs\<close>) and the derived
  implementations (\<^verbatim>\<open>derive/lib.rs\<close>).

  An implementation of the trait \<^verbatim>\<open>MallocSizeOf\<close> is a value of the record \<open>malloc_size_of\<close>, and a generic
  implementation is a function from the implementations for its arguments.  A value that owns memory carries the address of
  that memory, because the allocator is asked about addresses.  \<^verbatim>\<open>mem::size_of::<T>()\<close> is an argument.
  Sizes are numbers and every addition and multiplication panics when the result is no \<^verbatim>\<open>usize\<close>.
\<close>

subsection \<open>The operations of the allocator\<close>

record 's size_ops =
  size_of_op :: "nat \<Rightarrow> u64 may_panic"
  enclosing_size_of_op :: "(nat \<Rightarrow> u64 may_panic) option"
  have_seen_ptr_op :: "(nat \<Rightarrow> 's \<Rightarrow> bool \<times> 's) option"
  seen :: 's

text \<open>\<open>seen\<close> is what the closure \<^verbatim>\<open>have_seen_ptr_op\<close> has captured.\<close>

type_synonym 's measurement = "'s size_ops \<Rightarrow> (nat \<times> 's size_ops) may_panic"

definition ops_new ::
  "(nat \<Rightarrow> u64 may_panic) \<Rightarrow> (nat \<Rightarrow> u64 may_panic) option \<Rightarrow> (nat \<Rightarrow> 's \<Rightarrow> bool \<times> 's) option \<Rightarrow> 's \<Rightarrow> 's size_ops" where
  "ops_new size_op malloc_enclosing have_seen s =
     \<lparr> size_of_op = size_op, enclosing_size_of_op = malloc_enclosing, have_seen_ptr_op = have_seen, seen = s \<rparr>"

definition ptr_is_empty :: "nat \<Rightarrow> bool" where
  "ptr_is_empty ptr \<longleftrightarrow> ptr \<le> 256"

definition ops_malloc_size_of :: "nat \<Rightarrow> 's measurement" where
  "ops_malloc_size_of ptr ops =
     (if ptr_is_empty ptr then Some (0, ops) else do { n \<leftarrow> size_of_op ops ptr; Some (unat n, ops) })"

definition has_malloc_enclosing_size_of :: "'s size_ops \<Rightarrow> bool" where
  "has_malloc_enclosing_size_of ops \<longleftrightarrow> enclosing_size_of_op ops \<noteq> None"

definition malloc_enclosing_size_of :: "nat \<Rightarrow> 's measurement" where
  "malloc_enclosing_size_of ptr ops =
     do { rust_assert (\<not> ptr_is_empty ptr); f \<leftarrow> enclosing_size_of_op ops; n \<leftarrow> f ptr; Some (unat n, ops) }"

definition have_seen_ptr :: "nat \<Rightarrow> 's size_ops \<Rightarrow> (bool \<times> 's size_ops) may_panic" where
  "have_seen_ptr ptr ops =
     do { f \<leftarrow> have_seen_ptr_op ops; let (b, s) = f ptr (seen ops); Some (b, ops\<lparr> seen := s \<rparr>) }"

subsection \<open>The trait and the wrappers\<close>

record ('s, 'a) malloc_size_of =
  size_of :: "'a \<Rightarrow> 's measurement"
  constant_size :: "nat option may_panic"

definition default_constant_size :: "nat option may_panic" where
  "default_constant_size = Some None"

definition malloc_size_of_is_0 :: "('s, 'a) malloc_size_of" where
  "malloc_size_of_is_0 = \<lparr> size_of = \<lambda>_ ops. Some (0, ops), constant_size = Some (Some 0) \<rparr>"

definition ref_impl :: "('s, nat) malloc_size_of" where
  "ref_impl = \<lparr> size_of = \<lambda>_ ops. Some (0, ops), constant_size = Some (Some 0) \<rparr>"

text \<open>An owned value on the heap: \<^verbatim>\<open>Box\<close> and \<^verbatim>\<open>Arc\<close>.\<close>

record 'a pointer =
  address :: nat
  pointee :: 'a

text \<open>The functions of \<^verbatim>\<open>inner_allocator_use\<close> and those of \<^verbatim>\<open>sizeof.rs\<close> that stand in for them.\<close>

definition box_shallow :: "'a pointer \<Rightarrow> 's measurement" where
  "box_shallow self ops = ops_malloc_size_of (address self) ops"

definition box_estimate :: "('a \<Rightarrow> nat) \<Rightarrow> 'a pointer \<Rightarrow> 's measurement" where
  "box_estimate size_of_val self ops = Some (size_of_val (pointee self), ops)"

definition box_impl :: "('a pointer \<Rightarrow> 's measurement) \<Rightarrow> ('s, 'a) malloc_size_of \<Rightarrow> ('s, 'a pointer) malloc_size_of" where
  "box_impl shallow T =
     \<lparr> size_of = \<lambda>self ops. do {
         (n, ops) \<leftarrow> shallow self ops;
         (k, ops) \<leftarrow> size_of T (pointee self) ops;
         n \<leftarrow> usize_add n k;
         Some (n, ops) },
       constant_size = default_constant_size \<rparr>"

text \<open>A tuple, given by the measurements of its components.\<close>

fun tuple_sum :: "nat \<Rightarrow> 's measurement list \<Rightarrow> 's measurement" where
  "tuple_sum result [] ops = Some (result, ops)"
| "tuple_sum result (c # cs) ops =
     do { (k, ops) \<leftarrow> c ops; result \<leftarrow> usize_add result k; tuple_sum result cs ops }"

definition tuple_size_of :: "'s measurement list \<Rightarrow> 's measurement" where
  "tuple_size_of cs = tuple_sum 0 cs"

fun tuple_constants :: "nat option \<Rightarrow> nat option may_panic list \<Rightarrow> nat option may_panic" where
  "tuple_constants result [] = Some result"
| "tuple_constants result (c # cs) =
     do {
       result \<leftarrow> (case result of
          None \<Rightarrow> Some None
        | Some s \<Rightarrow> do { t \<leftarrow> c; case t of None \<Rightarrow> Some None | Some t \<Rightarrow> map_option Some (usize_add s t) });
       tuple_constants result cs }"

definition tuple_constant_size :: "nat option may_panic list \<Rightarrow> nat option may_panic" where
  "tuple_constant_size cs = tuple_constants (Some 0) cs"

definition pair_impl :: "('s, 'a) malloc_size_of \<Rightarrow> ('s, 'b) malloc_size_of \<Rightarrow> ('s, 'a \<times> 'b) malloc_size_of" where
  "pair_impl S T =
     \<lparr> size_of = \<lambda>(a, b). tuple_size_of [size_of S a, size_of T b],
       constant_size = tuple_constant_size [constant_size S, constant_size T] \<rparr>"

definition option_impl :: "('s, 'a) malloc_size_of \<Rightarrow> ('s, 'a option) malloc_size_of" where
  "option_impl T =
     \<lparr> size_of = \<lambda>self ops. (case self of Some val \<Rightarrow> size_of T val ops | None \<Rightarrow> Some (0, ops)),
       constant_size = do { c \<leftarrow> constant_size T; Some (case c of Some s \<Rightarrow> if s = 0 then Some s else None | None \<Rightarrow> None) } \<rparr>"

definition result_impl :: "('s, 'a) malloc_size_of \<Rightarrow> ('s, 'e) malloc_size_of \<Rightarrow> ('s, 'e + 'a) malloc_size_of" where
  "result_impl T E =
     \<lparr> size_of = \<lambda>self ops. (case self of Inr x \<Rightarrow> size_of T x ops | Inl e \<Rightarrow> size_of E e ops),
       constant_size = do {
         c \<leftarrow> constant_size T;
         case c of
           None \<Rightarrow> Some None
         | Some t \<Rightarrow> do { d \<leftarrow> constant_size E; Some (case d of Some e \<Rightarrow> if e = t then Some e else None | None \<Rightarrow> None) } } \<rparr>"

definition cell_impl :: "('s, 'a) malloc_size_of \<Rightarrow> ('s, 'a) malloc_size_of" where
  "cell_impl T = \<lparr> size_of = \<lambda>self ops. size_of T self ops, constant_size = constant_size T \<rparr>"

definition reverse_impl :: "('s, 'a) malloc_size_of \<Rightarrow> ('s, 'a) malloc_size_of" where
  "reverse_impl I = \<lparr> size_of = \<lambda>self ops. size_of I self ops, constant_size = constant_size I \<rparr>"

text \<open>\<^verbatim>\<open>borrow\<close> panics while the cell is mutably borrowed, \<^verbatim>\<open>lock\<close> and \<^verbatim>\<open>read\<close> of the standard library are
  errors once the lock is poisoned.\<close>

record 'a guarded =
  unavailable :: bool
  inner :: 'a

definition refcell_impl :: "('s, 'a) malloc_size_of \<Rightarrow> ('s, 'a guarded) malloc_size_of" where
  "refcell_impl T =
     \<lparr> size_of = \<lambda>self ops. do { rust_assert (\<not> unavailable self); size_of T (inner self) ops },
       constant_size = constant_size T \<rparr>"

definition mutex_impl :: "('s, 'a) malloc_size_of \<Rightarrow> ('s, 'a guarded) malloc_size_of" where
  "mutex_impl T =
     \<lparr> size_of = \<lambda>self ops. do { rust_assert (\<not> unavailable self); size_of T (inner self) ops },
       constant_size = default_constant_size \<rparr>"

definition rwlock_impl :: "('s, 'a) malloc_size_of \<Rightarrow> ('s, 'a guarded) malloc_size_of" where
  "rwlock_impl T =
     \<lparr> size_of = \<lambda>self ops. do { rust_assert (\<not> unavailable self); size_of T (inner self) ops },
       constant_size = default_constant_size \<rparr>"

definition parking_lot_mutex_impl :: "('s, 'a) malloc_size_of \<Rightarrow> ('s, 'a) malloc_size_of" where
  "parking_lot_mutex_impl T = \<lparr> size_of = \<lambda>self ops. size_of T self ops, constant_size = default_constant_size \<rparr>"

definition parking_lot_rwlock_impl :: "('s, 'a) malloc_size_of \<Rightarrow> ('s, 'a) malloc_size_of" where
  "parking_lot_rwlock_impl T = \<lparr> size_of = \<lambda>self ops. size_of T self ops, constant_size = default_constant_size \<rparr>"

datatype 'b cow = Borrowed nat | Owned 'b

definition cow_impl :: "('s, 'b) malloc_size_of \<Rightarrow> ('s, 'b cow) malloc_size_of" where
  "cow_impl T =
     \<lparr> size_of = \<lambda>self ops. (case self of Borrowed _ \<Rightarrow> Some (0, ops) | Owned b \<Rightarrow> size_of T b ops),
       constant_size = default_constant_size \<rparr>"

subsection \<open>The collections\<close>

text \<open>
  A collection with the address of its buffer, its capacity, and its elements in the order of its iterator, each with its
  address; in a map this is the address of the value.
\<close>

record 'a collection =
  buffer :: nat
  capacity :: nat
  elements :: "(nat \<times> 'a) list"

abbreviation values_of :: "'a collection \<Rightarrow> 'a list" where
  "values_of c \<equiv> map snd (elements c)"

fun fold_sizes :: "('a \<Rightarrow> 's measurement) \<Rightarrow> nat \<Rightarrow> 'a list \<Rightarrow> 's measurement" where
  "fold_sizes f acc [] ops = Some (acc, ops)"
| "fold_sizes f acc (elem # elems) ops =
     do { (k, ops) \<leftarrow> f elem ops; acc \<leftarrow> usize_add acc k; fold_sizes f acc elems ops }"

definition add_elements :: "('s, 'a) malloc_size_of \<Rightarrow> nat \<Rightarrow> 'a list \<Rightarrow> 's measurement" where
  "add_elements T n xs ops =
     do {
       c \<leftarrow> constant_size T;
       case c of
         Some t \<Rightarrow> do { m \<leftarrow> usize_mul (length xs) t; n \<leftarrow> usize_add n m; Some (n, ops) }
       | None \<Rightarrow> fold_sizes (size_of T) n xs ops }"

fun fold_pair_sizes :: "('k \<Rightarrow> 's measurement) \<Rightarrow> ('v \<Rightarrow> 's measurement) \<Rightarrow> nat \<Rightarrow> ('k \<times> 'v) list \<Rightarrow> 's measurement" where
  "fold_pair_sizes f g acc [] ops = Some (acc, ops)"
| "fold_pair_sizes f g acc ((k, v) # elems) ops =
     do {
       (i, ops) \<leftarrow> f k ops;
       acc \<leftarrow> usize_add acc i;
       (j, ops) \<leftarrow> g v ops;
       acc \<leftarrow> usize_add acc j;
       fold_pair_sizes f g acc elems ops }"

definition add_entries :: "('s, 'k) malloc_size_of \<Rightarrow> ('s, 'v) malloc_size_of \<Rightarrow> nat \<Rightarrow> ('k \<times> 'v) list \<Rightarrow> 's measurement" where
  "add_entries K V n xs ops =
     do {
       c \<leftarrow> constant_size K;
       d \<leftarrow> constant_size V;
       case (c, d) of
         (Some k, Some v) \<Rightarrow> do { t \<leftarrow> usize_add k v; m \<leftarrow> usize_mul (length xs) t; n \<leftarrow> usize_add n m; Some (n, ops) }
       | _ \<Rightarrow> fold_pair_sizes (size_of K) (size_of V) n xs ops }"

definition slice_size_of :: "('s, 'a) malloc_size_of \<Rightarrow> 'a list \<Rightarrow> 's measurement" where
  "slice_size_of T xs ops = add_elements T 0 xs ops"

definition vec_shallow :: "'a collection \<Rightarrow> 's measurement" where
  "vec_shallow self ops = ops_malloc_size_of (buffer self) ops"

definition vec_estimate :: "nat \<Rightarrow> 'a collection \<Rightarrow> 's measurement" where
  "vec_estimate size_of_T self ops = do { n \<leftarrow> usize_mul (capacity self) size_of_T; Some (n, ops) }"

definition string_impl :: "('s, u8 collection) malloc_size_of" where
  "string_impl = \<lparr> size_of = \<lambda>self ops. ops_malloc_size_of (buffer self) ops, constant_size = default_constant_size \<rparr>"

definition string_estimate_impl :: "('s, u8 collection) malloc_size_of" where
  "string_estimate_impl =
     \<lparr> size_of = \<lambda>self ops. do { n \<leftarrow> usize_mul (capacity self) 1; Some (n, ops) }, constant_size = default_constant_size \<rparr>"

definition vec_impl :: "('a collection \<Rightarrow> 's measurement) \<Rightarrow> ('s, 'a) malloc_size_of \<Rightarrow> ('s, 'a collection) malloc_size_of" where
  "vec_impl shallow T =
     \<lparr> size_of = \<lambda>self ops. do { (n, ops) \<leftarrow> shallow self ops; add_elements T n (values_of self) ops },
       constant_size = default_constant_size \<rparr>"

text \<open>The size of the block around the first element, which the other collections use.\<close>

definition enclosing_first :: "'a collection \<Rightarrow> 's measurement" where
  "enclosing_first self ops =
     (case elements self of (p, _) # _ \<Rightarrow> malloc_enclosing_size_of p ops | [] \<Rightarrow> Some (0, ops))"

definition deque_shallow :: "nat \<Rightarrow> 'a collection \<Rightarrow> 's measurement" where
  "deque_shallow size_of_T self ops =
     (if has_malloc_enclosing_size_of ops then enclosing_first self ops
      else do { n \<leftarrow> usize_mul (capacity self) size_of_T; Some (n, ops) })"

definition deque_impl :: "nat \<Rightarrow> ('s, 'a) malloc_size_of \<Rightarrow> ('s, 'a collection) malloc_size_of" where
  "deque_impl size_of_T T =
     \<lparr> size_of = \<lambda>self ops. do { (n, ops) \<leftarrow> deque_shallow size_of_T self ops; add_elements T n (values_of self) ops },
       constant_size = default_constant_size \<rparr>"

text \<open>\<^verbatim>\<open>mem::size_of::<usize>()\<close> is 8.\<close>

definition hash_set_shallow :: "nat \<Rightarrow> 'a collection \<Rightarrow> 's measurement" where
  "hash_set_shallow size_of_T self ops =
     (if has_malloc_enclosing_size_of ops then enclosing_first self ops
      else do { e \<leftarrow> usize_add size_of_T 8; n \<leftarrow> usize_mul (capacity self) e; Some (n, ops) })"

definition hash_set_impl :: "nat \<Rightarrow> ('s, 'a) malloc_size_of \<Rightarrow> ('s, 'a collection) malloc_size_of" where
  "hash_set_impl size_of_T T =
     \<lparr> size_of = \<lambda>self ops. do { (n, ops) \<leftarrow> hash_set_shallow size_of_T self ops; add_elements T n (values_of self) ops },
       constant_size = default_constant_size \<rparr>"

definition hash_map_shallow :: "nat \<Rightarrow> nat \<Rightarrow> ('k \<times> 'v) collection \<Rightarrow> 's measurement" where
  "hash_map_shallow size_of_K size_of_V self ops =
     (if has_malloc_enclosing_size_of ops then enclosing_first self ops
      else do {
        e \<leftarrow> usize_add size_of_V size_of_K; e \<leftarrow> usize_add e 8;
        n \<leftarrow> usize_mul (capacity self) e; Some (n, ops) })"

definition hash_map_impl ::
  "nat \<Rightarrow> nat \<Rightarrow> ('s, 'k) malloc_size_of \<Rightarrow> ('s, 'v) malloc_size_of \<Rightarrow> ('s, ('k \<times> 'v) collection) malloc_size_of" where
  "hash_map_impl size_of_K size_of_V K V =
     \<lparr> size_of = \<lambda>self ops. do { (n, ops) \<leftarrow> hash_map_shallow size_of_K size_of_V self ops; add_entries K V n (values_of self) ops },
       constant_size = default_constant_size \<rparr>"

definition btree_map_shallow :: "nat \<Rightarrow> nat \<Rightarrow> ('k \<times> 'v) collection \<Rightarrow> 's measurement" where
  "btree_map_shallow size_of_K size_of_V self ops =
     (if has_malloc_enclosing_size_of ops then enclosing_first self ops
      else do {
        e \<leftarrow> usize_add size_of_V size_of_K; e \<leftarrow> usize_add e 8;
        n \<leftarrow> usize_mul (length (elements self)) e; Some (n, ops) })"

definition btree_map_impl ::
  "nat \<Rightarrow> nat \<Rightarrow> ('s, 'k) malloc_size_of \<Rightarrow> ('s, 'v) malloc_size_of \<Rightarrow> ('s, ('k \<times> 'v) collection) malloc_size_of" where
  "btree_map_impl size_of_K size_of_V K V =
     \<lparr> size_of = \<lambda>self ops. do { (n, ops) \<leftarrow> btree_map_shallow size_of_K size_of_V self ops; add_entries K V n (values_of self) ops },
       constant_size = default_constant_size \<rparr>"

definition btree_set_shallow :: "nat \<Rightarrow> 'a collection \<Rightarrow> 's measurement" where
  "btree_set_shallow size_of_T self ops =
     (if has_malloc_enclosing_size_of ops then enclosing_first self ops
      else do { e \<leftarrow> usize_add size_of_T 8; n \<leftarrow> usize_mul (length (elements self)) e; Some (n, ops) })"

definition btree_set_impl :: "nat \<Rightarrow> ('s, 'a) malloc_size_of \<Rightarrow> ('s, 'a collection) malloc_size_of" where
  "btree_set_impl size_of_T T =
     \<lparr> size_of = \<lambda>self ops. do { (n, ops) \<leftarrow> btree_set_shallow size_of_T self ops; add_elements T n (values_of self) ops },
       constant_size = default_constant_size \<rparr>"

definition hashbrown_shallow :: "nat \<Rightarrow> nat \<Rightarrow> ('k \<times> 'v) collection \<Rightarrow> 's measurement" where
  "hashbrown_shallow size_of_K size_of_V self ops =
     (if has_malloc_enclosing_size_of ops then enclosing_first self ops
      else do {
        e \<leftarrow> usize_add size_of_V size_of_K; e \<leftarrow> usize_add e 8;
        n \<leftarrow> usize_mul (capacity self) e; Some (n, ops) })"

definition hashbrown_impl ::
  "nat \<Rightarrow> nat \<Rightarrow> ('s, 'k) malloc_size_of \<Rightarrow> ('s, 'v) malloc_size_of \<Rightarrow> ('s, ('k \<times> 'v) collection) malloc_size_of" where
  "hashbrown_impl size_of_K size_of_V K V =
     \<lparr> size_of = \<lambda>self ops. do { (n, ops) \<leftarrow> hashbrown_shallow size_of_K size_of_V self ops; add_entries K V n (values_of self) ops },
       constant_size = default_constant_size \<rparr>"

definition lru_impl :: "('s, 'k) malloc_size_of \<Rightarrow> ('s, 'v) malloc_size_of \<Rightarrow> ('s, ('k \<times> 'v) collection) malloc_size_of" where
  "lru_impl K V =
     \<lparr> size_of = \<lambda>self ops. add_entries K V 0 (values_of self) ops, constant_size = default_constant_size \<rparr>"

text \<open>A small vector is spilled when its capacity is above the length of its inline array.\<close>

definition spilled :: "nat \<Rightarrow> 'a collection \<Rightarrow> bool" where
  "spilled inline_len self \<longleftrightarrow> capacity self > inline_len"

definition smallvec_impl :: "nat \<Rightarrow> nat \<Rightarrow> ('s, 'a) malloc_size_of \<Rightarrow> ('s, 'a collection) malloc_size_of" where
  "smallvec_impl inline_len size_of_T T =
     \<lparr> size_of = \<lambda>self ops. do {
         n \<leftarrow> (if spilled inline_len self then usize_mul (capacity self) size_of_T else Some 0);
         add_elements T n (values_of self) ops },
       constant_size = default_constant_size \<rparr>"

subsection \<open>Shared values\<close>

text \<open>The shallow size of an \<^verbatim>\<open>Arc\<close>: with jemalloc, and otherwise.\<close>

definition arc_shallow_jemalloc :: "'a pointer \<Rightarrow> 's measurement" where
  "arc_shallow_jemalloc self ops = ops_malloc_size_of (address self) ops"

definition arc_shallow :: "nat \<Rightarrow> 'a pointer \<Rightarrow> 's measurement" where
  "arc_shallow size_of_T self ops = Some (size_of_T, ops)"

definition arc_estimate :: "nat \<Rightarrow> 'a pointer \<Rightarrow> 's measurement" where
  "arc_estimate size_of_T self ops = Some (size_of_T, ops)"

definition arc_ptr :: "'a pointer \<Rightarrow> nat" where
  "arc_ptr s = address s"

definition unconditional_size_of :: "('a pointer \<Rightarrow> 's measurement) \<Rightarrow> ('s, 'a) malloc_size_of \<Rightarrow> 'a pointer \<Rightarrow> 's measurement" where
  "unconditional_size_of shallow T self ops =
     do { (n, ops) \<leftarrow> shallow self ops; (k, ops) \<leftarrow> size_of T (pointee self) ops; n \<leftarrow> usize_add n k; Some (n, ops) }"

definition conditional_shallow_size_of :: "('a pointer \<Rightarrow> 's measurement) \<Rightarrow> 'a pointer \<Rightarrow> 's measurement" where
  "conditional_shallow_size_of shallow self ops =
     do { (b, ops) \<leftarrow> have_seen_ptr (arc_ptr self) ops; if b then Some (0, ops) else shallow self ops }"

definition conditional_size_of :: "('a pointer \<Rightarrow> 's measurement) \<Rightarrow> ('s, 'a) malloc_size_of \<Rightarrow> 'a pointer \<Rightarrow> 's measurement" where
  "conditional_size_of shallow T self ops =
     do { (b, ops) \<leftarrow> have_seen_ptr (arc_ptr self) ops; if b then Some (0, ops) else unconditional_size_of shallow T self ops }"

definition arc_impl :: "('a pointer \<Rightarrow> 's measurement) \<Rightarrow> ('s, 'a) malloc_size_of \<Rightarrow> ('s, 'a pointer) malloc_size_of" where
  "arc_impl shallow T = \<lparr> size_of = unconditional_size_of shallow T, constant_size = default_constant_size \<rparr>"

subsection \<open>The allocator and the entry points\<close>

definition new_enclosing_size_fn :: "(nat \<Rightarrow> u64 may_panic) option" where
  "new_enclosing_size_fn = None"

definition new_malloc_size_ops :: "(nat \<Rightarrow> u64 may_panic) \<Rightarrow> unit size_ops" where
  "new_malloc_size_ops malloc_usable_size = ops_new malloc_usable_size new_enclosing_size_fn None ()"

definition malloc_size :: "(nat \<Rightarrow> u64 may_panic) \<Rightarrow> (unit, 'a) malloc_size_of \<Rightarrow> 'a \<Rightarrow> nat may_panic" where
  "malloc_size malloc_usable_size T t = map_option fst (size_of T t (new_malloc_size_ops malloc_usable_size))"

definition ext_malloc_size_of :: "(nat \<Rightarrow> u64 may_panic) \<Rightarrow> (unit, 'a) malloc_size_of \<Rightarrow> 'a \<Rightarrow> nat may_panic" where
  "ext_malloc_size_of malloc_usable_size T self =
     do { let ops = new_malloc_size_ops malloc_usable_size; (n, _) \<leftarrow> size_of T self ops; Some n }"

text \<open>The function of the builds without an allocator to ask.\<close>

definition malloc_usable_size_estimate :: "nat \<Rightarrow> u64 may_panic" where
  "malloc_usable_size_estimate ptr = panic"

subsection \<open>Derived implementations\<close>

text \<open>The attributes of a field as \<^verbatim>\<open>syn\<close> parses them; \<^term>\<open>None\<close> is an attribute that is not parsed.\<close>

datatype meta = Path string | List string | NameValue string

text \<open>A field: its attributes and the measurement of the field, or for an array those of its items.\<close>

datatype 's field_value = Array "'s measurement list" | Plain "'s measurement"

record 's struct_field =
  attrs :: "meta option list"
  field_value :: "'s field_value"

definition ignore_ident :: string where
  "ignore_ident = ''ignore_malloc_size_of''"

fun field_ignored :: "meta option list \<Rightarrow> bool may_panic" where
  "field_ignored [] = Some False"
| "field_ignored (attr # rest) =
     do {
       meta \<leftarrow> attr;
       case meta of
         NameValue path \<Rightarrow> if path = ignore_ident then Some True else field_ignored rest
       | Path path \<Rightarrow> if path = ignore_ident then panic else field_ignored rest
       | List path \<Rightarrow> if path = ignore_ident then panic else field_ignored rest }"

text \<open>The code that is generated for a field, as the measurements it adds to the sum.\<close>

definition derive_field :: "'s struct_field \<Rightarrow> 's measurement list option may_panic" where
  "derive_field binding =
     do {
       ignore \<leftarrow> field_ignored (attrs binding);
       Some (if ignore then None
             else case field_value binding of
               Array cs \<Rightarrow> Some cs
             | Plain c \<Rightarrow> Some [c]) }"

fun derive_fields :: "'s struct_field list \<Rightarrow> 's measurement list may_panic" where
  "derive_fields [] = Some []"
| "derive_fields (f # fs) =
     do {
       code \<leftarrow> derive_field f;
       rest \<leftarrow> derive_fields fs;
       Some ((case code of None \<Rightarrow> [] | Some cs \<Rightarrow> cs) @ rest) }"

text \<open>The outer \<^verbatim>\<open>may_panic\<close> is that of the compilation, the inner one that of the generated function, for a value
  of the variant with these fields.\<close>

definition malloc_size_of_derive :: "'s struct_field list \<Rightarrow> 's measurement may_panic" where
  "malloc_size_of_derive fs = do { match_body \<leftarrow> derive_fields fs; Some (\<lambda>ops. tuple_sum 0 match_body ops) }"

subsection \<open>What a measurement should return\<close>

text \<open>
  The reference: a weight gives every value the exact number of bytes, a number without bound, as a function of what the
  allocator answers.  A measurement is right when it returns the weight, leaves the remembered pointers alone, and panics when the
  weight is no \<^verbatim>\<open>usize\<close>.  This is asked for the values that can be measured: a poisoned lock cannot.
\<close>

type_synonym alloc = "(nat \<Rightarrow> u64 may_panic) \<times> (nat \<Rightarrow> u64 may_panic) option"

definition alloc_of :: "'s size_ops \<Rightarrow> alloc" where
  "alloc_of ops = (size_of_op ops, enclosing_size_of_op ops)"

definition bounded :: "nat \<Rightarrow> 's measurement" where
  "bounded n ops = (if n < B then Some (n, ops) else None)"

definition measures :: "('a \<Rightarrow> 's measurement) \<Rightarrow> (alloc \<Rightarrow> 'a \<Rightarrow> bool) \<Rightarrow> (alloc \<Rightarrow> 'a \<Rightarrow> nat) \<Rightarrow> bool" where
  "measures f ok w \<longleftrightarrow> (\<forall>v ops. ok (alloc_of ops) v \<longrightarrow> f v ops = bounded (w (alloc_of ops) v) ops)"

locale measured =
  fixes T :: "('s, 'a) malloc_size_of" and ok :: "alloc \<Rightarrow> 'a \<Rightarrow> bool" and w :: "alloc \<Rightarrow> 'a \<Rightarrow> nat"
  assumes measures: "measures (size_of T) ok w"
    and const_size: "\<exists>c. constant_size T = Some c \<and> (\<forall>k a v. c = Some k \<longrightarrow> ok a v \<longrightarrow> w a v = k)"
    and const_usize: "constant_size T = Some (Some k) \<Longrightarrow> k < B"
begin

lemma size_of_eq: "ok (alloc_of ops) v \<Longrightarrow> size_of T v ops = bounded (w (alloc_of ops) v) ops"
  using measures by (simp add: measures_def)

lemma constant_cases:
  obtains (fixed) k where "constant_size T = Some (Some k)" "k < B" "\<And>a v. ok a v \<Longrightarrow> w a v = k"
  | (varies) "constant_size T = Some None"
  using const_size const_usize by (metis option.exhaust)

lemma fold_sizes_eq:
  "\<forall>x\<in>set xs. ok (alloc_of ops) x \<Longrightarrow> n < B \<Longrightarrow>
   fold_sizes (size_of T) n xs ops = bounded (n + sum_list (map (w (alloc_of ops)) xs)) ops"
proof (induction xs arbitrary: n)
  case (Cons x xs)
  then show ?case
    by (auto simp: size_of_eq bounded_def usize_add_def add.assoc)
qed (simp add: bounded_def)

text \<open>The shortcut for constant sizes is the sum over the elements.\<close>

lemma add_elements_eq:
  assumes "\<forall>x\<in>set xs. ok (alloc_of ops) x" "n < B"
  shows "add_elements T n xs ops = bounded (n + sum_list (map (w (alloc_of ops)) xs)) ops"
proof (cases rule: constant_cases)
  case (fixed k)
  then have "map (w (alloc_of ops)) xs = map (\<lambda>_. k) xs" using assms by simp
  then have "sum_list (map (w (alloc_of ops)) xs) = length xs * k" by (simp add: map_replicate_const sum_list_replicate)
  then show ?thesis using fixed by (auto simp: add_elements_def bounded_def usize_mul_def usize_add_def)
qed (use assms in \<open>simp add: add_elements_def fold_sizes_eq\<close>)

end

lemma add_entries_eq:
  assumes K: "measured K okk wk" and V: "measured V okv wv"
    and "\<forall>(k, v)\<in>set xs. okk (alloc_of ops) k \<and> okv (alloc_of ops) v" "n < B"
    and small: "\<And>i j. constant_size K = Some (Some i) \<Longrightarrow> constant_size V = Some (Some j) \<Longrightarrow> i + j < B"
  shows "add_entries K V n xs ops = bounded (n + sum_list (map (\<lambda>(k, v). wk (alloc_of ops) k + wv (alloc_of ops) v) xs)) ops"
proof -
  have fold: "fold_pair_sizes (size_of K) (size_of V) n xs ops =
      bounded (n + sum_list (map (\<lambda>(k, v). wk (alloc_of ops) k + wv (alloc_of ops) v) xs)) ops"
    using assms(3,4)
  proof (induction xs arbitrary: n)
    case (Cons x xs)
    then show ?case
      by (cases x) (auto simp: measured.size_of_eq [OF K] measured.size_of_eq [OF V] bounded_def usize_add_def add.assoc)
  qed (simp add: bounded_def)
  show ?thesis
  proof (cases rule: measured.constant_cases [OF K])
    case k: (1 i)
    show ?thesis
    proof (cases rule: measured.constant_cases [OF V])
      case v: (1 j)
      have "map (\<lambda>(k, v). wk (alloc_of ops) k + wv (alloc_of ops) v) xs = map (\<lambda>_. i + j) xs"
        by (intro map_cong refl) (use assms(3) k(3) [of "alloc_of ops"] v(3) [of "alloc_of ops"] in auto)
      then have "sum_list (map (\<lambda>(k, v). wk (alloc_of ops) k + wv (alloc_of ops) v) xs) = length xs * (i + j)"
        by (simp only: map_replicate_const sum_list_replicate of_nat_id)
      then show ?thesis
        using k v small [of i j] by (auto simp: add_entries_def bounded_def usize_mul_def usize_add_def)
    qed (use k fold in \<open>simp add: add_entries_def\<close>)
  next
    case k: 2
    then show ?thesis using fold by (cases rule: measured.constant_cases [OF V]) (simp_all add: add_entries_def)
  qed
qed

subsection \<open>The implementations keep the contract\<close>

text \<open>The size of the block at an address, and the size of the block around the first element or else an estimate.\<close>

definition block_ok :: "alloc \<Rightarrow> nat \<Rightarrow> bool" where
  "block_ok a p \<longleftrightarrow> p \<le> 256 \<or> fst a p \<noteq> None"

definition block_size :: "alloc \<Rightarrow> nat \<Rightarrow> nat" where
  "block_size a p = (if p \<le> 256 then 0 else unat (the (fst a p)))"

definition interior_ok :: "alloc \<Rightarrow> 'a collection \<Rightarrow> bool" where
  "interior_ok a c \<longleftrightarrow>
     (case snd a of None \<Rightarrow> True | Some f \<Rightarrow> (case elements c of [] \<Rightarrow> True | (p, _) # _ \<Rightarrow> 256 < p \<and> f p \<noteq> None))"

definition interior_size :: "('a collection \<Rightarrow> nat) \<Rightarrow> alloc \<Rightarrow> 'a collection \<Rightarrow> nat" where
  "interior_size estimate a c =
     (case snd a of None \<Rightarrow> estimate c | Some f \<Rightarrow> (case elements c of [] \<Rightarrow> 0 | (p, _) # _ \<Rightarrow> unat (the (f p))))"

definition all_ok :: "(alloc \<Rightarrow> 'a \<Rightarrow> bool) \<Rightarrow> alloc \<Rightarrow> 'a collection \<Rightarrow> bool" where
  "all_ok ok a c \<longleftrightarrow> (\<forall>x\<in>set (values_of c). ok a x)"

definition sum_of :: "(alloc \<Rightarrow> 'a \<Rightarrow> nat) \<Rightarrow> alloc \<Rightarrow> 'a collection \<Rightarrow> nat" where
  "sum_of w a c = sum_list (map (w a) (values_of c))"

definition entry_ok :: "(alloc \<Rightarrow> 'k \<Rightarrow> bool) \<Rightarrow> (alloc \<Rightarrow> 'v \<Rightarrow> bool) \<Rightarrow> alloc \<Rightarrow> 'k \<times> 'v \<Rightarrow> bool" where
  "entry_ok okk okv a = (\<lambda>(k, v). okk a k \<and> okv a v)"

definition entry_size :: "(alloc \<Rightarrow> 'k \<Rightarrow> nat) \<Rightarrow> (alloc \<Rightarrow> 'v \<Rightarrow> nat) \<Rightarrow> alloc \<Rightarrow> 'k \<times> 'v \<Rightarrow> nat" where
  "entry_size wk wv a = (\<lambda>(k, v). wk a k + wv a v)"

lemma unat_lt_B [simp]: "unat (n :: u64) < B"
  using unat_lt_radix [of n] by (simp add: radix_def B_eq)

lemma block_measures: "block_ok (alloc_of ops) p \<Longrightarrow> ops_malloc_size_of p ops = bounded (block_size (alloc_of ops) p) ops"
  by (auto simp: block_ok_def block_size_def alloc_of_def ops_malloc_size_of_def ptr_is_empty_def bounded_def)

lemma interior_measures:
  assumes "\<And>c ops. estimated c ops = bounded (estimate c) ops"
  shows "measures (\<lambda>c ops. if has_malloc_enclosing_size_of ops then enclosing_first c ops else estimated c ops)
    interior_ok (interior_size estimate)"
  using assms
  by (auto simp: measures_def interior_ok_def interior_size_def has_malloc_enclosing_size_of_def enclosing_first_def alloc_of_def
      bounded_def malloc_enclosing_size_of_def ptr_is_empty_def split: list.splits option.splits)

lemma shallow_measures:
  "measures vec_shallow (\<lambda>a c. block_ok a (buffer c)) (\<lambda>a c. block_size a (buffer c))"
  "measures (vec_estimate sz) (\<lambda>_ _. True) (\<lambda>_ c. capacity c * sz)"
  "measures (deque_shallow sz) interior_ok (interior_size (\<lambda>c. capacity c * sz))"
  "sz + 8 < B \<Longrightarrow> measures (hash_set_shallow sz) interior_ok (interior_size (\<lambda>c. capacity c * (sz + 8)))"
  "sz + 8 < B \<Longrightarrow> measures (btree_set_shallow sz) interior_ok (interior_size (\<lambda>c. length (elements c) * (sz + 8)))"
  "sk + sv + 8 < B \<Longrightarrow> measures (hash_map_shallow sk sv) interior_ok (interior_size (\<lambda>c. capacity c * (sk + sv + 8)))"
  "sk + sv + 8 < B \<Longrightarrow> measures (hashbrown_shallow sk sv) interior_ok (interior_size (\<lambda>c. capacity c * (sk + sv + 8)))"
  "sk + sv + 8 < B \<Longrightarrow> measures (btree_map_shallow sk sv) interior_ok (interior_size (\<lambda>c. length (elements c) * (sk + sv + 8)))"
  unfolding deque_shallow_def [abs_def] hash_set_shallow_def [abs_def] btree_set_shallow_def [abs_def]
    hash_map_shallow_def [abs_def] hashbrown_shallow_def [abs_def] btree_map_shallow_def [abs_def]
  by (simp add: measures_def vec_shallow_def block_measures, simp add: measures_def vec_estimate_def bounded_def usize_mul_def,
      (rule interior_measures, simp add: bounded_def usize_mul_def usize_add_def add.commute)+)

lemma usize_add_eqs: "a + b < B \<Longrightarrow> usize_add a b = Some (a + b)" "\<not> a + b < B \<Longrightarrow> usize_add a b = None"
  by (simp_all add: usize_add_def)

text \<open>One argument, no shortcut: the common shape of the collections.\<close>

lemma collection_measured:
  assumes "measured T ok w" "measures shallow sok sw"
  shows "measured \<lparr> size_of = \<lambda>self ops. do { (n, ops) \<leftarrow> shallow self ops; add_elements T n (values_of self) ops },
      constant_size = default_constant_size \<rparr> (\<lambda>a c. sok a c \<and> all_ok ok a c) (\<lambda>a c. sw a c + sum_of w a c)"
proof unfold_locales
  show "measures (size_of \<lparr> size_of = \<lambda>self ops. do { (n, ops) \<leftarrow> shallow self ops; add_elements T n (values_of self) ops },
      constant_size = default_constant_size \<rparr>) (\<lambda>a c. sok a c \<and> all_ok ok a c) (\<lambda>a c. sw a c + sum_of w a c)"
    using assms(2) measured.add_elements_eq [OF assms(1)]
    by (auto simp: measures_def all_ok_def sum_of_def bounded_def)
qed (simp_all add: default_constant_size_def)

lemma map_measured:
  assumes "measured K okk wk" "measured V okv wv" "measures shallow sok sw"
    and "\<And>i j. constant_size K = Some (Some i) \<Longrightarrow> constant_size V = Some (Some j) \<Longrightarrow> i + j < B"
  shows "measured \<lparr> size_of = \<lambda>self ops. do { (n, ops) \<leftarrow> shallow self ops; add_entries K V n (values_of self) ops },
      constant_size = default_constant_size \<rparr>
      (\<lambda>a c. sok a c \<and> all_ok (entry_ok okk okv) a c) (\<lambda>a c. sw a c + sum_of (entry_size wk wv) a c)"
proof unfold_locales
  show "measures (size_of \<lparr> size_of = \<lambda>self ops. do { (n, ops) \<leftarrow> shallow self ops; add_entries K V n (values_of self) ops },
      constant_size = default_constant_size \<rparr>)
      (\<lambda>a c. sok a c \<and> all_ok (entry_ok okk okv) a c) (\<lambda>a c. sw a c + sum_of (entry_size wk wv) a c)"
    using assms(3) add_entries_eq [OF assms(1,2) _ _ assms(4)]
    by (auto simp: measures_def all_ok_def sum_of_def bounded_def entry_ok_def entry_size_def)
qed (simp_all add: default_constant_size_def)

lemmas vec_measured = collection_measured [folded vec_impl_def]

lemma hash_map_measured:
  assumes "measured K okk wk" "measured V okv wv" "sk + sv + 8 < B"
    and "\<And>i j. constant_size K = Some (Some i) \<Longrightarrow> constant_size V = Some (Some j) \<Longrightarrow> i + j < B"
  shows "measured (hash_map_impl sk sv K V) (\<lambda>a c. interior_ok a c \<and> all_ok (entry_ok okk okv) a c)
    (\<lambda>a c. interior_size (\<lambda>c. capacity c * (sk + sv + 8)) a c + sum_of (entry_size wk wv) a c)"
  unfolding hash_map_impl_def by (rule map_measured [OF assms(1,2) shallow_measures(6) [OF assms(3)] assms(4)])

lemma btree_map_measured:
  assumes "measured K okk wk" "measured V okv wv" "sk + sv + 8 < B"
    and "\<And>i j. constant_size K = Some (Some i) \<Longrightarrow> constant_size V = Some (Some j) \<Longrightarrow> i + j < B"
  shows "measured (btree_map_impl sk sv K V) (\<lambda>a c. interior_ok a c \<and> all_ok (entry_ok okk okv) a c)
    (\<lambda>a c. interior_size (\<lambda>c. length (elements c) * (sk + sv + 8)) a c + sum_of (entry_size wk wv) a c)"
  unfolding btree_map_impl_def by (rule map_measured [OF assms(1,2) shallow_measures(8) [OF assms(3)] assms(4)])

lemma smallvec_measures:
  "measures (\<lambda>self ops. do { n \<leftarrow> (if spilled l self then usize_mul (capacity self) sz else Some 0); Some (n, ops) })
     (\<lambda>_ _. True) (\<lambda>_ c. if capacity c > l then capacity c * sz else 0)"
  by (auto simp: measures_def bounded_def usize_mul_def spilled_def)

lemma nothing_measures: "measures (\<lambda>self ops. Some (0, ops)) (\<lambda>_ _. True) (\<lambda>_ _. 0)"
  by (simp add: measures_def bounded_def)

text \<open>The wrappers.\<close>

definition inner_ok :: "(alloc \<Rightarrow> 'a \<Rightarrow> bool) \<Rightarrow> alloc \<Rightarrow> 'a guarded \<Rightarrow> bool" where
  "inner_ok ok a g \<longleftrightarrow> \<not> unavailable g \<and> ok a (inner g)"

lemma zero_measured: "measured malloc_size_of_is_0 (\<lambda>_ _. True) (\<lambda>_ _. 0)" "measured ref_impl (\<lambda>_ _. True) (\<lambda>_ _. 0)"
  by unfold_locales (auto simp: malloc_size_of_is_0_def ref_impl_def measures_def bounded_def)

lemma pointer_measured:
  assumes "measured T ok w" "measures shallow sok sw"
  shows "measured (box_impl shallow T) (\<lambda>a p. sok a p \<and> ok a (pointee p)) (\<lambda>a p. sw a p + w a (pointee p))"
    "measured (arc_impl shallow T) (\<lambda>a p. sok a p \<and> ok a (pointee p)) (\<lambda>a p. sw a p + w a (pointee p))"
  using assms(2)
  by (unfold_locales; auto simp: box_impl_def arc_impl_def unconditional_size_of_def default_constant_size_def measures_def bounded_def
      measured.size_of_eq [OF assms(1)] usize_add_def)+

lemma option_measured:
  assumes "measured T ok w"
  shows "measured (option_impl T) (\<lambda>a. case_option True (ok a)) (\<lambda>a. case_option 0 (w a))"
proof unfold_locales
  show "measures (size_of (option_impl T)) (\<lambda>a. case_option True (ok a)) (\<lambda>a. case_option 0 (w a))"
    by (auto simp: option_impl_def measures_def bounded_def measured.size_of_eq [OF assms] split: option.splits)
next
  show "\<exists>c. constant_size (option_impl T) = Some c \<and> (\<forall>k a v. c = Some k \<longrightarrow> case_option True (ok a) v \<longrightarrow> case_option 0 (w a) v = k)"
    by (rule measured.constant_cases [OF assms]) (auto simp: option_impl_def split: option.splits)
next
  fix k
  show "constant_size (option_impl T) = Some (Some k) \<Longrightarrow> k < B"
    by (rule measured.constant_cases [OF assms]) (auto simp: option_impl_def split: if_splits)
qed

lemma result_measured:
  assumes "measured T ok w" "measured E oke we"
  shows "measured (result_impl T E) (\<lambda>a. case_sum (oke a) (ok a)) (\<lambda>a. case_sum (we a) (w a))"
proof unfold_locales
  show "measures (size_of (result_impl T E)) (\<lambda>a. case_sum (oke a) (ok a)) (\<lambda>a. case_sum (we a) (w a))"
    by (auto simp: result_impl_def measures_def measured.size_of_eq [OF assms(1)] measured.size_of_eq [OF assms(2)] split: sum.splits)
next
  show "\<exists>c. constant_size (result_impl T E) = Some c \<and> (\<forall>k a v. c = Some k \<longrightarrow> case_sum (oke a) (ok a) v \<longrightarrow> case_sum (we a) (w a) v = k)"
    by (rule measured.constant_cases [OF assms(1)]; rule measured.constant_cases [OF assms(2)])
      (auto simp: result_impl_def split: sum.splits)
next
  fix k
  show "constant_size (result_impl T E) = Some (Some k) \<Longrightarrow> k < B"
    by (rule measured.constant_cases [OF assms(1)]; rule measured.constant_cases [OF assms(2)])
      (auto simp: result_impl_def split: if_splits)
qed

lemma pair_measured:
  assumes "measured S oks ws" "measured T ok w"
    and "\<And>i j. constant_size S = Some (Some i) \<Longrightarrow> constant_size T = Some (Some j) \<Longrightarrow> i + j < B"
  shows "measured (pair_impl S T) (entry_ok oks ok) (entry_size ws w)"
proof unfold_locales
  show "measures (size_of (pair_impl S T)) (entry_ok oks ok) (entry_size ws w)"
    by (auto simp: pair_impl_def tuple_size_of_def measures_def measured.size_of_eq [OF assms(1)] measured.size_of_eq [OF assms(2)]
        entry_ok_def entry_size_def bounded_def usize_add_def)
next
  show "\<exists>c. constant_size (pair_impl S T) = Some c \<and> (\<forall>k a v. c = Some k \<longrightarrow> entry_ok oks ok a v \<longrightarrow> entry_size ws w a v = k)"
    by (rule measured.constant_cases [OF assms(1)]; rule measured.constant_cases [OF assms(2)])
      (use assms(3) in \<open>auto simp: pair_impl_def tuple_constant_size_def usize_add_def entry_ok_def entry_size_def\<close>)
next
  fix k
  show "constant_size (pair_impl S T) = Some (Some k) \<Longrightarrow> k < B"
    by (rule measured.constant_cases [OF assms(1)]; rule measured.constant_cases [OF assms(2)])
      (auto simp: pair_impl_def tuple_constant_size_def usize_add_def split: if_splits)
qed

text \<open>An implementation without constant size, and one that inherits it.\<close>

lemma measured_default:
  assumes "measures (size_of T) ok w" "constant_size T = default_constant_size"
  shows "measured T ok w"
  using assms by unfold_locales (simp_all add: default_constant_size_def)

lemma measured_inherit:
  assumes "measured S ok' w'" "measures (size_of T) ok w" "constant_size T = constant_size S"
    and "\<And>a v. ok a v \<Longrightarrow> \<exists>u. ok' a u \<and> w a v = w' a u"
  shows "measured T ok w"
proof unfold_locales
  show "measures (size_of T) ok w" by fact
  obtain c where "constant_size S = Some c" "\<forall>k a v. c = Some k \<longrightarrow> ok' a v \<longrightarrow> w' a v = k"
    using measured.const_size [OF assms(1)] by blast
  then show "\<exists>c. constant_size T = Some c \<and> (\<forall>k a v. c = Some k \<longrightarrow> ok a v \<longrightarrow> w a v = k)"
    using assms(3,4) by (metis (no_types, lifting))
  show "constant_size T = Some (Some k) \<Longrightarrow> k < B" for k
    using measured.const_usize [OF assms(1)] assms(3) by simp
qed

lemma lock_measured:
  assumes "measured T ok w"
  shows "measured (refcell_impl T) (inner_ok ok) (\<lambda>a g. w a (inner g))" "measured (mutex_impl T) (inner_ok ok) (\<lambda>a g. w a (inner g))"
    "measured (rwlock_impl T) (inner_ok ok) (\<lambda>a g. w a (inner g))"
proof -
  have m: "measures (size_of (refcell_impl T)) (inner_ok ok) (\<lambda>a g. w a (inner g))"
    "measures (size_of (mutex_impl T)) (inner_ok ok) (\<lambda>a g. w a (inner g))"
    "measures (size_of (rwlock_impl T)) (inner_ok ok) (\<lambda>a g. w a (inner g))"
    by (simp_all add: measures_def inner_ok_def refcell_impl_def mutex_impl_def rwlock_impl_def measured.size_of_eq [OF assms])
  show "measured (refcell_impl T) (inner_ok ok) (\<lambda>a g. w a (inner g))"
    by (rule measured_inherit [OF assms m(1)]) (auto simp: refcell_impl_def inner_ok_def)
  show "measured (mutex_impl T) (inner_ok ok) (\<lambda>a g. w a (inner g))"
    by (rule measured_default [OF m(2)]) (simp add: mutex_impl_def)
  show "measured (rwlock_impl T) (inner_ok ok) (\<lambda>a g. w a (inner g))"
    by (rule measured_default [OF m(3)]) (simp add: rwlock_impl_def)
qed

lemma transparent_measured:
  assumes "measured T ok w"
  shows "measured (cell_impl T) ok w" "measured (reverse_impl T) ok w" "measured (parking_lot_mutex_impl T) ok w"
    "measured (parking_lot_rwlock_impl T) ok w"
proof -
  have m: "measures (size_of T) ok w" using measured.measures [OF assms] .
  show "measured (cell_impl T) ok w" "measured (reverse_impl T) ok w"
    by (rule measured_inherit [OF assms]; use m in \<open>auto simp: cell_impl_def reverse_impl_def\<close>)+
  show "measured (parking_lot_mutex_impl T) ok w" "measured (parking_lot_rwlock_impl T) ok w"
    by (rule measured_default; use m in \<open>simp add: parking_lot_mutex_impl_def parking_lot_rwlock_impl_def\<close>)+
qed

lemma cow_measured:
  assumes "measured T ok w"
  shows "measured (cow_impl T) (\<lambda>a c. case c of Borrowed _ \<Rightarrow> True | Owned b \<Rightarrow> ok a b) (\<lambda>a c. case c of Borrowed _ \<Rightarrow> 0 | Owned b \<Rightarrow> w a b)"
  by (rule measured_default)
    (auto simp: cow_impl_def measures_def bounded_def measured.size_of_eq [OF assms] split: cow.splits)

interpretation nothing: measured malloc_size_of_is_0 "\<lambda>_ _. True" "\<lambda>_ _. 0"
  by (rule zero_measured)

text \<open>
  C39. The collections measure exactly.  Given implementations for the elements, keys and values that are right, those of vectors, deques,
  sets and maps return the size of the collection's own block (as the allocator reports it, or the estimate of the code; a
  \<^verbatim>\<open>SmallVec\<close> has a block when its capacity exceeds the inline one) plus the sizes of all elements, and panic exactly when that
  number is no \<^verbatim>\<open>usize\<close>; so the shortcut that multiplies a constant size by the length agrees with the traversal it replaces.
  \<^verbatim>\<open>LruCache\<close> is not among them: \<open>lru_counts_entries\<close> below.
\<close>

theorem collections_measured:
  fixes T :: "('s, 'a) malloc_size_of" and K :: "('s, 'k) malloc_size_of" and V :: "('s, 'v) malloc_size_of"
  assumes "measured T ok w" "measured K okk wk" "measured V okv wv" "sz + 8 < B" "sk + sv + 8 < B"
    and "\<And>i j. constant_size K = Some (Some i) \<Longrightarrow> constant_size V = Some (Some j) \<Longrightarrow> i + j < B"
  shows "measured (vec_impl vec_shallow T) (\<lambda>a c. block_ok a (buffer c) \<and> all_ok ok a c) (\<lambda>a c. block_size a (buffer c) + sum_of w a c)
    \<and> measured (vec_impl (vec_estimate sz) T) (all_ok ok) (\<lambda>a c. capacity c * sz + sum_of w a c)
    \<and> measured (deque_impl sz T) (\<lambda>a c. interior_ok a c \<and> all_ok ok a c)
      (\<lambda>a c. interior_size (\<lambda>c. capacity c * sz) a c + sum_of w a c)
    \<and> measured (hash_set_impl sz T) (\<lambda>a c. interior_ok a c \<and> all_ok ok a c)
      (\<lambda>a c. interior_size (\<lambda>c. capacity c * (sz + 8)) a c + sum_of w a c)
    \<and> measured (btree_set_impl sz T) (\<lambda>a c. interior_ok a c \<and> all_ok ok a c)
      (\<lambda>a c. interior_size (\<lambda>c. length (elements c) * (sz + 8)) a c + sum_of w a c)
    \<and> measured (smallvec_impl l sz T) (all_ok ok) (\<lambda>a c. (if capacity c > l then capacity c * sz else 0) + sum_of w a c)
    \<and> measured (hash_map_impl sk sv K V) (\<lambda>a c. interior_ok a c \<and> all_ok (entry_ok okk okv) a c)
      (\<lambda>a c. interior_size (\<lambda>c. capacity c * (sk + sv + 8)) a c + sum_of (entry_size wk wv) a c)
    \<and> measured (hashbrown_impl sk sv K V) (\<lambda>a c. interior_ok a c \<and> all_ok (entry_ok okk okv) a c)
      (\<lambda>a c. interior_size (\<lambda>c. capacity c * (sk + sv + 8)) a c + sum_of (entry_size wk wv) a c)
    \<and> measured (btree_map_impl sk sv K V) (\<lambda>a c. interior_ok a c \<and> all_ok (entry_ok okk okv) a c)
      (\<lambda>a c. interior_size (\<lambda>c. length (elements c) * (sk + sv + 8)) a c + sum_of (entry_size wk wv) a c)"
proof (intro conjI)
  note one = collection_measured [OF assms(1)] and two = map_measured [OF assms(2,3) _ assms(6)]
  show "measured (vec_impl vec_shallow T) (\<lambda>a c. block_ok a (buffer c) \<and> all_ok ok a c) (\<lambda>a c. block_size a (buffer c) + sum_of w a c)"
    by (rule vec_measured [OF assms(1) shallow_measures(1)])
  show "measured (vec_impl (vec_estimate sz) T) (all_ok ok) (\<lambda>a c. capacity c * sz + sum_of w a c)"
    using vec_measured [OF assms(1) shallow_measures(2)] by simp
  show "measured (deque_impl sz T) (\<lambda>a c. interior_ok a c \<and> all_ok ok a c) (\<lambda>a c. interior_size (\<lambda>c. capacity c * sz) a c + sum_of w a c)"
    unfolding deque_impl_def by (rule one [OF shallow_measures(3)])
  show "measured (hash_set_impl sz T) (\<lambda>a c. interior_ok a c \<and> all_ok ok a c)
      (\<lambda>a c. interior_size (\<lambda>c. capacity c * (sz + 8)) a c + sum_of w a c)"
    unfolding hash_set_impl_def by (rule one [OF shallow_measures(4) [OF assms(4)]])
  show "measured (btree_set_impl sz T) (\<lambda>a c. interior_ok a c \<and> all_ok ok a c)
      (\<lambda>a c. interior_size (\<lambda>c. length (elements c) * (sz + 8)) a c + sum_of w a c)"
    unfolding btree_set_impl_def by (rule one [OF shallow_measures(5) [OF assms(4)]])
  show "measured (smallvec_impl l sz T) (all_ok ok) (\<lambda>a c. (if capacity c > l then capacity c * sz else 0) + sum_of w a c)"
    using one [OF smallvec_measures, of l sz] by (simp add: smallvec_impl_def bind_assoc)
  show "measured (hash_map_impl sk sv K V) (\<lambda>a c. interior_ok a c \<and> all_ok (entry_ok okk okv) a c)
      (\<lambda>a c. interior_size (\<lambda>c. capacity c * (sk + sv + 8)) a c + sum_of (entry_size wk wv) a c)"
    by (rule hash_map_measured [OF assms(2,3,5,6)])
  show "measured (hashbrown_impl sk sv K V) (\<lambda>a c. interior_ok a c \<and> all_ok (entry_ok okk okv) a c)
      (\<lambda>a c. interior_size (\<lambda>c. capacity c * (sk + sv + 8)) a c + sum_of (entry_size wk wv) a c)"
    unfolding hashbrown_impl_def by (rule two [OF shallow_measures(7) [OF assms(5)]])
  show "measured (btree_map_impl sk sv K V) (\<lambda>a c. interior_ok a c \<and> all_ok (entry_ok okk okv) a c)
      (\<lambda>a c. interior_size (\<lambda>c. length (elements c) * (sk + sv + 8)) a c + sum_of (entry_size wk wv) a c)"
    by (rule btree_map_measured [OF assms(2,3,5,6)])
qed

theorem collections_measured_witness:
  "measured (vec_impl vec_shallow (malloc_size_of_is_0 :: (unit, u8) malloc_size_of))
     (\<lambda>a c. block_ok a (buffer c) \<and> all_ok (\<lambda>_ _. True) a c) (\<lambda>a c. block_size a (buffer c) + sum_of (\<lambda>_ _. 0) a c)
   \<and> malloc_size (\<lambda>p. if p = 4096 then Some 16 else None) (vec_impl vec_shallow malloc_size_of_is_0)
       \<lparr> buffer = 4096, capacity = 3, elements = [(4096, 1 :: u8), (4097, 2)] \<rparr> = Some 16"
proof -
  note m = collections_measured [OF zero_measured(1) zero_measured(1) zero_measured(1), of 1 1 1 0]
  have v: "measured (vec_impl vec_shallow (malloc_size_of_is_0 :: (unit, u8) malloc_size_of))
     (\<lambda>a c. block_ok a (buffer c) \<and> all_ok (\<lambda>_ _. True) a c) (\<lambda>a c. block_size a (buffer c) + sum_of (\<lambda>_ _. 0) a c)"
    by (rule conjunct1 [OF m]) (simp_all add: malloc_size_of_is_0_def B_eq)
  show ?thesis
    using v measured.size_of_eq [OF v]
    by (simp add: malloc_size_def new_malloc_size_ops_def ops_new_def block_ok_def all_ok_def block_size_def sum_of_def alloc_of_def
        bounded_def B_eq)
qed

text \<open>
  The measure of an \<^verbatim>\<open>LruCache\<close> is that of its entries: neither the nodes nor the table of the cache are counted, although the trait
  is documented to measure all of the heap behind a value.
\<close>

theorem lru_counts_entries:
  assumes "measured K okk wk" "measured V okv wv"
    and "\<And>i j. constant_size K = Some (Some i) \<Longrightarrow> constant_size V = Some (Some j) \<Longrightarrow> i + j < B"
  shows "measured (lru_impl K V) (all_ok (entry_ok okk okv)) (sum_of (entry_size wk wv))"
  using map_measured [OF assms(1,2) nothing_measures assms(3)] by (simp add: lru_impl_def)

text \<open>References measured one after the other, with the set of the pointers seen so far.\<close>

lemma conditional_sizes:
  fixes T :: "(nat set, 'a) malloc_size_of"
  assumes "measured T ok w" "measures shallow sok sw"
    and "have_seen_ptr_op ops = Some (\<lambda>p S. (p \<in> S, insert p S))"
    and "\<forall>x\<in>set ys. sok (alloc_of ops) x \<and> ok (alloc_of ops) (pointee x)"
    and "\<forall>x\<in>set ys. \<forall>y\<in>set ys. address x = address y \<longrightarrow> x = y" "n < B"
  shows "fold_sizes (conditional_size_of shallow T) n ys (ops\<lparr> seen := S \<rparr>) =
      bounded (n + (\<Sum>x\<in>{x\<in>set ys. address x \<notin> S}. sw (alloc_of ops) x + w (alloc_of ops) (pointee x)))
        (ops\<lparr> seen := S \<union> address ` set ys \<rparr>)"
  using assms(4,5,6)
proof (induction ys arbitrary: n S)
  case (Cons y ys)
  let ?w = "\<lambda>x. sw (alloc_of ops) x + w (alloc_of ops) (pointee x)"
  have a: "alloc_of (ops\<lparr> seen := R \<rparr>) = alloc_of ops" for R by (simp add: alloc_of_def)
  have u: "unconditional_size_of shallow T y (ops\<lparr> seen := R \<rparr>) = bounded (?w y) (ops\<lparr> seen := R \<rparr>)" for R
    using assms(2) Cons.prems(1) measured.size_of_eq [OF assms(1)]
    by (auto simp: unconditional_size_of_def measures_def a bounded_def usize_add_def)
  have s: "have_seen_ptr (address y) (ops\<lparr> seen := S \<rparr>) = Some (address y \<in> S, ops\<lparr> seen := insert (address y) S \<rparr>)"
    using assms(3) by (simp add: have_seen_ptr_def)
  show ?case
  proof (cases "address y \<in> S")
    case True
    then have e: "{x \<in> set (y # ys). address x \<notin> S} = {x \<in> set ys. address x \<notin> S}" "insert (address y) S = S"
      "S \<union> address ` set (y # ys) = S \<union> address ` set ys" by auto
    show ?thesis unfolding e using Cons True s by (simp add: e conditional_size_of_def [of _ _ y] arc_ptr_def usize_add_def)
  next
    case False
    have "{x \<in> set (y # ys). address x \<notin> S} = insert y {x \<in> set ys. address x \<notin> insert (address y) S}"
      using False Cons.prems(2) by auto
    then have e: "(\<Sum>x\<in>{x\<in>set (y # ys). address x \<notin> S}. ?w x) = ?w y + (\<Sum>x\<in>{x\<in>set ys. address x \<notin> insert (address y) S}. ?w x)"
      by simp
    show ?thesis
      unfolding e using Cons False s u
      by (auto simp: conditional_size_of_def [of _ _ y] arc_ptr_def usize_add_def bounded_def add.assoc)
  qed
qed (simp add: bounded_def)

text \<open>
  C40. Shared values.  With a predicate that remembers the pointers it was asked about, measuring references to shared values
  conditionally counts every value once that was not seen before, however often it occurs, and remembers all of them; the
  unconditional measurement, which is that of \<^verbatim>\<open>MallocSizeOf\<close>, counts a value once for each reference.
\<close>

theorem shared_values_once:
  fixes T :: "(nat set, 'a) malloc_size_of"
  assumes "measured T ok w" "measures shallow sok sw"
    and "have_seen_ptr_op ops = Some (\<lambda>p S. (p \<in> S, insert p S))"
    and "\<forall>x\<in>set xs. sok (alloc_of ops) x \<and> ok (alloc_of ops) (pointee x)"
    and "\<forall>x\<in>set xs. \<forall>y\<in>set xs. address x = address y \<longrightarrow> x = y"
  shows "fold_sizes (conditional_size_of shallow T) 0 xs ops =
      bounded (\<Sum>x\<in>{x\<in>set xs. address x \<notin> seen ops}. sw (alloc_of ops) x + w (alloc_of ops) (pointee x))
        (ops\<lparr> seen := seen ops \<union> address ` set xs \<rparr>)
    \<and> fold_sizes (size_of (arc_impl shallow T)) 0 xs ops =
      bounded (\<Sum>x\<leftarrow>xs. sw (alloc_of ops) x + w (alloc_of ops) (pointee x)) ops"
proof -
  have B: "0 < B" by (simp add: B_eq)
  have "ops\<lparr> seen := seen ops \<rparr> = ops" by simp
  then show ?thesis
    using conditional_sizes [OF assms B, of "seen ops"] assms(4)
      measured.fold_sizes_eq [OF pointer_measured(2) [OF assms(1,2)] _ B, of xs ops] by simp
qed

theorem shared_values_once_witness:
  "let shared = \<lparr> address = 4096, pointee = 7 :: u8 \<rparr>; other = \<lparr> address = 8192, pointee = 8 \<rparr>;
       ops = ops_new (\<lambda>_. None) None (Some (\<lambda>p S. (p \<in> S, insert p S))) ({} :: nat set)
   in fold_sizes (conditional_size_of (arc_shallow 1) malloc_size_of_is_0) 0 [shared, other, shared] ops =
        Some (2, ops\<lparr> seen := {4096, 8192} \<rparr>)
    \<and> fold_sizes (size_of (arc_impl (arc_shallow 1) malloc_size_of_is_0)) 0 [shared, other, shared] ops = Some (3, ops)"
proof -
  let ?a = "\<lparr> address = 4096, pointee = 7 :: u8 \<rparr>" and ?b = "\<lparr> address = 8192, pointee = 8 :: u8 \<rparr>"
  have m: "measures (arc_shallow 1) (\<lambda>_ _. True) (\<lambda>_ (_ :: u8 pointer). 1)"
    by (simp add: measures_def arc_shallow_def bounded_def B_eq)
  let ?ops = "ops_new (\<lambda>_. None) None (Some (\<lambda>p S. (p \<in> S, insert p S))) ({} :: nat set)"
  have "fold_sizes (conditional_size_of (arc_shallow 1) malloc_size_of_is_0) 0 [?a, ?b, ?a] ?ops =
      bounded (\<Sum>x\<in>{x\<in>set [?a, ?b, ?a]. address x \<notin> seen ?ops}. 1 + 0) (?ops\<lparr> seen := seen ?ops \<union> address ` set [?a, ?b, ?a] \<rparr>)
    \<and> fold_sizes (size_of (arc_impl (arc_shallow 1) malloc_size_of_is_0)) 0 [?a, ?b, ?a] ?ops = bounded (\<Sum>x\<leftarrow>[?a, ?b, ?a]. 1 + 0) ?ops"
    by (rule shared_values_once [OF zero_measured(1) m]) (auto simp: ops_new_def)
  moreover have "{x \<in> set [?a, ?b, ?a]. address x \<notin> seen ?ops} = {?a, ?b}" "seen ?ops \<union> address ` set [?a, ?b, ?a] = {4096, 8192}"
    by (auto simp: ops_new_def)
  ultimately show ?thesis by (simp add: bounded_def B_eq)
qed

text \<open>
  Derived implementations.  A field with the attribute \<^verbatim>\<open>ignore_malloc_size_of\<close> and an explanation is left out, the attribute
  without one is refused when the code is compiled, and otherwise the generated function adds up the fields, and the items of a
  field that is an array.
\<close>

definition parts_of :: "'s struct_field \<Rightarrow> 's measurement list" where
  "parts_of f = (case field_value f of Array cs \<Rightarrow> cs | Plain c \<Rightarrow> [c])"

lemma field_ignored_cases:
  assumes "\<forall>m\<in>set ms. m \<noteq> None \<and> m \<noteq> Some (Path ignore_ident) \<and> m \<noteq> Some (List ignore_ident)"
  shows "field_ignored ms = Some (Some (NameValue ignore_ident) \<in> set ms)"
  using assms by (induction ms) (auto split: meta.splits if_splits)

lemma tuple_sum_bounded:
  assumes "\<forall>c\<in>set cs. c ops = bounded (g c) ops" "n < B"
  shows "tuple_sum n cs ops = bounded (n + sum_list (map g cs)) ops"
  using assms by (induction cs arbitrary: n) (auto simp: bounded_def usize_add_def add.assoc)

theorem derived_measurement:
  assumes "\<forall>f\<in>set fs. \<forall>m\<in>set (attrs f). m \<noteq> None \<and> m \<noteq> Some (Path ignore_ident) \<and> m \<noteq> Some (List ignore_ident)"
    and "\<forall>f\<in>set fs. \<forall>c\<in>set (parts_of f). c ops = bounded (g c) ops"
  shows "\<exists>code. malloc_size_of_derive fs = Some code \<and>
    code ops = bounded (\<Sum>f\<leftarrow>filter (\<lambda>f. Some (NameValue ignore_ident) \<notin> set (attrs f)) fs. sum_list (map g (parts_of f))) ops"
proof -
  let ?keep = "\<lambda>f. Some (NameValue ignore_ident) \<notin> set (attrs f)"
  have "derive_fields fs = Some (concat (map parts_of (filter ?keep fs)))"
    using assms(1)
    by (induction fs) (auto simp: derive_field_def field_ignored_cases parts_of_def split: field_value.splits)
  moreover have "sum_list (map g (concat (map parts_of (filter ?keep fs)))) = (\<Sum>f\<leftarrow>filter ?keep fs. sum_list (map g (parts_of f)))"
    by (induction fs) auto
  ultimately show ?thesis
    using tuple_sum_bounded [of "concat (map parts_of (filter ?keep fs))" ops g 0] assms(2)
    by (auto simp: malloc_size_of_derive_def B_eq)
qed

text \<open>The attribute without an explanation.\<close>

theorem derive_needs_explanation:
  assumes "f \<in> set fs" "attrs f = [Some (Path ignore_ident)] \<or> attrs f = [Some (List ignore_ident)]"
  shows "malloc_size_of_derive fs = panic"
proof -
  have "derive_fields fs = None"
    using assms by (induction fs) (auto simp: derive_field_def bind_eq_None_conv split: option.splits)
  then show ?thesis by (simp add: malloc_size_of_derive_def)
qed

text \<open>
  The in-memory database, whose only field is a lock around a hash map of ordered maps from keys to values: the sizes of the two
  kinds of maps are estimates, those of the keys and values are what the allocator reports.  A \<^verbatim>\<open>u32\<close> has 4 bytes, a
  vector and an ordered map have 24.
\<close>

definition column_map_impl :: "('s, (u8 collection \<times> u8 collection) collection) malloc_size_of" where
  "column_map_impl = btree_map_impl 24 24 (vec_impl vec_shallow malloc_size_of_is_0) (vec_impl vec_shallow malloc_size_of_is_0)"

definition columns_impl :: "('s, (u32 \<times> (u8 collection \<times> u8 collection) collection) collection) malloc_size_of" where
  "columns_impl = parking_lot_rwlock_impl (hash_map_impl 4 24 malloc_size_of_is_0 column_map_impl)"

definition in_memory_fields :: "(u32 \<times> (u8 collection \<times> u8 collection) collection) collection \<Rightarrow> 's struct_field list" where
  "in_memory_fields columns = [\<lparr> attrs = [], field_value = Plain (size_of columns_impl columns) \<rparr>]"

definition column_size :: "alloc \<Rightarrow> (u8 collection \<times> u8 collection) collection \<Rightarrow> nat" where
  "column_size a c = length (elements c) * 56 + (\<Sum>(k, v)\<leftarrow>values_of c. block_size a (buffer k) + block_size a (buffer v))"

definition column_ok :: "alloc \<Rightarrow> (u8 collection \<times> u8 collection) collection \<Rightarrow> bool" where
  "column_ok a c \<longleftrightarrow> (\<forall>(k, v)\<in>set (values_of c). block_ok a (buffer k) \<and> block_ok a (buffer v))"

lemma no_parts [simp]: "all_ok (\<lambda>_ _. True) a c" "sum_of (\<lambda>_ _. 0) a c = 0"
  by (simp_all add: all_ok_def sum_of_def)

lemma bytes_measured:
  "measured (vec_impl vec_shallow (malloc_size_of_is_0 :: ('s, 'z) malloc_size_of)) (\<lambda>a c. block_ok a (buffer c)) (\<lambda>a c. block_size a (buffer c))"
  using vec_measured [of "malloc_size_of_is_0 :: ('s, 'z) malloc_size_of" "\<lambda>_ _. True" "\<lambda>_ _. 0", OF zero_measured(1) shallow_measures(1)]
  by simp

interpretation byte_vec: measured "vec_impl vec_shallow malloc_size_of_is_0" "\<lambda>a c. block_ok a (buffer c)" "\<lambda>a c. block_size a (buffer c)"
  by (rule bytes_measured)

lemma in_memory_measured:
  assumes "enclosing_size_of_op ops = None" "\<forall>c\<in>set (map snd (values_of columns)). column_ok (alloc_of ops) c"
  shows "\<exists>code. malloc_size_of_derive (in_memory_fields columns) = Some code \<and>
    code ops = bounded (capacity columns * 36 + (\<Sum>c\<leftarrow>map snd (values_of columns). column_size (alloc_of ops) c)) ops"
proof -
  let ?a = "alloc_of ops"
  have c: "measured column_map_impl (\<lambda>a c. interior_ok a c \<and> all_ok (entry_ok (\<lambda>a k. block_ok a (buffer k)) (\<lambda>a k. block_ok a (buffer k))) a c)
    (\<lambda>a c. interior_size (\<lambda>c. length (elements c) * (24 + 24 + 8)) a c + sum_of (entry_size (\<lambda>a k. block_size a (buffer k)) (\<lambda>a k. block_size a (buffer k))) a c)"
    unfolding column_map_impl_def
    by (rule btree_map_measured [OF bytes_measured bytes_measured]) (simp_all add: B_eq vec_impl_def default_constant_size_def)
  have m: "measured columns_impl (\<lambda>a c. interior_ok a c \<and> all_ok (entry_ok (\<lambda>_ _. True) (\<lambda>a c. interior_ok a c \<and>
      all_ok (entry_ok (\<lambda>a k. block_ok a (buffer k)) (\<lambda>a k. block_ok a (buffer k))) a c)) a c)
    (\<lambda>a c. interior_size (\<lambda>c. capacity c * (4 + 24 + 8)) a c + sum_of (entry_size (\<lambda>_ _. 0) (\<lambda>a c. interior_size (\<lambda>c. length (elements c) *
      (24 + 24 + 8)) a c + sum_of (entry_size (\<lambda>a k. block_size a (buffer k)) (\<lambda>a k. block_size a (buffer k))) a c)) a c)"
    unfolding columns_impl_def
    by (rule transparent_measured(4) [OF hash_map_measured [OF zero_measured(1) c]])
      (simp_all add: B_eq column_map_impl_def btree_map_impl_def default_constant_size_def)
  have "size_of columns_impl columns ops = bounded (capacity columns * 36 + (\<Sum>c\<leftarrow>map snd (values_of columns). column_size ?a c)) ops"
    by (subst measured.size_of_eq [OF m])
      (use assms in \<open>auto simp: interior_ok_def interior_size_def alloc_of_def
        all_ok_def entry_ok_def entry_size_def sum_of_def column_ok_def column_size_def comp_def case_prod_unfold split: prod.splits\<close>)
  then show ?thesis
    by (simp add: malloc_size_of_derive_def in_memory_fields_def derive_field_def usize_add_def bounded_def)
qed

end
