(* ===== verification/Rlp_Derive.thy ===== *)
theory Rlp_Derive
  imports Rlp_Codec
begin

text \<open>
  The derive macros of \<^verbatim>\<open>rlp-derive\<close>: what \<^verbatim>\<open>en.rs\<close> and \<^verbatim>\<open>de.rs\<close> generate for a struct, as statements,
  and what these statements do on the streams and views of the crate \<^verbatim>\<open>rlp\<close>.  A panic of the macro is an error when the struct
  is compiled.
\<close>

subsection \<open>The structs the macros read\<close>

text \<open>A type by the first segment of its path: its identifier and its arguments in angle brackets.\<close>

datatype generic_arg = ArgPath string | ArgOther

datatype path_args = NoArgs | AngleBracketed "generic_arg list"

datatype field_type = TypePath string path_args | TypeOther

text \<open>An attribute by its path and by what its arguments parse to.\<close>

datatype token = Ident string | OtherToken

record attribute =
  attr_path :: string
  attr_args :: "token option"

record syn_field =
  field_ident :: "string option"
  field_attrs :: "attribute list"
  field_ty :: field_type

datatype derive_data = Struct "syn_field list" | NoStruct

text \<open>A field is named, or counted.\<close>

datatype field_id = Named string | Nth nat

definition id_of :: "nat \<Rightarrow> syn_field \<Rightarrow> field_id" where
  "id_of index field = (case field_ident field of Some ident \<Rightarrow> Named ident | None \<Rightarrow> Nth index)"

subsection \<open>The encoder\<close>

datatype enc_stmt = AppendList string field_id | Append field_id

definition encodable_field :: "nat \<Rightarrow> syn_field \<Rightarrow> enc_stmt may_panic" where
  "encodable_field index field =
     (let idn = id_of index field in
      case field_ty field of
        TypePath ident arguments \<Rightarrow>
          if ident = ''Vec'' then
            (case arguments of
               AngleBracketed args \<Rightarrow>
                 (case args of
                    [] \<Rightarrow> panic
                  | ArgPath inner_ident # _ \<Rightarrow> Some (AppendList inner_ident idn)
                  | ArgOther # _ \<Rightarrow> panic)
             | NoArgs \<Rightarrow> panic)
          else Some (Append idn)
      | TypeOther \<Rightarrow> panic)"

fun map_panic :: "('a \<Rightarrow> 'b may_panic) \<Rightarrow> 'a list \<Rightarrow> 'b list may_panic" where
  "map_panic f [] = Some []"
| "map_panic f (x # xs) = do { y \<leftarrow> f x; ys \<leftarrow> map_panic f xs; Some (y # ys) }"

definition impl_encodable :: "derive_data \<Rightarrow> (nat \<times> enc_stmt list) may_panic" where
  "impl_encodable ast =
     (case ast of
        Struct body \<Rightarrow>
          do {
            stmts \<leftarrow> map_panic (\<lambda>(i, field). encodable_field i field) (enumerate 0 body);
            Some (length stmts, stmts) }
      | NoStruct \<Rightarrow> panic)"

definition impl_encodable_wrapper :: "derive_data \<Rightarrow> enc_stmt may_panic" where
  "impl_encodable_wrapper ast =
     (case ast of
        Struct body \<Rightarrow> (case body of [field] \<Rightarrow> encodable_field 0 field | _ \<Rightarrow> panic)
      | NoStruct \<Rightarrow> panic)"

subsection \<open>The decoder\<close>

datatype parse_fn = Val_at | List_at | As_val | As_list

record parse_quotes =
  quote_single :: parse_fn
  quote_list :: parse_fn
  takes_index :: bool

definition decodable_parse_quotes :: parse_quotes where
  "decodable_parse_quotes = \<lparr> quote_single = Val_at, quote_list = List_at, takes_index = True \<rparr>"

definition decodable_wrapper_parse_quotes :: parse_quotes where
  "decodable_wrapper_parse_quotes = \<lparr> quote_single = As_val, quote_list = As_list, takes_index = False \<rparr>"

text \<open>\<^verbatim>\<open>id: f(index)?\<close>, \<^verbatim>\<open>id: f(index).unwrap_or_default()\<close> and \<^verbatim>\<open>id: f()?\<close>.\<close>

datatype dec_stmt = Read field_id parse_fn nat | ReadOrDefault field_id parse_fn nat | ReadWhole field_id parse_fn

definition rlp_attribute :: "attribute list \<Rightarrow> bool \<Rightarrow> bool may_panic" where
  "rlp_attribute attributes encountered =
     (case find (\<lambda>attr. attr_path attr = ''rlp'') attributes of
        Some attr \<Rightarrow>
          if encountered then panic
          else (case attr_args attr of Some (Ident ident) \<Rightarrow> if ident = ''default'' then Some True else panic | _ \<Rightarrow> panic)
      | None \<Rightarrow> Some False)"

definition decodable_field :: "nat \<Rightarrow> syn_field \<Rightarrow> parse_quotes \<Rightarrow> bool \<Rightarrow> (dec_stmt \<times> bool) may_panic" where
  "decodable_field index field quotes encountered =
     do {
       let idn = id_of index field;
       index \<leftarrow> (if encountered then usize_sub index 1 else Some index);
       dflt \<leftarrow> rlp_attribute (field_attrs field) encountered;
       let encountered = (encountered \<or> dflt);
       case field_ty field of
         TypePath ident _ \<Rightarrow>
           (let f = (if ident = ''Vec'' then quote_list quotes else quote_single quotes) in
            Some (if takes_index quotes then (if dflt then ReadOrDefault idn f index else Read idn f index)
                  else ReadWhole idn f, encountered))
       | TypeOther \<Rightarrow> panic }"

fun decodable_fields :: "(nat \<times> syn_field) list \<Rightarrow> parse_quotes \<Rightarrow> bool \<Rightarrow> dec_stmt list may_panic" where
  "decodable_fields [] quotes encountered = Some []"
| "decodable_fields ((i, field) # rest) quotes encountered =
     do {
       (stmt, encountered) \<leftarrow> decodable_field i field quotes encountered;
       stmts \<leftarrow> decodable_fields rest quotes encountered;
       Some (stmt # stmts) }"

definition impl_decodable :: "derive_data \<Rightarrow> dec_stmt list may_panic" where
  "impl_decodable ast =
     (case ast of
        Struct body \<Rightarrow> decodable_fields (enumerate 0 body) decodable_parse_quotes False
      | NoStruct \<Rightarrow> panic)"

definition impl_decodable_wrapper :: "derive_data \<Rightarrow> dec_stmt may_panic" where
  "impl_decodable_wrapper ast =
     (case ast of
        Struct body \<Rightarrow>
          (case body of
             [field] \<Rightarrow> map_option fst (decodable_field 0 field decodable_wrapper_parse_quotes False)
           | _ \<Rightarrow> panic)
      | NoStruct \<Rightarrow> panic)"

subsection \<open>What the generated code does\<close>

text \<open>
  The types of the fields come with their implementations of the traits: for a field that is no \<^verbatim>\<open>Vec\<close> those of its type, for a
  \<^verbatim>\<open>Vec\<close> those of its items.  The value of a field is one value or the list of the items.  A statement that does not fit the
  value is a type error, which the compiler refuses.
\<close>

datatype 'v field_value = One 'v | Many "'v list"

record 'v field_impl =
  impl_append :: "'v encodable"
  impl_decode :: "'v decoder"
  impl_default :: "'v field_value"

fun run_enc_stmt :: "(field_id \<Rightarrow> 'v field_impl) \<Rightarrow> (field_id \<Rightarrow> 'v field_value) \<Rightarrow> enc_stmt \<Rightarrow> rlp_stream \<Rightarrow> rlp_stream may_panic" where
  "run_enc_stmt I self (AppendList _ i) s = (case self i of Many vs \<Rightarrow> append_list (impl_append (I i)) vs s | One _ \<Rightarrow> None)"
| "run_enc_stmt I self (Append i) s = (case self i of One v \<Rightarrow> stream_append (impl_append (I i)) v s | Many _ \<Rightarrow> None)"

fun run_enc_stmts :: "(field_id \<Rightarrow> 'v field_impl) \<Rightarrow> (field_id \<Rightarrow> 'v field_value) \<Rightarrow> enc_stmt list \<Rightarrow> rlp_stream \<Rightarrow> rlp_stream may_panic" where
  "run_enc_stmts I self [] s = Some s"
| "run_enc_stmts I self (st # sts) s = do { s \<leftarrow> run_enc_stmt I self st s; run_enc_stmts I self sts s }"

definition derived_append :: "(field_id \<Rightarrow> 'v field_impl) \<Rightarrow> nat \<times> enc_stmt list \<Rightarrow> (field_id \<Rightarrow> 'v field_value) encodable" where
  "derived_append I code self s = do { s \<leftarrow> begin_list (fst code) s; run_enc_stmts I self (snd code) s }"

definition derived_wrapper_append :: "(field_id \<Rightarrow> 'v field_impl) \<Rightarrow> enc_stmt \<Rightarrow> (field_id \<Rightarrow> 'v field_value) encodable" where
  "derived_wrapper_append I code self s = run_enc_stmt I self code s"

definition read_with :: "'v field_impl \<Rightarrow> parse_fn \<Rightarrow> nat \<Rightarrow> 'v field_value decoder" where
  "read_with im f index r =
     (case f of
        Val_at \<Rightarrow> map_option (map_prod (map_sum id One) id) (rlp_val_at (impl_decode im) r index)
      | List_at \<Rightarrow> map_option (map_prod (map_sum id Many) id) (rlp_list_at (impl_decode im) r index)
      | As_val \<Rightarrow> map_option (map_prod (map_sum id One) id) (rlp_as_val (impl_decode im) r)
      | As_list \<Rightarrow> map_option (map_prod (map_sum id Many) id) (rlp_as_list (impl_decode im) r))"

fun run_dec_stmt :: "(field_id \<Rightarrow> 'v field_impl) \<Rightarrow> dec_stmt \<Rightarrow> (field_id \<times> 'v field_value) decoder" where
  "run_dec_stmt I (Read i f index) r = map_option (map_prod (map_sum id (Pair i)) id) (read_with (I i) f index r)"
| "run_dec_stmt I (ReadOrDefault i f index) r =
     do { (res, r) \<leftarrow> read_with (I i) f index r; Some (Inr (i, case res of Inr v \<Rightarrow> v | Inl _ \<Rightarrow> impl_default (I i)), r) }"
| "run_dec_stmt I (ReadWhole i f) r = map_option (map_prod (map_sum id (Pair i)) id) (read_with (I i) f 0 r)"

fun derived_decode :: "(field_id \<Rightarrow> 'v field_impl) \<Rightarrow> dec_stmt list \<Rightarrow> (field_id \<times> 'v field_value) list decoder" where
  "derived_decode I [] r = Some (Inr [], r)"
| "derived_decode I (st # sts) r =
     do {
       (res, r) \<leftarrow> run_dec_stmt I st r;
       case res of
         Inl e \<Rightarrow> Some (Inl e, r)
       | Inr x \<Rightarrow> do { (res, r) \<leftarrow> derived_decode I sts r; Some (map_sum id ((#) x) res, r) } }"

subsection \<open>The encoder writes the items of the fields\<close>

text \<open>An item stands for the value of a field: it is what the implementation writes and reads.\<close>

fun carries :: "'v field_impl \<Rightarrow> 'v field_value \<Rightarrow> item \<Rightarrow> bool" where
  "carries im (One v) x \<longleftrightarrow> writes (impl_append im v) x \<and> (\<exists>r. impl_decode im (rlp_new (enc x)) = Some (Inr v, r))"
| "carries im (Many vs) x \<longleftrightarrow> (\<exists>ys. x = Items ys \<and>
     list_all2 (\<lambda>v y. writes (impl_append im v) y \<and> (\<exists>r. impl_decode im (rlp_new (enc y)) = Some (Inr v, r))) vs ys)"

definition is_vec :: "field_type \<Rightarrow> bool" where
  "is_vec ty \<longleftrightarrow> (case ty of TypePath ident _ \<Rightarrow> ident = ''Vec'' | TypeOther \<Rightarrow> False)"

fun supported :: "field_type \<Rightarrow> bool" where
  "supported (TypePath ident (AngleBracketed (ArgPath a # _))) \<longleftrightarrow> True"
| "supported (TypePath ident _) \<longleftrightarrow> ident \<noteq> ''Vec''"
| "supported TypeOther \<longleftrightarrow> False"

definition typed :: "field_type \<Rightarrow> 'v field_value \<Rightarrow> bool" where
  "typed ty v \<longleftrightarrow> (is_vec ty \<longleftrightarrow> (\<exists>vs. v = Many vs))"

definition field_ok :: "(field_id \<Rightarrow> 'v field_impl) \<Rightarrow> (field_id \<Rightarrow> 'v field_value) \<Rightarrow> nat \<times> syn_field \<Rightarrow> item \<Rightarrow> bool" where
  "field_ok I self = (\<lambda>(i, f) x. supported (field_ty f) \<and> typed (field_ty f) (self (id_of i f)) \<and> carries (I (id_of i f)) (self (id_of i f)) x)"

text \<open>A statement does what \<^verbatim>\<open>append\<close> does with a value that writes the item.\<close>

definition stmt_ok :: "(field_id \<Rightarrow> 'v field_impl) \<Rightarrow> (field_id \<Rightarrow> 'v field_value) \<Rightarrow> enc_stmt \<Rightarrow> item \<Rightarrow> (rlp_stream \<Rightarrow> rlp_stream may_panic) \<Rightarrow> bool" where
  "stmt_ok I self st x w \<longleftrightarrow> writes w x \<and> (\<forall>s. room s (length (enc x)) \<longrightarrow> run_enc_stmt I self st s = stream_append (\<lambda>w. w) w s)"

lemma append_list_counts:
  assumes ws: "list_all2 (\<lambda>v x. writes (ra v) x) vs xs" and sm: "small (Items xs)" and r: "room s (length (enc (Items xs)))"
  shows "append_list ra vs s = stream_append (\<lambda>w. w) (append_list ra vs) s"
proof -
  let ?s = "s\<lparr> finished_list := False \<rparr>"
  have "room ?s (length (enc (Items xs)))" using r by (simp add: room_def)
  from append_list_pushes [OF ws sm this] append_list_pushes [OF ws sm r]
  have e: "append_list ra vs ?s = map_option set_flag (push_item (Items xs) ?s)" "append_list ra vs s = map_option set_flag (push_item (Items xs) s)" .
  have "map_option set_flag (push_item (Items xs) ?s) = map_option set_flag (push_item (Items xs) s)"
    by (rule set_flag_of_clear) (simp add: push_item_clear)
  then show ?thesis unfolding stream_append_def Let_def e by (cases "push_item (Items xs) s") (auto simp: set_flag_def)
qed

lemma encodable_field_ok:
  assumes "field_ok I self (i, f) x" "small x"
  shows "\<exists>st w. encodable_field i f = Some st \<and> stmt_ok I self st x w"
proof (cases "is_vec (field_ty f)")
  case True
  obtain inner rest where ty: "field_ty f = TypePath ''Vec'' (AngleBracketed (ArgPath inner # rest))"
    using assms(1) True by (cases "field_ty f" rule: supported.cases) (auto simp: field_ok_def is_vec_def split: if_splits)
  obtain vs ys where v: "self (id_of i f) = Many vs" "x = Items ys" "list_all2 (\<lambda>v y. writes (impl_append (I (id_of i f)) v) y) vs ys"
    using assms(1) True by (fastforce simp: field_ok_def typed_def intro: list_all2_mono)
  have "stmt_ok I self (AppendList inner (id_of i f)) x (append_list (impl_append (I (id_of i f))) vs)"
    using writes_append_list [OF v(3)] append_list_counts [OF v(3)] assms(2) v(1,2) by (simp add: stmt_ok_def)
  then show ?thesis using ty by (auto simp: encodable_field_def)
next
  case False
  obtain ident args where ty: "field_ty f = TypePath ident args" "ident \<noteq> ''Vec''"
    using assms(1) False by (cases "field_ty f") (auto simp: field_ok_def is_vec_def)
  obtain v where v: "self (id_of i f) = One v" "writes (impl_append (I (id_of i f)) v) x"
    using assms(1) False by (cases "self (id_of i f)") (auto simp: field_ok_def typed_def)
  have "stmt_ok I self (Append (id_of i f)) x (impl_append (I (id_of i f)) v)"
    using v by (simp add: stmt_ok_def stream_append_def)
  then show ?thesis using ty by (auto simp: encodable_field_def)
qed

lemma encodable_fields_ok:
  assumes "list_all2 (field_ok I self) ps xs" "\<forall>x\<in>set xs. small x"
  shows "\<exists>sts ws. map_panic (\<lambda>(i, f). encodable_field i f) ps = Some sts \<and> length sts = length xs \<and>
    list_all2 writes ws xs \<and> list_all2 (\<lambda>st (x, w). stmt_ok I self st x w) sts (zip xs ws)"
  using assms
proof (induction ps xs rule: list_all2_induct)
  case (Cons p ps x xs)
  obtain i f where p: "p = (i, f)" by (cases p)
  obtain st w where s: "encodable_field i f = Some st" "stmt_ok I self st x w"
    using encodable_field_ok Cons.hyps(1) Cons.prems p by fastforce
  obtain sts ws where "map_panic (\<lambda>(i, f). encodable_field i f) ps = Some sts" "length sts = length xs"
    "list_all2 writes ws xs" "list_all2 (\<lambda>st (x, w). stmt_ok I self st x w) sts (zip xs ws)"
    using Cons by auto
  then show ?case using s p by (intro exI [of _ "st # sts"] exI [of _ "w # ws"]) (simp add: stmt_ok_def)
qed auto

lemma run_stmts_append_all:
  assumes "list_all2 (\<lambda>st (x, w). stmt_ok I self st x w) sts (zip xs ws)" "list_all2 writes ws xs"
    and "unfinished_lists s = l # ls" "li_max l = Some n" "li_current l + length xs = n" "n < B"
    and "start_pos s \<le> length (buffer s)" "length (buffer s) + length (concat (map enc xs)) < B"
  shows "run_enc_stmts I self sts s = append_all (\<lambda>w. w) ws s"
  using assms
proof (induction xs arbitrary: sts ws s l)
  case (Cons x xs)
  obtain w ws' where ws: "ws = w # ws'" "writes w x" "list_all2 writes ws' xs" using Cons.prems(2) by (auto simp: list_all2_Cons2)
  obtain st sts' where sts: "sts = st # sts'" "stmt_ok I self st x w" "list_all2 (\<lambda>st (x, w). stmt_ok I self st x w) sts' (zip xs ws')"
    using Cons.prems(1) by (auto simp: ws(1) list_all2_Cons2)
  have room: "room s (length (enc x))" using Cons.prems(7,8) by (simp add: room_def)
  then have e: "run_enc_stmt I self st s = stream_append (\<lambda>w. w) w s" using sts(2) by (simp add: stmt_ok_def)
  show ?case
  proof (cases "xs = []")
    case True
    then show ?thesis using ws(3) sts by (cases "stream_append (\<lambda>w. w) w s") (simp_all add: ws(1) e)
  next
    case False
    then have lt: "li_current l + 1 < n" using Cons.prems(5) by (cases xs) simp_all
    obtain f where a: "stream_append (\<lambda>w. w) w s = Some (s\<lparr> buffer := buffer s @ enc x,
        unfinished_lists := l\<lparr> li_current := li_current l + 1 \<rparr> # ls, finished_list := f \<rparr>)"
      using stream_append_open [of "\<lambda>w. w" w, OF ws(2) room Cons.prems(3,4) lt Cons.prems(6)] by auto
    show ?thesis
      unfolding ws(1) sts(1) run_enc_stmts.simps append_all.simps e a bind.bind_lunit
      by (rule Cons.IH [OF sts(3) ws(3), of _ "l\<lparr> li_current := li_current l + 1 \<rparr>"]) (use Cons.prems in simp_all)
  qed
qed simp

lemma derived_append_list:
  assumes "list_all2 (\<lambda>st (x, w). stmt_ok I self st x w) sts (zip xs ws)" "list_all2 writes ws xs"
    and "room s (length (enc (Items xs)))"
  shows "derived_append I (length xs, sts) self s = append_list (\<lambda>w. w) ws s"
proof (cases "xs = []")
  case True
  then show ?thesis using assms(1,2) by (simp add: derived_append_def append_list_def)
next
  case False
  have len: "length ws = length xs" using assms(2) by (rule list_all2_lengthD)
  let ?l = "\<lparr> li_position = Suc (length (buffer s)) - start_pos s, li_current = 0, li_max = Some (length xs) \<rparr>"
  let ?s = "s\<lparr> finished_list := False, buffer := buffer s @ [0], unfinished_lists := ?l # unfinished_lists s \<rparr>"
  have b: "start_pos s \<le> length (buffer s)" "Suc (length (buffer s) + length (concat (map enc xs))) < B"
    using assms(3) length_enc_Items [of xs] unfolding room_def by (simp_all only:) linarith
  have n: "length xs < B" using b(2) length_concat_enc [of xs] by linarith
  have bl: "begin_list (length xs) s = Some ?s"
    using False b(1) by (simp add: begin_list_def total_written_def usize_ok Let_def)
  have "run_enc_stmts I self sts ?s = append_all (\<lambda>w. w) ws ?s"
    by (rule run_stmts_append_all [OF assms(1,2), where l = ?l and n = "length xs"]) (use b n in simp_all)
  then show ?thesis by (simp add: derived_append_def append_list_def len bl)
qed

lemma derived_append_writes:
  assumes "list_all2 (field_ok I self) (enumerate 0 fs) xs" "small (Items xs)"
  shows "\<exists>code. impl_encodable (Struct fs) = Some code \<and> writes (derived_append I code self) (Items xs)"
proof -
  have "\<forall>x\<in>set xs. small x" using small_member assms(2) by blast
  then obtain sts ws where c: "map_panic (\<lambda>(i, f). encodable_field i f) (enumerate 0 fs) = Some sts" "length sts = length xs"
    "list_all2 writes ws xs" "list_all2 (\<lambda>st (x, w). stmt_ok I self st x w) sts (zip xs ws)"
    using encodable_fields_ok [OF assms(1)] by blast
  have "writes (append_list (\<lambda>w. w) ws) (Items xs)" using writes_append_list [of "\<lambda>w. w" ws xs] c(3) assms(2) by simp
  then have "writes (derived_append I (length xs, sts) self) (Items xs)"
    using derived_append_list [OF c(4,3)] by (simp add: writes_def)
  then show ?thesis using c(1,2) by (simp add: impl_encodable_def)
qed

subsection \<open>The decoder reads them back\<close>

definition no_rlp_attr :: "syn_field \<Rightarrow> bool" where
  "no_rlp_attr f \<longleftrightarrow> (\<forall>a\<in>set (field_attrs f). attr_path a \<noteq> ''rlp'')"

definition default_attr :: "syn_field \<Rightarrow> bool" where
  "default_attr f \<longleftrightarrow> (\<exists>a. find (\<lambda>a. attr_path a = ''rlp'') (field_attrs f) = Some a \<and> attr_args a = Some (Ident ''default''))"

definition reader :: "syn_field \<Rightarrow> parse_fn" where
  "reader f = (if is_vec (field_ty f) then List_at else Val_at)"

lemma rlp_attribute_cases:
  "no_rlp_attr f \<Longrightarrow> rlp_attribute (field_attrs f) b = Some False" "default_attr f \<Longrightarrow> rlp_attribute (field_attrs f) False = Some True"
proof -
  show "rlp_attribute (field_attrs f) b = Some False" if "no_rlp_attr f"
  proof -
    have "find (\<lambda>a. attr_path a = ''rlp'') (field_attrs f) = None" using that by (auto simp: no_rlp_attr_def find_None_iff)
    then show ?thesis by (simp add: rlp_attribute_def)
  qed
qed (auto simp: default_attr_def rlp_attribute_def)

lemma decodable_field_plain:
  "supported (field_ty f) \<Longrightarrow> no_rlp_attr f \<Longrightarrow> decodable_field i f decodable_parse_quotes False = Some (Read (id_of i f) (reader f) i, False)"
  "supported (field_ty f) \<Longrightarrow> default_attr f \<Longrightarrow>
     decodable_field i f decodable_parse_quotes False = Some (ReadOrDefault (id_of i f) (reader f) i, True)"
  by (cases "field_ty f"; simp add: decodable_field_def rlp_attribute_cases decodable_parse_quotes_def reader_def is_vec_def)+

lemma decodable_fields_plain:
  "\<forall>(i, f)\<in>set ps. supported (field_ty f) \<and> no_rlp_attr f \<Longrightarrow>
   decodable_fields (ps @ qs) decodable_parse_quotes False =
     map_option ((@) (map (\<lambda>(i, f). Read (id_of i f) (reader f) i) ps)) (decodable_fields qs decodable_parse_quotes False)"
  by (induction ps) (auto simp: decodable_field_plain option.map_comp comp_def option.map_ident map_conv_bind_option)

lemma collect_carried:
  "list_all2 (\<lambda>v y. \<exists>r. dec (rlp_new (enc y)) = Some (Inr v, r)) vs ys \<Longrightarrow> collect_items dec (map (\<lambda>y. rlp_new (enc y)) ys) = ok vs"
  by (induction vs ys rule: list_all2_induct) (auto simp: rlp_as_val_def)

lemma as_list_carried:
  assumes "list_all2 (\<lambda>v y. \<exists>r. dec (rlp_new (enc y)) = Some (Inr v, r)) vs ys" "length (enc (Items ys)) < B"
  shows "\<exists>r. rlp_as_list dec (rlp_new (enc (Items ys))) = Some (Inr vs, r)"
proof -
  obtain r where "rlp_iter (rlp_new (enc (Items ys))) = Some (map (\<lambda>y. rlp_new (enc y)) ys, r)"
    using iter_view [OF view_of_new [OF assms(2)]] by blast
  then show ?thesis using collect_carried [OF assms(1)] by (simp add: rlp_as_list_def del: enc.simps)
qed

lemma small_B: "small x \<Longrightarrow> length (enc x) < B"
  by (simp add: small_def B_eq)

lemma read_item:
  assumes v: "view_of ys r" "i < length ys" and f: "field_ok I self (k, f) (ys ! i)" and sm: "small (Items ys)"
  shows "\<exists>r'. read_with (I (id_of k f)) (reader f) i r = Some (Inr (self (id_of k f)), r') \<and> view_of ys r'"
proof -
  obtain r' where r': "rlp_at r i = Some (Inr (rlp_new (enc (ys ! i))), r')" "view_of ys r'"
    using at_view [OF v(1), of i] v(2) by auto
  show ?thesis
  proof (cases "self (id_of k f)")
    case (One x)
    then show ?thesis using f r' by (auto simp: field_ok_def typed_def reader_def read_with_def rlp_val_at_def rlp_as_val_def)
  next
    case (Many vs)
    then obtain zs where z: "ys ! i = Items zs" "list_all2 (\<lambda>v y. \<exists>r. impl_decode (I (id_of k f)) (rlp_new (enc y)) = Some (Inr v, r)) vs zs"
      using f by (fastforce simp: field_ok_def intro: list_all2_mono)
    have "small (Items zs)" using small_member [of "Items zs" ys] v(2) z(1) sm by (metis nth_mem)
    then obtain r'' where "rlp_as_list (impl_decode (I (id_of k f))) (rlp_new (enc (Items zs))) = Some (Inr vs, r'')"
      using as_list_carried [OF z(2)] small_B by blast
    then show ?thesis using f r' Many z(1)
      by (simp add: field_ok_def typed_def reader_def read_with_def rlp_list_at_def del: enc.simps)
  qed
qed

lemma derived_decode_reads:
  assumes "view_of ys r" "small (Items ys)" "\<forall>(i, f)\<in>set ps. i < length ys \<and> field_ok I self (i, f) (ys ! i)"
  shows "\<exists>r'. view_of ys r' \<and> derived_decode I (map (\<lambda>(i, f). Read (id_of i f) (reader f) i) ps @ sts) r =
    map_option (map_prod (map_sum id ((@) (map (\<lambda>(i, f). (id_of i f, self (id_of i f))) ps))) id) (derived_decode I sts r')"
  using assms(1,3)
proof (induction ps arbitrary: r)
  case Nil
  then show ?case by (intro exI [of _ r]) (simp add: sum.map_id0 option.map_id0 append_Nil [abs_def] prod.map_id0 id_def [symmetric])
next
  case (Cons p ps)
  obtain i f where p: "p = (i, f)" by (cases p)
  obtain r1 where r1: "read_with (I (id_of i f)) (reader f) i r = Some (Inr (self (id_of i f)), r1)" "view_of ys r1"
    using read_item [OF Cons.prems(1) _ _ assms(2)] Cons.prems(2) p by fastforce
  have "\<forall>(i, f)\<in>set ps. i < length ys \<and> field_ok I self (i, f) (ys ! i)" using Cons.prems(2) by simp
  from Cons.IH [OF r1(2) this] obtain r' where "view_of ys r'" "derived_decode I (map (\<lambda>(i, f). Read (id_of i f) (reader f) i) ps @ sts) r1 =
    map_option (map_prod (map_sum id ((@) (map (\<lambda>(i, f). (id_of i f, self (id_of i f))) ps))) id) (derived_decode I sts r')"
    by blast
  then show ?case
    by (intro exI [of _ r']) (cases "derived_decode I sts r'"; auto simp: p r1 sum.map_comp comp_def)
qed

lemma enumerate_all2:
  "list_all2 P (enumerate 0 fs) xs \<longleftrightarrow> length fs = length xs \<and> (\<forall>i < length xs. P (i, fs ! i) (xs ! i))"
  by (auto simp: list_all2_conv_all_nth nth_enumerate_eq)

lemma length_header_mono: "m \<le> n \<Longrightarrow> length (header b m) \<le> length (header b n)"
proof -
  assume "m \<le> n"
  moreover have "n < 256 ^ length (nat_be n)" using length_nat_be_le [of n "length (nat_be n)"] by simp
  ultimately have "length (nat_be m) \<le> length (nat_be n)" by (simp add: length_nat_be_le)
  then show ?thesis using \<open>m \<le> n\<close> by (simp add: header_def)
qed

lemma length_enc_prefix: "length (enc (Items xs)) \<le> length (enc (Items (xs @ ys)))"
  using length_header_mono [of "length (concat (map enc xs))" "length (concat (map enc xs)) + length (concat (map enc ys))" 192]
  by simp

text \<open>The statements for a struct whose last field alone may have a default.\<close>

definition last_stmt :: "nat \<times> syn_field \<Rightarrow> dec_stmt" where
  "last_stmt = (\<lambda>(i, f). if default_attr f then ReadOrDefault (id_of i f) (reader f) i else Read (id_of i f) (reader f) i)"

lemma impl_decodable_stmts:
  assumes "list_all2 (field_ok I self) (enumerate 0 (fs @ [f])) xs" "list_all no_rlp_attr fs" "no_rlp_attr f \<or> default_attr f"
  shows "impl_decodable (Struct (fs @ [f])) =
    Some (map (\<lambda>(i, f). Read (id_of i f) (reader f) i) (enumerate 0 fs) @ [last_stmt (length fs, f)])"
proof -
  have s: "\<forall>p\<in>set (enumerate 0 (fs @ [f])). supported (field_ty (snd p))"
    using assms(1) by (auto simp: enumerate_all2 in_set_enumerate_eq field_ok_def)
  then have "\<forall>(i, f)\<in>set (enumerate 0 fs). supported (field_ty f) \<and> no_rlp_attr f"
    using assms(2) by (auto simp: enumerate_append_eq list_all_iff in_set_enumerate_eq dest: nth_mem)
  moreover have "supported (field_ty f)" using s by (simp add: enumerate_append_eq)
  moreover have "no_rlp_attr f \<Longrightarrow> \<not> default_attr f" by (auto simp: no_rlp_attr_def default_attr_def find_Some_iff)
  ultimately show ?thesis using assms(3)
    by (auto simp: impl_decodable_def enumerate_append_eq decodable_fields_plain decodable_field_plain last_stmt_def)
qed

lemma last_field_read:
  assumes "view_of ys r" "small (Items ys)" "n < length ys" "field_ok I self (n, f) (ys ! n)"
  shows "\<exists>r'. derived_decode I [last_stmt (n, f)] r = Some (Inr [(id_of n f, self (id_of n f))], r')"
  using read_item [OF assms(1,3,4,2)] by (auto simp: last_stmt_def)

lemma last_field_missing:
  assumes "view_of ys r" "n = length ys" "default_attr f"
  shows "\<exists>r'. derived_decode I [last_stmt (n, f)] r = Some (Inr [(id_of n f, impl_default (I (id_of n f)))], r')"
proof -
  obtain r' where "rlp_at r n = Some (Inl RlpIsTooShort, r')" using at_view [OF assms(1), of n] assms(2) by auto
  then show ?thesis using assms(3) by (auto simp: last_stmt_def read_with_def reader_def rlp_val_at_def rlp_list_at_def)
qed

text \<open>Structs of bytes, for the examples.\<close>

definition byte_impl :: "u8 field_impl" where
  "byte_impl = \<lparr> impl_append = u8_append, impl_decode = u8_decode, impl_default = One 0 \<rparr>"

definition u8_field :: "string \<Rightarrow> attribute list \<Rightarrow> syn_field" where
  "u8_field name attrs = \<lparr> field_ident = Some name, field_attrs = attrs, field_ty = TypePath ''u8'' NoArgs \<rparr>"

definition rlp_default :: attribute where
  "rlp_default = \<lparr> attr_path = ''rlp'', attr_args = Some (Ident ''default'') \<rparr>"

lemma id_of_u8_field [simp]: "id_of i (u8_field name attrs) = Named name"
  by (simp add: id_of_def u8_field_def)

lemma byte_field_ok:
  "self (id_of i (u8_field name attrs)) = One v \<Longrightarrow> field_ok (\<lambda>_. byte_impl) self (i, u8_field name attrs) (num_item v)"
  using u8_codec.append_writes [of v] u8_codec.decode_item [of v] small_num [of v]
  by (simp add: field_ok_def byte_impl_def typed_def is_vec_def) (simp add: u8_field_def)

lemma enc_byte: "0 < v \<Longrightarrow> v < 128 \<Longrightarrow> enc (num_item (v :: u8)) = [v]"
proof -
  assume "0 < v" "v < 128"
  moreover have "nat_be (unat v) = (if v = 0 then [] else [v])" by (rule nat_be_unique [symmetric]) auto
  ultimately show ?thesis by (cases "v = 0") (simp_all add: num_item_def word_less_nat_alt)
qed

lemma byte_items:
  fixes a b :: u8
  assumes "0 < a" "a < 128"
  shows "enc (Items [num_item a]) = [0xc1, a]"
    and "0 < b \<Longrightarrow> b < 128 \<Longrightarrow> enc (Items [num_item a, num_item b]) = [0xc2, a, b]"
    and "0 < b \<Longrightarrow> b < 128 \<Longrightarrow> small (Items [num_item a, num_item b])"
  using assms by (simp_all add: enc_byte header_def small_def)

text \<open>
  C19. Derived RLP.  For a struct whose fields have types the macros support, implementations that write and read their items, and no attribute
  \<^verbatim>\<open>rlp\<close> except possibly \<^verbatim>\<open>rlp(default)\<close> on the last field, both macros succeed; the encoding is the list of the items of the fields,
  and decoding it returns every field.  Decoding the encoding without the last item, which has the default attribute, returns the default for the last field.
\<close>

theorem derive_roundtrip:
  assumes ok: "list_all2 (field_ok I self) (enumerate 0 (fs @ [f])) (xs @ [x])" and sm: "small (Items (xs @ [x]))"
    and attrs: "list_all no_rlp_attr fs" "no_rlp_attr f \<or> default_attr f"
  shows "\<exists>code dec. impl_encodable (Struct (fs @ [f])) = Some code \<and> impl_decodable (Struct (fs @ [f])) = Some dec \<and>
    rlp_encode (derived_append I code) self = Some (enc (Items (xs @ [x]))) \<and>
    rlp_decode (derived_decode I dec) (enc (Items (xs @ [x]))) = ok (map (\<lambda>(i, f). (id_of i f, self (id_of i f))) (enumerate 0 (fs @ [f]))) \<and>
    (default_attr f \<longrightarrow> rlp_decode (derived_decode I dec) (enc (Items xs)) =
      ok (map (\<lambda>(i, f). (id_of i f, self (id_of i f))) (enumerate 0 fs) @ [(id_of (length fs) f, impl_default (I (id_of (length fs) f)))]))"
proof -
  let ?dec = "map (\<lambda>(i, f). Read (id_of i f) (reader f) i) (enumerate 0 fs) @ [last_stmt (length fs, f)]"
  obtain code where code: "impl_encodable (Struct (fs @ [f])) = Some code" "writes (derived_append I code self) (Items (xs @ [x]))"
    using derived_append_writes [OF ok sm] by blast
  have len: "length fs = length xs" using list_all2_lengthD [OF ok] by simp
  have each: "\<forall>(i, g)\<in>set (enumerate 0 fs). i < length xs \<and> field_ok I self (i, g) (xs ! i)" and last: "field_ok I self (length fs, f) x"
    using ok len by (auto simp: enumerate_all2 in_set_enumerate_eq nth_append split: if_splits)
  have all: "\<forall>(i, g)\<in>set (enumerate 0 fs). i < length (xs @ [x]) \<and> field_ok I self (i, g) ((xs @ [x]) ! i)"
    using each by (auto simp: nth_append)
  have sm': "small (Items xs)"
    using sm length_enc_prefix [of xs "[x]"] by (simp add: small_def del: enc.simps)
  have "rlp_decode (derived_decode I ?dec) (enc (Items (xs @ [x]))) = ok (map (\<lambda>(i, f). (id_of i f, self (id_of i f))) (enumerate 0 (fs @ [f])))"
    using derived_decode_reads [OF view_of_new [OF small_B [OF sm]] sm all, of "[last_stmt (length fs, f)]"]
      last_field_read [of "xs @ [x]" _ "length fs" I self f] sm last len
    by (fastforce simp: rlp_decode_def rlp_as_val_def enumerate_append_eq simp del: enc.simps)
  moreover have "rlp_decode (derived_decode I ?dec) (enc (Items xs)) =
      ok (map (\<lambda>(i, f). (id_of i f, self (id_of i f))) (enumerate 0 fs) @ [(id_of (length fs) f, impl_default (I (id_of (length fs) f)))])"
    if "default_attr f"
    using derived_decode_reads [OF view_of_new [OF small_B [OF sm']] sm' each, of "[last_stmt (length fs, f)]"]
      last_field_missing [OF _ _ that, of xs _ "length fs" I] len
    by (fastforce simp: rlp_decode_def rlp_as_val_def simp del: enc.simps)
  ultimately show ?thesis
    using code rlp_encode_writes [of "derived_append I code" self, OF code(2) sm] impl_decodable_stmts [OF ok attrs] by blast
qed

theorem derive_roundtrip_witness:
  "\<exists>code dec. impl_encodable (Struct [u8_field ''a'' [], u8_field ''b'' [rlp_default]]) = Some code \<and>
     impl_decodable (Struct [u8_field ''a'' [], u8_field ''b'' [rlp_default]]) = Some dec \<and>
     rlp_encode (derived_append (\<lambda>_. byte_impl) code) (\<lambda>_. One 7) = Some [0xc2, 7, 7] \<and>
     rlp_decode (derived_decode (\<lambda>_. byte_impl) dec) [0xc2, 7, 7] = ok [(Named ''a'', One 7), (Named ''b'', One 7)] \<and>
     rlp_decode (derived_decode (\<lambda>_. byte_impl) dec) [0xc1, 7] = ok [(Named ''a'', One 7), (Named ''b'', One 0)]"
proof -
  have "list_all2 (field_ok (\<lambda>_. byte_impl) (\<lambda>_. One 7)) (enumerate 0 ([u8_field ''a'' []] @ [u8_field ''b'' [rlp_default]]))
      ([num_item (7 :: u8)] @ [num_item (7 :: u8)])"
    by (simp add: byte_field_ok)
  then show ?thesis
    using derive_roundtrip [of "\<lambda>_. byte_impl" "\<lambda>_. One 7" "[u8_field ''a'' []]" "u8_field ''b'' [rlp_default]" "[num_item (7 :: u8)]" "num_item (7 :: u8)"]
    by (simp add: byte_items default_attr_def no_rlp_attr_def u8_field_def rlp_default_def id_of_def byte_impl_def del: enc.simps)
qed

subsection \<open>Wrappers\<close>

text \<open>
  A struct with one field, derived as a wrapper, has the encoding of its field, and decoding returns the field.
\<close>

lemma stmt_done:
  assumes "stmt_ok I self st x w" "room s (length (enc x))" "unfinished_lists s = []"
  shows "\<exists>f. run_enc_stmt I self st s = Some (s\<lparr> buffer := buffer s @ enc x, finished_list := f \<rparr>)"
  using assms stream_append_done [of "\<lambda>w. w" w x s] by (simp add: stmt_ok_def)

lemma read_whole:
  assumes f: "field_ok I self (0, f) x" and sm: "small x"
  shows "\<exists>r. read_with (I (id_of 0 f)) (if is_vec (field_ty f) then As_list else As_val) 0 (rlp_new (enc x)) = Some (Inr (self (id_of 0 f)), r)"
proof (cases "self (id_of 0 f)")
  case (One v)
  then show ?thesis using f by (auto simp: field_ok_def typed_def read_with_def rlp_as_val_def)
next
  case (Many vs)
  then obtain zs where z: "x = Items zs" "list_all2 (\<lambda>v y. \<exists>r. impl_decode (I (id_of 0 f)) (rlp_new (enc y)) = Some (Inr v, r)) vs zs"
    using f by (fastforce simp: field_ok_def intro: list_all2_mono)
  then obtain r where "rlp_as_list (impl_decode (I (id_of 0 f))) (rlp_new (enc (Items zs))) = Some (Inr vs, r)"
    using as_list_carried [OF z(2)] small_B sm by blast
  then show ?thesis using f Many z(1) by (simp add: field_ok_def typed_def read_with_def del: enc.simps)
qed

theorem derive_wrapper_roundtrip:
  assumes ok: "field_ok I self (0, f) x" and sm: "small x" and attrs: "no_rlp_attr f"
  shows "\<exists>code dec. impl_encodable_wrapper (Struct [f]) = Some code \<and> impl_decodable_wrapper (Struct [f]) = Some dec \<and>
    rlp_encode (derived_wrapper_append I code) self = Some (enc x) \<and>
    rlp_decode (derived_decode I [dec]) (enc x) = ok [(id_of 0 f, self (id_of 0 f))]"
proof -
  obtain code w where code: "encodable_field 0 f = Some code" "stmt_ok I self code x w"
    using encodable_field_ok [OF ok sm] by blast
  let ?s = "stream_new\<lparr> finished_list := False \<rparr>"
  have "room ?s (length (enc x))" "unfinished_lists ?s = []"
    using room_new [OF sm] by (simp_all add: room_def stream_new_def new_with_buffer_def)
  then obtain g where "run_enc_stmt I self code ?s = Some (?s\<lparr> buffer := buffer ?s @ enc x, finished_list := g \<rparr>)"
    using stmt_done [OF code(2)] by blast
  then have e: "rlp_encode (derived_wrapper_append I code) self = Some (enc x)"
    by (simp add: rlp_encode_def stream_append_def derived_wrapper_append_def stream_out_def is_finished_def
        stream_new_def new_with_buffer_def note_appended_def)
  obtain ident args where "field_ty f = TypePath ident args" using ok by (cases "field_ty f") (auto simp: field_ok_def)
  then have d: "impl_decodable_wrapper (Struct [f]) = Some (ReadWhole (id_of 0 f) (if is_vec (field_ty f) then As_list else As_val))"
    using attrs by (simp add: impl_decodable_wrapper_def decodable_field_def rlp_attribute_cases decodable_wrapper_parse_quotes_def is_vec_def)
  show ?thesis using code(1) e d read_whole [OF ok sm] by (auto simp: impl_encodable_wrapper_def rlp_decode_def rlp_as_val_def)
qed

subsection \<open>Structs the macros accept but do not encode faithfully\<close>

text \<open>
  With the default on the first of two fields, the decoder reads the second field at the index of the first: the encoding of
  the fields 1 and 2 is decoded as 1 and 1.
\<close>

definition two_bytes :: derive_data where
  "two_bytes = Struct [u8_field ''a'' [rlp_default], u8_field ''b'' []]"

theorem default_not_last:
  "\<exists>code dec. impl_encodable two_bytes = Some code \<and> impl_decodable two_bytes = Some dec \<and>
     rlp_encode (derived_append (\<lambda>_. byte_impl) code) (\<lambda>i. if i = Named ''a'' then One 1 else One 2) = Some [0xc2, 1, 2] \<and>
     rlp_decode (derived_decode (\<lambda>_. byte_impl) dec) [0xc2, 1, 2] = ok [(Named ''a'', One 1), (Named ''b'', One 1)]"
proof -
  let ?xs = "[num_item (1 :: u8), num_item (2 :: u8)]" and ?a = "u8_field ''a'' [rlp_default]" and ?b = "u8_field ''b'' []"
  let ?self = "\<lambda>i. if i = Named ''a'' then One 1 else One 2 :: u8 field_value"
  let ?I = "\<lambda>_ :: field_id. byte_impl"
  have bytes: "enc (Items ?xs) = [0xc2, 1, 2]" and sm: "small (Items ?xs)" by (simp_all add: byte_items del: enc.simps)
  have "list_all2 (field_ok ?I ?self) (enumerate 0 [?a, ?b]) ?xs"
    by (simp add: byte_field_ok)
  from derived_append_writes [OF this sm] obtain code where code: "impl_encodable two_bytes = Some code" "writes (derived_append ?I code ?self) (Items ?xs)"
    by (auto simp: two_bytes_def)
  then have e: "rlp_encode (derived_append ?I code) ?self = Some [0xc2, 1, 2]"
    using rlp_encode_writes [of "derived_append ?I code" ?self, OF code(2) sm] bytes by simp
  have d: "impl_decodable two_bytes = Some [ReadOrDefault (Named ''a'') Val_at 0, Read (Named ''b'') Val_at 0]"
    by code_simp
  obtain r1 where r1: "read_with byte_impl Val_at 0 (rlp_new (enc (Items ?xs))) = Some (Inr (One 1), r1)" "view_of ?xs r1"
    using read_item [OF view_of_new [OF small_B [OF sm]], of 0 ?I "\<lambda>_. One 1" 0 ?a] sm byte_field_ok [of "\<lambda>_. One 1" 0 "''a''" "[rlp_default]" 1]
    by (auto simp: reader_def is_vec_def u8_field_def)
  obtain r2 where "read_with byte_impl Val_at 0 r1 = Some (Inr (One 1), r2)"
    using read_item [OF r1(2), of 0 ?I "\<lambda>_. One 1" 1 ?b] sm byte_field_ok [of "\<lambda>_. One 1" 1 "''b''" "[]" 1]
    by (auto simp: reader_def is_vec_def u8_field_def)
  then have "rlp_decode (derived_decode ?I [ReadOrDefault (Named ''a'') Val_at 0, Read (Named ''b'') Val_at 0]) (enc (Items ?xs)) =
      ok [(Named ''a'', One 1), (Named ''b'', One 1)]"
    using r1(1) by (simp add: rlp_decode_def rlp_as_val_def del: enc.simps)
  then show ?thesis using code(1) e d unfolding bytes by blast
qed

text \<open>
  The method of a derived wrapper calls \<^verbatim>\<open>stream.append\<close>, which counts the item; the \<^verbatim>\<open>append\<close> that called the method counts it again.
  A list of two wrapped bytes is closed after the first, and its header covers one byte.
\<close>

theorem wrapper_counted_twice:
  "impl_encodable_wrapper (Struct [u8_field ''a'' []]) = Some (Append (Named ''a'')) \<and>
   rlp_encode_list u8_append [1, 2] = Some [0xc2, 1, 2] \<and>
   rlp_encode_list (derived_wrapper_append (\<lambda>_. byte_impl) (Append (Named ''a''))) [\<lambda>_. One 1, \<lambda>_. One 2] = Some [0xc1, 1, 2]"
proof (intro conjI)
  show "impl_encodable_wrapper (Struct [u8_field ''a'' []]) = Some (Append (Named ''a''))" by code_simp
  show "rlp_encode_list u8_append [1, 2] = Some [0xc2, 1, 2]"
    using u8_codec.encode_list_spec [of "[1, 2]"] by (simp add: byte_items del: enc.simps)
  show "rlp_encode_list (derived_wrapper_append (\<lambda>_. byte_impl) (Append (Named ''a''))) [\<lambda>_. One 1, \<lambda>_. One 2] = Some [0xc1, 1, 2]"
    by (simp add: rlp_encode_list_def append_list_def begin_list_def stream_append_def derived_wrapper_append_def byte_impl_def u8_append_def
        encode_value_def encode_iter_def stream_new_def new_with_buffer_def note_appended_def total_written_def usize_sub_def usize_add_def
        insert_list_payload_def set_at_def padd_def stream_out_def is_finished_def B_eq)
qed

end
