(* ===== verification/Uint_Extra.thy ===== *)
theory Uint_Extra
  imports Complex_Main Uint_Pow Uint_Conv
begin

text \<open>
  The rest of the crate \<^verbatim>\<open>uint\<close>: conversions from the primitive integers, multiplication by them, the texts of the errors,
  the conversions and operators that only forward, and the generators of arbitrary numbers.
\<close>

subsection \<open>Primitive integers\<close>

text \<open>\<^verbatim>\<open>impl_map_from!\<close>: the unsigned types go through \<^verbatim>\<open>u64\<close>, the signed ones through \<^verbatim>\<open>i64\<close>.\<close>

definition uint_from_unsigned :: "nat \<Rightarrow> 'a::len word \<Rightarrow> uint" where
  "uint_from_unsigned n value = uint_from_u64 n (ucast value)"

definition uint_from_signed :: "nat \<Rightarrow> 'a::len word \<Rightarrow> uint may_panic" where
  "uint_from_signed n value = uint_from_i64 n (scast value)"

text \<open>\<^verbatim>\<open>impl_mul_for_primitive!\<close> converts the factor with \<^verbatim>\<open>as u64\<close>, which extends the sign of a signed type.\<close>

definition uint_mul_unsigned :: "uint \<Rightarrow> 'a::len word \<Rightarrow> uint may_panic" where
  "uint_mul_unsigned self other = uint_mul_prim self (ucast other)"

definition uint_mul_signed :: "uint \<Rightarrow> 'a::len word \<Rightarrow> uint may_panic" where
  "uint_mul_signed self other = uint_mul_prim self (scast other)"

subsection \<open>Forwarding conversions and operators\<close>

definition uint_as_ref :: "uint \<Rightarrow> u64 list" where
  "uint_as_ref self = self"

definition uint_from_ref :: "uint \<Rightarrow> uint" where
  "uint_from_ref x = x"

definition uint_from_slice :: "(bytes \<Rightarrow> u64) \<Rightarrow> nat \<Rightarrow> bytes \<Rightarrow> uint may_panic" where
  "uint_from_slice read_u64 n bs = uint_from_big_endian read_u64 n bs"

definition uint_from_array_ref :: "(bytes \<Rightarrow> u64) \<Rightarrow> nat \<Rightarrow> bytes \<Rightarrow> uint may_panic" where
  "uint_from_array_ref read_u64 n bs = uint_from_slice read_u64 n bs"

definition uint_from_array :: "(bytes \<Rightarrow> u64) \<Rightarrow> nat \<Rightarrow> bytes \<Rightarrow> uint may_panic" where
  "uint_from_array read_u64 n bs = uint_from_array_ref read_u64 n bs"

definition uint_from_static_str :: "(bytes \<Rightarrow> bytes \<Rightarrow> hex_error + bytes) \<Rightarrow> (bytes \<Rightarrow> u64) \<Rightarrow> nat \<Rightarrow> bytes \<Rightarrow> uint may_panic" where
  "uint_from_static_str decode_to_slice read_u64 n s =
     do {
       r \<leftarrow> uint_from_str decode_to_slice read_u64 n s;
       case r of Inl _ \<Rightarrow> panic | Inr x \<Rightarrow> Some x }"

definition uint_shl_assign :: "uint \<Rightarrow> uint \<Rightarrow> uint may_panic" where
  "uint_shl_assign self shift = uint_shl self shift"

definition uint_shr_assign :: "uint \<Rightarrow> uint \<Rightarrow> uint may_panic" where
  "uint_shr_assign self shift = uint_shr self shift"

definition uint_partial_cmp :: "uint \<Rightarrow> uint \<Rightarrow> ordering option" where
  "uint_partial_cmp self other = Some (uint_cmp self other)"

definition uint_debug :: "uint \<Rightarrow> bytes may_panic" where
  "uint_debug self = uint_display self"

subsection \<open>Errors\<close>

text \<open>The text of \<^verbatim>\<open>hex::FromHexError\<close> is the argument \<open>show_hex\<close>.\<close>

definition from_hex_error_display :: "(hex_error \<Rightarrow> string) \<Rightarrow> hex_error \<Rightarrow> string" where
  "from_hex_error_display show_hex e = show_hex e"

fun from_dec_str_err_display :: "from_dec_str_err \<Rightarrow> string" where
  "from_dec_str_err_display DecInvalidCharacter = ''a character is not in the range 0-9''"
| "from_dec_str_err_display DecInvalidLength = ''the number is too large for the type''"

fun radix_err_src_display :: "(hex_error \<Rightarrow> string) \<Rightarrow> from_str_radix_err_src \<Rightarrow> string" where
  "radix_err_src_display show_hex (DecSrc d) = from_dec_str_err_display d"
| "radix_err_src_display show_hex (HexSrc h) = from_hex_error_display show_hex h"

definition radix_err_display :: "(hex_error \<Rightarrow> string) \<Rightarrow> from_str_radix_err \<Rightarrow> string" where
  "radix_err_display show_hex self =
     (case err_source self of
        Some src \<Rightarrow> radix_err_src_display show_hex src
      | None \<Rightarrow>
          (case err_kind self of
             UnsupportedRadix \<Rightarrow> ''the given radix is not supported''
           | InvalidCharacter \<Rightarrow> ''input contains an invalid character''
           | InvalidLength \<Rightarrow> ''length not supported for radix or type''))"

definition radix_err_kind :: "from_str_radix_err \<Rightarrow> from_str_radix_err_kind" where
  "radix_err_kind self = err_kind self"

definition radix_err_source :: "from_str_radix_err \<Rightarrow> from_str_radix_err_src option" where
  "radix_err_source self = err_source self"

subsection \<open>Arbitrary numbers\<close>

text \<open>
  The instance for \<^verbatim>\<open>quickcheck\<close>: \<open>p\<close> is the random number between 0 and 1, \<open>gen_range\<close> and \<open>fill_bytes\<close> are the functions of the
  generator.  The instance for \<^verbatim>\<open>arbitrary\<close>: \<open>fill_buffer\<close> fills the buffer or fails.
\<close>

definition qc_range :: "rat \<Rightarrow> nat \<Rightarrow> nat" where
  "qc_range p n_bytes = (if p < 1 / 10 then n_bytes else if p < 2 / 10 then n_bytes div 2 else n_bytes div 5)"

definition uint_qc_arbitrary ::
  "(bytes \<Rightarrow> u64) \<Rightarrow> (nat \<Rightarrow> nat \<Rightarrow> 'g \<Rightarrow> nat \<times> 'g) \<Rightarrow> (nat \<Rightarrow> 'g \<Rightarrow> bytes \<times> 'g) \<Rightarrow> rat \<Rightarrow> nat \<Rightarrow> 'g \<Rightarrow> (uint \<times> 'g) may_panic" where
  "uint_qc_arbitrary read_u64 gen_range fill_bytes p n g =
     do {
       let n_bytes = n * 8;
       let (k, g) = gen_range 0 (qc_range p n_bytes) g;
       rust_assert (k \<le> n_bytes);
       let (bs, g) = fill_bytes k g;
       x \<leftarrow> uint_from_slice read_u64 n (bs @ replicate (n_bytes - k) 0);
       Some (x, g) }"

definition uint_arbitrary :: "(bytes \<Rightarrow> u64) \<Rightarrow> (nat \<Rightarrow> 'u \<Rightarrow> ('e + bytes) \<times> 'u) \<Rightarrow> nat \<Rightarrow> 'u \<Rightarrow> (('e + uint) \<times> 'u) may_panic" where
  "uint_arbitrary read_u64 fill_buffer n u =
     (case fill_buffer (n * 8) u of
        (Inl e, u) \<Rightarrow> Some (Inl e, u)
      | (Inr res, u) \<Rightarrow> do { x \<leftarrow> uint_from_array read_u64 n res; Some (Inr x, u) })"

subsection \<open>Facts\<close>

text \<open>Widening a primitive integer keeps its value, and a negative one is refused.\<close>

lemma unat_ucast_u64: "LENGTH('a::len) \<le> 64 \<Longrightarrow> unat (ucast (v :: 'a word) :: u64) = unat v"
  by (rule unat_ucast_up) simp

lemma sint_scast_u64: "LENGTH('a::len) \<le> 64 \<Longrightarrow> sint (scast (v :: 'a word) :: u64) = sint v"
  by (rule sint_up_scast) (simp add: is_up)

lemma int_unat_scast: "LENGTH('a::len) \<le> 64 \<Longrightarrow> int (unat (scast (v :: 'a word) :: u64)) = sint v mod 2 ^ 64"
  using uint_sint [of "scast v :: u64"] sint_scast_u64 [of v] by (simp add: take_bit_eq_mod)

lemma sint_u64_bounds: "LENGTH('a::len) \<le> 64 \<Longrightarrow> - (2 ^ 63) \<le> sint (v :: 'a word) \<and> sint v < 2 ^ 63"
  using sint_ge [of "scast v :: u64"] sint_lt [of "scast v :: u64"] sint_scast_u64 [of v] by simp

lemma from_primitive:
  fixes v :: "'a::len word"
  assumes "LENGTH('a) \<le> 64" "0 < n"
  shows "uint_from_unsigned n v = limbs n (unat v)" "0 \<le> sint v \<Longrightarrow> uint_from_signed n v = Some (limbs n (nat (sint v)))"
    "sint v < 0 \<Longrightarrow> uint_from_signed n v = panic"
proof -
  have l: "uint_from_u64 n x = limbs n (unat x)" for x
    using limbs_lval [of "uint_from_u64 n x"] assms(2) by simp
  show "uint_from_unsigned n v = limbs n (unat v)" by (simp add: uint_from_unsigned_def l unat_ucast_u64 [OF assms(1)])
  have "unat (scast v :: u64) = nat (sint v)" if "0 \<le> sint v"
    using that arg_cong [OF int_unat_scast [OF assms(1), of v], of nat] sint_u64_bounds [OF assms(1), of v] by simp
  then show "0 \<le> sint v \<Longrightarrow> uint_from_signed n v = Some (limbs n (nat (sint v)))" "sint v < 0 \<Longrightarrow> uint_from_signed n v = panic"
    using sint_scast_u64 [OF assms(1), of v] by (simp_all add: uint_from_signed_def uint_from_i64_def l)
qed

lemma factor_of_signed:
  fixes v :: "'a::len word"
  assumes "LENGTH('a) \<le> 64"
  shows "unat (scast v :: u64) = nat (if 0 \<le> sint v then sint v else 2 ^ 64 + sint v)"
proof (cases "0 \<le> sint v")
  case True
  then show ?thesis using sint_u64_bounds [OF assms, of v] arg_cong [OF int_unat_scast [OF assms, of v], of nat] by simp
next
  case False
  have "sint v mod 2 ^ 64 = (sint v + 2 ^ 64) mod 2 ^ 64" by simp
  also have "\<dots> = sint v + 2 ^ 64" using False sint_u64_bounds [OF assms, of v] by (intro mod_pos_pos_trivial) simp_all
  finally show ?thesis using False arg_cong [OF int_unat_scast [OF assms, of v], of nat] by (simp add: add.commute)
qed

text \<open>
  C16. The primitive integers of at most 64 bits. The conversion keeps the value of an unsigned integer and of a signed one that is not negative, and
  panics on a negative one. Multiplication by such an integer gives the exact product, or panics when it does not fit. A negative factor, though, is not
  refused as it is by the conversion: the number is multiplied by the factor plus \<open>2\<^sup>6\<^sup>4\<close>.
\<close>

theorem primitive_integers:
  fixes v :: "'a::len word"
  assumes w: "LENGTH('a) \<le> 64" and n: "length x = n" "0 < n"
  shows "uint_from_unsigned n v = limbs n (unat v) \<and>
    uint_from_signed n v = (if 0 \<le> sint v then Some (limbs n (nat (sint v))) else panic) \<and>
    uint_mul_unsigned x v = (if lval x * unat v < B ^ n then Some (limbs n (lval x * unat v)) else panic) \<and>
    uint_mul_signed x v =
      (let factor = nat (if 0 \<le> sint v then sint v else 2 ^ 64 + sint v)
       in if lval x * factor < B ^ n then Some (limbs n (lval x * factor)) else panic)"
  using from_primitive [OF w n(2), of v] uint_mul_prim_spec [OF n(1)] unat_ucast_u64 [OF w, of v] factor_of_signed [OF w, of v]
  by (simp add: uint_mul_unsigned_def uint_mul_signed_def Let_def)

theorem primitive_integers_witness:
  "uint_mul_signed [3, 0] (- 1 :: 8 word) = Some [- 3, 2] \<and> uint_from_signed 2 (- 1 :: 8 word) = panic"
  using primitive_integers [of "[3, 0]" 2 "- 1 :: 8 word"] by (simp add: literal_simps)

text \<open>An arbitrary number has the words of its type, and the generator never fails.\<close>

theorem arbitrary_typed:
  assumes laws: "big_endian_words write_u64 read_u64"
    and gen: "\<And>k. 0 < k \<Longrightarrow> fst (gen_range 0 k g) < k" and fill: "\<And>k g. length (fst (fill_bytes k g)) = k" and n: "0 < n"
  shows "\<exists>x g'. uint_qc_arbitrary read_u64 gen_range fill_bytes p n g = Some (x, g') \<and> length x = n"
proof -
  obtain k g1 where k: "gen_range 0 (qc_range p (n * 8)) g = (k, g1)" by force
  obtain bs g2 where bs: "fill_bytes k g1 = (bs, g2)" by force
  have "0 < qc_range p (n * 8)" "qc_range p (n * 8) \<le> n * 8" using n by (auto simp: qc_range_def)
  then have "k \<le> n * 8" using gen [of "qc_range p (n * 8)"] k by simp
  moreover have "length bs = k" using fill [of k g1] bs by simp
  ultimately show ?thesis using k bs big_endian_words.from_big_endian_spec [OF laws]
    by (simp add: uint_qc_arbitrary_def uint_from_slice_def)
qed

end
