(* ===== verification/Float_Conv.thy ===== *)
theory Float_Conv
  imports Complex_Main Prim_Types
begin

text \<open>
  The conversion of a \<^verbatim>\<open>U256\<close> to a floating point number in \<^verbatim>\<open>primitive-types/src/fp_conversion.rs\<close>.  A finite \<^verbatim>\<open>f64\<close> is the rational
  number it stands for, and \<open>rnd\<close> rounds the exact result of an operation to an \<^verbatim>\<open>f64\<close>.
\<close>

definition to_f64_lossy :: "(rat \<Rightarrow> rat) \<Rightarrow> uint \<Rightarrow> rat may_panic" where
  "to_f64_lossy rnd self =
     do {
       (res, factor) \<leftarrow>
         (if self ! 2 = 0 \<and> self ! 3 = 0 then Some (self, 1)
          else if self ! 3 = 0 then do { s \<leftarrow> uint_from_i64 4 64; r \<leftarrow> uint_shr self s; Some (r, rnd (2 ^ 64)) }
          else do { s \<leftarrow> uint_from_i64 4 128; r \<leftarrow> uint_shr self s; Some (r, rnd (2 ^ 128)) });
       Some (rnd (rnd (of_nat (unat (uint_low_u128 res))) * factor)) }"

text \<open>The number of words that are dropped, and the value.\<close>

definition dropped_bits :: "nat \<Rightarrow> nat" where
  "dropped_bits x = (if x < 2 ^ 128 then 0 else if x < 2 ^ 192 then 64 else 128)"

lemma four_words:
  fixes x :: uint
  assumes "length x = 4"
  shows "lval x < 2 ^ 128 \<longleftrightarrow> x ! 2 = 0 \<and> x ! 3 = 0" "lval x < 2 ^ 192 \<longleftrightarrow> x ! 3 = 0" "lval x < 2 ^ 256"
proof -
  obtain a b c d where x: "x = [a, b, c, d]" using assms by (auto simp: length_Suc_conv numeral_eq_Suc)
  have ab: "lval [a, b] < B ^ 2" and abc: "lval [a, b, c] < B ^ 3" using lval_bound [of "[a, b]"] lval_bound [of "[a, b, c]"]
    by (simp_all add: numeral_2_eq_2 numeral_3_eq_3)
  have v2: "lval x = lval [a, b] + B ^ 2 * lval [c, d]" using lval_append [of "[a, b]" "[c, d]"] by (simp add: x numeral_2_eq_2)
  have v3: "lval x = lval [a, b, c] + B ^ 3 * lval [d]" using lval_append [of "[a, b, c]" "[d]"] by (simp add: x numeral_3_eq_3)
  have "lval x < B ^ 2 \<longleftrightarrow> lval [c, d] = 0" using v2 ab by (cases "lval [c, d]") auto
  then show "lval x < 2 ^ 128 \<longleftrightarrow> x ! 2 = 0 \<and> x ! 3 = 0" by (simp add: x B_power unat_eq_0)
  have "lval x < B ^ 3 \<longleftrightarrow> lval [d] = 0" using v3 abc by (cases "lval [d]") auto
  then show "lval x < 2 ^ 192 \<longleftrightarrow> x ! 3 = 0" by (simp add: x B_power unat_eq_0)
  show "lval x < 2 ^ 256" using lval_bound [of x] assms by (simp add: B_power)
qed

lemma low_u128_exact:
  assumes len: "length x = 4" and small: "lval x < 2 ^ 128"
  shows "unat (uint_low_u128 x) = lval x"
proof -
  obtain a b c d where x: "x = [a, b, c, d]" using len by (auto simp: length_Suc_conv numeral_eq_Suc)
  have z: "c = 0" "d = 0" using four_words(1) [OF len] small by (simp_all add: x)
  have R: "radix TYPE(128) = B * B" by (simp add: radix_def)
  have ab: "unat a + B * unat b < B * B" using lval_bound [of "[a, b]"] by simp
  have u: "unat (ucast a :: u128) = unat a" "unat (ucast b :: u128) = unat b" by (simp_all add: unat_ucast_up)
  have "unat (push_bit 64 (ucast b) :: u128) = unat b * B mod radix TYPE(128)" by (simp add: unat_push_bit u B_eq)
  also have "\<dots> = B * unat b" using R unat_lt_radix [of b] by (simp add: mult.commute)
  finally have "unat (uint_low_u128 x) = (B * unat b + unat a) mod radix TYPE(128)" by (simp add: uint_low_u128_def unat_add_radix u x)
  also have "\<dots> = lval x" using ab R by (simp add: x z add.commute)
  finally show ?thesis .
qed

lemma shift_from_i64: "length x = 4 \<Longrightarrow> 0 \<le> sint s \<Longrightarrow>
    do { s \<leftarrow> uint_from_i64 4 s; r \<leftarrow> uint_shr x s; f r } = f (uint_shr_usize x (unat s))"
  by (simp add: uint_from_i64_def uint_shr_small)

lemma to_f64_value:
  assumes len: "length x = 4"
  shows "to_f64_lossy rnd x = Some (rnd (rnd (of_nat (lval x div 2 ^ dropped_bits (lval x))) *
    (if dropped_bits (lval x) = 0 then 1 else rnd (2 ^ dropped_bits (lval x)))))"
proof -
  note w = four_words [OF len]
  have low: "(of_nat (unat (uint_low_u128 (uint_shr_usize x k))) :: rat) = of_nat (lval x div 2 ^ k)" if "lval x div 2 ^ k < 2 ^ 128" for k
    using low_u128_exact [of "uint_shr_usize x k"] len that by (simp only: lval_shr length_shr)
  have s: "(0 :: int) \<le> sint (64 :: u64)" "(0 :: int) \<le> sint (128 :: u64)" by simp_all
  consider "lval x < 2 ^ 128" | "\<not> lval x < 2 ^ 128" "lval x < 2 ^ 192" | "\<not> lval x < 2 ^ 192" by blast
  then show ?thesis
  proof cases
    case 1
    then show ?thesis using w(1) arg_cong [OF low_u128_exact [OF len 1], of "of_nat :: nat \<Rightarrow> rat"] by (simp add: to_f64_lossy_def dropped_bits_def)
  next
    case 2
    have "lval x div 2 ^ 64 < 2 ^ 128" using 2(2) by (intro less_mult_imp_div_less) simp
    from low [OF this] show ?thesis using w(1,2) 2 by (simp add: to_f64_lossy_def dropped_bits_def shift_from_i64 [OF len s(1)])
  next
    case 3
    have "lval x div 2 ^ 128 < 2 ^ 128" using w(3) by (intro less_mult_imp_div_less) simp
    moreover have "\<not> lval x < 2 ^ 128" using 3 by simp
    ultimately show ?thesis using low [of 128] w(1,2) 3 by (simp add: to_f64_lossy_def dropped_bits_def shift_from_i64 [OF len s(2)])
  qed
qed

text \<open>
  Rounding that is exact on powers of two, commutes with them in the range of the type and has a relative error of at most \<open>2\<^sup>-\<^sup>5\<^sup>3\<close> gives
  a conversion with a relative error of at most \<open>2\<^sup>-\<^sup>5\<^sup>2\<close>; it never panics.
\<close>

theorem to_f64_lossy_close:
  assumes len: "length x = 4"
    and scale: "\<And>y k. k \<le> 128 \<Longrightarrow> rnd (rnd y * 2 ^ k) = rnd y * 2 ^ k" "rnd (2 ^ 64) = 2 ^ 64" "rnd (2 ^ 128) = 2 ^ 128"
    and close: "\<And>y. 0 \<le> y \<Longrightarrow> \<bar>rnd y - y\<bar> \<le> y / 2 ^ 53"
  shows "\<exists>r. to_f64_lossy rnd x = Some r \<and> \<bar>r - of_nat (lval x)\<bar> \<le> of_nat (lval x) / 2 ^ 52"
proof -
  define k where "k = dropped_bits (lval x)"
  define q where "q = lval x div 2 ^ k"
  define v :: rat where "v = of_nat (lval x)"
  have k: "k \<le> 128" "k \<noteq> 0 \<Longrightarrow> rnd (2 ^ k) = 2 ^ k" using scale(2,3) unfolding k_def dropped_bits_def by (auto simp del: power_numeral numeral_pow split: if_splits)
  have r: "to_f64_lossy rnd x = Some (rnd (of_nat q) * 2 ^ k)"
    using to_f64_value [OF len, of rnd] k(2) scale(1) [OF k(1), of "of_nat q"] scale(1) [of 0 "of_nat q"]
    unfolding k_def [symmetric] q_def [symmetric] by (cases "k = 0") simp_all
  have m: "lval x = q * 2 ^ k + lval x mod 2 ^ k" unfolding q_def by (rule div_mult_mod_eq [symmetric])
  then have qv: "of_nat q * 2 ^ k \<le> v" by (metis v_def le_add1 of_nat_le_iff of_nat_mult of_nat_numeral of_nat_power)
  have "lval x mod 2 ^ k * 2 ^ 64 \<le> lval x"
  proof (cases "k = 0")
    case False
    then have "2 ^ k * 2 ^ 64 \<le> lval x" by (auto simp: k_def dropped_bits_def split: if_splits)
    moreover have "lval x mod 2 ^ k * 2 ^ 64 \<le> 2 ^ k * 2 ^ 64" by (intro mult_le_mono1) (simp add: less_imp_le)
    ultimately show ?thesis by linarith
  qed simp
  then have "of_nat (lval x mod 2 ^ k * 2 ^ 64) \<le> v" unfolding v_def of_nat_le_iff .
  then have low: "of_nat (lval x mod 2 ^ k) \<le> v / 2 ^ 64" by (simp add: field_simps)
  have "v = of_nat q * 2 ^ k + of_nat (lval x mod 2 ^ k)" unfolding v_def by (subst m) simp
  then have "\<bar>rnd (of_nat q) * 2 ^ k - v\<bar> \<le> \<bar>rnd (of_nat q) * 2 ^ k - of_nat q * 2 ^ k\<bar> + of_nat (lval x mod 2 ^ k)" by linarith
  also have "\<bar>rnd (of_nat q) * 2 ^ k - of_nat q * 2 ^ k\<bar> = \<bar>rnd (of_nat q) - of_nat q\<bar> * 2 ^ k"
    by (simp add: abs_mult flip: left_diff_distrib)
  also have "\<dots> \<le> of_nat q / 2 ^ 53 * 2 ^ k" using close [of "of_nat q"] by (intro mult_right_mono) simp_all
  also have "\<dots> \<le> v / 2 ^ 53" using qv by (simp add: field_simps)
  finally have "\<bar>rnd (of_nat q) * 2 ^ k - v\<bar> \<le> v / 2 ^ 53 + v / 2 ^ 64" using low by linarith
  also have "\<dots> \<le> v / 2 ^ 52" by (simp add: v_def field_simps)
  finally show ?thesis using r by (simp add: v_def)
qed

end
