(* ===== verification/Paths.thy ===== *)
theory Paths
  imports Kvdb_Rocks Rlp_Codec
begin

text \<open>
  Paths: the crate \<^verbatim>\<open>parity-path\<close>, and the automatic choice of a compaction profile in \<^verbatim>\<open>kvdb-rocksdb/src/lib.rs\<close>, where the drive of the
  database is read from the output of \<^verbatim>\<open>df\<close> and the kernel tells whether it rotates.  Texts and paths are their UTF-8 bytes, and a path is
  absolute when it starts with the separator \<^verbatim>\<open>/\<close>.
\<close>

definition ascii :: "string \<Rightarrow> bytes" where
  "ascii s = map of_char s"

text \<open>\<^verbatim>\<open>PathBuf::push\<close>: an absolute path replaces, another one is appended behind one separator.\<close>

definition path_push :: "bytes \<Rightarrow> bytes \<Rightarrow> bytes" where
  "path_push path p =
     (if prefix (ascii ''/'') p then p
      else if path = [] \<or> suffix (ascii ''/'') path then path @ p
      else path @ ascii ''/'' @ p)"

subsection \<open>Configuration directories\<close>

text \<open>\<open>home\<close> is the result of \<^verbatim>\<open>home_dir()\<close>, \<open>lower\<close> the method \<^verbatim>\<open>to_lowercase\<close> of texts.\<close>

definition config_path_macos :: "bytes option \<Rightarrow> bytes \<Rightarrow> bytes may_panic" where
  "config_path_macos home name = do { home \<leftarrow> home; Some (path_push (path_push home (ascii ''Library'')) name) }"

definition config_path_windows :: "bytes option \<Rightarrow> bytes \<Rightarrow> bytes may_panic" where
  "config_path_windows home name =
     do { home \<leftarrow> home; Some (path_push (path_push (path_push home (ascii ''AppData'')) (ascii ''Roaming'')) name) }"

definition config_path :: "(bytes \<Rightarrow> bytes) \<Rightarrow> bytes option \<Rightarrow> bytes \<Rightarrow> bytes may_panic" where
  "config_path lower home name = do { home \<leftarrow> home; Some (path_push home (ascii ''.'' @ lower name)) }"

text \<open>The other functions call the \<^verbatim>\<open>config_path\<close> of the platform, their argument.\<close>

definition config_path_with :: "(bytes \<Rightarrow> bytes may_panic) \<Rightarrow> bytes \<Rightarrow> bytes \<Rightarrow> bytes may_panic" where
  "config_path_with cfg name sub = do { path \<leftarrow> cfg name; Some (path_push path sub) }"

definition ethereum_default :: "(bytes \<Rightarrow> bytes may_panic) \<Rightarrow> bytes may_panic" where
  "ethereum_default cfg = cfg (ascii ''Ethereum'')"

definition ethereum_test :: "(bytes \<Rightarrow> bytes may_panic) \<Rightarrow> bytes may_panic" where
  "ethereum_test cfg = do { path \<leftarrow> ethereum_default cfg; Some (path_push path (ascii ''testnet'')) }"

definition ethereum_with_default :: "(bytes \<Rightarrow> bytes may_panic) \<Rightarrow> bytes \<Rightarrow> bytes may_panic" where
  "ethereum_with_default cfg s = do { path \<leftarrow> ethereum_default cfg; Some (path_push path s) }"

definition ethereum_with_testnet :: "(bytes \<Rightarrow> bytes may_panic) \<Rightarrow> bytes \<Rightarrow> bytes may_panic" where
  "ethereum_with_testnet cfg s =
     do { path \<leftarrow> ethereum_default cfg; Some (path_push (path_push path (ascii ''testnet'')) s) }"

subsection \<open>Permissions\<close>

text \<open>The mode given to \<^verbatim>\<open>set_permissions\<close>; \<open>set_permissions\<close> acts on the state of the file system.\<close>

definition owner_mode :: "bool \<Rightarrow> bool \<Rightarrow> u32" where
  "owner_mode wr executable = 256 + of_bool wr * 128 + of_bool executable * 64"

definition restrict_permissions_owner ::
  "(bytes \<Rightarrow> u32 \<Rightarrow> 'w \<Rightarrow> (str + unit) \<times> 'w) \<Rightarrow> bytes \<Rightarrow> bool \<Rightarrow> bool \<Rightarrow> 'w \<Rightarrow> (str + unit) \<times> 'w" where
  "restrict_permissions_owner set_permissions file_path wr executable w = set_permissions file_path (owner_mode wr executable) w"

definition restrict_permissions_owner_other :: "bytes \<Rightarrow> bool \<Rightarrow> bool \<Rightarrow> 'w \<Rightarrow> (str + unit) \<times> 'w" where
  "restrict_permissions_owner_other file_path wr executable w = (Inr (), w)"

text \<open>The mode lets the owner read, and write and execute as asked; group and others get nothing.\<close>

theorem owner_mode_bits:
  "bit (owner_mode wr executable) n \<longleftrightarrow> n = 8 \<or> n = 7 \<and> wr \<or> n = 6 \<and> executable"
proof -
  have m: "owner_mode wr executable = push_bit 8 1 OR (if wr then push_bit 7 1 else 0) OR (if executable then push_bit 6 1 else 0)"
    by (cases wr; cases executable) (simp_all add: owner_mode_def push_bit_eq_mult)
  have one: "bit (push_bit k 1 :: u32) n \<longleftrightarrow> k < 32 \<and> n = k" for k by (auto simp: bit_exp_iff possible_bit_def)
  have zero: "\<not> bit (0 :: u32) n" by simp
  show ?thesis unfolding m bit_or_iff one if_distrib [of "\<lambda>w. bit w n"] using zero by auto
qed

text \<open>
  With a home directory that does not end with a separator, the directories of the application are below it; the name is written in lower case
  behind a dot.
\<close>

theorem ethereum_paths:
  assumes "home = Some h" "h \<noteq> []" "\<not> suffix (ascii ''/'') h" "lower (ascii ''Ethereum'') = ascii ''ethereum''" "\<not> prefix (ascii ''/'') s"
  shows "ethereum_default (config_path lower home) = Some (h @ ascii ''/.ethereum'') \<and>
    ethereum_with_default (config_path lower home) s = Some (h @ ascii ''/.ethereum/'' @ s) \<and>
    ethereum_test (config_path lower home) = Some (h @ ascii ''/.ethereum/testnet'') \<and>
    ethereum_with_testnet (config_path lower home) s = Some (h @ ascii ''/.ethereum/testnet/'' @ s)"
proof -
  have d: "ethereum_default (config_path lower home) = Some (h @ ascii ''/.ethereum'')"
    using assms(1-4) by (simp add: ethereum_default_def config_path_def path_push_def) (simp add: ascii_def)
  have join: "path_push (h @ ascii ''/.ethereum'') p = h @ ascii ''/.ethereum/'' @ p" "path_push (h @ ascii ''/.ethereum/testnet'') p = h @ ascii ''/.ethereum/testnet/'' @ p"
    if "\<not> prefix (ascii ''/'') p" for p
    using that suffix_snoc [of "[47 :: u8]"] by (auto simp: path_push_def ascii_def suffix_def append_eq_append_conv2 Cons_eq_append_conv)
  have "\<not> prefix (ascii ''/'') (ascii ''testnet'')" by (simp add: ascii_def)
  with join assms(5) d show ?thesis
    by (auto simp: ethereum_with_default_def ethereum_test_def ethereum_with_testnet_def) (simp_all add: ascii_def)
qed

subsection \<open>Compaction profiles\<close>

text \<open>
  \<open>captures_1\<close> is the first group of the match of a pattern in a text (the crate \<^verbatim>\<open>regex\<close>), or nothing when there is no match.
\<close>

definition rotational_from_df_output :: "(string \<Rightarrow> bytes \<Rightarrow> bytes option) \<Rightarrow> bytes \<Rightarrow> bytes option" where
  "rotational_from_df_output captures_1 df_out =
     (if utf8_valid df_out then
        map_option (\<lambda>drive_path. path_push (path_push (ascii ''/sys/block'') drive_path) (ascii ''queue/rotational''))
          (captures_1 ''/dev/(sd[:alpha:]{1,2})'' df_out)
      else None)"

text \<open>
  The operating system: \<open>df\<close> runs the command on a path and returns whether it succeeded and its output, nothing when it could not be run;
  \<open>read_first\<close> opens a file (nothing when this fails) and reads one byte (nothing when the file is empty).
\<close>

record profile_os =
  df :: "bytes \<Rightarrow> (bool \<times> bytes) option"
  read_first :: "bytes \<Rightarrow> u8 option option"

text \<open>\<open>to_str\<close> is the path as a text, nothing when it is no valid UTF-8.\<close>

definition profile_auto :: "(string \<Rightarrow> bytes \<Rightarrow> bytes option) \<Rightarrow> profile_os \<Rightarrow> bytes \<Rightarrow> compaction_profile" where
  "profile_auto captures_1 os db_file =
     (let to_str = (if utf8_valid db_file then Some db_file else None);
          hdd_check_file =
            do {
              path_str \<leftarrow> to_str;
              df_res \<leftarrow> df os path_str;
              out \<leftarrow> (if fst df_res then Some (snd df_res) else None);
              rotational_from_df_output captures_1 out }
      in case hdd_check_file of
           Some hdd_check \<Rightarrow>
             (case read_first os hdd_check of
                Some (Some b) \<Rightarrow> if b = 48 then profile_ssd else if b = 49 then profile_hdd else profile_default
              | _ \<Rightarrow> profile_default)
         | None \<Rightarrow> profile_default)"

definition profile_auto_other :: "bytes \<Rightarrow> compaction_profile" where
  "profile_auto_other db_file = profile_default"

text \<open>
  The profile for hard disks is chosen exactly when every step succeeds and the kernel's flag of the drive is \<^verbatim>\<open>1\<close>; the profile is that of
  solid-state disks in every other case.  The flag is read from the file of the drive named in the output.
\<close>

theorem profile_auto_correct:
  assumes rel: "\<And>pat t d. captures_1 pat t = Some d \<Longrightarrow> \<not> prefix (ascii ''/'') d \<and> d \<noteq> [] \<and> \<not> suffix (ascii ''/'') d"
  shows "profile_auto captures_1 os p = (if (\<exists>out drive. utf8_valid p \<and> df os p = Some (True, out) \<and> utf8_valid out \<and>
      captures_1 ''/dev/(sd[:alpha:]{1,2})'' out = Some drive \<and>
      read_first os (ascii ''/sys/block/'' @ drive @ ascii ''/queue/rotational'') = Some (Some 49)) then profile_hdd else profile_ssd)"
proof -
  have joined: "path_push (path_push (ascii ''/sys/block'') d) (ascii ''queue/rotational'') = ascii ''/sys/block/'' @ d @ ascii ''/queue/rotational''"
    if "captures_1 pat t = Some d" for pat t d
  proof -
    have "path_push (ascii ''/sys/block'') d = ascii ''/sys/block/'' @ d" using rel [OF that] by (simp add: path_push_def ascii_def suffix_def)
    moreover have "\<not> suffix (ascii ''/'') (ascii ''/sys/block/'' @ d)"
      using rel [OF that] by (cases d rule: rev_cases) (auto simp: ascii_def suffix_def)
    ultimately show ?thesis by (simp add: path_push_def ascii_def)
  qed
  show ?thesis
    by (cases "df os p") (auto simp: profile_auto_def rotational_from_df_output_def joined profile_default_def split: option.split)
qed

end
