(* ===== verification/Spec2Isabelle.thy ===== *)
theory Spec2Isabelle
  imports Pool_Iter Ethbloom Serde_Hex Triehash Ecies Extended_Keys Signatures Kvdb_Suite Kvdb_Web Contract_Address Mem_Size
    Rlp_Derive Uint_Extra Float_Conv Paths
begin

text \<open>
  A verification of the Parity common libraries: the Rust crates under \<^verbatim>\<open>src/\<close> that Ethereum clients share.

  \<^bold>\<open>The program and its parts.\<close>  The repository is a set of libraries that build on each other.  Fixed-width integers (\<^verbatim>\<open>uint\<close>) and hash types
  (\<^verbatim>\<open>fixed-hash\<close>) are made by macros and instantiated by \<^verbatim>\<open>primitive-types\<close> and \<^verbatim>\<open>ethereum-types\<close>; \<^verbatim>\<open>rlp\<close> encodes and decodes values, \<^verbatim>\<open>rlp-derive\<close>
  generates its implementations for structs, and \<^verbatim>\<open>impl-rlp\<close>, \<^verbatim>\<open>impl-serde\<close>, \<^verbatim>\<open>impl-codec\<close> and \<^verbatim>\<open>impl-num-traits\<close> connect the integers and hashes to the
  encodings; \<^verbatim>\<open>triehash\<close> and \<^verbatim>\<open>contract-address\<close> hash RLP; \<^verbatim>\<open>ethbloom\<close> is a hash type used as a bloom filter; \<^verbatim>\<open>transaction-pool\<close> keeps the pending
  transactions of many senders; \<^verbatim>\<open>kvdb\<close> is the interface of key-value databases with the implementations \<^verbatim>\<open>kvdb-memorydb\<close>, \<^verbatim>\<open>kvdb-rocksdb\<close> and \<^verbatim>\<open>kvdb-web\<close>
  and their common tests \<^verbatim>\<open>kvdb-shared-tests\<close>; \<^verbatim>\<open>parity-crypto\<close> wraps symmetric and elliptic-curve cryptography; \<^verbatim>\<open>parity-util-mem\<close> measures heap
  memory; \<^verbatim>\<open>keccak-hash\<close>, \<^verbatim>\<open>parity-bytes\<close>, \<^verbatim>\<open>plain_hasher\<close> and \<^verbatim>\<open>parity-path\<close> are small helpers.

  \<^bold>\<open>Conventions.\<close>  A machine integer is a word of its width; \<^verbatim>\<open>usize\<close> has 64 bits and is a natural number with the bound written out.  Code that may panic
  returns an option (type \<open>may_panic\<close> of \<open>Prelude\<close>): an arithmetic overflow, an index out of range, a failed assertion, \<^verbatim>\<open>unwrap\<close> and \<^verbatim>\<open>expect\<close> are \<open>None\<close>, as in a
  build with overflow checks.  A \<^verbatim>\<open>Result\<close> is a sum with the error on the left.  A mutable value is passed and returned.  Loops are recursive
  functions; where a loop could run forever it is a \<open>partial_function\<close> over options and the theorems show that it returns
  (\<open>evict_loop\<close> of the pool, \<open>pending_loop\<close> of its iterators, \<open>pipe_loop\<close> of the hashing of streams, \<open>rlp_iter_from\<close>).  The recursion of \<open>Triehash\<close> carries a
  fuel, which starts with more than the number of all nibbles of the keys and falls by one for every nibble that is consumed.

  \<^bold>\<open>Theories, their sources and what they show.\<close>

  \<^item> \<open>Prelude\<close>: widths, panicking arithmetic, the value \<open>lval\<close> of a list of words and its inverse \<open>limbs\<close>, generic lemmas.  \<open>Btree_Map\<close>: the ordered map of the standard library.

  \<^item> \<open>Uint_Core\<close>, \<open>Uint_Arith\<close>, \<open>Uint_Div\<close>, \<open>Uint_Pow\<close>, \<open>Uint_Conv\<close>, \<open>Uint_Extra\<close> (\<^verbatim>\<open>uint/src/uint.rs\<close>): an integer is the list of its \<open>n\<close> words, for every \<open>n\<close>.  Each
    operation is the function of the number the words stand for, or panics exactly where it must: bit operations and shifts, the carry loops, full multiplication,
    the three branches of the division with Knuth's algorithm \<^emph>\<open>D\<close> (\<open>div_mod_correct\<close>), powers and the square root by Newton's iteration, big and little endian,
    decimal and hexadecimal text in both directions, and the conversions from and multiplications by primitive integers (\<open>primitive_integers\<close>).

  \<^item> \<open>Fixed_Hash\<close> (\<^verbatim>\<open>fixed-hash/src/hash.rs\<close>, \<^verbatim>\<open>ethereum-types/src/hash.rs\<close>), \<open>Prim_Types\<close> and \<open>Float_Conv\<close> (\<^verbatim>\<open>primitive-types\<close>, \<^verbatim>\<open>impl-num-traits\<close>, \<^verbatim>\<open>impl-codec\<close>), \<open>Ethbloom\<close>
    (\<^verbatim>\<open>ethbloom/src/lib.rs\<close>): bitwise operators, conversions between widths and from and to floating point numbers, and the bloom filter (\<open>bloom_filter_correct\<close>: no false negatives, and a filter is the union of its inputs).

  \<^item> \<open>Rlp_Spec\<close> defines RLP without the code; \<open>Rlp_In\<close> (\<^verbatim>\<open>rlpin.rs\<close>) and \<open>Rlp_Stream\<close> (\<^verbatim>\<open>stream.rs\<close>) implement it: on encodings every access to a list finds the item whatever the
    offset cache holds (\<open>list_access_correct\<close>), on arbitrary bytes the decoder returns a result or an error (\<open>decoder_total\<close>), and the stream writes the encoding
    (\<open>stream_writes_encoding\<close>).  \<open>Rlp_Codec\<close> (\<^verbatim>\<open>impls.rs\<close>), \<open>Prim_Rlp\<close> (\<^verbatim>\<open>impl-rlp\<close>) and \<open>Rlp_Derive\<close> (\<^verbatim>\<open>rlp-derive\<close>: the macros as functions from a parsed struct to statements, and the
    statements run on streams and views) show the round trips; \<open>codec_roundtrips\<close> speaks of the universe \<open>rlp_type\<close> of all types with both traits, \<^verbatim>\<open>Option\<close> and \<^verbatim>\<open>Box\<close> nested at will.

  \<^item> \<open>Serde_Hex\<close> (\<^verbatim>\<open>impl-serde\<close>), \<open>Keccak_Bytes\<close> (\<^verbatim>\<open>keccak-hash\<close>, \<^verbatim>\<open>parity-bytes\<close>, \<^verbatim>\<open>plain_hasher\<close>), \<open>Triehash\<close> (\<^verbatim>\<open>triehash/src/lib.rs\<close>), \<open>Contract_Address\<close>: hexadecimal serialisation,
    hashing of streams with the errors of both ends, the root hash equal to that of the Merkle Patricia trie of the entries (\<open>trie_root_correct\<close>), and the three address schemes.

  \<^item> \<open>Pool_Txs\<close>, \<open>Pool\<close>, \<open>Pool_Iter\<close> (\<^verbatim>\<open>transaction-pool/src\<close>): the transactions of a sender, the pool with its indexes, and the iterators.  The step relation \<open>pool_step\<close> covers the
    operations that change the pool; \<open>pool_invariant\<close> shows that every reachable pool is consistent: the best and worst transactions of each sender,
    the index by hash, the memory usage.  Import and removal are described exactly; culling and the pending iterators are compared with
    specifications (\<open>culled\<close>, \<open>asks\<close> and \<open>follows\<close>) for readiness checks that keep any state.

  \<^item> \<open>Kvdb\<close> (\<^verbatim>\<open>kvdb\<close>, \<^verbatim>\<open>kvdb-memorydb\<close>), \<open>Rocks_Stats\<close> and \<open>Kvdb_Rocks\<close> (\<^verbatim>\<open>kvdb-rocksdb\<close>, \<^verbatim>\<open>kvdb/src/io_stats.rs\<close>), \<open>Kvdb_Web\<close> (\<^verbatim>\<open>kvdb-web\<close>), \<open>Kvdb_Suite\<close> (\<^verbatim>\<open>kvdb-shared-tests\<close>): a store is a map for
    each column; the databases refine it.  \<open>Kvdb_Rocks\<close> includes opening, repair, adding and removing columns, restoring and the statistics; \<open>Kvdb_Web\<close> the
    upgrade of the stores and persistence across reopening, where requests may throw, transactions abort and events not come (\<open>reliable\<close> says that nothing fails); \<open>Kvdb_Suite\<close> runs the shared tests as programs on any database that keeps the contract.

  \<^item> \<open>Crypto_Prims\<close>, \<open>Secp_Keys\<close>, \<open>Signatures\<close>, \<open>Ecies\<close>, \<open>Extended_Keys\<close> (\<^verbatim>\<open>parity-crypto/src\<close>): digests, authentication codes, ciphers and their errors; secrets as scalars modulo the
    order of the curve and public keys as points; signing, verification and recovery; encryption and decryption; derivation of child keys on the
    secret and on the public side.

  \<^item> \<open>Mem_Size\<close> (\<^verbatim>\<open>parity-util-mem\<close>): every implementation of the measurement traits and the derive macro; the shortcut for elements of constant size agrees
    with the traversal, and a shared value is counted once.  \<open>Paths\<close> (\<^verbatim>\<open>parity-path\<close>, and the choice of a compaction profile in \<^verbatim>\<open>kvdb-rocksdb\<close>).

  \<^bold>\<open>Interfaces.\<close>  Locales state what a component relies on, and each is interpreted on the model's definitions: \<open>word_binop\<close> for the carry loop, \<open>big_endian_words\<close>,
  \<open>little_endian_words\<close>, \<open>hex_decoder\<close> and \<open>hex_text\<close> for byte order and hexadecimal text, \<open>hex_iter\<close>, \<open>rlp_codec\<close> for a type that is encodable and decodable, \<open>lawful_scoring\<close> for the
  scoring of a pool, \<open>key_value_db\<close> for a database and \<open>conforming_db\<close> for one the shared tests accept, \<open>measured\<close> for a type whose heap is measured.  The code that
  is not part of the repository is an argument, and its documented behaviour a locale: \<open>rocks_contract\<close> (RocksDB and the file system), \<open>idb_contract\<close> (IndexedDB),
  \<open>keccak_contract\<close>, \<open>secp_scalars\<close>, \<open>secp_group\<close> and \<open>recoverable_signatures\<close> (the curve), \<open>key_derivation\<close>; each of these has a concrete instance, so the theorems are not vacuous.  Other
  parameters are the random generators, the serialisation framework, the allocator, the clock, the regular expressions and the rounding of floating point numbers.

  \<^bold>\<open>Bounds.\<close>  Encodings are shorter than \<open>2 ^ 32\<close> bytes where the encoder computes the length of a payload in 32 bits, and shorter than \<open>2 ^ 64\<close> bytes for the decoder; keys of a
  trie have fewer than \<open>2 ^ 29\<close> nibbles; the square root needs a type with fewer than \<open>2 ^ 32 - 1\<close> bits.  Columns are numbered by 32 bits.

  \<^bold>\<open>Not modelled.\<close>  \<^verbatim>\<open>trace-time\<close> (its only effect is a log message), the declarations that instantiate the macros at concrete widths, the trait of the pool's
  verifier, which has no implementation, the selection of the global allocator at compile time, the parser of Rust syntax under the derive macros, log messages, the unsafe pointer
  handling that keeps an iterator together with its lock, and benchmarks, examples and unit tests.  Concurrency is modelled as the sequence of the operations, each of which holds the
  lock of its database for its whole duration.
\<close>

end
